(* ===== verification/Prelude.thy ===== *)
theory Prelude
  imports Main "HOL-Library.Word"
begin

text \<open>
  Shared vocabulary of the development: the fixed-width integer types of the C code, byte
  memory with the kernel's \<open>memcpy\<close> and \<open>memset\<close> loops, fixed-size byte arrays, and the
  little-endian reads and writes that the C code spells as pointer casts. The lemmas at the
  end are the ones the component theories share; they are collected in \<open>mem_simps\<close> (byte
  memory) and \<open>unat_simps\<close> (machine arithmetic read as natural numbers). \<open>frame_simps\<close> and
  \<open>wf_intros\<close> are filled by the components: which fields an operation leaves alone, and which
  well-formedness it preserves.
\<close>

unbundle bit_operations_syntax

named_theorems mem_simps
named_theorems unat_simps
named_theorems frame_simps
named_theorems wf_intros

subsection \<open>Machine types\<close>

type_synonym u8 = "8 word"
type_synonym u16 = "16 word"
type_synonym u32 = "32 word"
type_synonym u64 = "64 word"

text \<open>Linear memory: one byte per 32-bit address, addresses wrap.\<close>

type_synonym mem = "u32 \<Rightarrow> u8"

text \<open>The value a C function returns for an error, \<open>(u32)-1\<close>.\<close>

abbreviation ERR :: u32 where "ERR \<equiv> - 1"

subsection \<open>Byte copies and fills\<close>

text \<open>
  \<open>memcpy dst src n\<close> of kernel.c, for a source that is a kernel object given as the list of its
  bytes: one byte at a time, both cursors moving up.
\<close>

fun memcpy :: "mem \<Rightarrow> u32 \<Rightarrow> u8 list \<Rightarrow> mem" where
  "memcpy m d [] = m"
| "memcpy m d (b # bs) = memcpy (m(d := b)) (d + 1) bs"

fun memset :: "mem \<Rightarrow> u32 \<Rightarrow> u8 \<Rightarrow> nat \<Rightarrow> mem" where
  "memset m d v 0 = m"
| "memset m d v (Suc n) = memset (m(d := v)) (d + 1) v n"

text \<open>The bytes a copy out of memory reads.\<close>

fun mem_load :: "mem \<Rightarrow> u32 \<Rightarrow> nat \<Rightarrow> u8 list" where
  "mem_load m a 0 = []"
| "mem_load m a (Suc n) = m a # mem_load m (a + 1) n"

text \<open>
  Fixed-size arrays: \<open>arr_put xs i ys\<close> is \<open>memcpy (xs + i, ys)\<close> on an array object, and
  \<open>arr_get\<close> reads an element; reads past the end of the modelled prefix of a C string are its
  terminating zero.
\<close>

definition arr_put :: "'a list \<Rightarrow> nat \<Rightarrow> 'a list \<Rightarrow> 'a list" where
  "arr_put xs i ys = take i xs @ ys @ drop (i + length ys) xs"

definition arr_get :: "u8 list \<Rightarrow> nat \<Rightarrow> u8" where
  "arr_get xs i = (if i < length xs then xs ! i else 0)"

subsection \<open>Little-endian integers in byte arrays\<close>

definition le16 :: "u8 list \<Rightarrow> nat \<Rightarrow> u16" where
  "le16 p i = ucast (arr_get p i) OR push_bit 8 (ucast (arr_get p (i + 1)))"

definition le32 :: "u8 list \<Rightarrow> nat \<Rightarrow> u32" where
  "le32 p i = ucast (arr_get p i) OR push_bit 8 (ucast (arr_get p (i + 1)))
     OR push_bit 16 (ucast (arr_get p (i + 2))) OR push_bit 24 (ucast (arr_get p (i + 3)))"

definition le64 :: "u8 list \<Rightarrow> nat \<Rightarrow> u64" where
  "le64 p i = ucast (le32 p i) OR push_bit 32 (ucast (le32 p (i + 4)))"

definition le32_bytes :: "u32 \<Rightarrow> u8 list" where
  "le32_bytes v = [ucast v, ucast (drop_bit 8 v), ucast (drop_bit 16 v), ucast (drop_bit 24 v)]"

definition le64_bytes :: "u64 \<Rightarrow> u8 list" where
  "le64_bytes v = le32_bytes (ucast v) @ le32_bytes (ucast (drop_bit 32 v))"

definition le16_bytes :: "u16 \<Rightarrow> u8 list" where
  "le16_bytes v = [ucast v, ucast (drop_bit 8 v)]"

subsection \<open>Machine arithmetic as natural numbers\<close>

lemmas [unat_simps] = word_le_nat_alt word_less_nat_alt unat_word_ariths unat_div unat_mod

lemma unat_lt_2_32 [simp, intro]: "unat (x :: u32) < 4294967296"
  using unsigned_less [of x, where ?'a = nat] by simp

lemma unat_le_max32 [simp]: "unat (x :: u32) \<le> 4294967295"
  using unat_lt_2_32 [of x] by linarith

lemma unat_of_nat32 [unat_simps]: "n < 4294967296 \<Longrightarrow> unat (of_nat n :: u32) = n"
  by (simp add: unat_of_nat)

lemma unat_add32: "unat a + unat b < 4294967296 \<Longrightarrow> unat (a + b :: u32) = unat a + unat b"
  by (simp add: unat_word_ariths)

lemma unat_sub32: "b \<le> a \<Longrightarrow> unat (a - b :: u32) = unat a - unat b"
  by (simp add: unat_sub)

lemma unat_mult32: "unat a * unat b < 4294967296 \<Longrightarrow> unat (a * b :: u32) = unat a * unat b"
  by (simp add: unat_word_ariths)

lemma unat_ucast64 [simp]: "unat (ucast (x :: u32) :: u64) = unat x"
  unfolding unsigned_ucast_eq
  by (rule take_bit_nat_eq_self) (rule less_trans [OF unat_lt_2_32], simp)

lemma unat_diff_Suc:
  assumes "x \<noteq> a"
  shows "unat (x - a :: u32) = Suc (unat (x - (a + 1)))"
proof -
  from assms have "x - a \<noteq> 0" by simp
  then have "unat (x - a) = Suc (unat (x - a - 1))"
    by (simp add: unat_minus_one unat_gt_0 Suc_leI)
  then show ?thesis by (simp add: diff_diff_add)
qed

text \<open>Clearing the low twelve bits rounds down to a page boundary.\<close>

lemma page_base_eq: "(x :: u32) AND - 4096 = x div 4096 * 4096"
proof -
  have "- 4096 = NOT (mask 12 :: u32)" by (simp add: mask_eq_exp_minus_1 not_eq_complement)
  moreover have "x AND NOT (mask 12) = push_bit 12 (drop_bit 12 x)"
    by (rule bit_word_eqI) (auto simp: bit_simps)
  ultimately show ?thesis by (simp add: push_bit_eq_mult drop_bit_eq_div)
qed

lemma unat_page_base: "unat ((x :: u32) AND - 4096) = unat x div 4096 * 4096"
proof -
  have "unat x div 4096 * 4096 < 4294967296"
    using unat_lt_2_32 [of x] by (meson div_times_less_eq_dividend le_less_trans)
  then show ?thesis by (simp add: page_base_eq unat_word_ariths unat_div)
qed

subsection \<open>Facts about byte memory\<close>

lemma memcpy_apply:
  "length bs \<le> 4294967296 \<Longrightarrow>
   memcpy m d bs x = (if unat (x - d) < length bs then bs ! unat (x - d) else m x)"
proof (induction bs arbitrary: m d)
  case Nil
  then show ?case by simp
next
  case (Cons b bs)
  show ?case
  proof (cases "x = d")
    case True
    have "d - (d + 1) = 4294967295" by simp
    then have "unat (d - (d + 1)) = 4294967295" by (simp only: unat_numeral) simp
    with Cons True show ?thesis by simp
  next
    case False
    with Cons show ?thesis by (simp add: unat_diff_Suc [OF False])
  qed
qed

lemma memset_memcpy: "memset m d v n = memcpy m d (replicate n v)"
  by (induction n arbitrary: m d) auto

lemma length_mem_load [simp]: "length (mem_load m a n) = n"
  by (induction n arbitrary: a) auto

lemma nth_mem_load [mem_simps]: "i < n \<Longrightarrow> mem_load m a n ! i = m (a + of_nat i)"
proof (induction n arbitrary: a i)
  case 0
  then show ?case by simp
next
  case (Suc n)
  then show ?case by (cases i) (auto simp: ac_simps)
qed

lemma mem_load_cong:
  "(\<And>i. i < n \<Longrightarrow> m (a + of_nat i) = m' (a + of_nat i)) \<Longrightarrow> mem_load m a n = mem_load m' a n"
  by (rule nth_equalityI) (auto simp: mem_simps)

lemma mem_load_memcpy [mem_simps]:
  "length bs \<le> 4294967296 \<Longrightarrow> mem_load (memcpy m a bs) a (length bs) = bs"
  by (rule nth_equalityI) (auto simp: mem_simps memcpy_apply unat_of_nat32)

lemma mem_load_add: "mem_load m a (n + k) = mem_load m a n @ mem_load m (a + of_nat n) k"
  by (induction n arbitrary: a) (auto simp: algebra_simps)

lemma memcpy_append: "memcpy m d (xs @ ys) = memcpy (memcpy m d xs) (d + of_nat (length xs)) ys"
  by (induction xs arbitrary: m d) (auto simp: algebra_simps)

lemma in_range_iff:
  fixes x v :: u32
  assumes "unat v + n \<le> 4294967296"
  shows "unat (x - v) < n \<longleftrightarrow> unat v \<le> unat x \<and> unat x < unat v + n"
proof (cases "v \<le> x")
  case True
  then have "unat (x - v) = unat x - unat v" "unat v \<le> unat x" by (simp_all add: unat_sub word_le_nat_alt)
  then show ?thesis by auto
next
  case False
  then have lt: "unat x < unat v" by (simp add: word_le_nat_alt)
  have "unat (x - v) = 4294967296 + unat x - unat v"
    using lt by (simp add: unat_sub_if_size word_size)
  then show ?thesis using lt assms by auto
qed

lemma unat_minus: "unat v \<le> unat x \<Longrightarrow> unat (x - v) = unat x - unat (v :: u32)"
  by (simp add: unat_sub word_le_nat_alt)

lemma memset_apply: "n \<le> 4294967296 \<Longrightarrow> memset m d v n x = (if unat (x - d) < n then v else m x)"
  by (simp add: memset_memcpy memcpy_apply)

subsection \<open>Facts about arrays\<close>

lemma length_arr_put [simp]: "i + length ys \<le> length xs \<Longrightarrow> length (arr_put xs i ys) = length xs"
  by (simp add: arr_put_def)

lemma nth_arr_put:
  assumes "i + length ys \<le> length xs" and "j < length xs"
  shows "arr_put xs i ys ! j = (if i \<le> j \<and> j < i + length ys then ys ! (j - i) else xs ! j)"
  using assms by (auto simp: arr_put_def nth_append min_def)

lemma arr_get_nth [simp]: "i < length xs \<Longrightarrow> arr_get xs i = xs ! i"
  by (simp add: arr_get_def)

lemma arr_get_Nil [simp]: "arr_get [] i = 0"
  by (simp add: arr_get_def)

lemma arr_get_append1 [simp]: "i < length xs \<Longrightarrow> arr_get (xs @ ys) i = arr_get xs i"
  by (simp add: arr_get_def nth_append)

lemma arr_get_Cons_0 [simp]: "arr_get (x # xs) 0 = x"
  by (simp add: arr_get_def)

lemma arr_get_Cons_Suc [simp]: "arr_get (x # xs) (Suc i) = arr_get xs i"
  by (simp add: arr_get_def)

subsection \<open>Little-endian round trips\<close>

lemma length_le32_bytes [simp]: "length (le32_bytes v) = 4"
  by (simp add: le32_bytes_def)

lemma length_le64_bytes [simp]: "length (le64_bytes v) = 8"
  by (simp add: le64_bytes_def)

lemma length_le16_bytes [simp]: "length (le16_bytes v) = 2"
  by (simp add: le16_bytes_def)

lemma le16_le16_bytes [simp]: "le16 (le16_bytes v) 0 = v"
  unfolding le16_def le16_bytes_def
  by (rule bit_word_eqI) (auto simp: bit_simps numeral_2_eq_2 le_add_diff_inverse)

lemma le32_le32_bytes [simp]: "le32 (le32_bytes v) 0 = v"
proof (rule bit_word_eqI)
  fix n :: nat
  assume n: "n < LENGTH(32)"
  consider "n < 8" | "8 \<le> n" "n < 16" | "16 \<le> n" "n < 24" | "24 \<le> n" "n < 32"
    using n by fastforce
  then show "bit (le32 (le32_bytes v) 0) n = bit v n"
    by cases (auto simp: le32_def le32_bytes_def bit_simps numeral_2_eq_2 numeral_3_eq_3)
qed

end
