(* ===== verification/UserMem.thy ===== *)
theory UserMem
  imports Prelude
begin

text \<open>
  The user address space as kernel.c lays it out, the two checks every system call makes before
  it touches user memory (\<open>user_range_ok\<close>, \<open>user_copy_str\<close>), and the string helpers of the
  kernel: C strings are byte lists read up to their first zero byte.
\<close>

subsection \<open>Layout of the user window\<close>

definition USER_BASE :: u32 where "USER_BASE = 0x00400000"
definition PAGE_SIZE :: u32 where "PAGE_SIZE = 4096"
definition USER_SPACE_SIZE :: u32 where "USER_SPACE_SIZE = 96 * 1024 * 1024"
definition USER_ARENA_SIZE :: u32 where "USER_ARENA_SIZE = 24 * 1024 * 1024"
definition USER_FB_SIZE :: u32 where "USER_FB_SIZE = 16 * 1024 * 1024"
definition USER_FB_OFFSET :: u32 where "USER_FB_OFFSET = USER_ARENA_SIZE"
definition USER_FB_BASE :: u32 where "USER_FB_BASE = USER_BASE + USER_FB_OFFSET"
definition USER_MMIO_OFFSET :: u32 where "USER_MMIO_OFFSET = USER_FB_OFFSET + USER_FB_SIZE"
definition USER_MMIO_SIZE :: u32 where "USER_MMIO_SIZE = 16 * 1024 * 1024"
definition USER_MMIO_BASE :: u32 where "USER_MMIO_BASE = USER_BASE + USER_MMIO_OFFSET"
definition USER_DMA_OFFSET :: u32 where "USER_DMA_OFFSET = USER_MMIO_OFFSET + USER_MMIO_SIZE"
definition USER_DMA_SIZE :: u32 where "USER_DMA_SIZE = 16 * 1024 * 1024"
definition USER_DMA_BASE :: u32 where "USER_DMA_BASE = USER_BASE + USER_DMA_OFFSET"
definition USER_STACK_TOP :: u32 where "USER_STACK_TOP = USER_FB_BASE"
definition USER_STACK_SIZE :: u32 where "USER_STACK_SIZE = 1 * 1024 * 1024"
definition USER_STACK_BOTTOM :: u32 where "USER_STACK_BOTTOM = USER_STACK_TOP - USER_STACK_SIZE"
definition USER_STACK_GUARD :: u32 where "USER_STACK_GUARD = USER_STACK_BOTTOM - PAGE_SIZE"
definition USER_STACK_GUARD_OFF :: u32 where
  "USER_STACK_GUARD_OFF = USER_STACK_GUARD - USER_BASE"
definition USER_TRAMP_OFF :: u32 where "USER_TRAMP_OFF = USER_STACK_GUARD_OFF - PAGE_SIZE"
definition KERNEL_IDENTITY_LIMIT :: u32 where "KERNEL_IDENTITY_LIMIT = 128 * 1024 * 1024"

lemmas layout_defs = USER_BASE_def PAGE_SIZE_def USER_SPACE_SIZE_def USER_ARENA_SIZE_def
  USER_FB_SIZE_def USER_FB_OFFSET_def USER_FB_BASE_def USER_MMIO_OFFSET_def USER_MMIO_SIZE_def
  USER_MMIO_BASE_def USER_DMA_OFFSET_def USER_DMA_SIZE_def USER_DMA_BASE_def USER_STACK_TOP_def
  USER_STACK_SIZE_def USER_STACK_BOTTOM_def USER_STACK_GUARD_def USER_STACK_GUARD_OFF_def
  USER_TRAMP_OFF_def KERNEL_IDENTITY_LIMIT_def

definition align_up :: "u32 \<Rightarrow> u32 \<Rightarrow> u32" where
  "align_up v a = (v + a - 1) AND NOT (a - 1)"

subsection \<open>Checking and copying user data\<close>

definition user_range_ok :: "u32 \<Rightarrow> u32 \<Rightarrow> bool" where
  "user_range_ok off len =
     (if off < USER_FB_OFFSET then \<not> len > USER_FB_OFFSET - off
      else (let fb_off = off - USER_FB_OFFSET in
            if fb_off \<ge> USER_FB_SIZE then False
            else \<not> len > USER_FB_SIZE - fb_off))"

text \<open>
  The copy loop of \<open>user_copy_str\<close>: at most \<open>limit\<close> bytes; the flag says that the terminating
  zero was among them, the list is the string without it.
\<close>

fun user_copy_loop :: "mem \<Rightarrow> u32 \<Rightarrow> nat \<Rightarrow> bool \<times> u8 list" where
  "user_copy_loop m src 0 = (False, [])"
| "user_copy_loop m src (Suc k) =
     (let c = m src in
      if c = 0 then (True, [])
      else (let (ok, s) = user_copy_loop m (src + 1) k in (ok, c # s)))"

definition user_copy_str :: "mem \<Rightarrow> u32 \<Rightarrow> u32 \<Rightarrow> bool \<times> u8 list" where
  "user_copy_str m off maxlen =
     (if maxlen = 0 then (False, [])
      else if off \<ge> USER_SPACE_SIZE then (False, [])
      else (let limit = USER_SPACE_SIZE - off;
                limit = (if limit > maxlen - 1 then maxlen - 1 else limit)
            in user_copy_loop m (USER_BASE + off) (unat limit)))"

subsection \<open>Kernel strings\<close>

text \<open>The string held by a byte array: everything before the first zero byte.\<close>

definition cstr :: "u8 list \<Rightarrow> u8 list" where
  "cstr s = takeWhile (\<lambda>c. c \<noteq> 0) s"

fun strlen_loop :: "u8 list \<Rightarrow> u32 \<Rightarrow> u32" where
  "strlen_loop [] n = n"
| "strlen_loop (c # s) n = (if c = 0 then n else strlen_loop s (n + 1))"

definition strlen :: "u8 list \<Rightarrow> u32" where
  "strlen s = strlen_loop s 0"

definition upcase :: "u8 \<Rightarrow> u8" where
  "upcase c = (if c \<ge> 97 \<and> c \<le> 122 then c - 32 else c)"

fun name_eq_loop :: "u8 list \<Rightarrow> u8 list \<Rightarrow> nat \<Rightarrow> nat \<Rightarrow> bool" where
  "name_eq_loop a b i 0 = True"
| "name_eq_loop a b i (Suc n) =
     (let ca = arr_get a i; cb = arr_get b i in
      if ca = 0 \<and> cb = 0 then True
      else if ca = 0 \<or> cb = 0 then False
      else if upcase ca \<noteq> upcase cb then False
      else name_eq_loop a b (Suc i) n)"

definition name_eq_ci :: "u8 list \<Rightarrow> u8 list \<Rightarrow> bool" where
  "name_eq_ci a b = name_eq_loop a b 0 16"

definition FS_NAME_LEN :: nat where "FS_NAME_LEN = 47"

fun normalize_loop :: "u8 list \<Rightarrow> nat \<Rightarrow> u8 list" where
  "normalize_loop s 0 = []"
| "normalize_loop [] (Suc n) = []"
| "normalize_loop (c # s) (Suc n) = (if c = 0 then [] else upcase c # normalize_loop s n)"

definition normalize_name :: "u8 list \<Rightarrow> u8 list" where
  "normalize_name inp = normalize_loop inp FS_NAME_LEN"

subsection \<open>What the range check promises\<close>

lemma user_range_ok_iff:
  "user_range_ok off len \<longleftrightarrow>
     (off < USER_FB_OFFSET \<and> unat off + unat len \<le> unat USER_FB_OFFSET) \<or>
     (USER_FB_OFFSET \<le> off \<and> off < USER_MMIO_OFFSET \<and>
      unat off + unat len \<le> unat USER_MMIO_OFFSET)"
proof (cases "off < USER_FB_OFFSET")
  case True
  then have "unat (USER_FB_OFFSET - off) = unat USER_FB_OFFSET - unat off"
    by (simp add: unat_sub)
  with True show ?thesis
    by (auto simp: user_range_ok_def word_less_nat_alt word_le_nat_alt)
next
  case False
  then have "unat (off - USER_FB_OFFSET) = unat off - 25165824"
    by (simp add: unat_sub layout_defs)
  moreover from this have "off - USER_FB_OFFSET < USER_FB_SIZE \<Longrightarrow>
      unat (USER_FB_SIZE - (off - USER_FB_OFFSET)) = 16777216 - (unat off - 25165824)"
    by (subst unat_sub) (simp_all add: layout_defs word_less_nat_alt word_le_nat_alt)
  ultimately show ?thesis using False
    by (auto simp: user_range_ok_def Let_def word_less_nat_alt word_le_nat_alt layout_defs)
qed

lemma user_range_ok_end:
  "user_range_ok off len \<Longrightarrow> unat off + unat len \<le> 41943040"
  by (auto simp: user_range_ok_iff layout_defs)

text \<open>Every byte of an accepted range is one of the first two bands of the user window.\<close>

lemma user_range_ok_linear:
  assumes "user_range_ok off len" and "i < unat len"
  shows "USER_BASE \<le> USER_BASE + off + of_nat i \<and> USER_BASE + off + of_nat i < USER_MMIO_BASE"
proof -
  from assms have b: "unat off + i < 41943040"
    using user_range_ok_end [OF assms(1)] by linarith
  then have "unat (off + of_nat i) = unat off + i"
    by (simp add: unat_word_ariths unat_of_nat32)
  with b have "unat (USER_BASE + (off + of_nat i)) = 4194304 + (unat off + i)"
    by (simp add: unat_word_ariths layout_defs)
  with b show ?thesis
    by (simp add: word_le_nat_alt word_less_nat_alt layout_defs add.assoc)
qed

subsection \<open>What the string copy promises\<close>

lemma user_copy_loop_props:
  assumes "user_copy_loop m src k = (ok, s)"
  shows "length s \<le> k \<and> 0 \<notin> set s \<and> s = mem_load m src (length s) \<and>
         (ok \<longrightarrow> length s < k \<and> m (src + of_nat (length s)) = 0)"
  using assms
proof (induction m src k arbitrary: ok s rule: user_copy_loop.induct)
  case (1 m src)
  then show ?case by simp
next
  case (2 m src k)
  show ?case
  proof (cases "m src = 0")
    case True
    with 2 show ?thesis by auto
  next
    case False
    obtain ok' s' where r: "user_copy_loop m (src + 1) k = (ok', s')" by force
    with 2(2) False have "ok = ok'" "s = m src # s'" by auto
    with 2(1) [OF refl False r] False show ?thesis by (auto simp: ac_simps)
  qed
qed

lemma user_copy_loop_cong:
  "(\<And>i. i < k \<Longrightarrow> m (src + of_nat i) = m' (src + of_nat i)) \<Longrightarrow>
   user_copy_loop m src k = user_copy_loop m' src k"
proof (induction k arbitrary: src)
  case 0
  then show ?case by simp
next
  case (Suc k)
  have "user_copy_loop m (src + 1) k = user_copy_loop m' (src + 1) k"
    using Suc.prems [of "Suc i" for i] by (intro Suc.IH) (auto simp: ac_simps)
  with Suc.prems [of 0] show ?case by (simp add: Let_def)
qed

lemma user_copy_str_limit:
  assumes "maxlen \<noteq> 0" and "off < USER_SPACE_SIZE"
  shows "unat (if USER_SPACE_SIZE - off > maxlen - 1 then maxlen - 1 else USER_SPACE_SIZE - off)
         = min (unat USER_SPACE_SIZE - unat off) (unat maxlen - 1)"
proof -
  have "unat (USER_SPACE_SIZE - off) = unat USER_SPACE_SIZE - unat off"
    using assms(2) by (simp add: unat_sub)
  moreover have "unat (maxlen - 1) = unat maxlen - 1"
    using assms(1) by (simp add: unat_minus_one)
  ultimately show ?thesis by (simp add: word_less_nat_alt min_def)
qed

lemma user_copy_str_eq:
  assumes "maxlen \<noteq> 0" and "off < USER_SPACE_SIZE"
  shows "user_copy_str m off maxlen = user_copy_loop m (USER_BASE + off)
           (min (unat USER_SPACE_SIZE - unat off) (unat maxlen - 1))"
  using assms user_copy_str_limit [OF assms] by (simp only: user_copy_str_def Let_def) auto

lemma user_copy_str_SomeD:
  assumes "user_copy_str m off maxlen = (True, s)"
  shows "length s < unat maxlen \<and> 0 \<notin> set s \<and> s = mem_load m (USER_BASE + off) (length s) \<and>
         m (USER_BASE + off + of_nat (length s)) = 0 \<and>
         unat off + length s < unat USER_SPACE_SIZE"
proof -
  from assms have ne: "maxlen \<noteq> 0" and lt: "off < USER_SPACE_SIZE"
    by (auto simp: user_copy_str_def split: if_splits)
  with assms have r: "user_copy_loop m (USER_BASE + off)
      (min (unat USER_SPACE_SIZE - unat off) (unat maxlen - 1)) = (True, s)"
    by (simp only: user_copy_str_eq [OF ne lt])
  from user_copy_loop_props [OF r] show ?thesis by auto
qed

text \<open>The copy depends on nothing outside the user window.\<close>

lemma user_copy_str_window:
  assumes "\<And>a. a - USER_BASE < USER_SPACE_SIZE \<Longrightarrow> m a = m' a"
  shows "user_copy_str m off maxlen = user_copy_str m' off maxlen"
proof (cases "maxlen \<noteq> 0 \<and> off < USER_SPACE_SIZE")
  case True
  let ?k = "min (unat USER_SPACE_SIZE - unat off) (unat maxlen - 1)"
  have "user_copy_loop m (USER_BASE + off) ?k = user_copy_loop m' (USER_BASE + off) ?k"
  proof (rule user_copy_loop_cong)
    fix i assume "i < ?k"
    then have "unat off + i < 100663296" by (auto simp: layout_defs)
    then have "unat (off + of_nat i) = unat off + i"
      by (simp add: unat_word_ariths unat_of_nat32)
    with \<open>unat off + i < 100663296\<close> have "off + of_nat i < USER_SPACE_SIZE"
      by (simp add: word_less_nat_alt layout_defs)
    then show "m (USER_BASE + off + of_nat i) = m' (USER_BASE + off + of_nat i)"
      by (intro assms) (simp add: algebra_simps)
  qed
  with True show ?thesis by (metis user_copy_str_eq)
next
  case False
  then show ?thesis by (auto simp: user_copy_str_def)
qed

subsection \<open>Names: the lookup key\<close>

text \<open>
  The part of a name that \<open>name_eq_ci\<close> looks at: its first 16 characters, letters folded to
  upper case. This is the key the directory is really indexed by.
\<close>

definition fs_key :: "u8 list \<Rightarrow> u8 list" where
  "fs_key s = map upcase (take 16 (cstr s))"

lemma upcase_0 [simp]: "upcase 0 = 0"
  by (simp add: upcase_def)

lemma upcase_nonzero [simp]: "upcase c = 0 \<longleftrightarrow> c = 0"
proof -
  have "c - 32 \<noteq> 0" if "97 \<le> c" using that by auto
  then show ?thesis by (auto simp: upcase_def)
qed

lemma upcase_idem [simp]: "upcase (upcase c) = upcase c"
proof (cases "c \<ge> 97 \<and> c \<le> 122")
  case True
  then have "unat (c - 32) = unat c - 32" by (simp add: unat_sub word_le_nat_alt)
  with True show ?thesis by (auto simp: upcase_def word_le_nat_alt)
next
  case False
  then show ?thesis by (auto simp: upcase_def)
qed

lemma cstr_Nil [simp]: "cstr [] = []"
  by (simp add: cstr_def)

lemma cstr_Cons [simp]: "cstr (c # s) = (if c = 0 then [] else c # cstr s)"
  by (simp add: cstr_def)

lemma cstr_no_zero [simp]: "0 \<notin> set (cstr s)"
  by (auto simp: cstr_def dest: set_takeWhileD)

lemma cstr_id [simp]: "0 \<notin> set s \<Longrightarrow> cstr s = s"
  by (auto simp: cstr_def takeWhile_eq_all_conv)

lemma cstr_append_zero [simp]: "0 \<notin> set s \<Longrightarrow> cstr (s @ 0 # t) = s"
  by (induction s) auto

lemma length_cstr_le: "length (cstr s) \<le> length s"
  by (simp add: cstr_def length_takeWhile_le)

lemma name_eq_loop_drop:
  "name_eq_loop a b i n = name_eq_loop (drop i a) (drop i b) 0 n"
proof (induction n arbitrary: a b i)
  case 0
  then show ?case by simp
next
  case (Suc n)
  have "arr_get xs i = arr_get (drop i xs) 0" for xs :: "u8 list"
    by (simp add: arr_get_def)
  moreover have "name_eq_loop a b (Suc i) n = name_eq_loop (drop i a) (drop i b) (Suc 0) n"
    using Suc.IH [of a b "Suc i"] Suc.IH [of "drop i a" "drop i b" "Suc 0"]
    by (simp add: add.commute)
  ultimately show ?case by (simp add: Let_def)
qed

lemma name_eq_loop_iff:
  "name_eq_loop a b 0 n \<longleftrightarrow> map upcase (take n (cstr a)) = map upcase (take n (cstr b))"
proof (induction n arbitrary: a b)
  case 0
  then show ?case by simp
next
  case (Suc n)
  have step: "name_eq_loop a b (Suc 0) n =
      (map upcase (take n (cstr (tl a))) = map upcase (take n (cstr (tl b))))"
    using Suc.IH name_eq_loop_drop [of a b "Suc 0"] by (simp add: drop_Suc)
  show ?case
    using step by (cases a; cases b) (auto simp: Let_def)
qed

lemma name_eq_ci_key: "name_eq_ci a b \<longleftrightarrow> fs_key a = fs_key b"
  by (simp add: name_eq_ci_def name_eq_loop_iff fs_key_def)

lemma normalize_loop_eq: "normalize_loop s n = map upcase (take n (cstr s))"
  by (induction s n rule: normalize_loop.induct) auto

lemma normalize_name_no_zero [simp]: "0 \<notin> set (normalize_name s)"
  by (auto simp: normalize_name_def normalize_loop_eq dest!: in_set_takeD)

lemma length_normalize_name: "length (normalize_name s) \<le> 47"
  by (simp add: normalize_name_def normalize_loop_eq FS_NAME_LEN_def)

lemma fs_key_normalize [simp]: "fs_key (normalize_name s) = fs_key s"
  by (simp add: fs_key_def)
     (simp add: normalize_name_def normalize_loop_eq FS_NAME_LEN_def take_map o_def)

lemma strlen_loop_eq: "strlen_loop s n = n + of_nat (length (cstr s))"
  by (induction s n rule: strlen_loop.induct) auto

lemma strlen_eq: "strlen s = of_nat (length (cstr s))"
  by (simp add: strlen_def strlen_loop_eq)

lemma align_up_page:
  assumes "unat v \<le> 4294963200"
  shows "unat (align_up v PAGE_SIZE) = (unat v + 4095) div 4096 * 4096"
proof -
  have "unat (v + 4095) = unat v + 4095"
    using assms by (simp add: unat_word_ariths)
  moreover have "align_up v PAGE_SIZE = (v + 4095) AND - 4096"
    by (simp add: align_up_def PAGE_SIZE_def algebra_simps)
  ultimately show ?thesis by (simp add: unat_page_base)
qed

end
