(* ===== verification/Threads.thy ===== *)
theory Threads
  imports UserMem
begin

text \<open>
  The thread table of kernel.c: creation, exit, the runnable test with its lazy wake-up, the
  round-robin switch done on the timer tick (\<open>thread_schedule\<close>) and the switch done when a
  thread exits (\<open>thread_exit_switch\<close>). The state is the global variables these functions touch.
\<close>

subsection \<open>Register frames\<close>

definition USER_CS :: u32 where "USER_CS = 0x1B"
definition USER_DS :: u32 where "USER_DS = 0x23"

record fault_frame =
  ff_gs :: u32  ff_fs :: u32  ff_es :: u32  ff_ds :: u32
  ff_edi :: u32  ff_esi :: u32  ff_ebp :: u32  ff_esp :: u32
  ff_ebx :: u32  ff_edx :: u32  ff_ecx :: u32  ff_eax :: u32
  ff_int_no :: u32
  ff_err :: u32
  ff_eip :: u32
  ff_cs :: u32
  ff_eflags :: u32
  ff_useresp :: u32
  ff_ss :: u32

record regs =
  r_gs :: u32  r_fs :: u32  r_es :: u32  r_ds :: u32
  r_edi :: u32  r_esi :: u32  r_ebp :: u32  r_esp :: u32
  r_ebx :: u32  r_edx :: u32  r_ecx :: u32  r_eax :: u32

text \<open>What \<open>memset (&ctx, 0, sizeof ctx)\<close> leaves.\<close>

definition zero_frame :: fault_frame where
  "zero_frame = \<lparr>ff_gs = 0, ff_fs = 0, ff_es = 0, ff_ds = 0,
     ff_edi = 0, ff_esi = 0, ff_ebp = 0, ff_esp = 0,
     ff_ebx = 0, ff_edx = 0, ff_ecx = 0, ff_eax = 0,
     ff_int_no = 0, ff_err = 0, ff_eip = 0, ff_cs = 0,
     ff_eflags = 0, ff_useresp = 0, ff_ss = 0\<rparr>"

subsection \<open>The thread table\<close>

definition MAX_THREADS :: nat where "MAX_THREADS = 8"

record thread_t =
  used :: bool
  ctx :: fault_frame
  sleep_until :: u32

record sched =
  threads :: "thread_t list"
  current_tid :: int
  thread_count :: int
  thread_exit_pending :: bool
  exit_requested :: bool
  timer_ticks :: u32

abbreviation thr :: "sched \<Rightarrow> int \<Rightarrow> thread_t" where
  "thr s tid \<equiv> threads s ! nat tid"

definition set_thr :: "int \<Rightarrow> thread_t \<Rightarrow> sched \<Rightarrow> sched" where
  "set_thr tid t s = s\<lparr>threads := (threads s)[nat tid := t]\<rparr>"

definition thread_clear_all :: "sched \<Rightarrow> sched" where
  "thread_clear_all s =
     s\<lparr>threads := map (\<lambda>t. t\<lparr>used := False\<rparr>) (threads s), thread_count := 0, current_tid := 0\<rparr>"

text \<open>The context both \<open>thread_init_main\<close> and \<open>thread_create\<close> build field by field.\<close>

definition user_frame :: "u32 \<Rightarrow> u32 \<Rightarrow> fault_frame" where
  "user_frame entry stack = zero_frame
     \<lparr>ff_ds := USER_DS, ff_es := USER_DS, ff_fs := USER_DS, ff_gs := USER_DS,
      ff_eip := entry, ff_cs := USER_CS, ff_eflags := 0x202,
      ff_useresp := stack, ff_ss := USER_DS\<rparr>"

definition thread_init_main :: "u32 \<Rightarrow> u32 \<Rightarrow> sched \<Rightarrow> sched" where
  "thread_init_main entry stack s =
     (let s = thread_clear_all s in
      (set_thr 0 \<lparr>used = True, ctx = user_frame entry stack, sleep_until = 0\<rparr> s)
        \<lparr>thread_count := 1, current_tid := 0\<rparr>)"

fun free_slot :: "thread_t list \<Rightarrow> int \<Rightarrow> int" where
  "free_slot [] i = -1"
| "free_slot (t # ts) i = (if \<not> used t then i else free_slot ts (i + 1))"

definition thread_create :: "u32 \<Rightarrow> u32 \<Rightarrow> sched \<Rightarrow> int \<times> sched" where
  "thread_create entry stack s =
     (if thread_count s \<ge> int MAX_THREADS then (-1, s)
      else (let tid = free_slot (threads s) 0 in
            if tid < 0 then (-1, s)
            else (tid, (set_thr tid \<lparr>used = True, ctx = user_frame entry stack, sleep_until = 0\<rparr> s)
                          \<lparr>thread_count := thread_count s + 1\<rparr>)))"

definition thread_kill :: "int \<Rightarrow> sched \<Rightarrow> sched" where
  "thread_kill tid s =
     (if tid < 0 \<or> tid \<ge> int MAX_THREADS then s
      else if \<not> used (thr s tid) then s
      else (let s = set_thr tid ((thr s tid)\<lparr>used := False, sleep_until := 0\<rparr>) s;
                n = thread_count s - 1
            in s\<lparr>thread_count := (if n < 0 then 0 else n)\<rparr>))"

text \<open>The test wakes the thread as a side effect: an expired sleep is cleared.\<close>

definition thread_is_runnable :: "int \<Rightarrow> sched \<Rightarrow> bool \<times> sched" where
  "thread_is_runnable tid s =
     (if tid < 0 \<or> tid \<ge> int MAX_THREADS then (False, s)
      else if \<not> used (thr s tid) then (False, s)
      else (let w = sleep_until (thr s tid) in
            if w = 0 then (True, s)
            else if sint (timer_ticks s - w) \<ge> 0
                 then (True, set_thr tid ((thr s tid)\<lparr>sleep_until := 0\<rparr>) s)
            else (False, s)))"

text \<open>The search both switches share: up to \<open>MAX_THREADS\<close> steps round the table.\<close>

fun find_next :: "nat \<Rightarrow> int \<Rightarrow> sched \<Rightarrow> int \<times> sched" where
  "find_next 0 nx s = (nx, s)"
| "find_next (Suc k) nx s =
     (let nx = (nx + 1) mod int MAX_THREADS;
          (r, s) = thread_is_runnable nx s
      in if r then (nx, s) else find_next k nx s)"

definition thread_schedule :: "fault_frame \<Rightarrow> sched \<Rightarrow> fault_frame \<times> sched" where
  "thread_schedule f s =
     (if thread_count s = 0 then (f, s)
      else if ff_cs f \<noteq> USER_CS then (f, s)
      else if current_tid s < 0 \<or> current_tid s \<ge> int MAX_THREADS then (f, s)
      else (let cur = current_tid s;
                cur_used = used (thr s cur);
                s = (if cur_used then set_thr cur ((thr s cur)\<lparr>ctx := f\<rparr>) s else s);
                (nx, s) = find_next MAX_THREADS cur s;
                (r, s) = thread_is_runnable nx s
            in if \<not> r then (f, s)
               else (let (stay, s) = (if nx = cur \<and> cur_used then thread_is_runnable cur s
                                      else (False, s))
                     in if stay then (f, s)
                        else (ctx (thr s nx), s\<lparr>current_tid := nx\<rparr>))))"

definition regs_of_frame :: "fault_frame \<Rightarrow> regs" where
  "regs_of_frame c = \<lparr>r_gs = ff_gs c, r_fs = ff_fs c, r_es = ff_es c, r_ds = ff_ds c,
     r_edi = ff_edi c, r_esi = ff_esi c, r_ebp = ff_ebp c, r_esp = ff_esp c,
     r_ebx = ff_ebx c, r_edx = ff_edx c, r_ecx = ff_ecx c, r_eax = ff_eax c\<rparr>"

definition iret_of_frame :: "fault_frame \<Rightarrow> u32 list" where
  "iret_of_frame c = [ff_eip c, ff_cs c, ff_eflags c, ff_useresp c, ff_ss c]"

text \<open>
  Returns the C result, the registers and the five words the \<open>iret\<close> at the end of the system
  call pops.
\<close>

definition thread_exit_switch ::
    "regs \<Rightarrow> u32 list \<Rightarrow> sched \<Rightarrow> int \<times> regs \<times> u32 list \<times> sched" where
  "thread_exit_switch r frame s =
     (let s = s\<lparr>thread_exit_pending := False\<rparr>;
          s = thread_kill (current_tid s) s
      in if thread_count s \<le> 0 then (-1, r, frame, s\<lparr>exit_requested := True\<rparr>)
         else (let (nx, s) = find_next MAX_THREADS (current_tid s) s;
                   (ok, s) = thread_is_runnable nx s
               in if \<not> ok then (-1, r, frame, s\<lparr>exit_requested := True\<rparr>)
                  else (let s = s\<lparr>current_tid := nx\<rparr>; c = ctx (thr s nx)
                        in (0, regs_of_frame c, iret_of_frame c, s))))"

subsection \<open>Well-formedness\<close>

text \<open>
  The table has its eight slots, the running thread is one of them, the counter counts the used
  slots, and every stored context resumes in user mode.
\<close>

definition sched_wf :: "sched \<Rightarrow> bool" where
  "sched_wf s \<longleftrightarrow> length (threads s) = MAX_THREADS \<and>
     0 \<le> current_tid s \<and> current_tid s < int MAX_THREADS \<and>
     thread_count s = int (length (filter used (threads s))) \<and>
     (\<forall>t \<in> set (threads s). used t \<longrightarrow> ff_cs (ctx t) = USER_CS)"

text \<open>Runnable as a predicate, without the wake-up.\<close>

definition runnable :: "sched \<Rightarrow> int \<Rightarrow> bool" where
  "runnable s tid \<longleftrightarrow> 0 \<le> tid \<and> tid < int MAX_THREADS \<and> used (thr s tid) \<and>
     (sleep_until (thr s tid) = 0 \<or> sint (timer_ticks s - sleep_until (thr s tid)) \<ge> 0)"

text \<open>Two tables that differ only in sleeps that have already expired.\<close>

definition same_but_woken :: "sched \<Rightarrow> sched \<Rightarrow> bool" where
  "same_but_woken s s' \<longleftrightarrow>
     length (threads s') = length (threads s) \<and> current_tid s' = current_tid s \<and>
     thread_count s' = thread_count s \<and> timer_ticks s' = timer_ticks s \<and>
     exit_requested s' = exit_requested s \<and> thread_exit_pending s' = thread_exit_pending s \<and>
     (\<forall>i < length (threads s). used (threads s' ! i) = used (threads s ! i) \<and>
        ctx (threads s' ! i) = ctx (threads s ! i) \<and>
        (sleep_until (threads s' ! i) = sleep_until (threads s ! i) \<or>
         sleep_until (threads s' ! i) = 0 \<and>
         sint (timer_ticks s - sleep_until (threads s ! i)) \<ge> 0))"

lemma set_thr_simps [simp]:
  "length (threads (set_thr i t s)) = length (threads s)"
  "current_tid (set_thr i t s) = current_tid s"
  "thread_count (set_thr i t s) = thread_count s"
  "timer_ticks (set_thr i t s) = timer_ticks s"
  "exit_requested (set_thr i t s) = exit_requested s"
  "thread_exit_pending (set_thr i t s) = thread_exit_pending s"
  by (simp_all add: set_thr_def)

lemma nth_set_thr:
  "i < length (threads s) \<Longrightarrow>
   threads (set_thr tid t s) ! i = (if i = nat tid then t else threads s ! i)"
  by (simp add: set_thr_def nth_list_update)

lemma same_but_woken_refl [simp]: "same_but_woken s s"
  by (simp add: same_but_woken_def)

lemma same_but_woken_trans:
  assumes "same_but_woken s t" and "same_but_woken t u"
  shows "same_but_woken s u"
  unfolding same_but_woken_def
proof (intro conjI allI impI)
  fix i assume "i < length (threads s)"
  with assms show "sleep_until (threads u ! i) = sleep_until (threads s ! i) \<or>
      sleep_until (threads u ! i) = 0 \<and> sint (timer_ticks s - sleep_until (threads s ! i)) \<ge> 0"
    unfolding same_but_woken_def by metis
qed (use assms in \<open>auto simp: same_but_woken_def\<close>)

lemma same_but_woken_used_map:
  "same_but_woken s s' \<Longrightarrow> map used (threads s') = map used (threads s)"
  by (rule nth_equalityI) (auto simp: same_but_woken_def)

lemma filter_length_map: "length (filter P xs) = length (filter id (map P xs))"
  by (induction xs) auto

lemma same_but_woken_wf:
  assumes w: "same_but_woken s s'" and wf: "sched_wf s"
  shows "sched_wf s'"
proof -
  have "length (filter used (threads s')) = length (filter used (threads s))"
    using same_but_woken_used_map [OF w] filter_length_map by metis
  moreover have "ff_cs (ctx t) = USER_CS" if "t \<in> set (threads s')" "used t" for t
  proof -
    from that(1) obtain i where i: "i < length (threads s')" "t = threads s' ! i"
      by (auto simp: in_set_conv_nth)
    with w that(2) have "used (threads s ! i)" "ctx t = ctx (threads s ! i)"
        "threads s ! i \<in> set (threads s)"
      by (simp_all add: same_but_woken_def)
    with wf show ?thesis by (simp add: sched_wf_def)
  qed
  ultimately show ?thesis using w wf by (simp add: sched_wf_def same_but_woken_def)
qed

lemma same_but_woken_runnable:
  assumes "same_but_woken s s'" and "length (threads s) = MAX_THREADS"
  shows "runnable s' tid = runnable s tid"
proof (cases "0 \<le> tid \<and> tid < int MAX_THREADS")
  case True
  then have "nat tid < length (threads s)" using assms(2) by auto
  with assms(1) show ?thesis by (auto simp: runnable_def same_but_woken_def)
next
  case False
  then show ?thesis by (auto simp: runnable_def)
qed

lemma thread_is_runnable_fst [simp]: "fst (thread_is_runnable tid s) = runnable s tid"
  by (auto simp: thread_is_runnable_def runnable_def Let_def)

lemma thread_is_runnable_snd:
  "length (threads s) = MAX_THREADS \<Longrightarrow> same_but_woken s (snd (thread_is_runnable tid s))"
  by (auto simp: thread_is_runnable_def same_but_woken_def Let_def nth_set_thr)

lemma thread_is_runnable_eq:
  "thread_is_runnable tid s = (runnable s tid, snd (thread_is_runnable tid s))"
  by (simp add: prod_eq_iff)

subsection \<open>The round-robin search\<close>

text \<open>The order in which the search visits the table: \<open>k\<close> slots after \<open>nx\<close>, wrapping round.\<close>

fun ring :: "nat \<Rightarrow> int \<Rightarrow> int list" where
  "ring 0 nx = []"
| "ring (Suc k) nx = ((nx + 1) mod int MAX_THREADS) # ring k ((nx + 1) mod int MAX_THREADS)"

lemma find_next_spec:
  assumes "length (threads s) = MAX_THREADS"
  shows "same_but_woken s (snd (find_next k nx s)) \<and>
    fst (find_next k nx s) =
      (case find (runnable s) (ring k nx) of Some t \<Rightarrow> t | None \<Rightarrow> last (nx # ring k nx))"
  using assms
proof (induction k arbitrary: nx s)
  case 0
  then show ?case by simp
next
  case (Suc k)
  let ?n = "(nx + 1) mod int MAX_THREADS"
  let ?s = "snd (thread_is_runnable ?n s)"
  have w: "same_but_woken s ?s" using Suc.prems by (rule thread_is_runnable_snd)
  show ?case
  proof (cases "runnable s ?n")
    case True
    then have "find_next (Suc k) nx s = (?n, ?s)"
      by (simp add: Let_def split_beta)
    with True w show ?thesis by simp
  next
    case False
    then have eq: "find_next (Suc k) nx s = find_next k ?n ?s"
      by (simp add: Let_def split_beta)
    have len: "length (threads ?s) = MAX_THREADS"
      using w Suc.prems by (simp add: same_but_woken_def)
    have run: "runnable ?s = runnable s"
      using same_but_woken_runnable [OF w Suc.prems] by auto
    have f: "find (runnable s) (ring (Suc k) nx) = find (runnable s) (ring k ?n)"
      using False by simp
    have IH: "same_but_woken ?s (snd (find_next k ?n ?s))"
        "fst (find_next k ?n ?s) =
           (case find (runnable s) (ring k ?n) of Some t \<Rightarrow> t | None \<Rightarrow> last (?n # ring k ?n))"
      using Suc.IH [OF len, of ?n] unfolding run by blast+
    show ?thesis
      unfolding eq f using same_but_woken_trans [OF w IH(1)] IH(2) by (simp split: option.split)
  qed
qed

text \<open>Eight steps visit every slot, the starting one last.\<close>

lemma tid_cases:
  assumes "0 \<le> t" and "t < int MAX_THREADS"
  obtains "t = 0" | "t = 1" | "t = 2" | "t = 3" | "t = 4" | "t = 5" | "t = 6" | "t = 7"
  using assms by (force simp: MAX_THREADS_def)

lemma ring_8:
  "ring MAX_THREADS 0 = [1, 2, 3, 4, 5, 6, 7, 0]" "ring MAX_THREADS 1 = [2, 3, 4, 5, 6, 7, 0, 1]"
  "ring MAX_THREADS 2 = [3, 4, 5, 6, 7, 0, 1, 2]" "ring MAX_THREADS 3 = [4, 5, 6, 7, 0, 1, 2, 3]"
  "ring MAX_THREADS 4 = [5, 6, 7, 0, 1, 2, 3, 4]" "ring MAX_THREADS 5 = [6, 7, 0, 1, 2, 3, 4, 5]"
  "ring MAX_THREADS 6 = [7, 0, 1, 2, 3, 4, 5, 6]" "ring MAX_THREADS 7 = [0, 1, 2, 3, 4, 5, 6, 7]"
  by code_simp+

lemma ring_MAX:
  assumes "0 \<le> nx" and "nx < int MAX_THREADS"
  shows "set (ring MAX_THREADS nx) = {0..<int MAX_THREADS}" and "last (nx # ring MAX_THREADS nx) = nx"
proof -
  have "{0..<int MAX_THREADS} = {0, 1, 2, 3, 4, 5, 6, 7}"
    by (auto simp: MAX_THREADS_def)
  with assms show "set (ring MAX_THREADS nx) = {0..<int MAX_THREADS}"
    by (elim tid_cases [of nx]) (simp_all add: ring_8 insert_commute)
  from assms show "last (nx # ring MAX_THREADS nx) = nx"
    by (elim tid_cases [of nx]) (simp_all add: ring_8)
qed

lemma nth_ring: "i < k \<Longrightarrow> ring k nx ! i = (nx + 1 + int i) mod int MAX_THREADS"
proof (induction k arbitrary: nx i)
  case 0
  then show ?case by simp
next
  case (Suc k)
  show ?case
  proof (cases i)
    case 0
    then show ?thesis by simp
  next
    case (Suc j)
    with Suc.prems have "j < k" by simp
    from Suc.IH [OF this] Suc show ?thesis
      by (simp add: mod_add_left_eq add.assoc)
  qed
qed

lemma length_ring [simp]: "length (ring k nx) = k"
  by (induction k arbitrary: nx) auto

subsection \<open>The timer switch\<close>

text \<open>The table after the running thread's registers have been stored.\<close>

definition save_ctx :: "fault_frame \<Rightarrow> sched \<Rightarrow> sched" where
  "save_ctx f s = (if used (thr s (current_tid s))
     then set_thr (current_tid s) ((thr s (current_tid s))\<lparr>ctx := f\<rparr>) s else s)"

text \<open>The thread the round robin gives the CPU to, if any is runnable.\<close>

definition next_runnable :: "sched \<Rightarrow> int option" where
  "next_runnable s = find (runnable s) (ring MAX_THREADS (current_tid s))"

lemma save_ctx_simps [simp]:
  "length (threads (save_ctx f s)) = length (threads s)"
  "current_tid (save_ctx f s) = current_tid s"
  "thread_count (save_ctx f s) = thread_count s"
  "timer_ticks (save_ctx f s) = timer_ticks s"
  "exit_requested (save_ctx f s) = exit_requested s"
  "thread_exit_pending (save_ctx f s) = thread_exit_pending s"
  by (simp_all add: save_ctx_def)

lemma nth_save_ctx:
  assumes "i < length (threads s)"
  shows "used (threads (save_ctx f s) ! i) = used (threads s ! i)"
    and "sleep_until (threads (save_ctx f s) ! i) = sleep_until (threads s ! i)"
    and "ctx (threads (save_ctx f s) ! i) =
           (if i = nat (current_tid s) \<and> used (threads s ! i) then f else ctx (threads s ! i))"
  using assms by (auto simp: save_ctx_def nth_set_thr)

lemma runnable_save_ctx [simp]:
  assumes "length (threads s) = MAX_THREADS"
  shows "runnable (save_ctx f s) = runnable s"
proof
  fix t
  show "runnable (save_ctx f s) t = runnable s t"
  proof (cases "0 \<le> t \<and> t < int MAX_THREADS")
    case True
    then have "nat t < length (threads s)" using assms by auto
    then show ?thesis by (simp add: runnable_def nth_save_ctx)
  next
    case False
    then show ?thesis by (auto simp: runnable_def)
  qed
qed

lemma save_ctx_wf:
  assumes wf: "sched_wf s" and cs: "ff_cs f = USER_CS"
  shows "sched_wf (save_ctx f s)"
proof -
  have "map used (threads (save_ctx f s)) = map used (threads s)"
    by (rule nth_equalityI) (auto simp: nth_save_ctx)
  then have "length (filter used (threads (save_ctx f s))) = length (filter used (threads s))"
    using filter_length_map by metis
  moreover have "ff_cs (ctx t) = USER_CS" if t: "t \<in> set (threads (save_ctx f s))" "used t" for t
  proof -
    from t(1) obtain i where "i < length (threads s)" "t = threads (save_ctx f s) ! i"
      by (auto simp: in_set_conv_nth)
    with wf cs t(2) show ?thesis by (auto simp: nth_save_ctx sched_wf_def)
  qed
  ultimately show ?thesis using wf by (simp add: sched_wf_def)
qed

lemma next_runnable_runnable: "next_runnable s = Some t \<Longrightarrow> runnable s t"
  by (auto simp: next_runnable_def find_Some_iff)

lemma next_runnable_None:
  "sched_wf s \<Longrightarrow> next_runnable s = None \<Longrightarrow> \<not> runnable s t"
  using ring_MAX(1) [of "current_tid s"]
  by (auto simp: next_runnable_def find_None_iff sched_wf_def runnable_def)

lemma find_next_runnable:
  assumes wf: "sched_wf s"
  shows "same_but_woken s (snd (find_next MAX_THREADS (current_tid s) s))"
    and "fst (find_next MAX_THREADS (current_tid s) s) =
           (case next_runnable s of Some t \<Rightarrow> t | None \<Rightarrow> current_tid s)"
  using find_next_spec [of s MAX_THREADS "current_tid s"] ring_MAX(2) [of "current_tid s"] wf
  by (simp_all add: sched_wf_def next_runnable_def split: option.split)

lemma thread_schedule_unfold:
  assumes "thread_count s \<noteq> 0" "ff_cs f = USER_CS" "0 \<le> current_tid s" "current_tid s < int MAX_THREADS"
  shows "thread_schedule f s =
     (let (nx, s2) = find_next MAX_THREADS (current_tid s) (save_ctx f s);
          (r, s3) = thread_is_runnable nx s2;
          (stay, s4) = (if nx = current_tid s \<and> used (thr s (current_tid s))
                        then thread_is_runnable (current_tid s) s3 else (False, s3))
      in if \<not> r then (f, s3) else if stay then (f, s4)
         else (ctx (thr s4 nx), s4\<lparr>current_tid := nx\<rparr>))"
  using assms by (simp add: thread_schedule_def save_ctx_def Let_def split_beta)

lemma thread_schedule_eq:
  assumes wf: "sched_wf s" and cs: "ff_cs f = USER_CS"
  obtains s' where "same_but_woken (save_ctx f s) s'"
    and "thread_schedule f s =
      (case next_runnable s of
         None \<Rightarrow> (f, s')
       | Some t \<Rightarrow> (if t = current_tid s then f else ctx (thr s t), s'\<lparr>current_tid := t\<rparr>))"
proof (cases "thread_count s = 0")
  case True
  then have "filter used (threads s) = []" using wf by (simp add: sched_wf_def)
  then have unused: "\<not> used (threads s ! i)" if "i < length (threads s)" for i
    using that by (metis filter_empty_conv nth_mem)
  have "\<not> runnable s t" for t
    using unused wf by (auto simp: runnable_def sched_wf_def nat_less_iff)
  then have "next_runnable s = None" by (simp add: next_runnable_def find_None_iff)
  moreover have "save_ctx f s = s"
    using unused wf by (simp add: save_ctx_def sched_wf_def nat_less_iff)
  ultimately show ?thesis using that [of s] True by (simp add: thread_schedule_def)
next
  case False
  define cur where "cur = current_tid s"
  define s1 where "s1 = save_ctx f s"
  define nx where "nx = (case next_runnable s of Some t \<Rightarrow> t | None \<Rightarrow> cur)"
  define s2 where "s2 = snd (find_next MAX_THREADS cur s1)"
  define s3 where "s3 = snd (thread_is_runnable nx s2)"
  define s4 where "s4 = snd (thread_is_runnable cur s3)"
  have len: "length (threads s) = MAX_THREADS" and rng: "0 \<le> cur" "cur < int MAX_THREADS"
    using wf by (simp_all add: sched_wf_def cur_def)
  have wf1: "sched_wf s1" and cur1: "current_tid s1 = cur"
    using save_ctx_wf [OF wf cs] by (simp_all add: s1_def cur_def)
  have nr: "next_runnable s1 = next_runnable s"
    using len by (simp add: next_runnable_def s1_def)
  have w2: "same_but_woken s1 s2" and fn: "fst (find_next MAX_THREADS cur s1) = nx"
    using find_next_runnable [OF wf1, unfolded cur1 nr] by (simp_all add: s2_def nx_def)
  have len2: "length (threads s2) = MAX_THREADS"
    using w2 len by (simp add: same_but_woken_def s1_def)
  have w3: "same_but_woken s1 s3"
    unfolding s3_def by (rule same_but_woken_trans [OF w2 thread_is_runnable_snd [OF len2]])
  have len3: "length (threads s3) = MAX_THREADS"
    using w3 len by (simp add: same_but_woken_def s1_def)
  have w4: "same_but_woken s1 s4"
    unfolding s4_def by (rule same_but_woken_trans [OF w3 thread_is_runnable_snd [OF len3]])
  have run: "runnable s2 t = runnable s t" "runnable s3 t = runnable s t" for t
    using same_but_woken_runnable [OF w2] same_but_woken_runnable [OF w3] len
    by (auto simp: s1_def)
  have p: "find_next MAX_THREADS cur s1 = (nx, s2)"
      "thread_is_runnable nx s2 = (runnable s nx, s3)"
      "thread_is_runnable cur s3 = (runnable s cur, s4)"
    by (simp_all add: prod_eq_iff fn s2_def s3_def s4_def run [unfolded s2_def s3_def])
  have sched: "thread_schedule f s =
     (if \<not> runnable s nx then (f, s3)
      else if nx = cur \<and> used (thr s cur)
           then (if runnable s cur then (f, s4) else (ctx (thr s4 nx), s4\<lparr>current_tid := nx\<rparr>))
      else (ctx (thr s3 nx), s3\<lparr>current_tid := nx\<rparr>))"
    using False cs rng
    by (simp add: thread_schedule_unfold cur_def [symmetric] s1_def [symmetric] p)
  show ?thesis
  proof (cases "next_runnable s")
    case None
    then have "\<not> runnable s nx" using next_runnable_None [OF wf] by simp
    with None sched that [of s3] w3 show ?thesis by (simp add: s1_def)
  next
    case (Some t)
    then have t: "runnable s t" and nx: "nx = t"
      by (simp_all add: next_runnable_runnable nx_def)
    show ?thesis
    proof (cases "t = cur")
      case True
      with t have "used (thr s cur)" by (simp add: runnable_def)
      moreover have "s4\<lparr>current_tid := cur\<rparr> = s4"
        using w4 by (simp add: same_but_woken_def s1_def cur_def)
      ultimately show ?thesis
        using Some True t nx sched that [of s4] w4 by (simp add: cur_def s1_def)
    next
      case neq: False
      have "nat t < length (threads s)" "nat t \<noteq> nat cur"
        using t neq rng len by (auto simp: runnable_def)
      then have "ctx (thr s3 t) = ctx (thr s t)"
        using w3 by (simp add: same_but_woken_def nth_save_ctx s1_def cur_def)
      with Some neq t nx sched that [of s3] w3 show ?thesis by (simp add: cur_def s1_def)
    qed
  qed
qed

text \<open>
  A program with its main thread running and two more threads created, used to exhibit the
  theorems of this theory at a concrete table.
\<close>

definition two_threads :: sched where
  "two_threads = snd (thread_create 0x2000 0x9000 (thread_init_main 0x1000 0x8000
     \<lparr>threads = replicate MAX_THREADS \<lparr>used = False, ctx = zero_frame, sleep_until = 0\<rparr>,
      current_tid = 0, thread_count = 0, thread_exit_pending = False, exit_requested = False,
      timer_ticks = 0\<rparr>))"

text \<open>
  C9. The timer switch is a round robin that loses no context. Called from user mode on a
  well-formed table, \<open>thread_schedule\<close> hands the CPU to the first runnable thread after the current
  one in table order (keeping the current one if it is the only one), loads exactly the context
  that thread was saved with, stores the interrupted thread's registers in its own slot, and
  changes no other thread's context and no slot's use.
\<close>

theorem thread_schedule_round_robin:
  assumes wf: "sched_wf s" and cs: "ff_cs f = USER_CS" and run: "thread_schedule f s = (f', s')"
  shows "(case next_runnable s of
            None \<Rightarrow> f' = f \<and> current_tid s' = current_tid s
          | Some t \<Rightarrow> current_tid s' = t \<and> f' = (if t = current_tid s then f else ctx (thr s t))) \<and>
         (\<forall>i < MAX_THREADS. used (threads s' ! i) = used (threads s ! i) \<and>
            ctx (threads s' ! i) =
              (if i = nat (current_tid s) \<and> used (threads s ! i) then f else ctx (threads s ! i)))"
proof -
  obtain s1 where w: "same_but_woken (save_ctx f s) s1" and
      eq: "thread_schedule f s = (case next_runnable s of None \<Rightarrow> (f, s1)
        | Some t \<Rightarrow> (if t = current_tid s then f else ctx (thr s t), s1\<lparr>current_tid := t\<rparr>))"
    using thread_schedule_eq [OF wf cs] .
  have "length (threads s) = MAX_THREADS" using wf by (simp add: sched_wf_def)
  with w have "\<forall>i < MAX_THREADS. used (threads s1 ! i) = used (threads s ! i) \<and>
      ctx (threads s1 ! i) =
        (if i = nat (current_tid s) \<and> used (threads s ! i) then f else ctx (threads s ! i))"
    by (simp add: same_but_woken_def nth_save_ctx)
  moreover have "current_tid s1 = current_tid s" using w by (simp add: same_but_woken_def)
  ultimately show ?thesis using eq run by (auto split: option.splits)
qed

lemma thread_schedule_wf [wf_intros]:
  assumes wf: "sched_wf s"
  shows "sched_wf (snd (thread_schedule f s))"
proof (cases "ff_cs f = USER_CS")
  case True
  obtain s1 where w: "same_but_woken (save_ctx f s) s1" and
      eq: "thread_schedule f s = (case next_runnable s of None \<Rightarrow> (f, s1)
        | Some t \<Rightarrow> (if t = current_tid s then f else ctx (thr s t), s1\<lparr>current_tid := t\<rparr>))"
    using thread_schedule_eq [OF wf True] .
  have wf1: "sched_wf s1" using same_but_woken_wf [OF w save_ctx_wf [OF wf True]] .
  show ?thesis
  proof (cases "next_runnable s")
    case None
    with eq wf1 show ?thesis by simp
  next
    case (Some t)
    then have "runnable s t" by (rule next_runnable_runnable)
    with Some eq wf1 show ?thesis by (simp add: sched_wf_def runnable_def)
  qed
next
  case False
  with wf show ?thesis by (simp add: thread_schedule_def)
qed

subsection \<open>Creation, exit and the counter\<close>

lemma count_used_update:
  assumes "i < length ts" and "used t \<noteq> used (ts ! i)"
  shows "int (length (filter used (ts[i := t]))) =
           int (length (filter used ts)) + (if used t then 1 else -1)"
  using assms
proof (induction ts arbitrary: i)
  case Nil
  then show ?case by simp
next
  case (Cons a ts)
  show ?case
  proof (cases i)
    case 0
    with Cons.prems show ?thesis by auto
  next
    case (Suc k)
    with Cons.prems Cons.IH [of k] show ?thesis by (auto split: if_splits)
  qed
qed

lemma free_slot_bounds:
  "0 \<le> i \<Longrightarrow> free_slot ts i = -1 \<or> i \<le> free_slot ts i \<and> free_slot ts i < i + int (length ts)"
proof (induction ts arbitrary: i)
  case Nil
  then show ?case by simp
next
  case (Cons t ts)
  from Cons.IH [of "i + 1"] Cons.prems show ?case by auto
qed

lemma free_slot_spec:
  assumes "0 \<le> i"
  shows "(free_slot ts i = -1 \<longleftrightarrow> (\<forall>t \<in> set ts. used t)) \<and>
         (\<forall>k < length ts. free_slot ts i = i + int k \<longrightarrow>
            \<not> used (ts ! k) \<and> (\<forall>j < k. used (ts ! j)))"
  using assms
proof (induction ts arbitrary: i)
  case Nil
  then show ?case by simp
next
  case (Cons t ts)
  have IH: "(free_slot ts (i + 1) = -1 \<longleftrightarrow> (\<forall>t \<in> set ts. used t))"
      "\<And>k. k < length ts \<Longrightarrow> free_slot ts (i + 1) = i + 1 + int k \<Longrightarrow>
         \<not> used (ts ! k) \<and> (\<forall>j < k. used (ts ! j))"
    using Cons.IH [of "i + 1"] Cons.prems by auto
  have ne: "free_slot ts (i + 1) \<noteq> i"
    using free_slot_bounds [of "i + 1" ts] Cons.prems by auto
  show ?case
  proof (cases "used t")
    case True
    have "\<not> used ((t # ts) ! k) \<and> (\<forall>j < k. used ((t # ts) ! j))"
      if "k < length (t # ts)" "free_slot (t # ts) i = i + int k" for k
    proof (cases k)
      case 0
      with that True ne show ?thesis by simp
    next
      case (Suc k')
      with that True IH(2) [of k'] show ?thesis by (auto simp: less_Suc_eq_0_disj)
    qed
    with True IH(1) show ?thesis by simp
  next
    case False
    with Cons.prems show ?thesis by auto
  qed
qed

lemma thread_clear_all_wf:
  "length (threads s) = MAX_THREADS \<Longrightarrow> sched_wf (thread_clear_all s)"
  by (auto simp: sched_wf_def thread_clear_all_def MAX_THREADS_def filter_empty_conv)

lemma user_frame_cs [simp]: "ff_cs (user_frame e k) = USER_CS"
  by (simp add: user_frame_def)

lemma thread_init_main_wf [wf_intros]:
  assumes "length (threads s) = MAX_THREADS"
  shows "sched_wf (thread_init_main e k s)"
proof -
  let ?c = "thread_clear_all s" and ?t = "\<lparr>used = True, ctx = user_frame e k, sleep_until = 0\<rparr>"
  have c: "sched_wf ?c" "thread_count ?c = 0" "\<not> used (threads ?c ! 0)"
    using assms thread_clear_all_wf [OF assms] by (simp_all add: thread_clear_all_def MAX_THREADS_def)
  then have "int (length (filter used ((threads ?c)[0 := ?t]))) = 1"
    using count_used_update [of 0 "threads ?c" ?t] assms
    by (simp add: sched_wf_def MAX_THREADS_def)
  moreover have "\<forall>t \<in> set ((threads ?c)[0 := ?t]). used t \<longrightarrow> ff_cs (ctx t) = USER_CS"
    using c(1) by (auto simp: sched_wf_def dest!: set_update_subset_insert [THEN subsetD])
  ultimately show ?thesis using c(1)
    by (simp add: thread_init_main_def sched_wf_def set_thr_def Let_def)
qed

lemma thread_create_wf [wf_intros]:
  assumes wf: "sched_wf s"
  shows "sched_wf (snd (thread_create e k s))"
proof (cases "thread_count s \<ge> int MAX_THREADS \<or> free_slot (threads s) 0 < 0")
  case True
  with wf show ?thesis by (auto simp: thread_create_def Let_def)
next
  case False
  let ?i = "nat (free_slot (threads s) 0)"
  let ?t = "\<lparr>used = True, ctx = user_frame e k, sleep_until = 0\<rparr>"
  have i: "?i < length (threads s)" and "\<not> used (threads s ! ?i)"
    using False free_slot_bounds [of 0 "threads s"] free_slot_spec [of 0 "threads s"] by auto
  then have "int (length (filter used ((threads s)[?i := ?t]))) = thread_count s + 1"
    using count_used_update [of ?i "threads s" ?t] wf by (simp add: sched_wf_def)
  moreover have "\<forall>t \<in> set ((threads s)[?i := ?t]). used t \<longrightarrow> ff_cs (ctx t) = USER_CS"
    using wf by (auto simp: sched_wf_def dest!: set_update_subset_insert [THEN subsetD])
  ultimately show ?thesis using wf False
    by (simp add: thread_create_def sched_wf_def set_thr_def Let_def)
qed

lemma thread_kill_wf [wf_intros]:
  assumes wf: "sched_wf s"
  shows "sched_wf (thread_kill tid s)"
proof (cases "tid < 0 \<or> tid \<ge> int MAX_THREADS \<or> \<not> used (thr s tid)")
  case True
  with wf show ?thesis by (auto simp: thread_kill_def)
next
  case False
  let ?t = "(thr s tid)\<lparr>used := False, sleep_until := 0\<rparr>"
  have i: "nat tid < length (threads s)" using False wf by (auto simp: sched_wf_def)
  then have n: "int (length (filter used ((threads s)[nat tid := ?t]))) = thread_count s - 1"
    using count_used_update [of "nat tid" "threads s" ?t] wf False by (simp add: sched_wf_def)
  moreover have "\<forall>t \<in> set ((threads s)[nat tid := ?t]). used t \<longrightarrow> ff_cs (ctx t) = USER_CS"
    using wf by (auto simp: sched_wf_def dest!: set_update_subset_insert [THEN subsetD])
  moreover have "\<not> thread_count s - 1 < 0" using n by linarith
  ultimately show ?thesis using wf False
    by (simp add: thread_kill_def sched_wf_def set_thr_def Let_def) (metis filter_empty_conv i nth_mem)
qed

lemma sched_wf_flags [simp]:
  "sched_wf (s\<lparr>thread_exit_pending := b\<rparr>) = sched_wf s"
  "sched_wf (s\<lparr>exit_requested := b\<rparr>) = sched_wf s"
  "sched_wf (s\<lparr>timer_ticks := n\<rparr>) = sched_wf s"
  by (simp_all add: sched_wf_def)

text \<open>The table left by the exit of the running thread, before another one is chosen.\<close>

definition exited :: "sched \<Rightarrow> sched" where
  "exited s = thread_kill (current_tid s) (s\<lparr>thread_exit_pending := False\<rparr>)"

lemma exited_wf: "sched_wf s \<Longrightarrow> sched_wf (exited s)"
  by (simp add: exited_def thread_kill_wf)

lemma exited_simps [simp]:
  "current_tid (exited s) = current_tid s"
  "timer_ticks (exited s) = timer_ticks s"
  "exit_requested (exited s) = exit_requested s"
  by (simp_all add: exited_def thread_kill_def Let_def)

lemma nth_exited:
  assumes "sched_wf s" and "i < MAX_THREADS"
  shows "used (threads (exited s) ! i) = (used (threads s ! i) \<and> i \<noteq> nat (current_tid s))"
    and "i \<noteq> nat (current_tid s) \<Longrightarrow> threads (exited s) ! i = threads s ! i"
  using assms
  by (auto simp: exited_def thread_kill_def Let_def sched_wf_def set_thr_def nth_list_update
      split: if_splits)

lemma exited_runnable:
  assumes wf: "sched_wf s"
  shows "runnable (exited s) t \<longleftrightarrow> runnable s t \<and> t \<noteq> current_tid s"
proof (cases "0 \<le> t \<and> t < int MAX_THREADS")
  case True
  then have "nat t < MAX_THREADS" and "nat t = nat (current_tid s) \<longleftrightarrow> t = current_tid s"
    using wf by (auto simp: sched_wf_def)
  with nth_exited [OF wf, of "nat t"] show ?thesis by (auto simp: runnable_def)
next
  case False
  then show ?thesis by (auto simp: runnable_def)
qed

lemma thread_exit_switch_eq:
  assumes wf: "sched_wf s"
  obtains s' where "same_but_woken (exited s) s'"
    and "thread_exit_switch r fr s =
      (case next_runnable (exited s) of
         None \<Rightarrow> (-1, r, fr, s'\<lparr>exit_requested := True\<rparr>)
       | Some t \<Rightarrow> (0, regs_of_frame (ctx (thr s t)), iret_of_frame (ctx (thr s t)),
                    s'\<lparr>current_tid := t\<rparr>))"
proof -
  define k where "k = exited s"
  have wfk: "sched_wf k" and lk: "length (threads k) = MAX_THREADS"
    using exited_wf [OF wf] by (simp_all add: k_def sched_wf_def)
  have cur: "current_tid k = current_tid s" by (simp add: k_def)
  define s2 where "s2 = snd (find_next MAX_THREADS (current_tid s) k)"
  define nx where "nx = (case next_runnable k of Some t \<Rightarrow> t | None \<Rightarrow> current_tid s)"
  define s3 where "s3 = snd (thread_is_runnable nx s2)"
  have w2: "same_but_woken k s2" and fn: "fst (find_next MAX_THREADS (current_tid s) k) = nx"
    using find_next_runnable [OF wfk, unfolded cur] by (simp_all add: s2_def nx_def)
  have l2: "length (threads s2) = MAX_THREADS" using w2 lk by (simp add: same_but_woken_def)
  have w3: "same_but_woken k s3"
    unfolding s3_def by (rule same_but_woken_trans [OF w2 thread_is_runnable_snd [OF l2]])
  have run2: "runnable s2 nx = runnable k nx" using same_but_woken_runnable [OF w2 lk] .
  have p: "find_next MAX_THREADS (current_tid s) k = (nx, s2)"
      "thread_is_runnable nx s2 = (runnable k nx, s3)"
    by (simp_all add: prod_eq_iff fn s2_def [symmetric] s3_def run2)
  have unf: "thread_exit_switch r fr s =
     (if thread_count k \<le> 0 then (-1, r, fr, k\<lparr>exit_requested := True\<rparr>)
      else if \<not> runnable k nx then (-1, r, fr, s3\<lparr>exit_requested := True\<rparr>)
      else (0, regs_of_frame (ctx (thr s3 nx)), iret_of_frame (ctx (thr s3 nx)), s3\<lparr>current_tid := nx\<rparr>))"
    using p cur
    by (simp add: thread_exit_switch_def Let_def exited_def [symmetric] k_def [symmetric])
  show ?thesis
  proof (cases "next_runnable k")
    case None
    then have none: "\<not> runnable k t" for t using next_runnable_None [OF wfk] by blast
    show ?thesis
    proof (cases "thread_count k \<le> 0")
      case True
      with None unf that [of k] show ?thesis by (simp add: k_def)
    next
      case False
      with None unf none that [of s3] w3 show ?thesis by (simp add: k_def)
    qed
  next
    case (Some t)
    then have t: "runnable k t" and nx: "nx = t"
      by (simp_all add: next_runnable_runnable nx_def)
    have "runnable s t" "t \<noteq> current_tid s"
      using t by (simp_all add: k_def exited_runnable [OF wf])
    moreover have "0 \<le> current_tid s" using wf by (simp add: sched_wf_def)
    ultimately have nt: "nat t < MAX_THREADS" "nat t \<noteq> nat (current_tid s)"
      by (auto simp: runnable_def)
    have "thr k t \<in> set (filter used (threads k))"
      using t lk nt(1) by (simp add: runnable_def)
    then have "0 < length (filter used (threads k))" by (rule length_pos_if_in_set)
    then have "thread_count k > 0" using wfk by (simp add: sched_wf_def)
    moreover have "ctx (thr s3 t) = ctx (thr s t)"
      using w3 nt nth_exited(2) [OF wf nt] lk by (simp add: same_but_woken_def k_def)
    ultimately show ?thesis using Some unf t nx that [of s3] w3 by (simp add: k_def)
  qed
qed

lemma thread_exit_switch_wf [wf_intros]:
  assumes wf: "sched_wf s" and run: "thread_exit_switch r fr s = (rc, r', fr', s')"
  shows "sched_wf s'"
proof -
  obtain s1 where w: "same_but_woken (exited s) s1" and eq: "thread_exit_switch r fr s =
      (case next_runnable (exited s) of
         None \<Rightarrow> (-1, r, fr, s1\<lparr>exit_requested := True\<rparr>)
       | Some t \<Rightarrow> (0, regs_of_frame (ctx (thr s t)), iret_of_frame (ctx (thr s t)),
                    s1\<lparr>current_tid := t\<rparr>))"
    using thread_exit_switch_eq [OF wf] .
  have "sched_wf s1" using same_but_woken_wf [OF w exited_wf [OF wf]] .
  with eq run next_runnable_runnable [of "exited s"] show ?thesis
    by (auto simp: sched_wf_def runnable_def split: option.splits)
qed

text \<open>
  C10. Exit of a thread. \<open>thread_exit_switch\<close> frees the slot of the exiting thread and resumes the next
  runnable one with the registers and return frame it was interrupted with; when no other thread
  is runnable (which includes: all others are asleep) it returns -1, leaves the registers alone and
  requests the end of the program.
\<close>

theorem thread_exit_switch_resumes:
  assumes wf: "sched_wf s" and run: "thread_exit_switch r fr s = (rc, r', fr', s')"
  shows "\<not> used (thr s' (current_tid s)) \<and>
    (case next_runnable (exited s) of
       Some t \<Rightarrow> rc = 0 \<and> t \<noteq> current_tid s \<and> runnable s t \<and> current_tid s' = t \<and>
         r' = regs_of_frame (ctx (thr s t)) \<and> fr' = iret_of_frame (ctx (thr s t)) \<and>
         exit_requested s' = exit_requested s
     | None \<Rightarrow> rc = -1 \<and> r' = r \<and> fr' = fr \<and> exit_requested s' \<and>
         (\<forall>t. runnable s t \<longrightarrow> t = current_tid s))"
proof -
  obtain s1 where w: "same_but_woken (exited s) s1" and eq: "thread_exit_switch r fr s =
      (case next_runnable (exited s) of
         None \<Rightarrow> (-1, r, fr, s1\<lparr>exit_requested := True\<rparr>)
       | Some t \<Rightarrow> (0, regs_of_frame (ctx (thr s t)), iret_of_frame (ctx (thr s t)),
                    s1\<lparr>current_tid := t\<rparr>))"
    using thread_exit_switch_eq [OF wf] .
  have cur: "nat (current_tid s) < MAX_THREADS" "length (threads (exited s)) = MAX_THREADS"
    using wf exited_wf [OF wf] by (auto simp: sched_wf_def)
  then have "\<not> used (thr s1 (current_tid s))"
    using w nth_exited(1) [OF wf cur(1)] by (simp add: same_but_woken_def)
  moreover have "exit_requested s1 = exit_requested s"
    using w by (simp add: same_but_woken_def)
  ultimately show ?thesis
    using eq run next_runnable_runnable [of "exited s"] next_runnable_None [OF exited_wf [OF wf]]
      exited_runnable [OF wf]
    by (auto split: option.splits)
qed

subsection \<open>Every reachable table is well formed\<close>

text \<open>
  What the kernel does to the table between boot and power-off: start a program, create a
  thread, put the running thread to sleep (\<open>SYS_SLEEPF\<close>), let a tick pass (the count moves on,
  then the switch runs) and let the running thread exit.
\<close>

inductive sched_step :: "sched \<Rightarrow> sched \<Rightarrow> bool" where
  start: "sched_step s (thread_init_main e k s)"
| create: "sched_step s (snd (thread_create e k s))"
| sleepf: "sched_step s (set_thr (current_tid s) ((thr s (current_tid s))\<lparr>sleep_until := w\<rparr>) s)"
| tick: "sched_step s (snd (thread_schedule f (s\<lparr>timer_ticks := timer_ticks s + 1\<rparr>)))"
| exit: "thread_exit_switch r fr s = (rc, r', fr', s') \<Longrightarrow> sched_step s s'"

text \<open>The table as the zeroed \<open>.bss\<close> leaves it.\<close>

definition boot_sched :: sched where
  "boot_sched = \<lparr>threads = replicate MAX_THREADS \<lparr>used = False, ctx = zero_frame, sleep_until = 0\<rparr>,
     current_tid = 0, thread_count = 0, thread_exit_pending = False, exit_requested = False,
     timer_ticks = 0\<rparr>"

lemma sleepf_wf:
  assumes wf: "sched_wf s"
  shows "sched_wf (set_thr (current_tid s) ((thr s (current_tid s))\<lparr>sleep_until := w\<rparr>) s)"
proof -
  let ?i = "nat (current_tid s)"
  let ?t = "(threads s ! ?i)\<lparr>sleep_until := w\<rparr>"
  have i: "?i < length (threads s)" using wf by (auto simp: sched_wf_def)
  have "map used ((threads s)[?i := ?t]) = map used (threads s)"
    using i by (simp add: map_update list_update_same_conv)
  then have "length (filter used ((threads s)[?i := ?t])) = length (filter used (threads s))"
    using filter_length_map by metis
  moreover have "\<forall>t \<in> set ((threads s)[?i := ?t]). used t \<longrightarrow> ff_cs (ctx t) = USER_CS"
    using wf i by (auto simp: sched_wf_def dest!: set_update_subset_insert [THEN subsetD])
  ultimately show ?thesis using wf by (simp add: sched_wf_def set_thr_def)
qed

lemma sched_step_wf: "sched_step s s' \<Longrightarrow> sched_wf s \<Longrightarrow> sched_wf s'"
proof (induction rule: sched_step.induct)
  case (start s e k)
  then have "length (threads s) = MAX_THREADS" by (simp add: sched_wf_def)
  then show ?case by (rule thread_init_main_wf)
next
  case (exit r fr s rc r' fr' s')
  then show ?case using thread_exit_switch_wf by blast
qed (simp_all add: thread_create_wf sleepf_wf thread_schedule_wf)

inductive sched_reachable :: "sched \<Rightarrow> bool" where
  boot: "sched_reachable boot_sched"
| step: "sched_reachable s \<Longrightarrow> sched_step s s' \<Longrightarrow> sched_reachable s'"

text \<open>
  C11. Every thread table reachable from boot through program start, thread creation,
  sleeping, timer switches and thread exits is well formed: eight slots, a current thread in range,
  a thread count equal to the number of used slots, and only user-mode contexts in used slots.
\<close>

theorem sched_reachable_wf: "sched_reachable s \<Longrightarrow> sched_wf s"
proof (induction rule: sched_reachable.induct)
  case boot
  show ?case by (simp add: sched_wf_def boot_sched_def MAX_THREADS_def)
next
  case (step s s')
  then show ?case using sched_step_wf by blast
qed

subsection \<open>No starvation\<close>

text \<open>One timer interrupt as seen by the table, and a run of them.\<close>

definition tick :: "fault_frame \<Rightarrow> sched \<Rightarrow> sched" where
  "tick f s = snd (thread_schedule f (s\<lparr>timer_ticks := timer_ticks s + 1\<rparr>))"

fun ticks :: "fault_frame list \<Rightarrow> sched \<Rightarrow> sched" where
  "ticks [] s = s"
| "ticks (f # fs) s = ticks fs (tick f s)"

text \<open>How many slots the search passes before it reaches \<open>t\<close>.\<close>

definition ring_dist :: "int \<Rightarrow> int \<Rightarrow> int" where
  "ring_dist cur t = (t - cur - 1) mod int MAX_THREADS"

definition awake :: "sched \<Rightarrow> int \<Rightarrow> bool" where
  "awake s t \<longleftrightarrow> 0 \<le> t \<and> t < int MAX_THREADS \<and> used (thr s t) \<and> sleep_until (thr s t) = 0"

lemma ring_dist_bounds: "0 \<le> ring_dist c t" "ring_dist c t < int MAX_THREADS"
  unfolding ring_dist_def by (rule pos_mod_sign, simp add: MAX_THREADS_def)
    (rule pos_mod_bound, simp add: MAX_THREADS_def)

lemma next_runnable_closer:
  assumes wf: "sched_wf s" and t: "runnable s t"
  obtains n where "next_runnable s = Some n" and "0 \<le> n" "n < int MAX_THREADS"
    and "n = t \<or> ring_dist n t < ring_dist (current_tid s) t"
proof -
  let ?c = "current_tid s" and ?r = "ring MAX_THREADS (current_tid s)"
  have rng: "0 \<le> ?c" "?c < int MAX_THREADS" using wf by (auto simp: sched_wf_def)
  have tr: "0 \<le> t" "t < int MAX_THREADS" using t by (auto simp: runnable_def)
  then have "t \<in> set ?r" using ring_MAX(1) [OF rng] by simp
  then obtain j where j: "j < MAX_THREADS" "?r ! j = t" by (metis in_set_conv_nth length_ring)
  obtain n where n: "next_runnable s = Some n"
    using next_runnable_None [OF wf] t by fastforce
  then obtain i where i: "i < MAX_THREADS" "?r ! i = n" "\<forall>k < i. \<not> runnable s (?r ! k)"
    by (auto simp: next_runnable_def find_Some_iff)
  have "i \<le> j" using i(3) j t by (metis not_le)
  have nr: "0 \<le> n" "n < int MAX_THREADS"
    using n next_runnable_runnable by (auto simp: runnable_def)
  have dj: "t = (?c + 1 + int j) mod 8" and di: "n = (?c + 1 + int i) mod 8"
    using nth_ring [OF j(1)] nth_ring [OF i(1)] i(2) j(2) by (auto simp: MAX_THREADS_def)
  have "ring_dist ?c t = int j"
    using dj j(1) by (simp add: ring_dist_def MAX_THREADS_def mod_diff_left_eq algebra_simps)
  moreover have "ring_dist n t = int j - int i - 1" if "i < j"
  proof -
    have "(t - n - 1) mod 8 = ((?c + 1 + int j) - (?c + 1 + int i) - 1) mod 8"
      unfolding dj di by (metis mod_diff_eq mod_diff_left_eq)
    also have "\<dots> = (int j - int i - 1) mod 8" by simp
    finally have "(t - n - 1) mod 8 = (int j - int i - 1) mod 8" .
    with that j(1) show ?thesis by (simp add: ring_dist_def MAX_THREADS_def)
  qed
  moreover have "n = t" if "i = j" using that i j by simp
  ultimately show ?thesis using that [OF n nr] \<open>i \<le> j\<close> by (cases "i = j") auto
qed

lemma tick_awake:
  assumes wf: "sched_wf s" and cs: "ff_cs f = USER_CS" and t: "awake s t"
  obtains n where "current_tid (tick f s) = n" and "sched_wf (tick f s)" and "awake (tick f s) t"
    and "n = t \<or> ring_dist n t < ring_dist (current_tid s) t"
proof -
  let ?s = "s\<lparr>timer_ticks := timer_ticks s + 1\<rparr>"
  have wf': "sched_wf ?s" using wf by simp
  have "runnable ?s t" using t by (simp add: awake_def runnable_def)
  then obtain n where n: "next_runnable ?s = Some n"
      "n = t \<or> ring_dist n t < ring_dist (current_tid s) t"
    using next_runnable_closer [OF wf', of t] by auto
  obtain s1 where w: "same_but_woken (save_ctx f ?s) s1" and
      eq1: "thread_schedule f ?s = (case next_runnable ?s of None \<Rightarrow> (f, s1)
        | Some t \<Rightarrow> (if t = current_tid ?s then f else ctx (thr ?s t), s1\<lparr>current_tid := t\<rparr>))"
    using thread_schedule_eq [OF wf' cs] .
  have eq: "snd (thread_schedule f ?s) = s1\<lparr>current_tid := n\<rparr>"
    unfolding eq1 n(1) by simp
  have nt: "nat t < length (threads s)" using t wf by (auto simp: awake_def sched_wf_def)
  have len: "length (threads ?s) = length (threads s)" by simp
  have "used (thr s1 t) \<and> sleep_until (thr s1 t) = 0"
    using w t nt nth_save_ctx [of "nat t" ?s f] by (auto simp: same_but_woken_def awake_def)
  then have "awake (tick f s) t" using t by (simp add: awake_def tick_def eq)
  moreover have "sched_wf (tick f s)" unfolding tick_def using wf' by (rule thread_schedule_wf)
  ultimately show ?thesis using that [of n] n(2) by (simp add: tick_def eq)
qed

lemma ticks_reach:
  assumes "sched_wf s" "awake s t" "\<forall>f \<in> set fs. ff_cs f = USER_CS"
    and "ring_dist (current_tid s) t < int (length fs)"
  shows "\<exists>k. 0 < k \<and> k \<le> length fs \<and> current_tid (ticks (take k fs) s) = t"
  using assms
proof (induction fs arbitrary: s)
  case Nil
  with ring_dist_bounds(1) [of "current_tid s" t] show ?case by simp
next
  case (Cons f fs)
  then have cs: "ff_cs f = USER_CS" by simp
  obtain n where n: "current_tid (tick f s) = n" "sched_wf (tick f s)"
      "awake (tick f s) t" "n = t \<or> ring_dist n t < ring_dist (current_tid s) t"
    using tick_awake [OF Cons.prems(1) cs Cons.prems(2)] .
  show ?case
  proof (cases "n = t")
    case True
    with n(1) show ?thesis by (intro exI [of _ 1]) simp
  next
    case False
    with n Cons.prems(4) have "ring_dist (current_tid (tick f s)) t < int (length fs)" by simp
    then obtain k
      where "0 < k" "k \<le> length fs" "current_tid (ticks (take k fs) (tick f s)) = t"
      using Cons.IH [OF n(2,3)] Cons.prems(3) by (meson list.set_intros(2))
    then show ?thesis by (intro exI [of _ "Suc k"]) simp
  qed
qed

text \<open>
  C12. No starvation. A thread that is ready to run and not asleep gets the CPU within
  \<open>MAX_THREADS\<close> = 8 timer interrupts taken in user mode, whatever registers they interrupt.
\<close>

theorem no_starvation:
  assumes "sched_wf s" and "awake s t"
    and "length fs = MAX_THREADS" and "\<forall>f \<in> set fs. ff_cs f = USER_CS"
  shows "\<exists>k. 0 < k \<and> k \<le> MAX_THREADS \<and> current_tid (ticks (take k fs) s) = t"
  using ticks_reach [OF assms(1,2,4)] ring_dist_bounds(2) assms(3) by simp


lemma two_threads_wf: "sched_wf two_threads"
  unfolding sched_wf_def by code_simp

lemma two_threads_next: "next_runnable two_threads = Some 1"
  by code_simp

lemma two_threads_exited: "next_runnable (exited two_threads) = Some 1"
  by code_simp

lemma two_threads_awake: "awake two_threads 1"
  by code_simp

lemma two_threads_current: "current_tid two_threads = 0" "runnable two_threads 1"
  by code_simp+

theorem thread_schedule_round_robin_witness:
  "current_tid (snd (thread_schedule (user_frame 7 8) two_threads)) = 1 \<and>
   fst (thread_schedule (user_frame 7 8) two_threads) = ctx (thr two_threads 1)"
  using thread_schedule_round_robin [OF two_threads_wf user_frame_cs prod.collapse [symmetric], of 7 8]
  by (simp add: two_threads_next two_threads_current)

theorem thread_exit_switch_resumes_witness:
  "fst (thread_exit_switch (regs_of_frame zero_frame) [] two_threads) = 0 \<and>
   \<not> used (thr (snd (snd (snd (thread_exit_switch (regs_of_frame zero_frame) [] two_threads)))) 0)"
proof -
  obtain rc r' fr' s' where run: "thread_exit_switch (regs_of_frame zero_frame) [] two_threads = (rc, r', fr', s')"
    using prod_cases4 by blast
  from thread_exit_switch_resumes [OF two_threads_wf run] run show ?thesis
    by (simp add: two_threads_exited two_threads_current)
qed

theorem sched_reachable_wf_witness: "sched_wf boot_sched"
  by (rule sched_reachable_wf [OF sched_reachable.boot])

theorem no_starvation_witness:
  "\<exists>k. 0 < k \<and> k \<le> MAX_THREADS \<and> current_tid (ticks (take k (replicate 8 (user_frame 7 8))) two_threads) = 1"
  by (rule no_starvation [OF two_threads_wf two_threads_awake]) (auto simp: MAX_THREADS_def)

end
