(* ===== verification/Nvme.thy ===== *)
theory Nvme
  imports Prelude
begin

text \<open>
  The data path of kernel/nvme.c: one submission and completion queue per pair, polled, with
  transfers split into chunks that go through the bounce buffer. The controller is hardware: it
  is the field \<open>nv_dev\<close> of the driver state, a function from the submission queue, the doorbell
  value and the memory it may access to what the driver's polls of the completion queue observe
  and that memory afterwards. What the driver relies on is the predicate \<open>controller_ok\<close>: the
  posting rules of the completion queue with its phase tag, and what a command does to the blocks.
\<close>

subsection \<open>Commands, queues, driver state\<close>

definition QDEPTH :: u32 where "QDEPTH = 64"
definition NVME_CHUNK :: u32 where "NVME_CHUNK = 128 * 1024"
definition CSTS_CFS :: u32 where "CSTS_CFS = 2"

record sqe_t =
  cdw0 :: u32
  c_nsid :: u32
  prp1 :: u64
  prp2 :: u64
  cdw10 :: u32
  cdw11 :: u32
  cdw12 :: u32

definition zero_sqe :: sqe_t where
  "zero_sqe = \<lparr>cdw0 = 0, c_nsid = 0, prp1 = 0, prp2 = 0, cdw10 = 0, cdw11 = 0, cdw12 = 0\<rparr>"

text \<open>
  A queue pair: the entries of the submission queue, the third word of the entries of the completion
  queue, the driver's indices, and how many completions the controller has posted since it was created.
\<close>

record queue =
  q_sq :: "sqe_t list"
  q_cq :: "u32 list"
  q_tail :: u32
  q_head :: u32
  q_phase :: u32
  q_posted :: nat

record nvme_info_t =
  present :: bool
  model :: "u8 list"
  serial :: "u8 list"
  firmware :: "u8 list"
  nsid :: u32
  block_size :: u32
  blocks :: u64
  bar :: u64
  pci_vendor :: u16
  pci_device :: u16
  pci_bus :: u8
  pci_dev :: u8
  pci_fn :: u8

text \<open>
  What the controller reads and writes when a doorbell rings: its position in the completion queue,
  that queue, the buffer the command points at, and the blocks of namespace 1. A poll is the completion
  queue as it is at that moment, then \<open>CSTS\<close>.
\<close>

type_synonym namespace = "u64 \<Rightarrow> u8 list"
type_synonym poll = "u32 \<times> u32"

record qdev =
  d_posted :: nat
  d_cq :: "u32 list"
  d_buf :: "u8 list"
  d_ns :: namespace

type_synonym controller = "sqe_t list \<Rightarrow> u32 \<Rightarrow> u64 list \<Rightarrow> qdev \<Rightarrow> (u32 list \<times> u32) list \<times> qdev"

record nvme =
  info :: nvme_info_t
  io_q :: queue
  next_cid :: u16
  doorbell_stride :: u32
  mmio_log :: "(u32 \<times> u32) list"
  bounce :: "u8 list"
  bounce_addr :: u32
  prp_list :: "u64 list"
  prp_addr :: u32
  nv_dev :: controller
  nv_ns :: namespace

subsection \<open>Doorbells and submission\<close>

definition ring_sq :: "u32 \<Rightarrow> u32 \<Rightarrow> nvme \<Rightarrow> nvme" where
  "ring_sq qid v n =
     n\<lparr>mmio_log := mmio_log n @ [(0x1000 + (2 * qid) * doorbell_stride n, v)]\<rparr>"

definition ring_cq :: "u32 \<Rightarrow> u32 \<Rightarrow> nvme \<Rightarrow> nvme" where
  "ring_cq qid v n =
     n\<lparr>mmio_log := mmio_log n @ [(0x1000 + (2 * qid + 1) * doorbell_stride n, v)]\<rparr>"

text \<open>
  The polling loop of \<open>submit\<close> over what the controller shows. \<open>Some st\<close>: a completion with the
  expected phase was seen; \<open>None\<close>: fatal controller error, or the spin limit was reached.
\<close>

fun poll_cq :: "poll list \<Rightarrow> u32 \<Rightarrow> u32 option" where
  "poll_cq [] phase = None"
| "poll_cq ((dw3, csts) # ps) phase =
     (if drop_bit 16 dw3 AND 1 = phase then Some (drop_bit 17 dw3 AND 0x7FFF)
      else if csts AND CSTS_CFS \<noteq> 0 then None
      else poll_cq ps phase)"

definition SPIN_LIMIT :: nat where "SPIN_LIMIT = 200000000"

definition poll_at :: "u32 \<Rightarrow> (u32 list \<times> u32) list \<Rightarrow> poll list" where
  "poll_at head ps = map (\<lambda>(cq, csts). (cq ! unat head, csts)) ps"

definition submit_io :: "sqe_t \<Rightarrow> nvme \<Rightarrow> int \<times> nvme" where
  "submit_io cmd n =
     (let cid = next_cid n;
          slot = cmd\<lparr>cdw0 := (cdw0 cmd AND 0x0000FFFF) OR push_bit 16 (ucast cid)\<rparr>;
          q = io_q n;
          tail = (q_tail q + 1) mod QDEPTH;
          q = q\<lparr>q_sq := (q_sq q)[unat (q_tail q) := slot], q_tail := tail\<rparr>;
          n = ring_sq 1 tail (n\<lparr>next_cid := cid + 1\<rparr>);
          (ps, v) = nv_dev n (q_sq q) tail (prp_list n)
                      \<lparr>d_posted = q_posted q, d_cq = q_cq q, d_buf = bounce n, d_ns = nv_ns n\<rparr>;
          q = q\<lparr>q_posted := d_posted v, q_cq := d_cq v\<rparr>;
          n = n\<lparr>bounce := d_buf v, nv_ns := d_ns v, io_q := q\<rparr>
      in case poll_cq (take SPIN_LIMIT (poll_at (q_head q) ps)) (q_phase q) of
           None \<Rightarrow> (-1, n)
         | Some st \<Rightarrow>
             (let head = (q_head q + 1) mod QDEPTH;
                  phase = (if head = 0 then q_phase q XOR 1 else q_phase q)
              in (int (unat st),
                  ring_cq 1 head (n\<lparr>io_q := q\<lparr>q_head := head, q_phase := phase\<rparr>\<rparr>))))"

subsection \<open>Transfers\<close>

definition rw_cmd :: "bool \<Rightarrow> u64 \<Rightarrow> u32 \<Rightarrow> nvme \<Rightarrow> sqe_t" where
  "rw_cmd wr lba count n =
     (let bytes = count * block_size (info n);
          pages = (bytes + 4095) div 4096
      in zero_sqe\<lparr>cdw0 := (if wr then 0x01 else 0x02),
           c_nsid := nsid (info n),
           prp1 := ucast (bounce_addr n),
           prp2 := (if pages = 2 then ucast (bounce_addr n + 4096)
                    else if pages > 2 then ucast (prp_addr n) else 0),
           cdw10 := ucast lba,
           cdw11 := ucast (drop_bit 32 lba),
           cdw12 := count - 1\<rparr>)"

definition rw_prps :: "u32 \<Rightarrow> nvme \<Rightarrow> u64 list" where
  "rw_prps count n =
     (let bytes = count * block_size (info n);
          pages = (bytes + 4095) div 4096
      in if pages > 2
         then arr_put (prp_list n) 0
                (map (\<lambda>i. ucast (bounce_addr n + of_nat i * 4096)) [1..<unat pages])
         else prp_list n)"

definition rw_chunk :: "bool \<Rightarrow> u64 \<Rightarrow> u32 \<Rightarrow> nvme \<Rightarrow> int \<times> nvme" where
  "rw_chunk wr lba count n =
     (let c = rw_cmd wr lba count n;
          (rc, n) = submit_io c (n\<lparr>prp_list := rw_prps count n\<rparr>)
      in (if rc = 0 then 0 else -1, n))"

text \<open>How many blocks the next command moves.\<close>

definition chunk_len :: "u32 \<Rightarrow> nvme \<Rightarrow> u32" where
  "chunk_len count n =
     (let per_chunk = NVME_CHUNK div block_size (info n)
      in if count < per_chunk then count else per_chunk)"

lemma chunk_len_le: "chunk_len count n \<le> count"
  by (auto simp: chunk_len_def Let_def not_less)

lemma chunk_len_decreases:
  assumes "chunk_len count n \<noteq> 0"
  shows "unat (count - chunk_len count n) < unat count"
proof -
  have "unat (count - chunk_len count n) = unat count - unat (chunk_len count n)"
    by (simp add: unat_sub chunk_len_le)
  moreover have "0 < unat (chunk_len count n)" using assms by (simp add: unat_gt_0)
  moreover have "unat (chunk_len count n) \<le> unat count"
    using chunk_len_le by (simp add: word_le_nat_alt)
  ultimately show ?thesis by linarith
qed

text \<open>
  The loop of \<open>rw\<close>. A write takes its bytes from \<open>p\<close>; a read returns the bytes it copied out
  before it finished or failed. The test \<open>k = 0\<close> is not in the C: it is only there for block
  sizes above the chunk size, which \<open>nvme_init\<close> refuses, where the C loop would not move.
\<close>

function rw_loop :: "bool \<Rightarrow> u64 \<Rightarrow> u32 \<Rightarrow> u8 list \<Rightarrow> nvme \<Rightarrow> int \<times> u8 list \<times> nvme" where
  "rw_loop wr lba count p n =
     (if count = 0 then (0, [], n)
      else if chunk_len count n = 0 then (-1, [], n)
      else (let k = chunk_len count n;
                bytes = unat (k * block_size (info n));
                n1 = (if wr then n\<lparr>bounce := arr_put (bounce n) 0 (take bytes p)\<rparr> else n);
                (rc, n2) = rw_chunk wr lba k n1
            in if rc \<noteq> 0 then (-1, [], n2)
               else (let got = (if wr then [] else take bytes (bounce n2));
                         (rc', rest, n3) = rw_loop wr (lba + ucast k) (count - k) (drop bytes p) n2
                     in (rc', got @ rest, n3))))"
  by pat_completeness auto
termination
  by (relation "measure (\<lambda>(wr, lba, count, p, n). unat count)") (auto simp: chunk_len_decreases)

declare rw_loop.simps [simp del]

definition rw :: "bool \<Rightarrow> u64 \<Rightarrow> u32 \<Rightarrow> u8 list \<Rightarrow> nvme \<Rightarrow> int \<times> u8 list \<times> nvme" where
  "rw wr lba count p n =
     (if \<not> present (info n) \<or> count = 0 then (-1, [], n)
      else if lba + ucast count > blocks (info n) then (-1, [], n)
      else rw_loop wr lba count p n)"

definition nvme_read :: "u64 \<Rightarrow> u32 \<Rightarrow> nvme \<Rightarrow> int \<times> u8 list \<times> nvme" where
  "nvme_read lba count n = rw False lba count [] n"

definition nvme_write :: "u64 \<Rightarrow> u32 \<Rightarrow> u8 list \<Rightarrow> nvme \<Rightarrow> int \<times> nvme" where
  "nvme_write lba count p n = (let (rc, _, n) = rw True lba count p n in (rc, n))"

subsection \<open>What the driver never touches\<close>

text \<open>The configuration found by \<open>nvme_init\<close>, which no transfer changes.\<close>

definition same_config :: "nvme \<Rightarrow> nvme \<Rightarrow> bool" where
  "same_config n n' \<longleftrightarrow> info n' = info n \<and> nv_dev n' = nv_dev n \<and>
     bounce_addr n' = bounce_addr n \<and> prp_addr n' = prp_addr n \<and>
     doorbell_stride n' = doorbell_stride n"

lemma same_config_refl [simp]: "same_config n n"
  by (simp add: same_config_def)

lemma same_config_trans: "same_config a b \<Longrightarrow> same_config b c \<Longrightarrow> same_config a c"
  by (simp add: same_config_def)

lemma submit_io_config: "same_config n (snd (submit_io c n))"
  by (auto simp: submit_io_def same_config_def Let_def ring_sq_def ring_cq_def
      split: prod.splits option.splits)

lemma rw_chunk_config: "same_config n (snd (rw_chunk wr lba k n))"
proof -
  have "same_config n (n\<lparr>prp_list := rw_prps k n\<rparr>)" by (simp add: same_config_def)
  then show ?thesis
    using submit_io_config [of "n\<lparr>prp_list := rw_prps k n\<rparr>" "rw_cmd wr lba k n"]
    by (auto simp: rw_chunk_def Let_def split_beta intro: same_config_trans)
qed

subsection \<open>What the driver relies on\<close>

text \<open>How the NVM command set reads a command: starting block, number of blocks, opcode.\<close>

definition cmd_lba :: "sqe_t \<Rightarrow> u64" where
  "cmd_lba c = ucast (cdw10 c) OR push_bit 32 (ucast (cdw11 c))"

definition cmd_count :: "sqe_t \<Rightarrow> nat" where
  "cmd_count c = unat (cdw12 c) + 1"

definition cmd_op :: "sqe_t \<Rightarrow> u32" where
  "cmd_op c = cdw0 c AND 0xFF"

text \<open>
  The pages a command of \<open>n\<close> bytes addresses: PRP1, then PRP2 itself for a two-page transfer,
  or the entries of the list PRP2 points at for a longer one.
\<close>

definition prp_pages :: "sqe_t \<Rightarrow> u32 \<Rightarrow> u64 list \<Rightarrow> nat \<Rightarrow> u64 list option" where
  "prp_pages c list_addr prps n =
     (let pages = (n + 4095) div 4096
      in if pages \<le> 1 then Some [prp1 c]
         else if pages = 2 then Some [prp1 c, prp2 c]
         else if prp2 c = ucast list_addr \<and> pages \<le> length prps + 1
              then Some (prp1 c # take (pages - 1) prps)
         else None)"

text \<open>The command's data pointer is the first \<open>n\<close> bytes of the bounce buffer, page by page.\<close>

definition prp_bounce :: "sqe_t \<Rightarrow> nvme \<Rightarrow> u64 list \<Rightarrow> nat \<Rightarrow> bool" where
  "prp_bounce c n prps k \<longleftrightarrow> prp_pages c (prp_addr n) prps k =
     Some (map (\<lambda>i. ucast (bounce_addr n + of_nat i * 4096)) [0..<max 1 ((k + 4095) div 4096)])"

text \<open>The phase tag and the status of a completion entry, and the tag of the \<open>k\<close>-th completion.\<close>

definition phase_of :: "u32 \<Rightarrow> u32" where "phase_of w = drop_bit 16 w AND 1"
definition status_of :: "u32 \<Rightarrow> u32" where "status_of w = drop_bit 17 w AND 0x7FFF"
definition tag :: "nat \<Rightarrow> u32" where "tag k = (if even (k div 64) then 1 else 0)"

text \<open>The entry before the tail that was written to the doorbell.\<close>

definition fetched :: "sqe_t list \<Rightarrow> u32 \<Rightarrow> sqe_t" where
  "fetched sq tail = sq ! (unat (tail - 1) mod 64)"

text \<open>
  The posting rules: completions go into consecutive slots of the queue, with a phase tag that is 1 on
  the first pass and flips on each further one; nothing else in the queue changes; a poll sees the slot
  as it was or as it is afterwards. A completion is posted while the driver polls and before the
  controller reports a fatal error, or not at all.
\<close>

definition posts :: "qdev \<Rightarrow> qdev \<Rightarrow> (u32 list \<times> u32) list \<Rightarrow> bool" where
  "posts v v' ps \<longleftrightarrow>
     (let s = d_posted v mod 64 in
      length (d_cq v') = 64 \<and> (\<forall>j < 64. j \<noteq> s \<longrightarrow> d_cq v' ! j = d_cq v ! j) \<and>
      (d_posted v' = d_posted v \<and> d_cq v' ! s = d_cq v ! s \<or>
       d_posted v' = d_posted v + 1 \<and> phase_of (d_cq v' ! s) = tag (d_posted v)) \<and>
      (\<forall>p \<in> set ps. fst p ! s = d_cq v ! s \<or> fst p ! s = d_cq v' ! s) \<and>
      (d_posted v' \<noteq> d_posted v \<longrightarrow>
         (\<exists>i < SPIN_LIMIT. i < length ps \<and> fst (ps ! i) ! s = d_cq v' ! s \<and> (\<forall>j < i. snd (ps ! j) AND CSTS_CFS = 0))))"

text \<open>The command was completed, and with status 0.\<close>

definition done_ok :: "qdev \<Rightarrow> qdev \<Rightarrow> bool" where
  "done_ok v v' \<longleftrightarrow> d_posted v' = d_posted v + 1 \<and> status_of (d_cq v' ! (d_posted v mod 64)) = 0"

text \<open>
  The documented behaviour of a controller with \<open>bs\<close>-byte blocks: it keeps the posting rules; the command
  in front of the doorbell changes no block outside the range it addresses, and none at all unless it is
  a write; a write that completes with status 0 has stored the data its PRPs point at; a read that completes
  with status 0 has filled them (as far as the buffer they point at goes); every block keeps its size.
\<close>

definition controller_ok :: "nvme \<Rightarrow> nat \<Rightarrow> bool" where
  "controller_ok n bs \<longleftrightarrow>
     (\<forall>sq tail prps v ps v'. nv_dev n sq tail prps v = (ps, v') \<and> (\<forall>x. length (d_ns v x) = bs) \<and> length (d_cq v) = 64 \<longrightarrow>
        posts v v' ps \<and> length (d_buf v') = length (d_buf v) \<and> (\<forall>x. length (d_ns v' x) = bs) \<and>
        (\<forall>x. d_ns v' x \<noteq> d_ns v x \<longrightarrow> cmd_op (fetched sq tail) = 1 \<and> unat (x - cmd_lba (fetched sq tail)) < cmd_count (fetched sq tail)) \<and>
        (done_ok v v' \<and> prp_bounce (fetched sq tail) n prps (cmd_count (fetched sq tail) * bs) \<and>
         cmd_count (fetched sq tail) * bs \<le> length (d_buf v) \<longrightarrow>
           (cmd_op (fetched sq tail) = 1 \<longrightarrow>
              (\<forall>i < cmd_count (fetched sq tail). d_ns v' (cmd_lba (fetched sq tail) + of_nat i) = take bs (drop (i * bs) (d_buf v)))) \<and>
           (cmd_op (fetched sq tail) = 2 \<longrightarrow>
              take (cmd_count (fetched sq tail) * bs) (d_buf v') =
                concat (map (\<lambda>i. d_ns v (cmd_lba (fetched sq tail) + of_nat i)) [0..<cmd_count (fetched sq tail)]))))"

lemma controller_ok_cong:
  "nv_dev n' = nv_dev n \<Longrightarrow> bounce_addr n' = bounce_addr n \<Longrightarrow> prp_addr n' = prp_addr n \<Longrightarrow>
   controller_ok n' bs = controller_ok n bs"
  by (simp only: controller_ok_def prp_bounce_def)

text \<open>
  The driver's head and phase are where the controller posts next, and every slot not yet posted in this
  pass carries the tag of the pass before, so that a stale entry is never taken for a fresh one.
\<close>

definition q_sync :: "queue \<Rightarrow> bool" where
  "q_sync q \<longleftrightarrow> length (q_sq q) = 64 \<and> length (q_cq q) = 64 \<and> unat (q_tail q) < 64 \<and>
     unat (q_head q) = q_posted q mod 64 \<and> q_phase q = tag (q_posted q) \<and>
     (\<forall>j < 64. phase_of (q_cq q ! j) = (if j < q_posted q mod 64 then tag (q_posted q) else tag (q_posted q) XOR 1))"

text \<open>What \<open>nvme_init\<close> establishes: a block size it accepts, buffers of their C sizes, a queue in step.\<close>

definition nvme_wf :: "nvme \<Rightarrow> nat \<Rightarrow> bool" where
  "nvme_wf n bs \<longleftrightarrow> bs \<in> {512, 1024, 2048, 4096} \<and> block_size (info n) = of_nat bs \<and>
     length (bounce n) = 131072 \<and> length (prp_list n) = 32 \<and> (\<forall>x. length (nv_ns n x) = bs) \<and>
     controller_ok n bs \<and> q_sync (io_q n)"

subsection \<open>Commands are encoded as the controller reads them\<close>

lemma cmd_lba_rw_cmd [simp]: "cmd_lba (rw_cmd wr lba k n) = lba"
  unfolding cmd_lba_def rw_cmd_def Let_def
  by (rule bit_word_eqI) (auto simp: bit_simps)

lemma cmd_count_rw_cmd: "k \<noteq> 0 \<Longrightarrow> cmd_count (rw_cmd wr lba k n) = unat k"
  by (simp add: cmd_count_def rw_cmd_def Let_def unat_minus_one unat_gt_0 Suc_leI)

lemma with_cid_simps [simp]:
  "cmd_lba (c\<lparr>cdw0 := w\<rparr>) = cmd_lba c" "cmd_count (c\<lparr>cdw0 := w\<rparr>) = cmd_count c"
  "prp_pages (c\<lparr>cdw0 := w\<rparr>) a = prp_pages c a"
  by (simp_all add: cmd_lba_def cmd_count_def prp_pages_def fun_eq_iff Let_def)

lemma low_byte_with_cid: "((x :: u32) AND 0xFFFF OR push_bit 16 y) AND 0xFF = x AND 0xFF"
proof (rule bit_word_eqI)
  fix i :: nat
  assume "i < LENGTH(32)"
  have ff: "(0xFF :: u32) = mask 8" and ffff: "(0xFFFF :: u32) = mask 16"
    by (simp_all add: mask_eq_exp_minus_1)
  show "bit ((x AND 0xFFFF OR push_bit 16 y) AND 0xFF) i = bit (x AND 0xFF) i"
    unfolding ff ffff by (auto simp: bit_simps)
qed

lemma cmd_op_with_cid: "cmd_op (c\<lparr>cdw0 := (cdw0 c AND 0xFFFF) OR push_bit 16 y\<rparr>) = cmd_op c"
  by (simp add: cmd_op_def low_byte_with_cid)

lemma cmd_op_rw_cmd [simp]: "cmd_op (rw_cmd wr lba k n) = (if wr then 1 else 2)"
  by (simp add: cmd_op_def rw_cmd_def Let_def)

lemma rw_pages_unat:
  assumes bs: "bs \<le> 4096" and sz: "unat k * bs \<le> 131072"
  shows "unat (((k :: u32) * of_nat bs + 4095) div 4096) = (unat k * bs + 4095) div 4096"
proof -
  have bsn: "unat (of_nat bs :: u32) = bs" using bs by (simp add: unat_of_nat32)
  have bytes: "unat (k * of_nat bs) = unat k * bs"
    using sz by (simp add: unat_mult32 bsn)
  have "unat (k * of_nat bs) + unat (4095 :: u32) < 4294967296"
    unfolding bytes using sz by simp
  from unat_add32 [OF this] show ?thesis unfolding bytes by (simp add: unat_div)
qed

lemma rw_prps_length:
  assumes "block_size (info n) = of_nat bs" "bs \<le> 4096" "unat k * bs \<le> 131072"
    and "length (prp_list n) = 32"
  shows "length (rw_prps k n) = 32"
proof -
  have "(unat k * bs + 4095) div 4096 \<le> 32" using assms(3) by simp
  then show ?thesis
    using assms by (simp add: rw_prps_def Let_def rw_pages_unat)
qed

lemma rw_cmd_pages:
  assumes k: "k \<noteq> 0" and bs: "block_size (info n) = of_nat bs" "bs \<le> 4096"
    and sz: "unat k * bs \<le> 131072" and len: "length (prp_list n) = 32"
  shows "prp_pages (rw_cmd wr lba k n) (prp_addr n) (rw_prps k n) (unat k * bs) =
     Some (map (\<lambda>i. ucast (bounce_addr n + of_nat i * 4096))
       [0..<max 1 ((unat k * bs + 4095) div 4096)])"
proof -
  let ?pg = "(unat k * bs + 4095) div 4096"
  note pgw = rw_pages_unat [OF bs(2) sz]
  have pg32: "?pg \<le> 32" using sz by simp
  have e2: "(k * of_nat bs + 4095) div 4096 = 2 \<longleftrightarrow> ?pg = 2"
    unfolding word_unat_eq_iff pgw by simp
  have g2: "(k * of_nat bs + 4095) div 4096 > 2 \<longleftrightarrow> ?pg > 2"
    unfolding word_less_nat_alt pgw by simp
  consider "?pg \<le> 1" | "?pg = 2" | "?pg > 2" by linarith
  then show ?thesis
  proof cases
    case 1
    then show ?thesis by (simp add: prp_pages_def rw_cmd_def Let_def max_def)
  next
    case 2
    then show ?thesis
      by (simp add: prp_pages_def rw_cmd_def Let_def bs(1) e2 upt_rec)
  next
    case 3
    have tl: "take (?pg - 1) (rw_prps k n) =
        map (\<lambda>i. ucast (bounce_addr n + of_nat i * 4096)) [1..<?pg]"
      using 3 pg32 len by (simp add: rw_prps_def Let_def bs(1) g2 pgw arr_put_def)
    have p2: "prp2 (rw_cmd wr lba k n) = ucast (prp_addr n)"
      using 3 by (simp add: rw_cmd_def Let_def bs(1) e2 g2)
    have "[0..<?pg] = 0 # [1..<?pg]" using 3 by (simp add: upt_rec)
    then show ?thesis
      using 3 pg32 rw_prps_length [OF bs sz len]
      by (simp add: prp_pages_def Let_def tl [unfolded One_nat_def] p2 max_def)
        (simp add: rw_cmd_def Let_def)
  qed
qed

subsection \<open>One command\<close>

lemma tag_simps:
  "tag k \<noteq> tag k XOR 1" "(k + 1) mod 64 \<noteq> 0 \<Longrightarrow> tag (k + 1) = tag k" "(k + 1) mod 64 = 0 \<Longrightarrow> tag (k + 1) = tag k XOR 1"
proof -
  show "tag k \<noteq> tag k XOR 1" by (simp add: tag_def)
  have "(k + 1) div 64 = (if (k + 1) mod 64 = 0 then k div 64 + 1 else k div 64)" by (simp add: div_Suc mod_Suc)
  then show "(k + 1) mod 64 \<noteq> 0 \<Longrightarrow> tag (k + 1) = tag k" "(k + 1) mod 64 = 0 \<Longrightarrow> tag (k + 1) = tag k XOR 1"
    by (simp_all add: tag_def)
qed

lemma poll_cq_Some: "poll_cq xs ph = Some st \<Longrightarrow> \<exists>e \<in> fst ` set xs. phase_of e = ph \<and> status_of e = st"
  by (induction xs ph rule: poll_cq.induct) (auto simp: phase_of_def status_of_def split: if_splits)

lemma poll_cq_sees:
  "i < length xs \<Longrightarrow> phase_of (fst (xs ! i)) = ph \<Longrightarrow> \<forall>j < i. snd (xs ! j) AND CSTS_CFS = 0 \<Longrightarrow> poll_cq xs ph \<noteq> None"
proof (induction xs ph arbitrary: i rule: poll_cq.induct)
  case (2 dw3 csts ps phase)
  show ?case
  proof (cases i)
    case 0
    then show ?thesis using 2(3) by (simp add: phase_of_def)
  next
    case (Suc j)
    then have c: "csts AND CSTS_CFS = 0" using 2(4) by force
    have "poll_cq ps phase \<noteq> None" if "drop_bit 16 dw3 AND 1 \<noteq> phase"
      using 2(2-4) Suc c that by (intro 2(1) [where i = j]) force+
    then show ?thesis using c by auto
  qed
qed simp

text \<open>With a queue in step the driver sees a completion exactly when one is posted, and its status.\<close>

lemma poll_fresh:
  assumes posts: "posts v v' ps" and s: "unat h = d_posted v mod 64" and old: "phase_of (d_cq v ! (d_posted v mod 64)) \<noteq> tag (d_posted v)"
  shows "poll_cq (take SPIN_LIMIT (poll_at h ps)) (tag (d_posted v)) =
    (if d_posted v' = d_posted v then None else Some (status_of (d_cq v' ! (d_posted v mod 64))))"
proof -
  let ?s = "d_posted v mod 64" and ?xs = "take SPIN_LIMIT (poll_at h ps)"
  have P: "\<forall>p \<in> set ps. fst p ! ?s = d_cq v ! ?s \<or> fst p ! ?s = d_cq v' ! ?s"
    "d_posted v' = d_posted v \<and> d_cq v' ! ?s = d_cq v ! ?s \<or> d_posted v' = d_posted v + 1 \<and> phase_of (d_cq v' ! ?s) = tag (d_posted v)"
    "d_posted v' \<noteq> d_posted v \<longrightarrow> (\<exists>i < SPIN_LIMIT. i < length ps \<and> fst (ps ! i) ! ?s = d_cq v' ! ?s \<and> (\<forall>j < i. snd (ps ! j) AND CSTS_CFS = 0))"
    using posts by (simp_all add: posts_def Let_def)
  have "fst ` set ?xs \<subseteq> (\<lambda>p. fst p ! ?s) ` set ps"
    using image_mono [OF set_take_subset, of fst SPIN_LIMIT "poll_at h ps"] by (simp add: poll_at_def s image_image case_prod_beta)
  then have entry: "e = d_cq v ! ?s \<or> e = d_cq v' ! ?s" if e: "e \<in> fst ` set ?xs" for e
  proof -
    obtain p where "p \<in> set ps" "e = fst p ! ?s" using subsetD [OF \<open>fst ` set ?xs \<subseteq> _\<close> e] by blast
    then show ?thesis using P(1) by simp
  qed
  have some: "st = status_of (d_cq v' ! ?s) \<and> d_posted v' \<noteq> d_posted v" if poll: "poll_cq ?xs (tag (d_posted v)) = Some st" for st
  proof -
    obtain e where e: "e \<in> fst ` set ?xs" "phase_of e = tag (d_posted v)" "status_of e = st"
      using poll_cq_Some [OF poll] by blast
    then show ?thesis using entry [OF e(1)] old P(2) by auto
  qed
  have "poll_cq ?xs (tag (d_posted v)) \<noteq> None" if ne: "d_posted v' \<noteq> d_posted v"
  proof -
    obtain i where i: "i < SPIN_LIMIT" "i < length ps" "fst (ps ! i) ! ?s = d_cq v' ! ?s" "\<forall>j < i. snd (ps ! j) AND CSTS_CFS = 0"
      using P(3) ne by blast
    then show ?thesis using P(2) ne by (intro poll_cq_sees [of i]) (auto simp: poll_at_def s case_prod_beta)
  qed
  then show ?thesis using some by (cases "poll_cq ?xs (tag (d_posted v))") auto
qed

lemma head_next:
  assumes "unat h = k mod 64"
  shows "unat ((h + 1) mod QDEPTH) = (k + 1) mod 64"
proof -
  have "unat (h + 1) = k mod 64 + 1" using assms unat_add32 [of h 1] by (simp add: less_imp_le_nat order_less_le_trans [of _ 64])
  then show ?thesis by (simp add: QDEPTH_def unat_mod mod_Suc_eq)
qed

lemma fetched_tail:
  assumes "unat t < 64" "length sq = 64"
  shows "fetched (sq[unat t := c]) ((t + 1) mod QDEPTH) = c" "unat ((t + 1) mod QDEPTH) < 64"
proof -
  have h: "unat ((t + 1) mod QDEPTH) = (unat t + 1) mod 64" using head_next [of t "unat t"] assms(1) by simp
  then show "unat ((t + 1) mod QDEPTH) < 64" by simp
  have "unat ((t + 1) mod QDEPTH - 1) mod 64 = unat t"
  proof (cases "unat t = 63")
    case True
    then have "(t + 1) mod QDEPTH = 0" using h by (simp add: unat_eq_0)
    then show ?thesis using True by (simp add: unsigned_minus_1_eq_mask mask_eq_exp_minus_1)
  next
    case False
    then have u: "unat ((t + 1) mod QDEPTH) = unat t + 1" using h assms(1) by simp
    then have "(t + 1) mod QDEPTH \<noteq> 0" by (metis Suc_eq_plus1 nat.simps(3) unat_0)
    then show ?thesis using u assms(1) by (simp add: unat_minus_one)
  qed
  then show "fetched (sq[unat t := c]) ((t + 1) mod QDEPTH) = c" using assms by (simp add: fetched_def)
qed

text \<open>The queue stays in step, whether a completion was posted or not.\<close>

lemma q_sync_step:
  assumes q: "q_sync q" and posts: "posts v v' ps" and v: "d_posted v = q_posted q" "d_cq v = q_cq q"
    and sq: "length sq = 64" "unat t < 64"
  shows "d_posted v' = d_posted v \<Longrightarrow> q_sync (q\<lparr>q_sq := sq, q_tail := t, q_posted := d_posted v', q_cq := d_cq v'\<rparr>)"
    "d_posted v' \<noteq> d_posted v \<Longrightarrow> hd' = (q_head q + 1) mod QDEPTH \<Longrightarrow> q_sync (q\<lparr>q_sq := sq, q_tail := t, q_posted := d_posted v', q_cq := d_cq v',
      q_head := hd', q_phase := (if hd' = 0 then q_phase q XOR 1 else q_phase q)\<rparr>)"
proof -
  let ?k = "q_posted q"
  let ?s = "?k mod 64"
  have P: "length (d_cq v') = 64" "\<And>j. j < 64 \<Longrightarrow> j \<noteq> ?s \<Longrightarrow> d_cq v' ! j = q_cq q ! j"
    "d_posted v' = ?k \<and> d_cq v' ! ?s = q_cq q ! ?s \<or> d_posted v' = ?k + 1 \<and> phase_of (d_cq v' ! ?s) = tag ?k"
    using posts by (simp_all add: posts_def Let_def v)
  have Q: "unat (q_head q) = ?s" "q_phase q = tag ?k" "\<And>j. j < 64 \<Longrightarrow> phase_of (q_cq q ! j) = (if j < ?s then tag ?k else tag ?k XOR 1)"
    using q by (simp_all add: q_sync_def)
  show "q_sync (q\<lparr>q_sq := sq, q_tail := t, q_posted := d_posted v', q_cq := d_cq v'\<rparr>)" if "d_posted v' = d_posted v"
  proof -
    have "d_cq v' ! j = q_cq q ! j" if "j < 64" for j using P(2,3) that \<open>d_posted v' = d_posted v\<close> v by (cases "j = ?s") auto
    then show ?thesis using q P(1) sq that v by (simp add: q_sync_def)
  qed
  assume ne: "d_posted v' \<noteq> d_posted v" and hd': "hd' = (q_head q + 1) mod QDEPTH"
  then have k: "d_posted v' = ?k + 1" "phase_of (d_cq v' ! ?s) = tag ?k" using P(3) v by auto
  have h: "unat hd' = (?k + 1) mod 64" unfolding hd' by (rule head_next [OF Q(1)])
  then have z: "hd' = 0 \<longleftrightarrow> (?k + 1) mod 64 = 0" by (metis unat_eq_0)
  have ph: "(if hd' = 0 then q_phase q XOR 1 else q_phase q) = tag (?k + 1)"
    using tag_simps [of ?k] by (simp only: z Q(2)) auto
  have "phase_of (d_cq v' ! j) = (if j < (?k + 1) mod 64 then tag (?k + 1) else tag (?k + 1) XOR 1)" if j: "j < 64" for j
  proof -
    have "phase_of (d_cq v' ! j) = (if j \<le> ?s then tag ?k else tag ?k XOR 1)"
      using P(2) [OF j] Q(3) [OF j] k(2) by (cases "j = ?s") auto
    moreover have "(?k + 1) mod 64 = (if ?s = 63 then 0 else ?s + 1)" by (simp add: mod_Suc)
    moreover have "(tag ?k XOR 1) XOR 1 = tag ?k" by (simp add: tag_def)
    ultimately show ?thesis using tag_simps(2,3) [of ?k] j by (auto split: if_splits)
  qed
  then show "q_sync (q\<lparr>q_sq := sq, q_tail := t, q_posted := d_posted v', q_cq := d_cq v',
      q_head := hd', q_phase := (if hd' = 0 then q_phase q XOR 1 else q_phase q)\<rparr>)"
    using P(1) sq h k(1) ph by (simp add: q_sync_def)
qed

text \<open>What one \<open>submit_io\<close> did to the device, and that status 0 is the controller's.\<close>

lemma submit_io_dev:
  assumes run: "submit_io c n = (rc, n')" and ctl: "controller_ok n bs" and ns: "\<forall>x. length (nv_ns n x) = bs" and q: "q_sync (io_q n)"
  obtains sq tail v ps v' where
    "fetched sq tail = c\<lparr>cdw0 := (cdw0 c AND 0xFFFF) OR push_bit 16 (ucast (next_cid n))\<rparr>"
    "nv_dev n sq tail (prp_list n) v = (ps, v')" "d_buf v = bounce n" "d_ns v = nv_ns n" "length (d_cq v) = 64"
    "bounce n' = d_buf v'" "nv_ns n' = d_ns v'" "prp_list n' = prp_list n" "rc = 0 \<longleftrightarrow> done_ok v v'" "q_sync (io_q n')"
proof -
  define slot where "slot = c\<lparr>cdw0 := (cdw0 c AND 0xFFFF) OR push_bit 16 (ucast (next_cid n))\<rparr>"
  define sq where "sq = (q_sq (io_q n))[unat (q_tail (io_q n)) := slot]"
  define tail where "tail = (q_tail (io_q n) + 1) mod QDEPTH"
  define v where "v = \<lparr>d_posted = q_posted (io_q n), d_cq = q_cq (io_q n), d_buf = bounce n, d_ns = nv_ns n\<rparr>"
  obtain ps v' where d: "nv_dev n sq tail (prp_list n) v = (ps, v')" by fastforce
  have Q: "length (q_sq (io_q n)) = 64" "length (q_cq (io_q n)) = 64" "unat (q_tail (io_q n)) < 64"
    "unat (q_head (io_q n)) = d_posted v mod 64" "q_phase (io_q n) = tag (d_posted v)"
    "phase_of (d_cq v ! (d_posted v mod 64)) = tag (d_posted v) XOR 1"
    using q by (simp_all add: q_sync_def v_def)
  have f: "fetched sq tail = slot" "unat tail < 64" "length sq = 64"
    using fetched_tail [OF Q(3,1)] Q(1) by (simp_all add: sq_def tail_def)
  have P: "posts v v' ps"
    using ctl [unfolded controller_ok_def, rule_format, OF conjI [OF d conjI]] ns Q(2) by (simp add: v_def)
  have poll: "poll_cq (take SPIN_LIMIT (poll_at (q_head (io_q n)) ps)) (q_phase (io_q n)) =
      (if d_posted v' = d_posted v then None else Some (status_of (d_cq v' ! (d_posted v mod 64))))"
    unfolding Q(5) using Q(6) tag_simps(1) by (intro poll_fresh [OF P Q(4)]) metis
  note S = q_sync_step [OF q P, of sq tail, OF _ _ f(3,2)]
  have posted: "d_posted v' \<noteq> d_posted v \<Longrightarrow> d_posted v' = d_posted v + 1" using P by (auto simp: posts_def Let_def)
  note R = run [unfolded submit_io_def Let_def, folded slot_def]
  show ?thesis
  proof (cases "d_posted v' = d_posted v")
    case True
    then have "rc = -1 \<and> n' = (ring_sq 1 tail (n\<lparr>next_cid := next_cid n + 1\<rparr>))\<lparr>bounce := d_buf v', nv_ns := d_ns v',
        io_q := (io_q n)\<lparr>q_sq := sq, q_tail := tail, q_posted := d_posted v', q_cq := d_cq v'\<rparr>\<rparr>"
      using R d poll by (simp add: ring_sq_def v_def sq_def tail_def)
    then show ?thesis using S(1) True by (intro that [OF _ d]) (simp_all add: f slot_def v_def Q ring_sq_def done_ok_def)
  next
    case False
    define hd' where "hd' = (q_head (io_q n) + 1) mod QDEPTH"
    have "rc = int (unat (status_of (d_cq v' ! (d_posted v mod 64)))) \<and> prp_list n' = prp_list n \<and> bounce n' = d_buf v' \<and> nv_ns n' = d_ns v' \<and>
        io_q n' = (io_q n)\<lparr>q_sq := sq, q_tail := tail, q_posted := d_posted v', q_cq := d_cq v',
          q_head := hd', q_phase := (if hd' = 0 then q_phase (io_q n) XOR 1 else q_phase (io_q n))\<rparr>"
      using R d poll False by (auto simp: ring_sq_def ring_cq_def v_def sq_def tail_def hd'_def [symmetric])
    then show ?thesis using S(2) [OF _ _ False hd'_def] posted [OF False]
      by (intro that [OF _ d]) (simp_all add: f slot_def v_def Q done_ok_def unsigned_eq_0_iff)
  qed
qed

text \<open>
  A drive without faults: every valid read or write - inside the namespace, with its data in the bounce
  buffer - is completed with status 0. No property of the data depends on it, only that calls succeed.
\<close>

definition valid_cmd :: "nvme \<Rightarrow> nat \<Rightarrow> sqe_t \<Rightarrow> u64 list \<Rightarrow> nat \<Rightarrow> bool" where
  "valid_cmd n bs c prps len \<longleftrightarrow> cmd_op c \<in> {1, 2} \<and> c_nsid c = nsid (info n) \<and>
     unat (cmd_lba c) + cmd_count c \<le> unat (blocks (info n)) \<and>
     prp_bounce c n prps (cmd_count c * bs) \<and> cmd_count c * bs \<le> len"

definition drive_answers :: "nvme \<Rightarrow> nat \<Rightarrow> bool" where
  "drive_answers n bs \<longleftrightarrow>
     (\<forall>sq tail prps v ps v'. nv_dev n sq tail prps v = (ps, v') \<and> length (d_cq v) = 64 \<and>
        valid_cmd n bs (fetched sq tail) prps (length (d_buf v)) \<longrightarrow> done_ok v v')"

lemma drive_answers_cong: "same_config n n' \<Longrightarrow> drive_answers n' bs = drive_answers n bs"
  by (simp add: drive_answers_def valid_cmd_def prp_bounce_def same_config_def)

text \<open>A chunk of \<open>k\<close> blocks that fits the bounce buffer.\<close>

definition chunk_fits :: "u32 \<Rightarrow> nat \<Rightarrow> bool" where
  "chunk_fits k bs \<longleftrightarrow> k \<noteq> 0 \<and> unat k * bs \<le> 131072"

lemma rw_chunk_facts:
  assumes wf: "nvme_wf n bs" and fit: "chunk_fits k bs"
    and run: "rw_chunk wr lba k n = (rc, n')"
  shows "nvme_wf n' bs"
    and "nv_ns n' x \<noteq> nv_ns n x \<Longrightarrow> wr \<and> unat (x - lba) < unat k"
    and "rc = 0 \<Longrightarrow> wr \<Longrightarrow> i < unat k \<Longrightarrow>
           nv_ns n' (lba + of_nat i) = take bs (drop (i * bs) (bounce n))"
    and "rc = 0 \<Longrightarrow> \<not> wr \<Longrightarrow>
           take (unat k * bs) (bounce n') = concat (map (\<lambda>i. nv_ns n (lba + of_nat i)) [0..<unat k])"
    and "drive_answers n bs \<Longrightarrow> unat lba + unat k \<le> unat (blocks (info n)) \<Longrightarrow> rc = 0"
proof -
  let ?c = "rw_cmd wr lba k n" and ?m = "n\<lparr>prp_list := rw_prps k n\<rparr>"
  from fit have k: "k \<noteq> 0" and sz: "unat k * bs \<le> 131072" by (auto simp: chunk_fits_def)
  from wf have bs: "block_size (info n) = of_nat bs" "bs \<le> 4096" and len: "length (prp_list n) = 32"
    by (auto simp: nvme_wf_def)
  note pages = rw_cmd_pages [OF k bs sz len, of wr lba]
  from run obtain rc0 where sub: "submit_io ?c ?m = (rc0, n')" and rc: "rc = (if rc0 = 0 then 0 else -1)"
    by (auto simp: rw_chunk_def Let_def split: prod.splits)
  have ctl: "controller_ok n bs" and ns: "\<forall>x. length (nv_ns n x) = bs" using wf by (simp_all add: nvme_wf_def)
  have m: "controller_ok ?m bs" "\<forall>x. length (nv_ns ?m x) = bs" "q_sync (io_q ?m)"
    using wf controller_ok_cong [of ?m n bs] by (simp_all add: nvme_wf_def)
  obtain sq dbell v ps v' where slot: "fetched sq dbell = ?c\<lparr>cdw0 := (cdw0 ?c AND 0xFFFF) OR push_bit 16 (ucast (next_cid ?m))\<rparr>"
    and dev': "nv_dev ?m sq dbell (prp_list ?m) v = (ps, v')" and v0: "d_buf v = bounce ?m" "d_ns v = nv_ns ?m" "length (d_cq v) = 64"
    and v0': "bounce n' = d_buf v'" "nv_ns n' = d_ns v'" "prp_list n' = prp_list ?m" and ok: "rc0 = 0 \<longleftrightarrow> done_ok v v'" and sync: "q_sync (io_q n')"
    by (rule submit_io_dev [OF sub m])
  have dev: "nv_dev n sq dbell (rw_prps k n) v = (ps, v')" and v: "d_buf v = bounce n" "d_ns v = nv_ns n" "length (d_cq v) = 64"
    and v': "bounce n' = d_buf v'" "nv_ns n' = d_ns v'" "prp_list n' = rw_prps k n"
    using dev' v0 v0' by simp_all
  let ?s = "fetched sq dbell"
  have op: "cmd_op ?s = (if wr then 1 else 2)" and lba: "cmd_lba ?s = lba" and cnt: "cmd_count ?s = unat k"
    unfolding slot by (simp_all add: cmd_op_with_cid cmd_count_rw_cmd k)
  have pb: "prp_bounce ?s n (rw_prps k n) (unat k * bs)"
    unfolding prp_bounce_def using pages by (simp add: slot)
  have room: "unat k * bs \<le> length (d_buf v)" using sz wf v by (simp add: nvme_wf_def)
  have "posts v v' ps \<and> length (d_buf v') = length (d_buf v) \<and> (\<forall>x. length (d_ns v' x) = bs) \<and>
      (\<forall>x. d_ns v' x \<noteq> d_ns v x \<longrightarrow> wr \<and> unat (x - lba) < unat k) \<and>
      (done_ok v v' \<longrightarrow> (wr \<longrightarrow> (\<forall>i < unat k. d_ns v' (lba + of_nat i) = take bs (drop (i * bs) (d_buf v)))) \<and>
        (\<not> wr \<longrightarrow> take (unat k * bs) (d_buf v') = concat (map (\<lambda>i. d_ns v (lba + of_nat i)) [0..<unat k])))"
    using ctl [unfolded controller_ok_def, rule_format, OF conjI [OF dev conjI]] ns v pb room by (cases wr) (simp_all add: op lba cnt)
  note C = this
  have cfg: "same_config n n'" using rw_chunk_config [of n wr lba k] run by simp
  then have "controller_ok n' bs" using ctl controller_ok_cong [of n' n bs]
    by (simp add: same_config_def)
  moreover have "length (rw_prps k n) = 32" using rw_prps_length [OF bs sz len] .
  ultimately show "nvme_wf n' bs"
    using C wf cfg v v' sync by (simp add: nvme_wf_def same_config_def)
  show "nv_ns n' x \<noteq> nv_ns n x \<Longrightarrow> wr \<and> unat (x - lba) < unat k"
    using C v v' by auto
  show "rc = 0 \<Longrightarrow> wr \<Longrightarrow> i < unat k \<Longrightarrow>
      nv_ns n' (lba + of_nat i) = take bs (drop (i * bs) (bounce n))"
    using C ok rc v v' by (auto split: if_splits)
  show "rc = 0 \<Longrightarrow> \<not> wr \<Longrightarrow>
      take (unat k * bs) (bounce n') = concat (map (\<lambda>i. nv_ns n (lba + of_nat i)) [0..<unat k])"
    using C ok rc v v' by (auto split: if_splits)
  show "rc = 0" if a: "drive_answers n bs" "unat lba + unat k \<le> unat (blocks (info n))"
  proof -
    have "c_nsid ?s = nsid (info n)" unfolding slot by (simp add: rw_cmd_def Let_def)
    then have "valid_cmd n bs ?s (rw_prps k n) (length (d_buf v))"
      using a(2) pb room by (simp add: valid_cmd_def op lba cnt)
    then have "done_ok v v'" using a(1) dev v(3) unfolding drive_answers_def by blast
    then show ?thesis using ok rc by simp
  qed
qed

subsection \<open>Whole transfers\<close>

lemma chunk_len_fits:
  assumes wf: "nvme_wf n bs" and c: "count \<noteq> 0"
  shows "chunk_fits (chunk_len count n) bs"
proof -
  from wf have bs: "bs \<in> {512, 1024, 2048, 4096}" and b: "block_size (info n) = of_nat bs"
    by (auto simp: nvme_wf_def)
  define per where "per = NVME_CHUNK div block_size (info n)"
  have per: "unat per * bs \<le> 131072" "per \<noteq> 0"
    using bs by (auto simp: per_def NVME_CHUNK_def b)
  have len: "chunk_len count n = (if count < per then count else per)"
    by (simp add: chunk_len_def per_def Let_def)
  show ?thesis
  proof (cases "count < per")
    case True
    then have "unat count * bs \<le> unat per * bs" by (simp add: word_less_nat_alt)
    then have "unat count * bs \<le> 131072" using per(1) by linarith
    with True c show ?thesis by (simp add: chunk_fits_def len)
  next
    case False
    with per show ?thesis by (simp add: chunk_fits_def len)
  qed
qed

lemma nvme_wf_bounce:
  "nvme_wf n bs \<Longrightarrow> length xs \<le> 131072 \<Longrightarrow> nvme_wf (n\<lparr>bounce := arr_put (bounce n) 0 xs\<rparr>) bs"
  by (simp add: nvme_wf_def controller_ok_cong [of "n\<lparr>bounce := arr_put (bounce n) 0 xs\<rparr>" n])

text \<open>One step of the loop with its chunk named, for inductions over the remaining count.\<close>

lemma rw_loop_step:
  assumes wf: "nvme_wf n bs" and c: "count \<noteq> 0" and k: "k = chunk_len count n"
    and run: "rw_loop wr lba count p n = (rc, out, n')"
  obtains n1 rc1 n2 where
    "n1 = (if wr then n\<lparr>bounce := arr_put (bounce n) 0 (take (unat k * bs) p)\<rparr> else n)"
    "nvme_wf n1 bs" "nv_ns n1 = nv_ns n" "chunk_fits k bs"
    "rw_chunk wr lba k n1 = (rc1, n2)"
    "rc1 \<noteq> 0 \<longrightarrow> rc = -1 \<and> out = [] \<and> n' = n2"
    "rc1 = 0 \<longrightarrow> (\<exists>rest. rw_loop wr (lba + ucast k) (count - k) (drop (unat k * bs) p) n2 =
        (rc, rest, n') \<and> out = (if wr then [] else take (unat k * bs) (bounce n2)) @ rest)"
proof -
  have fit: "chunk_fits k bs" using chunk_len_fits [OF wf c] k by simp
  have b: "block_size (info n) = of_nat bs" and "bs \<le> 4096" using wf by (auto simp: nvme_wf_def)
  then have bytes: "unat (k * block_size (info n)) = unat k * bs"
    using fit unfolding chunk_fits_def by (simp add: unat_mult32 unat_of_nat32)
  define n1 where "n1 = (if wr then n\<lparr>bounce := arr_put (bounce n) 0 (take (unat k * bs) p)\<rparr> else n)"
  obtain rc1 n2 where ch: "rw_chunk wr lba k n1 = (rc1, n2)" by fastforce
  have k0: "k \<noteq> 0" using fit by (simp add: chunk_fits_def)
  have wf1: "nvme_wf n1 bs"
    using wf fit nvme_wf_bounce [OF wf, of "take (unat k * bs) p"]
    by (simp add: n1_def chunk_fits_def min_def)
  have ns1: "nv_ns n1 = nv_ns n" by (simp add: n1_def)
  note unf = run [unfolded rw_loop.simps [of wr lba count p n], folded k,
      unfolded Let_def bytes, folded n1_def]
  show ?thesis
  proof (rule that [OF n1_def wf1 ns1 fit ch])
    show "rc1 \<noteq> 0 \<longrightarrow> rc = -1 \<and> out = [] \<and> n' = n2"
      using unf c k0 by (auto simp: ch)
    show "rc1 = 0 \<longrightarrow> (\<exists>rest. rw_loop wr (lba + ucast k) (count - k) (drop (unat k * bs) p) n2 =
        (rc, rest, n') \<and> out = (if wr then [] else take (unat k * bs) (bounce n2)) @ rest)"
      using unf c k0 by (auto simp: ch split: prod.splits)
  qed
qed

text \<open>Positions of a 64-bit range seen from its second part.\<close>

lemma range_shift64:
  assumes "unat (x - (lba + ucast k)) < unat (count - k)" and "k \<le> (count :: u32)"
  shows "unat (x - lba :: u64) < unat count"
proof -
  have e: "x - lba = (x - (lba + ucast k)) + ucast k" by simp
  have "unat (x - lba) \<le> unat (x - (lba + ucast k)) + unat (ucast k :: u64)"
    by (subst e, subst unat_word_ariths) simp
  also have "unat (ucast k :: u64) = unat k" by simp
  finally show ?thesis
    using assms unat_sub32 [OF assms(2)] by (simp add: word_le_nat_alt)
qed


lemma range_split64:
  fixes i :: nat
  assumes "unat k \<le> i"
  shows "lba + of_nat i = (lba :: u64) + ucast (k :: u32) + of_nat (i - unat k)"
proof -
  have "(ucast k :: u64) = of_nat (unat k)" by simp
  moreover have "(of_nat i :: u64) = of_nat (unat k) + of_nat (i - unat k)"
    using assms by (simp only: of_nat_add [symmetric] le_add_diff_inverse)
  ultimately show ?thesis by (simp only: add.assoc)
qed

lemma rw_loop_wf_frame:
  assumes "nvme_wf n bs" and "rw_loop wr lba count p n = (rc, out, n')"
  shows "nvme_wf n' bs \<and> same_config n n' \<and>
    (\<forall>x. nv_ns n' x \<noteq> nv_ns n x \<longrightarrow> wr \<and> unat (x - lba) < unat count)"
  using assms
proof (induction "unat count" arbitrary: lba count p n rc out n' rule: less_induct)
  case less
  show ?case
  proof (cases "count = 0")
    case True
    with less.prems show ?thesis by (simp add: rw_loop.simps)
  next
    case False
    define k where "k = chunk_len count n"
    obtain n1 rc1 n2 where n1: "n1 = (if wr then n\<lparr>bounce := arr_put (bounce n) 0 (take (unat k * bs) p)\<rparr> else n)"
      and wf1: "nvme_wf n1 bs" and ns1: "nv_ns n1 = nv_ns n" and fit: "chunk_fits k bs"
      and ch: "rw_chunk wr lba k n1 = (rc1, n2)"
      and bad: "rc1 \<noteq> 0 \<longrightarrow> rc = -1 \<and> out = [] \<and> n' = n2"
      and good: "rc1 = 0 \<longrightarrow> (\<exists>rest. rw_loop wr (lba + ucast k) (count - k) (drop (unat k * bs) p) n2 =
        (rc, rest, n') \<and> out = (if wr then [] else take (unat k * bs) (bounce n2)) @ rest)"
      by (rule rw_loop_step [OF less.prems(1) False k_def less.prems(2)])
    have le: "k \<le> count" and k0: "k \<noteq> 0"
      using fit by (simp_all add: k_def chunk_len_le chunk_fits_def)
    have cfg1: "same_config n n1" by (simp add: n1 same_config_def)
    have cfg2: "same_config n n2"
      using same_config_trans [OF cfg1 rw_chunk_config [of n1 wr lba k]] ch by simp
    note F = rw_chunk_facts [OF wf1 fit ch]
    have step: "wr \<and> unat (x - lba) < unat count" if "nv_ns n2 x \<noteq> nv_ns n x" for x
      using F(2) [of x] that le by (simp add: ns1 word_le_nat_alt)
    show ?thesis
    proof (cases "rc1 = 0")
      case False
      with bad F(1) cfg2 step show ?thesis by blast
    next
      case True
      then obtain rest where r: "rw_loop wr (lba + ucast k) (count - k) (drop (unat k * bs) p) n2 = (rc, rest, n')"
        using good by blast
      have "unat (count - k) < unat count"
        using k0 chunk_len_decreases [of count n] by (simp add: k_def)
      from less.hyps [OF this F(1) r] have ih: "nvme_wf n' bs" "same_config n2 n'"
        "\<And>x. nv_ns n' x \<noteq> nv_ns n2 x \<Longrightarrow> wr \<and> unat (x - (lba + ucast k)) < unat (count - k)"
        by auto
      have "wr \<and> unat (x - lba) < unat count" if "nv_ns n' x \<noteq> nv_ns n x" for x
        using ih(3) [of x] step [of x] range_shift64 [OF _ le, of x lba] that by metis
      with ih same_config_trans [OF cfg2] show ?thesis by blast
    qed
  qed
qed

lemma below_range64:
  assumes "i < unat (k :: u32)"
  shows "\<not> unat (lba + of_nat i - (lba + ucast k) :: u64) < unat (c :: u32)"
proof -
  have "i < 18446744073709551616" using assms unat_lt_2_32 [of k] by linarith
  then have lt: "unat (of_nat i :: u64) = i" by (simp add: unat_of_nat)
  have "unat (of_nat i - ucast k :: u64) = 2 ^ 64 + i - unat k"
    using assms lt unat_lt_2_32 [of k] by (simp add: unat_sub_if_size word_le_nat_alt word_size)
  moreover have "\<not> 18446744073709551616 + i - unat k < unat c"
    using unat_lt_2_32 [of c] unat_lt_2_32 [of k] by linarith
  ultimately show ?thesis by simp
qed

lemma block_of_prefix:
  assumes "i < k" and "length (take (k * bs) p) = k * bs"
  shows "take bs (drop (i * bs) (take (k * bs) p @ r)) = take bs (drop (i * bs) p)"
proof -
  have "bs + i * bs \<le> k * bs" using assms(1) mult_le_mono1 [of "Suc i" k bs] by simp
  moreover from assms(2) have "k * bs \<le> length p" by simp
  ultimately show ?thesis by (simp add: drop_take)
qed

lemma rw_loop_write:
  assumes "nvme_wf n bs" and "rw_loop True lba count p n = (0, out, n')"
    and "unat count * bs \<le> length p"
  shows "\<forall>i < unat count. nv_ns n' (lba + of_nat i) = take bs (drop (i * bs) p)"
  using assms
proof (induction "unat count" arbitrary: lba count p n out n' rule: less_induct)
  case less
  show ?case
  proof (cases "count = 0")
    case True
    then show ?thesis by simp
  next
    case False
    define k where "k = chunk_len count n"
    define q where "q = take (unat k * bs) p"
    obtain n1 rc1 n2 where n1: "n1 = n\<lparr>bounce := arr_put (bounce n) 0 q\<rparr>"
      and wf1: "nvme_wf n1 bs" and fit: "chunk_fits k bs"
      and ch: "rw_chunk True lba k n1 = (rc1, n2)"
      and bad: "rc1 \<noteq> 0 \<longrightarrow> (0 :: int) = -1"
      and good: "rc1 = 0 \<longrightarrow> (\<exists>rest. rw_loop True (lba + ucast k) (count - k)
        (drop (unat k * bs) p) n2 = (0, rest, n'))"
      by (rule rw_loop_step [OF less.prems(1) False k_def less.prems(2)]) (auto simp: q_def)
    then have rc1: "rc1 = 0" by auto
    have le: "k \<le> count" and k0: "k \<noteq> 0"
      using fit by (simp_all add: k_def chunk_len_le chunk_fits_def)
    then have kn: "unat k \<le> unat count" by (simp add: word_le_nat_alt)
    note F = rw_chunk_facts [OF wf1 fit ch]
    obtain rest where r: "rw_loop True (lba + ucast k) (count - k) (drop (unat k * bs) p) n2 = (0, rest, n')"
      using good rc1 by blast
    have dec: "unat (count - k) < unat count" and ck: "unat (count - k) = unat count - unat k"
      using k0 chunk_len_decreases [of count n] unat_sub32 [OF le] by (simp_all add: k_def)
    have "unat (count - k) * bs \<le> length (drop (unat k * bs) p)"
      using less.prems(3) by (simp add: ck diff_mult_distrib)
    note ih = less.hyps [OF dec F(1) r this]
    have "unat k * bs \<le> length p"
      using less.prems(3) mult_le_mono1 [OF kn, of bs] by linarith
    then have lq: "length q = unat k * bs" by (simp add: q_def)
    show ?thesis
    proof (intro allI impI)
      fix i assume i: "i < unat count"
      show "nv_ns n' (lba + of_nat i) = take bs (drop (i * bs) p)"
      proof (cases "i < unat k")
        case True
        have "nv_ns n' (lba + of_nat i) = nv_ns n2 (lba + of_nat i)"
          using rw_loop_wf_frame [OF F(1) r] below_range64 [OF True] by blast
        also have "\<dots> = take bs (drop (i * bs) (bounce n1))"
          using F(3) [OF rc1 _ True] by simp
        also have "bounce n1 = q @ drop (length q) (bounce n)"
          by (simp add: n1 arr_put_def)
        also have "take bs (drop (i * bs) (q @ drop (length q) (bounce n))) =
            take bs (drop (i * bs) p)"
          unfolding q_def by (rule block_of_prefix [OF True lq [unfolded q_def]])
        finally show ?thesis .
      next
        case False
        with i ck have "i - unat k < unat (count - k)" by linarith
        with ih have "nv_ns n' (lba + ucast k + of_nat (i - unat k)) =
            take bs (drop ((i - unat k) * bs) (drop (unat k * bs) p))" by blast
        moreover have "(i - unat k) * bs + unat k * bs = i * bs"
          using False by (simp flip: add_mult_distrib)
        ultimately show ?thesis
          using range_split64 [of k i lba] False by (simp only: drop_drop not_less)
      qed
    qed
  qed
qed

lemma ns_blocks_split:
  assumes "unat k \<le> c"
  shows "concat (map (\<lambda>i. f (lba + of_nat i)) [0..<c]) =
    concat (map (\<lambda>i. f ((lba :: u64) + of_nat i)) [0..<unat (k :: u32)]) @
    concat (map (\<lambda>i. f (lba + ucast k + of_nat i)) [0..<c - unat k])"
proof -
  have "[0..<c] = [0..<unat k] @ [unat k..<c]"
    using assms upt_add_eq_append [of 0 "unat k" "c - unat k"] by simp
  moreover have "map (\<lambda>i. f (lba + of_nat i)) [unat k..<c] =
      map (\<lambda>i. f (lba + ucast k + of_nat i)) [0..<c - unat k]"
    by (rule nth_equalityI) (auto simp: add.assoc)
  ultimately show ?thesis by simp
qed

lemma rw_loop_read:
  assumes "nvme_wf n bs" and "rw_loop False lba count p n = (0, out, n')"
  shows "out = concat (map (\<lambda>i. nv_ns n (lba + of_nat i)) [0..<unat count]) \<and> nv_ns n' = nv_ns n"
  using assms
proof (induction "unat count" arbitrary: lba count p n out n' rule: less_induct)
  case less
  show ?case
  proof (cases "count = 0")
    case True
    with less.prems show ?thesis by (simp add: rw_loop.simps)
  next
    case False
    define k where "k = chunk_len count n"
    obtain rc1 n2 where wf1: "nvme_wf n bs" and fit: "chunk_fits k bs"
      and ch: "rw_chunk False lba k n = (rc1, n2)"
      and bad: "rc1 \<noteq> 0 \<longrightarrow> (0 :: int) = -1"
      and good: "rc1 = 0 \<longrightarrow> (\<exists>rest. rw_loop False (lba + ucast k) (count - k)
        (drop (unat k * bs) p) n2 = (0, rest, n') \<and> out = take (unat k * bs) (bounce n2) @ rest)"
      by (rule rw_loop_step [OF less.prems(1) False k_def less.prems(2)]) auto
    then have rc1: "rc1 = 0" by auto
    have le: "k \<le> count" and k0: "k \<noteq> 0"
      using fit by (simp_all add: k_def chunk_len_le chunk_fits_def)
    then have kn: "unat k \<le> unat count" by (simp add: word_le_nat_alt)
    note F = rw_chunk_facts [OF wf1 fit ch]
    have ns2: "nv_ns n2 = nv_ns n" using F(2) by blast
    obtain rest where r: "rw_loop False (lba + ucast k) (count - k) (drop (unat k * bs) p) n2 = (0, rest, n')"
      and out: "out = take (unat k * bs) (bounce n2) @ rest"
      using good rc1 by blast
    have dec: "unat (count - k) < unat count" and ck: "unat (count - k) = unat count - unat k"
      using k0 chunk_len_decreases [of count n] unat_sub32 [OF le] by (simp_all add: k_def)
    show ?thesis
      using less.hyps [OF dec F(1) r] F(4) [OF rc1]
      unfolding out ck ns2 ns_blocks_split [OF kn, of "nv_ns n"] by simp
  qed
qed

lemma rw_loop_answers:
  assumes "nvme_wf n bs" and "drive_answers n bs" and "unat lba + unat count \<le> unat (blocks (info n))"
  shows "fst (rw_loop wr lba count p n) = 0"
  using assms
proof (induction "unat count" arbitrary: lba count p n rule: less_induct)
  case less
  show ?case
  proof (cases "count = 0")
    case True
    then show ?thesis by (simp add: rw_loop.simps)
  next
    case False
    define k where "k = chunk_len count n"
    obtain rc out n' where run: "rw_loop wr lba count p n = (rc, out, n')"
      by (cases "rw_loop wr lba count p n")
    obtain n1 rc1 n2 where n1: "n1 = (if wr then n\<lparr>bounce := arr_put (bounce n) 0 (take (unat k * bs) p)\<rparr> else n)"
      and wf1: "nvme_wf n1 bs" and fit: "chunk_fits k bs"
      and ch: "rw_chunk wr lba k n1 = (rc1, n2)"
      and good: "rc1 = 0 \<longrightarrow> (\<exists>rest. rw_loop wr (lba + ucast k) (count - k)
        (drop (unat k * bs) p) n2 = (rc, rest, n'))"
      by (rule rw_loop_step [OF less.prems(1) False k_def run]) blast
    have cfg1: "same_config n n1" by (simp add: n1 same_config_def)
    have cfg2: "same_config n n2" using same_config_trans [OF cfg1 rw_chunk_config [of n1 wr lba k]] ch by simp
    have le: "k \<le> count" and k0: "k \<noteq> 0" using fit by (simp_all add: k_def chunk_len_le chunk_fits_def)
    have ck: "unat k \<le> unat count" "unat (count - k) = unat count - unat k"
      using le unat_sub32 [OF le] by (simp_all add: word_le_nat_alt)
    have "drive_answers n1 bs" "unat lba + unat k \<le> unat (blocks (info n1))"
      using less.prems ck drive_answers_cong [OF cfg1] cfg1 by (simp_all add: same_config_def)
    then have rc1: "rc1 = 0" by (rule rw_chunk_facts(5) [OF wf1 fit ch])
    have dec: "unat (count - k) < unat count" using k0 chunk_len_decreases [of count n] by (simp add: k_def)
    have "unat lba + unat k < 18446744073709551616"
      using less.prems(3) ck unsigned_less [of "blocks (info n)", where ?'a = nat] by simp
    then have "unat (lba + ucast k) = unat lba + unat k" by (simp add: unat_word_ariths)
    then have "unat (lba + ucast k) + unat (count - k) \<le> unat (blocks (info n2))"
      using less.prems(3) ck cfg2 by (simp add: same_config_def)
    from less.hyps [OF dec rw_chunk_facts(1) [OF wf1 fit ch] _ this] less.prems(2) drive_answers_cong [OF cfg2] good rc1 run
    show ?thesis by (metis fst_conv)
  qed
qed

subsection \<open>The driver's interface\<close>

lemma rw_bound:
  assumes "unat lba + unat count \<le> unat (b :: u64)"
  shows "lba + ucast (count :: u32) \<le> b"
proof -
  have "unat lba + unat count < 18446744073709551616" using assms unsigned_less [of b, where ?'a = nat] by simp
  then show ?thesis using assms by (simp add: word_le_nat_alt unat_word_ariths)
qed

text \<open>
  \<open>nvme_write\<close> leaves every block outside \<open>[lba, lba + count)\<close> as it was, whether it succeeds
  or not, and when it returns 0 the blocks of that range hold the caller's bytes in order. With
  a drive without faults, a transfer inside the namespace does return 0.
\<close>

lemma nvme_write_facts:
  assumes "nvme_wf n bs" and "unat count * bs \<le> length p"
    and "nvme_write lba count p n = (rc, n')"
  shows "nvme_wf n' bs \<and> same_config n n'"
    and "nv_ns n' x \<noteq> nv_ns n x \<longrightarrow> unat (x - lba) < unat count"
    and "rc = 0 \<longrightarrow> (\<forall>i < unat count. nv_ns n' (lba + of_nat i) = take bs (drop (i * bs) p))"
    and "drive_answers n bs \<and> present (info n) \<and> count \<noteq> 0 \<and> unat lba + unat count \<le> unat (blocks (info n)) \<longrightarrow> rc = 0"
proof -
  obtain out where run: "rw True lba count p n = (rc, out, n')"
    using assms(3) by (auto simp: nvme_write_def split: prod.splits)
  then consider (rej) "rc = -1" "n' = n" "\<not> present (info n) \<or> count = 0 \<or> lba + ucast count > blocks (info n)"
    | (loop) "rw_loop True lba count p n = (rc, out, n')"
    by (auto simp: rw_def split: if_splits)
  note cases = this
  show "nvme_wf n' bs \<and> same_config n n'"
    using rw_loop_wf_frame [OF assms(1)] assms(1) by (cases rule: cases) auto
  show "nv_ns n' x \<noteq> nv_ns n x \<longrightarrow> unat (x - lba) < unat count"
    using rw_loop_wf_frame [OF assms(1)] by (cases rule: cases) auto
  show "rc = 0 \<longrightarrow> (\<forall>i < unat count. nv_ns n' (lba + of_nat i) = take bs (drop (i * bs) p))"
    using rw_loop_write [OF assms(1) _ assms(2)] by (cases rule: cases) auto
  show "drive_answers n bs \<and> present (info n) \<and> count \<noteq> 0 \<and> unat lba + unat count \<le> unat (blocks (info n)) \<longrightarrow> rc = 0"
    using rw_loop_answers [OF assms(1), of lba count True p] rw_bound [of lba count "blocks (info n)"] by (cases rule: cases) (auto simp: not_less)
qed

text \<open>
  \<open>nvme_read\<close> changes no block, and when it returns 0 it has copied out exactly the blocks of
  \<open>[lba, lba + count)\<close> in order; with a drive without faults it does return 0.
\<close>

lemma nvme_read_facts:
  assumes "nvme_wf n bs" and "nvme_read lba count n = (rc, out, n')"
  shows "nvme_wf n' bs \<and> same_config n n' \<and> nv_ns n' = nv_ns n"
    and "rc = 0 \<longrightarrow> out = concat (map (\<lambda>i. nv_ns n (lba + of_nat i)) [0..<unat count])"
    and "drive_answers n bs \<and> present (info n) \<and> count \<noteq> 0 \<and> unat lba + unat count \<le> unat (blocks (info n)) \<longrightarrow> rc = 0"
proof -
  consider (rej) "rc = -1" "n' = n" "\<not> present (info n) \<or> count = 0 \<or> lba + ucast count > blocks (info n)"
    | (loop) "rw_loop False lba count [] n = (rc, out, n')"
    using assms(2) by (auto simp: nvme_read_def rw_def split: if_splits)
  note cases = this
  show "nvme_wf n' bs \<and> same_config n n' \<and> nv_ns n' = nv_ns n"
    using rw_loop_wf_frame [OF assms(1), of False lba count "[]" rc out n'] assms(1)
    by (cases rule: cases) (auto simp: fun_eq_iff)
  show "rc = 0 \<longrightarrow> out = concat (map (\<lambda>i. nv_ns n (lba + of_nat i)) [0..<unat count])"
    using rw_loop_read [OF assms(1)] by (cases rule: cases) auto
  show "drive_answers n bs \<and> present (info n) \<and> count \<noteq> 0 \<and> unat lba + unat count \<le> unat (blocks (info n)) \<longrightarrow> rc = 0"
    using rw_loop_answers [OF assms(1), of lba count False "[]"] rw_bound [of lba count "blocks (info n)"] by (cases rule: cases) (auto simp: not_less)
qed

lemma concat_blocks:
  assumes "c * bs \<le> length p"
  shows "concat (map (\<lambda>i. take bs (drop (i * bs) p)) [0..<c]) = take (c * bs) p"
  using assms
proof (induction c)
  case 0
  then show ?case by simp
next
  case (Suc c)
  then have "take (c * bs + bs) p = take (c * bs) p @ take bs (drop (c * bs) p)"
    by (simp only: take_add)
  with Suc show ?case by (simp add: add.commute)
qed

text \<open>
  C8. NVMe round trip, over a completion queue that wraps. The driver finds each completion by its phase tag:
  on a controller that posts completions by the rules of the queue and keeps the NVM command set's rules, a
  transfer that returned 0 did take place - stale entries of an earlier pass over the queue are never taken for an
  answer - so that a write and a read that both return 0 give back the bytes unchanged, however many 128 KB chunks,
  PRP lists and queue wraps they take. Whatever is returned, every block outside the range keeps its contents and
  the queue is left in step with the controller. On a drive without faults both calls do return 0. A completion
  that arrives after the driver has given up polling is not considered.
\<close>

theorem nvme_roundtrip:
  assumes "nvme_wf n bs" and "unat count * bs \<le> length p"
    and "nvme_write lba count p n = (rc, n')" and "nvme_read lba count n' = (rc', out, n'')"
  shows "(rc = 0 \<and> rc' = 0 \<longrightarrow> out = take (unat count * bs) p) \<and>
    (\<forall>x. nv_ns n'' x \<noteq> nv_ns n x \<longrightarrow> unat (x - lba) < unat count) \<and> nvme_wf n'' bs \<and>
    (drive_answers n bs \<and> present (info n) \<and> count \<noteq> 0 \<and> unat lba + unat count \<le> unat (blocks (info n)) \<longrightarrow> rc = 0 \<and> rc' = 0)"
proof -
  note W = nvme_write_facts [OF assms(1,2,3)]
  have wf': "nvme_wf n' bs" and cfg: "same_config n n'" using W(1) by simp_all
  note R = nvme_read_facts [OF wf' assms(4)]
  have "out = take (unat count * bs) p" if "rc = 0" "rc' = 0"
  proof -
    have "out = concat (map (\<lambda>i. nv_ns n' (lba + of_nat i)) [0..<unat count])" using R(2) that by simp
    also have "map (\<lambda>i. nv_ns n' (lba + of_nat i)) [0..<unat count] =
        map (\<lambda>i. take bs (drop (i * bs) p)) [0..<unat count]"
      using W(3) that by simp
    also have "concat \<dots> = take (unat count * bs) p" by (rule concat_blocks [OF assms(2)])
    finally show ?thesis .
  qed
  moreover have "rc = 0 \<and> rc' = 0" if "drive_answers n bs" "present (info n)" "count \<noteq> 0" "unat lba + unat count \<le> unat (blocks (info n))"
    using W(4) R(3) that drive_answers_cong [OF cfg] cfg by (simp add: same_config_def)
  ultimately show ?thesis using R(1) W(2) by auto
qed

subsection \<open>A drive to run the driver on\<close>

text \<open>A controller that completes every command at once, for evaluating concrete transfers.\<close>

definition demo_controller :: "nat \<Rightarrow> controller" where
  "demo_controller bs sq tail prps v =
     (let c = fetched sq tail; b = d_buf v; ns = d_ns v;
          cnt = cmd_count c; lba = cmd_lba c; fits = cnt * bs \<le> length b;
          data = concat (map (\<lambda>i. ns (lba + of_nat i)) [0..<cnt]);
          cq = (d_cq v)[d_posted v mod 64 := push_bit 16 (tag (d_posted v))]
      in ([(d_cq v, 0), (cq, 0)],
          \<lparr>d_posted = d_posted v + 1, d_cq = cq,
           d_buf = (if cmd_op c = 2 \<and> fits \<and> length data = cnt * bs then arr_put b 0 data else b),
           d_ns = (if cmd_op c = 1 \<and> fits
             then (\<lambda>x. if unat (x - lba) < cnt then take bs (drop (unat (x - lba) * bs) b) else ns x)
             else ns)\<rparr>))"

text \<open>A driver about to use the last slot of the queue's first pass.\<close>

definition demo_nvme :: nvme where
  "demo_nvme =
     \<lparr>info = \<lparr>present = True, model = [], serial = [], firmware = [], nsid = 1, block_size = 512,
        blocks = 1000, bar = 0xFEB00000, pci_vendor = 0x1B36, pci_device = 0x10,
        pci_bus = 0, pci_dev = 4, pci_fn = 0\<rparr>,
      io_q = \<lparr>q_sq = replicate 64 zero_sqe, q_cq = replicate 63 0x10000 @ [0], q_tail = 63, q_head = 63, q_phase = 1, q_posted = 63\<rparr>,
      next_cid = 7, doorbell_stride = 4, mmio_log = [], bounce = replicate 131072 0,
      bounce_addr = 0x300000, prp_list = replicate 32 0, prp_addr = 0x320000,
      nv_dev = demo_controller 512, nv_ns = (\<lambda>_. replicate 512 0)\<rparr>"

lemma tag_entry: "phase_of (push_bit 16 (tag k)) = tag k" "status_of (push_bit 16 (tag k)) = 0"
  by (simp_all add: tag_def phase_of_def status_of_def drop_bit_eq_div)

lemma demo_posts:
  assumes "demo_controller bs sq dbell prps v = (ps, v')" "length (d_cq v) = 64"
  shows "posts v v' ps" "done_ok v v'"
proof -
  have s: "d_posted v mod 64 < length (d_cq v)" using assms(2) by simp
  have v': "d_posted v' = d_posted v + 1" "d_cq v' = (d_cq v)[d_posted v mod 64 := push_bit 16 (tag (d_posted v))]" "ps = [(d_cq v, 0), (d_cq v', 0)]"
    using assms(1) by (auto simp: demo_controller_def Let_def)
  then show "done_ok v v'" using s by (simp add: done_ok_def tag_entry)
  have "(1 :: nat) < SPIN_LIMIT" by (simp add: SPIN_LIMIT_def)
  then show "posts v v' ps" using v' s assms(2) by (auto simp: posts_def Let_def tag_entry intro!: exI [of _ 1])
qed

lemma demo_answers: "nv_dev n = demo_controller bs \<Longrightarrow> drive_answers n bs'"
  using demo_posts(2) by (auto simp: drive_answers_def)

lemma demo_controller_ok:
  assumes "nv_dev n = demo_controller bs"
  shows "controller_ok n bs"
  unfolding controller_ok_def assms
proof (intro allI impI, elim conjE)
  fix sq dbell prps v ps v'
  assume d: "demo_controller bs sq dbell prps v = (ps, v')" and ns: "\<forall>x. length (d_ns v x) = bs" and cq: "length (d_cq v) = 64"
  let ?c = "fetched sq dbell" and ?b = "d_buf v"
  let ?cnt = "cmd_count ?c" and ?data = "concat (map (\<lambda>i. d_ns v (cmd_lba (fetched sq dbell) + of_nat i)) [0..<cmd_count (fetched sq dbell)])"
  have len: "length ?data = ?cnt * bs" using ns by (simp add: length_concat comp_def sum_list_triv)
  have le: "?cnt \<le> 4294967296" using unat_lt_2_32 [of "cdw12 ?c"] by (simp add: cmd_count_def Suc_le_eq)
  have off: "unat (of_nat i :: u64) = i" if "i < ?cnt" for i
    using that le by (simp add: unat_of_nat)
  have blk: "length (take bs (drop (unat (x - cmd_lba ?c) * bs) ?b)) = bs"
    if "unat (x - cmd_lba ?c) < ?cnt" "?cnt * bs \<le> length ?b" for x :: u64
    using mult_le_mono1 [of "Suc (unat (x - cmd_lba ?c))" ?cnt bs] that by simp
  have b': "d_buf v' = (if cmd_op ?c = 2 \<and> ?cnt * bs \<le> length ?b then arr_put ?b 0 ?data else ?b)"
    and n': "d_ns v' = (if cmd_op ?c = 1 \<and> ?cnt * bs \<le> length ?b
      then (\<lambda>x. if unat (x - cmd_lba ?c) < ?cnt then take bs (drop (unat (x - cmd_lba ?c) * bs) ?b) else d_ns v x) else d_ns v)"
    using d len by (auto simp: demo_controller_def Let_def)
  have "length (d_buf v') = length ?b" using len by (simp add: b')
  moreover have "\<forall>x. length (d_ns v' x) = bs" using ns blk by (simp add: n')
  moreover have "\<forall>x. d_ns v' x \<noteq> d_ns v x \<longrightarrow> cmd_op ?c = 1 \<and> unat (x - cmd_lba ?c) < ?cnt" by (simp add: n')
  moreover have "\<forall>i < ?cnt. d_ns v' (cmd_lba ?c + of_nat i) = take bs (drop (i * bs) ?b)" if "cmd_op ?c = 1" "?cnt * bs \<le> length ?b"
    using that off by (simp add: n')
  moreover have "take (?cnt * bs) (d_buf v') = ?data" if "cmd_op ?c = 2" "?cnt * bs \<le> length ?b"
    using that len by (simp add: b' arr_put_def)
  ultimately show "posts v v' ps \<and> length (d_buf v') = length (d_buf v) \<and> (\<forall>x. length (d_ns v' x) = bs) \<and>
      (\<forall>x. d_ns v' x \<noteq> d_ns v x \<longrightarrow> cmd_op ?c = 1 \<and> unat (x - cmd_lba ?c) < ?cnt) \<and>
      (done_ok v v' \<and> prp_bounce ?c n prps (?cnt * bs) \<and> ?cnt * bs \<le> length (d_buf v) \<longrightarrow>
        (cmd_op ?c = 1 \<longrightarrow> (\<forall>i < ?cnt. d_ns v' (cmd_lba ?c + of_nat i) = take bs (drop (i * bs) (d_buf v)))) \<and>
        (cmd_op ?c = 2 \<longrightarrow> take (?cnt * bs) (d_buf v') = ?data))"
    using demo_posts(1) [OF d cq] by blast
qed

lemma demo_nvme_wf: "nvme_wf demo_nvme 512" "drive_answers demo_nvme 512"
proof -
  have "phase_of ((replicate 63 0x10000 @ [0]) ! j) = (if j < 63 then 1 else 0)" if "j < 64" for j :: nat
    using that by (cases "j = 63") (simp_all add: nth_append phase_of_def drop_bit_eq_div)
  then have "q_sync (io_q demo_nvme)" by (simp add: q_sync_def demo_nvme_def tag_def)
  then show "nvme_wf demo_nvme 512" using demo_controller_ok [of demo_nvme 512]
    by (simp add: nvme_wf_def) (simp add: demo_nvme_def)
  show "drive_answers demo_nvme 512" by (rule demo_answers) (simp add: demo_nvme_def)
qed

text \<open>The write uses slot 63 and wraps the queue, the read comes after it in the second pass.\<close>

theorem nvme_roundtrip_witness:
  "fst (nvme_write 5 3 (replicate 1536 7) demo_nvme) = 0 \<and>
   fst (snd (nvme_read 5 3 (snd (nvme_write 5 3 (replicate 1536 7) demo_nvme)))) = replicate 1536 7"
proof -
  obtain rc n' where w: "nvme_write 5 3 (replicate 1536 7) demo_nvme = (rc, n')" by fastforce
  obtain rc' out n'' where r: "nvme_read 5 3 n' = (rc', out, n'')" using prod_cases3 by blast
  have p: "unat (3 :: u32) * 512 \<le> length (replicate 1536 (7 :: u8))" by simp
  have "present (info demo_nvme)" "unat (5 :: u64) + unat (3 :: u32) \<le> unat (blocks (info demo_nvme))"
    by (simp_all add: demo_nvme_def)
  then show ?thesis using nvme_roundtrip [OF demo_nvme_wf(1) p w r] demo_nvme_wf(2) w r by simp
qed

end
