(* ===== verification/Disk.thy ===== *)
theory Disk
  imports Nvme
begin

text \<open>
  The sector layer of kernel/kernel.c: the ATA driver, the RAM disk handed over by the UEFI
  loader, and the persistent store, a partition of the NVMe drive that every write to the RAM
  disk goes through to. The interface the file system relies on is the locale \<open>block_dev\<close>; it is
  interpreted on the ATA driver, on the RAM disk and on \<open>disk_read_sectors\<close> and
  \<open>disk_write_sectors\<close>, which choose between the two.
\<close>

subsection \<open>Disk layout\<close>

definition STAGE2_SECTORS :: u32 where "STAGE2_SECTORS = 8"
definition KERNEL_SECTORS :: u32 where "KERNEL_SECTORS = 128"
definition DIR_SECTORS :: u32 where "DIR_SECTORS = 64"
definition KERNEL_LBA :: u32 where "KERNEL_LBA = 1 + STAGE2_SECTORS"
definition FS_DIR_LBA :: u32 where "FS_DIR_LBA = KERNEL_LBA + KERNEL_SECTORS"
definition FS_DATA_LBA :: u32 where "FS_DATA_LBA = FS_DIR_LBA + DIR_SECTORS"

lemmas lba_defs = STAGE2_SECTORS_def KERNEL_SECTORS_def DIR_SECTORS_def KERNEL_LBA_def
  FS_DIR_LBA_def FS_DATA_LBA_def

lemma lba_values [simp]: "FS_DIR_LBA = 137" "FS_DATA_LBA = 201" "DIR_SECTORS = 64"
  by (simp_all add: lba_defs)

subsection \<open>The interface of a block device\<close>

locale block_dev =
  fixes inv :: "'d \<Rightarrow> bool"
    and ok :: "'d \<Rightarrow> nat \<Rightarrow> nat \<Rightarrow> bool"
    and sector :: "'d \<Rightarrow> nat \<Rightarrow> u8 list"
    and rds :: "u32 \<Rightarrow> u32 \<Rightarrow> 'd \<Rightarrow> u8 list"
    and wrs :: "u32 \<Rightarrow> u32 \<Rightarrow> u8 list \<Rightarrow> 'd \<Rightarrow> 'd"
  assumes rds_eq: "inv d \<Longrightarrow> ok d (unat l) (unat c) \<Longrightarrow>
      rds l c d = concat (map (sector d) [unat l..<unat l + unat c])"
    and wrs_sector: "inv d \<Longrightarrow> ok d (unat l) (unat c) \<Longrightarrow> length p = unat c * 512 \<Longrightarrow> ok d i 1 \<Longrightarrow>
      sector (wrs l c p d) i =
        (if unat l \<le> i \<and> i < unat l + unat c then take 512 (drop ((i - unat l) * 512) p)
         else sector d i)"
    and wrs_inv: "inv d \<Longrightarrow> ok d (unat l) (unat c) \<Longrightarrow> length p = unat c * 512 \<Longrightarrow> inv (wrs l c p d)"
    and wrs_ok: "ok (wrs l c p d) = ok d"
    and sector_length: "inv d \<Longrightarrow> ok d i 1 \<Longrightarrow> length (sector d i) = 512"
    and ok_sub: "ok d a n \<Longrightarrow> a \<le> i \<Longrightarrow> i + m \<le> a + n \<Longrightarrow> ok d i m"
begin

lemma rds_length:
  assumes "inv d" "ok d (unat l) (unat c)"
  shows "length (rds l c d) = unat c * 512"
proof -
  have "length (sector d i) = 512" if "i \<in> set [unat l..<unat l + unat c]" for i
    using that sector_length [OF assms(1) ok_sub [OF assms(2), of i 1]] by simp
  then have "map (\<lambda>i. length (sector d i)) [unat l..<unat l + unat c] = replicate (unat c) 512"
    by (intro nth_equalityI) auto
  then show ?thesis
    by (simp add: rds_eq [OF assms] length_concat comp_def sum_list_replicate)
qed

lemma rds_cong:
  assumes "inv d" "inv d'" "ok d (unat l) (unat c)" "ok d' (unat l) (unat c)"
    and "\<And>i. unat l \<le> i \<Longrightarrow> i < unat l + unat c \<Longrightarrow> sector d' i = sector d i"
  shows "rds l c d' = rds l c d"
proof -
  have "map (sector d') [unat l..<unat l + unat c] = map (sector d) [unat l..<unat l + unat c]"
    using assms(5) by simp
  then show ?thesis using rds_eq assms(1-4) by metis
qed

text \<open>A write is read back, and a write elsewhere does not disturb a read.\<close>

lemma rds_after_wrs:
  assumes "inv d" "ok d (unat l) (unat c)" "length p = unat c * 512"
  shows "rds l c (wrs l c p d) = p"
proof -
  let ?d = "wrs l c p d"
  have "rds l c ?d = concat (map (sector ?d) [unat l..<unat l + unat c])"
    using assms by (intro rds_eq) (simp_all add: wrs_inv wrs_ok)
  also have "map (sector ?d) [unat l..<unat l + unat c] =
      map (\<lambda>i. take 512 (drop (i * 512) p)) [0..<unat c]"
  proof (rule nth_equalityI)
    fix i assume "i < length (map (sector ?d) [unat l..<unat l + unat c])"
    then have i: "i < unat c" by simp
    then have "ok d (unat l + i) 1" using ok_sub [OF assms(2)] by simp
    from wrs_sector [OF assms this] i
    show "map (sector ?d) [unat l..<unat l + unat c] ! i =
        map (\<lambda>i. take 512 (drop (i * 512) p)) [0..<unat c] ! i" by simp
  qed simp
  also have "concat \<dots> = p" using concat_blocks [of "unat c" 512 p] assms(3) by simp
  finally show ?thesis .
qed

lemma rds_other:
  assumes "inv d" "ok d (unat l) (unat c)" "length p = unat c * 512" "ok d (unat l') (unat c')"
    and "unat l' + unat c' \<le> unat l \<or> unat l + unat c \<le> unat l'"
  shows "rds l' c' (wrs l c p d) = rds l' c' d"
proof (rule rds_cong)
  fix i assume "unat l' \<le> i" "i < unat l' + unat c'"
  moreover from this have "ok d i 1" using ok_sub [OF assms(4)] by simp
  ultimately show "sector (wrs l c p d) i = sector d i"
    using wrs_sector [OF assms(1-3), of i] assms(5) by auto
qed (use assms in \<open>simp_all add: wrs_inv wrs_ok\<close>)

text \<open>A prefix of a larger read.\<close>

lemma rds_take:
  assumes "inv d" "ok d (unat l) (unat c)" "unat k \<le> unat c"
  shows "rds l k d = take (unat k * 512) (rds l c d)"
proof -
  have okk: "ok d (unat l) (unat k)" using ok_sub [OF assms(2), of "unat l" "unat k"] assms(3) by simp
  have "[unat l..<unat l + unat c] = [unat l..<unat l + unat k] @ [unat l + unat k..<unat l + unat c]"
    using assms(3) upt_add_eq_append [of "unat l" "unat l + unat k" "unat c - unat k"] by simp
  then have "rds l c d = rds l k d @ concat (map (sector d) [unat l + unat k..<unat l + unat c])"
    by (simp add: rds_eq [OF assms(1,2)] rds_eq [OF assms(1) okk])
  then show ?thesis using rds_length [OF assms(1) okk] by simp
qed

end

subsection \<open>State\<close>

text \<open>
  The ATA drive is hardware: its media are 512-byte sectors, \<open>ata_rd\<close> gives the words a read
  command delivers on the data port and \<open>ata_wr\<close> the media after a write command and the cache
  flush, both from the register writes that set the command up.
\<close>

type_synonym media = "u32 \<Rightarrow> u8 list"
type_synonym port_writes = "(u16 \<times> u8) list"

record disk =
  rd_base :: u32
  rd_sectors :: u32
  rd_mem :: mem
  ata_rd :: "port_writes \<Rightarrow> media \<Rightarrow> u16 list"
  ata_wr :: "port_writes \<Rightarrow> u16 list \<Rightarrow> port_writes \<Rightarrow> media \<Rightarrow> media"
  ata_media :: media
  nv :: nvme
  store_first_lba :: u64
  store_last_lba :: u64
  store_fs_sectors :: u32
  store_ready :: bool
  store_status :: u32

subsection \<open>ATA\<close>

definition ata_setup :: "u32 \<Rightarrow> u8 \<Rightarrow> port_writes" where
  "ata_setup lba cmd =
     [(0x1F6, 0xE0 OR ucast (drop_bit 24 lba AND 0x0F)), (0x1F2, 1), (0x1F3, ucast lba),
      (0x1F4, ucast (drop_bit 8 lba)), (0x1F5, ucast (drop_bit 16 lba)), (0x1F7, cmd)]"

definition word_bytes :: "u16 \<Rightarrow> u8 list" where
  "word_bytes w = [ucast w, ucast (drop_bit 8 w)]"

fun bytes_words :: "u8 list \<Rightarrow> u16 list" where
  "bytes_words (a # b # bs) = (ucast a OR push_bit 8 (ucast b)) # bytes_words bs"
| "bytes_words bs = []"

definition ata_read_sector :: "u32 \<Rightarrow> disk \<Rightarrow> u8 list" where
  "ata_read_sector lba d =
     concat (map word_bytes (take 256 (ata_rd d (ata_setup lba 0x20) (ata_media d))))"

definition ata_write_sector :: "u32 \<Rightarrow> u8 list \<Rightarrow> disk \<Rightarrow> disk" where
  "ata_write_sector lba buf d =
     d\<lparr>ata_media := ata_wr d (ata_setup lba 0x30) (bytes_words (take 512 buf)) [(0x1F7, 0xE7)]
          (ata_media d)\<rparr>"

definition ata_read_sectors :: "u32 \<Rightarrow> u32 \<Rightarrow> disk \<Rightarrow> u8 list" where
  "ata_read_sectors lba count d =
     concat (map (\<lambda>i. ata_read_sector (lba + of_nat i) d) [0..<unat count])"

definition ata_write_sectors :: "u32 \<Rightarrow> u32 \<Rightarrow> u8 list \<Rightarrow> disk \<Rightarrow> disk" where
  "ata_write_sectors lba count buf d =
     fold (\<lambda>i. ata_write_sector (lba + of_nat i) (drop (i * 512) buf)) [0..<unat count] d"

subsection \<open>The persistent store\<close>

definition STORE_MAGIC0 :: u32 where "STORE_MAGIC0 = 0x494E494D"
definition STORE_MAGIC1 :: u32 where "STORE_MAGIC1 = 0x3233534F"
definition STORE_VERSION :: u32 where "STORE_VERSION = 1"

definition STORE_NONE :: u32 where "STORE_NONE = 0"
definition STORE_NO_GPT :: u32 where "STORE_NO_GPT = 1"
definition STORE_NO_PART :: u32 where "STORE_NO_PART = 2"
definition STORE_BAD_BLOCK :: u32 where "STORE_BAD_BLOCK = 3"
definition STORE_TOO_SMALL :: u32 where "STORE_TOO_SMALL = 4"
definition STORE_OK :: u32 where "STORE_OK = 5"

definition store_lba_ok :: "u64 \<Rightarrow> u32 \<Rightarrow> disk \<Rightarrow> bool" where
  "store_lba_ok lba count d \<longleftrightarrow>
     (if \<not> store_ready d \<or> count = 0 then False
      else if lba \<le> store_first_lba d then False
      else if lba + ucast count - 1 > store_last_lba d then False
      else True)"

definition store_write_through :: "u32 \<Rightarrow> u32 \<Rightarrow> u8 list \<Rightarrow> disk \<Rightarrow> disk" where
  "store_write_through lba count buf d =
     (if \<not> store_ready d \<or> lba < FS_DIR_LBA then d
      else let off = lba - FS_DIR_LBA in
        if off + count > store_fs_sectors d then d
        else let target = store_first_lba d + 1 + ucast off in
          if \<not> store_lba_ok target count d then d
          else d\<lparr>nv := snd (nvme_write target count buf (nv d))\<rparr>)"

subsection \<open>Sector access\<close>

definition rd_range_ok :: "u32 \<Rightarrow> u32 \<Rightarrow> disk \<Rightarrow> bool" where
  "rd_range_ok lba count d \<longleftrightarrow>
     (if rd_base d = 0 \<or> lba < FS_DIR_LBA then False
      else lba - FS_DIR_LBA + count \<le> rd_sectors d)"

definition rd_addr :: "u32 \<Rightarrow> disk \<Rightarrow> u32" where
  "rd_addr lba d = rd_base d + (lba - FS_DIR_LBA) * 512"

definition disk_read_sectors :: "u32 \<Rightarrow> u32 \<Rightarrow> disk \<Rightarrow> u8 list" where
  "disk_read_sectors lba count d =
     (if rd_base d \<noteq> 0 then
        (if \<not> rd_range_ok lba count d then replicate (unat (count * 512)) 0
         else mem_load (rd_mem d) (rd_addr lba d) (unat (count * 512)))
      else ata_read_sectors lba count d)"

definition disk_write_sectors :: "u32 \<Rightarrow> u32 \<Rightarrow> u8 list \<Rightarrow> disk \<Rightarrow> disk" where
  "disk_write_sectors lba count buf d =
     (if rd_base d \<noteq> 0 then
        (if \<not> rd_range_ok lba count d then d
         else store_write_through lba count buf
                (d\<lparr>rd_mem := memcpy (rd_mem d) (rd_addr lba d) (take (unat (count * 512)) buf)\<rparr>))
      else ata_write_sectors lba count buf d)"

definition disk_read_sector :: "u32 \<Rightarrow> disk \<Rightarrow> u8 list" where
  "disk_read_sector lba d = disk_read_sectors lba 1 d"

definition disk_write_sector :: "u32 \<Rightarrow> u8 list \<Rightarrow> disk \<Rightarrow> disk" where
  "disk_write_sector lba buf d = disk_write_sectors lba 1 buf d"

subsection \<open>The ATA driver is a block device\<close>

text \<open>How the drive reads its registers: 28-bit LBA mode, one sector, and the last command.\<close>

definition reg_of :: "port_writes \<Rightarrow> u16 \<Rightarrow> u8" where
  "reg_of ops p = (case map_of (rev ops) p of Some v \<Rightarrow> v | None \<Rightarrow> 0)"

definition tf_lba :: "port_writes \<Rightarrow> u32" where
  "tf_lba ops = ucast (reg_of ops 0x1F3) OR push_bit 8 (ucast (reg_of ops 0x1F4))
     OR push_bit 16 (ucast (reg_of ops 0x1F5)) OR push_bit 24 (ucast (reg_of ops 0x1F6 AND 0x0F))"

definition tf_cmd :: "port_writes \<Rightarrow> u8 \<Rightarrow> bool" where
  "tf_cmd ops cmd \<longleftrightarrow> reg_of ops 0x1F7 = cmd \<and> reg_of ops 0x1F2 = 1 \<and> reg_of ops 0x1F6 AND 0xF0 = 0xE0"

text \<open>What the driver relies on: READ SECTORS delivers, and WRITE SECTORS stores, the addressed sector.\<close>

definition ata_ok :: "disk \<Rightarrow> bool" where
  "ata_ok d \<longleftrightarrow>
     (\<forall>ops m. tf_cmd ops 0x20 \<and> length (m (tf_lba ops)) = 512 \<longrightarrow>
        ata_rd d ops m = bytes_words (m (tf_lba ops))) \<and>
     (\<forall>ops ws m. tf_cmd ops 0x30 \<and> length ws = 256 \<longrightarrow>
        ata_wr d ops ws [(0x1F7, 0xE7)] m = m(tf_lba ops := concat (map word_bytes ws)))"

definition ata_wf :: "disk \<Rightarrow> bool" where
  "ata_wf d \<longleftrightarrow> ata_ok d \<and> (\<forall>x. length (ata_media d x) = 512)"

definition ata_range :: "disk \<Rightarrow> nat \<Rightarrow> nat \<Rightarrow> bool" where
  "ata_range d l c \<longleftrightarrow> l + c \<le> 0x10000000"

definition ata_sector :: "disk \<Rightarrow> nat \<Rightarrow> u8 list" where
  "ata_sector d i = ata_media d (of_nat i)"

lemma reg_of_setup [simp]:
  "reg_of (ata_setup lba cmd) 0x1F7 = cmd" "reg_of (ata_setup lba cmd) 0x1F2 = 1"
  "reg_of (ata_setup lba cmd) 0x1F3 = ucast lba" "reg_of (ata_setup lba cmd) 0x1F4 = ucast (drop_bit 8 lba)"
  "reg_of (ata_setup lba cmd) 0x1F5 = ucast (drop_bit 16 lba)"
  "reg_of (ata_setup lba cmd) 0x1F6 = 0xE0 OR ucast (drop_bit 24 lba AND 0x0F)"
  by (simp_all add: reg_of_def ata_setup_def)

lemma mask4: "(0x0F :: 8 word) = mask 4" "(0x0F :: 32 word) = mask 4"
  by (simp_all add: mask_eq_exp_minus_1)

lemma tf_cmd_setup: "tf_cmd (ata_setup lba cmd) cmd"
proof -
  have n: "(0xF0 :: u8) = NOT (mask 4)" by (simp add: mask_eq_exp_minus_1 not_eq_complement)
  have "(ucast (drop_bit 24 lba AND 0x0F) :: u8) AND 0xF0 = 0"
    unfolding n mask4 by (rule bit_word_eqI) (auto simp: bit_simps)
  then show ?thesis by (simp add: tf_cmd_def bit.conj_disj_distrib2)
qed

lemma tf_lba_setup:
  assumes "unat lba < 0x10000000"
  shows "tf_lba (ata_setup lba cmd) = lba"
proof -
  have hi: "\<not> bit lba n" if "28 \<le> n" for n
  proof -
    have "unat lba < 2 ^ n" using assms power_increasing [OF that, of "2::nat"] by simp
    then have "\<not> bit (unat lba) n" by (simp add: bit_iff_odd)
    then show ?thesis by (auto simp: bit_unsigned_iff dest: bit_imp_le_length)
  qed
  have "(ucast (drop_bit 24 lba AND 0x0F) :: u8) AND 0x0F = ucast (drop_bit 24 lba) AND 0x0F"
    unfolding mask4 by (rule bit_word_eqI) (auto simp: bit_simps)
  then have e: "(0xE0 OR ucast (drop_bit 24 lba AND 0x0F) :: u8) AND 0x0F = ucast (drop_bit 24 lba) AND 0x0F"
    by (simp add: bit.conj_disj_distrib2)
  show ?thesis
  proof (rule bit_word_eqI)
    fix n :: nat assume n: "n < LENGTH(32)"
    consider "n < 8" | "8 \<le> n" "n < 16" | "16 \<le> n" "n < 24" | "24 \<le> n" "n < 28" | "28 \<le> n"
      using n by fastforce
    then show "bit (tf_lba (ata_setup lba cmd)) n = bit lba n"
      using n hi [of n] unfolding tf_lba_def reg_of_setup e unfolding mask4
      by cases (auto simp: bit_simps)
  qed
qed

lemma word_bytes_pair: "word_bytes (ucast a OR push_bit 8 (ucast b)) = [a, b]"
proof -
  have "(ucast (ucast a OR push_bit 8 (ucast b) :: u16) :: u8) = a"
    by (rule bit_word_eqI) (auto simp: bit_simps)
  moreover have "(ucast (drop_bit 8 (ucast a OR push_bit 8 (ucast b) :: u16)) :: u8) = b"
    by (rule bit_word_eqI) (auto simp: bit_simps dest: bit_imp_le_length)
  ultimately show ?thesis by (simp add: word_bytes_def)
qed

lemma words_of_bytes: "even (length bs) \<Longrightarrow>
    concat (map word_bytes (bytes_words bs)) = bs \<and> length (bytes_words bs) = length bs div 2"
  by (induction bs rule: bytes_words.induct) (auto simp: word_bytes_pair)

lemma ata_read_sector_eq:
  assumes "ata_wf d" "unat lba < 0x10000000"
  shows "ata_read_sector lba d = ata_media d lba"
proof -
  have len: "length (ata_media d (tf_lba (ata_setup lba 0x20))) = 512"
    using assms(1) by (simp add: ata_wf_def)
  then have "ata_rd d (ata_setup lba 0x20) (ata_media d) = bytes_words (ata_media d lba)"
    using assms tf_cmd_setup tf_lba_setup [OF assms(2)]
    unfolding ata_wf_def ata_ok_def by metis
  then show ?thesis
    using words_of_bytes [of "ata_media d lba"] assms(1) by (simp add: ata_read_sector_def ata_wf_def)
qed

lemma ata_write_sector_eq:
  assumes "ata_wf d" "unat lba < 0x10000000" "512 \<le> length buf"
  shows "ata_write_sector lba buf d = d\<lparr>ata_media := (ata_media d)(lba := take 512 buf)\<rparr>"
proof -
  have w: "length (bytes_words (take 512 buf)) = 256"
    "concat (map word_bytes (bytes_words (take 512 buf))) = take 512 buf"
    using words_of_bytes [of "take 512 buf"] assms(3) by simp_all
  then have "ata_wr d (ata_setup lba 0x30) (bytes_words (take 512 buf)) [(0x1F7, 0xE7)] (ata_media d) =
      (ata_media d)(lba := take 512 buf)"
    using assms(1) tf_cmd_setup tf_lba_setup [OF assms(2)]
    unfolding ata_wf_def ata_ok_def by metis
  then show ?thesis by (simp add: ata_write_sector_def)
qed

lemma ata_wf_media:
  "ata_wf d \<Longrightarrow> (\<And>x. length (m x) = 512) \<Longrightarrow> ata_wf (d\<lparr>ata_media := m\<rparr>)"
  by (simp add: ata_wf_def ata_ok_def)

lemma unat_lba_add:
  "unat l + i < 4294967296 \<Longrightarrow> unat ((l :: u32) + of_nat i) = unat l + i"
  by (simp add: unat_add32 unat_of_nat32)

lemma ata_write_sectors_eq:
  assumes "ata_wf d" "unat l + n \<le> 0x10000000" "n * 512 \<le> length p"
  shows "fold (\<lambda>i. ata_write_sector (l + of_nat i) (drop (i * 512) p)) [0..<n] d =
    d\<lparr>ata_media := \<lambda>x. if unat l \<le> unat x \<and> unat x < unat l + n
       then take 512 (drop ((unat x - unat l) * 512) p) else ata_media d x\<rparr>"
  using assms
proof (induction n)
  case 0
  have "(\<lambda>x. if unat l \<le> unat x \<and> unat x < unat l then q x else ata_media d x) = ata_media d" for q
    by (rule ext) auto
  then show ?case by simp
next
  case (Suc n)
  let ?m = "\<lambda>n x. if unat l \<le> unat x \<and> unat x < unat l + n
       then take 512 (drop ((unat x - unat l) * 512) p) else ata_media d x"
  have wf: "ata_wf (d\<lparr>ata_media := ?m n\<rparr>)"
  proof (rule ata_wf_media [OF Suc.prems(1)])
    fix x show "length (?m n x) = 512"
      using Suc.prems by (auto simp: ata_wf_def)
  qed
  have ad: "unat (l + of_nat n) = unat l + n" using Suc.prems(2) by (intro unat_lba_add) simp
  have "(?m n)(l + of_nat n := take 512 (drop (n * 512) p)) = ?m (Suc n)"
  proof
    fix x
    show "((?m n)(l + of_nat n := take 512 (drop (n * 512) p))) x = ?m (Suc n) x"
      using ad by (cases "x = l + of_nat n") (auto simp: word_unat_eq_iff less_Suc_eq)
  qed
  then show ?case
    using Suc ata_write_sector_eq [OF wf, of "l + of_nat n" "drop (n * 512) p"] ad
    by (simp add: Suc.IH)
qed

interpretation ata: block_dev ata_wf ata_range ata_sector ata_read_sectors ata_write_sectors
proof
  fix d :: disk and l c :: u32 and p :: "u8 list" and i a n m :: nat
  show "ata_read_sectors l c d = concat (map (ata_sector d) [unat l..<unat l + unat c])"
    if "ata_wf d" "ata_range d (unat l) (unat c)"
  proof -
    have "ata_read_sector (l + of_nat j) d = ata_sector d (unat l + j)" if "j < unat c" for j
      using ata_read_sector_eq [OF \<open>ata_wf d\<close>, of "l + of_nat j"] unat_lba_add [of l j] that
        \<open>ata_range d (unat l) (unat c)\<close>
      by (simp add: ata_sector_def ata_range_def)
    then have "map (\<lambda>j. ata_read_sector (l + of_nat j) d) [0..<unat c] =
        map (ata_sector d) [unat l..<unat l + unat c]"
      by (intro nth_equalityI) auto
    then show ?thesis by (simp add: ata_read_sectors_def)
  qed
  show "ata_wf (ata_write_sectors l c p d)" if "ata_wf d" "ata_range d (unat l) (unat c)" "length p = unat c * 512"
    using that ata_write_sectors_eq [OF that(1), of l "unat c" p]
    by (auto simp: ata_write_sectors_def ata_range_def ata_wf_def ata_ok_def)
  show "ata_range (ata_write_sectors l c p d) = ata_range d" by (simp add: ata_range_def fun_eq_iff)
  show "length (ata_sector d i) = 512" if "ata_wf d" using that by (simp add: ata_sector_def ata_wf_def)
  show "ata_range d i m" if "ata_range d a n" "a \<le> i" "i + m \<le> a + n"
    using that by (simp add: ata_range_def)
  show "ata_sector (ata_write_sectors l c p d) i =
      (if unat l \<le> i \<and> i < unat l + unat c then take 512 (drop ((i - unat l) * 512) p)
       else ata_sector d i)"
    if "ata_wf d" "ata_range d (unat l) (unat c)" "length p = unat c * 512" "ata_range d i 1"
  proof -
    have "unat (of_nat i :: u32) = i" using that(4) by (simp add: ata_range_def unat_of_nat32)
    then show ?thesis
      using ata_write_sectors_eq [OF that(1), of l "unat c" p] that(2,3)
      by (simp add: ata_write_sectors_def ata_range_def ata_sector_def)
  qed
qed

subsection \<open>The RAM disk and the store\<close>

definition rd_range :: "disk \<Rightarrow> nat \<Rightarrow> nat \<Rightarrow> bool" where
  "rd_range d l c \<longleftrightarrow> 137 \<le> l \<and> l - 137 + c \<le> unat (rd_sectors d)"

definition rd_sector :: "disk \<Rightarrow> nat \<Rightarrow> u8 list" where
  "rd_sector d i = mem_load (rd_mem d) (rd_base d + of_nat ((i - 137) * 512)) 512"

text \<open>
  The RAM disk fits the address space. When the store is armed the drive has 512-byte blocks and
  the image the header declares lies inside the partition, which lies inside the namespace.
\<close>

definition store_wf :: "disk \<Rightarrow> bool" where
  "store_wf d \<longleftrightarrow> (store_ready d \<longrightarrow>
     nvme_wf (nv d) 512 \<and> store_first_lba d < store_last_lba d \<and>
     unat (store_fs_sectors d) + 1 \<le> unat (store_last_lba d) - unat (store_first_lba d) + 1)"

definition rd_wf :: "disk \<Rightarrow> bool" where
  "rd_wf d \<longleftrightarrow> rd_base d \<noteq> 0 \<and> unat (rd_sectors d) * 512 < 4294967296 \<and> store_wf d"

text \<open>Going through to the drive changes nothing but the drive.\<close>

lemma store_write_through_frame [simp]:
  "rd_mem (store_write_through l c p d) = rd_mem d"
  "rd_base (store_write_through l c p d) = rd_base d"
  "rd_sectors (store_write_through l c p d) = rd_sectors d"
  "store_ready (store_write_through l c p d) = store_ready d"
  "store_first_lba (store_write_through l c p d) = store_first_lba d"
  "store_last_lba (store_write_through l c p d) = store_last_lba d"
  "store_fs_sectors (store_write_through l c p d) = store_fs_sectors d"
  "store_status (store_write_through l c p d) = store_status d"
  "ata_media (store_write_through l c p d) = ata_media d"
  "ata_rd (store_write_through l c p d) = ata_rd d"
  "ata_wr (store_write_through l c p d) = ata_wr d"
  by (simp_all add: store_write_through_def Let_def)

lemma store_write_through_nv:
  "nv (store_write_through l c p d) = nv d \<or>
   (\<exists>t. t = store_first_lba d + 1 + ucast (l - 137) \<and> store_lba_ok t c d \<and> 137 \<le> l \<and>
        l - 137 + c \<le> store_fs_sectors d \<and>
        nv (store_write_through l c p d) = snd (nvme_write t c p (nv d)))"
  by (simp add: store_write_through_def Let_def not_less)

lemma store_write_through_wf:
  assumes "store_wf d" "unat c * 512 \<le> length p"
  shows "store_wf (store_write_through l c p d)"
  using store_write_through_nv [of l c p d]
proof (elim disjE exE conjE)
  assume "nv (store_write_through l c p d) = nv d"
  with assms show ?thesis by (simp add: store_wf_def)
next
  fix t assume t: "store_lba_ok t c d" "nv (store_write_through l c p d) = snd (nvme_write t c p (nv d))"
  have "nvme_wf (nv d) 512" using t(1) assms(1) by (auto simp: store_lba_ok_def store_wf_def split: if_splits)
  from nvme_write_facts(1) [OF this assms(2) prod.collapse [symmetric], of t]
  have "nvme_wf (nv (store_write_through l c p d)) 512" using t(2) by simp
  with assms show ?thesis by (simp add: store_wf_def)
qed

lemma rd_range_ok_iff:
  assumes "rd_wf d" "unat l + unat c < 4294967296"
  shows "rd_range_ok l c d = rd_range d (unat l) (unat c)"
proof (cases "l < 137")
  case True
  with assms show ?thesis by (auto simp: rd_range_ok_def rd_range_def word_less_nat_alt)
next
  case False
  then have s: "unat (l - 137) = unat l - 137" and le: "137 \<le> unat l"
    using unat_sub32 [of 137 l] by (simp_all add: not_less word_le_nat_alt)
  then have "unat (l - 137 + c) = unat l - 137 + unat c"
    using assms(2) by (subst unat_add32) simp_all
  with False le assms(1) show ?thesis
    by (simp add: rd_range_ok_def rd_range_def rd_wf_def word_le_nat_alt)
qed

lemma rd_bytes:
  assumes "rd_wf d" "rd_range d (unat l) (unat c)"
  shows "unat ((c :: u32) * 512) = unat c * 512"
proof -
  have "unat c * 512 < 4294967296"
    using assms mult_le_mono1 [of "unat c" "unat (rd_sectors d)" 512]
    by (simp add: rd_wf_def rd_range_def)
  then show ?thesis using unat_mult32 [of c 512] by simp
qed

lemma rd_addr_eq:
  assumes "rd_range d (unat l) (unat c)"
  shows "rd_addr l d = rd_base d + of_nat ((unat l - 137) * 512)"
proof -
  have "137 \<le> l" using assms by (simp add: rd_range_def word_le_nat_alt)
  then have "unat (l - 137) = unat l - 137" using unat_sub32 [of 137 l] by simp
  then have "l - 137 = of_nat (unat l - 137)" by (simp flip: \<open>unat (l - 137) = unat l - 137\<close>)
  then show ?thesis by (simp add: rd_addr_def)
qed

lemma rd_sector_byte:
  assumes "j < 512"
  shows "rd_sector d i ! j = rd_mem d (rd_base d + of_nat ((i - 137) * 512 + j))"
  using assms by (simp add: rd_sector_def mem_simps add.assoc)

lemma nth_drop_block:
  assumes "j < 512" "(i + 1) * 512 \<le> length p"
  shows "take 512 (drop (i * 512) p) ! j = p ! (i * 512 + j)"
  using assms by simp

text \<open>What a write to the RAM disk does to each of its sectors.\<close>

lemma rd_sector_memcpy:
  assumes wf: "rd_wf d" and r: "rd_range d (unat l) (unat c)" and p: "length p = unat c * 512"
    and i: "rd_range d i 1"
  shows "rd_sector (d\<lparr>rd_mem := memcpy (rd_mem d) (rd_addr l d) p\<rparr>) i =
    (if unat l \<le> i \<and> i < unat l + unat c then take 512 (drop ((i - unat l) * 512) p)
     else rd_sector d i)" (is "?lhs = ?rhs")
proof (rule nth_equalityI)
  let ?n = "unat (rd_sectors d)"
  have small: "?n * 512 < 4294967296" using wf by (simp add: rd_wf_def)
  have lr: "137 \<le> unat l" "unat l - 137 + unat c \<le> ?n" using r unfolding rd_range_def by blast+
  have ir: "137 \<le> i" "i - 137 < ?n" using i by (simp_all add: rd_range_def)
  have inblk: "(i - unat l + 1) * 512 \<le> length p" if "unat l \<le> i" "i < unat l + unat c"
    using that p mult_le_mono1 [of "i - unat l + 1" "unat c" 512] by simp
  show "length ?lhs = length ?rhs"
    using inblk by (auto simp: rd_sector_def)
  fix j assume "j < length ?lhs"
  then have j: "j < 512" by (simp add: rd_sector_def)
  define A where "A = (i - 137) * 512 + j"
  define B where "B = (unat l - 137) * 512"
  let ?a = "rd_base d + of_nat A"
  have off: "?a - rd_addr l d = of_nat A - of_nat B"
    unfolding rd_addr_eq [OF r] B_def by simp
  have up: "A < ?n * 512" "B \<le> ?n * 512"
    using ir(2) j lr(2) mult_le_mono1 [of "i - 137 + 1" ?n 512] mult_le_mono1 [of "unat l - 137" ?n 512]
    unfolding A_def B_def by simp_all
  have un: "unat (of_nat A :: u32) = A" "unat (of_nat B :: u32) = B"
    using up small by (simp_all add: unat_of_nat32)
  have len: "length p \<le> ?n * 512 - B"
    using lr p mult_le_mono1 [of "unat l - 137 + unat c" ?n 512] unfolding B_def
    by (simp add: add_mult_distrib)
  have ge: "unat (?a - rd_addr l d) = A - B" if "B \<le> A"
    unfolding off using un that by (subst unat_sub) (simp_all add: word_le_nat_alt)
  have lt: "unat (?a - rd_addr l d) = 4294967296 + A - B" if "A < B"
    unfolding off using un that by (simp add: unat_sub_if_size word_le_nat_alt word_size)
  have "?lhs ! j = (if unat (?a - rd_addr l d) < length p then p ! unat (?a - rd_addr l d) else rd_mem d ?a)"
    using j len small by (simp only: rd_sector_byte A_def disk.simps) (simp add: memcpy_apply)
  moreover have old: "rd_sector d i ! j = rd_mem d ?a" using j by (simp only: rd_sector_byte A_def)
  moreover have "?rhs ! j = (if unat (?a - rd_addr l d) < length p then p ! unat (?a - rd_addr l d) else rd_mem d ?a)"
  proof (cases "unat l \<le> i")
    case True
    then have e: "B \<le> A" "A - B = (i - unat l) * 512 + j"
      using lr(1) unfolding A_def B_def by (simp_all add: diff_mult_distrib)
    show ?thesis
    proof (cases "i < unat l + unat c")
      case lt: True
      then have "(i - unat l) * 512 + j < length p" using inblk True j by simp
      with e lt True nth_drop_block [OF j inblk] show ?thesis by (simp add: ge)
    next
      case False
      then have "\<not> (i - unat l) * 512 + j < length p"
        using p mult_le_mono1 [of "unat c" "i - unat l" 512] by simp
      with e False old show ?thesis by (simp add: ge)
    qed
  next
    case False
    then have "A < B"
      using ir(1) j mult_le_mono1 [of "i - 137 + 1" "unat l - 137" 512] unfolding A_def B_def by simp
    then have "\<not> unat (?a - rd_addr l d) < length p" using lt len small up by linarith
    with False old show ?thesis by simp
  qed
  ultimately show "?lhs ! j = ?rhs ! j" by simp
qed

text \<open>Sector access through the RAM disk, and its laws.\<close>

definition rd_write :: "u32 \<Rightarrow> u32 \<Rightarrow> u8 list \<Rightarrow> disk \<Rightarrow> disk" where
  "rd_write l c p d = d\<lparr>rd_mem := memcpy (rd_mem d) (rd_addr l d) (take (unat (c * 512)) p)\<rparr>"

lemma rd_range_u32:
  "rd_wf d \<Longrightarrow> rd_range d (unat l) (unat c) \<Longrightarrow> unat l + unat c < 4294967296"
  by (auto simp: rd_wf_def rd_range_def)

lemma rd_write_eq:
  assumes "rd_wf d" "rd_range d (unat l) (unat c)" "length p = unat c * 512"
  shows "disk_write_sectors l c p d = store_write_through l c p (rd_write l c p d)"
  using assms rd_range_ok_iff [OF assms(1) rd_range_u32 [OF assms(1,2)]]
  by (simp add: disk_write_sectors_def rd_write_def rd_wf_def)

lemma rd_sector_write:
  assumes "rd_wf d" "rd_range d (unat l) (unat c)" "length p = unat c * 512" "rd_range d i 1"
  shows "rd_sector (disk_write_sectors l c p d) i =
    (if unat l \<le> i \<and> i < unat l + unat c then take 512 (drop ((i - unat l) * 512) p)
     else rd_sector d i)"
proof -
  have "rd_sector (disk_write_sectors l c p d) i = rd_sector (rd_write l c p d) i"
    unfolding rd_write_eq [OF assms(1-3)] by (simp add: rd_sector_def)
  also have "rd_write l c p d = d\<lparr>rd_mem := memcpy (rd_mem d) (rd_addr l d) p\<rparr>"
    using assms(3) rd_bytes [OF assms(1,2)] by (simp add: rd_write_def)
  finally show ?thesis using rd_sector_memcpy [OF assms] by simp
qed

lemma mem_load_sectors:
  "mem_load m a (c * 512) = concat (map (\<lambda>j. mem_load m (a + of_nat (j * 512)) 512) [0..<c])"
proof (induction c)
  case 0
  then show ?case by simp
next
  case (Suc c)
  have "Suc c * 512 = c * 512 + 512" by simp
  then show ?case using Suc by (simp only: mem_load_add) simp
qed

lemma rd_read_eq:
  assumes "rd_wf d" "rd_range d (unat l) (unat c)"
  shows "disk_read_sectors l c d = concat (map (rd_sector d) [unat l..<unat l + unat c])"
proof -
  have "disk_read_sectors l c d = mem_load (rd_mem d) (rd_addr l d) (unat c * 512)"
    using assms rd_range_ok_iff [OF assms(1) rd_range_u32 [OF assms]] rd_bytes [OF assms]
    by (simp add: disk_read_sectors_def rd_wf_def)
  also have "\<dots> = concat (map (\<lambda>j. mem_load (rd_mem d) (rd_addr l d + of_nat (j * 512)) 512) [0..<unat c])"
    by (rule mem_load_sectors)
  also have "map (\<lambda>j. mem_load (rd_mem d) (rd_addr l d + of_nat (j * 512)) 512) [0..<unat c] =
      map (rd_sector d) [unat l..<unat l + unat c]"
  proof (rule nth_equalityI)
    fix j assume "j < length (map (\<lambda>j. mem_load (rd_mem d) (rd_addr l d + of_nat (j * 512)) 512) [0..<unat c])"
    then have j: "j < unat c" by simp
    have "rd_addr l d + of_nat (j * 512) = rd_base d + of_nat ((unat l + j - 137) * 512)"
    proof -
      have "137 \<le> unat l" using assms(2) by (simp add: rd_range_def)
      then have "(unat l + j - 137) * 512 = (unat l - 137) * 512 + j * 512" by (simp add: diff_mult_distrib)
      then show ?thesis unfolding rd_addr_eq [OF assms(2)] by (simp only: of_nat_add add.assoc)
    qed
    with j show "map (\<lambda>j. mem_load (rd_mem d) (rd_addr l d + of_nat (j * 512)) 512) [0..<unat c] ! j =
        map (rd_sector d) [unat l..<unat l + unat c] ! j"
      by (simp add: rd_sector_def)
  qed simp
  finally show ?thesis .
qed

lemma ata_write_sectors_media: "\<exists>m. ata_write_sectors l c p d = d\<lparr>ata_media := m\<rparr>"
proof -
  have "\<exists>m. fold (\<lambda>i. ata_write_sector (l + of_nat i) (drop (i * 512) p)) xs d = d\<lparr>ata_media := m\<rparr>" for xs
  proof (induction xs arbitrary: d)
    case Nil
    show ?case by (rule exI [of _ "ata_media d"]) simp
  next
    case (Cons x xs)
    obtain m where "ata_write_sector (l + of_nat x) (drop (x * 512) p) d = d\<lparr>ata_media := m\<rparr>"
      by (simp add: ata_write_sector_def)
    with Cons.IH [of "d\<lparr>ata_media := m\<rparr>"] show ?case by simp
  qed
  then show ?thesis by (simp add: ata_write_sectors_def)
qed

lemma ata_write_frame [simp]:
  "rd_base (ata_write_sectors l c p d) = rd_base d" "rd_sectors (ata_write_sectors l c p d) = rd_sectors d"
  "rd_mem (ata_write_sectors l c p d) = rd_mem d" "nv (ata_write_sectors l c p d) = nv d"
  "store_ready (ata_write_sectors l c p d) = store_ready d"
  "store_first_lba (ata_write_sectors l c p d) = store_first_lba d"
  "store_last_lba (ata_write_sectors l c p d) = store_last_lba d"
  "store_fs_sectors (ata_write_sectors l c p d) = store_fs_sectors d"
  using ata_write_sectors_media [of l c p d] by auto

lemma disk_write_frame [simp]:
  "rd_base (disk_write_sectors l c p d) = rd_base d"
  "rd_sectors (disk_write_sectors l c p d) = rd_sectors d"
  "store_ready (disk_write_sectors l c p d) = store_ready d"
  "store_first_lba (disk_write_sectors l c p d) = store_first_lba d"
  "store_last_lba (disk_write_sectors l c p d) = store_last_lba d"
  "store_fs_sectors (disk_write_sectors l c p d) = store_fs_sectors d"
  by (simp_all add: disk_write_sectors_def)

interpretation rd: block_dev rd_wf rd_range rd_sector disk_read_sectors disk_write_sectors
proof
  fix d :: disk and l c :: u32 and p :: "u8 list" and i a n m :: nat
  show "disk_read_sectors l c d = concat (map (rd_sector d) [unat l..<unat l + unat c])"
    if "rd_wf d" "rd_range d (unat l) (unat c)" using that by (rule rd_read_eq)
  show "rd_sector (disk_write_sectors l c p d) i =
      (if unat l \<le> i \<and> i < unat l + unat c then take 512 (drop ((i - unat l) * 512) p)
       else rd_sector d i)"
    if "rd_wf d" "rd_range d (unat l) (unat c)" "length p = unat c * 512" "rd_range d i 1"
    using that by (rule rd_sector_write)
  show "rd_wf (disk_write_sectors l c p d)"
    if "rd_wf d" "rd_range d (unat l) (unat c)" "length p = unat c * 512"
  proof -
    have "store_wf (rd_write l c p d)" using that(1) by (simp add: rd_wf_def store_wf_def rd_write_def)
    then have "store_wf (disk_write_sectors l c p d)"
      unfolding rd_write_eq [OF that] using that(3) by (intro store_write_through_wf) simp_all
    then show ?thesis using that(1) by (simp add: rd_wf_def)
  qed
  show "rd_range (disk_write_sectors l c p d) = rd_range d" by (simp add: rd_range_def fun_eq_iff)
  show "length (rd_sector d i) = 512" by (simp add: rd_sector_def)
  show "rd_range d i m" if "rd_range d a n" "a \<le> i" "i + m \<le> a + n"
    using that by (auto simp: rd_range_def)
qed

subsection \<open>What the file system sees\<close>

definition disk_wf :: "disk \<Rightarrow> bool" where
  "disk_wf d \<longleftrightarrow> (if rd_base d \<noteq> 0 then rd_wf d else ata_wf d)"

definition disk_ok :: "disk \<Rightarrow> nat \<Rightarrow> nat \<Rightarrow> bool" where
  "disk_ok d l c \<longleftrightarrow> (if rd_base d \<noteq> 0 then rd_range d l c else ata_range d l c)"

definition disk_sector :: "disk \<Rightarrow> nat \<Rightarrow> u8 list" where
  "disk_sector d i = (if rd_base d \<noteq> 0 then rd_sector d i else ata_sector d i)"

lemma disk_ata:
  assumes "rd_base d = 0"
  shows "disk_read_sectors l c d = ata_read_sectors l c d"
    and "disk_write_sectors l c p d = ata_write_sectors l c p d"
  using assms by (simp_all add: disk_read_sectors_def disk_write_sectors_def)

interpretation dsk: block_dev disk_wf disk_ok disk_sector disk_read_sectors disk_write_sectors
proof
  fix d :: disk and l c :: u32 and p :: "u8 list" and i a n m :: nat
  note [simp] = disk_wf_def disk_ok_def disk_sector_def
  show "disk_read_sectors l c d = concat (map (disk_sector d) [unat l..<unat l + unat c])"
    if "disk_wf d" "disk_ok d (unat l) (unat c)"
    using that rd.rds_eq [of d l c] ata.rds_eq [of d l c] disk_ata(1) [of d l c]
    by (cases "rd_base d = 0") (simp_all cong: map_cong)
  show "disk_sector (disk_write_sectors l c p d) i =
      (if unat l \<le> i \<and> i < unat l + unat c then take 512 (drop ((i - unat l) * 512) p)
       else disk_sector d i)"
    if "disk_wf d" "disk_ok d (unat l) (unat c)" "length p = unat c * 512" "disk_ok d i 1"
    using that rd.wrs_sector [of d l c p i] ata.wrs_sector [of d l c p i] disk_ata(2) [of d l c p]
    by (cases "rd_base d = 0") simp_all
  show "disk_wf (disk_write_sectors l c p d)"
    if "disk_wf d" "disk_ok d (unat l) (unat c)" "length p = unat c * 512"
    using that rd.wrs_inv [of d l c p] ata.wrs_inv [of d l c p] disk_ata(2) [of d l c p]
    by (cases "rd_base d = 0") simp_all
  show "disk_ok (disk_write_sectors l c p d) = disk_ok d"
    by (simp add: fun_eq_iff rd_range_def ata_range_def)
  show "length (disk_sector d i) = 512" if "disk_wf d" "disk_ok d i 1"
    using that rd.sector_length [of d i] ata.sector_length [of d i] by (cases "rd_base d = 0") simp_all
  show "disk_ok d i m" if "disk_ok d a n" "a \<le> i" "i + m \<le> a + n"
    using that rd.ok_sub [of d a n i m] ata.ok_sub [of d a n i m] by (cases "rd_base d = 0") simp_all
qed

subsection \<open>Writes stay inside the store\<close>

lemma store_target:
  assumes wf: "store_wf d" and ok: "store_lba_ok t c d" and t: "t = store_first_lba d + 1 + ucast (l - 137)"
    and le: "l - 137 + c \<le> store_fs_sectors d" and l: "137 \<le> l"
    and nw: "unat l + unat c < 4294967296"
  shows "unat t = unat (store_first_lba d) + 1 + (unat l - 137)"
    and "unat t + unat c \<le> unat (store_last_lba d) + 1"
    and "unat l - 137 + unat c \<le> unat (store_fs_sectors d)"
proof -
  let ?f = "unat (store_first_lba d)" and ?e = "unat (store_last_lba d)"
  have rdy: "store_ready d" and c: "0 < unat c"
    using ok by (auto simp: store_lba_ok_def unat_gt_0 split: if_splits)
  have sub: "unat (l - 137) = unat l - 137" using unat_sub32 [OF l] by simp
  then show fs: "unat l - 137 + unat c \<le> unat (store_fs_sectors d)"
    using le nw unat_add32 [of "l - 137" c] by (simp add: word_le_nat_alt)
  have fe: "?f < ?e" "unat (store_fs_sectors d) + 1 \<le> ?e - ?f + 1"
    using wf rdy by (simp_all add: store_wf_def word_less_nat_alt)
  have e: "?e < 18446744073709551616" using unsigned_less [of "store_last_lba d", where ?'a = nat] by simp
  have f1: "unat (store_first_lba d + 1) = ?f + 1"
    using fe(1) e by (simp add: unat_word_ariths)
  have tot: "?f + 1 + (unat l - 137) + unat c \<le> ?e + 1" using fs fe by linarith
  then have "?f + 1 + (unat l - 137) < 18446744073709551616" using c e by linarith
  then show ut: "unat t = ?f + 1 + (unat l - 137)"
    unfolding t by (subst unat_word_ariths) (simp add: f1 sub)
  show "unat t + unat c \<le> ?e + 1" using tot ut by simp
qed

lemma disk_write_nv:
  assumes "nv (disk_write_sectors l c p d) \<noteq> nv d"
  shows "rd_range_ok l c d \<and> rd_base d \<noteq> 0 \<and> store_lba_ok (store_first_lba d + 1 + ucast (l - 137)) c d \<and>
    137 \<le> l \<and> l - 137 + c \<le> store_fs_sectors d \<and>
    nv (disk_write_sectors l c p d) =
      snd (nvme_write (store_first_lba d + 1 + ucast (l - 137)) c p (nv d))"
proof -
  let ?d = "d\<lparr>rd_mem := memcpy (rd_mem d) (rd_addr l d) (take (unat (c * 512)) p)\<rparr>"
  have r: "rd_base d \<noteq> 0" "rd_range_ok l c d" and w: "disk_write_sectors l c p d = store_write_through l c p ?d"
    using assms by (auto simp: disk_write_sectors_def split: if_splits)
  have "store_lba_ok t c ?d = store_lba_ok t c d" for t by (simp add: store_lba_ok_def)
  with r w assms store_write_through_nv [of l c p ?d] show ?thesis by auto
qed

text \<open>
  C5. No write reaches the drive outside the store's partition. Whatever sector a caller of
  \<open>disk_write_sectors\<close> names and whatever the result of the NVMe commands, a block whose contents
  change lies strictly after the partition's header block and not beyond its last block; so the
  header, the partition table and every other partition keep their contents.
\<close>

theorem store_write_confined:
  assumes "store_wf d" and "unat l + unat c < 4294967296" and "unat c * 512 \<le> length p"
    and "nv_ns (nv (disk_write_sectors l c p d)) x \<noteq> nv_ns (nv d) x"
  shows "store_ready d \<and> store_first_lba d < x \<and> x \<le> store_last_lba d"
proof -
  let ?t = "store_first_lba d + 1 + ucast (l - 137)"
  have "nv (disk_write_sectors l c p d) \<noteq> nv d" using assms(4) by auto
  note W = disk_write_nv [OF this]
  then have ok: "store_lba_ok ?t c d" and le: "l - 137 + c \<le> store_fs_sectors d" and l: "137 \<le> l" by auto
  note T = store_target [OF assms(1) ok refl le l assms(2)]
  have rdy: "store_ready d" using ok by (auto simp: store_lba_ok_def split: if_splits)
  then have "nvme_wf (nv d) 512" using assms(1) by (simp add: store_wf_def)
  from nvme_write_facts(2) [OF this assms(3) prod.collapse [symmetric], of ?t x]
  have x: "unat (x - ?t) < unat c" using W assms(4) by simp
  have "unat ?t + unat (x - ?t) < 18446744073709551616"
    using T(2) x unsigned_less [of "store_last_lba d", where ?'a = nat] by simp
  then have "unat x = unat ?t + unat (x - ?t)"
    using unat_word_ariths(1) [of ?t "x - ?t"] by simp
  then show ?thesis using T x rdy by (simp add: word_less_nat_alt word_le_nat_alt)
qed

subsection \<open>The store mirrors the RAM disk\<close>

text \<open>The sectors of the RAM disk outside \<open>S\<close> are on the drive; \<open>store_mirror\<close>: all of them.\<close>

definition mirror_but :: "nat set \<Rightarrow> disk \<Rightarrow> bool" where
  "mirror_but S d \<longleftrightarrow> (\<forall>k < unat (rd_sectors d). 137 + k \<notin> S \<longrightarrow>
     nv_ns (nv d) (store_first_lba d + 1 + of_nat k) = rd_sector d (137 + k))"

definition store_mirror :: "disk \<Rightarrow> bool" where
  "store_mirror d \<longleftrightarrow> mirror_but {} d"

text \<open>The write is inside the image and the drive has acknowledged it.\<close>

definition wrote_through :: "u32 \<Rightarrow> u32 \<Rightarrow> u8 list \<Rightarrow> disk \<Rightarrow> bool" where
  "wrote_through l c p d \<longleftrightarrow> l - 137 + c \<le> store_fs_sectors d \<and>
     fst (nvme_write (store_first_lba d + 1 + ucast (l - 137)) c p (nv d)) = 0"

lemma lba_ok_of_range:
  assumes wf: "rd_wf d" and rdy: "store_ready d" and r: "rd_range d (unat l) (unat c)" and c: "c \<noteq> 0" and le: "l - 137 + c \<le> store_fs_sectors d"
  shows "store_lba_ok (store_first_lba d + 1 + ucast (l - 137)) c d" and "137 \<le> l"
    and "unat (store_first_lba d + 1 + ucast (l - 137)) + unat c \<le> unat (store_last_lba d) + 1"
proof -
  let ?f = "unat (store_first_lba d)" and ?e = "unat (store_last_lba d)"
    and ?t = "store_first_lba d + 1 + ucast (l - 137)"
  show l: "137 \<le> l" using r by (simp add: rd_range_def word_le_nat_alt)
  have sub: "unat (l - 137) = unat l - 137" using unat_sub32 [OF l] by simp
  have "unat (l - 137) + unat c < 4294967296" using rd_range_u32 [OF wf r] sub by simp
  then have fs: "unat l - 137 + unat c \<le> unat (store_fs_sectors d)"
    using le unat_add32 [of "l - 137" c] sub by (simp add: word_le_nat_alt)
  have fe: "?f < ?e" "unat (store_fs_sectors d) + 1 \<le> ?e - ?f + 1"
    using wf rdy by (simp_all add: rd_wf_def store_wf_def word_less_nat_alt)
  have e: "?e < 18446744073709551616" using unsigned_less [of "store_last_lba d", where ?'a = nat] by simp
  have tot: "?f + 1 + (unat l - 137) + unat c \<le> ?e + 1" using fs fe by linarith
  have cpos: "0 < unat c" using c by (simp add: unat_gt_0)
  have f1: "unat (store_first_lba d + 1) = ?f + 1" using fe(1) e by (simp add: unat_word_ariths)
  have ut: "unat ?t = ?f + 1 + (unat l - 137)"
    using tot cpos e by (subst unat_word_ariths) (simp add: f1 sub)
  then show "unat ?t + unat c \<le> ?e + 1" using tot by simp
  have c1: "unat (ucast c - 1 :: u64) = unat c - 1"
    using c by (subst unat_minus_one) (auto simp flip: unat_eq_zero)
  have "unat (?t + (ucast c - 1)) = ?f + (unat l - 137) + unat c"
    using tot e ut c1 cpos by (subst unat_word_ariths) simp
  moreover have "?t + ucast c - 1 = ?t + (ucast c - 1)" by simp
  ultimately have "unat (?t + ucast c - 1) = ?f + (unat l - 137) + unat c" by (simp only:)
  then show "store_lba_ok ?t c d"
    using rdy c ut tot by (simp add: store_lba_ok_def word_le_nat_alt word_less_nat_alt)
qed

lemma store_lba_ok_rd_mem [simp]: "store_lba_ok t c (d\<lparr>rd_mem := m\<rparr>) = store_lba_ok t c d"
  unfolding store_lba_ok_def by simp

lemma outside_range64:
  assumes "a < 4294967296" "b < 4294967296" "n < 4294967296" "\<not> (b \<le> a \<and> a < b + n)"
  shows "\<not> unat (of_nat a - of_nat b :: u64) < n"
proof -
  have u: "unat (of_nat a :: u64) = a" "unat (of_nat b :: u64) = b"
    using assms(1,2) by (simp_all add: unat_of_nat)
  show ?thesis
  proof (cases "b \<le> a")
    case True
    then have "unat (of_nat a - of_nat b :: u64) = a - b"
      using u by (subst unat_sub) (simp_all add: word_le_nat_alt)
    with True assms(4) show ?thesis by linarith
  next
    case False
    then have "unat (of_nat a - of_nat b :: u64) = 18446744073709551616 + a - b"
      using u by (simp add: unat_sub_if_size word_le_nat_alt word_size)
    with assms show ?thesis by linarith
  qed
qed

lemma mirror_but_write:
  assumes wf: "rd_wf d" and rdy: "store_ready d" and mir: "mirror_but S d"
    and r: "rd_range d (unat l) (unat c)" and p: "length p = unat c * 512" and c: "c \<noteq> 0"
  shows "mirror_but (if wrote_through l c p d then S - {unat l..<unat l + unat c} else S \<union> {unat l..<unat l + unat c}) (disk_write_sectors l c p d)"
proof -
  let ?d = "disk_write_sectors l c p d" and ?t = "store_first_lba d + 1 + ucast (l - 137)"
  have nwf: "nvme_wf (nv d) 512" using wf rdy by (simp add: rd_wf_def store_wf_def)
  have l: "137 \<le> l" using r by (simp add: rd_range_def word_le_nat_alt)
  have nvd: "nv ?d = (if l - 137 + c \<le> store_fs_sectors d then snd (nvme_write ?t c p (nv d)) else nv d)"
    using lba_ok_of_range(1) [OF wf rdy r c] rdy l unfolding rd_write_eq [OF wf r p]
    by (simp add: store_write_through_def rd_write_def Let_def not_less not_le)
  have pl: "unat c * 512 \<le> length p" using p by simp
  note W = nvme_write_facts [OF nwf pl prod.collapse [symmetric], of ?t]
  have sub: "ucast (l - 137) = (of_nat (unat l - 137) :: u64)"
  proof -
    have "unat (l - 137) = unat l - 137" using unat_sub32 [OF l] by simp
    then show ?thesis by (simp flip: \<open>unat (l - 137) = unat l - 137\<close>)
  qed
  have inside: "nv_ns (nv ?d) (store_first_lba d + 1 + of_nat k) = rd_sector ?d (137 + k)"
    if k: "k < unat (rd_sectors d)" "unat l \<le> 137 + k" "137 + k < unat l + unat c" and w: "wrote_through l c p d" for k
  proof -
    let ?i = "137 + k - unat l"
    have i: "?i < unat c" using k by linarith
    have "of_nat k = (of_nat (unat l - 137) + of_nat ?i :: u64)"
      using k r by (simp only: rd_range_def of_nat_add [symmetric]) simp
    then have "store_first_lba d + 1 + of_nat k = ?t + of_nat ?i" by (simp only: sub add.assoc)
    moreover have "nv_ns (nv ?d) (?t + of_nat ?i) = take 512 (drop (?i * 512) p)"
      using W(3) w i by (simp add: nvd wrote_through_def)
    moreover have "rd_sector ?d (137 + k) = take 512 (drop (?i * 512) p)"
      using rd.wrs_sector [OF wf r p, of "137 + k"] k by (simp add: rd_range_def)
    ultimately show ?thesis by (simp only:)
  qed
  have outside: "nv_ns (nv ?d) (store_first_lba d + 1 + of_nat k) = nv_ns (nv d) (store_first_lba d + 1 + of_nat k) \<and>
      rd_sector ?d (137 + k) = rd_sector d (137 + k)"
    if k: "k < unat (rd_sectors d)" "\<not> (unat l \<le> 137 + k \<and> 137 + k < unat l + unat c)" for k
  proof -
    have "\<not> unat (of_nat k - of_nat (unat l - 137) :: u64) < unat c"
    proof (rule outside_range64)
      show "k < 4294967296" "unat c < 4294967296" by (rule less_trans [OF k(1) unat_lt_2_32]) simp
      show "unat l - 137 < 4294967296" using unat_lt_2_32 [of l] by linarith
      show "\<not> (unat l - 137 \<le> k \<and> k < unat l - 137 + unat c)" using k r unfolding rd_range_def by linarith
    qed
    moreover have "store_first_lba d + 1 + of_nat k - ?t = of_nat k - of_nat (unat l - 137)"
      by (simp only: sub add_diff_cancel_left)
    ultimately have "nv_ns (snd (nvme_write ?t c p (nv d))) (store_first_lba d + 1 + of_nat k) = nv_ns (nv d) (store_first_lba d + 1 + of_nat k)"
      using W(2) by metis
    then show ?thesis using rd.wrs_sector [OF wf r p, of "137 + k"] k by (auto simp: nvd rd_range_def)
  qed
  have "nv_ns (nv ?d) (store_first_lba d + 1 + of_nat k) = rd_sector ?d (137 + k)"
    if k: "k < unat (rd_sectors d)" and S: "137 + k \<notin> (if wrote_through l c p d then S - {unat l..<unat l + unat c} else S \<union> {unat l..<unat l + unat c})" for k
  proof (cases "unat l \<le> 137 + k \<and> 137 + k < unat l + unat c")
    case True
    then show ?thesis using inside [OF k] S by (auto split: if_splits)
  next
    case False
    then have "137 + k \<notin> S" using S by (auto split: if_splits)
    then show ?thesis using outside [OF k False] mir k by (simp add: mirror_but_def)
  qed
  then show ?thesis by (simp add: mirror_but_def)
qed

text \<open>Writes one after the other, as the file system issues them.\<close>

fun disk_writes :: "(u32 \<times> u32 \<times> u8 list) list \<Rightarrow> disk \<Rightarrow> disk" where
  "disk_writes [] d = d"
| "disk_writes ((l, c, p) # ws) d = disk_writes ws (disk_write_sectors l c p d)"

definition write_ok :: "disk \<Rightarrow> u32 \<times> u32 \<times> u8 list \<Rightarrow> bool" where
  "write_ok d w \<longleftrightarrow> (case w of (l, c, p) \<Rightarrow>
     rd_range d (unat l) (unat c) \<and> length p = unat c * 512 \<and> c \<noteq> 0)"

text \<open>
  The sectors whose last write did not reach the store: it lay outside the image, or the drive reported
  an error, which the kernel does not look at.
\<close>

fun stale :: "(u32 \<times> u32 \<times> u8 list) list \<Rightarrow> nat set \<Rightarrow> disk \<Rightarrow> nat set" where
  "stale [] S d = S"
| "stale ((l, c, p) # ws) S d =
     stale ws (if wrote_through l c p d then S - {unat l..<unat l + unat c} else S \<union> {unat l..<unat l + unat c})
       (disk_write_sectors l c p d)"

lemma disk_write_config:
  assumes "rd_wf d" "store_ready d" "length p = unat c * 512"
  shows "same_config (nv d) (nv (disk_write_sectors l c p d))"
proof (cases "nv (disk_write_sectors l c p d) = nv d")
  case False
  have "nvme_wf (nv d) 512" using assms(1,2) by (simp add: rd_wf_def store_wf_def)
  then show ?thesis using disk_write_nv [OF False] nvme_write_facts(1) [OF _ _ prod.collapse [symmetric], of "nv d" 512 c p] assms(3) by simp
qed simp

lemma disk_writes_mirror:
  assumes "rd_wf d" "store_ready d" "mirror_but S d" "list_all (write_ok d) ws"
  shows "rd_wf (disk_writes ws d) \<and> store_ready (disk_writes ws d) \<and> mirror_but (stale ws S d) (disk_writes ws d) \<and>
    store_first_lba (disk_writes ws d) = store_first_lba d \<and> rd_sectors (disk_writes ws d) = rd_sectors d \<and>
    same_config (nv d) (nv (disk_writes ws d))"
  using assms
proof (induction ws arbitrary: d S)
  case Nil
  then show ?case by simp
next
  case (Cons w ws)
  obtain l c p where w: "w = (l, c, p)" by (cases w)
  let ?d = "disk_write_sectors l c p d"
  have ok: "rd_range d (unat l) (unat c)" "length p = unat c * 512" "c \<noteq> 0"
    using Cons.prems(4) by (simp_all add: w write_ok_def)
  have "write_ok ?d = write_ok d" by (simp add: write_ok_def fun_eq_iff rd_range_def)
  then have "list_all (write_ok ?d) ws" using Cons.prems(4) by simp
  with Cons.IH [of ?d] rd.wrs_inv [OF Cons.prems(1) ok(1,2)] mirror_but_write [OF Cons.prems(1-3) ok]
    disk_write_config [OF Cons.prems(1,2) ok(2), of l] Cons.prems(2)
  show ?case by (auto simp: w intro: same_config_trans)
qed

text \<open>On a drive without faults nothing is stale, when the image covers the RAM disk.\<close>

definition store_whole :: "disk \<Rightarrow> bool" where
  "store_whole d \<longleftrightarrow> drive_answers (nv d) 512 \<and> present (info (nv d)) \<and> unat (store_last_lba d) < unat (blocks (info (nv d))) \<and>
     unat (rd_sectors d) \<le> unat (store_fs_sectors d)"

lemma wrote_through_whole:
  assumes wf: "rd_wf d" and rdy: "store_ready d" and whole: "store_whole d" and ok: "write_ok d (l, c, p)"
  shows "wrote_through l c p d"
proof -
  have r: "rd_range d (unat l) (unat c)" "length p = unat c * 512" "c \<noteq> 0" using ok by (simp_all add: write_ok_def)
  have nwf: "nvme_wf (nv d) 512" using wf rdy by (simp add: rd_wf_def store_wf_def)
  have l: "137 \<le> l" using r(1) by (simp add: rd_range_def word_le_nat_alt)
  have sub: "unat (l - 137) = unat l - 137" using unat_sub32 [OF l] by simp
  have "unat (l - 137 + c) = unat l - 137 + unat c" using rd_range_u32 [OF wf r(1)] sub by (subst unat_add32) simp_all
  then have le: "l - 137 + c \<le> store_fs_sectors d"
    using r(1) whole unfolding rd_range_def store_whole_def word_le_nat_alt by linarith
  have pl: "unat c * 512 \<le> length p" using r(2) by simp
  have "unat (store_first_lba d + 1 + ucast (l - 137)) + unat c \<le> unat (blocks (info (nv d)))"
    using lba_ok_of_range(3) [OF wf rdy r(1,3) le] whole unfolding store_whole_def by linarith
  then show ?thesis using nvme_write_facts(4) [OF nwf pl prod.collapse [symmetric]] le whole r(3)
    by (simp add: wrote_through_def store_whole_def)
qed

lemma stale_whole:
  assumes "rd_wf d" "store_ready d" "store_whole d" "list_all (write_ok d) ws"
  shows "stale ws {} d = {}"
  using assms
proof (induction ws arbitrary: d)
  case (Cons w ws)
  obtain l c p where w: "w = (l, c, p)" by (cases w)
  let ?d = "disk_write_sectors l c p d"
  have ok: "write_ok d (l, c, p)" using Cons.prems(4) by (simp add: w)
  then have r: "rd_range d (unat l) (unat c)" "length p = unat c * 512" by (simp_all add: write_ok_def)
  have cfg: "same_config (nv d) (nv ?d)" by (rule disk_write_config [OF Cons.prems(1,2) r(2)])
  have "write_ok ?d = write_ok d" by (simp add: write_ok_def fun_eq_iff rd_range_def)
  then have "list_all (write_ok ?d) ws" using Cons.prems(4) by simp
  moreover have "store_whole ?d" using Cons.prems(3) cfg drive_answers_cong [OF cfg] by (simp add: store_whole_def same_config_def)
  moreover have "rd_wf ?d" using rd.wrs_inv [OF Cons.prems(1) r] by simp
  ultimately have "stale ws {} ?d = {}" using Cons.prems(2) by (intro Cons.IH) simp_all
  then show ?case using wrote_through_whole [OF Cons.prems(1-3) ok] by (simp add: w)
qed simp

lemma block_of_concat:
  assumes "k < n" "\<And>i. length (f i) = m"
  shows "take m (drop (k * m) (concat (map f [0..<n]))) = f k"
proof -
  have len: "length (concat (map f [0..<j])) = j * m" for j by (induction j) (simp_all add: assms(2))
  have "[0..<n] = [0..<k] @ k # [Suc k..<n]" using assms(1) using upt_add_eq_append [of 0 k "n - k"] by (simp add: upt_conv_Cons)
  then show ?thesis using assms(2) by (simp add: len)
qed

text \<open>
  C6. What the drive holds after a reboot. Starting from a RAM disk whose sectors outside \<open>S\<close> match the store,
  as \<open>store_init\<close> leaves it, and after any sequence of sector writes, the image that the next start reads back from
  the drive (when that read succeeds) has, for every sector, the current contents of the RAM disk - except the sectors
  whose last write did not reach the store, because it lay outside the image or because the drive reported an error:
  the kernel does not look at the result of the write. On a drive without faults, with an image at least as large
  as the RAM disk and a RAM disk that matched it, there are no such sectors, the read succeeds, and the whole RAM disk comes back.
\<close>

theorem store_survives_reboot:
  assumes "rd_wf d" and "store_ready d" and "mirror_but S d" and "list_all (write_ok d) ws" and "d' = disk_writes ws d"
    and "n = (if store_fs_sectors d > rd_sectors d then rd_sectors d else store_fs_sectors d)"
    and "nvme_read (store_first_lba d + 1) n (nv d') = (rc, out, nv')"
  shows "(rc = 0 \<longrightarrow> (\<forall>k < unat n. 137 + k \<notin> stale ws S d \<longrightarrow> take 512 (drop (k * 512) out) = rd_sector d' (137 + k))) \<and>
    (store_whole d \<and> S = {} \<and> n \<noteq> 0 \<longrightarrow> stale ws S d = {} \<and> rc = 0 \<and> out = disk_read_sectors FS_DIR_LBA (rd_sectors d) d')"
proof -
  have wf: "rd_wf d'" and rdy: "store_ready d'" and mir: "mirror_but (stale ws S d) d'" and cfg: "same_config (nv d) (nv d')"
    and [simp]: "store_first_lba d' = store_first_lba d" "rd_sectors d' = rd_sectors d"
    using disk_writes_mirror [OF assms(1-4)] assms(5) by simp_all
  have nwf: "nvme_wf (nv d') 512" using wf rdy by (simp add: rd_wf_def store_wf_def)
  note N = nvme_read_facts [OF nwf assms(7)]
  let ?f = "\<lambda>i. nv_ns (nv d') (store_first_lba d + 1 + of_nat i)"
  have f: "length (?f i) = 512" for i using nwf by (simp add: nvme_wf_def)
  have n: "unat n \<le> unat (rd_sectors d)" using assms(6) by (auto simp: word_less_nat_alt)
  have image: "take 512 (drop (k * 512) out) = rd_sector d' (137 + k)" if "rc = 0" "k < unat n" "137 + k \<notin> stale ws S d" for k
  proof -
    have "take 512 (drop (k * 512) out) = ?f k" using N(2) that(1) block_of_concat [OF that(2), of ?f 512] f by simp
    then show ?thesis using mir that n by (simp add: mirror_but_def)
  qed
  have "stale ws S d = {} \<and> rc = 0 \<and> out = disk_read_sectors 137 (rd_sectors d) d'" if whole: "store_whole d" and S: "S = {}" and n0: "n \<noteq> 0"
  proof -
    have st: "stale ws S d = {}" using stale_whole [OF assms(1,2) whole assms(4)] S by simp
    have nr: "n = rd_sectors d" using whole assms(6) by (auto simp: store_whole_def word_less_nat_alt word_unat_eq_iff)
    have rng: "rd_range d (unat (137 :: u32)) (unat n)" "rd_range d' (unat (137 :: u32)) (unat (rd_sectors d))"
      using n by (simp_all add: rd_range_def)
    have "137 - 137 + n \<le> store_fs_sectors d" using whole nr by (simp add: store_whole_def word_le_nat_alt)
    from lba_ok_of_range(3) [OF assms(1,2) rng(1) n0 this]
    have "unat (store_first_lba d + 1) + unat n \<le> unat (blocks (info (nv d')))"
      using whole cfg by (simp add: store_whole_def same_config_def)
    then have rc: "rc = 0" using N(3) whole cfg drive_answers_cong [OF cfg] n0 by (simp add: store_whole_def same_config_def)
    have "disk_read_sectors 137 (rd_sectors d) d' = concat (map (rd_sector d') [137..<137 + unat (rd_sectors d)])"
      using rd.rds_eq [OF wf rng(2)] by simp
    also have "map (rd_sector d') [137..<137 + unat (rd_sectors d)] = map ?f [0..<unat n]"
      using mir st nr by (intro nth_equalityI) (auto simp: mirror_but_def)
    finally show ?thesis using N(2) rc st by simp
  qed
  then show ?thesis using image by simp
qed

subsection \<open>Finding the store\<close>

definition gpt_sig :: "u8 list" where
  "gpt_sig = [0x45, 0x46, 0x49, 0x20, 0x50, 0x41, 0x52, 0x54]"

text \<open>\<open>nvme_read\<close> into a buffer, with the driver state threaded through the disk.\<close>

definition disk_nvme_read :: "u64 \<Rightarrow> u32 \<Rightarrow> disk \<Rightarrow> int \<times> u8 list \<times> disk" where
  "disk_nvme_read lba count d =
     (let (rc, out, n) = nvme_read lba count (nv d) in (rc, out, d\<lparr>nv := n\<rparr>))"

text \<open>
  The loop of \<open>store_scan\<close> over the partition entries: \<open>k\<close> entries left, the next one \<open>i\<close>, the
  entry sector last read in \<open>tbl\<close>. Fields of an entry that would lie past the end of the
  sector buffer (entries smaller than 48 bytes) read as 0.
\<close>

fun store_scan_loop :: "nat \<Rightarrow> u32 \<Rightarrow> u64 \<Rightarrow> u32 \<Rightarrow> u8 list \<Rightarrow> disk \<Rightarrow> bool \<times> disk" where
  "store_scan_loop 0 i entry_lba entry_sz tbl d = (False, d\<lparr>store_status := STORE_NO_PART\<rparr>)"
| "store_scan_loop (Suc k) i entry_lba entry_sz tbl d =
     (let per_sector = 512 div entry_sz;
          (rc, tbl, d) = (if i mod per_sector = 0
                          then disk_nvme_read (entry_lba + ucast (i div per_sector)) 1 d
                          else (0, tbl, d))
      in if rc \<noteq> 0 then (False, d\<lparr>store_status := STORE_NO_PART\<rparr>)
         else
           let e = drop (unat (i mod per_sector * entry_sz)) tbl;
               first = le64 e 32; last = le64 e 40
           in if list_all (\<lambda>b. arr_get e b = 0) [0..<16] \<or> last \<le> first
              then store_scan_loop k (i + 1) entry_lba entry_sz tbl d
              else
                let (rc, h, d) = disk_nvme_read first 1 d
                in if rc \<noteq> 0 \<or> le32 h 0 \<noteq> STORE_MAGIC0 \<or> le32 h 4 \<noteq> STORE_MAGIC1
                      \<or> le32 h 8 \<noteq> STORE_VERSION
                   then store_scan_loop k (i + 1) entry_lba entry_sz tbl d
                   else if 1 + ucast (le32 h 12) > last - first + 1
                   then (False, d\<lparr>store_status := STORE_TOO_SMALL\<rparr>)
                   else (True, d\<lparr>store_first_lba := first, store_last_lba := last,
                                store_fs_sectors := le32 h 12, store_status := STORE_OK\<rparr>))"

definition store_scan :: "disk \<Rightarrow> bool \<times> disk" where
  "store_scan d =
     (if \<not> present (info (nv d)) then (False, d\<lparr>store_status := STORE_NONE\<rparr>)
      else if block_size (info (nv d)) \<noteq> 512 then (False, d\<lparr>store_status := STORE_BAD_BLOCK\<rparr>)
      else
        let (rc, h, d) = disk_nvme_read 1 1 d
        in if rc \<noteq> 0 then (False, d\<lparr>store_status := STORE_NO_GPT\<rparr>)
           else if \<not> list_all (\<lambda>i. arr_get h i = gpt_sig ! i) [0..<8]
           then (False, d\<lparr>store_status := STORE_NO_GPT\<rparr>)
           else
             let entry_lba = le64 h 72; entries = le32 h 80; entry_sz = le32 h 84
             in if entry_sz = 0 \<or> entry_sz > 512 \<or> entries > 512
                then (False, d\<lparr>store_status := STORE_NO_GPT\<rparr>)
                else store_scan_loop (unat entries) 0 entry_lba entry_sz [] d)"

text \<open>
  \<open>store_init\<close> after \<open>nvme_init\<close> has returned \<open>rc\<close> and left the driver state in \<open>d\<close>. A transfer that
  fails has already overwritten the part of the RAM disk it had read.
\<close>

definition store_init_from :: "int \<Rightarrow> disk \<Rightarrow> disk" where
  "store_init_from rc d =
     (if rc \<noteq> 0 then d\<lparr>store_status := STORE_NONE\<rparr>
      else
        let (found, d) = store_scan d
        in if \<not> found then d
           else
             let n = (if store_fs_sectors d > rd_sectors d then rd_sectors d else store_fs_sectors d);
                 (rc, out, d) = disk_nvme_read (store_first_lba d + 1) n d;
                 d = d\<lparr>rd_mem := memcpy (rd_mem d) (rd_base d) out\<rparr>
             in if rc \<noteq> 0 then d\<lparr>store_status := STORE_NO_PART\<rparr> else d\<lparr>store_ready := True\<rparr>)"

text \<open>Reading never changes a block, and keeps the driver in order.\<close>

definition same_store :: "disk \<Rightarrow> disk \<Rightarrow> bool" where
  "same_store d d' \<longleftrightarrow> nv_ns (nv d') = nv_ns (nv d) \<and> same_config (nv d) (nv d') \<and>
     nvme_wf (nv d') 512 \<and> rd_base d' = rd_base d \<and> rd_sectors d' = rd_sectors d \<and>
     store_ready d' = store_ready d"

lemma same_store_trans: "same_store a b \<Longrightarrow> same_store b c \<Longrightarrow> same_store a c"
  by (auto simp: same_store_def intro: same_config_trans)

lemma disk_nvme_read_facts:
  assumes "nvme_wf (nv d) 512" and "disk_nvme_read lba c d = (rc, out, d')"
  shows "same_store d d' \<and> (rc = 0 \<longrightarrow> out = concat (map (\<lambda>i. nv_ns (nv d) (lba + of_nat i)) [0..<unat c]))"
proof -
  obtain n where r: "nvme_read lba c (nv d) = (rc, out, n)" and d': "d' = d\<lparr>nv := n\<rparr>"
    using assms(2) by (auto simp: disk_nvme_read_def split: prod.splits)
  show ?thesis using nvme_read_facts [OF assms(1) r] by (auto simp: same_store_def d')
qed

text \<open>A block is a store header for a partition that ends at \<open>lst\<close> and declares \<open>fs\<close> sectors.\<close>

definition store_header :: "u8 list \<Rightarrow> u64 \<Rightarrow> u64 \<Rightarrow> u32 \<Rightarrow> bool" where
  "store_header h first lst fs \<longleftrightarrow> le32 h 0 = STORE_MAGIC0 \<and> le32 h 4 = STORE_MAGIC1 \<and>
     le32 h 8 = STORE_VERSION \<and> le32 h 12 = fs \<and> first < lst \<and>
     1 + ucast fs \<le> lst - first + 1"

lemma same_store_status [simp]: "same_store d (d'\<lparr>store_status := s\<rparr>) = same_store d d'"
  by (simp add: same_store_def)

lemma store_scan_loop_facts:
  assumes "nvme_wf (nv d) 512" and "store_scan_loop k i el es tbl d = (found, d')"
  shows "same_store d d' \<and> (found \<longrightarrow> store_status d' = STORE_OK \<and>
    store_header (nv_ns (nv d) (store_first_lba d')) (store_first_lba d') (store_last_lba d')
      (store_fs_sectors d'))"
  using assms
proof (induction k arbitrary: i tbl d)
  case 0
  then show ?case by (auto simp: same_store_def)
next
  case (Suc k)
  obtain rc1 t1 d1 where r1: "(if i mod (512 div es) = 0
      then disk_nvme_read (el + ucast (i div (512 div es))) 1 d else (0, tbl, d)) = (rc1, t1, d1)"
    using prod_cases3 by blast
  have refl: "same_store d d" using Suc.prems(1) by (simp add: same_store_def)
  have s1: "same_store d d1"
    using r1 disk_nvme_read_facts [OF Suc.prems(1)] refl by (auto split: if_splits)
  then have w1: "nvme_wf (nv d1) 512" and ns1: "nv_ns (nv d1) = nv_ns (nv d)"
    by (simp_all add: same_store_def)
  define e where "e = drop (unat (i mod (512 div es) * es)) t1"
  obtain rc2 h d2 where r2: "disk_nvme_read (le64 e 32) 1 d1 = (rc2, h, d2)" using prod_cases3 by blast
  have s2: "same_store d1 d2" and h: "rc2 = 0 \<Longrightarrow> h = nv_ns (nv d) (le64 e 32)"
    using disk_nvme_read_facts [OF w1 r2] by (simp_all add: ns1)
  then have w2: "nvme_wf (nv d2) 512" and ns2: "nv_ns (nv d2) = nv_ns (nv d)"
    by (simp_all add: same_store_def ns1)
  define A where "A = (list_all (\<lambda>b. arr_get e b = 0) [0..<16] \<or> le64 e 40 \<le> le64 e 32)"
  define B where "B = (rc2 \<noteq> 0 \<or> le32 h 0 \<noteq> STORE_MAGIC0 \<or> le32 h 4 \<noteq> STORE_MAGIC1 \<or> le32 h 8 \<noteq> STORE_VERSION)"
  define C where "C = (1 + ucast (le32 h 12) > le64 e 40 - le64 e 32 + 1)"
  note run = Suc.prems(2) [unfolded store_scan_loop.simps Let_def r1 prod.case, folded e_def,
      unfolded r2 prod.case, folded A_def B_def C_def]
  note s12 = same_store_trans [OF s1 s2]
  have hdr: "rc2 = 0 \<and> store_header h (le64 e 32) (le64 e 40) (le32 h 12)" if "\<not> A" "\<not> B" "\<not> C"
    using that unfolding A_def B_def C_def store_header_def by (simp add: not_less not_le)
  consider (bad) "rc1 \<noteq> 0" | (skip) "rc1 = 0" "A" | (other) "rc1 = 0" "\<not> A" "B"
    | (small) "rc1 = 0" "\<not> A" "\<not> B" "C" | (hit) "rc1 = 0" "\<not> A" "\<not> B" "\<not> C"
    by blast
  then show ?case
  proof cases
    case bad
    with run s1 show ?thesis by auto
  next
    case skip
    then have "store_scan_loop k (i + 1) el es t1 d1 = (found, d')" using run by simp
    from Suc.IH [OF w1 this] show ?thesis using same_store_trans [OF s1] by (auto simp: ns1)
  next
    case other
    then have "store_scan_loop k (i + 1) el es t1 d2 = (found, d')" using run by simp
    from Suc.IH [OF w2 this] show ?thesis using same_store_trans [OF s12] by (auto simp: ns2)
  next
    case small
    with run s12 show ?thesis by auto
  next
    case hit
    have "found" and d': "d' = d2\<lparr>store_first_lba := le64 e 32, store_last_lba := le64 e 40,
        store_fs_sectors := le32 h 12, store_status := STORE_OK\<rparr>"
      using run hit by simp_all
    moreover have "same_store d d'" using s12 by (simp add: d' same_store_def)
    ultimately show ?thesis using hdr hit h by (simp add: d')
  qed
qed

lemma store_scan_facts:
  assumes "nvme_wf (nv d) 512" and "store_scan d = (found, d')"
  shows "same_store d d' \<and> (found \<longrightarrow> store_status d' = STORE_OK \<and>
    store_header (nv_ns (nv d) (store_first_lba d')) (store_first_lba d') (store_last_lba d')
      (store_fs_sectors d'))"
proof -
  obtain rc h d1 where r: "disk_nvme_read 1 1 d = (rc, h, d1)" using prod_cases3 by blast
  have refl: "same_store d d" using assms(1) by (simp add: same_store_def)
  have s1: "same_store d d1" using disk_nvme_read_facts [OF assms(1) r] by simp
  then have w1: "nvme_wf (nv d1) 512" and ns1: "nv_ns (nv d1) = nv_ns (nv d)"
    by (simp_all add: same_store_def)
  consider (no) s where "\<not> found" "d' = d\<lparr>store_status := s\<rparr> \<or> d' = d1\<lparr>store_status := s\<rparr>"
    | (loop) k i el es tbl where "store_scan_loop k i el es tbl d1 = (found, d')"
    using assms(2) by (auto simp: store_scan_def r Let_def split: if_splits)
  then show ?thesis
  proof cases
    case no
    then show ?thesis using refl s1 by auto
  next
    case loop
    from store_scan_loop_facts [OF w1 this] show ?thesis using same_store_trans [OF s1] by (auto simp: ns1)
  qed
qed

lemma store_header_fits:
  assumes "store_header h f e fs"
  shows "f < e \<and> unat fs + 1 \<le> unat e - unat f + 1"
proof -
  have lt: "f < e" and le: "1 + ucast fs \<le> e - f + 1" using assms by (simp_all add: store_header_def)
  have sub: "unat (e - f) = unat e - unat f" using lt by (simp add: unat_sub)
  have l: "unat f < unat e" using lt by (simp add: word_less_nat_alt)
  have "unat fs + 1 < 18446744073709551616" using unat_lt_2_32 [of fs] by linarith
  then have "unat (1 + ucast fs :: u64) = unat fs + 1" by (simp add: unat_word_ariths)
  moreover have "unat (e - f + 1) \<le> unat e - unat f + 1"
    using sub by (simp add: unat_word_ariths)
  ultimately show ?thesis using lt le by (simp add: word_le_nat_alt)
qed

lemma rd_sector_image:
  assumes wf: "unat (rd_sectors d) * 512 < 4294967296" and k: "k < unat (rd_sectors d)"
    and len: "\<And>j. length (f j) = 512" and n: "unat (rd_sectors d) = n"
  shows "rd_sector (d\<lparr>rd_mem := memcpy m (rd_base d) (concat (map f [0..<n]))\<rparr>) (137 + k) = f k"
proof -
  let ?img = "concat (map f [0..<n])" and ?m = "memcpy m (rd_base d) (concat (map f [0..<n]))"
  have li: "length (concat (map f [0..<j])) = j * 512" for j
    by (induction j) (simp_all add: len)
  have "?img = mem_load ?m (rd_base d) (n * 512)"
    using mem_load_memcpy [of ?img m "rd_base d"] wf n by (simp add: li)
  also have "\<dots> = concat (map (\<lambda>j. mem_load ?m (rd_base d + of_nat (j * 512)) 512) [0..<n])"
    by (rule mem_load_sectors)
  finally have eq: "?img = concat (map (\<lambda>j. mem_load ?m (rd_base d + of_nat (j * 512)) 512) [0..<n])" .
  have "map f [0..<n] = map (\<lambda>j. mem_load ?m (rd_base d + of_nat (j * 512)) 512) [0..<n]"
    by (rule concat_injective [OF eq]) (auto simp: len set_zip)
  then have "map f [0..<n] ! k = map (\<lambda>j. mem_load ?m (rd_base d + of_nat (j * 512)) 512) [0..<n] ! k"
    by (rule arg_cong)
  then show ?thesis using k n by (simp add: rd_sector_def)
qed

text \<open>
  C7. Arming the store. Bringing the store up never changes a block of the drive; and it arms
  writes only for a partition whose first block carries the header written by the formatting
  tool, whose declared image fits the partition, and after the image was read: the RAM disk then
  equals the image on the drive (when that is as large as the RAM disk), so that every later
  write starts from a well-formed, mirrored store.
\<close>

theorem store_init_arms:
  assumes "nvme_wf (nv d) 512" and "rd_base d \<noteq> 0" and "unat (rd_sectors d) * 512 < 4294967296"
    and "\<not> store_ready d" and "d' = store_init_from rc d"
  shows "nv_ns (nv d') = nv_ns (nv d) \<and>
    (store_ready d' \<longrightarrow> rd_wf d' \<and> rc = 0 \<and>
       store_header (nv_ns (nv d) (store_first_lba d')) (store_first_lba d') (store_last_lba d')
         (store_fs_sectors d') \<and>
       (rd_sectors d \<le> store_fs_sectors d' \<longrightarrow> store_mirror d'))"
proof (cases "rc = 0")
  case False
  with assms(4,5) show ?thesis by (simp add: store_init_from_def)
next
  case rc: True
  obtain found d1 where sc: "store_scan d = (found, d1)" by fastforce
  note S = store_scan_facts [OF assms(1) sc]
  then have s1: "same_store d d1" by simp
  show ?thesis
  proof (cases found)
    case False
    with assms(4,5) s1 rc show ?thesis by (simp add: store_init_from_def sc same_store_def)
  next
    case True
    with S have hdr: "store_header (nv_ns (nv d) (store_first_lba d1)) (store_first_lba d1)
        (store_last_lba d1) (store_fs_sectors d1)" by simp
    let ?n = "if store_fs_sectors d1 > rd_sectors d1 then rd_sectors d1 else store_fs_sectors d1"
    obtain rc2 out d2 where r: "disk_nvme_read (store_first_lba d1 + 1) ?n d1 = (rc2, out, d2)"
      using prod_cases3 by blast
    have w1: "nvme_wf (nv d1) 512" using s1 by (simp add: same_store_def)
    note R = disk_nvme_read_facts [OF w1 r]
    obtain n2 where d2: "d2 = d1\<lparr>nv := n2\<rparr>"
      using r by (auto simp: disk_nvme_read_def split: prod.splits)
    have s2: "same_store d d2" using same_store_trans [OF s1] R by blast
    let ?d3 = "d2\<lparr>rd_mem := memcpy (rd_mem d2) (rd_base d2) out\<rparr>"
    have d': "d' = (if rc2 \<noteq> 0 then ?d3\<lparr>store_status := STORE_NO_PART\<rparr> else ?d3\<lparr>store_ready := True\<rparr>)"
      unfolding assms(5) store_init_from_def using rc True by (simp add: sc Let_def r)
    have mir: "store_mirror d'" if ok: "rc2 = 0" and big: "rd_sectors d \<le> store_fs_sectors d1"
    proof -
      have nn: "unat ?n = unat (rd_sectors d2)" and rs: "rd_sectors d2 = rd_sectors d"
        using big s1 s2 by (auto simp: same_store_def)
      let ?f = "\<lambda>i. nv_ns (nv d) (store_first_lba d1 + 1 + of_nat i)"
      have out: "out = concat (map ?f [0..<unat (rd_sectors d2)])"
        using R ok s1 by (simp add: nn same_store_def)
      have "rd_sector ?d3 (137 + k) = ?f k" if "k < unat (rd_sectors d2)" for k
        unfolding out by (rule rd_sector_image) (use assms(1,3) that rs in \<open>simp_all add: nvme_wf_def\<close>)
      then show ?thesis using ok s2 by (simp add: store_mirror_def mirror_but_def d' rd_sector_def same_store_def d2)
    qed
    show ?thesis
    proof (intro conjI impI)
      show "nv_ns (nv d') = nv_ns (nv d)" using s2 by (simp add: d' same_store_def)
      assume "store_ready d'"
      then have ok: "rc2 = 0" using s2 assms(4) by (simp add: d' same_store_def split: if_splits)
      show "rc = 0" by (rule rc)
      show "rd_wf d'" using ok s2 assms(2,3) store_header_fits [OF hdr]
        by (simp add: rd_wf_def store_wf_def d' same_store_def d2)
      show "store_header (nv_ns (nv d) (store_first_lba d')) (store_first_lba d') (store_last_lba d')
          (store_fs_sectors d')" using hdr ok by (simp add: d' d2)
      show "store_mirror d'" if "rd_sectors d \<le> store_fs_sectors d'"
        using mir ok that by (simp add: d' d2)
    qed
  qed
qed

subsection \<open>A machine with a store\<close>

definition demo_ata_rd :: "port_writes \<Rightarrow> media \<Rightarrow> u16 list" where
  "demo_ata_rd ops m = bytes_words (m (tf_lba ops))"

definition demo_ata_wr :: "port_writes \<Rightarrow> u16 list \<Rightarrow> port_writes \<Rightarrow> media \<Rightarrow> media" where
  "demo_ata_wr ops ws fl m = m(tf_lba ops := concat (map word_bytes ws))"

definition demo_disk :: disk where
  "demo_disk = \<lparr>rd_base = 0x7000000, rd_sectors = 300, rd_mem = (\<lambda>_. 0),
     ata_rd = demo_ata_rd, ata_wr = demo_ata_wr, ata_media = (\<lambda>_. replicate 512 0),
     nv = demo_nvme, store_first_lba = 100, store_last_lba = 600, store_fs_sectors = 400,
     store_ready = True, store_status = STORE_OK\<rparr>"

lemma demo_disk_wf:
  "rd_wf demo_disk" "store_ready demo_disk" "mirror_but {} demo_disk" "store_whole demo_disk"
proof -
  have z: "mem_load (\<lambda>_. 0) a n = replicate n 0" for a n
    by (induction n arbitrary: a) auto
  show "rd_wf demo_disk" using demo_nvme_wf by (simp add: rd_wf_def store_wf_def demo_disk_def)
  show "store_ready demo_disk" by (simp add: demo_disk_def)
  show "store_whole demo_disk"
    using demo_nvme_wf by (simp add: store_whole_def demo_disk_def) (simp add: demo_nvme_def)
  show "mirror_but {} demo_disk"
    by (simp add: mirror_but_def rd_sector_def demo_disk_def z) (simp add: demo_nvme_def)
qed

theorem store_write_confined_witness:
  "nv_ns (nv (disk_write_sectors 140 2 (replicate 1024 9) demo_disk)) 700 = nv_ns (nv demo_disk) 700 \<and>
   nv_ns (nv (disk_write_sectors 140 2 (replicate 1024 9) demo_disk)) 104 \<noteq> nv_ns (nv demo_disk) 104 \<and>
   store_first_lba demo_disk < 104"
proof -
  let ?d = "disk_write_sectors 140 2 (replicate 1024 9) demo_disk"
  have wf: "store_wf demo_disk" using demo_disk_wf(1) by (simp add: rd_wf_def)
  have n: "unat (140 :: u32) + unat (2 :: u32) < 4294967296"
    "unat (2 :: u32) * 512 \<le> length (replicate 1024 (9 :: u8))" by simp_all
  have out: "\<not> (store_ready demo_disk \<and> store_first_lba demo_disk < 700 \<and> 700 \<le> store_last_lba demo_disk)"
    by (simp add: demo_disk_def)
  have r: "rd_range demo_disk (unat (140 :: u32)) (unat (2 :: u32))"
    "length (replicate 1024 (9 :: u8)) = unat (2 :: u32) * 512" "(2 :: u32) \<noteq> 0" "rd_range demo_disk 140 1"
    by (simp_all add: rd_range_def demo_disk_def)
  have "write_ok demo_disk (140, 2, replicate 1024 9)" using r by (simp add: write_ok_def)
  then have "mirror_but {} ?d"
    using mirror_but_write [OF demo_disk_wf(1-3) r(1-3)] wrote_through_whole [OF demo_disk_wf(1,2,4)] by simp
  then have "nv_ns (nv ?d) (store_first_lba ?d + 1 + of_nat 3) = rd_sector ?d 140"
    by (auto simp: mirror_but_def demo_disk_def dest!: spec [of _ 3])
  also have "\<dots> = replicate 512 9"
    using rd.wrs_sector [OF demo_disk_wf(1) r(1,2,4)] by simp
  finally have new: "nv_ns (nv ?d) 104 = replicate 512 9" by (simp add: demo_disk_def)
  moreover have old: "nv_ns (nv demo_disk) 104 = replicate 512 0" by (simp add: demo_disk_def demo_nvme_def)
  moreover have "replicate 512 (9 :: u8) ! 0 \<noteq> replicate 512 0 ! 0" by simp
  ultimately have ne: "nv_ns (nv ?d) 104 \<noteq> nv_ns (nv demo_disk) 104" by metis
  show ?thesis
    using store_write_confined [OF wf n, of 700] store_write_confined [OF wf n ne] out ne by blast
qed

theorem store_survives_reboot_witness:
  "\<exists>nv'. nvme_read 101 300 (nv (disk_writes [(140, 1, replicate 512 9), (201, 2, replicate 1024 7)] demo_disk)) =
     (0, disk_read_sectors FS_DIR_LBA 300 (disk_writes [(140, 1, replicate 512 9), (201, 2, replicate 1024 7)] demo_disk), nv')"
proof -
  let ?ws = "[(140, 1, replicate 512 9), (201, 2, replicate 1024 7)] :: (u32 \<times> u32 \<times> u8 list) list"
  obtain rc out nv' where r: "nvme_read (store_first_lba demo_disk + 1) 300 (nv (disk_writes ?ws demo_disk)) = (rc, out, nv')"
    using prod_cases3 by blast
  have "list_all (write_ok demo_disk) ?ws" by (simp add: write_ok_def rd_range_def demo_disk_def)
  moreover have "300 = (if store_fs_sectors demo_disk > rd_sectors demo_disk then rd_sectors demo_disk else store_fs_sectors demo_disk)"
    by (simp add: demo_disk_def)
  ultimately have "rc = 0 \<and> out = disk_read_sectors FS_DIR_LBA (rd_sectors demo_disk) (disk_writes ?ws demo_disk)"
    using store_survives_reboot [OF demo_disk_wf(1-3) _ refl _ r] demo_disk_wf(4) by simp
  then show ?thesis using r by (simp add: demo_disk_def)
qed

text \<open>A drive with a partition table whose only partition holds a store.\<close>

definition demo_parted :: namespace where
  "demo_parted x =
     (if x = 1 then gpt_sig @ replicate 64 0 @ le64_bytes 2 @ le32_bytes 1 @ le32_bytes 128 @ replicate 424 0
      else if x = 2 then replicate 32 1 @ le64_bytes 10 @ le64_bytes 600 @ replicate 464 0
      else if x = 10 then le32_bytes STORE_MAGIC0 @ le32_bytes STORE_MAGIC1 @ le32_bytes STORE_VERSION @ le32_bytes 400 @ replicate 496 0
      else replicate 512 0)"

definition demo_parted_disk :: disk where
  "demo_parted_disk = demo_disk\<lparr>nv := demo_nvme\<lparr>nv_ns := demo_parted\<rparr>, store_ready := False, store_first_lba := 0, store_last_lba := 0,
     store_fs_sectors := 0\<rparr>"

lemma demo_parted_len: "length (demo_parted x) = 512"
  by (simp add: demo_parted_def gpt_sig_def)

lemma demo_parted_reads:
  "list_all (\<lambda>i. arr_get (demo_parted 1) i = gpt_sig ! i) [0..<8]" "le64 (demo_parted 1) 72 = 2" "le32 (demo_parted 1) 80 = 1"
  "le32 (demo_parted 1) 84 = 128" "arr_get (demo_parted 2) 0 = 1" "le64 (demo_parted 2) 32 = 10" "le64 (demo_parted 2) 40 = 600"
  "le32 (demo_parted 10) 0 = STORE_MAGIC0" "le32 (demo_parted 10) 4 = STORE_MAGIC1" "le32 (demo_parted 10) 8 = STORE_VERSION"
  "le32 (demo_parted 10) 12 = 400"
  by code_simp+

lemma demo_nvme_reads:
  assumes "nvme_wf (nv d) 512" "drive_answers (nv d) 512" "present (info (nv d))" "c \<noteq> 0" "unat lba + unat c \<le> unat (blocks (info (nv d)))"
  shows "\<exists>n. disk_nvme_read lba c d = (0, concat (map (\<lambda>i. nv_ns (nv d) (lba + of_nat i)) [0..<unat c]), d\<lparr>nv := n\<rparr>) \<and>
    nvme_wf n 512 \<and> same_config (nv d) n \<and> nv_ns n = nv_ns (nv d)"
proof -
  obtain rc out n where r: "nvme_read lba c (nv d) = (rc, out, n)" using prod_cases3 by blast
  then show ?thesis using nvme_read_facts [OF assms(1) r] assms(2-5) by (intro exI [of _ n]) (simp add: disk_nvme_read_def)
qed

lemma demo_init_arms: "store_ready (store_init_from 0 demo_parted_disk)" "store_first_lba (store_init_from 0 demo_parted_disk) = 10"
proof -
  let ?d = demo_parted_disk
  have cong: "controller_ok (demo_nvme\<lparr>nv_ns := f\<rparr>) 512" for f by (rule demo_controller_ok) (simp add: demo_nvme_def)
  have w0: "nvme_wf (nv ?d) 512" using demo_nvme_wf(1) cong demo_parted_len by (simp add: nvme_wf_def demo_parted_disk_def)
  have i0: "drive_answers (nv ?d) 512" "present (info (nv ?d))" "blocks (info (nv ?d)) = 1000" "block_size (info (nv ?d)) = 512" "nv_ns (nv ?d) = demo_parted"
    by (simp_all add: demo_parted_disk_def demo_answers demo_nvme_def)
  have info: "drive_answers n 512" "present (info n)" "blocks (info n) = 1000" if "same_config (nv ?d) n" for n
    using that i0 drive_answers_cong [OF that] by (simp_all add: same_config_def)
  obtain n1 where 1: "disk_nvme_read 1 1 ?d = (0, demo_parted 1, ?d\<lparr>nv := n1\<rparr>)" "nvme_wf n1 512" "same_config (nv ?d) n1" "nv_ns n1 = demo_parted"
    using demo_nvme_reads [OF w0 i0(1,2), of 1 1] i0 by auto
  obtain n2 where 2: "disk_nvme_read 2 1 (?d\<lparr>nv := n1\<rparr>) = (0, demo_parted 2, ?d\<lparr>nv := n2\<rparr>)" "nvme_wf n2 512" "same_config (nv ?d) n2" "nv_ns n2 = demo_parted"
    using demo_nvme_reads [of "?d\<lparr>nv := n1\<rparr>" 1 2] 1 info [OF 1(3)] same_config_trans [OF 1(3)] by auto
  obtain n3 where 3: "disk_nvme_read 10 1 (?d\<lparr>nv := n2\<rparr>) = (0, demo_parted 10, ?d\<lparr>nv := n3\<rparr>)" "nvme_wf n3 512" "same_config (nv ?d) n3" "nv_ns n3 = demo_parted"
    using demo_nvme_reads [of "?d\<lparr>nv := n2\<rparr>" 1 10] 2 info [OF 2(3)] same_config_trans [OF 2(3)] by auto
  have "\<not> list_all (\<lambda>b. arr_get (demo_parted 2) b = 0) [0..<16]"
    using demo_parted_reads(5) by (auto simp: list_all_iff intro!: bexI [of _ 0])
  then have scan: "store_scan ?d = (True, ?d\<lparr>nv := n3, store_first_lba := 10, store_last_lba := 600, store_fs_sectors := 400, store_status := STORE_OK\<rparr>)"
    using 1(1) 2(1) 3(1) i0 demo_parted_reads by (simp add: store_scan_def Let_def)
  define d3 where "d3 = ?d\<lparr>nv := n3, store_first_lba := 10, store_last_lba := 600, store_fs_sectors := 400, store_status := STORE_OK\<rparr>"
  have "nv d3 = n3" "rd_sectors d3 = 300" by (simp_all add: d3_def demo_parted_disk_def demo_disk_def)
  then obtain out n4 where 4: "disk_nvme_read 11 300 d3 = (0, out, d3\<lparr>nv := n4\<rparr>)"
    using demo_nvme_reads [of d3 300 11] 3 info [OF 3(3)] by auto
  have "store_init_from 0 ?d = (d3\<lparr>nv := n4\<rparr>)\<lparr>rd_mem := memcpy (rd_mem d3) (rd_base d3) out, store_ready := True\<rparr>"
    using 4 \<open>rd_sectors d3 = 300\<close> by (simp add: store_init_from_def scan d3_def [symmetric] Let_def) (simp add: d3_def)
  then show "store_ready (store_init_from 0 ?d)" "store_first_lba (store_init_from 0 ?d) = 10" by (simp_all add: d3_def)
qed

theorem store_init_arms_witness:
  "store_ready (store_init_from 0 demo_parted_disk) \<and>
   store_header (demo_parted 10) 10 (store_last_lba (store_init_from 0 demo_parted_disk)) (store_fs_sectors (store_init_from 0 demo_parted_disk)) \<and>
   nv_ns (nv (store_init_from 0 demo_parted_disk)) = demo_parted"
proof -
  have cong: "controller_ok (demo_nvme\<lparr>nv_ns := f\<rparr>) 512" for f by (rule demo_controller_ok) (simp add: demo_nvme_def)
  have "nvme_wf (nv demo_parted_disk) 512" "rd_base demo_parted_disk \<noteq> 0" "unat (rd_sectors demo_parted_disk) * 512 < 4294967296"
    "\<not> store_ready demo_parted_disk"
    using demo_nvme_wf(1) cong demo_parted_len by (simp_all add: nvme_wf_def demo_parted_disk_def demo_disk_def)
  from store_init_arms [OF this refl, of 0] show ?thesis
    using demo_init_arms by (simp add: demo_parted_disk_def)
qed

end
