(* ===== verification/FileSystem.thy ===== *)
theory FileSystem
  imports Disk UserMem
begin

text \<open>
  The file system of kernel/kernel.c: a flat directory of 64-byte entries in sectors
  \<open>FS_DIR_LBA\<close> onwards, each naming one contiguous extent. The operations are the kernel's
  \<open>fs_*\<close> functions and the directory updates of the rename and delete system calls. They refine
  an abstract file system, a map from names to contents (\<open>fs_abs\<close>).
\<close>

subsection \<open>Directory entries\<close>

record dirent =
  d_name :: "u8 list"
  d_start :: u32
  d_size :: u32
  d_flags :: u32
  d_reserved :: u32

definition DIR_ENTRIES :: nat where "DIR_ENTRIES = unat (DIR_SECTORS * 512 div 64)"

definition dirent_bytes :: "dirent \<Rightarrow> u8 list" where
  "dirent_bytes e = d_name e @ le32_bytes (d_start e) @ le32_bytes (d_size e) @
     le32_bytes (d_flags e) @ le32_bytes (d_reserved e)"

definition dirent_of :: "u8 list \<Rightarrow> dirent" where
  "dirent_of b = \<lparr>d_name = take 48 b, d_start = le32 b 48, d_size = le32 b 52,
     d_flags = le32 b 56, d_reserved = le32 b 60\<rparr>"

definition zero_dirent :: dirent where
  "zero_dirent = \<lparr>d_name = replicate 48 0, d_start = 0, d_size = 0, d_flags = 0, d_reserved = 0\<rparr>"

record fs =
  dk :: disk
  fdir :: "dirent list"

definition fs_load_dir :: "fs \<Rightarrow> fs" where
  "fs_load_dir s =
     (let b = disk_read_sectors FS_DIR_LBA DIR_SECTORS (dk s)
      in s\<lparr>fdir := map (\<lambda>i. dirent_of (take 64 (drop (i * 64) b))) [0..<DIR_ENTRIES]\<rparr>)"

definition fs_sync_dir :: "fs \<Rightarrow> fs" where
  "fs_sync_dir s =
     s\<lparr>dk := disk_write_sectors FS_DIR_LBA DIR_SECTORS (concat (map dirent_bytes (fdir s))) (dk s)\<rparr>"

subsection \<open>Lookup and allocation\<close>

definition dirent_used :: "dirent \<Rightarrow> bool" where
  "dirent_used e \<longleftrightarrow> arr_get (d_name e) 0 \<noteq> 0"

fun fs_find_loop :: "dirent list \<Rightarrow> u8 list \<Rightarrow> int \<Rightarrow> int" where
  "fs_find_loop [] name i = -1"
| "fs_find_loop (e # es) name i =
     (if \<not> dirent_used e then fs_find_loop es name (i + 1)
      else if name_eq_ci (d_name e) name then i
      else fs_find_loop es name (i + 1))"

definition fs_find :: "u8 list \<Rightarrow> fs \<Rightarrow> int" where
  "fs_find name s = fs_find_loop (fdir s) name 0"

fun fs_free_loop :: "dirent list \<Rightarrow> int \<Rightarrow> int" where
  "fs_free_loop [] i = -1"
| "fs_free_loop (e # es) i = (if \<not> dirent_used e then i else fs_free_loop es (i + 1))"

definition sectors_of :: "u32 \<Rightarrow> u32" where
  "sectors_of sz = (sz + 511) div 512"

fun fs_next_free_loop :: "dirent list \<Rightarrow> int \<Rightarrow> int \<Rightarrow> u32 \<Rightarrow> u32" where
  "fs_next_free_loop [] i excl mx = mx"
| "fs_next_free_loop (e # es) i excl mx =
     (if \<not> dirent_used e then fs_next_free_loop es (i + 1) excl mx
      else if i = excl then fs_next_free_loop es (i + 1) excl mx
      else let fin = d_start e + sectors_of (d_size e)
           in fs_next_free_loop es (i + 1) excl (if fin > mx then fin else mx))"

text \<open>\<open>fs_next_free\<close> is the same loop with no entry left out.\<close>

definition fs_next_free :: "fs \<Rightarrow> u32" where
  "fs_next_free s = fs_next_free_loop (fdir s) 0 (-1) FS_DATA_LBA"

definition fs_next_free_excl :: "int \<Rightarrow> fs \<Rightarrow> u32" where
  "fs_next_free_excl excl s = fs_next_free_loop (fdir s) 0 excl FS_DATA_LBA"

subsection \<open>Whole-file operations\<close>

text \<open>\<open>fs_read\<close>: the returned value and the bytes it stored at the start of the caller's buffer.\<close>

definition fs_read :: "u8 list \<Rightarrow> u32 \<Rightarrow> fs \<Rightarrow> int \<times> u8 list" where
  "fs_read name mx s =
     (let idx = fs_find name s in
      if idx < 0 then (-1, [])
      else let e = fdir s ! nat idx; sz = d_size e in
        if sz > mx then (-1, [])
        else let full = sz div 512; rem = sz mod 512;
                 a = (if full > 0 then disk_read_sectors (d_start e) full (dk s) else []);
                 b = (if rem > 0 then take (unat rem) (disk_read_sector (d_start e + full) (dk s)) else [])
             in (sint sz, a @ b))"

text \<open>The name field after \<open>memset\<close> and \<open>memcpy\<close> of at most \<open>n\<close> characters of \<open>name\<close>.\<close>

definition put_name :: "u32 \<Rightarrow> u8 list \<Rightarrow> u8 list" where
  "put_name lim name =
     (let n = (if strlen name > lim then lim else strlen name)
      in arr_put (replicate 48 0) 0 (take (unat n) name))"

text \<open>\<open>buf\<close> is what is in memory from the caller's buffer on; whole sectors are written.\<close>

definition fs_write :: "u8 list \<Rightarrow> u8 list \<Rightarrow> u32 \<Rightarrow> fs \<Rightarrow> int \<times> fs" where
  "fs_write name buf sz s =
     (let found = fs_find name s;
          idx = (if found < 0 then fs_free_loop (fdir s) 0 else found)
      in if idx < 0 then (-1, s)
         else let e = fdir s ! nat idx;
                  new_sectors = sectors_of sz;
                  start = (if found \<ge> 0
                           then (if new_sectors \<le> sectors_of (d_size e) then d_start e
                                 else fs_next_free_excl idx s)
                           else fs_next_free s);
                  s = s\<lparr>dk := disk_write_sectors start new_sectors (take (unat new_sectors * 512) buf) (dk s)\<rparr>;
                  e = e\<lparr>d_name := put_name 47 name, d_start := start, d_size := sz, d_flags := 0\<rparr>
              in (0, fs_sync_dir (s\<lparr>fdir := (fdir s)[nat idx := e]\<rparr>)))"

definition fs_rename :: "u8 list \<Rightarrow> u8 list \<Rightarrow> fs \<Rightarrow> int \<times> fs" where
  "fs_rename kold knew s =
     (let idx = fs_find kold s in
      if idx < 0 then (-1, s)
      else if fs_find knew s \<ge> 0 then (-1, s)
      else (0, fs_sync_dir (s\<lparr>fdir := (fdir s)[nat idx := (fdir s ! nat idx)\<lparr>d_name := put_name 47 knew\<rparr>]\<rparr>)))"

definition fs_delete :: "u8 list \<Rightarrow> fs \<Rightarrow> int \<times> fs" where
  "fs_delete kname s =
     (let idx = fs_find kname s in
      if idx < 0 then (-1, s)
      else (0, fs_sync_dir (s\<lparr>fdir := (fdir s)[nat idx := zero_dirent]\<rparr>)))"

subsection \<open>Directory sectors\<close>

lemma length_dirent_bytes: "length (d_name e) = 48 \<Longrightarrow> length (dirent_bytes e) = 64"
  by (simp add: dirent_bytes_def)

lemma arr_get_append: "arr_get (xs @ ys) i = (if i < length xs then arr_get xs i else arr_get ys (i - length xs))"
  by (auto simp: arr_get_def nth_append)

lemma le32_append: "le32 (xs @ ys) (length xs + i) = le32 ys i"
  by (simp add: le32_def arr_get_append)

lemma le32_prefix: "i + 4 \<le> length xs \<Longrightarrow> le32 (xs @ ys) i = le32 xs i"
  by (simp add: le32_def arr_get_append)

lemma le32_le32_bytes_app: "le32 (le32_bytes v @ ys) 0 = v"
  using le32_prefix [of 0 "le32_bytes v" ys] by simp

text \<open>An entry is read back from the bytes it is stored as.\<close>

lemma dirent_roundtrip:
  assumes "length (d_name e) = 48"
  shows "dirent_of (dirent_bytes e) = e"
proof -
  let ?a = "le32_bytes (d_start e)" and ?b = "le32_bytes (d_size e)"
    and ?c = "le32_bytes (d_flags e)" and ?d = "le32_bytes (d_reserved e)"
  have "le32 (dirent_bytes e) 48 = d_start e"
    using le32_append [of "d_name e" "?a @ ?b @ ?c @ ?d" 0] assms
    by (simp add: dirent_bytes_def le32_le32_bytes_app)
  moreover have "le32 (dirent_bytes e) 52 = d_size e"
    using le32_append [of "d_name e @ ?a" "?b @ ?c @ ?d" 0] assms
    by (simp add: dirent_bytes_def le32_le32_bytes_app)
  moreover have "le32 (dirent_bytes e) 56 = d_flags e"
    using le32_append [of "d_name e @ ?a @ ?b" "?c @ ?d" 0] assms
    by (simp add: dirent_bytes_def le32_le32_bytes_app)
  moreover have "le32 (dirent_bytes e) 60 = d_reserved e"
    using le32_append [of "d_name e @ ?a @ ?b @ ?c" "?d" 0] assms
    by (simp add: dirent_bytes_def)
  moreover have "take 48 (dirent_bytes e) = d_name e" using assms by (simp add: dirent_bytes_def)
  ultimately show ?thesis by (simp add: dirent_of_def)
qed

lemma DIR_ENTRIES_512 [simp]: "DIR_ENTRIES = 512"
  by (simp add: DIR_ENTRIES_def)

lemma concat_chunks:
  assumes "\<And>x. x \<in> set xs \<Longrightarrow> length (f x) = n"
  shows "length (concat (map f xs)) = length xs * n"
    and "i < length xs \<Longrightarrow> take n (drop (i * n) (concat (map f xs))) = f (xs ! i)"
  using assms
proof (induction xs arbitrary: i)
  case Nil
  { case 1 then show ?case by simp next case 2 then show ?case by simp }
next
  case (Cons x xs)
  { case 1 then show ?case using Cons.IH(1) by simp
  next
    case 2
    then show ?case using Cons.IH(2) [of "i - 1"] by (cases i) simp_all }
qed

subsection \<open>Well-formed file systems\<close>

definition extent_end :: "dirent \<Rightarrow> nat" where
  "extent_end e = unat (d_start e) + unat (sectors_of (d_size e))"

definition entry_ok :: "disk \<Rightarrow> dirent \<Rightarrow> bool" where
  "entry_ok d e \<longleftrightarrow> 201 \<le> unat (d_start e) \<and> unat (d_size e) + 511 < 4294967296 \<and>
     disk_ok d (unat (d_start e)) (unat (sectors_of (d_size e)))"

definition apart :: "dirent \<Rightarrow> dirent \<Rightarrow> bool" where
  "apart a b \<longleftrightarrow> fs_key (d_name a) \<noteq> fs_key (d_name b) \<and>
     (extent_end a \<le> unat (d_start b) \<or> extent_end b \<le> unat (d_start a))"

definition dir_wf :: "disk \<Rightarrow> dirent list \<Rightarrow> bool" where
  "dir_wf d es \<longleftrightarrow> length es = 512 \<and> (\<forall>e \<in> set es. length (d_name e) = 48) \<and>
     (\<forall>i < 512. dirent_used (es ! i) \<longrightarrow> entry_ok d (es ! i)) \<and>
     (\<forall>i < 512. \<forall>j < 512. i \<noteq> j \<longrightarrow> dirent_used (es ! i) \<longrightarrow> dirent_used (es ! j) \<longrightarrow> apart (es ! i) (es ! j))"

text \<open>
  Entries name disjoint extents of the data area, no two entries have the same name, and the
  directory sectors hold the directory.
\<close>

definition fs_wf :: "fs \<Rightarrow> bool" where
  "fs_wf s \<longleftrightarrow> disk_wf (dk s) \<and> disk_ok (dk s) 137 64 \<and> dir_wf (dk s) (fdir s) \<and>
     disk_read_sectors 137 64 (dk s) = concat (map dirent_bytes (fdir s))"

definition content :: "disk \<Rightarrow> dirent \<Rightarrow> u8 list" where
  "content d e = take (unat (d_size e)) (disk_read_sectors (d_start e) (sectors_of (d_size e)) d)"

text \<open>The abstract file system: what each name holds.\<close>

definition fs_abs :: "fs \<Rightarrow> u8 list \<Rightarrow> u8 list option" where
  "fs_abs s k = map_option (content (dk s)) (List.find (\<lambda>e. dirent_used e \<and> fs_key (d_name e) = k) (fdir s))"

lemma dir_wfD:
  assumes "dir_wf d es"
  shows "length es = 512" and "i < 512 \<Longrightarrow> length (d_name (es ! i)) = 48"
    and "i < 512 \<Longrightarrow> dirent_used (es ! i) \<Longrightarrow> entry_ok d (es ! i)"
    and "i < 512 \<Longrightarrow> j < 512 \<Longrightarrow> i \<noteq> j \<Longrightarrow> dirent_used (es ! i) \<Longrightarrow> dirent_used (es ! j) \<Longrightarrow> apart (es ! i) (es ! j)"
  using assms by (auto simp: dir_wf_def)

lemma dir_bytes:
  assumes "dir_wf d es"
  shows "length (concat (map dirent_bytes es)) = 32768"
    and "i < 512 \<Longrightarrow> take 64 (drop (i * 64) (concat (map dirent_bytes es))) = dirent_bytes (es ! i)"
  using concat_chunks [of es dirent_bytes 64] assms length_dirent_bytes
  by (auto simp: dir_wf_def)

text \<open>Loading a well-formed directory gives the directory in memory.\<close>

lemma fs_load_dir_id: "fs_wf s \<Longrightarrow> fs_load_dir s = s"
proof -
  assume wf: "fs_wf s"
  then have dw: "dir_wf (dk s) (fdir s)" and rd: "disk_read_sectors 137 64 (dk s) = concat (map dirent_bytes (fdir s))"
    by (simp_all add: fs_wf_def)
  have "map (\<lambda>i. dirent_of (take 64 (drop (i * 64) (concat (map dirent_bytes (fdir s)))))) [0..<512] = fdir s"
    by (rule nth_equalityI) (use dw in \<open>auto simp: dir_bytes dir_wfD dirent_roundtrip\<close>)
  then show ?thesis by (simp add: fs_load_dir_def Let_def rd)
qed

subsection \<open>What lookup and allocation compute\<close>

lemma fs_find_loop_cases:
  "(fs_find_loop es name i = -1 \<and> (\<forall>e \<in> set es. \<not> (dirent_used e \<and> fs_key (d_name e) = fs_key name))) \<or>
   (\<exists>j < length es. fs_find_loop es name i = i + int j \<and> dirent_used (es ! j) \<and> fs_key (d_name (es ! j)) = fs_key name)"
proof (induction es arbitrary: i)
  case Nil
  then show ?case by simp
next
  case (Cons e es)
  show ?case
  proof (cases "dirent_used e \<and> fs_key (d_name e) = fs_key name")
    case True
    then show ?thesis by (auto simp: name_eq_ci_key intro!: exI [of _ 0])
  next
    case False
    then have step: "fs_find_loop (e # es) name i = fs_find_loop es name (i + 1)"
      by (auto simp: name_eq_ci_key)
    from Cons [of "i + 1"] show ?thesis
    proof (elim disjE exE conjE)
      fix j assume "j < length es" "fs_find_loop es name (i + 1) = i + 1 + int j"
        "dirent_used (es ! j)" "fs_key (d_name (es ! j)) = fs_key name"
      then show ?thesis unfolding step by (intro disjI2 exI [of _ "Suc j"]) simp
    qed (use False step in auto)
  qed
qed

lemma fs_find_cases:
  obtains (none) "fs_find name s = -1"
      "\<And>i. i < length (fdir s) \<Longrightarrow> dirent_used (fdir s ! i) \<Longrightarrow> fs_key (d_name (fdir s ! i)) \<noteq> fs_key name"
  | (some) j where "fs_find name s = int j" "j < length (fdir s)" "dirent_used (fdir s ! j)"
      "fs_key (d_name (fdir s ! j)) = fs_key name"
  using fs_find_loop_cases [of "fdir s" name 0] unfolding fs_find_def by fastforce

lemma fs_free_loop_cases:
  "(fs_free_loop es i = -1 \<and> (\<forall>e \<in> set es. dirent_used e)) \<or>
   (\<exists>j < length es. fs_free_loop es i = i + int j \<and> \<not> dirent_used (es ! j))"
proof (induction es arbitrary: i)
  case Nil
  then show ?case by simp
next
  case (Cons e es)
  show ?case
  proof (cases "dirent_used e")
    case False
    then show ?thesis by (auto intro!: exI [of _ 0])
  next
    case True
    from Cons [of "i + 1"] show ?thesis
    proof (elim disjE exE conjE)
      fix j assume "j < length es" "fs_free_loop es (i + 1) = i + 1 + int j" "\<not> dirent_used (es ! j)"
      then show ?thesis using True by (intro disjI2 exI [of _ "Suc j"]) simp
    qed (use True in auto)
  qed
qed

lemma fs_next_free_loop_ge:
  "mx \<le> fs_next_free_loop es i excl mx \<and>
   (\<forall>j < length es. dirent_used (es ! j) \<longrightarrow> i + int j \<noteq> excl \<longrightarrow>
      d_start (es ! j) + sectors_of (d_size (es ! j)) \<le> fs_next_free_loop es i excl mx)"
proof (induction es arbitrary: i mx)
  case Nil
  then show ?case by simp
next
  case (Cons e es)
  let ?fin = "d_start e + sectors_of (d_size e)"
  define mx' where "mx' = (if \<not> dirent_used e \<or> i = excl then mx else if ?fin > mx then ?fin else mx)"
  have step: "fs_next_free_loop (e # es) i excl mx = fs_next_free_loop es (i + 1) excl mx'"
    by (simp add: mx'_def Let_def)
  have le: "mx \<le> mx'" and le': "dirent_used e \<Longrightarrow> i \<noteq> excl \<Longrightarrow> ?fin \<le> mx'"
    by (auto simp: mx'_def not_less)
  note IH = Cons [where i = "i + 1" and mx = mx']
  show ?case
  proof (intro conjI allI impI)
    show "mx \<le> fs_next_free_loop (e # es) i excl mx"
      unfolding step using le IH order_trans by blast
    fix j assume j: "j < length (e # es)" "dirent_used ((e # es) ! j)" "i + int j \<noteq> excl"
    show "d_start ((e # es) ! j) + sectors_of (d_size ((e # es) ! j)) \<le> fs_next_free_loop (e # es) i excl mx"
    proof (cases j)
      case 0
      then have "?fin \<le> mx'" using j le' by simp
      then show ?thesis unfolding step using 0 IH order_trans by fastforce
    next
      case (Suc j')
      then show ?thesis unfolding step using IH j by (simp add: algebra_simps)
    qed
  qed
qed

subsection \<open>Extents\<close>

lemma disk_ok_bound: "disk_wf d \<Longrightarrow> disk_ok d l c \<Longrightarrow> l + c < 4294967296"
  by (auto simp: disk_wf_def disk_ok_def rd_wf_def rd_range_def ata_range_def split: if_splits)

lemma disk_ok_mono: "disk_ok d l c \<Longrightarrow> 137 \<le> l' \<Longrightarrow> l' + c' \<le> l + c \<Longrightarrow> disk_ok d l' c'"
  by (auto simp: disk_ok_def rd_range_def ata_range_def split: if_splits)

lemma unat_sectors_of:
  "unat sz + 511 < 4294967296 \<Longrightarrow> unat (sectors_of sz) = (unat sz + 511) div 512"
  by (simp add: sectors_of_def unat_div unat_add32)

lemma ceil_512: "((n :: nat) + 511) div 512 = n div 512 + (if n mod 512 = 0 then 0 else 1)"
proof -
  have "n + 511 = 512 * (n div 512) + (n mod 512 + 511)" by simp
  then have "(n + 511) div 512 = n div 512 + (n mod 512 + 511) div 512" by (metis div_mult_self4 zero_neq_numeral add.commute mult.commute)
  moreover have "(n mod 512 + 511) div 512 = (if n mod 512 = 0 then 0 else 1)"
    by (auto intro!: div_nat_eqI)
  ultimately show ?thesis by simp
qed

lemma entry_end:
  assumes "disk_wf d" "entry_ok d e"
  shows "unat (d_start e + sectors_of (d_size e)) = extent_end e"
  using disk_ok_bound [OF assms(1)] assms(2) unfolding extent_end_def entry_ok_def
  by (intro unat_add32) blast

text \<open>Free space starts after every extent but the one left out.\<close>

lemma next_free_ge:
  assumes "disk_wf (dk s)" "dir_wf (dk s) (fdir s)"
  shows "201 \<le> unat (fs_next_free_excl x s)"
    and "i < 512 \<Longrightarrow> dirent_used (fdir s ! i) \<Longrightarrow> int i \<noteq> x \<Longrightarrow>
         extent_end (fdir s ! i) \<le> unat (fs_next_free_excl x s)"
proof -
  note L = fs_next_free_loop_ge [of 201 "fdir s" 0 x]
  show "201 \<le> unat (fs_next_free_excl x s)"
    using L by (simp add: fs_next_free_excl_def word_le_nat_alt)
  show "extent_end (fdir s ! i) \<le> unat (fs_next_free_excl x s)"
    if "i < 512" "dirent_used (fdir s ! i)" "int i \<noteq> x"
    using L that dir_wfD(1) [OF assms(2)] entry_end [OF assms(1) dir_wfD(3) [OF assms(2) that(1,2)]]
    by (auto simp: fs_next_free_excl_def word_le_nat_alt)
qed

lemma next_free_excl: "fs_next_free s = fs_next_free_excl (-1) s"
  by (simp add: fs_next_free_def fs_next_free_excl_def)

lemma next_free_loop_excl_le:
  "mx' \<le> mx \<Longrightarrow> 0 \<le> i \<Longrightarrow> fs_next_free_loop es i x mx' \<le> fs_next_free_loop es i (-1) mx"
proof (induction es arbitrary: i mx mx')
  case Nil
  then show ?case by simp
next
  case (Cons e es)
  show ?case
    using Cons.prems by (auto simp: Let_def not_less intro!: Cons.IH intro: order_trans less_imp_le)
qed

lemma next_free_excl_le: "fs_next_free_excl x s \<le> fs_next_free s"
  by (simp add: fs_next_free_def fs_next_free_excl_def next_free_loop_excl_le)

subsection \<open>Reading a file\<close>

lemma content_parts:
  assumes "disk_wf d" "entry_ok d e"
  shows "content d e =
    (if d_size e div 512 > 0 then disk_read_sectors (d_start e) (d_size e div 512) d else []) @
    (if d_size e mod 512 > 0
     then take (unat (d_size e mod 512)) (disk_read_sector (d_start e + d_size e div 512) d) else [])"
proof -
  let ?n = "unat (d_size e)" and ?l = "unat (d_start e)"
  let ?q = "?n div 512" and ?r = "?n mod 512"
  have small: "?n + 511 < 4294967296" and ok: "disk_ok d ?l (unat (sectors_of (d_size e)))"
    using assms(2) by (simp_all add: entry_ok_def)
  have sec: "unat (sectors_of (d_size e)) = ?q + (if ?r = 0 then 0 else 1)"
    unfolding unat_sectors_of [OF small] by (rule ceil_512)
  have q: "unat (d_size e div 512) = ?q" and r: "unat (d_size e mod 512) = ?r"
    by (simp_all add: unat_div unat_mod)
  have okq: "disk_ok d ?l (unat (d_size e div 512))"
    using dsk.ok_sub [OF ok] sec q by simp
  have a: "(if d_size e div 512 > 0 then disk_read_sectors (d_start e) (d_size e div 512) d else []) =
      concat (map (disk_sector d) [?l..<?l + ?q])"
    using dsk.rds_eq [OF assms(1) okq] q by (auto simp: word_less_nat_alt)
  have all: "disk_read_sectors (d_start e) (sectors_of (d_size e)) d =
      concat (map (disk_sector d) [?l..<?l + (?q + (if ?r = 0 then 0 else 1))])"
    using dsk.rds_eq [OF assms(1) ok] sec by simp
  have lenq: "length (concat (map (disk_sector d) [?l..<?l + ?q])) = ?q * 512"
    using dsk.rds_length [OF assms(1) okq] dsk.rds_eq [OF assms(1) okq] q by simp
  show ?thesis
  proof (cases "?r = 0")
    case True
    then have "?n = ?q * 512" by auto
    with True a all lenq r show ?thesis by (simp add: content_def word_less_nat_alt)
  next
    case False
    have "unat (d_start e + d_size e div 512) = ?l + ?q"
      using disk_ok_bound [OF assms(1) ok] sec False q by (subst unat_add32) auto
    then have okl: "disk_ok d (unat (d_start e + d_size e div 512)) (unat (1 :: u32))"
      using dsk.ok_sub [OF ok, of "?l + ?q" 1] sec False by simp
    have last: "disk_read_sector (d_start e + d_size e div 512) d = disk_sector d (?l + ?q)"
      using dsk.rds_eq [OF assms(1) okl] \<open>unat (d_start e + d_size e div 512) = ?l + ?q\<close>
      by (simp add: disk_read_sector_def)
    have "[?l..<?l + (?q + 1)] = [?l..<?l + ?q] @ [?l + ?q]" by simp
    then have "disk_read_sectors (d_start e) (sectors_of (d_size e)) d =
        concat (map (disk_sector d) [?l..<?l + ?q]) @ disk_sector d (?l + ?q)"
      using all False by simp
    moreover have "?n = ?q * 512 + ?r" by simp
    ultimately show ?thesis
      using False a last lenq r by (simp add: content_def word_less_nat_alt minus_div_mult_eq_mod)
  qed
qed

lemma fs_read_found:
  assumes "fs_wf s" "fs_find name s = int j" "j < 512" "dirent_used (fdir s ! j)"
  shows "fs_read name mx s =
    (if d_size (fdir s ! j) > mx then (-1, []) else (sint (d_size (fdir s ! j)), content (dk s) (fdir s ! j)))"
proof -
  have "disk_wf (dk s)" "dir_wf (dk s) (fdir s)" using assms(1) by (simp_all add: fs_wf_def)
  with assms show ?thesis
    using content_parts [of "dk s" "fdir s ! j"] dir_wfD(3) [of "dk s" "fdir s" j]
    by (simp add: fs_read_def Let_def)
qed

subsection \<open>Changing one entry\<close>

lemma dir_wf_cong: "disk_ok d' = disk_ok d \<Longrightarrow> dir_wf d' es = dir_wf d es"
  by (simp add: dir_wf_def entry_ok_def)

lemma fs_abs_iff:
  assumes "dir_wf d (fdir s)"
  shows "fs_abs s k = Some c \<longleftrightarrow>
    (\<exists>j < 512. dirent_used (fdir s ! j) \<and> fs_key (d_name (fdir s ! j)) = k \<and> c = content (dk s) (fdir s ! j))"
proof
  let ?P = "\<lambda>e. dirent_used e \<and> fs_key (d_name e) = k"
  show "\<exists>j < 512. dirent_used (fdir s ! j) \<and> fs_key (d_name (fdir s ! j)) = k \<and> c = content (dk s) (fdir s ! j)"
    if "fs_abs s k = Some c"
    using that dir_wfD(1) [OF assms] unfolding fs_abs_def by (auto simp: find_Some_iff)
  assume "\<exists>j < 512. dirent_used (fdir s ! j) \<and> fs_key (d_name (fdir s ! j)) = k \<and> c = content (dk s) (fdir s ! j)"
  then obtain j where j: "j < 512" "?P (fdir s ! j)" "c = content (dk s) (fdir s ! j)" by blast
  have "\<not> ?P (fdir s ! i)" if "i < j" for i
    using dir_wfD(4) [OF assms, of i j] that j by (auto simp: apart_def)
  then have "List.find ?P (fdir s) = Some (fdir s ! j)"
    using j dir_wfD(1) [OF assms] by (auto simp: find_Some_iff)
  then show "fs_abs s k = Some c" using j by (simp add: fs_abs_def)
qed

lemma fs_abs_None:
  assumes "dir_wf d (fdir s)"
  shows "fs_abs s k = None \<longleftrightarrow> (\<forall>j < 512. dirent_used (fdir s ! j) \<longrightarrow> fs_key (d_name (fdir s ! j)) \<noteq> k)"
  using fs_abs_iff [OF assms, of k] by (cases "fs_abs s k") auto

lemma apart_sym: "apart a b \<Longrightarrow> apart b a"
  by (auto simp: apart_def)

lemma dir_wf_update:
  assumes "dir_wf d es" "i < 512" "length (d_name e) = 48" "dirent_used e \<Longrightarrow> entry_ok d e"
    and "\<And>j. j < 512 \<Longrightarrow> j \<noteq> i \<Longrightarrow> dirent_used e \<Longrightarrow> dirent_used (es ! j) \<Longrightarrow> apart e (es ! j)"
  shows "dir_wf d (es[i := e])"
proof -
  have len: "length es = 512" using dir_wfD(1) [OF assms(1)] .
  have "apart (es[i := e] ! a) (es[i := e] ! b)"
    if "a < 512" "b < 512" "a \<noteq> b" "dirent_used (es[i := e] ! a)" "dirent_used (es[i := e] ! b)" for a b
    using that assms(2) assms(5) [of a] assms(5) [of b] dir_wfD(4) [OF assms(1), of a b] len
    by (cases "a = i"; cases "b = i") (auto intro: apart_sym)
  moreover have "dirent_used (es[i := e] ! a) \<longrightarrow> entry_ok d (es[i := e] ! a)" if "a < 512" for a
    using that assms(2,4) dir_wfD(3) [OF assms(1), of a] len by (cases "a = i") auto
  moreover have "\<forall>x \<in> set (es[i := e]). length (d_name x) = 48"
    using assms(1,3) set_update_subset_insert [of es i e] by (auto simp: dir_wf_def)
  ultimately show ?thesis using len unfolding dir_wf_def by auto
qed

lemma fs_abs_update:
  assumes w: "dir_wf d (fdir s)" and w': "dir_wf d' (fdir s')" and i: "i < 512"
    and dir: "fdir s' = (fdir s)[i := e]"
    and same: "\<And>j. j < 512 \<Longrightarrow> j \<noteq> i \<Longrightarrow> dirent_used (fdir s ! j) \<Longrightarrow> content (dk s') (fdir s ! j) = content (dk s) (fdir s ! j)"
  shows "fs_abs s' k =
    (if dirent_used e \<and> k = fs_key (d_name e) then Some (content (dk s') e)
     else if dirent_used (fdir s ! i) \<and> k = fs_key (d_name (fdir s ! i)) then None
     else fs_abs s k)"
proof -
  have len: "length (fdir s) = 512" using dir_wfD(1) [OF w] .
  have at: "fdir s' ! j = (if j = i then e else fdir s ! j)" if "j < 512" for j
    using that i len by (simp add: dir)
  consider (new) "dirent_used e" "k = fs_key (d_name e)"
    | (old) "\<not> (dirent_used e \<and> k = fs_key (d_name e))" "dirent_used (fdir s ! i)" "k = fs_key (d_name (fdir s ! i))"
    | (other) "\<not> (dirent_used e \<and> k = fs_key (d_name e))" "\<not> (dirent_used (fdir s ! i) \<and> k = fs_key (d_name (fdir s ! i)))"
    by blast
  then show ?thesis
  proof cases
    case new
    then have "fs_abs s' k = Some (content (dk s') e)"
      unfolding fs_abs_iff [OF w'] using i at by (intro exI [of _ i]) auto
    with new show ?thesis by simp
  next
    case old
    have "fs_key (d_name (fdir s' ! j)) \<noteq> k" if "j < 512" "dirent_used (fdir s' ! j)" for j
      using that at [of j] old dir_wfD(4) [OF w that(1) i] by (auto simp: apart_def split: if_splits)
    then have "fs_abs s' k = None" by (simp add: fs_abs_None [OF w'])
    with old show ?thesis by simp
  next
    case other
    have "fs_abs s' k = Some c \<longleftrightarrow> fs_abs s k = Some c" for c
      unfolding fs_abs_iff [OF w'] fs_abs_iff [OF w] using at same other i by metis
    then have "fs_abs s' k = fs_abs s k" by (metis not_Some_eq)
    with other show ?thesis by auto
  qed
qed

text \<open>Storing the directory leaves the data area alone.\<close>

lemma fs_sync_facts:
  assumes "disk_wf (dk s)" "disk_ok (dk s) 137 64" "dir_wf d (fdir s)"
  shows "disk_wf (dk (fs_sync_dir s))" and "disk_ok (dk (fs_sync_dir s)) = disk_ok (dk s)"
    and "disk_read_sectors 137 64 (dk (fs_sync_dir s)) = concat (map dirent_bytes (fdir s))"
    and "201 \<le> unat l \<Longrightarrow> disk_ok (dk s) (unat l) (unat c) \<Longrightarrow>
         disk_read_sectors l c (dk (fs_sync_dir s)) = disk_read_sectors l c (dk s)"
    and "fdir (fs_sync_dir s) = fdir s"
proof -
  let ?b = "concat (map dirent_bytes (fdir s))"
  have len: "length ?b = unat (64 :: u32) * 512" using dir_bytes(1) [OF assms(3)] by simp
  have ok: "disk_ok (dk s) (unat (137 :: u32)) (unat (64 :: u32))" using assms(2) by simp
  have dk: "dk (fs_sync_dir s) = disk_write_sectors 137 64 ?b (dk s)" by (simp add: fs_sync_dir_def)
  show "disk_wf (dk (fs_sync_dir s))" unfolding dk using dsk.wrs_inv [OF assms(1) ok len] .
  show "disk_ok (dk (fs_sync_dir s)) = disk_ok (dk s)" unfolding dk by (rule dsk.wrs_ok)
  show "disk_read_sectors 137 64 (dk (fs_sync_dir s)) = ?b"
    unfolding dk by (rule dsk.rds_after_wrs [OF assms(1) ok len])
  show "disk_read_sectors l c (dk (fs_sync_dir s)) = disk_read_sectors l c (dk s)"
    if "201 \<le> unat l" "disk_ok (dk s) (unat l) (unat c)"
    unfolding dk by (rule dsk.rds_other [OF assms(1) ok len that(2)]) (use that in simp)
  show "fdir (fs_sync_dir s) = fdir s" by (simp add: fs_sync_dir_def)
qed

text \<open>Everything an operation that replaces entry \<open>i\<close> (after writing data to disk \<open>d1\<close>) guarantees.\<close>

lemma fs_update:
  assumes wf: "fs_wf s" and i: "i < 512"
    and d1: "disk_wf d1" "disk_ok d1 = disk_ok (dk s)"
    and e: "length (d_name e) = 48" "dirent_used e \<Longrightarrow> entry_ok (dk s) e"
      "\<And>j. j < 512 \<Longrightarrow> j \<noteq> i \<Longrightarrow> dirent_used e \<Longrightarrow> dirent_used (fdir s ! j) \<Longrightarrow> apart e (fdir s ! j)"
    and same: "\<And>j. j < 512 \<Longrightarrow> j \<noteq> i \<Longrightarrow> dirent_used (fdir s ! j) \<Longrightarrow> content d1 (fdir s ! j) = content (dk s) (fdir s ! j)"
    and s': "s' = fs_sync_dir (s\<lparr>dk := d1, fdir := (fdir s)[i := e]\<rparr>)"
  shows "fs_wf s'"
    and "fs_abs s' k =
      (if dirent_used e \<and> k = fs_key (d_name e) then Some (content d1 e)
       else if dirent_used (fdir s ! i) \<and> k = fs_key (d_name (fdir s ! i)) then None
       else fs_abs s k)"
proof -
  let ?s = "s\<lparr>dk := d1, fdir := (fdir s)[i := e]\<rparr>"
  have w: "dir_wf (dk s) (fdir s)" and ok: "disk_ok (dk s) 137 64" using wf by (simp_all add: fs_wf_def)
  have w1: "dir_wf (dk s) (fdir ?s)" using dir_wf_update [OF w i e] by simp
  have p: "disk_wf (dk ?s)" "disk_ok (dk ?s) 137 64" using d1 ok by simp_all
  note S = fs_sync_facts [OF p w1, folded s']
  have w2: "dir_wf (dk s') (fdir s')" using S(2,5) d1(2) w1 dir_wf_cong [of "dk s'" "dk s"] by simp
  show "fs_wf s'" using S w2 p d1 ok by (simp add: fs_wf_def)
  have keep: "content (dk s') x = content d1 x" if "entry_ok (dk s) x" for x
    using S(4) that d1(2) by (simp add: content_def entry_ok_def)
  have "content (dk s') (fdir s ! j) = content (dk s) (fdir s ! j)"
    if "j < 512" "j \<noteq> i" "dirent_used (fdir s ! j)" for j
    using keep [OF dir_wfD(3) [OF w that(1,3)]] same [OF that] by simp
  moreover have "fdir s' = (fdir s)[i := e]" using S(5) by simp
  ultimately show "fs_abs s' k =
      (if dirent_used e \<and> k = fs_key (d_name e) then Some (content d1 e)
       else if dirent_used (fdir s ! i) \<and> k = fs_key (d_name (fdir s ! i)) then None
       else fs_abs s k)"
    using fs_abs_update [OF w w2 i, of e k] keep e(2) by auto
qed

subsection \<open>Writing a file\<close>

lemma put_name_facts:
  assumes "length name \<le> 47" "0 \<notin> set name"
  shows "put_name 47 name = name @ replicate (48 - length name) 0"
    and "length (put_name 47 name) = 48" and "fs_key (put_name 47 name) = fs_key name"
    and "arr_get (put_name 47 name) 0 \<noteq> 0 \<longleftrightarrow> name \<noteq> []"
proof -
  have "unat (strlen name) = length name" using assms by (simp add: strlen_eq unat_of_nat)
  then have "unat (if strlen name > 47 then 47 else strlen name) = length name"
    using assms by (auto simp: word_less_nat_alt)
  then show e: "put_name 47 name = name @ replicate (48 - length name) 0"
    by (simp add: put_name_def Let_def arr_put_def)
  obtain m where m: "48 - length name = Suc m" using assms(1) by (cases "48 - length name") auto
  show "length (put_name 47 name) = 48" using assms(1) by (simp add: e)
  show "fs_key (put_name 47 name) = fs_key name"
    unfolding e m using assms(2) by (simp add: fs_key_def)
  show "arr_get (put_name 47 name) 0 \<noteq> 0 \<longleftrightarrow> name \<noteq> []"
    unfolding e m using assms(2) by (cases name) auto
qed

text \<open>There is room for \<open>sz\<close> more bytes after the last extent.\<close>

definition fs_room :: "fs \<Rightarrow> u32 \<Rightarrow> bool" where
  "fs_room s sz \<longleftrightarrow> unat sz + 511 < 4294967296 \<and>
     disk_ok (dk s) (unat (fs_next_free s)) (unat (sectors_of sz))"

text \<open>Where \<open>fs_write\<close> puts a file whose entry is \<open>i\<close>: inside the disk and clear of every other file.\<close>

lemma write_place:
  assumes wf: "fs_wf s" and room: "fs_room s sz" and i: "i < 512"
    and st: "st = fs_next_free s \<or> st = fs_next_free_excl (int i) s \<or>
      dirent_used (fdir s ! i) \<and> st = d_start (fdir s ! i) \<and> sectors_of sz \<le> sectors_of (d_size (fdir s ! i))"
  shows "201 \<le> unat st" and "disk_ok (dk s) (unat st) (unat (sectors_of sz))"
    and "j < 512 \<Longrightarrow> j \<noteq> i \<Longrightarrow> dirent_used (fdir s ! j) \<Longrightarrow>
       extent_end (fdir s ! j) \<le> unat st \<or> unat st + unat (sectors_of sz) \<le> unat (d_start (fdir s ! j))"
proof -
  have w: "dir_wf (dk s) (fdir s)" and d: "disk_wf (dk s)" using wf by (simp_all add: fs_wf_def)
  note G = next_free_ge [OF d w]
  have nf: "fs_next_free s = fs_next_free_excl (-1) s" by (rule next_free_excl)
  have le: "unat (fs_next_free_excl (int i) s) \<le> unat (fs_next_free s)"
    using next_free_excl_le [of "int i" s] by (simp add: word_le_nat_alt)
  have keep: "entry_ok (dk s) (fdir s ! i)" if "dirent_used (fdir s ! i)" using dir_wfD(3) [OF w i that] .
  show lo: "201 \<le> unat st" using st G(1) keep by (auto simp: nf entry_ok_def)
  show "disk_ok (dk s) (unat st) (unat (sectors_of sz))"
    using st
  proof (elim disjE conjE)
    assume "st = fs_next_free s"
    then show ?thesis using room by (simp add: fs_room_def)
  next
    assume "st = fs_next_free_excl (int i) s"
    then have "unat st + unat (sectors_of sz) \<le> unat (fs_next_free s) + unat (sectors_of sz)"
      using le by simp
    moreover have "137 \<le> unat st" using lo by simp
    ultimately show ?thesis using room disk_ok_mono unfolding fs_room_def by blast
  next
    assume a: "dirent_used (fdir s ! i)" "st = d_start (fdir s ! i)" "sectors_of sz \<le> sectors_of (d_size (fdir s ! i))"
    have "disk_ok (dk s) (unat st) (unat (sectors_of (d_size (fdir s ! i))))"
      using keep [OF a(1)] a(2) by (simp add: entry_ok_def)
    then show ?thesis by (rule dsk.ok_sub) (use a(3) in \<open>simp_all add: word_le_nat_alt\<close>)
  qed
  show "extent_end (fdir s ! j) \<le> unat st \<or> unat st + unat (sectors_of sz) \<le> unat (d_start (fdir s ! j))"
    if j: "j < 512" "j \<noteq> i" "dirent_used (fdir s ! j)"
    using st
  proof (elim disjE conjE)
    assume "st = fs_next_free s"
    then show ?thesis using G(2) [of j "-1"] j by (simp add: nf)
  next
    assume "st = fs_next_free_excl (int i) s"
    then show ?thesis using G(2) [of j "int i"] j by simp
  next
    assume a: "dirent_used (fdir s ! i)" "st = d_start (fdir s ! i)" "sectors_of sz \<le> sectors_of (d_size (fdir s ! i))"
    then show ?thesis using dir_wfD(4) [OF w i j(1)] j a by (auto simp: apart_def extent_end_def word_le_nat_alt)
  qed
qed

lemma content_other:
  assumes "disk_wf d" "disk_ok d (unat st) (unat n)" "length p = unat n * 512" "entry_ok d x"
    and "extent_end x \<le> unat st \<or> unat st + unat n \<le> unat (d_start x)"
  shows "content (disk_write_sectors st n p d) x = content d x"
  using dsk.rds_other [OF assms(1-3), of "d_start x" "sectors_of (d_size x)"] assms(4,5)
  by (auto simp: content_def entry_ok_def extent_end_def)

text \<open>The choices of \<open>fs_write\<close>, with the entry it uses.\<close>

lemma fs_write_cases:
  assumes wf: "fs_wf s" and run: "fs_write name buf sz s = (rc, s')"
  obtains (full) "rc = -1" "s' = s" "\<forall>j < 512. dirent_used (fdir s ! j)"
      "\<forall>j < 512. fs_key (d_name (fdir s ! j)) \<noteq> fs_key name"
  | (ok) i st where "rc = 0" "i < 512"
      "dirent_used (fdir s ! i) \<longrightarrow> fs_key (d_name (fdir s ! i)) = fs_key name"
      "\<forall>j < 512. j \<noteq> i \<longrightarrow> dirent_used (fdir s ! j) \<longrightarrow> fs_key (d_name (fdir s ! j)) \<noteq> fs_key name"
      "st = fs_next_free s \<or> st = fs_next_free_excl (int i) s \<or>
        dirent_used (fdir s ! i) \<and> st = d_start (fdir s ! i) \<and> sectors_of sz \<le> sectors_of (d_size (fdir s ! i))"
      "s' = fs_sync_dir (s\<lparr>dk := disk_write_sectors st (sectors_of sz) (take (unat (sectors_of sz) * 512) buf) (dk s),
         fdir := (fdir s)[i := (fdir s ! i)\<lparr>d_name := put_name 47 name, d_start := st, d_size := sz, d_flags := 0\<rparr>]\<rparr>)"
proof -
  have w: "dir_wf (dk s) (fdir s)" and len: "length (fdir s) = 512"
    using wf dir_wfD(1) by (auto simp: fs_wf_def)
  show ?thesis
  proof (cases rule: fs_find_cases [of name s])
    case none
    show ?thesis
    proof (cases "fs_free_loop (fdir s) 0 < 0")
      case True
      then have "\<forall>e \<in> set (fdir s). dirent_used e" using fs_free_loop_cases [of "fdir s" 0] by auto
      then have "\<forall>j < 512. dirent_used (fdir s ! j)" using len by auto
      moreover have "rc = -1" "s' = s" using run none(1) True by (auto simp: fs_write_def)
      ultimately show ?thesis using full none(2) len by auto
    next
      case False
      then obtain j where j: "j < 512" "fs_free_loop (fdir s) 0 = int j" "\<not> dirent_used (fdir s ! j)"
        using fs_free_loop_cases [of "fdir s" 0] len by auto
      show ?thesis
        by (rule ok [of j "fs_next_free s"]) (use run none j len in \<open>auto simp: fs_write_def Let_def\<close>)
    qed
  next
    case (some j)
    have uniq: "\<forall>a < 512. a \<noteq> j \<longrightarrow> dirent_used (fdir s ! a) \<longrightarrow> fs_key (d_name (fdir s ! a)) \<noteq> fs_key name"
      using dir_wfD(4) [OF w, of _ j] some len by (auto simp: apart_def)
    show ?thesis
      by (rule ok [of j "if sectors_of sz \<le> sectors_of (d_size (fdir s ! j)) then d_start (fdir s ! j)
            else fs_next_free_excl (int j) s"])
        (use run some len uniq in \<open>auto simp: fs_write_def Let_def\<close>)
  qed
qed

lemma length_content:
  assumes "disk_wf d" "entry_ok d e"
  shows "length (content d e) = unat (d_size e)"
proof -
  have ok: "disk_ok d (unat (d_start e)) (unat (sectors_of (d_size e)))"
    and small: "unat (d_size e) + 511 < 4294967296" using assms(2) by (simp_all add: entry_ok_def)
  have "unat (d_size e) \<le> (unat (d_size e) + 511) div 512 * 512"
    using div_mult_mod_eq [of "unat (d_size e) + 511" 512] mod_less_divisor [of 512 "unat (d_size e) + 511"]
    by linarith
  then show ?thesis
    using dsk.rds_length [OF assms(1) ok] unat_sectors_of [OF small] by (simp add: content_def)
qed

lemma take_sectors: "unat sz + 511 < 4294967296 \<Longrightarrow> take (unat sz) (take (unat (sectors_of sz) * 512) buf) = take (unat sz) buf"
proof -
  assume "unat sz + 511 < 4294967296"
  moreover have "unat sz \<le> (unat sz + 511) div 512 * 512"
    using div_mult_mod_eq [of "unat sz + 511" 512] mod_less_divisor [of 512 "unat sz + 511"] by linarith
  ultimately show ?thesis using unat_sectors_of [of sz] by (simp add: min_def)
qed

lemma fs_write_facts:
  assumes wf: "fs_wf s" and room: "fs_room s sz" and buf: "unat (sectors_of sz) * 512 \<le> length buf"
    and name: "name \<noteq> []" "length name \<le> 47" "0 \<notin> set name"
    and run: "fs_write name buf sz s = (rc, s')"
  shows "rc = 0 \<and> fs_wf s' \<and> fs_abs s' = (fs_abs s)(fs_key name \<mapsto> take (unat sz) buf) \<or>
    rc = -1 \<and> s' = s \<and> fs_abs s (fs_key name) = None \<and> (\<forall>j < 512. dirent_used (fdir s ! j))"
using wf run
proof (cases rule: fs_write_cases)
  case full
  then show ?thesis using fs_abs_None [of "dk s" s] wf by (simp add: fs_wf_def)
next
  case (ok i st)
  let ?n = "sectors_of sz" and ?p = "take (unat (sectors_of sz) * 512) buf"
  let ?d = "disk_write_sectors st ?n ?p (dk s)"
  let ?e = "(fdir s ! i)\<lparr>d_name := put_name 47 name, d_start := st, d_size := sz, d_flags := 0\<rparr>"
  have d: "disk_wf (dk s)" and w: "dir_wf (dk s) (fdir s)" using wf by (simp_all add: fs_wf_def)
  note P = write_place [OF wf room ok(2) ok(5)]
  note N = put_name_facts [OF name(2,3)]
  have pl: "length ?p = unat ?n * 512" using buf by simp
  have d1: "disk_wf ?d" "disk_ok ?d = disk_ok (dk s)"
    using dsk.wrs_inv [OF d P(2) pl] dsk.wrs_ok by auto
  have ent: "entry_ok (dk s) ?e" using P(1,2) room by (simp add: entry_ok_def fs_room_def)
  have ap: "apart ?e (fdir s ! j)" if "j < 512" "j \<noteq> i" "dirent_used (fdir s ! j)" for j
    using P(3) [OF that] ok(4) that N(3) by (auto simp: apart_def extent_end_def)
  have same: "content ?d (fdir s ! j) = content (dk s) (fdir s ! j)"
    if "j < 512" "j \<noteq> i" "dirent_used (fdir s ! j)" for j
    using content_other [OF d P(2) pl dir_wfD(3) [OF w that(1,3)] P(3) [OF that]] .
  have us: "dirent_used ?e" using N(4) name(1) by (simp add: dirent_used_def)
  have cont: "content ?d ?e = take (unat sz) buf"
    using dsk.rds_after_wrs [OF d P(2) pl] take_sectors [of sz buf] room by (simp add: content_def fs_room_def)
  have U: "fs_wf s'" "\<And>k. fs_abs s' k = (if dirent_used ?e \<and> k = fs_key (d_name ?e) then Some (content ?d ?e)
       else if dirent_used (fdir s ! i) \<and> k = fs_key (d_name (fdir s ! i)) then None else fs_abs s k)"
    using fs_update [OF wf ok(2) d1 _ ent ap same ok(6)] N(2) by simp_all
  have "fs_abs s' = (fs_abs s)(fs_key name \<mapsto> take (unat sz) buf)"
    using U(2) us cont ok(3) N(3) by (auto simp: fun_eq_iff)
  with ok(1) U(1) show ?thesis by simp
qed

text \<open>
  C1. \<open>fs_write\<close> refines the abstract file system. With room after the last extent, writing a file
  either stores exactly the caller's bytes under its name and changes nothing else that any
  name holds, or (only when the name is new and all 512 entries are taken) returns -1 with the
  file system untouched; the on-disk directory stays in step and extents stay disjoint.
\<close>

theorem fs_write_refines:
  assumes "fs_wf s" and "fs_room s sz" and "unat (sectors_of sz) * 512 \<le> length buf"
    and "name \<noteq> []" and "length name \<le> 47" and "0 \<notin> set name"
    and "fs_write name buf sz s = (rc, s')"
  shows "if fs_abs s (fs_key name) = None \<and> (\<forall>j < 512. dirent_used (fdir s ! j)) then rc = -1 \<and> s' = s
    else rc = 0 \<and> fs_wf s' \<and> fs_load_dir s' = s' \<and>
      fs_abs s' = (fs_abs s)(fs_key name \<mapsto> take (unat sz) buf)"
proof -
  have w: "dir_wf (dk s) (fdir s)" using assms(1) by (simp add: fs_wf_def)
  note F = fs_write_facts [OF assms]
  show ?thesis
  proof (cases "fs_abs s (fs_key name) = None \<and> (\<forall>j < 512. dirent_used (fdir s ! j))")
    case True
    have len: "length (fdir s) = 512" using dir_wfD(1) [OF w] .
    have "fs_find name s = -1"
      using True fs_abs_None [OF w] len by (cases rule: fs_find_cases [of name s]) auto
    moreover have "fs_free_loop (fdir s) 0 = -1"
      using True fs_free_loop_cases [of "fdir s" 0] len by auto
    ultimately show ?thesis using True assms(7) by (simp add: fs_write_def)
  next
    case False
    with F fs_load_dir_id show ?thesis by auto
  qed
qed

lemma fs_read_abs:
  assumes "fs_wf s"
  shows "fs_read name mx s =
    (case fs_abs s (fs_key name) of
       None \<Rightarrow> (-1, [])
     | Some c \<Rightarrow> if length c > unat mx then (-1, []) else (sint (of_nat (length c) :: u32), c))"
proof -
  have w: "dir_wf (dk s) (fdir s)" and d: "disk_wf (dk s)" using assms by (simp_all add: fs_wf_def)
  have len: "length (fdir s) = 512" using dir_wfD(1) [OF w] .
  show ?thesis
  proof (cases rule: fs_find_cases [of name s])
    case none
    then have "fs_abs s (fs_key name) = None" using fs_abs_None [OF w] len by auto
    with none(1) show ?thesis by (simp add: fs_read_def)
  next
    case (some j)
    then have j: "j < 512" using len by simp
    have "fs_abs s (fs_key name) = Some (content (dk s) (fdir s ! j))"
      using some j unfolding fs_abs_iff [OF w] by auto
    moreover have "length (content (dk s) (fdir s ! j)) = unat (d_size (fdir s ! j))"
      using length_content [OF d dir_wfD(3) [OF w j some(3)]] .
    ultimately show ?thesis
      using fs_read_found [OF assms some(1) j some(3)] by (simp add: word_less_nat_alt)
  qed
qed

text \<open>
  C2. \<open>fs_read\<close> refines lookup in the abstract file system: a name with no file gives -1, a file
  larger than the caller's limit gives -1 with nothing copied, and otherwise exactly the bytes
  of the file are copied and their number returned.
\<close>

theorem fs_read_refines:
  assumes "fs_wf s"
  shows "fs_read name mx s =
    (case fs_abs s (fs_key name) of
       None \<Rightarrow> (-1, [])
     | Some c \<Rightarrow> if length c > unat mx then (-1, []) else (sint (of_nat (length c) :: u32), c))"
  by (rule fs_read_abs [OF assms])

lemma fs_delete_abs:
  assumes "fs_wf s" and "fs_delete name s = (rc, s')"
  shows "if fs_abs s (fs_key name) = None then rc = -1 \<and> s' = s
    else rc = 0 \<and> fs_wf s' \<and> fs_abs s' = (fs_abs s)(fs_key name := None)"
proof -
  have w: "dir_wf (dk s) (fdir s)" and d: "disk_wf (dk s)" using assms(1) by (simp_all add: fs_wf_def)
  have len: "length (fdir s) = 512" using dir_wfD(1) [OF w] .
  show ?thesis
  proof (cases rule: fs_find_cases [of name s])
    case none
    then have "fs_abs s (fs_key name) = None" using fs_abs_None [OF w] len by auto
    with none(1) assms(2) show ?thesis by (simp add: fs_delete_def)
  next
    case (some j)
    then have j: "j < 512" using len by simp
    have ne: "fs_abs s (fs_key name) \<noteq> None"
      using some j fs_abs_None [OF w] by auto
    have s': "s' = fs_sync_dir (s\<lparr>dk := dk s, fdir := (fdir s)[j := zero_dirent]\<rparr>)" and rc: "rc = 0"
      using assms(2) some(1) by (simp_all add: fs_delete_def Let_def)
    have z: "\<not> dirent_used zero_dirent" "length (d_name zero_dirent) = 48"
      by (simp_all add: dirent_used_def zero_dirent_def)
    have "fs_wf s'" "\<And>k. fs_abs s' k = (if k = fs_key (d_name (fdir s ! j)) then None else fs_abs s k)"
      using fs_update [OF assms(1) j d refl z(2) _ _ _ s'] z(1) some(3) by simp_all
    with ne rc some(4) show ?thesis by (auto simp: fun_eq_iff)
  qed
qed

text \<open>
  C4. Deleting a file removes its name and nothing else; deleting a name that is not there returns
  -1 and changes nothing.
\<close>

theorem fs_delete_refines:
  assumes "fs_wf s" and "fs_delete name s = (rc, s')"
  shows "if fs_abs s (fs_key name) = None then rc = -1 \<and> s' = s
    else rc = 0 \<and> fs_wf s' \<and> fs_abs s' = (fs_abs s)(fs_key name := None)"
  by (rule fs_delete_abs [OF assms])

lemma fs_rename_abs:
  assumes "fs_wf s" and "new \<noteq> []" and "length new \<le> 47" and "0 \<notin> set new"
    and "fs_rename old new s = (rc, s')"
  shows "case fs_abs s (fs_key old) of
      None \<Rightarrow> rc = -1 \<and> s' = s
    | Some c \<Rightarrow> if fs_abs s (fs_key new) \<noteq> None then rc = -1 \<and> s' = s
        else rc = 0 \<and> fs_wf s' \<and> fs_abs s' = (fs_abs s)(fs_key old := None, fs_key new \<mapsto> c)"
proof -
  have w: "dir_wf (dk s) (fdir s)" and d: "disk_wf (dk s)" using assms(1) by (simp_all add: fs_wf_def)
  have len: "length (fdir s) = 512" using dir_wfD(1) [OF w] .
  note N = put_name_facts [OF assms(3,4)]
  show ?thesis
  proof (cases rule: fs_find_cases [of old s])
    case none
    then have "fs_abs s (fs_key old) = None" using fs_abs_None [OF w] len by auto
    with none(1) assms(5) show ?thesis by (simp add: fs_rename_def)
  next
    case old: (some i)
    then have i: "i < 512" using len by simp
    have c: "fs_abs s (fs_key old) = Some (content (dk s) (fdir s ! i))"
      using old i unfolding fs_abs_iff [OF w] by auto
    show ?thesis
    proof (cases rule: fs_find_cases [of new s])
      case (some j)
      then have "fs_abs s (fs_key new) \<noteq> None" using fs_abs_None [OF w] len by auto
      with c some(1) old(1) assms(5) show ?thesis by (simp add: fs_rename_def)
    next
      case none
      then have n: "fs_abs s (fs_key new) = None" using fs_abs_None [OF w] len by auto
      let ?e = "(fdir s ! i)\<lparr>d_name := put_name 47 new\<rparr>"
      have s': "s' = fs_sync_dir (s\<lparr>dk := dk s, fdir := (fdir s)[i := ?e]\<rparr>)" and rc: "rc = 0"
        using assms(5) none(1) old(1) by (simp_all add: fs_rename_def Let_def)
      have ent: "entry_ok (dk s) ?e" using dir_wfD(3) [OF w i old(3)] by (simp add: entry_ok_def)
      have ap: "apart ?e (fdir s ! j)" if "j < 512" "j \<noteq> i" "dirent_used (fdir s ! j)" for j
        using dir_wfD(4) [OF w i that(1)] that old(3) none(2) [of j] len N(3)
        by (auto simp: apart_def extent_end_def)
      have us: "dirent_used ?e" using N(4) assms(2) by (simp add: dirent_used_def)
      have "fs_wf s'" and A: "\<And>k. fs_abs s' k = (if dirent_used ?e \<and> k = fs_key (d_name ?e) then Some (content (dk s) ?e)
         else if dirent_used (fdir s ! i) \<and> k = fs_key (d_name (fdir s ! i)) then None else fs_abs s k)"
        using fs_update [OF assms(1) i d refl _ ent ap refl s'] N(2) by simp_all
      moreover have "content (dk s) ?e = content (dk s) (fdir s ! i)" by (simp add: content_def)
      ultimately have "fs_abs s' = (fs_abs s)(fs_key old := None, fs_key new \<mapsto> content (dk s) (fdir s ! i))"
        using us N(3) old(3,4) by (auto simp: fun_eq_iff)
      with \<open>fs_wf s'\<close> rc c n show ?thesis by simp
    qed
  qed
qed

text \<open>
  C3. Renaming moves the contents to the new name. A missing source, or a target name that is
  already taken, gives -1 and changes nothing.
\<close>

theorem fs_rename_refines:
  assumes "fs_wf s" and "new \<noteq> []" and "length new \<le> 47" and "0 \<notin> set new"
    and "fs_rename old new s = (rc, s')"
  shows "case fs_abs s (fs_key old) of
      None \<Rightarrow> rc = -1 \<and> s' = s
    | Some c \<Rightarrow> if fs_abs s (fs_key new) \<noteq> None then rc = -1 \<and> s' = s
        else rc = 0 \<and> fs_wf s' \<and> fs_abs s' = (fs_abs s)(fs_key old := None, fs_key new \<mapsto> c)"
  by (rule fs_rename_abs [OF assms])

subsection \<open>A file system to run on\<close>

definition demo_fs :: fs where
  "demo_fs = \<lparr>dk = demo_disk, fdir = replicate 512 zero_dirent\<rparr>"

definition demo_name :: "u8 list" where "demo_name = [0x41, 0x2E, 0x54, 0x58, 0x54]"
definition demo_name2 :: "u8 list" where "demo_name2 = [0x42]"

lemma zero_dirent_bytes: "dirent_bytes zero_dirent = replicate 64 0"
proof -
  have "le32_bytes 0 = replicate 4 0" by (simp add: le32_bytes_def numeral_eq_Suc)
  then show ?thesis by (simp add: dirent_bytes_def zero_dirent_def flip: replicate_add)
qed

lemma mem_load_zero: "mem_load (\<lambda>_. 0) a n = replicate n 0"
  by (induction n arbitrary: a) auto

lemma concat_replicate_zero: "concat (replicate n (replicate k 0)) = replicate (n * k) 0"
  by (induction n) (simp_all add: replicate_add)

lemma demo_fs_wf: "fs_wf demo_fs"
proof -
  have d: "disk_wf demo_disk" using demo_disk_wf(1) by (simp add: disk_wf_def rd_wf_def)
  have "\<not> dirent_used zero_dirent" by (simp add: dirent_used_def zero_dirent_def)
  then have w: "dir_wf demo_disk (replicate 512 zero_dirent)"
    by (simp add: dir_wf_def) (simp add: zero_dirent_def)
  have "disk_read_sectors 137 64 demo_disk = replicate 32768 0"
    by (simp add: disk_read_sectors_def demo_disk_def rd_range_ok_def mem_load_zero)
  moreover have "concat (map dirent_bytes (replicate 512 zero_dirent)) = replicate 32768 0"
    by (simp add: zero_dirent_bytes concat_replicate_zero)
  moreover have "disk_ok demo_disk 137 64" by (simp add: disk_ok_def rd_range_def demo_disk_def)
  ultimately show ?thesis using d w by (simp add: fs_wf_def demo_fs_def)
qed

lemma next_free_unused:
  "(\<forall>e \<in> set es. \<not> dirent_used e) \<Longrightarrow> fs_next_free_loop es i x mx = mx"
  by (induction es arbitrary: i) auto

lemma demo_fs_room: "fs_room demo_fs 5"
proof -
  have "\<not> dirent_used zero_dirent" by (simp add: dirent_used_def zero_dirent_def)
  then have "fs_next_free demo_fs = 201"
    by (simp add: fs_next_free_def demo_fs_def next_free_unused)
  then show ?thesis
    by (simp add: fs_room_def sectors_of_def demo_fs_def disk_ok_def rd_range_def demo_disk_def)
qed

lemma demo_fs_abs: "fs_abs demo_fs k = None"
proof -
  have "dir_wf (dk demo_fs) (fdir demo_fs)" using demo_fs_wf by (simp add: fs_wf_def)
  from fs_abs_None [OF this, of k] show ?thesis by (simp add: demo_fs_def dirent_used_def zero_dirent_def)
qed

lemma demo_names: "demo_name \<noteq> []" "length demo_name \<le> 47" "0 \<notin> set demo_name"
  "demo_name2 \<noteq> []" "length demo_name2 \<le> 47" "0 \<notin> set demo_name2"
  "fs_key demo_name = demo_name" "fs_key demo_name2 = demo_name2" "demo_name \<noteq> demo_name2"
  by (simp_all add: demo_name_def demo_name2_def fs_key_def upcase_def)

text \<open>The same file system with one five-byte file.\<close>

definition demo_fs1 :: fs where
  "demo_fs1 = snd (fs_write demo_name (replicate 512 7) 5 demo_fs)"

lemma demo_fs1_facts: "fs_wf demo_fs1" "fs_abs demo_fs1 = [demo_name \<mapsto> replicate 5 7]"
proof -
  have buf: "unat (sectors_of 5) * 512 \<le> length (replicate 512 (7 :: u8))" by (simp add: sectors_of_def)
  have ne: "\<not> (\<forall>j < 512. dirent_used (fdir demo_fs ! j))"
    by (auto simp: demo_fs_def dirent_used_def zero_dirent_def intro!: exI [of _ 0])
  have none: "fs_abs demo_fs = Map.empty" by (rule ext) (rule demo_fs_abs)
  show "fs_wf demo_fs1" "fs_abs demo_fs1 = [demo_name \<mapsto> replicate 5 7]"
    using fs_write_facts [OF demo_fs_wf demo_fs_room buf demo_names(1-3) prod.collapse [symmetric]]
      ne none demo_names(7) by (simp_all add: demo_fs1_def)
qed

theorem fs_write_refines_witness:
  "fst (fs_write demo_name (replicate 512 7) 5 demo_fs) = 0 \<and>
   fs_abs (snd (fs_write demo_name (replicate 512 7) 5 demo_fs)) demo_name = Some (replicate 5 7)"
proof -
  have buf: "unat (sectors_of 5) * 512 \<le> length (replicate 512 (7 :: u8))" by (simp add: sectors_of_def)
  have ne: "\<not> (\<forall>j < 512. dirent_used (fdir demo_fs ! j))"
    by (auto simp: demo_fs_def dirent_used_def zero_dirent_def intro!: exI [of _ 0])
  show ?thesis
    using fs_write_refines [OF demo_fs_wf demo_fs_room buf demo_names(1-3) prod.collapse [symmetric]]
      ne demo_names(7) by simp
qed

theorem fs_read_refines_witness:
  "fs_read demo_name 100 demo_fs1 = (5, replicate 5 7) \<and> fs_read demo_name 4 demo_fs1 = (-1, []) \<and>
   fs_read demo_name2 100 demo_fs1 = (-1, [])"
  using fs_read_refines [OF demo_fs1_facts(1), of demo_name 100] fs_read_refines [OF demo_fs1_facts(1), of demo_name 4]
    fs_read_refines [OF demo_fs1_facts(1), of demo_name2 100] demo_names
  by (simp add: demo_fs1_facts(2))

theorem fs_delete_refines_witness:
  "fst (fs_delete demo_name demo_fs1) = 0 \<and> fs_abs (snd (fs_delete demo_name demo_fs1)) demo_name = None \<and>
   fst (fs_delete demo_name2 demo_fs1) = -1"
  using fs_delete_refines [OF demo_fs1_facts(1) prod.collapse [symmetric], of demo_name]
    fs_delete_refines [OF demo_fs1_facts(1) prod.collapse [symmetric], of demo_name2] demo_names
  by (simp add: demo_fs1_facts(2))

theorem fs_rename_refines_witness:
  "fst (fs_rename demo_name demo_name2 demo_fs1) = 0 \<and>
   fs_abs (snd (fs_rename demo_name demo_name2 demo_fs1)) demo_name2 = Some (replicate 5 7)"
  using fs_rename_refines [OF demo_fs1_facts(1) demo_names(4-6) prod.collapse [symmetric], of demo_name] demo_names
  by (simp add: demo_fs1_facts(2))

end
