(* ===== verification/OpenFiles.thy ===== *)
theory OpenFiles
  imports FileSystem
begin

text \<open>
  Open files of kernel/kernel.c: the table of eight descriptors, each with a one-sector buffer,
  and the open, read, write, close and seek system calls on them.
\<close>

definition OPEN_MAX :: nat where "OPEN_MAX = 8"

record open_file =
  of_used :: bool
  of_mode :: int
  of_dir_index :: int
  of_start :: u32
  of_size :: u32
  of_pos :: u32
  cur_lba :: u32
  sector_valid :: bool
  sector_dirty :: bool
  sector :: "u8 list"

definition zero_file :: open_file where
  "zero_file = \<lparr>of_used = False, of_mode = 0, of_dir_index = 0, of_start = 0, of_size = 0, of_pos = 0,
     cur_lba = 0, sector_valid = False, sector_dirty = False, sector = replicate 512 0\<rparr>"

record files =
  fsys :: fs
  ofiles :: "open_file list"

subsection \<open>Descriptors and the sector buffer\<close>

fun alloc_fd_loop :: "open_file list \<Rightarrow> int \<Rightarrow> int" where
  "alloc_fd_loop [] i = -1"
| "alloc_fd_loop (f # fs) i = (if \<not> of_used f then i else alloc_fd_loop fs (i + 1))"

definition alloc_fd :: "files \<Rightarrow> int" where
  "alloc_fd s = alloc_fd_loop (ofiles s) 0"

text \<open>\<open>get_ofile\<close>: the slot of a descriptor, as the index the returned pointer stands for.\<close>

definition get_ofile :: "int \<Rightarrow> files \<Rightarrow> nat option" where
  "get_ofile fd s =
     (let idx = fd - 3 in
      if idx < 0 \<or> idx \<ge> int OPEN_MAX then None
      else if \<not> of_used (ofiles s ! nat idx) then None
      else Some (nat idx))"

definition ofile_flush :: "open_file \<Rightarrow> disk \<Rightarrow> open_file \<times> disk" where
  "ofile_flush f d =
     (if \<not> sector_valid f \<or> \<not> sector_dirty f then (f, d)
      else (f\<lparr>sector_dirty := False\<rparr>, disk_write_sector (cur_lba f) (sector f) d))"

definition ofile_load_sector :: "open_file \<Rightarrow> u32 \<Rightarrow> disk \<Rightarrow> open_file \<times> disk" where
  "ofile_load_sector f lba d =
     (if sector_valid f \<and> cur_lba f = lba then (f, d)
      else
        let (f, d) = ofile_flush f d;
            f = f\<lparr>cur_lba := lba, sector_valid := True, sector_dirty := False\<rparr>
        in if of_mode f = 1 then
             (let file_sectors = of_size f div 512 + (if of_size f mod 512 \<noteq> 0 then 1 else 0)
              in if lba \<ge> file_sectors then (f\<lparr>sector := replicate 512 0\<rparr>, d)
                 else (f\<lparr>sector := disk_read_sector lba d\<rparr>, d))
           else (f\<lparr>sector := disk_read_sector lba d\<rparr>, d))"

subsection \<open>System calls\<close>

text \<open>The body of \<open>SYS_OPEN\<close> after the name has been copied in and normalised to \<open>kname\<close>.\<close>

definition file_open :: "u8 list \<Rightarrow> int \<Rightarrow> files \<Rightarrow> u32 \<times> files" where
  "file_open kname mode s =
     (let fd = alloc_fd s in
      if fd < 0 then (ERR, s)
      else
        let f = zero_file;
            s = s\<lparr>ofiles := (ofiles s)[nat fd := f]\<rparr>;
            v = fsys s;
            idx = fs_find kname v
        in if mode = 0 then
             (if idx < 0 then (ERR, s)
              else let e = fdir v ! nat idx;
                       f = f\<lparr>of_used := True, of_mode := 0, of_dir_index := idx, of_start := d_start e,
                             of_size := d_size e, of_pos := 0\<rparr>
                   in (of_int (fd + 3), s\<lparr>ofiles := (ofiles s)[nat fd := f]\<rparr>))
           else if mode = 1 then
             (let existing_idx = idx;
                  idx = (if idx < 0 then fs_free_loop (fdir v) 0 else idx)
              in if idx < 0 then (ERR, s)
                 else
                   let start = (if existing_idx \<ge> 0 then fs_next_free_excl existing_idx v else fs_next_free v);
                       e = (fdir v ! nat idx)\<lparr>d_name := put_name 15 kname, d_start := start, d_size := 0, d_flags := 0\<rparr>;
                       v = fs_sync_dir (v\<lparr>fdir := (fdir v)[nat idx := e]\<rparr>);
                       f = f\<lparr>of_used := True, of_mode := 1, of_dir_index := idx, of_start := start,
                             of_size := 0, of_pos := 0, sector_valid := False, sector_dirty := False\<rparr>
                   in (of_int (fd + 3), s\<lparr>fsys := v, ofiles := (ofiles s)[nat fd := f]\<rparr>))
           else (ERR, s))"

text \<open>The copy loop of \<open>SYS_FREAD\<close>: \<open>n\<close> bytes still wanted; the bytes stored in the caller's buffer.\<close>

function fread_loop :: "open_file \<Rightarrow> nat \<Rightarrow> disk \<Rightarrow> u8 list \<times> open_file \<times> disk" where
  "fread_loop f n d =
     (if n = 0 then ([], f, d)
      else
        let lba = of_start f + of_pos f div 512;
            sec_off = unat (of_pos f mod 512);
            (f, d) = ofile_load_sector f lba d;
            chunk = min (512 - sec_off) n;
            got = take chunk (drop sec_off (sector f));
            (rest, f, d) = fread_loop (f\<lparr>of_pos := of_pos f + of_nat chunk\<rparr>) (n - chunk) d
        in (got @ rest, f, d))"
  by pat_completeness auto
termination
proof (relation "measure (\<lambda>(f, n, d). n)", goal_cases)
  case (2 f n d lba sec_off f' d' chunk got)
  have "unat (of_pos f mod 512) < 512" by (simp add: unat_mod)
  with 2 show ?case by simp
qed simp

text \<open>The copy loop of \<open>SYS_FWRITE\<close> over the bytes still to be written.\<close>

function fwrite_loop :: "open_file \<Rightarrow> u8 list \<Rightarrow> disk \<Rightarrow> open_file \<times> disk" where
  "fwrite_loop f data d =
     (if data = [] then (f, d)
      else
        let lba = of_start f + of_pos f div 512;
            sec_off = unat (of_pos f mod 512);
            (f, d) = ofile_load_sector f lba d;
            chunk = min (512 - sec_off) (length data);
            f = f\<lparr>sector := arr_put (sector f) sec_off (take chunk data), sector_dirty := True,
                  of_pos := of_pos f + of_nat chunk\<rparr>;
            f = (if of_pos f > of_size f then f\<lparr>of_size := of_pos f\<rparr> else f);
            (f, d) = (if sec_off + chunk = 512
                      then (let (f, d) = ofile_flush f d in (f\<lparr>sector_valid := False\<rparr>, d))
                      else (f, d))
        in fwrite_loop f (drop chunk data) d)"
  by pat_completeness auto
termination
proof (relation "measure (\<lambda>(f, data, d). length data)", goal_cases)
  case (2 f data d)
  have "unat (of_pos f mod 512) < 512" by (simp add: unat_mod)
  with 2 show ?case by (simp add: length_greater_0_conv [symmetric] del: length_greater_0_conv)
qed simp

declare fread_loop.simps [simp del] fwrite_loop.simps [simp del]

definition set_file :: "nat \<Rightarrow> open_file \<Rightarrow> disk \<Rightarrow> files \<Rightarrow> files" where
  "set_file i f d s = s\<lparr>fsys := (fsys s)\<lparr>dk := d\<rparr>, ofiles := (ofiles s)[i := f]\<rparr>"

definition file_read :: "int \<Rightarrow> u32 \<Rightarrow> files \<Rightarrow> u32 \<times> u8 list \<times> files" where
  "file_read fd len s =
     (case get_ofile fd s of
        None \<Rightarrow> (ERR, [], s)
      | Some i \<Rightarrow>
          (let f = ofiles s ! i in
           if of_mode f \<noteq> 0 then (ERR, [], s)
           else if len = 0 then (0, [], s)
           else if of_pos f \<ge> of_size f then (0, [], s)
           else let remaining = of_size f - of_pos f;
                    len = (if len > remaining then remaining else len);
                    (out, f, d) = fread_loop f (unat len) (dk (fsys s))
                in (len, out, set_file i f d s)))"

definition file_write :: "int \<Rightarrow> u8 list \<Rightarrow> files \<Rightarrow> u32 \<times> files" where
  "file_write fd data s =
     (case get_ofile fd s of
        None \<Rightarrow> (ERR, s)
      | Some i \<Rightarrow>
          (let f = ofiles s ! i in
           if of_mode f \<noteq> 1 then (ERR, s)
           else if data = [] then (0, s)
           else let (f, d) = fwrite_loop f data (dk (fsys s))
                in (of_nat (length data), set_file i f d s)))"

definition file_close :: "int \<Rightarrow> files \<Rightarrow> u32 \<times> files" where
  "file_close fd s =
     (case get_ofile fd s of
        None \<Rightarrow> (ERR, s)
      | Some i \<Rightarrow>
          (let f = ofiles s ! i;
               s = (if of_mode f = 1 then
                      (let (f, d) = ofile_flush f (dk (fsys s));
                           v = (fsys s)\<lparr>dk := d\<rparr>;
                           j = nat (of_dir_index f);
                           e = (fdir v ! j)\<lparr>d_start := of_start f, d_size := of_size f, d_flags := 0\<rparr>
                       in s\<lparr>fsys := fs_sync_dir (v\<lparr>fdir := (fdir v)[j := e]\<rparr>)\<rparr>)
                    else s)
           in (0, s\<lparr>ofiles := (ofiles s)[i := zero_file]\<rparr>)))"

definition file_seek :: "int \<Rightarrow> int \<Rightarrow> files \<Rightarrow> u32 \<times> files" where
  "file_seek fd pos s =
     (case get_ofile fd s of
        None \<Rightarrow> (ERR, s)
      | Some i \<Rightarrow>
          (let f = ofiles s ! i;
               (f, d) = (if of_mode f = 1 then ofile_flush f (dk (fsys s)) else (f, dk (fsys s)));
               p = (if pos < 0 then 0 else (of_int pos :: u32));
               p = (if p > of_size f then of_size f else p);
               f = f\<lparr>of_pos := p, sector_valid := False, sector_dirty := False\<rparr>
           in (p, set_file i f d s)))"

subsection \<open>Sequential writing\<close>

definition sectors :: "disk \<Rightarrow> nat \<Rightarrow> nat \<Rightarrow> u8 list" where
  "sectors d a n = concat (map (disk_sector d) [a..<a + n])"

text \<open>Only sectors of \<open>[a, a + n)\<close> differ.\<close>

definition same_outside :: "nat \<Rightarrow> nat \<Rightarrow> disk \<Rightarrow> disk \<Rightarrow> bool" where
  "same_outside a n d d' \<longleftrightarrow> disk_wf d' \<and> disk_ok d' = disk_ok d \<and>
     (\<forall>i. disk_ok d i 1 \<longrightarrow> \<not> (a \<le> i \<and> i < a + n) \<longrightarrow> disk_sector d' i = disk_sector d i)"

lemma same_outside_refl: "disk_wf d \<Longrightarrow> same_outside a n d d"
  by (simp add: same_outside_def)

lemma same_outside_trans: "same_outside a n d d' \<Longrightarrow> same_outside a n d' d'' \<Longrightarrow> same_outside a n d d''"
  by (simp add: same_outside_def)

lemma unat_1_u32 [simp]: "unat (1 :: u32) = 1" by simp

lemma disk_write_sector_facts:
  assumes "disk_wf d" "disk_ok d (unat l) 1" "length b = 512"
  shows "disk_wf (disk_write_sector l b d)" "disk_ok (disk_write_sector l b d) = disk_ok d"
    and "disk_ok d i 1 \<Longrightarrow> disk_sector (disk_write_sector l b d) i = (if i = unat l then b else disk_sector d i)"
proof -
  have ok: "disk_ok d (unat l) (unat (1 :: u32))" and len: "length b = unat (1 :: u32) * 512"
    using assms(2,3) by simp_all
  show "disk_wf (disk_write_sector l b d)" "disk_ok (disk_write_sector l b d) = disk_ok d"
    unfolding disk_write_sector_def using dsk.wrs_inv [OF assms(1) ok len] dsk.wrs_ok by simp_all
  show "disk_sector (disk_write_sector l b d) i = (if i = unat l then b else disk_sector d i)"
    if "disk_ok d i 1"
    using dsk.wrs_sector [OF assms(1) ok len that] assms(3)
    unfolding disk_write_sector_def by auto
qed

lemma disk_read_sector_eq:
  assumes "disk_wf d" "disk_ok d (unat l) 1"
  shows "disk_read_sector l d = disk_sector d (unat l)" "length (disk_read_sector l d) = 512"
  using dsk.rds_eq [OF assms(1), of l 1] dsk.sector_length [OF assms] assms(2)
  by (simp_all add: disk_read_sector_def)

lemma write_same_outside:
  assumes "disk_wf d" "disk_ok d (unat l) 1" "length b = 512" "a \<le> unat l" "unat l < a + n"
  shows "same_outside a n d (disk_write_sector l b d)"
  using disk_write_sector_facts [OF assms(1-3)] assms(4,5) by (auto simp: same_outside_def)

lemma sectors_grow:
  "sectors d a (q + 1) = sectors d a q @ disk_sector d (a + q)"
  by (simp add: sectors_def)

lemma sectors_snoc:
  assumes "disk_wf d" "disk_ok d a (q + 1)" "unat l = a + q" "length b = 512"
  shows "sectors (disk_write_sector l b d) a (q + 1) = sectors d a q @ b"
proof -
  have okl: "disk_ok d (unat l) 1" using dsk.ok_sub [OF assms(2), of "a + q" 1] assms(3) by simp
  note F = disk_write_sector_facts [OF assms(1) okl assms(4)]
  have "map (disk_sector (disk_write_sector l b d)) [a..<a + q] = map (disk_sector d) [a..<a + q]"
    using F(3) dsk.ok_sub [OF assms(2), of _ 1] assms(3) by auto
  then have "sectors (disk_write_sector l b d) a q = sectors d a q" unfolding sectors_def by (rule arg_cong)
  moreover have "disk_sector (disk_write_sector l b d) (a + q) = b" using F(3) [of "a + q"] okl assms(3) by simp
  ultimately show ?thesis unfolding sectors_grow by simp
qed

lemma length_sectors: "disk_wf d \<Longrightarrow> disk_ok d a n \<Longrightarrow> length (sectors d a n) = n * 512"
proof (induction n)
  case (Suc n)
  then have "disk_ok d a n" "disk_ok d (a + n) 1" using dsk.ok_sub [OF Suc.prems(2)] by auto
  with Suc dsk.sector_length show ?case by (simp add: sectors_def)
qed (simp add: sectors_def)

text \<open>
  A file being written front to back: the complete sectors are on disk, the bytes of the
  incomplete one are in the dirty buffer.
\<close>

definition wr_inv :: "open_file \<Rightarrow> disk \<Rightarrow> u32 \<Rightarrow> u8 list \<Rightarrow> bool" where
  "wr_inv f d st data \<longleftrightarrow> of_used f \<and> of_mode f = 1 \<and> of_start f = st \<and>
     of_size f = of_nat (length data) \<and> of_pos f = of_nat (length data) \<and> length (sector f) = 512 \<and>
     sectors d (unat st) (length data div 512) = take (length data div 512 * 512) data \<and>
     (if length data mod 512 = 0 then \<not> sector_valid f
      else sector_valid f \<and> sector_dirty f \<and> cur_lba f = st + of_nat (length data div 512) \<and>
        take (length data mod 512) (sector f) = drop (length data div 512 * 512) data)"

text \<open>The buffer after loading the sector the next byte goes to.\<close>

lemma wr_inv_load:
  assumes inv: "wr_inv f d st data" and d: "disk_wf d"
    and ok: "disk_ok d (unat st) (length data div 512 + 1)" and small: "length data < 4294966784"
  obtains g where "ofile_load_sector f (st + of_nat (length data div 512)) d = (g, d)"
    "length (sector g) = 512" "cur_lba g = st + of_nat (length data div 512)" "sector_valid g"
    "take (length data mod 512) (sector g) = drop (length data div 512 * 512) data"
    "of_used g" "of_mode g = 1" "of_start g = st" "of_size g = of_size f" "of_pos g = of_pos f"
    "of_dir_index g = of_dir_index f"
proof (cases "length data mod 512 = 0")
  case False
  with inv have "ofile_load_sector f (st + of_nat (length data div 512)) d = (f, d)"
    by (simp add: wr_inv_def ofile_load_sector_def)
  then show ?thesis by (rule that) (use inv False in \<open>simp_all add: wr_inv_def\<close>)
next
  case True
  let ?l = "st + of_nat (length data div 512) :: u32"
  have b: "unat st + length data div 512 < 4294967296"
    using disk_ok_bound [OF d ok] by simp
  have "unat ?l = unat st + length data div 512"
    using b by (subst unat_add32) (simp_all add: unat_of_nat32)
  then have "disk_ok d (unat ?l) 1" using dsk.ok_sub [OF ok, of "unat ?l" 1] by simp
  note len = disk_read_sector_eq(2) [OF d this]
  have e: "drop (length data div 512 * 512) data = []" using True by auto
  have nv: "\<not> sector_valid f" using inv True by (simp add: wr_inv_def)
  define g where "g = fst (ofile_load_sector f ?l d)"
  have "ofile_load_sector f ?l d = (g, d)"
    using nv by (auto simp: g_def ofile_load_sector_def ofile_flush_def Let_def)
  then show ?thesis
    by (rule that) (use inv nv len True e in \<open>auto simp: g_def wr_inv_def ofile_load_sector_def ofile_flush_def Let_def\<close>)
qed

text \<open>One turn of the write loop.\<close>

definition fwrite_step :: "open_file \<Rightarrow> u8 list \<Rightarrow> disk \<Rightarrow> nat \<times> open_file \<times> disk" where
  "fwrite_step f data d =
     (let lba = of_start f + of_pos f div 512;
          sec_off = unat (of_pos f mod 512);
          (f, d) = ofile_load_sector f lba d;
          chunk = min (512 - sec_off) (length data);
          f = f\<lparr>sector := arr_put (sector f) sec_off (take chunk data), sector_dirty := True,
                of_pos := of_pos f + of_nat chunk\<rparr>;
          f = (if of_pos f > of_size f then f\<lparr>of_size := of_pos f\<rparr> else f);
          (f, d) = (if sec_off + chunk = 512
                    then (let (f, d) = ofile_flush f d in (f\<lparr>sector_valid := False\<rparr>, d))
                    else (f, d))
      in (chunk, f, d))"

lemma fwrite_loop_step:
  "data \<noteq> [] \<Longrightarrow> fwrite_loop f data d =
     (let (chunk, f, d) = fwrite_step f data d in fwrite_loop f (drop chunk data) d)"
  by (subst fwrite_loop.simps) (auto simp: fwrite_step_def Let_def split_beta)

lemma wr_inv_step:
  assumes inv: "wr_inv f d st data" and d: "disk_wf d" and x: "x \<noteq> []"
    and ok: "disk_ok d (unat st) N" and fits: "(length data + length x + 511) div 512 \<le> N"
    and small: "length data + length x < 4294966784"
    and run: "fwrite_step f x d = (chunk, f', d')"
  shows "0 < chunk \<and> chunk \<le> length x \<and> wr_inv f' d' st (data @ take chunk x) \<and>
    same_outside (unat st) N d d' \<and> of_dir_index f' = of_dir_index f"
proof -
  define n where "n = length data"
  define q where "q = n div 512"
  define r where "r = n mod 512"
  define c where "c = min (512 - r) (length x)"
  have r512: "r < 512" and nqr: "n = q * 512 + r" by (simp_all add: r_def q_def)
  have c: "0 < c" "c \<le> length x" "r + c \<le> 512" using x r512 by (auto simp: c_def)
  have qN: "q + 1 \<le> N" using fits x unfolding n_def [symmetric] nqr by (cases x) auto
  have okq: "disk_ok d (unat st) (q + 1)" using dsk.ok_sub [OF ok, of "unat st" "q + 1"] qN by simp
  have pos: "of_pos f = of_nat n" and siz: "of_size f = of_nat n" and st: "of_start f = st"
    and old: "sectors d (unat st) q = take (q * 512) data"
    using inv by (simp_all add: wr_inv_def n_def q_def)
  have n32: "n < 4294966784" using small by (simp add: n_def)
  have un: "unat (of_nat n :: u32) = n" using n32 by (simp add: unat_of_nat32)
  have "n div 512 < 4294967296" using n32 div_le_dividend [of n 512] by linarith
  then have dv: "of_pos f div 512 = of_nat q" "unat (of_pos f mod 512) = r"
    using un by (simp_all add: pos q_def r_def unat_mod word_unat_eq_iff unat_div unat_of_nat32 n32)
  obtain g where g: "ofile_load_sector f (st + of_nat q) d = (g, d)" "length (sector g) = 512"
    "cur_lba g = st + of_nat q" "sector_valid g" "take r (sector g) = drop (q * 512) data"
    "of_used g" "of_mode g = 1" "of_start g = st" "of_size g = of_size f" "of_pos g = of_pos f"
    "of_dir_index g = of_dir_index f"
    using wr_inv_load [OF inv d] okq n32 unfolding n_def [symmetric] q_def [symmetric] r_def [symmetric] by blast
  define s' where "s' = arr_put (sector g) r (take c x)"
  have s'len: "length s' = 512" and s'pre: "take (r + c) s' = drop (q * 512) data @ take c x"
  proof -
    have "length (drop (q * 512) data) = r" using nqr by (simp add: n_def [symmetric])
    then show "length s' = 512" "take (r + c) s' = drop (q * 512) data @ take c x"
      using g(2,5) c r512 by (simp_all add: s'_def arr_put_def)
  qed
  define h where "h = g\<lparr>sector := s', sector_dirty := True, of_pos := of_nat (n + c), of_size := of_nat (n + c)\<rparr>"
  have grow: "of_nat (n + c) > (of_nat n :: u32)"
  proof -
    have "unat (of_nat (n + c) :: u32) = n + c"
      by (rule unat_of_nat32) (use small c n_def in linarith)
    then show ?thesis unfolding word_less_nat_alt using un c by simp
  qed
  note run1 = run [unfolded fwrite_step_def st dv Let_def g(1) prod.case, folded c_def, folded s'_def]
  define G where "G = g\<lparr>sector := s', sector_dirty := True, of_pos := of_pos g + of_nat c\<rparr>"
  have h: "(if of_pos G > of_size G then G\<lparr>of_size := of_pos G\<rparr> else G) = h"
    using grow by (simp add: G_def h_def g(9,10) pos siz)
  have run': "(chunk, f', d') = (if r + c = 512 then (c, (fst (ofile_flush h d))\<lparr>sector_valid := False\<rparr>, snd (ofile_flush h d)) else (c, h, d))"
    using run1 [folded G_def, unfolded h] by (simp add: split_beta split: if_splits)
  have ch: "chunk = c" using run' by (auto split: if_splits)
  have len': "length (data @ take c x) = n + c" using c by (simp add: n_def)
  have e: "n + c = q * 512 + (r + c)" using nqr by simp
  have app: "take (q * 512) (data @ take c x) = take (q * 512) data"
    using nqr by (simp add: n_def [symmetric])
  show ?thesis
  proof (cases "r + c = 512")
    case False
    then have f': "f' = h" "d' = d" using run' by simp_all
    have qr': "(n + c) div 512 = q" "(n + c) mod 512 = r + c" unfolding e using c(3) False by simp_all
    have "drop (q * 512) (data @ take c x) = drop (q * 512) data @ take c x"
      using nqr by (simp add: n_def [symmetric])
    then have "wr_inv h d st (data @ take c x)"
      using g s'len s'pre old app c(1) unfolding wr_inv_def len' qr' by (simp add: h_def)
    then show ?thesis using same_outside_refl [OF d] c f' ch g(11) by (simp add: h_def)
  next
    case True
    have full: "s' = drop (q * 512) data @ take c x" using s'pre s'len True by simp
    let ?l = "st + of_nat q :: u32"
    have ul: "unat ?l = unat st + q"
      using disk_ok_bound [OF d okq] by (subst unat_add32) (simp_all add: unat_of_nat32)
    have okl: "disk_ok d (unat ?l) 1" using dsk.ok_sub [OF okq, of "unat ?l" 1] ul by simp
    have fl: "ofile_flush h d = (h\<lparr>sector_dirty := False\<rparr>, disk_write_sector ?l s' d)"
      using g(3,4) by (simp add: ofile_flush_def h_def)
    then have f': "f' = h\<lparr>sector_dirty := False, sector_valid := False\<rparr>" "d' = disk_write_sector ?l s' d"
      using run' True by simp_all
    have qr': "(n + c) div 512 = q + 1" "(n + c) mod 512 = 0"
      unfolding e using True by simp_all
    have "sectors d' (unat st) (q + 1) = take (q * 512) data @ s'"
      using sectors_snoc [OF d okq ul s'len] old f'(2) by simp
    also have "\<dots> = take ((q + 1) * 512) (data @ take c x)"
    proof -
      have "length (data @ take c x) \<le> (q + 1) * 512" unfolding len' e using True by simp
      then have "take ((q + 1) * 512) (data @ take c x) = data @ take c x" by (rule take_all)
      then show ?thesis unfolding full by (simp flip: append_assoc)
    qed
    finally have "wr_inv f' d' st (data @ take c x)"
      using g s'len unfolding wr_inv_def len' qr' by (simp add: f'(1) h_def)
    moreover have "same_outside (unat st) N d d'"
      unfolding f'(2) by (rule write_same_outside [OF d okl s'len]) (use ul qN in simp_all)
    ultimately show ?thesis using c ch g(11) f'(1) by (simp add: h_def)
  qed
qed

lemma fwrite_loop_inv:
  assumes "wr_inv f d st data" "disk_wf d" "disk_ok d (unat st) N"
    and "(length data + length x + 511) div 512 \<le> N" "length data + length x < 4294966784"
    and "fwrite_loop f x d = (f', d')"
  shows "wr_inv f' d' st (data @ x) \<and> same_outside (unat st) N d d' \<and> of_dir_index f' = of_dir_index f"
  using assms
proof (induction "length x" arbitrary: f d data x rule: less_induct)
  case less
  show ?case
  proof (cases "x = []")
    case True
    with less.prems same_outside_refl show ?thesis by (simp add: fwrite_loop.simps)
  next
    case False
    obtain c g e where st: "fwrite_step f x d = (c, g, e)" using prod_cases3 by blast
    have S: "0 < c" "c \<le> length x" "wr_inv g e st (data @ take c x)" "same_outside (unat st) N d e"
      "of_dir_index g = of_dir_index f"
      using wr_inv_step [OF less.prems(1,2) False less.prems(3-5) st] by auto
    have e: "disk_wf e" "disk_ok e (unat st) N" using S(4) less.prems(3) by (simp_all add: same_outside_def)
    have len: "length (data @ take c x) + length (drop c x) = length data + length x" using S(2) by simp
    have run: "fwrite_loop g (drop c x) e = (f', d')"
      using less.prems(6) by (simp add: fwrite_loop_step [OF False] st)
    have "length (drop c x) < length x" using S(1,2) by simp
    from less.hyps [OF this S(3) e _ _ run, unfolded len] less.prems(4,5) same_outside_trans [OF S(4)] S(5)
    show ?thesis by auto
  qed
qed

text \<open>Flushing the buffer puts the last, partial sector on disk.\<close>

lemma wr_inv_flush:
  assumes inv: "wr_inv f d st data" and d: "disk_wf d" and ok: "disk_ok d (unat st) N"
    and fits: "(length data + 511) div 512 \<le> N" and run: "ofile_flush f d = (f', d')"
  shows "same_outside (unat st) N d d'" and "of_start f' = st" and "of_size f' = of_nat (length data)"
    and "of_dir_index f' = of_dir_index f"
    and "take (length data) (sectors d' (unat st) ((length data + 511) div 512)) = data"
proof -
  define q where "q = length data div 512"
  define r where "r = length data mod 512"
  have up: "(length data + 511) div 512 = q + (if r = 0 then 0 else 1)"
    unfolding q_def r_def by (rule ceil_512)
  have n: "length data = q * 512 + r" by (simp add: q_def r_def)
  show "of_start f' = st" "of_size f' = of_nat (length data)" "of_dir_index f' = of_dir_index f"
    using inv run by (auto simp: wr_inv_def ofile_flush_def split: if_splits)
  show "same_outside (unat st) N d d'"
    and "take (length data) (sectors d' (unat st) ((length data + 511) div 512)) = data"
  proof -
    have "same_outside (unat st) N d d' \<and> take (length data) (sectors d' (unat st) ((length data + 511) div 512)) = data"
    proof (cases "r = 0")
      case True
      then have "d' = d" using inv run by (simp add: wr_inv_def ofile_flush_def r_def)
      moreover have "sectors d (unat st) q = take (q * 512) data"
        using inv unfolding wr_inv_def q_def by blast
      moreover have "take (q * 512) data = data" using n True by (intro take_all) simp
      ultimately show ?thesis using same_outside_refl [OF d] True by (simp add: up)
    next
      case False
      let ?l = "st + of_nat q :: u32"
      have w: "sector_valid f" "sector_dirty f" "cur_lba f = ?l" "take r (sector f) = drop (q * 512) data"
        "length (sector f) = 512" "sectors d (unat st) q = take (q * 512) data"
        using inv False by (simp_all add: wr_inv_def q_def r_def)
      have d': "d' = disk_write_sector ?l (sector f) d" using run w by (simp add: ofile_flush_def)
      have okq: "disk_ok d (unat st) (q + 1)"
        using dsk.ok_sub [OF ok, of "unat st" "q + 1"] fits False by (simp add: up)
      have ul: "unat ?l = unat st + q"
        using disk_ok_bound [OF d okq] by (subst unat_add32) (simp_all add: unat_of_nat32)
      have okl: "disk_ok d (unat ?l) 1" using dsk.ok_sub [OF okq, of "unat ?l" 1] ul by simp
      have "sectors d' (unat st) (q + 1) = take (q * 512) data @ sector f"
        using sectors_snoc [OF d okq ul w(5)] w(6) d' by simp
      moreover have "length (take (q * 512) data) = q * 512" using n by simp
      ultimately have "take (length data) (sectors d' (unat st) (q + 1)) = take (q * 512) data @ take r (sector f)"
        using n by simp
      then have "take (length data) (sectors d' (unat st) (q + 1)) = data" using w(4) by simp
      moreover have "same_outside (unat st) N d d'"
        unfolding d' by (rule write_same_outside [OF d okl w(5)]) (use ul fits False up in simp_all)
      ultimately show ?thesis using False by (simp add: up)
    qed
    then show "same_outside (unat st) N d d'"
      and "take (length data) (sectors d' (unat st) ((length data + 511) div 512)) = data" by auto
  qed
qed

lemma content_same_outside:
  assumes "disk_wf d" "same_outside a n d d'" "entry_ok d e"
    and "extent_end e \<le> a \<or> a + n \<le> unat (d_start e)"
  shows "content d' e = content d e"
proof -
  have ok: "disk_ok d (unat (d_start e)) (unat (sectors_of (d_size e)))" using assms(3) by (simp add: entry_ok_def)
  have s: "disk_wf d'" "disk_ok d' = disk_ok d"
    "\<And>i. disk_ok d i 1 \<Longrightarrow> \<not> (a \<le> i \<and> i < a + n) \<Longrightarrow> disk_sector d' i = disk_sector d i"
    using assms(2) by (simp_all add: same_outside_def)
  have "disk_sector d' i = disk_sector d i"
    if "unat (d_start e) \<le> i" "i < unat (d_start e) + unat (sectors_of (d_size e))" for i
    using s(3) [of i] dsk.ok_sub [OF ok, of i 1] that assms(4) by (auto simp: extent_end_def)
  then have "disk_read_sectors (d_start e) (sectors_of (d_size e)) d' = disk_read_sectors (d_start e) (sectors_of (d_size e)) d"
    using dsk.rds_cong [OF assms(1) s(1) ok] ok s(2) by simp
  then show ?thesis by (simp add: content_def)
qed

subsection \<open>A write session: open, write, close\<close>

fun file_writes :: "int \<Rightarrow> u8 list list \<Rightarrow> files \<Rightarrow> files" where
  "file_writes fd [] s = s"
| "file_writes fd (x # xs) s = file_writes fd xs (snd (file_write fd x s))"

lemma alloc_fd_loop_cases:
  "(alloc_fd_loop fs i = -1 \<and> (\<forall>f \<in> set fs. of_used f)) \<or>
   (\<exists>j < length fs. alloc_fd_loop fs i = i + int j \<and> \<not> of_used (fs ! j))"
proof (induction fs arbitrary: i)
  case Nil
  then show ?case by simp
next
  case (Cons f fs)
  show ?case
  proof (cases "of_used f")
    case False
    then show ?thesis by (auto intro!: exI [of _ 0])
  next
    case True
    from Cons [of "i + 1"] show ?thesis
    proof (elim disjE exE conjE)
      fix j assume "j < length fs" "alloc_fd_loop fs (i + 1) = i + 1 + int j" "\<not> of_used (fs ! j)"
      then show ?thesis using True by (intro disjI2 exI [of _ "Suc j"]) simp
    qed (use True in auto)
  qed
qed

lemma put_name_15:
  assumes "length name \<le> 15" "0 \<notin> set name"
  shows "put_name 15 name = put_name 47 name"
proof -
  have "unat (strlen name) = length name" using assms by (simp add: strlen_eq unat_of_nat)
  then have "\<not> strlen name > 15" "\<not> strlen name > 47" using assms by (auto simp: word_less_nat_alt)
  then show ?thesis by (simp add: put_name_def)
qed

text \<open>What opening a file for writing does, when it succeeds: entry \<open>j\<close>, slot \<open>i\<close>, first sector \<open>st\<close>.\<close>

lemma file_open_write:
  assumes wf: "fs_wf (fsys s)" and len: "length (ofiles s) = 8"
    and run: "file_open name 1 s = (rc, s1)" and ok: "rc \<noteq> ERR"
  obtains i j st where "i < 8" "rc = of_nat (i + 3)" "j < 512"
    "dirent_used (fdir (fsys s) ! j) \<longrightarrow> fs_key (d_name (fdir (fsys s) ! j)) = fs_key name"
    "\<forall>k < 512. k \<noteq> j \<longrightarrow> dirent_used (fdir (fsys s) ! k) \<longrightarrow> fs_key (d_name (fdir (fsys s) ! k)) \<noteq> fs_key name"
    "st = fs_next_free (fsys s) \<or> st = fs_next_free_excl (int j) (fsys s)"
    "fsys s1 = fs_sync_dir ((fsys s)\<lparr>fdir := (fdir (fsys s))[j := (fdir (fsys s) ! j)
       \<lparr>d_name := put_name 15 name, d_start := st, d_size := 0, d_flags := 0\<rparr>]\<rparr>)"
    "ofiles s1 = (ofiles s)[i := zero_file\<lparr>of_used := True, of_mode := 1, of_dir_index := int j, of_start := st\<rparr>]"
proof -
  let ?v = "fsys s"
  have w: "dir_wf (dk ?v) (fdir ?v)" and dl: "length (fdir ?v) = 512"
    using wf dir_wfD(1) by (auto simp: fs_wf_def)
  obtain i where i: "i < 8" "alloc_fd s = int i"
    using run ok alloc_fd_loop_cases [of "ofiles s" 0] len
    by (auto simp: file_open_def alloc_fd_def)
  show ?thesis
  proof (cases rule: fs_find_cases [of name ?v])
    case none
    have "fs_free_loop (fdir ?v) 0 \<ge> 0"
      using run ok none(1) i by (auto simp: file_open_def Let_def split: if_splits)
    then obtain j where j: "j < 512" "fs_free_loop (fdir ?v) 0 = int j" "\<not> dirent_used (fdir ?v ! j)"
      using fs_free_loop_cases [of "fdir ?v" 0] dl by auto
    show ?thesis
      by (rule that [of i j "fs_next_free ?v"])
        (use run i j none dl in \<open>auto simp: file_open_def Let_def zero_file_def\<close>)
  next
    case (some j)
    have uniq: "\<forall>a < 512. a \<noteq> j \<longrightarrow> dirent_used (fdir ?v ! a) \<longrightarrow> fs_key (d_name (fdir ?v ! a)) \<noteq> fs_key name"
      using dir_wfD(4) [OF w, of _ j] some dl by (auto simp: apart_def)
    show ?thesis
      by (rule that [of i j "fs_next_free_excl (int j) ?v"])
        (use run i some uniq dl in \<open>auto simp: file_open_def Let_def zero_file_def\<close>)
  qed
qed

text \<open>
  A session in progress: slot \<open>i\<close> is writing \<open>data\<close> to the file of entry \<open>j\<close>, which started from
  the file system \<open>v\<close> and may use the \<open>N\<close> sectors from \<open>st\<close>.
\<close>

definition session :: "files \<Rightarrow> fs \<Rightarrow> nat \<Rightarrow> nat \<Rightarrow> u32 \<Rightarrow> nat \<Rightarrow> u8 list \<Rightarrow> bool" where
  "session s v i j st N data \<longleftrightarrow> i < 8 \<and> length (ofiles s) = 8 \<and> fdir (fsys s) = fdir v \<and>
     wr_inv (ofiles s ! i) (dk (fsys s)) st data \<and> of_dir_index (ofiles s ! i) = int j \<and>
     same_outside (unat st) N (dk v) (dk (fsys s)) \<and> disk_ok (dk v) (unat st) N"

lemma get_ofile_slot: "i < 8 \<Longrightarrow> of_used (ofiles s ! i) \<Longrightarrow> get_ofile (int i + 3) s = Some i"
  by (simp add: get_ofile_def OPEN_MAX_def)

lemma session_write:
  assumes s: "session s v i j st N data" and fits: "(length data + length x + 511) div 512 \<le> N"
    and small: "length data + length x < 4294966784"
  shows "session (snd (file_write (int i + 3) x s)) v i j st N (data @ x)"
    and "fst (file_write (int i + 3) x s) = of_nat (length x)"
proof -
  have i: "i < 8" "length (ofiles s) = 8" and inv: "wr_inv (ofiles s ! i) (dk (fsys s)) st data"
    and so: "same_outside (unat st) N (dk v) (dk (fsys s))" and ok: "disk_ok (dk v) (unat st) N"
    using s by (simp_all add: session_def)
  have g: "get_ofile (int i + 3) s = Some i" and mode: "of_mode (ofiles s ! i) = 1"
    using get_ofile_slot i inv by (simp_all add: wr_inv_def)
  obtain f d where l: "fwrite_loop (ofiles s ! i) x (dk (fsys s)) = (f, d)" by fastforce
  have dw: "disk_wf (dk (fsys s))" "disk_ok (dk (fsys s)) (unat st) N"
    using so ok by (simp_all add: same_outside_def)
  note L = fwrite_loop_inv [OF inv dw fits small l]
  have emp: "fwrite_loop (ofiles s ! i) [] (dk (fsys s)) = (ofiles s ! i, dk (fsys s))"
    by (simp add: fwrite_loop.simps)
  show "fst (file_write (int i + 3) x s) = of_nat (length x)"
    by (simp add: file_write_def g mode Let_def split_beta)
  show "session (snd (file_write (int i + 3) x s)) v i j st N (data @ x)"
  proof (cases "x = []")
    case True
    then show ?thesis using s by (simp add: file_write_def g mode)
  next
    case False
    then have "snd (file_write (int i + 3) x s) = set_file i f d s"
      by (simp add: file_write_def g mode l)
    then show ?thesis
      using s L same_outside_trans [OF so] i by (auto simp: session_def set_file_def)
  qed
qed

lemma session_writes:
  assumes "session s v i j st N data" "(length data + length (concat xs) + 511) div 512 \<le> N"
    and "length data + length (concat xs) < 4294966784"
  shows "session (file_writes (int i + 3) xs s) v i j st N (data @ concat xs)"
  using assms
proof (induction xs arbitrary: s data)
  case Nil
  then show ?case by simp
next
  case (Cons x xs)
  have "(length data + length x + 511) div 512 \<le> N"
    using Cons.prems(2) div_le_mono [of "length data + length x + 511" "length data + length (concat (x # xs)) + 511" 512]
    by simp
  then have "session (snd (file_write (int i + 3) x s)) v i j st N (data @ x)"
    using session_write(1) [OF Cons.prems(1)] Cons.prems(3) by simp
  from Cons.IH [OF this] Cons.prems show ?case by simp
qed

text \<open>A fresh session: the entry is there, empty, and the space after it is free.\<close>

lemma session_open:
  assumes wf: "fs_wf (fsys s)" and len: "length (ofiles s) = 8"
    and name: "name \<noteq> []" "length name \<le> 15" "0 \<notin> set name"
    and room: "fs_room (fsys s) sz"
    and run: "file_open name 1 s = (rc, s1)" and ok: "rc \<noteq> ERR"
  obtains i j st where "session s1 (fsys s1) i j st (unat (sectors_of sz)) []" "rc = of_nat (i + 3)" "j < 512"
    "fs_wf (fsys s1)" "fs_abs (fsys s1) = (fs_abs (fsys s))(fs_key name \<mapsto> [])"
    "dirent_used (fdir (fsys s1) ! j)" "fs_key (d_name (fdir (fsys s1) ! j)) = fs_key name"
    "201 \<le> unat st"
    "\<forall>k < 512. k \<noteq> j \<longrightarrow> dirent_used (fdir (fsys s1) ! k) \<longrightarrow> extent_end (fdir (fsys s1) ! k) \<le> unat st"
proof -
  let ?v = "fsys s"
  obtain i j st where o: "i < 8" "rc = of_nat (i + 3)" "j < 512"
    "dirent_used (fdir ?v ! j) \<longrightarrow> fs_key (d_name (fdir ?v ! j)) = fs_key name"
    "\<forall>k < 512. k \<noteq> j \<longrightarrow> dirent_used (fdir ?v ! k) \<longrightarrow> fs_key (d_name (fdir ?v ! k)) \<noteq> fs_key name"
    "st = fs_next_free ?v \<or> st = fs_next_free_excl (int j) ?v"
    "fsys s1 = fs_sync_dir (?v\<lparr>fdir := (fdir ?v)[j := (fdir ?v ! j)
       \<lparr>d_name := put_name 15 name, d_start := st, d_size := 0, d_flags := 0\<rparr>]\<rparr>)"
    "ofiles s1 = (ofiles s)[i := zero_file\<lparr>of_used := True, of_mode := 1, of_dir_index := int j, of_start := st\<rparr>]"
    by (rule file_open_write [OF wf len run ok])
  let ?e = "(fdir ?v ! j)\<lparr>d_name := put_name 15 name, d_start := st, d_size := 0, d_flags := 0\<rparr>"
  have d: "disk_wf (dk ?v)" and w: "dir_wf (dk ?v) (fdir ?v)" using wf by (simp_all add: fs_wf_def)
  have place: "st = fs_next_free ?v \<or> st = fs_next_free_excl (int j) ?v \<or>
      dirent_used (fdir ?v ! j) \<and> st = d_start (fdir ?v ! j) \<and> sectors_of sz \<le> sectors_of (d_size (fdir ?v ! j))"
    using o(6) by blast
  note P = write_place [OF wf room o(3) place]
  have n47: "length name \<le> 47" using name(2) by simp
  note N = put_name_facts [OF n47 name(3), folded put_name_15 [OF name(2,3)]]
  have z: "sectors_of 0 = 0" by (simp add: sectors_of_def)
  have beyond: "extent_end (fdir ?v ! k) \<le> unat st" if "k < 512" "k \<noteq> j" "dirent_used (fdir ?v ! k)" for k
    using o(6) next_free_ge(2) [OF d w that(1,3), of "-1"] next_free_ge(2) [OF d w that(1,3), of "int j"] that(2)
    by (auto simp: next_free_excl)
  have ent: "entry_ok (dk ?v) ?e"
    using P(1) dsk.ok_sub [OF P(2), of "unat st" 0] by (simp add: entry_ok_def z)
  have ap: "apart ?e (fdir ?v ! k)" if "k < 512" "k \<noteq> j" "dirent_used (fdir ?v ! k)" for k
    using beyond [OF that] o(5) that N(3) by (auto simp: apart_def)
  have us: "dirent_used ?e" using N(4) name(1) by (simp add: dirent_used_def)
  have s1: "fsys s1 = fs_sync_dir (?v\<lparr>dk := dk ?v, fdir := (fdir ?v)[j := ?e]\<rparr>)" using o(7) by simp
  have U: "fs_wf (fsys s1)" "\<And>k. fs_abs (fsys s1) k =
     (if dirent_used ?e \<and> k = fs_key (d_name ?e) then Some (content (dk ?v) ?e)
      else if dirent_used (fdir ?v ! j) \<and> k = fs_key (d_name (fdir ?v ! j)) then None else fs_abs ?v k)"
    using fs_update [OF wf o(3) d refl _ ent ap refl s1] N(2) by simp_all
  have fd1: "fdir (fsys s1) = (fdir ?v)[j := ?e]" using o(7) by (simp add: fs_sync_dir_def)
  have dl: "length (fdir ?v) = 512" using dir_wfD(1) [OF w] .
  have ok1: "disk_ok (dk (fsys s1)) = disk_ok (dk ?v)" using o(7) by (simp add: fs_sync_dir_def dsk.wrs_ok)
  show ?thesis
  proof (rule that [of i j st])
    have "disk_wf (dk (fsys s1))" using U(1) by (simp add: fs_wf_def)
    then show "session s1 (fsys s1) i j st (unat (sectors_of sz)) []"
      using o(1,8) len P(2) ok1 same_outside_refl
      by (simp add: session_def wr_inv_def zero_file_def sectors_def)
    show "rc = of_nat (i + 3)" "j < 512" "fs_wf (fsys s1)" "201 \<le> unat st" using o(2,3) U(1) P(1) by simp_all
    show "fs_abs (fsys s1) = (fs_abs ?v)(fs_key name \<mapsto> [])"
      using U(2) us N(3) o(4) by (auto simp: fun_eq_iff content_def)
    show "dirent_used (fdir (fsys s1) ! j)" "fs_key (d_name (fdir (fsys s1) ! j)) = fs_key name"
      using us N(3) o(3) dl by (simp_all add: fd1)
    show "\<forall>k < 512. k \<noteq> j \<longrightarrow> dirent_used (fdir (fsys s1) ! k) \<longrightarrow> extent_end (fdir (fsys s1) ! k) \<le> unat st"
      using beyond dl by (simp add: fd1)
  qed
qed

text \<open>Closing ends the session: the entry gets its size, the last sector is flushed.\<close>

lemma session_close:
  assumes S: "session t v i j st N data" and N: "N = (length data + 511) div 512"
    and small: "length data < 4294966784" and vwf: "fs_wf v" and j: "j < 512" "dirent_used (fdir v ! j)"
    and st: "201 \<le> unat st"
    and beyond: "\<forall>k < 512. k \<noteq> j \<longrightarrow> dirent_used (fdir v ! k) \<longrightarrow> extent_end (fdir v ! k) \<le> unat st"
    and run: "file_close (int i + 3) t = (rc', s2)"
  shows "rc' = 0 \<and> fs_wf (fsys s2) \<and> fs_abs (fsys s2) = (fs_abs v)(fs_key (d_name (fdir v ! j)) \<mapsto> data)"
proof -
  let ?sz = "of_nat (length data) :: u32"
  let ?e = "(fdir v ! j)\<lparr>d_start := st, d_size := ?sz, d_flags := 0\<rparr>"
  have usz: "unat ?sz = length data" using small by (simp add: unat_of_nat32)
  then have uN: "unat (sectors_of ?sz) = N" using unat_sectors_of [of ?sz] small N by simp
  have inv: "wr_inv (ofiles t ! i) (dk (fsys t)) st data" and ix: "of_dir_index (ofiles t ! i) = int j"
    and so: "same_outside (unat st) N (dk v) (dk (fsys t))" and okN: "disk_ok (dk v) (unat st) N"
    and dir: "fdir (fsys t) = fdir v" and i8: "i < 8"
    using S by (simp_all add: session_def)
  obtain f d where fl: "ofile_flush (ofiles t ! i) (dk (fsys t)) = (f, d)" by fastforce
  have dt: "disk_wf (dk (fsys t))" "disk_ok (dk (fsys t)) (unat st) N"
    using so okN by (simp_all add: same_outside_def)
  note FL = wr_inv_flush [OF inv dt eq_refl [OF N [symmetric]] fl]
  have sod: "same_outside (unat st) N (dk v) d" using same_outside_trans [OF so FL(1)] .
  have g: "get_ofile (int i + 3) t = Some i" and mode: "of_mode (ofiles t ! i) = 1"
    using get_ofile_slot i8 inv by (simp_all add: wr_inv_def)
  have s2: "fsys s2 = fs_sync_dir (v\<lparr>dk := d, fdir := (fdir v)[j := ?e]\<rparr>)" and rc': "rc' = 0"
    using run unfolding file_close_def g option.case Let_def mode fl
    by (auto simp: FL(2-4) ix dir fs_sync_dir_def)
  have vw: "disk_wf (dk v)" "dir_wf (dk v) (fdir v)" using vwf by (simp_all add: fs_wf_def)
  have ent: "entry_ok (dk v) ?e" using st okN usz small by (simp add: entry_ok_def uN)
  have ap: "apart ?e (fdir v ! k)" if "k < 512" "k \<noteq> j" "dirent_used (fdir v ! k)" for k
    using beyond dir_wfD(4) [OF vw(2) j(1) that(1)] that j(2) by (auto simp: apart_def)
  have same: "content d (fdir v ! k) = content (dk v) (fdir v ! k)"
    if "k < 512" "k \<noteq> j" "dirent_used (fdir v ! k)" for k
    using content_same_outside [OF vw(1) sod dir_wfD(3) [OF vw(2) that(1,3)]] beyond that by simp
  have dk: "disk_wf d" "disk_ok d = disk_ok (dk v)" using sod by (simp_all add: same_outside_def)
  have U: "fs_wf (fsys s2)" "\<And>k. fs_abs (fsys s2) k =
     (if dirent_used ?e \<and> k = fs_key (d_name ?e) then Some (content d ?e)
      else if dirent_used (fdir v ! j) \<and> k = fs_key (d_name (fdir v ! j)) then None else fs_abs v k)"
    using fs_update [OF vwf j(1) dk _ ent ap same s2] dir_wfD(2) [OF vw(2) j(1)] by simp_all
  have "disk_read_sectors st (sectors_of ?sz) d = sectors d (unat st) N"
    using dsk.rds_eq [OF dk(1), of st "sectors_of ?sz"] okN dk(2) by (simp add: sectors_def uN)
  then have "content d ?e = data" using FL(5) usz by (simp add: content_def N)
  then show ?thesis using U j(2) rc' by (auto simp: fun_eq_iff dirent_used_def)
qed

lemma sint_of_fd: "i < 8 \<Longrightarrow> sint (of_nat (i + 3) :: u32) = int i + 3"
proof -
  assume "i < 8"
  then have "i = 0 \<or> i = 1 \<or> i = 2 \<or> i = 3 \<or> i = 4 \<or> i = 5 \<or> i = 6 \<or> i = 7" by linarith
  then show ?thesis by (elim disjE) simp_all
qed

text \<open>
  C13. A file written through a descriptor. When the disk has room for the whole file after the last extent in use,
  opening the file for writing, writing any number of pieces of any sizes in sequence and closing it leaves the
  file system well formed, with the file holding the concatenation of the pieces and every other file unchanged.
  The room is a real condition: on a full RAM disk the code drops the sectors that do not fit and still reports
  success. (The name has at most 15 characters: that is what opening stores.)
\<close>

theorem file_write_session:
  assumes "fs_wf (fsys s)" and "length (ofiles s) = 8"
    and "name \<noteq> []" and "length name \<le> 15" and "0 \<notin> set name"
    and "fs_room (fsys s) (of_nat (length (concat xs)))" and "length (concat xs) < 4294966784"
    and "file_open name 1 s = (rc, s1)" and "rc \<noteq> ERR"
    and "file_close (sint rc) (file_writes (sint rc) xs s1) = (rc', s2)"
  shows "rc' = 0 \<and> fs_wf (fsys s2) \<and>
    fs_abs (fsys s2) = (fs_abs (fsys s))(fs_key name \<mapsto> concat xs)"
proof -
  let ?sz = "of_nat (length (concat xs)) :: u32"
  obtain i j st where o: "session s1 (fsys s1) i j st (unat (sectors_of ?sz)) []" "rc = of_nat (i + 3)" "j < 512"
    "fs_wf (fsys s1)" "fs_abs (fsys s1) = (fs_abs (fsys s))(fs_key name \<mapsto> [])"
    "dirent_used (fdir (fsys s1) ! j)" "fs_key (d_name (fdir (fsys s1) ! j)) = fs_key name"
    "201 \<le> unat st"
    "\<forall>k < 512. k \<noteq> j \<longrightarrow> dirent_used (fdir (fsys s1) ! k) \<longrightarrow> extent_end (fdir (fsys s1) ! k) \<le> unat st"
    by (rule session_open [OF assms(1-6,8,9)])
  have N: "unat (sectors_of ?sz) = (length (concat xs) + 511) div 512"
    using unat_sectors_of [of ?sz] assms(7) by (simp add: unat_of_nat32)
  have fd: "sint rc = int i + 3" using o(1,2) sint_of_fd by (simp add: session_def)
  have S: "session (file_writes (int i + 3) xs s1) (fsys s1) i j st (unat (sectors_of ?sz)) (concat xs)"
    using session_writes [OF o(1), of xs] assms(7) N by simp
  from session_close [OF S N assms(7) o(4,3,6,8,9) assms(10) [unfolded fd]] o(5,7) show ?thesis by simp
qed

subsection \<open>Reading\<close>

text \<open>A file open for reading entry \<open>e\<close>: its buffer, when valid, is what is on disk.\<close>

definition rd_inv :: "open_file \<Rightarrow> disk \<Rightarrow> dirent \<Rightarrow> bool" where
  "rd_inv f d e \<longleftrightarrow> of_used f \<and> of_mode f = 0 \<and> of_start f = d_start e \<and> of_size f = d_size e \<and>
     \<not> sector_dirty f \<and> (sector_valid f \<longrightarrow> sector f = disk_read_sector (cur_lba f) d)"

lemma take_drop_block:
  assumes "r + c \<le> n"
  shows "take c (drop (q * n + r) xs) = take c (drop r (take n (drop (q * n) xs)))"
  using assms by (simp add: drop_take add.commute min_def)

lemma content_block:
  assumes d: "disk_wf d" and e: "entry_ok d e" and r: "r + c \<le> 512"
    and p: "q * 512 + r + c \<le> unat (d_size e)" and c: "0 < c"
  shows "take c (drop (q * 512 + r) (content d e)) = take c (drop r (disk_sector d (unat (d_start e) + q)))"
    and "disk_ok d (unat (d_start e) + q) 1"
proof -
  let ?n = "unat (sectors_of (d_size e))" and ?a = "unat (d_start e)"
  have ok: "disk_ok d ?a ?n" and small: "unat (d_size e) + 511 < 4294967296" using e by (simp_all add: entry_ok_def)
  have "q * 512 < unat (d_size e)" using p c by linarith
  then have q: "q < ?n" unfolding unat_sectors_of [OF small] by linarith
  show "disk_ok d (?a + q) 1" using dsk.ok_sub [OF ok, of "?a + q" 1] q by simp
  have "length (disk_sector d x) = 512" if "x \<in> set [?a..<?a + ?n]" for x
    using dsk.sector_length [OF d] dsk.ok_sub [OF ok, of x 1] that by simp
  then have all: "\<And>x. x \<in> set [?a..<?a + ?n] \<Longrightarrow> length (disk_sector d x) = 512" .
  have blk: "take 512 (drop (q * 512) (concat (map (disk_sector d) [?a..<?a + ?n]))) = disk_sector d (?a + q)"
    using concat_chunks(2) [of "[?a..<?a + ?n]" "disk_sector d" 512 q, OF all] q by simp
  have "take c (drop (q * 512 + r) (content d e)) =
      take c (drop (q * 512 + r) (concat (map (disk_sector d) [?a..<?a + ?n])))"
    unfolding content_def dsk.rds_eq [OF d ok] using p by (simp add: drop_take min_def)
  also have "\<dots> = take c (drop r (disk_sector d (?a + q)))"
    unfolding take_drop_block [OF r] blk ..
  finally show "take c (drop (q * 512 + r) (content d e)) = take c (drop r (disk_sector d (?a + q)))" .
qed

lemma fread_loop_eq:
  assumes "rd_inv f d e" "disk_wf d" "entry_ok d e" "unat (of_pos f) + n \<le> unat (d_size e)"
  shows "\<exists>g. fread_loop f n d = (take n (drop (unat (of_pos f)) (content d e)), g, d) \<and>
    rd_inv g d e \<and> of_pos g = of_pos f + of_nat n"
  using assms
proof (induction n arbitrary: f rule: less_induct)
  case (less n)
  show ?case
  proof (cases "n = 0")
    case True
    with less.prems show ?thesis by (simp add: fread_loop.simps)
  next
    case False
    define p where "p = unat (of_pos f)"
    define q where "q = p div 512"
    define r where "r = p mod 512"
    define c where "c = min (512 - r) n"
    have r512: "r < 512" and p: "p = q * 512 + r" by (simp_all add: r_def q_def)
    have c: "0 < c" "c \<le> n" "r + c \<le> 512" using False r512 by (auto simp: c_def)
    have pc: "q * 512 + r + c \<le> unat (d_size e)" using less.prems(4) c p by (simp add: p_def)
    note B = content_block [OF less.prems(2,3) c(3) pc c(1)]
    define lba where "lba = d_start e + of_pos f div 512"
    have ul: "unat lba = unat (d_start e) + q"
    proof -
      have "unat (of_pos f div 512) = q" by (simp add: unat_div q_def p_def)
      then show ?thesis unfolding lba_def using disk_ok_bound [OF less.prems(2) B(2)]
        by (subst unat_add32) simp_all
    qed
    have okl: "disk_ok d (unat lba) 1" using B(2) ul by simp
    obtain g where g: "ofile_load_sector f lba d = (g, d)" "sector g = disk_sector d (unat lba)"
      "rd_inv g d e" "of_pos g = of_pos f"
    proof -
      have nd: "\<not> sector_dirty f" "of_mode f = 0" using less.prems(1) by (simp_all add: rd_inv_def)
      define g where "g = fst (ofile_load_sector f lba d)"
      have "ofile_load_sector f lba d = (g, d)" "sector g = disk_sector d (unat lba)" "rd_inv g d e" "of_pos g = of_pos f"
        using nd less.prems(1) disk_read_sector_eq(1) [OF less.prems(2) okl]
        by (auto simp: g_def ofile_load_sector_def ofile_flush_def Let_def rd_inv_def)
      then show ?thesis by (rule that)
    qed
    define h where "h = g\<lparr>of_pos := of_pos f + of_nat c\<rparr>"
    have hp: "unat (of_pos h) = p + c"
    proof -
      have "p + c < 4294967296" using pc p unat_lt_2_32 [of "d_size e"] by linarith
      then show ?thesis unfolding h_def by (simp add: unat_add32 unat_of_nat32 p_def)
    qed
    have "rd_inv h d e" using g(3) by (simp add: rd_inv_def h_def)
    moreover have "unat (of_pos h) + (n - c) \<le> unat (d_size e)" using less.prems(4) c hp by (simp add: p_def)
    ultimately obtain k where k: "fread_loop h (n - c) d = (take (n - c) (drop (p + c) (content d e)), k, d)"
      "rd_inv k d e" "of_pos k = of_pos h + of_nat (n - c)"
      using less.IH [of "n - c" h] less.prems(2,3) c hp by auto
    have ur: "unat (of_pos f mod 512) = r" by (simp add: unat_mod r_def p_def)
    have "fread_loop f n d = (take c (drop r (sector g)) @ take (n - c) (drop (p + c) (content d e)), k, d)"
      using False less.prems(1) g k
      by (subst fread_loop.simps)
        (simp add: rd_inv_def ur c_def [symmetric] h_def [symmetric] Let_def flip: lba_def)
    also have "take c (drop r (sector g)) = take c (drop p (content d e))" using B(1) g(2) ul p by simp
    also have "take c (drop p (content d e)) @ take (n - c) (drop (p + c) (content d e)) = take n (drop p (content d e))"
      using c(2) by (metis add.commute drop_drop le_add_diff_inverse take_add)
    finally show ?thesis using k c by (auto simp: p_def h_def of_nat_diff)
  qed
qed

text \<open>
  C14. Reading through a descriptor. A read returns as many of the requested bytes as the file still
  has after the current position (none at its end), they are exactly the bytes of the file at
  that position, the position advances by their number, and the file system is not changed.
\<close>

theorem file_read_bytes:
  assumes "fs_wf (fsys s)" and "get_ofile fd s = Some i" and "i < length (ofiles s)"
    and "j < 512" and "dirent_used (fdir (fsys s) ! j)"
    and "rd_inv (ofiles s ! i) (dk (fsys s)) (fdir (fsys s) ! j)"
    and "file_read fd len s = (n, out, s')"
  shows "let pos = unat (of_pos (ofiles s ! i)); c = content (dk (fsys s)) (fdir (fsys s) ! j)
    in unat n = min (unat len) (length c - pos) \<and> out = take (unat n) (drop pos c) \<and>
       fsys s' = fsys s \<and> of_pos (ofiles s' ! i) = of_pos (ofiles s ! i) + n \<and>
       rd_inv (ofiles s' ! i) (dk (fsys s')) (fdir (fsys s') ! j)"
proof -
  let ?f = "ofiles s ! i" and ?d = "dk (fsys s)" and ?e = "fdir (fsys s) ! j"
  have d: "disk_wf ?d" and w: "dir_wf ?d (fdir (fsys s))" using assms(1) by (simp_all add: fs_wf_def)
  have e: "entry_ok ?d ?e" using dir_wfD(3) [OF w assms(4,5)] .
  have lc: "length (content ?d ?e) = unat (d_size ?e)" using length_content [OF d e] .
  have mode: "of_mode ?f = 0" and sz: "of_size ?f = d_size ?e" using assms(6) by (simp_all add: rd_inv_def)
  show ?thesis
  proof (cases "len = 0 \<or> of_pos ?f \<ge> of_size ?f")
    case True
    then have "n = 0" "out = []" "s' = s" using assms(7) by (auto simp: file_read_def assms(2) mode Let_def split: if_splits)
    with True assms(6) show ?thesis by (auto simp: Let_def lc sz word_le_nat_alt)
  next
    case False
    then have lt: "unat (of_pos ?f) < unat (d_size ?e)" by (simp add: sz word_le_nat_alt)
    define m where "m = (if len > of_size ?f - of_pos ?f then of_size ?f - of_pos ?f else len)"
    have rem: "unat (of_size ?f - of_pos ?f) = unat (d_size ?e) - unat (of_pos ?f)"
      using lt by (simp add: sz unat_sub word_le_nat_alt)
    then have um: "unat m = min (unat len) (unat (d_size ?e) - unat (of_pos ?f))"
      by (simp add: m_def word_less_nat_alt min_def)
    have "unat (of_pos ?f) + unat m \<le> unat (d_size ?e)" using um lt by simp
    from fread_loop_eq [OF assms(6) d e this] obtain g where
      g: "fread_loop ?f (unat m) ?d = (take (unat m) (drop (unat (of_pos ?f)) (content ?d ?e)), g, ?d)"
        "rd_inv g ?d ?e" "of_pos g = of_pos ?f + m" by auto
    have "n = m" "out = take (unat m) (drop (unat (of_pos ?f)) (content ?d ?e))" "s' = set_file i g ?d s"
    proof -
      have "file_read fd len s = (case fread_loop ?f (unat m) ?d of (out, f, d) \<Rightarrow> (m, out, set_file i f d s))"
        using False unfolding m_def by (simp add: file_read_def assms(2) mode Let_def del: not_le)
      then show "n = m" "out = take (unat m) (drop (unat (of_pos ?f)) (content ?d ?e))" "s' = set_file i g ?d s"
        using assms(7) g(1) by simp_all
    qed
    with g um lc assms(3) show ?thesis by (simp add: Let_def set_file_def)
  qed
qed

text \<open>
  Opening a long name for writing loses the name. Only the first 15 characters are stored,
  while lookups compare 16: after a successful open of a name of 16 or more characters, that
  name is not in the directory, whether it was there before or not.
\<close>

theorem open_long_name_lost:
  assumes "fs_wf (fsys s)" and "length (ofiles s) = 8"
    and "16 \<le> length name" and "length name \<le> 47" and "0 \<notin> set name"
    and "file_open name 1 s = (rc, s1)" and "rc \<noteq> ERR"
  shows "fs_find name (fsys s1) = -1"
proof -
  let ?v = "fsys s"
  obtain i j st where o: "j < 512"
    "\<forall>k < 512. k \<noteq> j \<longrightarrow> dirent_used (fdir ?v ! k) \<longrightarrow> fs_key (d_name (fdir ?v ! k)) \<noteq> fs_key name"
    "fsys s1 = fs_sync_dir (?v\<lparr>fdir := (fdir ?v)[j := (fdir ?v ! j)
       \<lparr>d_name := put_name 15 name, d_start := st, d_size := 0, d_flags := 0\<rparr>]\<rparr>)"
    by (rule file_open_write [OF assms(1,2,6,7)]) blast
  have len: "length (fdir ?v) = 512" using assms(1) dir_wfD(1) by (auto simp: fs_wf_def)
  have "unat (strlen name) = length name" using assms(4,5) by (simp add: strlen_eq unat_of_nat)
  then have "strlen name > 15" using assms(3) by (simp add: word_less_nat_alt)
  then have p: "put_name 15 name = take 15 name @ replicate 33 0"
    using assms(3) by (simp add: put_name_def arr_put_def)
  have z: "replicate 33 (0 :: u8) = 0 # replicate 32 0" by (simp add: numeral_eq_Suc)
  have "0 \<notin> set (take 15 name)" using assms(5) by (auto dest: in_set_takeD)
  then have "length (fs_key (put_name 15 name)) \<le> 15" by (simp add: p z fs_key_def)
  moreover have "length (fs_key name) = 16" using assms(3,5) by (simp add: fs_key_def)
  ultimately have ne: "fs_key (put_name 15 name) \<noteq> fs_key name" by auto
  have fd: "fdir (fsys s1) = (fdir ?v)[j := (fdir ?v ! j)
       \<lparr>d_name := put_name 15 name, d_start := st, d_size := 0, d_flags := 0\<rparr>]"
    unfolding o(3) by (simp add: fs_sync_dir_def)
  show ?thesis
  proof (cases rule: fs_find_cases [of name "fsys s1"])
    case (some k)
    then show ?thesis using ne o(1,2) len by (cases "k = j") (auto simp: fd)
  qed
qed

subsection \<open>A session on the example file system\<close>

definition demo_files :: files where
  "demo_files = \<lparr>fsys = demo_fs, ofiles = replicate 8 zero_file\<rparr>"

definition demo_pieces :: "u8 list list" where "demo_pieces = [[1, 2], [], [3, 4, 5]]"

definition demo_files1 :: files where
  "demo_files1 = snd (file_open demo_name 0 (demo_files\<lparr>fsys := demo_fs1\<rparr>))"

theorem file_write_session_witness:
  "fs_abs (fsys (snd (file_close 3 (file_writes 3 demo_pieces (snd (file_open demo_name 1 demo_files)))))) demo_name =
     Some [1, 2, 3, 4, 5]"
proof -
  have z: "\<not> dirent_used zero_dirent" by (simp add: dirent_used_def zero_dirent_def)
  have "fs_find_loop (replicate 512 zero_dirent) demo_name 0 = -1"
    using fs_find_loop_cases [of "replicate 512 zero_dirent" demo_name 0] z by auto
  moreover have "fs_free_loop (replicate 512 zero_dirent) 0 = 0"
    using z by (simp add: numeral_eq_Suc)
  ultimately have rc: "fst (file_open demo_name 1 demo_files) = 3"
    by (simp add: file_open_def demo_files_def demo_fs_def alloc_fd_def fs_find_def Let_def zero_file_def numeral_eq_Suc)
  have pre: "fs_wf (fsys demo_files)" "length (ofiles demo_files) = 8" "length demo_name \<le> 15"
    "fs_room (fsys demo_files) (of_nat (length (concat demo_pieces)))"
    "length (concat demo_pieces) < 4294966784"
    using demo_fs_wf demo_fs_room by (simp_all add: demo_files_def demo_name_def demo_pieces_def)
  have "fs_abs (fsys (snd (file_close (sint (3 :: u32)) (file_writes (sint (3 :: u32)) demo_pieces (snd (file_open demo_name 1 demo_files)))))) =
      (fs_abs (fsys demo_files))(fs_key demo_name \<mapsto> concat demo_pieces)"
    using file_write_session [OF pre(1,2) demo_names(1) pre(3) demo_names(3) pre(4,5),
        of 3 "snd (file_open demo_name 1 demo_files)"] rc
    by (cases "file_close (sint (3 :: u32)) (file_writes (sint (3 :: u32)) demo_pieces (snd (file_open demo_name 1 demo_files)))")
      (auto simp: prod_eq_iff)
  then show ?thesis by (simp add: demo_names(7)) (simp add: demo_pieces_def)
qed

lemma file_open_read:
  assumes "alloc_fd s = int i" "i < length (ofiles s)" "fs_find name (fsys s) = int j"
  shows "fst (file_open name 0 s) = of_nat (i + 3)" and "fsys (snd (file_open name 0 s)) = fsys s"
    and "length (ofiles (snd (file_open name 0 s))) = length (ofiles s)"
    and "rd_inv (ofiles (snd (file_open name 0 s)) ! i) (dk (fsys s)) (fdir (fsys s) ! j)"
    and "of_pos (ofiles (snd (file_open name 0 s)) ! i) = 0"
  using assms by (simp_all add: file_open_def Let_def rd_inv_def zero_file_def)

theorem file_read_bytes_witness:
  "fst (file_read 3 100 demo_files1) = 5 \<and> fst (snd (file_read 3 100 demo_files1)) = replicate 5 7"
proof -
  let ?s = "demo_files\<lparr>fsys := demo_fs1\<rparr>"
  have w: "dir_wf (dk demo_fs1) (fdir demo_fs1)" using demo_fs1_facts(1) by (simp add: fs_wf_def)
  have abs: "fs_abs demo_fs1 (fs_key demo_name) = Some (replicate 5 7)"
    by (simp add: demo_fs1_facts(2) demo_names(7))
  obtain j where j: "fs_find demo_name demo_fs1 = int j" "j < 512" "dirent_used (fdir demo_fs1 ! j)"
    "fs_key (d_name (fdir demo_fs1 ! j)) = fs_key demo_name"
    using abs fs_abs_None [OF w, of "fs_key demo_name"] dir_wfD(1) [OF w]
    by (cases rule: fs_find_cases [of demo_name demo_fs1]) auto
  have c: "content (dk demo_fs1) (fdir demo_fs1 ! j) = replicate 5 7"
    using fs_abs_iff [OF w, of "fs_key demo_name" "content (dk demo_fs1) (fdir demo_fs1 ! j)"] j abs by auto
  have "alloc_fd ?s = int 0" "0 < length (ofiles ?s)" "fs_find demo_name (fsys ?s) = int j"
    using j(1) by (simp_all add: alloc_fd_def demo_files_def zero_file_def numeral_eq_Suc)
  note O = file_open_read [OF this, folded demo_files1_def]
  have fs: "fsys demo_files1 = demo_fs1" using O(2) by simp
  have g: "get_ofile 3 demo_files1 = Some 0"
    using O(4) by (simp add: get_ofile_def OPEN_MAX_def rd_inv_def)
  have len: "0 < length (ofiles demo_files1)" using O(3) by (simp add: demo_files_def)
  have pre: "fs_wf (fsys demo_files1)" "dirent_used (fdir (fsys demo_files1) ! j)"
    "rd_inv (ofiles demo_files1 ! 0) (dk (fsys demo_files1)) (fdir (fsys demo_files1) ! j)"
    using demo_fs1_facts(1) j(3) O(4) by (simp_all add: fs)
  obtain n out s' where run: "file_read 3 100 demo_files1 = (n, out, s')" using prod_cases3 by blast
  have un: "unat n = 5 \<and> out = replicate 5 7"
    using file_read_bytes [OF pre(1) g len j(2) pre(2,3) run] O(5) c by (simp add: fs Let_def)
  then have "n = 5" by (simp add: word_unat_eq_iff)
  then show ?thesis using run un by simp
qed

lemma demo_alloc: "alloc_fd demo_files = 0"
  by (simp add: alloc_fd_def demo_files_def zero_file_def numeral_eq_Suc)

theorem open_long_name_lost_witness:
  "fs_find (replicate 16 65) (fsys (snd (file_open (replicate 16 65) 1 demo_files))) = -1"
proof -
  have z: "\<not> dirent_used zero_dirent" by (simp add: dirent_used_def zero_dirent_def)
  have "fs_find_loop (replicate 512 zero_dirent) (replicate 16 65) 0 = -1"
    using fs_find_loop_cases [of "replicate 512 zero_dirent" "replicate 16 65" 0] z by auto
  moreover have "fs_free_loop (replicate 512 zero_dirent) 0 = 0"
    using z by (simp add: numeral_eq_Suc)
  ultimately have rc: "fst (file_open (replicate 16 65) 1 demo_files) = 3"
    using demo_alloc by (simp add: file_open_def fs_find_def Let_def) (simp add: demo_files_def demo_fs_def fs_find_def)
  show ?thesis
    by (rule open_long_name_lost [OF _ _ _ _ _ prod.collapse [symmetric]])
      (use demo_fs_wf rc in \<open>simp_all add: demo_files_def\<close>)
qed

end
