(* ===== verification/Paging.thy ===== *)
theory Paging
  imports UserMem
begin

text \<open>
  Page tables of kernel/kernel.c: PAE tables built in physical memory, the kernel and process
  address spaces, and the windows for the framebuffer, device registers and DMA buffers. Physical
  memory that holds tables is \<open>tabs\<close>: for each page-aligned table pointer its 512 entries. The
  hardware's walk of the tables is \<open>translate\<close>; the theorems say what the kernel's mappings mean
  for it.
\<close>

subsection \<open>Constants and state\<close>

definition PTE_P :: u32 where "PTE_P = 0x001"
definition PTE_W :: u32 where "PTE_W = 0x002"
definition PTE_U :: u32 where "PTE_U = 0x004"
definition PTE_PWT :: u32 where "PTE_PWT = 0x008"
definition PTE_PCD :: u32 where "PTE_PCD = 0x010"
definition PTE_PAT :: u32 where "PTE_PAT = 0x080"
definition PTE_UC :: u32 where "PTE_UC = PTE_PWT OR PTE_PCD"
definition FB_VIRT_BASE :: u32 where "FB_VIRT_BASE = 0x10000000"
definition FB_VIRT_SIZE :: u32 where "FB_VIRT_SIZE = 64 * 1024 * 1024"
definition PAE_PDPT_ENTRIES :: nat where "PAE_PDPT_ENTRIES = 4"
definition MMIO_VIRT_BASE :: u32 where "MMIO_VIRT_BASE = 0x14000000"
definition MMIO_VIRT_SIZE :: u32 where "MMIO_VIRT_SIZE = 1024 * 1024"

lemmas pte_defs = PTE_P_def PTE_W_def PTE_U_def PTE_PWT_def PTE_PCD_def PTE_PAT_def PTE_UC_def

record vm =
  tabs :: "u32 \<Rightarrow> nat \<Rightarrow> u64"
  phys_free :: u32
  kernel_pdpt :: u32
  proc_pdpt :: u32
  paging_on :: bool
  cr3 :: u32
  mmio_virt_next :: u32
  user_phys_base :: u32
  user_phys_limit :: u32
  dma_arena_base :: u32
  user_mmio_used :: u32
  user_dma_used :: u32
  pat_wc_ready :: bool
  fb_enabled :: bool
  gfx_w :: u32
  gfx_h :: u32
  gfx_pitch :: u32
  gfx_bpp :: u32
  gfx_lfb :: u32
  gfx_lfb_phys :: u64
  gfx_mode_id :: u32
  gfx_fb_size :: u32
  gfx_fb_user_addr :: u32
  gfx_fb_user_mapped :: bool

definition set_entry :: "u32 \<Rightarrow> nat \<Rightarrow> u64 \<Rightarrow> vm \<Rightarrow> vm" where
  "set_entry t i v s = s\<lparr>tabs := (tabs s)(t := (tabs s t)(i := v))\<rparr>"

text \<open>The address part of an entry, as the pointer the code casts it to.\<close>

definition entry_ptr :: "u64 \<Rightarrow> u32" where
  "entry_ptr e = ucast (e AND NOT 0xFFF)"

definition entry_present :: "u64 \<Rightarrow> bool" where
  "entry_present e \<longleftrightarrow> e AND ucast PTE_P \<noteq> 0"

subsection \<open>Building tables\<close>

definition alloc_page_phys :: "vm \<Rightarrow> u32 \<times> vm" where
  "alloc_page_phys s =
     (let p = phys_free s
      in (p, s\<lparr>phys_free := p + PAGE_SIZE, tabs := (tabs s)(p := (\<lambda>_. 0))\<rparr>))"

fun pdpt_init_loop :: "nat \<Rightarrow> nat \<Rightarrow> u32 \<Rightarrow> vm \<Rightarrow> vm" where
  "pdpt_init_loop i 0 pdpt s = s"
| "pdpt_init_loop i (Suc n) pdpt s =
     (let (p, s) = alloc_page_phys s
      in pdpt_init_loop (i + 1) n pdpt (set_entry pdpt i (ucast p OR ucast PTE_P) s))"

definition pdpt_init :: "u32 \<Rightarrow> vm \<Rightarrow> vm" where
  "pdpt_init pdpt s = pdpt_init_loop 0 PAE_PDPT_ENTRIES pdpt s"

definition pae_pd :: "u32 \<Rightarrow> u32 \<Rightarrow> vm \<Rightarrow> u32" where
  "pae_pd pdpt virt s = entry_ptr (tabs s pdpt (unat (drop_bit 30 virt)))"

definition pd_index :: "u32 \<Rightarrow> nat" where "pd_index virt = unat (drop_bit 21 virt AND 0x1FF)"
definition pt_index :: "u32 \<Rightarrow> nat" where "pt_index virt = unat (drop_bit 12 virt AND 0x1FF)"

definition map_page :: "u32 \<Rightarrow> u32 \<Rightarrow> u64 \<Rightarrow> u32 \<Rightarrow> vm \<Rightarrow> vm" where
  "map_page pdpt virt phys flags s =
     (let pd = pae_pd pdpt virt s;
          pd_idx = pd_index virt;
          pt_idx = pt_index virt;
          (pt, s) = (if entry_present (tabs s pd pd_idx) then (entry_ptr (tabs s pd pd_idx), s)
                     else (let (pt, s) = alloc_page_phys s;
                               pde_flags = (if flags AND PTE_U \<noteq> 0 then PTE_P OR PTE_W OR PTE_U
                                            else PTE_P OR PTE_W)
                           in (pt, set_entry pd pd_idx (ucast pt OR ucast pde_flags) s)))
      in set_entry pt pt_idx ((phys AND NOT 0xFFF) OR ucast (flags OR PTE_P)) s)"

text \<open>
  The loops over a range of pages. Their counters do not wrap: each bound is page aligned or, for
  \<open>map_phys_at\<close>, at most the size of one of the windows, so the number of turns is the number of
  pages in the range.
\<close>

definition page_count :: "u32 \<Rightarrow> u32 \<Rightarrow> nat" where
  "page_count start stop = (if start < stop then (unat stop - unat start + 4095) div 4096 else 0)"

fun map_pages :: "u32 \<Rightarrow> u32 \<Rightarrow> u64 \<Rightarrow> nat \<Rightarrow> u32 \<Rightarrow> vm \<Rightarrow> vm" where
  "map_pages pdpt virt phys 0 flags s = s"
| "map_pages pdpt virt phys (Suc n) flags s =
     map_pages pdpt (virt + PAGE_SIZE) (phys + ucast PAGE_SIZE) n flags (map_page pdpt virt phys flags s)"

definition map_identity :: "u32 \<Rightarrow> u32 \<Rightarrow> u32 \<Rightarrow> u32 \<Rightarrow> vm \<Rightarrow> vm" where
  "map_identity pdpt base sz flags s =
     (let start = base AND NOT 0xFFF; stop = (base + sz + 0xFFF) AND NOT 0xFFF
      in map_pages pdpt start (ucast start) (page_count start stop) flags s)"

definition map_phys_at :: "u32 \<Rightarrow> u32 \<Rightarrow> u64 \<Rightarrow> u32 \<Rightarrow> u32 \<Rightarrow> vm \<Rightarrow> vm" where
  "map_phys_at pdpt virt phys sz flags s =
     (let page_off = ucast (phys AND 0xFFF); p = phys AND NOT 0xFFF; total = page_off + sz
      in map_pages pdpt virt p (page_count 0 total) flags s)"

definition reload_cr3 :: "vm \<Rightarrow> vm" where
  "reload_cr3 s = s\<lparr>cr3 := cr3 s\<rparr>"

definition kern_map_uc :: "u64 \<Rightarrow> u32 \<Rightarrow> vm \<Rightarrow> u32 \<times> vm" where
  "kern_map_uc phys sz s =
     (if kernel_pdpt s = 0 \<or> sz = 0 then (0, s)
      else
        let page_off = ucast (phys AND 0xFFF);
            span = (page_off + sz + 0xFFF) AND NOT 0xFFF
        in if span > MMIO_VIRT_SIZE \<or> mmio_virt_next s - MMIO_VIRT_BASE > MMIO_VIRT_SIZE - span then (0, s)
           else
             let virt = mmio_virt_next s;
                 s = s\<lparr>mmio_virt_next := virt + span\<rparr>;
                 s = map_phys_at (kernel_pdpt s) virt phys sz (PTE_W OR PTE_UC) s;
                 s = (if proc_pdpt s \<noteq> 0 then map_phys_at (proc_pdpt s) virt phys sz (PTE_W OR PTE_UC) s else s);
                 s = (if paging_on s then reload_cr3 s else s)
             in (virt + page_off, s))"

subsection \<open>The framebuffer windows\<close>

definition map_user_framebuffer :: "u32 \<Rightarrow> vm \<Rightarrow> vm" where
  "map_user_framebuffer pdpt s =
     (let s = s\<lparr>gfx_fb_user_mapped := False, gfx_fb_size := 0\<rparr> in
      if gfx_lfb_phys s = 0 then s
      else let bytes = gfx_pitch s * gfx_h s in
        if bytes = 0 \<or> bytes > USER_FB_SIZE then s
        else
          let s = s\<lparr>gfx_fb_size := bytes, gfx_fb_user_addr := USER_FB_BASE, gfx_fb_user_mapped := True\<rparr>;
              start = gfx_fb_user_addr s AND NOT 0xFFF;
              stop = (gfx_fb_user_addr s + bytes + 0xFFF) AND NOT 0xFFF;
              phys = gfx_lfb_phys s - ucast (gfx_fb_user_addr s - start)
          in map_pages pdpt start phys (page_count start stop)
               (PTE_W OR PTE_U OR (if pat_wc_ready s then PTE_PAT else 0)) s)"

definition remap_user_framebuffer :: "vm \<Rightarrow> vm" where
  "remap_user_framebuffer s =
     (if proc_pdpt s = 0 then s
      else let s = map_user_framebuffer (proc_pdpt s) s
           in if \<not> gfx_fb_user_mapped s then s else reload_cr3 s)"

definition refresh_user_framebuffer_mapping :: "vm \<Rightarrow> vm" where
  "refresh_user_framebuffer_mapping s =
     (if proc_pdpt s = 0 then s
      else let s = map_user_framebuffer (proc_pdpt s) s
           in if \<not> gfx_fb_user_mapped s then s else reload_cr3 s)"

text \<open>\<open>pat_init\<close>, given the feature bits \<open>cpuid\<close> reports in \<open>edx\<close>.\<close>

definition pat_init :: "u32 \<Rightarrow> vm \<Rightarrow> vm" where
  "pat_init edx s = (if edx AND push_bit 16 1 = 0 then s else s\<lparr>pat_wc_ready := True\<rparr>)"

definition gfx_map_lfb :: "u64 \<Rightarrow> u32 \<Rightarrow> vm \<Rightarrow> vm" where
  "gfx_map_lfb phys bytes s =
     (let s = s\<lparr>gfx_lfb_phys := phys\<rparr> in
      if phys = 0 \<or> bytes = 0 \<or> bytes > FB_VIRT_SIZE then s\<lparr>gfx_lfb := 0\<rparr>
      else
        let fb_flags = (if pat_wc_ready s then PTE_W OR PTE_PAT else PTE_W);
            s = (if kernel_pdpt s \<noteq> 0 then map_phys_at (kernel_pdpt s) FB_VIRT_BASE phys bytes fb_flags s else s);
            s = (if proc_pdpt s \<noteq> 0 then map_phys_at (proc_pdpt s) FB_VIRT_BASE phys bytes fb_flags s else s);
            s = s\<lparr>gfx_lfb := FB_VIRT_BASE + ucast (phys AND 0xFFF)\<rparr>
        in if paging_on s then reload_cr3 s else s)"

subsection \<open>Address spaces\<close>

definition paging_enable :: "u32 \<Rightarrow> vm \<Rightarrow> vm" where
  "paging_enable pdpt s = s\<lparr>cr3 := pdpt, paging_on := True\<rparr>"

definition paging_switch :: "u32 \<Rightarrow> vm \<Rightarrow> vm" where
  "paging_switch pdpt s = s\<lparr>cr3 := pdpt\<rparr>"

fun clear_entries :: "u32 \<Rightarrow> nat \<Rightarrow> nat \<Rightarrow> vm \<Rightarrow> vm" where
  "clear_entries pd i 0 s = s"
| "clear_entries pd i (Suc n) s = clear_entries pd (i + 1) n (set_entry pd i 0 s)"

text \<open>The page loop of \<open>map_user_space\<close>: \<open>n\<close> pages left, the next at offset \<open>off\<close>.\<close>

fun map_arena :: "u32 \<Rightarrow> nat \<Rightarrow> u32 \<Rightarrow> u32 \<Rightarrow> vm \<Rightarrow> vm" where
  "map_arena pdpt 0 off phys s = s"
| "map_arena pdpt (Suc n) off phys s =
     map_arena pdpt n (off + PAGE_SIZE) (phys + PAGE_SIZE)
       (if off = USER_STACK_GUARD_OFF then s
        else map_page pdpt (USER_BASE + off) (ucast phys) (PTE_W OR PTE_U) s)"

definition map_user_space :: "u32 \<Rightarrow> vm \<Rightarrow> vm" where
  "map_user_space pdpt s =
     (let pd = pae_pd pdpt USER_BASE s;
          pd_start = pd_index USER_BASE;
          pd_count = unat (drop_bit 21 USER_SPACE_SIZE) + (if USER_SPACE_SIZE AND 0x1FFFFF \<noteq> 0 then 1 else 0);
          s = clear_entries pd pd_start pd_count s
      in map_arena pdpt (page_count 0 USER_FB_OFFSET) 0 (user_phys_base s) s)"

text \<open>The process's page directories: fresh copies of the kernel's.\<close>

fun copy_pds :: "nat \<Rightarrow> nat \<Rightarrow> vm \<Rightarrow> vm" where
  "copy_pds i 0 s = s"
| "copy_pds i (Suc n) s =
     (let (pd, s) = alloc_page_phys s;
          src = entry_ptr (tabs s (kernel_pdpt s) i);
          s = s\<lparr>tabs := (tabs s)(pd := tabs s src)\<rparr>
      in copy_pds (i + 1) n (set_entry (proc_pdpt s) i (ucast pd OR ucast PTE_P) s))"

definition paging_init :: "u32 \<Rightarrow> vm \<Rightarrow> vm" where
  "paging_init kernel_end s =
     (let s = s\<lparr>phys_free := align_up kernel_end PAGE_SIZE\<rparr>;
          (kp, s) = alloc_page_phys s;
          s = pdpt_init kp (s\<lparr>kernel_pdpt := kp\<rparr>);
          s = map_identity kp 0 KERNEL_IDENTITY_LIMIT PTE_W s;
          (pp, s) = alloc_page_phys s;
          s = copy_pds 0 PAE_PDPT_ENTRIES (s\<lparr>proc_pdpt := pp\<rparr>);
          s = (if fb_enabled s \<and> gfx_lfb_phys s \<noteq> 0
               then (let s = gfx_map_lfb (gfx_lfb_phys s) (gfx_pitch s * gfx_h s) s
                     in if gfx_lfb s = 0 then s\<lparr>fb_enabled := False\<rparr> else s)
               else s);
          upb = align_up (phys_free s) PAGE_SIZE;
          upl = upb + USER_ARENA_SIZE;
          upl = (if upl < upb then upb else upl);
          s = s\<lparr>user_phys_base := upb, user_phys_limit := upl, phys_free := upl\<rparr>;
          dma = align_up (phys_free s) PAGE_SIZE;
          s = (if dma + USER_DMA_SIZE \<le> KERNEL_IDENTITY_LIMIT
               then s\<lparr>dma_arena_base := dma, phys_free := dma + USER_DMA_SIZE\<rparr>
               else s\<lparr>dma_arena_base := 0\<rparr>);
          s = (if phys_free s < USER_BASE + USER_SPACE_SIZE
               then s\<lparr>phys_free := USER_BASE + USER_SPACE_SIZE\<rparr> else s)
      in paging_enable pp (map_user_framebuffer pp (map_user_space pp s)))"

subsection \<open>Windows for user-space drivers\<close>

text \<open>\<open>SYS_MAP_PHYS\<close>.\<close>

definition sys_map_phys :: "u32 \<Rightarrow> u32 \<Rightarrow> u32 \<Rightarrow> vm \<Rightarrow> u32 \<times> vm" where
  "sys_map_phys lo hi sz s =
     (let phys = push_bit 32 (ucast hi) OR ucast lo in
      if sz = 0 \<or> sz > USER_MMIO_SIZE then (ERR, s)
      else
        let page_off = ucast (phys AND 0xFFF);
            span = (page_off + sz + 0xFFF) AND NOT 0xFFF
        in if span > USER_MMIO_SIZE - user_mmio_used s then (ERR, s)
           else
             let virt = USER_MMIO_BASE + user_mmio_used s;
                 s = s\<lparr>user_mmio_used := user_mmio_used s + span\<rparr>;
                 s = reload_cr3 (map_phys_at (proc_pdpt s) virt phys sz (PTE_W OR PTE_U OR PTE_UC) s)
             in (virt - USER_BASE + page_off, s))"

text \<open>
  \<open>SYS_DMA_ALLOC\<close>: besides the new state, the address range the call clears (the physical address, used as a pointer) and the two words
  it stores at the caller's pointer.
\<close>

definition sys_dma_alloc :: "u32 \<Rightarrow> u32 \<Rightarrow> vm \<Rightarrow> u32 \<times> (u32 \<times> u32) option \<times> u32 list \<times> vm" where
  "sys_dma_alloc req out s =
     (let sz = (req + 0xFFF) AND NOT 0xFFF in
      if sz = 0 \<or> sz > USER_DMA_SIZE then (ERR, None, [], s)
      else if sz > USER_DMA_SIZE - user_dma_used s then (ERR, None, [], s)
      else if \<not> user_range_ok out 8 then (ERR, None, [], s)
      else
        let phys = dma_arena_base s + user_dma_used s;
            virt = USER_DMA_BASE + user_dma_used s;
            s = s\<lparr>user_dma_used := user_dma_used s + sz\<rparr>;
            s = reload_cr3 (map_pages (proc_pdpt s) virt (ucast phys) (page_count 0 sz) (PTE_W OR PTE_U) s)
        in (0, Some (phys, sz), [virt - USER_BASE, phys], s))"

subsection \<open>The hardware's walk\<close>

text \<open>The directory and table entry the processor uses for \<open>virt\<close> when CR3 is \<open>pdpt\<close>.\<close>

definition walk :: "vm \<Rightarrow> u32 \<Rightarrow> u32 \<Rightarrow> (u64 \<times> u64) option" where
  "walk s pdpt virt =
     (let e3 = tabs s pdpt (unat (drop_bit 30 virt)) in
      if \<not> entry_present e3 then None
      else let e2 = tabs s (entry_ptr e3) (pd_index virt) in
        if \<not> entry_present e2 then None
        else let e1 = tabs s (entry_ptr e2) (pt_index virt) in
          if \<not> entry_present e1 then None else Some (e2, e1))"

text \<open>Physical page, accessible from user mode, writable from there.\<close>

definition translate :: "vm \<Rightarrow> u32 \<Rightarrow> u32 \<Rightarrow> (u64 \<times> bool \<times> bool) option" where
  "translate s pdpt virt =
     map_option (\<lambda>(e2, e1). (e1 AND NOT 0xFFF, bit e2 2 \<and> bit e1 2, bit e2 1 \<and> bit e1 1)) (walk s pdpt virt)"

subsection \<open>Entries\<close>

lemma entry_present_bit: "entry_present e \<longleftrightarrow> bit e 0"
  by (simp add: entry_present_def PTE_P_def and_one_eq mod_2_eq_odd bit_0)

lemma entry_present_OR [simp]: "entry_present (x OR ucast (f OR PTE_P))"
  by (simp add: entry_present_bit bit_simps PTE_P_def)

lemma entry_present_0 [simp]: "\<not> entry_present 0"
  by (simp add: entry_present_bit)

lemma low12: "(0xFFF :: u32) = mask 12" "(0xFFF :: u64) = mask 12"
  by (simp_all add: mask_eq_exp_minus_1)

definition page_aligned :: "u32 \<Rightarrow> bool" where "page_aligned p \<longleftrightarrow> p AND 0xFFF = 0"

lemma page_aligned_bit:
  assumes "page_aligned p" "n < 12"
  shows "\<not> bit p n"
proof -
  have "\<not> bit (p AND mask 12) n" using assms(1) by (simp add: page_aligned_def low12)
  then show ?thesis using assms(2) by (simp add: bit_simps)
qed

lemma page_aligned_unat: "page_aligned p \<longleftrightarrow> unat p mod 4096 = 0"
proof -
  have "p AND 0xFFF = take_bit 12 p" by (simp add: low12 take_bit_eq_mask)
  moreover have "unat (take_bit 12 p) = unat p mod 4096" by (simp add: take_bit_eq_mod unat_mod)
  ultimately show ?thesis unfolding page_aligned_def by (metis unat_eq_zero unsigned_0)
qed

lemma entry_ptr_make:
  assumes "page_aligned p" "f AND NOT 0xFFF = 0"
  shows "entry_ptr (ucast p OR ucast (f :: u32)) = p"
proof (rule bit_word_eqI)
  fix n :: nat assume n: "n < LENGTH(32)"
  have f: "\<not> bit f n" if "12 \<le> n"
  proof -
    have "\<not> bit (f AND NOT 0xFFF) n" using assms(2) by simp
    then show ?thesis using that n by (simp add: low12 bit_simps)
  qed
  show "bit (entry_ptr (ucast p OR ucast f)) n = bit p n"
    using n f page_aligned_bit [OF assms(1), of n]
    by (cases "n < 12") (auto simp: entry_ptr_def low12 bit_simps)
qed

lemma page_aligned_add: "page_aligned p \<Longrightarrow> unat p + 4096 < 4294967296 \<Longrightarrow> page_aligned (p + 4096)"
  by (simp add: page_aligned_unat unat_add32)

subsection \<open>Indices\<close>

definition vpn :: "u32 \<Rightarrow> nat" where "vpn v = unat v div 4096"

lemma index_nat:
  "unat (drop_bit 30 v) = vpn v div 262144" "pd_index v = vpn v div 512 mod 512" "pt_index v = vpn v mod 512"
proof -
  have m: "(0x1FF :: u32) = mask 9" by (simp add: mask_eq_exp_minus_1)
  show "unat (drop_bit 30 v) = vpn v div 262144"
    by (simp add: vpn_def unat_div drop_bit_eq_div div_mult2_eq [symmetric])
  show "pd_index v = vpn v div 512 mod 512" "pt_index v = vpn v mod 512"
    unfolding pd_index_def pt_index_def vpn_def m take_bit_eq_mask [symmetric] unsigned_take_bit_eq
    by (simp_all add: take_bit_eq_mod unat_div drop_bit_eq_div div_mult2_eq [symmetric])
qed

lemma index_bounds: "unat (drop_bit 30 (v :: u32)) < 4" "pd_index v < 512" "pt_index v < 512"
proof -
  have "vpn v < 1048576" unfolding vpn_def using unat_lt_2_32 [of v] by (simp add: less_mult_imp_div_less)
  then show "unat (drop_bit 30 v) < 4" unfolding index_nat by (simp add: less_mult_imp_div_less)
qed (simp_all add: index_nat)

lemma index_inj:
  assumes "unat (drop_bit 30 v) = unat (drop_bit 30 (v' :: u32))" "pd_index v = pd_index v'" "pt_index v = pt_index v'"
  shows "vpn v = vpn v'"
proof -
  have d: "n = n div 262144 * 262144 + n div 512 mod 512 * 512 + n mod 512" for n :: nat
  proof -
    define a where "a = n div 512"
    have "n div 262144 = a div 512" unfolding a_def by (simp add: div_mult2_eq [symmetric])
    moreover have "a = a div 512 * 512 + a mod 512" "n = a * 512 + n mod 512" by (simp_all add: a_def)
    ultimately show ?thesis unfolding a_def [symmetric] by linarith
  qed
  show ?thesis using d [of "vpn v"] d [of "vpn v'"] assms unfolding index_nat by metis
qed

subsection \<open>One mapping\<close>

text \<open>
  The tables reached from \<open>P\<close> form a tree: the four directories are there, no table is reached in
  two ways, and all of them lie below the allocator's next page.
\<close>

definition pdir :: "vm \<Rightarrow> u32 \<Rightarrow> nat \<Rightarrow> u32" where "pdir s P i = entry_ptr (tabs s P i)"
definition ptab :: "vm \<Rightarrow> u32 \<Rightarrow> nat \<Rightarrow> nat \<Rightarrow> u32" where "ptab s P i j = entry_ptr (tabs s (pdir s P i) j)"
definition pde_on :: "vm \<Rightarrow> u32 \<Rightarrow> nat \<Rightarrow> nat \<Rightarrow> bool" where
  "pde_on s P i j \<longleftrightarrow> entry_present (tabs s (pdir s P i) j)"

definition tree :: "vm \<Rightarrow> u32 \<Rightarrow> bool" where
  "tree s P \<longleftrightarrow> page_aligned (phys_free s) \<and> P < phys_free s \<and>
     (\<forall>i < 4. entry_present (tabs s P i) \<and> pdir s P i \<noteq> P \<and> pdir s P i < phys_free s) \<and>
     (\<forall>i < 4. \<forall>k < 4. pdir s P i = pdir s P k \<longrightarrow> i = k) \<and>
     (\<forall>i < 4. \<forall>j < 512. pde_on s P i j \<longrightarrow>
        ptab s P i j \<noteq> P \<and> (\<forall>k < 4. ptab s P i j \<noteq> pdir s P k) \<and> ptab s P i j < phys_free s) \<and>
     (\<forall>i < 4. \<forall>j < 512. \<forall>k < 4. \<forall>l < 512. pde_on s P i j \<longrightarrow> pde_on s P k l \<longrightarrow>
        ptab s P i j = ptab s P k l \<longrightarrow> i = k \<and> j = l)"

lemma treeD:
  assumes "tree s P"
  shows "page_aligned (phys_free s)" "P < phys_free s"
    and "i < 4 \<Longrightarrow> entry_present (tabs s P i)" "i < 4 \<Longrightarrow> pdir s P i \<noteq> P" "i < 4 \<Longrightarrow> pdir s P i < phys_free s"
    and "i < 4 \<Longrightarrow> k < 4 \<Longrightarrow> pdir s P i = pdir s P k \<Longrightarrow> i = k"
    and "i < 4 \<Longrightarrow> j < 512 \<Longrightarrow> pde_on s P i j \<Longrightarrow> ptab s P i j \<noteq> P"
    and "i < 4 \<Longrightarrow> j < 512 \<Longrightarrow> pde_on s P i j \<Longrightarrow> k < 4 \<Longrightarrow> ptab s P i j \<noteq> pdir s P k"
    and "i < 4 \<Longrightarrow> j < 512 \<Longrightarrow> pde_on s P i j \<Longrightarrow> ptab s P i j < phys_free s"
    and "i < 4 \<Longrightarrow> j < 512 \<Longrightarrow> k < 4 \<Longrightarrow> l < 512 \<Longrightarrow> pde_on s P i j \<Longrightarrow> pde_on s P k l \<Longrightarrow>
           ptab s P i j = ptab s P k l \<Longrightarrow> i = k \<and> j = l"
  using assms unfolding tree_def by blast+

lemma walk_tree:
  assumes "tree s P"
  shows "walk s P v =
    (let i = unat (drop_bit 30 v); j = pd_index v in
     if pde_on s P i j \<and> entry_present (tabs s (ptab s P i j) (pt_index v))
     then Some (tabs s (pdir s P i) j, tabs s (ptab s P i j) (pt_index v)) else None)"
  using treeD(3) [OF assms index_bounds(1)]
  by (simp add: walk_def Let_def pdir_def ptab_def pde_on_def)

text \<open>What changes when an entry of a table that is not the root is set.\<close>

lemma set_entry_tabs [simp]: "tabs (set_entry t i v s) = (tabs s)(t := (tabs s t)(i := v))"
  "phys_free (set_entry t i v s) = phys_free s"
  by (simp_all add: set_entry_def)

text \<open>Setting an entry of a page table below \<open>P\<close>.\<close>

lemma set_pte:
  assumes t: "tree s P" and i: "i < 4" "j < 512" and on: "pde_on s P i j"
    and s'_def: "s' = set_entry (ptab s P i j) x v s"
  shows "pdir s' P k = pdir s P k" and "k < 4 \<Longrightarrow> pde_on s' P k l = pde_on s P k l"
    and "k < 4 \<Longrightarrow> ptab s' P k l = ptab s P k l" and "tree s' P"
    and "k < 4 \<Longrightarrow> tabs s' (pdir s P k) = tabs s (pdir s P k)"
    and "k < 4 \<Longrightarrow> l < 512 \<Longrightarrow> pde_on s P k l \<Longrightarrow> tabs s' (ptab s P k l) y =
          (if (k, l, y) = (i, j, x) then v else tabs s (ptab s P k l) y)"
proof -
  have nP: "ptab s P i j \<noteq> P" and nD: "\<And>k. k < 4 \<Longrightarrow> pdir s P k \<noteq> ptab s P i j"
    using treeD(7) [OF t i on] treeD(8) [OF t i on] by metis+
  show d: "pdir s' P k = pdir s P k" for k using nP by (simp add: s'_def pdir_def)
  show e: "tabs s' (pdir s P k) = tabs s (pdir s P k)" if "k < 4" for k
    using nD [OF that] by (simp add: s'_def)
  show o: "pde_on s' P k l = pde_on s P k l" "ptab s' P k l = ptab s P k l" if "k < 4" for k l
    using e [OF that] d by (simp_all add: pde_on_def ptab_def)
  have p: "tabs s' P = tabs s P" using nP by (simp add: s'_def)
  show "tree s' P"
    using t unfolding tree_def by (simp add: d o p s'_def [symmetric]) (simp add: s'_def)
  show "tabs s' (ptab s P k l) y = (if (k, l, y) = (i, j, x) then v else tabs s (ptab s P k l) y)"
    if "k < 4" "l < 512" "pde_on s P k l"
    using treeD(10) [OF t that(1,2) i that(3) on] by (auto simp: s'_def)
qed

text \<open>There is physical memory for one more table.\<close>

definition room :: "vm \<Rightarrow> nat \<Rightarrow> bool" where
  "room s n \<longleftrightarrow> unat (phys_free s) + 4096 * n < 4294967296"

text \<open>Hanging a fresh, empty page table below a directory.\<close>

lemma new_pt:
  assumes t: "tree s P" and i: "i < 4" "j < 512" and off: "\<not> pde_on s P i j" and rm: "room s 1"
    and fl: "(f :: u32) AND NOT 0xFFF = 0" "bit f 0"
    and s'_def: "s' = set_entry (pdir s P i) j (ucast (phys_free s) OR ucast f) (snd (alloc_page_phys s))"
  shows "k < 4 \<Longrightarrow> pdir s' P k = pdir s P k"
    and "k < 4 \<Longrightarrow> pde_on s' P k l = ((k, l) = (i, j) \<or> pde_on s P k l)"
    and "k < 4 \<Longrightarrow> ptab s' P k l = (if (k, l) = (i, j) then phys_free s else ptab s P k l)"
    and "tree s' P" and "tabs s' (phys_free s) = (\<lambda>_. 0)"
    and "k < 4 \<Longrightarrow> tabs s' (pdir s P k) l =
          (if (k, l) = (i, j) then ucast (phys_free s) OR ucast f else tabs s (pdir s P k) l)"
    and "k < 4 \<Longrightarrow> l < 512 \<Longrightarrow> pde_on s P k l \<Longrightarrow> tabs s' (ptab s P k l) = tabs s (ptab s P k l)"
    and "phys_free s' = phys_free s + 4096"
proof -
  let ?e = "ucast (phys_free s) OR ucast f :: u64"
  have up: "phys_free s < phys_free s + 4096" and al: "page_aligned (phys_free s + 4096)"
    using rm page_aligned_add [OF treeD(1) [OF t]] by (auto simp: room_def word_less_nat_alt unat_add32)
  have T: "tabs s' a = (if a = pdir s P i then (((tabs s)(phys_free s := \<lambda>_. 0)) a)(j := ?e)
      else ((tabs s)(phys_free s := \<lambda>_. 0)) a)" for a
    by (simp add: s'_def alloc_page_phys_def Let_def)
  have lt: "P \<noteq> phys_free s" "\<And>k. k < 4 \<Longrightarrow> pdir s P k \<noteq> phys_free s"
    using treeD(2) [OF t] treeD(5) [OF t] by (auto dest: less_imp_neq)
  have ltp: "ptab s P k l \<noteq> phys_free s" if "k < 4" "l < 512" "pde_on s P k l" for k l
    using treeD(9) [OF t that] by auto
  have root: "tabs s' P = tabs s P" using treeD(4) [OF t i(1)] lt by (auto simp: T)
  show d: "pdir s' P k = pdir s P k" if "k < 4" for k using root by (simp add: pdir_def)
  show dir: "tabs s' (pdir s P k) l = (if (k, l) = (i, j) then ?e else tabs s (pdir s P k) l)"
    if "k < 4" for k l
    using treeD(6) [OF t that i(1)] lt(2) [OF that] by (auto simp: T)
  have pe: "entry_present ?e" "entry_ptr ?e = phys_free s"
    using fl entry_ptr_make [OF treeD(1) [OF t] fl(1)] by (simp_all add: entry_present_bit bit_simps)
  show o: "pde_on s' P k l = ((k, l) = (i, j) \<or> pde_on s P k l)" if "k < 4" for k l
    using dir [OF that, of l] d [OF that] pe(1) by (auto simp: pde_on_def)
  show p: "ptab s' P k l = (if (k, l) = (i, j) then phys_free s else ptab s P k l)" if "k < 4" for k l
    using dir [OF that, of l] d [OF that] pe(2) by (auto simp: ptab_def)
  show "tabs s' (phys_free s) = (\<lambda>_. 0)" using lt(2) [OF i(1)] by (auto simp: T)
  show pf: "phys_free s' = phys_free s + 4096" by (simp add: s'_def alloc_page_phys_def Let_def PAGE_SIZE_def)
  show "tabs s' (ptab s P k l) = tabs s (ptab s P k l)" if "k < 4" "l < 512" "pde_on s P k l"
    using ltp [OF that] treeD(8) [OF t that i(1)] by (simp add: T)
  show "tree s' P"
    unfolding tree_def
  proof (intro conjI allI impI)
    show "page_aligned (phys_free s')" "P < phys_free s'"
      using al up treeD(2) [OF t] by (auto simp: pf)
    fix k :: nat assume k: "k < 4"
    show "entry_present (tabs s' P k)" "pdir s' P k \<noteq> P" "pdir s' P k < phys_free s'"
      using treeD(3-5) [OF t k] up by (auto simp: root d [OF k] pf)
    fix l :: nat
    show "k = l" if "l < 4" "pdir s' P k = pdir s' P l" using treeD(6) [OF t k that(1)] that d k by simp
    assume l: "l < 512"
    show "ptab s' P k l \<noteq> P" if "pde_on s' P k l"
      using that o [OF k] p [OF k, of l] lt treeD(7) [OF t k l] by auto
    show "ptab s' P k l \<noteq> pdir s' P m" if "pde_on s' P k l" "m < 4" for m
      using that o [OF k] p [OF k, of l] lt(2) treeD(8) [OF t k l] d by (auto split: if_splits) metis
    show "ptab s' P k l < phys_free s'" if "pde_on s' P k l"
      using that o [OF k] p [OF k, of l] up treeD(9) [OF t k l] by (auto simp: pf split: if_splits)
    fix m n :: nat assume mn: "m < 4" "n < 512" and on: "pde_on s' P k l" "pde_on s' P m n"
      and eq: "ptab s' P k l = ptab s' P m n"
    have "k = m \<and> l = n"
      using on eq o [OF k] o [OF mn(1)] p [OF k, of l] p [OF mn(1), of n] ltp k l mn treeD(10) [OF t k l mn]
      by (auto split: if_splits)
    then show "k = m" "l = n" by simp_all
  qed
qed

text \<open>The directory entry a mapping goes through afterwards.\<close>

definition pde_after :: "vm \<Rightarrow> u32 \<Rightarrow> u32 \<Rightarrow> u32 \<Rightarrow> u64" where
  "pde_after s P v fl =
     (let pd = pae_pd P v s; e = tabs s pd (pd_index v) in
      if entry_present e then e
      else ucast (phys_free s) OR ucast (if fl AND PTE_U \<noteq> 0 then PTE_P OR PTE_W OR PTE_U else PTE_P OR PTE_W))"

definition pte_of :: "u64 \<Rightarrow> u32 \<Rightarrow> u64" where
  "pte_of phys fl = (phys AND NOT 0xFFF) OR ucast (fl OR PTE_P)"

text \<open>The directory entry for an address.\<close>

definition pde_val :: "vm \<Rightarrow> u32 \<Rightarrow> u32 \<Rightarrow> u64" where
  "pde_val s P v = tabs s (pdir s P (unat (drop_bit 30 v))) (pd_index v)"

lemma same_pde:
  "(unat (drop_bit 30 w), pd_index w) = (unat (drop_bit 30 (v :: u32)), pd_index v) \<longleftrightarrow> vpn w div 512 = vpn v div 512"
proof
  show "vpn w div 512 = vpn v div 512"
    if "(unat (drop_bit 30 w), pd_index w) = (unat (drop_bit 30 v), pd_index v)"
  proof -
    have "n div 512 = n div 262144 * 512 + n div 512 mod 512" for n :: nat
    proof -
      have "n div 262144 = n div 512 div 512" by (simp add: div_mult2_eq [symmetric])
      then show ?thesis by simp
    qed
    then show ?thesis using that unfolding index_nat by (metis prod.inject)
  qed
  show "(unat (drop_bit 30 w), pd_index w) = (unat (drop_bit 30 v), pd_index v)"
    if "vpn w div 512 = vpn v div 512"
  proof -
    have "n div 262144 = n div 512 div 512" for n :: nat by (simp add: div_mult2_eq [symmetric])
    then show ?thesis using that by (simp add: index_nat)
  qed
qed

lemma map_page_facts:
  assumes t: "tree s P" and rm: "room s 1" and s': "s' = map_page P v phys fl s"
  shows "tree s' P"
    and "walk s' P v = Some (pde_after s P v fl, pte_of phys fl)"
    and "vpn w \<noteq> vpn v \<Longrightarrow> walk s' P w = walk s P w"
    and "phys_free s' = (if pde_on s P (unat (drop_bit 30 v)) (pd_index v) then phys_free s else phys_free s + 4096)"
    and "pde_val s' P w = (if vpn w div 512 = vpn v div 512 then pde_after s P v fl else pde_val s P w)"
    and "k < 4 \<Longrightarrow> pdir s' P k = pdir s P k"
proof -
  let ?i = "unat (drop_bit 30 v)" and ?j = "pd_index v" and ?x = "pt_index v"
  let ?f = "if fl AND PTE_U \<noteq> 0 then PTE_P OR PTE_W OR PTE_U else PTE_P OR PTE_W"
  define s1 where "s1 = (if pde_on s P ?i ?j then s
     else set_entry (pdir s P ?i) ?j (ucast (phys_free s) OR ucast ?f) (snd (alloc_page_phys s)))"
  have ij: "?i < 4" "?j < 512" "?x < 512" by (rule index_bounds)+
  have f: "?f AND NOT 0xFFF = 0" "bit ?f 0" by (simp_all add: pte_defs)
  note N = new_pt [OF t ij(1,2) _ rm f refl]
  have t1: "tree s1 P" using t N(4) by (simp add: s1_def)
  have on1: "pde_on s1 P ?i ?j" using N(2) [OF _ ij(1)] by (simp add: s1_def)
  have s'1: "s' = set_entry (ptab s1 P ?i ?j) ?x (pte_of phys fl) s1"
  proof (cases "pde_on s P ?i ?j")
    case True
    then show ?thesis
      by (simp add: s' s1_def map_page_def Let_def pae_pd_def pde_on_def ptab_def pdir_def pte_of_def)
  next
    case False
    then have "ptab s1 P ?i ?j = phys_free s" using N(3) [OF False ij(1), of ?j] by (simp add: s1_def)
    with False show ?thesis
      by (simp add: s' s1_def map_page_def Let_def pae_pd_def pde_on_def pdir_def pte_of_def alloc_page_phys_def)
  qed
  note S = set_pte [OF t1 ij(1,2) on1 s'1]
  show ts: "tree s' P" by (rule S(4))
  show "pdir s' P k = pdir s P k" if "k < 4" for k
    using S(1) [of k] N(1) [OF _ that] by (cases "pde_on s P ?i ?j") (simp_all add: s1_def)
  have pd1: "tabs s1 (pdir s1 P ?i) ?j = pde_after s P v fl"
    using N(6) [OF _ ij(1), of ?j] N(1) [OF _ ij(1)]
    by (auto simp: s1_def pde_after_def Let_def pae_pd_def pde_on_def pdir_def [symmetric])
  show "walk s' P v = Some (pde_after s P v fl, pte_of phys fl)"
    unfolding walk_tree [OF ts] using S(2,3,5,6) [OF ij(1)] on1 ij pd1
    by (simp add: Let_def S(1) pte_of_def)
  show "pde_val s' P w = (if vpn w div 512 = vpn v div 512 then pde_after s P v fl else pde_val s P w)"
  proof -
    let ?k = "unat (drop_bit 30 w)" and ?l = "pd_index w"
    have "pde_val s' P w = tabs s1 (pdir s1 P ?k) ?l"
      using S(1,5) index_bounds(1) by (simp add: pde_val_def)
    also have "\<dots> = (if (?k, ?l) = (?i, ?j) then pde_after s P v fl else pde_val s P w)"
      using pd1 N(6) [OF _ index_bounds(1) [of w], of ?l] N(1) [OF _ index_bounds(1) [of w]]
      by (auto simp: s1_def pde_val_def)
    finally show ?thesis unfolding same_pde .
  qed
  show "phys_free s' = (if pde_on s P ?i ?j then phys_free s else phys_free s + 4096)"
    using N(8) by (simp add: s'1 s1_def)
  show "walk s' P w = walk s P w" if ne: "vpn w \<noteq> vpn v"
  proof -
    let ?k = "unat (drop_bit 30 w)" and ?l = "pd_index w" and ?y = "pt_index w"
    have kl: "?k < 4" "?l < 512" "?y < 512" by (rule index_bounds)+
    have diff: "(?k, ?l, ?y) \<noteq> (?i, ?j, ?x)" using index_inj [of w v] ne by auto
    have "walk s' P w = walk s1 P w"
      unfolding walk_tree [OF ts] walk_tree [OF t1] using S(2,3,5,6) [OF kl(1)] diff kl
      by (auto simp: Let_def S(1))
    also have "walk s1 P w = walk s P w"
    proof (cases "pde_on s P ?i ?j")
      case False
      note M = N [OF False]
      have s1: "s1 = set_entry (pdir s P ?i) ?j (ucast (phys_free s) OR ucast ?f) (snd (alloc_page_phys s))"
        using False by (simp add: s1_def)
      show ?thesis
        unfolding walk_tree [OF t1] walk_tree [OF t]
        using M(1-3,5-7) [folded s1] kl False by (auto simp: Let_def)
    qed (simp add: s1_def)
    finally show ?thesis .
  qed
qed

subsection \<open>Ranges of pages\<close>

lemma unat_add_pages:
  assumes "unat v + 4096 * k < 4294967296"
  shows "unat (v + of_nat (4096 * k) :: u32) = unat v + 4096 * k"
proof -
  have "unat (of_nat (4096 * k) :: u32) = 4096 * k" by (rule unat_of_nat32) (use assms in linarith)
  with assms show ?thesis by (subst unat_add32) simp_all
qed

lemma vpn_add:
  assumes "unat v + 4096 * k < 4294967296"
  shows "vpn (v + of_nat (4096 * k)) = vpn v + k"
  unfolding vpn_def unat_add_pages [OF assms] by simp

lemma walk_vpn: "vpn w = vpn v \<Longrightarrow> walk s P w = walk s P v"
  by (simp add: walk_def index_nat Let_def)

text \<open>
  What a run of mappings does to the walk of its own address space: the pages of the range are
  mapped one after the other, and no other page is touched.
\<close>

lemma map_pages_facts:
  assumes "tree s P" "room s n" "unat v + 4096 * n \<le> 4294967296" "s' = map_pages P v phys n fl s"
  shows "tree s' P \<and>
     (unat (phys_free s) \<le> unat (phys_free s') \<and> unat (phys_free s') \<le> unat (phys_free s) + 4096 * n) \<and>
     (\<forall>w. vpn w < vpn v \<or> vpn v + n \<le> vpn w \<longrightarrow> walk s' P w = walk s P w) \<and>
     (\<forall>w. vpn v \<le> vpn w \<and> vpn w < vpn v + n \<longrightarrow>
        (\<exists>e. walk s' P w = Some (e, pte_of (phys + of_nat (4096 * (vpn w - vpn v))) fl)))"
  using assms
proof (induction n arbitrary: s v phys)
  case 0
  then show ?case by auto
next
  case (Suc n)
  define s1 where "s1 = map_page P v phys fl s"
  have rm: "room s 1" using Suc.prems(2) by (simp add: room_def)
  note M = map_page_facts [OF Suc.prems(1) rm s1_def]
  have pf: "unat (phys_free s) \<le> unat (phys_free s1) \<and> unat (phys_free s1) \<le> unat (phys_free s) + 4096"
    using M(4) rm by (auto simp: room_def unat_add32)
  then have rm1: "room s1 n" using Suc.prems(2) by (auto simp: room_def)
  have run: "s' = map_pages P (v + 4096) (phys + 4096) n fl s1"
    using Suc.prems(4) by (simp add: s1_def PAGE_SIZE_def)
  have v1: "unat (v + 4096) = unat v + 4096 \<and> vpn (v + 4096) = vpn v + 1" if "n \<noteq> 0"
  proof -
    have lt: "unat v + 4096 * 1 < 4294967296" using Suc.prems(3) that by simp
    show ?thesis using unat_add_pages [OF lt] vpn_add [OF lt] by simp
  qed
  have b: "unat (v + 4096) + 4096 * n \<le> 4294967296"
    using v1 Suc.prems(3) by (cases "n = 0") (simp_all add: less_imp_le)
  note IH = Suc.IH [OF M(1) rm1 b run]
  have here: "walk s1 P w = Some (pde_after s P v fl, pte_of phys fl)" if "vpn w = vpn v" for w
    using M(2) walk_vpn [OF that] by simp
  have there: "walk s' P w = walk s1 P w" if "vpn w \<le> vpn v \<or> vpn v + Suc n \<le> vpn w" for w
    using IH v1 that by (cases "n = 0") auto
  have in_range: "\<exists>e. walk s' P w = Some (e, pte_of (phys + of_nat (4096 * (vpn w - vpn v))) fl)"
    if w: "vpn v < vpn w" "vpn w < vpn v + Suc n" for w
  proof -
    have n: "n \<noteq> 0" using w by linarith
    have "4096 * (vpn w - vpn v) = 4096 + 4096 * (vpn w - (vpn v + 1))" using w by simp
    then have "phys + of_nat (4096 * (vpn w - vpn v)) = phys + 4096 + of_nat (4096 * (vpn w - (vpn v + 1)))"
      by (simp only: of_nat_add of_nat_numeral add.assoc)
    moreover have "\<exists>e. walk s' P w = Some (e, pte_of (phys + 4096 + of_nat (4096 * (vpn w - (vpn v + 1)))) fl)"
      using IH v1 [OF n] w by auto
    ultimately show ?thesis by (simp only:)
  qed
  show ?case
  proof (intro conjI allI impI)
    show "tree s' P" using IH by blast
    show "unat (phys_free s) \<le> unat (phys_free s')" "unat (phys_free s') \<le> unat (phys_free s) + 4096 * Suc n"
      using IH pf by auto
    show "walk s' P w = walk s P w" if "vpn w < vpn v \<or> vpn v + Suc n \<le> vpn w" for w
      using that there [of w] M(3) [of w] by auto
    show "\<exists>e. walk s' P w = Some (e, pte_of (phys + of_nat (4096 * (vpn w - vpn v))) fl)"
      if "vpn v \<le> vpn w \<and> vpn w < vpn v + Suc n" for w
      using that in_range [of w] there [of w] here [of w] by (cases "vpn w = vpn v") auto
  qed
qed

text \<open>An invariant that each mapping of the range keeps.\<close>

lemma map_pages_inv:
  assumes "tree s P" "room s n" "unat v + 4096 * n \<le> 4294967296" "I s"
    and step: "\<And>s x ph. tree s P \<Longrightarrow> room s 1 \<Longrightarrow> vpn v \<le> vpn x \<Longrightarrow> vpn x < vpn v + n \<Longrightarrow> I s \<Longrightarrow>
      I (map_page P x ph fl s)"
  shows "I (map_pages P v phys n fl s)"
  using assms
proof (induction n arbitrary: s v phys)
  case 0
  then show ?case by simp
next
  case (Suc n)
  define s1 where "s1 = map_page P v phys fl s"
  have rm: "room s 1" using Suc.prems(2) by (simp add: room_def)
  note M = map_page_facts [OF Suc.prems(1) rm s1_def]
  have rm1: "room s1 n" using Suc.prems(2) M(4) by (auto simp: room_def unat_add32)
  have v1: "unat (v + 4096) = unat v + 4096 \<and> vpn (v + 4096) = vpn v + 1" if "n \<noteq> 0"
  proof -
    have lt: "unat v + 4096 * 1 < 4294967296" using Suc.prems(3) that by simp
    show ?thesis using unat_add_pages [OF lt] vpn_add [OF lt] by simp
  qed
  have b: "unat (v + 4096) + 4096 * n \<le> 4294967296"
    using v1 Suc.prems(3) by (cases "n = 0") (simp_all add: less_imp_le)
  have "I s1" unfolding s1_def by (rule Suc.prems(5) [OF Suc.prems(1) rm _ _ Suc.prems(4)]) simp_all
  moreover have "I (map_page P x ph fl t)"
    if "tree t P" "room t 1" "vpn (v + 4096) \<le> vpn x" "vpn x < vpn (v + 4096) + n" "I t" for t x ph
    using that v1 by (cases "n = 0") (auto intro!: Suc.prems(5))
  ultimately have "I (map_pages P (v + 4096) (phys + 4096) n fl s1)"
    by (intro Suc.IH [OF M(1) rm1 b])
  then show ?case by (simp add: s1_def PAGE_SIZE_def)
qed

subsection \<open>User and supervisor pages\<close>

text \<open>
  \<open>user_dirs s P A\<close>: directory entries used for pages in \<open>A\<close> let user-mode accesses through.
  \<open>kernel_only s P A\<close>: no page outside \<open>A\<close> is accessible from user mode.
\<close>

definition user_dirs :: "vm \<Rightarrow> u32 \<Rightarrow> nat set \<Rightarrow> bool" where
  "user_dirs s P A \<longleftrightarrow> (\<forall>v. vpn v \<in> A \<longrightarrow> entry_present (pde_val s P v) \<longrightarrow>
     bit (pde_val s P v) 2 \<and> bit (pde_val s P v) 1)"

definition kernel_only :: "vm \<Rightarrow> u32 \<Rightarrow> nat set \<Rightarrow> bool" where
  "kernel_only s P A \<longleftrightarrow> (\<forall>v ph w. vpn v \<notin> A \<longrightarrow> translate s P v \<noteq> Some (ph, True, w))"

lemma pde_after_user:
  assumes "fl AND PTE_U \<noteq> 0" "user_dirs s P A" "vpn v \<in> A" "tree s P"
  shows "bit (pde_after s P v fl) 2 \<and> bit (pde_after s P v fl) 1"
proof (cases "entry_present (pde_val s P v)")
  case True
  then have "pde_after s P v fl = pde_val s P v"
    by (simp add: pde_after_def pde_val_def pae_pd_def pdir_def Let_def)
  with True assms(2,3) show ?thesis by (simp add: user_dirs_def)
next
  case False
  then have "pde_after s P v fl = ucast (phys_free s) OR ucast (PTE_P OR PTE_W OR PTE_U)"
    using assms(1) by (simp add: pde_after_def pde_val_def pae_pd_def pdir_def Let_def)
  then show ?thesis by (simp add: pte_defs bit_simps)
qed

lemma user_dirs_map_page:
  assumes "fl AND PTE_U \<noteq> 0" "user_dirs s P A" "vpn v \<in> A" "tree s P" "room s 1"
  shows "user_dirs (map_page P v ph fl s) P A"
  using map_page_facts(5) [OF assms(4,5) refl] pde_after_user [OF assms(1-4)] assms(2)
  by (auto simp: user_dirs_def)

lemma pte_of_bits:
  "entry_present (pte_of ph fl)" "1 \<le> n \<Longrightarrow> n < 12 \<Longrightarrow> bit (pte_of ph fl) n = bit fl n"
proof -
  show "entry_present (pte_of ph fl)" by (simp add: pte_of_def)
  show "bit (pte_of ph fl) n = bit fl n" if "1 \<le> n" "n < 12"
    using that by (auto simp: pte_of_def low12 bit_simps PTE_P_def)
qed

text \<open>A supervisor mapping anywhere, or a user mapping inside \<open>A\<close>, keeps the rest of the space closed.\<close>

lemma kernel_only_map_page:
  assumes "kernel_only s P A" "tree s P" "room s 1" "vpn v \<in> A \<or> \<not> bit fl 2"
  shows "kernel_only (map_page P v ph fl s) P A"
  unfolding kernel_only_def
proof (intro allI impI)
  fix w p b assume w: "vpn w \<notin> A"
  define s' where "s' = map_page P v ph fl s"
  note M = map_page_facts [OF assms(2,3) s'_def]
  have "translate s' P w \<noteq> Some (p, True, b)"
  proof (cases "vpn w = vpn v")
    case True
    then have "\<not> bit fl 2" using assms(4) w by auto
    then have "\<not> bit (pte_of ph fl) 2" using pte_of_bits(2) by simp
    then show ?thesis using M(2) walk_vpn [OF True] by (simp add: translate_def)
  next
    case False
    then have "translate s' P w = translate s P w" using M(3) by (simp add: translate_def)
    then show ?thesis using assms(1) w by (simp add: kernel_only_def)
  qed
  then show "translate (map_page P v ph fl s) P w \<noteq> Some (p, True, b)" by (simp add: s'_def)
qed

end
