(* ===== verification/AddressSpace.thy ===== *)
theory AddressSpace
  imports Paging
begin

text \<open>
  What \<open>paging_init\<close> of kernel/kernel.c achieves: the address space user programs run in. The
  stages of \<open>paging_init\<close> are followed one by one (directories, identity map, copied directories,
  framebuffer window, user arena, user framebuffer) and put together in the isolation theorem;
  the driver windows of \<open>SYS_MAP_PHYS\<close> and \<open>SYS_DMA_ALLOC\<close> extend that address space.
\<close>

subsection \<open>Mapping changes nothing but tables\<close>

definition same_cfg :: "vm \<Rightarrow> vm \<Rightarrow> bool" where
  "same_cfg s s' \<longleftrightarrow> s' = s\<lparr>tabs := tabs s', phys_free := phys_free s'\<rparr>"

lemma same_cfg_refl [simp]: "same_cfg s s"
  by (simp add: same_cfg_def)

lemma same_cfg_trans: "same_cfg s s' \<Longrightarrow> same_cfg s' s'' \<Longrightarrow> same_cfg s s''"
  by (simp add: same_cfg_def) (metis (no_types, lifting) vm.surjective vm.update_convs(1,2))

lemma same_cfg_set_entry [simp]: "same_cfg s (set_entry t i v s)"
  by (simp add: same_cfg_def set_entry_def)

lemma same_cfg_alloc [simp]: "same_cfg s (snd (alloc_page_phys s))"
  by (simp add: same_cfg_def alloc_page_phys_def Let_def)

lemma same_cfg_map_page: "same_cfg s (map_page P v ph fl s)"
  by (auto simp: map_page_def Let_def same_cfg_def set_entry_def alloc_page_phys_def)

lemma same_cfg_map_pages: "same_cfg s (map_pages P v ph n fl s)"
  by (induction n arbitrary: s v ph) (auto intro: same_cfg_trans [OF same_cfg_map_page])

lemma same_cfgD:
  assumes "same_cfg s s'"
  shows "kernel_pdpt s' = kernel_pdpt s" "proc_pdpt s' = proc_pdpt s" "paging_on s' = paging_on s" "cr3 s' = cr3 s"
    "user_phys_base s' = user_phys_base s" "user_phys_limit s' = user_phys_limit s"
    "dma_arena_base s' = dma_arena_base s" "user_mmio_used s' = user_mmio_used s" "user_dma_used s' = user_dma_used s"
    "pat_wc_ready s' = pat_wc_ready s" "fb_enabled s' = fb_enabled s" "gfx_lfb_phys s' = gfx_lfb_phys s"
    "gfx_pitch s' = gfx_pitch s" "gfx_h s' = gfx_h s" "mmio_virt_next s' = mmio_virt_next s"
    "gfx_fb_user_addr s' = gfx_fb_user_addr s" "gfx_fb_user_mapped s' = gfx_fb_user_mapped s" "gfx_lfb s' = gfx_lfb s" "gfx_fb_size s' = gfx_fb_size s"
proof -
  obtain x y where s': "s' = s\<lparr>tabs := x, phys_free := y\<rparr>" using assms unfolding same_cfg_def by blast
  show "kernel_pdpt s' = kernel_pdpt s" "proc_pdpt s' = proc_pdpt s" "paging_on s' = paging_on s" "cr3 s' = cr3 s"
    "user_phys_base s' = user_phys_base s" "user_phys_limit s' = user_phys_limit s"
    "dma_arena_base s' = dma_arena_base s" "user_mmio_used s' = user_mmio_used s" "user_dma_used s' = user_dma_used s"
    "pat_wc_ready s' = pat_wc_ready s" "fb_enabled s' = fb_enabled s" "gfx_lfb_phys s' = gfx_lfb_phys s"
    "gfx_pitch s' = gfx_pitch s" "gfx_h s' = gfx_h s" "mmio_virt_next s' = mmio_virt_next s"
    "gfx_fb_user_addr s' = gfx_fb_user_addr s" "gfx_fb_user_mapped s' = gfx_fb_user_mapped s" "gfx_lfb s' = gfx_lfb s" "gfx_fb_size s' = gfx_fb_size s"
    unfolding s' by simp_all
qed

subsection \<open>How many tables a range takes\<close>

text \<open>At most one new page table per 2 MB of the range.\<close>

lemma pde_on_val: "pde_on s P (unat (drop_bit 30 v)) (pd_index v) = entry_present (pde_val s P v)"
  by (simp add: pde_on_def pde_val_def)

lemma pde_after_present: "entry_present (pde_after s P v fl)"
  by (simp add: pde_after_def Let_def entry_present_bit PTE_P_def PTE_W_def PTE_U_def bit_simps)

lemma map_page_alloc:
  assumes "tree s P" "room s 1"
  shows "unat (phys_free (map_page P v ph fl s)) =
    unat (phys_free s) + (if entry_present (pde_val s P v) then 0 else 4096)"
  using map_page_facts(4) [OF assms refl] assms(2)
  by (auto simp: pde_on_val room_def unat_add32)

lemma map_pages_alloc:
  assumes "tree s P" "room s (Suc n)" "unat v + 4096 * Suc n \<le> 4294967296"
  shows "unat (phys_free (map_pages P v phys (Suc n) fl s)) \<le> unat (phys_free s) +
    4096 * ((vpn v + n) div 512 - vpn v div 512 + (if entry_present (pde_val s P v) then 0 else 1))"
  using assms
proof (induction n arbitrary: s v phys)
  case 0
  then show ?case by (simp add: map_page_alloc room_def)
next
  case (Suc n)
  define s1 where "s1 = map_page P v phys fl s"
  have rm: "room s 1" using Suc.prems(2) by (simp add: room_def)
  note M = map_page_facts [OF Suc.prems(1) rm s1_def]
  have pf: "unat (phys_free s1) = unat (phys_free s) + (if entry_present (pde_val s P v) then 0 else 4096)"
    unfolding s1_def by (rule map_page_alloc [OF Suc.prems(1) rm])
  have rm1: "room s1 (Suc n)" using Suc.prems(2) pf by (auto simp: room_def)
  have lt: "unat v + 4096 * 1 < 4294967296" using Suc.prems(3) by simp
  have v1: "unat (v + 4096) = unat v + 4096" "vpn (v + 4096) = vpn v + 1"
    using unat_add_pages [OF lt] vpn_add [OF lt] by simp_all
  define X where "X = unat (phys_free (map_pages P (v + 4096) (phys + 4096) (Suc n) fl s1))"
  have "X \<le> unat (phys_free s1) +
    4096 * ((vpn (v + 4096) + n) div 512 - vpn (v + 4096) div 512 +
      (if entry_present (pde_val s1 P (v + 4096)) then 0 else 1))"
    unfolding X_def by (rule Suc.IH [OF M(1) rm1]) (use Suc.prems(3) v1 in simp)
  moreover have "entry_present (pde_val s1 P (v + 4096))" if "(vpn v + 1) div 512 = vpn v div 512"
    using M(5) [of "v + 4096"] that v1 by (simp add: pde_after_present)
  moreover have "(vpn v + 1) div 512 = vpn v div 512 \<or> (vpn v + 1) div 512 = vpn v div 512 + 1" by linarith
  moreover have "(vpn v + 1) div 512 \<le> (vpn v + 1 + n) div 512" by (simp add: div_le_mono)
  ultimately have "X \<le> unat (phys_free s1) + 4096 * ((vpn v + Suc n) div 512 - vpn v div 512)"
    unfolding v1(2) by (elim disjE) (simp_all split: if_splits, linarith+)
  with pf show ?case by (simp add: X_def s1_def PAGE_SIZE_def split: if_splits)
qed

subsection \<open>Two address spaces side by side\<close>

definition tables :: "vm \<Rightarrow> u32 \<Rightarrow> u32 set" where
  "tables s P = insert P (pdir s P ` {..<4} \<union> {entry_ptr (pde_val s P v) | v. entry_present (pde_val s P v)})"

lemma ptab_val: "ptab s P (unat (drop_bit 30 v)) (pd_index v) = entry_ptr (pde_val s P v)"
  by (simp add: ptab_def pde_val_def)

lemma tables_below:
  assumes "tree s P" "t \<in> tables s P"
  shows "t < phys_free s"
proof -
  have "entry_ptr (pde_val s P v) < phys_free s" if "entry_present (pde_val s P v)" for v
    using treeD(9) [OF assms(1) index_bounds(1,2), of v v] that by (simp add: pde_on_val ptab_val)
  then show ?thesis using assms treeD(2,5) [OF assms(1)] by (auto simp: tables_def)
qed

lemma tables_in: "P \<in> tables s P" "k < 4 \<Longrightarrow> pdir s P k \<in> tables s P"
  "entry_present (pde_val s P v) \<Longrightarrow> entry_ptr (pde_val s P v) \<in> tables s P"
  by (auto simp: tables_def)

text \<open>An address space whose tables are left alone stays as it is.\<close>

lemma tables_untouched:
  assumes t: "tree s Q" and eq: "\<And>x. x \<in> tables s Q \<Longrightarrow> tabs s' x = tabs s x"
    and pf: "phys_free s \<le> phys_free s'" "page_aligned (phys_free s')"
  shows "tree s' Q" "walk s' Q v = walk s Q v" "tables s' Q = tables s Q" "pde_val s' Q v = pde_val s Q v"
    and "k < 4 \<Longrightarrow> pdir s' Q k = pdir s Q k"
proof -
  have r: "tabs s' Q = tabs s Q" by (rule eq) (rule tables_in)
  show d: "pdir s' Q k = pdir s Q k" if "k < 4" for k using r by (simp add: pdir_def)
  have e: "tabs s' (pdir s Q k) = tabs s (pdir s Q k)" if "k < 4" for k using eq tables_in(2) [OF that] by simp
  have o: "pde_on s' Q k j = pde_on s Q k j" "ptab s' Q k j = ptab s Q k j" if "k < 4" for k j
    using d [OF that] e [OF that] by (simp_all add: pde_on_def ptab_def)
  show t': "tree s' Q"
    using t pf unfolding tree_def by (simp add: r d o cong: conj_cong imp_cong) (meson less_le_trans)
  show pv: "pde_val s' Q v = pde_val s Q v" for v using d e index_bounds(1) by (simp add: pde_val_def)
  show "tables s' Q = tables s Q" unfolding tables_def pv using d by auto
  show "walk s' Q v = walk s Q v"
  proof -
    have b: "unat (drop_bit 30 v) < 4" "pd_index v < 512" by (rule index_bounds)+
    have "pde_on s Q (unat (drop_bit 30 v)) (pd_index v) \<Longrightarrow>
        tabs s' (ptab s Q (unat (drop_bit 30 v)) (pd_index v)) = tabs s (ptab s Q (unat (drop_bit 30 v)) (pd_index v))"
      unfolding ptab_val pde_on_val by (rule eq) (rule tables_in(3))
    then show ?thesis unfolding walk_tree [OF t'] walk_tree [OF t] by (auto simp: Let_def d e o b)
  qed
qed

text \<open>\<open>apart s P Q A\<close>: mapping pages of \<open>A\<close> below \<open>P\<close> writes no table of \<open>Q\<close>.\<close>

definition apart :: "vm \<Rightarrow> u32 \<Rightarrow> u32 \<Rightarrow> nat set \<Rightarrow> bool" where
  "apart s P Q A \<longleftrightarrow> (\<forall>k < 4. pdir s P k \<notin> tables s Q) \<and>
     (\<forall>v. vpn v \<in> A \<longrightarrow> entry_present (pde_val s P v) \<longrightarrow> entry_ptr (pde_val s P v) \<notin> tables s Q)"

text \<open>The tables \<open>map_page\<close> writes.\<close>

lemma map_page_writes:
  assumes "x \<noteq> pdir s P (unat (drop_bit 30 v))" "x \<noteq> phys_free s"
    and "entry_present (pde_val s P v) \<Longrightarrow> x \<noteq> entry_ptr (pde_val s P v)"
  shows "tabs (map_page P v ph fl s) x = tabs s x"
  using assms
  by (auto simp: map_page_def Let_def alloc_page_phys_def pae_pd_def pde_val_def pdir_def)

lemma map_page_apart:
  assumes t: "tree s P" "tree s Q" and rm: "room s 1" and ap: "apart s P Q A" and v: "vpn v \<in> A"
    and s': "s' = map_page P v ph fl s"
  shows "tree s' Q" "walk s' Q w = walk s Q w" "tables s' Q = tables s Q" "pde_val s' Q w = pde_val s Q w" "apart s' P Q A"
    and "k < 4 \<Longrightarrow> pdir s' Q k = pdir s Q k"
proof -
  note M = map_page_facts [OF t(1) rm s']
  have eq: "tabs s' x = tabs s x" if x: "x \<in> tables s Q" for x
    unfolding s'
  proof (rule map_page_writes)
    show "x \<noteq> pdir s P (unat (drop_bit 30 v))" using ap x index_bounds(1) by (auto simp: apart_def)
    show "x \<noteq> phys_free s" using tables_below [OF t(2) x] by auto
    show "x \<noteq> entry_ptr (pde_val s P v)" if "entry_present (pde_val s P v)"
      using ap x v that by (auto simp: apart_def)
  qed
  have pf: "phys_free s \<le> phys_free s'" "page_aligned (phys_free s')"
    using M(4) rm treeD(1) [OF M(1)] by (auto simp: word_le_nat_alt room_def unat_add32)
  note U = tables_untouched [OF t(2) eq pf]
  show "tree s' Q" by (rule U(1))
  show "walk s' Q w = walk s Q w" by (rule U(2))
  show T: "tables s' Q = tables s Q" by (rule U(3))
  show "pde_val s' Q w = pde_val s Q w" by (rule U(4))
  show "pdir s' Q k = pdir s Q k" if "k < 4" for k by (rule U(5) [OF _ that])
  have new: "entry_ptr (pde_after s P v fl) \<notin> tables s Q"
  proof (cases "entry_present (pde_val s P v)")
    case True
    then have "pde_after s P v fl = pde_val s P v"
      by (simp add: pde_after_def pde_val_def pae_pd_def pdir_def Let_def)
    with True ap v show ?thesis by (auto simp: apart_def)
  next
    case False
    have fl: "(if fl AND PTE_U \<noteq> 0 then PTE_P OR PTE_W OR PTE_U else PTE_P OR PTE_W) AND NOT 0xFFF = 0"
      by (simp add: pte_defs)
    have "pde_after s P v fl = ucast (phys_free s) OR ucast (if fl AND PTE_U \<noteq> 0 then PTE_P OR PTE_W OR PTE_U else PTE_P OR PTE_W)"
      using False by (simp add: pde_after_def pde_val_def pae_pd_def pdir_def Let_def)
    then have "entry_ptr (pde_after s P v fl) = phys_free s"
      using entry_ptr_make [OF treeD(1) [OF t(1)] fl] by simp
    then show ?thesis using tables_below [OF t(2)] by auto
  qed
  show "apart s' P Q A"
    unfolding apart_def T
  proof (intro conjI allI impI)
    show "pdir s' P k \<notin> tables s Q" if "k < 4" for k using that M(6) ap by (simp add: apart_def)
    fix x assume "vpn x \<in> A" "entry_present (pde_val s' P x)"
    then show "entry_ptr (pde_val s' P x) \<notin> tables s Q"
      using M(5) [of x] new ap by (auto simp: apart_def)
  qed
qed

lemma map_pages_apart:
  assumes "tree s P" "tree s Q" "room s n" "unat v + 4096 * n \<le> 4294967296" "apart s P Q A"
    and "{vpn v..<vpn v + n} \<subseteq> A" and s': "s' = map_pages P v ph n fl s"
  shows "tree s' Q \<and> (\<forall>w. walk s' Q w = walk s Q w) \<and> (\<forall>w. pde_val s' Q w = pde_val s Q w) \<and>
    (\<forall>k < 4. pdir s' Q k = pdir s Q k) \<and> apart s' P Q A"
  unfolding s'
proof (rule map_pages_inv [where I = "\<lambda>u. tree u Q \<and> (\<forall>w. walk u Q w = walk s Q w) \<and> (\<forall>w. pde_val u Q w = pde_val s Q w) \<and>
    (\<forall>k < 4. pdir u Q k = pdir s Q k) \<and> apart u P Q A", OF assms(1,3,4)])
  fix u x p
  assume u: "tree u P" "room u 1" "vpn v \<le> vpn x" "vpn x < vpn v + n"
    and I: "tree u Q \<and> (\<forall>w. walk u Q w = walk s Q w) \<and> (\<forall>w. pde_val u Q w = pde_val s Q w) \<and>
      (\<forall>k < 4. pdir u Q k = pdir s Q k) \<and> apart u P Q A"
  have x: "vpn x \<in> A" using u(3,4) assms(6) by auto
  from I have t: "tree u Q" and ap: "apart u P Q A" by blast+
  note M = map_page_apart [OF u(1) t u(2) ap x refl]
  show "tree (map_page P x p fl u) Q \<and> (\<forall>w. walk (map_page P x p fl u) Q w = walk s Q w) \<and>
      (\<forall>w. pde_val (map_page P x p fl u) Q w = pde_val s Q w) \<and>
      (\<forall>k < 4. pdir (map_page P x p fl u) Q k = pdir s Q k) \<and> apart (map_page P x p fl u) P Q A"
    using I M by simp
qed (use assms in simp)

subsection \<open>Fresh directories\<close>

text \<open>A loop that allocates directories with given contents and enters them in \<open>Q\<close>.\<close>

fun dir_loop :: "(nat \<Rightarrow> nat \<Rightarrow> u64) \<Rightarrow> nat \<Rightarrow> nat \<Rightarrow> u32 \<Rightarrow> vm \<Rightarrow> vm" where
  "dir_loop D i 0 Q s = s"
| "dir_loop D i (Suc n) Q s =
     (let (p, s) = alloc_page_phys s; s = s\<lparr>tabs := (tabs s)(p := D i)\<rparr>
      in dir_loop D (i + 1) n Q (set_entry Q i (ucast p OR ucast PTE_P) s))"

lemma pdpt_init_dirs: "pdpt_init_loop i n Q s = dir_loop (\<lambda>_ _. 0) i n Q s"
  by (induction n arbitrary: i s) (auto simp: alloc_page_phys_def Let_def)

lemma dir_loop_facts:
  assumes "Q < phys_free s" "unat (phys_free s) + 4096 * n < 4294967296" "s' = dir_loop D i n Q s"
  shows "unat (phys_free s') = unat (phys_free s) + 4096 * n \<and>
    (\<forall>k < n. tabs s' (phys_free s + of_nat (4096 * k)) = D (i + k)) \<and>
    (\<forall>k. tabs s' Q k = (if i \<le> k \<and> k < i + n then ucast (phys_free s + of_nat (4096 * (k - i))) OR ucast PTE_P
        else tabs s Q k)) \<and>
    (\<forall>t. t < phys_free s \<and> t \<noteq> Q \<longrightarrow> tabs s' t = tabs s t) \<and> same_cfg s s'"
  using assms
proof (induction n arbitrary: i s)
  case 0
  then show ?case by auto
next
  case (Suc n)
  let ?F = "phys_free s"
  define s1 where "s1 = set_entry Q i (ucast ?F OR ucast PTE_P) (s\<lparr>phys_free := ?F + PAGE_SIZE, tabs := (tabs s)(?F := D i)\<rparr>)"
  have F1: "phys_free s1 = ?F + 4096" "unat (?F + 4096) = unat ?F + 4096"
    using Suc.prems(2) by (auto simp: s1_def PAGE_SIZE_def unat_add32)
  have lt: "?F < ?F + 4096" by (simp add: word_less_nat_alt F1)
  have T1: "tabs s1 t = (if t = Q then (tabs s Q)(i := ucast ?F OR ucast PTE_P) else if t = ?F then D i else tabs s t)" for t
    using less_imp_neq [OF Suc.prems(1)] by (auto simp: s1_def)
  have Q1: "Q < phys_free s1" using Suc.prems(1) lt by (simp add: F1)
  have run: "s' = dir_loop D (i + 1) n Q s1"
    using Suc.prems(3) by (simp add: alloc_page_phys_def Let_def s1_def)
  have "unat (phys_free s1) + 4096 * n < 4294967296" using Suc.prems(2) by (simp add: F1)
  note IH = Suc.IH [OF Q1 this run]
  have step: "?F + of_nat (4096 * k) = phys_free s1 + of_nat (4096 * (k - 1))" if "0 < k" for k
  proof -
    have "4096 * k = 4096 + 4096 * (k - 1)" using that by (cases k) simp_all
    then show ?thesis unfolding F1 by (simp only: of_nat_add of_nat_numeral add.assoc)
  qed
  have own: "tabs s' ?F = D i" using IH lt Suc.prems(1) by (auto simp: F1 T1)
  show ?case
  proof (intro conjI allI impI)
    show "unat (phys_free s') = unat ?F + 4096 * Suc n" using IH by (simp add: F1)
    show "tabs s' (?F + of_nat (4096 * k)) = D (i + k)" if "k < Suc n" for k
    proof (cases k)
      case (Suc j)
      then have "tabs s' (phys_free s1 + of_nat (4096 * j)) = D (i + 1 + j)" using IH that by auto
      moreover have "?F + of_nat (4096 * k) = phys_free s1 + of_nat (4096 * j)"
        using step [of "Suc j"] unfolding Suc diff_Suc_1 by blast
      ultimately have "tabs s' (?F + of_nat (4096 * k)) = D (i + 1 + j)" by (simp only:)
      then show ?thesis using Suc by (simp only: add.assoc plus_1_eq_Suc)
    qed (use own in simp)
    show "tabs s' Q k = (if i \<le> k \<and> k < i + Suc n then ucast (?F + of_nat (4096 * (k - i))) OR ucast PTE_P
        else tabs s Q k)" for k
    proof (cases "i + 1 \<le> k \<and> k < i + 1 + n")
      case True
      then have "tabs s' Q k = ucast (phys_free s1 + of_nat (4096 * (k - (i + 1)))) OR ucast PTE_P" using IH by simp
      moreover have "?F + of_nat (4096 * (k - i)) = phys_free s1 + of_nat (4096 * (k - (i + 1)))"
        using step [of "k - i"] True by (simp only: diff_diff_left) simp
      ultimately have "tabs s' Q k = ucast (?F + of_nat (4096 * (k - i))) OR ucast PTE_P" by (simp only:)
      moreover have "i \<le> k \<and> k < i + Suc n" using True by linarith
      ultimately show ?thesis by (simp only: if_True simp_thms)
    next
      case False
      have "tabs s' Q k = (if i + 1 \<le> k \<and> k < i + 1 + n
          then ucast (phys_free s1 + of_nat (4096 * (k - (i + 1)))) OR ucast PTE_P else tabs s1 Q k)"
        using IH by blast
      then have "tabs s' Q k = tabs s1 Q k" unfolding if_not_P [OF False] .
      then show ?thesis using False by (auto simp: T1)
    qed
    show "tabs s' t = tabs s t" if "t < ?F \<and> t \<noteq> Q" for t
    proof -
      have "t < phys_free s1 \<and> t \<noteq> Q" "t \<noteq> ?F" using that lt by (auto simp: F1)
      then have "tabs s' t = tabs s1 t" using IH by blast
      then show ?thesis using that \<open>t \<noteq> ?F\<close> by (simp add: T1)
    qed
    have "same_cfg s s1" by (simp add: s1_def same_cfg_def set_entry_def)
    then show "same_cfg s s'" using IH by (blast intro: same_cfg_trans)
  qed
qed

text \<open>Copying the kernel's directories is such a loop, the contents being those of the kernel's.\<close>

lemma copy_pds_dirs:
  assumes "kernel_pdpt s = P" "proc_pdpt s = Q" "P < phys_free s" "Q < phys_free s" "P \<noteq> Q"
    and "\<And>k. i \<le> k \<Longrightarrow> k < i + n \<Longrightarrow> pdir s P k < phys_free s \<and> pdir s P k \<noteq> Q"
    and "unat (phys_free s) + 4096 * n < 4294967296" "\<And>k. i \<le> k \<Longrightarrow> k < i + n \<Longrightarrow> D k = tabs s (pdir s P k)"
  shows "copy_pds i n s = dir_loop D i n Q s"
  using assms
proof (induction n arbitrary: i s)
  case 0
  then show ?case by simp
next
  case (Suc n)
  let ?F = "phys_free s"
  define s1 where "s1 = set_entry Q i (ucast ?F OR ucast PTE_P) (s\<lparr>phys_free := ?F + PAGE_SIZE, tabs := (tabs s)(?F := D i)\<rparr>)"
  have F1: "phys_free s1 = ?F + 4096" "unat (?F + 4096) = unat ?F + 4096"
    using Suc.prems(7) by (auto simp: s1_def PAGE_SIZE_def unat_add32)
  have lt: "?F < ?F + 4096" by (simp add: word_less_nat_alt F1)
  have old: "tabs s1 t = tabs s t" if "t < ?F" "t \<noteq> Q" for t using that by (auto simp: s1_def)
  have dirs: "pdir s1 P k = pdir s P k" for k using old [OF Suc.prems(3,5)] by (simp add: pdir_def)
  have src: "entry_ptr (tabs s P i) = pdir s P i" "pdir s P i \<noteq> ?F" "P \<noteq> ?F"
    using Suc.prems(3) Suc.prems(6) [of i] by (auto simp: pdir_def)
  have c: "copy_pds i (Suc n) s = copy_pds (i + 1) n s1"
    using src Suc.prems(1,2) Suc.prems(8) [of i]
    by (simp add: alloc_page_phys_def Let_def s1_def PAGE_SIZE_def)
  have d: "dir_loop D i (Suc n) Q s = dir_loop D (i + 1) n Q s1"
    by (simp add: alloc_page_phys_def Let_def s1_def)
  have "copy_pds (i + 1) n s1 = dir_loop D (i + 1) n Q s1"
  proof (rule Suc.IH)
    show "kernel_pdpt s1 = P" "proc_pdpt s1 = Q" using Suc.prems(1,2) by (simp_all add: s1_def set_entry_def)
    show "P < phys_free s1" "Q < phys_free s1" using Suc.prems(3,4) lt by (auto simp: F1)
    show "P \<noteq> Q" by (rule Suc.prems(5))
    show "unat (phys_free s1) + 4096 * n < 4294967296" using Suc.prems(7) by (simp add: F1)
    fix k assume k: "i + 1 \<le> k" "k < i + 1 + n"
    then have p: "pdir s P k < ?F" "pdir s P k \<noteq> Q" "D k = tabs s (pdir s P k)"
      using Suc.prems(6) [of k] Suc.prems(8) [of k] by simp_all
    show "pdir s1 P k < phys_free s1 \<and> pdir s1 P k \<noteq> Q" using p lt by (auto simp: dirs F1)
    show "D k = tabs s1 (pdir s1 P k)" using p old [of "pdir s P k"] by (simp add: dirs)
  qed
  with c d show ?case by simp
qed

lemma dir_addr:
  assumes "page_aligned F" "unat F + 4096 * 4 < 4294967296" "i < 4"
  shows "unat (F + of_nat (4096 * i)) = unat F + 4096 * i" "page_aligned (F + of_nat (4096 * i))"
proof -
  show u: "unat (F + of_nat (4096 * i)) = unat F + 4096 * i"
    by (rule unat_add_pages) (use assms(2,3) in linarith)
  show "page_aligned (F + of_nat (4096 * i))" using assms(1) unfolding page_aligned_unat u by simp
qed

lemma dir_loop_tree:
  assumes Q: "Q < phys_free s" and al: "page_aligned (phys_free s)" and rm: "room s 4"
    and s': "s' = dir_loop D 0 4 Q s"
    and pts: "\<And>i j. i < 4 \<Longrightarrow> j < 512 \<Longrightarrow> entry_present (D i j) \<Longrightarrow> entry_ptr (D i j) < phys_free s \<and> entry_ptr (D i j) \<noteq> Q"
    and inj: "\<And>i j k l. i < 4 \<Longrightarrow> j < 512 \<Longrightarrow> k < 4 \<Longrightarrow> l < 512 \<Longrightarrow> entry_present (D i j) \<Longrightarrow> entry_present (D k l) \<Longrightarrow>
      entry_ptr (D i j) = entry_ptr (D k l) \<Longrightarrow> i = k \<and> j = l"
  shows "i < 4 \<Longrightarrow> pdir s' Q i = phys_free s + of_nat (4096 * i)" "i < 4 \<Longrightarrow> tabs s' (pdir s' Q i) = D i"
    and "tree s' Q"
proof -
  let ?F = "phys_free s"
  have r4: "unat ?F + 4096 * 4 < 4294967296" using rm by (simp add: room_def)
  note L = dir_loop_facts [OF Q r4 s']
  note A = dir_addr [OF al r4]
  have e: "tabs s' Q i = ucast (?F + of_nat (4096 * i)) OR ucast PTE_P" if "i < 4" for i using L that by simp
  have P: "PTE_P AND NOT 0xFFF = 0" by (simp add: PTE_P_def)
  show d: "pdir s' Q i = ?F + of_nat (4096 * i)" if "i < 4" for i
    unfolding pdir_def e [OF that] by (rule entry_ptr_make [OF A(2) [OF that] P])
  show c: "tabs s' (pdir s' Q i) = D i" if "i < 4" for i using L d that by simp
  have ud: "unat (pdir s' Q i) = unat ?F + 4096 * i" if "i < 4" for i using d A(1) that by simp
  have pf: "unat (phys_free s') = unat ?F + 16384" using L by simp
  have o: "pde_on s' Q i j = entry_present (D i j)" "ptab s' Q i j = entry_ptr (D i j)" if "i < 4" for i j
    using c [OF that] by (simp_all add: pde_on_def ptab_def)
  have uQ: "unat Q < unat ?F" using Q by (simp add: word_less_nat_alt)
  have pt: "unat (entry_ptr (D i j)) < unat ?F" if "i < 4" "j < 512" "entry_present (D i j)" for i j
    using pts that by (simp add: word_less_nat_alt)
  show "tree s' Q"
    unfolding tree_def
  proof (intro conjI allI impI)
    show "page_aligned (phys_free s')" using al conjunct1 [OF L] by (simp only: page_aligned_unat mod_mult_self2)
    show "Q < phys_free s'" using uQ pf by (simp add: word_less_nat_alt)
    fix i :: nat assume i: "i < 4"
    show "entry_present (tabs s' Q i)" by (simp add: e [OF i] entry_present_bit PTE_P_def bit_simps)
    show "pdir s' Q i \<noteq> Q" using ud [OF i] uQ by auto
    show "pdir s' Q i < phys_free s'" using ud [OF i] pf i by (simp add: word_less_nat_alt)
    fix k :: nat
    show "i = k" if "k < 4" "pdir s' Q i = pdir s' Q k"
    proof -
      have "unat ?F + 4096 * i = unat ?F + 4096 * k" using ud [OF i] ud [OF that(1)] that(2) by metis
      then show ?thesis by simp
    qed
    assume k: "k < 512"
    show "ptab s' Q i k \<noteq> Q" if "pde_on s' Q i k" using that pts [OF i k] by (simp add: o [OF i])
    show "ptab s' Q i k \<noteq> pdir s' Q m" if "pde_on s' Q i k" "m < 4" for m
    proof
      assume "ptab s' Q i k = pdir s' Q m"
      then have "unat (entry_ptr (D i k)) = unat ?F + 4096 * m" using ud [OF that(2)] by (simp add: o [OF i])
      then show False using pt [OF i k] that by (simp add: o [OF i])
    qed
    show "ptab s' Q i k < phys_free s'" if "pde_on s' Q i k"
      using that pt [OF i k] pf by (simp add: o [OF i] word_less_nat_alt)
    fix m n :: nat assume mn: "m < 4" "n < 512" and on: "pde_on s' Q i k" "pde_on s' Q m n"
      and eq: "ptab s' Q i k = ptab s' Q m n"
    have "i = m \<and> k = n" using inj [OF i k mn] on eq by (simp add: o i mn)
    then show "i = m" "k = n" by simp_all
  qed
qed

subsection \<open>The kernel's identity map and the process's copy\<close>

text \<open>
  \<open>low_map s P\<close>: the first 128 MB are mapped one to one for the kernel alone, and nothing in the
  address space is open to user mode.
\<close>

definition low_map :: "vm \<Rightarrow> u32 \<Rightarrow> bool" where
  "low_map s P \<longleftrightarrow> tree s P \<and> kernel_only s P {} \<and>
     (\<forall>v. vpn v < 32768 \<longrightarrow> (\<exists>e. walk s P v = Some (e, pte_of (of_nat (4096 * vpn v)) PTE_W)))"

definition high_clear :: "vm \<Rightarrow> u32 \<Rightarrow> bool" where
  "high_clear s P \<longleftrightarrow> (\<forall>v. 32768 \<le> vpn v \<longrightarrow> \<not> entry_present (pde_val s P v))"

lemma walk_pde: "walk s P v = Some (e, p) \<Longrightarrow> e = pde_val s P v \<and> entry_present (pde_val s P v)"
  by (auto simp: walk_def pde_val_def pdir_def Let_def split: if_splits)

lemma walk_no_pde: "\<not> entry_present (pde_val s P v) \<Longrightarrow> walk s P v = None"
  by (simp add: walk_def pde_val_def pdir_def Let_def)

lemma vpn_high: "n = 32768 \<Longrightarrow> n \<le> vpn w \<Longrightarrow> vpn x < n \<Longrightarrow> vpn w div 512 \<noteq> vpn x div 512"
proof
  assume a: "n = 32768" "n \<le> vpn w" "vpn x < n" "vpn w div 512 = vpn x div 512"
  have "64 \<le> vpn w div 512" using div_le_mono [OF a(2), of 512] a(1) by simp
  moreover have "vpn x div 512 < 64" using a(1,3) by (simp add: less_mult_imp_div_less)
  ultimately show False using a(4) by linarith
qed

lemma kernel_space:
  assumes F: "F = phys_free s" "page_aligned F" and b: "unat F + 4096 * 34000 < 4294967296"
    and s1: "s1 = pdpt_init F (snd (alloc_page_phys s)\<lparr>kernel_pdpt := F\<rparr>)"
    and s2: "s2 = map_identity F 0 KERNEL_IDENTITY_LIMIT PTE_W s1"
  shows "low_map s2 F" "high_clear s2 F" "same_cfg (s\<lparr>kernel_pdpt := F\<rparr>) s2"
    and "unat F + 20480 \<le> unat (phys_free s2)" "unat (phys_free s2) \<le> unat F + 4096 * 69"
    and "F < pdir s2 F 0" "k < 4 \<Longrightarrow> pdir s2 F k < F + 20480"
proof -
  define s0 where "s0 = snd (alloc_page_phys s)\<lparr>kernel_pdpt := F\<rparr>"
  have pf0: "phys_free s0 = F + 4096" by (simp add: s0_def alloc_page_phys_def F Let_def PAGE_SIZE_def)
  have u0: "unat (F + 4096) = unat F + 4096" using b by (simp add: unat_add32)
  have lt: "F < phys_free s0" by (simp add: pf0 word_less_nat_alt u0)
  have al0: "page_aligned (phys_free s0)" unfolding pf0 by (rule page_aligned_add [OF F(2)]) (use b in linarith)
  have rm0: "room s0 4" unfolding room_def pf0 u0 using b by linarith
  have s1': "s1 = dir_loop (\<lambda>_ _. 0) 0 4 F s0"
    unfolding s1 pdpt_init_def PAE_PDPT_ENTRIES_def pdpt_init_dirs s0_def ..
  have r4: "unat (phys_free s0) + 4096 * 4 < 4294967296" using rm0 by (simp add: room_def)
  note L = dir_loop_facts [OF lt r4 s1']
  note T = dir_loop_tree [OF lt al0 rm0 s1', simplified]
  have z: "pde_val s1 F v = 0" for v using T(2) [OF index_bounds(1)] by (simp add: pde_val_def)
  have pf1: "unat (phys_free s1) = unat F + 20480" using L u0 pf0 by simp
  have s2': "s2 = map_pages F 0 0 32768 PTE_W s1"
    unfolding s2 map_identity_def by (simp add: Let_def KERNEL_IDENTITY_LIMIT_def page_count_def)
  have rm1: "room s1 32768" using pf1 b by (simp add: room_def)
  have vb: "unat (0 :: u32) + 4096 * 32768 \<le> 4294967296" by simp
  note M = map_pages_facts [OF T(3) rm1 vb s2']
  have v0: "vpn 0 = 0" by (simp add: vpn_def)
  have hc: "(\<forall>w. 32768 \<le> vpn w \<longrightarrow> pde_val s2 F w = 0) \<and> kernel_only s2 F {} \<and> (\<forall>k < 4. pdir s2 F k = pdir s1 F k)"
    unfolding s2'
  proof (rule map_pages_inv [OF T(3) rm1 vb])
    show "(\<forall>w. 32768 \<le> vpn w \<longrightarrow> pde_val s1 F w = 0) \<and> kernel_only s1 F {} \<and> (\<forall>k < 4. pdir s1 F k = pdir s1 F k)"
      using z by (simp add: kernel_only_def translate_def walk_no_pde)
    fix u x ph
    assume u: "tree u F" "room u 1" and x: "vpn x < vpn 0 + 32768"
      and I: "(\<forall>w. 32768 \<le> vpn w \<longrightarrow> pde_val u F w = 0) \<and> kernel_only u F {} \<and> (\<forall>k < 4. pdir u F k = pdir s1 F k)"
    have x': "vpn x < 32768" using x by (simp add: v0)
    have "\<not> bit PTE_W 2" by (simp add: PTE_W_def)
    then have "kernel_only (map_page F x ph PTE_W u) F {}" using kernel_only_map_page [OF _ u] I by blast
    then show "(\<forall>w. 32768 \<le> vpn w \<longrightarrow> pde_val (map_page F x ph PTE_W u) F w = 0) \<and>
        kernel_only (map_page F x ph PTE_W u) F {} \<and> (\<forall>k < 4. pdir (map_page F x ph PTE_W u) F k = pdir s1 F k)"
      using I map_page_facts(5,6) [OF u refl] vpn_high [OF refl _ x'] by simp
  qed
  show "low_map s2 F" using M hc unfolding low_map_def v0 by simp
  show "high_clear s2 F" using hc by (simp add: high_clear_def)
  have c1: "same_cfg s0 s1" using L by blast
  have "same_cfg (s\<lparr>kernel_pdpt := F\<rparr>) s0" by (simp add: s0_def same_cfg_def alloc_page_phys_def Let_def)
  then have c0: "same_cfg (s\<lparr>kernel_pdpt := F\<rparr>) s1" using c1 by (rule same_cfg_trans)
  have "same_cfg s1 s2" unfolding s2' by (rule same_cfg_map_pages)
  then show "same_cfg (s\<lparr>kernel_pdpt := F\<rparr>) s2" by (rule same_cfg_trans [OF c0])
  show "unat F + 20480 \<le> unat (phys_free s2)" using M pf1 by simp
  have "unat (phys_free s2) \<le> unat (phys_free s1) + 4096 * (32767 div 512 - 0 div 512 + 1)"
    using map_pages_alloc [OF T(3), of 32767 0 0 PTE_W] rm1 z by (simp add: s2' v0)
  then show "unat (phys_free s2) \<le> unat F + 4096 * 69" using pf1 by simp
  have d: "unat (pdir s2 F k) = unat F + 4096 + 4096 * k" if "k < 4" for k
  proof -
    have "pdir s2 F k = phys_free s0 + of_nat (4096 * k)" using hc T(1) that by simp
    then show ?thesis using dir_addr(1) [OF al0 r4 that] by (simp only: pf0 u0)
  qed
  show "F < pdir s2 F 0" using d [of 0] by (simp add: word_less_nat_alt)
  have "unat (F + 20480) = unat F + 20480" using b by (simp add: unat_add32)
  then show "pdir s2 F k < F + 20480" if "k < 4" for k using d [OF that] that by (simp add: word_less_nat_alt)
qed

lemma process_space:
  assumes lm: "low_map s P" and hc: "high_clear s P" and kp: "kernel_pdpt s = P" and Q: "Q = phys_free s"
    and b: "unat Q + 4096 * 6 < 4294967296"
    and s': "s' = copy_pds 0 PAE_PDPT_ENTRIES (snd (alloc_page_phys s)\<lparr>proc_pdpt := Q\<rparr>)"
  shows "tree s' P" "low_map s' Q" "high_clear s' P" "high_clear s' Q" "apart s' P Q {32768..}"
    and "unat (phys_free s') = unat Q + 20480" "same_cfg (s\<lparr>proc_pdpt := Q\<rparr>) s'"
proof -
  from lm have t: "tree s P" by (simp add: low_map_def)
  define s0 where "s0 = snd (alloc_page_phys s)\<lparr>proc_pdpt := Q\<rparr>"
  have pf0: "phys_free s0 = Q + 4096" by (simp add: s0_def alloc_page_phys_def Q Let_def PAGE_SIZE_def)
  have u0: "unat (Q + 4096) = unat Q + 4096" using b by (simp add: unat_add32)
  have lt: "Q < phys_free s0" by (simp add: pf0 word_less_nat_alt u0)
  have al0: "page_aligned (phys_free s0)"
    unfolding pf0 by (rule page_aligned_add) (use b treeD(1) [OF t] Q in \<open>simp_all\<close>)
  have rm0: "room s0 4" unfolding room_def pf0 u0 using b by linarith
  have r4: "unat (phys_free s0) + 4096 * 4 < 4294967296" using rm0 by (simp add: room_def)
  have tb: "tabs s0 x = (if x = Q then (\<lambda>_. 0) else tabs s x)" for x by (simp add: s0_def alloc_page_phys_def Q Let_def)
  have below: "x < Q" if "x \<in> tables s P" for x using tables_below [OF t that] by (simp add: Q)
  have eq0: "tabs s0 x = tabs s x" if "x \<in> tables s P" for x using below [OF that] by (auto simp: tb)
  have pf01: "phys_free s \<le> phys_free s0" using lt Q by simp
  note U0 = tables_untouched [OF t eq0 pf01 al0, simplified]
  have PQ: "P < phys_free s0" "P \<noteq> Q" using below [OF tables_in(1)] lt by auto
  have dirs: "pdir s0 P k < phys_free s0 \<and> pdir s0 P k \<noteq> Q" if "k < 4" for k
    using below [OF tables_in(2) [OF that, of s P]] U0(5) [OF that] lt by auto
  define D where "D k = tabs s0 (pdir s0 P k)" for k
  have k0: "kernel_pdpt s0 = P" "proc_pdpt s0 = Q"
    using kp by (simp_all add: s0_def alloc_page_phys_def Let_def)
  have s'L: "s' = dir_loop D 0 4 Q s0"
    unfolding s' PAE_PDPT_ENTRIES_def s0_def [symmetric]
    by (rule copy_pds_dirs [OF k0 PQ(1) lt PQ(2) _ r4]) (use dirs in \<open>auto simp: D_def\<close>)
  note L = dir_loop_facts [OF lt r4 s'L]
  have on: "entry_present (D i j) = pde_on s0 P i j" "entry_ptr (D i j) = ptab s0 P i j" for i j
    by (simp_all add: D_def pde_on_def ptab_def)
  note T0 = treeD [OF U0(1)]
  have ptb: "ptab s0 P i j < Q" if "i < 4" "j < 512" "pde_on s0 P i j" for i j
  proof -
    have e: "pdir s0 P i = pdir s P i" "tabs s0 (pdir s P i) = tabs s (pdir s P i)"
      using U0(5) [OF that(1)] eq0 [OF tables_in(2) [OF that(1)]] by auto
    then have "pde_on s P i j" "ptab s0 P i j = ptab s P i j" using that(3) by (auto simp: pde_on_def ptab_def)
    then show ?thesis using treeD(9) [OF t that(1,2)] Q by simp
  qed
  have A1: "entry_ptr (D i j) < phys_free s0 \<and> entry_ptr (D i j) \<noteq> Q"
    if "i < 4" "j < 512" "entry_present (D i j)" for i j
    using ptb [OF that(1,2)] that(3) lt unfolding on by auto
  have A2: "i = k \<and> j = l" if "i < 4" "j < 512" "k < 4" "l < 512" "entry_present (D i j)" "entry_present (D k l)"
    "entry_ptr (D i j) = entry_ptr (D k l)" for i j k l
    using T0(10) [OF that(1-4)] that(5-7) unfolding on by blast
  have TQ: "tree s' Q" "\<And>i. i < 4 \<Longrightarrow> tabs s' (pdir s' Q i) = D i"
    "\<And>i. i < 4 \<Longrightarrow> pdir s' Q i = phys_free s0 + of_nat (4096 * i)"
    using dir_loop_tree [OF lt al0 rm0 s'L A1 A2] by blast+
  have pf: "unat (phys_free s') = unat Q + 20480" using L u0 pf0 by simp
  then show "unat (phys_free s') = unat Q + 20480" .
  have eqP: "tabs s' x = tabs s x" if x: "x \<in> tables s P" for x
  proof -
    have "x < phys_free s0 \<and> x \<noteq> Q" using below [OF x] lt by auto
    then show ?thesis using L eq0 [OF x] by simp
  qed
  have pfle: "phys_free s \<le> phys_free s'" using pf Q by (simp add: word_le_nat_alt)
  note UP = tables_untouched [OF t eqP pfle treeD(1) [OF TQ(1)], simplified]
  show tP: "tree s' P" by (rule UP(1))
  have pv: "pde_val s' Q v = pde_val s P v" for v
    using TQ(2) [OF index_bounds(1)] U0(4) [of v] by (simp add: pde_val_def D_def)
  have dP: "tabs s' (ptab s P (unat (drop_bit 30 v)) (pd_index v)) = tabs s (ptab s P (unat (drop_bit 30 v)) (pd_index v))"
    if "entry_present (pde_val s P v)" for v
    unfolding ptab_val by (rule eqP) (rule tables_in(3) [OF that])
  have wk: "walk s' Q v = walk s P v" for v
    using pv [of v] dP [of v] unfolding walk_tree [OF TQ(1)] walk_tree [OF t] Let_def pde_on_val ptab_val
    by (auto simp: pde_val_def)
  show "high_clear s' P" "high_clear s' Q" using hc UP(4) pv by (simp_all add: high_clear_def)
  show "low_map s' Q" using lm TQ(1) wk by (simp add: low_map_def kernel_only_def translate_def)
  show "apart s' P Q {32768..}"
    unfolding apart_def
  proof (intro conjI allI impI)
    fix k :: nat assume k: "k < 4"
    have x: "pdir s' P k = pdir s P k" by (rule UP(5) [OF k])
    have lq: "pdir s P k < Q" by (rule below [OF tables_in(2) [OF k]])
    have "pdir s P k \<noteq> pdir s' Q i" if "i < 4" for i
    proof -
      have "unat (pdir s' Q i) = unat Q + 4096 + 4096 * i"
        using TQ(3) [OF that] dir_addr(1) [OF al0 r4 that] by (simp only: pf0 u0)
      then show ?thesis using lq by (auto simp: word_less_nat_alt)
    qed
    moreover have "pdir s P k \<noteq> entry_ptr (pde_val s' Q v)" if "entry_present (pde_val s' Q v)" for v
      using treeD(8) [OF t index_bounds(1,2) _ k, of v v] that unfolding pv pde_on_val ptab_val by metis
    ultimately show "pdir s' P k \<notin> tables s' Q" using lq x by (auto simp: tables_def)
  next
    fix v assume "vpn v \<in> {32768..}" "entry_present (pde_val s' P v)"
    then show "entry_ptr (pde_val s' P v) \<notin> tables s' Q" using hc UP(4) by (simp add: high_clear_def)
  qed
  have "same_cfg (s\<lparr>proc_pdpt := Q\<rparr>) s0" by (simp add: s0_def same_cfg_def alloc_page_phys_def Let_def)
  then show "same_cfg (s\<lparr>proc_pdpt := Q\<rparr>) s'" by (rule same_cfg_trans) (use L in blast)
qed

text \<open>The address space depends only on the tables.\<close>

lemma space_cong:
  assumes "tabs s' = tabs s"
  shows "walk s' P v = walk s P v" "pdir s' P k = pdir s P k" "pde_val s' P v = pde_val s P v" "tables s' P = tables s P"
    and "ptab s' P i j = ptab s P i j" "pde_on s' P i j = pde_on s P i j" "kernel_only s' P A = kernel_only s P A"
    and "translate s' P v = translate s P v" "user_dirs s' P A = user_dirs s P A" "apart s' P Q A = apart s P Q A"
  unfolding walk_def pdir_def pde_val_def tables_def ptab_def pde_on_def kernel_only_def translate_def
    user_dirs_def apart_def assms
  by (rule refl)+

lemma tree_cong:
  assumes "tabs s' = tabs s" "phys_free s' = phys_free s"
  shows "tree s' P = tree s P"
  unfolding tree_def space_cong [OF assms(1)] assms by (rule refl)

lemma low_map_cong:
  assumes "tabs s' = tabs s" "phys_free s' = phys_free s"
  shows "low_map s' P = low_map s P"
  unfolding low_map_def space_cong [OF assms(1)] tree_cong [OF assms] by (rule refl)

subsection \<open>The framebuffer window\<close>

lemma low_map_supervisor_page:
  assumes "low_map s Q" "room s 1" "32768 \<le> vpn x" "\<not> bit fl 2"
  shows "low_map (map_page Q x ph fl s) Q"
proof -
  from assms(1) have t: "tree s Q" and k: "kernel_only s Q {}" by (simp_all add: low_map_def)
  note M = map_page_facts [OF t assms(2) refl]
  have "kernel_only (map_page Q x ph fl s) Q {}" by (rule kernel_only_map_page [OF k t assms(2)]) (use assms(4) in blast)
  moreover have "walk (map_page Q x ph fl s) Q v = walk s Q v" if "vpn v < 32768" for v
    by (rule M(3)) (use that assms(3) in linarith)
  ultimately show ?thesis using assms(1) M(1) by (simp add: low_map_def)
qed

lemma low_map_supervisor_pages:
  assumes "low_map s Q" "room s n" "32768 \<le> vpn v" "unat v + 4096 * n \<le> 4294967296" "\<not> bit fl 2"
  shows "low_map (map_pages Q v ph n fl s) Q"
proof (rule map_pages_inv [where I = "\<lambda>u. low_map u Q"])
  show "tree s Q" using assms(1) by (simp add: low_map_def)
  show "low_map (map_page Q x p fl u) Q" if "room u 1" "vpn v \<le> vpn x" "low_map u Q" for u x p
    by (rule low_map_supervisor_page) (use that assms(3,5) in auto)
qed (fact assms)+

lemma page_off_lt: "unat (ucast (phys AND 0xFFF :: u64) :: u32) < 4096"
proof -
  have e: "phys AND 0xFFF = take_bit 12 phys" by (simp add: low12 take_bit_eq_mask)
  have "unat (take_bit 12 phys) < 4096" unfolding unsigned_take_bit_eq by (simp add: take_bit_eq_mod)
  moreover have "unat (ucast (take_bit 12 phys) :: u32) = unat (take_bit 12 phys) mod 4294967296"
    by (simp only: unsigned_ucast_eq) (simp add: take_bit_eq_mod)
  ultimately show ?thesis unfolding e by simp
qed

lemma map_phys_at_pages:
  assumes "sz \<noteq> 0" "unat sz \<le> m" "m \<le> 2147483648"
  obtains n where "\<And>P v fl s. map_phys_at P v phys sz fl s = map_pages P v (phys AND NOT 0xFFF) (Suc n) fl s"
    and "4096 * n < m + 4095"
proof -
  define total where "total = ucast (phys AND 0xFFF) + sz"
  define po where "po = unat (ucast (phys AND 0xFFF :: u64) :: u32)"
  have po: "po < 4096" unfolding po_def by (rule page_off_lt)
  have u: "unat total = po + unat sz"
    unfolding total_def using po assms(2,3) by (subst unat_add32) (simp_all only: po_def [symmetric])
  have sz: "0 < unat sz" using assms(1) by (simp add: unat_gt_0)
  have pos: "0 < total" using u sz by (simp add: word_less_nat_alt)
  define n where "n = (unat total + 4095) div 4096 - 1"
  have "1 \<le> (unat total + 4095) div 4096" using pos by (simp add: word_less_nat_alt div_greater_zero_iff less_eq_div_iff_mult_less_eq)
  then have n: "page_count 0 total = Suc n" using pos by (simp add: page_count_def n_def)
  have "4096 * ((unat total + 4095) div 4096) \<le> unat total + 4095" by simp
  then have "4096 * Suc n \<le> unat total + 4095" using n pos by (simp add: page_count_def)
  then have "4096 * n < m + 4095" using u assms(2) po by simp
  moreover have "map_phys_at P v phys sz fl s = map_pages P v (phys AND NOT 0xFFF) (Suc n) fl s" for P v fl s
    by (simp only: map_phys_at_def Let_def total_def [symmetric] n)
  ultimately show thesis using that by blast
qed

lemma lfb_window:
  assumes t: "tree s P" and lm: "low_map s Q" and ap: "apart s P Q {32768..}"
    and k: "kernel_pdpt s = P" "proc_pdpt s = Q" "P \<noteq> 0" "Q \<noteq> 0" and b: "unat (phys_free s) + 4096 * 40000 < 4294967296"
    and s': "s' = gfx_map_lfb phys bytes s"
  shows "low_map s' Q" "unat (phys_free s) \<le> unat (phys_free s')" "unat (phys_free s') \<le> unat (phys_free s) + 4096 * 66"
    and "kernel_pdpt s' = P" "proc_pdpt s' = Q" "paging_on s' = paging_on s" "cr3 s' = cr3 s"
    and "gfx_lfb_phys s' = phys" "gfx_pitch s' = gfx_pitch s" "gfx_h s' = gfx_h s"
proof -
  define r where "r = s\<lparr>gfx_lfb_phys := phys\<rparr>"
  have same: "low_map (u\<lparr>gfx_lfb_phys := x\<rparr>) Q = low_map u Q" "low_map (u\<lparr>gfx_lfb := y\<rparr>) Q = low_map u Q" for u x y
    by (rule low_map_cong; simp)+
  have sameP: "tree r P = tree s P" "apart r P Q A = apart s P Q A" for A
    by (rule tree_cong space_cong; simp add: r_def)+
  consider (none) "phys = 0 \<or> bytes = 0 \<or> bytes > FB_VIRT_SIZE"
    | (map) "bytes \<noteq> 0" "bytes \<le> FB_VIRT_SIZE" "phys \<noteq> 0" by fastforce
  then have "low_map s' Q \<and> unat (phys_free s) \<le> unat (phys_free s') \<and> unat (phys_free s') \<le> unat (phys_free s) + 4096 * 66 \<and>
      kernel_pdpt s' = P \<and> proc_pdpt s' = Q \<and> paging_on s' = paging_on s \<and> cr3 s' = cr3 s \<and>
      gfx_lfb_phys s' = phys \<and> gfx_pitch s' = gfx_pitch s \<and> gfx_h s' = gfx_h s"
  proof cases
    case none
    then have "s' = s\<lparr>gfx_lfb_phys := phys, gfx_lfb := 0\<rparr>" using s' by (simp add: gfx_map_lfb_def)
    then show ?thesis using lm k same by simp
  next
    case map
    define fl where "fl = (if pat_wc_ready r then PTE_W OR PTE_PAT else PTE_W)"
    have nu: "\<not> bit fl 2" by (simp add: fl_def PTE_W_def PTE_PAT_def)
    have ub: "unat bytes \<le> 67108864" using map(2) by (simp add: FB_VIRT_SIZE_def word_le_nat_alt)
    obtain n where n: "\<And>P v fl s. map_phys_at P v phys bytes fl s = map_pages P v (phys AND NOT 0xFFF) (Suc n) fl s"
      and nb: "4096 * n < 67108864 + 4095"
      using map_phys_at_pages [OF map(1) ub, of phys thesis] by simp
    define r1 where "r1 = map_pages P FB_VIRT_BASE (phys AND NOT 0xFFF) (Suc n) fl r"
    define r2 where "r2 = map_pages Q FB_VIRT_BASE (phys AND NOT 0xFFF) (Suc n) fl r1"
    have n1: "Suc n \<le> 16385" using nb by linarith
    have vb: "vpn FB_VIRT_BASE = 65536" "unat FB_VIRT_BASE + 4096 * Suc n \<le> 4294967296"
      using n1 by (simp_all add: vpn_def FB_VIRT_BASE_def)
    have cnt: "(65536 + n) div 512 - 65536 div 512 + (if c then 0 else 1 :: nat) \<le> 33" for c
    proof -
      have "(65536 + n) div 512 \<le> 160" using div_le_mono [of "65536 + n" 81920 512] n1 by simp
      moreover have "65536 div 512 = (128 :: nat)" by simp
      moreover have "x \<le> 160 \<Longrightarrow> x - 128 + (if c then 0 else 1) \<le> 33" for x :: nat by (cases c; simp; arith)
      ultimately show ?thesis by (simp only:)
    qed
    have rm: "room r (Suc n)" using b n1 by (simp add: r_def room_def)
    have tr: "tree r P" "tree r Q" "low_map r Q" "apart r P Q {32768..}"
      using t ap sameP lm same by (auto simp: r_def low_map_def)
    have sub: "{vpn FB_VIRT_BASE..<vpn FB_VIRT_BASE + Suc n} \<subseteq> {32768..}" by (auto simp: vb)
    note A = map_pages_apart [OF tr(1,2) rm vb(2) tr(4) sub r1_def]
    have a1: "unat (phys_free r) \<le> unat (phys_free r1)"
      using map_pages_facts [OF tr(1) rm vb(2) r1_def] by blast
    have b1: "unat (phys_free r1) \<le> unat (phys_free r) + 4096 * 33"
      using map_pages_alloc [OF tr(1) rm vb(2), of "phys AND NOT 0xFFF" fl, folded r1_def] cnt unfolding vb(1)
      by (meson add_left_mono le_trans mult_le_mono2)
    have pf: "unat (phys_free r) = unat (phys_free s)" by (simp add: r_def)
    have rm1: "room r1 (Suc n)" using b1 b n1 pf by (simp add: room_def)
    have lm1: "low_map r1 Q" using A tr(3) by (simp add: low_map_def kernel_only_def translate_def)
    then have t1: "tree r1 Q" by (simp add: low_map_def)
    have lm2: "low_map r2 Q" unfolding r2_def by (rule low_map_supervisor_pages [OF lm1 rm1 _ vb(2) nu]) (simp add: vb)
    have a2: "unat (phys_free r1) \<le> unat (phys_free r2)"
      using map_pages_facts [OF t1 rm1 vb(2) r2_def] by blast
    have b2: "unat (phys_free r2) \<le> unat (phys_free r1) + 4096 * 33"
      using map_pages_alloc [OF t1 rm1 vb(2), of "phys AND NOT 0xFFF" fl, folded r2_def] cnt unfolding vb(1)
      by (meson add_left_mono le_trans mult_le_mono2)
    have c1: "same_cfg r r1" unfolding r1_def by (rule same_cfg_map_pages)
    have "same_cfg r1 r2" unfolding r2_def by (rule same_cfg_map_pages)
    then have c2: "same_cfg r r2" by (rule same_cfg_trans [OF c1])
    note C1 = same_cfgD [OF c1] and C2 = same_cfgD [OF c2]
    have kr: "kernel_pdpt r = P" "proc_pdpt r = Q" "paging_on r = paging_on s" "cr3 r = cr3 s"
      "gfx_lfb_phys r = phys" "gfx_pitch r = gfx_pitch s" "gfx_h r = gfx_h s" using k by (simp_all add: r_def)
    have m1: "map_phys_at P FB_VIRT_BASE phys bytes fl r = r1" and m2: "map_phys_at Q FB_VIRT_BASE phys bytes fl r1 = r2"
      by (simp_all only: n r1_def r2_def)
    have le: "\<not> bytes > FB_VIRT_SIZE" using map(2) by simp
    have "s' = r2\<lparr>gfx_lfb := FB_VIRT_BASE + ucast (phys AND 0xFFF)\<rparr>"
      unfolding s' gfx_map_lfb_def r_def [symmetric] Let_def fl_def [symmetric]
      using map(1,3) le k(3,4) by (simp add: m1 m2 kr C1 reload_cr3_def)
    then show ?thesis using lm2 same a1 a2 b1 b2 pf C2 kr by simp
  qed
  then show "low_map s' Q" "unat (phys_free s) \<le> unat (phys_free s')" "unat (phys_free s') \<le> unat (phys_free s) + 4096 * 66"
    and "kernel_pdpt s' = P" "proc_pdpt s' = Q" "paging_on s' = paging_on s" "cr3 s' = cr3 s"
    and "gfx_lfb_phys s' = phys" "gfx_pitch s' = gfx_pitch s" "gfx_h s' = gfx_h s" by blast+
qed

end
