(* ===== verification/Isolation.thy ===== *)
theory Isolation
  imports AddressSpace
begin

text \<open>
  The address space a user program runs in: what is open to it, what the kernel keeps to itself,
  and where the page tables lie. \<open>user_inv\<close> is established by \<open>paging_init\<close> and kept by every later
  mapping (framebuffer, \<open>SYS_MAP_PHYS\<close>, \<open>SYS_DMA_ALLOC\<close>).
\<close>

text \<open>The pages of the user window, 4 MB to 100 MB.\<close>

definition user_win :: "nat set" where "user_win = {1024..<25600}"

definition user_inv :: "vm \<Rightarrow> u32 \<Rightarrow> u32 \<Rightarrow> u32 \<Rightarrow> bool" where
  "user_inv s Q B L \<longleftrightarrow> tree s Q \<and> kernel_only s Q user_win \<and> user_dirs s Q user_win \<and>
     (\<forall>v. vpn v < 32768 \<and> vpn v \<notin> user_win \<longrightarrow> (\<exists>e. walk s Q v = Some (e, pte_of (of_nat (4096 * vpn v)) PTE_W))) \<and>
     tables s Q \<subseteq> {t. t < B \<or> L \<le> t} \<and> L \<le> phys_free s"

lemma pde_after_ptr:
  assumes "tree s P"
  shows "entry_ptr (pde_after s P v fl) = (if entry_present (pde_val s P v) then entry_ptr (pde_val s P v) else phys_free s)"
proof -
  have fl: "(if fl AND PTE_U \<noteq> 0 then PTE_P OR PTE_W OR PTE_U else PTE_P OR PTE_W) AND NOT 0xFFF = 0"
    by (simp add: pte_defs)
  show ?thesis
    using entry_ptr_make [OF treeD(1) [OF assms] fl]
    by (simp add: pde_after_def pde_val_def pae_pd_def pdir_def Let_def)
qed

lemma map_page_tables:
  assumes "tree s P" "room s 1"
  shows "tables (map_page P v ph fl s) P \<subseteq> insert (phys_free s) (tables s P)"
proof -
  define s' where "s' = map_page P v ph fl s"
  note M = map_page_facts [OF assms s'_def]
  have "entry_ptr (pde_val s' P w) \<in> insert (phys_free s) (tables s P)" if "entry_present (pde_val s' P w)" for w
    using that M(5) [of w] pde_after_ptr [OF assms(1), of v fl] tables_in(3) [of s P v] tables_in(3) [of s P w]
    by (auto split: if_splits)
  then have "tables s' P \<subseteq> insert (phys_free s) (tables s P)" using M(6) tables_in by (auto simp: tables_def)
  then show ?thesis by (simp add: s'_def)
qed

lemma user_inv_map_page:
  assumes i: "user_inv s Q B L" and rm: "room s 1" and v: "vpn v \<in> user_win" and u: "fl AND PTE_U \<noteq> 0"
  shows "user_inv (map_page Q v ph fl s) Q B L"
proof -
  from i have t: "tree s Q" and k: "kernel_only s Q user_win" and d: "user_dirs s Q user_win"
    and tb: "tables s Q \<subseteq> {t. t < B \<or> L \<le> t}" and L: "L \<le> phys_free s" by (simp_all add: user_inv_def)
  note M = map_page_facts [OF t rm refl]
  have "phys_free s \<le> phys_free (map_page Q v ph fl s)"
    unfolding word_le_nat_alt map_page_alloc [OF t rm] by simp
  with L have L': "L \<le> phys_free (map_page Q v ph fl s)" by (rule order_trans)
  have "walk (map_page Q v ph fl s) Q w = walk s Q w" if "vpn w \<notin> user_win" for w
    by (rule M(3)) (use that v in auto)
  moreover have "kernel_only (map_page Q v ph fl s) Q user_win"
    by (rule kernel_only_map_page [OF k t rm]) (use v in blast)
  moreover have "tables (map_page Q v ph fl s) Q \<subseteq> {t. t < B \<or> L \<le> t}"
    using map_page_tables [OF t rm, of v ph fl] tb L by blast
  ultimately show ?thesis
    using i M(1) user_dirs_map_page [OF u d v t rm, of ph] L' by (simp add: user_inv_def)
qed

lemma user_inv_map_pages:
  assumes i: "user_inv s Q B L" and rm: "room s n" and w: "{vpn v..<vpn v + n} \<subseteq> user_win" and u: "fl AND PTE_U \<noteq> 0"
    and b: "unat v + 4096 * n \<le> 4294967296"
  shows "user_inv (map_pages Q v ph n fl s) Q B L"
proof (rule map_pages_inv [where I = "\<lambda>s. user_inv s Q B L"])
  show "tree s Q" using i by (simp add: user_inv_def)
  show "user_inv (map_page Q x p fl t) Q B L"
    if "room t 1" "vpn v \<le> vpn x" "vpn x < vpn v + n" "user_inv t Q B L" for t x p
    by (rule user_inv_map_page [OF that(4,1) _ u]) (use that w in auto)
qed (fact assms)+

lemma user_inv_cong:
  assumes "tabs s' = tabs s" "phys_free s' = phys_free s"
  shows "user_inv s' Q B L = user_inv s Q B L"
  unfolding user_inv_def space_cong [OF assms(1)] tree_cong [OF assms] assms by (rule refl)

subsection \<open>Opening the user window\<close>

lemma clear_entries_tabs:
  "tabs (clear_entries pd i n s) = (tabs s)(pd := (\<lambda>k. if i \<le> k \<and> k < i + n then 0 else tabs s pd k))"
  "phys_free (clear_entries pd i n s) = phys_free s" "same_cfg s (clear_entries pd i n s)"
proof -
  show "tabs (clear_entries pd i n s) = (tabs s)(pd := (\<lambda>k. if i \<le> k \<and> k < i + n then 0 else tabs s pd k))"
    by (induction n arbitrary: i s) (auto simp: fun_eq_iff)
  show "phys_free (clear_entries pd i n s) = phys_free s" by (induction n arbitrary: i s) auto
  show "same_cfg s (clear_entries pd i n s)"
    by (induction n arbitrary: i s) (auto intro: same_cfg_trans [OF same_cfg_set_entry])
qed

lemma user_win_index: "unat (drop_bit 30 v) = 0 \<and> 2 \<le> pd_index v \<and> pd_index v < 50 \<longleftrightarrow> vpn v \<in> user_win"
proof -
  have "vpn v div 262144 = 0 \<longleftrightarrow> vpn v < 262144" by (simp add: div_eq_0_iff)
  moreover have "2 \<le> vpn v div 512 \<longleftrightarrow> 1024 \<le> vpn v" by (simp add: less_eq_div_iff_mult_less_eq)
  moreover have "vpn v div 512 < 50 \<longleftrightarrow> vpn v < 25600" by (simp add: div_less_iff_less_mult)
  moreover have "vpn v div 512 < 512" if "vpn v < 262144" using that by (simp add: less_mult_imp_div_less)
  ultimately show ?thesis unfolding index_nat user_win_def by (auto simp del: less_eq_div_iff_mult_less_eq)
qed

lemma clear_user_window:
  assumes lm: "low_map s Q" and tb: "tables s Q \<subseteq> {t. t < B \<or> L \<le> t}" and L: "L \<le> phys_free s"
    and s': "s' = clear_entries (pae_pd Q USER_BASE s) 2 48 s"
  shows "user_inv s' Q B L" "phys_free s' = phys_free s" "same_cfg s s'" "vpn v \<in> user_win \<Longrightarrow> walk s' Q v = None"
proof -
  from lm have t: "tree s Q" by (simp add: low_map_def)
  note T = treeD [OF t]
  have pd: "pae_pd Q USER_BASE s = pdir s Q 0" by (simp add: pae_pd_def pdir_def USER_BASE_def drop_bit_eq_div)
  have tabs': "tabs s' x k = (if x = pdir s Q 0 \<and> 2 \<le> k \<and> k < 50 then 0 else tabs s x k)" for x k
    unfolding s' pd clear_entries_tabs by simp
  show pf: "phys_free s' = phys_free s" and "same_cfg s s'" unfolding s' by (rule clear_entries_tabs)+
  have r: "tabs s' Q = tabs s Q" using T(4) [of 0] by (auto simp: tabs' fun_eq_iff)
  then have d: "pdir s' Q k = pdir s Q k" for k by (simp add: pdir_def)
  have on: "pde_on s' Q i j \<longleftrightarrow> pde_on s Q i j \<and> \<not> (i = 0 \<and> 2 \<le> j \<and> j < 50)" if "i < 4" for i j
    using T(6) [OF that, of 0] by (auto simp: pde_on_def d tabs')
  have pt: "pde_on s' Q i j \<Longrightarrow> ptab s' Q i j = ptab s Q i j" for i j
    by (auto simp: ptab_def d tabs' pde_on_def)
  have t': "tree s' Q"
    unfolding tree_def
  proof (intro conjI allI impI)
    show "page_aligned (phys_free s')" "Q < phys_free s'" using T(1,2) pf by simp_all
    fix i :: nat assume i: "i < 4"
    show "entry_present (tabs s' Q i)" "pdir s' Q i \<noteq> Q" "pdir s' Q i < phys_free s'"
      using T(3-5) [OF i] by (simp_all add: r d pf)
    show "i = k" if "k < 4" "pdir s' Q i = pdir s' Q k" for k using T(6) [OF i that(1)] that(2) by (simp add: d)
    fix j :: nat assume j: "j < 512"
    show "ptab s' Q i j \<noteq> Q" "\<And>k. k < 4 \<Longrightarrow> ptab s' Q i j \<noteq> pdir s' Q k" "ptab s' Q i j < phys_free s'"
      if o: "pde_on s' Q i j"
      using T(7-9) [OF i j] o on [OF i, of j] unfolding pt [OF o] d pf by blast+
    fix k l :: nat assume k: "k < 4" "l < 512" and o: "pde_on s' Q i j" "pde_on s' Q k l" and e: "ptab s' Q i j = ptab s' Q k l"
    have "i = k \<and> j = l"
      using T(10) [OF i j k] o on [OF i, of j] on [OF k(1), of l] e unfolding pt [OF o(1)] pt [OF o(2)] by blast
    then show "i = k" "j = l" by simp_all
  qed
  have pv: "pde_val s' Q v = (if vpn v \<in> user_win then 0 else pde_val s Q v)" for v
    using T(6) [OF index_bounds(1), of 0 v] user_win_index [of v]
    by (auto simp: pde_val_def d tabs')
  have wk: "walk s' Q v = walk s Q v" if "vpn v \<notin> user_win" for v
  proof -
    have e: "pde_val s' Q v = pde_val s Q v" using that by (simp add: pv)
    have p: "entry_ptr (pde_val s Q v) \<noteq> pdir s Q 0" if "entry_present (pde_val s Q v)"
      using T(8) [OF index_bounds(1,2), of v v 0] that by (simp add: pde_on_val ptab_val)
    show ?thesis
      unfolding walk_tree [OF t'] walk_tree [OF t] Let_def pde_on_val ptab_val e
      using e p by (auto simp: pde_val_def tabs')
  qed
  show "walk s' Q v = None" if "vpn v \<in> user_win" for v using that by (simp add: walk_no_pde pv)
  have ko: "kernel_only s' Q user_win"
    using lm wk by (simp add: low_map_def kernel_only_def translate_def)
  have ud: "user_dirs s' Q user_win" by (simp add: user_dirs_def pv)
  have "tables s' Q \<subseteq> tables s Q" using pv d by (auto simp: tables_def split: if_splits)
  then show "user_inv s' Q B L"
    using t' ko ud lm wk tb L by (auto simp: user_inv_def low_map_def pf)
qed

subsection \<open>The arena\<close>

lemma map_arena_append:
  "map_arena P (m + n) off phys s =
     map_arena P n (off + of_nat (4096 * m)) (phys + of_nat (4096 * m)) (map_arena P m off phys s)"
  by (induction m arbitrary: off phys s) (simp_all add: PAGE_SIZE_def algebra_simps)

lemma map_arena_run:
  assumes "\<And>k. k < n \<Longrightarrow> off + of_nat (4096 * k) \<noteq> USER_STACK_GUARD_OFF" "unat phys + 4096 * n < 4294967296"
  shows "map_arena P n off phys s = map_pages P (USER_BASE + off) (ucast phys) n (PTE_W OR PTE_U) s"
  using assms
proof (induction n arbitrary: off phys s)
  case (Suc n)
  have ne: "off \<noteq> USER_STACK_GUARD_OFF" using Suc.prems(1) [of 0] by simp
  have u: "unat (phys + 4096) = unat phys + 4096" using Suc.prems(2) by (simp add: unat_add32)
  have c: "ucast (phys + 4096) = (ucast phys + 4096 :: u64)"
  proof (rule word_unat_eq_iff [THEN iffD2])
    have "unat (ucast phys + 4096 :: u64) = unat phys + 4096"
      using Suc.prems(2) by (simp add: unat_word_ariths unat_ucast64)
    then show "unat (ucast (phys + 4096) :: u64) = unat (ucast phys + 4096 :: u64)" by (simp add: unat_ucast64 u)
  qed
  have "map_arena P n (off + 4096) (phys + 4096) s' =
      map_pages P (USER_BASE + (off + 4096)) (ucast (phys + 4096)) n (PTE_W OR PTE_U) s'" for s'
  proof (rule Suc.IH)
    show "off + 4096 + of_nat (4096 * k) \<noteq> USER_STACK_GUARD_OFF" if "k < n" for k
      using Suc.prems(1) [of "Suc k"] that by (simp add: algebra_simps)
    show "unat (phys + 4096) + 4096 * n < 4294967296" using u Suc.prems(2) by simp
  qed
  with ne c show ?case by (simp add: PAGE_SIZE_def add.assoc)
qed simp

lemma guard_off:
  assumes "k < 6144"
  shows "of_nat (4096 * k) = USER_STACK_GUARD_OFF \<longleftrightarrow> k = 5887"
proof -
  have "unat (of_nat (4096 * k) :: u32) = 4096 * k" by (rule unat_of_nat32) (use assms in linarith)
  moreover have "unat USER_STACK_GUARD_OFF = 4096 * 5887" by (simp add: layout_defs)
  ultimately show ?thesis by (simp only: word_unat_eq_iff) simp
qed

lemma map_user_space_pages:
  assumes "unat (user_phys_base s) + 4096 * 6144 < 4294967296"
  shows "map_user_space Q s =
    map_pages Q (USER_BASE + of_nat (4096 * 5888)) (ucast (user_phys_base s + of_nat (4096 * 5888))) 256 (PTE_W OR PTE_U)
      (map_pages Q USER_BASE (ucast (user_phys_base s)) 5887 (PTE_W OR PTE_U)
        (clear_entries (pae_pd Q USER_BASE s) 2 48 s))"
proof -
  let ?b = "user_phys_base s"
  define c where "c = clear_entries (pae_pd Q USER_BASE s) 2 48 s"
  have n: "page_count 0 USER_FB_OFFSET = 5887 + (1 + 256)" by (simp add: page_count_def layout_defs)
  have base: "user_phys_base c = ?b" unfolding c_def by (rule same_cfgD [OF clear_entries_tabs(3)])
  have idx: "pd_index USER_BASE = 2" "unat (drop_bit 21 USER_SPACE_SIZE) + (if USER_SPACE_SIZE AND 0x1FFFFF \<noteq> 0 then 1 else 0) = 48"
    by (simp_all add: pd_index_def layout_defs drop_bit_eq_div)
  have u: "unat (?b + of_nat (4096 * 5888)) = unat ?b + 4096 * 5888" by (rule unat_add_pages) (use assms in linarith)
  have one: "map_arena Q 1 (of_nat (4096 * 5887)) p r = r" for p r
    using guard_off [of 5887] by simp
  have lo: "map_arena Q 5887 0 ?b c = map_pages Q USER_BASE (ucast ?b) 5887 (PTE_W OR PTE_U) c"
    using map_arena_run [of 5887 0 ?b Q c] guard_off assms by simp
  have hi: "map_arena Q 256 (of_nat (4096 * 5888)) (?b + of_nat (4096 * 5888)) r =
      map_pages Q (USER_BASE + of_nat (4096 * 5888)) (ucast (?b + of_nat (4096 * 5888))) 256 (PTE_W OR PTE_U) r" for r
  proof (rule map_arena_run)
    show "of_nat (4096 * 5888) + of_nat (4096 * k) \<noteq> USER_STACK_GUARD_OFF" if "k < 256" for k
    proof -
      have "of_nat (4096 * 5888) + of_nat (4096 * k) = (of_nat (4096 * (5888 + k)) :: u32)"
        by (simp only: of_nat_add [symmetric] add_mult_distrib2)
      then show ?thesis using guard_off [of "5888 + k"] that by (simp only:)
    qed
    show "unat (?b + of_nat (4096 * 5888)) + 4096 * 256 < 4294967296" using u assms by simp
  qed
  have "map_arena Q (5887 + (1 + 256)) 0 ?b c =
      map_arena Q 256 (of_nat (4096 * 5888)) (?b + of_nat (4096 * 5888)) (map_arena Q 5887 0 ?b c)"
    unfolding map_arena_append [of Q 5887 "1 + 256"] map_arena_append [of Q 1 256] add_0_left one
    by (simp add: add.assoc)
  then show ?thesis
    unfolding map_user_space_def Let_def idx c_def [symmetric] base n by (simp only: lo hi)
qed

lemma pte_of_page:
  assumes "(fl :: u32) AND NOT 0xFFF = 0" "k < 4294967296" "k mod 4096 = 0"
  shows "pte_of (of_nat k) fl AND NOT 0xFFF = of_nat k"
proof (rule bit_word_eqI)
  fix n :: nat assume n: "n < LENGTH(64)"
  have f: "\<not> bit fl n" if "12 \<le> n"
  proof (cases "n < 32")
    case True
    have "\<not> bit (fl AND NOT 0xFFF) n" using assms(1) by simp
    then show ?thesis using that True by (simp add: low12 bit_simps)
  qed (use bit_imp_le_length [of fl n] in auto)
  have k: "\<not> bit (of_nat k :: u64) n" if "n < 12"
  proof -
    have "take_bit 12 k = 0" using assms(3) by (simp add: take_bit_eq_mod)
    then have "\<not> bit (take_bit 12 k) n" by simp
    then show ?thesis using that by (simp add: bit_simps)
  qed
  show "bit (pte_of (of_nat k) fl AND NOT 0xFFF) n = bit (of_nat k :: u64) n"
    using n f k by (cases "n < 12") (auto simp: pte_of_def low12 bit_simps PTE_P_def)
qed

text \<open>The page a mapping of a range makes visible to user mode.\<close>

lemma mapped_user_page:
  assumes i: "user_inv s' Q B L" and w: "walk s' Q v = Some (e, pte_of (of_nat k) (PTE_W OR PTE_U))"
    and v: "vpn v \<in> user_win" and k: "k < 4294967296" "k mod 4096 = 0"
  shows "translate s' Q v = Some (of_nat k, True, True)"
proof -
  have "bit e 2 \<and> bit e 1" using i walk_pde [OF w] v by (auto simp: user_inv_def user_dirs_def)
  moreover have "bit (pte_of (of_nat k) (PTE_W OR PTE_U)) 2" "bit (pte_of (of_nat k) (PTE_W OR PTE_U)) 1"
    by (simp_all only: pte_of_bits(2)) (simp_all add: pte_of_def pte_defs bit_simps)
  moreover have "pte_of (of_nat k) (PTE_W OR PTE_U) AND NOT 0xFFF = of_nat k"
    by (rule pte_of_page [OF _ k]) (simp add: pte_defs)
  ultimately show ?thesis using w by (simp add: translate_def)
qed

definition arena_mapped :: "vm \<Rightarrow> u32 \<Rightarrow> bool" where
  "arena_mapped s Q \<longleftrightarrow> (\<forall>v. vpn v \<in> {1024..<7168} \<longrightarrow> translate s Q v =
     (if vpn v = 6911 then None else Some (of_nat (unat (user_phys_base s) + 4096 * (vpn v - 1024)), True, True)))"

lemma ucast_pages:
  assumes "unat b + 4096 * k < 4294967296"
  shows "ucast b + of_nat (4096 * k) = (of_nat (unat b + 4096 * k) :: u64)"
proof -
  have "(ucast b :: u64) = of_nat (unat b)" by (simp add: word_unat_eq_iff unat_ucast64 unat_of_nat take_bit_eq_mod)
  then show ?thesis by simp
qed

lemma map_pages_few:
  assumes "tree s P" "room s n" "unat v + 4096 * n \<le> 4294967296" "s' = map_pages P v ph n fl s"
  shows "unat (phys_free s') \<le> unat (phys_free s) + 4096 * (n div 512 + 2)"
proof (cases n)
  case (Suc m)
  have "(vpn v + m) div 512 \<le> vpn v div 512 + m div 512 + 1"
    using div_add1_eq [of "vpn v" m 512] mod_less_divisor [of 512 "vpn v"] mod_less_divisor [of 512 m] by simp
  moreover have "m div 512 \<le> n div 512" by (rule div_le_mono) (simp add: Suc)
  ultimately have "(vpn v + m) div 512 - vpn v div 512 + (if c then 0 else 1) \<le> n div 512 + 2" for c
    by (cases c; simp; linarith)
  then have "4096 * ((vpn v + m) div 512 - vpn v div 512 + (if entry_present (pde_val s P v) then 0 else 1)) \<le> 4096 * (n div 512 + 2)"
    by (rule mult_le_mono2)
  then show ?thesis
    using map_pages_alloc [OF assms(1) assms(2,3) [unfolded Suc], of ph fl] unfolding assms(4) Suc by linarith
qed (use assms(4) in simp)

lemma map_user_space_facts:
  assumes lm: "low_map s Q" and tb: "tables s Q \<subseteq> {t. t < B \<or> L \<le> t}" and L: "L \<le> phys_free s"
    and ub: "unat (user_phys_base s) + 4096 * 6144 < 4294967296" "unat (user_phys_base s) mod 4096 = 0"
    and rm: "room s 6143" and s': "s' = map_user_space Q s"
  shows "user_inv s' Q B L" "arena_mapped s' Q" "vpn v \<in> {7168..<25600} \<Longrightarrow> walk s' Q v = None"
    and "same_cfg s s'" "unat (phys_free s') \<le> unat (phys_free s) + 4096 * 15"
proof -
  let ?b = "user_phys_base s" and ?fl = "PTE_W OR PTE_U"
  define s0 where "s0 = clear_entries (pae_pd Q USER_BASE s) 2 48 s"
  define s1 where "s1 = map_pages Q USER_BASE (ucast ?b) 5887 ?fl s0"
  have s'2: "s' = map_pages Q (USER_BASE + of_nat (4096 * 5888)) (ucast (?b + of_nat (4096 * 5888))) 256 ?fl s1"
    unfolding s' map_user_space_pages [OF ub(1)] s1_def s0_def ..
  note C = clear_user_window [OF lm tb L s0_def]
  have fl: "?fl AND PTE_U \<noteq> 0" by (simp add: pte_defs)
  have t0: "tree s0 Q" using C(1) by (simp add: user_inv_def)
  have rm0: "room s0 5887" using rm C(2) by (simp add: room_def)
  have v0: "vpn USER_BASE = 1024" "unat USER_BASE + 4096 * 5887 \<le> 4294967296" by (simp_all add: vpn_def USER_BASE_def)
  note M1 = map_pages_facts [OF t0 rm0 v0(2) s1_def]
  have sub1: "{vpn USER_BASE..<vpn USER_BASE + 5887} \<subseteq> user_win" by (auto simp: v0 user_win_def)
  have i1: "user_inv s1 Q B L" unfolding s1_def by (rule user_inv_map_pages [OF C(1) rm0 sub1 fl v0(2)])
  then have t1: "tree s1 Q" by (simp add: user_inv_def)
  define w where "w = USER_BASE + of_nat (4096 * 5888)"
  have wv: "vpn w = 6912" "unat w + 4096 * 256 \<le> 4294967296" by (simp_all add: w_def vpn_def USER_BASE_def)
  have rm1: "room s1 256" using rm M1 C(2) by (simp add: room_def)
  note M2 = map_pages_facts [OF t1 rm1 wv(2) s'2 [folded w_def]]
  have sub2: "{vpn w..<vpn w + 256} \<subseteq> user_win" by (auto simp: wv user_win_def)
  show i2: "user_inv s' Q B L" unfolding s'2 w_def [symmetric] by (rule user_inv_map_pages [OF i1 rm1 sub2 fl wv(2)])
  show c: "same_cfg s s'"
    unfolding s'2 s1_def by (rule same_cfg_trans [OF same_cfg_trans [OF C(3) same_cfg_map_pages] same_cfg_map_pages])
  show "unat (phys_free s') \<le> unat (phys_free s) + 4096 * 15"
    using map_pages_few [OF t0 rm0 v0(2) s1_def] map_pages_few [OF t1 rm1 wv(2) s'2 [folded w_def]] C(2) by simp
  have addr: "ucast ?b + of_nat (4096 * k) = (of_nat (unat ?b + 4096 * k) :: u64)" if "k < 6144" for k
    by (rule ucast_pages) (use ub(1) that in linarith)
  have num: "unat ?b + 4096 * k < 4294967296" "(unat ?b + 4096 * k) mod 4096 = 0" if "k < 6144" for k
    using ub that by (linarith, simp)
  show none: "walk s' Q v = None" if "vpn v \<in> {7168..<25600}" for v
    using M2 M1 C(4) [of v] that v0(1) wv(1) by (simp add: user_win_def)
  have arena: "translate s' Q v = Some (of_nat (unat ?b + 4096 * (vpn v - 1024)), True, True)"
    if v: "vpn v \<in> {1024..<7168}" "vpn v \<noteq> 6911" for v
  proof -
    define k where "k = vpn v - 1024"
    have k: "vpn v = 1024 + k" "k < 6144" "k \<noteq> 5887" using v by (auto simp: k_def)
    have "\<exists>e. walk s' Q v = Some (e, pte_of (of_nat (unat ?b + 4096 * k)) ?fl)"
    proof (cases "k < 5887")
      case True
      then have "walk s' Q v = walk s1 Q v" using M2 k wv(1) by simp
      moreover have "vpn USER_BASE \<le> vpn v \<and> vpn v < vpn USER_BASE + 5887" using k(1) True v0(1) by simp
      then have "\<exists>e. walk s1 Q v = Some (e, pte_of (ucast ?b + of_nat (4096 * (vpn v - vpn USER_BASE))) ?fl)"
        using M1 by blast
      moreover have "vpn v - vpn USER_BASE = k" using k v0(1) by simp
      ultimately show ?thesis by (simp only: addr [OF k(2)])
    next
      case False
      then have kk: "k = 5888 + (k - 5888)" using k(3) by linarith
      have "unat (?b + of_nat (4096 * 5888)) = unat ?b + 4096 * 5888" by (rule unat_add_pages) (use ub in linarith)
      moreover have "unat (?b + of_nat (4096 * 5888)) + 4096 * (k - 5888) < 4294967296"
        using calculation ub(1) k(2) by simp
      ultimately have "ucast (?b + of_nat (4096 * 5888)) + of_nat (4096 * (k - 5888)) = (of_nat (unat ?b + 4096 * 5888 + 4096 * (k - 5888)) :: u64)"
        using ucast_pages [of "?b + of_nat (4096 * 5888)" "k - 5888"] by (simp only:)
      moreover have "unat ?b + 4096 * 5888 + 4096 * (k - 5888) = unat ?b + 4096 * k" using kk by linarith
      moreover have "vpn w \<le> vpn v \<and> vpn v < vpn w + 256" using k(1,2) kk wv(1) by linarith
      then have "\<exists>e. walk s' Q v = Some (e, pte_of (ucast (?b + of_nat (4096 * 5888)) + of_nat (4096 * (vpn v - vpn w))) ?fl)"
        using M2 by blast
      moreover have "vpn v - vpn w = k - 5888" using k(1) kk wv(1) by linarith
      ultimately show ?thesis by (simp only:)
    qed
    then obtain e where e: "walk s' Q v = Some (e, pte_of (of_nat (unat ?b + 4096 * k)) ?fl)" by blast
    show ?thesis unfolding k_def [symmetric]
      by (rule mapped_user_page [OF i2 e _ num [OF k(2)]]) (use v in \<open>simp add: user_win_def\<close>)
  qed
  have guard: "translate s' Q v = None" if "vpn v = 6911" for v
  proof -
    have "walk s' Q v = walk s1 Q v" "walk s1 Q v = walk s0 Q v" using M1 M2 that v0(1) wv(1) by auto
    then show ?thesis using C(4) [of v] that by (simp add: user_win_def translate_def)
  qed
  show "arena_mapped s' Q"
    using arena guard by (simp add: arena_mapped_def same_cfgD [OF c])
qed

lemma user_window_pages:
  assumes i: "user_inv s Q B L" and rm: "room s n" and w: "{vpn v..<vpn v + n} \<subseteq> A" "A \<subseteq> user_win" and u: "fl AND PTE_U \<noteq> 0"
    and b: "unat v + 4096 * n \<le> 4294967296" and s': "s' = map_pages Q v ph n fl s"
  shows "user_inv s' Q B L" "same_cfg s s'" "vpn x \<notin> A \<Longrightarrow> walk s' Q x = walk s Q x"
    and "unat (phys_free s') \<le> unat (phys_free s) + 4096 * (n div 512 + 2)"
proof -
  have t: "tree s Q" using i by (simp add: user_inv_def)
  show "user_inv s' Q B L" unfolding s' by (rule user_inv_map_pages [OF i rm _ u b]) (use w in blast)
  show "same_cfg s s'" unfolding s' by (rule same_cfg_map_pages)
  note M = map_pages_facts [OF t rm b s']
  show "unat (phys_free s') \<le> unat (phys_free s) + 4096 * (n div 512 + 2)" by (rule map_pages_few [OF t rm b s'])
  show "walk s' Q x = walk s Q x" if "vpn x \<notin> A"
  proof -
    have "vpn x < vpn v \<or> vpn v + n \<le> vpn x" using that w(1) by (meson atLeastLessThan_iff not_le subsetD)
    then show ?thesis using M by blast
  qed
qed

lemma pte_of_frame:
  assumes "(fl :: u32) AND NOT 0xFFF = 0"
  shows "pte_of x fl AND NOT 0xFFF = x AND NOT 0xFFF"
proof (rule bit_word_eqI)
  fix n :: nat assume n: "n < LENGTH(64)"
  have "\<not> bit fl n" if "12 \<le> n"
  proof (cases "n < 32")
    case True
    have "\<not> bit (fl AND NOT 0xFFF) n" using assms by simp
    then show ?thesis using that True by (simp add: low12 bit_simps)
  qed (use bit_imp_le_length [of fl n] in auto)
  then show "bit (pte_of x fl AND NOT 0xFFF) n = bit (x AND NOT 0xFFF) n"
    using n by (cases "n < 12") (auto simp: pte_of_def low12 bit_simps PTE_P_def)
qed

text \<open>A run of user pages: what it opens, and that nothing else changes.\<close>

lemma user_window_open:
  assumes i: "user_inv s Q B L" and rm: "room s n" and w: "{vpn v..<vpn v + n} \<subseteq> user_win"
    and fl: "fl AND NOT 0xFFF = 0" "bit fl 1" "bit fl 2" and b: "unat v + 4096 * n \<le> 4294967296"
    and s': "s' = map_pages Q v ph n fl s"
  shows "user_inv s' Q B L" "same_cfg s s'"
    and "vpn x \<notin> {vpn v..<vpn v + n} \<Longrightarrow> translate s' Q x = translate s Q x"
    and "vpn x \<in> {vpn v..<vpn v + n} \<Longrightarrow>
      translate s' Q x = Some ((ph + of_nat (4096 * (vpn x - vpn v))) AND NOT 0xFFF, True, True)"
proof -
  have "bit (fl AND PTE_U) 2" using fl(3) by (simp add: PTE_U_def bit_simps)
  then have u: "fl AND PTE_U \<noteq> 0" by auto
  note W = user_window_pages [OF i rm order_refl w u b s']
  show i': "user_inv s' Q B L" and "same_cfg s s'" by (rule W)+
  show "translate s' Q x = translate s Q x" if "vpn x \<notin> {vpn v..<vpn v + n}"
    using W(3) [OF that] by (simp add: translate_def)
  show "translate s' Q x = Some ((ph + of_nat (4096 * (vpn x - vpn v))) AND NOT 0xFFF, True, True)"
    if x: "vpn x \<in> {vpn v..<vpn v + n}"
  proof -
    have t: "tree s Q" using i by (simp add: user_inv_def)
    obtain e where e: "walk s' Q x = Some (e, pte_of (ph + of_nat (4096 * (vpn x - vpn v))) fl)"
      using map_pages_facts [OF t rm b s'] x by auto
    have "bit e 2 \<and> bit e 1" using i' walk_pde [OF e] w x by (auto simp: user_inv_def user_dirs_def)
    moreover have "bit (pte_of p fl) 2" "bit (pte_of p fl) 1" for p
      using fl pte_of_bits(2) [of 2 p fl] pte_of_bits(2) [of 1 p fl] by simp_all
    ultimately show ?thesis using e pte_of_frame [OF fl(1)] by (simp add: translate_def)
  qed
qed

lemma ceil_pages: "k < (n + 4095) div 4096 \<longleftrightarrow> 4096 * k < (n :: nat)"
  using less_eq_div_iff_mult_less_eq [of 4096 "Suc k" "n + 4095"] by (simp add: Suc_le_eq) linarith

text \<open>The bytes of the framebuffer the user window shows: none when there is no linear framebuffer or it does not fit.\<close>

definition fb_bytes :: "vm \<Rightarrow> u32" where
  "fb_bytes s = (if gfx_lfb_phys s = 0 \<or> gfx_pitch s * gfx_h s > USER_FB_SIZE then 0 else gfx_pitch s * gfx_h s)"

lemma map_user_framebuffer_facts:
  assumes i: "user_inv s Q B L" and rm: "room s 4096" and s': "s' = map_user_framebuffer Q s"
  shows "user_inv s' Q B L \<and> (\<forall>v. vpn v \<notin> {7168..<11264} \<longrightarrow> walk s' Q v = walk s Q v) \<and>
    proc_pdpt s' = proc_pdpt s \<and> user_phys_base s' = user_phys_base s \<and> user_phys_limit s' = user_phys_limit s \<and>
    dma_arena_base s' = dma_arena_base s \<and> user_mmio_used s' = user_mmio_used s \<and> user_dma_used s' = user_dma_used s \<and>
    unat (phys_free s') \<le> unat (phys_free s) + 4096 * 10 \<and> gfx_fb_size s' = fb_bytes s \<and>
    (\<forall>v. vpn v \<in> {7168..<11264} \<longrightarrow> translate s' Q v =
       (if 4096 * (vpn v - 7168) < unat (fb_bytes s)
        then Some ((gfx_lfb_phys s + of_nat (4096 * (vpn v - 7168))) AND NOT 0xFFF, True, True) else translate s Q v))"
proof -
  define bytes where "bytes = gfx_pitch s * gfx_h s"
  have cng: "user_inv (s\<lparr>gfx_fb_user_mapped := a, gfx_fb_size := b\<rparr>) Q B L = user_inv s Q B L"
    "walk (s\<lparr>gfx_fb_user_mapped := a, gfx_fb_size := b\<rparr>) Q v = walk s Q v" for a b v
    by (rule user_inv_cong space_cong; simp)+
  show ?thesis
  proof (cases "gfx_lfb_phys s = 0 \<or> bytes = 0 \<or> bytes > USER_FB_SIZE")
    case True
    then have "s' = s\<lparr>gfx_fb_user_mapped := False, gfx_fb_size := 0\<rparr>"
      by (auto simp: s' map_user_framebuffer_def bytes_def Let_def)
    moreover have "fb_bytes s = 0" using True by (auto simp: fb_bytes_def bytes_def)
    ultimately show ?thesis using cng i by (simp add: translate_def)
  next
    case False
    have fb: "fb_bytes s = bytes" using False by (simp add: fb_bytes_def bytes_def)
    define r where "r = s\<lparr>gfx_fb_size := bytes, gfx_fb_user_addr := USER_FB_BASE, gfx_fb_user_mapped := True\<rparr>"
    define fl where "fl = PTE_W OR PTE_U OR (if pat_wc_ready s then PTE_PAT else 0)"
    define stop where "stop = (USER_FB_BASE + bytes + 0xFFF) AND NOT 0xFFF"
    define n where "n = page_count USER_FB_BASE stop"
    have s'r: "s' = map_pages Q USER_FB_BASE (gfx_lfb_phys s) n fl r"
      using False unfolding s' map_user_framebuffer_def Let_def
      by (simp add: bytes_def [symmetric] r_def fl_def n_def stop_def layout_defs)
    have ub: "unat bytes \<le> 16777216" using False by (simp add: USER_FB_SIZE_def word_le_nat_alt not_less)
    have base: "unat USER_FB_BASE = 29360128" by (simp add: layout_defs)
    have u1: "unat (USER_FB_BASE + bytes) = 29360128 + unat bytes"
      using ub base by (subst unat_add32) simp_all
    have u2: "unat (USER_FB_BASE + bytes + 0xFFF) = 29360128 + unat bytes + 4095"
      using u1 ub by (subst unat_add32) simp_all
    have "unat stop \<le> 29360128 + 16777216"
    proof -
      have "(29360128 + unat bytes + 4095) div 4096 \<le> 11264" using ub by (simp add: div_le_mono [of _ "46141439" 4096, simplified])
      then show ?thesis using unat_page_base [of "USER_FB_BASE + bytes + 0xFFF"] u2 unfolding stop_def by simp
    qed
    then have "(unat stop - 29360128 + 4095) div 4096 \<le> (16777216 + 4095) div 4096" by (intro div_le_mono) linarith
    then have n: "n \<le> 4096" by (simp add: n_def page_count_def base)
    have v: "vpn USER_FB_BASE = 7168" by (simp add: vpn_def base)
    have "user_inv r Q B L = user_inv s Q B L" by (rule user_inv_cong; simp add: r_def)
    then have ri: "user_inv r Q B L" "room r n" using i rm n by (simp_all add: r_def room_def)
    have rw: "walk r Q v = walk s Q v" for v by (rule space_cong) (simp add: r_def)
    have sub: "{vpn USER_FB_BASE..<vpn USER_FB_BASE + n} \<subseteq> {7168..<11264}" "{7168..<11264} \<subseteq> user_win"
      using n by (auto simp: v user_win_def)
    have fl: "fl AND PTE_U \<noteq> 0" "fl AND NOT 0xFFF = 0" "bit fl 1" "bit fl 2"
      by (simp_all add: fl_def pte_defs bit_simps)
    have b: "unat USER_FB_BASE + 4096 * n \<le> 4294967296" using n by (simp add: base)
    note W = user_window_pages [OF ri(1,2) sub fl(1) b s'r]
    note O = user_window_open [OF ri(1,2) order_trans [OF sub] fl(2-4) b s'r, unfolded v]
    have nk: "7168 \<le> x \<and> x < 7168 + n \<longleftrightarrow> 7168 \<le> x \<and> 4096 * (x - 7168) < unat bytes" for x
    proof -
      have "unat stop = 29360128 + 4096 * ((unat bytes + 4095) div 4096)"
        using unat_page_base [of "USER_FB_BASE + bytes + 0xFFF"] u2 div_mult_self4 [of 4096 7168 "unat bytes + 4095"]
        unfolding stop_def by (simp add: add.commute)
      then have "n = (unat bytes + 4095) div 4096"
        unfolding n_def page_count_def word_less_nat_alt base by simp
      then have "x - 7168 < n \<longleftrightarrow> 4096 * (x - 7168) < unat bytes" by (simp only: ceil_pages)
      moreover have "7168 \<le> x \<Longrightarrow> x < 7168 + n \<longleftrightarrow> x - 7168 < n" by linarith
      ultimately show ?thesis by blast
    qed
    have tr: "translate s' Q x = (if 4096 * (vpn x - 7168) < unat bytes
        then Some ((gfx_lfb_phys s + of_nat (4096 * (vpn x - 7168))) AND NOT 0xFFF, True, True) else translate s Q x)"
      if "vpn x \<in> {7168..<11264}" for x
      using O(3,4) [of x] nk [of "vpn x"] that rw by (simp add: translate_def)
    have "n div 512 \<le> 8" using div_le_mono [OF n, of 512] by simp
    then have "unat (phys_free s') \<le> unat (phys_free s) + 4096 * 10" using W(4) by (simp add: r_def)
    moreover have "gfx_fb_size s' = bytes" using same_cfgD(19) [OF W(2)] by (simp add: r_def)
    ultimately show ?thesis using W(1,3) rw same_cfgD [OF W(2)] tr fb by (auto simp: r_def)
  qed
qed

subsection \<open>The address space after initialisation\<close>

lemma tree_bump:
  assumes t: "tree s Q" and pf: "phys_free s \<le> phys_free s'" "page_aligned (phys_free s')" and e: "tabs s' = tabs s"
  shows "tree s' Q"
  by (rule tables_untouched(1) [OF t _ pf]) (simp add: e)

lemma low_map_bump:
  assumes l: "low_map s Q" and pf: "phys_free s \<le> phys_free s'" "page_aligned (phys_free s')" and e: "tabs s' = tabs s"
  shows "low_map s' Q"
  using l tree_bump [OF _ pf e] unfolding low_map_def space_cong [OF e] by blast

lemma align_up_aligned:
  assumes "page_aligned p" "unat p \<le> 4294963200"
  shows "align_up p PAGE_SIZE = p"
proof -
  obtain q where "unat p = 4096 * q" using assms(1) unfolding page_aligned_unat by (auto simp: mod_eq_0_iff_dvd elim: dvdE)
  then have "(unat p + 4095) div 4096 * 4096 = unat p" by simp
  then show ?thesis using align_up_page [OF assms(2)] by (simp add: word_unat_eq_iff)
qed

text \<open>The state before the user window is opened: \<open>upb\<close> is the first free page.\<close>

lemma paging_init_kernel_part:
  assumes ke: "0 < unat kernel_end" "unat kernel_end \<le> 0x360000"
  obtains s4 Q where "low_map s4 Q" "proc_pdpt s4 = Q" "unat (phys_free s4) \<le> 0x3EC000" "page_aligned (phys_free s4)"
    and "fb_bytes s4 = fb_bytes s" "gfx_lfb_phys s4 = gfx_lfb_phys s"
    and "paging_init kernel_end s =
      (let upb = phys_free s4;
           s5 = s4\<lparr>user_phys_base := upb, user_phys_limit := upb + USER_ARENA_SIZE,
                   dma_arena_base := upb + USER_ARENA_SIZE, phys_free := USER_BASE + USER_SPACE_SIZE\<rparr>
       in paging_enable Q (map_user_framebuffer Q (map_user_space Q s5)))"
proof -
  define F where "F = align_up kernel_end PAGE_SIZE"
  have uF: "unat F = (unat kernel_end + 4095) div 4096 * 4096"
    unfolding F_def by (rule align_up_page) (use ke in linarith)
  have Fb: "unat F \<le> 0x360000" "0 < unat F"
  proof -
    have "(unat kernel_end + 4095) div 4096 \<le> 0x360" using div_le_mono [of "unat kernel_end + 4095" "0x360000 + 4095" 4096] ke by simp
    then show "unat F \<le> 0x360000" using uF by simp
    have "1 \<le> (unat kernel_end + 4095) div 4096" using ke(1) div_le_mono [of 4096 "unat kernel_end + 4095" 4096] by simp
    then show "0 < unat F" using uF by simp
  qed
  have Fa: "page_aligned F" unfolding page_aligned_unat uF by simp
  define s0 where "s0 = s\<lparr>phys_free := F\<rparr>"
  define s1 where "s1 = pdpt_init F (snd (alloc_page_phys s0)\<lparr>kernel_pdpt := F\<rparr>)"
  define s2 where "s2 = map_identity F 0 KERNEL_IDENTITY_LIMIT PTE_W s1"
  have F0: "F = phys_free s0" by (simp add: s0_def)
  have Fr: "unat F + 4096 * 34000 < 4294967296" using Fb by simp
  note K = kernel_space [OF F0 Fa Fr s1_def s2_def]
  define Q where "Q = phys_free s2"
  define s3 where "s3 = copy_pds 0 PAE_PDPT_ENTRIES (snd (alloc_page_phys s2)\<lparr>proc_pdpt := Q\<rparr>)"
  have kp2: "kernel_pdpt s2 = F" using same_cfgD [OF K(3)] by simp
  have Qb: "unat F + 20480 \<le> unat Q" "unat Q \<le> unat F + 4096 * 69" using K(4,5) by (simp_all add: Q_def)
  have Qr: "unat Q + 4096 * 6 < 4294967296" using Qb Fb by simp
  note P = process_space [OF K(1,2) kp2 Q_def Qr s3_def]
  have c3: "kernel_pdpt s3 = F" "proc_pdpt s3 = Q" using same_cfgD [OF P(7)] kp2 by simp_all
  define s4 where "s4 = (if fb_enabled s3 \<and> gfx_lfb_phys s3 \<noteq> 0
               then (let s = gfx_map_lfb (gfx_lfb_phys s3) (gfx_pitch s3 * gfx_h s3) s3
                     in if gfx_lfb s = 0 then s\<lparr>fb_enabled := False\<rparr> else s) else s3)"
  have nz: "F \<noteq> 0" "Q \<noteq> 0" using Fb(2) Qb(1) by auto
  have r3: "unat (phys_free s3) + 4096 * 40000 < 4294967296" using P(6) Qb Fb by simp
  note W = lfb_window [OF P(1,2,5) c3 nz r3 refl]
  have g3: "gfx_lfb_phys s3 = gfx_lfb_phys s" "gfx_pitch s3 = gfx_pitch s" "gfx_h s3 = gfx_h s"
    using same_cfgD [OF P(7)] same_cfgD [OF K(3)] by (simp_all add: s0_def)
  have s4f: "low_map s4 Q \<and> proc_pdpt s4 = Q \<and> unat (phys_free s4) \<le> unat (phys_free s3) + 4096 * 66 \<and>
      gfx_lfb_phys s4 = gfx_lfb_phys s \<and> gfx_pitch s4 = gfx_pitch s \<and> gfx_h s4 = gfx_h s"
  proof -
    define g where "g = gfx_map_lfb (gfx_lfb_phys s3) (gfx_pitch s3 * gfx_h s3) s3"
    have G: "low_map g Q" "unat (phys_free g) \<le> unat (phys_free s3) + 4096 * 66" "proc_pdpt g = Q"
      "gfx_lfb_phys g = gfx_lfb_phys s3" "gfx_pitch g = gfx_pitch s3" "gfx_h g = gfx_h s3"
      unfolding g_def by (rule W)+
    have "low_map (g\<lparr>fb_enabled := False\<rparr>) Q = low_map g Q" by (rule low_map_cong) simp_all
    then show ?thesis using G P(2) c3(2) g3 unfolding s4_def g_def [symmetric] Let_def by simp
  qed
  have b4: "unat (phys_free s4) \<le> 0x3EC000" using s4f P(6) Qb Fb by simp
  have a4: "page_aligned (phys_free s4)" using s4f by (simp add: low_map_def tree_def)
  define upb where "upb = phys_free s4"
  have al: "align_up upb PAGE_SIZE = upb" unfolding upb_def by (rule align_up_aligned [OF a4]) (use b4 in simp)
  have ul: "unat (upb + USER_ARENA_SIZE) = unat upb + 25165824"
    by (subst unat_add32) (use b4 in \<open>simp_all add: upb_def layout_defs\<close>)
  have al2: "align_up (upb + USER_ARENA_SIZE) PAGE_SIZE = upb + USER_ARENA_SIZE"
  proof (rule align_up_aligned)
    show "page_aligned (upb + USER_ARENA_SIZE)"
      using a4 unfolding page_aligned_unat ul upb_def [symmetric] by (simp add: mod_add_eq [of _ 4096, symmetric])
    show "unat (upb + USER_ARENA_SIZE) \<le> 4294963200" using ul b4 by (simp add: upb_def)
  qed
  have ud: "unat (upb + USER_ARENA_SIZE + USER_DMA_SIZE) = unat upb + 25165824 + 16777216"
    by (subst unat_add32) (use b4 ul in \<open>simp_all add: upb_def layout_defs\<close>)
  have cmp: "\<not> upb + USER_ARENA_SIZE < upb" "upb + USER_ARENA_SIZE + USER_DMA_SIZE \<le> KERNEL_IDENTITY_LIMIT"
    "upb + USER_ARENA_SIZE + USER_DMA_SIZE < USER_BASE + USER_SPACE_SIZE"
    using ul ud b4 unfolding word_less_nat_alt word_le_nat_alt by (simp_all add: upb_def layout_defs)
  have "paging_init kernel_end s =
      (let s5 = s4\<lparr>user_phys_base := upb, user_phys_limit := upb + USER_ARENA_SIZE,
                   dma_arena_base := upb + USER_ARENA_SIZE, phys_free := USER_BASE + USER_SPACE_SIZE\<rparr>
       in paging_enable Q (map_user_framebuffer Q (map_user_space Q s5)))"
  proof -
    have A: "fst (alloc_page_phys s0) = F" "fst (alloc_page_phys s2) = Q"
      by (simp_all add: alloc_page_phys_def Let_def F0 Q_def)
    show ?thesis
      unfolding paging_init_def Let_def case_prod_beta F_def [symmetric] s0_def [symmetric] A(1)
        s1_def [symmetric] s2_def [symmetric] A(2) s3_def [symmetric] s4_def [unfolded Let_def, symmetric]
        upb_def [symmetric] al
      using cmp al2 by simp
  qed
  moreover have "fb_bytes s4 = fb_bytes s" using s4f by (simp add: fb_bytes_def)
  ultimately show thesis using that [of s4 Q] s4f b4 a4 by (simp add: upb_def Let_def)
qed

lemma identity_page:
  assumes "user_inv s Q B L" "vpn v < 32768" "vpn v \<notin> user_win"
  shows "\<exists>w. translate s Q v = Some (of_nat (4096 * vpn v), False, w)"
proof -
  obtain e where e: "walk s Q v = Some (e, pte_of (of_nat (4096 * vpn v)) PTE_W)"
    using assms by (auto simp: user_inv_def)
  have "\<not> bit (pte_of (of_nat (4096 * vpn v)) PTE_W) 2" by (simp add: pte_of_bits(2) PTE_W_def)
  moreover have "pte_of (of_nat (4096 * vpn v)) PTE_W AND NOT 0xFFF = of_nat (4096 * vpn v)"
    by (rule pte_of_page) (use assms(2) in \<open>simp_all add: PTE_W_def\<close>)
  ultimately show ?thesis using e by (simp add: translate_def)
qed

text \<open>Below the user window or above it: where the tables lie, the kernel's view is one to one.\<close>

lemma table_page:
  assumes i: "user_inv s Q B L" and B: "unat B \<le> 0x400000" and L: "L = USER_BASE + USER_SPACE_SIZE"
    and pf: "unat (phys_free s) \<le> 0x8000000" and t: "t \<in> tables s Q"
  shows "vpn t < 32768 \<and> vpn t \<notin> user_win"
proof -
  have lt: "unat t < 0x8000000"
    using tables_below [OF _ t] i pf by (simp add: user_inv_def word_less_nat_alt)
  have "t < B \<or> L \<le> t" using i t by (auto simp: user_inv_def)
  then have "unat t < 4194304 \<or> 104857600 \<le> unat t"
    using B by (auto simp: word_less_nat_alt word_le_nat_alt L layout_defs)
  then have "unat t div 4096 < 1024 \<or> 25600 \<le> unat t div 4096"
    by (simp add: div_less_iff_less_mult less_eq_div_iff_mult_less_eq)
  then show ?thesis using lt by (auto simp: vpn_def user_win_def less_mult_imp_div_less)
qed

lemma paging_init_facts:
  assumes ke: "0 < unat kernel_end" "unat kernel_end \<le> 0x360000" and s': "s' = paging_init kernel_end s"
  shows "user_inv s' (proc_pdpt s') (user_phys_base s') (USER_BASE + USER_SPACE_SIZE)" "arena_mapped s' (proc_pdpt s')"
    and "vpn v \<in> {11264..<25600} \<Longrightarrow> walk s' (proc_pdpt s') v = None"
    and "cr3 s' = proc_pdpt s'" "paging_on s'" "unat (user_phys_base s') \<le> 0x400000"
    and "unat (user_phys_limit s') = unat (user_phys_base s') + 25165824" "dma_arena_base s' = user_phys_limit s'"
    and "unat (phys_free s') \<le> 0x8000000" "gfx_fb_size s' = fb_bytes s"
    and "vpn v \<in> {7168..<11264} \<Longrightarrow> translate s' (proc_pdpt s') v =
      (if 4096 * (vpn v - 7168) < unat (fb_bytes s)
       then Some ((gfx_lfb_phys s + of_nat (4096 * (vpn v - 7168))) AND NOT 0xFFF, True, True) else None)"
proof -
  obtain s4 Q where lm: "low_map s4 Q" and q: "proc_pdpt s4 = Q" and b: "unat (phys_free s4) \<le> 0x3EC000"
    and a: "page_aligned (phys_free s4)" and fb4: "fb_bytes s4 = fb_bytes s" "gfx_lfb_phys s4 = gfx_lfb_phys s"
    and run: "paging_init kernel_end s =
      (let upb = phys_free s4;
           s5 = s4\<lparr>user_phys_base := upb, user_phys_limit := upb + USER_ARENA_SIZE,
                   dma_arena_base := upb + USER_ARENA_SIZE, phys_free := USER_BASE + USER_SPACE_SIZE\<rparr>
       in paging_enable Q (map_user_framebuffer Q (map_user_space Q s5)))"
    by (rule paging_init_kernel_part [OF ke])
  define upb where "upb = phys_free s4"
  define s5 where "s5 = s4\<lparr>user_phys_base := upb, user_phys_limit := upb + USER_ARENA_SIZE,
       dma_arena_base := upb + USER_ARENA_SIZE, phys_free := USER_BASE + USER_SPACE_SIZE\<rparr>"
  define s6 where "s6 = map_user_space Q s5"
  define s7 where "s7 = map_user_framebuffer Q s6"
  let ?L = "USER_BASE + USER_SPACE_SIZE"
  have uL: "unat ?L = 104857600" by (simp add: layout_defs)
  have s'7: "s' = paging_enable Q s7" unfolding s' run Let_def s7_def s6_def s5_def upb_def ..
  have up: "phys_free s4 \<le> phys_free s5" "page_aligned (phys_free s5)"
    using b by (simp_all add: s5_def word_le_nat_alt uL page_aligned_unat)
  have lm5: "low_map s5 Q" by (rule low_map_bump [OF lm up]) (simp add: s5_def)
  have "tables s5 Q = tables s4 Q" by (rule space_cong) (simp add: s5_def)
  then have tb: "tables s5 Q \<subseteq> {t. t < upb \<or> ?L \<le> t}"
    using tables_below [of s4 Q] lm by (auto simp: low_map_def upb_def)
  have base: "unat (user_phys_base s5) + 4096 * 6144 < 4294967296" "unat (user_phys_base s5) mod 4096 = 0"
    using b a by (simp_all add: s5_def upb_def page_aligned_unat)
  have rm5: "room s5 6143" by (simp add: room_def s5_def uL)
  have L5: "?L \<le> phys_free s5" by (simp add: s5_def)
  note U = map_user_space_facts [OF lm5 tb L5 base rm5 s6_def]
  have pf5: "unat (phys_free s5) = 104857600" by (simp add: s5_def uL)
  have rm6: "room s6 4096" using U(5) by (simp add: room_def pf5)
  note G = map_user_framebuffer_facts [OF U(1) rm6 s7_def]
  note C = same_cfgD [OF U(4)]
  have Q': "proc_pdpt s' = Q" using G C q by (simp add: s'7 paging_enable_def s5_def)
  have upb': "user_phys_base s' = upb" "user_phys_limit s' = upb + USER_ARENA_SIZE" "dma_arena_base s' = upb + USER_ARENA_SIZE"
    using G C by (simp_all add: s'7 paging_enable_def s5_def)
  have eq: "tabs s' = tabs s7" "phys_free s' = phys_free s7" by (simp_all add: s'7 paging_enable_def)
  have "user_inv s' Q upb ?L = user_inv s7 Q upb ?L" by (rule user_inv_cong [OF eq])
  then show "user_inv s' (proc_pdpt s') (user_phys_base s') ?L" using G by (simp add: Q' upb')
  have wk: "walk s' Q v = walk s6 Q v" if "vpn v \<notin> {7168..<11264}" for v
    using G that space_cong(1) [OF eq(1)] by simp
  show "walk s' (proc_pdpt s') v = None" if "vpn v \<in> {11264..<25600}" for v
    using U(3) [of v] wk [of v] that by (simp add: Q')
  show "arena_mapped s' (proc_pdpt s')"
    using U(2) wk C unfolding arena_mapped_def Q' upb' translate_def by (simp add: s5_def)
  show "cr3 s' = proc_pdpt s'" "paging_on s'" unfolding Q' by (simp_all add: s'7 paging_enable_def)
  show "unat (user_phys_base s') \<le> 0x400000" using b by (simp add: upb' upb_def)
  show "dma_arena_base s' = user_phys_limit s'" by (simp add: upb')
  show "unat (user_phys_limit s') = unat (user_phys_base s') + 25165824"
    unfolding upb' by (subst unat_add32) (use b in \<open>simp_all add: upb_def layout_defs\<close>)
  show "unat (phys_free s') \<le> 0x8000000" using G U(5) pf5 eq by simp
  have "fb_bytes s6 = fb_bytes s4" using C by (simp add: fb_bytes_def s5_def)
  then have fb6: "fb_bytes s6 = fb_bytes s" "gfx_lfb_phys s6 = gfx_lfb_phys s"
    using C fb4 by (simp_all add: s5_def)
  show "gfx_fb_size s' = fb_bytes s" using G fb6 by (simp add: s'7 paging_enable_def)
  show "translate s' (proc_pdpt s') v =
      (if 4096 * (vpn v - 7168) < unat (fb_bytes s)
       then Some ((gfx_lfb_phys s + of_nat (4096 * (vpn v - 7168))) AND NOT 0xFFF, True, True) else None)"
    if "vpn v \<in> {7168..<11264}"
  proof -
    have "translate s6 Q v = None" using U(3) [of v] that by (simp add: translate_def)
    then show ?thesis unfolding Q' space_cong(8) [OF eq(1)] using G that fb6 by simp
  qed
qed

definition demo_vm :: vm where
  "demo_vm = \<lparr>tabs = (\<lambda>_ _. 0), phys_free = 0, kernel_pdpt = 0, proc_pdpt = 0, paging_on = False, cr3 = 0,
     mmio_virt_next = MMIO_VIRT_BASE, user_phys_base = 0, user_phys_limit = 0, dma_arena_base = 0,
     user_mmio_used = 0, user_dma_used = 0, pat_wc_ready = True, fb_enabled = True, gfx_w = 1024, gfx_h = 768,
     gfx_pitch = 4096, gfx_bpp = 32, gfx_lfb = 0, gfx_lfb_phys = 0xE0000000, gfx_mode_id = 0, gfx_fb_size = 0,
     gfx_fb_user_addr = 0, gfx_fb_user_mapped = False\<rparr>"

lemma unat_page_base64: "unat ((x :: u64) AND NOT 0xFFF) = unat x div 4096 * 4096"
proof -
  have "x AND NOT 0xFFF = push_bit 12 (drop_bit 12 x)"
    by (rule bit_word_eqI) (auto simp: low12 bit_simps)
  moreover have "unat x div 4096 * 4096 < 2 ^ 64"
    using unsigned_less [of x, where ?'a = nat] by (simp add: le_less_trans [OF div_times_less_eq_dividend])
  ultimately show ?thesis
    by (simp add: push_bit_eq_mult drop_bit_eq_div unat_word_ariths unat_div)
qed

text \<open>What lies behind a page of the framebuffer window, when the framebuffer is above 128 MB.\<close>

lemma fb_frame_high:
  assumes "0x8000000 \<le> gfx_lfb_phys s" "unat (gfx_lfb_phys s) + unat (fb_bytes s) < 2 ^ 64"
    and "4096 * k < unat (fb_bytes s)"
  shows "0x8000000 \<le> unat ((gfx_lfb_phys s + of_nat (4096 * k)) AND NOT 0xFFF)"
proof -
  have k: "unat (of_nat (4096 * k) :: u64) = 4096 * k"
    unfolding unat_of_nat by (rule mod_less) (use assms(2,3) in simp)
  have u: "unat (gfx_lfb_phys s + of_nat (4096 * k)) = unat (gfx_lfb_phys s) + 4096 * k"
    using assms(2,3) k by (subst unat_word_ariths) simp
  have "0x8000 \<le> unat (gfx_lfb_phys s + of_nat (4096 * k)) div 4096"
    using assms(1) unfolding u by (simp add: word_le_nat_alt less_eq_div_iff_mult_less_eq)
  then show ?thesis unfolding unat_page_base64 by simp
qed

lemma user_frame:
  assumes ar: "arena_mapped s' Q" and ub: "unat (user_phys_base s') \<le> 0x400000"
    "unat (user_phys_limit s') = unat (user_phys_base s') + 25165824"
    and fw: "\<And>v. vpn v \<in> {7168..<11264} \<Longrightarrow> translate s' Q v =
      (if 4096 * (vpn v - 7168) < unat (fb_bytes s)
       then Some ((gfx_lfb_phys s + of_nat (4096 * (vpn v - 7168))) AND NOT 0xFFF, True, True) else None)"
    and v: "vpn v \<in> {1024..<11264} - {6911}"
    and fb: "0x8000000 \<le> gfx_lfb_phys s \<and> unat (gfx_lfb_phys s) + unat (fb_bytes s) < 2 ^ 64 \<or> fb_bytes s = 0"
    and t: "translate s' Q v = Some (ph, True, w)"
  shows "unat ph \<in> {unat (user_phys_base s')..<unat (user_phys_limit s')} \<union> {0x8000000..}"
proof (cases "vpn v < 7168")
  case True
  define k where "k = unat (user_phys_base s') + 4096 * (vpn v - 1024)"
  have k: "unat (user_phys_base s') \<le> k" "k < unat (user_phys_base s') + 25165824" using True v by (auto simp: k_def)
  have "ph = of_nat k" using ar True v t by (auto simp: arena_mapped_def k_def)
  then have "unat ph = k" using k ub(1) by (simp add: unat_of_nat take_bit_eq_mod)
  then show ?thesis using k ub(2) by simp
next
  case False
  then have c: "4096 * (vpn v - 7168) < unat (fb_bytes s)"
    and ph: "ph = (gfx_lfb_phys s + of_nat (4096 * (vpn v - 7168))) AND NOT 0xFFF"
    using fw [of v] v t by (auto split: if_splits)
  then show ?thesis using fb_frame_high [OF _ _ c] fb by auto
qed

text \<open>
  C15. Isolation of user programs. After \<open>paging_init\<close>, with the kernel image ending below 3.4 MB,
  the processor walks the process tables; the 24 MB arena of the user window is backed by the
  physical arena, readable and writable from user mode, with the stack guard page left out; the
  framebuffer window shows exactly the pages of the linear framebuffer (none when there is none or it
  is larger than the window); low memory outside the window is mapped one to one for the kernel only;
  and no other page is open to user mode. Every page table lies outside the physical arena, at an
  address the kernel reaches one to one. Where the boot loader reports a framebuffer above the 128 MB
  of memory the kernel manages (or none), no page open to user mode is backed by a page table or by
  any memory below 128 MB outside the arena. The code does not check the address the boot loader reports.
\<close>

theorem paging_init_isolation:
  assumes "0 < unat kernel_end" "unat kernel_end \<le> 0x360000"
  shows "let s' = paging_init kernel_end s; Q = proc_pdpt s' in
    cr3 s' = Q \<and> paging_on s' \<and>
    (\<forall>v. vpn v \<in> {1024..<7168} \<longrightarrow> translate s' Q v =
       (if vpn v = 6911 then None else Some (of_nat (unat (user_phys_base s') + 4096 * (vpn v - 1024)), True, True))) \<and>
    (\<forall>v. vpn v \<in> {7168..<11264} \<longrightarrow> translate s' Q v =
       (if 4096 * (vpn v - 7168) < unat (fb_bytes s)
        then Some ((gfx_lfb_phys s + of_nat (4096 * (vpn v - 7168))) AND NOT 0xFFF, True, True) else None)) \<and>
    (\<forall>v. vpn v < 32768 \<and> vpn v \<notin> {1024..<25600} \<longrightarrow> (\<exists>w. translate s' Q v = Some (of_nat (4096 * vpn v), False, w))) \<and>
    (\<forall>v ph w. translate s' Q v = Some (ph, True, w) \<longrightarrow> vpn v \<in> {1024..<11264} - {6911}) \<and>
    (\<forall>t \<in> tables s' Q. t \<notin> {user_phys_base s'..<user_phys_limit s'} \<and>
       (\<exists>w. translate s' Q t = Some (of_nat (4096 * vpn t), False, w))) \<and>
    (0x8000000 \<le> gfx_lfb_phys s \<and> unat (gfx_lfb_phys s) + unat (fb_bytes s) < 2 ^ 64 \<or> fb_bytes s = 0 \<longrightarrow>
     (\<forall>v ph w. translate s' Q v = Some (ph, True, w) \<longrightarrow>
        unat ph \<in> {unat (user_phys_base s')..<unat (user_phys_limit s')} \<union> {0x8000000..} \<and>
        ph \<notin> ucast ` tables s' Q))"
proof -
  define s' Q where "s' = paging_init kernel_end s" and "Q = proc_pdpt s'"
  note F = paging_init_facts [OF assms s'_def, folded Q_def]
  have user: "vpn v \<in> {1024..<11264} - {6911}" if t: "translate s' Q v = Some (ph, True, w)" for v ph w
  proof -
    have "vpn v \<in> user_win" using F(1) t by (auto simp: user_inv_def kernel_only_def)
    moreover have "vpn v \<notin> {11264..<25600}" using F(3) [of v] t by (auto simp: translate_def)
    moreover have "vpn v \<noteq> 6911" using F(2) t by (auto simp: arena_mapped_def)
    ultimately show ?thesis by (auto simp: user_win_def)
  qed
  have tab: "t \<notin> {user_phys_base s'..<user_phys_limit s'} \<and> (\<exists>w. translate s' Q t = Some (of_nat (4096 * vpn t), False, w)) \<and>
      unat t < 0x8000000"
    if t: "t \<in> tables s' Q" for t
  proof -
    note T = table_page [OF F(1,6) refl F(9) t]
    have "t < user_phys_base s' \<or> USER_BASE + USER_SPACE_SIZE \<le> t" using F(1) t by (auto simp: user_inv_def)
    then have "t \<notin> {user_phys_base s'..<user_phys_limit s'}"
      using F(6,7) by (auto simp: word_less_nat_alt word_le_nat_alt layout_defs)
    moreover have "unat t < 0x8000000" using T by (simp add: vpn_def div_less_iff_less_mult)
    ultimately show ?thesis using identity_page [OF F(1)] T by blast
  qed
  have behind: "unat ph \<in> {unat (user_phys_base s')..<unat (user_phys_limit s')} \<union> {0x8000000..} \<and> ph \<notin> ucast ` tables s' Q"
    if fb: "0x8000000 \<le> gfx_lfb_phys s \<and> unat (gfx_lfb_phys s) + unat (fb_bytes s) < 2 ^ 64 \<or> fb_bytes s = 0"
      and t: "translate s' Q v = Some (ph, True, w)" for v ph w
  proof -
    have "unat ph \<in> {unat (user_phys_base s')..<unat (user_phys_limit s')} \<union> {0x8000000..}"
      by (rule user_frame [OF F(2,6,7,11) user [OF t] fb t])
    moreover have "unat (ucast x :: u64) \<notin> {unat (user_phys_base s')..<unat (user_phys_limit s')} \<union> {0x8000000..}"
      if "x \<in> tables s' Q" for x
      using tab [OF that] by (auto simp: unat_ucast64 word_less_nat_alt word_le_nat_alt)
    ultimately show ?thesis by blast
  qed
  show ?thesis
    using F(2,4,5,11) identity_page [OF F(1)] user tab behind
    unfolding s'_def [symmetric] Let_def Q_def [symmetric] arena_mapped_def user_win_def by blast
qed

theorem paging_init_isolation_witness:
  "let s' = paging_init 0x200000 demo_vm; Q = proc_pdpt s' in
     cr3 s' = Q \<and> translate s' Q USER_STACK_GUARD = None \<and>
     (\<exists>w. translate s' Q 0x7000000 = Some (of_nat (4096 * 28672), False, w)) \<and>
     translate s' Q (USER_FB_BASE + 0x2000) = Some (0xE0002000, True, True) \<and>
     (\<forall>v ph w. translate s' Q v = Some (ph, True, w) \<longrightarrow> ph \<notin> ucast ` tables s' Q)"
proof -
  have ke: "0 < unat (0x200000 :: u32)" "unat (0x200000 :: u32) \<le> 0x360000" by simp_all
  define s' Q where "s' = paging_init 0x200000 demo_vm" and "Q = proc_pdpt s'"
  note P = paging_init_isolation [OF ke, of demo_vm, folded s'_def, unfolded Let_def, folded Q_def]
  have v: "vpn USER_STACK_GUARD = 6911" "vpn 0x7000000 = 28672" "vpn (USER_FB_BASE + 0x2000) = 7170"
    by (simp_all add: vpn_def layout_defs)
  have fb: "fb_bytes demo_vm = 0x300000" "gfx_lfb_phys demo_vm = 0xE0000000"
    by (simp_all add: fb_bytes_def demo_vm_def layout_defs)
  have hi: "0x8000000 \<le> gfx_lfb_phys demo_vm \<and> unat (gfx_lfb_phys demo_vm) + unat (fb_bytes demo_vm) < 2 ^ 64 \<or> fb_bytes demo_vm = 0"
    by (simp add: fb)
  have w: "vpn USER_STACK_GUARD \<in> {1024..<7168}" "vpn 0x7000000 < 32768 \<and> vpn 0x7000000 \<notin> {1024..<25600}"
    "vpn (USER_FB_BASE + 0x2000) \<in> {7168..<11264}" by (simp_all add: v)
  have "cr3 s' = Q" using P by blast
  moreover have "translate s' Q USER_STACK_GUARD = None" using conjunct1 [OF conjunct2 [OF conjunct2 [OF P]]] w(1) v(1) by simp
  moreover have "\<exists>u. translate s' Q 0x7000000 = Some (of_nat (4096 * vpn 0x7000000), False, u)" using P w(2) by blast
  moreover have "translate s' Q (USER_FB_BASE + 0x2000) = Some (0xE0002000, True, True)"
    using conjunct1 [OF conjunct2 [OF conjunct2 [OF conjunct2 [OF P]]]] w(3) by (simp add: v(3) fb)
  moreover have "\<forall>v ph w. translate s' Q v = Some (ph, True, w) \<longrightarrow> ph \<notin> ucast ` tables s' Q" using P hi by blast
  ultimately show ?thesis unfolding s'_def [symmetric] Let_def Q_def [symmetric] v(2) by blast
qed

subsection \<open>Windows for drivers\<close>

lemma page_span:
  assumes "unat (x :: u32) \<le> 2147483648"
  shows "unat ((x + 0xFFF) AND NOT 0xFFF) = 4096 * page_count 0 x"
proof -
  have u: "unat (x + 0xFFF) = unat x + 4095" using assms by (subst unat_add32) simp_all
  have "page_count 0 x = (unat x + 4095) div 4096"
    by (cases "x = 0") (simp_all add: page_count_def word_neq_0_conv)
  then show ?thesis using unat_page_base [of "x + 0xFFF"] u by simp
qed

text \<open>
  Opening the next \<open>n\<close> pages of a 16 MB band of the user window, \<open>m\<close> pages of which are taken.
\<close>

lemma band_open:
  assumes i: "user_inv s Q B L" and rm: "room s 4097" and u: "tabs u = tabs s" "phys_free u = phys_free s"
    and band: "base = USER_MMIO_BASE \<or> base = USER_DMA_BASE" and used: "unat used = 4096 * m" "m + n \<le> 4096"
    and fl: "fl AND NOT 0xFFF = 0" "bit fl 1" "bit fl 2" and w: "w = map_pages Q (base + used) ph n fl u"
  shows "user_inv w Q B L" "same_cfg u w"
    and "translate w Q v = (if vpn v \<in> {vpn base + m..<vpn base + m + n}
      then Some ((ph + of_nat (4096 * (vpn v - (vpn base + m)))) AND NOT 0xFFF, True, True) else translate s Q v)"
proof -
  have ub: "unat base = 46137344 \<or> unat base = 62914560" using band by (auto simp: layout_defs)
  have uv: "unat (base + used) = unat base + 4096 * m"
    using used ub by (subst unat_add32) auto
  have vv: "vpn (base + used) = vpn base + m" unfolding vpn_def uv by simp
  have vb: "unat (base + used) + 4096 * n \<le> 4294967296" using uv ub used(2) by auto
  have sub: "{vpn (base + used)..<vpn (base + used) + n} \<subseteq> user_win"
    using ub used(2) unfolding vv by (auto simp: user_win_def vpn_def)
  have iu: "user_inv u Q B L" using i user_inv_cong [OF u] by simp
  have ru: "room u n" using rm used(2) by (simp add: room_def u)
  note O = user_window_open [OF iu ru sub fl vb w]
  show "user_inv w Q B L" "same_cfg u w" by (rule O)+
  show "translate w Q v = (if vpn v \<in> {vpn base + m..<vpn base + m + n}
      then Some ((ph + of_nat (4096 * (vpn v - (vpn base + m)))) AND NOT 0xFFF, True, True) else translate s Q v)"
    using O(3,4) [of v] space_cong(8) [OF u(1)] unfolding vv by simp
qed

lemma band_left:
  assumes "unat used = 4096 * m" "m \<le> 4096" "unat (len :: u32) = 4096 * n"
  shows "len > 16777216 - used \<longleftrightarrow> m + n > 4096" "m + n \<le> 4096 \<Longrightarrow> unat (used + len) = 4096 * (m + n)"
proof -
  have "unat (16777216 - used) = 4096 * (4096 - m)"
    using assms(1,2) by (subst unat_sub32) (simp_all add: word_le_nat_alt right_diff_distrib')
  then show "len > 16777216 - used \<longleftrightarrow> m + n > 4096" using assms(2,3) unfolding word_less_nat_alt by auto
  show "unat (used + len) = 4096 * (m + n)" if "m + n \<le> 4096"
    using that assms by (subst unat_add32) simp_all
qed

text \<open>
  \<open>SYS_MAP_PHYS\<close>: when the request fits what is left of the device band, the call opens exactly
  the next free pages of the band on the requested physical range (the page offset of the request
  kept in the result), advances the band, and changes no other translation; otherwise it returns
  the error value and changes nothing. The kernel's half of the address space is kept either way.
\<close>

theorem sys_map_phys_window:
  assumes i: "user_inv s (proc_pdpt s) B L" and rm: "room s 4097"
    and used: "unat (user_mmio_used s) = 4096 * m" "m \<le> 4096"
  shows "let phys = push_bit 32 (ucast hi) OR ucast lo :: u64;
             po = ucast (phys AND 0xFFF) :: u32;
             n = page_count 0 (po + sz);
             (r, s') = sys_map_phys lo hi sz s
         in user_inv s' (proc_pdpt s) B L \<and> proc_pdpt s' = proc_pdpt s \<and>
            (if sz = 0 \<or> sz > USER_MMIO_SIZE \<or> m + n > 4096 then r = ERR \<and> s' = s
             else r = USER_MMIO_OFFSET + user_mmio_used s + po \<and> unat (user_mmio_used s') = 4096 * (m + n) \<and>
               (\<forall>v. translate s' (proc_pdpt s) v =
                  (if vpn v \<in> {vpn USER_MMIO_BASE + m..<vpn USER_MMIO_BASE + m + n}
                   then Some (((phys AND NOT 0xFFF) + of_nat (4096 * (vpn v - (vpn USER_MMIO_BASE + m)))) AND NOT 0xFFF, True, True)
                   else translate s (proc_pdpt s) v)))"
proof -
  define phys where "phys = (push_bit 32 (ucast hi) OR ucast lo :: u64)"
  define po where "po = (ucast (phys AND 0xFFF) :: u32)"
  define n where "n = page_count 0 (po + sz)"
  define span where "span = (po + sz + 0xFFF) AND NOT 0xFFF"
  note D = sys_map_phys_def [of lo hi sz s, unfolded Let_def, folded phys_def, folded po_def, folded span_def]
  consider (bad) "sz = 0 \<or> sz > USER_MMIO_SIZE" | (full) "\<not> (sz = 0 \<or> sz > USER_MMIO_SIZE)" "m + n > 4096"
    | (fits) "\<not> (sz = 0 \<or> sz > USER_MMIO_SIZE)" "m + n \<le> 4096" by linarith
  moreover have span: "unat span = 4096 * n" if "\<not> (sz = 0 \<or> sz > USER_MMIO_SIZE)"
  proof -
    have szb: "unat sz \<le> 16777216" using that by (simp add: USER_MMIO_SIZE_def word_le_nat_alt not_less)
    have pob: "unat po < 4096" unfolding po_def by (rule page_off_lt)
    have "unat (po + sz) = unat po + unat sz" using szb pob by (subst unat_add32) simp_all
    then show ?thesis unfolding span_def n_def by (intro page_span) (use szb pob in linarith)
  qed
  moreover note U = Let_def phys_def [symmetric] po_def [symmetric] n_def [symmetric]
  ultimately show ?thesis
  proof cases
    case bad
    then have "sys_map_phys lo hi sz s = (ERR, s)" by (auto simp: D)
    with bad i show ?thesis unfolding U by auto
  next
    case full
    then have "sys_map_phys lo hi sz s = (ERR, s)"
      using band_left(1) [OF used span] by (simp add: D USER_MMIO_SIZE_def)
    with full i show ?thesis unfolding U by auto
  next
    case fits
    define u where "u = s\<lparr>user_mmio_used := user_mmio_used s + span\<rparr>"
    define w where "w = map_pages (proc_pdpt s) (USER_MMIO_BASE + user_mmio_used s) (phys AND NOT 0xFFF) n (PTE_W OR PTE_U OR PTE_UC) u"
    have "sys_map_phys lo hi sz s = (USER_MMIO_OFFSET + user_mmio_used s + po, w)"
      using fits band_left(1) [OF used span [OF fits(1)]]
      by (simp add: D w_def u_def map_phys_at_def reload_cr3_def Let_def po_def [symmetric] n_def [symmetric])
        (simp add: layout_defs)
    moreover have "tabs u = tabs s" "phys_free u = phys_free s" by (simp_all add: u_def)
    note O = band_open [OF i rm this disjI1 [OF refl] used(1) fits(2) _ _ _ w_def]
    ultimately show ?thesis
      unfolding U using fits O same_cfgD [OF O(2)] band_left(2) [OF used span [OF fits(1)] fits(2)] by (simp add: u_def pte_defs)
  qed
qed

text \<open>The address space of a program that has not opened any window yet.\<close>

definition demo_space :: vm where
  "demo_space = (paging_init 0x200000 demo_vm)\<lparr>user_mmio_used := 0, user_dma_used := 0\<rparr>"

lemma demo_space_inv:
  "user_inv demo_space (proc_pdpt demo_space) (user_phys_base demo_space) (USER_BASE + USER_SPACE_SIZE)"
  "room demo_space 4097" "user_mmio_used demo_space = 0" "user_dma_used demo_space = 0"
proof -
  define s where "s = paging_init 0x200000 demo_vm"
  have b: "0 < unat (0x200000 :: u32)" "unat (0x200000 :: u32) \<le> 0x360000" by simp_all
  note F = paging_init_facts [OF b s_def]
  have d: "demo_space = s\<lparr>user_mmio_used := 0, user_dma_used := 0\<rparr>" by (simp add: demo_space_def s_def)
  have "user_inv demo_space (proc_pdpt s) (user_phys_base s) (USER_BASE + USER_SPACE_SIZE) =
      user_inv s (proc_pdpt s) (user_phys_base s) (USER_BASE + USER_SPACE_SIZE)"
    by (rule user_inv_cong) (simp_all add: d)
  then show "user_inv demo_space (proc_pdpt demo_space) (user_phys_base demo_space) (USER_BASE + USER_SPACE_SIZE)"
    using F(1) by (simp add: d)
  show "room demo_space 4097" using F(9) by (simp add: room_def d)
  show "user_mmio_used demo_space = 0" "user_dma_used demo_space = 0" by (simp_all add: d)
qed

theorem sys_map_phys_window_witness:
  "fst (sys_map_phys 0xFEBC0010 0 0x1000 demo_space) = USER_MMIO_OFFSET + 0x10 \<and>
   unat (user_mmio_used (snd (sys_map_phys 0xFEBC0010 0 0x1000 demo_space))) = 8192"
proof -
  have "unat (user_mmio_used demo_space) = 4096 * 0" by (simp add: demo_space_inv)
  note W = sys_map_phys_window [OF demo_space_inv(1,2) this, of 0 "0xFEBC0010" "0x1000"]
  then show ?thesis by (simp add: Let_def case_prod_beta page_count_def USER_MMIO_SIZE_def demo_space_inv)
qed

text \<open>
  \<open>SYS_DMA_ALLOC\<close>: when the rounded request fits what is left of the DMA band and the result
  pointer is valid, the call opens the next free pages of the band on the matching pages of the
  physical DMA arena, clears that physical range, reports the user and the physical address, and
  changes no other translation; otherwise it returns the error value and changes nothing.
\<close>

theorem sys_dma_alloc_window:
  assumes i: "user_inv s (proc_pdpt s) B L" and rm: "room s 4097"
    and used: "unat (user_dma_used s) = 4096 * m" "m \<le> 4096"
  shows "let sz = (req + 0xFFF) AND NOT 0xFFF;
             n = unat sz div 4096;
             phys = dma_arena_base s + user_dma_used s;
             (r, clr, ws, s') = sys_dma_alloc req out s
         in user_inv s' (proc_pdpt s) B L \<and> proc_pdpt s' = proc_pdpt s \<and>
            (if sz = 0 \<or> sz > USER_DMA_SIZE \<or> m + n > 4096 \<or> \<not> user_range_ok out 8
             then r = ERR \<and> clr = None \<and> ws = [] \<and> s' = s
             else r = 0 \<and> clr = Some (phys, sz) \<and> ws = [USER_DMA_OFFSET + user_dma_used s, phys] \<and>
               unat (user_dma_used s') = 4096 * (m + n) \<and>
               (\<forall>v. translate s' (proc_pdpt s) v =
                  (if vpn v \<in> {vpn USER_DMA_BASE + m..<vpn USER_DMA_BASE + m + n}
                   then Some ((ucast phys + of_nat (4096 * (vpn v - (vpn USER_DMA_BASE + m)))) AND NOT 0xFFF, True, True)
                   else translate s (proc_pdpt s) v)))"
proof -
  define sz where "sz = (req + 0xFFF) AND NOT 0xFFF"
  define n where "n = unat sz div 4096"
  define phys where "phys = dma_arena_base s + user_dma_used s"
  note D = sys_dma_alloc_def [of req out s, unfolded Let_def, folded sz_def, folded phys_def]
  have sz: "unat sz = 4096 * n"
    unfolding n_def sz_def using unat_page_base [of "req + 0xFFF"] by simp
  have pc: "page_count 0 sz = n"
  proof -
    have "(4096 * n + 4095) div 4096 = n" by simp
    moreover have "sz = 0 \<Longrightarrow> n = 0" by (simp add: n_def)
    ultimately show ?thesis using sz by (cases "sz = 0") (simp_all add: page_count_def word_neq_0_conv)
  qed
  note L = band_left [OF used sz]
  have D0: "sys_dma_alloc req out s =
      (if sz = 0 \<or> sz > USER_DMA_SIZE \<or> m + n > 4096 \<or> \<not> user_range_ok out 8 then (ERR, None, [], s)
       else (0, Some (phys, sz), [USER_DMA_OFFSET + user_dma_used s, phys],
         map_pages (proc_pdpt s) (USER_DMA_BASE + user_dma_used s) (ucast phys) n (PTE_W OR PTE_U)
           (s\<lparr>user_dma_used := user_dma_used s + sz\<rparr>)))"
    using L(1) by (simp add: D pc reload_cr3_def USER_DMA_SIZE_def) (simp add: layout_defs)
  note U = Let_def sz_def [symmetric] n_def [symmetric] phys_def [symmetric]
  show ?thesis
  proof (cases "sz = 0 \<or> sz > USER_DMA_SIZE \<or> m + n > 4096 \<or> \<not> user_range_ok out 8")
    case True
    then show ?thesis unfolding U using i by (simp add: D0)
  next
    case False
    then have fits: "m + n \<le> 4096" by simp
    define u where "u = s\<lparr>user_dma_used := user_dma_used s + sz\<rparr>"
    define w where "w = map_pages (proc_pdpt s) (USER_DMA_BASE + user_dma_used s) (ucast phys) n (PTE_W OR PTE_U) u"
    have r: "sys_dma_alloc req out s = (0, Some (phys, sz), [USER_DMA_OFFSET + user_dma_used s, phys], w)"
      unfolding D0 w_def u_def using False by simp
    have "tabs u = tabs s" "phys_free u = phys_free s" by (simp_all add: u_def)
    note O = band_open [OF i rm this disjI2 [OF refl] used(1) fits _ _ _ w_def]
    show ?thesis
      unfolding U r using False O same_cfgD [OF O(2)] L(2) [OF fits] by (simp add: u_def pte_defs)
  qed
qed

theorem sys_dma_alloc_window_witness:
  "fst (sys_dma_alloc 5000 0x100 demo_space) = 0 \<and>
   unat (user_dma_used (snd (snd (snd (sys_dma_alloc 5000 0x100 demo_space))))) = 8192"
proof -
  have "unat (user_dma_used demo_space) = 4096 * 0" by (simp add: demo_space_inv)
  note W = sys_dma_alloc_window [OF demo_space_inv(1,2) this, of 5000 "0x100"]
  have "user_range_ok 0x100 8" by (simp add: user_range_ok_def layout_defs)
  with W show ?thesis by (simp add: Let_def case_prod_beta USER_DMA_SIZE_def)
qed

end
