(* ===== verification/Console.thy ===== *)
theory Console
  imports Paging
begin

text \<open>
  The console of kernel/kernel.c: the serial port, the framebuffer text console with its character
  grid and scrollback ring, and the VGA text screen. Port accesses are logged in order; what a port
  read returns is the device's business and a parameter, a function of the accesses so far. Memory
  written by the console (the framebuffer at \<open>gfx_lfb\<close>, the text screen at 0xB8000) is part of the
  state, byte by byte for the framebuffer.
\<close>

subsection \<open>Ports\<close>

datatype io = In u16 | Out u16 u8 | OutW u16 u16 | OutL u16 u32

type_synonym port_dev = "io list \<Rightarrow> u16 \<Rightarrow> u8"

subsection \<open>State\<close>

definition FB_CELL_COLS :: nat where "FB_CELL_COLS = 320"
definition FB_CELL_ROWS :: nat where "FB_CELL_ROWS = 100"
definition HIST_ROWS :: nat where "HIST_ROWS = 512"

record con =
  video :: vm
  ports :: "io list"
  serial_ready :: bool
  serial_out :: "u8 list"
  vram :: "u32 \<Rightarrow> u8"
  vga_text :: "nat \<Rightarrow> u16"
  cur_x :: u8
  cur_y :: u8
  fb_cells :: "nat \<Rightarrow> u8"
  hist_cells :: "nat \<Rightarrow> u8"
  hist_next :: nat
  hist_count :: nat
  view_off :: nat
  fb_font :: "(u32 \<Rightarrow> u8) option"
  fb_font_h :: u32
  fb_font_stride :: u32
  fb_bytes :: u32
  fb_fg :: u8
  fb_bg :: u8
  fb_fg32 :: u32
  fb_bg32 :: u32
  fb_cols :: u32
  fb_rows :: u32
  fb_scale :: u32

definition outb :: "u16 \<Rightarrow> u8 \<Rightarrow> con \<Rightarrow> con" where
  "outb p v s = s\<lparr>ports := ports s @ [Out p v]\<rparr>"

definition inb :: "port_dev \<Rightarrow> u16 \<Rightarrow> con \<Rightarrow> u8 \<times> con" where
  "inb dev p s = (dev (ports s) p, s\<lparr>ports := ports s @ [In p]\<rparr>)"

definition outs :: "(u16 \<times> u8) list \<Rightarrow> con \<Rightarrow> con" where
  "outs xs s = s\<lparr>ports := ports s @ map (\<lambda>(p, v). Out p v) xs\<rparr>"

subsection \<open>Serial port\<close>

definition SERIAL_PORT_BASE :: u16 where "SERIAL_PORT_BASE = 0x3F8"

definition serial_init :: "con \<Rightarrow> con" where
  "serial_init s =
     (outs [(SERIAL_PORT_BASE + 1, 0x00), (SERIAL_PORT_BASE + 3, 0x80), (SERIAL_PORT_BASE, 0x03),
            (SERIAL_PORT_BASE + 1, 0x00), (SERIAL_PORT_BASE + 3, 0x03), (SERIAL_PORT_BASE + 2, 0xC7),
            (SERIAL_PORT_BASE + 4, 0x0B)] s)\<lparr>serial_ready := True\<rparr>"

text \<open>The transmitter gets ready in the end; the byte then goes out.\<close>

definition serial_putc :: "u8 \<Rightarrow> con \<Rightarrow> con" where
  "serial_putc c s = (if \<not> serial_ready s then s else s\<lparr>serial_out := serial_out s @ [c]\<rparr>)"

subsection \<open>The character grid\<close>

definition fb_cell_set :: "u32 \<Rightarrow> u32 \<Rightarrow> u8 \<Rightarrow> con \<Rightarrow> con" where
  "fb_cell_set row col c s =
     (if unat row < FB_CELL_ROWS \<and> unat col < FB_CELL_COLS
      then s\<lparr>fb_cells := (fb_cells s)(unat row * FB_CELL_COLS + unat col := c)\<rparr> else s)"

definition fb_cell_get :: "u32 \<Rightarrow> u32 \<Rightarrow> con \<Rightarrow> u8" where
  "fb_cell_get row col s =
     (if unat row < FB_CELL_ROWS \<and> unat col < FB_CELL_COLS
      then fb_cells s (unat row * FB_CELL_COLS + unat col) else 0x20)"

subsection \<open>Drawing\<close>

text \<open>One pixel: a byte of colour index, or four bytes of colour, lowest first.\<close>

definition put_word :: "u32 \<Rightarrow> u32 \<Rightarrow> (u32 \<Rightarrow> u8) \<Rightarrow> u32 \<Rightarrow> u8" where
  "put_word a v m = m(a := ucast v, a + 1 := ucast (drop_bit 8 v), a + 2 := ucast (drop_bit 16 v),
     a + 3 := ucast (drop_bit 24 v))"

definition put_pixel :: "con \<Rightarrow> u32 \<Rightarrow> bool \<Rightarrow> (u32 \<Rightarrow> u8) \<Rightarrow> u32 \<Rightarrow> u8" where
  "put_pixel s a on m =
     (if fb_bytes s = 1 then m(a := (if on then fb_fg s else fb_bg s))
      else put_word a (if on then fb_fg32 s else fb_bg32 s) m)"

text \<open>The blank cell: \<open>w\<close> pixels of background on each of \<open>h\<close> scanlines.\<close>

definition blank_row :: "con \<Rightarrow> u32 \<Rightarrow> nat \<Rightarrow> (u32 \<Rightarrow> u8) \<Rightarrow> u32 \<Rightarrow> u8" where
  "blank_row s r w m =
     (if fb_bytes s = 1 then fold (\<lambda>x m. m(r + of_nat x := fb_bg s)) [0..<w] m
      else fold (\<lambda>x m. put_word (r + 4 * of_nat x) (fb_bg32 s) m) [0..<w] m)"

definition blank_cell :: "con \<Rightarrow> u32 \<Rightarrow> u32 \<Rightarrow> nat \<Rightarrow> nat \<Rightarrow> (u32 \<Rightarrow> u8) \<Rightarrow> u32 \<Rightarrow> u8" where
  "blank_cell s px py w h m =
     fold (\<lambda>y m. blank_row s (gfx_lfb (video s) + (py + of_nat y) * gfx_pitch (video s) + px * fb_bytes s) w m) [0..<h] m"

text \<open>One scanline of a glyph: eight bits, each \<open>fb_scale\<close> pixels wide.\<close>

definition glyph_row :: "con \<Rightarrow> u8 \<Rightarrow> u32 \<Rightarrow> u32 \<Rightarrow> (u32 \<Rightarrow> u8) \<Rightarrow> u32 \<Rightarrow> u8" where
  "glyph_row s bits px r m =
     fold (\<lambda>x m. fold (\<lambda>sx m.
         put_pixel s (r + (px + of_nat x * fb_scale s + of_nat sx) * fb_bytes s) (bit bits (7 - x)) m)
       [0..<unat (fb_scale s)] m) [0..<8] m"

definition glyph_cell :: "con \<Rightarrow> (nat \<Rightarrow> u8) \<Rightarrow> u32 \<Rightarrow> u32 \<Rightarrow> (u32 \<Rightarrow> u8) \<Rightarrow> u32 \<Rightarrow> u8" where
  "glyph_cell s bits px py m =
     fold (\<lambda>y m. fold (\<lambda>sy m.
         glyph_row s (bits y) px
           (gfx_lfb (video s) + (py + of_nat y * fb_scale s + of_nat sy) * gfx_pitch (video s)) m)
       [0..<unat (fb_scale s)] m) [0..<unat (fb_font_h s)] m"

definition fb_draw_glyph :: "u32 \<Rightarrow> u32 \<Rightarrow> u8 \<Rightarrow> con \<Rightarrow> con" where
  "fb_draw_glyph col row c s =
     (if gfx_lfb (video s) = 0 then s
      else
        let px = col * 8 * fb_scale s;
            py = row * fb_font_h s * fb_scale s;
            h = fb_font_h s * fb_scale s;
            w = 8 * fb_scale s
        in if px + w > gfx_w (video s) \<or> py + h > gfx_h (video s) then s
           else case fb_font s of
               None \<Rightarrow> s\<lparr>vram := blank_cell s px py (unat w) (unat h) (vram s)\<rparr>
             | Some font \<Rightarrow>
                 if c = 0 \<or> c = 0x20 then s\<lparr>vram := blank_cell s px py (unat w) (unat h) (vram s)\<rparr>
                 else
                   let row_step = (if fb_font_h s \<noteq> 0 then fb_font_stride s div fb_font_h s else 1);
                       row_step = (if row_step = 0 then 1 else row_step);
                       bits = (\<lambda>y. font (ucast c * fb_font_stride s + of_nat y * row_step))
                   in s\<lparr>vram := glyph_cell s bits px py (vram s)\<rparr>)"

definition draw_row :: "u32 \<Rightarrow> (nat \<Rightarrow> u8) \<Rightarrow> con \<Rightarrow> con" where
  "draw_row r line s = fold (\<lambda>c s. fb_draw_glyph (of_nat c) r (line c) s) [0..<unat (fb_cols s)] s"

definition fb_repaint :: "con \<Rightarrow> con" where
  "fb_repaint s =
     fold (\<lambda>r s. draw_row (of_nat r) (\<lambda>c. fb_cell_get (of_nat r) (of_nat c) s) s) [0..<unat (fb_rows s)] s"

subsection \<open>Scrollback\<close>

text \<open>
  Row \<open>r\<close> of the shifted view. The index \<open>hist_count + r - view_off\<close> does not wrap: \<open>view_off\<close> never
  exceeds \<open>hist_count\<close>.
\<close>

definition view_line :: "con \<Rightarrow> nat \<Rightarrow> nat \<Rightarrow> u8" where
  "view_line s r c =
     (let idx = hist_count s + r - view_off s in
      if idx < hist_count s
      then hist_cells s ((hist_next s + HIST_ROWS - hist_count s + idx) mod HIST_ROWS * FB_CELL_COLS + c)
      else fb_cell_get (of_nat (idx - hist_count s)) (of_nat c) s)"

definition fb_repaint_view :: "con \<Rightarrow> con" where
  "fb_repaint_view s = fold (\<lambda>r s. draw_row (of_nat r) (view_line s r) s) [0..<unat (fb_rows s)] s"

definition console_view :: "int \<Rightarrow> con \<Rightarrow> con" where
  "console_view delta s =
     (if \<not> fb_enabled (video s) \<or> gfx_lfb (video s) = 0 then s
      else
        let nv = (if delta > 0 then min (view_off s + nat delta) (hist_count s)
                  else (let d = nat (- delta) in if d \<ge> view_off s then 0 else view_off s - d))
        in if nv = view_off s then s else fb_repaint_view (s\<lparr>view_off := nv\<rparr>))"

definition console_view_live :: "con \<Rightarrow> con" where
  "console_view_live s = (if view_off s = 0 then s else fb_repaint (s\<lparr>view_off := 0\<rparr>))"

text \<open>\<open>memcpy\<close> of one row of cells.\<close>

definition copy_row :: "nat \<Rightarrow> nat \<Rightarrow> (nat \<Rightarrow> u8) \<Rightarrow> (nat \<Rightarrow> u8) \<Rightarrow> nat \<Rightarrow> u8" where
  "copy_row dst src from to i =
     (if dst * FB_CELL_COLS \<le> i \<and> i < dst * FB_CELL_COLS + FB_CELL_COLS
      then from (src * FB_CELL_COLS + (i - dst * FB_CELL_COLS)) else to i)"

definition blank_cells :: "nat \<Rightarrow> (nat \<Rightarrow> u8) \<Rightarrow> nat \<Rightarrow> u8" where
  "blank_cells row to i =
     (if row * FB_CELL_COLS \<le> i \<and> i < row * FB_CELL_COLS + FB_CELL_COLS then 0x20 else to i)"

definition scroll_text :: "(nat \<Rightarrow> u16) \<Rightarrow> nat \<Rightarrow> u16" where
  "scroll_text t =
     fold (\<lambda>x t. t(24 * 80 + x := 0x0720)) [0..<80]
       (fold (\<lambda>y t. fold (\<lambda>x t. t((y - 1) * 80 + x := t (y * 80 + x))) [0..<80] t) [1..<25] t)"

text \<open>The rows of the screen that are kept in the grid.\<close>

definition live_rows :: "con \<Rightarrow> nat" where
  "live_rows s = (if unat (fb_rows s) < FB_CELL_ROWS then unat (fb_rows s) else FB_CELL_ROWS)"

text \<open>The top line goes into the ring, the others move up, the last one is blank.\<close>

definition scroll_grid :: "con \<Rightarrow> con" where
  "scroll_grid s =
     (let s = s\<lparr>hist_cells := copy_row (hist_next s) 0 (fb_cells s) (hist_cells s)\<rparr>;
          s = s\<lparr>hist_next := (hist_next s + 1) mod HIST_ROWS\<rparr>;
          s = s\<lparr>hist_count := (if hist_count s < HIST_ROWS then hist_count s + 1 else hist_count s)\<rparr>;
          bottom = live_rows s;
          s = s\<lparr>fb_cells := fold (\<lambda>r cells. copy_row (r - 1) r cells cells) [1..<bottom] (fb_cells s)\<rparr>
      in if bottom > 0 then s\<lparr>fb_cells := blank_cells (bottom - 1) (fb_cells s)\<rparr> else s)"

definition vga_scroll :: "con \<Rightarrow> con" where
  "vga_scroll s =
     (if fb_enabled (video s)
      then
        if ucast (cur_y s) < fb_rows s then s
        else if gfx_lfb (video s) = 0 then s
        else let s = fb_repaint (scroll_grid s) in s\<lparr>cur_y := ucast (fb_rows s - 1)\<rparr>
      else if cur_y s < 25 then s
      else s\<lparr>vga_text := scroll_text (vga_text s), cur_y := 24\<rparr>)"

definition vga_update_cursor :: "con \<Rightarrow> con" where
  "vga_update_cursor s =
     (if fb_enabled (video s) then s
      else let pos = ucast (cur_y s) * 80 + ucast (cur_x s) :: u16
           in outs [(0x3D4, 0x0F), (0x3D5, ucast (pos AND 0xFF)), (0x3D4, 0x0E),
                    (0x3D5, ucast (drop_bit 8 pos AND 0xFF))] s)"

subsection \<open>Output\<close>

definition fb_putc :: "u8 \<Rightarrow> con \<Rightarrow> con" where
  "fb_putc c s =
     (let s = (if view_off s \<noteq> 0 then console_view_live s else s) in
      if c = 10 then vga_scroll (s\<lparr>cur_x := 0, cur_y := cur_y s + 1\<rparr>)
      else if c = 13 then s\<lparr>cur_x := 0\<rparr>
      else if c = 8
      then
        if cur_x s = 0 \<and> cur_y s = 0 then s
        else
          let s = (if cur_x s = 0 then s\<lparr>cur_y := cur_y s - 1, cur_x := ucast (fb_cols s - 1)\<rparr>
                   else s\<lparr>cur_x := cur_x s - 1\<rparr>);
              s = fb_cell_set (ucast (cur_y s)) (ucast (cur_x s)) 0x20 s
          in fb_draw_glyph (ucast (cur_x s)) (ucast (cur_y s)) 0x20 s
      else if fb_font s = None then s
      else
        let s = fb_cell_set (ucast (cur_y s)) (ucast (cur_x s)) c s;
            s = fb_draw_glyph (ucast (cur_x s)) (ucast (cur_y s)) c s;
            s = s\<lparr>cur_x := cur_x s + 1\<rparr>
        in if ucast (cur_x s) \<ge> fb_cols s then vga_scroll (s\<lparr>cur_x := 0, cur_y := cur_y s + 1\<rparr>) else s)"

definition text_putc :: "u8 \<Rightarrow> con \<Rightarrow> con" where
  "text_putc c s =
     (if c = 10 then vga_update_cursor (vga_scroll (s\<lparr>cur_x := 0, cur_y := cur_y s + 1\<rparr>))
      else if c = 13 then vga_update_cursor (s\<lparr>cur_x := 0\<rparr>)
      else if c = 8
      then
        if cur_x s = 0 \<and> cur_y s = 0 then s
        else
          let s = (if cur_x s = 0 then s\<lparr>cur_y := cur_y s - 1, cur_x := 79\<rparr> else s\<lparr>cur_x := cur_x s - 1\<rparr>)
          in vga_update_cursor (s\<lparr>vga_text := (vga_text s)(unat (cur_y s) * 80 + unat (cur_x s) := 0x0720)\<rparr>)
      else
        let s = s\<lparr>vga_text := (vga_text s)(unat (cur_y s) * 80 + unat (cur_x s) := 0x0700 OR ucast c)\<rparr>;
            s = s\<lparr>cur_x := cur_x s + 1\<rparr>;
            s = (if cur_x s \<ge> 80 then vga_scroll (s\<lparr>cur_x := 0, cur_y := cur_y s + 1\<rparr>) else s)
        in vga_update_cursor s)"

definition vga_putc :: "u8 \<Rightarrow> con \<Rightarrow> con" where
  "vga_putc c s = (let s = serial_putc c s in if fb_enabled (video s) then fb_putc c s else text_putc c s)"

definition vga_puts :: "u8 list \<Rightarrow> con \<Rightarrow> con" where
  "vga_puts str s = fold vga_putc (takeWhile (\<lambda>c. c \<noteq> 0) str) s"

definition hex_digit :: "u8 \<Rightarrow> u8" where
  "hex_digit d = (if d < 10 then 0x30 + d else 0x41 + d - 10)"

definition vga_hex :: "u32 \<Rightarrow> con \<Rightarrow> con" where
  "vga_hex v s = fold (\<lambda>i s. vga_putc (hex_digit (ucast (drop_bit (i * 4) v AND 0xF))) s) (rev [0..<8]) s"

definition vga_cls :: "con \<Rightarrow> con" where
  "vga_cls s =
     (if fb_enabled (video s)
      then
        let s = s\<lparr>view_off := 0, fb_cells := (\<lambda>i. if i < FB_CELL_ROWS * FB_CELL_COLS then 0x20 else fb_cells s i)\<rparr> in
        if gfx_lfb (video s) = 0 then s\<lparr>cur_x := 0, cur_y := 0\<rparr>
        else
          let clear_line = (\<lambda>y m.
                let r = gfx_lfb (video s) + of_nat y * gfx_pitch (video s) in
                if fb_bytes s = 1 then fold (\<lambda>x m. m(r + of_nat x := fb_bg s)) [0..<unat (gfx_pitch (video s))] m
                else if fb_bytes s = 4
                then fold (\<lambda>x m. put_word (r + 4 * of_nat x) (fb_bg32 s) m) [0..<unat (gfx_pitch (video s)) div 4] m
                else m)
          in s\<lparr>vram := fold clear_line [0..<unat (gfx_h (video s))] (vram s), cur_x := 0, cur_y := 0\<rparr>
      else
        let t = fold (\<lambda>y t. fold (\<lambda>x t. t(y * 80 + x := 0x0720)) [0..<80] t) [0..<25] (vga_text s)
        in vga_update_cursor (s\<lparr>vga_text := t, cur_x := 0, cur_y := 0\<rparr>))"

definition vga_setcursor :: "u32 \<Rightarrow> u32 \<Rightarrow> con \<Rightarrow> con" where
  "vga_setcursor x y s =
     (if fb_enabled (video s)
      then
        let x = (if x \<ge> fb_cols s then fb_cols s - 1 else x);
            y = (if y \<ge> fb_rows s then fb_rows s - 1 else y)
        in s\<lparr>cur_x := ucast x, cur_y := ucast y\<rparr>
      else
        let x = (if x > 79 then 79 else x); y = (if y > 24 then 24 else y)
        in vga_update_cursor (s\<lparr>cur_x := ucast x, cur_y := ucast y\<rparr>))"

subsection \<open>Drawing changes the framebuffer only\<close>

definition vram_only :: "con \<Rightarrow> con \<Rightarrow> bool" where
  "vram_only s s' \<longleftrightarrow> s' = s\<lparr>vram := vram s'\<rparr>"

lemma vram_only_refl [simp]: "vram_only s s" "vram_only s (s\<lparr>vram := m\<rparr>)"
  by (simp_all add: vram_only_def)

lemma vram_only_trans: "vram_only s s' \<Longrightarrow> vram_only s' s'' \<Longrightarrow> vram_only s s''"
  by (simp add: vram_only_def) (metis (no_types, lifting) con.surjective con.update_convs(5))

lemma vram_only_fold: "(\<And>x s. vram_only s (f x s)) \<Longrightarrow> vram_only s (fold f xs s)"
  by (induction xs arbitrary: s) (auto intro: vram_only_trans)

lemma vram_only_glyph: "vram_only s (fb_draw_glyph col row c s)"
  by (simp add: fb_draw_glyph_def Let_def split: option.split)

lemma vram_only_draw_row: "vram_only s (draw_row r line s)"
  unfolding draw_row_def by (rule vram_only_fold) (rule vram_only_glyph)

lemma vram_only_repaint: "vram_only s (fb_repaint s)" "vram_only s (fb_repaint_view s)"
  unfolding fb_repaint_def fb_repaint_view_def by (rule vram_only_fold, rule vram_only_draw_row)+

lemma vram_onlyD:
  assumes "vram_only s s'"
  shows "video s' = video s" "ports s' = ports s" "serial_out s' = serial_out s" "cur_x s' = cur_x s" "cur_y s' = cur_y s"
    "fb_cells s' = fb_cells s" "hist_cells s' = hist_cells s" "hist_next s' = hist_next s" "hist_count s' = hist_count s"
    "view_off s' = view_off s" "fb_font s' = fb_font s" "fb_cols s' = fb_cols s" "fb_rows s' = fb_rows s"
    "serial_ready s' = serial_ready s" "vga_text s' = vga_text s"
proof -
  obtain m where "s' = s\<lparr>vram := m\<rparr>" using assms unfolding vram_only_def by blast
  then show "video s' = video s" "ports s' = ports s" "serial_out s' = serial_out s" "cur_x s' = cur_x s" "cur_y s' = cur_y s"
    "fb_cells s' = fb_cells s" "hist_cells s' = hist_cells s" "hist_next s' = hist_next s" "hist_count s' = hist_count s"
    "view_off s' = view_off s" "fb_font s' = fb_font s" "fb_cols s' = fb_cols s" "fb_rows s' = fb_rows s"
    "serial_ready s' = serial_ready s" "vga_text s' = vga_text s" by simp_all
qed

lemmas glyph_frame [simp] = vram_onlyD [OF vram_only_glyph]
lemmas repaint_frame [simp] = vram_onlyD [OF vram_only_repaint(1)] vram_onlyD [OF vram_only_repaint(2)]

subsection \<open>The scrollback is a stream of lines\<close>

definition cell_row :: "(nat \<Rightarrow> u8) \<Rightarrow> nat \<Rightarrow> u8 list" where
  "cell_row cells r = map (\<lambda>c. cells (r * FB_CELL_COLS + c)) [0..<FB_CELL_COLS]"

definition hist_lines :: "con \<Rightarrow> u8 list list" where
  "hist_lines s =
     map (\<lambda>i. cell_row (hist_cells s) ((hist_next s + HIST_ROWS - hist_count s + i) mod HIST_ROWS)) [0..<hist_count s]"

definition live_lines :: "con \<Rightarrow> u8 list list" where
  "live_lines s = map (cell_row (fb_cells s)) [0..<live_rows s]"

definition con_wf :: "con \<Rightarrow> bool" where
  "con_wf s \<longleftrightarrow> hist_count s \<le> HIST_ROWS \<and> hist_next s < HIST_ROWS \<and> view_off s \<le> hist_count s \<and> 0 < fb_rows s"

lemma copy_row_at:
  assumes "c < FB_CELL_COLS"
  shows "copy_row d r from to (i * FB_CELL_COLS + c) = (if i = d then from (r * FB_CELL_COLS + c) else to (i * FB_CELL_COLS + c))"
proof -
  have "d * FB_CELL_COLS \<le> i * FB_CELL_COLS + c \<and> i * FB_CELL_COLS + c < d * FB_CELL_COLS + FB_CELL_COLS \<longleftrightarrow> i = d"
  proof
    assume a: "d * FB_CELL_COLS \<le> i * FB_CELL_COLS + c \<and> i * FB_CELL_COLS + c < d * FB_CELL_COLS + FB_CELL_COLS"
    have "\<not> i < d" using a assms by (auto simp: FB_CELL_COLS_def)
    moreover have "\<not> d < i" using a by (auto simp: FB_CELL_COLS_def)
    ultimately show "i = d" by simp
  qed (use assms in simp)
  then show ?thesis by (simp add: copy_row_def)
qed

lemma cell_row_copy: "cell_row (copy_row d r from to) i = (if i = d then cell_row from r else cell_row to i)"
  by (simp add: cell_row_def copy_row_at)

lemma cell_row_blank: "cell_row (blank_cells d to) i = (if i = d then replicate FB_CELL_COLS 0x20 else cell_row to i)"
proof -
  have "blank_cells d to = copy_row d 0 (\<lambda>_. 0x20) to" by (auto simp: blank_cells_def copy_row_def)
  moreover have "cell_row (\<lambda>_. 0x20) 0 = replicate FB_CELL_COLS 0x20" by (simp add: cell_row_def map_replicate_const)
  ultimately show ?thesis by (simp add: cell_row_copy)
qed

lemma cell_row_shift:
  "cell_row (fold (\<lambda>r cells. copy_row (r - 1) r cells cells) [1..<Suc n] cells) i =
     (if i < n then cell_row cells (Suc i) else cell_row cells i)"
proof (induction n arbitrary: i)
  case (Suc n)
  have "[1..<Suc (Suc n)] = [1..<Suc n] @ [Suc n]" by simp
  then show ?case by (simp only: fold_append comp_apply fold_simps cell_row_copy Suc.IH) auto
qed simp

definition hist_slot :: "nat \<Rightarrow> nat \<Rightarrow> nat \<Rightarrow> nat" where
  "hist_slot h c i = (h + HIST_ROWS - c + i) mod HIST_ROWS"

lemma mod_512: "x < 1024 \<Longrightarrow> x mod 512 = (if x < 512 then x else x - (512 :: nat))"
  by (simp add: le_mod_geq)

lemma hist_slot_eq:
  assumes "h < HIST_ROWS" "c \<le> HIST_ROWS" "i \<le> c"
  shows "hist_slot h c i = (if h + HIST_ROWS - c + i < HIST_ROWS then h + HIST_ROWS - c + i else h + i - c)"
  using assms by (auto simp: hist_slot_def HIST_ROWS_def mod_512)

text \<open>Pushing a line moves every stored line down one place and puts the new line last.\<close>

lemma hist_slot_push:
  assumes "h < HIST_ROWS" "c \<le> HIST_ROWS" "i < c'" "c' = (if c < HIST_ROWS then c + 1 else c)"
  shows "hist_slot ((h + 1) mod HIST_ROWS) c' i = (if i + 1 = c' then h else hist_slot h c (i + (c + 1 - c')))"
    and "i + 1 \<noteq> c' \<Longrightarrow> hist_slot h c (i + (c + 1 - c')) \<noteq> h"
proof -
  have h': "(h + 1) mod HIST_ROWS = (if h = 511 then 0 else h + 1)" using assms(1) by (auto simp: HIST_ROWS_def)
  have b: "(h + 1) mod HIST_ROWS < HIST_ROWS" "c' \<le> HIST_ROWS" using assms by (auto simp: HIST_ROWS_def)
  have e: "i + (c + 1 - c') \<le> c" using assms by (auto split: if_splits)
  show "hist_slot ((h + 1) mod HIST_ROWS) c' i = (if i + 1 = c' then h else hist_slot h c (i + (c + 1 - c')))"
    unfolding hist_slot_eq [OF b less_imp_le [OF assms(3)]] hist_slot_eq [OF assms(1,2) e]
    unfolding h' using assms by (auto simp: HIST_ROWS_def split: if_splits)
  show "hist_slot h c (i + (c + 1 - c')) \<noteq> h" if "i + 1 \<noteq> c'"
    unfolding hist_slot_eq [OF assms(1,2) e] using assms that by (auto simp: HIST_ROWS_def split: if_splits)
qed

lemma hist_push:
  assumes b: "hist_next s < HIST_ROWS" "hist_count s \<le> HIST_ROWS"
    and s': "hist_cells s' = copy_row (hist_next s) 0 (fb_cells s) (hist_cells s)"
      "hist_next s' = (hist_next s + 1) mod HIST_ROWS"
      "hist_count s' = (if hist_count s < HIST_ROWS then hist_count s + 1 else hist_count s)"
  shows "hist_lines s' = drop (hist_count s + 1 - hist_count s') (hist_lines s) @ [cell_row (fb_cells s) 0]"
proof (rule nth_equalityI)
  let ?d = "hist_count s + 1 - hist_count s'"
  have L: "hist_lines s = map (\<lambda>i. cell_row (hist_cells s) (hist_slot (hist_next s) (hist_count s) i)) [0..<hist_count s]" for s
    by (simp add: hist_lines_def hist_slot_def)
  have pos: "0 < hist_count s'" using s'(3) by (auto simp: HIST_ROWS_def split: if_splits)
  show len: "length (hist_lines s') = length (drop ?d (hist_lines s) @ [cell_row (fb_cells s) 0])"
    using s'(3) by (simp add: L) (simp add: HIST_ROWS_def)
  fix i assume "i < length (hist_lines s')"
  then have i: "i < hist_count s'" by (simp add: L)
  note P = hist_slot_push [OF b i s'(3)]
  have e: "hist_lines s' ! i = cell_row (hist_cells s') (hist_slot (hist_next s') (hist_count s') i)"
    using i by (simp add: L)
  have dl: "length (drop ?d (hist_lines s)) = hist_count s' - 1" using len by (simp add: L)
  show "hist_lines s' ! i = (drop ?d (hist_lines s) @ [cell_row (fb_cells s) 0]) ! i"
  proof (cases "i + 1 = hist_count s'")
    case True
    have "hist_lines s' ! i = cell_row (fb_cells s) 0"
      unfolding e s'(1,2) cell_row_copy P(1) using True by simp
    moreover have "i = length (drop ?d (hist_lines s))" using True dl by linarith
    ultimately show ?thesis by (simp only: nth_append_length)
  next
    case False
    then have "i < hist_count s' - 1" using i by linarith
    then have "(drop ?d (hist_lines s) @ [cell_row (fb_cells s) 0]) ! i = hist_lines s ! (i + ?d)"
      using dl by (simp add: nth_append add.commute)
    also have "\<dots> = cell_row (hist_cells s) (hist_slot (hist_next s) (hist_count s) (i + ?d))"
      using False i s'(3) by (simp add: L split: if_splits)
    also have "\<dots> = hist_lines s' ! i"
      unfolding e s'(1,2) cell_row_copy P(1) using False P(2) by simp
    finally show ?thesis ..
  qed
qed

lemma vga_scroll_stream':
  assumes wf: "con_wf s" and on: "fb_enabled (video s)" "gfx_lfb (video s) \<noteq> 0" and cur: "fb_rows s \<le> ucast (cur_y s)"
  shows "hist_lines (vga_scroll s) @ live_lines (vga_scroll s) =
      drop (if hist_count s < HIST_ROWS then 0 else 1) (hist_lines s) @ live_lines s @ [replicate FB_CELL_COLS 0x20]"
    and "con_wf (vga_scroll s)" "cur_y (vga_scroll s) = ucast (fb_rows s - 1)"
proof -
  define n where "n = live_rows s"
  define cells where "cells = fold (\<lambda>r cells. copy_row (r - 1) r cells cells) [1..<n] (fb_cells s)"
  have rows: "0 < unat (fb_rows s)" using wf by (simp add: con_wf_def word_less_nat_alt)
  have n0: "0 < n" using rows by (simp add: n_def live_rows_def FB_CELL_ROWS_def)
  then obtain k where k: "n = Suc k" by (cases n) auto
  have bottom: "live_rows s' = n" if "fb_rows s' = fb_rows s" for s' using that by (simp add: n_def live_rows_def)
  have nc: "\<not> ucast (cur_y s) < fb_rows s" using cur by simp
  have f: "fb_cells (vga_scroll s) = blank_cells (n - 1) cells"
    "hist_cells (vga_scroll s) = copy_row (hist_next s) 0 (fb_cells s) (hist_cells s)"
    "hist_next (vga_scroll s) = (hist_next s + 1) mod HIST_ROWS"
    "hist_count (vga_scroll s) = (if hist_count s < HIST_ROWS then hist_count s + 1 else hist_count s)"
    "fb_rows (vga_scroll s) = fb_rows s" "view_off (vga_scroll s) = view_off s"
    "cur_y (vga_scroll s) = ucast (fb_rows s - 1)"
    using on nc n0 unfolding vga_scroll_def scroll_grid_def Let_def by (simp_all add: bottom cells_def)
  have wf': "hist_next s < HIST_ROWS" "hist_count s \<le> HIST_ROWS" using wf by (simp_all add: con_wf_def)
  have live: "live_lines (vga_scroll s) = tl (live_lines s) @ [replicate FB_CELL_COLS 0x20]"
  proof -
    have shift: "cell_row cells i = (if i < k then cell_row (fb_cells s) (Suc i) else cell_row (fb_cells s) i)" for i
      unfolding cells_def k by (rule cell_row_shift)
    have "live_rows (vga_scroll s) = n" by (simp add: live_rows_def f(5) n_def)
    then have "live_lines (vga_scroll s) = map (cell_row (blank_cells k cells)) [0..<Suc k]" by (simp add: live_lines_def f(1) k)
    also have "\<dots> = map (\<lambda>i. cell_row (fb_cells s) (Suc i)) [0..<k] @ [replicate FB_CELL_COLS 0x20]"
      by (simp add: cell_row_blank shift)
    also have "map (\<lambda>i. cell_row (fb_cells s) (Suc i)) [0..<k] = tl (live_lines s)"
    proof -
      have "map (\<lambda>i. cell_row (fb_cells s) (Suc i)) [0..<k] = map (cell_row (fb_cells s)) (map Suc [0..<k])" by simp
      also have "map Suc [0..<k] = tl [0..<Suc k]" by (simp add: map_Suc_upt upt_conv_Cons del: upt_Suc)
      finally show ?thesis by (simp only: live_lines_def n_def [symmetric] k map_tl)
    qed
    finally show ?thesis .
  qed
  have hd: "live_lines s = cell_row (fb_cells s) 0 # tl (live_lines s)"
    by (simp add: live_lines_def n_def [symmetric] k upt_conv_Cons del: upt_Suc)
  have d: "hist_count s + 1 - hist_count (vga_scroll s) = (if hist_count s < HIST_ROWS then 0 else 1)"
    by (simp add: f(4))
  show "hist_lines (vga_scroll s) @ live_lines (vga_scroll s) =
      drop (if hist_count s < HIST_ROWS then 0 else 1) (hist_lines s) @ live_lines s @ [replicate FB_CELL_COLS 0x20]"
    unfolding hist_push [OF wf' f(2-4)] d live by (subst (2) hd) simp
  show "con_wf (vga_scroll s)" using wf by (auto simp: con_wf_def f HIST_ROWS_def)
  show "cur_y (vga_scroll s) = ucast (fb_rows s - 1)" by (rule f(7))
qed

text \<open>
  C16. Scrolling the console loses nothing that fits: when the cursor has run off the bottom, the
  stream of lines (history, oldest first, then the screen) only gets a blank line appended, its
  oldest line dropped once the ring of 512 lines is full, and the cursor is on the new last row.
\<close>

theorem vga_scroll_stream:
  assumes wf: "con_wf s" and on: "fb_enabled (video s)" "gfx_lfb (video s) \<noteq> 0" and cur: "fb_rows s \<le> ucast (cur_y s)"
  shows "hist_lines (vga_scroll s) @ live_lines (vga_scroll s) =
      drop (if hist_count s < HIST_ROWS then 0 else 1) (hist_lines s) @ live_lines s @ [replicate FB_CELL_COLS 0x20]
    \<and> con_wf (vga_scroll s) \<and> cur_y (vga_scroll s) = ucast (fb_rows s - 1)"
  using vga_scroll_stream' [OF assms] by blast

text \<open>
  The view: row \<open>r\<close> of the scrolled-back screen is line \<open>hist_count + r - view_off\<close> of that stream,
  for every column of the grid.
\<close>

theorem view_line_stream:
  assumes "con_wf s" "r < live_rows s" "c < FB_CELL_COLS"
  shows "view_line s r c = (hist_lines s @ live_lines s) ! (hist_count s + r - view_off s) ! c"
proof -
  define idx where "idx = hist_count s + r - view_off s"
  have len: "length (hist_lines s) = hist_count s" by (simp add: hist_lines_def)
  show ?thesis
  proof (cases "idx < hist_count s")
    case True
    then have "(hist_lines s @ live_lines s) ! idx = hist_lines s ! idx" by (simp add: nth_append len)
    then show ?thesis using True assms(3)
      by (simp add: view_line_def idx_def [symmetric] hist_lines_def cell_row_def)
  next
    case False
    define l where "l = idx - hist_count s"
    have l: "l < live_rows s" using assms(1,2) False by (auto simp: l_def idx_def con_wf_def)
    moreover have "live_rows s \<le> 100" by (simp add: live_rows_def FB_CELL_ROWS_def)
    ultimately have l2: "l < 100" by linarith
    have u: "unat (of_nat l :: u32) = l" "unat (of_nat c :: u32) = c"
      using l2 assms(3) by (auto intro!: unat_of_nat32 simp: FB_CELL_COLS_def)
    have "(hist_lines s @ live_lines s) ! idx = live_lines s ! l" using False by (simp add: nth_append len l_def)
    then show ?thesis using False assms(3) l l2
      by (simp add: view_line_def idx_def [symmetric] l_def [symmetric] fb_cell_get_def u live_lines_def cell_row_def FB_CELL_ROWS_def)
  qed
qed

subsection \<open>The cursor stays on the screen\<close>

definition con_ok :: "con \<Rightarrow> bool" where
  "con_ok s \<longleftrightarrow> con_wf s \<and>
     (if fb_enabled (video s)
      then gfx_lfb (video s) \<noteq> 0 \<and> 0 < unat (fb_cols s) \<and> unat (fb_cols s) < 256 \<and> unat (fb_rows s) < 256 \<and>
        unat (cur_x s) < unat (fb_cols s) \<and> unat (cur_y s) < unat (fb_rows s)
      else unat (cur_x s) < 80 \<and> unat (cur_y s) < 25)"

lemma unat_small: "unat (ucast (b :: u8) :: u32) = unat b" "unat x < 256 \<Longrightarrow> unat (ucast (x :: u32) :: u8) = unat x"
proof -
  have "unat b < 2 ^ 8" using unsigned_less [of b] by simp
  then show "unat (ucast b :: u32) = unat b" by (simp only: unsigned_ucast_eq) (simp add: take_bit_eq_mod)
  show "unat (ucast x :: u8) = unat x" if "unat x < 256"
    using that by (simp only: unsigned_ucast_eq) (simp add: take_bit_eq_mod)
qed

lemma unat_inc8: "unat (b :: u8) < 255 \<Longrightarrow> unat (b + 1) = unat b + 1"
  by (simp add: unat_word_ariths)

lemma unat_dec8: "(b :: u8) \<noteq> 0 \<Longrightarrow> unat (b - 1) = unat b - 1"
  by (simp add: unat_minus_one)

text \<open>The new line, with the cursor one row down, perhaps below the last row.\<close>

lemma newline_ok:
  assumes wf: "con_wf s" and fb: "fb_enabled (video s)" "gfx_lfb (video s) \<noteq> 0"
    and d: "0 < unat (fb_cols s)" "unat (fb_cols s) < 256" "unat (fb_rows s) < 256"
    and c: "unat (cur_x s) < unat (fb_cols s)" "unat (cur_y s) \<le> unat (fb_rows s)"
  shows "con_ok (vga_scroll s)"
proof (cases "unat (cur_y s) < unat (fb_rows s)")
  case True
  then have "vga_scroll s = s" using fb by (simp add: vga_scroll_def word_less_nat_alt unat_small)
  then show ?thesis using assms True by (simp add: con_ok_def)
next
  case False
  have "fb_rows s \<le> ucast (cur_y s)" using False by (simp add: word_le_nat_alt unat_small)
  then have S: "con_wf (vga_scroll s)" "cur_y (vga_scroll s) = ucast (fb_rows s - 1)"
    using vga_scroll_stream' [OF wf fb] by blast+
  have pos: "0 < unat (fb_rows s)" using wf by (simp add: con_wf_def word_less_nat_alt)
  have "unat (fb_rows s - 1) = unat (fb_rows s) - 1" using pos by (subst unat_minus_one) auto
  then have "unat (cur_y (vga_scroll s)) = unat (fb_rows s) - 1"
    using S(2) d(3) unat_small(2) [of "fb_rows s - 1"] by simp
  moreover have "video (vga_scroll s) = video s" "fb_cols (vga_scroll s) = fb_cols s" "fb_rows (vga_scroll s) = fb_rows s"
    "cur_x (vga_scroll s) = cur_x s"
    by (simp_all add: vga_scroll_def scroll_grid_def Let_def)
  ultimately show ?thesis using assms S(1) pos by (simp add: con_ok_def)
qed

lemma fb_putc_ok:
  assumes ok: "con_ok s" and fb: "fb_enabled (video s)"
  shows "con_ok (fb_putc c s)"
proof -
  define s0 where "s0 = (if view_off s \<noteq> 0 then console_view_live s else s)"
  note E = fb_putc_def [of c s, folded s0_def]
  have f0: "video s0 = video s" "fb_cols s0 = fb_cols s" "fb_rows s0 = fb_rows s" "cur_x s0 = cur_x s" "cur_y s0 = cur_y s"
    "hist_count s0 = hist_count s" "hist_next s0 = hist_next s" "view_off s0 = 0"
    by (simp_all add: s0_def console_view_live_def)
  have ok0: "con_ok s0" using ok fb by (simp add: con_ok_def con_wf_def f0)
  have fb0: "fb_enabled (video s0)" using fb by (simp add: f0)
  have D: "con_wf s0" "gfx_lfb (video s0) \<noteq> 0" "0 < unat (fb_cols s0)" "unat (fb_cols s0) < 256" "unat (fb_rows s0) < 256"
    "unat (cur_x s0) < unat (fb_cols s0)" "unat (cur_y s0) < unat (fb_rows s0)"
    using ok0 fb0 by (simp_all add: con_ok_def)
  have inc: "unat (cur_y s0 + 1) = unat (cur_y s0) + 1" by (rule unat_inc8) (use D in linarith)
  have nl: "con_ok (vga_scroll t)" if "con_wf t" "video t = video s0" "fb_cols t = fb_cols s0" "fb_rows t = fb_rows s0"
    "cur_x t = 0" "cur_y t = cur_y s0 + 1" for t
    by (rule newline_ok) (use that D fb0 inc in auto)
  have upd: "con_ok t" if "con_wf t" "video t = video s0" "fb_cols t = fb_cols s0" "fb_rows t = fb_rows s0"
    "unat (cur_x t) < unat (fb_cols s0)" "unat (cur_y t) < unat (fb_rows s0)" for t
    using that D fb0 by (simp add: con_ok_def)
  have cell: "video (fb_cell_set a b e t) = video t" "fb_cols (fb_cell_set a b e t) = fb_cols t"
    "fb_rows (fb_cell_set a b e t) = fb_rows t" "cur_x (fb_cell_set a b e t) = cur_x t" "cur_y (fb_cell_set a b e t) = cur_y t"
    "con_wf (fb_cell_set a b e t) = con_wf t" for a b e t
    by (simp_all add: fb_cell_set_def con_wf_def)
  have draw: "con_wf (fb_draw_glyph a b e t) = con_wf t" for a b e t by (simp add: con_wf_def)
  have wfu: "con_wf (s0\<lparr>cur_x := a, cur_y := b\<rparr>)" "con_wf (s0\<lparr>cur_x := a\<rparr>)" "con_wf (s0\<lparr>cur_y := b, cur_x := a\<rparr>)" for a b
    using D(1) by (simp_all add: con_wf_def)
  have colm: "unat (ucast (fb_cols s0 - 1) :: u8) = unat (fb_cols s0) - 1"
  proof -
    have "unat (fb_cols s0 - 1) = unat (fb_cols s0) - 1" using D(3) by (subst unat_minus_one) auto
    then show ?thesis using D(4) unat_small(2) [of "fb_cols s0 - 1"] by simp
  qed
  consider (lf) "c = 10" | (cr) "c = 13" | (bs) "c = 8" | (nofont) "c \<noteq> 10" "c \<noteq> 13" "c \<noteq> 8" "fb_font s0 = None"
    | (put) "c \<noteq> 10" "c \<noteq> 13" "c \<noteq> 8" "fb_font s0 \<noteq> None" by blast
  then show ?thesis
  proof cases
    case lf
    then have "fb_putc c s = vga_scroll (s0\<lparr>cur_x := 0, cur_y := cur_y s0 + 1\<rparr>)" unfolding E Let_def by simp
    then show ?thesis using nl wfu by simp
  next
    case cr
    then have "fb_putc c s = s0\<lparr>cur_x := 0\<rparr>" unfolding E Let_def by simp
    then show ?thesis using upd wfu D by simp
  next
    case nofont
    then have "fb_putc c s = s0" unfolding E Let_def by simp
    then show ?thesis using ok0 by simp
  next
    case bs
    define t where "t = (if cur_x s0 = 0 then s0\<lparr>cur_y := cur_y s0 - 1, cur_x := ucast (fb_cols s0 - 1)\<rparr>
                   else s0\<lparr>cur_x := cur_x s0 - 1\<rparr>)"
    have e: "fb_putc c s = (if cur_x s0 = 0 \<and> cur_y s0 = 0 then s0
        else fb_draw_glyph (ucast (cur_x t)) (ucast (cur_y t)) 0x20 (fb_cell_set (ucast (cur_y t)) (ucast (cur_x t)) 0x20 t))"
      using bs unfolding E Let_def by (simp add: t_def [symmetric] cell)
    have "con_ok t" if "\<not> (cur_x s0 = 0 \<and> cur_y s0 = 0)"
      using that D wfu colm by (auto simp: t_def unat_dec8 intro!: upd)
    then have "con_ok (fb_draw_glyph a b 0x20 (fb_cell_set a' b' 0x20 t))" if "\<not> (cur_x s0 = 0 \<and> cur_y s0 = 0)" for a b a' b'
      using that by (simp add: con_ok_def cell draw)
    then show ?thesis using e ok0 by simp
  next
    case put
    define t where "t = fb_draw_glyph (ucast (cur_x s0)) (ucast (cur_y s0)) c (fb_cell_set (ucast (cur_y s0)) (ucast (cur_x s0)) c s0)"
    have tf: "video t = video s0" "fb_cols t = fb_cols s0" "fb_rows t = fb_rows s0" "cur_x t = cur_x s0" "cur_y t = cur_y s0" "con_wf t"
      using D(1) by (simp_all add: t_def cell draw)
    have e: "fb_putc c s = (if ucast (cur_x s0 + 1) \<ge> fb_cols s0
        then vga_scroll (t\<lparr>cur_x := 0, cur_y := cur_y s0 + 1\<rparr>) else t\<lparr>cur_x := cur_x s0 + 1\<rparr>)"
      using put unfolding E Let_def by (auto simp: t_def cell)
    have x: "unat (cur_x s0 + 1) = unat (cur_x s0) + 1" by (rule unat_inc8) (use D in linarith)
    have wft: "con_wf (t\<lparr>cur_x := a, cur_y := b\<rparr>)" "con_wf (t\<lparr>cur_x := a\<rparr>)" for a b using tf(6) by (simp_all add: con_wf_def)
    show ?thesis
    proof (cases "ucast (cur_x s0 + 1) \<ge> fb_cols s0")
      case True
      then show ?thesis unfolding e using nl [OF wft(1)] tf by simp
    next
      case False
      then have "unat (cur_x s0 + 1) < unat (fb_cols s0)" by (simp add: word_le_nat_alt unat_small)
      then show ?thesis unfolding e using upd [OF wft(2)] tf False D by simp
    qed
  qed
qed

lemma text_putc_ok:
  assumes ok: "con_ok s" and tx: "\<not> fb_enabled (video s)"
  shows "con_ok (text_putc c s)"
proof -
  have D: "con_wf s" "unat (cur_x s) < 80" "unat (cur_y s) < 25" using assms by (simp_all add: con_ok_def)
  have cur: "con_ok (vga_update_cursor t) = con_ok t" for t
    by (simp add: vga_update_cursor_def Let_def outs_def con_ok_def con_wf_def)
  have wfu: "con_wf (t\<lparr>cur_x := a, cur_y := b\<rparr>) = con_wf t" "con_wf (t\<lparr>cur_x := a\<rparr>) = con_wf t"
    "con_wf (t\<lparr>cur_y := b\<rparr>) = con_wf t" "con_wf (t\<lparr>vga_text := v\<rparr>) = con_wf t" for t a b v
    by (simp_all add: con_wf_def)
  have sc: "con_ok (vga_scroll t)" if "con_wf t" "video t = video s" "unat (cur_x t) < 80" for t
    using that tx by (auto simp: vga_scroll_def con_ok_def wfu word_less_nat_alt con_wf_def)
  have x: "unat (cur_x s + 1) = unat (cur_x s) + 1" by (rule unat_inc8) (use D in linarith)
  have ok': "con_ok t" if "con_wf t" "video t = video s" "unat (cur_x t) < 80" "unat (cur_y t) < 25" for t
    using that tx by (simp add: con_ok_def)
  show ?thesis
    unfolding text_putc_def Let_def
    using D x ok by (auto simp: cur wfu unat_dec8 word_le_nat_alt word_less_nat_alt intro!: sc ok')
qed

lemma con_ok_putc:
  assumes "con_ok s"
  shows "con_ok (vga_putc c s)"
proof -
  have s: "video (serial_putc c s) = video s" "con_ok (serial_putc c s)"
    using assms by (simp_all add: serial_putc_def con_ok_def con_wf_def)
  show ?thesis
    using fb_putc_ok [OF s(2), of c] text_putc_ok [OF s(2), of c] s(1) by (simp add: vga_putc_def Let_def)
qed

text \<open>
  Whatever is printed, the console stays well formed: the cursor is on the screen (the text
  screen or the character grid of the framebuffer), the scrollback ring and the view offset are in
  range. The grid must be at most 255 cells wide and high, the range of the 8-bit cursor.
\<close>

theorem vga_putc_ok:
  assumes "con_ok s"
  shows "con_ok (fold vga_putc str s)"
  using assms by (induction str arbitrary: s) (auto intro: con_ok_putc)

subsection \<open>Output stays inside the framebuffer\<close>

definition fb_region :: "con \<Rightarrow> u32 set" where
  "fb_region s = {a. unat (gfx_lfb (video s)) \<le> unat a \<and>
     unat a < unat (gfx_lfb (video s)) + unat (gfx_pitch (video s)) * unat (gfx_h (video s))}"

text \<open>A mode the console can draw in: the window does not wrap, the grid fits the screen.\<close>

definition fb_ok :: "con \<Rightarrow> bool" where
  "fb_ok s \<longleftrightarrow> (fb_bytes s = 1 \<or> fb_bytes s = 4) \<and>
     unat (gfx_w (video s)) * unat (fb_bytes s) \<le> unat (gfx_pitch (video s)) \<and>
     unat (gfx_lfb (video s)) + unat (gfx_pitch (video s)) * unat (gfx_h (video s)) \<le> 4294967296 \<and>
     unat (fb_cols s) * (8 * unat (fb_scale s)) \<le> unat (gfx_w (video s)) \<and>
     unat (fb_rows s) * (unat (fb_font_h s) * unat (fb_scale s)) \<le> unat (gfx_h (video s))"

definition geom :: "con \<Rightarrow> vm \<times> u32 \<times> u32 \<times> u32 \<times> u32 \<times> u32" where
  "geom s = (video s, fb_bytes s, fb_scale s, fb_font_h s, fb_cols s, fb_rows s)"

lemma geom_ok: "geom s' = geom s \<Longrightarrow> fb_ok s' = fb_ok s \<and> fb_region s' = fb_region s"
  by (simp add: geom_def fb_ok_def fb_region_def)

lemma geom_vram_only: "vram_only s s' \<Longrightarrow> geom s' = geom s"
  by (auto simp: vram_only_def geom_def) (metis con.ext_inject con.surjective con.update_convs(5))+

lemma fold_keep: "(\<And>x m. x \<in> set xs \<Longrightarrow> f x m a = m a) \<Longrightarrow> fold f xs m a = m a"
  by (induction xs arbitrary: m) auto

lemma pixel_addr:
  assumes ok: "fb_ok s" and y: "yw < gfx_h (video s)" and x: "xw < gfx_w (video s)" and d: "d < unat (fb_bytes s)"
  shows "gfx_lfb (video s) + yw * gfx_pitch (video s) + xw * fb_bytes s + of_nat d \<in> fb_region s"
proof -
  let ?L = "unat (gfx_lfb (video s))" and ?P = "unat (gfx_pitch (video s))" and ?B = "unat (fb_bytes s)"
  let ?Y = "unat yw" and ?X = "unat xw" and ?H = "unat (gfx_h (video s))" and ?W = "unat (gfx_w (video s))"
  have X: "?X + 1 \<le> ?W" and Y: "?Y + 1 \<le> ?H" using x y by (simp_all add: word_less_nat_alt)
  have "?X * ?B + d < (?X + 1) * ?B" using d by simp
  also have "\<dots> \<le> ?W * ?B" using X by (intro mult_le_mono1)
  also have "\<dots> \<le> ?P" using ok by (simp add: fb_ok_def)
  finally have "?Y * ?P + (?X * ?B + d) < (?Y + 1) * ?P" by simp
  also have "\<dots> \<le> ?P * ?H" using mult_le_mono1 [OF Y, of ?P] by (simp add: mult.commute)
  finally have off: "?Y * ?P + ?X * ?B + d < ?P * ?H" by simp
  have "gfx_lfb (video s) + yw * gfx_pitch (video s) + xw * fb_bytes s + of_nat d = (of_nat (?L + (?Y * ?P + ?X * ?B + d)) :: u32)"
    by simp
  moreover have "unat (of_nat (?L + (?Y * ?P + ?X * ?B + d)) :: u32) = ?L + (?Y * ?P + ?X * ?B + d)"
    by (rule unat_of_nat32) (use off ok in \<open>simp add: fb_ok_def\<close>)
  ultimately have "unat (gfx_lfb (video s) + yw * gfx_pitch (video s) + xw * fb_bytes s + of_nat d) = ?L + (?Y * ?P + ?X * ?B + d)"
    by (simp only:)
  then show ?thesis using off unfolding fb_region_def mem_Collect_eq by linarith
qed

lemma put_word_keep:
  assumes "a \<noteq> p" "a \<noteq> p + 1" "a \<noteq> p + 2" "a \<noteq> p + 3"
  shows "put_word p v m a = m a"
  using assms by (simp add: put_word_def)

text \<open>A pixel at column \<open>xw\<close> of scanline \<open>yw\<close> is written inside the window.\<close>

lemma pixel_keep:
  assumes ok: "fb_ok s" and yx: "yw < gfx_h (video s)" "xw < gfx_w (video s)" and a: "a \<notin> fb_region s"
    and p: "p = gfx_lfb (video s) + yw * gfx_pitch (video s) + xw * fb_bytes s"
  shows "a \<noteq> p" "fb_bytes s \<noteq> 1 \<Longrightarrow> put_word p v m a = m a" "put_pixel s p b m a = m a"
proof -
  have B: "fb_bytes s = 1 \<or> fb_bytes s = 4" using ok by (simp add: fb_ok_def)
  note A = pixel_addr [OF ok yx]
  show n0: "a \<noteq> p" using A [of 0] a B p by auto
  show w: "put_word p v m a = m a" if "fb_bytes s \<noteq> 1" for v m
  proof -
    have "fb_bytes s = 4" using B that by blast
    then have "p + 1 \<in> fb_region s" "p + 2 \<in> fb_region s" "p + 3 \<in> fb_region s"
      using A [of 1] A [of 2] A [of 3] p by simp_all
    then show ?thesis using n0 a by (intro put_word_keep) auto
  qed
  show "put_pixel s p b m a = m a" using n0 w by (simp add: put_pixel_def)
qed

lemma cell_pixels:
  assumes "unat c * (n * k) + n * k \<le> unat (lim :: u32)" "i < n" "j < k" "unat (p :: u32) = unat (c :: u32) * (n * k)" "unat (sc :: u32) = k"
  shows "p + of_nat i * sc + of_nat j < lim"
proof -
  have "i * k + j < n * k"
  proof -
    have "i * k + j < (i + 1) * k" using assms(3) by simp
    also have "\<dots> \<le> n * k" using assms(2) by (intro mult_le_mono1) simp
    finally show ?thesis .
  qed
  then have lt: "unat p + (i * k + j) < unat lim" using assms(1,4) by linarith
  have "p + of_nat i * sc + of_nat j = (of_nat (unat p + (i * k + j)) :: u32)" using assms(5) by (simp flip: assms(5))
  moreover have "unat (of_nat (unat p + (i * k + j)) :: u32) = unat p + (i * k + j)"
    by (rule unat_of_nat32) (use lt unat_lt_2_32 [of lim] in linarith)
  ultimately have "unat (p + of_nat i * sc + of_nat j) = unat p + (i * k + j)" by (simp only:)
  then show ?thesis using lt unfolding word_less_nat_alt by linarith
qed

lemma draw_confined:
  assumes ok: "fb_ok s" and c: "unat col < unat (fb_cols s)" and rw: "unat row < unat (fb_rows s)" and a: "a \<notin> fb_region s"
  shows "vram (fb_draw_glyph col row ch s) a = vram s a"
proof -
  define k where "k = unat (fb_scale s)"
  define fh where "fh = unat (fb_font_h s)"
  define px where "px = col * 8 * fb_scale s"
  define py where "py = row * fb_font_h s * fb_scale s"
  let ?W = "gfx_w (video s)" and ?H = "gfx_h (video s)"
  have cw: "unat col * (8 * k) + 8 * k \<le> unat ?W"
  proof -
    have "(unat col + 1) * (8 * k) \<le> unat (fb_cols s) * (8 * k)" using c by (intro mult_le_mono1) simp
    then show ?thesis using ok by (simp add: fb_ok_def k_def)
  qed
  have rh: "unat row * (fh * k) + fh * k \<le> unat ?H"
  proof -
    have "(unat row + 1) * (fh * k) \<le> unat (fb_rows s) * (fh * k)" using rw by (intro mult_le_mono1) simp
    then show ?thesis using ok by (simp add: fb_ok_def k_def fh_def)
  qed
  have ux: "unat px = unat col * (8 * k)"
  proof -
    have "px = (of_nat (unat col * (8 * k)) :: u32)" by (simp add: px_def k_def)
    moreover have "unat col * (8 * k) < 4294967296" using cw unat_lt_2_32 [of ?W] by linarith
    ultimately show ?thesis by (simp only: unat_of_nat32)
  qed
  have uy: "unat py = unat row * (fh * k)"
  proof -
    have "py = (of_nat (unat row * (fh * k)) :: u32)" by (simp add: py_def k_def fh_def mult.assoc)
    moreover have "unat row * (fh * k) < 4294967296" using rh unat_lt_2_32 [of ?H] by linarith
    ultimately show ?thesis by (simp only: unat_of_nat32)
  qed
  have X: "px + of_nat x * fb_scale s + of_nat sx < ?W" if "x < 8" "sx < k" for x sx
    by (rule cell_pixels [OF cw that ux]) (simp add: k_def)
  have Y: "py + of_nat y * fb_scale s + of_nat sy < ?H" if "y < fh" "sy < k" for y sy
    by (rule cell_pixels [OF rh that uy]) (simp add: k_def)
  have w8: "unat (8 * fb_scale s) \<le> 8 * k" "unat (fb_font_h s * fb_scale s) \<le> fh * k"
    by (simp_all add: k_def fh_def unat_word_ariths)
  have X1: "px + of_nat x < ?W" if "x < unat (8 * fb_scale s)" for x
    using cell_pixels [of col "8 * k" 1 ?W x 0 px 1] cw ux that w8(1) by simp
  have Y1: "py + of_nat y < ?H" if "y < unat (fb_font_h s * fb_scale s)" for y
    using cell_pixels [of row "fh * k" 1 ?H y 0 py 1] rh uy that w8(2) by simp
  have glyph: "glyph_cell s bits px py (vram s) a = vram s a" for bits
    unfolding glyph_cell_def glyph_row_def
  proof (intro fold_keep)
    fix y sy x sx :: nat and m
    assume i: "y \<in> set [0..<unat (fb_font_h s)]" "sy \<in> set [0..<unat (fb_scale s)]" "x \<in> set [0..<8]" "sx \<in> set [0..<unat (fb_scale s)]"
    then have "py + of_nat y * fb_scale s + of_nat sy < ?H" "px + of_nat x * fb_scale s + of_nat sx < ?W"
      using X Y by (simp_all add: k_def fh_def)
    then show "put_pixel s (gfx_lfb (video s) + (py + of_nat y * fb_scale s + of_nat sy) * gfx_pitch (video s) +
        (px + of_nat x * fb_scale s + of_nat sx) * fb_bytes s) (bit (bits y) (7 - x)) m a = m a"
      by (rule pixel_keep(3) [OF ok _ _ a refl])
  qed
  have blank: "blank_cell s px py (unat (8 * fb_scale s)) (unat (fb_font_h s * fb_scale s)) (vram s) a = vram s a"
    unfolding blank_cell_def
  proof (rule fold_keep)
    fix y :: nat and m assume "y \<in> set [0..<unat (fb_font_h s * fb_scale s)]"
    then have y: "py + of_nat y < ?H" using Y1 by simp
    have P: "a \<noteq> gfx_lfb (video s) + (py + of_nat y) * gfx_pitch (video s) + (px + of_nat x) * fb_bytes s"
      "fb_bytes s \<noteq> 1 \<Longrightarrow> put_word (gfx_lfb (video s) + (py + of_nat y) * gfx_pitch (video s) + (px + of_nat x) * fb_bytes s) v m a = m a"
      if "x \<in> set [0..<unat (8 * fb_scale s)]" for x v m
      using pixel_keep(1,2) [OF ok y X1 [of x] a refl] that by simp_all
    have B: "fb_bytes s = 1 \<or> fb_bytes s = 4" using ok by (simp add: fb_ok_def)
    show "blank_row s (gfx_lfb (video s) + (py + of_nat y) * gfx_pitch (video s) + px * fb_bytes s) (unat (8 * fb_scale s)) m a = m a"
    proof (cases "fb_bytes s = 1")
      case True
      then show ?thesis using P(1) unfolding blank_row_def if_P [OF True] by (intro fold_keep) (simp add: algebra_simps)
    next
      case False
      then have "fb_bytes s = 4" using B by blast
      then show ?thesis using P(2) [OF _ False] False unfolding blank_row_def if_not_P [OF False]
        by (intro fold_keep) (simp add: algebra_simps)
    qed
  qed
  show ?thesis
    using glyph blank unfolding fb_draw_glyph_def Let_def px_def py_def by (auto split: option.split)
qed

definition confined :: "con \<Rightarrow> con \<Rightarrow> bool" where
  "confined s s' \<longleftrightarrow> geom s' = geom s \<and> (\<forall>a. a \<notin> fb_region s \<longrightarrow> vram s' a = vram s a)"

lemma confined_upd: "vram s' = vram s \<Longrightarrow> geom s' = geom s \<Longrightarrow> confined s s'"
  by (simp add: confined_def)

lemma confined_trans: "confined s s' \<Longrightarrow> confined s' s'' \<Longrightarrow> confined s s''"
  using geom_ok [of s' s] by (auto simp: confined_def)

lemma confined_fold:
  assumes "\<And>x t. x \<in> set xs \<Longrightarrow> geom t = geom s \<Longrightarrow> confined t (f x t)"
  shows "confined s (fold f xs s)"
  using assms
proof (induction xs arbitrary: s)
  case (Cons x xs)
  have a: "confined s (f x s)" by (rule Cons.prems) simp_all
  then have g: "geom (f x s) = geom s" by (simp add: confined_def)
  have "confined (f x s) (fold f xs (f x s))" by (rule Cons.IH) (use Cons.prems g in auto)
  then show ?case using confined_trans [OF a] by simp
qed (simp add: confined_def)

lemma confined_draw:
  assumes "fb_ok s" "unat col < unat (fb_cols s)" "unat row < unat (fb_rows s)"
  shows "confined s (fb_draw_glyph col row ch s)"
  using draw_confined [OF assms] geom_vram_only [OF vram_only_glyph] by (simp add: confined_def)

lemma of_nat_lt: "n < unat (x :: u32) \<Longrightarrow> unat (of_nat n :: u32) < unat x"
  using unat_lt_2_32 [of x] by (subst unat_of_nat32) linarith+

lemma confined_draw_row:
  assumes "fb_ok s" "unat r < unat (fb_rows s)"
  shows "confined s (draw_row r line s)"
  unfolding draw_row_def
proof (rule confined_fold)
  fix c t assume "c \<in> set [0..<unat (fb_cols s)]" and g: "geom t = geom s"
  moreover have "fb_ok t" "fb_cols t = fb_cols s" "fb_rows t = fb_rows s" using geom_ok [OF g] assms(1) g by (simp_all add: geom_def)
  ultimately show "confined t (fb_draw_glyph (of_nat c) r (line c) t)"
    using assms(2) of_nat_lt [of c "fb_cols s"] by (intro confined_draw) simp_all
qed

lemma confined_repaint:
  assumes "fb_ok s"
  shows "confined s (fb_repaint s)" "confined s (fb_repaint_view s)"
proof -
  have "confined t (draw_row (of_nat r) line t)" if "r \<in> set [0..<unat (fb_rows s)]" "geom t = geom s" for r t line
    using that assms geom_ok [OF that(2)] of_nat_lt [of r "fb_rows s"]
    by (intro confined_draw_row) (auto simp: geom_def)
  then show "confined s (fb_repaint s)" "confined s (fb_repaint_view s)"
    unfolding fb_repaint_def fb_repaint_view_def by (auto intro: confined_fold)
qed

lemma confined_scroll:
  assumes "fb_ok s"
  shows "confined s (vga_scroll s)"
proof (cases "fb_enabled (video s) \<and> \<not> ucast (cur_y s) < fb_rows s \<and> gfx_lfb (video s) \<noteq> 0")
  case True
  define t where "t = scroll_grid s"
  have g: "fb_rows t = fb_rows s" "vram t = vram s" "geom t = geom s" by (simp_all add: t_def scroll_grid_def Let_def geom_def)
  have t: "vga_scroll s = (fb_repaint t)\<lparr>cur_y := ucast (fb_rows s - 1)\<rparr>" "vram t = vram s" "geom t = geom s"
    using True g by (simp_all add: vga_scroll_def Let_def t_def [symmetric])
  have "confined s t" using t by (intro confined_upd) simp_all
  moreover have "confined t (fb_repaint t)" using geom_ok [OF t(3)] assms by (intro confined_repaint) simp
  moreover have "confined (fb_repaint t) (vga_scroll s)" unfolding t(1) by (intro confined_upd) (simp_all add: geom_def)
  ultimately show ?thesis by (blast intro: confined_trans)
next
  case False
  then show ?thesis by (intro confined_upd) (auto simp: vga_scroll_def geom_def)
qed

lemma text_putc_frame:
  assumes "\<not> fb_enabled (video s)"
  shows "vram (text_putc c s) = vram s \<and> geom (text_putc c s) = geom s"
proof -
  have u: "vram (vga_update_cursor t) = vram t" "geom (vga_update_cursor t) = geom t" for t
    by (simp_all add: vga_update_cursor_def outs_def Let_def geom_def)
  have sc: "vram (vga_scroll t) = vram t" "geom (vga_scroll t) = geom t" if "video t = video s" for t
    using that assms by (simp_all add: vga_scroll_def geom_def)
  have g: "geom (t\<lparr>cur_x := a, cur_y := b\<rparr>) = geom t" "geom (t\<lparr>cur_x := a\<rparr>) = geom t" "geom (t\<lparr>cur_y := b\<rparr>) = geom t"
    "geom (t\<lparr>vga_text := v\<rparr>) = geom t" for t a b v by (simp_all add: geom_def)
  show ?thesis unfolding text_putc_def Let_def by (simp add: u sc g)
qed

lemma confined_putc:
  assumes ok: "con_ok s" "fb_ok s"
  shows "confined s (vga_putc c s)"
proof -
  define s1 where "s1 = serial_putc c s"
  have s1: "confined s s1" "video s1 = video s" "con_ok s1" "fb_ok s1"
    using ok by (simp_all add: s1_def serial_putc_def confined_def geom_def con_ok_def con_wf_def fb_ok_def)
  have "confined s1 (fb_putc c s1)" if fb: "fb_enabled (video s1)"
  proof -
    define s0 where "s0 = (if view_off s1 \<noteq> 0 then console_view_live s1 else s1)"
    note E = fb_putc_def [of c s1, folded s0_def]
    have c0: "confined s1 s0"
    proof (cases "view_off s1 = 0")
      case False
      have "confined s1 (s1\<lparr>view_off := 0\<rparr>)" by (rule confined_upd) (simp_all add: geom_def)
      moreover have "confined (s1\<lparr>view_off := 0\<rparr>) (fb_repaint (s1\<lparr>view_off := 0\<rparr>))"
        using s1(4) by (intro confined_repaint) (simp add: fb_ok_def)
      ultimately have "confined s1 (fb_repaint (s1\<lparr>view_off := 0\<rparr>))" by (rule confined_trans)
      then show ?thesis using False by (simp add: s0_def console_view_live_def)
    qed (simp add: s0_def confined_def)
    have f0: "video s0 = video s1" "fb_cols s0 = fb_cols s1" "fb_rows s0 = fb_rows s1" "cur_x s0 = cur_x s1" "cur_y s0 = cur_y s1"
      by (simp_all add: s0_def console_view_live_def)
    have ok0: "fb_ok s0" using c0 s1(4) geom_ok [of s0 s1] by (simp add: confined_def)
    have D: "0 < unat (fb_cols s0)" "unat (fb_cols s0) < 256" "unat (cur_x s0) < unat (fb_cols s0)" "unat (cur_y s0) < unat (fb_rows s0)"
      using s1(3) fb by (simp_all add: con_ok_def f0)
    have scr: "confined s0 (vga_scroll t)" if "vram t = vram s0" "geom t = geom s0" for t
    proof -
      have "confined s0 t" using that by (rule confined_upd)
      moreover have "confined t (vga_scroll t)" using geom_ok [OF that(2)] ok0 by (intro confined_scroll) simp
      ultimately show ?thesis by (rule confined_trans)
    qed
    have put: "confined s0 (fb_draw_glyph (ucast (cur_x t)) (ucast (cur_y t)) ch (fb_cell_set a b e t))"
      if "vram t = vram s0" "geom t = geom s0" "unat (cur_x t) < unat (fb_cols s0)" "unat (cur_y t) < unat (fb_rows s0)" for t a b e ch
    proof -
      have g: "geom (fb_cell_set a b e t) = geom s0" using that(2) by (simp add: fb_cell_set_def geom_def)
      have "confined s0 (fb_cell_set a b e t)" using that by (intro confined_upd g) (simp add: fb_cell_set_def)
      moreover have "confined (fb_cell_set a b e t) (fb_draw_glyph (ucast (cur_x t)) (ucast (cur_y t)) ch (fb_cell_set a b e t))"
        using geom_ok [OF g] ok0 g that(3,4) by (intro confined_draw) (simp_all add: geom_def unat_small)
      ultimately show ?thesis by (rule confined_trans)
    qed
    have colm: "unat (ucast (fb_cols s0 - 1) :: u8) = unat (fb_cols s0) - 1"
    proof -
      have "unat (fb_cols s0 - 1) = unat (fb_cols s0) - 1" using D(1) by (subst unat_minus_one) auto
      then show ?thesis using D(2) unat_small(2) [of "fb_cols s0 - 1"] by simp
    qed
    have "confined s0 (fb_putc c s1)"
    proof -
      define t where "t = (if cur_x s0 = 0 then s0\<lparr>cur_y := cur_y s0 - 1, cur_x := ucast (fb_cols s0 - 1)\<rparr>
                   else s0\<lparr>cur_x := cur_x s0 - 1\<rparr>)"
      define p where "p = fb_draw_glyph (ucast (cur_x s0)) (ucast (cur_y s0)) c (fb_cell_set (ucast (cur_y s0)) (ucast (cur_x s0)) c s0)"
      have cp: "confined s0 p" unfolding p_def by (rule put) (use D in simp_all)
      have cs: "confined s0 (vga_scroll (p\<lparr>cur_x := x, cur_y := y\<rparr>))" "confined s0 (p\<lparr>cur_x := x\<rparr>)" for x y
      proof -
        have "confined s0 (p\<lparr>cur_x := x, cur_y := y\<rparr>)" "confined s0 (p\<lparr>cur_x := x\<rparr>)" using cp by (simp_all add: confined_def geom_def)
        moreover have "confined (p\<lparr>cur_x := x, cur_y := y\<rparr>) (vga_scroll (p\<lparr>cur_x := x, cur_y := y\<rparr>))"
          using cp ok0 geom_ok [of p s0] by (intro confined_scroll) (simp add: confined_def fb_ok_def)
        ultimately show "confined s0 (vga_scroll (p\<lparr>cur_x := x, cur_y := y\<rparr>))" "confined s0 (p\<lparr>cur_x := x\<rparr>)"
          by (blast intro: confined_trans)+
      qed
      have pf: "cur_x p = cur_x s0" "cur_y p = cur_y s0" "fb_cols p = fb_cols s0" by (simp_all add: p_def fb_cell_set_def)
      have cell: "cur_x (fb_cell_set a b e u) = cur_x u" "cur_y (fb_cell_set a b e u) = cur_y u" for a b e u
        by (simp_all add: fb_cell_set_def)
      have bs: "confined s0 (fb_draw_glyph (ucast (cur_x t)) (ucast (cur_y t)) 0x20 (fb_cell_set a b 0x20 t))"
        if "\<not> (cur_x s0 = 0 \<and> cur_y s0 = 0)" for a b
        by (rule put) (use that D colm in \<open>auto simp: t_def geom_def unat_dec8\<close>)
      have r0: "confined s0 s0" "confined s0 (s0\<lparr>cur_x := 0\<rparr>)" by (simp_all add: confined_def geom_def)
      have nl: "confined s0 (vga_scroll (s0\<lparr>cur_x := 0, cur_y := cur_y s0 + 1\<rparr>))" by (rule scr) (simp_all add: geom_def)
      have e: "fb_putc c s1 = (if c = 10 then vga_scroll (s0\<lparr>cur_x := 0, cur_y := cur_y s0 + 1\<rparr>)
          else if c = 13 then s0\<lparr>cur_x := 0\<rparr>
          else if c = 8 then (if cur_x s0 = 0 \<and> cur_y s0 = 0 then s0
            else fb_draw_glyph (ucast (cur_x t)) (ucast (cur_y t)) 0x20 (fb_cell_set (ucast (cur_y t)) (ucast (cur_x t)) 0x20 t))
          else if fb_font s0 = None then s0
          else if ucast (cur_x s0 + 1) \<ge> fb_cols s0 then vga_scroll (p\<lparr>cur_x := 0, cur_y := cur_y s0 + 1\<rparr>)
          else p\<lparr>cur_x := cur_x s0 + 1\<rparr>)"
        unfolding E Let_def cell t_def [symmetric] p_def [symmetric] by (simp add: pf)
      show ?thesis unfolding e using r0 nl bs cs by simp
    qed
    then show ?thesis by (rule confined_trans [OF c0])
  qed
  moreover have "confined s1 (text_putc c s1)" if tx: "\<not> fb_enabled (video s1)"
    using text_putc_frame [OF tx] by (intro confined_upd) simp_all
  ultimately have "confined s1 (vga_putc c s)" by (simp add: vga_putc_def Let_def s1_def [symmetric])
  then show ?thesis by (rule confined_trans [OF s1(1)])
qed

text \<open>
  C17. Memory safety of the console: in a mode whose window does not wrap and whose grid fits the
  screen, printing any text changes no byte outside the framebuffer.
\<close>

theorem console_output_confined:
  assumes "con_ok s" "fb_ok s" "a \<notin> fb_region s"
  shows "vram (fold vga_putc str s) a = vram s a"
proof -
  have "confined s (fold vga_putc str s)"
    using assms(1,2)
  proof (induction str arbitrary: s)
    case (Cons c str)
    have c: "confined s (vga_putc c s)" by (rule confined_putc [OF Cons.prems])
    have "fb_ok (vga_putc c s)" using c Cons.prems(2) geom_ok [of "vga_putc c s" s] by (simp add: confined_def)
    then have "confined (vga_putc c s) (fold vga_putc str (vga_putc c s))"
      using Cons.IH con_ok_putc [OF Cons.prems(1)] by blast
    then show ?case using confined_trans [OF c] by simp
  qed (simp add: confined_def)
  then show ?thesis using assms(3) by (simp add: confined_def)
qed

subsection \<open>An example screen\<close>

lemma cell_row_const: "(\<And>c. c < FB_CELL_COLS \<Longrightarrow> cells (r * FB_CELL_COLS + c) = v) \<Longrightarrow> cell_row cells r = replicate FB_CELL_COLS v"
  by (rule nth_equalityI) (simp_all add: cell_row_def)

definition demo_con :: con where
  "demo_con = \<lparr>video = \<lparr>tabs = (\<lambda>_ _. 0), phys_free = 0, kernel_pdpt = 0, proc_pdpt = 0, paging_on = False, cr3 = 0,
       mmio_virt_next = MMIO_VIRT_BASE, user_phys_base = 0, user_phys_limit = 0, dma_arena_base = 0,
       user_mmio_used = 0, user_dma_used = 0, pat_wc_ready = True, fb_enabled = True, gfx_w = 16, gfx_h = 32,
       gfx_pitch = 16, gfx_bpp = 8, gfx_lfb = 0xA0000, gfx_lfb_phys = 0xA0000, gfx_mode_id = 0, gfx_fb_size = 0,
       gfx_fb_user_addr = 0, gfx_fb_user_mapped = False\<rparr>,
     ports = [], serial_ready = False, serial_out = [], vram = (\<lambda>_. 0), vga_text = (\<lambda>_. 0x0720), cur_x = 0, cur_y = 0,
     fb_cells = (\<lambda>i. if i < 320 then 0x41 else if i < 640 then 0x42 else 0x20), hist_cells = (\<lambda>_. 0), hist_next = 0,
     hist_count = 0, view_off = 0, fb_font = Some (\<lambda>i. ucast i), fb_font_h = 16, fb_font_stride = 16, fb_bytes = 1,
     fb_fg = 15, fb_bg = 0, fb_fg32 = 0x00FFFFFF, fb_bg32 = 0, fb_cols = 2, fb_rows = 2, fb_scale = 1\<rparr>"

lemma demo_con_ok: "con_wf demo_con" "con_ok demo_con" "fb_ok demo_con"
  by (simp_all add: con_wf_def con_ok_def fb_ok_def demo_con_def HIST_ROWS_def word_less_nat_alt)

theorem vga_scroll_stream_witness:
  "hist_lines (vga_scroll (demo_con\<lparr>cur_y := 2\<rparr>)) @ live_lines (vga_scroll (demo_con\<lparr>cur_y := 2\<rparr>)) =
     [replicate 320 0x41, replicate 320 0x42, replicate 320 0x20]"
proof -
  have "con_wf (demo_con\<lparr>cur_y := 2\<rparr>)" "fb_enabled (video (demo_con\<lparr>cur_y := 2\<rparr>))" "gfx_lfb (video (demo_con\<lparr>cur_y := 2\<rparr>)) \<noteq> 0"
    "fb_rows (demo_con\<lparr>cur_y := 2\<rparr>) \<le> ucast (cur_y (demo_con\<lparr>cur_y := 2\<rparr>))"
    by (simp_all add: con_wf_def demo_con_def HIST_ROWS_def)
  note S = vga_scroll_stream [OF this]
  have rows: "cell_row (fb_cells demo_con) 0 = replicate FB_CELL_COLS 0x41" "cell_row (fb_cells demo_con) (Suc 0) = replicate FB_CELL_COLS 0x42"
    by (rule cell_row_const; simp add: demo_con_def FB_CELL_COLS_def)+
  have "live_rows (demo_con\<lparr>cur_y := 2\<rparr>) = Suc (Suc 0)" by (simp add: live_rows_def demo_con_def FB_CELL_ROWS_def)
  then have "live_lines (demo_con\<lparr>cur_y := 2\<rparr>) = [replicate 320 0x41, replicate 320 0x42]"
    using rows by (simp add: live_lines_def FB_CELL_COLS_def)
  moreover have "hist_lines (demo_con\<lparr>cur_y := 2\<rparr>) = []" by (simp add: hist_lines_def demo_con_def)
  ultimately show ?thesis using S by (simp add: demo_con_def HIST_ROWS_def FB_CELL_COLS_def)
qed

theorem view_line_stream_witness:
  "view_line demo_con 1 5 = (hist_lines demo_con @ live_lines demo_con) ! 1 ! 5 \<and> view_line demo_con 1 5 = 0x42"
proof -
  have "view_line demo_con 1 5 = (hist_lines demo_con @ live_lines demo_con) ! (hist_count demo_con + 1 - view_off demo_con) ! 5"
    by (rule view_line_stream [OF demo_con_ok(1)]) (simp_all add: live_rows_def demo_con_def FB_CELL_ROWS_def FB_CELL_COLS_def)
  then show ?thesis by (simp add: demo_con_def view_line_def fb_cell_get_def FB_CELL_ROWS_def FB_CELL_COLS_def)
qed

theorem vga_putc_ok_witness: "con_ok (fold vga_putc [0x48, 0x69, 10, 8, 0x21] demo_con)"
  by (rule vga_putc_ok [OF demo_con_ok(2)])

theorem console_output_confined_witness: "vram (fold vga_putc [0x48, 0x69, 10] demo_con) 0xB0000 = 0"
  using console_output_confined [OF demo_con_ok(2,3), of "0xB0000" "[0x48, 0x69, 10]"]
  by (simp add: fb_region_def demo_con_def)

end
