(* ===== verification/Display.thy ===== *)
theory Display
  imports Console Disk
begin

text \<open>
  Display set-up of kernel/kernel.c: VGA register programming, the hand-over from the boot loader
  (\<open>bootinfo_init\<close>), VBE modes, and the interrupt controller and timer programming that goes
  through the same ports. BIOS calls are parameters: what they report and return.
\<close>

subsection \<open>VGA registers\<close>

definition out_pairs :: "u16 \<Rightarrow> u16 \<Rightarrow> u8 list \<Rightarrow> con \<Rightarrow> con" where
  "out_pairs ip dp vals s = outs (concat (map (\<lambda>(i, v). [(ip, of_nat i), (dp, v)]) (enumerate 0 vals))) s"

definition vga_write_regs :: "port_dev \<Rightarrow> u8 list \<Rightarrow> con \<Rightarrow> con" where
  "vga_write_regs dev regs s =
     (let s = outb 0x3C2 (regs ! 0) s;
          s = out_pairs 0x3C4 0x3C5 (take 5 (drop 1 regs)) s;
          s = outb 0x3D4 0x03 s;
          (v, s) = inb dev 0x3D5 s;
          s = outb 0x3D5 (v OR 0x80) s;
          s = outb 0x3D4 0x11 s;
          (v, s) = inb dev 0x3D5 s;
          s = outb 0x3D5 (v AND NOT 0x80) s;
          s = out_pairs 0x3D4 0x3D5 (take 25 (drop 6 regs)) s;
          s = out_pairs 0x3CE 0x3CF (take 9 (drop 31 regs)) s;
          (_, s) = inb dev 0x3DA s;
          s = out_pairs 0x3C0 0x3C0 (take 21 (drop 40 regs)) s
      in outb 0x3C0 0x20 s)"

definition vga_mode13_regs :: "u8 list" where
  "vga_mode13_regs =
    [0x63,
     0x03,0x01,0x0F,0x00,0x0E,
     0x5F,0x4F,0x50,0x82,0x54,0x80,0xBF,0x1F,0x00,0x41,0x00,0x00,0x00,0x00,0x00,0x00,
     0x9C,0x0E,0x8F,0x28,0x40,0x96,0xB9,0xA3,0xFF,
     0x00,0x00,0x00,0x00,0x00,0x40,0x05,0x0F,0xFF,
     0x00,0x01,0x02,0x03,0x04,0x05,0x06,0x07,0x08,0x09,0x0A,0x0B,0x0C,0x0D,0x0E,0x0F,
     0x41,0x00,0x0F,0x00,0x00]"

definition vga_text_regs :: "u8 list" where
  "vga_text_regs =
    [0x67,
     0x03,0x00,0x03,0x00,0x02,
     0x5F,0x4F,0x50,0x82,0x55,0x81,0xBF,0x1F,0x00,0x4F,0x0D,0x0E,0x00,0x00,0x00,0x00,
     0x9C,0x0E,0x8F,0x28,0x1F,0x96,0xB9,0xA3,0xFF,
     0x00,0x00,0x00,0x00,0x00,0x10,0x0E,0x00,0xFF,
     0x00,0x01,0x02,0x03,0x04,0x05,0x06,0x07,0x08,0x09,0x0A,0x0B,0x0C,0x0D,0x0E,0x0F,
     0x08,0x00,0x0F,0x00,0x00]"

text \<open>State of the display beyond the console: the saved font and what the loader reported.\<close>

record vbe_list_entry =
  vle_mode :: u16
  vle_w :: u16
  vle_h :: u16
  vle_bpp :: u16
  vle_pitch :: u16

record disp =
  con :: con
  vga_font :: "u8 list"
  vga_font_saved :: bool
  drv :: disk
  acpi_pm1a :: u32
  acpi_pm1b :: u32
  acpi_slp_a :: u32
  acpi_slp_b :: u32
  ram_total_kb :: u32
  pm_tmr_port :: u32
  pm_tmr_32bit :: u32
  vbe_list :: u32
  vbe_list_count :: int
  fb_console_enable :: bool

definition with_con :: "(con \<Rightarrow> con) \<Rightarrow> disp \<Rightarrow> disp" where
  "with_con f d = d\<lparr>con := f (con d)\<rparr>"

text \<open>An indexed register: select, then read or write.\<close>

definition reg_read :: "port_dev \<Rightarrow> u16 \<Rightarrow> u8 \<Rightarrow> con \<Rightarrow> u8 \<times> con" where
  "reg_read dev p i s = inb dev (p + 1) (outb p i s)"

definition font_regs_read :: "port_dev \<Rightarrow> con \<Rightarrow> u8 list \<times> con" where
  "font_regs_read dev s =
     (let (seq2, s) = reg_read dev 0x3C4 0x02 s;
          (seq4, s) = reg_read dev 0x3C4 0x04 s;
          (gc4, s) = reg_read dev 0x3CE 0x04 s;
          (gc5, s) = reg_read dev 0x3CE 0x05 s;
          (gc6, s) = reg_read dev 0x3CE 0x06 s
      in ([seq2, seq4, gc4, gc5, gc6], s))"

definition font_regs_write :: "u8 list \<Rightarrow> con \<Rightarrow> con" where
  "font_regs_write vs s =
     outs [(0x3C4, 0x02), (0x3C5, vs ! 0), (0x3C4, 0x04), (0x3C5, vs ! 1), (0x3CE, 0x04), (0x3CF, vs ! 2),
           (0x3CE, 0x05), (0x3CF, vs ! 3), (0x3CE, 0x06), (0x3CF, vs ! 4)] s"

definition vga_font_save :: "port_dev \<Rightarrow> disp \<Rightarrow> disp" where
  "vga_font_save dev d =
     (let (saved, s) = font_regs_read dev (con d);
          s = font_regs_write [0x04, 0x07, 0x02, 0x00, 0x04] s;
          d = d\<lparr>con := s, vga_font := mem_load (vram s) 0xA0000 8192, vga_font_saved := True\<rparr>
      in d\<lparr>con := font_regs_write saved (con d)\<rparr>)"

definition vga_font_restore :: "port_dev \<Rightarrow> disp \<Rightarrow> disp" where
  "vga_font_restore dev d =
     (if \<not> vga_font_saved d then d
      else
        let (saved, s) = font_regs_read dev (con d);
            s = font_regs_write [0x04, 0x07, 0x02, 0x00, 0x04] s;
            s = s\<lparr>vram := memcpy (vram s) 0xA0000 (vga_font d)\<rparr>
        in d\<lparr>con := font_regs_write saved s\<rparr>)"

definition vga_set_palette :: "u8 \<Rightarrow> u8 \<Rightarrow> u8 \<Rightarrow> u8 \<Rightarrow> con \<Rightarrow> con" where
  "vga_set_palette idx r g b s =
     outs [(0x3C8, idx), (0x3C9, drop_bit 2 r), (0x3C9, drop_bit 2 g), (0x3C9, drop_bit 2 b)] s"

definition vga_set_mode13 :: "port_dev \<Rightarrow> con \<Rightarrow> con" where
  "vga_set_mode13 dev s =
     (let s = vga_write_regs dev vga_mode13_regs s
      in s\<lparr>video := (video s)\<lparr>gfx_w := 320, gfx_h := 200, gfx_pitch := 320, gfx_bpp := 8,
             gfx_lfb := 0xA0000, gfx_lfb_phys := 0xA0000\<rparr>\<rparr>)"

definition text_pal :: "(u8 \<times> u8 \<times> u8) list" where
  "text_pal =
    [(0, 0, 0), (0, 0, 170), (0, 170, 0), (0, 170, 170), (170, 0, 0), (170, 0, 170), (170, 85, 0), (170, 170, 170),
     (85, 85, 85), (85, 85, 255), (85, 255, 85), (85, 255, 255), (255, 85, 85), (255, 85, 255), (255, 255, 85),
     (255, 255, 255)]"

definition vga_reset_text_palette :: "con \<Rightarrow> con" where
  "vga_reset_text_palette s =
     fold (\<lambda>i s. let (r, g, b) = text_pal ! i in vga_set_palette (of_nat i) r g b s) [0..<16] s"

definition vga_set_text :: "port_dev \<Rightarrow> disp \<Rightarrow> disp" where
  "vga_set_text dev d =
     (if fb_enabled (video (con d)) then with_con vga_cls d
      else
        let d = with_con (vga_write_regs dev vga_text_regs) d;
            d = vga_font_restore dev d;
            d = with_con vga_reset_text_palette d;
            d = with_con (\<lambda>s. s\<lparr>video := (video s)\<lparr>gfx_w := 80, gfx_h := 25, gfx_pitch := 160, gfx_bpp := 0,
                  gfx_lfb := 0xB8000, gfx_lfb_phys := 0xB8000\<rparr>, cur_x := 0, cur_y := 0\<rparr>) d
        in with_con vga_update_cursor d)"

subsection \<open>Interrupt controller and timer\<close>

definition pic_disable :: "con \<Rightarrow> con" where
  "pic_disable s = outs [(0x21, 0xFF), (0xA1, 0xFF)] s"

definition pic_remap :: "port_dev \<Rightarrow> con \<Rightarrow> con" where
  "pic_remap dev s =
     (let (a1, s) = inb dev 0x21 s;
          (a2, s) = inb dev 0xA1 s
      in outs [(0x20, 0x11), (0xA0, 0x11), (0x21, 0x20), (0xA1, 0x28), (0x21, 0x04), (0xA1, 0x02),
               (0x21, 0x01), (0xA1, 0x01), (0x21, a1), (0xA1, a2)] s)"

definition pic_setmask :: "u8 \<Rightarrow> u8 \<Rightarrow> con \<Rightarrow> con" where
  "pic_setmask master slave s = outs [(0x21, master), (0xA1, slave)] s"

definition pit_init :: "u32 \<Rightarrow> con \<Rightarrow> con" where
  "pit_init hz s =
     (let hz = (if hz < 18 then 18 else hz);
          hz = (if hz > 1000 then 1000 else hz);
          d = 1193182 div hz
      in outs [(0x43, 0x36), (0x40, ucast (d AND 0xFF)), (0x40, ucast (drop_bit 8 d AND 0xFF))] s)"

subsection \<open>The loader's hand-over\<close>

definition BOOTINFO_MAGIC :: u32 where "BOOTINFO_MAGIC = 0x4F533332"

record bootinfo =
  bi_magic :: u32
  bi_lfb :: u32
  bi_width :: u32
  bi_height :: u32
  bi_pitch :: u32
  bi_bpp :: u32
  bi_font :: u32
  bi_font_h :: u32
  bi_mode :: u32
  bi_vbe_list :: u32
  bi_vbe_count :: u32
  bi_rd_base :: u32
  bi_rd_size :: u32
  bi_lfb_high :: u32
  bi_pm1a_cnt :: u32
  bi_pm1b_cnt :: u32
  bi_slp_typa :: u32
  bi_slp_typb :: u32
  bi_pm_tmr_blk :: u32
  bi_pm_tmr_32bit :: u32
  bi_ram_total_kb :: u32

definition fb_update_dims :: "con \<Rightarrow> con" where
  "fb_update_dims s =
     (let s = (if fb_font_h s = 0 then s\<lparr>fb_font_h := 16\<rparr> else s);
          s = s\<lparr>fb_cols := gfx_w (video s) div (8 * fb_scale s), fb_rows := gfx_h (video s) div (fb_font_h s * fb_scale s)\<rparr>;
          s = (if fb_cols s = 0 then s\<lparr>fb_cols := 1\<rparr> else s)
      in if fb_rows s = 0 then s\<lparr>fb_rows := 1\<rparr> else s)"

text \<open>A pitch the firmware cannot mean is replaced by the tightest one.\<close>

definition clamp_pitch :: "vm \<Rightarrow> vm" where
  "clamp_pitch v =
     (if gfx_bpp v = 8
      then (if gfx_pitch v < gfx_w v \<or> gfx_pitch v > gfx_w v * 2 then v\<lparr>gfx_pitch := gfx_w v\<rparr> else v)
      else if gfx_bpp v = 32
      then (let min_pitch = gfx_w v * 4
            in if gfx_pitch v < min_pitch \<or> gfx_pitch v > min_pitch * 2 then v\<lparr>gfx_pitch := min_pitch\<rparr> else v)
      else v)"

text \<open>The test pattern drawn over the cleared screen.\<close>

definition pattern_pixel :: "con \<Rightarrow> nat \<Rightarrow> nat \<Rightarrow> u32 \<Rightarrow> (u32 \<Rightarrow> u8) \<Rightarrow> u32 \<Rightarrow> u8" where
  "pattern_pixel s y x v m =
     (let v8 = v AND 0xFF; r = gfx_lfb (video s) + of_nat y * gfx_pitch (video s) in
      if gfx_bpp (video s) = 8 then m(r + of_nat x := ucast v8)
      else if gfx_bpp (video s) = 32
      then put_word (r + 4 * of_nat x) (v8 OR push_bit 8 v8 OR push_bit 16 v8) m
      else m)"

definition boot_pattern :: "con \<Rightarrow> con" where
  "boot_pattern s =
     (if gfx_lfb (video s) = 0 then s
      else
        let w = unat (gfx_w (video s)); h = unat (gfx_h (video s));
            m = fold (\<lambda>y m. fold (\<lambda>x m. pattern_pixel s y x (of_nat x) m) [0..<min w 256] m) [0..<min h 64] (vram s);
            m = fold (\<lambda>y m.
                  let m = pattern_pixel s y 0 255 m in if w > 1 then pattern_pixel s y 1 255 m else m) [0..<h] m
        in s\<lparr>vram := m\<rparr>)"

text \<open>The mode, the font and the grid the loader's framebuffer gives.\<close>

definition boot_mode :: "(u32 \<Rightarrow> u8) \<Rightarrow> mem \<Rightarrow> bootinfo \<Rightarrow> con \<Rightarrow> con" where
  "boot_mode font8x16 m bi s =
    (let s = s\<lparr>video := clamp_pitch ((video s)\<lparr>fb_enabled := True, gfx_w := bi_width bi, gfx_h := bi_height bi,
              gfx_pitch := bi_pitch bi, gfx_bpp := bi_bpp bi,
              gfx_lfb_phys := push_bit 32 (ucast (bi_lfb_high bi)) OR ucast (bi_lfb bi),
              gfx_lfb := (if bi_lfb_high bi \<noteq> 0 then 0 else bi_lfb bi)\<rparr>),
              fb_bytes := bi_bpp bi div 8\<rparr>;
         s = (if bi_font bi \<noteq> 0
              then
                let fh = bi_font_h bi;
                    s = s\<lparr>fb_font := Some (\<lambda>i. m (bi_font bi + i)),
                          fb_font_h := (if fh AND 0xFFFF \<noteq> 0 then fh AND 0xFFFF else 16),
                          fb_font_stride := drop_bit 16 fh\<rparr>
                in (if fb_font_stride s = 0 then s\<lparr>fb_font_stride := fb_font_h s\<rparr> else s)
              else s\<lparr>fb_font := Some font8x16, fb_font_h := 16, fb_font_stride := 16\<rparr>);
         s = s\<lparr>fb_scale := (if gfx_w (video s) \<ge> 1024 \<or> gfx_h (video s) \<ge> 768 then 2 else 1)\<rparr>
      in fb_update_dims s)"

definition boot_console :: "(u32 \<Rightarrow> u8) \<Rightarrow> mem \<Rightarrow> bootinfo \<Rightarrow> con \<Rightarrow> con" where
  "boot_console font8x16 m bi s =
    (let s = boot_mode font8x16 m bi s;
         s = s\<lparr>fb_fg := 255, fb_bg := 0, fb_fg32 := 0x00FFFFFF, fb_bg32 := 0\<rparr>;
         s = (if gfx_bpp (video s) = 8
              then fold (\<lambda>i s. vga_set_palette (of_nat i) (of_nat i) (of_nat i) (of_nat i) s) [0..<256] s else s);
         s = vga_cls s
     in boot_pattern s)"

text \<open>What is kept of the loader's report besides the framebuffer.\<close>

definition boot_report :: "bootinfo \<Rightarrow> disp \<Rightarrow> disp" where
  "boot_report bi d =
     (let d = d\<lparr>ram_total_kb := bi_ram_total_kb bi, pm_tmr_port := bi_pm_tmr_blk bi, pm_tmr_32bit := bi_pm_tmr_32bit bi,
                acpi_pm1a := bi_pm1a_cnt bi, acpi_pm1b := bi_pm1b_cnt bi, acpi_slp_a := bi_slp_typa bi, acpi_slp_b := bi_slp_typb bi\<rparr>;
          d = (if bi_rd_base bi \<noteq> 0 \<and> bi_rd_size bi \<ge> DIR_SECTORS * 512
               then d\<lparr>drv := (drv d)\<lparr>rd_base := bi_rd_base bi, rd_sectors := bi_rd_size bi div 512\<rparr>\<rparr> else d);
          d = with_con (\<lambda>s. s\<lparr>video := (video s)\<lparr>gfx_mode_id := bi_mode bi\<rparr>\<rparr>) d
      in if bi_vbe_list bi \<noteq> 0 \<and> bi_vbe_count bi \<noteq> 0
         then d\<lparr>vbe_list := bi_vbe_list bi,
                vbe_list_count := (let n = sint (bi_vbe_count bi) in if n < 0 then 0 else if n > 128 then 128 else n)\<rparr>
         else d)"

definition bootinfo_init :: "(u32 \<Rightarrow> u8) \<Rightarrow> mem \<Rightarrow> bootinfo option \<Rightarrow> disp \<Rightarrow> disp" where
  "bootinfo_init font8x16 m boot d =
     (case boot of None \<Rightarrow> d
      | Some bi \<Rightarrow>
        if bi_magic bi \<noteq> BOOTINFO_MAGIC then d
        else
          let d = boot_report bi d in
          if \<not> fb_console_enable d then d
          else if bi_lfb bi = 0 then d
          else if bi_bpp bi \<noteq> 8 \<and> bi_bpp bi \<noteq> 32 then d
          else with_con (boot_console font8x16 m bi) d)"

subsection \<open>VBE modes\<close>

record VbeModeInfo =
  vi_attributes :: u16
  vi_pitch :: u16
  vi_xres :: u16
  vi_yres :: u16
  vi_bpp :: u8
  vi_memoryModel :: u8
  vi_physBasePtr :: u32

record vbe_mode =
  vm_mode :: u32
  vm_w :: u32
  vm_h :: u32
  vm_bpp :: u32
  vm_pitch :: u32

text \<open>
  What the BIOS answers: the controller block (its status, its signature, and the mode list its
  far pointer designates), the description of a mode, and the status of setting one.
\<close>

record bios =
  ctrl_ax :: u32
  ctrl_signature :: "u8 list"
  ctrl_modes :: "u16 list"
  mode_info :: "u16 \<Rightarrow> u32 \<times> VbeModeInfo"
  mode_set :: "u16 \<Rightarrow> u32"

definition bios_ok :: "u32 \<Rightarrow> bool" where "bios_ok ax \<longleftrightarrow> ax AND 0xFFFF = 0x004F"

fun vbe_collect_loop :: "bios \<Rightarrow> nat \<Rightarrow> u16 list \<Rightarrow> vbe_mode list \<Rightarrow> vbe_mode list" where
  "vbe_collect_loop b lim [] out = out"
| "vbe_collect_loop b lim (mode # list) out =
     (if \<not> length out < lim then out
      else if mode = 0xFFFF then out
      else
        let (ax, vi) = mode_info b mode in
        if \<not> bios_ok ax then vbe_collect_loop b lim list out
        else if vi_attributes vi AND 0x90 \<noteq> 0x90 then vbe_collect_loop b lim list out
        else if vi_bpp vi \<noteq> 8 then vbe_collect_loop b lim list out
        else if vi_memoryModel vi \<noteq> 4 then vbe_collect_loop b lim list out
        else vbe_collect_loop b lim list (out @ [\<lparr>vm_mode = ucast mode, vm_w = ucast (vi_xres vi), vm_h = ucast (vi_yres vi),
               vm_bpp = ucast (vi_bpp vi), vm_pitch = ucast (vi_pitch vi)\<rparr>]))"

definition vbe_collect_modes :: "bios \<Rightarrow> int \<Rightarrow> int \<times> vbe_mode list" where
  "vbe_collect_modes b lim =
     (if lim \<le> 0 then (0, [])
      else if \<not> bios_ok (ctrl_ax b) then (-1, [])
      else if take 4 (ctrl_signature b) \<noteq> [0x56, 0x45, 0x53, 0x41] then (-1, [])
      else let out = vbe_collect_loop b (nat lim) (ctrl_modes b) [] in (int (length out), out))"

definition vbe_set_mode :: "bios \<Rightarrow> u16 \<Rightarrow> vm \<Rightarrow> int \<times> vm" where
  "vbe_set_mode b mode s =
     (let (ax, vi) = mode_info b mode in
      if \<not> bios_ok ax then (-1, s)
      else if vi_attributes vi AND 0x90 \<noteq> 0x90 then (-1, s)
      else if vi_bpp vi \<noteq> 8 \<and> vi_bpp vi \<noteq> 32 then (-1, s)
      else if \<not> bios_ok (mode_set b (mode OR 0x4000)) then (-1, s)
      else
        let s = s\<lparr>gfx_w := ucast (vi_xres vi), gfx_h := ucast (vi_yres vi), gfx_pitch := ucast (vi_pitch vi),
                  gfx_bpp := ucast (vi_bpp vi)\<rparr>;
            s = clamp_pitch s;
            s = gfx_map_lfb (ucast (vi_physBasePtr vi)) (gfx_pitch s * gfx_h s) s
        in if gfx_lfb s = 0 then (-1, s) else (0, s))"

definition set_fb_mode :: "bios \<Rightarrow> u32 \<Rightarrow> vm \<Rightarrow> int \<times> vm" where
  "set_fb_mode b mode s =
     (let (r, s) = vbe_set_mode b (ucast mode) s in
      if r < 0 then (-1, s)
      else
        let s = s\<lparr>fb_enabled := True, gfx_mode_id := mode\<rparr>;
            s = remap_user_framebuffer s
        in (if gfx_fb_user_mapped s then 0 else -1, s))"

subsection \<open>Properties\<close>

lemma and_mask_eq_mod8: "(x :: u32) AND 0xFF = x mod 256"
proof -
  have "x AND 0xFF = take_bit 8 x" by (simp add: take_bit_eq_mask mask_eq_exp_minus_1)
  then show ?thesis by (simp add: take_bit_eq_mod)
qed

text \<open>
  The timer gets the divisor for the requested rate, clamped to 19..1000 Hz: the two bytes sent
  to the counter are the low and high byte of 1193182 / hz, which fits 16 bits.
\<close>

theorem pit_init_divisor:
  assumes "19 \<le> hz"
  shows "\<exists>lo hi. ports (pit_init hz s) = ports s @ [Out 0x43 0x36, Out 0x40 lo, Out 0x40 hi] \<and>
    unat lo + 256 * unat hi = 1193182 div min (unat hz) 1000"
proof -
  define h where "h = (if hz > 1000 then 1000 else hz)"
  define d where "d = 1193182 div h"
  have h: "unat h = min (unat hz) 1000" by (auto simp: h_def word_less_nat_alt min_def)
  have "19 \<le> unat hz" using assms by (simp add: word_le_nat_alt)
  then have h19: "19 \<le> unat h" using h by simp
  have ud: "unat d = 1193182 div unat h" by (simp add: d_def unat_div)
  have "1193182 div unat h \<le> 1193182 div 19" using h19 by (intro div_le_mono2) simp_all
  then have db: "unat d < 65536" using ud by simp
  have lo: "unat (ucast (d AND 0xFF) :: u8) = unat d mod 256"
  proof -
    have "d AND 0xFF = d mod 256" using and_mask_eq_mod8 [of d] .
    then have "unat (d AND 0xFF) = unat d mod 256" by (simp add: unat_mod)
    then show ?thesis using unat_small(2) [of "d AND 0xFF"] by simp
  qed
  have hi: "unat (ucast (drop_bit 8 d AND 0xFF) :: u8) = unat d div 256"
  proof -
    have "drop_bit 8 d AND 0xFF = drop_bit 8 d mod 256" by (rule and_mask_eq_mod8)
    moreover have "unat (drop_bit 8 d) = unat d div 256" by (simp add: drop_bit_eq_div unat_div)
    ultimately have "unat (drop_bit 8 d AND 0xFF) = unat d div 256 mod 256" by (simp add: unat_mod)
    moreover have "unat d div 256 < 256" using db by (simp add: less_mult_imp_div_less)
    ultimately show ?thesis using unat_small(2) [of "drop_bit 8 d AND 0xFF"] by simp
  qed
  have "\<not> hz < 18" using assms by (simp add: word_le_nat_alt word_less_nat_alt)
  then have "ports (pit_init hz s) = ports s @ [Out 0x43 0x36, Out 0x40 (ucast (d AND 0xFF)), Out 0x40 (ucast (drop_bit 8 d AND 0xFF))]"
    by (simp add: pit_init_def outs_def d_def h_def Let_def)
  moreover have "unat (ucast (d AND 0xFF) :: u8) + 256 * unat (ucast (drop_bit 8 d AND 0xFF) :: u8) = 1193182 div min (unat hz) 1000"
    using lo hi ud h by simp
  ultimately show ?thesis by blast
qed

theorem pit_init_divisor_witness:
  "\<exists>lo hi. ports (pit_init 100 demo_con) = [Out 0x43 0x36, Out 0x40 lo, Out 0x40 hi] \<and> unat lo + 256 * unat hi = 11931"
  using pit_init_divisor [of 100 demo_con] by (simp add: demo_con_def)

text \<open>
  At the lower clamp the divisor does not fit: for 18 Hz and below 66287 is cut to 16 bits and
  the counter gets 751, a rate of 1588 Hz.
\<close>

theorem pit_init_18_overflows:
  "ports (pit_init 18 s) = ports s @ [Out 0x43 0x36, Out 0x40 0xEF, Out 0x40 0x02]"
  by (simp add: pit_init_def outs_def drop_bit_eq_div)

lemma clamp_pitch_facts:
  "gfx_w (clamp_pitch v) = gfx_w v" "gfx_h (clamp_pitch v) = gfx_h v" "gfx_bpp (clamp_pitch v) = gfx_bpp v"
  "gfx_lfb (clamp_pitch v) = gfx_lfb v" "fb_enabled (clamp_pitch v) = fb_enabled v"
  "gfx_bpp v = 8 \<Longrightarrow> gfx_w v \<le> gfx_pitch (clamp_pitch v)" "gfx_bpp v = 32 \<Longrightarrow> gfx_w v * 4 \<le> gfx_pitch (clamp_pitch v)"
  by (auto simp: clamp_pitch_def Let_def not_less)

text \<open>The grid fits the screen when the screen holds at least one cell.\<close>

lemma fb_update_dims_fit:
  assumes "fb_font_h s \<noteq> 0" "fb_scale s = 1 \<or> fb_scale s = 2" "unat (fb_font_h s) < 65536"
    and "8 * unat (fb_scale s) \<le> unat (gfx_w (video s))" "unat (fb_font_h s) * unat (fb_scale s) \<le> unat (gfx_h (video s))"
  shows "fb_update_dims s = s\<lparr>fb_cols := fb_cols (fb_update_dims s), fb_rows := fb_rows (fb_update_dims s)\<rparr>"
    and "unat (fb_cols (fb_update_dims s)) = unat (gfx_w (video s)) div (8 * unat (fb_scale s))"
    and "unat (fb_rows (fb_update_dims s)) = unat (gfx_h (video s)) div (unat (fb_font_h s) * unat (fb_scale s))"
proof -
  have k: "unat (8 * fb_scale s) = 8 * unat (fb_scale s)" using assms(2) by auto
  have f: "unat (fb_font_h s * fb_scale s) = unat (fb_font_h s) * unat (fb_scale s)"
    using assms(2,3) by (auto simp: unat_word_ariths)
  define c where "c = gfx_w (video s) div (8 * fb_scale s)"
  define r where "r = gfx_h (video s) div (fb_font_h s * fb_scale s)"
  have uc: "unat c = unat (gfx_w (video s)) div (8 * unat (fb_scale s))" by (simp add: c_def unat_div k)
  have ur: "unat r = unat (gfx_h (video s)) div (unat (fb_font_h s) * unat (fb_scale s))" by (simp add: r_def unat_div f)
  have fp: "0 < unat (fb_font_h s) * unat (fb_scale s)" using assms(1,2) by (auto simp: unat_gt_0)
  have "0 < unat c" "0 < unat r" unfolding uc ur using assms(2,4,5) fp by (auto simp: div_greater_zero_iff)
  then have "c \<noteq> 0" "r \<noteq> 0" by auto
  then have d: "fb_update_dims s = s\<lparr>fb_cols := c, fb_rows := r\<rparr>"
    using assms(1) by (simp add: fb_update_dims_def Let_def c_def r_def)
  show "fb_update_dims s = s\<lparr>fb_cols := fb_cols (fb_update_dims s), fb_rows := fb_rows (fb_update_dims s)\<rparr>" by (simp add: d)
  show "unat (fb_cols (fb_update_dims s)) = unat (gfx_w (video s)) div (8 * unat (fb_scale s))" by (simp add: d uc)
  show "unat (fb_rows (fb_update_dims s)) = unat (gfx_h (video s)) div (unat (fb_font_h s) * unat (fb_scale s))" by (simp add: d ur)
qed

text \<open>The height of the glyphs of the font the loader passes.\<close>

definition boot_font_h :: "bootinfo \<Rightarrow> nat" where
  "boot_font_h bi = (if bi_font bi \<noteq> 0 \<and> bi_font_h bi AND 0xFFFF \<noteq> 0 then unat (bi_font_h bi AND 0xFFFF) else 16)"

definition boot_scale :: "bootinfo \<Rightarrow> nat" where
  "boot_scale bi = (if bi_width bi \<ge> 1024 \<or> bi_height bi \<ge> 768 then 2 else 1)"

lemma boot_mode_geom:
  assumes bpp: "bi_bpp bi = 8 \<or> bi_bpp bi = 32" and lfb: "bi_lfb_high bi = 0"
    and w: "8 * boot_scale bi \<le> unat (bi_width bi)" "unat (bi_width bi) < 65536"
    and h: "boot_font_h bi * boot_scale bi \<le> unat (bi_height bi)"
    and fits: "unat (bi_lfb bi) + 8 * unat (bi_width bi) * unat (bi_height bi) \<le> 4294967296"
    and s': "s' = boot_mode font8x16 m bi s"
  shows "fb_ok s'" "unat (fb_cols s') = unat (bi_width bi) div (8 * boot_scale bi)"
    and "unat (fb_rows s') = unat (bi_height bi) div (boot_font_h bi * boot_scale bi)"
    and "gfx_lfb (video s') = bi_lfb bi" "fb_enabled (video s')" "gfx_bpp (video s') = bi_bpp bi" "gfx_w (video s') = bi_width bi"
    and "hist_count s' = hist_count s" "hist_next s' = hist_next s" "view_off s' = view_off s"
proof -
  define v0 where "v0 = (video s)\<lparr>fb_enabled := True, gfx_w := bi_width bi, gfx_h := bi_height bi,
              gfx_pitch := bi_pitch bi, gfx_bpp := bi_bpp bi,
              gfx_lfb_phys := push_bit 32 (ucast (bi_lfb_high bi)) OR ucast (bi_lfb bi), gfx_lfb := bi_lfb bi\<rparr>"
  define t where "t = (let s = s\<lparr>video := clamp_pitch v0, fb_bytes := bi_bpp bi div 8\<rparr>;
         s = (if bi_font bi \<noteq> 0
              then
                let fh = bi_font_h bi;
                    s = s\<lparr>fb_font := Some (\<lambda>i. m (bi_font bi + i)),
                          fb_font_h := (if fh AND 0xFFFF \<noteq> 0 then fh AND 0xFFFF else 16),
                          fb_font_stride := drop_bit 16 fh\<rparr>
                in (if fb_font_stride s = 0 then s\<lparr>fb_font_stride := fb_font_h s\<rparr> else s)
              else s\<lparr>fb_font := Some font8x16, fb_font_h := 16, fb_font_stride := 16\<rparr>)
         in s\<lparr>fb_scale := (if gfx_w (video s) \<ge> 1024 \<or> gfx_h (video s) \<ge> 768 then 2 else 1)\<rparr>)"
  have t': "s' = fb_update_dims t" unfolding s' boot_mode_def t_def v0_def using lfb by (simp add: Let_def)
  have v0: "gfx_w v0 = bi_width bi" "gfx_h v0 = bi_height bi" "gfx_bpp v0 = bi_bpp bi" "gfx_lfb v0 = bi_lfb bi" "fb_enabled v0"
    by (simp_all add: v0_def)
  note C = clamp_pitch_facts [of v0, unfolded v0]
  have tf: "video t = clamp_pitch v0" "fb_bytes t = bi_bpp bi div 8" "unat (fb_font_h t) = boot_font_h bi"
    "unat (fb_scale t) = boot_scale bi" "hist_count t = hist_count s" "hist_next t = hist_next s" "view_off t = view_off s"
    by (simp_all add: t_def Let_def boot_font_h_def boot_scale_def C)
  have fh: "0 < boot_font_h bi" "boot_font_h bi < 65536"
  proof -
    have "bi_font_h bi AND 0xFFFF = bi_font_h bi mod 65536"
      using take_bit_eq_mask [of 16 "bi_font_h bi"] by (simp add: mask_eq_exp_minus_1 take_bit_eq_mod)
    then have "unat (bi_font_h bi AND 0xFFFF) < 65536" by (simp add: unat_mod)
    then show "boot_font_h bi < 65536" "0 < boot_font_h bi" by (auto simp: boot_font_h_def unat_gt_0)
  qed
  have sc: "fb_scale t = 1 \<or> fb_scale t = 2" by (simp add: t_def Let_def)
  have fne: "fb_font_h t \<noteq> 0" using tf(3) fh(1) by auto
  have A: "unat (fb_font_h t) < 65536" "8 * unat (fb_scale t) \<le> unat (gfx_w (video t))"
    "unat (fb_font_h t) * unat (fb_scale t) \<le> unat (gfx_h (video t))"
    using tf fh w h C by simp_all
  note U = fb_update_dims_fit [OF fne sc A, folded t']
  show cols: "unat (fb_cols s') = unat (bi_width bi) div (8 * boot_scale bi)"
    and rows: "unat (fb_rows s') = unat (bi_height bi) div (boot_font_h bi * boot_scale bi)"
    using U(2,3) tf C by simp_all
  obtain a b where s't: "s' = t\<lparr>fb_cols := a, fb_rows := b\<rparr>" using U(1) by blast
  have same: "video s' = clamp_pitch v0" "fb_bytes s' = bi_bpp bi div 8" "unat (fb_scale s') = boot_scale bi"
    "unat (fb_font_h s') = boot_font_h bi" "hist_count s' = hist_count s" "hist_next s' = hist_next s" "view_off s' = view_off s"
    using tf by (simp_all add: s't)
  then show "gfx_lfb (video s') = bi_lfb bi" "fb_enabled (video s')" "gfx_bpp (video s') = bi_bpp bi" "gfx_w (video s') = bi_width bi"
    "hist_count s' = hist_count s" "hist_next s' = hist_next s" "view_off s' = view_off s" using C v0(5) by simp_all
  have pitch: "unat (bi_width bi) * unat (fb_bytes s') \<le> unat (gfx_pitch (clamp_pitch v0)) \<and>
      unat (gfx_pitch (clamp_pitch v0)) \<le> 8 * unat (bi_width bi)"
  proof -
    have m: "unat (bi_width bi * 4) = 4 * unat (bi_width bi)" "unat (bi_width bi * 2) = 2 * unat (bi_width bi)"
      "unat (bi_width bi * 4 * 2) = 8 * unat (bi_width bi)" "unat (bi_width bi * 8) = 8 * unat (bi_width bi)"
      using w(2) by (simp_all add: unat_word_ariths)
    from bpp show ?thesis
    proof
      assume "bi_bpp bi = 8"
      then show ?thesis using m unfolding clamp_pitch_def v0 same
        by (auto simp: word_less_nat_alt v0 not_less)
    next
      assume "bi_bpp bi = 32"
      then show ?thesis using m unfolding clamp_pitch_def v0 same
        by (auto simp: word_less_nat_alt v0 not_less Let_def)
    qed
  qed
  have "unat (gfx_pitch (clamp_pitch v0)) * unat (bi_height bi) \<le> 8 * unat (bi_width bi) * unat (bi_height bi)"
    using pitch by (intro mult_le_mono1) simp
  then have "unat (bi_lfb bi) + unat (gfx_pitch (clamp_pitch v0)) * unat (bi_height bi) \<le> 4294967296" using fits by linarith
  moreover have "fb_bytes s' = 1 \<or> fb_bytes s' = 4" using bpp same(2) by auto
  ultimately show "fb_ok s'" using pitch same C cols rows unfolding fb_ok_def by simp
qed

lemma palette_ports: "\<exists>p. fold (\<lambda>i s. vga_set_palette (f i) (g i) (h i) (k i) s) xs s = s\<lparr>ports := p\<rparr>"
proof (induction xs arbitrary: s)
  case Nil
  show ?case by (rule exI [of _ "ports s"]) simp
next
  case (Cons x xs)
  obtain p where "fold (\<lambda>i s. vga_set_palette (f i) (g i) (h i) (k i) s) xs (vga_set_palette (f x) (g x) (h x) (k x) s) =
      (vga_set_palette (f x) (g x) (h x) (k x) s)\<lparr>ports := p\<rparr>" using Cons by blast
  then show ?case by (auto simp: vga_set_palette_def outs_def)
qed

text \<open>
  The hand-over from the loader gives a console in working order: with a framebuffer below 4 GB
  that holds at least one character cell (and no more than 255 by 255), the console state satisfies
  its invariant, the grid fits the screen, all cells are blank and the cursor is home; so the
  output theorems above apply from the first character on.
\<close>

theorem bootinfo_init_console:
  assumes magic: "bi_magic bi = BOOTINFO_MAGIC" and on: "fb_console_enable d" "bi_lfb bi \<noteq> 0"
    and bpp: "bi_bpp bi = 8 \<or> bi_bpp bi = 32" and lfb: "bi_lfb_high bi = 0"
    and w: "8 * boot_scale bi \<le> unat (bi_width bi)" "unat (bi_width bi) < 65536" "unat (bi_width bi) div (8 * boot_scale bi) < 256"
    and h: "boot_font_h bi * boot_scale bi \<le> unat (bi_height bi)" "unat (bi_height bi) div (boot_font_h bi * boot_scale bi) < 256"
    and fits: "unat (bi_lfb bi) + 8 * unat (bi_width bi) * unat (bi_height bi) \<le> 4294967296"
    and hist: "hist_count (con d) \<le> HIST_ROWS" "hist_next (con d) < HIST_ROWS"
    and s': "s' = con (bootinfo_init font8x16 m (Some bi) d)"
  shows "con_ok s' \<and> fb_ok s' \<and> cur_x s' = 0 \<and> cur_y s' = 0 \<and> (\<forall>i < FB_CELL_ROWS * FB_CELL_COLS. fb_cells s' i = 0x20)"
proof -
  obtain s where s0: "s' = boot_console font8x16 m bi s" and hs: "hist_count s = hist_count (con d)" "hist_next s = hist_next (con d)"
  proof -
    have e: "fb_console_enable (boot_report bi d) = fb_console_enable d"
      by (simp add: boot_report_def Let_def with_con_def)
    have hs: "hist_count (con (boot_report bi d)) = hist_count (con d)" "hist_next (con (boot_report bi d)) = hist_next (con d)"
      by (simp_all add: boot_report_def Let_def with_con_def)
    have "s' = boot_console font8x16 m bi (con (boot_report bi d))"
      using magic on bpp unfolding s' bootinfo_init_def by (auto simp: Let_def with_con_def e)
    then show ?thesis using that hs by blast
  qed
  define a where "a = boot_mode font8x16 m bi s"
  note G = boot_mode_geom [OF bpp lfb w(1,2) h(1) fits a_def]
  define b where "b = a\<lparr>fb_fg := 255, fb_bg := 0, fb_fg32 := 0x00FFFFFF, fb_bg32 := 0\<rparr>"
  define c where "c = (if gfx_bpp (video b) = 8
              then fold (\<lambda>i s. vga_set_palette (of_nat i) (of_nat i) (of_nat i) (of_nat i) s) [0..<256] b else b)"
  have "\<exists>p. c = b\<lparr>ports := p\<rparr>"
  proof (cases "gfx_bpp (video b) = 8")
    case False
    then have "c = b\<lparr>ports := ports b\<rparr>" by (simp add: c_def)
    then show ?thesis by blast
  qed (simp add: c_def palette_ports)
  then obtain p where c: "c = b\<lparr>ports := p\<rparr>" by blast
  have gc: "geom c = geom a" and hc: "hist_count c = hist_count a" "hist_next c = hist_next a"
    by (simp_all add: c b_def geom_def)
  define e where "e = vga_cls c"
  have vc: "video c = video a" using gc by (simp add: geom_def)
  have fbc: "fb_enabled (video c)" "gfx_lfb (video c) \<noteq> 0" using G(4,5) on(2) vc by simp_all
  have ef: "geom e = geom a" "cur_x e = 0" "cur_y e = 0" "view_off e = 0" "hist_count e = hist_count a" "hist_next e = hist_next a"
    "fb_cells e = (\<lambda>i. if i < FB_CELL_ROWS * FB_CELL_COLS then 0x20 else fb_cells c i)"
    using fbc gc hc unfolding e_def vga_cls_def Let_def by (simp_all add: geom_def)
  have s'e: "s' = boot_pattern e" unfolding s0 boot_console_def Let_def a_def [symmetric] b_def [symmetric] c_def [symmetric] e_def ..
  have pf: "geom s' = geom e" "cur_x s' = cur_x e" "cur_y s' = cur_y e" "view_off s' = view_off e" "hist_count s' = hist_count e"
    "hist_next s' = hist_next e" "fb_cells s' = fb_cells e"
    unfolding s'e boot_pattern_def Let_def by (simp_all add: geom_def)
  have ga: "geom s' = geom a" using pf(1) ef(1) by simp
  then have va: "video s' = video a" "fb_cols s' = fb_cols a" "fb_rows s' = fb_rows a" by (simp_all add: geom_def)
  have cols: "0 < unat (fb_cols a)" unfolding G(2) using w(1) by (simp add: div_greater_zero_iff boot_scale_def)
  have rows: "0 < unat (fb_rows a)" unfolding G(3) using h(1)
    by (simp add: div_greater_zero_iff boot_scale_def boot_font_h_def unat_gt_0)
  have "con_ok s'"
    unfolding con_ok_def con_wf_def va pf ef
    using G(2-5,8,9) hist hs cols rows w(3) h(2) on(2) by (simp add: word_less_nat_alt)
  moreover have "fb_ok s'" using geom_ok [OF ga] G(1) by simp
  ultimately show ?thesis by (simp add: pf ef)
qed

definition demo_bootinfo :: bootinfo where
  "demo_bootinfo = \<lparr>bi_magic = BOOTINFO_MAGIC, bi_lfb = 0xC0000000, bi_width = 1280, bi_height = 800, bi_pitch = 5120, bi_bpp = 32,
     bi_font = 0, bi_font_h = 0, bi_mode = 0, bi_vbe_list = 0, bi_vbe_count = 0, bi_rd_base = 0x1000000, bi_rd_size = 0x400000,
     bi_lfb_high = 0, bi_pm1a_cnt = 0x404, bi_pm1b_cnt = 0, bi_slp_typa = 5, bi_slp_typb = 0, bi_pm_tmr_blk = 0x408,
     bi_pm_tmr_32bit = 1, bi_ram_total_kb = 0x400000\<rparr>"

definition demo_disp :: disp where
  "demo_disp = \<lparr>con = demo_con, vga_font = [], vga_font_saved = False, drv = demo_disk, acpi_pm1a = 0, acpi_pm1b = 0, acpi_slp_a = 0,
     acpi_slp_b = 0, ram_total_kb = 0, pm_tmr_port = 0, pm_tmr_32bit = 0, vbe_list = 0, vbe_list_count = 0, fb_console_enable = True\<rparr>"

theorem bootinfo_init_console_witness:
  "con_ok (con (bootinfo_init (\<lambda>_. 0) (\<lambda>_. 0) (Some demo_bootinfo) demo_disp))"
proof -
  have h: "boot_font_h demo_bootinfo = 16" "boot_scale demo_bootinfo = 2"
    by (simp_all add: boot_font_h_def boot_scale_def demo_bootinfo_def)
  show ?thesis
    by (rule conjunct1 [OF bootinfo_init_console [of demo_bootinfo demo_disp, OF _ _ _ _ _ _ _ _ _ _ _ _ _ refl]])
      (simp_all add: h, simp_all add: demo_bootinfo_def demo_disp_def demo_con_def HIST_ROWS_def)
qed

definition usable_mode :: "bios \<Rightarrow> u16 \<Rightarrow> bool" where
  "usable_mode b mode \<longleftrightarrow> (let (ax, vi) = mode_info b mode in
     bios_ok ax \<and> vi_attributes vi AND 0x90 = 0x90 \<and> vi_bpp vi = 8 \<and> vi_memoryModel vi = 4)"

definition mode_entry :: "bios \<Rightarrow> u16 \<Rightarrow> vbe_mode" where
  "mode_entry b mode = (let vi = snd (mode_info b mode) in
     \<lparr>vm_mode = ucast mode, vm_w = ucast (vi_xres vi), vm_h = ucast (vi_yres vi), vm_bpp = ucast (vi_bpp vi), vm_pitch = ucast (vi_pitch vi)\<rparr>)"

lemma vbe_collect_loop_eq:
  "length out \<le> n \<Longrightarrow> vbe_collect_loop b n modes out =
     out @ map (mode_entry b) (take (n - length out) (filter (usable_mode b) (takeWhile (\<lambda>m. m \<noteq> 0xFFFF) modes)))"
proof (induction b n modes out rule: vbe_collect_loop.induct)
  case (2 b n mode modes out)
  obtain ax vi where mi: "mode_info b mode = (ax, vi)" by fastforce
  show ?case
  proof (cases "length out < n")
    case True
    then obtain k where k: "n - length out = Suc k" by (metis Suc_diff_Suc)
    then have k2: "n - Suc (length out) = k" by simp
    show ?thesis using 2 True k k2 by (auto simp: usable_mode_def mode_entry_def mi Let_def)
  qed (use 2 in simp)
qed simp

text \<open>
  Collecting VBE modes: at most the requested number, each one listed by the BIOS before the end
  marker, reported with a linear framebuffer, 8 bits per pixel and packed pixels, in list order.
\<close>

theorem vbe_collect_modes_spec:
  "vbe_collect_modes b lim =
     (if lim \<le> 0 then (0, [])
      else if bios_ok (ctrl_ax b) \<and> take 4 (ctrl_signature b) = [0x56, 0x45, 0x53, 0x41]
      then let out = map (mode_entry b) (take (nat lim) (filter (usable_mode b) (takeWhile (\<lambda>m. m \<noteq> 0xFFFF) (ctrl_modes b))))
           in (int (length out), out)
      else (-1, []))"
  by (simp add: vbe_collect_modes_def vbe_collect_loop_eq)

end
