(* ===== verification/Keyboard.thy ===== *)
theory Keyboard
  imports Console
begin

text \<open>
  The keyboard of kernel/kernel.c: scancode translation with its modifier state, the ring buffer
  of key codes between the interrupt handler and its readers, the blocking and non-blocking
  readers, and \<open>readline\<close>. The ring is a bounded queue: the locale \<open>bounded_fifo\<close> states what its
  users rely on, and is interpreted on \<open>kbd_push\<close> and \<open>kbd_pop\<close>.
\<close>

subsection \<open>Tables and state\<close>

definition pad128 :: "u8 list \<Rightarrow> u8 list" where "pad128 xs = xs @ replicate (128 - length xs) 0"

definition keymap :: "u8 list" where
  "keymap = pad128
    [0, 27, 49, 50, 51, 52, 53, 54, 55, 56, 57, 48, 45, 61, 8, 9,
     113, 119, 101, 114, 116, 121, 117, 105, 111, 112, 91, 93, 10, 0, 97, 115,
     100, 102, 103, 104, 106, 107, 108, 59, 39, 96, 0, 92, 122, 120, 99, 118,
     98, 110, 109, 44, 46, 47, 0, 42, 0, 32, 0, 0, 0, 0, 0, 0,
     0, 0, 0, 0, 0, 0, 0, 0, 0, 0, 0, 0, 0, 0, 0, 55,
     56, 57, 45, 52, 53, 54, 43, 49, 50, 51, 48, 46, 0, 0, 0, 0]"

definition keymap_shift :: "u8 list" where
  "keymap_shift = pad128
    [0, 27, 33, 64, 35, 36, 37, 94, 38, 42, 40, 41, 95, 43, 8, 9,
     81, 87, 69, 82, 84, 89, 85, 73, 79, 80, 123, 125, 10, 0, 65, 83,
     68, 70, 71, 72, 74, 75, 76, 58, 34, 126, 0, 124, 90, 88, 67, 86,
     66, 78, 77, 60, 62, 63, 0, 42, 0, 32, 0, 0, 0, 0, 0, 0,
     0, 0, 0, 0, 0, 0, 0, 0, 0, 0, 0, 0, 0, 0, 0, 55,
     56, 57, 45, 52, 53, 54, 43, 49, 50, 51, 48, 46, 0, 0, 0, 0]"

definition KEY_UP :: u16 where "KEY_UP = 0x100"
definition KEY_DOWN :: u16 where "KEY_DOWN = 0x101"
definition KEY_LEFT :: u16 where "KEY_LEFT = 0x102"
definition KEY_RIGHT :: u16 where "KEY_RIGHT = 0x103"
definition KEY_DEL :: u16 where "KEY_DEL = 0x104"
definition KBD_BUF_SIZE :: nat where "KBD_BUF_SIZE = 64"

lemmas key_defs = KEY_UP_def KEY_DOWN_def KEY_LEFT_def KEY_RIGHT_def KEY_DEL_def

record keyboard =
  kcon :: con
  kbd_buf :: "u16 list"
  kbd_head :: nat
  kbd_tail :: nat
  kbd_shift :: bool
  kbd_ctrl :: bool
  kbd_ext :: bool
  key_down :: "nat \<Rightarrow> bool"
  ext_key_down :: "nat \<Rightarrow> bool"
  kill_program :: bool
  exit_requested :: bool

subsection \<open>The ring\<close>

definition kbd_push :: "u16 \<Rightarrow> keyboard \<Rightarrow> keyboard" where
  "kbd_push v s =
     (let nxt = (kbd_head s + 1) mod KBD_BUF_SIZE in
      if nxt = kbd_tail s then s
      else s\<lparr>kbd_buf := (kbd_buf s)[kbd_head s := v], kbd_head := nxt\<rparr>)"

definition kbd_pop :: "keyboard \<Rightarrow> u16 \<times> keyboard" where
  "kbd_pop s =
     (if kbd_head s = kbd_tail s then (0, s)
      else (kbd_buf s ! kbd_tail s, s\<lparr>kbd_tail := (kbd_tail s + 1) mod KBD_BUF_SIZE\<rparr>))"

subsection \<open>Scancodes\<close>

text \<open>The extended keys; page up and down move the console's view when shift is held.\<close>

definition kbd_extended :: "u8 \<Rightarrow> keyboard \<Rightarrow> keyboard" where
  "kbd_extended sc s =
     (let page = sint (fb_rows (kcon s)) - 2 in
      if sc = 0x48 then kbd_push KEY_UP s
      else if sc = 0x50 then kbd_push KEY_DOWN s
      else if sc = 0x4B then kbd_push KEY_LEFT s
      else if sc = 0x4D then kbd_push KEY_RIGHT s
      else if sc = 0x53 then kbd_push KEY_DEL s
      else if sc = 0x49 then (if kbd_shift s then s\<lparr>kcon := console_view page (kcon s)\<rparr> else s)
      else if sc = 0x51 then (if kbd_shift s then s\<lparr>kcon := console_view (- page) (kcon s)\<rparr> else s)
      else s)"

text \<open>The character of a key, with control folded in.\<close>

definition kbd_char :: "u8 \<Rightarrow> keyboard \<Rightarrow> u8" where
  "kbd_char sc s =
     (let c = (if kbd_shift s then keymap_shift ! unat sc else keymap ! unat sc) in
      if kbd_ctrl s \<and> 0x41 \<le> c \<and> c \<le> 0x5A then c - 0x41 + 1
      else if kbd_ctrl s \<and> 0x61 \<le> c \<and> c \<le> 0x7A then c - 0x61 + 1
      else c)"

definition kbd_handle_scancode :: "u8 \<Rightarrow> keyboard \<Rightarrow> bool \<times> keyboard" where
  "kbd_handle_scancode sc s =
     (if sc = 0xE0 then (False, s\<lparr>kbd_ext := True\<rparr>)
      else if sc = 0x2A \<or> sc = 0x36 then (False, s\<lparr>kbd_shift := True, kbd_ext := False\<rparr>)
      else if sc = 0xAA \<or> sc = 0xB6 then (False, s\<lparr>kbd_shift := False, kbd_ext := False\<rparr>)
      else if sc = 0x1D then (False, s\<lparr>kbd_ctrl := True, kbd_ext := False\<rparr>)
      else if sc = 0x9D then (False, s\<lparr>kbd_ctrl := False, kbd_ext := False\<rparr>)
      else if sc AND 0x80 \<noteq> 0
      then
        let base = unat (sc AND 0x7F) in
        (False, if kbd_ext s then s\<lparr>ext_key_down := (ext_key_down s)(base := False), kbd_ext := False\<rparr>
                else s\<lparr>key_down := (key_down s)(base := False)\<rparr>)
      else if kbd_ext s
      then (False, kbd_extended sc (s\<lparr>ext_key_down := (ext_key_down s)(unat sc := True), kbd_ext := False\<rparr>))
      else
        let s = s\<lparr>key_down := (key_down s)(unat sc := True)\<rparr>;
            c = kbd_char sc s
        in if kbd_ctrl s \<and> c = 3 then (True, s\<lparr>kill_program := True\<rparr>)
           else (False, if c \<noteq> 0 then kbd_push (ucast c) s else s))"

subsection \<open>Readers\<close>

text \<open>1: a code was consumed, -1: it was the kill combination, 0: nothing to read.\<close>

definition kbd_drain_port :: "port_dev \<Rightarrow> keyboard \<Rightarrow> int \<times> keyboard" where
  "kbd_drain_port dev s =
     (let (st, c) = inb dev 0x64 (kcon s); s = s\<lparr>kcon := c\<rparr> in
      if st AND 1 \<noteq> 0
      then
        let (sc, c) = inb dev 0x60 (kcon s);
            (kill, s) = kbd_handle_scancode sc (s\<lparr>kcon := c\<rparr>)
        in (if kill then -1 else 1, s)
      else (0, s))"

text \<open>
  The keyboard's part of the interrupt handler for IRQ 1, when the kernel itself was interrupted.
\<close>

definition kbd_irq :: "port_dev \<Rightarrow> keyboard \<Rightarrow> keyboard" where
  "kbd_irq dev s = (let (r, s) = kbd_drain_port dev s in if r < 0 then s\<lparr>exit_requested := True\<rparr> else s)"

text \<open>
  The blocking reader. It halts when there is nothing to read; \<open>wakes\<close> says, for each halt, how
  many keyboard interrupts are served before it goes on. \<open>None\<close>: it is still waiting when the
  interrupts of \<open>wakes\<close> are used up, or goes on reading codes that give no key for ever.
\<close>

partial_function (option) kbd_getkey :: "port_dev \<Rightarrow> nat list \<Rightarrow> keyboard \<Rightarrow> (u16 \<times> nat list \<times> keyboard) option" where
  "kbd_getkey dev wakes s =
     (let (k, s) = kbd_pop s in
      if k \<noteq> 0 then Some (k, wakes, s)
      else
        let (r, s) = kbd_drain_port dev s in
        if r < 0 then Some (0, wakes, s\<lparr>exit_requested := True\<rparr>)
        else if r > 0 then kbd_getkey dev wakes s
        else case wakes of [] \<Rightarrow> None
             | n # wakes \<Rightarrow> kbd_getkey dev wakes ((kbd_irq dev ^^ n) s))"

definition kbd_getkey_nb :: "port_dev \<Rightarrow> keyboard \<Rightarrow> u16 \<times> keyboard" where
  "kbd_getkey_nb dev s =
     (let (k, s) = kbd_pop s in
      if k \<noteq> 0 then (k, s)
      else
        let (r, s) = kbd_drain_port dev s in
        if r < 0 then (0, s\<lparr>exit_requested := True\<rparr>)
        else if r > 0 then kbd_pop s
        else (0, s))"

text \<open>\<open>readline\<close>: the characters read so far are \<open>line\<close>; the result has its terminating zero.\<close>

definition kputc :: "u8 \<Rightarrow> keyboard \<Rightarrow> keyboard" where "kputc c s = s\<lparr>kcon := vga_putc c (kcon s)\<rparr>"

partial_function (option) readline_loop ::
  "port_dev \<Rightarrow> nat \<Rightarrow> u8 list \<Rightarrow> nat list \<Rightarrow> keyboard \<Rightarrow> (u8 list \<times> nat list \<times> keyboard) option" where
  "readline_loop dev lim line wakes s =
     (if \<not> length line + 1 < lim then Some (line @ [0], wakes, s)
      else Option.bind (kbd_getkey dev wakes s) (\<lambda>(k, wakes, s).
        let c = (if k < 256 then ucast k else 0 :: u8) in
        if c = 0 then readline_loop dev lim line wakes s
        else if c = 10 then Some (line @ [0], wakes, kputc 10 s)
        else if c = 8
        then (if line \<noteq> [] then readline_loop dev lim (butlast line) wakes (kputc 8 (kputc 0x20 (kputc 8 s)))
              else readline_loop dev lim line wakes s)
        else readline_loop dev lim (line @ [c]) wakes (kputc c s)))"

definition readline :: "port_dev \<Rightarrow> nat \<Rightarrow> nat list \<Rightarrow> keyboard \<Rightarrow> (u8 list \<times> nat list \<times> keyboard) option" where
  "readline dev lim wakes s = readline_loop dev lim [] wakes s"

subsection \<open>A bounded queue\<close>

locale bounded_fifo =
  fixes push :: "'a \<Rightarrow> 's \<Rightarrow> 's"
    and pop :: "'s \<Rightarrow> 'a \<times> 's"
    and items :: "'s \<Rightarrow> 'a list"
    and inv :: "'s \<Rightarrow> bool"
    and cap :: nat
    and none :: 'a
  assumes push_inv: "inv s \<Longrightarrow> inv (push v s)"
    and push_items: "inv s \<Longrightarrow> items (push v s) = (if length (items s) < cap then items s @ [v] else items s)"
    and pop_inv: "inv s \<Longrightarrow> inv (snd (pop s))"
    and pop_empty: "inv s \<Longrightarrow> items s = [] \<Longrightarrow> pop s = (none, s)"
    and pop_items: "inv s \<Longrightarrow> items s = x # xs \<Longrightarrow> fst (pop s) = x \<and> items (snd (pop s)) = xs"
begin

primrec pops :: "nat \<Rightarrow> 's \<Rightarrow> 'a list" where
  "pops 0 s = []"
| "pops (Suc n) s = fst (pop s) # pops n (snd (pop s))"

lemma fold_push_inv: "inv s \<Longrightarrow> inv (fold push vs s)"
  by (induction vs arbitrary: s) (auto intro: push_inv)

lemma fold_push_items:
  "inv s \<Longrightarrow> items (fold push vs s) = items s @ take (cap - length (items s)) vs"
proof (induction vs arbitrary: s)
  case (Cons v vs)
  then show ?case using Cons.IH [OF push_inv [OF Cons.prems]] push_items [OF Cons.prems]
    by (auto simp: take_Cons')
qed simp

lemma pops_items: "inv s \<Longrightarrow> pops n s = take n (items s) @ replicate (n - length (items s)) none"
proof (induction n arbitrary: s)
  case (Suc n)
  show ?case
  proof (cases "items s")
    case Nil
    then show ?thesis using Suc pop_empty [OF Suc.prems] by simp
  next
    case (Cons x xs)
    then show ?thesis using Suc.IH [OF pop_inv [OF Suc.prems]] pop_items [OF Suc.prems Cons] by simp
  qed
qed simp

text \<open>What was pushed comes out in order, as far as there was room.\<close>

lemma fifo:
  "inv s \<Longrightarrow> pops n (fold push vs s) =
     take n (items s @ take (cap - length (items s)) vs) @ replicate (n - length (items s @ take (cap - length (items s)) vs)) none"
  by (simp add: pops_items fold_push_inv fold_push_items)

end

subsection \<open>The ring is such a queue\<close>

definition kbd_len :: "keyboard \<Rightarrow> nat" where
  "kbd_len s = (kbd_head s + KBD_BUF_SIZE - kbd_tail s) mod KBD_BUF_SIZE"

definition kbd_items :: "keyboard \<Rightarrow> u16 list" where
  "kbd_items s = map (\<lambda>i. kbd_buf s ! ((kbd_tail s + i) mod KBD_BUF_SIZE)) [0..<kbd_len s]"

definition kbd_wf :: "keyboard \<Rightarrow> bool" where
  "kbd_wf s \<longleftrightarrow> length (kbd_buf s) = KBD_BUF_SIZE \<and> kbd_head s < KBD_BUF_SIZE \<and> kbd_tail s < KBD_BUF_SIZE"

lemma mod_64: "x < 128 \<Longrightarrow> x mod 64 = (if x < 64 then x else x - (64 :: nat))"
  by (simp add: le_mod_geq)

lemma kbd_len_eq:
  assumes "kbd_wf s"
  shows "kbd_len s = (if kbd_tail s \<le> kbd_head s then kbd_head s - kbd_tail s else kbd_head s + 64 - kbd_tail s)"
  using assms by (auto simp: kbd_len_def kbd_wf_def KBD_BUF_SIZE_def mod_64)

lemma kbd_push_items:
  assumes wf: "kbd_wf s"
  shows "kbd_items (kbd_push v s) = (if length (kbd_items s) < 63 then kbd_items s @ [v] else kbd_items s)"
proof -
  let ?h = "kbd_head s" and ?t = "kbd_tail s"
  have b: "?h < 64" "?t < 64" "length (kbd_buf s) = 64" using wf by (simp_all add: kbd_wf_def KBD_BUF_SIZE_def)
  have nxt: "(?h + 1) mod 64 = (if ?h = 63 then 0 else ?h + 1)" using b(1) by (simp add: mod_64)
  have full: "(?h + 1) mod 64 = ?t \<longleftrightarrow> kbd_len s = 63" unfolding kbd_len_eq [OF wf] nxt using b by auto
  have le: "kbd_len s \<le> 63" unfolding kbd_len_eq [OF wf] using b by auto
  show ?thesis
  proof (cases "(?h + 1) mod 64 = ?t")
    case True
    then show ?thesis using full by (simp add: kbd_push_def KBD_BUF_SIZE_def kbd_items_def)
  next
    case False
    define s' where "s' = s\<lparr>kbd_buf := (kbd_buf s)[?h := v], kbd_head := (?h + 1) mod 64\<rparr>"
    have s': "kbd_push v s = s'" using False by (simp add: kbd_push_def KBD_BUF_SIZE_def s'_def)
    have wf': "kbd_wf s'" using b by (simp add: kbd_wf_def KBD_BUF_SIZE_def s'_def)
    have len: "kbd_len s' = kbd_len s + 1"
      unfolding kbd_len_eq [OF wf] kbd_len_eq [OF wf'] using b False nxt by (auto simp: s'_def split: if_splits)
    have old: "(?t + i) mod 64 \<noteq> ?h" if "i < kbd_len s" for i
      using that b unfolding kbd_len_eq [OF wf] by (auto simp: mod_64 split: if_splits)
    have here: "(?t + kbd_len s) mod 64 = ?h" using b unfolding kbd_len_eq [OF wf] by (auto simp: mod_64)
    have "kbd_items s' = map (\<lambda>i. (kbd_buf s)[?h := v] ! ((?t + i) mod 64)) [0..<kbd_len s] @ [v]"
      using b here unfolding kbd_items_def len by (simp add: s'_def KBD_BUF_SIZE_def)
    also have "map (\<lambda>i. (kbd_buf s)[?h := v] ! ((?t + i) mod 64)) [0..<kbd_len s] = kbd_items s"
      using not_sym [OF old] unfolding kbd_items_def by (intro map_cong) (auto simp: KBD_BUF_SIZE_def)
    finally show ?thesis using full False le s' by (simp add: kbd_items_def)
  qed
qed

lemma kbd_pop_items:
  assumes wf: "kbd_wf s"
  shows "kbd_items s = [] \<Longrightarrow> kbd_pop s = (0, s)"
    and "kbd_items s = x # xs \<Longrightarrow> fst (kbd_pop s) = x \<and> kbd_items (snd (kbd_pop s)) = xs"
proof -
  let ?h = "kbd_head s" and ?t = "kbd_tail s"
  have b: "?h < 64" "?t < 64" "length (kbd_buf s) = 64" using wf by (simp_all add: kbd_wf_def KBD_BUF_SIZE_def)
  show "kbd_pop s = (0, s)" if "kbd_items s = []"
    using that b unfolding kbd_items_def kbd_len_eq [OF wf] by (auto simp: kbd_pop_def split: if_splits)
  show "fst (kbd_pop s) = x \<and> kbd_items (snd (kbd_pop s)) = xs" if i: "kbd_items s = x # xs"
  proof -
    have pos: "0 < kbd_len s" using i by (cases "kbd_len s") (auto simp: kbd_items_def)
    then obtain k where k: "kbd_len s = Suc k" by (cases "kbd_len s") auto
    have ne: "?h \<noteq> ?t" using pos unfolding kbd_len_eq [OF wf] by auto
    define s' where "s' = s\<lparr>kbd_tail := (?t + 1) mod 64\<rparr>"
    have p: "kbd_pop s = (kbd_buf s ! ?t, s')" using ne by (simp add: kbd_pop_def s'_def KBD_BUF_SIZE_def)
    have wf': "kbd_wf s'" using b by (simp add: kbd_wf_def KBD_BUF_SIZE_def s'_def)
    have nxt: "(?t + 1) mod 64 = (if ?t = 63 then 0 else ?t + 1)" using b by (simp add: mod_64)
    have len: "kbd_len s' = k"
      using k unfolding kbd_len_eq [OF wf] kbd_len_eq [OF wf'] using b ne nxt by (auto simp: s'_def split: if_splits)
    have "x # xs = kbd_buf s ! (?t mod 64) # map (\<lambda>i. kbd_buf s ! ((?t + Suc i) mod 64)) [0..<k]"
      using i unfolding kbd_items_def k by (simp add: KBD_BUF_SIZE_def map_upt_Suc del: upt_Suc)
    moreover have "kbd_items s' = map (\<lambda>i. kbd_buf s ! ((?t + Suc i) mod 64)) [0..<k]"
      unfolding kbd_items_def len by (simp add: s'_def KBD_BUF_SIZE_def mod_add_left_eq)
    ultimately show ?thesis using p b by simp
  qed
qed

lemma kbd_push_wf: "kbd_wf s \<Longrightarrow> kbd_wf (kbd_push v s)"
  by (simp add: kbd_wf_def kbd_push_def Let_def KBD_BUF_SIZE_def)

lemma kbd_pop_wf: "kbd_wf s \<Longrightarrow> kbd_wf (snd (kbd_pop s))"
  by (simp add: kbd_wf_def kbd_pop_def KBD_BUF_SIZE_def)

interpretation kq: bounded_fifo kbd_push kbd_pop kbd_items kbd_wf 63 0
  by unfold_locales (auto simp: kbd_push_wf kbd_push_items kbd_pop_wf kbd_pop_items)

primrec kbd_pops :: "nat \<Rightarrow> keyboard \<Rightarrow> u16 list" where
  "kbd_pops 0 s = []"
| "kbd_pops (Suc n) s = fst (kbd_pop s) # kbd_pops n (snd (kbd_pop s))"

lemma kbd_pops_eq: "kbd_pops n s = kq.pops n s"
  by (induction n arbitrary: s) auto

text \<open>
  C18. The keyboard buffer is a queue: key codes pushed by the interrupt handler are read back in
  order and none twice; codes that come while 63 are waiting are dropped, and reading an empty
  buffer gives 0.
\<close>

theorem kbd_fifo:
  assumes "kbd_wf s"
  shows "kbd_pops n (fold kbd_push vs s) =
    (let q = kbd_items s @ take (63 - length (kbd_items s)) vs in take n q @ replicate (n - length q) 0)"
  unfolding kbd_pops_eq Let_def by (rule kq.fifo [OF assms])

definition demo_kbd :: keyboard where
  "demo_kbd = \<lparr>kcon = demo_con, kbd_buf = replicate 64 0, kbd_head = 63, kbd_tail = 63, kbd_shift = False, kbd_ctrl = False,
     kbd_ext = False, key_down = (\<lambda>_. False), ext_key_down = (\<lambda>_. False), kill_program = False, exit_requested = False\<rparr>"

lemma demo_kbd_wf: "kbd_wf demo_kbd" "kbd_items demo_kbd = []"
  by (simp_all add: demo_kbd_def kbd_wf_def KBD_BUF_SIZE_def kbd_items_def kbd_len_def)

theorem kbd_fifo_witness: "kbd_pops 3 (fold kbd_push [0x61, 0x62] demo_kbd) = [0x61, 0x62, 0]"
  using kbd_fifo [OF demo_kbd_wf(1), of 3 "[0x61, 0x62]"] by (simp add: demo_kbd_wf Let_def numeral_3_eq_3)

subsection \<open>What a key press does\<close>

lemma ucast_key: "(ucast (c :: u8) :: u16) = 0 \<longleftrightarrow> c = 0" "(ucast c :: u16) < 256" "(ucast (ucast c :: u16) :: u8) = c"
proof -
  have "unat c < 2 ^ 8" using unsigned_less [of c] by simp
  then have u: "unat (ucast c :: u16) = unat c" by (simp only: unsigned_ucast_eq) (simp add: take_bit_nat_eq_self)
  show "(ucast c :: u16) = 0 \<longleftrightarrow> c = 0" unfolding word_unat_eq_iff u by simp
  show "(ucast c :: u16) < 256" using \<open>unat c < 2 ^ 8\<close> unfolding word_less_nat_alt u by simp
  have "unat (ucast (ucast c :: u16) :: u8) = unat c"
    using \<open>unat c < 2 ^ 8\<close> by (simp only: unsigned_ucast_eq [of "ucast c :: u16"] u) (simp add: take_bit_nat_eq_self)
  then show "(ucast (ucast c :: u16) :: u8) = c" by (rule word_unat_eq_iff [THEN iffD2])
qed

lemma kbd_items_cong:
  "kbd_buf s' = kbd_buf s \<Longrightarrow> kbd_head s' = kbd_head s \<Longrightarrow> kbd_tail s' = kbd_tail s \<Longrightarrow> kbd_items s' = kbd_items s \<and> kbd_wf s' = kbd_wf s"
  by (simp add: kbd_items_def kbd_len_def kbd_wf_def)

lemma keymap_length: "length keymap = 128" "length keymap_shift = 128"
  by (simp_all add: keymap_def keymap_shift_def pad128_def)

text \<open>The key code a press adds, given the modifiers: 0 for none.\<close>

definition key_code :: "u8 \<Rightarrow> keyboard \<Rightarrow> u16" where
  "key_code sc s =
     (if kbd_ext s then (if sc = 0x48 then KEY_UP else if sc = 0x50 then KEY_DOWN else if sc = 0x4B then KEY_LEFT
        else if sc = 0x4D then KEY_RIGHT else if sc = 0x53 then KEY_DEL else 0)
      else if kbd_ctrl s \<and> kbd_char sc s = 3 then 0
      else ucast (kbd_char sc s))"

definition is_make :: "u8 \<Rightarrow> bool" where
  "is_make sc \<longleftrightarrow> sc \<notin> {0xE0, 0x2A, 0x36, 0xAA, 0xB6, 0x1D, 0x9D} \<and> sc AND 0x80 = 0"

lemma handle_other:
  assumes "\<not> is_make sc"
  shows "\<exists>a b c d e. kbd_handle_scancode sc s =
    (False, s\<lparr>kbd_shift := a, kbd_ctrl := b, kbd_ext := c, key_down := d, ext_key_down := e\<rparr>)"
proof -
  have r: "s = s\<lparr>kbd_shift := kbd_shift s, kbd_ctrl := kbd_ctrl s, kbd_ext := kbd_ext s, key_down := key_down s, ext_key_down := ext_key_down s\<rparr>"
    by simp
  have e: "\<exists>a b c d e. s' = s\<lparr>kbd_shift := a, kbd_ctrl := b, kbd_ext := c, key_down := d, ext_key_down := e\<rparr>"
    if "s' = s\<lparr>kbd_shift := a, kbd_ctrl := b, kbd_ext := c, key_down := d, ext_key_down := e\<rparr>" for s' a b c d e
    using that by blast
  have "fst (kbd_handle_scancode sc s) = False"
    using assms unfolding is_make_def kbd_handle_scancode_def Let_def by auto
  moreover have "snd (kbd_handle_scancode sc s) = s\<lparr>kbd_shift := kbd_shift (snd (kbd_handle_scancode sc s)),
      kbd_ctrl := kbd_ctrl (snd (kbd_handle_scancode sc s)), kbd_ext := kbd_ext (snd (kbd_handle_scancode sc s)),
      key_down := key_down (snd (kbd_handle_scancode sc s)), ext_key_down := ext_key_down (snd (kbd_handle_scancode sc s))\<rparr>"
    using assms unfolding is_make_def kbd_handle_scancode_def Let_def by auto
  ultimately show ?thesis using e by (metis prod.collapse)
qed

text \<open>
  Scancode translation. A make code adds to the queue exactly the key its modifiers give it, the
  shifted or plain character or the code of a cursor key, if there is room; Ctrl-C adds nothing and
  asks for the program to be killed, and is the only code to do so. Release codes, prefixes and
  modifier keys add nothing.
\<close>

theorem kbd_handle_scancode_spec:
  assumes "kbd_wf s"
  shows "let (kill, s') = kbd_handle_scancode sc s; k = (if is_make sc then key_code sc s else 0) in
    kbd_wf s' \<and>
    kbd_items s' = (if k \<noteq> 0 \<and> length (kbd_items s) < 63 then kbd_items s @ [k] else kbd_items s) \<and>
    (kill \<longleftrightarrow> is_make sc \<and> \<not> kbd_ext s \<and> kbd_ctrl s \<and> kbd_char sc s = 3) \<and> (kill \<longrightarrow> kill_program s')"
proof (cases "is_make sc")
  case False
  obtain a b c d e where h: "kbd_handle_scancode sc s =
      (False, s\<lparr>kbd_shift := a, kbd_ctrl := b, kbd_ext := c, key_down := d, ext_key_down := e\<rparr>)"
    using handle_other [OF False] by blast
  have "kbd_items (s\<lparr>kbd_shift := a, kbd_ctrl := b, kbd_ext := c, key_down := d, ext_key_down := e\<rparr>) = kbd_items s"
    "kbd_wf (s\<lparr>kbd_shift := a, kbd_ctrl := b, kbd_ext := c, key_down := d, ext_key_down := e\<rparr>) = kbd_wf s"
    using kbd_items_cong [of "s\<lparr>kbd_shift := a, kbd_ctrl := b, kbd_ext := c, key_down := d, ext_key_down := e\<rparr>" s] by simp_all
  then show ?thesis using False assms by (simp add: h)
next
  case True
  have m: "sc \<noteq> 0xE0" "\<not> (sc = 0x2A \<or> sc = 0x36)" "\<not> (sc = 0xAA \<or> sc = 0xB6)" "sc \<noteq> 0x1D" "sc \<noteq> 0x9D" "\<not> sc AND 0x80 \<noteq> 0"
    using True by (auto simp: is_make_def)
  note D = kbd_handle_scancode_def [of sc s, unfolded if_not_P [OF m(1)] if_not_P [OF m(2)] if_not_P [OF m(3)]
      if_not_P [OF m(4)] if_not_P [OF m(5)] if_not_P [OF m(6)]]
  show ?thesis
  proof (cases "kbd_ext s")
    case ext: True
    define u where "u = s\<lparr>ext_key_down := (ext_key_down s)(unat sc := True), kbd_ext := False\<rparr>"
    have u: "kbd_items u = kbd_items s" "kbd_wf u = kbd_wf s" using kbd_items_cong [of u s] by (simp_all add: u_def)
    have v: "kbd_items (u\<lparr>kcon := c\<rparr>) = kbd_items u" "kbd_wf (u\<lparr>kcon := c\<rparr>) = kbd_wf u" for c
      using kbd_items_cong [of "u\<lparr>kcon := c\<rparr>" u] by simp_all
    have h: "kbd_handle_scancode sc s = (False, kbd_extended sc u)" unfolding D u_def using ext by simp
    have wfu: "kbd_wf u" using assms u by simp
    have "kbd_wf (kbd_extended sc u)"
      using wfu v kbd_push_wf [OF wfu] by (simp add: kbd_extended_def Let_def)
    moreover have "kbd_items (kbd_extended sc u) =
        (if key_code sc s \<noteq> 0 \<and> length (kbd_items s) < 63 then kbd_items s @ [key_code sc s] else kbd_items s)"
      using kbd_push_items [OF wfu] u v ext by (simp add: kbd_extended_def Let_def key_code_def key_defs)
    ultimately show ?thesis using True ext by (simp add: h Let_def)
  next
    case plain: False
    define u where "u = s\<lparr>key_down := (key_down s)(unat sc := True)\<rparr>"
    have u: "kbd_items u = kbd_items s" "kbd_wf u = kbd_wf s" "kbd_char sc u = kbd_char sc s" "kbd_ctrl u = kbd_ctrl s"
      using kbd_items_cong [of u s] by (simp_all add: u_def kbd_char_def Let_def)
    have k: "kbd_items (u\<lparr>kill_program := x\<rparr>) = kbd_items u" "kbd_wf (u\<lparr>kill_program := x\<rparr>) = kbd_wf u" for x
      using kbd_items_cong [of "u\<lparr>kill_program := x\<rparr>" u] by simp_all
    have h: "kbd_handle_scancode sc s = (if kbd_ctrl s \<and> kbd_char sc s = 3 then (True, u\<lparr>kill_program := True\<rparr>)
        else (False, if kbd_char sc s \<noteq> 0 then kbd_push (ucast (kbd_char sc s)) u else u))"
      unfolding D Let_def u_def [symmetric] using plain by (simp add: u)
    have wfu: "kbd_wf u" using assms u by simp
    show ?thesis
      using kbd_push_items [OF wfu] kbd_push_wf [OF wfu] u k wfu plain True
      by (simp add: h Let_def key_code_def ucast_key)
  qed
qed

theorem kbd_handle_scancode_spec_witness:
  "kbd_items (snd (kbd_handle_scancode 0x1E (demo_kbd\<lparr>kbd_shift := True\<rparr>))) = [0x41] \<and>
   fst (kbd_handle_scancode 0x2E (demo_kbd\<lparr>kbd_ctrl := True\<rparr>))"
proof -
  have w: "kbd_wf (demo_kbd\<lparr>kbd_shift := a\<rparr>)" "kbd_wf (demo_kbd\<lparr>kbd_ctrl := a\<rparr>)" "kbd_items (demo_kbd\<lparr>kbd_shift := a\<rparr>) = []" for a
    by (simp_all add: demo_kbd_def kbd_wf_def kbd_items_def kbd_len_def KBD_BUF_SIZE_def)
  have m: "is_make 0x1E" "is_make 0x2E" by (simp_all add: is_make_def)
  have c: "kbd_char 0x1E (demo_kbd\<lparr>kbd_shift := True\<rparr>) = 0x41" "kbd_char 0x2E (demo_kbd\<lparr>kbd_ctrl := True\<rparr>) = 3"
    by (simp_all add: kbd_char_def demo_kbd_def keymap_def keymap_shift_def pad128_def)
  have d: "\<not> kbd_ext (demo_kbd\<lparr>kbd_shift := True\<rparr>)" "\<not> kbd_ctrl (demo_kbd\<lparr>kbd_shift := True\<rparr>)" "\<not> kbd_ext (demo_kbd\<lparr>kbd_ctrl := True\<rparr>)"
    by (simp_all add: demo_kbd_def)
  have "kbd_items (snd (kbd_handle_scancode 0x1E (demo_kbd\<lparr>kbd_shift := True\<rparr>))) = [0x41]"
    using kbd_handle_scancode_spec [OF w(1), of "0x1E" True] m(1) c(1) d(1,2) w(3) by (simp add: Let_def case_prod_beta key_code_def)
  moreover have "fst (kbd_handle_scancode 0x2E (demo_kbd\<lparr>kbd_ctrl := True\<rparr>))"
    using kbd_handle_scancode_spec [OF w(2), of "0x2E" True] m(2) c(2) d(3) by (simp add: Let_def case_prod_beta)
  ultimately show ?thesis by blast
qed

text \<open>
  The numeric keypad is out of place in the key map: the scancodes of keypad 7, 8 and 9 (0x47 to
  0x49) give no character, and 0x4F, keypad 1, gives the digit 7; the run of unused codes before the
  keypad is eight entries too long.
\<close>

theorem keymap_keypad_shifted:
  "keymap ! 0x47 = 0 \<and> keymap ! 0x48 = 0 \<and> keymap ! 0x49 = 0 \<and> keymap ! 0x4F = 0x37 \<and> keymap ! 0x50 = 0x38"
  by (simp add: keymap_def pad128_def)

subsection \<open>Line input\<close>

fun edit :: "u8 list \<Rightarrow> u8 list \<Rightarrow> u8 list" where
  "edit line [] = line"
| "edit line (c # cs) = (if c = 8 then edit (butlast line) cs else edit (line @ [c]) cs)"

lemma getkey_queued:
  assumes "kbd_wf s" "kbd_items s = k # ks" "k \<noteq> 0"
  obtains s' where "kbd_getkey dev wakes s = Some (k, wakes, s')" "kbd_wf s'" "kbd_items s' = ks"
proof -
  have p: "kbd_pop s = (k, snd (kbd_pop s))" "kbd_items (snd (kbd_pop s)) = ks"
    using kbd_pop_items(2) [OF assms(1,2)] by (metis prod.collapse, simp)
  have "kbd_getkey dev wakes s = Some (k, wakes, snd (kbd_pop s))"
    by (subst kbd_getkey.simps, subst p(1)) (simp add: assms(3))
  then show thesis using that kbd_pop_wf [OF assms(1)] p(2) by blast
qed

lemma kputc_items: "kbd_items (kputc c s) = kbd_items s" "kbd_wf (kputc c s) = kbd_wf s"
  using kbd_items_cong [of "kputc c s" s] by (simp_all add: kputc_def)

lemma readline_loop_edit:
  assumes "kbd_wf s" "kbd_items s = map ucast cs @ 10 # rest" "0 \<notin> set cs" "10 \<notin> set cs" "length line + length cs + 1 < lim"
  shows "\<exists>s'. readline_loop dev lim line wakes s = Some (edit line cs @ [0], wakes, s') \<and> kbd_wf s' \<and> kbd_items s' = rest"
  using assms
proof (induction cs arbitrary: line s)
  case Nil
  have l: "length line + 1 < lim" and q: "kbd_items s = 10 # rest" using Nil.prems by simp_all
  obtain s' where g: "kbd_getkey dev wakes s = Some (10, wakes, s')" "kbd_wf s'" "kbd_items s' = rest"
    by (rule getkey_queued [OF Nil.prems(1) q]) simp_all
  have "readline_loop dev lim line wakes s = Some (line @ [0], wakes, kputc 10 s')"
    by (subst readline_loop.simps) (use l in \<open>simp add: g(1)\<close>)
  then show ?case using g by (simp add: kputc_items)
next
  case (Cons c cs)
  have l: "length line + 1 < lim" and q: "kbd_items s = ucast c # (map ucast cs @ 10 # rest)" and c: "c \<noteq> 0" "c \<noteq> 10"
    using Cons.prems by auto
  obtain s' where g: "kbd_getkey dev wakes s = Some (ucast c, wakes, s')" "kbd_wf s'" "kbd_items s' = map ucast cs @ 10 # rest"
    by (rule getkey_queued [OF Cons.prems(1) q]) (simp_all add: ucast_key c)
  define line' where "line' = (if c = 8 then butlast line else line @ [c])"
  define s'' where "s'' = (if c = 8 then (if line \<noteq> [] then kputc 8 (kputc 0x20 (kputc 8 s')) else s') else kputc c s')"
  have step: "readline_loop dev lim line wakes s = readline_loop dev lim line' wakes s''"
    by (subst readline_loop.simps) (use l c in \<open>simp add: g(1) ucast_key line'_def s''_def\<close>)
  have "\<exists>t. readline_loop dev lim line' wakes s'' = Some (edit line' cs @ [0], wakes, t) \<and> kbd_wf t \<and> kbd_items t = rest"
    by (rule Cons.IH) (use g Cons.prems in \<open>auto simp: s''_def line'_def kputc_items\<close>)
  moreover have "edit line (c # cs) = edit line' cs" by (cases "c = 8") (simp_all add: line'_def)
  ultimately show ?case unfolding step by (simp only:)
qed

text \<open>
  C19. Reading a line: with the keys of a line and Enter waiting in the buffer, \<open>readline\<close> returns
  the line as edited by backspace, zero-terminated, leaves the later keys in the buffer, and does
  not wait, provided the keys fit the caller's buffer.
\<close>

theorem readline_edits:
  assumes "kbd_wf s" "kbd_items s = map ucast cs @ 10 # rest" "0 \<notin> set cs" "10 \<notin> set cs" "length cs + 1 < lim"
  shows "\<exists>s'. readline dev lim wakes s = Some (edit [] cs @ [0], wakes, s') \<and> kbd_wf s' \<and> kbd_items s' = rest"
  unfolding readline_def by (rule readline_loop_edit) (use assms in simp_all)

theorem readline_edits_witness:
  "\<exists>s'. readline (\<lambda>_ _. 0) 16 [] (fold kbd_push [0x68, 0x6A, 8, 0x69, 10, 0x78] demo_kbd) = Some ([0x68, 0x69, 0], [], s') \<and>
     kbd_wf s' \<and> kbd_items s' = [0x78]"
proof -
  let ?s = "fold kbd_push [0x68, 0x6A, 8, 0x69, 10, 0x78] demo_kbd"
  have w: "kbd_wf ?s" by (rule kq.fold_push_inv [OF demo_kbd_wf(1)])
  have i: "kbd_items ?s = map ucast [0x68, 0x6A, 8, 0x69 :: u8] @ 10 # [0x78]"
    using kq.fold_push_items [OF demo_kbd_wf(1), of "[0x68, 0x6A, 8, 0x69, 10, 0x78]"] by (simp add: demo_kbd_wf)
  show ?thesis using readline_edits [OF w i, of 16 "\<lambda>_ _. 0" "[]"] by simp
qed

end
