(* ===== verification/Acpi.thy ===== *)
theory Acpi
  imports Display
begin

text \<open>
  Power off (kernel/kernel.c): the search for the ACPI tables on a BIOS machine and the port writes
  that enter the S5 state. Physical memory is a function from addresses to bytes; the scan is
  written with addresses as natural numbers where the code has pointers, none of which reaches
  \<open>2 ^ 32\<close> since every table has been checked against \<open>KERNEL_IDENTITY_LIMIT\<close> first.
\<close>

subsection \<open>Finding the tables\<close>

definition ld32 :: "mem \<Rightarrow> nat \<Rightarrow> u32" where
  "ld32 m a = le32 [m (of_nat a), m (of_nat (a + 1)), m (of_nat (a + 2)), m (of_nat (a + 3))] 0"

definition ld16 :: "mem \<Rightarrow> nat \<Rightarrow> u16" where
  "ld16 m a = le16 [m (of_nat a), m (of_nat (a + 1))] 0"

definition sig_at :: "mem \<Rightarrow> nat \<Rightarrow> u8 list \<Rightarrow> bool" where
  "sig_at m a sig \<longleftrightarrow> map (\<lambda>i. m (of_nat (a + i))) [0..<length sig] = sig"

definition acpi_addr_ok :: "u32 \<Rightarrow> u32 \<Rightarrow> bool" where
  "acpi_addr_ok a len \<longleftrightarrow> a \<noteq> 0 \<and> a < KERNEL_IDENTITY_LIMIT \<and> len \<le> KERNEL_IDENTITY_LIMIT - a"

function rsdp_scan :: "mem \<Rightarrow> nat \<Rightarrow> nat \<Rightarrow> u32" where
  "rsdp_scan m a stop =
     (if a + 8 < stop
      then if sig_at m a [0x52, 0x53, 0x44, 0x20, 0x50, 0x54, 0x52, 0x20] then of_nat a else rsdp_scan m (a + 16) stop
      else 0)"
  by pat_completeness auto
termination by (relation "measure (\<lambda>(m, a, stop). stop - a)") auto

declare rsdp_scan.simps [simp del]

definition acpi_find_rsdp_bios :: "mem \<Rightarrow> u32" where
  "acpi_find_rsdp_bios m =
     (let ebda = push_bit 4 (ucast (ld16 m 0x40E)) :: u32;
          r = (if ebda < 0x400 \<or> ebda > 0xA0000 then 0 else rsdp_scan m (unat ebda) (unat (ebda + 1024)))
      in if r \<noteq> 0 then r else rsdp_scan m 0xE0000 0x100000)"

text \<open>The table of pointers: the first usable one to a FADT.\<close>

function fadt_scan :: "mem \<Rightarrow> nat \<Rightarrow> nat \<Rightarrow> nat \<Rightarrow> u32 option" where
  "fadt_scan m rsdt len i =
     (if i + 4 \<le> len - 36
      then let a = ld32 m (rsdt + 36 + i) in
           if acpi_addr_ok a 132 \<and> sig_at m (unat a) [0x46, 0x41, 0x43, 0x50] then Some a
           else fadt_scan m rsdt len (i + 4)
      else None)"
  by pat_completeness auto
termination by (relation "measure (\<lambda>(m, rsdt, len, i). len - i)") auto

declare fadt_scan.simps [simp del]

text \<open>
  The \<open>_S5_\<close> package in the byte code: after the name a package opcode, the package length (one byte
  plus the number of bytes its top two bits say), the element count, and the two sleep types, each
  with or without a byte prefix.
\<close>

definition s5_values :: "mem \<Rightarrow> nat \<Rightarrow> u32 \<times> u32" where
  "s5_values m p =
     (let q = p + 5;
          q = q + unat (drop_bit 6 (m (of_nat q) AND 0xC0)) + 1;
          q = q + 1;
          q = (if m (of_nat q) = 0x0A then q + 1 else q);
          a = m (of_nat q);
          q = q + 1;
          q = (if m (of_nat q) = 0x0A then q + 1 else q)
      in (ucast a, ucast (m (of_nat q))))"

function s5_scan :: "mem \<Rightarrow> nat \<Rightarrow> nat \<Rightarrow> (u32 \<times> u32) option" where
  "s5_scan m p stop =
     (if p + 8 < stop
      then if sig_at m p [0x5F, 0x53, 0x35, 0x5F] \<and> m (of_nat (p + 4)) = 0x12 then Some (s5_values m p)
           else s5_scan m (p + 1) stop
      else None)"
  by pat_completeness auto
termination by (relation "measure (\<lambda>(m, p, stop). stop - p)") auto

declare s5_scan.simps [simp del]

definition acpi_fadt :: "mem \<Rightarrow> u32 option" where
  "acpi_fadt m =
     (let rsdp = acpi_find_rsdp_bios m in
      if \<not> acpi_addr_ok rsdp 36 then None
      else let rsdt = ld32 m (unat rsdp + 16) in
      if \<not> acpi_addr_ok rsdt 36 then None
      else let len = ld32 m (unat rsdt + 4) in
      if len < 36 \<or> \<not> acpi_addr_ok rsdt len then None
      else fadt_scan m (unat rsdt) (unat len) 0)"

definition acpi_s5 :: "mem \<Rightarrow> u32 \<Rightarrow> disp \<Rightarrow> disp" where
  "acpi_s5 m fadt s =
     (let dsdt = ld32 m (unat fadt + 40);
          pm1a = ld32 m (unat fadt + 64);
          pm1b = ld32 m (unat fadt + 68)
      in if pm1a = 0 \<or> \<not> acpi_addr_ok dsdt 36 then s
         else let dlen = ld32 m (unat dsdt + 4) in
         if dlen < 36 \<or> \<not> acpi_addr_ok dsdt dlen then s
         else case s5_scan m (unat dsdt + 36) (unat dsdt + unat dlen) of None \<Rightarrow> s
         | Some (a, b) \<Rightarrow> s\<lparr>acpi_slp_a := a, acpi_slp_b := b, acpi_pm1a := pm1a, acpi_pm1b := pm1b\<rparr>)"

definition acpi_scan_bios :: "mem \<Rightarrow> disp \<Rightarrow> disp" where
  "acpi_scan_bios m s = (case acpi_fadt m of None \<Rightarrow> s | Some fadt \<Rightarrow> acpi_s5 m fadt s)"

subsection \<open>Power off\<close>

definition outw :: "u16 \<Rightarrow> u16 \<Rightarrow> con \<Rightarrow> con" where
  "outw p v s = s\<lparr>ports := ports s @ [OutW p v]\<rparr>"

definition slp_cmd :: "u32 \<Rightarrow> u16" where
  "slp_cmd typ = ucast (push_bit 10 typ OR push_bit 13 1)"

text \<open>
  The state in which the machine halts when none of the writes turned it off; what the writes do to
  the machine is the business of the chipset.
\<close>

definition power_off :: "mem \<Rightarrow> disp \<Rightarrow> disp" where
  "power_off m s =
     (let s = (if acpi_pm1a s = 0 then acpi_scan_bios m s else s);
          s = (if acpi_pm1a s \<noteq> 0
               then
                 let s = with_con (outw (ucast (acpi_pm1a s)) (slp_cmd (acpi_slp_a s))) s
                 in if acpi_pm1b s \<noteq> 0 then with_con (outw (ucast (acpi_pm1b s)) (slp_cmd (acpi_slp_b s))) s else s
               else s);
          s = with_con (outw 0x4004 0x3400) (with_con (outw 0xB004 0x2000) (with_con (outw 0x604 0x2000) s))
      in with_con (vga_puts [10, 112, 111, 119, 101, 114, 32, 111, 102, 102, 32, 102, 97, 105, 108, 101, 100, 59, 32,
                             104, 97, 108, 116, 105, 110, 103, 46, 10]) s)"

subsection \<open>What the scan reads\<close>

text \<open>Memory that looks the same below the limit, give or take the five bytes a package can stick out.\<close>

definition same_low :: "mem \<Rightarrow> mem \<Rightarrow> bool" where
  "same_low m m' \<longleftrightarrow> (\<forall>a. unat a < unat KERNEL_IDENTITY_LIMIT + 5 \<longrightarrow> m a = m' a)"

definition low_end :: nat where "low_end = 134217733"

lemma same_low_nat: "same_low m m' \<Longrightarrow> a < low_end \<Longrightarrow> m (of_nat a) = m' (of_nat a)"
  by (auto simp: same_low_def low_end_def KERNEL_IDENTITY_LIMIT_def unat_of_nat)

lemma ld32_same: "same_low m m' \<Longrightarrow> a + 3 < low_end \<Longrightarrow> ld32 m a = ld32 m' a"
  using same_low_nat [of m m' a] same_low_nat [of m m' "a + 1"] same_low_nat [of m m' "a + 2"] same_low_nat [of m m' "a + 3"]
  by (simp add: ld32_def)

lemma ld16_same: "same_low m m' \<Longrightarrow> a + 1 < low_end \<Longrightarrow> ld16 m a = ld16 m' a"
  using same_low_nat [of m m' a] same_low_nat [of m m' "a + 1"] by (simp add: ld16_def)

lemma sig_at_same:
  assumes "same_low m m'" "a + length sig < low_end"
  shows "sig_at m a sig = sig_at m' a sig"
proof -
  have "map (\<lambda>i. m (of_nat (a + i))) [0..<length sig] = map (\<lambda>i. m' (of_nat (a + i))) [0..<length sig]"
    by (rule map_cong [OF refl], rule same_low_nat [OF assms(1)]) (use assms(2) in auto)
  then show ?thesis by (simp only: sig_at_def)
qed

lemma acpi_addr_okD:
  assumes "acpi_addr_ok a len"
  shows "unat a + unat len \<le> 134217728"
proof -
  have a: "a < 134217728" and l: "len \<le> 134217728 - a" using assms by (simp_all add: acpi_addr_ok_def KERNEL_IDENTITY_LIMIT_def)
  have "unat (134217728 - a) = 134217728 - unat a" using a by (simp add: unat_sub)
  then show ?thesis using a l by (simp add: word_le_nat_alt word_less_nat_alt)
qed

lemma rsdp_scan_same: "same_low m m' \<Longrightarrow> stop < low_end \<Longrightarrow> rsdp_scan m a stop = rsdp_scan m' a stop"
  by (induction m a stop rule: rsdp_scan.induct)
    (subst (1 2) rsdp_scan.simps, simp add: sig_at_same)

lemma fadt_scan_same:
  "same_low m m' \<Longrightarrow> rsdt + len \<le> 134217728 \<Longrightarrow> fadt_scan m rsdt len i = fadt_scan m' rsdt len i"
proof (induction m rsdt len i rule: fadt_scan.induct)
  case (1 m rsdt len i)
  show ?case
  proof (cases "i + 4 \<le> len - 36")
    case True
    define a where "a = ld32 m (rsdt + 36 + i)"
    have a: "ld32 m' (rsdt + 36 + i) = a"
      unfolding a_def by (rule ld32_same [symmetric, OF 1(2)]) (use True 1(3) in \<open>simp add: low_end_def\<close>)
    have s: "sig_at m (unat a) [0x46, 0x41, 0x43, 0x50] = sig_at m' (unat a) [0x46, 0x41, 0x43, 0x50]" if "acpi_addr_ok a 132"
      by (rule sig_at_same [OF 1(2)]) (use acpi_addr_okD [OF that] in \<open>simp add: low_end_def\<close>)
    show ?thesis
    proof (cases "acpi_addr_ok a 132 \<and> sig_at m (unat a) [0x46, 0x41, 0x43, 0x50]")
      case T: True
      then show ?thesis using True s by (subst (1 2) fadt_scan.simps) (simp add: a a_def [symmetric] Let_def)
    next
      case F: False
      have "fadt_scan m rsdt len (i + 4) = fadt_scan m' rsdt len (i + 4)"
        by (rule 1(1)) (use True F 1(2,3) in \<open>simp_all add: a_def\<close>)
      then show ?thesis using True F s by (subst (1 2) fadt_scan.simps) (auto simp: a a_def [symmetric] Let_def)
    qed
  next
    case False
    then show ?thesis by (subst (1 2) fadt_scan.simps) simp
  qed
qed

lemma s5_values_same:
  assumes "same_low m m'" "p + 13 < low_end"
  shows "s5_values m p = s5_values m' p"
proof -
  have eq: "m (of_nat q) = m' (of_nat q)" if "q \<le> p + 13" for q using same_low_nat [OF assms(1)] that assms(2) by simp
  define k where "k = unat (drop_bit 6 (m (of_nat (p + 5)) AND 0xC0))"
  have k: "k \<le> 3"
  proof -
    have "unat (m (of_nat (p + 5)) AND 0xC0) < 2 ^ 8" using unsigned_less [of "m (of_nat (p + 5)) AND 0xC0"] by simp
    then show ?thesis by (simp add: k_def unat_drop_bit_eq drop_bit_eq_div unat_div)
  qed
  define q where "q = p + 5 + k + 2"
  have q: "q \<le> p + 10" using k by (simp add: q_def)
  define q2 where "q2 = (if m (of_nat q) = 0x0A then q + 1 else q)"
  have q2: "q2 \<le> p + 11" using q by (simp add: q2_def)
  define q3 where "q3 = (if m (of_nat (q2 + 1)) = 0x0A then q2 + 2 else q2 + 1)"
  have q3: "q3 \<le> p + 13" using q2 by (simp add: q3_def)
  have q2': "q2 = (if m' (of_nat q) = 0x0A then q + 1 else q)" using eq [of q] q by (simp add: q2_def)
  have q3': "q3 = (if m' (of_nat (q2 + 1)) = 0x0A then q2 + 2 else q2 + 1)" using eq [of "q2 + 1"] q2 by (simp add: q3_def)
  have k': "k = unat (drop_bit 6 (m' (of_nat (p + 5)) AND 0xC0))" using eq [of "p + 5"] by (simp add: k_def)
  have "s5_values m p = (ucast (m (of_nat q2)), ucast (m (of_nat q3)))"
    unfolding s5_values_def Let_def k_def [symmetric] q3_def q2_def q_def
    by (simp add: algebra_simps del: of_nat_add of_nat_Suc)
  moreover have "s5_values m' p = (ucast (m' (of_nat q2)), ucast (m' (of_nat q3)))"
    unfolding s5_values_def Let_def k' [symmetric] q3' q2' q_def
    by (simp add: algebra_simps del: of_nat_add of_nat_Suc)
  ultimately show ?thesis using eq [of q2] eq [of q3] q2 q3 by simp
qed

lemma s5_scan_same: "same_low m m' \<Longrightarrow> stop \<le> 134217728 \<Longrightarrow> s5_scan m p stop = s5_scan m' p stop"
proof (induction m p stop rule: s5_scan.induct)
  case (1 m p stop)
  show ?case
  proof (cases "p + 8 < stop")
    case True
    have s: "sig_at m p [0x5F, 0x53, 0x35, 0x5F] = sig_at m' p [0x5F, 0x53, 0x35, 0x5F]"
      "m (of_nat (p + 4)) = m' (of_nat (p + 4))" "s5_values m p = s5_values m' p"
      by (rule sig_at_same [OF 1(2)] same_low_nat [OF 1(2)] s5_values_same [OF 1(2)],
          use True 1(3) in \<open>simp add: low_end_def\<close>)+
    show ?thesis
    proof (cases "sig_at m p [0x5F, 0x53, 0x35, 0x5F] \<and> m (of_nat (p + 4)) = 0x12")
      case T: True
      then show ?thesis using True s by (subst (1 2) s5_scan.simps) (simp del: of_nat_add)
    next
      case F: False
      have "s5_scan m (p + 1) stop = s5_scan m' (p + 1) stop" by (rule 1(1)) (use True F 1(2,3) in simp_all)
      then show ?thesis using True F s by (subst (1 2) s5_scan.simps) (auto simp del: of_nat_add)
    qed
  next
    case False
    then show ?thesis by (subst (1 2) s5_scan.simps) simp
  qed
qed

lemma find_rsdp_same: "same_low m m' \<Longrightarrow> acpi_find_rsdp_bios m = acpi_find_rsdp_bios m'"
proof -
  assume s: "same_low m m'"
  define ebda where "ebda = (push_bit 4 (ucast (ld16 m 0x40E)) :: u32)"
  have e: "push_bit 4 (ucast (ld16 m' 0x40E)) = ebda" using ld16_same [OF s, of "0x40E"] by (simp add: ebda_def low_end_def)
  have r: "rsdp_scan m (unat ebda) (unat (ebda + 1024)) = rsdp_scan m' (unat ebda) (unat (ebda + 1024))" if "\<not> ebda > 0xA0000"
  proof (rule rsdp_scan_same [OF s])
    have "unat ebda \<le> 0xA0000" using that by (simp add: word_less_nat_alt)
    then have "unat (ebda + 1024) = unat ebda + 1024" by (subst unat_add_lem [THEN iffD1]) simp_all
    then show "unat (ebda + 1024) < low_end" using \<open>unat ebda \<le> 0xA0000\<close> by (simp add: low_end_def)
  qed
  have r2: "rsdp_scan m 0xE0000 0x100000 = rsdp_scan m' 0xE0000 0x100000"
    by (rule rsdp_scan_same [OF s]) (simp add: low_end_def)
  show ?thesis unfolding acpi_find_rsdp_bios_def ebda_def [symmetric] e Let_def
    using r r2 by (cases "ebda > 0xA0000") simp_all
qed

lemma ld32_ok_same:
  "same_low m m' \<Longrightarrow> acpi_addr_ok a len \<Longrightarrow> k + 3 < unat len \<Longrightarrow> ld32 m (unat a + k) = ld32 m' (unat a + k)"
  by (rule ld32_same) (auto dest: acpi_addr_okD simp: low_end_def)

lemma fadt_scan_ok: "fadt_scan m r l i = Some f \<Longrightarrow> acpi_addr_ok f 132"
  by (induction m r l i rule: fadt_scan.induct) (subst (asm) (2) fadt_scan.simps, auto split: if_splits simp: Let_def)

lemma acpi_fadt_ok: "acpi_fadt m = Some f \<Longrightarrow> acpi_addr_ok f 132"
  by (auto simp: acpi_fadt_def Let_def dest: fadt_scan_ok split: if_splits)

lemma acpi_fadt_same:
  assumes "same_low m m'"
  shows "acpi_fadt m = acpi_fadt m'"
proof -
  define rsdp where "rsdp = acpi_find_rsdp_bios m"
  define rsdt where "rsdt = ld32 m (unat rsdp + 16)"
  define len where "len = ld32 m (unat rsdt + 4)"
  have 1: "acpi_find_rsdp_bios m' = rsdp" using find_rsdp_same [OF assms] by (simp add: rsdp_def)
  have 2: "ld32 m' (unat rsdp + 16) = rsdt" if "acpi_addr_ok rsdp 36"
    using ld32_ok_same [OF assms that, of 16] by (simp add: rsdt_def)
  have 3: "ld32 m' (unat rsdt + 4) = len" if "acpi_addr_ok rsdt 36"
    using ld32_ok_same [OF assms that, of 4] by (simp add: len_def)
  have 4: "fadt_scan m (unat rsdt) (unat len) 0 = fadt_scan m' (unat rsdt) (unat len) 0" if "acpi_addr_ok rsdt len"
    by (rule fadt_scan_same [OF assms acpi_addr_okD [OF that]])
  show ?thesis
    unfolding acpi_fadt_def Let_def 1 rsdp_def [symmetric] rsdt_def [symmetric] len_def [symmetric]
    by (simp add: 2 3 4)
qed

lemma acpi_s5_same:
  assumes "same_low m m'" "acpi_addr_ok f 132"
  shows "acpi_s5 m f s = acpi_s5 m' f s"
proof -
  define dsdt where "dsdt = ld32 m (unat f + 40)"
  define dlen where "dlen = ld32 m (unat dsdt + 4)"
  have 1: "ld32 m' (unat f + 40) = dsdt" "ld32 m' (unat f + 64) = ld32 m (unat f + 64)" "ld32 m' (unat f + 68) = ld32 m (unat f + 68)"
    unfolding dsdt_def by (rule ld32_ok_same [OF assms, symmetric], simp)+
  have 2: "ld32 m' (unat dsdt + 4) = dlen" if "acpi_addr_ok dsdt 36"
    using ld32_ok_same [OF assms(1) that, of 4] by (simp add: dlen_def)
  have 3: "s5_scan m (unat dsdt + 36) (unat dsdt + unat dlen) = s5_scan m' (unat dsdt + 36) (unat dsdt + unat dlen)"
    if "acpi_addr_ok dsdt dlen"
    by (rule s5_scan_same [OF assms(1) acpi_addr_okD [OF that]])
  show ?thesis
    unfolding acpi_s5_def Let_def 1 dsdt_def [symmetric] dlen_def [symmetric] by (simp add: 2 3)
qed

text \<open>
  The ACPI scan reads only memory the kernel has mapped: its result does not depend on anything
  at or above \<open>KERNEL_IDENTITY_LIMIT\<close>, except that a package at the very end of a table that ends at
  the limit is read up to five bytes past it.
\<close>

theorem acpi_scan_bios_reads:
  assumes "same_low m m'"
  shows "acpi_scan_bios m s = acpi_scan_bios m' s"
  using acpi_s5_same [OF assms acpi_fadt_ok [of m]]
  by (simp add: acpi_scan_bios_def acpi_fadt_same [OF assms, symmetric] split: option.split)

theorem acpi_scan_bios_reads_witness:
  "acpi_scan_bios (\<lambda>a. if a < 0x09000000 then 0 else 1) demo_disp = acpi_scan_bios (\<lambda>_. 0) demo_disp"
proof (rule acpi_scan_bios_reads)
  show "same_low (\<lambda>a. if a < 0x09000000 then 0 else 1) (\<lambda>_. 0)"
    by (simp add: same_low_def KERNEL_IDENTITY_LIMIT_def word_less_nat_alt)
qed

end
