(* ===== verification/Descriptors.thy ===== *)
theory Descriptors
  imports Prelude
begin

text \<open>
  Processor tables of kernel/kernel.c: the interrupt descriptor table that \<open>kmain\<close> fills, the task
  state segment and its descriptor. What the processor makes of them (decoding a gate, the
  permission check of a port access) is stated beside them.
\<close>

subsection \<open>Tables\<close>

definition KERNEL_CS :: u16 where "KERNEL_CS = 0x08"
definition KERNEL_DS :: u16 where "KERNEL_DS = 0x10"
definition TSS_SEL :: u16 where "TSS_SEL = 0x28"

record idt_entry =
  off1 :: u16
  sel :: u16
  zero :: u8
  gate_type :: u8
  off2 :: u16

definition zero_gate :: idt_entry where
  "zero_gate = \<lparr>off1 = 0, sel = 0, zero = 0, gate_type = 0, off2 = 0\<rparr>"

type_synonym idt_table = "nat \<Rightarrow> idt_entry"

definition idt_set_gate :: "nat \<Rightarrow> u32 \<Rightarrow> u16 \<Rightarrow> u8 \<Rightarrow> idt_table \<Rightarrow> idt_table" where
  "idt_set_gate n handler s t idt =
     idt(n := \<lparr>off1 = ucast (handler AND 0xFFFF), sel = s, zero = 0, gate_type = t,
               off2 = ucast (drop_bit 16 handler AND 0xFFFF)\<rparr>)"

text \<open>The gates \<open>kmain\<close> sets: the exceptions, the sixteen interrupt lines and the system call.\<close>

definition boot_gates :: "(nat \<Rightarrow> u32) \<Rightarrow> (nat \<Rightarrow> u32) \<Rightarrow> u32 \<Rightarrow> idt_table \<Rightarrow> idt_table" where
  "boot_gates isr_stub irq_stub syscall_entry idt =
     idt_set_gate 0x80 syscall_entry KERNEL_CS 0xEE
       (fold (\<lambda>i. idt_set_gate (0x20 + i) (irq_stub i) KERNEL_CS 0x8E) [0..<16]
         (fold (\<lambda>i. idt_set_gate i (isr_stub i) KERNEL_CS 0x8E) [0..<32] idt))"

record tss_entry =
  t_prev :: u32
  t_esp0 :: u32
  t_ss0 :: u32
  t_esp1 :: u32  t_ss1 :: u32  t_esp2 :: u32  t_ss2 :: u32
  t_cr3 :: u32  t_eip :: u32  t_eflags :: u32
  t_eax :: u32  t_ecx :: u32  t_edx :: u32  t_ebx :: u32
  t_esp :: u32  t_ebp :: u32  t_esi :: u32  t_edi :: u32
  t_es :: u32  t_cs :: u32  t_ss :: u32  t_ds :: u32  t_fs :: u32  t_gs :: u32
  t_ldt :: u32  t_trap :: u16  t_iomap :: u16

definition zero_tss :: tss_entry where
  "zero_tss = \<lparr>t_prev = 0, t_esp0 = 0, t_ss0 = 0, t_esp1 = 0, t_ss1 = 0, t_esp2 = 0, t_ss2 = 0,
     t_cr3 = 0, t_eip = 0, t_eflags = 0, t_eax = 0, t_ecx = 0, t_edx = 0, t_ebx = 0,
     t_esp = 0, t_ebp = 0, t_esi = 0, t_edi = 0, t_es = 0, t_cs = 0, t_ss = 0, t_ds = 0, t_fs = 0, t_gs = 0,
     t_ldt = 0, t_trap = 0, t_iomap = 0\<rparr>"

definition gdt_set_tss :: "u32 \<Rightarrow> u32 \<Rightarrow> (nat \<Rightarrow> u64) \<Rightarrow> nat \<Rightarrow> u64" where
  "gdt_set_tss base limit gdt =
     (let desc = ucast limit AND 0xFFFF;
          desc = desc OR push_bit 16 (ucast (base AND 0xFFFFFF));
          desc = desc OR push_bit 40 0x89;
          desc = desc OR push_bit 48 (ucast (drop_bit 16 limit AND 0xF));
          desc = desc OR push_bit 56 (ucast (drop_bit 24 base AND 0xFF))
      in gdt(5 := desc))"

text \<open>The structure is packed: 25 words of 32 bits and two of 16.\<close>

definition TSS_SIZE :: u32 where "TSS_SIZE = 104"

definition tss_init :: "u32 \<Rightarrow> u32 \<Rightarrow> (nat \<Rightarrow> u64) \<Rightarrow> tss_entry \<times> (nat \<Rightarrow> u64)" where
  "tss_init tss_addr kernel_stack_top gdt =
     (zero_tss\<lparr>t_ss0 := ucast KERNEL_DS, t_esp0 := kernel_stack_top\<rparr>,
      gdt_set_tss tss_addr (TSS_SIZE - 1) gdt)"

subsection \<open>The processor's view\<close>

definition gate_handler :: "idt_entry \<Rightarrow> u32" where
  "gate_handler e = ucast (off1 e) OR push_bit 16 (ucast (off2 e))"

definition gate_present :: "idt_entry \<Rightarrow> bool" where "gate_present e \<longleftrightarrow> bit (gate_type e) 7"

definition gate_dpl :: "idt_entry \<Rightarrow> u8" where "gate_dpl e = drop_bit 5 (gate_type e) AND 3"

definition desc_base :: "u64 \<Rightarrow> u32" where
  "desc_base d = (ucast (drop_bit 16 d) AND 0xFFFFFF) OR push_bit 24 (ucast (drop_bit 56 d))"

definition desc_limit :: "u64 \<Rightarrow> u32" where
  "desc_limit d = (ucast d AND 0xFFFF) OR push_bit 16 (ucast (drop_bit 48 d) AND 0xF)"

definition tss_bytes :: "tss_entry \<Rightarrow> u8 list" where
  "tss_bytes t = concat (map le32_bytes
      [t_prev t, t_esp0 t, t_ss0 t, t_esp1 t, t_ss1 t, t_esp2 t, t_ss2 t, t_cr3 t, t_eip t, t_eflags t,
       t_eax t, t_ecx t, t_edx t, t_ebx t, t_esp t, t_ebp t, t_esi t, t_edi t,
       t_es t, t_cs t, t_ss t, t_ds t, t_fs t, t_gs t, t_ldt t]) @
     le16_bytes (t_trap t) @ le16_bytes (t_iomap t)"

text \<open>
  A port access of one byte from user mode, the I/O privilege level being 0: the processor looks up
  the port's bit in the permission map the task state segment points at; it reads two bytes there,
  which have to lie within the segment's limit, and allows the access when the bit is clear.
\<close>

definition port_allowed :: "u8 list \<Rightarrow> u32 \<Rightarrow> nat \<Rightarrow> bool" where
  "port_allowed tb limit p =
     (let i = unat (le16 tb 102) + p div 8 in i + 1 \<le> unat limit \<and> \<not> bit (arr_get tb i) (p mod 8))"

subsection \<open>Gates\<close>

lemma mask_numerals:
  "(0xFFFF :: u32) = mask 16" "(0xFF :: u32) = mask 8" "(0xF :: u32) = mask 4" "(0xFFFFFF :: u32) = mask 24" "(0xFFFF :: u64) = mask 16"
  by (simp_all add: mask_eq_exp_minus_1)

lemma word_split_16: "(ucast (ucast (h AND 0xFFFF) :: u16) OR push_bit 16 (ucast (ucast (drop_bit 16 h AND 0xFFFF) :: u16)) :: u32) = h"
  by (rule bit_word_eqI) (auto simp: bit_simps mask_numerals)

lemma idt_set_gate_handler: "gate_handler (idt_set_gate n h s t idt n) = h"
  by (simp add: gate_handler_def idt_set_gate_def word_split_16)

lemma fold_gates:
  "fold (\<lambda>i. idt_set_gate (k + i) (h i) s t) [0..<n] idt v =
     (if k \<le> v \<and> v < k + n then idt_set_gate v (h (v - k)) s t idt v else idt v)"
  by (induction n) (auto simp: idt_set_gate_def)

definition gate_for :: "(nat \<Rightarrow> u32) \<Rightarrow> (nat \<Rightarrow> u32) \<Rightarrow> u32 \<Rightarrow> nat \<Rightarrow> u32 option" where
  "gate_for isr_stub irq_stub syscall_entry n =
     (if n < 32 then Some (isr_stub n) else if n < 48 then Some (irq_stub (n - 32))
      else if n = 0x80 then Some syscall_entry else None)"

lemma gate_type_bits:
  "bit (0x8E :: u8) 7" "bit (0xEE :: u8) 7" "drop_bit 5 (0x8E :: u8) AND 3 = 0" "drop_bit 5 (0xEE :: u8) AND 3 = 3" "\<not> bit (0 :: u8) 7"
  by (simp_all add: drop_bit_eq_div)

text \<open>
  The interrupt table: vectors 0 to 47 and 0x80 reach exactly the stub the kernel installed for
  them, every other vector is not present, and the system call gate is the only one user code may
  enter with an \<open>int\<close> instruction.
\<close>

theorem boot_gates_spec:
  "let g = boot_gates isr_stub irq_stub syscall_entry (\<lambda>_. zero_gate) n
   in (if gate_present g then Some (gate_handler g) else None) = gate_for isr_stub irq_stub syscall_entry n \<and>
      (gate_present g \<and> gate_dpl g = 3 \<longleftrightarrow> n = 0x80)"
proof -
  have e: "boot_gates isr_stub irq_stub syscall_entry (\<lambda>_. zero_gate) n =
    (if n = 0x80 then idt_set_gate n syscall_entry KERNEL_CS 0xEE (\<lambda>_. zero_gate) n
     else if n < 32 then idt_set_gate n (isr_stub n) KERNEL_CS 0x8E (\<lambda>_. zero_gate) n
     else if n < 48 then idt_set_gate n (irq_stub (n - 32)) KERNEL_CS 0x8E (\<lambda>_. zero_gate) n else zero_gate)"
    using fold_gates [of 0 isr_stub KERNEL_CS "0x8E" 32 "\<lambda>_. zero_gate"]
      fold_gates [of "0x20" irq_stub KERNEL_CS "0x8E" 16]
    by (simp add: boot_gates_def idt_set_gate_def)
  have p: "gate_present (idt_set_gate v h c t idt v) = bit t 7" "gate_dpl (idt_set_gate v h c t idt v) = drop_bit 5 t AND 3" for v h c t idt
    by (simp_all add: gate_present_def gate_dpl_def idt_set_gate_def)
  show ?thesis
    unfolding Let_def e gate_for_def
    by (simp add: idt_set_gate_handler p gate_type_bits) (simp add: gate_present_def zero_gate_def)
qed

lemma gdt_set_tss_fields:
  assumes "limit < 2 ^ 20"
  shows "desc_base (gdt_set_tss base limit gdt 5) = base \<and> desc_limit (gdt_set_tss base limit gdt 5) = limit"
proof -
  have h: "n < 20" if "bit limit n" for n
  proof -
    have "limit AND mask 20 = limit" by (rule less_mask_eq [OF assms])
    then show ?thesis using that by (metis bit_and_iff bit_mask_iff)
  qed
  define c where "c = (0x89 :: u64)"
  have c: "bit c n \<longleftrightarrow> n = 0 \<or> n = 3 \<or> n = 7" for n
    by (auto simp: c_def bit_numeral_rec bit_1_iff split: nat.splits)
  note D = gdt_set_tss_def [of base limit gdt, unfolded c_def [symmetric]]
  have "desc_base (gdt_set_tss base limit gdt 5) = base"
    by (rule bit_word_eqI) (auto simp: desc_base_def D bit_simps mask_numerals c)
  moreover have "desc_limit (gdt_set_tss base limit gdt 5) = limit"
    by (rule bit_word_eqI) (auto simp: desc_limit_def D bit_simps mask_numerals c dest: h)
  ultimately show ?thesis ..
qed

text \<open>
  The task state segment leaves its permission map at offset 0, inside the segment, so the
  segment's own zeros are read as a map: user code may access the ports 0x60 to 0x32F directly,
  among them the keyboard controller, the second interrupt controller and the disk.
\<close>

theorem tss_init_opens_ports:
  assumes "96 \<le> p" "p < 816"
  shows "port_allowed (tss_bytes (fst (tss_init addr stack gdt))) (desc_limit (snd (tss_init addr stack gdt) 5)) p"
proof -
  define tb where "tb = tss_bytes (fst (tss_init addr stack gdt))"
  have limit: "desc_limit (snd (tss_init addr stack gdt) 5) = 103"
    using gdt_set_tss_fields [of 103 addr gdt] by (simp add: tss_init_def TSS_SIZE_def)
  have z32: "le32_bytes 0 = [0, 0, 0, 0]" and z16: "le16_bytes 0 = [0, 0]" by (simp_all add: le32_bytes_def le16_bytes_def)
  have tb: "tb = le32_bytes 0 @ le32_bytes stack @ le32_bytes 0x10 @ replicate 92 0"
    by (simp add: tb_def tss_bytes_def tss_init_def zero_tss_def KERNEL_DS_def z32 z16) (simp add: numeral_eq_Suc)
  have z: "arr_get tb i = 0" if "12 \<le> i" for i
    using that by (auto simp: tb arr_get_def nth_append le32_bytes_def)
  have "p div 8 + 1 \<le> 103" "12 \<le> p div 8" using assms by simp_all
  then show ?thesis using z [of "p div 8"] unfolding limit tb_def [symmetric]
    by (simp add: port_allowed_def le16_def z)
qed

theorem tss_init_opens_ports_witness:
  "port_allowed (tss_bytes (fst (tss_init 0x20000 0x9F000 (\<lambda>_. 0)))) (desc_limit (snd (tss_init 0x20000 0x9F000 (\<lambda>_. 0)) 5)) 0x1F7"
  by (rule tss_init_opens_ports) simp_all

end
