(* ===== verification/Timer.thy ===== *)
theory Timer
  imports Acpi Descriptors Threads
begin

text \<open>
  Timekeeping of kernel/kernel.c: calibration of the time stamp counter and of the local APIC timer
  against the ACPI power-management timer, the probe for a working tick, and the delays built on
  them. The clocks are hardware: a \<open>clocks\<close> record gives what the \<open>n\<close>-th read of each returns and how
  many timer interrupts are served before it; the state counts the reads.
\<close>

subsection \<open>Division\<close>

text \<open>One turn of the bit loop of \<open>div_u64_u32\<close>, and the loop from bit \<open>i - 1\<close> down to 0.\<close>

definition div_step :: "u64 \<Rightarrow> u32 \<Rightarrow> nat \<Rightarrow> u64 \<times> u32 \<Rightarrow> u64 \<times> u32" where
  "div_step n d i qr =
     (let (q, rem) = qr;
          rem = push_bit 1 rem OR ucast (drop_bit i n AND 1)
      in if rem \<ge> d then (q OR push_bit i 1, rem - d) else (q, rem))"

fun div_loop :: "u64 \<Rightarrow> u32 \<Rightarrow> nat \<Rightarrow> u64 \<times> u32 \<Rightarrow> u64 \<times> u32" where
  "div_loop n d 0 qr = qr"
| "div_loop n d (Suc i) qr = div_loop n d i (div_step n d i qr)"

definition div_u64_u32 :: "u64 \<Rightarrow> u32 \<Rightarrow> u64" where
  "div_u64_u32 n d = (if d = 0 then 0 else fst (div_loop n d 64 (0, 0)))"

subsection \<open>Clocks\<close>

record clocks =
  pm_at :: "nat \<Rightarrow> u32"
  tsc_at :: "nat \<Rightarrow> u64"
  irq_at :: "nat \<Rightarrow> nat"
  lapic_at :: "nat \<Rightarrow> u32"

record machine =
  dsp :: disp
  sch :: sched
  idt :: idt_table
  timer_alive :: bool
  tsc_khz :: u32
  lapic :: u32
  lapic_log :: "(u32 \<times> u32) list"
  apic_base :: u64
  now :: nat

text \<open>A moment passes: the timer interrupts that are due are served.\<close>

definition elapse :: "clocks \<Rightarrow> machine \<Rightarrow> machine" where
  "elapse ck s = s\<lparr>now := now s + 1, sch := sch s\<lparr>timer_ticks := timer_ticks (sch s) + of_nat (irq_at ck (now s))\<rparr>\<rparr>"

definition rdtsc :: "clocks \<Rightarrow> machine \<Rightarrow> u64 \<times> machine" where
  "rdtsc ck s = (tsc_at ck (now s), elapse ck s)"

definition pm_tmr_read :: "clocks \<Rightarrow> machine \<Rightarrow> u32 \<times> machine" where
  "pm_tmr_read ck s =
     (let v = pm_at ck (now s)
      in (if pm_tmr_32bit (dsp s) \<noteq> 0 then v else v AND 0x00FFFFFF, elapse ck s))"

definition pm_mask :: "machine \<Rightarrow> u32" where
  "pm_mask s = (if pm_tmr_32bit (dsp s) \<noteq> 0 then 0xFFFFFFFF else 0x00FFFFFF)"

subsection \<open>Calibrating the time stamp counter\<close>

text \<open>The bounded wait: \<open>guard\<close> turns are left.\<close>

fun calib_loop :: "clocks \<Rightarrow> u32 \<Rightarrow> u32 \<Rightarrow> nat \<Rightarrow> u32 \<Rightarrow> machine \<Rightarrow> u32 \<times> machine" where
  "calib_loop ck t0 want 0 elapsed s = (elapsed, s)"
| "calib_loop ck t0 want (Suc guard) elapsed s =
     (if elapsed < want
      then let (tnow, s) = pm_tmr_read ck s
           in calib_loop ck t0 want guard ((tnow - t0) AND pm_mask s) s
      else (elapsed, s))"

definition tsc_calibrate :: "clocks \<Rightarrow> machine \<Rightarrow> machine" where
  "tsc_calibrate ck s =
     (if pm_tmr_port (dsp s) = 0 then s
      else
        let want = 3579545 div 100;
            (t0, s) = pm_tmr_read ck s;
            (c0, s) = rdtsc ck s;
            (elapsed, s) = calib_loop ck t0 want 200000000 0 s;
            (c1, s) = rdtsc ck s
        in if elapsed < want then s
           else
             let dt = c1 - c0;
                 khz = div_u64_u32 (dt * 3579545) (elapsed * 1000)
             in if khz > 100000 \<and> khz < 20000000 then s\<lparr>tsc_khz := ucast khz\<rparr> else s)"

text \<open>Busy waiting; \<open>None\<close> when the counter never gets there.\<close>

partial_function (option) tsc_wait :: "clocks \<Rightarrow> u64 \<Rightarrow> machine \<Rightarrow> machine option" where
  "tsc_wait ck target s =
     (let (c, s) = rdtsc ck s in if sint (c - target) < 0 then tsc_wait ck target s else Some s)"

definition tsc_delay_ms :: "clocks \<Rightarrow> u32 \<Rightarrow> machine \<Rightarrow> machine option" where
  "tsc_delay_ms ck ms s =
     (if tsc_khz s = 0 then Some s
      else let (c, s) = rdtsc ck s in tsc_wait ck (c + ucast ms * ucast (tsc_khz s)) s)"

subsection \<open>Probing the tick\<close>

partial_function (option) probe_pm :: "clocks \<Rightarrow> u32 \<Rightarrow> u32 \<Rightarrow> machine \<Rightarrow> machine option" where
  "probe_pm ck start t0 s =
     (let (t, s) = pm_tmr_read ck s in
      if (t - t0) AND pm_mask s < 3579545 div 20
      then if timer_ticks (sch s) \<noteq> start then Some (s\<lparr>timer_alive := True\<rparr>) else probe_pm ck start t0 s
      else Some s)"

fun probe_spin :: "clocks \<Rightarrow> u32 \<Rightarrow> nat \<Rightarrow> machine \<Rightarrow> machine" where
  "probe_spin ck start 0 s = s"
| "probe_spin ck start (Suc guard) s =
     (if timer_ticks (sch s) \<noteq> start then s\<lparr>timer_alive := True\<rparr> else probe_spin ck start guard (elapse ck s))"

definition timer_probe :: "clocks \<Rightarrow> machine \<Rightarrow> machine option" where
  "timer_probe ck s =
     (let start = timer_ticks (sch s); s = s\<lparr>timer_alive := False\<rparr> in
      if pm_tmr_port (dsp s) \<noteq> 0
      then let (t0, s) = pm_tmr_read ck s in probe_pm ck start t0 s
      else Some (probe_spin ck start 50000000 s))"

subsection \<open>The local APIC timer\<close>

definition LAPIC_VECTOR :: nat where "LAPIC_VECTOR = 48"
definition LAPIC_SVR :: u32 where "LAPIC_SVR = 0x0F0"
definition LAPIC_EOI :: u32 where "LAPIC_EOI = 0x0B0"
definition LAPIC_LVT_TMR :: u32 where "LAPIC_LVT_TMR = 0x320"
definition LAPIC_TMR_INIT :: u32 where "LAPIC_TMR_INIT = 0x380"
definition LAPIC_TMR_CUR :: u32 where "LAPIC_TMR_CUR = 0x390"
definition LAPIC_TMR_DIV :: u32 where "LAPIC_TMR_DIV = 0x3E0"
definition LAPIC_VIRT :: u32 where "LAPIC_VIRT = 0x1F000000"

definition lapic_write :: "u32 \<Rightarrow> u32 \<Rightarrow> machine \<Rightarrow> machine" where
  "lapic_write reg v s = s\<lparr>lapic_log := lapic_log s @ [(reg div 4 * 4, v)]\<rparr>"

definition lapic_read :: "clocks \<Rightarrow> u32 \<Rightarrow> machine \<Rightarrow> u32 \<times> machine" where
  "lapic_read ck reg s = (lapic_at ck (now s), elapse ck s)"

fun pm_wait_loop :: "clocks \<Rightarrow> u32 \<Rightarrow> u32 \<Rightarrow> nat \<Rightarrow> machine \<Rightarrow> machine" where
  "pm_wait_loop ck t0 pm_ticks 0 s = s"
| "pm_wait_loop ck t0 pm_ticks (Suc guard) s =
     (let (t, s) = pm_tmr_read ck s in
      if (t - t0) AND pm_mask s \<ge> pm_ticks then s else pm_wait_loop ck t0 pm_ticks guard s)"

definition pm_tmr_wait :: "clocks \<Rightarrow> u32 \<Rightarrow> machine \<Rightarrow> machine" where
  "pm_tmr_wait ck pm_ticks s = (let (t0, s) = pm_tmr_read ck s in pm_wait_loop ck t0 pm_ticks 400000000 s)"

definition with_vm :: "(vm \<Rightarrow> vm) \<Rightarrow> machine \<Rightarrow> machine" where
  "with_vm f s = s\<lparr>dsp := with_con (\<lambda>c. c\<lparr>video := f (video c)\<rparr>) (dsp s)\<rparr>"

abbreviation vm_of :: "machine \<Rightarrow> vm" where "vm_of s \<equiv> video (con (dsp s))"

definition lapic_timer_init :: "clocks \<Rightarrow> u32 \<Rightarrow> machine \<Rightarrow> int \<times> machine" where
  "lapic_timer_init ck irq48 s =
     (if pm_tmr_port (dsp s) = 0 then (0, s)
      else
        let lo = ucast (apic_base s) :: u32; hi = ucast (drop_bit 32 (apic_base s)) :: u32;
            base = lo AND 0xFFFFF000
        in if base = 0 \<or> hi \<noteq> 0 then (0, s)
        else
          let s = (if lo AND push_bit 11 1 = 0 then s\<lparr>apic_base := apic_base s OR push_bit 11 1\<rparr> else s);
              s = with_vm (\<lambda>v. map_phys_at (kernel_pdpt v) LAPIC_VIRT (ucast base) PAGE_SIZE PTE_W v) s;
              s = with_vm (\<lambda>v. map_phys_at (proc_pdpt v) LAPIC_VIRT (ucast base) PAGE_SIZE PTE_W v) s;
              s = with_vm reload_cr3 s;
              s = s\<lparr>lapic := LAPIC_VIRT\<rparr>;
              (svr, s) = lapic_read ck LAPIC_SVR s;
              s = lapic_write LAPIC_SVR (svr OR 0x100 OR 0xFF) s;
              s = lapic_write LAPIC_TMR_DIV 0x3 s;
              s = lapic_write LAPIC_LVT_TMR 0x10000 s;
              s = lapic_write LAPIC_TMR_INIT 0xFFFFFFFF s;
              s = pm_tmr_wait ck (3579545 div 100) s;
              (cur, s) = lapic_read ck LAPIC_TMR_CUR s;
              elapsed = 0xFFFFFFFF - cur;
              s = lapic_write LAPIC_TMR_INIT 0 s
          in if elapsed < 1000 then (0, s)
             else
               let s = s\<lparr>idt := idt_set_gate LAPIC_VECTOR irq48 KERNEL_CS 0x8E (idt s)\<rparr>;
                   s = lapic_write LAPIC_TMR_DIV 0x3 s;
                   s = lapic_write LAPIC_LVT_TMR (of_nat LAPIC_VECTOR OR push_bit 17 1) s;
                   s = lapic_write LAPIC_TMR_INIT elapsed s
               in (1, s))"

subsection \<open>Division is division\<close>

lemma unat_or_add:
  fixes x y :: "'a::len word"
  assumes "x AND y = 0" "unat x + unat y < 2 ^ LENGTH('a)"
  shows "unat (x OR y) = unat x + unat y"
proof -
  have "x + y = x OR y" by (rule disjunctive_add_eq_or [OF assms(1)])
  then show ?thesis using assms(2) unat_add_lem [THEN iffD1, of x y] by simp
qed

lemma rem_shift:
  assumes "2 * unat (rem :: u32) + 1 < 2 ^ 32"
  shows "unat (push_bit 1 rem OR ucast (drop_bit i (n :: u64) AND 1)) = 2 * unat rem + unat n div 2 ^ i mod 2"
proof -
  have p: "unat (push_bit 1 rem) = 2 * unat rem"
    using assms by (simp add: push_bit_eq_mult unat_mult_lem [THEN iffD1])
  have dr: "unat (drop_bit i n) = unat n div 2 ^ i" using unat_drop_bit_eq [of i n] drop_bit_eq_div [of i "unat n"] by (rule trans)
  have "drop_bit i n AND 1 = drop_bit i n mod 2" by (simp add: and_one_eq)
  then have b: "unat (ucast (drop_bit i n AND 1) :: u32) = unat n div 2 ^ i mod 2"
    by (simp only: unsigned_ucast_eq unat_mod dr) (simp add: take_bit_nat_eq_self)
  have "push_bit 1 rem AND ucast (drop_bit i n AND 1) = 0"
    by (rule bit_word_eqI) (auto simp only: bit_and_iff bit_push_bit_iff bit_unsigned_iff bit_drop_bit_eq bit_1_iff bit_0_eq bot_apply bot_bool_def)
  then have "unat (push_bit 1 rem OR ucast (drop_bit i n AND 1)) = unat (push_bit 1 rem) + unat (ucast (drop_bit i n AND 1) :: u32)"
    by (rule unat_or_add) (use assms p b in simp)
  then show ?thesis using p b by simp
qed

lemma quot_or:
  assumes q: "unat (q :: u64) = a * 2 ^ Suc i" and i: "i < 64"
  shows "unat (q OR push_bit i 1) = (2 * a + 1) * 2 ^ i"
proof -
  have u: "unat (push_bit i 1 :: u64) = 2 ^ i" 
  proof -
    have "(push_bit i 1 :: u64) = of_nat (2 ^ i)" by simp
    moreover have "(2 ^ i :: nat) < 2 ^ 64" using i by (intro power_strict_increasing) simp_all
    ultimately show ?thesis using i by (simp only: unsigned_of_nat) (simp add: take_bit_nat_eq_self)
  qed
  have lt: "unat q < 2 ^ 64" using unsigned_less [of q] by simp
  have "2 * a < 2 ^ (64 - i)"
  proof -
    have "(2 * a) * 2 ^ i < 2 ^ (64 - i) * 2 ^ i" using lt q i by (simp flip: power_add add: mult_ac)
    then show ?thesis by simp
  qed
  moreover have "even (2 ^ (64 - i) :: nat)" using i by simp
  ultimately have "2 * a + 1 < 2 ^ (64 - i)" by presburger
  then have "(2 * a + 1) * 2 ^ i < 2 ^ (64 - i) * 2 ^ i" by (rule mult_strict_right_mono) simp
  then have s: "unat q + 2 ^ i < 2 ^ 64" using q i by (simp flip: power_add add: algebra_simps)
  have z: "q AND push_bit i 1 = 0"
  proof -
    have "\<not> bit q i"
    proof -
      have "bit q i \<longleftrightarrow> bit (unat q) i" by (simp add: bit_unsigned_iff)
      also have "\<dots> \<longleftrightarrow> odd (unat q div 2 ^ i)" by (rule bit_iff_odd)
      also have "unat q div 2 ^ i = 2 * a" by (simp add: q mult_ac)
      finally show ?thesis by simp
    qed
    then show ?thesis by (intro bit_word_eqI) (auto simp: bit_simps)
  qed
  have "unat (q OR push_bit i 1) = unat q + unat (push_bit i 1 :: u64)" by (rule unat_or_add [OF z]) (use s u in simp)
  then show ?thesis using u q by (simp add: algebra_simps)
qed

lemma div_loop_inv:
  assumes D: "0 < unat d" "unat d \<le> 2 ^ 31"
  shows "i \<le> 64 \<Longrightarrow> unat q = unat n div 2 ^ i div unat d * 2 ^ i \<Longrightarrow> unat rem = unat n div 2 ^ i mod unat d \<Longrightarrow>
    unat (fst (div_loop n d i (q, rem))) = unat n div unat d"
proof (induction i arbitrary: q rem)
  case (Suc i)
  define N where "N = unat n div 2 ^ Suc i"
  define b where "b = unat n div 2 ^ i mod 2"
  have "N = unat n div 2 ^ i div 2" by (simp only: N_def power_Suc2 div_mult2_eq)
  then have N: "unat n div 2 ^ i = 2 * N + b" by (simp add: b_def)
  have b1: "b < 2" by (simp add: b_def)
  define r where "r = push_bit 1 rem OR ucast (drop_bit i n AND 1)"
  have rd: "unat rem < unat d" using Suc.prems(3) D by simp
  have r: "unat r = 2 * (N mod unat d) + b"
  proof -
    have "unat r = 2 * unat rem + b" unfolding r_def b_def by (rule rem_shift) (use rd D(2) in simp)
    then show ?thesis by (simp only: Suc.prems(3) N_def)
  qed
  have q: "unat q = N div unat d * 2 ^ Suc i" using Suc.prems(2) by (simp add: N_def)
  have NN: "2 * N + b = 2 * (N div unat d) * unat d + unat r"
    using r by (metis (no_types, lifting) add.assoc div_mult_mod_eq mult.assoc mult_2 distrib_left)
  show ?case
  proof (cases "r \<ge> d")
    case True
    have le: "unat d \<le> unat r" using True by (simp add: word_le_nat_alt)
    have lt: "unat r - unat d < unat d" using r b1 rd Suc.prems(3) by (simp add: N_def)
    have e: "2 * N + b = (2 * (N div unat d) + 1) * unat d + (unat r - unat d)" using NN le by (simp add: algebra_simps)
    have qq: "(2 * N + b) div unat d = 2 * (N div unat d) + 1" using lt D by (subst e, subst div_mult_self3) simp_all
    have mm: "(2 * N + b) mod unat d = unat r - unat d" unfolding e using lt by (simp only: mod_mult_self3 mod_less)
    have "unat (fst (div_loop n d i (q OR push_bit i 1, r - d))) = unat n div unat d"
    proof (rule Suc.IH)
      show "i \<le> 64" using Suc.prems by simp
      show "unat (q OR push_bit i 1) = unat n div 2 ^ i div unat d * 2 ^ i"
        using quot_or [OF q] Suc.prems(1) qq by (simp add: N)
      show "unat (r - d) = unat n div 2 ^ i mod unat d" using True mm by (simp add: N unat_sub)
    qed
    then show ?thesis using True by (simp add: div_step_def r_def Let_def)
  next
    case False
    have lt: "unat r < unat d" using False by (simp add: word_le_nat_alt)
    have qq: "(2 * N + b) div unat d = 2 * (N div unat d)" "(2 * N + b) mod unat d = unat r"
      unfolding NN using lt D by simp_all
    have "unat (fst (div_loop n d i (q, r))) = unat n div unat d"
      by (rule Suc.IH) (use Suc.prems q qq in \<open>simp_all add: N\<close>)
    then show ?thesis using False by (simp add: div_step_def r_def Let_def)
  qed
qed simp

lemma div_eq:
  assumes "d \<noteq> 0" "d \<le> 2 ^ 31"
  shows "div_u64_u32 n d = n div ucast d"
proof -
  have D: "0 < unat d" "unat d \<le> 2 ^ 31" using assms by (simp_all add: word_le_nat_alt unat_gt_0)
  have "unat n < 2 ^ 64" using unsigned_less [of n] by simp
  then have "unat (fst (div_loop n d 64 (0, 0))) = unat n div unat d" by (intro div_loop_inv [OF D]) simp_all
  then have "unat (div_u64_u32 n d) = unat (n div ucast d)" using assms by (simp add: div_u64_u32_def unat_div)
  then show ?thesis by (rule word_unat_eq_iff [THEN iffD2])
qed

text \<open>
  C20. The kernel's own 64 by 32 bit division is division: for every divisor up to \<open>2 ^ 31\<close> the bit loop
  returns the quotient rounded down. Above that the shifted remainder can lose its top bit.
\<close>

theorem div_u64_u32_correct:
  assumes "d \<noteq> 0" "d \<le> 2 ^ 31"
  shows "div_u64_u32 n d = n div ucast d"
  by (rule div_eq [OF assms])

theorem div_u64_u32_correct_witness: "div_u64_u32 35795450000000 35795000 = 1000012"
  using div_u64_u32_correct [of 35795000 35795450000000] by simp

subsection \<open>Calibration\<close>

definition pm_val :: "clocks \<Rightarrow> machine \<Rightarrow> nat \<Rightarrow> u32" where
  "pm_val ck s k = fst (pm_tmr_read ck (s\<lparr>now := k\<rparr>))"

text \<open>Ticks of the power-management timer between reads \<open>i\<close> and \<open>j\<close>, wrap-around included.\<close>

definition pm_diff :: "clocks \<Rightarrow> machine \<Rightarrow> nat \<Rightarrow> nat \<Rightarrow> u32" where
  "pm_diff ck s i j = (pm_val ck s j - pm_val ck s i) AND pm_mask s"

lemma elapse_simps [simp]:
  "now (elapse ck s) = now s + 1" "dsp (elapse ck s) = dsp s" "tsc_khz (elapse ck s) = tsc_khz s"
  "timer_alive (elapse ck s) = timer_alive s" "idt (elapse ck s) = idt s" "lapic (elapse ck s) = lapic s"
  by (simp_all add: elapse_def)

lemma elapse_power [simp]:
  "now ((elapse ck ^^ k) s) = now s + k" "dsp ((elapse ck ^^ k) s) = dsp s" "tsc_khz ((elapse ck ^^ k) s) = tsc_khz s"
  by (induction k) simp_all

lemma pm_cong:
  "dsp s' = dsp s \<Longrightarrow> pm_val ck s' = pm_val ck s" "dsp s' = dsp s \<Longrightarrow> pm_mask s' = pm_mask s"
  "dsp s' = dsp s \<Longrightarrow> pm_diff ck s' = pm_diff ck s"
  by (auto simp: pm_val_def pm_mask_def pm_diff_def pm_tmr_read_def Let_def intro!: ext)

lemma pm_elapse [simp]:
  "pm_val ck (elapse ck' s) = pm_val ck s" "pm_mask (elapse ck' s) = pm_mask s" "pm_diff ck (elapse ck' s) = pm_diff ck s"
  by (rule pm_cong, simp)+

lemma pm_tmr_read_eq: "pm_tmr_read ck s = (pm_val ck s (now s), elapse ck s)"
  by (simp add: pm_val_def pm_tmr_read_def Let_def)

lemma calib_loop_reach:
  "(\<And>j. j < k \<Longrightarrow> (pm_val ck s (now s + j) - t0) AND pm_mask s < want) \<Longrightarrow>
   \<not> (pm_val ck s (now s + k) - t0) AND pm_mask s < want \<Longrightarrow> k < guard \<Longrightarrow> elapsed < want \<Longrightarrow>
   calib_loop ck t0 want guard elapsed s = ((pm_val ck s (now s + k) - t0) AND pm_mask s, (elapse ck ^^ Suc k) s)"
proof (induction k arbitrary: guard elapsed s)
  case 0
  then obtain g where g: "guard = Suc g" by (cases guard) simp_all
  have "calib_loop ck t0 want guard elapsed s = calib_loop ck t0 want g ((pm_val ck s (now s) - t0) AND pm_mask s) (elapse ck s)"
    using 0(4) by (simp add: g pm_tmr_read_eq)
  moreover have "calib_loop ck t0 want g e s' = (e, s')" if "\<not> e < want" for e s' using that by (cases g) simp_all
  ultimately show ?case using 0(2) by simp
next
  case (Suc k)
  then obtain g where g: "guard = Suc g" by (cases guard) simp_all
  have c: "pm_val ck (elapse ck s) = pm_val ck s" "pm_mask (elapse ck s) = pm_mask s" by simp_all
  have "calib_loop ck t0 want guard elapsed s = calib_loop ck t0 want g ((pm_val ck s (now s) - t0) AND pm_mask s) (elapse ck s)"
    using Suc.prems(4) by (simp add: g pm_tmr_read_eq c)
  also have "\<dots> = ((pm_val ck (elapse ck s) (now (elapse ck s) + k) - t0) AND pm_mask (elapse ck s), (elapse ck ^^ Suc k) (elapse ck s))"
  proof (rule Suc.IH)
    fix j assume "j < k"
    then show "(pm_val ck (elapse ck s) (now (elapse ck s) + j) - t0) AND pm_mask (elapse ck s) < want"
      using Suc.prems(1) [of "Suc j"] by (simp add: c)
  qed (use Suc.prems g Suc.prems(1) [of 0] in \<open>simp_all add: c\<close>)
  also have "(elapse ck ^^ Suc k) (elapse ck s) = (elapse ck ^^ Suc (Suc k)) s" by (simp only: funpow_Suc_right o_apply)
  finally show ?case by (simp add: c)
qed

text \<open>
  Calibration measures the processor's clock. Let read \<open>n + 2 + k\<close> be the first at which the
  power-management timer has moved 10 ms past its first reading (wrap-around of 24 or 32 bits
  included), within the bound on the wait. Then the frequency in kHz is the cycles the time stamp
  counter moved, times 3579545, over the ticks times 1000, rounded down, and it is stored when it
  lies between 100 MHz and 20 GHz.
\<close>

theorem tsc_calibrate_khz:
  assumes n_def: "n = now s" and e_def: "e = pm_diff ck s n (n + 2 + k)"
    and khz_def: "khz = (tsc_at ck (n + 3 + k) - tsc_at ck (n + 1)) * 3579545 div (ucast e * 1000)"
    and port: "pm_tmr_port (dsp s) \<noteq> 0"
    and before: "\<And>j. j < k \<Longrightarrow> pm_diff ck s n (n + 2 + j) < 35795"
    and reached: "35795 \<le> e" "e \<le> 2147483" and bound: "k < 200000000"
  shows "tsc_khz (tsc_calibrate ck s) = (if 100000 < khz \<and> khz < 20000000 then ucast khz else tsc_khz s)"
proof -
  define s2 where "s2 = elapse ck (elapse ck s)"
  have c: "pm_val ck s2 = pm_val ck s" "pm_mask s2 = pm_mask s" "now s2 = n + 2" "tsc_khz s2 = tsc_khz s"
    by (simp_all add: s2_def n_def)
  have l: "calib_loop ck (pm_val ck s n) 35795 200000000 0 s2 = (e, (elapse ck ^^ Suc k) s2)"
    using calib_loop_reach [of k ck s2 "pm_val ck s n" 35795 200000000 0] before reached bound
    by (simp add: c e_def pm_diff_def not_less)
  have d: "div_u64_u32 x (e * 1000) = x div (ucast e * 1000)" for x
  proof -
    have ue: "35795 \<le> unat e" "unat e \<le> 2147483" using reached by (simp_all add: word_le_nat_alt)
    have m: "unat (e * 1000) = unat e * 1000" using ue by (subst unat_mult_lem [THEN iffD1]) simp_all
    have "div_u64_u32 x (e * 1000) = x div ucast (e * 1000)"
      by (rule div_eq) (use m ue in \<open>simp_all add: word_le_nat_alt unat_eq_0 [symmetric]\<close>)
    moreover have "(ucast (e * 1000) :: u64) = ucast e * 1000"
      using m ue by (intro word_unat_eq_iff [THEN iffD2]) (simp add: unat_ucast64 unat_mult_lem [THEN iffD1])
    ultimately show ?thesis by simp
  qed
  have kz: "(tsc_at ck (Suc (Suc (Suc (n + k)))) - tsc_at ck (Suc n)) * 3579545 div (ucast e * 1000) = khz"
    unfolding khz_def by (simp add: numeral_3_eq_3 del: left_diff_distrib_numeral)
  have "\<not> e < 35795" using reached by (simp add: not_less)
  then show ?thesis
    using port c l
    by (simp add: tsc_calibrate_def pm_tmr_read_eq rdtsc_def s2_def [symmetric] n_def [symmetric] d kz Let_def del: left_diff_distrib_numeral)
qed

definition demo_machine :: machine where
  "demo_machine = \<lparr>dsp = demo_disp\<lparr>pm_tmr_port := 0x608, pm_tmr_32bit := 1\<rparr>, sch = boot_sched, idt = (\<lambda>_. zero_gate),
     timer_alive = False, tsc_khz = 0, lapic = 0, lapic_log = [], apic_base = 0xFEE00900, now = 0\<rparr>"

definition demo_clocks :: clocks where
  "demo_clocks = \<lparr>pm_at = (\<lambda>n. of_nat (n * 40000)), tsc_at = (\<lambda>n. of_nat (n * 40000000)), irq_at = (\<lambda>_. 0), lapic_at = (\<lambda>_. 0)\<rparr>"

theorem tsc_calibrate_khz_witness: "tsc_khz (tsc_calibrate demo_clocks demo_machine) = 3579545"
proof -
  have v: "pm_val demo_clocks demo_machine n = of_nat (n * 40000)" for n
    by (simp add: pm_val_def pm_tmr_read_def demo_machine_def demo_clocks_def)
  have mk: "pm_mask demo_machine = 0xFFFFFFFF" by (simp add: pm_mask_def demo_machine_def)
  have e: "pm_diff demo_clocks demo_machine 0 2 = 80000" by (simp add: pm_diff_def v mk)
  then have e': "pm_diff demo_clocks demo_machine 0 (Suc (Suc 0)) = 80000" by (simp only: numeral_2_eq_2)
  have "tsc_khz (tsc_calibrate demo_clocks demo_machine) =
    (if 100000 < (3579545 :: u64) \<and> (3579545 :: u64) < 20000000 then ucast (3579545 :: u64) else tsc_khz demo_machine)"
    by (rule tsc_calibrate_khz [of 0 _ 80000 _ 0 3579545], simp_all add: e e') (simp_all add: demo_machine_def demo_clocks_def)
  then show ?thesis by simp
qed

subsection \<open>The probe\<close>

definition stuck :: "clocks \<Rightarrow> u32 \<Rightarrow> u32 \<Rightarrow> machine \<Rightarrow> bool" where
  "stuck ck start t0 s \<longleftrightarrow> (\<forall>n. (pm_val ck s n - t0) AND pm_mask s < 3579545 div 20) \<and> (\<forall>n. irq_at ck n = 0) \<and>
     timer_ticks (sch s) = start"

lemma stuck_elapse: "stuck ck start t0 s \<Longrightarrow> stuck ck start t0 (elapse ck s)"
  by (simp add: stuck_def) (simp add: elapse_def)

lemma probe_pm_stuck: "probe_pm ck start t0 s = Some s' \<Longrightarrow> \<not> stuck ck start t0 s"
proof (rule probe_pm.raw_induct [where P = "\<lambda>ck start t0 s s'. \<not> stuck ck start t0 s"])
  fix f :: "clocks \<Rightarrow> u32 \<Rightarrow> u32 \<Rightarrow> machine \<Rightarrow> machine option" and ck start t0 s y
  assume IH: "\<And>ck start t0 s y. f ck start t0 s = Some y \<Longrightarrow> \<not> stuck ck start t0 s"
    and b: "(let (t, s) = pm_tmr_read ck s in
      if (t - t0) AND pm_mask s < 3579545 div 20
      then if timer_ticks (sch s) \<noteq> start then Some (s\<lparr>timer_alive := True\<rparr>) else f ck start t0 s
      else Some s) = Some y"
  show "\<not> stuck ck start t0 s"
  proof
    assume a: "stuck ck start t0 s"
    have t: "timer_ticks (sch (elapse ck s)) = start" "\<And>n. (pm_val ck s n - t0) AND pm_mask s < 178977"
      using stuck_elapse [OF a] a by (simp_all add: stuck_def)
    have "f ck start t0 (elapse ck s) = Some y" using b t by (simp add: pm_tmr_read_eq)
    then show False using IH stuck_elapse [OF a] by blast
  qed
qed

text \<open>
  C21. The probe for a tick is not bounded when there is a power-management timer: if that timer stands
  still and no timer interrupt arrives, \<open>timer_probe\<close> never returns and the machine does not boot.
  The calibration after it is bounded for this very case, but is never reached.
\<close>

theorem timer_probe_stuck:
  assumes "pm_tmr_port (dsp s) \<noteq> 0" "\<And>n. pm_at ck n = v" "\<And>n. irq_at ck n = 0"
  shows "timer_probe ck s = None"
proof (cases "timer_probe ck s")
  case (Some s')
  define s1 where "s1 = elapse ck (s\<lparr>timer_alive := False\<rparr>)"
  have d: "dsp s1 = dsp s" by (simp add: s1_def elapse_def)
  define t0 where "t0 = pm_val ck s (now s)"
  have p: "probe_pm ck (timer_ticks (sch s)) t0 s1 = Some s'"
    using Some assms(1) unfolding timer_probe_def Let_def
    by (simp add: pm_tmr_read_def s1_def t0_def pm_val_def elapse_def Let_def)
  have e: "pm_val ck s1 n = t0" for n unfolding t0_def using assms(2) d by (simp add: pm_val_def pm_tmr_read_def)
  have "timer_ticks (sch s1) = timer_ticks (sch s)" using assms(3) by (simp add: s1_def elapse_def)
  then show ?thesis using probe_pm_stuck [OF p] e assms(3) by (simp add: stuck_def)
qed

theorem timer_probe_stuck_witness: "timer_probe (demo_clocks\<lparr>pm_at := \<lambda>_. 7\<rparr>) demo_machine = None"
  by (rule timer_probe_stuck [of _ _ 7]) (simp_all add: demo_machine_def demo_clocks_def)

end
