(* ===== verification/NvmeInit.thy ===== *)
theory NvmeInit
  imports Nvme Paging
begin

text \<open>
  Bringing up the controller (kernel/nvme.c): finding it on the PCI bus, mapping its registers,
  resetting it, the admin queue, identification, and the one pair of I/O queues the data path in
  theory Nvme uses. The hardware is the record \<open>nvme_hw\<close>: configuration space, the capability
  register, the status values successive polls see, the answers to admin commands; it also has the
  addresses of the driver's static buffers.
\<close>

subsection \<open>Configuration space\<close>

record nvme_hw =
  hw_pci :: "u32 \<Rightarrow> u32"
  hw_cap :: u64
  hw_csts :: "(u32 \<times> u32) list \<Rightarrow> u32 list"
  hw_admin :: "sqe_t \<Rightarrow> u8 list \<Rightarrow> poll list \<times> u8 list"
  admin_sq_addr :: u32
  admin_cq_addr :: u32
  io_sq_addr :: u32
  io_cq_addr :: u32
  ident_addr :: u32

record nvme_boot =
  nd :: nvme
  nvm :: vm
  pci_log :: "(u32 \<times> u32) list"
  admin_q :: queue
  ident_buf :: "u8 list"
  nregs :: u32

definition pci_addr :: "u8 \<Rightarrow> u8 \<Rightarrow> u8 \<Rightarrow> u8 \<Rightarrow> u32" where
  "pci_addr bus dev fn off =
     0x80000000 OR push_bit 16 (ucast bus) OR push_bit 11 (ucast dev) OR push_bit 8 (ucast fn) OR ucast (off AND 0xFC)"

definition pci_read32 :: "nvme_hw \<Rightarrow> u8 \<Rightarrow> u8 \<Rightarrow> u8 \<Rightarrow> u8 \<Rightarrow> u32" where
  "pci_read32 hw bus dev fn off = hw_pci hw (pci_addr bus dev fn off)"

definition pci_write32 :: "u8 \<Rightarrow> u8 \<Rightarrow> u8 \<Rightarrow> u8 \<Rightarrow> u32 \<Rightarrow> nvme_boot \<Rightarrow> nvme_boot" where
  "pci_write32 bus dev fn off v s = s\<lparr>pci_log := pci_log s @ [(pci_addr bus dev fn off, v)]\<rparr>"

text \<open>
  The search, one loop each for functions, devices and buses; the last argument counts the turns
  left. The result is the place and the vendor/device word.
\<close>

fun scan_fns :: "nvme_hw \<Rightarrow> nat \<Rightarrow> nat \<Rightarrow> nat \<Rightarrow> nat \<Rightarrow> (nat \<times> nat \<times> nat \<times> u32) option" where
  "scan_fns hw bus dev fn 0 = None"
| "scan_fns hw bus dev fn (Suc k) =
     (let rd = pci_read32 hw (of_nat bus) (of_nat dev);
          ident = rd (of_nat fn) 0x00
      in if ident AND 0xFFFF = 0xFFFF
         then (if fn = 0 then None else scan_fns hw bus dev (fn + 1) k)
         else if drop_bit 8 (rd (of_nat fn) 0x08) = 0x010802 then Some (bus, dev, fn, ident)
         else if fn = 0 \<and> drop_bit 16 (rd 0 0x0C) AND 0x80 = 0 then None
         else scan_fns hw bus dev (fn + 1) k)"

fun scan_devs :: "nvme_hw \<Rightarrow> nat \<Rightarrow> nat \<Rightarrow> nat \<Rightarrow> (nat \<times> nat \<times> nat \<times> u32) option" where
  "scan_devs hw bus dev 0 = None"
| "scan_devs hw bus dev (Suc k) =
     (case scan_fns hw bus dev 0 8 of Some r \<Rightarrow> Some r | None \<Rightarrow> scan_devs hw bus (dev + 1) k)"

fun scan_buses :: "nvme_hw \<Rightarrow> nat \<Rightarrow> nat \<Rightarrow> (nat \<times> nat \<times> nat \<times> u32) option" where
  "scan_buses hw bus 0 = None"
| "scan_buses hw bus (Suc k) =
     (case scan_devs hw bus 0 32 of Some r \<Rightarrow> Some r | None \<Rightarrow> scan_buses hw (bus + 1) k)"

definition find_controller :: "nvme_hw \<Rightarrow> (nat \<times> nat \<times> nat \<times> u32) option" where
  "find_controller hw = scan_buses hw 0 256"

subsection \<open>Registers and admin commands\<close>

definition REG_CAP :: u32 where "REG_CAP = 0x00"
definition REG_CC :: u32 where "REG_CC = 0x14"
definition REG_CSTS :: u32 where "REG_CSTS = 0x1C"
definition REG_AQA :: u32 where "REG_AQA = 0x24"
definition REG_ASQ :: u32 where "REG_ASQ = 0x28"
definition REG_ACQ :: u32 where "REG_ACQ = 0x30"
definition CC_EN :: u32 where "CC_EN = 1"
definition CSTS_RDY :: u32 where "CSTS_RDY = 1"

lemmas reg_defs = REG_CAP_def REG_CC_def REG_CSTS_def REG_AQA_def REG_ASQ_def REG_ACQ_def

definition mmio_w32 :: "u32 \<Rightarrow> u32 \<Rightarrow> nvme_boot \<Rightarrow> nvme_boot" where
  "mmio_w32 off v s = s\<lparr>nd := (nd s)\<lparr>mmio_log := mmio_log (nd s) @ [(off, v)]\<rparr>\<rparr>"

definition mmio_w64 :: "u32 \<Rightarrow> u64 \<Rightarrow> nvme_boot \<Rightarrow> nvme_boot" where
  "mmio_w64 off v s = mmio_w32 (off + 4) (ucast (drop_bit 32 v)) (mmio_w32 off (ucast v) s)"

fun ready_loop :: "u32 list \<Rightarrow> int \<Rightarrow> int" where
  "ready_loop [] want = -1"
| "ready_loop (csts # cs) want =
     (if csts AND CSTS_CFS \<noteq> 0 then -1
      else if (if csts AND CSTS_RDY \<noteq> 0 then 1 else 0) = want then 0
      else ready_loop cs want)"

definition wait_ready :: "nvme_hw \<Rightarrow> int \<Rightarrow> nvme_boot \<Rightarrow> int" where
  "wait_ready hw want s = ready_loop (take SPIN_LIMIT (hw_csts hw (mmio_log (nd s)))) want"

text \<open>\<open>submit\<close> on the admin queue, as \<open>submit_io\<close> is \<open>submit\<close> on the I/O queue.\<close>

definition admin_cmd :: "nvme_hw \<Rightarrow> sqe_t \<Rightarrow> nvme_boot \<Rightarrow> int \<times> nvme_boot" where
  "admin_cmd hw cmd s =
     (let n = nd s;
          cid = next_cid n;
          slot = cmd\<lparr>cdw0 := (cdw0 cmd AND 0x0000FFFF) OR push_bit 16 (ucast cid)\<rparr>;
          q = admin_q s;
          tail = (q_tail q + 1) mod QDEPTH;
          q = q\<lparr>q_sq := (q_sq q)[unat (q_tail q) := slot], q_tail := tail\<rparr>;
          s = s\<lparr>nd := ring_sq 0 tail (n\<lparr>next_cid := cid + 1\<rparr>), admin_q := q\<rparr>;
          (ps, b) = hw_admin hw slot (ident_buf s);
          s = s\<lparr>ident_buf := b\<rparr>
      in case poll_cq (take SPIN_LIMIT ps) (q_phase q) of
           None \<Rightarrow> (-1, s)
         | Some st \<Rightarrow>
             (let head = (q_head q + 1) mod QDEPTH;
                  phase = (if head = 0 then q_phase q XOR 1 else q_phase q)
              in (int (unat st), s\<lparr>nd := ring_cq 0 head (nd s), admin_q := q\<lparr>q_head := head, q_phase := phase\<rparr>\<rparr>)))"

text \<open>
  \<open>copy_str\<close> into a field of \<open>n + 1\<close> bytes: copy, terminate, then blank trailing spaces and zeros.
\<close>

definition is_pad :: "u8 \<Rightarrow> bool" where "is_pad c \<longleftrightarrow> c = 0x20 \<or> c = 0"

definition copy_str :: "u8 list \<Rightarrow> nat \<Rightarrow> u8 list" where
  "copy_str src n =
     (let d = map (arr_get src) [0..<n];
          keep = length (dropWhile is_pad (rev d))
      in take keep d @ replicate (n - keep) 0 @ [0])"

subsection \<open>Initialisation\<close>

definition zero_info :: nvme_info_t where
  "zero_info = \<lparr>present = False, model = replicate 41 0, serial = replicate 21 0, firmware = replicate 9 0,
     nsid = 0, block_size = 0, blocks = 0, bar = 0, pci_vendor = 0, pci_device = 0, pci_bus = 0, pci_dev = 0, pci_fn = 0\<rparr>"

definition empty_queue :: queue where
  "empty_queue = \<lparr>q_sq = replicate 64 zero_sqe, q_cq = replicate 64 0, q_tail = 0, q_head = 0, q_phase = 1, q_posted = 0\<rparr>"

lemma empty_queue_sync: "q_sync empty_queue"
  by (simp add: q_sync_def empty_queue_def tag_def phase_of_def)

definition set_info :: "(nvme_info_t \<Rightarrow> nvme_info_t) \<Rightarrow> nvme_boot \<Rightarrow> nvme_boot" where
  "set_info f s = s\<lparr>nd := (nd s)\<lparr>info := f (info (nd s))\<rparr>\<rparr>"

text \<open>Up to the registers: the function, its BAR, memory space and bus mastering, the mapping.\<close>

definition nvme_attach :: "nvme_hw \<Rightarrow> nvme_boot \<Rightarrow> int \<times> nvme_boot" where
  "nvme_attach hw s =
     (let s = set_info (\<lambda>_. zero_info) s in
      case find_controller hw of None \<Rightarrow> (-1, s)
      | Some (b, d, f, ident) \<Rightarrow>
        let bus = of_nat b; dev = of_nat d; fn = of_nat f;
            s = set_info (\<lambda>i. i\<lparr>pci_vendor := ucast (ident AND 0xFFFF), pci_device := ucast (drop_bit 16 ident)\<rparr>) s;
            s = set_info (\<lambda>i. i\<lparr>pci_bus := bus, pci_dev := dev, pci_fn := fn\<rparr>) s;
            bar_lo = pci_read32 hw bus dev fn 0x10;
            bar_hi = (if drop_bit 1 bar_lo AND 3 = 2 then pci_read32 hw bus dev fn 0x14 else 0)
        in if bar_lo AND 1 \<noteq> 0 then (-1, s)
        else
          let bar_v = push_bit 32 (ucast bar_hi) OR ucast (bar_lo AND NOT 0xF) :: u64
          in if bar_v = 0 then (-1, s)
          else
            let s = set_info (\<lambda>i. i\<lparr>bar := bar_v\<rparr>) s;
                cmd = pci_read32 hw bus dev fn 0x04;
                s = pci_write32 bus dev fn 0x04 (cmd OR push_bit 1 1 OR push_bit 2 1) s;
                (r, v) = kern_map_uc bar_v 0x2000 (nvm s);
                s = s\<lparr>nregs := r, nvm := v\<rparr>
            in if r = 0 then (-1, s) else (0, s))"

text \<open>Reset and enable with the admin queue in place.\<close>

definition nvme_enable :: "nvme_hw \<Rightarrow> nvme_boot \<Rightarrow> int \<times> nvme_boot" where
  "nvme_enable hw s =
     (let cap = hw_cap hw;
          s = s\<lparr>nd := (nd s)\<lparr>doorbell_stride := push_bit (unat (ucast (drop_bit 32 cap) AND 0xF :: u32)) 4\<rparr>\<rparr>;
          mqes = ucast (cap AND 0xFFFF) + 1 :: u32
      in if mqes < QDEPTH then (-1, s)
      else if drop_bit 37 cap AND 1 = 0 then (-1, s)
      else
        let s = mmio_w32 REG_CC 0 s in
        if wait_ready hw 0 s \<noteq> 0 then (-1, s)
        else
          let s = s\<lparr>admin_q := empty_queue\<rparr>;
              s = mmio_w32 REG_AQA (push_bit 16 (QDEPTH - 1) OR (QDEPTH - 1)) s;
              s = mmio_w64 REG_ASQ (ucast (admin_sq_addr hw)) s;
              s = mmio_w64 REG_ACQ (ucast (admin_cq_addr hw)) s;
              s = mmio_w32 REG_CC (push_bit 16 6 OR push_bit 20 4 OR CC_EN) s
          in if wait_ready hw 1 s \<noteq> 0 then (-1, s) else (0, s))"

definition nvme_identify :: "nvme_hw \<Rightarrow> nvme_boot \<Rightarrow> int \<times> nvme_boot" where
  "nvme_identify hw s =
     (let (rc, s) = admin_cmd hw (zero_sqe\<lparr>cdw0 := 0x06, prp1 := ucast (ident_addr hw), cdw10 := 1\<rparr>) s in
      if rc \<noteq> 0 then (-1, s)
      else
        let s = set_info (\<lambda>i. i\<lparr>serial := copy_str (drop 4 (ident_buf s)) 20,
                                model := copy_str (drop 24 (ident_buf s)) 40,
                                firmware := copy_str (drop 64 (ident_buf s)) 8\<rparr>) s;
            (_, s) = admin_cmd hw (zero_sqe\<lparr>cdw0 := 0x09, cdw10 := 0x07, cdw11 := 0\<rparr>) s;
            s = set_info (\<lambda>i. i\<lparr>nsid := 1\<rparr>) s;
            (rc, s) = admin_cmd hw (zero_sqe\<lparr>cdw0 := 0x06, c_nsid := 1, prp1 := ucast (ident_addr hw), cdw10 := 0\<rparr>) s
        in if rc \<noteq> 0 then (-1, s)
        else
          let s = set_info (\<lambda>i. i\<lparr>blocks := le64 (ident_buf s) 0\<rparr>) s;
              flbas = arr_get (ident_buf s) 26 AND 0xF;
              lbaf = le32 (ident_buf s) (128 + unat flbas * 4);
              lbads = drop_bit 16 lbaf AND 0xFF
          in if lbads < 9 \<or> lbads > 12 then (-1, s)
          else
            let s = set_info (\<lambda>i. i\<lparr>block_size := push_bit (unat lbads) 1\<rparr>) s
            in if blocks (info (nd s)) = 0 then (-1, s) else (0, s))"

definition nvme_queues :: "nvme_hw \<Rightarrow> nvme_boot \<Rightarrow> int \<times> nvme_boot" where
  "nvme_queues hw s =
     (let s = s\<lparr>nd := (nd s)\<lparr>io_q := empty_queue\<rparr>\<rparr>;
          (rc, s) = admin_cmd hw (zero_sqe\<lparr>cdw0 := 0x05, prp1 := ucast (io_cq_addr hw),
                       cdw10 := push_bit 16 (QDEPTH - 1) OR 1, cdw11 := 1\<rparr>) s
      in if rc \<noteq> 0 then (-1, s)
      else
        let (rc, s) = admin_cmd hw (zero_sqe\<lparr>cdw0 := 0x01, prp1 := ucast (io_sq_addr hw),
                       cdw10 := push_bit 16 (QDEPTH - 1) OR 1, cdw11 := push_bit 16 1 OR 1\<rparr>) s
        in if rc \<noteq> 0 then (-1, s) else (0, set_info (\<lambda>i. i\<lparr>present := True\<rparr>) s))"

definition nvme_init :: "nvme_hw \<Rightarrow> nvme_boot \<Rightarrow> int \<times> nvme_boot" where
  "nvme_init hw s =
     (let (rc, s) = nvme_attach hw s in if rc \<noteq> 0 then (-1, s)
      else let (rc, s) = nvme_enable hw s in if rc \<noteq> 0 then (-1, s)
      else let (rc, s) = nvme_identify hw s in if rc \<noteq> 0 then (-1, s)
      else nvme_queues hw s)"

subsection \<open>The search finds the first controller\<close>

definition fn_present :: "nvme_hw \<Rightarrow> nat \<Rightarrow> nat \<Rightarrow> nat \<Rightarrow> bool" where
  "fn_present hw b d f \<longleftrightarrow> pci_read32 hw (of_nat b) (of_nat d) (of_nat f) 0x00 AND 0xFFFF \<noteq> 0xFFFF"

text \<open>
  A function the bus enumeration rules make visible (function 0 is there, and it says so when the
  device has more functions), whose class code is that of an NVMe controller.
\<close>

definition nvme_fn :: "nvme_hw \<Rightarrow> nat \<times> nat \<times> nat \<Rightarrow> bool" where
  "nvme_fn hw p = (case p of (b, d, f) \<Rightarrow>
     fn_present hw b d 0 \<and> fn_present hw b d f \<and>
     (f = 0 \<or> drop_bit 16 (pci_read32 hw (of_nat b) (of_nat d) 0 0x0C) AND 0x80 \<noteq> 0) \<and>
     drop_bit 8 (pci_read32 hw (of_nat b) (of_nat d) (of_nat f) 0x08) = 0x010802)"

definition with_id :: "nvme_hw \<Rightarrow> nat \<times> nat \<times> nat \<Rightarrow> nat \<times> nat \<times> nat \<times> u32" where
  "with_id hw p = (case p of (b, d, f) \<Rightarrow> (b, d, f, pci_read32 hw (of_nat b) (of_nat d) (of_nat f) 0x00))"

lemma scan_fns_rest:
  assumes "fn_present hw b d 0" "drop_bit 16 (pci_read32 hw (of_nat b) (of_nat d) 0 0x0C) AND 0x80 \<noteq> 0" "0 < f"
  shows "scan_fns hw b d f k = map_option (with_id hw) (find (nvme_fn hw) (map (\<lambda>i. (b, d, i)) [f..<f + k]))"
  using assms(3)
proof (induction k arbitrary: f)
  case (Suc k)
  have "[f..<f + Suc k] = f # [Suc f..<Suc f + k]" by (simp add: upt_conv_Cons)
  then show ?case using Suc assms(1,2)
    by (auto simp: nvme_fn_def fn_present_def with_id_def Let_def simp del: upt_Suc)
qed simp

lemma find_none: "(\<And>x. x \<in> set xs \<Longrightarrow> \<not> P x) \<Longrightarrow> find P xs = None"
  by (simp add: find_None_iff)

lemma scan_fns_find:
  "scan_fns hw b d 0 8 = map_option (with_id hw) (find (nvme_fn hw) (map (\<lambda>i. (b, d, i)) [0..<8]))"
proof -
  let ?rest = "map (\<lambda>i. (b, d, i)) [1..<8]"
  have u: "[0..<8] = 0 # [1..<8]" by (simp add: upt_conv_Cons)
  consider (absent) "\<not> fn_present hw b d 0" | (hit) "nvme_fn hw (b, d, 0)"
    | (single) "fn_present hw b d 0" "\<not> nvme_fn hw (b, d, 0)" "drop_bit 16 (pci_read32 hw (of_nat b) (of_nat d) 0 0x0C) AND 0x80 = 0"
    | (multi) "fn_present hw b d 0" "\<not> nvme_fn hw (b, d, 0)" "drop_bit 16 (pci_read32 hw (of_nat b) (of_nat d) 0 0x0C) AND 0x80 \<noteq> 0"
    by blast
  then show ?thesis
  proof cases
    case absent
    then have "find (nvme_fn hw) (map (\<lambda>i. (b, d, i)) [0..<8]) = None" by (intro find_none) (auto simp: nvme_fn_def)
    then show ?thesis using absent by (simp add: fn_present_def numeral_eq_Suc Let_def)
  next
    case hit
    then have "scan_fns hw b d 0 8 = Some (with_id hw (b, d, 0))"
      by (simp add: nvme_fn_def fn_present_def with_id_def numeral_eq_Suc Let_def)
    then show ?thesis using hit by (simp add: u)
  next
    case single
    then have "find (nvme_fn hw) ?rest = None" by (intro find_none) (auto simp: nvme_fn_def)
    moreover have "scan_fns hw b d 0 8 = None"
      using single by (simp add: nvme_fn_def fn_present_def numeral_eq_Suc Let_def)
    ultimately show ?thesis using single(2) by (simp add: u)
  next
    case multi
    have eight: "8 = Suc 7" by simp
    have "scan_fns hw b d 0 8 = scan_fns hw b d 1 7"
      unfolding eight scan_fns.simps(2) Let_def using multi by (simp add: nvme_fn_def fn_present_def)
    also have "\<dots> = map_option (with_id hw) (find (nvme_fn hw) ?rest)"
      using scan_fns_rest [OF multi(1,3), of 1 7] by simp
    finally show ?thesis using multi(2) by (simp add: u)
  qed
qed

lemma find_append: "find P (xs @ ys) = (case find P xs of None \<Rightarrow> find P ys | Some x \<Rightarrow> Some x)"
  by (induction xs) auto

lemma scan_devs_find:
  "scan_devs hw b d k = map_option (with_id hw) (find (nvme_fn hw) [(b, i, f). i \<leftarrow> [d..<d + k], f \<leftarrow> [0..<8]])"
proof (induction k arbitrary: d)
  case (Suc k)
  have "[d..<d + Suc k] = d # [Suc d..<Suc d + k]" by (simp add: upt_conv_Cons)
  then show ?case using Suc [of "Suc d"]
    by (simp add: scan_fns_find find_append comp_def split: option.split del: upt_Suc)
qed simp

lemma scan_buses_find:
  "scan_buses hw b k = map_option (with_id hw) (find (nvme_fn hw) [(j, i, f). j \<leftarrow> [b..<b + k], i \<leftarrow> [0..<32], f \<leftarrow> [0..<8]])"
proof (induction k arbitrary: b)
  case (Suc k)
  have "[b..<b + Suc k] = b # [Suc b..<Suc b + k]" by (simp add: upt_conv_Cons)
  then show ?case using Suc [of "Suc b"]
    by (simp add: scan_devs_find find_append comp_def split: option.split del: upt_Suc)
qed simp

text \<open>
  C22. The bus scan: the driver takes the first NVMe function, in the order of bus, device and
  function, among those the PCI enumeration rules make visible; the shortcuts of the loops (skipping
  an absent device, not probing a single-function one) miss none.
\<close>

theorem find_controller_first:
  "find_controller hw =
     map_option (with_id hw) (find (nvme_fn hw) [(b, d, f). b \<leftarrow> [0..<256], d \<leftarrow> [0..<32], f \<leftarrow> [0..<8]])"
  unfolding find_controller_def scan_buses_find by simp

subsection \<open>What initialisation leaves\<close>

text \<open>The part of the driver state the bring-up does not touch.\<close>

definition same_buffers :: "nvme_boot \<Rightarrow> nvme_boot \<Rightarrow> bool" where
  "same_buffers s s' \<longleftrightarrow> bounce (nd s') = bounce (nd s) \<and> prp_list (nd s') = prp_list (nd s) \<and>
     bounce_addr (nd s') = bounce_addr (nd s) \<and> prp_addr (nd s') = prp_addr (nd s) \<and>
     nv_dev (nd s') = nv_dev (nd s) \<and> nv_ns (nd s') = nv_ns (nd s)"

lemma same_buffers_trans: "same_buffers a b \<Longrightarrow> same_buffers b c \<Longrightarrow> same_buffers a c"
  by (simp add: same_buffers_def)

lemma set_info_simps [simp]:
  "same_buffers s (set_info f s)" "info (nd (set_info f s)) = f (info (nd s))" "io_q (nd (set_info f s)) = io_q (nd s)"
  "ident_buf (set_info f s) = ident_buf s"
  by (simp_all add: set_info_def same_buffers_def)

lemma mmio_simps [simp]:
  "same_buffers s (mmio_w32 a v s)" "info (nd (mmio_w32 a v s)) = info (nd s)" "io_q (nd (mmio_w32 a v s)) = io_q (nd s)"
  "same_buffers s (mmio_w64 a w s)" "info (nd (mmio_w64 a w s)) = info (nd s)" "io_q (nd (mmio_w64 a w s)) = io_q (nd s)"
  by (simp_all add: mmio_w32_def mmio_w64_def same_buffers_def)

lemma admin_cmd_frame:
  assumes "admin_cmd hw c s = (rc, s')"
  shows "same_buffers s s'" "info (nd s') = info (nd s)" "io_q (nd s') = io_q (nd s)"
  using assms by (auto simp: admin_cmd_def Let_def ring_sq_def ring_cq_def same_buffers_def split: prod.splits option.splits)

lemma nvme_attach_frame:
  assumes "nvme_attach hw s = (rc, s')"
  shows "same_buffers s s'" "\<not> present (info (nd s'))"
  using assms
  by (auto simp: nvme_attach_def Let_def set_info_def zero_info_def pci_write32_def same_buffers_def split: option.splits prod.splits if_splits)

lemma nvme_enable_frame:
  assumes "nvme_enable hw s = (rc, s')"
  shows "same_buffers s s'" "info (nd s') = info (nd s)"
  using assms
  by (auto simp: nvme_enable_def Let_def mmio_w32_def mmio_w64_def same_buffers_def split: if_splits)

text \<open>The block size is one of the four the data path handles.\<close>

lemma block_shift:
  assumes "\<not> (lbads < 9 \<or> lbads > (12 :: u32))"
  shows "\<exists>bs \<in> {512, 1024, 2048, 4096}. (push_bit (unat lbads) 1 :: u32) = of_nat bs"
proof -
  have "9 \<le> unat lbads" "unat lbads \<le> 12" using assms by (auto simp: word_less_nat_alt)
  then consider "unat lbads = 9" | "unat lbads = 10" | "unat lbads = 11" | "unat lbads = 12" by linarith
  then show ?thesis by cases simp_all
qed

lemma nvme_identify_frame:
  assumes "nvme_identify hw s = (rc, s')"
  shows "same_buffers s s'" "present (info (nd s')) = present (info (nd s))"
    "rc = 0 \<Longrightarrow> nsid (info (nd s')) = 1 \<and> blocks (info (nd s')) \<noteq> 0 \<and>
       (\<exists>bs \<in> {512, 1024, 2048, 4096}. block_size (info (nd s')) = of_nat bs)"
proof -
  let ?c1 = "zero_sqe\<lparr>cdw0 := 0x06, prp1 := ucast (ident_addr hw), cdw10 := 1\<rparr>"
  let ?c2 = "zero_sqe\<lparr>cdw0 := 0x09, cdw10 := 0x07, cdw11 := 0\<rparr>"
  let ?c3 = "zero_sqe\<lparr>cdw0 := 0x06, c_nsid := 1, prp1 := ucast (ident_addr hw), cdw10 := 0\<rparr>"
  obtain r1 s1 where 1: "admin_cmd hw ?c1 s = (r1, s1)" by (cases "admin_cmd hw ?c1 s")
  define t1 where "t1 = set_info (\<lambda>i. i\<lparr>serial := copy_str (drop 4 (ident_buf s1)) 20,
      model := copy_str (drop 24 (ident_buf s1)) 40, firmware := copy_str (drop 64 (ident_buf s1)) 8\<rparr>) s1"
  obtain r2 s2 where 2: "admin_cmd hw ?c2 t1 = (r2, s2)" by (cases "admin_cmd hw ?c2 t1")
  define t2 where "t2 = set_info (\<lambda>i. i\<lparr>nsid := 1\<rparr>) s2"
  obtain r3 s3 where 3: "admin_cmd hw ?c3 t2 = (r3, s3)" by (cases "admin_cmd hw ?c3 t2")
  define lbads where "lbads = drop_bit 16 (le32 (ident_buf s3) (128 + unat (arr_get (ident_buf s3) 26 AND 0xF) * 4)) AND 0xFF"
  define t3 where "t3 = set_info (\<lambda>i. i\<lparr>blocks := le64 (ident_buf s3) 0\<rparr>) s3"
  define t4 where "t4 = set_info (\<lambda>i. i\<lparr>block_size := push_bit (unat lbads) 1\<rparr>) t3"
  have e: "nvme_identify hw s = (if r1 \<noteq> 0 then (-1, s1) else if r3 \<noteq> 0 then (-1, s3)
      else if lbads < 9 \<or> lbads > 12 then (-1, t3) else if blocks (info (nd t4)) = 0 then (-1, t4) else (0, t4))"
    unfolding nvme_identify_def Let_def 1 prod.case t1_def [symmetric] 2 t2_def [symmetric] 3
    by (simp add: t3_def t4_def lbads_def)
  have sb: "same_buffers s s1" "same_buffers s1 s3" "same_buffers s3 t3" "same_buffers t3 t4"
    using admin_cmd_frame(1) [OF 1] admin_cmd_frame(1) [OF 2] admin_cmd_frame(1) [OF 3]
    by (auto simp: t1_def t2_def t3_def t4_def same_buffers_def set_info_def)
  have i: "info (nd s1) = info (nd s)" "info (nd s3) = info (nd t2)" "info (nd s2) = info (nd t1)"
    using admin_cmd_frame(2) [OF 1] admin_cmd_frame(2) [OF 2] admin_cmd_frame(2) [OF 3] by simp_all
  have p: "present (info (nd s1)) = present (info (nd s))" "present (info (nd s3)) = present (info (nd s))"
    "present (info (nd t3)) = present (info (nd s))" "present (info (nd t4)) = present (info (nd s))"
    "nsid (info (nd t4)) = 1" "block_size (info (nd t4)) = push_bit (unat lbads) 1"
    by (simp_all add: i t1_def t2_def t3_def t4_def)
  have r: "(rc, s') = (if r1 \<noteq> 0 then (-1, s1) else if r3 \<noteq> 0 then (-1, s3)
      else if lbads < 9 \<or> lbads > 12 then (-1, t3) else if blocks (info (nd t4)) = 0 then (-1, t4) else (0, t4))"
    using e assms by simp
  then consider "s' = s1" | "s' = s3" | "s' = t3" | "s' = t4" by (auto split: if_splits)
  then show "same_buffers s s'" using sb same_buffers_trans by cases blast+
  show "present (info (nd s')) = present (info (nd s))" using r p by (auto split: if_splits)
  show "nsid (info (nd s')) = 1 \<and> blocks (info (nd s')) \<noteq> 0 \<and>
      (\<exists>bs \<in> {512, 1024, 2048, 4096}. block_size (info (nd s')) = of_nat bs)" if "rc = 0"
  proof -
    have "s' = t4" "\<not> (lbads < 9 \<or> lbads > 12)" "blocks (info (nd t4)) \<noteq> 0" using r that by (auto split: if_splits)
    then show ?thesis using block_shift p by metis
  qed
qed

lemma nvme_queues_frame:
  assumes "nvme_queues hw s = (rc, s')"
  shows "same_buffers s s'" "present (info (nd s')) = (rc = 0 \<or> present (info (nd s)))"
    "rc = 0 \<Longrightarrow> io_q (nd s') = empty_queue" "nsid (info (nd s')) = nsid (info (nd s))"
    "blocks (info (nd s')) = blocks (info (nd s))" "block_size (info (nd s')) = block_size (info (nd s))"
proof -
  define t where "t = s\<lparr>nd := (nd s)\<lparr>io_q := empty_queue\<rparr>\<rparr>"
  have t: "same_buffers s t" "info (nd t) = info (nd s)" "io_q (nd t) = empty_queue"
    by (simp_all add: t_def same_buffers_def)
  let ?c1 = "zero_sqe\<lparr>cdw0 := 0x05, prp1 := ucast (io_cq_addr hw), cdw10 := push_bit 16 (QDEPTH - 1) OR 1, cdw11 := 1\<rparr>"
  let ?c2 = "zero_sqe\<lparr>cdw0 := 0x01, prp1 := ucast (io_sq_addr hw), cdw10 := push_bit 16 (QDEPTH - 1) OR 1, cdw11 := push_bit 16 1 OR 1\<rparr>"
  obtain r1 s1 where 1: "admin_cmd hw ?c1 t = (r1, s1)" by (cases "admin_cmd hw ?c1 t")
  obtain r2 s2 where 2: "admin_cmd hw ?c2 s1 = (r2, s2)" by (cases "admin_cmd hw ?c2 s1")
  have e: "nvme_queues hw s = (if r1 \<noteq> 0 then (-1, s1) else if r2 \<noteq> 0 then (-1, s2) else (0, set_info (\<lambda>i. i\<lparr>present := True\<rparr>) s2))"
    unfolding nvme_queues_def Let_def t_def [symmetric] 1 prod.case 2 by simp
  note F = admin_cmd_frame [OF 1] admin_cmd_frame [OF 2] t same_buffers_trans
  have sb: "same_buffers s s1" "same_buffers s s2" using F by blast+
  have sb3: "same_buffers s (set_info (\<lambda>i. i\<lparr>present := True\<rparr>) s2)" using sb(2) set_info_simps(1) same_buffers_trans by blast
  have r: "(rc, s') = (if r1 \<noteq> 0 then (-1, s1) else if r2 \<noteq> 0 then (-1, s2) else (0, set_info (\<lambda>i. i\<lparr>present := True\<rparr>) s2))"
    using e assms by simp
  show "same_buffers s s'" "present (info (nd s')) = (rc = 0 \<or> present (info (nd s)))"
    "rc = 0 \<Longrightarrow> io_q (nd s') = empty_queue" "nsid (info (nd s')) = nsid (info (nd s))"
    "blocks (info (nd s')) = blocks (info (nd s))" "block_size (info (nd s')) = block_size (info (nd s))"
    using r F(2,3,5,6) t(2,3) sb sb3 by (auto split: if_splits)
qed

text \<open>
  C23. Bring-up establishes what the data path needs: when \<open>nvme_init\<close> returns 0 the controller is
  marked present, namespace 1 has blocks of 512 to 4096 bytes and is not empty, the I/O queues are
  empty with the phase at 1, and the driver state is well formed for transfers with that block size,
  given buffers of their sizes, a drive whose blocks have the size it reports and a controller that
  keeps to its specification. When it does not return 0 the controller is marked absent.
\<close>

theorem nvme_init_establishes:
  assumes "nvme_init hw s = (rc, s')" and bs: "bs = unat (block_size (info (nd s')))"
    and bufs: "length (bounce (nd s)) = 131072" "length (prp_list (nd s)) = 32"
    and ctl: "controller_ok (nd s) bs" "\<And>x. length (nv_ns (nd s) x) = bs"
  shows "present (info (nd s')) = (rc = 0) \<and>
    (rc = 0 \<longrightarrow> nsid (info (nd s')) = 1 \<and> blocks (info (nd s')) \<noteq> 0 \<and> io_q (nd s') = empty_queue \<and> nvme_wf (nd s') bs)"
proof -
  obtain r1 s1 where 1: "nvme_attach hw s = (r1, s1)" by (cases "nvme_attach hw s")
  obtain r2 s2 where 2: "nvme_enable hw s1 = (r2, s2)" by (cases "nvme_enable hw s1")
  obtain r3 s3 where 3: "nvme_identify hw s2 = (r3, s3)" by (cases "nvme_identify hw s2")
  obtain r4 s4 where 4: "nvme_queues hw s3 = (r4, s4)" by (cases "nvme_queues hw s3")
  note A = nvme_attach_frame [OF 1] and E = nvme_enable_frame [OF 2] and I = nvme_identify_frame [OF 3] and Q = nvme_queues_frame [OF 4]
  have r: "(rc, s') = (if r1 \<noteq> 0 then (-1, s1) else if r2 \<noteq> 0 then (-1, s2) else if r3 \<noteq> 0 then (-1, s3) else (r4, s4))"
    using assms(1) unfolding nvme_init_def Let_def 1 prod.case 2 3 4 by simp
  have p: "present (info (nd s')) = (rc = 0)" using r A(2) E(2) I(2) Q(2) by (auto split: if_splits)
  have "nsid (info (nd s')) = 1 \<and> blocks (info (nd s')) \<noteq> 0 \<and> io_q (nd s') = empty_queue \<and> nvme_wf (nd s') bs" if "rc = 0"
  proof -
    have s: "s' = s4" "r4 = 0" "r3 = 0" using r that by (auto split: if_splits)
    have sb: "same_buffers s s'" unfolding s(1)
      by (rule same_buffers_trans [OF A(1) same_buffers_trans [OF E(1) same_buffers_trans [OF I(1) Q(1)]]])
    have "controller_ok (nd s') bs" using ctl(1) sb controller_ok_cong [of "nd s'" "nd s"] by (simp add: same_buffers_def)
    moreover obtain b where b: "b \<in> {512, 1024, 2048, 4096}" "block_size (info (nd s3)) = of_nat b"
      using I(3) [OF s(3)] by blast
    moreover have "block_size (info (nd s')) = of_nat b" using b(2) Q(6) s(1) by simp
    moreover have "unat (of_nat b :: u32) = b" using b(1) by auto
    moreover have "q_sync (io_q (nd s'))" using Q(3) s by (simp add: empty_queue_sync)
    ultimately have "nvme_wf (nd s') bs" using sb bufs ctl(2) bs by (simp add: nvme_wf_def same_buffers_def)
    then show ?thesis using I(3) [OF s(3)] Q(3-5) s by simp
  qed
  with p show ?thesis by blast
qed

subsection \<open>A controller to bring up\<close>

definition demo_hw :: nvme_hw where
  "demo_hw = \<lparr>hw_pci = (\<lambda>a. if a = 0x80000000 then 0x00101B36 else if a = 0x80000008 then 0x01080200
        else if a = 0x80000010 then 0xFEB00004 else 0),
      hw_cap = 0x20000003FF, hw_csts = (\<lambda>l. if snd (last l) = 0 then [1, 0] else [0, 1]),
      hw_admin = (\<lambda>c b. ([(0, 0), (0x10000, 0)], le64_bytes 1000 @ replicate 120 0 @ [0, 0, 9, 0])),
      admin_sq_addr = 0x310000, admin_cq_addr = 0x311000, io_sq_addr = 0x312000, io_cq_addr = 0x313000, ident_addr = 0x314000\<rparr>"

definition demo_boot :: nvme_boot where
  "demo_boot = \<lparr>nd = demo_nvme\<lparr>info := zero_info\<rparr>,
     nvm = \<lparr>tabs = (\<lambda>_ _. 0), phys_free = 0x1000000, kernel_pdpt = 0x500000, proc_pdpt = 0, paging_on = True, cr3 = 0x500000,
       mmio_virt_next = MMIO_VIRT_BASE, user_phys_base = 0, user_phys_limit = 0, dma_arena_base = 0, user_mmio_used = 0,
       user_dma_used = 0, pat_wc_ready = False, fb_enabled = False, gfx_w = 0, gfx_h = 0, gfx_pitch = 0, gfx_bpp = 0,
       gfx_lfb = 0, gfx_lfb_phys = 0, gfx_mode_id = 0, gfx_fb_size = 0, gfx_fb_user_addr = 0, gfx_fb_user_mapped = False\<rparr>,
     pci_log = [], admin_q = empty_queue, ident_buf = [], nregs = 0\<rparr>"

lemma demo_find: "find_controller demo_hw = Some (0, 0, 0, 0x00101B36)"
proof -
  have k: "(8 :: nat) = Suc 7" "(32 :: nat) = Suc 31" "(256 :: nat) = Suc 255" by simp_all
  have "scan_fns demo_hw 0 0 0 8 = Some (0, 0, 0, 0x00101B36)"
    unfolding k scan_fns.simps Let_def by (simp add: demo_hw_def pci_read32_def pci_addr_def drop_bit_eq_div)
  then have "scan_devs demo_hw 0 0 32 = Some (0, 0, 0, 0x00101B36)" unfolding k(2) scan_devs.simps by simp
  then show ?thesis unfolding find_controller_def k(3) scan_buses.simps by simp
qed

lemma demo_attach: "fst (nvme_attach demo_hw demo_boot) = 0"
proof -
  obtain r v where rv: "kern_map_uc 0xFEB00000 0x2000 (nvm demo_boot) = (r, v)" by (cases "kern_map_uc 0xFEB00000 0x2000 (nvm demo_boot)")
  moreover have "fst (kern_map_uc 0xFEB00000 0x2000 (nvm demo_boot)) \<noteq> 0"
    by (simp add: kern_map_uc_def demo_boot_def MMIO_VIRT_BASE_def MMIO_VIRT_SIZE_def Let_def)
  ultimately have "r \<noteq> 0" by simp
  then show ?thesis
    unfolding nvme_attach_def Let_def demo_find
    by (simp add: pci_read32_def pci_addr_def demo_hw_def set_info_def pci_write32_def rv)
qed

lemma demo_enable: "mmio_log (nd s) = [] \<Longrightarrow> fst (nvme_enable demo_hw s) = 0"
  by (simp add: nvme_enable_def demo_hw_def Let_def QDEPTH_def wait_ready_def mmio_w32_def mmio_w64_def reg_defs SPIN_LIMIT_def
      CSTS_CFS_def CSTS_RDY_def drop_bit_eq_div CC_EN_def)

definition demo_ident :: "u8 list" where "demo_ident = le64_bytes 1000 @ replicate 120 0 @ [0, 0, 9, 0]"

lemma demo_ident_reads:
  "le64 demo_ident 0 = 1000" "arr_get demo_ident 26 = 0" "le32 demo_ident 128 = 0x90000"
  by (simp_all add: demo_ident_def le64_def le32_def arr_get_def le64_bytes_def le32_bytes_def nth_append nth_Cons' drop_bit_eq_div)

text \<open>Every admin command of the demonstration controller succeeds, far from the end of the queue.\<close>

lemma demo_admin:
  assumes "q_phase (admin_q s) = 1" "unat (q_head (admin_q s)) = k" "k < 60"
  shows "\<exists>s'. admin_cmd demo_hw c s = (0, s') \<and> q_phase (admin_q s') = 1 \<and> unat (q_head (admin_q s')) = k + 1 \<and>
    ident_buf s' = demo_ident"
proof -
  have d: "hw_admin demo_hw = (\<lambda>c b. ([(0, 0), (0x10000, 0)], demo_ident))" by (simp add: demo_hw_def demo_ident_def)
  have p: "poll_cq (take SPIN_LIMIT [(0, 0), (0x10000, 0)]) 1 = Some 0"
    by (simp add: SPIN_LIMIT_def drop_bit_eq_div CSTS_CFS_def)
  have h: "unat ((q_head (admin_q s) + 1) mod QDEPTH) = k + 1"
    using assms(2,3) by (simp add: unat_mod QDEPTH_def unat_add_lem [THEN iffD1])
  then have z: "(q_head (admin_q s) + 1) mod QDEPTH \<noteq> 0" by (metis Suc_eq_plus1 nat.simps(3) unat_0)
  show ?thesis using h assms(1) unfolding admin_cmd_def Let_def d prod.case by (simp add: p if_not_P [OF z])
qed

lemma demo_identify:
  assumes "q_phase (admin_q s) = 1" "q_head (admin_q s) = 0"
  shows "\<exists>s'. nvme_identify demo_hw s = (0, s') \<and> q_phase (admin_q s') = 1 \<and> unat (q_head (admin_q s')) = 3 \<and>
    block_size (info (nd s')) = 512"
proof -
  let ?c1 = "zero_sqe\<lparr>cdw0 := 0x06, prp1 := ucast (ident_addr demo_hw), cdw10 := 1\<rparr>"
  let ?c2 = "zero_sqe\<lparr>cdw0 := 0x09, cdw10 := 0x07, cdw11 := 0\<rparr>"
  let ?c3 = "zero_sqe\<lparr>cdw0 := 0x06, c_nsid := 1, prp1 := ucast (ident_addr demo_hw), cdw10 := 0\<rparr>"
  have q: "admin_q (set_info f s) = admin_q s" for f s by (simp add: set_info_def)
  obtain s1 where 1: "admin_cmd demo_hw ?c1 s = (0, s1)" "q_phase (admin_q s1) = 1" "unat (q_head (admin_q s1)) = 1"
    using demo_admin [of s 0 ?c1] assms by auto
  define t1 where "t1 = set_info (\<lambda>i. i\<lparr>serial := copy_str (drop 4 (ident_buf s1)) 20,
      model := copy_str (drop 24 (ident_buf s1)) 40, firmware := copy_str (drop 64 (ident_buf s1)) 8\<rparr>) s1"
  obtain s2 where 2: "admin_cmd demo_hw ?c2 t1 = (0, s2)" "q_phase (admin_q s2) = 1" "unat (q_head (admin_q s2)) = 2"
    using demo_admin [of t1 1 ?c2] 1 by (auto simp: t1_def q)
  define t2 where "t2 = set_info (\<lambda>i. i\<lparr>nsid := 1\<rparr>) s2"
  obtain s3 where 3: "admin_cmd demo_hw ?c3 t2 = (0, s3)" "q_phase (admin_q s3) = 1" "unat (q_head (admin_q s3)) = 3"
      "ident_buf s3 = demo_ident"
    using demo_admin [of t2 2 ?c3] 2 by (auto simp: t2_def q)
  show ?thesis
    unfolding nvme_identify_def Let_def 1(1) prod.case t1_def [symmetric] 2(1) t2_def [symmetric] 3(1)
    using 3 by (simp add: demo_ident_reads q drop_bit_eq_div)
qed

lemma demo_queues:
  assumes "q_phase (admin_q s) = 1" "unat (q_head (admin_q s)) = 3"
  shows "fst (nvme_queues demo_hw s) = 0"
proof -
  define t where "t = s\<lparr>nd := (nd s)\<lparr>io_q := empty_queue\<rparr>\<rparr>"
  let ?c1 = "zero_sqe\<lparr>cdw0 := 0x05, prp1 := ucast (io_cq_addr demo_hw), cdw10 := push_bit 16 (QDEPTH - 1) OR 1, cdw11 := 1\<rparr>"
  let ?c2 = "zero_sqe\<lparr>cdw0 := 0x01, prp1 := ucast (io_sq_addr demo_hw), cdw10 := push_bit 16 (QDEPTH - 1) OR 1, cdw11 := push_bit 16 1 OR 1\<rparr>"
  obtain s1 where 1: "admin_cmd demo_hw ?c1 t = (0, s1)" "q_phase (admin_q s1) = 1" "unat (q_head (admin_q s1)) = 4"
    using demo_admin [of t 3 ?c1] assms by (auto simp: t_def)
  obtain s2 where 2: "admin_cmd demo_hw ?c2 s1 = (0, s2)" using demo_admin [of s1 4 ?c2] 1 by auto
  show ?thesis unfolding nvme_queues_def Let_def t_def [symmetric] 1(1) prod.case 2 by simp
qed

lemma demo_enable_queue: "nvme_enable hw s = (0, s') \<Longrightarrow> admin_q s' = empty_queue"
  by (auto simp: nvme_enable_def Let_def mmio_w32_def mmio_w64_def split: if_splits)

lemma demo_attach_log: "nvme_attach hw s = (rc, s') \<Longrightarrow> mmio_log (nd s') = mmio_log (nd s)"
  by (auto simp: nvme_attach_def Let_def set_info_def pci_write32_def split: option.splits prod.splits if_splits)

lemma demo_init: "\<exists>s'. nvme_init demo_hw demo_boot = (0, s') \<and> block_size (info (nd s')) = 512"
proof -
  obtain s1 where 1: "nvme_attach demo_hw demo_boot = (0, s1)" using demo_attach by (cases "nvme_attach demo_hw demo_boot") simp
  have "mmio_log (nd s1) = []" using demo_attach_log [OF 1] by (simp add: demo_boot_def demo_nvme_def)
  then obtain s2 where 2: "nvme_enable demo_hw s1 = (0, s2)" using demo_enable [of s1] by (cases "nvme_enable demo_hw s1") simp
  have q: "q_phase (admin_q s2) = 1" "q_head (admin_q s2) = 0" using demo_enable_queue [OF 2] by (simp_all add: empty_queue_def)
  obtain s3 where 3: "nvme_identify demo_hw s2 = (0, s3)" "q_phase (admin_q s3) = 1" "unat (q_head (admin_q s3)) = 3"
      "block_size (info (nd s3)) = 512"
    using demo_identify [OF q] by blast
  obtain s4 where 4: "nvme_queues demo_hw s3 = (0, s4)" using demo_queues [OF 3(2,3)] by (cases "nvme_queues demo_hw s3") simp
  have "nvme_init demo_hw demo_boot = (0, s4)" unfolding nvme_init_def Let_def 1 prod.case 2 3(1) 4 by simp
  then show ?thesis using nvme_queues_frame(6) [OF 4] 3(4) by simp
qed

theorem nvme_init_establishes_witness:
  "\<exists>s'. nvme_init demo_hw demo_boot = (0, s') \<and> present (info (nd s')) \<and> nvme_wf (nd s') 512"
proof -
  obtain s' where i: "nvme_init demo_hw demo_boot = (0, s')" "block_size (info (nd s')) = 512" using demo_init by blast
  have n: "length (bounce (nd demo_boot)) = 131072" "length (prp_list (nd demo_boot)) = 32"
    "\<And>x. length (nv_ns (nd demo_boot) x) = 512" "nv_dev (nd demo_boot) = demo_controller 512"
    by (simp_all add: demo_boot_def demo_nvme_def)
  have "present (info (nd s')) = (0 = (0 :: int)) \<and>
    (0 = (0 :: int) \<longrightarrow> nsid (info (nd s')) = 1 \<and> blocks (info (nd s')) \<noteq> 0 \<and> io_q (nd s') = empty_queue \<and> nvme_wf (nd s') 512)"
    by (rule nvme_init_establishes [OF i(1) _ n(1,2) demo_controller_ok [OF n(4)] n(3)]) (simp add: i(2))
  then show ?thesis using i by blast
qed

end
