(* ===== verification/Kernel.thy ===== *)
theory Kernel
  imports Timer Keyboard OpenFiles NvmeInit
begin

text \<open>
  The kernel as a whole (kernel/kernel.c): one state that holds the components of the other theories,
  and what runs on it - the interrupt and fault handlers, the way back from a program, and the boot
  sequence. A component is taken out of the state for an operation of its own theory and put back
  after it; the console, the disk and the flag \<open>exit_requested\<close>, which several components share,
  are kept in one place.
\<close>

subsection \<open>State\<close>

record kernel =
  mach :: machine
  kbs :: keyboard
  kdir :: "dirent list"
  kfiles :: "open_file list"
  um :: mem
  user_brk_off :: u32
  exit_code :: u32
  next_prog :: "u8 list"
  next_prog_set :: bool
  sys_cwd :: "u8 list"
  irq_counts :: "nat \<Rightarrow> u32"
  text_restore_pending :: bool
  text_clear_pending :: bool
  file_rest :: "u32 \<Rightarrow> u8"
  tss :: tss_entry
  gdt :: "nat \<Rightarrow> u64"

text \<open>
  \<open>um\<close> is the memory the kernel sees at linear addresses while a program's address space is in
  place; a user pointer \<open>off\<close> is the address \<open>USER_BASE + off\<close>. \<open>file_rest\<close> is what lies in memory
  from \<open>file_buf\<close> on where the last file read into it does not reach.
\<close>

abbreviation con_of :: "kernel \<Rightarrow> con" where "con_of k \<equiv> con (dsp (mach k))"
abbreviation kvm :: "kernel \<Rightarrow> vm" where "kvm k \<equiv> video (con_of k)"
abbreviation kdisk :: "kernel \<Rightarrow> disk" where "kdisk k \<equiv> drv (dsp (mach k))"
abbreviation ksched :: "kernel \<Rightarrow> sched" where "ksched k \<equiv> sch (mach k)"

definition on_disp :: "(disp \<Rightarrow> disp) \<Rightarrow> kernel \<Rightarrow> kernel" where
  "on_disp f k = k\<lparr>mach := (mach k)\<lparr>dsp := f (dsp (mach k))\<rparr>\<rparr>"

definition on_con :: "(con \<Rightarrow> con) \<Rightarrow> kernel \<Rightarrow> kernel" where
  "on_con f = on_disp (with_con f)"

definition set_vm :: "vm \<Rightarrow> kernel \<Rightarrow> kernel" where
  "set_vm v = on_con (\<lambda>c. c\<lparr>video := v\<rparr>)"

definition set_disk :: "disk \<Rightarrow> kernel \<Rightarrow> kernel" where
  "set_disk d = on_disp (\<lambda>s. s\<lparr>drv := d\<rparr>)"

definition set_sched :: "sched \<Rightarrow> kernel \<Rightarrow> kernel" where
  "set_sched s k = k\<lparr>mach := (mach k)\<lparr>sch := s\<rparr>\<rparr>"

definition kbd_in :: "kernel \<Rightarrow> keyboard" where
  "kbd_in k = (kbs k)\<lparr>kcon := con_of k, keyboard.exit_requested := sched.exit_requested (ksched k)\<rparr>"

definition kbd_out :: "keyboard \<Rightarrow> kernel \<Rightarrow> kernel" where
  "kbd_out kb k = on_con (\<lambda>_. kcon kb)
     (set_sched ((ksched k)\<lparr>sched.exit_requested := keyboard.exit_requested kb\<rparr>) (k\<lparr>kbs := kb\<rparr>))"

definition files_in :: "kernel \<Rightarrow> files" where
  "files_in k = \<lparr>fsys = \<lparr>dk = kdisk k, fdir = kdir k\<rparr>, ofiles = kfiles k\<rparr>"

definition files_out :: "files \<Rightarrow> kernel \<Rightarrow> kernel" where
  "files_out f k = set_disk (dk (fsys f)) (k\<lparr>kdir := fdir (fsys f), kfiles := ofiles f\<rparr>)"

definition request_exit :: "kernel \<Rightarrow> kernel" where
  "request_exit k = set_sched ((ksched k)\<lparr>sched.exit_requested := True\<rparr>) k"

lemmas lens_defs = on_disp_def on_con_def set_vm_def set_disk_def set_sched_def kbd_in_def kbd_out_def
  files_in_def files_out_def request_exit_def with_con_def

subsection \<open>Interrupts\<close>

text \<open>A tick: count it, then kill the interrupted program if that was asked for, else switch threads.\<close>

definition tick_irq :: "fault_frame \<Rightarrow> kernel \<Rightarrow> fault_frame \<times> kernel" where
  "tick_irq f k =
     (let k = set_sched ((ksched k)\<lparr>timer_ticks := timer_ticks (ksched k) + 1\<rparr>) k in
      if kill_program (kbs k) \<and> ff_cs f = USER_CS
      then (f\<lparr>ff_eip := USER_TRAMP_OFF\<rparr>, k\<lparr>kbs := (kbs k)\<lparr>kill_program := False\<rparr>\<rparr>)
      else let (f, s) = thread_schedule f (ksched k) in (f, set_sched s k))"

definition key_irq :: "port_dev \<Rightarrow> fault_frame \<Rightarrow> kernel \<Rightarrow> fault_frame \<times> kernel" where
  "key_irq dev f k =
     (let (st, c) = inb dev 0x64 (con_of k); k = on_con (\<lambda>_. c) k in
      if st AND 1 = 0 then (f, k)
      else
        let (sc, c) = inb dev 0x60 (con_of k); k = on_con (\<lambda>_. c) k;
            (kill, kb) = kbd_handle_scancode sc (kbd_in k);
            k = kbd_out kb k
        in if \<not> kill then (f, k)
           else if ff_cs f = USER_CS then (f\<lparr>ff_eip := USER_TRAMP_OFF\<rparr>, k\<lparr>kbs := (kbs k)\<lparr>kill_program := False\<rparr>\<rparr>)
           else (f, request_exit k))"

definition irq_handler :: "port_dev \<Rightarrow> fault_frame \<Rightarrow> kernel \<Rightarrow> fault_frame \<times> kernel" where
  "irq_handler dev f k =
     (if ff_int_no f = of_nat LAPIC_VECTOR
      then let (f, k) = tick_irq f k
           in (f, if lapic (mach k) \<noteq> 0 then k\<lparr>mach := lapic_write LAPIC_EOI 0 (mach k)\<rparr> else k)
      else
        let n = ff_int_no f;
            (f, k) = (if n = 32 then tick_irq f k else if n = 33 then key_irq dev f k else (f, k));
            k = (if 32 \<le> ff_int_no f \<and> ff_int_no f < 48
                 then k\<lparr>irq_counts := (irq_counts k)(unat (ff_int_no f - 32) := irq_counts k (unat (ff_int_no f - 32)) + 1)\<rparr>
                 else k);
            k = (if ff_int_no f \<ge> 40 then on_con (outb 0xA0 0x20) k else k)
        in (f, on_con (outb 0x20 0x20) k))"

subsection \<open>Faults\<close>

definition str :: "string \<Rightarrow> u8 list" where "str = map of_char"

definition put_str :: "string \<Rightarrow> kernel \<Rightarrow> kernel" where "put_str s = on_con (vga_puts (str s))"
definition put_line :: "string \<Rightarrow> kernel \<Rightarrow> kernel" where "put_line s = on_con (vga_puts (str s @ [10]))"
definition put_hex :: "u32 \<Rightarrow> kernel \<Rightarrow> kernel" where "put_hex v = on_con (vga_hex v)"

text \<open>\<open>None\<close>: the kernel has stopped.\<close>

definition fault_handler :: "u32 \<Rightarrow> fault_frame \<Rightarrow> kernel \<Rightarrow> fault_frame option \<times> kernel" where
  "fault_handler cr2 f k =
     (if ff_cs f = USER_CS
      then
        let k = put_hex (ff_int_no f) (put_str ''USER EXC '' k);
            k = put_hex (ff_err f) (put_str '' ERR '' k);
            k = put_hex (ff_eip f) (put_str '' EIP '' k);
            k = put_hex (ff_useresp f) (put_str '' ESP '' k);
            k = put_hex (ff_eax f) (put_str '' EAX '' k);
            k = put_hex (ff_edx f) (put_str '' EDX '' k);
            k = (if ff_int_no f = 14 then put_hex cr2 (put_str '' CR2 '' k) else k);
            k = on_con (vga_puts [10]) k
        in (Some (f\<lparr>ff_eip := USER_TRAMP_OFF\<rparr>), k)
      else
        let k = put_hex (ff_int_no f) (put_str ''EXC '' k);
            k = put_hex (ff_err f) (put_str '' ERR '' k);
            k = put_hex (ff_eip f) (put_str '' EIP '' k);
            k = put_hex (ff_cs f) (put_str '' CS '' k)
        in (None, on_con (vga_puts [10]) k))"

subsection \<open>Back from a program\<close>

definition after_user :: "port_dev \<Rightarrow> kernel \<Rightarrow> kernel" where
  "after_user dev k =
     (let k = (if text_restore_pending k
               then
                 let k = on_disp (vga_set_text dev) k;
                     k = (if text_clear_pending k then on_con vga_cls k else k)
                 in k\<lparr>text_restore_pending := False, text_clear_pending := False\<rparr>
               else k)
      in set_sched ((ksched k)\<lparr>sched.exit_requested := False\<rparr>) k)"

end
