(* ===== verification/Exec.thy ===== *)
theory Exec
  imports Kernel
begin

text \<open>
  Starting programs (\<open>exec_user\<close>) and the boot sequence (\<open>kmain\<close>) of kernel/kernel.c: a program file is
  read into \<open>file_buf\<close>, its ELF segments are copied into a cleared arena, and control passes to its
  entry point.
\<close>

subsection \<open>Loading a program\<close>

definition FILE_BUF_MAX :: u32 where "FILE_BUF_MAX = 1024 * 1024"

text \<open>Memory from \<open>file_buf\<close> on once a file with the bytes \<open>b\<close> has been read into it.\<close>

definition img :: "u8 list \<Rightarrow> kernel \<Rightarrow> u32 \<Rightarrow> u8" where
  "img b k o' = (if unat o' < length b then b ! unat o' else file_rest k o')"

definition img16 :: "(u32 \<Rightarrow> u8) \<Rightarrow> u32 \<Rightarrow> u16" where
  "img16 p o' = le16 [p o', p (o' + 1)] 0"

definition img32 :: "(u32 \<Rightarrow> u8) \<Rightarrow> u32 \<Rightarrow> u32" where
  "img32 p o' = le32 [p o', p (o' + 1), p (o' + 2), p (o' + 3)] 0"

record phdr =
  p_type :: u32
  p_offset :: u32
  p_vaddr :: u32
  p_filesz :: u32
  p_memsz :: u32

definition phdr_at :: "(u32 \<Rightarrow> u8) \<Rightarrow> u32 \<Rightarrow> phdr" where
  "phdr_at p ph = \<lparr>p_type = img32 p ph, p_offset = img32 p (ph + 4), p_vaddr = img32 p (ph + 8),
     p_filesz = img32 p (ph + 16), p_memsz = img32 p (ph + 20)\<rparr>"

text \<open>One turn of the segment loop: copy, clear the rest, move the break.\<close>

definition load_segment :: "(u32 \<Rightarrow> u8) \<Rightarrow> phdr \<Rightarrow> mem \<times> u32 \<Rightarrow> mem \<times> u32" where
  "load_segment p h s =
     (let (m, brk) = s in
      if p_type h \<noteq> 1 then (m, brk)
      else
        let m = memcpy m (USER_BASE + p_vaddr h) (map (\<lambda>i. p (p_offset h + of_nat i)) [0..<unat (p_filesz h)]);
            m = (if p_memsz h > p_filesz h
                 then memset m (USER_BASE + p_vaddr h + p_filesz h) 0 (unat (p_memsz h - p_filesz h)) else m)
        in (m, if p_vaddr h + p_memsz h > brk then p_vaddr h + p_memsz h else brk))"

definition phdrs :: "(u32 \<Rightarrow> u8) \<Rightarrow> phdr list" where
  "phdrs p =
     (let e_phoff = img32 p 28; e_phentsize = img16 p 42; e_phnum = img16 p 44
      in map (\<lambda>i. phdr_at p (e_phoff + of_nat i * ucast e_phentsize)) [0..<unat e_phnum])"

definition clear_arena :: "mem \<Rightarrow> mem" where
  "clear_arena m =
     (let guard_off = USER_STACK_GUARD_OFF;
          m = memset m USER_BASE 0 (unat guard_off);
          tail_off = guard_off + PAGE_SIZE
      in if tail_off < USER_FB_OFFSET then memset m (USER_BASE + tail_off) 0 (unat (USER_FB_OFFSET - tail_off)) else m)"

definition trampoline :: "u8 list" where
  "trampoline = [0xB8, 6, 0, 0, 0, 0x31, 0xDB, 0xCD, 0x80, 0xF4]"

definition write_user_trampoline :: "mem \<Rightarrow> mem" where
  "write_user_trampoline m = memcpy m (USER_BASE + USER_TRAMP_OFF) trampoline"

definition is_elf :: "u8 list \<Rightarrow> bool" where
  "is_elf b \<longleftrightarrow> take 4 b = [0x7F, 0x45, 0x4C, 0x46]"

text \<open>
  \<open>exec_user\<close> up to \<open>enter_user\<close>: the entry point and stack pointer it passes on, or \<open>None\<close> when the
  program cannot be started (the C result \<open>-1\<close>).
\<close>

definition exec_user :: "u8 list \<Rightarrow> kernel \<Rightarrow> (u32 \<times> u32) option \<times> kernel" where
  "exec_user name k =
     (let k = set_vm ((kvm k)\<lparr>user_mmio_used := 0, user_dma_used := 0\<rparr>) k;
          k = k\<lparr>user_brk_off := 0\<rparr>;
          (sz, b) = fs_read name FILE_BUF_MAX (fsys (files_in k))
      in if sz \<le> 0 then (None, k)
      else
        let p = img b k; k = k\<lparr>file_rest := p\<rparr> in
        if sz < 52 then (None, k)
        else if \<not> is_elf b then (None, k)
        else
          let e_entry = img32 p 24;
              k = set_vm (paging_switch (proc_pdpt (kvm k)) (kvm k)) k;
              (m, brk) = fold (load_segment p) (phdrs p) (clear_arena (um k), 0);
              k = k\<lparr>um := write_user_trampoline m, user_brk_off := brk, kbs := (kbs k)\<lparr>kill_program := False\<rparr>\<rparr>;
              k = set_sched (thread_init_main e_entry USER_FB_OFFSET (ksched k)) k
          in (Some (e_entry, USER_FB_OFFSET), k))"

subsection \<open>Boot\<close>

text \<open>What the machine brings to the boot: devices, the loader's data, the handlers' addresses.\<close>

record boot_env =
  be_dev :: port_dev
  be_clocks :: clocks
  be_font :: "u32 \<Rightarrow> u8"
  be_phys :: mem
  be_bootinfo :: "bootinfo option"
  be_pat_edx :: u32
  be_kernel_end :: u32
  be_hw :: nvme_hw
  be_isr :: "nat \<Rightarrow> u32"
  be_irq :: "nat \<Rightarrow> u32"
  be_syscall :: u32
  be_irq48 :: u32
  be_tss :: u32
  be_stack_top :: u32

text \<open>\<open>store_init\<close>: bring up the controller, find the store, load the RAM disk from it.\<close>

definition store_init :: "nvme_hw \<Rightarrow> queue \<Rightarrow> disp \<Rightarrow> disp" where
  "store_init hw aq d =
     (if rd_base (drv d) = 0 then d
      else
        let (rc, b) = nvme_init hw \<lparr>nd = nv (drv d), nvm = video (con d), pci_log = [], admin_q = aq, ident_buf = [], nregs = 0\<rparr>
        in (with_con (\<lambda>c. c\<lparr>video := nvm b\<rparr>) d)\<lparr>drv := store_init_from rc ((drv d)\<lparr>nv := nd b\<rparr>)\<rparr>)"

text \<open>The timer: the PIT, failing that the local APIC, failing that the calibrated counter.\<close>

definition boot_timer :: "boot_env \<Rightarrow> kernel \<Rightarrow> kernel option" where
  "boot_timer be k =
     Option.bind (timer_probe (be_clocks be) (mach k)) (\<lambda>m.
       if timer_alive m then Some (k\<lparr>mach := m\<rparr>)
       else
         let (ok, m) = lapic_timer_init (be_clocks be) (be_irq48 be) m in
         Option.bind
           (if ok \<noteq> 0
            then timer_probe (be_clocks be) (m\<lparr>dsp := with_con (pic_setmask 0xFD 0xFF) (dsp m)\<rparr>)
            else Some m)
           (\<lambda>m.
             if timer_alive m then Some (put_line ''timer: no PIT, using local APIC'' (k\<lparr>mach := m\<rparr>))
             else
               let m = tsc_calibrate (be_clocks be) m
               in Some (put_line (if tsc_khz m \<noteq> 0 then ''timer: no PIT, using TSC''
                                 else ''timer: no PIT and no TSC calibration; sleeps are no-ops'') (k\<lparr>mach := m\<rparr>))))"

definition boot_display :: "boot_env \<Rightarrow> disp \<Rightarrow> disp" where
  "boot_display be d =
     (let d = bootinfo_init (be_font be) (be_phys be) (be_bootinfo be) d;
          d = with_con serial_init d;
          d = with_con (\<lambda>c. c\<lparr>video := pat_init (be_pat_edx be) (video c)\<rparr>) d;
          d = with_con (\<lambda>c. c\<lparr>video := paging_init (be_kernel_end be) (video c)\<rparr>) d;
          d = (if \<not> fb_enabled (video (con d)) then vga_set_text (be_dev be) d else d);
          d = with_con (vga_puts (str ''mini-os32'' @ [10])) d
      in if \<not> fb_enabled (video (con d)) then vga_font_save (be_dev be) d else d)"

definition boot_tables :: "boot_env \<Rightarrow> kernel \<Rightarrow> kernel" where
  "boot_tables be k =
     (let k = k\<lparr>mach := (mach k)\<lparr>idt := boot_gates (be_isr be) (be_irq be) (be_syscall be) (idt (mach k))\<rparr>\<rparr>;
          (t, g) = tss_init (be_tss be) (be_stack_top be) (gdt k);
          k = k\<lparr>tss := t, gdt := g\<rparr>
      in on_con (pit_init 100) (on_con (pic_setmask 0xFC 0xFF) (on_con (pic_remap (be_dev be)) k)))"

text \<open>\<open>kmain\<close> up to its loop; \<open>None\<close> when the timer probe does not return.\<close>

definition kmain_init :: "boot_env \<Rightarrow> kernel \<Rightarrow> kernel option" where
  "kmain_init be k =
     (let k = on_disp (boot_display be) k;
          k = on_disp (store_init (be_hw be) empty_queue) k;
          k = (if store_ready (kdisk k) then put_line ''store: NVMe partition attached'' k else k);
          k = files_out ((files_in k)\<lparr>fsys := fs_load_dir (fsys (files_in k))\<rparr>) k;
          k = boot_tables be k
      in boot_timer be k)"

text \<open>
  One turn of the loop of \<open>kmain\<close>. \<open>user es\<close> is what happens from \<open>enter_user\<close> with entry and stack
  \<open>es\<close> until \<open>after_user\<close> comes back: the program and the system calls it makes.
\<close>

definition run_program :: "(u32 \<times> u32 \<Rightarrow> kernel \<Rightarrow> kernel) \<Rightarrow> u8 list \<Rightarrow> kernel \<Rightarrow> kernel" where
  "run_program user name k = (case exec_user name k of (None, k) \<Rightarrow> k | (Some es, k) \<Rightarrow> user es k)"

definition kmain_turn :: "(u32 \<times> u32 \<Rightarrow> kernel \<Rightarrow> kernel) \<Rightarrow> kernel \<Rightarrow> kernel" where
  "kmain_turn user k =
     (let k = run_program user (str ''shell'') k in
      if next_prog_set k then run_program user (next_prog k) (k\<lparr>next_prog_set := False\<rparr>) else k)"

end
