(* ===== verification/Loading.thy ===== *)
theory Loading
  imports Exec
begin

text \<open>
  What loading a program leaves in memory: every byte of the arena comes from the file, is zero, or
  belongs to the trampoline, and nothing else changes.
\<close>

subsection \<open>Segments\<close>

definition in_seg :: "u32 \<Rightarrow> phdr \<Rightarrow> bool" where
  "in_seg x h \<longleftrightarrow> p_type h = 1 \<and> unat (p_vaddr h) \<le> unat x \<and> unat x < unat (p_vaddr h) + unat (p_memsz h)"

definition seg_byte :: "(u32 \<Rightarrow> u8) \<Rightarrow> u32 \<Rightarrow> phdr \<Rightarrow> u8" where
  "seg_byte p x h = (if unat (x - p_vaddr h) < unat (p_filesz h) then p (p_offset h + (x - p_vaddr h)) else 0)"

text \<open>A segment the kernel can load: it lies below the trampoline and is not longer in the file.\<close>

definition seg_ok :: "phdr \<Rightarrow> bool" where
  "seg_ok h \<longleftrightarrow> (p_type h = 1 \<longrightarrow> unat (p_vaddr h) + unat (p_memsz h) \<le> unat USER_TRAMP_OFF \<and> p_filesz h \<le> p_memsz h)"

lemma tramp_off: "unat USER_TRAMP_OFF = 24109056" "unat USER_STACK_GUARD_OFF = 24113152" "unat USER_FB_OFFSET = 25165824"
  by (simp_all add: layout_defs)

lemma load_segment_mem:
  assumes "seg_ok h"
  shows "fst (load_segment p h (m, b)) (USER_BASE + x) = (if in_seg x h then seg_byte p x h else m (USER_BASE + x))"
proof (cases "p_type h = 1")
  case True
  define v f n where "v = p_vaddr h" and "f = p_filesz h" and "n = p_memsz h"
  have b: "unat v + unat n \<le> 24109056" and fn: "unat f \<le> unat n"
    using assms True by (simp_all add: seg_ok_def tramp_off v_def f_def n_def word_le_nat_alt)
  have vf: "unat (v + f) = unat v + unat f" using b fn by (subst unat_add_lem [THEN iffD1]) simp_all
  have nf: "unat (n - f) = unat n - unat f" by (rule unat_minus [OF fn])
  define m1 where "m1 = memcpy m (USER_BASE + v) (map (\<lambda>i. p (p_offset h + of_nat i)) [0..<unat f])"
  have m1: "m1 (USER_BASE + x) = (if unat (x - v) < unat f then p (p_offset h + (x - v)) else m (USER_BASE + x))"
    unfolding m1_def by (subst memcpy_apply) (simp_all add: less_imp_le)
  have r: "unat (x - v) < unat f \<longleftrightarrow> unat v \<le> unat x \<and> unat x < unat v + unat f" by (rule in_range_iff) (use b fn in simp)
  have r2: "unat (x - (v + f)) < unat n - unat f \<longleftrightarrow> unat v + unat f \<le> unat x \<and> unat x < unat v + unat n"
    using in_range_iff [of "v + f" "unat n - unat f" x] b fn by (simp add: vf)
  have "fst (load_segment p h (m, b)) = (if f < n then memset m1 (USER_BASE + v + f) 0 (unat (n - f)) else m1)"
    using True by (simp add: load_segment_def m1_def v_def f_def n_def Let_def)
  moreover have "memset m1 (USER_BASE + v + f) 0 (unat n - unat f) (USER_BASE + x) =
      (if unat (x - (v + f)) < unat n - unat f then 0 else m1 (USER_BASE + x))"
  proof (subst memset_apply)
    show "unat n - unat f \<le> 4294967296" using unat_lt_2_32 [of n] by linarith
    have "USER_BASE + x - (USER_BASE + v + f) = x - (v + f)" by simp
    then show "(if unat (USER_BASE + x - (USER_BASE + v + f)) < unat n - unat f then 0 else m1 (USER_BASE + x)) =
      (if unat (x - (v + f)) < unat n - unat f then 0 else m1 (USER_BASE + x))" by (simp only:)
  qed
  ultimately have "fst (load_segment p h (m, b)) (USER_BASE + x) =
      (if unat (x - (v + f)) < unat n - unat f then 0 else m1 (USER_BASE + x))"
    using fn by (simp add: nf word_less_nat_alt)
  also have "\<dots> = (if in_seg x h then seg_byte p x h else m (USER_BASE + x))"
    using True fn by (auto simp: m1 r r2 in_seg_def seg_byte_def v_def [symmetric] f_def [symmetric] n_def [symmetric])
  finally show ?thesis .
next
  case False
  then show ?thesis by (simp add: load_segment_def in_seg_def)
qed

definition loaded :: "(u32 \<Rightarrow> u8) \<Rightarrow> phdr list \<Rightarrow> u32 \<Rightarrow> u8 option" where
  "loaded p hs x = map_option (seg_byte p x) (find (in_seg x) (rev hs))"

lemma load_segments_mem:
  "\<forall>h \<in> set hs. seg_ok h \<Longrightarrow>
   fst (fold (load_segment p) hs (m, b)) (USER_BASE + x) = (case loaded p hs x of Some c \<Rightarrow> c | None \<Rightarrow> m (USER_BASE + x))"
proof (induction hs rule: rev_induct)
  case (snoc h hs)
  obtain m' b' where f: "fold (load_segment p) hs (m, b) = (m', b')" by (cases "fold (load_segment p) hs (m, b)")
  show ?case using snoc load_segment_mem [of h p m' b' x] by (auto simp: f loaded_def)
qed (simp add: loaded_def)

definition seg_end :: "phdr \<Rightarrow> nat" where
  "seg_end h = (if p_type h = 1 then unat (p_vaddr h) + unat (p_memsz h) else 0)"

lemma load_segments_brk:
  "\<forall>h \<in> set hs. seg_ok h \<Longrightarrow> unat (snd (fold (load_segment p) hs (m, b))) = foldl max (unat b) (map seg_end hs)"
proof (induction hs rule: rev_induct)
  case (snoc h hs)
  obtain m' b' where f: "fold (load_segment p) hs (m, b) = (m', b')" by (cases "fold (load_segment p) hs (m, b)")
  have "unat (p_vaddr h + p_memsz h) = unat (p_vaddr h) + unat (p_memsz h)" if "p_type h = 1"
    using snoc.prems that by (subst unat_add_lem [THEN iffD1]) (auto simp: seg_ok_def tramp_off)
  then have "unat (snd (load_segment p h (m', b'))) = max (unat b') (seg_end h)"
    by (auto simp: load_segment_def Let_def seg_end_def word_less_nat_alt)
  then show ?case using snoc by (simp add: f)
qed simp

lemma clear_arena_mem:
  "clear_arena m (USER_BASE + x) =
     (if unat x < unat USER_FB_OFFSET \<and> \<not> (unat USER_STACK_GUARD_OFF \<le> unat x \<and> unat x < unat USER_STACK_GUARD_OFF + 4096)
      then 0 else m (USER_BASE + x))"
proof -
  have t: "USER_STACK_GUARD_OFF + PAGE_SIZE < USER_FB_OFFSET" "unat (USER_STACK_GUARD_OFF + PAGE_SIZE) = 24117248"
    "unat (USER_FB_OFFSET - (USER_STACK_GUARD_OFF + PAGE_SIZE)) = 1048576"
    by (simp_all add: layout_defs)
  have r: "unat (x - (USER_STACK_GUARD_OFF + PAGE_SIZE)) < 1048576 \<longleftrightarrow> 24117248 \<le> unat x \<and> unat x < 25165824"
    using in_range_iff [of "USER_STACK_GUARD_OFF + PAGE_SIZE" 1048576 x] by (simp add: t)
  have e: "USER_BASE + x - (USER_BASE + y) = x - y" for y by simp
  show ?thesis
    unfolding clear_arena_def Let_def using t(1) by (simp add: memset_apply tramp_off t(3) e r)
qed

lemma exec_user_loaded:
  assumes e: "exec_user name k = (Some es, k')"
    and f: "fs_read name FILE_BUF_MAX \<lparr>dk = kdisk k, fdir = kdir k\<rparr> = (sz, b)"
    and hs: "hs = phdrs (img b k)" "\<forall>h \<in> set hs. seg_ok h"
  shows "um k' (USER_BASE + x) =
      (if unat USER_TRAMP_OFF \<le> unat x \<and> unat x < unat USER_TRAMP_OFF + 10 then trampoline ! (unat x - unat USER_TRAMP_OFF)
       else case loaded (img b k) hs x of Some c \<Rightarrow> c
       | None \<Rightarrow> if unat x < unat USER_FB_OFFSET \<and> \<not> (unat USER_STACK_GUARD_OFF \<le> unat x \<and> unat x < unat USER_STACK_GUARD_OFF + 4096)
                then 0 else um k (USER_BASE + x)) \<and>
    unat (user_brk_off k') = foldl max 0 (map seg_end hs) \<and>
    es = (img32 (img b k) 24, USER_FB_OFFSET) \<and>
    ksched k' = thread_init_main (fst es) (snd es) (ksched k)"
proof -
  define p where "p = img b k"
  define k1 where "k1 = (set_vm ((kvm k)\<lparr>user_mmio_used := 0, user_dma_used := 0\<rparr>) k)\<lparr>user_brk_off := 0\<rparr>"
  have k1: "img b k1 = p" "um k1 = um k" "ksched k1 = ksched k" "fsys (files_in k1) = \<lparr>dk = kdisk k, fdir = kdir k\<rparr>"
    by (simp_all add: k1_def p_def lens_defs img_def fun_eq_iff)
  obtain m brk where l: "fold (load_segment p) hs (clear_arena (um k), 0) = (m, brk)"
    by (cases "fold (load_segment p) hs (clear_arena (um k), 0)")
  have hs': "phdrs p = hs" using hs by (simp add: p_def)
  have ok: "\<not> sz \<le> 0" "\<not> sz < 52" "is_elf b"
    using e unfolding exec_user_def Let_def k1_def [symmetric] k1(4) f by (auto split: if_splits)
  have k': "um k' = write_user_trampoline m" "user_brk_off k' = brk" "es = (img32 p 24, USER_FB_OFFSET)"
    "ksched k' = thread_init_main (img32 p 24) USER_FB_OFFSET (ksched k)"
    using e ok unfolding exec_user_def Let_def k1_def [symmetric] k1(4) f
    by (auto simp: k1 hs' l lens_defs)
  have m: "m (USER_BASE + x) = (case loaded p hs x of Some c \<Rightarrow> c | None \<Rightarrow> clear_arena (um k) (USER_BASE + x))"
    using load_segments_mem [OF hs(2), of p "clear_arena (um k)" 0 x] l by simp
  have t: "write_user_trampoline m (USER_BASE + x) =
      (if unat USER_TRAMP_OFF \<le> unat x \<and> unat x < unat USER_TRAMP_OFF + 10 then trampoline ! (unat x - unat USER_TRAMP_OFF)
       else m (USER_BASE + x))"
    using in_range_iff [of USER_TRAMP_OFF 10 x] unat_minus [of USER_TRAMP_OFF x]
    unfolding write_user_trampoline_def by (subst memcpy_apply) (auto simp: tramp_off trampoline_def)
  show ?thesis
    using load_segments_brk [OF hs(2), of p "clear_arena (um k)" 0] l
    by (auto simp: k' t m clear_arena_mem p_def [symmetric] split: option.split)
qed

text \<open>
  C24. Loading a program: once \<open>exec_user\<close> has accepted a file whose segments lie below the trampoline,
  every byte of the arena holds what the last segment covering it says (the file's byte, or zero past
  the end of the segment's file part), the kill trampoline at its place, and zero everywhere else; the
  guard page and everything outside the arena are unchanged; the break is at the highest segment end
  and the first thread starts at the file's entry point with its stack at the top of the arena.
\<close>

theorem exec_user_loads:
  assumes e: "exec_user name k = (Some es, k')"
    and f: "fs_read name FILE_BUF_MAX \<lparr>dk = kdisk k, fdir = kdir k\<rparr> = (sz, b)"
    and hs: "hs = phdrs (img b k)" "\<forall>h \<in> set hs. seg_ok h"
  shows "um k' (USER_BASE + x) =
      (if unat USER_TRAMP_OFF \<le> unat x \<and> unat x < unat USER_TRAMP_OFF + 10 then trampoline ! (unat x - unat USER_TRAMP_OFF)
       else case loaded (img b k) hs x of Some c \<Rightarrow> c
       | None \<Rightarrow> if unat x < unat USER_FB_OFFSET \<and> \<not> (unat USER_STACK_GUARD_OFF \<le> unat x \<and> unat x < unat USER_STACK_GUARD_OFF + 4096)
                then 0 else um k (USER_BASE + x)) \<and>
    unat (user_brk_off k') = foldl max 0 (map seg_end hs) \<and>
    es = (img32 (img b k) 24, USER_FB_OFFSET) \<and>
    ksched k' = thread_init_main (fst es) (snd es) (ksched k)"
  by (rule exec_user_loaded [OF assms])

subsection \<open>A program to load\<close>

text \<open>An ELF file with one segment of four bytes in the file and eight in memory, at 0x1000.\<close>

definition demo_elf :: "u8 list" where
  "demo_elf =
     [0x7F, 0x45, 0x4C, 0x46, 1, 1, 1, 0, 0, 0, 0, 0, 0, 0, 0, 0, 2, 0, 3, 0, 1, 0, 0, 0,
      0x00, 0x10, 0, 0, 52, 0, 0, 0, 0, 0, 0, 0, 0, 0, 0, 0, 52, 0, 32, 0, 1, 0, 0, 0, 0, 0, 0, 0,
      1, 0, 0, 0, 84, 0, 0, 0, 0x00, 0x10, 0, 0, 0, 0, 0, 0, 4, 0, 0, 0, 8, 0, 0, 0, 5, 0, 0, 0, 0, 0, 0, 0,
      0xB8, 6, 0x11, 0x22]"

definition demo_kernel :: kernel where
  "demo_kernel =
     \<lparr>mach = demo_machine\<lparr>dsp := demo_disp\<lparr>drv := demo_disk\<lparr>rd_mem := (\<lambda>a. arr_get demo_elf (unat (a - 0x7008000)))\<rparr>\<rparr>\<rparr>,
      kbs = demo_kbd, kdir = [zero_dirent\<lparr>d_name := put_name 47 demo_name, d_start := FS_DATA_LBA, d_size := 88\<rparr>],
      kfiles = replicate 8 zero_file, um = (\<lambda>_. 0xCC), user_brk_off = 0, exit_code = 0, next_prog = [], next_prog_set = False,
      sys_cwd = [], irq_counts = (\<lambda>_. 0), text_restore_pending = False, text_clear_pending = False, file_rest = (\<lambda>_. 0),
      tss = zero_tss, gdt = (\<lambda>_. 0)\<rparr>"

lemma demo_read: "fs_read demo_name FILE_BUF_MAX \<lparr>dk = kdisk demo_kernel, fdir = kdir demo_kernel\<rparr> = (88, demo_elf)"
proof -
  have len: "length demo_elf = 88" by (simp add: demo_elf_def)
  have t: "take 88 (mem_load (\<lambda>a. arr_get demo_elf (unat (a - 0x7008000))) 0x7008000 512) = demo_elf"
    by (rule nth_equalityI) (simp_all add: len nth_mem_load arr_get_def unat_of_nat)
  have n: "name_eq_ci (put_name 47 demo_name) demo_name" "arr_get (put_name 47 demo_name) 0 \<noteq> 0" by code_simp+
  have "fs_find demo_name \<lparr>dk = kdisk demo_kernel, fdir = kdir demo_kernel\<rparr> = 0"
    using n by (simp add: fs_find_def demo_kernel_def dirent_used_def)
  then show ?thesis
    by (simp add: t fs_read_def demo_kernel_def FILE_BUF_MAX_def disk_read_sector_def disk_read_sectors_def demo_disk_def
        rd_range_ok_def rd_addr_def FS_DATA_LBA_def FS_DIR_LBA_def DIR_SECTORS_def KERNEL_LBA_def KERNEL_SECTORS_def STAGE2_SECTORS_def)
qed

lemma demo_img: "unat i < 88 \<Longrightarrow> img demo_elf k i = demo_elf ! unat i"
  by (simp add: img_def demo_elf_def)

lemma demo_words:
  "img32 (img demo_elf k) 24 = 0x1000" "img32 (img demo_elf k) 28 = 52" "img16 (img demo_elf k) 42 = 32" "img16 (img demo_elf k) 44 = 1"
  "img32 (img demo_elf k) 52 = 1" "img32 (img demo_elf k) 56 = 84" "img32 (img demo_elf k) 60 = 0x1000"
  "img32 (img demo_elf k) 68 = 4" "img32 (img demo_elf k) 72 = 8"
  by (simp_all add: img32_def img16_def demo_img le32_def le16_def arr_get_def) (simp_all add: demo_elf_def)

lemma demo_phdrs: "phdrs (img demo_elf k) = [\<lparr>p_type = 1, p_offset = 84, p_vaddr = 0x1000, p_filesz = 4, p_memsz = 8\<rparr>]"
  by (simp add: phdrs_def demo_words phdr_at_def)

theorem exec_user_loads_witness:
  "\<exists>k'. exec_user demo_name demo_kernel = (Some (0x1000, USER_FB_OFFSET), k') \<and>
     um k' (USER_BASE + 0x1000) = 0xB8 \<and> um k' (USER_BASE + 0x1005) = 0 \<and> um k' (USER_BASE + USER_TRAMP_OFF) = 0xB8 \<and>
     user_brk_off k' = 0x1008"
proof -
  obtain r k' where e: "exec_user demo_name demo_kernel = (r, k')" by (cases "exec_user demo_name demo_kernel")
  have fi: "fsys (files_in ((set_vm v demo_kernel)\<lparr>user_brk_off := 0\<rparr>)) = \<lparr>dk = kdisk demo_kernel, fdir = kdir demo_kernel\<rparr>" for v
    by (simp add: lens_defs)
  have elf: "is_elf demo_elf" by (simp add: is_elf_def demo_elf_def)
  have "r = Some (0x1000, USER_FB_OFFSET)"
    using e unfolding exec_user_def Let_def fi demo_read by (auto simp: elf demo_words split: prod.splits)
  then have e': "exec_user demo_name demo_kernel = (Some (0x1000, USER_FB_OFFSET), k')" using e by simp
  have ok: "\<forall>h \<in> set (phdrs (img demo_elf demo_kernel)). seg_ok h"
    by (simp add: demo_phdrs seg_ok_def tramp_off)
  note T = exec_user_loads [OF e' demo_read refl ok]
  have i: "img demo_elf demo_kernel 84 = 0xB8" by (simp add: demo_img) (simp add: demo_elf_def)
  have "um k' (USER_BASE + 0x1000) = 0xB8" "um k' (USER_BASE + 0x1005) = 0"
    using T [of "0x1000"] T [of "0x1005"] i by (simp_all add: demo_phdrs loaded_def in_seg_def seg_byte_def tramp_off)
  moreover have "um k' (USER_BASE + USER_TRAMP_OFF) = 0xB8" using T [of USER_TRAMP_OFF] by (simp add: trampoline_def)
  moreover have "unat (user_brk_off k') = 4104" using T [of 0] by (simp add: demo_phdrs seg_end_def)
  then have "user_brk_off k' = 0x1008" by (intro word_unat_eq_iff [THEN iffD2]) simp
  ultimately show ?thesis using e' by blast
qed

end
