(* ===== verification/Syscall.thy ===== *)
theory Syscall
  imports Exec
begin

text \<open>
  The system calls (kernel/kernel.c, \<open>syscall_dispatch\<close>): one definition per call, on the kernel state of
  theory Kernel, and the dispatcher. A call that waits returns \<open>None\<close> when the interrupts given by the
  environment are used up before it is done. Results are the 32-bit values the program sees.
\<close>

subsection \<open>Environment\<close>

text \<open>
  The devices, the clocks and the BIOS; \<open>en_wakes\<close>: how many keyboard interrupts are served at each
  halt of a keyboard wait; \<open>en_intrs\<close>: the interrupt that ends each halt of a sleep or interrupt wait.
\<close>

record env =
  en_dev :: port_dev
  en_dev16 :: "io list \<Rightarrow> u16 \<Rightarrow> u16"
  en_dev32 :: "io list \<Rightarrow> u16 \<Rightarrow> u32"
  en_clocks :: clocks
  en_bios :: bios
  en_phys :: mem
  en_vbe :: "nat \<Rightarrow> vbe_list_entry"
  en_wakes :: "nat list"
  en_intrs :: "u32 list"

type_synonym sysres = "(u32 \<times> kernel) option"

definition put_user :: "u32 \<Rightarrow> u8 list \<Rightarrow> kernel \<Rightarrow> kernel" where
  "put_user off b k = k\<lparr>um := memcpy (um k) (USER_BASE + off) b\<rparr>"

definition get_user :: "u32 \<Rightarrow> nat \<Rightarrow> kernel \<Rightarrow> u8 list" where
  "get_user off n k = mem_load (um k) (USER_BASE + off) n"

definition words :: "u32 list \<Rightarrow> u8 list" where
  "words ws = concat (map le32_bytes ws)"

subsection \<open>Console and keyboard\<close>

definition sys_write :: "u32 \<Rightarrow> u32 \<Rightarrow> u32 \<Rightarrow> kernel \<Rightarrow> u32 \<times> kernel" where
  "sys_write fd off len k =
     (if \<not> user_range_ok off len then (ERR, k)
      else if fd = 1 \<or> fd = 2 then (len, on_con (fold vga_putc (get_user off (unat len) k)) k)
      else (ERR, k))"

text \<open>The bytes of the caller's buffer after the terminating zero are not followed.\<close>

definition sys_read :: "env \<Rightarrow> u32 \<Rightarrow> u32 \<Rightarrow> u32 \<Rightarrow> kernel \<Rightarrow> sysres" where
  "sys_read e fd off len k =
     (if \<not> user_range_ok off len then Some (ERR, k)
      else if len = 0 then Some (0, k)
      else if fd \<noteq> 0 then Some (ERR, k)
      else Option.bind (readline (en_dev e) (unat len) (en_wakes e) (kbd_in k)) (\<lambda>(line, _, kb).
        Some (of_nat (length line) - 1, put_user off line (kbd_out kb k))))"

partial_function (option) getkey_loop :: "port_dev \<Rightarrow> nat list \<Rightarrow> keyboard \<Rightarrow> (u16 \<times> nat list \<times> keyboard) option" where
  "getkey_loop dev wakes s =
     Option.bind (kbd_getkey dev wakes s) (\<lambda>(key, wakes, s). if key = 0 then getkey_loop dev wakes s else Some (key, wakes, s))"

definition sys_getkey :: "env \<Rightarrow> kernel \<Rightarrow> sysres" where
  "sys_getkey e k =
     Option.bind (getkey_loop (en_dev e) (en_wakes e) (kbd_in k)) (\<lambda>(key, _, kb). Some (ucast key, kbd_out kb k))"

definition sys_getkey_nb :: "env \<Rightarrow> kernel \<Rightarrow> u32 \<times> kernel" where
  "sys_getkey_nb e k = (let (key, kb) = kbd_getkey_nb (en_dev e) (kbd_in k) in (ucast key, kbd_out kb k))"

definition sys_keystate :: "u32 \<Rightarrow> kernel \<Rightarrow> u32" where
  "sys_keystate n k =
     (let ext = (\<lambda>i. of_bool (ext_key_down (kbs k) i)) in
      if n < 128 then of_bool (key_down (kbs k) (unat n))
      else if n = 0x100 then ext 0x48
      else if n = 0x101 then ext 0x50
      else if n = 0x102 then ext 0x4B
      else if n = 0x103 then ext 0x4D
      else if n = 0x104 then ext 0x53
      else 0)"

subsection \<open>Information\<close>

definition sys_meminfo :: "u32 \<Rightarrow> u32 \<Rightarrow> kernel \<Rightarrow> u32 \<times> kernel" where
  "sys_meminfo off lim k =
     (if lim < 24 then (ERR, k)
      else if \<not> user_range_ok off 24 then (ERR, k)
      else
        let v = kvm k;
            kernel_kb = (if user_phys_base v \<noteq> 0 then user_phys_base v div 1024 else phys_free v div 1024);
            user_kb = (if user_phys_limit v > user_phys_base v then (user_phys_limit v - user_phys_base v) div 1024 else 0);
            ramdisk_kb = rd_sectors (kdisk k) div 2;
            total_kb = ram_total_kb (dsp (mach k));
            used_kb = kernel_kb + user_kb + ramdisk_kb;
            free_kb = (if total_kb > used_kb then total_kb - used_kb else 0)
        in (24, put_user off (words [total_kb, kernel_kb, user_kb, ramdisk_kb, used_kb, free_kb]) k))"

text \<open>\<open>storageinfo_t\<close>: seven words, the three strings, one byte of padding, nine words.\<close>

definition storageinfo :: "kernel \<Rightarrow> u8 list" where
  "storageinfo k =
     (let d = kdisk k; ni = info (nv d) in
      words [of_bool (present ni), block_size ni, ucast (blocks ni), ucast (drop_bit 32 (blocks ni)),
             ucast (pci_vendor ni), ucast (pci_device ni),
             push_bit 16 (ucast (pci_bus ni)) OR push_bit 8 (ucast (pci_dev ni)) OR ucast (pci_fn ni)] @
      take 41 (model ni) @ take 21 (serial ni) @ take 9 (firmware ni) @ [0] @
      words [store_status d, of_bool (store_ready d), ucast (store_first_lba d), ucast (drop_bit 32 (store_first_lba d)),
             ucast (store_last_lba d), ucast (drop_bit 32 (store_last_lba d)), store_fs_sectors d, rd_sectors d, FS_DATA_LBA])"

definition sys_storage :: "u32 \<Rightarrow> u32 \<Rightarrow> kernel \<Rightarrow> u32 \<times> kernel" where
  "sys_storage off lim k =
     (if lim < 136 then (ERR, k)
      else if \<not> user_range_ok off 136 then (ERR, k)
      else (136, put_user off (storageinfo k) k))"

definition sys_sync :: "kernel \<Rightarrow> u32 \<times> kernel" where
  "sys_sync k =
     (let d = kdisk k in
      if \<not> store_ready d then (ERR, k)
      else
        let n = (if store_fs_sectors d < rd_sectors d then store_fs_sectors d else rd_sectors d) in
        if \<not> store_lba_ok (store_first_lba d + 1) n d then (ERR, k)
        else
          let (rc, nv') = nvme_write (store_first_lba d + 1) n (mem_load (rd_mem d) (rd_base d) (unat n * 512)) (nv d)
          in (if rc = 0 then 0 else ERR, set_disk (d\<lparr>nv := nv'\<rparr>) k))"

definition sys_ticks :: "env \<Rightarrow> kernel \<Rightarrow> u32 \<times> kernel" where
  "sys_ticks e k =
     (if \<not> timer_alive (mach k) \<and> tsc_khz (mach k) \<noteq> 0
      then let (t, m) = rdtsc (en_clocks e) (mach k) in (ucast (div_u64_u32 t (tsc_khz m * 10)), k\<lparr>mach := m\<rparr>)
      else (timer_ticks (ksched k), k))"

subsection \<open>Hardware access\<close>

definition sys_io_in :: "env \<Rightarrow> u32 \<Rightarrow> u32 \<Rightarrow> kernel \<Rightarrow> u32 \<times> kernel" where
  "sys_io_in e p width k =
     (let port = ucast p :: u16; c = con_of k; k' = on_con (\<lambda>c. c\<lparr>ports := ports c @ [In port]\<rparr>) k in
      if width = 1 then (ucast (en_dev e (ports c) port), k')
      else if width = 2 then (ucast (en_dev16 e (ports c) port), k')
      else if width = 4 then (en_dev32 e (ports c) port, k')
      else (ERR, k))"

definition outl :: "u16 \<Rightarrow> u32 \<Rightarrow> con \<Rightarrow> con" where
  "outl p v s = s\<lparr>ports := ports s @ [OutL p v]\<rparr>"

definition sys_io_out :: "u32 \<Rightarrow> u32 \<Rightarrow> u32 \<Rightarrow> kernel \<Rightarrow> u32 \<times> kernel" where
  "sys_io_out p width v k =
     (let port = ucast p in
      if width = 1 then (0, on_con (outb port (ucast v)) k)
      else if width = 2 then (0, on_con (outw port (ucast v)) k)
      else if width = 4 then (0, on_con (outl port v) k)
      else (ERR, k))"

definition pci_cfg_addr :: "u32 \<Rightarrow> u32 \<Rightarrow> u32" where
  "pci_cfg_addr bdf off =
     0x80000000 OR (bdf AND 0xFF0000) OR push_bit 3 (bdf AND 0xFF00) OR push_bit 8 (bdf AND 0x7) OR (off AND 0xFC)"

definition sys_pci_read :: "env \<Rightarrow> u32 \<Rightarrow> u32 \<Rightarrow> kernel \<Rightarrow> u32 \<times> kernel" where
  "sys_pci_read e bdf off k =
     (let k = on_con (outl 0xCF8 (pci_cfg_addr bdf off)) k
      in (en_dev32 e (ports (con_of k)) 0xCFC, on_con (\<lambda>c. c\<lparr>ports := ports c @ [In 0xCFC]\<rparr>) k))"

definition sys_pci_write :: "u32 \<Rightarrow> u32 \<Rightarrow> u32 \<Rightarrow> kernel \<Rightarrow> u32 \<times> kernel" where
  "sys_pci_write bdf off v k = (0, on_con (outl 0xCFC v) (on_con (outl 0xCF8 (pci_cfg_addr bdf off)) k))"

definition ksys_map_phys :: "u32 \<Rightarrow> u32 \<Rightarrow> u32 \<Rightarrow> kernel \<Rightarrow> u32 \<times> kernel" where
  "ksys_map_phys lo hi sz k = (let (r, v) = sys_map_phys lo hi sz (kvm k) in (r, set_vm v k))"

text \<open>The buffer is cleared through a pointer to its physical address, then the two words are stored.\<close>

definition ksys_dma_alloc :: "u32 \<Rightarrow> u32 \<Rightarrow> kernel \<Rightarrow> u32 \<times> kernel" where
  "ksys_dma_alloc req out k =
     (let (r, cl, ws, v) = sys_dma_alloc req out (kvm k);
          k = set_vm v k
      in case cl of None \<Rightarrow> (r, k)
         | Some (phys, sz) \<Rightarrow> (r, put_user out (words ws) (k\<lparr>um := memset (um k) phys 0 (unat sz)\<rparr>)))"

definition pic_unmask :: "port_dev \<Rightarrow> int \<Rightarrow> con \<Rightarrow> con" where
  "pic_unmask dev n c =
     (if n < 0 \<or> n > 15 then c
      else if n < 8 then (let (v, c) = inb dev 0x21 c in outb 0x21 (v AND NOT (push_bit (nat n) 1)) c)
      else
        let (v, c) = inb dev 0xA1 c;
            c = outb 0xA1 (v AND NOT (push_bit (nat (n - 8)) 1)) c;
            (v, c) = inb dev 0x21 c
        in outb 0x21 (v AND NOT (push_bit 2 1)) c)"

text \<open>An interrupt that arrives while the kernel itself runs (or halts).\<close>

definition kernel_irq :: "port_dev \<Rightarrow> u32 \<Rightarrow> kernel \<Rightarrow> kernel" where
  "kernel_irq dev v k = snd (irq_handler dev (zero_frame\<lparr>ff_int_no := v, ff_cs := ucast KERNEL_CS\<rparr>) k)"

fun irq_wait_loop :: "port_dev \<Rightarrow> u32 list \<Rightarrow> nat \<Rightarrow> u32 \<Rightarrow> u32 \<Rightarrow> u32 \<Rightarrow> kernel \<Rightarrow> sysres" where
  "irq_wait_loop dev intrs n start t0 timeout_ms k =
     (if irq_counts k n \<noteq> start then Some (irq_counts k n - start, k)
      else if timeout_ms \<noteq> 0 \<and> timer_ticks (ksched k) - t0 \<ge> timeout_ms div 10 then Some (0, k)
      else case intrs of [] \<Rightarrow> None
           | v # vs \<Rightarrow> irq_wait_loop dev vs n start t0 timeout_ms (kernel_irq dev v k))"

declare irq_wait_loop.simps [simp del]

definition sys_irq_wait :: "env \<Rightarrow> u32 \<Rightarrow> u32 \<Rightarrow> kernel \<Rightarrow> sysres" where
  "sys_irq_wait e line timeout_ms k =
     (let n = sint line in
      if n < 0 \<or> n > 15 then Some (ERR, k)
      else
        let k = on_con (pic_unmask (en_dev e) n) k
        in irq_wait_loop (en_dev e) (en_intrs e) (nat n) (irq_counts k (nat n)) (timer_ticks (ksched k)) timeout_ms k)"

subsection \<open>Working directory and files\<close>

text \<open>\<open>sys_cwd\<close> is the array of 64 bytes; the copy from \<open>tmp\<close> takes what \<open>user_copy_str\<close> stored there.\<close>

definition sys_setcwd :: "u32 \<Rightarrow> kernel \<Rightarrow> u32 \<times> kernel" where
  "sys_setcwd off k =
     (let (ok, s) = user_copy_str (um k) off 64 in
      if \<not> ok then (ERR, k) else (0, k\<lparr>sys_cwd := s\<rparr>))"

definition sys_getcwd :: "u32 \<Rightarrow> u32 \<Rightarrow> kernel \<Rightarrow> u32 \<times> kernel" where
  "sys_getcwd off lim k =
     (if lim = 0 \<or> \<not> user_range_ok off lim then (ERR, k)
      else let s = take (unat (lim - 1)) (cstr (sys_cwd k)) in (of_nat (length s), put_user off (s @ [0]) k))"

fun list_loop :: "dirent list \<Rightarrow> u32 \<Rightarrow> u32 \<Rightarrow> u8 list \<Rightarrow> u32 \<times> u8 list" where
  "list_loop [] lim count out = (count, out)"
| "list_loop (e # es) lim count out =
     (if arr_get (d_name e) 0 = 0 then list_loop es lim count out
      else if (count + 1) * 52 > lim then (count, out)
      else list_loop es lim (count + 1) (out @ take 48 (d_name e) @ le32_bytes (d_size e)))"

definition sys_list :: "u32 \<Rightarrow> u32 \<Rightarrow> kernel \<Rightarrow> u32 \<times> kernel" where
  "sys_list off lim k =
     (if \<not> user_range_ok off lim then (ERR, k)
      else let (count, out) = list_loop (kdir k) lim 0 [] in (count, put_user off out k))"

definition with_name :: "u32 \<Rightarrow> (u8 list \<Rightarrow> kernel \<Rightarrow> u32 \<times> kernel) \<Rightarrow> kernel \<Rightarrow> u32 \<times> kernel" where
  "with_name off f k =
     (let (ok, uname) = user_copy_str (um k) off 64 in if \<not> ok then (ERR, k) else f (normalize_name uname) k)"

definition on_fs :: "(fs \<Rightarrow> int \<times> fs) \<Rightarrow> kernel \<Rightarrow> u32 \<times> kernel" where
  "on_fs f k = (let (r, v) = f (fsys (files_in k)) in (of_int r, files_out ((files_in k)\<lparr>fsys := v\<rparr>) k))"

definition sys_load :: "u32 \<Rightarrow> u32 \<Rightarrow> u32 \<Rightarrow> kernel \<Rightarrow> u32 \<times> kernel" where
  "sys_load name_off buf_off lim k =
     (if \<not> user_range_ok buf_off lim then (ERR, k)
      else with_name name_off (\<lambda>kname k.
        let (r, b) = fs_read kname lim (fsys (files_in k)) in (of_int r, put_user buf_off b k)) k)"

text \<open>Whole sectors are written, so up to 511 bytes after the caller's buffer are read as well.\<close>

definition sys_save :: "u32 \<Rightarrow> u32 \<Rightarrow> u32 \<Rightarrow> kernel \<Rightarrow> u32 \<times> kernel" where
  "sys_save name_off buf_off sz k =
     (if \<not> user_range_ok buf_off sz then (ERR, k)
      else with_name name_off (\<lambda>kname k.
        on_fs (fs_write kname (get_user buf_off (unat (sectors_of sz) * 512) k) sz) k) k)"

definition sys_exec :: "u32 \<Rightarrow> kernel \<Rightarrow> u32 \<times> kernel" where
  "sys_exec off k = with_name off (\<lambda>kname k. (0, request_exit (k\<lparr>next_prog := kname, next_prog_set := True\<rparr>))) k"

definition sys_exit :: "u32 \<Rightarrow> kernel \<Rightarrow> u32 \<times> kernel" where
  "sys_exit code k = (0, request_exit (k\<lparr>exit_code := code\<rparr>))"

definition sys_sbrk :: "u32 \<Rightarrow> kernel \<Rightarrow> u32 \<times> kernel" where
  "sys_sbrk inc k =
     (let prev = user_brk_off k in
      if inc > USER_STACK_GUARD_OFF - prev then (ERR, k) else (prev, k\<lparr>user_brk_off := prev + inc\<rparr>))"

definition sys_rename :: "u32 \<Rightarrow> u32 \<Rightarrow> kernel \<Rightarrow> u32 \<times> kernel" where
  "sys_rename old_off new_off k =
     with_name old_off (\<lambda>kold. with_name new_off (\<lambda>knew. on_fs (fs_rename kold knew))) k"

definition sys_delete :: "u32 \<Rightarrow> kernel \<Rightarrow> u32 \<times> kernel" where
  "sys_delete name_off k = with_name name_off (\<lambda>kname. on_fs (fs_delete kname)) k"

definition sys_open :: "u32 \<Rightarrow> u32 \<Rightarrow> kernel \<Rightarrow> u32 \<times> kernel" where
  "sys_open name_off mode k =
     with_name name_off (\<lambda>kname k. let (r, f) = file_open kname (sint mode) (files_in k) in (r, files_out f k)) k"

definition sys_fread :: "u32 \<Rightarrow> u32 \<Rightarrow> u32 \<Rightarrow> kernel \<Rightarrow> u32 \<times> kernel" where
  "sys_fread fd off len k =
     (if \<not> user_range_ok off len then (ERR, k)
      else let (r, out, f) = file_read (sint fd) len (files_in k) in (r, put_user off out (files_out f k)))"

definition sys_fwrite :: "u32 \<Rightarrow> u32 \<Rightarrow> u32 \<Rightarrow> kernel \<Rightarrow> u32 \<times> kernel" where
  "sys_fwrite fd off len k =
     (if \<not> user_range_ok off len then (ERR, k)
      else let (r, f) = file_write (sint fd) (get_user off (unat len) k) (files_in k) in (r, files_out f k))"

definition sys_close :: "u32 \<Rightarrow> kernel \<Rightarrow> u32 \<times> kernel" where
  "sys_close fd k = (let (r, f) = file_close (sint fd) (files_in k) in (r, files_out f k))"

definition sys_seek :: "u32 \<Rightarrow> u32 \<Rightarrow> kernel \<Rightarrow> u32 \<times> kernel" where
  "sys_seek fd pos k = (let (r, f) = file_seek (sint fd) (sint pos) (files_in k) in (r, files_out f k))"

subsection \<open>Threads and time\<close>

definition sys_tcreate :: "u32 \<Rightarrow> u32 \<Rightarrow> kernel \<Rightarrow> u32 \<times> kernel" where
  "sys_tcreate entry stack k =
     (if \<not> user_range_ok entry 1 then (ERR, k)
      else if \<not> user_range_ok stack 1 then (ERR, k)
      else let (t, s) = thread_create entry stack (ksched k) in (of_int t, set_sched s k))"

definition sys_texit :: "kernel \<Rightarrow> u32 \<times> kernel" where
  "sys_texit k = (0, set_sched ((ksched k)\<lparr>thread_exit_pending := True\<rparr>) k)"

text \<open>Waiting for a tick count, halting in between.\<close>

fun tick_wait :: "port_dev \<Rightarrow> u32 list \<Rightarrow> u32 \<Rightarrow> kernel \<Rightarrow> kernel option" where
  "tick_wait dev intrs target k =
     (if sint (timer_ticks (ksched k) - target) < 0
      then case intrs of [] \<Rightarrow> None | v # vs \<Rightarrow> tick_wait dev vs target (kernel_irq dev v k)
      else Some k)"

declare tick_wait.simps [simp del]

definition tsc_sleep :: "env \<Rightarrow> u32 \<Rightarrow> kernel \<Rightarrow> sysres" where
  "tsc_sleep e ms k = Option.bind (tsc_delay_ms (en_clocks e) ms (mach k)) (\<lambda>m. Some (0, k\<lparr>mach := m\<rparr>))"

definition sys_sleep :: "env \<Rightarrow> u32 \<Rightarrow> kernel \<Rightarrow> sysres" where
  "sys_sleep e ms k =
     (if ms = 0 then Some (0, k)
      else if \<not> timer_alive (mach k) then tsc_sleep e ms k
      else
        let ticks = (ms + 9) div 10; target = timer_ticks (ksched k) + ticks
        in Option.bind (tick_wait (en_dev e) (en_intrs e) target k) (\<lambda>k. Some (0, k)))"

fun other_runnable :: "nat \<Rightarrow> int \<Rightarrow> sched \<Rightarrow> bool \<times> sched" where
  "other_runnable 0 i s = (False, s)"
| "other_runnable (Suc n) i s =
     (if i = current_tid s then other_runnable n (i + 1) s
      else let (r, s) = thread_is_runnable i s in if r then (True, s) else other_runnable n (i + 1) s)"

definition set_sleep :: "u32 \<Rightarrow> sched \<Rightarrow> sched" where
  "set_sleep t s = set_thr (current_tid s) ((thr s (current_tid s))\<lparr>sleep_until := t\<rparr>) s"

definition sys_sleepf :: "env \<Rightarrow> u32 \<Rightarrow> kernel \<Rightarrow> sysres" where
  "sys_sleepf e ms k =
     (if ms = 0 then Some (0, k)
      else if \<not> timer_alive (mach k) then tsc_sleep e ms k
      else
        let ticks = (ms + 9) div 10; target = timer_ticks (ksched k) + ticks; tid = current_tid (ksched k)
        in if tid < 0 \<or> tid \<ge> int MAX_THREADS then Some (0, k)
           else
             let s = set_sleep target (ksched k);
                 (other, s) = other_runnable MAX_THREADS 0 s;
                 k = set_sched s k
             in if other then Some (0, k)
                else Option.bind (tick_wait (en_dev e) (en_intrs e) target k) (\<lambda>k.
                  Some (0, set_sched (set_sleep 0 (ksched k)) k)))"

subsection \<open>Display\<close>

definition sys_vmode :: "env \<Rightarrow> u32 \<Rightarrow> kernel \<Rightarrow> u32 \<times> kernel" where
  "sys_vmode e mode k =
     (if mode = 0
      then
        let k = (if fb_enabled (kvm k) then on_con vga_cls k
                 else
                   let k = on_disp (vga_set_text (en_dev e)) k
                   in if text_clear_pending k then (on_con vga_cls k)\<lparr>text_clear_pending := False\<rparr> else k)
        in (0, k\<lparr>text_restore_pending := False\<rparr>)
      else if mode = 13
      then
        let k = set_vm ((kvm k)\<lparr>fb_enabled := False\<rparr>) k;
            k = on_con (vga_set_mode13 (en_dev e)) k
        in (0, k\<lparr>text_clear_pending := True, text_restore_pending := True\<rparr>)
      else if gfx_mode_id (kvm k) \<noteq> 0 \<and> fb_enabled (kvm k) \<and> mode = gfx_mode_id (kvm k) then (0, k)
      else let (r, v) = set_fb_mode (en_bios e) mode (kvm k); k = set_vm v k in (if r < 0 then ERR else 0, k))"

definition blit_row :: "u32 \<Rightarrow> u32 \<Rightarrow> u32 \<Rightarrow> mem \<Rightarrow> nat \<Rightarrow> con \<Rightarrow> con" where
  "blit_row buf pitch row_bytes m y c =
     c\<lparr>vram := memcpy (vram c) (gfx_lfb (video c) + of_nat y * pitch) (mem_load m (buf + of_nat y * row_bytes) (unat row_bytes))\<rparr>"

definition sys_blit :: "u32 \<Rightarrow> kernel \<Rightarrow> u32 \<times> kernel" where
  "sys_blit off k =
     (let v = kvm k in
      if gfx_bpp v \<noteq> 8 \<and> gfx_bpp v \<noteq> 32 then (ERR, k)
      else
        let bytes = (if gfx_bpp v = 32 then 4 else 1);
            row_bytes = gfx_w v * bytes;
            total = gfx_h v * row_bytes
        in if \<not> user_range_ok off total then (ERR, k)
           else (gfx_w v * gfx_h v * bytes,
                 on_con (fold (blit_row (USER_BASE + off) (gfx_pitch v) row_bytes (um k)) [0..<unat (gfx_h v)]) k))"

definition sys_palette :: "u32 \<Rightarrow> u32 \<Rightarrow> kernel \<Rightarrow> u32 \<times> kernel" where
  "sys_palette i rgb k =
     (if gfx_bpp (kvm k) \<noteq> 8 then (ERR, k)
      else (0, on_con (vga_set_palette (ucast (i AND 0xFF)) (ucast (drop_bit 16 rgb AND 0xFF)) (ucast (drop_bit 8 rgb AND 0xFF))
                        (ucast (rgb AND 0xFF))) k))"

definition sys_gfxinfo :: "u32 \<Rightarrow> u32 \<Rightarrow> kernel \<Rightarrow> u32 \<times> kernel" where
  "sys_gfxinfo off lim k =
     (if lim < 16 then (ERR, k)
      else if \<not> user_range_ok off 16 then (ERR, k)
      else let v = kvm k in (16, put_user off (words [gfx_w v, gfx_h v, gfx_pitch v, gfx_bpp v]) k))"

definition sys_vbemodes :: "env \<Rightarrow> u32 \<Rightarrow> u32 \<Rightarrow> kernel \<Rightarrow> u32 \<times> kernel" where
  "sys_vbemodes e off lim k =
     (let mx = sint lim in
      if mx < 20 then (ERR, k)
      else
        let maxn = min (mx div 20) 128;
            d = dsp (mach k);
            n = (if vbe_list d \<noteq> 0 \<and> vbe_list_count d > 0 then min (vbe_list_count d) maxn else 0)
        in if n \<le> 0 then (ERR, k)
           else if \<not> user_range_ok off (of_int (n * 20)) then (ERR, k)
           else (of_int n, put_user off (concat (map (\<lambda>i. let m = en_vbe e i in
                   words [ucast (vle_mode m), ucast (vle_w m), ucast (vle_h m), ucast (vle_bpp m), ucast (vle_pitch m)])
                   [0..<nat n])) k))"

definition sys_gfx_fbinfo :: "u32 \<Rightarrow> u32 \<Rightarrow> kernel \<Rightarrow> u32 \<times> kernel" where
  "sys_gfx_fbinfo off lim k =
     (if lim < 24 then (ERR, k)
      else
        let v = refresh_user_framebuffer_mapping (kvm k); k = set_vm v k
        in if \<not> gfx_fb_user_mapped v then (ERR, k)
           else if \<not> user_range_ok off 24 then (ERR, k)
           else (24, put_user off (words [gfx_w v, gfx_h v, gfx_pitch v, gfx_bpp v, gfx_fb_size v, gfx_fb_user_addr v - USER_BASE]) k))"

subsection \<open>The dispatcher\<close>

text \<open>\<open>SYS_POWEROFF\<close> does not return; this is the state in which the machine halts if it is still on.\<close>

definition sys_poweroff :: "env \<Rightarrow> kernel \<Rightarrow> kernel" where
  "sys_poweroff e k = on_disp (power_off (en_phys e)) k"

definition syscall_dispatch :: "env \<Rightarrow> regs \<Rightarrow> kernel \<Rightarrow> sysres" where
  "syscall_dispatch e r k =
     (let n = r_eax r; b = r_ebx r; c = r_ecx r; d = r_edx r in
      if n = 0 then Some (sys_write b c d k)
      else if n = 1 then sys_read e b c d k
      else if n = 2 then Some (sys_list b c k)
      else if n = 3 then Some (sys_load b c d k)
      else if n = 4 then Some (sys_save b c d k)
      else if n = 5 then Some (sys_exec b k)
      else if n = 6 then Some (sys_exit b k)
      else if n = 7 then Some (sys_sbrk b k)
      else if n = 8 then Some (sys_rename b c k)
      else if n = 9 then Some (sys_delete b k)
      else if n = 10 then sys_getkey e k
      else if n = 11 then Some (0, on_con vga_cls k)
      else if n = 12 then Some (0, on_con (vga_setcursor b c) k)
      else if n = 13 then Some (sys_vmode e b k)
      else if n = 14 then Some (sys_blit b k)
      else if n = 15 then Some (sys_palette b c k)
      else if n = 16 then Some (sys_open b c k)
      else if n = 17 then Some (sys_fread b c d k)
      else if n = 18 then Some (sys_fwrite b c d k)
      else if n = 19 then Some (sys_close b k)
      else if n = 20 then Some (sys_seek b c k)
      else if n = 21 then Some (sys_gfxinfo b c k)
      else if n = 22 then Some (sys_vbemodes e b c k)
      else if n = 23 then Some (sys_getkey_nb e k)
      else if n = 24 then Some (sys_ticks e k)
      else if n = 25 then Some (sys_tcreate b c k)
      else if n = 26 then Some (sys_texit k)
      else if n = 27 then sys_sleep e b k
      else if n = 28 then sys_sleepf e b k
      else if n = 29 then Some (sys_gfx_fbinfo b c k)
      else if n = 30 then Some (sys_keystate b k, k)
      else if n = 35 then Some (sys_getcwd b c k)
      else if n = 36 then Some (sys_setcwd b k)
      else if n = 37 then None
      else if n = 38 then Some (sys_meminfo b c k)
      else if n = 39 then Some (sys_storage b c k)
      else if n = 40 then Some (sys_sync k)
      else if n = 41 then Some (sys_io_in e b c k)
      else if n = 42 then Some (sys_io_out b c d k)
      else if n = 43 then Some (sys_pci_read e b c k)
      else if n = 44 then Some (sys_pci_write b c d k)
      else if n = 45 then Some (ksys_map_phys b c d k)
      else if n = 46 then Some (ksys_dma_alloc b c k)
      else if n = 47 then sys_irq_wait e b c k
      else Some (0, k))"

text \<open>
  The entry stub (kernel/syscall.S) around it: the result goes into \<open>eax\<close>; a thread that asked to end
  is replaced by the next one; a requested exit leaves the program. \<open>Resume\<close>: registers and interrupt
  frame with which user mode goes on.
\<close>

datatype sysret = Resume regs "u32 list" kernel | Leave kernel

definition syscall_entry :: "env \<Rightarrow> regs \<Rightarrow> u32 list \<Rightarrow> kernel \<Rightarrow> sysret option" where
  "syscall_entry e r frame k =
     Option.bind (syscall_dispatch e r k) (\<lambda>(v, k).
       let r = r\<lparr>r_eax := v\<rparr> in
       if thread_exit_pending (ksched k)
       then
         let (rc, r, frame, s) = thread_exit_switch r frame (ksched k); k = set_sched s k
         in Some (if rc \<noteq> 0 \<or> sched.exit_requested (ksched k) then Leave k else Resume r frame k)
       else Some (if sched.exit_requested (ksched k) then Leave k else Resume r frame k))"

end
