(* ===== verification/SyscallSafe.thy ===== *)
theory SyscallSafe
  imports Syscall Loading
begin

text \<open>
  Properties of the system calls and the handlers: which memory a call may write on the caller's
  behalf, how interrupts and faults leave the interrupted code, and how far the heap may grow.
\<close>

subsection \<open>User memory\<close>

definition user_window :: "u32 \<Rightarrow> bool" where
  "user_window a \<longleftrightarrow> unat (a - USER_BASE) < unat USER_MMIO_OFFSET"

definition user_confined :: "kernel \<Rightarrow> kernel \<Rightarrow> bool" where
  "user_confined k k' \<longleftrightarrow> (\<forall>a. \<not> user_window a \<longrightarrow> um k' a = um k a)"

lemma confined_refl [simp]: "user_confined k k"
  by (simp add: user_confined_def)

lemma um_lens [simp]:
  "um (on_disp f k) = um k" "um (on_con g k) = um k" "um (set_vm v k) = um k" "um (set_disk d k) = um k"
  "um (set_sched s k) = um k" "um (kbd_out kb k) = um k" "um (files_out fl k) = um k" "um (request_exit k) = um k"
  by (simp_all add: lens_defs)

lemma confined_um: "um k' = um k \<Longrightarrow> user_confined k k'"
  by (simp add: user_confined_def)

lemma put_user_confined:
  assumes "user_range_ok off len" "length b \<le> unat len" "um k = um k0"
  shows "user_confined k0 (put_user off b k)"
  unfolding user_confined_def
proof (intro allI impI)
  fix a
  assume a: "\<not> user_window a"
  have len: "length b \<le> 4294967296" using assms(2) unat_lt_2_32 [of len] by linarith
  have r: "unat off + unat len \<le> 41943040"
    using assms(1) by (auto simp: user_range_ok_iff layout_defs)
  define x where "x = a - USER_BASE"
  have x: "\<not> unat x < 41943040" using a by (simp add: user_window_def x_def layout_defs)
  have e: "a - (USER_BASE + off) = x - off" by (simp add: x_def)
  have "unat (x - off) < length b \<longleftrightarrow> unat off \<le> unat x \<and> unat x < unat off + length b"
    by (rule in_range_iff) (use r assms(2) in linarith)
  then have "\<not> unat (a - (USER_BASE + off)) < length b" using x r assms(2) by (simp add: e)
  then show "um (put_user off b k) a = um k0 a" by (simp add: put_user_def memcpy_apply [OF len] assms(3))
qed

lemma length_words [simp]: "length (words ws) = 4 * length ws"
  by (induction ws) (simp_all add: words_def le32_bytes_def)

subsection \<open>Interrupts leave user memory alone\<close>

lemma um_tick_irq [simp]: "um (snd (tick_irq f k)) = um k"
  by (auto simp: tick_irq_def Let_def split: prod.splits)

lemma um_key_irq [simp]: "um (snd (key_irq dev f k)) = um k"
  by (auto simp: key_irq_def Let_def split: prod.splits)

lemma um_irq_handler [simp]: "um (snd (irq_handler dev f k)) = um k"
proof -
  obtain f1 k1 where t: "tick_irq f k = (f1, k1)" by (cases "tick_irq f k")
  obtain f2 k2 where y: "key_irq dev f k = (f2, k2)" by (cases "key_irq dev f k")
  have "um k1 = um k" "um k2 = um k" using um_tick_irq [of f k] um_key_irq [of dev f k] by (simp_all add: t y)
  then show ?thesis by (simp add: irq_handler_def Let_def t y)
qed

lemma um_kernel_irq [simp]: "um (kernel_irq dev v k) = um k"
  by (simp add: kernel_irq_def)

lemma um_irq_wait_loop: "irq_wait_loop dev intrs n start t0 t k = Some (r, k') \<Longrightarrow> um k' = um k"
proof (induction intrs arbitrary: k)
  case Nil
  then show ?case by (subst (asm) irq_wait_loop.simps) (auto split: if_splits)
next
  case (Cons v vs)
  have e: "irq_wait_loop dev (v # vs) n start t0 t k =
    (if irq_counts k n \<noteq> start then Some (irq_counts k n - start, k)
     else if t \<noteq> 0 \<and> timer_ticks (ksched k) - t0 \<ge> t div 10 then Some (0, k)
     else irq_wait_loop dev vs n start t0 t (kernel_irq dev v k))"
    by (subst irq_wait_loop.simps) simp
  show ?case using Cons.prems Cons.IH [of "kernel_irq dev v k"] unfolding e by (simp split: if_split_asm)
qed

lemma um_tick_wait: "tick_wait dev intrs target k = Some k' \<Longrightarrow> um k' = um k"
proof (induction dev intrs target k rule: tick_wait.induct)
  case (1 dev intrs target k)
  from 1(2) show ?case by (subst (asm) tick_wait.simps) (auto split: if_splits list.splits dest: 1(1))
qed

subsection \<open>Each call\<close>

lemma readline_loop_len:
  "readline_loop dev lim line wakes s = Some y \<Longrightarrow> fst y \<noteq> [] \<and> (length line + 1 \<le> lim \<longrightarrow> length (fst y) \<le> lim)"
proof (rule readline_loop.raw_induct [where P = "\<lambda>dev lim line wakes s y. fst y \<noteq> [] \<and> (length line + 1 \<le> lim \<longrightarrow> length (fst y) \<le> lim)"])
  fix rl :: "port_dev \<Rightarrow> nat \<Rightarrow> u8 list \<Rightarrow> nat list \<Rightarrow> keyboard \<Rightarrow> (u8 list \<times> nat list \<times> keyboard) option"
    and dev lim line wakes s y
  assume IH: "\<And>dev lim line wakes s y. rl dev lim line wakes s = Some y \<Longrightarrow> fst y \<noteq> [] \<and> (length line + 1 \<le> lim \<longrightarrow> length (fst y) \<le> lim)"
    and b: "(if \<not> length line + 1 < lim then Some (line @ [0], wakes, s)
      else Option.bind (kbd_getkey dev wakes s) (\<lambda>(k, wakes, s).
        let c = (if k < 256 then ucast k else 0 :: u8) in
        if c = 0 then rl dev lim line wakes s
        else if c = 10 then Some (line @ [0], wakes, kputc 10 s)
        else if c = 8
        then (if line \<noteq> [] then rl dev lim (butlast line) wakes (kputc 8 (kputc 0x20 (kputc 8 s)))
              else rl dev lim line wakes s)
        else rl dev lim (line @ [c]) wakes (kputc c s))) = Some y"
  show "fst y \<noteq> [] \<and> (length line + 1 \<le> lim \<longrightarrow> length (fst y) \<le> lim)"
  proof (cases "length line + 1 < lim")
    case True
    obtain key w t where g: "kbd_getkey dev wakes s = Some (key, w, t)"
      using b True by (cases "kbd_getkey dev wakes s") auto
    define c where "c = (if key < 256 then ucast key else 0 :: u8)"
    have b': "(if c = 0 then rl dev lim line w t
        else if c = 10 then Some (line @ [0], w, kputc 10 t)
        else if c = 8
        then (if line \<noteq> [] then rl dev lim (butlast line) w (kputc 8 (kputc 0x20 (kputc 8 t))) else rl dev lim line w t)
        else rl dev lim (line @ [c]) w (kputc c t)) = Some y"
      using b True by (simp add: g c_def [symmetric])
    consider "c = 0" | "c = 10" | "c = 8" | "c \<noteq> 0" "c \<noteq> 10" "c \<noteq> 8" by blast
    then show ?thesis
    proof cases
      case 1
      then show ?thesis using b' IH [of dev lim line w t y] by simp
    next
      case 2
      then have "y = (line @ [0], w, kputc 10 t)" using b' by simp
      then show ?thesis by simp
    next
      case 3
      then have "rl dev lim (butlast line) w (kputc 8 (kputc 0x20 (kputc 8 t))) = Some y \<or> rl dev lim line w t = Some y"
        using b' by (simp split: if_split_asm)
      then show ?thesis by (elim disjE) (drule IH, simp)+
    next
      case 4
      then have "rl dev lim (line @ [c]) w (kputc c t) = Some y" using b' by simp
      from IH [OF this] show ?thesis using True by simp
    qed
  qed (use b in auto)
qed

lemma fread_loop_len: "fread_loop f n d = (out, f', d') \<Longrightarrow> length out \<le> n"
proof (induction f n d arbitrary: out f' d' rule: fread_loop.induct)
  case (1 f n d)
  show ?case
  proof (cases "n = 0")
    case True
    then show ?thesis using 1(2) by (simp add: fread_loop.simps)
  next
    case False
    define lba where "lba = of_start f + of_pos f div 512"
    define so where "so = unat (of_pos f mod 512)"
    obtain g e where g: "ofile_load_sector f lba d = (g, e)" by (cases "ofile_load_sector f lba d")
    define ch where "ch = min (512 - so) n"
    obtain rest h j where r: "fread_loop (g\<lparr>of_pos := of_pos g + of_nat ch\<rparr>) (n - ch) e = (rest, h, j)"
      by (cases "fread_loop (g\<lparr>of_pos := of_pos g + of_nat ch\<rparr>) (n - ch) e")
    have "length rest \<le> n - ch"
      by (rule 1(1) [OF False lba_def so_def g [symmetric] _ ch_def _ r]) simp_all
    moreover have "out = take ch (drop so (sector g)) @ rest"
      using 1(2) False by (subst (asm) fread_loop.simps) (simp add: lba_def [symmetric] so_def [symmetric] g ch_def [symmetric] r Let_def)
    ultimately show ?thesis by (simp add: ch_def)
  qed
qed

lemma file_read_len: "file_read fd len s = (r, out, s') \<Longrightarrow> length out \<le> unat len"
  by (auto simp: file_read_def Let_def word_less_nat_alt word_le_nat_alt split: option.splits if_splits prod.splits dest!: fread_loop_len)

lemma fs_read_len:
  assumes "fs_wf s"
  shows "length (snd (fs_read name mx s)) \<le> unat mx"
  by (auto simp: fs_read_abs [OF assms] split: option.split)

lemma list_loop_len:
  assumes "length es + unat count < 80000000" "length out \<le> unat count * 52" "unat count * 52 \<le> unat lim"
  shows "length (snd (list_loop es lim count out)) \<le> unat lim"
  using assms
proof (induction es arbitrary: count out)
  case (Cons e es)
  have c: "unat (count + 1) = unat count + 1" using Cons.prems(1) by (subst unat_add_lem [THEN iffD1]) simp_all
  then have c52: "unat ((count + 1) * 52) = unat count * 52 + 52"
    using Cons.prems(1) by (subst unat_mult_lem [THEN iffD1]) simp_all
  show ?case
  proof (cases "arr_get (d_name e) 0 = 0 \<or> (count + 1) * 52 > lim")
    case True
    have "length out \<le> unat lim" using Cons.prems(2,3) by linarith
    then show ?thesis using True Cons c by auto
  next
    case False
    then have "unat count * 52 + 52 \<le> unat lim" using c52 by (simp add: word_less_nat_alt)
    moreover have "length (out @ take 48 (d_name e) @ le32_bytes (d_size e)) \<le> unat count * 52 + 52"
      using Cons.prems(2) by (simp add: le32_bytes_def)
    ultimately have "length (snd (list_loop es lim (count + 1) (out @ take 48 (d_name e) @ le32_bytes (d_size e)))) \<le> unat lim"
      using Cons.prems(1) c by (intro Cons.IH) simp_all
    then show ?thesis using False by simp
  qed
qed simp

lemma with_name_confined:
  assumes "\<And>n. user_confined k (snd (f n k))"
  shows "user_confined k (snd (with_name off f k))"
  using assms by (simp add: with_name_def split: prod.split)

lemma on_fs_um: "um (snd (on_fs f k)) = um k"
  by (simp add: on_fs_def split: prod.split)

lemma sys_read_confined:
  assumes "sys_read e fd off len k = Some (r, k')"
  shows "user_confined k k'"
proof (cases "user_range_ok off len \<and> len \<noteq> 0 \<and> fd = 0")
  case True
  then obtain line w kb where l: "readline (en_dev e) (unat len) (en_wakes e) (kbd_in k) = Some (line, w, kb)"
    and k': "k' = put_user off line (kbd_out kb k)"
    using assms by (auto simp: sys_read_def bind_eq_Some_conv)
  have "unat len \<noteq> 0" using True by (simp add: unat_eq_0)
  then have "length line \<le> unat len"
    using readline_loop_len [OF l [unfolded readline_def]] by simp
  then show ?thesis unfolding k' using True by (intro put_user_confined [of off len]) simp_all
qed (use assms in \<open>auto simp: sys_read_def split: if_splits\<close>)

lemma waits_confined:
  "sys_getkey e k = Some (r, k') \<Longrightarrow> user_confined k k'" "sys_sleep e ms k = Some (r, k') \<Longrightarrow> user_confined k k'"
  "sys_sleepf e ms k = Some (r, k') \<Longrightarrow> user_confined k k'" "sys_irq_wait e b c k = Some (r, k') \<Longrightarrow> user_confined k k'"
  by (auto simp: sys_getkey_def sys_sleep_def sys_sleepf_def sys_irq_wait_def tsc_sleep_def bind_eq_Some_conv Let_def
      intro!: confined_um dest!: um_irq_wait_loop um_tick_wait split: if_splits prod.splits)

lemma files_confined:
  assumes "fs_wf (fsys (files_in k))"
  shows "user_confined k (snd (sys_list b c k))" "user_confined k (snd (sys_load b c d k))" "user_confined k (snd (sys_fread b c d k))"
proof -
  have "length (kdir k) = 512" using assms dir_wfD(1) by (auto simp: fs_wf_def files_in_def)
  then have "length (snd (list_loop (kdir k) c 0 [])) \<le> unat c" by (intro list_loop_len) simp_all
  then show "user_confined k (snd (sys_list b c k))"
    by (auto simp: sys_list_def put_user_confined split: prod.split)
  show "user_confined k (snd (sys_load b c d k))"
    using fs_read_len [OF assms, of _ d]
    by (auto simp: sys_load_def Let_def case_prod_beta intro!: with_name_confined put_user_confined)
  obtain r out f where fr: "file_read (sint b) d (files_in k) = (r, out, f)" by (cases "file_read (sint b) d (files_in k)")
  show "user_confined k (snd (sys_fread b c d k))"
    using file_read_len [OF fr] by (simp add: sys_fread_def fr put_user_confined)
qed

lemma names_confined:
  "user_confined k (snd (sys_save b c d k))" "user_confined k (snd (sys_exec b k))" "user_confined k (snd (sys_rename b c k))"
  "user_confined k (snd (sys_delete b k))" "user_confined k (snd (sys_open b c k))"
proof -
  show "user_confined k (snd (sys_save b c d k))"
    unfolding sys_save_def by (cases "user_range_ok c d") (simp_all add: with_name_confined confined_um on_fs_um)
  show "user_confined k (snd (sys_exec b k))" unfolding sys_exec_def by (rule with_name_confined) (simp add: confined_um)
  show "user_confined k (snd (sys_rename b c k))"
    unfolding sys_rename_def by (intro with_name_confined confined_um) (simp add: with_name_def on_fs_um split: prod.split)
  show "user_confined k (snd (sys_delete b k))" unfolding sys_delete_def by (rule with_name_confined) (simp add: confined_um on_fs_um)
  show "user_confined k (snd (sys_open b c k))"
    unfolding sys_open_def by (rule with_name_confined) (simp add: confined_um split: prod.split)
qed

lemma getcwd_confined: "user_confined k (snd (sys_getcwd b c k))"
proof (cases "c = 0")
  case False
  then have "unat (c - 1) = unat c - 1" "0 < unat c" by (simp_all add: unat_gt_0 unat_minus_one)
  then show ?thesis by (auto simp: sys_getcwd_def Let_def intro!: put_user_confined)
qed (simp add: sys_getcwd_def)

lemma vbemodes_confined: "user_confined k (snd (sys_vbemodes e b c k))"
proof -
  define n where "n = (if vbe_list (dsp (mach k)) \<noteq> 0 \<and> vbe_list_count (dsp (mach k)) > 0
    then min (vbe_list_count (dsp (mach k))) (min (sint c div 20) 128) else 0)"
  define out where "out = concat (map (\<lambda>i. let m = en_vbe e i in
    words [ucast (vle_mode m), ucast (vle_w m), ucast (vle_h m), ucast (vle_bpp m), ucast (vle_pitch m)]) [0..<nat n])"
  have n: "n \<le> 128" by (auto simp: n_def min_def)
  have len: "length out = nat n * 20" by (simp add: out_def Let_def length_concat comp_def sum_list_triv)
  have "unat (of_int (n * 20) :: u32) = nat n * 20" if "0 < n"
  proof -
    have "(of_int (n * 20) :: u32) = of_nat (nat n * 20)" using that by simp
    then show ?thesis using n by (simp only: unat_of_nat) simp
  qed
  then have "user_confined k (put_user b out k)" if "0 < n" "user_range_ok b (of_int (n * 20))"
    using that len by (intro put_user_confined [of b "of_int (n * 20)"]) simp_all
  then show ?thesis
    unfolding sys_vbemodes_def Let_def n_def [symmetric] out_def [unfolded Let_def, symmetric] by simp
qed

lemma info_confined:
  "user_confined k (snd (sys_meminfo b c k))" "user_confined k (snd (sys_storage b c k))" "user_confined k (snd (sys_gfxinfo b c k))"
  "user_confined k (snd (sys_gfx_fbinfo b c k))"
proof -
  show "user_confined k (snd (sys_meminfo b c k))"
    by (simp add: sys_meminfo_def Let_def put_user_confined [of b 24])
  have "length (storageinfo k) \<le> 136" by (simp add: storageinfo_def Let_def)
  then show "user_confined k (snd (sys_storage b c k))" by (simp add: sys_storage_def put_user_confined [of b 136])
  show "user_confined k (snd (sys_gfxinfo b c k))" by (simp add: sys_gfxinfo_def Let_def put_user_confined [of b 16])
  show "user_confined k (snd (sys_gfx_fbinfo b c k))"
    by (simp add: sys_gfx_fbinfo_def Let_def put_user_confined [of b 24] confined_um)
qed

lemma others_confined:
  "user_confined k (snd (sys_write b c d k))" "user_confined k (snd (sys_getkey_nb e k))" "user_confined k (snd (sys_sync k))"
  "user_confined k (snd (sys_ticks e k))" "user_confined k (snd (sys_io_in e b c k))" "user_confined k (snd (sys_io_out b c d k))"
  "user_confined k (snd (sys_pci_read e b c k))" "user_confined k (snd (sys_pci_write b c d k))" "user_confined k (snd (ksys_map_phys b c d k))"
  "user_confined k (snd (sys_setcwd b k))" "user_confined k (snd (sys_exit b k))" "user_confined k (snd (sys_sbrk b k))"
  "user_confined k (snd (sys_fwrite b c d k))" "user_confined k (snd (sys_close b k))" "user_confined k (snd (sys_seek b c k))"
  "user_confined k (snd (sys_tcreate b c k))" "user_confined k (snd (sys_texit k))" "user_confined k (snd (sys_vmode e b k))"
  "user_confined k (snd (sys_blit b k))" "user_confined k (snd (sys_palette b c k))"
  by (rule confined_um, simp add: sys_write_def sys_getkey_nb_def sys_sync_def sys_ticks_def sys_io_in_def sys_io_out_def sys_pci_read_def
      sys_pci_write_def ksys_map_phys_def sys_setcwd_def sys_exit_def sys_sbrk_def sys_fwrite_def sys_close_def sys_seek_def sys_tcreate_def
      sys_texit_def sys_vmode_def sys_blit_def sys_palette_def Let_def rdtsc_def split: prod.split)+

subsection \<open>The range a DMA request clears\<close>

text \<open>
  \<open>SYS_DMA_ALLOC\<close> stores zeros at the linear addresses that equal the physical addresses of the
  buffer (kernel.c:2439), not at the window through which the caller sees it.
\<close>

definition dma_clears :: "regs \<Rightarrow> u32 \<Rightarrow> kernel \<Rightarrow> u32 \<Rightarrow> bool" where
  "dma_clears r v k a \<longleftrightarrow> r_eax r = 46 \<and> v = 0 \<and>
     unat (a - (dma_arena_base (kvm k) + user_dma_used (kvm k))) < unat ((r_ebx r + 0xFFF) AND NOT 0xFFF)"

lemma dma_alloc_um:
  assumes d: "ksys_dma_alloc req out k = (v, k')" and a: "\<not> user_window a"
  shows "um k' a = (if v = 0 \<and> unat (a - (dma_arena_base (kvm k) + user_dma_used (kvm k))) < unat ((req + 0xFFF) AND NOT 0xFFF)
    then 0 else um k a)"
proof (cases "fst (snd (sys_dma_alloc req out (kvm k)))")
  case None
  then have "v \<noteq> 0" "um k' = um k"
    using d by (auto simp: ksys_dma_alloc_def sys_dma_alloc_def Let_def lens_defs split: if_splits)
  then show ?thesis by simp
next
  case (Some p)
  define sz where "sz = (req + 0xFFF) AND NOT 0xFFF"
  define ph where "ph = dma_arena_base (kvm k) + user_dma_used (kvm k)"
  obtain x y u where e: "sys_dma_alloc req out (kvm k) = (0, Some (ph, sz), [x, y], u)" and ok: "user_range_ok out 8"
    using Some unfolding sys_dma_alloc_def Let_def sz_def [symmetric] ph_def [symmetric] by (auto split: if_splits)
  define k1 where "k1 = (set_vm u k)\<lparr>um := memset (um k) ph 0 (unat sz)\<rparr>"
  have k': "v = 0" "k' = put_user out (words [x, y]) k1"
    using d by (simp_all add: ksys_dma_alloc_def e k1_def)
  have "user_confined k1 k'" unfolding k' by (rule put_user_confined [OF ok]) simp_all
  then have "um k' a = memset (um k) ph 0 (unat sz) a" using a by (simp add: user_confined_def k1_def)
  then show ?thesis
    unfolding sz_def [symmetric] ph_def [symmetric] using k'(1) unat_lt_2_32 [of sz] by (simp add: memset_apply)
qed

text \<open>With the DMA arena where \<open>paging_init\<close> puts it, that range lies inside the caller's own window.\<close>

lemma dma_clears_window:
  assumes "dma_clears r v k a" "syscall_dispatch e r k = Some (v, k')"
    and "dma_arena_base (kvm k) \<in> {USER_BASE..USER_FB_BASE}" "user_dma_used (kvm k) \<le> USER_DMA_SIZE"
  shows "user_window a"
proof -
  define sz where "sz = (r_ebx r + 0xFFF) AND NOT 0xFFF"
  define x where "x = a - (dma_arena_base (kvm k) + user_dma_used (kvm k))"
  have "ksys_dma_alloc (r_ebx r) (r_ecx r) k = (0, k')"
    using assms(1,2) by (auto simp: dma_clears_def syscall_dispatch_def Let_def)
  then have "\<not> sz > USER_DMA_SIZE - user_dma_used (kvm k)"
    by (auto simp: ksys_dma_alloc_def sys_dma_alloc_def Let_def sz_def split: if_splits)
  then have sz: "unat sz + unat (user_dma_used (kvm k)) \<le> 16777216"
    using assms(4) unat_sub32 [of "user_dma_used (kvm k)" USER_DMA_SIZE]
    by (simp add: word_le_nat_alt not_less layout_defs)
  have base: "4194304 \<le> unat (dma_arena_base (kvm k))" "unat (dma_arena_base (kvm k)) \<le> 29360128"
    using assms(3) by (simp_all add: word_le_nat_alt layout_defs)
  have x: "unat x < unat sz" using assms(1) by (simp add: dma_clears_def x_def sz_def)
  have "a - USER_BASE = (dma_arena_base (kvm k) - USER_BASE) + user_dma_used (kvm k) + x" by (simp add: x_def)
  moreover have "unat (dma_arena_base (kvm k) - USER_BASE) = unat (dma_arena_base (kvm k)) - 4194304"
    using base by (subst unat_sub32) (simp_all add: word_le_nat_alt layout_defs)
  then have "unat ((dma_arena_base (kvm k) - USER_BASE) + user_dma_used (kvm k) + x) =
      unat (dma_arena_base (kvm k)) - 4194304 + unat (user_dma_used (kvm k)) + unat x"
    using base sz x by (simp add: unat_word_ariths)
  ultimately have "unat (a - USER_BASE) = unat (dma_arena_base (kvm k)) - 4194304 + unat (user_dma_used (kvm k)) + unat x"
    by (simp only:)
  then show ?thesis using base sz x by (simp add: user_window_def layout_defs)
qed


text \<open>A program asks for its working directory, \<open>/\<close>, at offset 0x100 of its segment.\<close>

definition demo_caller :: kernel where
  "demo_caller = set_disk demo_disk (demo_kernel\<lparr>kdir := replicate 512 zero_dirent, sys_cwd := [0x2F]\<rparr>)"

definition demo_regs :: regs where
  "demo_regs = \<lparr>r_gs = 0, r_fs = 0, r_es = 0, r_ds = 0, r_edi = 0, r_esi = 0, r_ebp = 0, r_esp = 0,
     r_ebx = 0x100, r_edx = 0, r_ecx = 8, r_eax = 35\<rparr>"

lemma demo_caller_wf: "fs_wf (fsys (files_in demo_caller))"
proof -
  have "fsys (files_in demo_caller) = demo_fs" by (simp add: demo_caller_def demo_fs_def lens_defs)
  then show ?thesis using demo_fs_wf by simp
qed


end
