(* ===== verification/SyscallErrors.thy ===== *)
theory SyscallErrors
  imports SyscallSafe
begin

text \<open>
  The error results of the system calls: which arguments are refused, and what a call which reports an
  error has done: nothing, but for two calls whose traces are given exactly.
\<close>

subsection \<open>Arguments\<close>

definition name_ok :: "u32 \<Rightarrow> kernel \<Rightarrow> bool" where
  "name_ok off k = fst (user_copy_str (um k) off 64)"

text \<open>The entries \<open>SYS_VBEMODES\<close> copies, and what each call asks of its pointer arguments.\<close>

definition vbe_entries :: "u32 \<Rightarrow> kernel \<Rightarrow> int" where
  "vbe_entries lim k =
     (let d = dsp (mach k)
      in if vbe_list d \<noteq> 0 \<and> vbe_list_count d > 0 then min (vbe_list_count d) (min (sint lim div 20) 128) else 0)"

definition args_ok :: "regs \<Rightarrow> kernel \<Rightarrow> bool" where
  "args_ok r k =
     (let n = r_eax r; b = r_ebx r; c = r_ecx r; d = r_edx r in
      if n \<in> {0, 1, 17, 18} then user_range_ok c d
      else if n = 2 then user_range_ok b c
      else if n \<in> {3, 4} then user_range_ok c d \<and> name_ok b k
      else if n \<in> {5, 9, 16, 36} then name_ok b k
      else if n = 8 then name_ok b k \<and> name_ok c k
      else if n = 14 then user_range_ok b (gfx_h (kvm k) * (gfx_w (kvm k) * (if gfx_bpp (kvm k) = 32 then 4 else 1)))
      else if n = 21 then 16 \<le> c \<and> user_range_ok b 16
      else if n = 22 then 20 \<le> sint c \<and> user_range_ok b (of_int (vbe_entries c k * 20))
      else if n = 25 then user_range_ok b 1 \<and> user_range_ok c 1
      else if n = 29 then 24 \<le> c \<and> user_range_ok b 24
      else if n = 35 then c \<noteq> 0 \<and> user_range_ok b c
      else if n = 38 then 24 \<le> c \<and> user_range_ok b 24
      else if n = 39 then 136 \<le> c \<and> user_range_ok b 136
      else if n = 46 then user_range_ok c 8
      else True)"

text \<open>
  The calls whose failures are followed: console (0 \<open>write\<close>, 1 \<open>read\<close>), files and names (2 \<open>list\<close>, 3 \<open>load\<close>, 4 \<open>save\<close>,
  5 \<open>exec\<close>, 8 \<open>rename\<close>, 9 \<open>delete\<close>, 16 \<open>open\<close>, 17 \<open>fread\<close>, 18 \<open>fwrite\<close>, 19 \<open>close\<close>, 20 \<open>seek\<close>, 35 \<open>getcwd\<close>, 36 \<open>setcwd\<close>),
  display (14 \<open>blit\<close>, 15 \<open>palette\<close>), information (21 \<open>gfxinfo\<close>, 22 \<open>vbemodes\<close>, 29 \<open>gfx_fbinfo\<close>, 38 \<open>meminfo\<close>,
  39 \<open>storage\<close>) and 46 \<open>dma_alloc\<close>.
\<close>

definition atomic_calls :: "u32 set" where
  "atomic_calls = {0, 1, 2, 3, 4, 5, 8, 9, 14, 15, 16, 17, 18, 19, 20, 21, 22, 29, 35, 36, 38, 39, 46}"

text \<open>
  The state a failed call leaves. Two calls act before their last check: \<open>SYS_OPEN\<close> clears the free descriptor
  slot it has chosen, and \<open>SYS_GFX_FBINFO\<close> maps the framebuffer window again (kernel.c:2741).
\<close>

definition failed :: "regs \<Rightarrow> kernel \<Rightarrow> kernel" where
  "failed r k =
     (if r_eax r = 16 \<and> name_ok (r_ebx r) k \<and> 0 \<le> alloc_fd (files_in k)
      then files_out ((files_in k)\<lparr>ofiles := (ofiles (files_in k))[nat (alloc_fd (files_in k)) := zero_file]\<rparr>) k
      else if r_eax r = 29 \<and> 24 \<le> r_ecx r then set_vm (refresh_user_framebuffer_mapping (kvm k)) k
      else k)"

lemma with_name_bad: "\<not> name_ok off k \<Longrightarrow> with_name off f k = (ERR, k)"
  by (auto simp: with_name_def name_ok_def split: prod.splits)

lemma with_name_err: "with_name off f k = (ERR, k') \<Longrightarrow> (\<And>n. f n k = (ERR, k') \<Longrightarrow> k' = k) \<Longrightarrow> k' = k"
  by (auto simp: with_name_def split: prod.splits if_splits)

lemma rename_bad: "\<not> (name_ok b k \<and> name_ok c k) \<Longrightarrow> sys_rename b c k = (ERR, k)"
  by (cases "name_ok b k") (auto simp: sys_rename_def with_name_bad, auto simp: with_name_def [of b] with_name_bad split: prod.splits)

lemma setcwd_bad: "\<not> name_ok b k \<Longrightarrow> sys_setcwd b k = (ERR, k)"
  by (auto simp: sys_setcwd_def name_ok_def split: prod.splits)

lemma refused:
  "\<not> user_range_ok c d \<Longrightarrow> sys_write b c d k = (ERR, k)" "\<not> user_range_ok c d \<Longrightarrow> sys_read e b c d k = Some (ERR, k)"
  "\<not> user_range_ok c d \<Longrightarrow> sys_fread b c d k = (ERR, k)" "\<not> user_range_ok c d \<Longrightarrow> sys_fwrite b c d k = (ERR, k)"
  "\<not> user_range_ok b c \<Longrightarrow> sys_list b c k = (ERR, k)"
  "\<not> (user_range_ok c d \<and> name_ok b k) \<Longrightarrow> sys_load b c d k = (ERR, k)" "\<not> (user_range_ok c d \<and> name_ok b k) \<Longrightarrow> sys_save b c d k = (ERR, k)"
  "\<not> name_ok b k \<Longrightarrow> sys_exec b k = (ERR, k)" "\<not> name_ok b k \<Longrightarrow> sys_delete b k = (ERR, k)" "\<not> name_ok b k \<Longrightarrow> sys_open b c k = (ERR, k)"
  "\<not> name_ok b k \<Longrightarrow> sys_setcwd b k = (ERR, k)" "\<not> (name_ok b k \<and> name_ok c k) \<Longrightarrow> sys_rename b c k = (ERR, k)"
  "\<not> (16 \<le> c \<and> user_range_ok b 16) \<Longrightarrow> sys_gfxinfo b c k = (ERR, k)" "\<not> (user_range_ok b 1 \<and> user_range_ok c 1) \<Longrightarrow> sys_tcreate b c k = (ERR, k)"
  "\<not> (c \<noteq> 0 \<and> user_range_ok b c) \<Longrightarrow> sys_getcwd b c k = (ERR, k)" "\<not> (24 \<le> c \<and> user_range_ok b 24) \<Longrightarrow> sys_meminfo b c k = (ERR, k)"
  "\<not> (136 \<le> c \<and> user_range_ok b 136) \<Longrightarrow> sys_storage b c k = (ERR, k)"
  using with_name_bad rename_bad [of b k c] setcwd_bad
  by (auto simp: sys_write_def sys_read_def sys_list_def sys_load_def sys_save_def sys_exec_def
      sys_delete_def sys_open_def sys_fread_def sys_fwrite_def sys_gfxinfo_def sys_tcreate_def sys_getcwd_def
      sys_meminfo_def sys_storage_def not_le not_less)

lemma set_vm_same [simp]: "set_vm (kvm k) k = k"
  by (simp add: lens_defs)

lemma refused_display:
  "\<not> user_range_ok c 8 \<Longrightarrow> ksys_dma_alloc b c k = (ERR, k)"
  "\<not> (24 \<le> c \<and> user_range_ok b 24) \<Longrightarrow>
     sys_gfx_fbinfo b c k = (ERR, if 24 \<le> c then set_vm (refresh_user_framebuffer_mapping (kvm k)) k else k)"
  "\<not> user_range_ok b (gfx_h (kvm k) * (gfx_w (kvm k) * (if gfx_bpp (kvm k) = 32 then 4 else 1))) \<Longrightarrow> sys_blit b k = (ERR, k)"
  "\<not> (20 \<le> sint c \<and> user_range_ok b (of_int (vbe_entries c k * 20))) \<Longrightarrow> sys_vbemodes e b c k = (ERR, k)"
  by (auto simp: ksys_dma_alloc_def sys_dma_alloc_def sys_gfx_fbinfo_def sys_blit_def sys_vbemodes_def vbe_entries_def
      Let_def not_le not_less)

lemma args_refused: "\<not> args_ok r k \<Longrightarrow> syscall_dispatch e r k = Some (ERR, failed r k)"
proof -
  assume a: "\<not> args_ok r k"
  then have "r_eax r \<in> {0, 1, 17, 18, 2, 3, 4, 5, 9, 16, 36, 8, 14, 21, 22, 25, 29, 35, 38, 39, 46}"
    by (rule contrapos_np) (simp add: args_ok_def)
  then show ?thesis using a by (elim insertE) (simp_all add: args_ok_def syscall_dispatch_def Let_def refused refused_display failed_def)
qed

subsection \<open>Failures\<close>

lemma unat_ERR [simp]: "unat ERR = 4294967295"
  by (simp add: unsigned_minus_1_eq_mask mask_eq_exp_minus_1)

lemma range_len: "user_range_ok off len \<Longrightarrow> unat len \<le> 41943040"
proof -
  assume "user_range_ok off len"
  then have "unat off + unat len \<le> unat USER_FB_OFFSET \<or> unat off + unat len \<le> unat USER_MMIO_OFFSET"
    unfolding user_range_ok_iff by blast
  moreover have "unat USER_FB_OFFSET = 25165824" "unat USER_MMIO_OFFSET = 41943040" by (simp_all add: layout_defs)
  ultimately show ?thesis by linarith
qed

lemma range_not_ERR: "user_range_ok off len \<Longrightarrow> len \<noteq> ERR"
  using range_len [of off len] by auto

lemma files_out_in [simp]: "files_out (files_in k) k = k"
  by (simp add: lens_defs)

lemma put_user_nil [simp]: "put_user off [] k = k"
  by (simp add: put_user_def)

lemma on_fs_err:
  assumes "on_fs f k = (ERR, k')" "\<And>r s. f (fsys (files_in k)) = (r, s) \<Longrightarrow> r = 0 \<or> s = fsys (files_in k)"
  shows "k' = k"
proof -
  obtain r s where f: "f (fsys (files_in k)) = (r, s)" by (cases "f (fsys (files_in k))")
  then have "r \<noteq> 0" using assms(1) by (auto simp: on_fs_def)
  then have "s = fsys (files_in k)" using assms(2) [OF f] by simp
  then show ?thesis using assms(1) f by (simp add: on_fs_def)
qed

lemma fs_calls_err:
  assumes wf: "fs_wf (fsys (files_in k))"
  shows "sys_save b c d k = (ERR, k') \<Longrightarrow> k' = k" "sys_rename b c k = (ERR, k') \<Longrightarrow> k' = k" "sys_delete b k = (ERR, k') \<Longrightarrow> k' = k"
    "sys_exec b k = (ERR, k') \<Longrightarrow> k' = k"
proof -
  have w: "r = 0 \<or> s = fsys (files_in k)" if "fs_write n u z (fsys (files_in k)) = (r, s)" for n u z r s
    using wf that by (cases rule: fs_write_cases) simp_all
  have rn: "r = 0 \<or> s = fsys (files_in k)" if "fs_rename n u (fsys (files_in k)) = (r, s)" for n u r s
    using that by (auto simp: fs_rename_def Let_def split: if_splits)
  have dl: "r = 0 \<or> s = fsys (files_in k)" if "fs_delete n (fsys (files_in k)) = (r, s)" for n r s
    using that by (auto simp: fs_delete_def Let_def split: if_splits)
  show "sys_save b c d k = (ERR, k') \<Longrightarrow> k' = k"
    by (auto simp: sys_save_def dest: w elim!: with_name_err on_fs_err split: if_splits)
  show "sys_rename b c k = (ERR, k') \<Longrightarrow> k' = k"
    by (auto simp: sys_rename_def dest: rn elim!: with_name_err on_fs_err)
  show "sys_delete b k = (ERR, k') \<Longrightarrow> k' = k"
    by (auto simp: sys_delete_def dest: dl elim!: with_name_err on_fs_err)
  show "sys_exec b k = (ERR, k') \<Longrightarrow> k' = k"
    by (auto simp: sys_exec_def elim!: with_name_err)
qed

lemma load_err:
  assumes "fs_wf (fsys (files_in k))" "sys_load b c d k = (ERR, k')"
  shows "k' = k"
proof (cases "user_range_ok c d")
  case True
  have n: "(of_nat l :: u32) \<noteq> ERR" if "l \<le> unat d" for l
  proof
    assume "(of_nat l :: u32) = ERR"
    then have "unat (of_nat l :: u32) = 4294967295" by (simp del: unat_of_nat)
    then show False using that range_len [OF True] by (simp add: unat_of_nat32)
  qed
  have f: "k' = k" if "(let (r, u) = fs_read n d (fsys (files_in k)) in (of_int r, put_user c u k)) = (ERR, k')" for n
    using that n fs_read_abs [OF assms(1), of n d] by (auto simp: not_less split: option.splits if_splits)
  show ?thesis using assms(2) True f by (auto simp: sys_load_def elim!: with_name_err)
qed (use assms(2) in \<open>simp add: sys_load_def\<close>)

lemma file_calls_err:
  "sys_fread b c d k = (ERR, k') \<Longrightarrow> k' = k" "sys_fwrite b c d k = (ERR, k') \<Longrightarrow> k' = k" "sys_close b k = (ERR, k') \<Longrightarrow> k' = k"
proof -
  show "k' = k" if r: "sys_fread b c d k = (ERR, k')"
  proof (cases "user_range_ok c d")
    case True
    have n: "x \<noteq> ERR" if "x \<le> d" for x using that range_len [OF True] by (auto simp: word_le_nat_alt)
    show ?thesis using r True n [of d] n
      by (auto simp: sys_fread_def file_read_def Let_def not_less split: option.splits if_splits prod.splits)
  qed (use r in \<open>simp add: sys_fread_def\<close>)
  show "k' = k" if r: "sys_fwrite b c d k = (ERR, k')"
  proof (cases "user_range_ok c d")
    case True
    then show ?thesis using r range_not_ERR [OF True]
      by (auto simp: sys_fwrite_def file_write_def get_user_def Let_def split: option.splits if_splits prod.splits)
  qed (use r in \<open>simp add: sys_fwrite_def\<close>)
  show "sys_close b k = (ERR, k') \<Longrightarrow> k' = k"
    by (auto simp: sys_close_def file_close_def Let_def split: option.splits if_splits prod.splits)
qed

lemma info_err:
  "sys_write b c d k = (ERR, k') \<Longrightarrow> k' = k" "sys_getcwd b c k = (ERR, k') \<Longrightarrow> k' = k" "sys_meminfo b c k = (ERR, k') \<Longrightarrow> k' = k"
  "sys_storage b c k = (ERR, k') \<Longrightarrow> k' = k" "sys_gfxinfo b c k = (ERR, k') \<Longrightarrow> k' = k" "sys_setcwd b k = (ERR, k') \<Longrightarrow> k' = k"
  "sys_palette b c k = (ERR, k') \<Longrightarrow> k' = k"
proof -
  show "k' = k" if "sys_getcwd b c k = (ERR, k')"
  proof (cases "c \<noteq> 0 \<and> user_range_ok b c")
    case True
    then have "unat (of_nat (length (take (unat (c - 1)) (cstr (sys_cwd k)))) :: u32) < 4294967295"
      using range_len [of b c] by (simp add: unat_of_nat32 unat_minus_one)
    then show ?thesis using that True by (auto simp: sys_getcwd_def Let_def)
  qed (use that in \<open>auto simp: sys_getcwd_def\<close>)
  show "sys_write b c d k = (ERR, k') \<Longrightarrow> k' = k" by (auto simp: sys_write_def dest: range_not_ERR split: if_splits)
  show "sys_setcwd b k = (ERR, k') \<Longrightarrow> k' = k" by (auto simp: sys_setcwd_def split: if_splits prod.splits)
  show "sys_meminfo b c k = (ERR, k') \<Longrightarrow> k' = k" "sys_storage b c k = (ERR, k') \<Longrightarrow> k' = k" "sys_gfxinfo b c k = (ERR, k') \<Longrightarrow> k' = k"
    "sys_palette b c k = (ERR, k') \<Longrightarrow> k' = k"
    by (auto simp: sys_meminfo_def sys_storage_def sys_gfxinfo_def sys_palette_def Let_def split: if_splits)
qed

lemma blit_err: "sys_blit b k = (ERR, k') \<Longrightarrow> k' = k"
  by (auto simp: sys_blit_def Let_def ac_simps dest: range_not_ERR split: if_splits)

lemma list_loop_count: "unat (fst (list_loop es lim count out)) \<le> unat count + length es"
proof (induction es lim count out rule: list_loop.induct)
  case (2 e es lim count out)
  have "unat (count + 1) \<le> Suc (unat count)" by (simp add: unat_word_ariths)
  then show ?case using 2 by force
qed simp

lemma list_err: "fs_wf (fsys (files_in k)) \<Longrightarrow> sys_list b c k = (ERR, k') \<Longrightarrow> k' = k"
proof -
  assume "fs_wf (fsys (files_in k))"
  then have "length (kdir k) = 512" using dir_wfD(1) by (auto simp: fs_wf_def files_in_def)
  then have "unat (fst (list_loop (kdir k) c 0 [])) \<le> 512" using list_loop_count [of "kdir k" c 0 "[]"] by simp
  then have "fst (list_loop (kdir k) c 0 []) \<noteq> ERR" by auto
  then show "sys_list b c k = (ERR, k') \<Longrightarrow> k' = k" by (auto simp: sys_list_def split: if_splits prod.splits)
qed

lemma vbemodes_err: "sys_vbemodes e b c k = (ERR, k') \<Longrightarrow> k' = k"
proof -
  assume a: "sys_vbemodes e b c k = (ERR, k')"
  have "of_int n \<noteq> ERR" if "0 < n" "n \<le> 128" for n
  proof
    assume e: "of_int n = ERR"
    have "(of_nat (nat n) :: u32) = ERR" using e that by simp
    then have "unat (of_nat (nat n) :: u32) = 4294967295" by (simp only: unat_ERR)
    moreover have "unat (of_nat (nat n) :: u32) = nat n" by (rule unat_of_nat32) (use that in simp)
    ultimately show False using that by linarith
  qed
  then show ?thesis using a by (auto simp: sys_vbemodes_def Let_def min_def not_le split: if_splits)
qed

lemma read_err:
  assumes r: "sys_read e b c d k = Some (ERR, k')"
  shows "k' = k"
proof (cases "user_range_ok c d \<and> d \<noteq> 0 \<and> b = 0")
  case True
  then obtain line w kb where l: "readline (en_dev e) (unat d) (en_wakes e) (kbd_in k) = Some (line, w, kb)"
    and v: "of_nat (length line) - 1 = ERR"
    using r by (auto simp: sys_read_def bind_eq_Some_conv)
  have "unat d \<noteq> 0" using True by (simp add: unat_eq_0)
  then have "0 < length line" "length line \<le> 41943040"
    using readline_loop_len [OF l [unfolded readline_def]] range_len [of c d] True by auto
  moreover have "(of_nat (length line) :: u32) = 0" using v by (simp add: diff_eq_eq)
  then have "unat (of_nat (length line) :: u32) = 0" by (simp only: unat_0)
  ultimately show ?thesis by (simp add: unat_of_nat32)
qed (use r in \<open>auto simp: sys_read_def split: if_splits\<close>)

lemma seek_err: "sys_seek b c k = (ERR, k') \<Longrightarrow> k' = k"
proof -
  assume s: "sys_seek b c k = (ERR, k')"
  define p where "p = (if sint c < 0 then 0 else of_int (sint c) :: u32)"
  have "p \<noteq> ERR" by (auto simp: p_def)
  then have "(if p > z then z else p) \<noteq> ERR" for z using word_n1_ge [of p] by auto
  then show "k' = k"
    using s unfolding sys_seek_def file_seek_def Let_def p_def [symmetric]
    by (auto split: option.splits if_splits prod.splits)
qed

lemma open_err:
  assumes o: "sys_open b c k = (ERR, k')" and t: "length (kfiles k) = OPEN_MAX"
  shows "k' = (if name_ok b k \<and> 0 \<le> alloc_fd (files_in k)
    then files_out ((files_in k)\<lparr>ofiles := (ofiles (files_in k))[nat (alloc_fd (files_in k)) := zero_file]\<rparr>) k else k)"
proof (cases "name_ok b k")
  case True
  define fd where "fd = alloc_fd (files_in k)"
  have "fd < 16" using alloc_fd_loop_cases [of "kfiles k" 0] t by (auto simp: fd_def alloc_fd_def files_in_def OPEN_MAX_def)
  then have n: "of_int (fd + 3) \<noteq> ERR" if "0 \<le> fd"
  proof -
    have "unat (of_nat (nat (fd + 3)) :: u32) = nat (fd + 3)" by (rule unat_of_nat32) (use \<open>fd < 16\<close> in simp)
    moreover have "(of_nat (nat (fd + 3)) :: u32) = of_int (fd + 3)" using that by simp
    ultimately have u: "unat (of_int (fd + 3) :: u32) = nat (fd + 3)" by (simp only:)
    show ?thesis
    proof
      assume "of_int (fd + 3) = ERR"
      then have "nat (fd + 3) = 4294967295" using u unat_ERR by (simp only:)
      then show False using \<open>fd < 16\<close> by linarith
    qed
  qed
  obtain x where x: "user_copy_str (um k) b 64 = (True, x)" using True by (cases "user_copy_str (um k) b 64") (simp add: name_ok_def)
  obtain f where f: "file_open (normalize_name x) (sint c) (files_in k) = (ERR, f)" "k' = files_out f k"
    using o by (auto simp: sys_open_def with_name_def x split: prod.splits)
  show ?thesis
  proof (cases "0 \<le> fd")
    case True
    then have "f = (files_in k)\<lparr>ofiles := (ofiles (files_in k))[nat fd := zero_file]\<rparr>"
      using f(1) n [OF True] unfolding file_open_def fd_def [symmetric] Let_def by (auto split: if_splits)
    then show ?thesis using True f(2) \<open>name_ok b k\<close> by (simp add: fd_def)
  next
    case False
    then have "f = files_in k" using f(1) unfolding file_open_def fd_def [symmetric] Let_def by simp
    then show ?thesis using False f(2) by (simp add: fd_def)
  qed
next
  case False
  then show ?thesis using o with_name_bad [OF False] by (simp add: sys_open_def)
qed

lemma fbinfo_err:
  "sys_gfx_fbinfo b c k = (ERR, k') \<Longrightarrow> k' = (if 24 \<le> c then set_vm (refresh_user_framebuffer_mapping (kvm k)) k else k)"
  by (auto simp: sys_gfx_fbinfo_def Let_def not_le split: if_splits)

lemma dma_err: "ksys_dma_alloc b c k = (ERR, k') \<Longrightarrow> k' = k"
  by (auto simp: ksys_dma_alloc_def sys_dma_alloc_def Let_def lens_defs split: if_splits)

text \<open>The traces do not reach memory, the file system or an open file.\<close>

lemma failed_keeps:
  "um (failed r k) = um k" "fsys (files_in (failed r k)) = fsys (files_in k)"
  "of_used (kfiles k ! i) \<Longrightarrow> kfiles (failed r k) ! i = kfiles k ! i"
proof -
  show "um (failed r k) = um k" "fsys (files_in (failed r k)) = fsys (files_in k)"
    by (simp_all add: failed_def lens_defs)
  show "kfiles (failed r k) ! i = kfiles k ! i" if "of_used (kfiles k ! i)"
    using that alloc_fd_loop_cases [of "kfiles k" 0]
    by (auto simp: failed_def lens_defs alloc_fd_def nth_list_update)
qed

text \<open>
  C40. System calls fail cleanly. A call (of any number) whose pointer arguments are not acceptable - a buffer or structure that
  leaves the program's segment, a name that is not terminated within 63 bytes of it, an information buffer that is too small - returns the
  error value, and the kernel is left as \<open>failed\<close> says; whenever one of the calls of \<open>atomic_calls\<close> - the console, file, name,
  information, \<open>blit\<close>, \<open>palette\<close> and \<open>dma_alloc\<close> calls listed there - returns the error value, for whatever reason, the kernel is left
  like that too. \<open>failed\<close> is the state before the call, except that a failed \<open>SYS_OPEN\<close> may have cleared a free descriptor slot and that
  \<open>SYS_GFX_FBINFO\<close> maps the framebuffer window anew before it looks at its pointer; user memory, the file system and the open files
  are the same in every case. The file system is assumed to be well formed and the descriptor table to have its slots.
\<close>

theorem syscall_fails_cleanly:
  assumes "fs_wf (fsys (files_in k))" "length (kfiles k) = OPEN_MAX"
  shows "(\<not> args_ok r k \<longrightarrow> syscall_dispatch e r k = Some (ERR, failed r k)) \<and>
    (r_eax r \<in> atomic_calls \<and> syscall_dispatch e r k = Some (ERR, k') \<longrightarrow> k' = failed r k) \<and>
    (r_eax r \<noteq> 16 \<and> r_eax r \<noteq> 29 \<longrightarrow> failed r k = k) \<and>
    um (failed r k) = um k \<and> fsys (files_in (failed r k)) = fsys (files_in k) \<and>
    (\<forall>i. of_used (kfiles k ! i) \<longrightarrow> kfiles (failed r k) ! i = kfiles k ! i)"
proof -
  note err = fs_calls_err [OF assms(1)] load_err [OF assms(1)] list_err [OF assms(1)] file_calls_err info_err blit_err vbemodes_err
    read_err seek_err dma_err
  have "k' = failed r k" if n: "r_eax r \<in> atomic_calls" and d: "syscall_dispatch e r k = Some (ERR, k')"
  proof -
    consider "r_eax r = 16" | "r_eax r = 29" | "r_eax r \<noteq> 16" "r_eax r \<noteq> 29" by blast
    then show ?thesis
    proof cases
      case 1
      then have "sys_open (r_ebx r) (r_ecx r) k = (ERR, k')" using d by (simp add: syscall_dispatch_def)
      from open_err [OF this assms(2)] show ?thesis using 1 by (simp add: failed_def)
    next
      case 2
      then show ?thesis using d fbinfo_err by (simp add: syscall_dispatch_def failed_def)
    next
      case 3
      then have "k' = k"
        using n d unfolding atomic_calls_def by (elim insertE) (auto simp: syscall_dispatch_def Let_def dest: err)
      then show ?thesis using 3 by (simp add: failed_def)
    qed
  qed
  moreover have "r_eax r \<noteq> 16 \<and> r_eax r \<noteq> 29 \<longrightarrow> failed r k = k" by (simp add: failed_def)
  ultimately show ?thesis using args_refused failed_keeps by blast
qed

text \<open>A program removes a file that does not exist, and one with a name outside its segment.\<close>

theorem syscall_fails_cleanly_witness:
  "\<forall>e. syscall_dispatch e (demo_regs\<lparr>r_eax := 9, r_ebx := 0xF0000000\<rparr>) demo_caller = Some (ERR, demo_caller) \<and>
     (\<exists>k'. syscall_dispatch e (demo_regs\<lparr>r_eax := 9\<rparr>) (demo_caller\<lparr>um := (\<lambda>_. 0)\<rparr>) = Some (ERR, k') \<and> k' = demo_caller\<lparr>um := (\<lambda>_. 0)\<rparr>)"
proof
  fix e
  let ?k = "demo_caller\<lparr>um := (\<lambda>_. 0)\<rparr>"
  have len: "length (kfiles demo_caller) = OPEN_MAX" "length (kfiles ?k) = OPEN_MAX"
    by (simp_all add: demo_caller_def lens_defs demo_kernel_def OPEN_MAX_def)
  have "\<not> args_ok (demo_regs\<lparr>r_eax := 9, r_ebx := 0xF0000000\<rparr>) demo_caller"
    by (simp add: args_ok_def name_ok_def user_copy_str_def layout_defs)
  then have a: "syscall_dispatch e (demo_regs\<lparr>r_eax := 9, r_ebx := 0xF0000000\<rparr>) demo_caller = Some (ERR, demo_caller)"
    using syscall_fails_cleanly [OF demo_caller_wf len(1), of "demo_regs\<lparr>r_eax := 9, r_ebx := 0xF0000000\<rparr>" e demo_caller]
    by (simp add: failed_def)
  have f: "fsys (files_in ?k) = fsys (files_in demo_caller)" by (simp add: files_in_def)
  have n: "user_copy_str (\<lambda>_. 0) 0x100 64 = (True, [])" 
  proof -
    have "user_copy_loop (\<lambda>_. 0) x (Suc 62) = (True, [])" for x by (subst user_copy_loop.simps) simp
    then show ?thesis by (simp add: user_copy_str_def layout_defs)
  qed
  have "fst (fs_delete x demo_fs) = - 1" for x using fs_delete_abs [OF demo_fs_wf prod.collapse [symmetric], of x] demo_fs_abs by simp
  moreover have "fsys (files_in ?k) = demo_fs" by (simp add: demo_caller_def demo_fs_def lens_defs)
  ultimately have "fst (sys_delete 0x100 ?k) = ERR"
    using n by (simp add: sys_delete_def with_name_def on_fs_def case_prod_beta)
  then obtain k' where d: "syscall_dispatch e (demo_regs\<lparr>r_eax := 9\<rparr>) ?k = Some (ERR, k')"
    by (cases "sys_delete 0x100 ?k") (simp add: syscall_dispatch_def demo_regs_def)
  then show "syscall_dispatch e (demo_regs\<lparr>r_eax := 9, r_ebx := 0xF0000000\<rparr>) demo_caller = Some (ERR, demo_caller) \<and>
     (\<exists>k'. syscall_dispatch e (demo_regs\<lparr>r_eax := 9\<rparr>) ?k = Some (ERR, k') \<and> k' = ?k)"
    using a syscall_fails_cleanly [of ?k "demo_regs\<lparr>r_eax := 9\<rparr>" e k'] len(2) demo_caller_wf f
    by (auto simp: atomic_calls_def failed_def)
qed

end
