(* ===== verification/StringLib.thy ===== *)
theory StringLib
  imports UserMem
begin

text \<open>
  The string functions of the library that programs compiled inside the system use (fs/lib/string.c), on
  the byte memory of the program. A loop that runs until it meets a zero byte is a partial function:
  \<open>None\<close> when there is no such byte. \<open>char\<close> is signed for that compiler, so a character is read as \<open>sint\<close>.
\<close>

subsection \<open>Blocks of memory\<close>

fun copy_up :: "mem \<Rightarrow> u32 \<Rightarrow> u32 \<Rightarrow> nat \<Rightarrow> nat \<Rightarrow> mem" where
  "copy_up m d s i 0 = m"
| "copy_up m d s i (Suc k) = copy_up (m(d + of_nat i := m (s + of_nat i))) d s (Suc i) k"

fun copy_down :: "mem \<Rightarrow> u32 \<Rightarrow> u32 \<Rightarrow> nat \<Rightarrow> mem" where
  "copy_down m d s 0 = m"
| "copy_down m d s (Suc i) = copy_down (m(d + of_nat i := m (s + of_nat i))) d s i"

definition memcpy_lib :: "mem \<Rightarrow> u32 \<Rightarrow> u32 \<Rightarrow> u32 \<Rightarrow> mem" where
  "memcpy_lib m dst src n = copy_up m dst src 0 (nat (sint n))"

fun fill_up :: "mem \<Rightarrow> u32 \<Rightarrow> u8 \<Rightarrow> nat \<Rightarrow> nat \<Rightarrow> mem" where
  "fill_up m d v i 0 = m"
| "fill_up m d v i (Suc k) = fill_up (m(d + of_nat i := v)) d v (Suc i) k"

definition memset_lib :: "mem \<Rightarrow> u32 \<Rightarrow> u32 \<Rightarrow> u32 \<Rightarrow> mem" where
  "memset_lib m dst v n = fill_up m dst (ucast v) 0 (nat (sint n))"

definition memmove_lib :: "mem \<Rightarrow> u32 \<Rightarrow> u32 \<Rightarrow> u32 \<Rightarrow> mem" where
  "memmove_lib m dst src n =
     (if dst < src then copy_up m dst src 0 (nat (sint n)) else copy_down m dst src (nat (sint n)))"

fun memcmp_loop :: "mem \<Rightarrow> u32 \<Rightarrow> u32 \<Rightarrow> nat \<Rightarrow> nat \<Rightarrow> int" where
  "memcmp_loop m p q i 0 = 0"
| "memcmp_loop m p q i (Suc k) =
     (if m (p + of_nat i) \<noteq> m (q + of_nat i) then uint (m (p + of_nat i)) - uint (m (q + of_nat i))
      else memcmp_loop m p q (Suc i) k)"

definition memcmp_lib :: "mem \<Rightarrow> u32 \<Rightarrow> u32 \<Rightarrow> u32 \<Rightarrow> int" where
  "memcmp_lib m a b n = memcmp_loop m a b 0 (nat (sint n))"

subsection \<open>Strings\<close>

partial_function (option) strlen_from :: "mem \<Rightarrow> u32 \<Rightarrow> nat \<Rightarrow> nat option" where
  "strlen_from m s n = (if m (s + of_nat n) \<noteq> 0 then strlen_from m s (Suc n) else Some n)"

definition strlen_lib :: "mem \<Rightarrow> u32 \<Rightarrow> nat option" where
  "strlen_lib m s = strlen_from m s 0"

partial_function (option) strcmp_from :: "mem \<Rightarrow> u32 \<Rightarrow> u32 \<Rightarrow> nat \<Rightarrow> int option" where
  "strcmp_from m a b i =
     (if m (a + of_nat i) \<noteq> 0 \<and> m (a + of_nat i) = m (b + of_nat i) then strcmp_from m a b (Suc i)
      else Some (sint (m (a + of_nat i)) - sint (m (b + of_nat i))))"

definition strcmp_lib :: "mem \<Rightarrow> u32 \<Rightarrow> u32 \<Rightarrow> int option" where
  "strcmp_lib m a b = strcmp_from m a b 0"

fun strncmp_loop :: "mem \<Rightarrow> u32 \<Rightarrow> u32 \<Rightarrow> nat \<Rightarrow> nat \<Rightarrow> int" where
  "strncmp_loop m a b i 0 = 0"
| "strncmp_loop m a b i (Suc k) =
     (if m (a + of_nat i) \<noteq> 0 \<and> m (a + of_nat i) = m (b + of_nat i) then strncmp_loop m a b (Suc i) k
      else sint (m (a + of_nat i)) - sint (m (b + of_nat i)))"

text \<open>A negative \<open>n\<close> never equals the index, so the first characters are compared.\<close>

definition strncmp_lib :: "mem \<Rightarrow> u32 \<Rightarrow> u32 \<Rightarrow> u32 \<Rightarrow> int" where
  "strncmp_lib m a b n = (if sint n < 0 then sint (m a) - sint (m b) else strncmp_loop m a b 0 (nat (sint n)))"

partial_function (option) strcpy_from :: "u32 \<Rightarrow> u32 \<Rightarrow> nat \<Rightarrow> mem \<Rightarrow> mem option" where
  "strcpy_from dst src i m =
     (let m' = m(dst + of_nat i := m (src + of_nat i))
      in if m' (src + of_nat i) = 0 then Some m' else strcpy_from dst src (Suc i) m')"

definition strcpy_lib :: "mem \<Rightarrow> u32 \<Rightarrow> u32 \<Rightarrow> mem option" where
  "strcpy_lib m dst src = strcpy_from dst src 0 m"

fun strncpy_loop :: "mem \<Rightarrow> u32 \<Rightarrow> u32 \<Rightarrow> nat \<Rightarrow> nat \<Rightarrow> mem" where
  "strncpy_loop m dst src i 0 = m"
| "strncpy_loop m dst src i (Suc k) =
     (if m (src + of_nat i) \<noteq> 0 then strncpy_loop (m(dst + of_nat i := m (src + of_nat i))) dst src (Suc i) k
      else fill_up m dst 0 i (Suc k))"

definition strncpy_lib :: "mem \<Rightarrow> u32 \<Rightarrow> u32 \<Rightarrow> u32 \<Rightarrow> mem" where
  "strncpy_lib m dst src n = strncpy_loop m dst src 0 (nat (sint n))"

subsection \<open>Signed values\<close>

lemma sint_unat: "sint (x :: u32) = (if unat x < 0x80000000 then int (unat x) else int (unat x) - 0x100000000)"
proof -
  obtain n where n: "n = int (unat x)" by simp
  have "sint (word_of_int n :: u32) = (n + 2 ^ 31) mod 2 ^ 32 - 2 ^ 31" by (subst int_word_sint) simp
  moreover have "word_of_int n = x" by (simp add: n)
  moreover have "0 \<le> n" "n < 0x100000000" "unat x < 0x80000000 \<longleftrightarrow> n < 0x80000000" using unat_lt_2_32 [of x] n by linarith+
  moreover have "(n + 2 ^ 31) mod 2 ^ 32 = (if n < 0x80000000 then n + 2 ^ 31 else n - 2 ^ 31)" if "0 \<le> n" "n < 0x100000000"
  proof (cases "n < 0x80000000")
    case False
    have "(n - 2147483648 + 4294967296) mod 4294967296 = n - 2147483648"
      using that False by (simp only: mod_add_self2) (simp add: mod_pos_pos_trivial)
    then show ?thesis using False by (simp add: algebra_simps)
  qed (use that in simp)
  ultimately show ?thesis unfolding n [symmetric] by simp
qed

subsection \<open>Copies\<close>

lemma index_iff: "n < 4294967296 \<Longrightarrow> a = d + of_nat n \<longleftrightarrow> unat (a - d :: u32) = n"
  by (auto simp: unat_of_nat32 diff_eq_eq add.commute)

lemma copy_up_apply:
  assumes "i + k \<le> 4294967296" "\<And>j j'. i \<le> j \<Longrightarrow> j < j' \<Longrightarrow> j' < i + k \<Longrightarrow> d + of_nat j \<noteq> s + of_nat j'"
  shows "copy_up m d s i k a = (if i \<le> unat (a - d) \<and> unat (a - d) < i + k then m (s + (a - d)) else m a)"
  using assms
proof (induction k arbitrary: i m)
  case (Suc k)
  define m' where "m' = m(d + of_nat i := m (s + of_nat i))"
  have IH: "copy_up m' d s (Suc i) k a = (if Suc i \<le> unat (a - d) \<and> unat (a - d) < Suc i + k then m' (s + (a - d)) else m' a)"
    using Suc.prems by (intro Suc.IH) simp_all
  have i: "a = d + of_nat i \<longleftrightarrow> unat (a - d) = i" using Suc.prems(1) by (intro index_iff) simp
  have s: "m' (s + (a - d)) = m (s + (a - d))" if "Suc i \<le> unat (a - d)" "unat (a - d) < Suc i + k"
    using Suc.prems(2) [of i "unat (a - d)"] that by (auto simp: m'_def)
  show ?case
  proof (cases "unat (a - d) = i")
    case True
    then have "a = d + of_nat i" "a - d = of_nat i" using i by simp_all
    then show ?thesis using True IH by (simp add: m'_def [symmetric]) (simp add: m'_def)
  next
    case False
    then have "m' a = m a" using i by (simp add: m'_def)
    then show ?thesis using False IH s by (auto simp: m'_def [symmetric])
  qed
qed auto

lemma copy_down_apply:
  assumes "k \<le> 4294967296" "\<And>j j'. j' < j \<Longrightarrow> j < k \<Longrightarrow> d + of_nat j \<noteq> s + of_nat j'"
  shows "copy_down m d s k a = (if unat (a - d) < k then m (s + (a - d)) else m a)"
  using assms
proof (induction k arbitrary: m)
  case (Suc k)
  define m' where "m' = m(d + of_nat k := m (s + of_nat k))"
  have IH: "copy_down m' d s k a = (if unat (a - d) < k then m' (s + (a - d)) else m' a)"
    using Suc.prems by (intro Suc.IH) simp_all
  have k: "a = d + of_nat k \<longleftrightarrow> unat (a - d) = k" using Suc.prems(1) by (intro index_iff) simp
  have s: "m' (s + (a - d)) = m (s + (a - d))" if "unat (a - d) < k"
    using Suc.prems(2) [of "unat (a - d)" k] that by (auto simp: m'_def)
  show ?case
  proof (cases "unat (a - d) = k")
    case True
    then have "a = d + of_nat k" "a - d = of_nat k" using k by simp_all
    then show ?thesis using True IH by (simp add: m'_def [symmetric]) (simp add: m'_def)
  next
    case False
    then have "m' a = m a" using k by (simp add: m'_def)
    then show ?thesis using False IH s by (auto simp: m'_def [symmetric])
  qed
qed simp

lemma fill_up_apply:
  assumes "i + k \<le> 4294967296"
  shows "fill_up m d v i k a = (if i \<le> unat (a - d) \<and> unat (a - d) < i + k then v else m a)"
  using assms
proof (induction k arbitrary: i m)
  case (Suc k)
  have "a = d + of_nat i \<longleftrightarrow> unat (a - d) = i" using Suc.prems(1) by (intro index_iff) simp
  then show ?case using Suc by (auto simp: le_Suc_eq)
qed auto

lemma no_wrap_index: "unat d + n \<le> 4294967296 \<Longrightarrow> j < n \<Longrightarrow> unat (d + of_nat j :: u32) = unat d + j"
  by (subst unat_add32) (simp_all add: unat_of_nat32)

text \<open>
  C29. \<open>memmove\<close> copies as if through a temporary buffer, however source and destination overlap: every
  byte of the destination gets the byte the source had before the call, and nothing else changes.
\<close>

theorem memmove_correct:
  assumes "unat d + nat (sint n) \<le> 4294967296" "unat s + nat (sint n) \<le> 4294967296"
  shows "memmove_lib m d s n a = (if unat (a - d) < nat (sint n) then m (s + (a - d)) else m a)"
proof -
  have ne: "d + of_nat j \<noteq> s + of_nat j'" if "j < nat (sint n)" "j' < nat (sint n)" "unat d + j \<noteq> unat s + j'" for j j'
    using no_wrap_index [OF assms(1) that(1)] no_wrap_index [OF assms(2) that(2)] that(3) by metis
  show ?thesis
  proof (cases "d < s")
    case True
    then have "copy_up m d s 0 (nat (sint n)) a = (if 0 \<le> unat (a - d) \<and> unat (a - d) < 0 + nat (sint n) then m (s + (a - d)) else m a)"
      using assms(1) by (intro copy_up_apply ne) (simp_all add: word_less_nat_alt)
    then show ?thesis using True by (simp add: memmove_lib_def)
  next
    case False
    then have "copy_down m d s (nat (sint n)) a = (if unat (a - d) < nat (sint n) then m (s + (a - d)) else m a)"
      using assms(1) by (intro copy_down_apply ne) (simp_all add: word_less_nat_alt)
    then show ?thesis using False by (simp add: memmove_lib_def)
  qed
qed

theorem memmove_correct_witness:
  "memmove_lib (\<lambda>a. ucast a) 0x101 0x100 4 0x103 = 2 \<and> memmove_lib (\<lambda>a. ucast a) 0x100 0x101 4 0x100 = 1"
  using memmove_correct [of "0x101" 4 "0x100" "\<lambda>a. ucast a" "0x103"] memmove_correct [of "0x100" 4 "0x101" "\<lambda>a. ucast a" "0x100"]
  by simp

subsection \<open>Strings in memory\<close>

definition str_at :: "mem \<Rightarrow> u32 \<Rightarrow> u8 list \<Rightarrow> bool" where
  "str_at m a xs \<longleftrightarrow> (\<forall>i < length xs. m (a + of_nat i) = xs ! i \<and> xs ! i \<noteq> 0) \<and> m (a + of_nat (length xs)) = 0"

lemma str_at_char: "str_at m a xs \<Longrightarrow> i \<le> length xs \<Longrightarrow> m (a + of_nat i) = arr_get xs i"
  by (auto simp: str_at_def arr_get_def le_less)

lemma str_at_zero: "str_at m a xs \<Longrightarrow> i \<le> length xs \<Longrightarrow> m (a + of_nat i) = 0 \<longleftrightarrow> i = length xs"
  by (auto simp: str_at_def le_less)

lemma strlen_from_eq: "str_at m a xs \<Longrightarrow> n \<le> length xs \<Longrightarrow> strlen_from m a n = Some (length xs)"
proof (induction "length xs - n" arbitrary: n)
  case 0
  then show ?case by (subst strlen_from.simps) (simp add: str_at_def)
next
  case (Suc k)
  then show ?case by (subst strlen_from.simps) (simp add: str_at_zero)
qed

lemma strlen_lib_eq: "str_at m a xs \<Longrightarrow> strlen_lib m a = Some (length xs)"
  by (simp add: strlen_lib_def strlen_from_eq)

text \<open>The comparison as a function of the two strings.\<close>

fun cmp_chars :: "u8 list \<Rightarrow> u8 list \<Rightarrow> int" where
  "cmp_chars (x # xs) (y # ys) = (if x = y then cmp_chars xs ys else sint x - sint y)"
| "cmp_chars (x # xs) [] = sint x"
| "cmp_chars [] (y # ys) = - sint y"
| "cmp_chars [] [] = 0"

lemma sint_eq_iff: "sint (x :: u8) = sint y \<longleftrightarrow> x = y"
  by (metis signed_word_eqI)

lemma cmp_chars_eq_0: "0 \<notin> set xs \<Longrightarrow> 0 \<notin> set ys \<Longrightarrow> cmp_chars xs ys = 0 \<longleftrightarrow> xs = ys"
  using sint_eq_iff [of _ 0] by (induction xs ys rule: cmp_chars.induct) (auto simp: sint_eq_iff)

lemma drop_cons: "i < length xs \<Longrightarrow> drop i xs = xs ! i # drop (Suc i) xs"
  by (simp add: Cons_nth_drop_Suc)

lemma strcmp_from_eq:
  assumes "str_at m a xs" "str_at m b ys" "i \<le> length xs" "i \<le> length ys"
  shows "strcmp_from m a b i = Some (cmp_chars (drop i xs) (drop i ys))"
  using assms(3,4)
proof (induction "length xs - i" arbitrary: i)
  case 0
  then have "drop i xs = []" "m (a + of_nat i) = 0" using assms(1) by (simp_all add: str_at_def)
  moreover have "m (b + of_nat i) = (case drop i ys of [] \<Rightarrow> 0 | y # _ \<Rightarrow> y)"
    using 0(3) assms(2) by (cases "i < length ys") (simp_all add: str_at_def drop_cons)
  ultimately show ?case by (subst strcmp_from.simps) (simp split: list.split)
next
  case (Suc k)
  then have x: "drop i xs = xs ! i # drop (Suc i) xs" "m (a + of_nat i) = xs ! i" "xs ! i \<noteq> 0"
    using assms(1) by (simp_all add: str_at_def drop_cons)
  show ?case
  proof (cases "i < length ys")
    case True
    then have y: "drop i ys = ys ! i # drop (Suc i) ys" "m (b + of_nat i) = ys ! i"
      using assms(2) by (simp_all add: str_at_def drop_cons)
    then show ?thesis using Suc True x by (subst strcmp_from.simps) simp
  next
    case False
    then have "drop i ys = []" "m (b + of_nat i) = 0" using Suc.prems assms(2) by (simp_all add: str_at_def)
    then show ?thesis using x by (subst strcmp_from.simps) simp
  qed
qed

lemma str_at_no_zero: "str_at m a xs \<Longrightarrow> 0 \<notin> set xs"
  by (auto simp: str_at_def in_set_conv_nth)

lemma strcmp_lib_eq:
  assumes "str_at m a xs" "str_at m b ys"
  shows "strcmp_lib m a b = Some (cmp_chars xs ys)" "strcmp_lib m a b = Some 0 \<longleftrightarrow> xs = ys"
  using strcmp_from_eq [OF assms, of 0] cmp_chars_eq_0 str_at_no_zero [OF assms(1)] str_at_no_zero [OF assms(2)]
  by (simp_all add: strcmp_lib_def)

lemma strcpy_from_eq:
  assumes "str_at m src xs" "i \<le> length xs" "length xs < 4294967295"
    "\<And>j j'. j \<le> length xs \<Longrightarrow> j' \<le> length xs \<Longrightarrow> dst + of_nat j \<noteq> src + of_nat j'"
    "\<And>a. (\<forall>j < i. a \<noteq> dst + of_nat j) \<Longrightarrow> m' a = m a"
  shows "strcpy_from dst src i m' = Some (copy_up m' dst src i (Suc (length xs) - i))"
  using assms(2,5)
proof (induction "length xs - i" arbitrary: i m')
  case 0
  then have "i = length xs" by simp
  moreover have "m' (src + of_nat i) = m (src + of_nat i)"
    using assms(4) 0(2) by (intro 0(3)) (metis less_imp_le_nat order_trans)
  ultimately show ?case using assms(1) by (subst strcpy_from.simps) (simp add: str_at_def)
next
  case (Suc k)
  have src: "m' (src + of_nat i) = m (src + of_nat i)" 
    using assms(4) Suc.prems(1) by (intro Suc.prems(2)) (metis less_imp_le_nat order_trans)
  define m1 where "m1 = m'(dst + of_nat i := m' (src + of_nat i))"
  have "m (src + of_nat i) \<noteq> 0" using str_at_zero [OF assms(1) Suc.prems(1)] Suc.hyps(2) by simp
  then have "m1 (src + of_nat i) \<noteq> 0" using assms(4) [OF Suc.prems(1) Suc.prems(1)] src by (simp add: m1_def)
  then have e: "strcpy_from dst src i m' = strcpy_from dst src (Suc i) m1"
    by (subst strcpy_from.simps) (simp add: m1_def Let_def)
  have "strcpy_from dst src (Suc i) m1 = Some (copy_up m1 dst src (Suc i) (Suc (length xs) - Suc i))"
    using Suc by (intro Suc.hyps) (auto simp: m1_def less_Suc_eq)
  moreover have "Suc (length xs) - i = Suc (Suc (length xs) - Suc i)" using Suc.hyps(2) by simp
  ultimately show ?case by (simp add: e m1_def)
qed

lemma strcpy_lib_eq:
  assumes "str_at m src xs" "length xs < 4294967295"
    "\<And>j j'. j \<le> length xs \<Longrightarrow> j' \<le> length xs \<Longrightarrow> dst + of_nat j \<noteq> src + of_nat j'"
  shows "\<exists>m'. strcpy_lib m dst src = Some m' \<and> str_at m' dst xs \<and> (\<forall>a. length xs < unat (a - dst) \<longrightarrow> m' a = m a)"
proof -
  let ?m' = "copy_up m dst src 0 (Suc (length xs))"
  have "strcpy_lib m dst src = Some ?m'" using strcpy_from_eq [OF assms(1) _ assms(2,3), of 0 m] by (simp add: strcpy_lib_def)
  moreover have a: "?m' a = (if unat (a - dst) < Suc (length xs) then m (src + (a - dst)) else m a)" for a
    using copy_up_apply [of 0 "Suc (length xs)" dst src m a] assms(2,3) by simp
  then have "str_at ?m' dst xs" using assms(1,2) by (auto simp: str_at_def unat_of_nat32)
  ultimately show ?thesis using a by (auto simp del: copy_up.simps)
qed

end
