(* ===== verification/AllocLib.thy ===== *)
theory AllocLib
  imports StringLib Syscall Loading
begin

text \<open>
  The allocator of fs/lib/stdlib.c: a first-fit free list threaded through the blocks themselves, fed by
  \<open>sys_sbrk\<close>. A block is a header of two words - the size of its payload and the link to the next free
  block - followed by the payload; the program holds the address of the payload. The kernel's side is
  an argument, \<open>sbrk\<close>; what the allocator relies on is the locale \<open>sbrk_service\<close>, which the kernel's
  system call is shown to satisfy.
\<close>

subsection \<open>The code\<close>

record 'k heap =
  hm :: mem
  free_list :: u32
  errno :: int
  os :: 'k

definition ENOMEM :: int where "ENOMEM = 12"

definition rd32 :: "mem \<Rightarrow> u32 \<Rightarrow> u32" where "rd32 m a = le32 (mem_load m a 4) 0"
definition wr32 :: "mem \<Rightarrow> u32 \<Rightarrow> u32 \<Rightarrow> mem" where "wr32 m a v = memcpy m a (le32_bytes v)"

definition blk_size :: "mem \<Rightarrow> u32 \<Rightarrow> u32" where "blk_size m b = rd32 m b"
definition blk_next :: "mem \<Rightarrow> u32 \<Rightarrow> u32" where "blk_next m b = rd32 m (b + 4)"

definition memcpy_local :: "mem \<Rightarrow> u32 \<Rightarrow> u32 \<Rightarrow> u32 \<Rightarrow> mem" where
  "memcpy_local m dst src n = copy_up m dst src 0 (nat (sint n))"

definition memset_local :: "mem \<Rightarrow> u32 \<Rightarrow> u32 \<Rightarrow> u32 \<Rightarrow> mem" where
  "memset_local m dst v n = fill_up m dst (ucast v) 0 (nat (sint n))"

text \<open>\<open>pp\<close> points to \<open>free_list\<close> itself or to the link of a block.\<close>

definition get_link :: "u32 option \<Rightarrow> 'k heap \<Rightarrow> u32" where
  "get_link pp h = (case pp of None \<Rightarrow> free_list h | Some a \<Rightarrow> rd32 (hm h) a)"

definition set_link :: "u32 option \<Rightarrow> u32 \<Rightarrow> 'k heap \<Rightarrow> 'k heap" where
  "set_link pp v h = (case pp of None \<Rightarrow> h\<lparr>free_list := v\<rparr> | Some a \<Rightarrow> h\<lparr>hm := wr32 (hm h) a v\<rparr>)"

partial_function (option) find_fit :: "u32 \<Rightarrow> 'k heap \<Rightarrow> u32 option \<Rightarrow> (u32 option \<times> u32) option" where
  "find_fit want h pp =
     (let b = get_link pp h in
      if b = 0 then Some (pp, 0)
      else if sint (blk_size (hm h) b) \<ge> sint want then Some (pp, b)
      else find_fit want h (Some (b + 4)))"

definition want_of :: "u32 \<Rightarrow> u32" where "want_of sz = (sz + 3) AND NOT 3"

definition malloc :: "(u32 \<Rightarrow> 'k \<Rightarrow> u32 \<times> 'k) \<Rightarrow> u32 \<Rightarrow> 'k heap \<Rightarrow> (u32 \<times> 'k heap) option" where
  "malloc sbrk sz h =
     (if sint sz \<le> 0 then Some (0, h)
      else
        let want = want_of sz in
        Option.bind (find_fit want h None) (\<lambda>(pp, b).
          if b \<noteq> 0 then Some (b + 8, set_link pp (blk_next (hm h) b) h)
          else
            let total = want + 8; (b, k) = sbrk total (os h); h = h\<lparr>os := k\<rparr> in
            if sint b < 0 then Some (0, h\<lparr>errno := ENOMEM\<rparr>)
            else Some (b + 8, h\<lparr>hm := wr32 (wr32 (hm h) b want) (b + 4) 0\<rparr>)))"

definition free :: "u32 \<Rightarrow> 'k heap \<Rightarrow> 'k heap" where
  "free p h =
     (if p = 0 then h
      else let b = p - 8 in h\<lparr>hm := wr32 (hm h) (b + 4) (free_list h), free_list := b\<rparr>)"

definition calloc :: "(u32 \<Rightarrow> 'k \<Rightarrow> u32 \<times> 'k) \<Rightarrow> u32 \<Rightarrow> u32 \<Rightarrow> 'k heap \<Rightarrow> (u32 \<times> 'k heap) option" where
  "calloc sbrk n sz h =
     (if sint n \<le> 0 \<or> sint sz \<le> 0 then Some (0, h)
      else if sint n > 0x7FFFFFFF div sint sz then Some (0, h)
      else
        let total = n * sz in
        Option.bind (malloc sbrk total h) (\<lambda>(p, h).
          Some (p, if p \<noteq> 0 then h\<lparr>hm := memset_local (hm h) p 0 total\<rparr> else h)))"

definition realloc :: "(u32 \<Rightarrow> 'k \<Rightarrow> u32 \<times> 'k) \<Rightarrow> u32 \<Rightarrow> u32 \<Rightarrow> 'k heap \<Rightarrow> (u32 \<times> 'k heap) option" where
  "realloc sbrk p sz h =
     (if p = 0 then malloc sbrk sz h
      else
        let b = p - 8 in
        if sint (blk_size (hm h) b) \<ge> sint sz then Some (p, h)
        else Option.bind (malloc sbrk sz h) (\<lambda>(np, h).
          if np \<noteq> 0 then Some (np, free p (h\<lparr>hm := memcpy_local (hm h) np p (blk_size (hm h) b)\<rparr>))
          else Some (np, h)))"

subsection \<open>Well-formed heaps\<close>

text \<open>A block is its address and the size of its payload.\<close>

type_synonym block = "u32 \<times> nat"

definition in_block :: "u32 \<Rightarrow> block \<Rightarrow> bool" where
  "in_block a x \<longleftrightarrow> unat (fst x) \<le> unat a \<and> unat a < unat (fst x) + 8 + snd x"

definition in_payload :: "u32 \<Rightarrow> block \<Rightarrow> bool" where
  "in_payload a x \<longleftrightarrow> unat (fst x) + 8 \<le> unat a \<and> unat a < unat (fst x) + 8 + snd x"

definition apart_blocks :: "block \<Rightarrow> block \<Rightarrow> bool" where
  "apart_blocks x y \<longleftrightarrow> unat (fst x) + 8 + snd x \<le> unat (fst y) \<or> unat (fst y) + 8 + snd y \<le> unat (fst x)"

text \<open>The blocks met from \<open>p\<close> on when \<open>nx\<close> gives the link of each.\<close>

fun chain :: "(block \<Rightarrow> u32) \<Rightarrow> u32 \<Rightarrow> block list \<Rightarrow> bool" where
  "chain nx p [] \<longleftrightarrow> p = 0"
| "chain nx p (x # xs) \<longleftrightarrow> p = fst x \<and> chain nx (nx x) xs"

definition link :: "mem \<Rightarrow> block \<Rightarrow> u32" where "link m x = blk_next m (fst x)"

definition block_ok :: "mem \<Rightarrow> u32 \<Rightarrow> block \<Rightarrow> bool" where
  "block_ok m brk x \<longleftrightarrow> fst x \<noteq> 0 \<and> unat (fst x) + 8 + snd x \<le> unat brk \<and> blk_size m (fst x) = of_nat (snd x)"

text \<open>Live blocks \<open>al\<close>, free blocks \<open>fl\<close> in the order of the list, below the program break.\<close>

definition heap_ok :: "u32 \<Rightarrow> block set \<Rightarrow> block list \<Rightarrow> 'k heap \<Rightarrow> bool" where
  "heap_ok brk al fl h \<longleftrightarrow>
     brk \<noteq> 0 \<and> unat brk < 0x80000000 \<and>
     (\<forall>x \<in> al \<union> set fl. block_ok (hm h) brk x) \<and>
     (\<forall>x \<in> al \<union> set fl. \<forall>y \<in> al \<union> set fl. x \<noteq> y \<longrightarrow> apart_blocks x y) \<and>
     distinct fl \<and> al \<inter> set fl = {} \<and> chain (link (hm h)) (free_list h) fl"

lemma rd32_cong: "(\<And>i. i < 4 \<Longrightarrow> m (a + of_nat i) = m' (a + of_nat i)) \<Longrightarrow> rd32 m a = rd32 m' a"
  unfolding rd32_def by (rule arg_cong [where f = "\<lambda>x. le32 x 0"]) (rule mem_load_cong)

lemma wr32_apply: "wr32 m a v x = (if unat (x - a) < 4 then le32_bytes v ! unat (x - a) else m x)"
  by (simp add: wr32_def memcpy_apply)

lemma rd32_wr32_same [simp]: "rd32 (wr32 m a v) a = v"
  using mem_load_memcpy [of "le32_bytes v" m a] by (simp add: rd32_def wr32_def)

lemma wr32_other: "unat a + 4 \<le> 4294967296 \<Longrightarrow> \<not> (unat a \<le> unat x \<and> unat x < unat a + 4) \<Longrightarrow> wr32 m a v x = m x"
  using in_range_iff [of a 4 x] by (auto simp: wr32_apply)

lemma rd32_wr32_other:
  assumes "unat a + 4 \<le> unat c \<or> unat c + 4 \<le> unat a" "unat a + 4 \<le> 4294967296" "unat c + 4 \<le> 4294967296"
  shows "rd32 (wr32 m a v) c = rd32 m c"
proof (rule rd32_cong)
  fix i :: nat
  assume "i < 4"
  then have "unat (c + of_nat i) = unat c + i" using assms(3) by (intro no_wrap_index [of c 4]) simp_all
  then show "wr32 m a v (c + of_nat i) = m (c + of_nat i)" using assms \<open>i < 4\<close> by (intro wr32_other) auto
qed

lemma heap_okD:
  assumes "heap_ok brk al fl h" "x \<in> al \<union> set fl"
  shows "fst x \<noteq> 0" "unat (fst x) + 8 + snd x \<le> unat brk" "unat (fst x) + 8 + snd x < 0x80000000" "blk_size (hm h) (fst x) = of_nat (snd x)"
proof -
  have b: "block_ok (hm h) brk x" "unat brk < 0x80000000" using assms unfolding heap_ok_def by blast+
  then show "fst x \<noteq> 0" "unat (fst x) + 8 + snd x \<le> unat brk" "blk_size (hm h) (fst x) = of_nat (snd x)"
    by (simp_all add: block_ok_def)
  then show "unat (fst x) + 8 + snd x < 0x80000000" using b(2) by linarith
qed

lemma heap_apart:
  assumes "heap_ok brk al fl h" "x \<in> al \<union> set fl" "y \<in> al \<union> set fl" "x \<noteq> y"
  shows "apart_blocks x y"
  using assms unfolding heap_ok_def by blast

lemma chain_cong: "(\<And>x. x \<in> set xs \<Longrightarrow> f x = g x) \<Longrightarrow> chain f p xs = chain g p xs"
  by (induction xs arbitrary: p) simp_all

lemma chain_unlink:
  assumes "chain f p (us @ y # vs)" "distinct (us @ y # vs)" "us \<noteq> []"
  shows "chain (f(last us := f y)) p (us @ vs)"
  using assms
proof (induction us arbitrary: p)
  case (Cons u us)
  show ?case
  proof (cases "us = []")
    case True
    have "chain (f(u := f y)) (f y) vs = chain f (f y) vs" using Cons.prems(2) by (intro chain_cong) auto
    then show ?thesis using Cons.prems True by (simp del: fun_upd_apply add: fun_upd_same)
  next
    case False
    have "chain (f(last us := f y)) (f u) (us @ vs)" using Cons.prems False by (intro Cons.IH) simp_all
    moreover have "u \<noteq> last us" using Cons.prems(2) False last_in_set [OF False] by auto
    ultimately show ?thesis using Cons.prems False by (simp del: fun_upd_apply add: fun_upd_other)
  qed
qed simp

text \<open>What happens outside the headers of its blocks does not matter to a heap.\<close>

lemma header_words:
  assumes "heap_ok brk al fl h" "x \<in> al \<union> set fl" "\<And>a. unat (fst x) \<le> unat a \<Longrightarrow> unat a < unat (fst x) + 8 \<Longrightarrow> m a = hm h a"
  shows "blk_size m (fst x) = blk_size (hm h) (fst x)" "link m x = link (hm h) x"
proof -
  have b: "unat (fst x) + 8 \<le> 4294967296" using heap_okD [OF assms(1,2)] by simp
  have i: "unat (fst x + of_nat i) = unat (fst x) + i" if "i < 8" for i using b that by (rule no_wrap_index)
  show "blk_size m (fst x) = blk_size (hm h) (fst x)"
    unfolding blk_size_def using i by (intro rd32_cong assms(3)) simp_all
  have e: "unat (fst x + 4 + of_nat j) = unat (fst x) + (j + 4)" if "j < 4" for j using i [of "j + 4"] that by (simp add: ac_simps)
  show "link m x = link (hm h) x"
    unfolding blk_next_def link_def using e by (intro rd32_cong assms(3)) simp_all
qed

lemma heap_ok_cong:
  assumes "heap_ok brk al fl h" "free_list h' = free_list h"
    "\<And>x a. x \<in> al \<union> set fl \<Longrightarrow> unat (fst x) \<le> unat a \<Longrightarrow> unat a < unat (fst x) + 8 \<Longrightarrow> hm h' a = hm h a"
  shows "heap_ok brk al fl h'"
proof -
  have w: "blk_size (hm h') (fst x) = blk_size (hm h) (fst x)" "link (hm h') x = link (hm h) x" if "x \<in> al \<union> set fl" for x
    using header_words [OF assms(1) that assms(3) [OF that]] by simp_all
  have "chain (link (hm h')) p fl = chain (link (hm h)) p fl" for p by (rule chain_cong) (simp add: w(2))
  moreover have "block_ok (hm h') brk x" if "x \<in> al \<union> set fl" for x
    using heap_okD [OF assms(1) that] that by (simp add: block_ok_def w(1))
  ultimately show ?thesis using assms(1) unfolding heap_ok_def by (simp add: assms(2))
qed

text \<open>Writing the link of a block leaves every size, every other link and every payload as they were.\<close>

lemma write_link:
  assumes "heap_ok brk al fl h" "x \<in> al \<union> set fl" "m = wr32 (hm h) (fst x + 4) v"
  shows "y \<in> al \<union> set fl \<Longrightarrow> blk_size m (fst y) = blk_size (hm h) (fst y)"
    "y \<in> al \<union> set fl \<Longrightarrow> link m y = (if y = x then v else link (hm h) y)"
    "y \<in> al \<union> set fl \<Longrightarrow> in_payload a y \<Longrightarrow> m a = hm h a"
proof -
  note X = heap_okD [OF assms(1,2)]
  have x4: "unat (fst x + 4) = unat (fst x) + 4" using X(3) by (subst unat_add32) simp_all
  have o: "m a = hm h a" if "\<not> (unat (fst x) + 4 \<le> unat a \<and> unat a < unat (fst x) + 8)" for a
    unfolding assms(3) using that X(3) by (intro wr32_other) (auto simp: x4)
  have ap: "apart_blocks x y" if "y \<in> al \<union> set fl" "y \<noteq> x" using heap_apart [OF assms(1,2) that(1)] that(2) by blast
  show "blk_size m (fst y) = blk_size (hm h) (fst y)" if y: "y \<in> al \<union> set fl"
  proof (cases "y = x")
    case True
    have "blk_size m (fst x) = blk_size (hm h) (fst x)"
      unfolding blk_size_def assms(3) using X(3) by (intro rd32_wr32_other) (simp_all add: x4)
    then show ?thesis using True by simp
  next
    case False
    then show ?thesis using ap [OF y False] by (intro header_words [OF assms(1) y] o) (auto simp: apart_blocks_def)
  qed
  show "link m y = (if y = x then v else link (hm h) y)" if y: "y \<in> al \<union> set fl"
  proof (cases "y = x")
    case True
    then show ?thesis by (simp add: link_def blk_next_def assms(3))
  next
    case False
    have "link m y = link (hm h) y"
      using ap [OF y False] by (intro header_words [OF assms(1) y] o) (auto simp: apart_blocks_def)
    then show ?thesis using False by simp
  qed
  show "m a = hm h a" if "y \<in> al \<union> set fl" "in_payload a y"
    using that ap by (intro o) (cases "y = x"; auto simp: in_payload_def apart_blocks_def)
qed

subsection \<open>The search\<close>

text \<open>The link that leads to the block after \<open>xs\<close>.\<close>

definition link_of :: "block list \<Rightarrow> u32 option" where
  "link_of xs = (if xs = [] then None else Some (fst (last xs) + 4))"

lemma link_of_snoc [simp]: "link_of (xs @ [x]) = Some (fst x + 4)" "link_of [] = None"
  by (simp_all add: link_of_def)

lemma chain_link:
  "chain (link (hm h)) (free_list h) (xs @ ys) \<Longrightarrow> chain (link (hm h)) (get_link (link_of xs) h) ys"
proof (induction xs arbitrary: ys rule: rev_induct)
  case (snoc x xs)
  then show ?case using snoc.IH [of "x # ys"] by (simp add: get_link_def link_def blk_next_def)
qed (simp add: get_link_def)

definition too_small :: "u32 \<Rightarrow> 'k heap \<Rightarrow> block \<Rightarrow> bool" where
  "too_small want h y \<longleftrightarrow> \<not> sint want \<le> sint (blk_size (hm h) (fst y))"

lemma find_fit_eq:
  assumes "heap_ok brk al (xs @ ys) h"
  shows "find_fit want h (link_of xs) =
    (case dropWhile (too_small want h) ys of
       [] \<Rightarrow> Some (link_of (xs @ ys), 0)
     | y # zs \<Rightarrow> Some (link_of (xs @ takeWhile (too_small want h) ys), fst y))"
  using assms
proof (induction ys arbitrary: xs)
  case Nil
  have "get_link (link_of xs) h = 0" using chain_link [of h xs "[]"] Nil by (simp add: heap_ok_def)
  then show ?case by (subst find_fit.simps) simp
next
  case (Cons y ys)
  have g: "get_link (link_of xs) h = fst y" using chain_link [of h xs "y # ys"] Cons.prems by (simp add: heap_ok_def)
  have n: "fst y \<noteq> 0" using heap_okD(1) [OF Cons.prems, of y] by simp
  show ?case
  proof (cases "sint want \<le> sint (blk_size (hm h) (fst y))")
    case True
    then show ?thesis using g n by (subst find_fit.simps) (simp add: too_small_def)
  next
    case False
    have "find_fit want h (link_of xs) = find_fit want h (link_of (xs @ [y]))"
      using g n False by (subst find_fit.simps) simp
    moreover have "heap_ok brk al ((xs @ [y]) @ ys) h" using Cons.prems by simp
    ultimately show ?thesis using Cons.IH [of "xs @ [y]"] False
      by (cases "dropWhile (too_small want h) ys") (simp_all add: too_small_def [of want h y] del: dropWhile_eq_Nil_conv)
  qed
qed

text \<open>What the search returns.\<close>

lemma find_fit_cases:
  assumes "heap_ok brk al fl h"
  obtains (none) pp where "find_fit want h None = Some (pp, 0)"
  | (some) us y vs where "find_fit want h None = Some (link_of us, fst y)" "fl = us @ y # vs" "sint want \<le> sint (blk_size (hm h) (fst y))"
proof -
  let ?P = "too_small want h"
  have e: "find_fit want h None =
      (case dropWhile ?P fl of [] \<Rightarrow> Some (link_of fl, 0) | y # zs \<Rightarrow> Some (link_of (takeWhile ?P fl), fst y))"
    using find_fit_eq [of brk al "[]" fl h want] assms
    by (cases "dropWhile ?P fl") (simp_all del: dropWhile_eq_Nil_conv)
  show thesis
  proof (cases "dropWhile ?P fl")
    case Nil
    then show ?thesis using e none by (simp del: dropWhile_eq_Nil_conv)
  next
    case (Cons y vs)
    have "fl = takeWhile ?P fl @ y # vs" using Cons takeWhile_dropWhile_id [of ?P fl] by simp
    moreover have "\<not> ?P y" using hd_dropWhile [of ?P fl] Cons by simp
    ultimately show ?thesis using e Cons some [of "takeWhile ?P fl" y vs] by (simp add: too_small_def)
  qed
qed

text \<open>Taking a block out of the free list.\<close>

lemma unlink_ok:
  assumes "heap_ok brk al (us @ y # vs) h"
  shows "heap_ok brk (insert y al) (us @ vs) (set_link (link_of us) (blk_next (hm h) (fst y)) h)"
    "x \<in> al \<Longrightarrow> in_payload a x \<Longrightarrow> hm (set_link (link_of us) (blk_next (hm h) (fst y)) h) a = hm h a"
    "os (set_link (link_of us) (blk_next (hm h) (fst y)) h) = os h"
proof -
  let ?fl = "us @ y # vs"
  let ?h = "set_link (link_of us) (blk_next (hm h) (fst y)) h"
  note H = assms [unfolded heap_ok_def]
  show "os ?h = os h" by (simp add: set_link_def split: option.split)
  show "heap_ok brk (insert y al) (us @ vs) ?h"
  proof (cases "us = []")
    case True
    have "chain (link (hm h)) (link (hm h) y) vs" "distinct vs" "y \<notin> set vs" using H True by simp_all
    then show ?thesis using H True by (auto simp: heap_ok_def set_link_def link_def)
  next
    case False
    define u where "u = last us"
    have u: "u \<in> al \<union> set ?fl" using False by (simp add: u_def)
    have h': "?h = h\<lparr>hm := wr32 (hm h) (fst u + 4) (blk_next (hm h) (fst y))\<rparr>" using False by (simp add: set_link_def link_of_def u_def)
    note W = write_link [OF assms u refl, where v = "blk_next (hm h) (fst y)"]
    have "chain ((link (hm h))(last us := link (hm h) y)) (free_list h) (us @ vs)"
      using H False by (intro chain_unlink) simp_all
    moreover have "chain ((link (hm h))(last us := link (hm h) y)) (free_list h) (us @ vs) =
        chain (link (hm ?h)) (free_list h) (us @ vs)"
    proof (rule chain_cong)
      fix x
      assume "x \<in> set (us @ vs)"
      then have "link (hm ?h) x = (if x = u then blk_next (hm h) (fst y) else link (hm h) x)" using W(2) [of x] by (simp add: h')
      then show "((link (hm h))(last us := link (hm h) y)) x = link (hm ?h) x" by (simp add: u_def link_def [of _ y])
    qed
    moreover have "block_ok (hm ?h) brk x" if "x \<in> insert y al \<union> set (us @ vs)" for x
    proof -
      have x: "x \<in> al \<union> set ?fl" using that by auto
      show ?thesis using heap_okD [OF assms x] W(1) [OF x] by (simp add: h' block_ok_def)
    qed
    ultimately show ?thesis using H unfolding heap_ok_def by (auto simp: h')
  qed
  show "hm ?h a = hm h a" if "x \<in> al" "in_payload a x"
  proof (cases "us = []")
    case False
    then have "last us \<in> al \<union> set ?fl" by simp
    from write_link(3) [OF assms this refl _ that(2)] show ?thesis using False that by (simp add: set_link_def link_of_def)
  qed (simp add: set_link_def)
qed

subsection \<open>The interface to the kernel\<close>

text \<open>
  What the allocator needs of \<open>sbrk\<close>: it fails with a negative value and moves nothing, or it returns
  the old break and moves it up by the increment, never past \<open>top\<close>.
\<close>

locale sbrk_service =
  fixes sbrk :: "u32 \<Rightarrow> 'k \<Rightarrow> u32 \<times> 'k" and brk :: "'k \<Rightarrow> u32" and top :: u32
  assumes top_small: "unat top < 0x80000000"
    and sbrk_cases: "\<lbrakk>sbrk inc k = (r, k'); unat (brk k) \<le> unat top\<rbrakk> \<Longrightarrow>
      r = ERR \<and> brk k' = brk k \<or> r = brk k \<and> brk k' = brk k + inc \<and> unat (brk k) + unat inc \<le> unat top"

lemma want_eq:
  assumes "0 < sint sz" "sint sz \<le> 0x7FFFFFFC"
  shows "unat (want_of sz) = (unat sz + 3) div 4 * 4" "unat sz \<le> (unat sz + 3) div 4 * 4"
    "(unat sz + 3) div 4 * 4 \<le> 0x7FFFFFFC" "sint sz = int (unat sz)"
proof -
  have u: "unat sz < 0x80000000"
  proof (rule ccontr)
    assume "\<not> unat sz < 0x80000000"
    then have "sint sz = int (unat sz) - 0x100000000" by (simp only: sint_unat if_False)
    then show False using assms(1) unat_lt_2_32 [of sz] by linarith
  qed
  then show s: "sint sz = int (unat sz)" by (simp add: sint_unat)
  have l: "unat sz \<le> 0x7FFFFFFC" using assms(2) s by linarith
  have "- 4 = NOT (mask 2 :: u32)" by (simp add: mask_eq_exp_minus_1 not_eq_complement)
  moreover have "x AND NOT (mask 2) = push_bit 2 (drop_bit 2 x)" for x :: u32
    by (rule bit_word_eqI) (auto simp: bit_simps not_less dest: le_Suc_ex)
  ultimately have "want_of sz = (sz + 3) div 4 * 4" by (simp add: want_of_def push_bit_eq_mult drop_bit_eq_div)
  moreover have "unat (sz + 3) = unat sz + 3" using l by (subst unat_add32) simp_all
  ultimately show "unat (want_of sz) = (unat sz + 3) div 4 * 4"
    using l by (simp add: unat_mult32 unat_div)
  show "unat sz \<le> (unat sz + 3) div 4 * 4" by presburger
  show "(unat sz + 3) div 4 * 4 \<le> 0x7FFFFFFC" using l by presburger
qed

text \<open>A new block at the break.\<close>

lemma fresh_ok:
  assumes "heap_ok brk al fl h" "unat brk + 8 + n < 0x80000000" "unat w = n" "brk' = brk + (w + 8)"
    "h' = h\<lparr>os := k, hm := wr32 (wr32 (hm h) brk w) (brk + 4) 0\<rparr>"
  shows "heap_ok brk' (insert (brk, n) al) fl h'" "(brk, n) \<notin> al"
    "x \<in> al \<Longrightarrow> in_payload a x \<Longrightarrow> hm h' a = hm h a"
proof -
  note H = assms(1) [unfolded heap_ok_def]
  have b4: "unat (brk + 4) = unat brk + 4" using assms(2) by (subst unat_add32) simp_all
  have brk': "unat brk' = unat brk + 8 + n"
    unfolding assms(4) using assms(2,3) by (subst unat_add32) (simp_all add: unat_add32)
  have o: "hm h' a = hm h a" if "\<not> (unat brk \<le> unat a \<and> unat a < unat brk + 8)" for a
  proof -
    have "wr32 (wr32 (hm h) brk w) (brk + 4) 0 a = wr32 (hm h) brk w a" using that assms(2) b4 by (intro wr32_other) auto
    also have "\<dots> = hm h a" using that assms(2) by (intro wr32_other) auto
    finally show ?thesis by (simp add: assms(5))
  qed
  have below: "unat (fst x) + 8 + snd x \<le> unat brk" if "x \<in> al \<union> set fl" for x by (rule heap_okD(2) [OF assms(1) that])
  show ne: "(brk, n) \<notin> al" using below [of "(brk, n)"] by auto
  have nf: "(brk, n) \<notin> set fl" using below [of "(brk, n)"] by auto
  have same: "hm h' a = hm h a" if "x \<in> al \<union> set fl" "unat a < unat (fst x) + 8 + snd x" for x a
    using below [OF that(1)] that(2) by (intro o) linarith
  have old: "heap_ok brk al fl h'" by (rule heap_ok_cong [OF assms(1)]) (simp add: assms(5), rule same, assumption, linarith)
  have "rd32 (wr32 (wr32 (hm h) brk w) (brk + 4) 0) brk = rd32 (wr32 (hm h) brk w) brk"
    using assms(2) b4 by (intro rd32_wr32_other) auto
  then have sz: "blk_size (hm h') brk = of_nat n" using assms(3) by (auto simp: blk_size_def assms(5))
  have ok: "block_ok (hm h') brk' y" if "y \<in> insert (brk, n) al \<union> set fl" for y
  proof (cases "y = (brk, n)")
    case True
    then show ?thesis using sz H brk' by (simp add: block_ok_def)
  next
    case False
    then have "y \<in> al \<union> set fl" using that by auto
    from heap_okD [OF old this] show ?thesis using brk' by (simp add: block_ok_def)
  qed
  have ap: "apart_blocks y z" if "y \<in> insert (brk, n) al \<union> set fl" "z \<in> insert (brk, n) al \<union> set fl" "y \<noteq> z" for y z
    using that heap_apart [OF assms(1), of y z] below [of y] below [of z] by (auto simp: apart_blocks_def)
  show "heap_ok brk' (insert (brk, n) al) fl h'"
    unfolding heap_ok_def
  proof (intro conjI ballI impI ok ap)
    show "brk' \<noteq> 0" using brk' by auto
    show "unat brk' < 0x80000000" using brk' assms(2) by simp
    show "distinct fl" "insert (brk, n) al \<inter> set fl = {}" "chain (link (hm h')) (free_list h') fl"
      using old nf by (auto simp: heap_ok_def)
  qed
  show "hm h' a = hm h a" if "x \<in> al" "in_payload a x"
    using same [of x a] that by (auto simp: in_payload_def)
qed

lemma payload_not_0: "unat b < 0x80000000 \<Longrightarrow> b + 8 \<noteq> (0 :: u32)"
  using unat_add32 [of b 8] by auto

lemma sint_size:
  assumes "heap_ok brk al fl h" "x \<in> al \<union> set fl"
  shows "sint (blk_size (hm h) (fst x)) = int (snd x)"
proof -
  have "snd x < 0x80000000" using heap_okD(3) [OF assms] by linarith
  then show ?thesis by (simp add: heap_okD(4) [OF assms] sint_unat unat_of_nat32 del: of_nat_unat)
qed

text \<open>Giving a block back puts it at the head of the free list.\<close>

lemma free_ok:
  assumes "heap_ok brk al fl h" "x \<in> al" "p = fst x + 8"
  shows "heap_ok brk (al - {x}) (x # fl) (free p h)" "os (free p h) = os h"
    "y \<in> al - {x} \<Longrightarrow> in_payload a y \<Longrightarrow> hm (free p h) a = hm h a"
proof -
  note H = assms(1) [unfolded heap_ok_def]
  have x: "x \<in> al \<union> set fl" using assms(2) by simp
  have "p \<noteq> 0" unfolding assms(3) using heap_okD(3) [OF assms(1) x] by (intro payload_not_0) linarith
  then have f: "free p h = h\<lparr>hm := wr32 (hm h) (fst x + 4) (free_list h), free_list := fst x\<rparr>"
    by (simp add: free_def Let_def assms(3))
  note W = write_link [OF assms(1) x refl, where v = "free_list h"]
  show "os (free p h) = os h" by (simp add: f)
  show "hm (free p h) a = hm h a" if "y \<in> al - {x}" "in_payload a y" using W(3) [of y a] that by (simp add: f)
  have nx: "x \<notin> set fl" using H assms(2) by auto
  have "chain (link (wr32 (hm h) (fst x + 4) (free_list h))) (free_list h) fl = chain (link (hm h)) (free_list h) fl"
    using nx by (intro chain_cong) (auto simp: W(2))
  then have "chain (link (hm (free p h))) (free_list (free p h)) (x # fl)" using H W(2) [OF x] by (simp add: f)
  moreover have "block_ok (hm (free p h)) brk y" if "y \<in> (al - {x}) \<union> set (x # fl)" for y
  proof -
    have y: "y \<in> al \<union> set fl" using that x by auto
    show ?thesis using heap_okD [OF assms(1) y] W(1) [OF y] by (simp add: f block_ok_def)
  qed
  ultimately show "heap_ok brk (al - {x}) (x # fl) (free p h)" using H nx assms(2) unfolding heap_ok_def by auto
qed

text \<open>Stores into the payload of a live block do not touch the rest of the heap.\<close>

lemma payload_write_ok:
  assumes "heap_ok brk al fl h" "x \<in> al" "\<And>a. \<not> in_payload a x \<Longrightarrow> m a = hm h a"
  shows "heap_ok brk al fl (h\<lparr>hm := m\<rparr>)" "y \<in> al \<Longrightarrow> y \<noteq> x \<Longrightarrow> in_payload a y \<Longrightarrow> m a = hm h a"
proof -
  have n: "\<not> in_payload a x" if "y \<in> al \<union> set fl" "unat (fst y) \<le> unat a" "unat a < unat (fst y) + 8 + snd y"
    "y \<noteq> x \<or> unat a < unat (fst y) + 8" for y a
    using heap_apart [OF assms(1), of x y] assms(2) that by (auto simp: in_payload_def apart_blocks_def)
  show "heap_ok brk al fl (h\<lparr>hm := m\<rparr>)"
  proof (rule heap_ok_cong [OF assms(1)])
    show "hm (h\<lparr>hm := m\<rparr>) a = hm h a" if "y \<in> al \<union> set fl" "unat (fst y) \<le> unat a" "unat a < unat (fst y) + 8" for y a
    proof -
      have "m a = hm h a" using that by (intro assms(3) n [of y]) auto
      then show ?thesis by simp
    qed
  qed simp
  show "m a = hm h a" if "y \<in> al" "y \<noteq> x" "in_payload a y" using that by (intro assms(3) n [of y]) (auto simp: in_payload_def)
qed

text \<open>The outcome of an allocation: nothing, or a block of its own that leaves the others' contents alone.\<close>

definition alloc_ok :: "u32 \<Rightarrow> nat \<Rightarrow> block set \<Rightarrow> 'k heap \<Rightarrow> u32 \<times> 'k heap \<Rightarrow> bool" where
  "alloc_ok brk sz al h res \<longleftrightarrow> (case res of (p, h') \<Rightarrow>
     p = 0 \<and> (\<exists>fl. heap_ok brk al fl h') \<and> hm h' = hm h \<or>
     (\<exists>b n fl. p = b + 8 \<and> sz \<le> n \<and> (b, n) \<notin> al \<and> heap_ok brk (insert (b, n) al) fl h' \<and>
       (\<forall>x \<in> al. \<forall>a. in_payload a x \<longrightarrow> hm h' a = hm h a)))"

lemma alloc_ok_null:
  assumes "alloc_ok brk sz al h (0, h')"
  shows "(\<exists>fl. heap_ok brk al fl h') \<and> hm h' = hm h"
proof -
  have False if "0 = b + 8" "heap_ok brk (insert (b, n) al) fl h'" for b n fl
  proof -
    have "unat b < 0x80000000" using heap_okD(3) [OF that(2), of "(b, n)"] by simp
    then show False using payload_not_0 [of b] that(1) by simp
  qed
  then show ?thesis using assms unfolding alloc_ok_def prod.case by blast
qed

context sbrk_service
begin

lemma malloc_ok:
  assumes "heap_ok (brk (os h)) al fl h" "unat (brk (os h)) \<le> unat top" "0 < sint sz" "sint sz \<le> 0x7FFFFFFC"
  shows "\<exists>p h'. malloc sbrk sz h = Some (p, h') \<and> unat (brk (os h')) \<le> unat top \<and>
    alloc_ok (brk (os h')) (nat (sint sz)) al h (p, h') \<and> (p = 0 \<longrightarrow> errno h' = ENOMEM)"
proof -
  define want where "want = want_of sz"
  note W = want_eq [OF assms(3,4), folded want_def]
  have sw: "sint want = int (unat want)" using W(1,3) by (simp add: sint_unat del: of_nat_unat)
  have ns: "nat (sint sz) \<le> unat want" using W by simp
  have pos: "\<not> sint sz \<le> 0" using assms(3) by simp
  from assms(1) show ?thesis
  proof (cases rule: find_fit_cases [where want = want])
    case (some us y vs)
    let ?h = "set_link (link_of us) (blk_next (hm h) (fst y)) h"
    have y: "y \<in> al \<union> set fl" using some(2) by simp
    have m: "malloc sbrk sz h = Some (fst y + 8, ?h)"
      using some(1) pos heap_okD(1) [OF assms(1) y] by (simp add: malloc_def Let_def want_def [symmetric])
    note U = unlink_ok [OF assms(1) [unfolded some(2)]]
    have "nat (sint sz) \<le> snd y" using some(3) [unfolded sint_size [OF assms(1) y] sw] ns by linarith
    moreover have "y \<notin> al" using assms(1) some(2) by (auto simp: heap_ok_def)
    moreover have "fst y + 8 \<noteq> 0" using heap_okD(3) [OF assms(1) y] by (intro payload_not_0) linarith
    ultimately show ?thesis using m U assms(2)
      by (intro exI [of _ "fst y + 8"] exI [of _ ?h]) (auto simp: alloc_ok_def intro!: exI [of _ "fst y"] exI [of _ "snd y"])
  next
    case (none pp)
    obtain r k where r: "sbrk (want + 8) (os h) = (r, k)" by (cases "sbrk (want + 8) (os h)")
    have t: "unat (want + 8) = unat want + 8" using W(1,3) by (subst unat_add32) simp_all
    have m: "malloc sbrk sz h = (if sint r < 0 then Some (0, h\<lparr>os := k, errno := ENOMEM\<rparr>)
        else Some (r + 8, h\<lparr>os := k, hm := wr32 (wr32 (hm h) r want) (r + 4) 0\<rparr>))"
      using none pos r by (simp add: malloc_def Let_def want_def [symmetric])
    from sbrk_cases [OF r assms(2)] show ?thesis
    proof (elim disjE conjE)
      assume f: "r = ERR" "brk k = brk (os h)"
      have "heap_ok (brk k) al fl (h\<lparr>os := k, errno := ENOMEM\<rparr>)" using assms(1) unfolding heap_ok_def by (simp add: f(2))
      then show ?thesis using m f assms(2) by (auto simp: alloc_ok_def)
    next
      assume g: "r = brk (os h)" "brk k = brk (os h) + (want + 8)" "unat (brk (os h)) + unat (want + 8) \<le> unat top"
      have lt: "unat (brk (os h)) + 8 + unat want < 0x80000000" using g(3) t top_small by linarith
      let ?h = "h\<lparr>os := k, hm := wr32 (wr32 (hm h) r want) (r + 4) 0\<rparr>"
      note F = fresh_ok [OF assms(1) lt refl g(2), of ?h k]
      have "\<not> sint r < 0" using lt by (simp add: g(1) sint_unat)
      then have "malloc sbrk sz h = Some (r + 8, ?h)" using m by simp
      moreover have "r + 8 \<noteq> 0" unfolding g(1) using lt by (intro payload_not_0) linarith
      moreover have "unat (brk k) \<le> unat top" using g(2,3) t lt by (simp add: unat_add32)
      ultimately show ?thesis using F ns
        by (intro exI [of _ "r + 8"] exI [of _ ?h]) (auto simp: alloc_ok_def g(1) intro!: exI [of _ "brk (os h)"] exI [of _ "unat want"])
    qed
  qed
qed

lemma calloc_ok:
  assumes "heap_ok (brk (os h)) al fl h" "unat (brk (os h)) \<le> unat top" "0 < sint n" "0 < sint sz" "sint n * sint sz \<le> 0x7FFFFFFC"
  shows "\<exists>p h'. calloc sbrk n sz h = Some (p, h') \<and> unat (brk (os h')) \<le> unat top \<and>
    alloc_ok (brk (os h')) (nat (sint n * sint sz)) al h (p, h') \<and>
    (p \<noteq> 0 \<longrightarrow> (\<forall>i < nat (sint n * sint sz). hm h' (p + of_nat i) = 0))"
proof -
  define total where "total = n * sz"
  define t where "t = nat (sint n * sint sz)"
  have "sint n * sint sz div sint sz \<le> 0x7FFFFFFF div sint sz" using assms(4,5) by (intro zdiv_mono1) simp_all
  then have le: "sint n \<le> 0x7FFFFFFF div sint sz" using assms(4) by simp
  have prod: "0 < sint n * sint sz" using assms(3,4) by simp
  have "sint total = sint n * sint sz"
    unfolding total_def sint_word_mult using prod assms(5) by (simp add: signed_take_bit_int_eq_self)
  then have st: "sint total = int t" "0 < sint total" "sint total \<le> 0x7FFFFFFC" using prod assms(5) by (simp_all add: t_def)
  obtain p h1 where m: "malloc sbrk total h = Some (p, h1)" "unat (brk (os h1)) \<le> unat top" "alloc_ok (brk (os h1)) t al h (p, h1)"
    using malloc_ok [OF assms(1,2) st(2,3)] st(1) by auto
  have c: "calloc sbrk n sz h = Some (p, if p \<noteq> 0 then h1\<lparr>hm := memset_local (hm h1) p 0 total\<rparr> else h1)"
    using assms(3,4) le m(1) by (simp add: calloc_def Let_def total_def)
  show ?thesis
  proof (cases "p = 0")
    case True
    then show ?thesis using c m(2,3) by (simp add: t_def)
  next
    case False
    then obtain b k fl' where a: "p = b + 8" "t \<le> k" "(b, k) \<notin> al" "heap_ok (brk (os h1)) (insert (b, k) al) fl' h1"
      "\<forall>x \<in> al. \<forall>a. in_payload a x \<longrightarrow> hm h1 a = hm h a" using m(3) by (auto simp: alloc_ok_def)
    have B: "unat b + 8 + k < 0x80000000" using heap_okD(3) [OF a(4), of "(b, k)"] by simp
    have p: "unat p = unat b + 8" unfolding a(1) using B by (subst unat_add32) simp_all
    let ?m = "memset_local (hm h1) p 0 total"
    have fill: "?m a = (if unat (a - p) < t then 0 else hm h1 a)" for a
      using fill_up_apply [of 0 t "hm h1" p 0 a] B a(2) by (simp add: memset_local_def st(1))
    have out: "?m a = hm h1 a" if "\<not> in_payload a (b, k)" for a
      using that in_range_iff [of p t a] B a(2) p by (auto simp: fill in_payload_def)
    note P = payload_write_ok [OF a(4) _ out, of "(b, k)"]
    have "?m (p + of_nat i) = 0" if "i < t" for i using that B a(2) by (simp add: fill unat_of_nat32)
    moreover have "?m c = hm h c" if "z \<in> al" "in_payload c z" for z c
      using P(2) [of z c] a(3,5) that by (metis insertI1 insertI2)
    then have "alloc_ok (brk (os h1)) t al h (p, h1\<lparr>hm := ?m\<rparr>)"
      unfolding alloc_ok_def prod.case using a P(1) by (intro disjI2 exI [of _ b] exI [of _ k] exI [of _ fl']) simp
    ultimately show ?thesis using c m(2) False by (simp add: t_def)
  qed
qed

lemma realloc_ok:
  assumes "heap_ok (brk (os h)) al fl h" "unat (brk (os h)) \<le> unat top" "x \<in> al" "sint sz \<le> 0x7FFFFFFC"
  shows "\<exists>p h' y al' fl'. realloc sbrk (fst x + 8) sz h = Some (p, h') \<and> unat (brk (os h')) \<le> unat top \<and>
    heap_ok (brk (os h')) al' fl' h' \<and> (\<forall>z \<in> al - {x}. \<forall>a. in_payload a z \<longrightarrow> hm h' a = hm h a) \<and>
    (if p = 0 then al' = al \<and> hm h' = hm h
     else p = fst y + 8 \<and> y \<in> al' \<and> al' - {y} = al - {x} \<and> nat (sint sz) \<le> snd y \<and>
       (\<forall>i < min (snd x) (snd y). hm h' (p + of_nat i) = hm h (fst x + 8 + of_nat i)))"
proof -
  define p0 where "p0 = fst x + 8"
  have x: "x \<in> al \<union> set fl" using assms(3) by simp
  note X = heap_okD [OF assms(1) x]
  have p0: "p0 \<noteq> 0" "unat p0 = unat (fst x) + 8" unfolding p0_def using X(3) by (intro payload_not_0, linarith, simp add: unat_add32)
  show ?thesis
  proof (cases "int (snd x) \<ge> sint sz")
    case True
    then have "realloc sbrk p0 sz h = Some (p0, h)" using p0 by (simp add: realloc_def p0_def sint_size [OF assms(1) x])
    then show ?thesis unfolding p0_def [symmetric] using True assms p0(1)
      by (intro exI [of _ p0] exI [of _ h] exI [of _ x] exI [of _ al] exI [of _ fl]) (simp add: p0_def)
  next
    case False
    have s: "0 < sint sz" using False by linarith
    obtain np h1 where m: "malloc sbrk sz h = Some (np, h1)" "unat (brk (os h1)) \<le> unat top" "alloc_ok (brk (os h1)) (nat (sint sz)) al h (np, h1)"
      using malloc_ok [OF assms(1,2) s assms(4)] by auto
    have e: "realloc sbrk p0 sz h = (if np \<noteq> 0
        then Some (np, free p0 (h1\<lparr>hm := memcpy_local (hm h1) np p0 (blk_size (hm h1) (fst x))\<rparr>)) else Some (np, h1))"
      using False p0 m(1) by (simp add: realloc_def Let_def p0_def sint_size [OF assms(1) x])
    show ?thesis
    proof (cases "np = 0")
      case True
      then have "(\<exists>fl. heap_ok (brk (os h1)) al fl h1) \<and> hm h1 = hm h" using m(3) by (intro alloc_ok_null) simp
      then show ?thesis unfolding p0_def [symmetric] using True e m(2) by auto
    next
      case np: False
      then obtain b k fl1 where a: "np = b + 8" "nat (sint sz) \<le> k" "(b, k) \<notin> al" "heap_ok (brk (os h1)) (insert (b, k) al) fl1 h1"
        "\<forall>x \<in> al. \<forall>a. in_payload a x \<longrightarrow> hm h1 a = hm h a" using m(3) by (auto simp: alloc_ok_def)
      have B: "unat b + 8 + k < 0x80000000" using heap_okD(3) [OF a(4), of "(b, k)"] by simp
      have unp: "unat np = unat b + 8" unfolding a(1) using B by (subst unat_add32) simp_all
      have x1: "x \<in> insert (b, k) al \<union> set fl1" using assms(3) by simp
      have ap: "apart_blocks x (b, k)" using heap_apart [OF a(4) x1, of "(b, k)"] assms(3) a(3) by auto
      have lt: "snd x < k" using False a(2) by linarith
      let ?m = "memcpy_local (hm h1) np p0 (blk_size (hm h1) (fst x))"
      have nw: "np + of_nat j \<noteq> p0 + of_nat j'" if "j < snd x" "j' < snd x" for j j'
      proof -
        have "unat (np + of_nat j) = unat np + j" "unat (p0 + of_nat j') = unat p0 + j'"
          using that B X(3) unp p0(2) lt by (intro no_wrap_index [of _ "snd x"]; simp)+
        then show ?thesis using ap that lt unp p0(2) by (auto simp: apart_blocks_def)
      qed
      have cp: "?m a = (if unat (a - np) < snd x then hm h1 (p0 + (a - np)) else hm h1 a)" for a
        using copy_up_apply [of 0 "snd x" np p0 "hm h1" a] nw X(3) by (simp add: memcpy_local_def sint_size [OF a(4) x1])
      have out: "?m a = hm h1 a" if "\<not> in_payload a (b, k)" for a
        using that in_range_iff [of np "snd x" a] B lt unp by (auto simp: cp in_payload_def)
      note P = payload_write_ok [OF a(4) _ out, of "(b, k)"]
      let ?h = "free p0 (h1\<lparr>hm := ?m\<rparr>)"
      have xin: "x \<in> insert (b, k) al" using assms(3) by simp
      note F = free_ok [OF P(1) xin, of p0]
      have other: "hm ?h c = hm h c" if "z \<in> al - {x}" "in_payload c z" for z c
        using F(3) [of z c] P(2) [of z c] a(3,5) that by (auto simp: p0_def)
      have new: "hm ?h (np + of_nat i) = hm h (fst x + 8 + of_nat i)" if i: "i < snd x" for i
      proof -
        have "unat (np + of_nat i) = unat np + i" "unat (p0 + of_nat i) = unat p0 + i"
          using i B X(3) unp p0(2) lt by (intro no_wrap_index [of _ "snd x"]; simp)+
        then have "in_payload (np + of_nat i) (b, k)" "in_payload (p0 + of_nat i) x"
          using i lt unp p0(2) by (auto simp: in_payload_def)
        moreover have "(b, k) \<noteq> x" using a(3) assms(3) by auto
        ultimately have "hm ?h (np + of_nat i) = ?m (np + of_nat i)" "hm h1 (p0 + of_nat i) = hm h (p0 + of_nat i)"
          using F(3) [of "(b, k)" "np + of_nat i"] a(5) assms(3) by (auto simp: p0_def)
        moreover have "?m (np + of_nat i) = hm h1 (p0 + of_nat i)" using i lt B by (simp add: cp unat_of_nat32)
        ultimately show ?thesis by (simp add: p0_def)
      qed
      have "insert (b, k) al - {x} - {(b, k)} = al - {x}" using a(3) by auto
      moreover have "(b, k) \<in> insert (b, k) al - {x}" using a(3) assms(3) by auto
      ultimately show ?thesis
        unfolding p0_def [symmetric] using e np m(2) F(1,2) other new a(1,2)
        by (intro exI [of _ np] exI [of _ ?h] exI [of _ "(b, k)"] exI [of _ "insert (b, k) al - {x}"] exI [of _ "x # fl1"])
           (auto simp: p0_def)
    qed
  qed
qed

end

text \<open>The kernel's \<open>SYS_SBRK\<close> keeps the contract.\<close>

interpretation kheap: sbrk_service sys_sbrk user_brk_off USER_STACK_GUARD_OFF
proof
  show "unat USER_STACK_GUARD_OFF < 0x80000000" by (simp add: layout_defs)
next
  fix inc r :: u32 and k k' :: kernel
  assume s: "sys_sbrk inc k = (r, k')" "unat (user_brk_off k) \<le> unat USER_STACK_GUARD_OFF"
  have "unat (USER_STACK_GUARD_OFF - user_brk_off k) = unat USER_STACK_GUARD_OFF - unat (user_brk_off k)" using s(2) by (rule unat_minus)
  then show "r = ERR \<and> user_brk_off k' = user_brk_off k \<or>
      r = user_brk_off k \<and> user_brk_off k' = user_brk_off k + inc \<and> unat (user_brk_off k) + unat inc \<le> unat USER_STACK_GUARD_OFF"
    using s by (auto simp: sys_sbrk_def Let_def word_less_nat_alt split: if_splits)
qed

subsection \<open>Programs on the heap\<close>

text \<open>
  A program that uses the allocator as it is meant to be used: it allocates, gives live blocks back and
  stores into the payloads of its live blocks. The second component is the set of its live blocks.
\<close>

inductive heap_step :: "kernel heap \<times> block set \<Rightarrow> kernel heap \<times> block set \<Rightarrow> bool" where
  alloc: "\<lbrakk>0 < sint sz; sint sz \<le> 0x7FFFFFFC; malloc sys_sbrk sz h = Some (p, h'); p \<noteq> 0\<rbrakk> \<Longrightarrow>
    heap_step (h, al) (h', insert (p - 8, unat (blk_size (hm h') (p - 8))) al)"
| no_room: "\<lbrakk>0 < sint sz; sint sz \<le> 0x7FFFFFFC; malloc sys_sbrk sz h = Some (0, h')\<rbrakk> \<Longrightarrow> heap_step (h, al) (h', al)"
| give_back: "x \<in> al \<Longrightarrow> heap_step (h, al) (free (fst x + 8) h, al - {x})"
| store: "\<lbrakk>x \<in> al; in_payload a x\<rbrakk> \<Longrightarrow> heap_step (h, al) (h\<lparr>hm := (hm h)(a := v)\<rparr>, al)"

inductive_cases heap_stepE: "heap_step s s'"

definition heap_inv :: "kernel heap \<times> block set \<Rightarrow> bool" where
  "heap_inv s \<longleftrightarrow> (\<exists>fl. heap_ok (user_brk_off (os (fst s))) (snd s) fl (fst s)) \<and>
     unat (user_brk_off (os (fst s))) \<le> unat USER_STACK_GUARD_OFF"

definition heap_start :: "kernel heap \<Rightarrow> bool" where
  "heap_start h \<longleftrightarrow> free_list h = 0 \<and> user_brk_off (os h) \<noteq> 0 \<and> unat (user_brk_off (os h)) \<le> unat USER_STACK_GUARD_OFF"

lemma heap_start_inv: "heap_start h \<Longrightarrow> heap_inv (h, {})"
  by (auto simp: heap_start_def heap_inv_def heap_ok_def layout_defs intro!: exI [of _ "[]"])

lemma heap_step_inv:
  assumes "heap_step s s'" "heap_inv s"
  shows "heap_inv s'"
  using assms
proof (induction rule: heap_step.induct)
  case (alloc sz h p h' al)
  then obtain fl where i: "heap_ok (user_brk_off (os h)) al fl h" "unat (user_brk_off (os h)) \<le> unat USER_STACK_GUARD_OFF"
    by (auto simp: heap_inv_def)
  have b: "unat (user_brk_off (os h')) \<le> unat USER_STACK_GUARD_OFF" "alloc_ok (user_brk_off (os h')) (nat (sint sz)) al h (p, h')"
    using kheap.malloc_ok [OF i alloc(1,2)] alloc(3) by auto
  then obtain c n fl' where a: "p = c + 8" "heap_ok (user_brk_off (os h')) (insert (c, n) al) fl' h'" using alloc(4) by (auto simp: alloc_ok_def)
  have "blk_size (hm h') c = of_nat n" "n < 4294967296" using heap_okD [OF a(2), of "(c, n)"] by simp_all
  then have "unat (blk_size (hm h') (p - 8)) = n" by (simp add: a(1) unat_of_nat32)
  then show ?case using a b(1) by (auto simp: heap_inv_def)
next
  case (no_room sz h h' al)
  then obtain fl where i: "heap_ok (user_brk_off (os h)) al fl h" "unat (user_brk_off (os h)) \<le> unat USER_STACK_GUARD_OFF"
    by (auto simp: heap_inv_def)
  have r: "unat (user_brk_off (os h')) \<le> unat USER_STACK_GUARD_OFF" "alloc_ok (user_brk_off (os h')) (nat (sint sz)) al h (0, h')"
    using kheap.malloc_ok [OF i no_room(1,2)] no_room(3) by auto
  from alloc_ok_null [OF r(2)] show ?case using r(1) by (simp add: heap_inv_def)
next
  case (give_back x al h)
  then obtain fl where "heap_ok (user_brk_off (os h)) al fl h" by (auto simp: heap_inv_def)
  from free_ok(1,2) [OF this give_back(1) refl] show ?case using give_back by (auto simp: heap_inv_def)
next
  case (store x al a h v)
  then obtain fl where i: "heap_ok (user_brk_off (os h)) al fl h" by (auto simp: heap_inv_def)
  have "heap_ok (user_brk_off (os h)) al fl (h\<lparr>hm := (hm h)(a := v)\<rparr>)"
    by (rule payload_write_ok(1) [OF i store(1)]) (use store(2) in auto)
  then show ?case using store(3) by (auto simp: heap_inv_def)
qed

lemma heap_reach_inv: "heap_step\<^sup>*\<^sup>* s s' \<Longrightarrow> heap_inv s \<Longrightarrow> heap_inv s'"
  by (induction rule: rtranclp_induct) (auto intro: heap_step_inv)

text \<open>
  C26. The allocator is safe: after any sequence of allocations, frees and stores into live blocks, the
  chain from \<open>free_list\<close> is a finite list of distinct free blocks, none of them live; every block, free or
  live, carries its size and lies below the program break and so below the stack guard page; any two
  blocks are disjoint. A further request (of at most 0x7FFFFFFC bytes) always comes back: with the null pointer,
  \<open>ENOMEM\<close> and memory as it was, or with a block large enough that was not live and overlaps no live block,
  below the guard page, the contents of the live blocks kept.
\<close>

theorem heap_reachable_safe:
  assumes "heap_start h0" "heap_step\<^sup>*\<^sup>* (h0, {}) (h, al)" "0 < sint sz" "sint sz \<le> 0x7FFFFFFC"
  shows "\<exists>fl. chain (link (hm h)) (free_list h) fl \<and> distinct fl \<and> al \<inter> set fl = {} \<and>
    (\<forall>x \<in> al \<union> set fl. \<forall>y \<in> al \<union> set fl. x \<noteq> y \<longrightarrow> apart_blocks x y) \<and>
    (\<forall>x \<in> al \<union> set fl. unat (blk_size (hm h) (fst x)) = snd x \<and> unat (fst x) + 8 + snd x \<le> unat (user_brk_off (os h))) \<and>
    unat (user_brk_off (os h)) \<le> unat USER_STACK_GUARD_OFF \<and>
    (\<exists>p h'. malloc sys_sbrk sz h = Some (p, h') \<and>
      (if p = 0 then errno h' = ENOMEM \<and> hm h' = hm h
       else let n = unat (blk_size (hm h') (p - 8)) in
         nat (sint sz) \<le> n \<and> (p - 8, n) \<notin> al \<and> unat (p - 8) + 8 + n \<le> unat USER_STACK_GUARD_OFF \<and>
         (\<forall>x \<in> al. apart_blocks (p - 8, n) x \<and> (\<forall>a. in_payload a x \<longrightarrow> hm h' a = hm h a))))"
proof -
  have "heap_inv (h, al)" using heap_reach_inv [OF assms(2)] heap_start_inv [OF assms(1)] by simp
  then obtain fl where i: "heap_ok (user_brk_off (os h)) al fl h" "unat (user_brk_off (os h)) \<le> unat USER_STACK_GUARD_OFF"
    by (auto simp: heap_inv_def)
  have sz: "unat (blk_size (hm g) (fst x)) = snd x" if "heap_ok b s f g" "x \<in> s \<union> set f" for b s f x and g :: "kernel heap"
    using heap_okD(3,4) [OF that] by (simp add: unat_of_nat32)
  obtain p h' where m: "malloc sys_sbrk sz h = Some (p, h')" "alloc_ok (user_brk_off (os h')) (nat (sint sz)) al h (p, h')"
    "unat (user_brk_off (os h')) \<le> unat USER_STACK_GUARD_OFF" "p = 0 \<longrightarrow> errno h' = ENOMEM"
    using kheap.malloc_ok [OF i assms(3,4)] by auto
  have "if p = 0 then errno h' = ENOMEM \<and> hm h' = hm h
       else let n = unat (blk_size (hm h') (p - 8)) in
         nat (sint sz) \<le> n \<and> (p - 8, n) \<notin> al \<and> unat (p - 8) + 8 + n \<le> unat USER_STACK_GUARD_OFF \<and>
         (\<forall>x \<in> al. apart_blocks (p - 8, n) x \<and> (\<forall>a. in_payload a x \<longrightarrow> hm h' a = hm h a))"
  proof (cases "p = 0")
    case True
    then show ?thesis using m(2,4) alloc_ok_null [of "user_brk_off (os h')" "nat (sint sz)" al h h'] by simp
  next
    case False
    then obtain b n f where a: "p = b + 8" "nat (sint sz) \<le> n" "(b, n) \<notin> al" "heap_ok (user_brk_off (os h')) (insert (b, n) al) f h'"
      "\<forall>x \<in> al. \<forall>a. in_payload a x \<longrightarrow> hm h' a = hm h a"
      using m(2) by (auto simp: alloc_ok_def)
    have "unat (blk_size (hm h') b) = n" using sz [OF a(4), of "(b, n)"] by simp
    moreover have "unat b + 8 + n \<le> unat USER_STACK_GUARD_OFF" using heap_okD(2) [OF a(4), of "(b, n)"] m(3) by simp
    moreover have "apart_blocks (b, n) x" if "x \<in> al" for x by (rule heap_apart [OF a(4)]) (use that a(3) in auto)
    ultimately show ?thesis using False a(1,2,3,5) by (simp add: Let_def)
  qed
  moreover have "chain (link (hm h)) (free_list h) fl \<and> distinct fl \<and> al \<inter> set fl = {}" using i(1) by (simp add: heap_ok_def)
  ultimately show ?thesis
    using i(2) m(1) heap_apart [OF i(1)] sz [OF i(1)] heap_okD(2) [OF i(1)] by (intro exI [of _ fl]) blast
qed

text \<open>
  C27. \<open>realloc\<close> keeps the contents: for a live block it returns, and unless it fails - leaving the heap as
  it was - the new block has the requested size, starts with the bytes of the old one up to the shorter
  of the two, replaces it among the live blocks, and no other live block changes.
\<close>

theorem realloc_keeps:
  assumes "heap_ok (user_brk_off (os h)) al fl h" "unat (user_brk_off (os h)) \<le> unat USER_STACK_GUARD_OFF" "x \<in> al"
    "sint sz \<le> 0x7FFFFFFC"
  shows "\<exists>p h' y al' fl'. realloc sys_sbrk (fst x + 8) sz h = Some (p, h') \<and>
    heap_ok (user_brk_off (os h')) al' fl' h' \<and> (\<forall>z \<in> al - {x}. \<forall>a. in_payload a z \<longrightarrow> hm h' a = hm h a) \<and>
    (if p = 0 then al' = al \<and> hm h' = hm h
     else p = fst y + 8 \<and> y \<in> al' \<and> al' - {y} = al - {x} \<and> nat (sint sz) \<le> snd y \<and>
       (\<forall>i < min (snd x) (snd y). hm h' (p + of_nat i) = hm h (fst x + 8 + of_nat i)))"
  using kheap.realloc_ok [OF assms] by (elim exE conjE) (intro exI conjI; assumption)

text \<open>
  A request of more than 0x7FFFFFFC bytes is rounded up to a negative number, which every free block
  exceeds: the first block of the free list is handed out, whatever its size.
\<close>

lemma malloc_huge_undersized:
  assumes "heap_ok brk al ((b, n) # fl) h"
  shows "malloc sbrk 0x7FFFFFFF h = Some (b + 8, h\<lparr>free_list := blk_next (hm h) b\<rparr>)"
proof -
  have f: "free_list h = b" "b \<noteq> 0" using assms heap_okD(1) [OF assms, of "(b, n)"] by (simp_all add: heap_ok_def)
  have w: "want_of 0x7FFFFFFF = 0x80000000" by (simp add: want_of_def)
  have "sint (0x80000000 :: u32) \<le> sint (blk_size (hm h) b)" using sint_ge [of "blk_size (hm h) b"] by simp
  then have "find_fit (want_of 0x7FFFFFFF) h None = Some (None, b)" using f by (subst find_fit.simps) (simp add: get_link_def w)
  then show ?thesis using f by (simp add: malloc_def Let_def set_link_def)
qed

subsection \<open>An example\<close>

definition demo_heap :: "kernel heap" where
  "demo_heap = \<lparr>hm = (\<lambda>_. 0), free_list = 0, errno = 0, os = demo_kernel\<lparr>user_brk_off := 0x1008\<rparr>\<rparr>"

definition demo_heap1 :: "kernel heap" where
  "demo_heap1 = demo_heap\<lparr>os := demo_kernel\<lparr>user_brk_off := 0x101C\<rparr>, hm := wr32 (wr32 (\<lambda>_. 0) 0x1008 12) 0x100C 0\<rparr>"

lemma demo_malloc: "malloc sys_sbrk 10 demo_heap = Some (0x1010, demo_heap1)"
proof -
  have "find_fit 12 demo_heap None = Some (None, 0)" by (subst find_fit.simps) (simp add: get_link_def demo_heap_def)
  moreover have "sys_sbrk 20 (demo_kernel\<lparr>user_brk_off := 0x1008\<rparr>) = (0x1008, demo_kernel\<lparr>user_brk_off := 0x101C\<rparr>)"
    by (simp add: sys_sbrk_def Let_def layout_defs)
  moreover have "want_of 10 = 12" by (simp add: want_of_def)
  ultimately show ?thesis by (simp add: malloc_def Let_def demo_heap1_def) (simp add: demo_heap_def)
qed

lemma demo_block: "blk_size (hm demo_heap1) 0x1008 = 12"
  using rd32_wr32_other [of "0x100C" "0x1008" "wr32 (\<lambda>_. 0) 0x1008 12" 0] by (simp add: demo_heap1_def blk_size_def)

lemma demo_heap_step: "heap_step (demo_heap, {}) (demo_heap1, {(0x1008, 12)})"
  using heap_step.alloc [OF _ _ demo_malloc] by (simp add: demo_block)

lemma demo_heap_start: "heap_start demo_heap"
  by (simp add: heap_start_def demo_heap_def layout_defs)

theorem heap_reachable_safe_witness:
  "heap_step\<^sup>*\<^sup>* (demo_heap, {}) (demo_heap1, {(0x1008, 12)}) \<and> unat (blk_size (hm demo_heap1) 0x1008) = 12 \<and>
   (\<exists>p h'. malloc sys_sbrk 100 demo_heap1 = Some (p, h') \<and>
     (p = 0 \<or> apart_blocks (p - 8, unat (blk_size (hm h') (p - 8))) (0x1008, 12)))"
proof -
  note r = r_into_rtranclp [of heap_step, OF demo_heap_step]
  have "\<exists>p h'. malloc sys_sbrk 100 demo_heap1 = Some (p, h') \<and>
     (p = 0 \<or> apart_blocks (p - 8, unat (blk_size (hm h') (p - 8))) (0x1008, 12))"
    using heap_reachable_safe [OF demo_heap_start r, of 100] by (auto simp: Let_def split: if_splits)
  then show ?thesis using r demo_block by simp
qed

theorem realloc_keeps_witness: "\<exists>p h'. realloc sys_sbrk 0x1010 40 demo_heap1 = Some (p, h')"
proof -
  have "heap_inv (demo_heap1, {(0x1008, 12)})" using heap_step_inv [OF demo_heap_step heap_start_inv [OF demo_heap_start]] .
  then obtain fl where "heap_ok (user_brk_off (os demo_heap1)) {(0x1008, 12)} fl demo_heap1"
    "unat (user_brk_off (os demo_heap1)) \<le> unat USER_STACK_GUARD_OFF" by (auto simp: heap_inv_def)
  from realloc_keeps [OF this, of "(0x1008, 12)" 40] show ?thesis by auto
qed

end
