(* ===== verification/Format.thy ===== *)
theory Format
  imports StringLib "HOL-Library.Monad_Syntax"
begin

text \<open>
  Formatted input and output of the user library (fs/lib/stdio.c, and \<open>strtol\<close> of fs/lib/stdlib.c):
  reading and printing numbers, the \<open>printf\<close> family over one output sink that is either the console or a
  bounded buffer, and \<open>scanf\<close>. Strings that are read are the lists of their bytes; the end of the list is
  the terminating zero. The floating point unit is a parameter: what it makes of two operands, of a
  conversion and of the literals.
\<close>

subsection \<open>Characters and numbers\<close>

definition is_space :: "u8 \<Rightarrow> bool" where
  "is_space c \<longleftrightarrow> c = 0x20 \<or> c = 9 \<or> c = 10 \<or> c = 13 \<or> c = 11 \<or> c = 12"

definition is_digit :: "u8 \<Rightarrow> bool" where
  "is_digit c \<longleftrightarrow> \<not> sint c < 0x30 \<and> \<not> sint c > 0x39"

definition hex_val :: "u8 \<Rightarrow> int" where
  "hex_val c =
     (if sint c \<ge> 0x30 \<and> sint c \<le> 0x39 then sint c - 0x30
      else if sint c \<ge> 0x61 \<and> sint c \<le> 0x66 then sint c - 0x61 + 10
      else if sint c \<ge> 0x41 \<and> sint c \<le> 0x46 then sint c - 0x41 + 10
      else -1)"

definition skip_ws :: "u8 list \<Rightarrow> u8 list" where
  "skip_ws p = dropWhile is_space p"

text \<open>\<open>while (is_digit (*p)) v = v * 10 + (*p - '0')\<close>, on 32-bit values.\<close>

fun dec_value :: "u32 \<Rightarrow> u8 list \<Rightarrow> u32 \<times> u8 list" where
  "dec_value v [] = (v, [])"
| "dec_value v (c # p) = (if is_digit c then dec_value (v * 10 + (ucast c - 0x30)) p else (v, c # p))"

definition starts_digit :: "u8 list \<Rightarrow> bool" where
  "starts_digit p \<longleftrightarrow> p \<noteq> [] \<and> is_digit (hd p)"

definition sign_of :: "u8 list \<Rightarrow> bool \<times> u8 list" where
  "sign_of p = (if p \<noteq> [] \<and> hd p = 0x2B then (False, tl p) else if p \<noteq> [] \<and> hd p = 0x2D then (True, tl p) else (False, p))"

definition parse_int :: "u8 list \<Rightarrow> (u32 \<times> u8 list) option" where
  "parse_int pp =
     (let (neg, p) = sign_of (skip_ws pp) in
      if \<not> starts_digit p then None
      else let (v, p) = dec_value 0 p in Some (if neg then - v else v, p))"

definition parse_uint :: "u8 list \<Rightarrow> (u32 \<times> u8 list) option" where
  "parse_uint pp =
     (let p = skip_ws pp in
      if \<not> starts_digit p then None else Some (dec_value 0 p))"

fun hex_value :: "u32 \<Rightarrow> u8 list \<Rightarrow> u32 \<times> u8 list" where
  "hex_value v [] = (v, [])"
| "hex_value v (c # p) = (if hex_val c \<ge> 0 then hex_value (v * 16 + of_int (hex_val c)) p else (v, c # p))"

definition skip_0x :: "u8 list \<Rightarrow> u8 list" where
  "skip_0x p = (if arr_get p 0 = 0x30 \<and> (arr_get p 1 = 0x78 \<or> arr_get p 1 = 0x58) then drop 2 p else p)"

definition parse_hex :: "u8 list \<Rightarrow> (u32 \<times> u8 list) option" where
  "parse_hex pp =
     (let p = skip_0x (skip_ws pp) in
      if p = [] \<or> hex_val (hd p) < 0 then None else Some (hex_value 0 p))"

text \<open>\<open>strtol\<close>: value, rest of the input and whether \<open>errno\<close> is set; the rest is the input on an error.\<close>

definition digit_val :: "u8 \<Rightarrow> int" where
  "digit_val c =
     (if sint c \<ge> 0x30 \<and> sint c \<le> 0x39 then sint c - 0x30
      else if sint c \<ge> 0x61 \<and> sint c \<le> 0x7A then sint c - 0x61 + 10
      else if sint c \<ge> 0x41 \<and> sint c \<le> 0x5A then sint c - 0x41 + 10
      else -1)"

fun strtol_loop :: "int \<Rightarrow> u32 \<Rightarrow> bool \<Rightarrow> u8 list \<Rightarrow> u32 \<times> bool \<times> u8 list" where
  "strtol_loop base v anyd [] = (v, anyd, [])"
| "strtol_loop base v anyd (c # p) =
     (if digit_val c < 0 \<or> digit_val c \<ge> base then (v, anyd, c # p)
      else strtol_loop base (v * of_int base + of_int (digit_val c)) True p)"

definition strtol_base :: "int \<Rightarrow> u8 list \<Rightarrow> int \<times> u8 list" where
  "strtol_base base p =
     (let x = arr_get p 0 = 0x30 \<and> (arr_get p 1 = 0x78 \<or> arr_get p 1 = 0x58) in
      if base = 0 then (if x then (16, drop 2 p) else if arr_get p 0 = 0x30 then (8, tl p) else (10, p))
      else if base = 16 then (16, if x then drop 2 p else p)
      else (base, p))"

definition strtol :: "u8 list \<Rightarrow> int \<Rightarrow> u32 \<times> u8 list \<times> bool" where
  "strtol s base =
     (if base \<noteq> 0 \<and> (base < 2 \<or> base > 36) then (0, s, True)
      else
        let (neg, p) = sign_of (dropWhile is_space s);
            (base, p) = strtol_base base p;
            (v, anyd, p) = strtol_loop base 0 False p
        in if \<not> anyd then (0, s, True) else (if neg then - v else v, p, False))"

definition atoi :: "u8 list \<Rightarrow> u32" where
  "atoi s = fst (strtol s 10)"

subsection \<open>Digits\<close>

text \<open>The loops that fill the local array \<open>buf\<close>, least significant digit first.\<close>

function dec_rev :: "u32 \<Rightarrow> u8 list" where
  "dec_rev v = (if v = 0 then [] else (let q = v div 10; d = v - q * 10 in (0x30 + ucast d) # dec_rev q))"
  by pat_completeness auto

lemma div_smaller: "v \<noteq> 0 \<Longrightarrow> 1 < d \<Longrightarrow> d < 4294967296 \<Longrightarrow> unat (v div of_nat d :: u32) < unat v"
  by (simp add: unat_div unat_of_nat32 unat_gt_0)

termination dec_rev
  using div_smaller [of _ 10] by (relation "measure unat") simp_all

declare dec_rev.simps [simp del]

definition hex_char :: "bool \<Rightarrow> u32 \<Rightarrow> u8" where
  "hex_char upper d = (if d < 10 then 0x30 + ucast d else if upper then 0x41 + (ucast d - 10) else 0x61 + (ucast d - 10))"

function hex_rev :: "bool \<Rightarrow> u32 \<Rightarrow> u8 list" where
  "hex_rev upper v = (if v = 0 then [] else (let q = v div 16; d = v - q * 16 in hex_char upper d # hex_rev upper q))"
  by pat_completeness auto

termination hex_rev
  using div_smaller [of _ 16] by (relation "measure (unat \<circ> snd)") simp_all

declare hex_rev.simps [simp del]

text \<open>\<open>print_int\<close>, \<open>print_uint\<close> and \<open>print_hex\<close>: what they pass to \<open>putc\<close>. All three take a signed argument.\<close>

definition print_int :: "u32 \<Rightarrow> u8 list" where
  "print_int v =
     (if v = 0 then [0x30]
      else
        let (pre, v) = (if sint v < 0 then ([0x2D], - v) else ([], v))
        in pre @ (if sint v > 0 then rev (dec_rev v) else []))"

definition print_uint :: "u32 \<Rightarrow> u8 list" where
  "print_uint v = (if v = 0 then [0x30] else if sint v > 0 then rev (dec_rev v) else [])"

definition print_hex :: "u32 \<Rightarrow> u8 list" where
  "print_hex v = (if v = 0 then [0x30] else if sint v > 0 then rev (hex_rev False v) else [])"

subsection \<open>The output sink\<close>

record out =
  obuf :: u32
  omax :: u32
  olen :: u32
  omem :: mem
  oputs :: "u8 list"

definition out_ch :: "u8 \<Rightarrow> out \<Rightarrow> out" where
  "out_ch c o' =
     (let o' = (if obuf o' \<noteq> 0
               then (if sint (olen o' + 1) < sint (omax o') then o'\<lparr>omem := (omem o')(obuf o' + olen o' := c)\<rparr> else o')
               else o'\<lparr>oputs := oputs o' @ [c]\<rparr>)
      in o'\<lparr>olen := olen o' + 1\<rparr>)"

definition null_str :: "u8 list" where "null_str = [0x28, 0x6E, 0x75, 0x6C, 0x6C, 0x29]"

definition out_str :: "(u32 \<Rightarrow> u8 list) \<Rightarrow> u32 \<Rightarrow> out \<Rightarrow> out" where
  "out_str strs s o' = fold out_ch (if s = 0 then null_str else strs s) o'"

definition out_int :: "u32 \<Rightarrow> out \<Rightarrow> out" where
  "out_int v o' =
     (if v = 0 then out_ch 0x30 o'
      else
        let (o', v) = (if sint v < 0 then (out_ch 0x2D o', - v) else (o', v))
        in if sint v > 0 then fold out_ch (rev (dec_rev v)) o' else o')"

definition out_uint :: "u32 \<Rightarrow> out \<Rightarrow> out" where
  "out_uint v o' = (if v = 0 then out_ch 0x30 o' else fold out_ch (rev (dec_rev v)) o')"

definition out_hex :: "u32 \<Rightarrow> bool \<Rightarrow> out \<Rightarrow> out" where
  "out_hex v upper o' = (if v = 0 then out_ch 0x30 o' else fold out_ch (rev (hex_rev upper v)) o')"

subsection \<open>Floating point\<close>

text \<open>The unit and the literals the code uses; a \<open>float\<close> is its 32 bits.\<close>

record fpu =
  fadd :: "u32 \<Rightarrow> u32 \<Rightarrow> u32"
  fsub :: "u32 \<Rightarrow> u32 \<Rightarrow> u32"
  fmul :: "u32 \<Rightarrow> u32 \<Rightarrow> u32"
  fdiv :: "u32 \<Rightarrow> u32 \<Rightarrow> u32"
  fle :: "u32 \<Rightarrow> u32 \<Rightarrow> bool"
  flt :: "u32 \<Rightarrow> u32 \<Rightarrow> bool"
  feq :: "u32 \<Rightarrow> u32 \<Rightarrow> bool"
  f_of_int :: "u32 \<Rightarrow> u32"
  int_of_f :: "u32 \<Rightarrow> u32"
  lit_0 :: u32
  lit_half :: u32
  lit_1 :: u32
  lit_10 :: u32
  lit_1e9 :: u32
  lit_1em4 :: u32

definition is_nan :: "u32 \<Rightarrow> bool" where
  "is_nan b \<longleftrightarrow> b AND 0x7F800000 = 0x7F800000 \<and> b AND 0x007FFFFF \<noteq> 0"

definition is_inf :: "u32 \<Rightarrow> bool" where
  "is_inf b \<longleftrightarrow> b AND 0x7FFFFFFF = 0x7F800000"

definition is_neg :: "u32 \<Rightarrow> bool" where
  "is_neg b \<longleftrightarrow> b AND 0x80000000 \<noteq> 0"

definition u32_to_buf :: "u32 \<Rightarrow> u8 list" where
  "u32_to_buf v = (if v = 0 then [0x30] else rev (dec_rev v))"

text \<open>\<open>r = 0.5\<close> divided by ten \<open>prec\<close> times.\<close>

definition half_unit :: "fpu \<Rightarrow> nat \<Rightarrow> u32" where
  "half_unit f prec = ((\<lambda>r. fdiv f r (lit_10 f)) ^^ prec) (lit_half f)"

fun frac_digits :: "fpu \<Rightarrow> nat \<Rightarrow> u32 \<Rightarrow> u8 list" where
  "frac_digits f 0 frac = []"
| "frac_digits f (Suc n) frac =
     (let frac = fmul f frac (lit_10 f);
          d = int_of_f f frac;
          d = (if sint d < 0 then 0 else d);
          d = (if sint d > 9 then 9 else d)
      in (0x30 + ucast d) # frac_digits f n (fsub f frac (f_of_int f d)))"

definition strip_zeros :: "u8 list \<Rightarrow> u8 list" where
  "strip_zeros t =
     (let t = rev (dropWhile (\<lambda>c. c = 0x30) (rev t)) in if t \<noteq> [] \<and> last t = 0x2E then butlast t else t)"

definition nan_str :: "u8 list" where "nan_str = [0x6E, 0x61, 0x6E]"
definition inf_str :: "u8 list" where "inf_str = [0x69, 0x6E, 0x66]"

text \<open>The characters the code writes into \<open>out\<close>, from the front.\<close>

definition float_fixed :: "fpu \<Rightarrow> u32 \<Rightarrow> nat \<Rightarrow> bool \<Rightarrow> u8 list" where
  "float_fixed f v prec strip =
     (if is_nan v then nan_str
      else
        let (pre, v) = (if is_neg v then ([0x2D], fsub f (lit_0 f) v) else ([], v)) in
        if is_inf v then pre @ inf_str
        else
          let v = fadd f v (half_unit f prec);
              ip = int_of_f f v;
              frac = fsub f v (f_of_int f ip);
              t = pre @ u32_to_buf ip @ (if prec > 0 then 0x2E # frac_digits f prec frac else [])
          in if strip \<and> prec > 0 then strip_zeros t else t)"

text \<open>Bringing the value into [1, 10); \<open>None\<close> when the unit never gets there.\<close>

partial_function (option) scale_down :: "fpu \<Rightarrow> u32 \<Rightarrow> u32 \<Rightarrow> (u32 \<times> u32) option" where
  "scale_down f v e = (if fle f (lit_10 f) v then scale_down f (fdiv f v (lit_10 f)) (e + 1) else Some (v, e))"

partial_function (option) scale_up :: "fpu \<Rightarrow> u32 \<Rightarrow> u32 \<Rightarrow> (u32 \<times> u32) option" where
  "scale_up f v e = (if flt f v (lit_1 f) then scale_up f (fmul f v (lit_10 f)) (e - 1) else Some (v, e))"

definition float_exp :: "fpu \<Rightarrow> u32 \<Rightarrow> nat \<Rightarrow> bool \<Rightarrow> u8 list option" where
  "float_exp f v prec strip =
     (if is_nan v then Some nan_str
      else
        let (pre, v) = (if is_neg v then ([0x2D], fsub f (lit_0 f) v) else ([], v)) in
        if is_inf v then Some (pre @ inf_str)
        else do {
          (v, e) \<leftarrow> (if \<not> feq f v (lit_0 f)
                    then do {
                      (v, e) \<leftarrow> scale_down f v 0;
                      (v, e) \<leftarrow> scale_up f v e;
                      Some (if fle f (lit_10 f) (fadd f v (half_unit f prec)) then (fdiv f v (lit_10 f), e + 1) else (v, e)) }
                    else Some (v, 0));
          let t = pre @ float_fixed f v prec strip @ [0x65];
          let (sg, e) = (if sint e < 0 then (0x2D, 0 - e) else (0x2B, e));
          Some (t @ [sg] @ (if sint e < 10 then [0x30] else []) @ u32_to_buf e)
        })"

definition float_f_text :: "fpu \<Rightarrow> u32 \<Rightarrow> nat \<Rightarrow> u8 list option" where
  "float_f_text f v prec =
     (let a = (if is_neg v then fsub f (lit_0 f) v else v) in
      if is_nan a \<or> is_inf a \<or> \<not> feq f a (lit_0 f) \<and> (fle f (lit_1e9 f) a \<or> flt f a (lit_1em4 f))
      then float_exp f v prec False
      else Some (float_fixed f v prec False))"

definition out_float_f :: "fpu \<Rightarrow> u32 \<Rightarrow> nat \<Rightarrow> out \<Rightarrow> out option" where
  "out_float_f f v prec o' = do { t \<leftarrow> float_f_text f v prec; Some (fold out_ch t o') }"

definition float_g_text :: "fpu \<Rightarrow> u32 \<Rightarrow> nat \<Rightarrow> u8 list option" where
  "float_g_text f v prec =
     (let prec = (if prec = 0 then 6 else prec);
          a = (if is_neg v then fsub f (lit_0 f) v else v)
      in if is_nan a \<or> is_inf a then float_exp f v (prec - 1) True
         else do {
           e \<leftarrow> (if \<not> feq f a (lit_0 f)
                then do {
                  (a, e) \<leftarrow> scale_down f a 0;
                  (a, e) \<leftarrow> scale_up f a e;
                  Some (if fle f (lit_10 f) (fadd f a (half_unit f (prec - 1))) then e + 1 else e) }
                else Some 0);
           if sint e < -4 \<or> sint e \<ge> int prec \<or> sint e \<ge> 9 then float_exp f v (prec - 1) True
           else Some (float_fixed f v (nat (int prec - 1 - sint e)) True)
         })"

definition out_float_g :: "fpu \<Rightarrow> u32 \<Rightarrow> nat \<Rightarrow> out \<Rightarrow> out option" where
  "out_float_g f v prec o' = do { t \<leftarrow> float_g_text f v prec; Some (fold out_ch t o') }"

subsection \<open>printf\<close>

text \<open>
  \<open>ap\<close> gives the words of the argument list, \<open>strs\<close> the string a pointer leads to. \<open>None\<close>: a floating
  point loop does not end.
\<close>

fun prec_value :: "u32 \<Rightarrow> u8 list \<Rightarrow> u32 \<times> u8 list" where
  "prec_value v [] = (v, [])"
| "prec_value v (c # p) =
     (if sint c \<ge> 0x30 \<and> sint c \<le> 0x39 then prec_value (v * 10 + (ucast c - 0x30)) p else (v, c # p))"

definition get_prec :: "u8 list \<Rightarrow> int \<times> u8 list" where
  "get_prec fmt =
     (if fmt \<noteq> [] \<and> hd fmt = 0x2E
      then let (v, p) = prec_value 0 (tl fmt) in (if sint v > 17 then 17 else sint v, p)
      else (-1, fmt))"

definition eff_prec :: "int \<Rightarrow> nat" where
  "eff_prec prec = nat (if prec < 0 then 6 else prec)"

lemma prec_value_shorter: "length (snd (prec_value v p)) \<le> length p"
  by (induction v p rule: prec_value.induct) (simp_all add: le_Suc_eq)

lemma get_prec_shorter: "length (snd (get_prec p)) \<le> length p"
  using prec_value_shorter [of 0 "tl p"] by (auto simp: get_prec_def case_prod_beta)

lemma get_prec_rest: "(x, d # r) = get_prec p \<Longrightarrow> length r < Suc (length p)"
  using get_prec_shorter [of p] by (simp flip: less_Suc_eq_le) (metis Suc_leD length_Cons less_Suc_eq_le snd_conv)

function vformat_ap :: "fpu \<Rightarrow> (u32 \<Rightarrow> u8 list) \<Rightarrow> u8 list \<Rightarrow> (nat \<Rightarrow> u32) \<Rightarrow> nat \<Rightarrow> out \<Rightarrow> out option" where
  "vformat_ap f strs fmt ap i o' =
     (case fmt of [] \<Rightarrow> Some o'
      | c # fmt \<Rightarrow>
        if c \<noteq> 0x25 then vformat_ap f strs fmt ap i (out_ch c o')
        else if fmt \<noteq> [] \<and> hd fmt = 0x25 then vformat_ap f strs (tl fmt) ap i (out_ch 0x25 o')
        else
          case get_prec fmt of (prec, fmt) \<Rightarrow>
          case fmt of [] \<Rightarrow> Some (out_ch 0x25 o')
          | d # fmt \<Rightarrow>
            if d = 0x66 \<or> d = 0x46 then do { o' \<leftarrow> out_float_f f (ap i) (eff_prec prec) o'; vformat_ap f strs fmt ap (i + 1) o' }
            else if d = 0x67 \<or> d = 0x47 then do { o' \<leftarrow> out_float_g f (ap i) (eff_prec prec) o'; vformat_ap f strs fmt ap (i + 1) o' }
            else if d = 0x64 then vformat_ap f strs fmt ap (i + 1) (out_int (ap i) o')
            else if d = 0x75 then vformat_ap f strs fmt ap (i + 1) (out_uint (ap i) o')
            else if d = 0x78 then vformat_ap f strs fmt ap (i + 1) (out_hex (ap i) False o')
            else if d = 0x58 then vformat_ap f strs fmt ap (i + 1) (out_hex (ap i) True o')
            else if d = 0x63 then vformat_ap f strs fmt ap (i + 1) (out_ch (ucast (ap i)) o')
            else if d = 0x73 then vformat_ap f strs fmt ap (i + 1) (out_str strs (ap i) o')
            else vformat_ap f strs fmt ap i (out_ch d (out_ch 0x25 o')))"
  by pat_completeness auto

termination vformat_ap
  by (relation "measure (\<lambda>(f, strs, fmt, ap, i, o'). length fmt)") (simp_all add: get_prec_rest)

declare vformat_ap.simps [simp del]

text \<open>The zero that \<open>vsnprintf\<close> and \<open>snprintf\<close> put after the text.\<close>

definition terminate_buf :: "out \<Rightarrow> out" where
  "terminate_buf o' =
     (if obuf o' \<noteq> 0 \<and> sint (omax o') > 0
      then
        let n = olen o';
            n = (if sint n > sint (omax o' - 1) then omax o' - 1 else n);
            n = (if sint n < 0 then 0 else n)
        in o'\<lparr>omem := (omem o')(obuf o' + n := 0)\<rparr>
      else o')"

definition vsnprintf :: "fpu \<Rightarrow> (u32 \<Rightarrow> u8 list) \<Rightarrow> u32 \<Rightarrow> u32 \<Rightarrow> u8 list \<Rightarrow> (nat \<Rightarrow> u32) \<Rightarrow> mem \<Rightarrow> (u32 \<times> out) option" where
  "vsnprintf f strs buf mx fmt ap m = do {
     o' \<leftarrow> vformat_ap f strs fmt ap 0 \<lparr>obuf = buf, omax = mx, olen = 0, omem = m, oputs = []\<rparr>;
     let o' = terminate_buf o';
     Some (olen o', o') }"

text \<open>\<open>snprintf\<close> takes its arguments from the words after \<open>fmt\<close> on the stack.\<close>

definition snprintf :: "fpu \<Rightarrow> (u32 \<Rightarrow> u8 list) \<Rightarrow> u32 \<Rightarrow> u32 \<Rightarrow> u8 list \<Rightarrow> (nat \<Rightarrow> u32) \<Rightarrow> mem \<Rightarrow> (u32 \<times> out) option" where
  "snprintf f strs buf mx fmt ap m = do {
     o' \<leftarrow> vformat_ap f strs fmt ap 0 \<lparr>obuf = buf, omax = mx, olen = 0, omem = m, oputs = []\<rparr>;
     let o' = terminate_buf o';
     Some (olen o', o') }"

definition printf :: "fpu \<Rightarrow> (u32 \<Rightarrow> u8 list) \<Rightarrow> u8 list \<Rightarrow> (nat \<Rightarrow> u32) \<Rightarrow> mem \<Rightarrow> (u32 \<times> u8 list) option" where
  "printf f strs fmt ap m = do {
     o' \<leftarrow> vformat_ap f strs fmt ap 0 \<lparr>obuf = 0, omax = 0, olen = 0, omem = m, oputs = []\<rparr>;
     Some (olen o', oputs o') }"

subsection \<open>scanf\<close>

text \<open>\<open>parse_float\<close>: the digits before and after the point, the exponent.\<close>

fun float_int :: "fpu \<Rightarrow> u32 \<Rightarrow> bool \<Rightarrow> u8 list \<Rightarrow> u32 \<times> bool \<times> u8 list" where
  "float_int f v anyd [] = (v, anyd, [])"
| "float_int f v anyd (c # p) =
     (if is_digit c then float_int f (fadd f (fmul f v (lit_10 f)) (f_of_int f (ucast c - 0x30))) True p else (v, anyd, c # p))"

fun float_frac :: "u32 \<Rightarrow> nat \<Rightarrow> bool \<Rightarrow> u8 list \<Rightarrow> u32 \<times> nat \<times> bool \<times> u8 list" where
  "float_frac fi fn anyd [] = (fi, fn, anyd, [])"
| "float_frac fi fn anyd (c # p) =
     (if is_digit c
      then (if fn < 9 then float_frac (fi * 10 + (ucast c - 0x30)) (fn + 1) True p else float_frac fi fn True p)
      else (fi, fn, anyd, c # p))"

definition float_expo :: "fpu \<Rightarrow> u32 \<Rightarrow> u8 list \<Rightarrow> u32 \<times> u8 list" where
  "float_expo f v p =
     (if p \<noteq> [] \<and> (hd p = 0x65 \<or> hd p = 0x45)
      then
        let (eneg, q) = sign_of (tl p) in
        if starts_digit q
        then
          let (ev, q) = dec_value 0 q;
              n = (if sint ev > 60 then 60 else nat (sint ev))
          in (((\<lambda>v. if eneg then fdiv f v (lit_10 f) else fmul f v (lit_10 f)) ^^ n) v, q)
        else (v, p)
      else (v, p))"

definition parse_float :: "fpu \<Rightarrow> u8 list \<Rightarrow> (u32 \<times> u8 list) option" where
  "parse_float f pp =
     (let (neg, p) = sign_of (skip_ws pp);
          (v, anyd, p) = float_int f (lit_0 f) False p;
          (fi, fn, anyd, p) = (if p \<noteq> [] \<and> hd p = 0x2E then float_frac 0 0 anyd (tl p) else (0, 0, anyd, p))
      in if \<not> anyd then None
         else
           let v = (if fn > 0 then fadd f v (fdiv f (f_of_int f fi) (((\<lambda>d. fmul f d (lit_10 f)) ^^ fn) (lit_1 f))) else v);
               (v, p) = float_expo f v p
           in Some (if neg then fsub f (lit_0 f) v else v, p))"

text \<open>What a conversion stores where its argument points to.\<close>

datatype scan_store = SWord u32 u32 | SChar u32 u8 | SStr u32 "u8 list"

text \<open>Lines are read until one is not blank; \<open>None\<close>: no such line comes.\<close>

fun scan_line :: "u8 list list \<Rightarrow> u8 list option" where
  "scan_line [] = None"
| "scan_line (l # ls) = (if l = [] then scan_line ls else if skip_ws l = [] then scan_line ls else Some l)"

text \<open>One conversion: \<open>None\<close> when it fails and the loop is left.\<close>

definition scan_conv :: "fpu \<Rightarrow> u8 \<Rightarrow> u32 \<Rightarrow> u8 list \<Rightarrow> (scan_store \<times> u8 list) option" where
  "scan_conv f d a p =
     (if d = 0x66 \<or> d = 0x65 \<or> d = 0x45 \<or> d = 0x67 \<or> d = 0x47 then map_option (\<lambda>(v, p). (SWord a v, p)) (parse_float f p)
      else if d = 0x64 then map_option (\<lambda>(v, p). (SWord a v, p)) (parse_int p)
      else if d = 0x75 then map_option (\<lambda>(v, p). (SWord a v, p)) (parse_uint p)
      else if d = 0x78 \<or> d = 0x58 then map_option (\<lambda>(v, p). (SWord a v, p)) (parse_hex p)
      else if d = 0x63 then (if p = [] then None else Some (SChar a (hd p), tl p))
      else if d = 0x73
      then (let p = skip_ws p in
            if p = [] then None else Some (SStr a (takeWhile (\<lambda>c. \<not> is_space c) p @ [0]), dropWhile (\<lambda>c. \<not> is_space c) p))
      else None)"

definition skip_l :: "u8 list \<Rightarrow> u8 list" where
  "skip_l fmt = (if fmt \<noteq> [] \<and> hd fmt = 0x6C then tl fmt else fmt)"

function scan_loop :: "fpu \<Rightarrow> u8 list \<Rightarrow> u8 list \<Rightarrow> (nat \<Rightarrow> u32) \<Rightarrow> nat \<Rightarrow> scan_store list" where
  "scan_loop f fmt p ap i =
     (case fmt of [] \<Rightarrow> []
      | c # fmt' \<Rightarrow>
        if is_space c then scan_loop f (dropWhile is_space fmt') (skip_ws p) ap i
        else if c \<noteq> 0x25 then (if p = [] \<or> hd p \<noteq> c then [] else scan_loop f fmt' (tl p) ap i)
        else if fmt' \<noteq> [] \<and> hd fmt' = 0x25
        then (if p = [] \<or> hd p \<noteq> 0x25 then [] else scan_loop f (tl fmt') (tl p) ap i)
        else case skip_l fmt' of [] \<Rightarrow> []
             | d # fmt'' \<Rightarrow>
               (case scan_conv f d (ap i) p of None \<Rightarrow> [] | Some (st, p) \<Rightarrow> st # scan_loop f fmt'' p ap (i + 1)))"
  by pat_completeness auto

lemma skip_l_rest: "skip_l p = d # r \<Longrightarrow> length r < Suc (length p)"
  by (cases p) (auto simp: skip_l_def split: if_splits)

termination scan_loop
  by (relation "measure (\<lambda>(f, fmt, p, ap, i). length fmt)")
     (simp_all add: skip_l_rest le_imp_less_Suc length_dropWhile_le)

declare scan_loop.simps [simp del]

definition scanf :: "fpu \<Rightarrow> u8 list \<Rightarrow> (nat \<Rightarrow> u32) \<Rightarrow> u8 list list \<Rightarrow> (nat \<times> scan_store list) option" where
  "scanf f fmt ap ls = do { buf \<leftarrow> scan_line ls; let st = scan_loop f fmt buf ap 0; Some (length st, st) }"

subsection \<open>Printing and reading a number\<close>

lemma last_digit: "unat (v - v div 10 * 10 :: u32) = unat v mod 10" "v div 10 * 10 + (v - v div 10 * 10) = v"
proof -
  have le: "unat v div 10 * 10 \<le> unat v" by simp
  have m: "unat (v div 10 * 10) = unat v div 10 * 10"
    using le_less_trans [OF le unat_lt_2_32] by (simp add: unat_word_ariths unat_div)
  have "unat (v - v div 10 * 10) = unat v - unat (v div 10 * 10)" using le m by (intro unat_minus) simp
  then show "unat (v - v div 10 * 10) = unat v mod 10" unfolding m by (simp add: minus_div_mult_eq_mod)
qed simp

lemma digit_char:
  assumes "unat (d :: u32) < 10"
  shows "is_digit (0x30 + ucast d)" "ucast (0x30 + ucast d :: u8) - 0x30 = d" "digit_val (0x30 + ucast d) = int (unat d)"
    "0x30 + ucast d \<noteq> (0x2D :: u8)" "0x30 + ucast d \<noteq> (0x2B :: u8)" "\<not> is_space (0x30 + ucast d)"
proof -
  obtain n where n: "unat d = n" "n < 10" using assms by blast
  then have d: "d = of_nat n" by auto
  have "n \<in> {0,1,2,3,4,5,6,7,8,9}" using n(2) by auto
  then show "is_digit (0x30 + ucast d)" "ucast (0x30 + ucast d :: u8) - 0x30 = d" "digit_val (0x30 + ucast d) = int (unat d)"
    "0x30 + ucast d \<noteq> (0x2D :: u8)" "0x30 + ucast d \<noteq> (0x2B :: u8)" "\<not> is_space (0x30 + ucast d)"
    unfolding d by (auto simp: is_digit_def digit_val_def is_space_def)
qed

lemma dec_rev_step:
  "v \<noteq> 0 \<Longrightarrow> rev (dec_rev v) = rev (dec_rev (v div 10)) @ [0x30 + ucast (v - v div 10 * 10)]"
  by (subst dec_rev.simps) (simp add: Let_def)

lemma dec_value_print: "dec_value 0 (rev (dec_rev v) @ ys) = dec_value v ys"
proof (induction v arbitrary: ys rule: dec_rev.induct)
  case (1 v)
  show ?case
  proof (cases "v = 0")
    case True
    then show ?thesis by (simp add: dec_rev.simps)
  next
    case False
    define d where "d = v - v div 10 * 10"
    have "unat d < 10" using last_digit(1) [of v] by (simp add: d_def)
    note D = digit_char [OF this]
    have "dec_value 0 (rev (dec_rev v) @ ys) = dec_value (v div 10) ((0x30 + ucast d) # ys)"
      using 1 [OF False refl refl] by (simp add: dec_rev_step [OF False] d_def)
    also have "\<dots> = dec_value (v div 10 * 10 + d) ys" using D(1,2) by simp
    finally show ?thesis by (simp add: d_def)
  qed
qed

lemma dec_rev_first: "v \<noteq> 0 \<Longrightarrow> \<exists>d xs. rev (dec_rev v) = (0x30 + ucast d) # xs \<and> unat (d :: u32) < 10"
proof (induction v rule: dec_rev.induct)
  case (1 v)
  have d: "unat (v - v div 10 * 10) < 10" using last_digit(1) [of v] by simp
  show ?case
  proof (cases "v div 10 = 0")
    case True
    then show ?thesis using d by (subst dec_rev_step [OF 1(2)]) (auto simp: dec_rev.simps [of 0])
  next
    case False
    then obtain e xs where "rev (dec_rev (v div 10)) = (0x30 + ucast e) # xs" "unat (e :: u32) < 10" using 1(1) [OF 1(2) refl refl] by blast
    then show ?thesis by (subst dec_rev_step [OF 1(2)]) auto
  qed
qed

lemma length_dec_rev: "length (dec_rev v) \<le> 10"
proof -
  have "10 ^ (length (dec_rev v) - 1) \<le> unat v" if "v \<noteq> 0" for v
    using that
  proof (induction v rule: dec_rev.induct)
    case (1 v)
    show ?case
    proof (cases "v div 10 = 0")
      case True
      then have "length (dec_rev v) = 1" using 1(2) by (subst dec_rev.simps) (simp add: Let_def dec_rev.simps [of 0])
      then show ?thesis using 1(2) by (simp add: Suc_leI unat_gt_0)
    next
      case False
      have l: "length (dec_rev v) = Suc (length (dec_rev (v div 10)))" using 1(2) by (subst dec_rev.simps) (simp add: Let_def)
      have p: "0 < length (dec_rev (v div 10))" using dec_rev_first [OF False] by auto
      have "10 ^ (length (dec_rev (v div 10)) - 1) \<le> unat v div 10" using 1(1) [OF 1(2) refl refl False] by (simp add: unat_div)
      then have "10 ^ (length (dec_rev (v div 10)) - 1) * 10 \<le> unat v" by (simp add: less_eq_div_iff_mult_less_eq)
      then show ?thesis using l p by (cases "length (dec_rev (v div 10))") (simp_all add: mult.commute)
    qed
  qed
  note b = le_less_trans [OF this unat_lt_2_32]
  have "length (dec_rev v) \<le> 10" if "v \<noteq> 0"
  proof -
    have "(4294967296 :: nat) < 10 ^ 10" by simp
    with b [OF that] have "(10 :: nat) ^ (length (dec_rev v) - 1) < 10 ^ 10" by (rule order_less_trans)
    then have "length (dec_rev v) - 1 < 10" by (rule power_less_imp_less_exp [rotated]) simp
    then show ?thesis by linarith
  qed
  moreover have "dec_rev 0 = []" by (simp add: dec_rev.simps)
  ultimately show ?thesis by (cases "v = 0") simp_all
qed

lemma sint_pos: "0 < sint (v :: u32) \<longleftrightarrow> v \<noteq> 0 \<and> unat v < 0x80000000"
proof (cases "unat v < 0x80000000")
  case True
  then show ?thesis using unat_gt_0 [of v] by (auto simp: sint_unat simp del: of_nat_unat)
next
  case False
  then have "sint v = int (unat v) - 0x100000000" by (simp only: sint_unat if_False)
  then show ?thesis using False unat_lt_2_32 [of v] by linarith
qed

lemma sint_neg: "sint (v :: u32) < 0 \<longleftrightarrow> \<not> unat v < 0x80000000"
proof (cases "unat v < 0x80000000")
  case False
  then have "sint v = int (unat v) - 0x100000000" by (simp only: sint_unat if_False)
  then show ?thesis using False unat_lt_2_32 [of v] by linarith
qed (simp add: sint_unat)

lemma unat_uminus: "v \<noteq> 0 \<Longrightarrow> unat (- v :: u32) = 4294967296 - unat v"
  using unat_sub_if_size [of 0 v] unat_gt_0 [of v] by (simp add: word_size)

text \<open>The text of a number: an optional sign and digits that read back as its absolute value.\<close>

lemma print_int_form:
  assumes "v \<noteq> 0x80000000"
  shows "\<exists>neg ds d xs w. print_int v = (if neg then [0x2D] else []) @ ds \<and> ds = (0x30 + ucast d) # xs \<and> unat (d :: u32) < 10 \<and>
    (\<forall>ys. dec_value 0 (ds @ ys) = dec_value w ys) \<and> v = (if neg then - w else w)"
proof -
  have pos: ?thesis if "v \<noteq> 0" "0 < sint v"
    using dec_rev_first [OF that(1)] dec_value_print [of v] that by (intro exI [of _ False]) (auto simp: print_int_def)
  have neg: ?thesis if "sint v < 0"
  proof -
    have u: "\<not> unat v < 0x80000000" "v \<noteq> 0" using that by (auto simp: sint_neg)
    have "unat v \<noteq> 0x80000000" using assms by (auto simp: word_unat_eq_iff)
    then have "0 < sint (- v)" "- v \<noteq> 0" using u unat_uminus [OF u(2)] unat_lt_2_32 [of v] by (auto simp: sint_pos)
    moreover from this(2) obtain d xs where "rev (dec_rev (- v)) = (0x30 + ucast d) # xs" "unat (d :: u32) < 10"
      using dec_rev_first by blast
    ultimately show ?thesis
      using dec_value_print [of "- v"] that u(2)
      by (intro exI [of _ True] exI [of _ "rev (dec_rev (- v))"] exI [of _ d] exI [of _ xs] exI [of _ "- v"])
         (simp add: print_int_def del: dec_value.simps)
  qed
  have zero: ?thesis if "v = 0"
    using that digit_char(1) [of 0] by (intro exI [of _ False] exI [of _ "[0x30]"] exI [of _ 0] exI [of _ "[]"] exI [of _ 0]) (simp add: print_int_def)
  show ?thesis using pos neg zero sint_pos [of v] sint_neg [of v] by blast
qed

text \<open>In base ten \<open>strtol\<close> runs the digit loop of \<open>parse_int\<close>.\<close>

lemma digit_val_10: "digit_val c < 0 \<or> digit_val c \<ge> 10 \<longleftrightarrow> \<not> is_digit c"
  by (auto simp: digit_val_def is_digit_def)

lemma digit_val_ucast:
  assumes "is_digit c"
  shows "of_int (digit_val c) = (ucast c - 0x30 :: u32)"
proof -
  have d: "0x30 \<le> sint c" "sint c \<le> 0x39" using assms by (simp_all add: is_digit_def)
  have "uint c = uint (of_int (sint c) :: u8)" by simp
  also have "\<dots> = sint c mod 256" by (simp only: uint_word_of_int) simp
  also have "\<dots> = sint c" using d by simp
  finally have "sint c = uint c" ..
  then have "(of_int (sint c) :: u32) = ucast c" by simp
  then show ?thesis using d by (simp add: digit_val_def)
qed

lemma strtol_loop_10: "strtol_loop 10 v anyd p = (fst (dec_value v p), anyd \<or> starts_digit p, snd (dec_value v p))"
proof (induction p arbitrary: v anyd)
  case (Cons c p)
  then show ?case using digit_val_10 [of c] digit_val_ucast [of c] by (cases "is_digit c") (auto simp: starts_digit_def)
qed (simp add: starts_digit_def)

lemma strtol_10: "strtol s 10 = (case parse_int s of None \<Rightarrow> (0, s, True) | Some (v, p) \<Rightarrow> (v, p, False))"
  by (simp add: strtol_def strtol_base_def parse_int_def skip_ws_def strtol_loop_10 Let_def split: prod.split)

text \<open>
  C30. Numbers survive printing and reading: for every value but the least one, what \<open>print_int\<close> prints -
  the text of a \<open>%d\<close> conversion too - is read back by \<open>parse_int\<close> (\<open>%d\<close> of \<open>scanf\<close>) and by \<open>strtol\<close> in base ten,
  both of which stop right after it with no error, and by \<open>atoi\<close>, whatever follows that is not a digit.
\<close>

theorem print_parse_int:
  assumes "v \<noteq> 0x80000000" "\<not> starts_digit ys"
  shows "parse_int (print_int v @ ys) = Some (v, ys) \<and> strtol (print_int v @ ys) 10 = (v, ys, False) \<and>
    atoi (print_int v @ ys) = v \<and> out_int v = fold out_ch (print_int v)"
proof -
  obtain neg ds d xs w where F: "print_int v = (if neg then [0x2D] else []) @ ds" "ds = (0x30 + ucast d) # xs" "unat (d :: u32) < 10"
    "\<And>ys. dec_value 0 (ds @ ys) = dec_value w ys" "v = (if neg then - w else w)" using print_int_form [OF assms(1)] by blast
  note D = digit_char [OF F(3)]
  have "dec_value w ys = (w, ys)" using assms(2) by (cases ys) (auto simp: starts_digit_def)
  then have e: "dec_value 0 (ds @ ys) = (w, ys)" using F(4) by simp
  have st: "starts_digit (ds @ ys)" using D(1) by (simp add: F(2) starts_digit_def)
  have "sign_of (skip_ws (print_int v @ ys)) = (neg, ds @ ys)"
    using D(4-6) by (cases neg) (simp_all add: F(1,2) sign_of_def skip_ws_def is_space_def)
  then have p: "parse_int (print_int v @ ys) = Some (v, ys)" using st e F(5) by (simp add: parse_int_def)
  have "out_int v = fold out_ch (print_int v)"
    by (rule ext) (simp add: out_int_def print_int_def)
  then show ?thesis using p by (simp add: strtol_10 atoi_def)
qed

theorem print_parse_int_witness:
  "parse_int (print_int (- 42) @ [0x2C]) = Some (- 42, [0x2C]) \<and> atoi (print_int (- 42) @ [0x2C]) = - 42 \<and>
   print_int (- 42) = [0x2D, 0x34, 0x32]"
proof -
  have "\<not> starts_digit [0x2C]" by (simp add: starts_digit_def is_digit_def)
  moreover have "print_int (- 42) = [0x2D, 0x34, 0x32]" by (simp add: print_int_def dec_rev.simps [of 42] dec_rev.simps [of 4] dec_rev.simps [of 0])
  ultimately show ?thesis using print_parse_int [of "- 42" "[0x2C]"] by simp
qed

text \<open>The least value has no positive counterpart: only its sign is printed.\<close>

lemma print_int_least: "print_int 0x80000000 = [0x2D]"
  by (simp add: print_int_def)

text \<open>\<open>print_uint\<close> and \<open>print_hex\<close> treat their argument as signed and print nothing for half of all values.\<close>

lemma print_uint_high: "\<not> unat v < 0x80000000 \<Longrightarrow> print_uint v = [] \<and> print_hex v = []"
  using sint_pos [of v] by (auto simp: print_uint_def print_hex_def)

end
