(* ===== verification/Printf.thy ===== *)
theory Printf
  imports Format
begin

text \<open>
  Properties of the \<open>printf\<close> family of fs/lib/stdio.c: the buffer functions hold the beginning of what the
  console function prints and never write outside their buffer, and the float formatters stay inside
  their 64 byte arrays.
\<close>

subsection \<open>The text of a format\<close>

text \<open>Whatever the sink, the same characters go to it.\<close>

definition emits :: "(out \<Rightarrow> out) \<Rightarrow> bool" where
  "emits g \<longleftrightarrow> (\<exists>t. \<forall>o'. g o' = fold out_ch t o')"

definition emits_opt :: "(out \<Rightarrow> out option) \<Rightarrow> bool" where
  "emits_opt g \<longleftrightarrow> (\<exists>t. \<forall>o'. g o' = Some (fold out_ch t o')) \<or> (\<forall>o'. g o' = None)"

lemma emits_out_ch: "emits (out_ch c)"
  unfolding emits_def by (rule exI [of _ "[c]"]) simp

lemma emits_fold: "emits (fold out_ch t)"
  unfolding emits_def by blast

lemma emits_numbers: "emits (out_int v)" "emits (out_uint v)" "emits (out_hex v u)" "emits (out_str strs v)"
proof -
  have i: "out_int v = fold out_ch (print_int v)" by (rule ext) (simp add: out_int_def print_int_def)
  have u: "out_uint v = fold out_ch (if v = 0 then [0x30] else rev (dec_rev v))" by (rule ext) (simp add: out_uint_def)
  have h: "out_hex v u = fold out_ch (if v = 0 then [0x30] else rev (hex_rev u v))" by (rule ext) (simp add: out_hex_def)
  have s: "out_str strs v = fold out_ch (if v = 0 then null_str else strs v)" by (rule ext) (simp add: out_str_def)
  show "emits (out_int v)" "emits (out_uint v)" "emits (out_hex v u)" "emits (out_str strs v)"
    unfolding i u h s by (rule emits_fold)+
qed

lemma emits_opt_Some: "emits_opt Some"
  unfolding emits_opt_def by (rule disjI1, rule exI [of _ "[]"]) simp

lemma emits_opt_Some_ch: "emits_opt (\<lambda>o'. Some (out_ch c o'))"
  unfolding emits_opt_def by (rule disjI1, rule exI [of _ "[c]"]) simp

lemma emits_two: "emits (\<lambda>o'. out_ch d (out_ch c o'))"
  unfolding emits_def by (rule exI [of _ "[c, d]"]) simp

lemma emits_opt_text: "emits_opt (\<lambda>o'. Option.bind x (\<lambda>t. Some (fold out_ch t o')))"
  by (cases x) (auto simp: emits_opt_def)

lemma emits_opt_then:
  assumes "emits g" "emits_opt k"
  shows "emits_opt (\<lambda>o'. k (g o'))"
proof -
  obtain t where t: "\<And>o'. g o' = fold out_ch t o'" using assms(1) unfolding emits_def by blast
  from assms(2) show ?thesis
    unfolding emits_opt_def t by (metis fold_append comp_apply)
qed

lemma emits_opt_bind:
  assumes "emits_opt g" "emits_opt k"
  shows "emits_opt (\<lambda>o'. Option.bind (g o') k)"
proof -
  consider t where "\<And>o'. g o' = Some (fold out_ch t o')" | "\<And>o'. g o' = None" using assms(1) unfolding emits_opt_def by blast
  then show ?thesis
  proof cases
    case (1 t)
    then show ?thesis using emits_opt_then [OF emits_fold [of t] assms(2)] by simp
  qed (simp add: emits_opt_def)
qed

lemma emits_opt_if: "emits_opt g \<Longrightarrow> emits_opt k \<Longrightarrow> emits_opt (\<lambda>o'. if c then g o' else k o')"
  by (cases c) simp_all

lemma emits_floats: "emits_opt (out_float_f f v p)" "emits_opt (out_float_g f v p)"
  unfolding out_float_f_def [abs_def] out_float_g_def [abs_def] by (rule emits_opt_text)+

lemma vformat_emits: "emits_opt (vformat_ap f strs fmt ap i)"
proof (induction "length fmt" arbitrary: fmt i rule: less_induct)
  case less
  show ?case
  proof (cases fmt)
    case Nil
    then have "vformat_ap f strs fmt ap i = Some" by (intro ext, subst vformat_ap.simps) simp
    then show ?thesis using emits_opt_Some by simp
  next
    case (Cons c r)
    obtain prec r1 where g: "get_prec r = (prec, r1)" by (cases "get_prec r")
    have r1: "length r1 \<le> length r" using get_prec_shorter [of r] g by simp
    have sub: "emits_opt (vformat_ap f strs x ap j)" if "length x \<le> length r" for x j
      using that by (intro less) (simp add: Cons)
    have e: "vformat_ap f strs fmt ap i = (\<lambda>o'.
        if c \<noteq> 0x25 then vformat_ap f strs r ap i (out_ch c o')
        else if r \<noteq> [] \<and> hd r = 0x25 then vformat_ap f strs (tl r) ap i (out_ch 0x25 o')
        else case r1 of [] \<Rightarrow> Some (out_ch 0x25 o')
          | d # fmt \<Rightarrow>
            if d = 0x66 \<or> d = 0x46 then Option.bind (out_float_f f (ap i) (eff_prec prec) o') (vformat_ap f strs fmt ap (i + 1))
            else if d = 0x67 \<or> d = 0x47 then Option.bind (out_float_g f (ap i) (eff_prec prec) o') (vformat_ap f strs fmt ap (i + 1))
            else if d = 0x64 then vformat_ap f strs fmt ap (i + 1) (out_int (ap i) o')
            else if d = 0x75 then vformat_ap f strs fmt ap (i + 1) (out_uint (ap i) o')
            else if d = 0x78 then vformat_ap f strs fmt ap (i + 1) (out_hex (ap i) False o')
            else if d = 0x58 then vformat_ap f strs fmt ap (i + 1) (out_hex (ap i) True o')
            else if d = 0x63 then vformat_ap f strs fmt ap (i + 1) (out_ch (ucast (ap i)) o')
            else if d = 0x73 then vformat_ap f strs fmt ap (i + 1) (out_str strs (ap i) o')
            else vformat_ap f strs fmt ap i (out_ch d (out_ch 0x25 o')))"
      by (intro ext, subst vformat_ap.simps) (simp only: Cons list.case g prod.case)
    have V: "emits_opt (\<lambda>o'. vformat_ap f strs x ap j (g o'))" if "length x \<le> length r" "emits g" for x j g
      by (rule emits_opt_then [OF that(2) sub [OF that(1)]])
    have B: "emits_opt (\<lambda>o'. Option.bind (g o') (vformat_ap f strs x ap j))" if "length x \<le> length r" "emits_opt g" for x j g
      by (rule emits_opt_bind [OF that(2) sub [OF that(1)]])
    have tl: "length (tl r) \<le> length r" by simp
    show ?thesis
    proof (cases r1)
      case Nil
      show ?thesis unfolding e Nil list.case
        by (intro emits_opt_if V [OF order_refl emits_out_ch] V [OF tl emits_out_ch] emits_opt_Some_ch)
    next
      case (Cons d r2)
      then have s2: "length r2 \<le> length r" using r1 by simp
      show ?thesis unfolding e Cons list.case
        by (intro emits_opt_if V [OF order_refl emits_out_ch] V [OF tl emits_out_ch] B [OF s2 emits_floats(1)] B [OF s2 emits_floats(2)]
            V [OF s2 emits_numbers(1)] V [OF s2 emits_numbers(2)] V [OF s2 emits_numbers(3)] V [OF s2 emits_numbers(4)]
            V [OF s2 emits_out_ch] V [OF s2 emits_two])
    qed
  qed
qed

subsection \<open>The bounded buffer\<close>

lemma out_ch_console: "obuf o' = 0 \<Longrightarrow> fold out_ch t o' = o'\<lparr>oputs := oputs o' @ t, olen := olen o' + of_nat (length t)\<rparr>"
proof (induction t arbitrary: o')
  case (Cons c t)
  have e: "out_ch c o' = o'\<lparr>oputs := oputs o' @ [c], olen := olen o' + 1\<rparr>" using Cons.prems by (simp add: out_ch_def)
  show ?case using Cons.IH [of "out_ch c o'"] Cons.prems by (simp add: e ac_simps)
qed simp

lemma out_ch_buffer:
  assumes "obuf o' \<noteq> 0" "0 < sint (omax o')" "unat (olen o') + length t < 0x7FFFFFFF"
  shows "fold out_ch t o' =
    o'\<lparr>omem := memcpy (omem o') (obuf o' + olen o') (take (unat (omax o') - 1 - unat (olen o')) t), olen := olen o' + of_nat (length t)\<rparr>"
  using assms
proof (induction t arbitrary: o')
  case (Cons c t)
  let ?n = "unat (olen o')" and ?m = "unat (omax o')"
  have l1: "unat (olen o' + 1) = ?n + 1" using Cons.prems(3) by (subst unat_add32) simp_all
  have m: "?m < 0x80000000" using Cons.prems(2) by (simp add: sint_pos)
  have cmp: "sint (olen o' + 1) < sint (omax o') \<longleftrightarrow> ?n + 1 < ?m"
    using Cons.prems(3) l1 m by (simp add: sint_unat del: of_nat_unat) arith
  define o1 where "o1 = out_ch c o'"
  have o1: "obuf o1 = obuf o'" "omax o1 = omax o'" "olen o1 = olen o' + 1" "oputs o1 = oputs o'"
    "omem o1 = (if ?n + 1 < ?m then (omem o')(obuf o' + olen o' := c) else omem o')"
    using Cons.prems(1) by (simp_all add: o1_def out_ch_def cmp Let_def)
  have "fold out_ch t o1 = o1\<lparr>omem := memcpy (omem o1) (obuf o1 + olen o1) (take (unat (omax o1) - 1 - unat (olen o1)) t),
      olen := olen o1 + of_nat (length t)\<rparr>"
    using Cons.prems l1 by (intro Cons.IH) (simp_all add: o1)
  also have "\<dots> = o'\<lparr>omem := memcpy (omem o1) (obuf o1 + olen o1) (take (unat (omax o1) - 1 - unat (olen o1)) t),
      olen := olen o1 + of_nat (length t)\<rparr>"
    using Cons.prems(1) by (simp add: o1_def out_ch_def Let_def)
  also have "\<dots> = o'\<lparr>omem := memcpy (omem o1) (obuf o' + (olen o' + 1)) (take (?m - 1 - (?n + 1)) t), olen := olen o' + of_nat (length (c # t))\<rparr>"
    by (simp only: o1(1-3) l1) simp
  finally have f: "fold out_ch t o1 = \<dots>" .
  have "memcpy (omem o1) (obuf o' + (olen o' + 1)) (take (?m - 1 - (?n + 1)) t) =
      memcpy (omem o') (obuf o' + olen o') (take (?m - 1 - ?n) (c # t))"
  proof (cases "?n + 1 < ?m")
    case True
    then have "?m - 1 - ?n = Suc (?m - 1 - (?n + 1))" by simp
    then show ?thesis using True by (simp add: o1(5) add.assoc)
  qed (simp add: o1(5))
  then show ?case using f by (simp only: fold_simps o1_def [symmetric])
qed simp

text \<open>
  C31. \<open>snprintf\<close> is a truncated \<open>printf\<close>: for every format and arguments it returns the length of the full
  text, leaves in the buffer the first \<open>max - 1\<close> characters of what \<open>printf\<close> would print followed by a
  zero, and writes nothing else - no byte at or past \<open>buf + max\<close> changes.
\<close>

theorem snprintf_truncates:
  assumes "printf f strs fmt ap m = Some (n, t)" "buf \<noteq> 0" "0 < sint mx" "length t < 0x7FFFFFFF"
  shows "\<exists>o'. snprintf f strs buf mx fmt ap m = Some (of_nat (length t), o') \<and> n = of_nat (length t) \<and>
    omem o' = memcpy m buf (take (unat mx - 1) t @ [0]) \<and> length (take (unat mx - 1) t @ [0]) \<le> unat mx"
proof -
  have "vformat_ap f strs fmt ap 0 \<lparr>obuf = 0, omax = 0, olen = 0, omem = m, oputs = []\<rparr> \<noteq> None"
    using assms(1) by (auto simp: printf_def bind_eq_Some_conv)
  then have "\<not> (\<forall>o'. vformat_ap f strs fmt ap 0 o' = None)" by (rule contrapos_nn) (erule spec)
  then have "\<exists>s. \<forall>o'. vformat_ap f strs fmt ap 0 o' = Some (fold out_ch s o')"
    using vformat_emits [of f strs fmt ap 0] unfolding emits_opt_def by satx
  then obtain s where s: "\<And>o'. vformat_ap f strs fmt ap 0 o' = Some (fold out_ch s o')" by (elim exE) (rule that, erule spec)
  have ts: "t = s" "n = of_nat (length t)" using assms(1) by (auto simp: printf_def s out_ch_console)
  let ?o = "\<lparr>obuf = buf, omax = mx, olen = 0, omem = m, oputs = []\<rparr>"
  define o1 where "o1 = fold out_ch t ?o"
  have o1: "o1 = ?o\<lparr>omem := memcpy m buf (take (unat mx - 1) t), olen := of_nat (length t)\<rparr>"
    using out_ch_buffer [of ?o t] assms(2-4) by (simp add: o1_def)
  have mx: "unat mx < 0x80000000" "mx \<noteq> 0" using assms(3) by (simp_all add: sint_pos)
  have m1: "unat (mx - 1) = unat mx - 1" using mx(2) by (simp add: unat_minus_one)
  have l: "unat (of_nat (length t) :: u32) = length t" using assms(4) by (simp add: unat_of_nat32)
  have cmp: "sint (of_nat (length t) :: u32) > sint (mx - 1) \<longleftrightarrow> unat mx - 1 < length t" "\<not> sint (of_nat (length t) :: u32) < 0" "\<not> sint (mx - 1) < 0"
  proof -
    have "sint (of_nat (length t) :: u32) = int (length t)" using assms(4) l by (simp add: sint_unat del: of_nat_unat)
    moreover have "unat mx - 1 < 0x80000000" using mx(1) by linarith
    then have "sint (mx - 1) = int (unat mx - 1)" using m1 by (simp only: sint_unat if_True)
    ultimately show "sint (of_nat (length t) :: u32) > sint (mx - 1) \<longleftrightarrow> unat mx - 1 < length t" "\<not> sint (of_nat (length t) :: u32) < 0"
      "\<not> sint (mx - 1) < 0" by linarith+
  qed
  have "omem (terminate_buf o1) = (omem o1)(buf + of_nat (min (unat mx - 1) (length t)) := 0)"
  proof -
    have "mx - 1 = of_nat (unat mx - 1)" using m1 by (metis of_nat_unat ucast_id)
    then show ?thesis using assms(2,3) cmp by (simp add: terminate_buf_def o1 Let_def min_def)
  qed
  moreover have "memcpy m buf (take (unat mx - 1) t @ [0]) = (memcpy m buf (take (unat mx - 1) t))(buf + of_nat (min (unat mx - 1) (length t)) := 0)"
    by (simp add: memcpy_append min.commute)
  moreover have "olen (terminate_buf o1) = of_nat (length t)" by (simp add: terminate_buf_def o1 Let_def)
  moreover have "snprintf f strs buf mx fmt ap m = Some (olen (terminate_buf o1), terminate_buf o1)"
    by (simp add: snprintf_def s ts(1) [symmetric] o1_def Let_def)
  moreover have "unat mx \<noteq> 0" using mx(2) by (simp add: unat_eq_0)
  ultimately show ?thesis using ts(2) by (simp add: o1)
qed

subsection \<open>The float formatters\<close>

lemma length_u32_to_buf: "length (u32_to_buf v) \<le> 10"
  using length_dec_rev [of v] by (simp add: u32_to_buf_def)

lemma length_frac_digits [simp]: "length (frac_digits f n v) = n"
  by (induction n arbitrary: v) (simp_all add: Let_def)

lemma length_strip_zeros: "length (strip_zeros t) \<le> length t"
  using length_dropWhile_le [of "\<lambda>c. c = 0x30" "rev t"] by (auto simp: strip_zeros_def Let_def intro: le_trans [OF diff_le_self])

lemma length_float_fixed: "length (float_fixed f v prec strip) \<le> 12 + prec"
proof -
  define t where "t pre w = pre @ u32_to_buf (int_of_f f w) @ (if prec > 0 then 0x2E # frac_digits f prec (fsub f w (f_of_int f (int_of_f f w))) else [])"
    for pre w
  have lp: "length (t pre w) \<le> length pre + 11 + prec" for pre w using length_u32_to_buf [of "int_of_f f w"] by (simp add: t_def)
  have l: "length (t pre w) \<le> 12 + prec" if "length pre \<le> 1" for pre w using that lp [of pre w] by linarith
  then have l': "length (strip_zeros (t pre w)) \<le> 12 + prec" if "length pre \<le> 1" for pre w
    using that length_strip_zeros [of "t pre w"] le_trans by blast
  have e: "float_fixed f v prec strip = (if is_nan v then nan_str
      else let (pre, w) = (if is_neg v then ([0x2D], fsub f (lit_0 f) v) else ([], v)) in
        if is_inf w then pre @ inf_str
        else let u = t pre (fadd f w (half_unit f prec)) in if strip \<and> prec > 0 then strip_zeros u else u)"
    by (simp only: float_fixed_def Let_def t_def)
  show ?thesis unfolding e using l [of "[0x2D]"] l [of "[]"] l' [of "[0x2D]"] l' [of "[]"] by (simp add: nan_str_def inf_str_def Let_def)
qed

lemma length_float_exp: "float_exp f v prec strip = Some t \<Longrightarrow> length t \<le> 27 + prec"
proof -
  assume a: "float_exp f v prec strip = Some t"
  have b: "length (pre @ float_fixed f w prec strip @ [0x65] @ [sg] @ (if c then [0x30] else []) @ u32_to_buf e) \<le> 27 + prec"
    if "length pre \<le> 1" for pre w sg c e
    using that length_float_fixed [of f w prec strip] length_u32_to_buf [of e] by simp
  define pre where "pre = (if is_neg v then [0x2D] else [] :: u8 list)"
  have p: "length pre \<le> 1" by (simp add: pre_def)
  have "t = nan_str \<or> t = pre @ inf_str \<or>
      (\<exists>w sg c e. t = pre @ float_fixed f w prec strip @ [0x65] @ [sg] @ (if c then [0x30] else []) @ u32_to_buf e)"
    using a unfolding float_exp_def Let_def pre_def
    by (cases "is_nan v"; cases "is_neg v") (auto simp: bind_eq_Some_conv split: if_split_asm prod.split_asm)
  then show ?thesis using p b [OF p] by (auto simp: nan_str_def inf_str_def)
qed

lemma length_float_f: "float_f_text f v prec = Some t \<Longrightarrow> length t \<le> 27 + prec"
proof -
  assume a: "float_f_text f v prec = Some t"
  have "(if c then x else Some y) = Some t \<Longrightarrow> x = Some t \<or> t = y" for c x y by (cases c) simp_all
  from this [OF a [unfolded float_f_text_def Let_def]] show ?thesis
    using length_float_exp [of f v prec False t] length_float_fixed [of f v prec False] by auto
qed

lemma length_float_g: "float_g_text f v prec = Some t \<Longrightarrow> length t \<le> 36 + prec"
proof -
  assume a: "float_g_text f v prec = Some t"
  define q where "q = (if prec = 0 then 6 else prec)"
  have i: "x = Some t \<or> (\<exists>e. \<not> P e \<and> t = y e)" if "(if c then x else Option.bind z (\<lambda>e. if P e then x else Some (y e))) = Some t" for c x z P y
    using that by (cases c; cases z) (auto split: if_split_asm)
  have "float_exp f v (q - 1) True = Some t \<or>
      (\<exists>e :: u32. \<not> (sint e < -4 \<or> sint e \<ge> int q \<or> sint e \<ge> 9) \<and> t = float_fixed f v (nat (int q - 1 - sint e)) True)"
    by (rule i [OF a [unfolded float_g_text_def Let_def q_def [symmetric]]])
  then show ?thesis
  proof
    assume "float_exp f v (q - 1) True = Some t"
    then show ?thesis using length_float_exp [of f v "q - 1" True t] by (simp add: q_def split: if_splits)
  next
    assume "\<exists>e :: u32. \<not> (sint e < -4 \<or> sint e \<ge> int q \<or> sint e \<ge> 9) \<and> t = float_fixed f v (nat (int q - 1 - sint e)) True"
    then obtain e :: u32 where e: "\<not> sint e < -4" "t = float_fixed f v (nat (int q - 1 - sint e)) True" by blast
    have "nat (int q - 1 - sint e) \<le> q + 3" using e(1) by linarith
    moreover have "q \<le> prec + 6" by (simp add: q_def)
    ultimately show ?thesis using length_float_fixed [of f v "nat (int q - 1 - sint e)" True] unfolding e(2) by linarith
  qed
qed

text \<open>
  The float formatters stay inside their buffers: whatever the floating point unit computes and
  whatever precision the format asks for, the text that \<open>%f\<close> or \<open>%g\<close> builds has fewer than 64
  characters, so that it fits the array \<open>buf[64]\<close> with its terminating zero.
\<close>

theorem float_text_fits:
  assumes "float_f_text f v (eff_prec (fst (get_prec fmt))) = Some t \<or> float_g_text f v (eff_prec (fst (get_prec fmt))) = Some t"
  shows "length t < 64"
proof -
  have "fst (get_prec fmt) \<le> 17" by (auto simp: get_prec_def split: prod.splits)
  then have "eff_prec (fst (get_prec fmt)) \<le> 17" unfolding eff_prec_def by auto
  then show ?thesis using assms by (auto dest!: length_float_f length_float_g)
qed

subsection \<open>Examples\<close>

definition demo_fpu :: fpu where
  "demo_fpu = \<lparr>fadd = (\<lambda>a b. a), fsub = (\<lambda>a b. a), fmul = (\<lambda>a b. a), fdiv = (\<lambda>a b. a), fle = (\<lambda>a b. False), flt = (\<lambda>a b. False),
     feq = (\<lambda>a b. True), f_of_int = (\<lambda>a. a), int_of_f = (\<lambda>a. 7), lit_0 = 0, lit_half = 0, lit_1 = 0, lit_10 = 0, lit_1e9 = 0, lit_1em4 = 0\<rparr>"

theorem float_text_fits_witness: "\<exists>t. float_f_text demo_fpu 0 (eff_prec (fst (get_prec []))) = Some t \<and> length t < 64"
proof -
  have "\<exists>t. float_f_text demo_fpu 0 (eff_prec (fst (get_prec []))) = Some t"
    by (simp add: float_f_text_def is_nan_def is_inf_def is_neg_def demo_fpu_def)
  then show ?thesis using float_text_fits [of demo_fpu 0 "[]"] by blast
qed

text \<open>\<open>snprintf (buf, 4, "%d!", 1234)\<close> leaves \<open>123\<close> and reports five characters.\<close>

theorem snprintf_truncates_witness:
  "\<exists>o'. snprintf demo_fpu (\<lambda>_. []) 0x1000 4 [0x25, 0x64, 0x21] (\<lambda>_. 1234) (\<lambda>_. 0) = Some (5, o') \<and>
     omem o' = memcpy (\<lambda>_. 0) 0x1000 [0x31, 0x32, 0x33, 0]"
proof -
  have d: "rev (dec_rev 1234) = [0x31, 0x32, 0x33, 0x34]"
    by (simp add: dec_rev.simps [of 1234] dec_rev.simps [of 123] dec_rev.simps [of 12] dec_rev.simps [of 1] dec_rev.simps [of 0])
  have p: "printf demo_fpu (\<lambda>_. []) [0x25, 0x64, 0x21] (\<lambda>_. 1234) (\<lambda>_. 0) = Some (5, [0x31, 0x32, 0x33, 0x34, 0x21])"
    unfolding printf_def
    by (subst vformat_ap.simps, simp add: get_prec_def, subst vformat_ap.simps, simp, subst vformat_ap.simps)
       (simp add: out_int_def d out_ch_def)
  show ?thesis using snprintf_truncates [OF p, of "0x1000" 4] by simp
qed

end
