(* ===== verification/CBuffer.thy ===== *)
theory CBuffer
  imports UserMem "HOL-Library.Monad_Syntax"
begin

text \<open>
  Arrays of the user programs (user/, fs/lib/): a \<open>char\<close> array is the list of its bytes, its length the
  declared one. A store outside the array is \<open>None\<close>, so that a definition built on these returns a
  value exactly when the C code stays inside its buffers. Strings that are only read are the lists of
  their bytes without the terminating zero.
\<close>

definition bput :: "u8 list \<Rightarrow> int \<Rightarrow> u8 \<Rightarrow> u8 list option" where
  "bput b i c = (if 0 \<le> i \<and> i < int (length b) then Some (b[nat i := c]) else None)"

fun bputs :: "u8 list \<Rightarrow> int \<Rightarrow> u8 list \<Rightarrow> u8 list option" where
  "bputs b i [] = Some b"
| "bputs b i (c # cs) = Option.bind (bput b i c) (\<lambda>b. bputs b (i + 1) cs)"

text \<open>A buffer that starts with the string \<open>s\<close> and its terminating zero.\<close>

definition holds_str :: "u8 list \<Rightarrow> u8 list \<Rightarrow> bool" where
  "holds_str b s \<longleftrightarrow> length s < length b \<and> take (length s) b = s \<and> b ! length s = 0"

lemma bput_Some: "bput b i c = Some b' \<longleftrightarrow> 0 \<le> i \<and> i < int (length b) \<and> b' = b[nat i := c]"
  by (auto simp: bput_def)

lemma bput_nat: "i < length b \<Longrightarrow> bput b (int i) c = Some (b[i := c])"
  by (simp add: bput_def)

lemma bputs_nat: "i + length cs \<le> length b \<Longrightarrow> bputs b (int i) cs = Some (arr_put b i cs)"
proof (induction cs arbitrary: b i)
  case (Cons c cs)
  have "bputs (b[i := c]) (int (Suc i)) cs = Some (arr_put (b[i := c]) (Suc i) cs)"
    using Cons.prems by (intro Cons.IH) simp
  moreover have "arr_put (b[i := c]) (Suc i) cs = arr_put b i (c # cs)"
    using Cons.prems by (simp add: arr_put_def take_Suc_conv_app_nth take_update_cancel drop_update_cancel)
  ultimately show ?case using Cons.prems by (simp add: bput_nat add.commute)
qed (simp add: arr_put_def)

lemma bputs_fits: "i + length cs \<le> length b \<Longrightarrow> \<exists>b'. bputs b (int i) cs = Some b' \<and> length b' = length b"
  using bputs_nat [of i cs b] by simp

lemma bput_fits: "i < length b \<Longrightarrow> \<exists>b'. bput b (int i) c = Some b' \<and> length b' = length b"
  by (simp add: bput_nat)

lemma holds_str_cstr: "holds_str b s \<Longrightarrow> 0 \<notin> set s \<Longrightarrow> cstr b = s"
proof -
  assume h: "holds_str b s" "0 \<notin> set s"
  then have "b = s @ 0 # drop (Suc (length s)) b"
    using id_take_nth_drop [of "length s" b] by (simp add: holds_str_def)
  then show ?thesis using h(2) by (metis cstr_append_zero)
qed

lemma holds_str_end: "take n b = s \<Longrightarrow> length s = n \<Longrightarrow> n < length b \<Longrightarrow> holds_str (b[n := 0]) s"
  by (auto simp: holds_str_def)

end
