(* ===== verification/Editor.thy ===== *)
theory Editor
  imports CBuffer
begin

text \<open>
  The screen editor of the shell (\<open>cmd_edit\<close> of user/sh.c): the text in a fixed buffer with a cursor,
  the mapping between buffer positions and screen positions, the drawing calls, and the loop over
  keys. Lengths and positions are never negative and at most the size of the buffer, so they are
  natural numbers; a move outside the buffer is \<open>None\<close>. The system calls are parameters: \<open>load\<close>,
  \<open>save\<close> and \<open>sync\<close> act on a state of any type.
\<close>

definition EDIT_BUF :: nat where "EDIT_BUF = 131072"

subsection \<open>memmove of the shell's library (user/libc.c)\<close>

fun move_up :: "u8 list \<Rightarrow> int \<Rightarrow> int \<Rightarrow> nat \<Rightarrow> u8 list option" where
  "move_up b d s 0 = Some b"
| "move_up b d s (Suc n) = do { b \<leftarrow> bput b d (arr_get b (nat s)); move_up b (d + 1) (s + 1) n }"

fun move_down :: "u8 list \<Rightarrow> int \<Rightarrow> int \<Rightarrow> nat \<Rightarrow> u8 list option" where
  "move_down b d s 0 = Some b"
| "move_down b d s (Suc n) = do { b \<leftarrow> bput b (d + int n) (arr_get b (nat (s + int n))); move_down b d s n }"

definition buf_memmove :: "u8 list \<Rightarrow> nat \<Rightarrow> nat \<Rightarrow> nat \<Rightarrow> u8 list option" where
  "buf_memmove b d s n = (if d < s then move_up b (int d) (int s) n else move_down b (int d) (int s) n)"

subsection \<open>Positions\<close>

text \<open>What one character does to the row and the column; lines are cut at 80 columns.\<close>

definition advance :: "u8 \<Rightarrow> nat \<times> nat \<Rightarrow> nat \<times> nat" where
  "advance ch rc = (let (r, c) = rc in if ch = 10 then (r + 1, 0) else if c + 1 \<ge> 80 then (r + 1, 0) else (r, c + 1))"

definition row_col_of_index :: "u8 list \<Rightarrow> nat \<Rightarrow> nat \<Rightarrow> nat \<times> nat" where
  "row_col_of_index buf len idx = fold (\<lambda>i. advance (arr_get buf i)) [0..<min idx len] (0, 0)"

text \<open>The two searches: \<open>cs\<close> are the characters from position \<open>i\<close> on.\<close>

fun row_scan :: "int \<Rightarrow> nat \<Rightarrow> nat \<times> nat \<Rightarrow> u8 list \<Rightarrow> nat" where
  "row_scan t i rc [] = i"
| "row_scan t i rc (ch # cs) = (if int (fst rc) = t then i else row_scan t (i + 1) (advance ch rc) cs)"

definition index_of_row :: "u8 list \<Rightarrow> nat \<Rightarrow> int \<Rightarrow> nat" where
  "index_of_row buf len t = (if t \<le> 0 then 0 else row_scan t 0 (0, 0) (take len buf))"

fun col_scan :: "int \<Rightarrow> int \<Rightarrow> nat \<Rightarrow> nat \<times> nat \<Rightarrow> u8 list \<Rightarrow> nat" where
  "col_scan tr tc i rc [] = i"
| "col_scan tr tc i rc (ch # cs) =
     (if int (fst rc) = tr \<and> int (snd rc) = tc then i
      else if ch = 10 then (if int (fst rc) = tr then i else col_scan tr tc (i + 1) (fst rc + 1, 0) cs)
      else if snd rc + 1 \<ge> 80
      then (if int (fst rc) = tr then i + 1 else col_scan tr tc (i + 1) (fst rc + 1, 0) cs)
      else col_scan tr tc (i + 1) (fst rc, snd rc + 1) cs)"

definition index_of_row_col :: "u8 list \<Rightarrow> nat \<Rightarrow> int \<Rightarrow> int \<Rightarrow> nat" where
  "index_of_row_col buf len tr tc = (if tr \<le> 0 \<and> tc \<le> 0 then 0 else col_scan tr tc 0 (0, 0) (take len buf))"

definition move_cursor_rows :: "u8 list \<Rightarrow> nat \<Rightarrow> nat \<Rightarrow> int \<Rightarrow> nat" where
  "move_cursor_rows buf len cur delta =
     (let (row, col) = row_col_of_index buf len cur;
          row = int row + delta;
          row = (if row < 0 then 0 else row)
      in index_of_row_col buf len row (int col))"

subsection \<open>Drawing\<close>

datatype tty = Cls | SetCursor nat nat | Out "u8 list"

text \<open>The text from \<open>cs\<close> on, until 24 rows are full; with it the row where it ends.\<close>

fun draw_text :: "nat \<Rightarrow> nat \<Rightarrow> u8 list \<Rightarrow> tty list \<times> nat" where
  "draw_text row col [] = ([], row)"
| "draw_text row col (ch # cs) =
     (if row \<ge> 24 then ([], row)
      else if ch = 10 then (let (out, r) = draw_text (row + 1) 0 cs in (Out [10] # out, r))
      else if col + 1 \<ge> 80 then (let (out, r) = draw_text (row + 1) 0 cs in (Out [ch] # Out [10] # out, r))
      else (let (out, r) = draw_text row (col + 1) cs in (Out [ch] # out, r)))"

text \<open>
  The status line, built in the local array \<open>line\<close> of 80 bytes: the dirty mark, the name, the status, cut and
  padded to 79 characters, and the zero. Every byte is stored before it is read, so what an
  uninitialised array holds (\<open>0xCC\<close> here) does not matter.
\<close>

definition status_line :: "u8 list \<Rightarrow> bool \<Rightarrow> u8 list option \<Rightarrow> u8 list option" where
  "status_line name dirty status = do {
     b \<leftarrow> bput (replicate 80 0xCC) 0 (if dirty then 0x2A else 0x20);
     let p = take (70 - 1) name;
     b \<leftarrow> bputs b 1 p;
     let n = 1 + length p;
     b \<leftarrow> bput b (int n) 0x20;
     let n = n + 1;
     let t = (case status of None \<Rightarrow> [] | Some t \<Rightarrow> take (79 - n) t);
     b \<leftarrow> bputs b (int n) t;
     let n = n + length t;
     b \<leftarrow> bputs b (int n) (replicate (79 - n) 0x20);
     let n = n + (79 - n);
     b \<leftarrow> bput b (int n) 0;
     Some (cstr b) }"

definition screen_row :: "nat \<Rightarrow> nat \<Rightarrow> nat" where
  "screen_row crow tp = (let srow = int crow - int tp; srow = (if srow < 0 then 0 else srow) in nat (if srow > 23 then 23 else srow))"

definition editor_redraw :: "u8 list \<Rightarrow> u8 list \<Rightarrow> nat \<Rightarrow> nat \<Rightarrow> nat \<Rightarrow> bool \<Rightarrow> u8 list option \<Rightarrow> tty list option" where
  "editor_redraw name buf len cur tp dirty status =
     (let idx = index_of_row buf len (int tp);
          (out, row) = draw_text 0 0 (drop idx (take len buf));
          (crow, ccol) = row_col_of_index buf len cur
      in do {
        ln \<leftarrow> status_line name dirty status;
        Some ([Cls] @ out @ replicate (24 - row) (Out [10]) @ [SetCursor 0 24, Out ln] @
              [SetCursor (if ccol > 79 then 79 else ccol) (screen_row crow tp)]) })"

definition editor_draw_cursor :: "u8 list \<Rightarrow> nat \<Rightarrow> nat \<Rightarrow> nat \<Rightarrow> bool \<Rightarrow> tty list" where
  "editor_draw_cursor buf len cur tp on =
     (let (crow, ccol) = row_col_of_index buf len cur;
          srow = int crow - int tp
      in if srow < 0 \<or> srow > 23 then []
         else
           let ccol = (if ccol > 79 then 79 else ccol);
               ch = (if cur < len then (if arr_get buf cur = 10 then 0x20 else arr_get buf cur) else 0x20)
           in [SetCursor ccol (nat srow), Out [if on then 0x5F else ch], SetCursor ccol (nat srow)])"

subsection \<open>The editor\<close>

record editor =
  e_buf :: "u8 list"
  e_len :: nat
  e_cur :: nat
  e_top :: nat
  e_dirty :: bool
  e_quit :: bool
  e_status :: "u8 list option"
  e_redraw :: bool
  e_last_cur :: int
  e_last_top :: int
  e_blink :: bool
  e_blinks :: nat

text \<open>The beginning of a turn of the loop: scroll so that the cursor is visible, then draw.\<close>

definition editor_scroll :: "editor \<Rightarrow> editor" where
  "editor_scroll e =
     (let (crow, ccol) = row_col_of_index (e_buf e) (e_len e) (e_cur e);
          tp = (if crow < e_top e then crow else e_top e);
          tp = (if crow \<ge> tp + 24 then crow - 23 else tp)
      in e\<lparr>e_top := tp, e_redraw := (tp \<noteq> e_top e \<or> e_redraw e)\<rparr>)"

definition editor_show :: "u8 list \<Rightarrow> editor \<Rightarrow> (tty list \<times> editor) option" where
  "editor_show name e =
     (let e = editor_scroll e; draw = editor_draw_cursor (e_buf e) (e_len e) in
      if e_redraw e
      then do {
        out \<leftarrow> editor_redraw name (e_buf e) (e_len e) (e_cur e) (e_top e) (e_dirty e) (e_status e);
        Some (out @ draw (e_cur e) (e_top e) True,
              e\<lparr>e_status := None, e_redraw := False, e_blink := True, e_blinks := 0,
                e_last_cur := int (e_cur e), e_last_top := int (e_top e)\<rparr>) }
      else
        let (crow, ccol) = row_col_of_index (e_buf e) (e_len e) (e_cur e);
            out = [SetCursor (if ccol > 79 then 79 else ccol) (screen_row crow (e_top e))]
        in Some (if int (e_cur e) \<noteq> e_last_cur e \<or> int (e_top e) \<noteq> e_last_top e
           then (out @ (if e_last_cur e \<ge> 0 then draw (nat (e_last_cur e)) (nat (e_last_top e)) False else []) @
                   draw (e_cur e) (e_top e) True,
                 e\<lparr>e_last_cur := int (e_cur e), e_last_top := int (e_top e), e_blink := True, e_blinks := 0\<rparr>)
           else (out, e)))"

text \<open>No key is waiting: count towards the next blink.\<close>

definition editor_idle :: "editor \<Rightarrow> tty list \<times> editor" where
  "editor_idle e =
     (let e = e\<lparr>e_blinks := e_blinks e + 1\<rparr> in
      if e_blinks e > 6400
      then let e = e\<lparr>e_blink := \<not> e_blink e\<rparr> in
           (editor_draw_cursor (e_buf e) (e_len e) (e_cur e) (e_top e) (e_blink e), e\<lparr>e_blinks := 0\<rparr>)
      else ([], e))"

text \<open>Making room at the cursor and storing a character there.\<close>

definition editor_insert :: "u8 \<Rightarrow> editor \<Rightarrow> editor option" where
  "editor_insert ch e =
     (if e_len e + 1 < EDIT_BUF
      then do {
        b \<leftarrow> buf_memmove (e_buf e) (e_cur e + 1) (e_cur e) (e_len e - e_cur e);
        b \<leftarrow> bput b (int (e_cur e)) ch;
        Some (e\<lparr>e_buf := b, e_cur := e_cur e + 1, e_len := e_len e + 1, e_dirty := True, e_redraw := True\<rparr>) }
      else Some e)"

text \<open>The keys that move the cursor or change the text.\<close>

definition editor_edit :: "int \<Rightarrow> editor \<Rightarrow> editor option" where
  "editor_edit key e =
     (if key = 0x102 then Some (if e_cur e > 0 then e\<lparr>e_cur := e_cur e - 1\<rparr> else e)
      else if key = 0x103 then Some (if e_cur e < e_len e then e\<lparr>e_cur := e_cur e + 1\<rparr> else e)
      else if key = 0x100
      then (let (row, col) = row_col_of_index (e_buf e) (e_len e) (e_cur e)
            in Some (if row > 0 then e\<lparr>e_cur := index_of_row_col (e_buf e) (e_len e) (int row - 1) (int col)\<rparr> else e))
      else if key = 0x101
      then (let (row, col) = row_col_of_index (e_buf e) (e_len e) (e_cur e)
            in Some (e\<lparr>e_cur := index_of_row_col (e_buf e) (e_len e) (int row + 1) (int col)\<rparr>))
      else if key = 0x104
      then (if e_cur e < e_len e
            then do {
              b \<leftarrow> buf_memmove (e_buf e) (e_cur e) (e_cur e + 1) (e_len e - e_cur e - 1);
              Some (e\<lparr>e_buf := b, e_len := e_len e - 1, e_dirty := True, e_redraw := True\<rparr>) }
            else Some e)
      else if key = 8
      then (if e_cur e > 0
            then do {
              b \<leftarrow> buf_memmove (e_buf e) (e_cur e - 1) (e_cur e) (e_len e - e_cur e);
              Some (e\<lparr>e_buf := b, e_cur := e_cur e - 1, e_len := e_len e - 1, e_dirty := True, e_redraw := True\<rparr>) }
            else Some e)
      else if key = 13 \<or> key = 10 then editor_insert 10 e
      else if key \<ge> 32 \<and> key < 127 then editor_insert (word_of_int key) e
      else Some e)"

record 'k file_calls =
  f_load :: "u8 list \<Rightarrow> nat \<Rightarrow> 'k \<Rightarrow> int \<times> u8 list"
  f_save :: "u8 list \<Rightarrow> u8 list \<Rightarrow> nat \<Rightarrow> 'k \<Rightarrow> int \<times> 'k"
  f_sync :: "'k \<Rightarrow> int \<times> 'k"

text \<open>One key; the last component says that the editor is left.\<close>

definition editor_key ::
    "('k, 'z) file_calls_scheme \<Rightarrow> u8 list \<Rightarrow> int \<Rightarrow> editor \<Rightarrow> 'k \<Rightarrow> (tty list \<times> editor \<times> 'k \<times> bool) option" where
  "editor_key fc path key e k =
     (if key = 0 then let (out, e) = editor_idle e in Some (out, e, k, False)
      else
        let e = e\<lparr>e_blink := True, e_blinks := 0\<rparr> in
        if key = 17
        then (if e_dirty e \<and> \<not> e_quit e
              then Some ([], e\<lparr>e_status := Some (map of_char ''Unsaved. Ctrl+Q again to quit.''), e_quit := True, e_redraw := True\<rparr>, k, False)
              else Some ([Cls], e, k, True))
        else if key = 19
        then (let (rc, k) = f_save fc path (e_buf e) (e_len e) k in
              if rc \<noteq> 0 then Some ([], e\<lparr>e_status := Some (map of_char ''save fail''), e_redraw := True\<rparr>, k, False)
              else
                let e = e\<lparr>e_dirty := False\<rparr>; (rc, k) = f_sync fc k in
                Some ([], e\<lparr>e_status := Some (map of_char (if rc = 0 then ''saved+synced'' else ''saved (no store)'')), e_redraw := True\<rparr>, k, False))
        else if key = 21
        then Some ([], e\<lparr>e_cur := move_cursor_rows (e_buf e) (e_len e) (e_cur e) (- 23), e_redraw := True\<rparr>, k, False)
        else if key = 4
        then Some ([], e\<lparr>e_cur := move_cursor_rows (e_buf e) (e_len e) (e_cur e) 23, e_redraw := True\<rparr>, k, False)
        else do { e \<leftarrow> editor_edit key (e\<lparr>e_quit := False\<rparr>); Some ([], e, k, False) })"

text \<open>The loop over the keys that are read; it is left when a key says so or when no more come.\<close>

fun edit_loop :: "('k, 'z) file_calls_scheme \<Rightarrow> u8 list \<Rightarrow> u8 list \<Rightarrow> int list \<Rightarrow> editor \<Rightarrow> 'k \<Rightarrow> (tty list \<times> editor \<times> 'k \<times> bool) option" where
  "edit_loop fc name path [] e k = do { (out, e) \<leftarrow> editor_show name e; Some (out, e, k, False) }"
| "edit_loop fc name path (key # keys) e k =
      do {
        (out, e) \<leftarrow> editor_show name e;
        (out', e, k, quit) \<leftarrow> editor_key fc path key e k;
        if quit then Some (out @ out', e, k, True)
        else do {
          (out'', e, k, quit) \<leftarrow> edit_loop fc name path keys e k;
          Some (out @ out' @ out'', e, k, quit)
        }
      }"

text \<open>The file is read into the buffer that the previous session left.\<close>

definition editor_open :: "('k, 'z) file_calls_scheme \<Rightarrow> u8 list \<Rightarrow> u8 list \<Rightarrow> 'k \<Rightarrow> editor option" where
  "editor_open fc buf path k =
     (let (n, bytes) = f_load fc path (length buf) k in do {
        b \<leftarrow> bputs buf 0 bytes;
        Some \<lparr>e_buf = b, e_len = (if n > 0 then nat n else 0), e_cur = 0, e_top = 0, e_dirty = False, e_quit = False,
              e_status = None, e_redraw = True, e_last_cur = - 1, e_last_top = - 1, e_blink = True, e_blinks = 0\<rparr> })"

subsection \<open>Moving bytes\<close>

lemma arr_put_Cons: "i + length xs < length b \<Longrightarrow> arr_put (b[i := x]) (Suc i) xs = arr_put b i (x # xs)"
  by (simp add: arr_put_def take_Suc_conv_app_nth take_update_cancel drop_update_cancel)

lemma move_up_eq:
  "d < s \<Longrightarrow> s + n \<le> length b \<Longrightarrow> move_up b (int d) (int s) n = Some (arr_put b d (take n (drop s b)))"
proof (induction n arbitrary: b d s)
  case (Suc n)
  have "move_up (b[d := b ! s]) (int (Suc d)) (int (Suc s)) n = Some (arr_put (b[d := b ! s]) (Suc d) (take n (drop (Suc s) (b[d := b ! s]))))"
    using Suc.prems by (intro Suc.IH) simp_all
  moreover have "take (Suc n) (drop s b) = b ! s # take n (drop (Suc s) b)"
    using Suc.prems by (simp add: Cons_nth_drop_Suc [symmetric])
  ultimately show ?case using Suc.prems by (simp add: bput_nat arr_put_Cons add.commute)
qed (simp add: arr_put_def)

lemma move_down_eq:
  "s \<le> d \<Longrightarrow> d + n \<le> length b \<Longrightarrow> move_down b (int d) (int s) n = Some (arr_put b d (take n (drop s b)))"
proof (induction n arbitrary: b)
  case (Suc n)
  let ?b = "b[d + n := b ! (s + n)]"
  have "move_down ?b (int d) (int s) n = Some (arr_put ?b d (take n (drop s ?b)))"
    using Suc.prems by (intro Suc.IH) simp_all
  moreover have "take n (drop s ?b) = take n (drop s b)"
    using Suc.prems by (simp add: take_drop add.commute)
  moreover have "arr_put ?b d (take n (drop s b)) = arr_put b d (take (Suc n) (drop s b))"
    using Suc.prems by (intro nth_equalityI) (auto simp: nth_arr_put nth_list_update add.commute)
  ultimately show ?case using Suc.prems by (simp add: bput_nat nat_add_distrib flip: of_nat_add)
qed (simp add: arr_put_def)

lemma buf_memmove_eq:
  "s + n \<le> length b \<Longrightarrow> d + n \<le> length b \<Longrightarrow> buf_memmove b d s n = Some (arr_put b d (take n (drop s b)))"
  by (simp add: buf_memmove_def move_up_eq move_down_eq)

subsection \<open>Screen positions\<close>

text \<open>The position on an endless screen, and the order of positions.\<close>

definition pos :: "u8 list \<Rightarrow> nat \<Rightarrow> nat \<times> nat" where
  "pos t i = fold advance (take i t) (0, 0)"

definition pos_le :: "nat \<times> nat \<Rightarrow> nat \<times> nat \<Rightarrow> bool" where
  "pos_le p q \<longleftrightarrow> fst p < fst q \<or> fst p = fst q \<and> snd p \<le> snd q"

lemma row_col_pos: "len \<le> length buf \<Longrightarrow> row_col_of_index buf len i = pos (take len buf) i"
proof -
  assume l: "len \<le> length buf"
  have "map (arr_get buf) [0..<n] = take n buf" if "n \<le> length buf" for n
    using that by (intro nth_equalityI) simp_all
  then have "take i (take len buf) = map (arr_get buf) [0..<min i len]" using l by (simp add: min_def)
  then show ?thesis by (simp only: row_col_of_index_def pos_def fold_map o_def)
qed

lemma pos_step: "i < length t \<Longrightarrow> pos t (Suc i) = advance (t ! i) (pos t i)"
  by (simp add: pos_def take_Suc_conv_app_nth)

lemma pos_0 [simp]: "pos t 0 = (0, 0)"
  by (simp add: pos_def)

lemma advance_gt: "\<not> pos_le (advance ch p) p" "pos_le p (advance ch p)"
  by (auto simp: pos_le_def advance_def split: prod.splits)

lemma pos_le_trans: "pos_le p q \<Longrightarrow> pos_le q r \<Longrightarrow> pos_le p r"
  by (auto simp: pos_le_def)

lemma pos_col: "snd (pos t i) < 80"
proof (induction i)
  case (Suc i)
  show ?case
  proof (cases "i < length t")
    case True
    then show ?thesis using Suc by (auto simp: pos_step advance_def split: prod.splits)
  qed (use Suc in \<open>simp add: pos_def\<close>)
qed simp

lemma pos_mono: "i \<le> j \<Longrightarrow> pos_le (pos t i) (pos t j)"
proof (induction j)
  case (Suc j)
  show ?case
  proof (cases "i = Suc j \<or> length t \<le> j")
    case True
    then show ?thesis using Suc by (auto simp: pos_def pos_le_def le_Suc_eq)
  next
    case False
    then show ?thesis using Suc advance_gt(2) pos_le_trans by (auto simp: pos_step)
  qed
qed (simp add: pos_le_def)

lemma pos_strict: "i < j \<Longrightarrow> j \<le> length t \<Longrightarrow> \<not> pos_le (pos t j) (pos t i)"
  using pos_mono [of "Suc i" j t] pos_step [of i t] advance_gt(1) pos_le_trans by (metis Suc_leI less_le_trans)

text \<open>Where the cursor goes: the last position that is not after row \<open>r\<close>, column \<open>c\<close>.\<close>

definition screen_index :: "u8 list \<Rightarrow> nat \<Rightarrow> nat \<Rightarrow> nat" where
  "screen_index t r c = last (filter (\<lambda>i. pos_le (pos t i) (r, c)) [0..<Suc (length t)])"

lemma screen_index_eq:
  assumes "k \<le> length t" "pos_le (pos t k) (r, c)" "k = length t \<or> \<not> pos_le (pos t (Suc k)) (r, c)"
  shows "screen_index t r c = k"
proof -
  have "pos_le (pos t i) (r, c) \<longleftrightarrow> i \<le> k" if "i \<le> length t" for i
  proof
    assume p: "pos_le (pos t i) (r, c)"
    show "i \<le> k"
    proof (rule ccontr)
      assume "\<not> i \<le> k"
      then show False using assms(3) p pos_mono [of "Suc k" i t] pos_le_trans that by auto
    qed
  next
    assume "i \<le> k"
    then show "pos_le (pos t i) (r, c)" using assms(2) pos_mono pos_le_trans by blast
  qed
  then have "filter (\<lambda>i. pos_le (pos t i) (r, c)) [0..<Suc (length t)] = filter (\<lambda>i. i \<le> k) [0..<Suc (length t)]"
    by (intro filter_cong) auto
  also have "\<dots> = [0..<Suc k]"
    using assms(1) upt_add_eq_append [of 0 "Suc k" "length t - k"]
    by (simp del: upt_Suc add: filter_id_conv)
  finally show ?thesis by (simp add: screen_index_def)
qed

lemma col_scan_spec:
  assumes "snd rc < 80" "tc < 80" "pos_le rc (tr, tc)"
  shows "\<exists>k. col_scan (int tr) (int tc) i rc cs = i + k \<and> k \<le> length cs \<and> pos_le (fold advance (take k cs) rc) (tr, tc) \<and>
    (k = length cs \<or> \<not> pos_le (fold advance (take (Suc k) cs) rc) (tr, tc))"
  using assms
proof (induction cs arbitrary: i rc)
  case (Cons ch cs)
  obtain r c where rc: "rc = (r, c)" by fastforce
  show ?case
  proof (cases "pos_le (advance ch rc) (tr, tc)")
    case True
    have "snd (advance ch rc) < 80" using Cons.prems(1) rc by (auto simp: advance_def)
    from Cons.IH [OF this Cons.prems(2) True, of "i + 1"] obtain k
      where k: "col_scan (int tr) (int tc) (i + 1) (advance ch rc) cs = i + 1 + k" "k \<le> length cs"
        "pos_le (fold advance (take k cs) (advance ch rc)) (tr, tc)"
        "k = length cs \<or> \<not> pos_le (fold advance (take (Suc k) cs) (advance ch rc)) (tr, tc)" by blast
    have "col_scan (int tr) (int tc) i rc (ch # cs) = col_scan (int tr) (int tc) (i + 1) (advance ch rc) cs"
      using True rc Cons.prems by (auto simp: advance_def pos_le_def split: if_splits)
    then show ?thesis using k by (intro exI [of _ "Suc k"]) auto
  next
    case False
    then have "col_scan (int tr) (int tc) i rc (ch # cs) = i"
      using Cons.prems rc by (auto simp: advance_def pos_le_def split: if_splits)
    then show ?thesis using False Cons.prems by (intro exI [of _ 0]) auto
  qed
qed simp

lemma index_of_row_col_screen:
  assumes "len \<le> length buf" "tc < 80"
  shows "index_of_row_col buf len (int tr) (int tc) = screen_index (take len buf) tr tc"
proof (cases "tr = 0 \<and> tc = 0")
  case True
  have "screen_index (take len buf) 0 0 = 0"
  proof (rule screen_index_eq)
    show "0 = length (take len buf) \<or> \<not> pos_le (pos (take len buf) (Suc 0)) (0, 0)"
      using pos_strict [of 0 "Suc 0" "take len buf"] by (cases "take len buf") auto
  qed (simp_all add: pos_le_def)
  then show ?thesis using True by (simp add: index_of_row_col_def)
next
  case False
  have "pos_le (0, 0) (tr, tc)" by (auto simp: pos_le_def)
  from col_scan_spec [OF _ assms(2) this, of 0 "take len buf"] obtain k
    where "col_scan (int tr) (int tc) 0 (0, 0) (take len buf) = k" "k \<le> length (take len buf)"
      "pos_le (pos (take len buf) k) (tr, tc)" "k = length (take len buf) \<or> \<not> pos_le (pos (take len buf) (Suc k)) (tr, tc)"
    by (auto simp: pos_def)
  then show ?thesis using False screen_index_eq by (auto simp: index_of_row_col_def)
qed

text \<open>The index found is inside the text.\<close>

lemma screen_index_le: "screen_index t r c \<le> length t"
proof -
  let ?xs = "filter (\<lambda>i. pos_le (pos t i) (r, c)) [0..<Suc (length t)]"
  have "0 \<in> set ?xs" by (auto simp: pos_le_def simp del: upt_Suc)
  then have "?xs \<noteq> []" by (metis empty_iff list.set(1))
  then have "last ?xs \<in> set ?xs" by (rule last_in_set)
  then show ?thesis by (auto simp: screen_index_def simp del: upt_Suc)
qed

lemma screen_index_pos: "i \<le> length t \<Longrightarrow> screen_index t (fst (pos t i)) (snd (pos t i)) = i"
  using pos_strict [of i "Suc i" t] by (intro screen_index_eq) (auto simp: pos_le_def [of "pos t i" "pos t i"])

subsection \<open>Editing refines a text with a cursor\<close>

definition editor_ok :: "editor \<Rightarrow> bool" where
  "editor_ok e \<longleftrightarrow> length (e_buf e) = EDIT_BUF \<and> e_len e \<le> EDIT_BUF \<and> e_cur e \<le> e_len e"

definition etext :: "editor \<Rightarrow> u8 list" where "etext e = take (e_len e) (e_buf e)"

definition insert_spec :: "u8 \<Rightarrow> u8 list \<times> nat \<Rightarrow> u8 list \<times> nat" where
  "insert_spec ch x = (let (t, i) = x in if length t + 1 < EDIT_BUF then (take i t @ [ch] @ drop i t, i + 1) else (t, i))"

definition edit_spec :: "int \<Rightarrow> u8 list \<times> nat \<Rightarrow> u8 list \<times> nat" where
  "edit_spec key x =
     (let (t, i) = x; (r, c) = pos t i in
      if key = 0x102 then (t, i - 1)
      else if key = 0x103 then (t, min (i + 1) (length t))
      else if key = 0x100 then (t, if r = 0 then i else screen_index t (r - 1) c)
      else if key = 0x101 then (t, screen_index t (r + 1) c)
      else if key = 0x104 then (take i t @ drop (i + 1) t, i)
      else if key = 8 then (take (i - 1) t @ drop i t, i - 1)
      else if key = 13 \<or> key = 10 then insert_spec 10 x
      else if 32 \<le> key \<and> key < 127 then insert_spec (word_of_int key) x
      else x)"

lemma etext_length: "editor_ok e \<Longrightarrow> length (etext e) = e_len e"
  by (simp add: editor_ok_def etext_def)

lemma editor_insert_refines:
  assumes "editor_ok e"
  shows "\<exists>e'. editor_insert ch e = Some e' \<and> editor_ok e' \<and> (etext e', e_cur e') = insert_spec ch (etext e, e_cur e)"
proof (cases "e_len e + 1 < EDIT_BUF")
  case True
  let ?i = "e_cur e" and ?b = "e_buf e" and ?l = "e_len e"
  let ?b' = "arr_put ?b (?i + 1) (take (?l - ?i) (drop ?i ?b))"
  have ok: "length ?b = EDIT_BUF" "?i \<le> ?l" using assms by (simp_all add: editor_ok_def)
  have m: "buf_memmove ?b (?i + 1) ?i (?l - ?i) = Some ?b'" using ok True by (intro buf_memmove_eq) simp_all
  have l: "length ?b' = EDIT_BUF" using ok True by simp
  have "take (Suc ?l) (?b'[?i := ch]) = take ?i (etext e) @ [ch] @ drop ?i (etext e)"
    using ok True l
    by (intro nth_equalityI) (auto simp: etext_def nth_append nth_Cons nth_arr_put nth_list_update split: nat.splits
      intro!: arg_cong [where f = "(!) (e_buf e)"])
  then show ?thesis using True m l ok assms
    by (simp add: editor_insert_def bput_nat insert_spec_def etext_length editor_ok_def) (simp add: etext_def)
qed (use assms in \<open>simp add: editor_insert_def insert_spec_def etext_length\<close>)

text \<open>Removing the character at \<open>i\<close>.\<close>

lemma remove_char:
  assumes "length b = EDIT_BUF" "i < l" "l \<le> EDIT_BUF"
  shows "\<exists>b'. buf_memmove b i (i + 1) (l - i - 1) = Some b' \<and> length b' = EDIT_BUF \<and>
    take (l - 1) b' = take i (take l b) @ drop (i + 1) (take l b)"
proof -
  let ?b = "arr_put b i (take (l - i - 1) (drop (i + 1) b))"
  have "buf_memmove b i (i + 1) (l - i - 1) = Some ?b" "length ?b = EDIT_BUF"
    using assms by (simp_all add: buf_memmove_eq)
  moreover have "take (l - 1) ?b = take i (take l b) @ drop (i + 1) (take l b)"
    using assms by (intro nth_equalityI) (auto simp: nth_append nth_arr_put)
  ultimately show ?thesis by blast
qed

lemma pos_etext: "editor_ok e \<Longrightarrow> row_col_of_index (e_buf e) (e_len e) i = pos (etext e) i"
  by (simp add: row_col_pos editor_ok_def etext_def)

lemma index_etext:
  "editor_ok e \<Longrightarrow> c < 80 \<Longrightarrow> index_of_row_col (e_buf e) (e_len e) (int r) (int c) = screen_index (etext e) r c"
  by (simp add: index_of_row_col_screen editor_ok_def etext_def)

lemma editor_edit_refines_core:
  assumes "editor_ok e"
  shows "\<exists>e'. editor_edit key e = Some e' \<and> editor_ok e' \<and> (etext e', e_cur e') = edit_spec key (etext e, e_cur e)"
proof -
  note L = etext_length [OF assms]
  obtain r c where rc: "pos (etext e) (e_cur e) = (r, c)" by fastforce
  then have c: "c < 80" using pos_col [of "etext e" "e_cur e"] by simp
  have ok: "length (e_buf e) = EDIT_BUF" "e_len e \<le> EDIT_BUF" "e_cur e \<le> e_len e" using assms by (simp_all add: editor_ok_def)
  have go: "editor_ok (e\<lparr>e_cur := i\<rparr>) \<and> etext (e\<lparr>e_cur := i\<rparr>) = etext e" if "i \<le> e_len e" for i
    using that ok by (simp add: editor_ok_def etext_def)
  have S: "screen_index (etext e) a b \<le> e_len e" for a b using screen_index_le [of "etext e"] L by simp
  consider "key = 0x102" | "key = 0x103" | "key = 0x100" | "key = 0x101" | "key = 0x104" | "key = 8"
    | "key = 13 \<or> key = 10" | "32 \<le> key" "key < 127" | "key \<notin> {0x100, 0x101, 0x102, 0x103, 0x104, 8, 13, 10}" "\<not> (32 \<le> key \<and> key < 127)"
    by auto
  then show ?thesis
  proof cases
    case 1
    then show ?thesis using go [of "e_cur e - 1"] assms ok rc by (auto simp: editor_edit_def edit_spec_def)
  next
    case 2
    then show ?thesis using go [of "e_cur e + 1"] assms ok rc L by (auto simp: editor_edit_def edit_spec_def)
  next
    case 3
    then show ?thesis using go S assms rc index_etext [OF assms c, of "r - 1"] pos_etext [OF assms]
      by (auto simp: editor_edit_def edit_spec_def of_nat_diff)
  next
    case 4
    then show ?thesis using go S assms rc index_etext [OF assms c, of "r + 1"] pos_etext [OF assms]
      by (auto simp: editor_edit_def edit_spec_def add.commute)
  next
    case 5
    show ?thesis
    proof (cases "e_cur e < e_len e")
      case True
      from remove_char [OF ok(1) True ok(2)] obtain b where "buf_memmove (e_buf e) (e_cur e) (e_cur e + 1) (e_len e - e_cur e - 1) = Some b"
        "length b = EDIT_BUF" "take (e_len e - 1) b = take (e_cur e) (etext e) @ drop (e_cur e + 1) (etext e)"
        unfolding etext_def by blast
      then show ?thesis using 5 True ok rc by (simp add: editor_edit_def edit_spec_def editor_ok_def) (auto simp: etext_def)
    qed (use 5 assms ok rc L in \<open>simp add: editor_edit_def edit_spec_def\<close>)
  next
    case 6
    show ?thesis
    proof (cases "e_cur e > 0")
      case True
      then have "e_cur e - 1 < e_len e" "e_cur e - 1 + 1 = e_cur e" "e_len e - (e_cur e - 1) - 1 = e_len e - e_cur e" using ok by auto
      with remove_char [OF ok(1) this(1) ok(2)] obtain b where "buf_memmove (e_buf e) (e_cur e - 1) (e_cur e) (e_len e - e_cur e) = Some b"
        "length b = EDIT_BUF" "take (e_len e - 1) b = take (e_cur e - 1) (etext e) @ drop (e_cur e) (etext e)"
        unfolding etext_def by auto
      then show ?thesis using 6 True ok rc by (simp add: editor_edit_def edit_spec_def editor_ok_def) (auto simp: etext_def)
    qed (use 6 assms ok rc L in \<open>simp add: editor_edit_def edit_spec_def\<close>)
  next
    case 7
    then show ?thesis using editor_insert_refines [OF assms] rc by (auto simp: editor_edit_def edit_spec_def)
  next
    case 8
    then show ?thesis using editor_insert_refines [OF assms] rc by (auto simp: editor_edit_def edit_spec_def)
  next
    case 9
    then show ?thesis using assms rc by (auto simp: editor_edit_def edit_spec_def)
  qed
qed

subsection \<open>A session\<close>

text \<open>What a key means for the text and the cursor, with the page keys.\<close>

definition key_spec :: "int \<Rightarrow> u8 list \<times> nat \<Rightarrow> u8 list \<times> nat" where
  "key_spec key x =
     (let (t, i) = x; (r, c) = pos t i in
      if key = 0 \<or> key = 17 \<or> key = 19 then x
      else if key = 21 then (t, screen_index t (r - 23) c)
      else if key = 4 then (t, screen_index t (r + 23) c)
      else edit_spec key x)"

lemma move_cursor_etext:
  assumes "editor_ok e" "pos (etext e) (e_cur e) = (r, c)"
  shows "move_cursor_rows (e_buf e) (e_len e) (e_cur e) (- 23) = screen_index (etext e) (r - 23) c"
    "move_cursor_rows (e_buf e) (e_len e) (e_cur e) 23 = screen_index (etext e) (r + 23) c"
proof -
  have c: "c < 80" using pos_col [of "etext e" "e_cur e"] assms(2) by simp
  have "(if int r - 23 < 0 then 0 else int r - 23) = int (r - 23)" "int r + 23 = int (r + 23)" by auto
  then show "move_cursor_rows (e_buf e) (e_len e) (e_cur e) (- 23) = screen_index (etext e) (r - 23) c"
    "move_cursor_rows (e_buf e) (e_len e) (e_cur e) 23 = screen_index (etext e) (r + 23) c"
    using index_etext [OF assms(1) c, of "r - 23"] index_etext [OF assms(1) c, of "r + 23"]
    by (simp_all add: move_cursor_rows_def pos_etext [OF assms(1)] assms(2))
qed

lemma editor_frame:
  assumes "e_buf e' = e_buf e" "e_len e' = e_len e" "e_cur e' = e_cur e"
  shows "editor_ok e' = editor_ok e" "etext e' = etext e"
  using assms by (simp_all add: editor_ok_def etext_def)

text \<open>Drawing changes neither the text nor what is known about it.\<close>

text \<open>The status line fits its array.\<close>

lemma status_line_fits: "\<exists>ln. status_line name dirty status = Some ln"
proof -
  define p where "p = take (70 - 1) name"
  define n where "n = 1 + length p + 1"
  define t where "t = (case status of None \<Rightarrow> [] | Some t \<Rightarrow> take (79 - n) t)"
  define q where "q = n + length t"
  have n: "length p \<le> 69" "n \<le> 71" "q \<le> 79" by (auto simp: n_def p_def q_def t_def split: option.splits)
  obtain b1 where b1: "bput (replicate 80 0xCC) 0 (if dirty then 0x2A else 0x20) = Some b1" "length b1 = 80"
    using bput_fits [of 0 "replicate 80 0xCC"] by auto
  obtain b2 where b2: "bputs b1 1 p = Some b2" "length b2 = 80" using bputs_fits [of 1 p b1] b1(2) n by auto
  obtain b3 where b3: "bput b2 (int (1 + length p)) 0x20 = Some b3" "length b3 = 80"
    using bput_fits [of "1 + length p" b2] b2(2) n by fastforce
  obtain b4 where b4: "bputs b3 (int n) t = Some b4" "length b4 = 80" using bputs_fits [of n t b3] b3(2) n by (auto simp: q_def)
  obtain b5 where b5: "bputs b4 (int q) (replicate (79 - q) 0x20) = Some b5" "length b5 = 80"
    using bputs_fits [of q "replicate (79 - q) 0x20" b4] b4(2) n by auto
  obtain b6 where b6: "bput b5 (int (q + (79 - q))) 0 = Some b6" using bput_fits [of "q + (79 - q)" b5] b5(2) n by auto
  show ?thesis
    unfolding status_line_def p_def [symmetric] Let_def b1(1) bind.bind_lunit b2(1) b3(1) n_def [symmetric] t_def [symmetric] b4(1)
      q_def [symmetric] b5(1) b6 by simp
qed

lemma editor_show_keeps:
  "\<exists>out e'. editor_show name e = Some (out, e') \<and> e_buf e' = e_buf e \<and> e_len e' = e_len e \<and> e_cur e' = e_cur e \<and>
    e_dirty e' = e_dirty e \<and> e_quit e' = e_quit e"
proof -
  obtain ln where "status_line name (e_dirty e) (e_status e) = Some ln" using status_line_fits by blast
  then show ?thesis
    by (simp add: editor_show_def editor_redraw_def editor_scroll_def Let_def split: prod.splits)
qed

lemma editor_idle_keeps:
  "e_buf (snd (editor_idle e)) = e_buf e" "e_len (snd (editor_idle e)) = e_len e"
  "e_cur (snd (editor_idle e)) = e_cur e" "e_dirty (snd (editor_idle e)) = e_dirty e"
  by (simp_all add: editor_idle_def Let_def)

lemma editor_edit_clean: "editor_edit key e = Some e' \<Longrightarrow> \<not> e_dirty e' \<Longrightarrow> \<not> e_dirty e \<and> etext e' = etext e"
  by (auto simp: editor_edit_def editor_insert_def etext_def Let_def bind_eq_Some_conv split: if_splits prod.splits)

text \<open>A key other than Ctrl+S leaves the system alone.\<close>

lemma editor_key_plain:
  assumes "editor_ok e" "key \<noteq> 19"
  shows "\<exists>out e' q. editor_key fc path key e k = Some (out, e', k, q) \<and> editor_ok e' \<and>
    (etext e', e_cur e') = key_spec key (etext e, e_cur e) \<and> (\<not> e_dirty e' \<longrightarrow> \<not> e_dirty e \<and> etext e' = etext e) \<and>
    (q \<longrightarrow> key = 17 \<and> (e_dirty e' \<longrightarrow> e_quit e'))"
proof -
  obtain r c where rc: "pos (etext e) (e_cur e) = (r, c)" by fastforce
  let ?e = "e\<lparr>e_blink := True, e_blinks := 0\<rparr>"
  have go: "editor_ok (?e\<lparr>e_cur := screen_index (etext e) a b, e_redraw := True\<rparr>) \<and>
      etext (?e\<lparr>e_cur := screen_index (etext e) a b, e_redraw := True\<rparr>) = etext e" for a b
    using screen_index_le [of "etext e" a b] etext_length [OF assms(1)] assms(1) by (simp add: editor_ok_def etext_def)
  consider "key = 0" | "key = 17" | "key = 21" | "key = 4" | "key \<notin> {0, 17, 21, 4, 19}" using assms(2) by blast
  then show ?thesis
  proof cases
    case 1
    obtain out0 e0 where s: "editor_idle e = (out0, e0)" by fastforce
    have "editor_ok e0" "etext e0 = etext e" "e_cur e0 = e_cur e" "e_dirty e0 = e_dirty e"
      using editor_idle_keeps [of e] editor_frame [of e0 e] assms(1) by (simp_all add: s)
    then show ?thesis using 1 s rc by (auto simp: editor_key_def key_spec_def)
  next
    case 2
    have k: "key_spec 17 (etext e, e_cur e) = (etext e, e_cur e)" using rc by (simp add: key_spec_def)
    show ?thesis
    proof (cases "e_dirty e \<and> \<not> e_quit e")
      case True
      then show ?thesis using 2 k assms(1) by (simp add: editor_key_def editor_ok_def) (auto simp: etext_def)
    next
      case False
      then show ?thesis using 2 k assms(1)
        by (auto simp: editor_key_def editor_frame [of "e\<lparr>e_blink := True, e_blinks := 0\<rparr>" e])
    qed
  next
    case 3
    then show ?thesis using go rc move_cursor_etext(1) [OF assms(1) rc] by (auto simp: editor_key_def key_spec_def)
  next
    case 4
    then show ?thesis using go rc move_cursor_etext(2) [OF assms(1) rc] by (auto simp: editor_key_def key_spec_def)
  next
    case 5
    let ?f = "?e\<lparr>e_quit := False\<rparr>"
    have f: "editor_ok ?f" "etext ?f = etext e" "e_cur ?f = e_cur e" "e_dirty ?f = e_dirty e"
      using assms(1) by (simp_all add: editor_ok_def etext_def)
    obtain e' where e': "editor_edit key ?f = Some e'" "editor_ok e'" "(etext e', e_cur e') = edit_spec key (etext e, e_cur e)"
      using editor_edit_refines_core [OF f(1)] f(2,3) by metis
    with editor_edit_clean [OF e'(1)] f 5 rc show ?thesis by (auto simp: editor_key_def key_spec_def)
  qed
qed

lemma editor_key_save:
  assumes "editor_ok e" "f_save fc path (e_buf e) (e_len e) k = (rc, k1)"
  shows "\<exists>e'. editor_key fc path 19 e k = Some ([], e', if rc = 0 then snd (f_sync fc k1) else k1, False) \<and> editor_ok e' \<and>
    etext e' = etext e \<and> e_cur e' = e_cur e \<and> e_dirty e' = (rc \<noteq> 0 \<and> e_dirty e)"
  using assms by (auto simp: editor_key_def editor_ok_def etext_def Let_def split: prod.splits)

text \<open>
  What the editor needs of the system: \<open>view k p\<close> is the contents of the file \<open>p\<close>, and \<open>roomy m k\<close> says that
  the system is in order with room for \<open>m\<close> more versions of the text.
\<close>

definition path_ok :: "u8 list \<Rightarrow> bool" where
  "path_ok p \<longleftrightarrow> p \<noteq> [] \<and> length p \<le> 47 \<and> 0 \<notin> set p"

locale file_service =
  fixes fc :: "('k, 'z) file_calls_scheme" and view :: "'k \<Rightarrow> u8 list \<Rightarrow> u8 list option" and roomy :: "nat \<Rightarrow> 'k \<Rightarrow> bool"
  assumes load: "roomy m k \<Longrightarrow> mx \<le> EDIT_BUF \<Longrightarrow> f_load fc p mx k =
      (case view k p of None \<Rightarrow> (-1, []) | Some c \<Rightarrow> if length c > mx then (-1, []) else (int (length c), c))"
    and save: "roomy (Suc m) k \<Longrightarrow> path_ok p \<Longrightarrow> (n + 511) div 512 * 512 \<le> length buf \<Longrightarrow> n \<le> EDIT_BUF \<Longrightarrow> f_save fc p buf n k = (rc, k') \<Longrightarrow>
      roomy m k' \<and> (if rc = 0 then view k' p = Some (take n buf) else view k' = view k)"
    and sync: "roomy m k \<Longrightarrow> roomy m (snd (f_sync fc k)) \<and> view (snd (f_sync fc k)) = view k"
    and fewer: "roomy (Suc m) k \<Longrightarrow> roomy m k"
begin

definition stored :: "u8 list \<Rightarrow> u8 list option \<Rightarrow> u8 list \<Rightarrow> 'k \<Rightarrow> u8 list \<Rightarrow> bool" where
  "stored p v0 t0 k t \<longleftrightarrow> view k p = Some t \<or> view k p = v0 \<and> t = t0"

lemma key_step:
  assumes "editor_ok e" "roomy (Suc m) k" "path_ok path" "\<not> e_dirty e \<longrightarrow> stored path v0 t0 k (etext e)"
  shows "\<exists>out e' k' q. editor_key fc path key e k = Some (out, e', k', q) \<and> editor_ok e' \<and> roomy m k' \<and>
    (etext e', e_cur e') = key_spec key (etext e, e_cur e) \<and> (\<not> e_dirty e' \<longrightarrow> stored path v0 t0 k' (etext e')) \<and>
    (q \<longrightarrow> e_dirty e' \<longrightarrow> e_quit e')"
proof (cases "key = 19")
  case True
  obtain rc k1 where s: "f_save fc path (e_buf e) (e_len e) k = (rc, k1)" by fastforce
  have "(e_len e + 511) div 512 * 512 \<le> length (e_buf e)" "e_len e \<le> EDIT_BUF"
    using assms(1) by (auto simp: editor_ok_def EDIT_BUF_def)
  note S = save [OF assms(2,3) this s]
  from editor_key_save [OF assms(1) s] obtain e' where e': "editor_ok e'" "etext e' = etext e" "e_cur e' = e_cur e"
    "e_dirty e' = (rc \<noteq> 0 \<and> e_dirty e)"
    "editor_key fc path 19 e k = Some ([], e', if rc = 0 then snd (f_sync fc k1) else k1, False)" by blast
  moreover have "stored path v0 t0 (if rc = 0 then snd (f_sync fc k1) else k1) (etext e')" if "\<not> e_dirty e'"
    using that e'(2,4) S sync [of m k1] assms(4) by (auto simp: stored_def etext_def)
  moreover have "roomy m (if rc = 0 then snd (f_sync fc k1) else k1)" using S sync by simp
  moreover have "(etext e', e_cur e') = key_spec key (etext e, e_cur e)" using True e' by (simp add: key_spec_def split: prod.splits)
  ultimately show ?thesis using True by auto
next
  case False
  from editor_key_plain [OF assms(1) this, of fc path k] obtain out e' q
    where "editor_key fc path key e k = Some (out, e', k, q)" "editor_ok e'" "(etext e', e_cur e') = key_spec key (etext e, e_cur e)"
      "\<not> e_dirty e' \<longrightarrow> \<not> e_dirty e \<and> etext e' = etext e" "q \<longrightarrow> key = 17 \<and> (e_dirty e' \<longrightarrow> e_quit e')" by blast
  then show ?thesis using assms(4) fewer [OF assms(2)] by auto
qed

lemma roomy_less: "roomy (n + m) k \<Longrightarrow> roomy m k"
  by (induction n) (auto dest: fewer)

lemma session:
  assumes "editor_ok e" "roomy (length keys + m) k" "path_ok path" "\<not> e_dirty e \<longrightarrow> stored path v0 t0 k (etext e)"
  shows "\<exists>out e' k' q. edit_loop fc name path keys e k = Some (out, e', k', q) \<and> editor_ok e' \<and>
    (\<exists>n \<le> length keys. (etext e', e_cur e') = fold key_spec (take n keys) (etext e, e_cur e) \<and> (\<not> q \<longrightarrow> n = length keys)) \<and>
    (\<not> e_dirty e' \<longrightarrow> stored path v0 t0 k' (etext e')) \<and> (q \<longrightarrow> e_dirty e' \<longrightarrow> e_quit e') \<and> roomy m k'"
  using assms
proof (induction keys arbitrary: e k)
  case Nil
  obtain out0 e0 where s: "editor_show name e = Some (out0, e0)" "e_buf e0 = e_buf e" "e_len e0 = e_len e" "e_cur e0 = e_cur e"
    "e_dirty e0 = e_dirty e" "e_quit e0 = e_quit e" using editor_show_keeps by blast
  then have "editor_ok e0" "etext e0 = etext e" "e_cur e0 = e_cur e" "e_dirty e0 = e_dirty e"
    using editor_frame [of e0 e] Nil.prems(1) by simp_all
  then show ?case using Nil.prems(2,4) by (auto simp: s(1))
next
  case (Cons key keys)
  obtain out0 e0 where s: "editor_show name e = Some (out0, e0)" "e_buf e0 = e_buf e" "e_len e0 = e_len e" "e_cur e0 = e_cur e"
    "e_dirty e0 = e_dirty e" "e_quit e0 = e_quit e" using editor_show_keeps by blast
  then have e0: "editor_ok e0" "etext e0 = etext e" "e_cur e0 = e_cur e" "e_dirty e0 = e_dirty e"
    using editor_frame [of e0 e] Cons.prems(1) by simp_all
  from key_step [OF e0(1), of "length keys + m" k path v0 t0 key] Cons.prems e0 obtain out1 e1 k1 q1
    where k1: "editor_key fc path key e0 k = Some (out1, e1, k1, q1)" "editor_ok e1" "roomy (length keys + m) k1"
      "(etext e1, e_cur e1) = key_spec key (etext e, e_cur e)" "\<not> e_dirty e1 \<longrightarrow> stored path v0 t0 k1 (etext e1)"
      "q1 \<longrightarrow> e_dirty e1 \<longrightarrow> e_quit e1" by auto
  show ?case
  proof (cases q1)
    case True
    then show ?thesis using s(1) k1 roomy_less [OF k1(3)] by (auto intro!: exI [of _ 1])
  next
    case False
    from Cons.IH [OF k1(2,3) Cons.prems(3) k1(5)] obtain out2 e2 k2 q2 n
      where "edit_loop fc name path keys e1 k1 = Some (out2, e2, k2, q2)" "editor_ok e2" "n \<le> length keys"
        "(etext e2, e_cur e2) = fold key_spec (take n keys) (etext e1, e_cur e1)" "\<not> q2 \<longrightarrow> n = length keys"
        "\<not> e_dirty e2 \<longrightarrow> stored path v0 t0 k2 (etext e2)" "q2 \<longrightarrow> e_dirty e2 \<longrightarrow> e_quit e2" "roomy m k2" by blast
    then show ?thesis using False s(1) k1 by (auto intro!: exI [of _ "Suc n"])
  qed
qed

end

subsection \<open>The screen\<close>

text \<open>After scrolling the cursor's row is one of the 24 on the screen, and a redraw puts the cursor there.\<close>

lemma cursor_visible:
  assumes "editor_ok e"
  shows "e_top (editor_scroll e) \<le> fst (pos (etext e) (e_cur e))" "fst (pos (etext e) (e_cur e)) < e_top (editor_scroll e) + 24"
  using pos_etext [OF assms, of "e_cur e"] by (auto simp: editor_scroll_def Let_def split: prod.splits)

lemma redraw_cursor:
  assumes "editor_ok e" "pos (etext e) (e_cur e) = (r, c)" "t \<le> r" "r < t + 24"
  shows "\<exists>out. editor_redraw name (e_buf e) (e_len e) (e_cur e) t d s = Some out \<and> last out = SetCursor c (r - t)"
  using assms(2-4) pos_col [of "etext e" "e_cur e"] pos_etext [OF assms(1), of "e_cur e"]
    status_line_fits [of name d s]
  by (auto simp: editor_redraw_def screen_row_def Let_def split: prod.splits)

subsection \<open>Properties\<close>

text \<open>
  The editor's buffer is a text with a cursor: in every state with the cursor inside the text and for
  every key, the handler stays inside its buffer and does to the text and the cursor what the key means
  on a list of characters - step, move to the row above or below, delete, erase, insert while there is
  room - leaving the cursor inside the text again.
\<close>

theorem editor_edit_refines:
  assumes "editor_ok e"
  shows "\<exists>e'. editor_edit key e = Some e' \<and> editor_ok e' \<and> (etext e', e_cur e') = edit_spec key (etext e, e_cur e)"
  by (rule editor_edit_refines_core [OF assms])

text \<open>
  The search for a screen position finds the right one: \<open>index_of_row_col\<close> returns the last index whose
  row and column do not come after the wanted ones, and for the position of an index that index itself.
\<close>

theorem index_of_row_col_reference:
  assumes "len \<le> length buf" and "tc < 80"
  shows "index_of_row_col buf len (int tr) (int tc) = screen_index (take len buf) tr tc \<and>
    (i \<le> len \<longrightarrow> (case row_col_of_index buf len i of (r, c) \<Rightarrow> index_of_row_col buf len (int r) (int c) = i))"
proof (intro conjI impI)
  assume i: "i \<le> len"
  obtain r c where rc: "pos (take len buf) i = (r, c)" by fastforce
  then have "c < 80" using pos_col [of "take len buf" i] by simp
  then have "index_of_row_col buf len (int r) (int c) = i"
    using index_of_row_col_screen [OF assms(1), of c r] screen_index_pos [of i "take len buf"] i assms(1) rc by simp
  then show "case row_col_of_index buf len i of (r, c) \<Rightarrow> index_of_row_col buf len (int r) (int c) = i"
    using rc by (simp add: row_col_pos [OF assms(1)])
qed (rule index_of_row_col_screen [OF assms])

definition demo_editor :: editor where
  "demo_editor = \<lparr>e_buf = [0x61, 10, 0x62] @ replicate 131069 0, e_len = 3, e_cur = 3, e_top = 0, e_dirty = False, e_quit = False,
     e_status = None, e_redraw = True, e_last_cur = - 1, e_last_top = - 1, e_blink = True, e_blinks = 0\<rparr>"

lemma demo_editor_facts: "editor_ok demo_editor" "etext demo_editor = [0x61, 10, 0x62]" "e_cur demo_editor = 3"
  by (simp_all add: editor_ok_def etext_def demo_editor_def EDIT_BUF_def)

theorem editor_edit_refines_witness:
  "\<exists>e'. editor_edit 8 demo_editor = Some e' \<and> etext e' = [0x61, 10] \<and> e_cur e' = 2"
  using editor_edit_refines [OF demo_editor_facts(1), of 8] by (auto simp: demo_editor_facts edit_spec_def split: prod.splits)

theorem index_of_row_col_reference_witness:
  "index_of_row_col [0x61, 10, 0x62] 3 1 0 = 2 \<and> index_of_row_col [0x61, 10, 0x62] 3 0 5 = 1"
proof -
  have "screen_index (take 3 [0x61, 10, 0x62]) 1 0 = 2" "screen_index (take 3 [0x61, 10, 0x62]) 0 5 = 1" by code_simp+
  then show ?thesis
    using index_of_row_col_reference [of 3 "[0x61, 10, 0x62]" 0 1 0] index_of_row_col_reference [of 3 "[0x61, 10, 0x62]" 5 0 0]
    by simp
qed

end
