(* ===== verification/PathLib.thy ===== *)
theory PathLib
  imports CBuffer
begin

text \<open>
  Path handling of the user library (user/libc.c; fs/lib/path.c is the same code for the compiler
  that runs inside the system): joining a name onto a directory and folding away \<open>.\<close> and \<open>..\<close>, the
  directory part and the last part of a path. The file system itself is flat, so these functions are
  all there is to directories.
\<close>

definition slash :: u8 where "slash = 0x2F"
definition dot :: u8 where "dot = 0x2E"
definition PATH_MAX_LEN :: int where "PATH_MAX_LEN = 64"
definition FS_NAME_MAX :: nat where "FS_NAME_MAX = 47"

subsection \<open>The code\<close>

text \<open>\<open>path_pop\<close>: the scan back over the bytes before \<open>i\<close>.\<close>

fun pop_scan :: "u8 list \<Rightarrow> nat \<Rightarrow> nat" where
  "pop_scan out 0 = 0"
| "pop_scan out (Suc i) = (if arr_get out i \<noteq> slash then pop_scan out i else Suc i)"

definition path_pop :: "u8 list \<Rightarrow> nat \<Rightarrow> (u8 list \<times> nat) option" where
  "path_pop out n =
     (let i = (if n > 0 \<and> arr_get out (n - 1) = slash then n - 1 else n); i = pop_scan out i
      in do { out \<leftarrow> bput out (int i) 0; Some (out, i) })"

text \<open>
  The loop of \<open>path_resolve\<close> from the pointer \<open>p\<close>; the result is the C result and the buffer. \<open>len\<close> is
  the count of the inner loop, \<open>start\<close> what it passes over.
\<close>

function path_loop :: "u8 list \<Rightarrow> u8 list \<Rightarrow> nat \<Rightarrow> int \<Rightarrow> (bool \<times> u8 list \<times> nat) option" where
  "path_loop p out n outsz =
     (let p = dropWhile (\<lambda>c. c = slash) p in
      if p = [] then Some (True, out, n)
      else
        let start = takeWhile (\<lambda>c. c \<noteq> slash) p; p = dropWhile (\<lambda>c. c \<noteq> slash) p; len = length start in
        if len = 1 \<and> arr_get start 0 = dot then path_loop p out n outsz
        else if len = 2 \<and> arr_get start 0 = dot \<and> arr_get start 1 = dot
        then do { (out, n) \<leftarrow> path_pop out n; path_loop p out n outsz }
        else if int n + int len + 1 \<ge> outsz then Some (False, out, n)
        else do {
          out \<leftarrow> bputs out (int n) start;
          out \<leftarrow> bput out (int (n + len)) slash;
          out \<leftarrow> bput out (int (n + len + 1)) 0;
          path_loop p out (n + len + 1) outsz
        })"
  by pat_completeness auto

lemma path_rest_shorter:
  "dropWhile (\<lambda>c. c = slash) p \<noteq> [] \<Longrightarrow> length (dropWhile (\<lambda>c. c \<noteq> slash) (dropWhile (\<lambda>c. c = slash) p)) < length p"
proof -
  assume ne: "dropWhile (\<lambda>c. c = slash) p \<noteq> []"
  let ?q = "dropWhile (\<lambda>c. c = slash) p"
  have "hd ?q \<noteq> slash" using hd_dropWhile [OF ne] by simp
  then have "length (dropWhile (\<lambda>c. c \<noteq> slash) ?q) < length ?q" using ne
    by (cases ?q) (simp_all add: le_imp_less_Suc length_dropWhile_le)
  then show ?thesis using length_dropWhile_le [of "\<lambda>c. c = slash" p] by linarith
qed

termination path_loop
  by (relation "measure (\<lambda>(p, out, n, outsz). length p)") (simp_all add: path_rest_shorter)

declare path_loop.simps [simp del]

text \<open>The copy of the base directory into the buffer, with a slash after it.\<close>

definition path_start :: "u8 list \<Rightarrow> u8 list \<Rightarrow> (u8 list \<times> nat) option" where
  "path_start b out = do {
     out \<leftarrow> bputs out 0 b;
     (out, n) \<leftarrow> (if arr_get out (length b - 1) \<noteq> slash
                 then do { out \<leftarrow> bput out (int (length b)) slash; Some (out, length b + 1) }
                 else Some (out, length b));
     out \<leftarrow> bput out (int n) 0;
     Some (out, n) }"

definition path_resolve :: "u8 list option \<Rightarrow> u8 list option \<Rightarrow> u8 list \<Rightarrow> (bool \<times> u8 list) option" where
  "path_resolve base name out =
     (let outsz = int (length out) in
      case name of None \<Rightarrow> Some (False, out)
      | Some nm \<Rightarrow>
        if nm = [] then Some (False, out)
        else do {
          out \<leftarrow> bput out 0 0;
          let b = (case base of None \<Rightarrow> [] | Some b \<Rightarrow> b);
          let rel = (arr_get nm 0 \<noteq> slash \<and> b \<noteq> []);
          if rel \<and> int (length b) + 1 \<ge> outsz then Some (False, out)
          else do {
            (out, n) \<leftarrow> (if rel then path_start b out else Some (out, 0));
            (ok, out, n) \<leftarrow> path_loop nm out n outsz;
            if \<not> ok then Some (False, out)
            else if n > 0 \<and> arr_get out (n - 1) = slash
            then do { out \<leftarrow> bput out (int (n - 1)) 0; Some (n - 1 > 0, out) }
            else Some (n > 0, out)
          }
        })"

definition path_fs :: "u8 list option \<Rightarrow> u8 list option \<Rightarrow> u8 list \<Rightarrow> (bool \<times> u8 list) option" where
  "path_fs base name out = do {
     (ok, out) \<leftarrow> path_resolve base name out;
     Some (ok \<and> length (cstr out) \<le> FS_NAME_MAX, out) }"

text \<open>\<open>path_dir\<close>: scanning back from the end, then cutting to the size of the buffer.\<close>

definition path_dir :: "u8 list \<Rightarrow> u8 list \<Rightarrow> u8 list option" where
  "path_dir path out =
     (let n = int (pop_scan path (length path)); n = (if n \<ge> int (length out) then int (length out) - 1 else n)
      in do { out \<leftarrow> bputs out 0 (take (nat n) path); bput out n 0 })"

fun path_base_loop :: "u8 list \<Rightarrow> u8 list \<Rightarrow> u8 list" where
  "path_base_loop b [] = b"
| "path_base_loop b (c # p) = (if c = slash then path_base_loop p p else path_base_loop b p)"

definition path_base :: "u8 list \<Rightarrow> u8 list" where
  "path_base path = path_base_loop path path"

subsection \<open>What a path means\<close>

text \<open>
  A directory is a sequence of segments, each followed by a slash. \<open>dir_segs\<close> splits a path at its
  slashes, \<open>joinp\<close> puts segments together again.
\<close>

function dir_segs :: "u8 list \<Rightarrow> u8 list list" where
  "dir_segs p = (if p = [] then [] else takeWhile (\<lambda>c. c \<noteq> slash) p # dir_segs (tl (dropWhile (\<lambda>c. c \<noteq> slash) p)))"
  by pat_completeness auto

termination dir_segs
proof (relation "measure length", simp)
  fix p :: "u8 list"
  assume "p \<noteq> []"
  then show "(tl (dropWhile (\<lambda>c. c \<noteq> slash) p), p) \<in> measure length"
    using length_dropWhile_le [of "\<lambda>c. c \<noteq> slash" p] by (cases p) (auto simp: less_Suc_eq_le le_diff_conv)
qed

declare dir_segs.simps [simp del]

definition joinp :: "u8 list list \<Rightarrow> u8 list" where
  "joinp ss = concat (map (\<lambda>s. s @ [slash]) ss)"

definition comps :: "u8 list \<Rightarrow> u8 list list" where
  "comps p = filter (\<lambda>s. s \<noteq> []) (dir_segs p)"

text \<open>One component applied to a directory: stay, go up, or go down if the buffer has room.\<close>

definition walk_comp :: "int \<Rightarrow> u8 list \<Rightarrow> u8 list list option \<Rightarrow> u8 list list option" where
  "walk_comp outsz c acc = (case acc of None \<Rightarrow> None | Some ss \<Rightarrow>
     if c = [dot] then Some ss
     else if c = [dot, dot] then Some (butlast ss)
     else if int (length (joinp ss)) + int (length c) + 1 \<ge> outsz then None
     else Some (ss @ [c]))"

definition resolve_spec :: "int \<Rightarrow> u8 list \<Rightarrow> u8 list \<Rightarrow> u8 list option" where
  "resolve_spec outsz b nm =
     (let rel = (hd nm \<noteq> slash \<and> b \<noteq> []) in
      if nm = [] \<or> rel \<and> int (length b) + 1 \<ge> outsz then None
      else map_option (\<lambda>ss. butlast (joinp ss)) (fold (walk_comp outsz) (comps nm) (Some (if rel then dir_segs b else []))))"

lemma joinp_simps [simp]: "joinp [] = []" "joinp (s # ss) = s @ slash # joinp ss" "joinp (ss @ ts) = joinp ss @ joinp ts"
  by (simp_all add: joinp_def)

lemma joinp_last: "joinp ss = [] \<or> last (joinp ss) = slash"
  by (induction ss rule: rev_induct) simp_all

lemma dir_segs_simps [simp]: "dir_segs [] = []"
  by (simp add: dir_segs.simps)

lemma dir_segs_no_slash: "s \<in> set (dir_segs p) \<Longrightarrow> slash \<notin> set s"
proof (induction p rule: dir_segs.induct)
  case (1 p)
  then show ?case by (subst (asm) (2) dir_segs.simps) (auto split: if_splits dest: set_takeWhileD)
qed

lemma split_at_slash:
  assumes "slash \<notin> set s"
  shows "takeWhile (\<lambda>c. c \<noteq> slash) (s @ slash # r) = s" "dropWhile (\<lambda>c. c \<noteq> slash) (s @ slash # r) = slash # r"
  using assms by (induction s) auto

lemma dir_segs_step:
  assumes "slash \<notin> set s"
  shows "dir_segs (s @ slash # r) = s # dir_segs r"
  by (subst dir_segs.simps) (simp add: split_at_slash [OF assms(1)])

lemma joinp_dir_segs: "p \<noteq> [] \<Longrightarrow> joinp (dir_segs p) = (if last p = slash then p else p @ [slash])"
proof (induction p rule: dir_segs.induct)
  case (1 p)
  define s where "s = takeWhile (\<lambda>c. c \<noteq> slash) p"
  define r where "r = dropWhile (\<lambda>c. c \<noteq> slash) p"
  have p: "p = s @ r" by (simp add: s_def r_def)
  have e: "joinp (dir_segs p) = s @ slash # joinp (dir_segs (tl r))"
    using "1.prems" by (subst dir_segs.simps) (simp add: s_def r_def)
  show ?case
  proof (cases r)
    case Nil
    then have "last p \<in> set (takeWhile (\<lambda>c. c \<noteq> slash) p)" using p "1.prems" by (simp add: s_def)
    then have "last p \<noteq> slash" by (auto dest: set_takeWhileD)
    then show ?thesis using e Nil p by simp
  next
    case (Cons c q)
    then have c: "c = slash" using hd_dropWhile [of "\<lambda>c. c \<noteq> slash" p] by (simp add: r_def)
    have "joinp (dir_segs q) = (if last q = slash then q else q @ [slash])" if "q \<noteq> []"
      using "1.IH" "1.prems" that Cons by (simp add: r_def)
    then show ?thesis using e Cons p c by (cases "q = []") simp_all
  qed
qed

lemma comps_slash: "comps (slash # r) = comps r"
  using dir_segs_step [of "[]" r] by (simp add: comps_def)

lemma comps_skip: "comps (dropWhile (\<lambda>c. c = slash) p) = comps p"
  by (induction p) (simp_all add: comps_slash)

lemma comps_first:
  assumes "p \<noteq> []" "hd p \<noteq> slash"
  shows "comps p = takeWhile (\<lambda>c. c \<noteq> slash) p # comps (dropWhile (\<lambda>c. c \<noteq> slash) p)"
proof -
  define s where "s = takeWhile (\<lambda>c. c \<noteq> slash) p"
  define r where "r = dropWhile (\<lambda>c. c \<noteq> slash) p"
  have ne: "s \<noteq> []" using assms by (cases p) (simp_all add: s_def)
  have "comps p = s # comps (tl r)" using assms ne by (simp add: comps_def dir_segs.simps [of p] s_def r_def)
  moreover have "comps (tl r) = comps r"
  proof (cases r)
    case (Cons c q)
    then have "c = slash" using hd_dropWhile [of "\<lambda>c. c \<noteq> slash" p] by (simp add: r_def)
    then show ?thesis using Cons by (simp add: comps_slash)
  qed simp
  ultimately show ?thesis by (simp add: s_def r_def)
qed

subsection \<open>The buffer follows the segments\<close>

definition at_dir :: "u8 list \<Rightarrow> u8 list list \<Rightarrow> bool" where
  "at_dir out ss \<longleftrightarrow> holds_str out (joinp ss) \<and> (\<forall>s \<in> set ss. slash \<notin> set s)"

lemma pop_scan_eq:
  assumes "slash \<notin> set s" "pre = [] \<or> last pre = slash" "take (length pre + length s) out = pre @ s" "length pre + length s \<le> length out"
  shows "pop_scan out (length pre + length s) = length pre"
  using assms
proof (induction s rule: rev_induct)
  case Nil
  show ?case
  proof (cases "length pre")
    case (Suc k)
    then have "pre \<noteq> []" by auto
    then have "last pre = slash" "pre ! k = slash" using Nil(2) Suc by (simp_all add: last_conv_nth)
    moreover have "out ! k = pre ! k" using Nil(3) Suc by (metis append_Nil2 add_0_right lessI list.size(3) nth_take)
    ultimately show ?thesis using Suc Nil(4) by (simp add: arr_get_def)
  qed simp
next
  case (snoc c s)
  have "out ! (length pre + length s) = c"
    using snoc.prems(3) by (metis append_assoc length_append length_append_singleton lessI add_Suc_right nth_append_length nth_take)
  moreover have "take (length pre + length s) out = pre @ s"
  proof -
    have "take (length pre + length s) (take (length pre + length (s @ [c])) out) = pre @ s" unfolding snoc.prems(3) by simp
    then show ?thesis by (simp add: min_def)
  qed
  ultimately show ?case using snoc by (auto simp: arr_get_def)
qed

lemma holds_str_prefix: "holds_str b (s @ t) \<Longrightarrow> holds_str (b[length s := 0]) s"
  by (rule holds_str_end) (auto simp: holds_str_def take_add dest: arg_cong [where f = "take (length s)"])

lemma path_pop_eq:
  assumes "at_dir out ss"
  shows "\<exists>out'. path_pop out (length (joinp ss)) = Some (out', length (joinp (butlast ss))) \<and> at_dir out' (butlast ss) \<and> length out' = length out"
proof (cases ss rule: rev_cases)
  case Nil
  then show ?thesis using assms by (auto simp: at_dir_def path_pop_def holds_str_def bput_def)
next
  case (snoc ts s)
  have h: "holds_str out (joinp ts @ s @ [slash])" "slash \<notin> set s" using assms snoc by (simp_all add: at_dir_def)
  then have t: "take (length (joinp ts) + length s + 1) out = joinp ts @ s @ [slash]" "length (joinp ts) + length s + 1 < length out"
    by (simp_all add: holds_str_def)
  have l: "out ! (length (joinp ts) + length s) = slash"
    using arg_cong [OF t(1), of "\<lambda>x. x ! (length (joinp ts) + length s)"] by (simp add: nth_append)
  have "take (length (joinp ts) + length s) (take (length (joinp ts) + length s + 1) out) = joinp ts @ s" unfolding t(1) by simp
  then have "take (length (joinp ts) + length s) out = joinp ts @ s" by (simp add: min_def)
  then have "pop_scan out (length (joinp ts) + length s) = length (joinp ts)"
    using h(2) joinp_last t(2) by (intro pop_scan_eq) simp_all
  then have "path_pop out (length (joinp ss)) = Some (out[length (joinp ts) := 0], length (joinp ts))"
    using l t(2) snoc by (simp add: path_pop_def arr_get_def bput_def Let_def)
  then show ?thesis using assms snoc holds_str_prefix [OF h(1)] by (simp add: at_dir_def)
qed

lemma walk_comp_None [simp]: "fold (walk_comp z) cs None = None"
  by (induction cs) (simp_all add: walk_comp_def)

lemma push_seg:
  assumes "take (length (joinp ss)) out = joinp ss" "\<forall>s \<in> set ss. slash \<notin> set s" "slash \<notin> set c"
    "length (joinp ss) + length c + 1 < length out"
  shows "\<exists>out1 out2 out3. bputs out (int (length (joinp ss))) c = Some out1 \<and>
    bput out1 (int (length (joinp ss) + length c)) slash = Some out2 \<and>
    bput out2 (int (length (joinp ss) + length c + 1)) 0 = Some out3 \<and> at_dir out3 (ss @ [c]) \<and> length out3 = length out"
proof -
  let ?n = "length (joinp ss)"
  define out1 where "out1 = arr_put out ?n c"
  have "bputs out (int ?n) c = Some out1" using assms(4) by (simp add: bputs_nat out1_def)
  moreover have l1: "length out1 = length out" using assms(4) by (simp add: out1_def arr_put_def)
  moreover have "take (?n + length c) out1 = joinp ss @ c" using assms(1,4) by (simp add: out1_def arr_put_def)
  then have "take (?n + length c + 1) (out1[?n + length c := slash]) = joinp ss @ c @ [slash]"
    using assms(4) l1 by (simp add: take_Suc_conv_app_nth take_update_cancel)
  then have "holds_str (out1[?n + length c := slash, ?n + length c + 1 := 0]) (joinp ss @ c @ [slash])"
    using assms(4) l1 by (intro holds_str_end) simp_all
  moreover have "bput out1 (int (?n + length c)) slash = Some (out1[?n + length c := slash])"
    "bput (out1[?n + length c := slash]) (int (?n + length c + 1)) 0 = Some (out1[?n + length c := slash, ?n + length c + 1 := 0])"
    using assms(4) l1 by (intro bput_nat, simp)+
  ultimately show ?thesis using assms(2,3) unfolding at_dir_def by (intro exI conjI) (assumption | simp)+
qed

lemma take_comp_slash: "slash \<notin> set (takeWhile (\<lambda>c. c \<noteq> slash) p)"
  by (auto dest: set_takeWhileD)

lemma one_or_two:
  "length c = 1 \<and> arr_get c 0 = dot \<longleftrightarrow> c = [dot]" "length c = 2 \<and> arr_get c 0 = dot \<and> arr_get c 1 = dot \<longleftrightarrow> c = [dot, dot]"
  by (auto simp: arr_get_def length_Suc_conv numeral_2_eq_2)

lemma path_loop_spec:
  assumes "at_dir out ss" "outsz = int (length out)"
  shows "\<exists>ok out' n. path_loop p out (length (joinp ss)) outsz = Some (ok, out', n) \<and> length out' = length out \<and>
    (case fold (walk_comp outsz) (comps p) (Some ss) of None \<Rightarrow> \<not> ok | Some ss' \<Rightarrow> ok \<and> n = length (joinp ss') \<and> at_dir out' ss')"
  using assms
proof (induction "length p" arbitrary: p out ss rule: less_induct)
  case less
  define q where "q = dropWhile (\<lambda>c. c = slash) p"
  define c where "c = takeWhile (\<lambda>c. c \<noteq> slash) q"
  define r where "r = dropWhile (\<lambda>c. c \<noteq> slash) q"
  let ?n = "length (joinp ss)"
  note E = path_loop.simps [of p out ?n outsz, unfolded Let_def, folded q_def, folded c_def r_def, unfolded one_or_two]
  show ?case
  proof (cases "q = []")
    case True
    then have "comps p = []" using comps_skip [of p] unfolding q_def [symmetric] by (simp add: comps_def)
    then show ?thesis using True E less.prems by auto
  next
    case False
    have sh: "length r < length p" using path_rest_shorter False by (simp add: q_def r_def)
    have cs: "comps p = c # comps r"
      using comps_first [OF False] hd_dropWhile [of "\<lambda>c. c = slash" p] False comps_skip [of p] by (simp add: q_def c_def r_def)
    have ns: "slash \<notin> set c" unfolding c_def by (rule take_comp_slash)
    consider "c = [dot]" | "c = [dot, dot]" | "c \<noteq> [dot]" "c \<noteq> [dot, dot]" "int ?n + int (length c) + 1 \<ge> outsz"
      | "c \<noteq> [dot]" "c \<noteq> [dot, dot]" "\<not> int ?n + int (length c) + 1 \<ge> outsz" by blast
    then show ?thesis
    proof cases
      case 1
      then show ?thesis using less.hyps [OF sh less.prems] False E by (simp add: cs walk_comp_def)
    next
      case 2
      obtain o1 where o1: "path_pop out ?n = Some (o1, length (joinp (butlast ss)))" "at_dir o1 (butlast ss)" "length o1 = length out"
        using path_pop_eq [OF less.prems(1)] by blast
      have z: "outsz = int (length o1)" using less.prems(2) o1(3) by simp
      from less.hyps [OF sh o1(2) z] show ?thesis using 2 False E o1 by (simp add: cs walk_comp_def)
    next
      case 3
      then show ?thesis using False E by (auto simp: cs walk_comp_def)
    next
      case 4
      then have "?n + length c + 1 < length out" using less.prems(2) by linarith
      then obtain o1 o2 o3 where o: "bputs out (int ?n) c = Some o1" "bput o1 (int (?n + length c)) slash = Some o2"
        "bput o2 (int (?n + length c + 1)) 0 = Some o3" "at_dir o3 (ss @ [c])" "length o3 = length out"
        using push_seg [OF _ _ ns] less.prems(1) unfolding at_dir_def holds_str_def by blast
      have e: "path_loop p out ?n outsz = path_loop r o3 (length (joinp (ss @ [c]))) outsz"
        using 4 False o(1-3) unfolding E by simp
      have z: "outsz = int (length o3)" using less.prems(2) o(5) by simp
      from less.hyps [OF sh o(4) z] show ?thesis using 4 o(5) unfolding e by (simp add: cs walk_comp_def)
    qed
  qed
qed

lemma base_copied:
  assumes "b \<noteq> []" "length b + 1 < length out"
  shows "\<exists>out'. path_start b out = Some (out', length (joinp (dir_segs b))) \<and>
    at_dir out' (dir_segs b) \<and> length out' = length out"
proof -
  define o1 where "o1 = arr_put out 0 b"
  have o1: "bputs out 0 b = Some o1" "length o1 = length out" "take (length b) o1 = b"
    using bputs_nat [of 0 b out] assms(2) by (simp_all add: o1_def arr_put_def)
  have l: "arr_get o1 (length b - 1) = last b"
    using arg_cong [OF o1(3), of "\<lambda>x. x ! (length b - 1)"] assms o1(2) by (auto simp: arr_get_def last_conv_nth)
  note J = joinp_dir_segs [OF assms(1)]
  show ?thesis
  proof (cases "last b = slash")
    case True
    have "holds_str (o1[length b := 0]) b" using o1 assms(2) by (intro holds_str_end) simp_all
    then show ?thesis using True J l o1 assms(2) dir_segs_no_slash by (auto simp: path_start_def at_dir_def bput_nat)
  next
    case False
    have "take (length b + 1) (o1[length b := slash]) = b @ [slash]"
      using o1 assms(2) by (simp add: take_Suc_conv_app_nth take_update_cancel)
    then have h: "holds_str (o1[length b := slash, length b + 1 := 0]) (b @ [slash])"
      using o1 assms(2) by (intro holds_str_end) simp_all
    have "bput (o1[length b := slash]) (int (length b + 1)) 0 = Some (o1[length b := slash, length b + 1 := 0])"
      using assms(2) o1(2) by (intro bput_nat) simp
    then show ?thesis using False J l o1 assms(2) dir_segs_no_slash h by (auto simp: path_start_def at_dir_def bput_nat)
  qed
qed

lemma loop_end:
  assumes "at_dir out ss"
  shows "\<exists>out'. (if length (joinp ss) > 0 \<and> arr_get out (length (joinp ss) - 1) = slash
      then do { out \<leftarrow> bput out (int (length (joinp ss) - 1)) 0; Some (length (joinp ss) - 1 > 0, out) }
      else Some (length (joinp ss) > 0, out)) = Some (butlast (joinp ss) \<noteq> [], out') \<and>
    holds_str out' (butlast (joinp ss)) \<and> length out' = length out"
proof (cases "joinp ss = []")
  case True
  then show ?thesis using assms by (auto simp: at_dir_def)
next
  case False
  then obtain t where t: "joinp ss = t @ [slash]" using joinp_last [of ss] append_butlast_last_id [of "joinp ss"] by metis
  have h: "holds_str out (t @ [slash])" using assms t by (simp add: at_dir_def)
  then have "arr_get out (length t) = slash"
    by (auto simp: holds_str_def arr_get_def dest: arg_cong [where f = "\<lambda>x. x ! length t"])
  then show ?thesis using h holds_str_prefix [OF h] by (auto simp: t bput_nat holds_str_def)
qed

lemma path_resolve_spec:
  assumes "out \<noteq> []"
  shows "\<exists>ok out'. path_resolve (Some b) (Some nm) out = Some (ok, out') \<and> length out' = length out \<and>
    (case resolve_spec (int (length out)) b nm of None \<Rightarrow> \<not> ok | Some path \<Rightarrow> ok = (path \<noteq> []) \<and> holds_str out' path)"
proof -
  define rel where "rel \<longleftrightarrow> arr_get nm 0 \<noteq> slash \<and> b \<noteq> []"
  define z where "z = int (length out)"
  define o0 where "o0 = out[0 := 0 :: u8]"
  have o0: "bput out 0 0 = Some o0" "length o0 = length out" "z = int (length o0)" using assms by (simp_all add: bput_def o0_def z_def)
  have hd: "nm \<noteq> [] \<Longrightarrow> arr_get nm 0 = hd nm" by (cases nm) (simp_all add: arr_get_def)
  consider "nm = []" | "nm \<noteq> []" "rel" "int (length b) + 1 \<ge> z" | "nm \<noteq> []" "rel \<longrightarrow> \<not> int (length b) + 1 \<ge> z" by blast
  then show ?thesis
  proof cases
    case 3
    obtain o1 where o1: "(if rel then path_start b o0 else Some (o0, 0)) = Some (o1, length (joinp (if rel then dir_segs b else [])))"
      "at_dir o1 (if rel then dir_segs b else [])" "length o1 = length out"
    proof (cases rel)
      case True
      then have "length b + 1 < length o0" "b \<noteq> []" using 3 o0 by (auto simp: rel_def)
      then show ?thesis using that base_copied [of b o0] True o0(2) by auto
    next
      case False
      have "at_dir o0 []" using assms by (simp add: at_dir_def holds_str_def o0_def)
      then show ?thesis using that [of o0] False o0(2) by simp
    qed
    define ss where "ss = (if rel then dir_segs b else [])"
    obtain ok o2 n where l: "path_loop nm o1 (length (joinp ss)) z = Some (ok, o2, n)" "length o2 = length o1"
      "case fold (walk_comp z) (comps nm) (Some ss) of None \<Rightarrow> \<not> ok | Some ss' \<Rightarrow> ok \<and> n = length (joinp ss') \<and> at_dir o2 ss'"
      using path_loop_spec [of o1 ss z nm] o1(2,3) by (auto simp: ss_def z_def)
    have c: "(rel \<and> int (length b) + 1 \<ge> z) = False" using 3 by auto
    have e: "path_resolve (Some b) (Some nm) out =
        (if \<not> ok then Some (False, o2)
         else if n > 0 \<and> arr_get o2 (n - 1) = slash then do { out \<leftarrow> bput o2 (int (n - 1)) 0; Some (n - 1 > 0, out) }
         else Some (n > 0, o2))"
      using 3 o1(1) l(1) unfolding path_resolve_def Let_def z_def [symmetric] ss_def [symmetric]
      by (simp only: option.case o0(1) Option.bind.simps rel_def [symmetric] c if_False prod.case)
    have sp: "resolve_spec z b nm = map_option (\<lambda>ss. butlast (joinp ss)) (fold (walk_comp z) (comps nm) (Some ss))"
      using 3 hd by (auto simp: resolve_spec_def Let_def ss_def rel_def)
    show ?thesis
    proof (cases "fold (walk_comp z) (comps nm) (Some ss)")
      case None
      then show ?thesis using l(2,3) o1(3) by (auto simp: e sp z_def [symmetric])
    next
      case (Some ss')
      then have "ok" "n = length (joinp ss')" "at_dir o2 ss'" using l(3) by simp_all
      then show ?thesis using loop_end [of o2 ss'] l(2) o1(3) Some unfolding e sp z_def [symmetric] by auto
    qed
  qed (use o0 hd in \<open>auto simp: path_resolve_def resolve_spec_def Let_def rel_def z_def\<close>)
qed

subsection \<open>Resolved paths\<close>

definition plain_seg :: "u8 list \<Rightarrow> bool" where
  "plain_seg s \<longleftrightarrow> s \<noteq> [] \<and> s \<noteq> [dot] \<and> s \<noteq> [dot, dot]"

text \<open>A name of the flat file system: segments with single slashes between them, none of them \<open>.\<close> or \<open>..\<close>.\<close>

definition path_normal :: "u8 list \<Rightarrow> bool" where
  "path_normal p \<longleftrightarrow> p \<noteq> [] \<and> last p \<noteq> slash \<and> (\<forall>s \<in> set (dir_segs p). plain_seg s)"

lemma walk_comps_all:
  assumes "fold (walk_comp z) cs (Some ss) = Some ts" "\<forall>s \<in> set ss. P s" "\<forall>c \<in> set cs. c = [dot] \<or> c = [dot, dot] \<or> P c"
  shows "\<forall>s \<in> set ts. P s"
  using assms
proof (induction cs arbitrary: ss)
  case (Cons c cs)
  then obtain ss' where "walk_comp z c (Some ss) = Some ss'" by (cases "walk_comp z c (Some ss)") simp_all
  moreover from this have "\<forall>s \<in> set ss'. P s"
    using Cons.prems(2,3) by (auto simp: walk_comp_def split: if_splits dest: in_set_butlastD)
  ultimately show ?case using Cons by simp
qed simp

lemma walk_plain:
  assumes "\<forall>c \<in> set cs. plain_seg c" "int (length (joinp (ss @ cs))) < z"
  shows "fold (walk_comp z) cs (Some ss) = Some (ss @ cs)"
  using assms
proof (induction cs arbitrary: ss)
  case (Cons c cs)
  then have "walk_comp z c (Some ss) = Some (ss @ [c])" by (simp add: walk_comp_def plain_seg_def)
  moreover have "fold (walk_comp z) cs (Some (ss @ [c])) = Some ((ss @ [c]) @ cs)" using Cons.prems by (intro Cons.IH) simp_all
  ultimately show ?case by simp
qed simp

lemma walk_fits:
  assumes "fold (walk_comp z) cs (Some ss) = Some ts" "int (length (joinp ss)) < z"
  shows "int (length (joinp ts)) < z"
  using assms
proof (induction cs arbitrary: ss)
  case (Cons c cs)
  then obtain ss' where w: "walk_comp z c (Some ss) = Some ss'" by (cases "walk_comp z c (Some ss)") simp_all
  have "length (joinp (butlast ss)) \<le> length (joinp ss)" by (cases ss rule: rev_cases) simp_all
  then have "int (length (joinp ss')) < z" using w Cons.prems(2) by (auto simp: walk_comp_def split: if_splits)
  then show ?case using Cons w by simp
qed simp

lemma dir_segs_joinp:
  assumes "\<forall>s \<in> set ss. slash \<notin> set s" "slash \<notin> set t" "t \<noteq> []"
  shows "dir_segs (joinp ss @ t) = ss @ [t]"
  using assms
proof (induction ss)
  case Nil
  have "\<forall>x \<in> set t. x \<noteq> slash" using Nil(2) by auto
  then have "takeWhile (\<lambda>c. c \<noteq> slash) t = t" "dropWhile (\<lambda>c. c \<noteq> slash) t = []"
    by (simp_all only: takeWhile_eq_all_conv dropWhile_eq_Nil_conv)
  then show ?case using Nil(3) by (subst dir_segs.simps) (simp only: list.sel dir_segs_simps joinp_simps append_Nil if_False)
qed (simp add: dir_segs_step)

lemma comps_plain: "c \<in> set (comps p) \<Longrightarrow> c = [dot] \<or> c = [dot, dot] \<or> plain_seg c \<and> slash \<notin> set c"
  using dir_segs_no_slash [of c p] by (auto simp: comps_def plain_seg_def)

lemma resolve_spec_normal:
  assumes "b = [] \<or> path_normal b" "resolve_spec z b nm = Some path" "path \<noteq> []" "0 < z"
  shows "path_normal path" "resolve_spec z [] path = Some path"
proof -
  obtain ss ts where f: "fold (walk_comp z) (comps nm) (Some ss) = Some ts" "path = butlast (joinp ts)" "ss = dir_segs b \<or> ss = []"
    "ss \<noteq> [] \<longrightarrow> int (length b) + 1 < z"
    using assms(2) by (auto simp: resolve_spec_def Let_def split: if_splits)
  have "\<forall>s \<in> set ss. plain_seg s \<and> slash \<notin> set s" using f(3) assms(1) dir_segs_no_slash [of _ b] by (auto simp: path_normal_def)
  then have ts: "\<forall>s \<in> set ts. plain_seg s \<and> slash \<notin> set s" using comps_plain by (intro walk_comps_all [OF f(1)]) blast+
  obtain us t where t: "ts = us @ [t]" using f(2) assms(3) by (cases ts rule: rev_cases) simp_all
  have p: "path = joinp us @ t" using f(2) t by (simp add: butlast_append)
  have t': "slash \<notin> set t" "t \<noteq> []" "plain_seg t" using ts t by (simp_all add: plain_seg_def)
  have d: "dir_segs path = ts" unfolding p t using ts t t' by (intro dir_segs_joinp) simp_all
  have "last t \<noteq> slash" using t'(1) last_in_set [OF t'(2)] by metis
  then show "path_normal path" using assms(3) d ts p t' by (simp add: path_normal_def)
  have "length (joinp (dir_segs b)) \<le> length b + 1" using joinp_dir_segs [of b] by (cases "b = []") auto
  then have "int (length (joinp ss)) < z" using f(3,4) assms(4) by (cases "ss = []") auto
  then have fit: "int (length (joinp ts)) < z" by (rule walk_fits [OF f(1)])
  have c: "comps path = ts" using d ts by (simp add: comps_def plain_seg_def)
  have "fold (walk_comp z) ts (Some []) = Some ([] @ ts)" using ts fit by (intro walk_plain) auto
  then show "resolve_spec z [] path = Some path" using assms(3) c f(2) by (simp add: resolve_spec_def Let_def)
qed

text \<open>
  C28. Path resolution is correct and stays in its buffer: for every base, name and buffer of at least
  one byte, \<open>path_resolve\<close> stores only inside the buffer and either reports failure - the name is empty
  or does not fit - or leaves the path that walking the components of the name from the base gives.
\<close>

theorem path_resolve_correct:
  assumes "out \<noteq> []"
  shows "\<exists>ok out'. path_resolve (Some b) (Some nm) out = Some (ok, out') \<and> length out' = length out \<and>
    (case resolve_spec (int (length out)) b nm of None \<Rightarrow> \<not> ok | Some path \<Rightarrow> ok = (path \<noteq> []) \<and> holds_str out' path)"
  by (rule path_resolve_spec [OF assms])

text \<open>
  Resolved paths are canonical: from a canonical base (or the root) every accepted name gives a path
  without empty, \<open>.\<close> or \<open>..\<close> segments, and resolving that path again from the root gives it back. Two
  names of one file therefore reach the flat file system as the same key.
\<close>

theorem path_resolve_canonical:
  assumes "path_resolve (Some b) (Some nm) out = Some (True, out')" "b = [] \<or> path_normal b" "out \<noteq> []"
    "length again = length out"
  shows "\<exists>path again'. holds_str out' path \<and> path_normal path \<and>
    path_resolve (Some []) (Some path) again = Some (True, again') \<and> holds_str again' path"
proof -
  obtain path where p: "resolve_spec (int (length out)) b nm = Some path" "path \<noteq> []" "holds_str out' path" "length out' = length out"
    using path_resolve_spec [OF assms(3), of b nm] assms(1) by (auto split: option.splits)
  have "0 < int (length out)" using assms(3) by simp
  note N = resolve_spec_normal [OF assms(2) p(1,2) this]
  moreover have "again \<noteq> []" using assms(3,4) by auto
  ultimately show ?thesis using path_resolve_spec [of again "[]" path] p assms(4) by auto
qed

subsection \<open>Directory and last part\<close>

lemma base_loop_eq:
  "path_base_loop b p = (if slash \<in> set p then rev (takeWhile (\<lambda>c. c \<noteq> slash) (rev p)) else b)"
  by (induction p arbitrary: b) (auto simp: takeWhile_append)

lemma last_slash_split: "\<exists>d s. p = d @ s \<and> (d = [] \<or> last d = slash) \<and> slash \<notin> set s"
proof (induction p rule: rev_induct)
  case (snoc c p)
  then obtain d s where "p = d @ s" "d = [] \<or> last d = slash" "slash \<notin> set s" by blast
  note h = this
  show ?case
  proof (cases "c = slash")
    case True
    then have "p @ [c] = (d @ s @ [slash]) @ [] \<and> last (d @ s @ [slash]) = slash" using h by simp
    then show ?thesis by (metis empty_iff empty_set)
  next
    case False
    then have "p @ [c] = d @ (s @ [c]) \<and> slash \<notin> set (s @ [c])" using h by simp
    then show ?thesis using h(2) by blast
  qed
qed simp

lemma base_loop_split: "slash \<notin> set s \<Longrightarrow> path_base_loop b s = b"
  by (simp add: base_loop_eq)

lemma path_base_eq: "slash \<notin> set s \<Longrightarrow> d = [] \<or> last d = slash \<Longrightarrow> path_base (d @ s) = s"
proof -
  assume a: "slash \<notin> set s" "d = [] \<or> last d = slash"
  have "takeWhile (\<lambda>c. c \<noteq> slash) (rev s @ slash # t) = rev s" for t using a(1) by (intro split_at_slash) simp
  then show ?thesis using a
    by (cases d rule: rev_cases) (auto simp: path_base_def base_loop_eq)
qed

lemma path_split:
  assumes "length path < length out"
  shows "\<exists>out' d. path_dir path out = Some out' \<and> holds_str out' d \<and> d @ path_base path = path \<and>
    (d = [] \<or> last d = slash) \<and> slash \<notin> set (path_base path)"
proof -
  obtain d s where p: "path = d @ s" "d = [] \<or> last d = slash" "slash \<notin> set s" using last_slash_split by blast
  have n: "pop_scan path (length path) = length d" using pop_scan_eq [OF p(3,2), of path] p(1) by simp
  define o1 where "o1 = arr_put out 0 d"
  have o1: "bputs out 0 d = Some o1" "length o1 = length out" "take (length d) o1 = d"
    using bputs_nat [of 0 d out] assms p(1) by (simp_all add: o1_def arr_put_def)
  have "path_dir path out = Some (o1[length d := 0])"
    using n p(1) assms o1 by (simp add: path_dir_def Let_def bput_nat)
  moreover have "holds_str (o1[length d := 0]) d" using o1 assms p(1) by (intro holds_str_end) simp_all
  ultimately show ?thesis using path_base_eq [OF p(3,2)] p by auto
qed

subsection \<open>Keys of the file system\<close>

text \<open>
  A name that \<open>path_fs\<close> accepts reaches the kernel whole: it is a string of 1 to 47 characters, so
  the kernel's \<open>normalize_name\<close> upcases it and cuts nothing off.
\<close>

theorem path_fs_key:
  assumes "path_fs (Some b) (Some nm) out = Some (True, out')" "out \<noteq> []" "0 \<notin> set b" "0 \<notin> set nm"
  shows "cstr out' \<noteq> [] \<and> length (cstr out') \<le> 47 \<and> normalize_name out' = map upcase (cstr out')"
proof -
  obtain path where p: "resolve_spec (int (length out)) b nm = Some path" "path \<noteq> []" "holds_str out' path"
    using path_resolve_spec [OF assms(2), of b nm] assms(1)
    by (auto simp: path_fs_def split: option.splits Option.bind_splits)
  have l: "length (cstr out') \<le> 47" using assms(1) by (auto simp: path_fs_def FS_NAME_MAX_def split: Option.bind_splits)
  obtain ss ts where f: "fold (walk_comp (int (length out))) (comps nm) (Some ss) = Some ts" "path = butlast (joinp ts)" "ss = dir_segs b \<or> ss = []"
    using p(1) by (auto simp: resolve_spec_def Let_def split: if_splits)
  have z: "0 \<notin> set s" if "s \<in> set (dir_segs q)" "0 \<notin> set q" for s and q :: "u8 list"
  proof -
    have "set s \<subseteq> set (joinp (dir_segs q))" using that(1) by (auto simp: joinp_def)
    then show ?thesis using that joinp_dir_segs [of q] by (cases "q = []") (auto simp: slash_def split: if_splits)
  qed
  have "\<forall>s \<in> set ts. 0 \<notin> set s"
    using z [of _ b] z [of _ nm] assms(3,4) f(3) by (intro walk_comps_all [OF f(1)]) (auto simp: comps_def)
  then have "0 \<notin> set (joinp ts)" by (auto simp: joinp_def slash_def)
  then have "0 \<notin> set path" using f(2) by (auto dest: in_set_butlastD)
  then have "cstr out' = path" using p(3) by (rule holds_str_cstr [rotated])
  then show ?thesis using p(2) l by (simp add: normalize_name_def normalize_loop_eq FS_NAME_LEN_def)
qed

subsection \<open>Examples\<close>

text \<open>From \<open>ab\<close>, the name \<open>./../c//d\<close> is \<open>c/d\<close>.\<close>

definition demo_path :: "u8 list" where
  "demo_path = [dot, slash, dot, dot, slash, 0x63, slash, slash, 0x64]"

lemma demo_path_spec: "resolve_spec 64 [0x61, 0x62] demo_path = Some [0x63, slash, 0x64]" "0 \<notin> set demo_path"
  by code_simp+

theorem path_resolve_correct_witness:
  "\<exists>out'. path_resolve (Some [0x61, 0x62]) (Some demo_path) (replicate 64 0xFF) = Some (True, out') \<and> holds_str out' [0x63, slash, 0x64]"
  using path_resolve_correct [of "replicate 64 0xFF" "[0x61, 0x62]" demo_path] demo_path_spec by auto

lemma demo_resolved: "\<exists>out'. path_resolve (Some [0x61, 0x62]) (Some demo_path) (replicate 64 0xFF) = Some (True, out') \<and>
    holds_str out' [0x63, slash, 0x64]"
  using path_resolve_spec [of "replicate 64 0xFF" "[0x61, 0x62]" demo_path] demo_path_spec by auto

theorem path_resolve_canonical_witness:
  "\<exists>again path. path_resolve (Some []) (Some path) (replicate 64 0) = Some (True, again) \<and> path_normal path \<and> holds_str again path"
proof -
  obtain o1 where o1: "path_resolve (Some [0x61, 0x62]) (Some demo_path) (replicate 64 0xFF) = Some (True, o1)" using demo_resolved by blast
  have n: "path_normal [0x61, 0x62]" by code_simp
  show ?thesis using path_resolve_canonical [OF o1, of "replicate 64 0"] n by auto
qed

theorem path_fs_key_witness:
  "\<exists>out'. path_fs (Some [0x61, 0x62]) (Some demo_path) (replicate 64 0xFF) = Some (True, out') \<and>
     normalize_name out' = map upcase (cstr out') \<and> cstr out' = [0x63, slash, 0x64]"
proof -
  obtain o1 where o1: "path_resolve (Some [0x61, 0x62]) (Some demo_path) (replicate 64 0xFF) = Some (True, o1)"
    "holds_str o1 [0x63, slash, 0x64]" using demo_resolved by blast
  have c: "cstr o1 = [0x63, slash, 0x64]" using o1(2) by (rule holds_str_cstr) (simp add: slash_def)
  have "path_fs (Some [0x61, 0x62]) (Some demo_path) (replicate 64 0xFF) = Some (True, o1)"
    by (simp add: path_fs_def o1 c FS_NAME_MAX_def)
  then show ?thesis using path_fs_key [of "[0x61, 0x62]" demo_path "replicate 64 0xFF" o1] demo_path_spec c by auto
qed

end
