(* ===== verification/Shell.thy ===== *)
theory Shell
  imports Editor PathLib
begin

text \<open>
  The shell (user/sh.c): its current directory, the path builder, the directory commands over the flat
  listing of the kernel, \<open>ls\<close>, \<open>type\<close>, \<open>run\<close>, \<open>edit\<close>, and the loop that reads a command line. The system
  calls are the operations of a record, so that the same code runs on any system; buffers are lists of
  their declared size and a store outside one is \<open>None\<close>.
\<close>

definition NAME_MAX :: nat where "NAME_MAX = 47"
definition LIST_BUF :: nat where "LIST_BUF = 52 * 512"

subsection \<open>Names\<close>

definition upper :: "u8 \<Rightarrow> u8" where
  "upper c = (if 0x61 \<le> c \<and> c \<le> 0x7A then c - 32 else c)"

definition char_eq_ci :: "u8 \<Rightarrow> u8 \<Rightarrow> bool" where
  "char_eq_ci a b \<longleftrightarrow> upper a = upper b"

fun starts_with_ci :: "u8 list \<Rightarrow> u8 list \<Rightarrow> bool" where
  "starts_with_ci s [] \<longleftrightarrow> True"
| "starts_with_ci [] (c # p) \<longleftrightarrow> False"
| "starts_with_ci (a # s) (c # p) \<longleftrightarrow> char_eq_ci a c \<and> starts_with_ci s p"

fun sh_name_eq_ci :: "u8 list \<Rightarrow> u8 list \<Rightarrow> bool" where
  "sh_name_eq_ci [] [] \<longleftrightarrow> True"
| "sh_name_eq_ci (a # s) (b # t) \<longleftrightarrow> char_eq_ci a b \<and> sh_name_eq_ci s t"
| "sh_name_eq_ci s t \<longleftrightarrow> False"

definition find_slash :: "u8 list \<Rightarrow> int" where
  "find_slash s = (if slash \<in> set s then int (length (takeWhile (\<lambda>c. c \<noteq> slash) s)) else -1)"

text \<open>The name of an entry, copied into the array \<open>out\<close>: at most 48 characters and the zero.\<close>

definition entry_name :: "u8 list \<Rightarrow> u8 list \<Rightarrow> nat \<Rightarrow> u8 list option" where
  "entry_name out buf idx =
     (let p = takeWhile (\<lambda>c. c \<noteq> 0) (map (\<lambda>i. arr_get buf (idx * 52 + i)) [0..<48]) in do {
        out \<leftarrow> bputs out 0 p;
        bput out (int (length p)) 0 })"

subsection \<open>Paths\<close>

definition pop_component :: "u8 list \<Rightarrow> nat \<Rightarrow> (u8 list \<times> nat) option" where
  "pop_component out n = (if n = 0 then Some (out, n) else path_pop out n)"

function build_loop :: "u8 list \<Rightarrow> u8 list \<Rightarrow> nat \<Rightarrow> int \<Rightarrow> (bool \<times> u8 list \<times> nat) option" where
  "build_loop p out n outsz =
     (let p = dropWhile (\<lambda>c. c = slash) p in
      if p = [] then Some (True, out, n)
      else
        let start = takeWhile (\<lambda>c. c \<noteq> slash) p; p = dropWhile (\<lambda>c. c \<noteq> slash) p; len = length start in
        if len = 1 \<and> arr_get start 0 = dot then build_loop p out n outsz
        else if len = 2 \<and> arr_get start 0 = dot \<and> arr_get start 1 = dot
        then do { (out, n) \<leftarrow> pop_component out n; build_loop p out n outsz }
        else if int n + int len + 1 \<ge> outsz then Some (False, out, n)
        else do {
          out \<leftarrow> bputs out (int n) start;
          out \<leftarrow> bput out (int (n + len)) slash;
          out \<leftarrow> bput out (int (n + len + 1)) 0;
          build_loop p out (n + len + 1) outsz
        })"
  by pat_completeness auto

termination build_loop
  by (relation "measure (\<lambda>(p, out, n, outsz). length p)") (simp_all add: path_rest_shorter)

declare build_loop.simps [simp del]

definition build_path :: "u8 list \<Rightarrow> u8 list option \<Rightarrow> u8 list \<Rightarrow> bool \<Rightarrow> (int \<times> u8 list) option" where
  "build_path cwd arg out want_dir =
     (let outsz = int (length out) in
      case arg of None \<Rightarrow> Some (0, out)
      | Some a \<Rightarrow>
        if a = [] then Some (0, out)
        else
          let rel = (arr_get a 0 \<noteq> slash); w = cstr cwd in
          if rel \<and> int (length w) \<ge> outsz then Some (-1, out)
          else do {
            (out, n) \<leftarrow> (if rel then do { out \<leftarrow> bputs out 0 w; out \<leftarrow> bput out (int (length w)) 0; Some (out, length w) }
                        else Some (out, 0));
            (ok, out, n) \<leftarrow> build_loop (if rel then a else tl a) out n outsz;
            if \<not> ok then Some (-1, out)
            else if want_dir
            then (if n = 0 then do { out \<leftarrow> bput out 0 0; Some (1, out) }
                  else if arr_get out (n - 1) \<noteq> slash
                  then do { out \<leftarrow> bput out (int n) slash; out \<leftarrow> bput out (int n + 1) 0; Some (1, out) }
                  else Some (1, out))
            else if n > 0 \<and> arr_get out (n - 1) = slash
            then do { out \<leftarrow> bput out (int (n - 1)) 0; Some (if n - 1 = 0 then 0 else 1, out) }
            else Some (if n = 0 then 0 else 1, out)
          })"

subsection \<open>The shell's state and the system calls\<close>

text \<open>
  \<open>s_list\<close> gives the number of entries and the bytes stored, 52 for each entry; \<open>s_exec\<close> gives \<open>None\<close> when
  the call does not come back because the program replaces the shell. \<open>sh_stack\<close> is what uninitialised
  local arrays hold: a path buffer of 64 bytes takes all of it, a shorter array its first bytes.
\<close>

record 'k sh_calls = "'k file_calls" +
  s_list :: "nat \<Rightarrow> 'k \<Rightarrow> int \<times> u8 list"
  s_delete :: "u8 list \<Rightarrow> 'k \<Rightarrow> int \<times> 'k"
  s_rename :: "u8 list \<Rightarrow> u8 list \<Rightarrow> 'k \<Rightarrow> int \<times> 'k"
  s_exec :: "u8 list \<Rightarrow> 'k \<Rightarrow> int option \<times> 'k"
  s_setcwd :: "u8 list \<Rightarrow> 'k \<Rightarrow> 'k"
  s_getcwd :: "nat \<Rightarrow> 'k \<Rightarrow> int \<times> u8 list"
  s_poweroff :: "'k \<Rightarrow> 'k"

record 'k shell =
  sh_cwd :: "u8 list"
  sh_list :: "u8 list"
  sh_type :: "u8 list"
  sh_edit :: "u8 list"
  sh_stack :: "u8 list"
  sh_out :: "tty list"
  sh_alive :: bool
  sh_os :: 'k

definition say :: "u8 list \<Rightarrow> 'k shell \<Rightarrow> 'k shell" where
  "say t s = s\<lparr>sh_out := sh_out s @ [Out t]\<rparr>"

definition puts :: "string \<Rightarrow> 'k shell \<Rightarrow> 'k shell" where
  "puts t = say (map of_char t)"

definition newline :: "'k shell \<Rightarrow> 'k shell" where "newline = say [10]"

definition line :: "string \<Rightarrow> 'k shell \<Rightarrow> 'k shell" where
  "line t = say (map of_char t @ [10])"

definition prompt :: "'k shell \<Rightarrow> 'k shell" where
  "prompt s =
     (let w = cstr (sh_cwd s);
          n = (if w \<noteq> [] \<and> last w = slash then length w - 1 else length w);
          s = say [slash] s;
          s = s\<lparr>sh_out := sh_out s @ map (\<lambda>c. Out [c]) (take n w)\<rparr>
      in puts ''> '' s)"

subsection \<open>Directories\<close>

text \<open>The listing is read into the shared buffer; the names of its entries.\<close>

definition read_list :: "('k, 'z) sh_calls_scheme \<Rightarrow> 'k shell \<Rightarrow> (nat \<times> 'k shell) option" where
  "read_list fc s =
     (let (n, bytes) = s_list fc LIST_BUF (sh_os s) in do {
        b \<leftarrow> bputs (sh_list s) 0 bytes;
        Some (nat n, s\<lparr>sh_list := b\<rparr>) })"

text \<open>The loop over the entries that copies each name into the local array \<open>name\<close> and returns at the first hit.\<close>

fun find_name :: "(u8 list \<Rightarrow> bool) \<Rightarrow> u8 list \<Rightarrow> u8 list \<Rightarrow> nat list \<Rightarrow> bool option" where
  "find_name hit name buf [] = Some False"
| "find_name hit name buf (i # is) = do {
     name \<leftarrow> entry_name name buf i;
     if hit (cstr name) then Some True else find_name hit name buf is }"

definition dir_exists :: "('k, 'z) sh_calls_scheme \<Rightarrow> u8 list \<Rightarrow> 'k shell \<Rightarrow> (bool \<times> 'k shell) option" where
  "dir_exists fc path s = do {
     (n, s) \<leftarrow> read_list fc s;
     b \<leftarrow> find_name (\<lambda>nm. sh_name_eq_ci nm path) (take 49 (sh_stack s)) (sh_list s) [0..<n];
     Some (b, s) }"

definition dir_has_children :: "('k, 'z) sh_calls_scheme \<Rightarrow> u8 list \<Rightarrow> 'k shell \<Rightarrow> (bool \<times> 'k shell) option" where
  "dir_has_children fc path s = do {
     (n, s) \<leftarrow> read_list fc s;
     b \<leftarrow> find_name (\<lambda>nm. starts_with_ci nm path \<and> \<not> sh_name_eq_ci nm path) (take 49 (sh_stack s)) (sh_list s) [0..<n];
     Some (b, s) }"

subsection \<open>ls\<close>

text \<open>Whether the entry is shown, the array \<open>disp\<close> with the name shown, and whether it is a directory.\<close>

definition ls_visible :: "u8 list \<Rightarrow> u8 list \<Rightarrow> u8 list \<Rightarrow> (bool \<times> u8 list \<times> bool) option" where
  "ls_visible cwd name disp =
     (let w = cstr cwd in
      if w \<noteq> [] \<and> (\<not> starts_with_ci name w \<or> drop (length w) name = []) then Some (False, disp, False)
      else
        let rest = (if w \<noteq> [] then drop (length w) name else name); s = find_slash rest in
        if s < 0 then do { disp \<leftarrow> bputs disp 0 (rest @ [0]); Some (True, disp, False) }
        else if arr_get rest (nat s + 1) = 0
        then do { disp \<leftarrow> bputs disp 0 (take (nat s) rest); disp \<leftarrow> bput disp s 0; Some (True, disp, True) }
        else Some (False, disp, False))"

text \<open>The digits of a number in the local array \<open>num\<close>, least significant first; then in the order they are printed.\<close>

function sh_num_loop :: "u8 list \<Rightarrow> nat \<Rightarrow> int \<Rightarrow> (u8 list \<times> nat) option" where
  "sh_num_loop num j v =
     (if v > 0 \<and> j < 10
      then do { num \<leftarrow> bput num (int j) (word_of_int (0x30 + v mod 10)); sh_num_loop num (j + 1) (v div 10) }
      else Some (num, j))"
  by pat_completeness auto

termination sh_num_loop
  by (relation "measure (\<lambda>(num, j, v). 10 - j)") auto

declare sh_num_loop.simps [simp del]

definition sh_num :: "u8 list \<Rightarrow> int \<Rightarrow> u8 list option" where
  "sh_num num v = do {
     (num, j) \<leftarrow> (if v = 0 then do { num \<leftarrow> bput num 0 0x30; Some (num, 1) } else Some (num, 0));
     (num, j) \<leftarrow> sh_num_loop num j v;
     Some (rev (take j num)) }"

definition put_chars :: "u8 list \<Rightarrow> 'k shell \<Rightarrow> 'k shell" where
  "put_chars cs s = s\<lparr>sh_out := sh_out s @ map (\<lambda>c. Out [c]) cs\<rparr>"

definition ls_print :: "u8 list \<Rightarrow> bool \<Rightarrow> int \<Rightarrow> nat \<times> 'k shell \<Rightarrow> (nat \<times> 'k shell) option" where
  "ls_print disp is_dir sz x =
     (let (col, s) = x; s = say disp s in do {
        (w, s) \<leftarrow> (if is_dir then Some (length disp + 1, puts ''/'' s)
                  else do {
                    num \<leftarrow> sh_num (take 12 (sh_stack s)) sz;
                    Some (length disp + 1 + length num, put_chars num (say [0x20] s)) });
        Some (if col + 1 \<ge> 3 then (0, newline s)
              else (col + 1, put_chars (replicate (26 - w) 0x20) s)) })"

definition ls_entry :: "bool \<Rightarrow> nat \<Rightarrow> nat \<times> 'k shell \<Rightarrow> (nat \<times> 'k shell) option" where
  "ls_entry dirs i x =
     (let (col, s) = x in do {
        name \<leftarrow> entry_name (take 49 (sh_stack s)) (sh_list s) i;
        if cstr name = [] then Some x
        else do {
          (vis, disp, is_dir) \<leftarrow> ls_visible (sh_cwd s) (cstr name) (take 49 (sh_stack s));
          if \<not> vis \<or> dirs \<noteq> is_dir then Some x
          else ls_print (cstr disp) is_dir (sint (le32 (sh_list s) (i * 52 + 48))) x } })"

fun ls_pass :: "bool \<Rightarrow> nat list \<Rightarrow> nat \<times> 'k shell \<Rightarrow> (nat \<times> 'k shell) option" where
  "ls_pass dirs [] x = Some x"
| "ls_pass dirs (i # is) x = do { x \<leftarrow> ls_entry dirs i x; ls_pass dirs is x }"

definition cmd_ls :: "('k, 'z) sh_calls_scheme \<Rightarrow> 'k shell \<Rightarrow> 'k shell option" where
  "cmd_ls fc s = do {
     (n, s) \<leftarrow> read_list fc s;
     (col, s) \<leftarrow> ls_pass True [0..<n] (0, s);
     (col, s) \<leftarrow> ls_pass False [0..<n] (col, s);
     Some (if col \<noteq> 0 then newline s else s) }"

subsection \<open>The other commands\<close>

text \<open>A path argument built in a local buffer: the result of \<open>build_path\<close> and the string in the buffer.\<close>

definition sh_path :: "u8 list \<Rightarrow> bool \<Rightarrow> 'k shell \<Rightarrow> (int \<times> u8 list) option" where
  "sh_path arg want_dir s = do { (ok, out) \<leftarrow> build_path (sh_cwd s) (Some arg) (sh_stack s) want_dir; Some (ok, cstr out) }"

definition cmd_type :: "('k, 'z) sh_calls_scheme \<Rightarrow> u8 list \<Rightarrow> 'k shell \<Rightarrow> 'k shell option" where
  "cmd_type fc name s = do {
     (ok, path) \<leftarrow> sh_path name False s;
     if ok \<le> 0 \<or> length path > NAME_MAX then Some (line ''file?'' s)
     else
       let (n, bytes) = f_load fc path (length (sh_type s)) (sh_os s) in do {
         b \<leftarrow> bputs (sh_type s) 0 bytes;
         let s = s\<lparr>sh_type := b\<rparr>;
         Some (if n \<le> 0 then line ''not found'' s else newline (say (take (nat n) b) s))
       } }"

definition cmd_run :: "('k, 'z) sh_calls_scheme \<Rightarrow> u8 list \<Rightarrow> 'k shell \<Rightarrow> 'k shell option" where
  "cmd_run fc name s = do {
     (ok, path) \<leftarrow> sh_path name False s;
     if ok \<le> 0 \<or> length path > NAME_MAX then Some (line ''file?'' s)
     else
       let (rc, k) = s_exec fc path (sh_os s); s = s\<lparr>sh_os := k\<rparr> in
       case rc of None \<Rightarrow> Some (s\<lparr>sh_alive := False\<rparr>)
       | Some v \<Rightarrow> do { num \<leftarrow> sh_num (take 12 (sh_stack s)) v; Some (newline (put_chars num (puts ''exit '' s))) } }"

definition cmd_edit :: "('k, 'z) sh_calls_scheme \<Rightarrow> int list \<Rightarrow> u8 list \<Rightarrow> 'k shell \<Rightarrow> 'k shell option" where
  "cmd_edit fc keys name s = do {
     (ok, path) \<leftarrow> sh_path name False s;
     if ok \<le> 0 \<or> length path > NAME_MAX then Some (line ''file?'' s)
     else do {
       e \<leftarrow> editor_open fc (sh_edit s) path (sh_os s);
       (out, e, k, quit) \<leftarrow> edit_loop fc name path keys e (sh_os s);
       Some (s\<lparr>sh_edit := e_buf e, sh_os := k, sh_out := sh_out s @ out\<rparr>)
     } }"

definition set_cwd :: "('k, 'z) sh_calls_scheme \<Rightarrow> u8 list \<Rightarrow> 'k shell \<Rightarrow> 'k shell option" where
  "set_cwd fc path s = do {
     w \<leftarrow> bputs (sh_cwd s) 0 (path @ [0]);
     Some (s\<lparr>sh_cwd := w, sh_os := s_setcwd fc path (sh_os s)\<rparr>) }"

definition cmd_cd :: "('k, 'z) sh_calls_scheme \<Rightarrow> u8 list \<Rightarrow> 'k shell \<Rightarrow> 'k shell option" where
  "cmd_cd fc arg s = do {
     (ok, path) \<leftarrow> sh_path arg True s;
     if ok \<le> 0 then Some (line ''cd <dir>'' s)
     else if length path > NAME_MAX then Some (line ''name too long'' s)
     else if path = [] then set_cwd fc [] s
     else do {
       (ex, s) \<leftarrow> dir_exists fc path s;
       if \<not> ex then Some (line ''no such dir'' s) else set_cwd fc path s
     } }"

text \<open>The directory above, in the local array \<open>parent\<close>: everything up to the last slash but one; nothing without one.\<close>

definition parent_dir :: "u8 list \<Rightarrow> u8 list \<Rightarrow> u8 list option" where
  "parent_dir parent path =
     (let n = pop_scan path (length path - 1) in
      if n = 0 then Some []
      else do { parent \<leftarrow> bputs parent 0 (take n path); parent \<leftarrow> bput parent (int n) 0; Some (cstr parent) })"

definition cmd_mkdir :: "('k, 'z) sh_calls_scheme \<Rightarrow> u8 list \<Rightarrow> 'k shell \<Rightarrow> 'k shell option" where
  "cmd_mkdir fc arg s = do {
     (ok, path) \<leftarrow> sh_path arg True s;
     if ok \<le> 0 then Some (line ''mkdir <dir>'' s)
     else if path = [] then Some (line ''mkdir: root'' s)
     else if length path > NAME_MAX then Some (line ''name too long'' s)
     else do {
       (ex, s) \<leftarrow> dir_exists fc path s;
       if ex then Some (line ''exists'' s)
       else do {
         parent \<leftarrow> parent_dir (sh_stack s) path;
         (up, s) \<leftarrow> (if parent \<noteq> [] then dir_exists fc parent s else Some (True, s));
         if \<not> up then Some (line ''no such dir'' s)
         else
           let (rc, k) = f_save fc path [0] 0 (sh_os s); s = s\<lparr>sh_os := k\<rparr> in
           Some (if rc \<noteq> 0 then line ''mkdir fail'' s else s)
       }
     } }"

definition cmd_rmdir :: "('k, 'z) sh_calls_scheme \<Rightarrow> u8 list \<Rightarrow> 'k shell \<Rightarrow> 'k shell option" where
  "cmd_rmdir fc arg s = do {
     (ok, path) \<leftarrow> sh_path arg True s;
     if ok \<le> 0 then Some (line ''rmdir <dir>'' s)
     else if path = [] then Some (line ''rmdir: root'' s)
     else if length path > NAME_MAX then Some (line ''name too long'' s)
     else do {
       (ex, s) \<leftarrow> dir_exists fc path s;
       if \<not> ex then Some (line ''no such dir'' s)
       else do {
         (ch, s) \<leftarrow> dir_has_children fc path s;
         if ch then Some (line ''not empty'' s)
         else
           let (rc, k) = s_delete fc path (sh_os s); s = s\<lparr>sh_os := k\<rparr> in
           Some (if rc \<noteq> 0 then line ''rmdir fail'' s else s)
       }
     } }"

definition cmd_mv :: "('k, 'z) sh_calls_scheme \<Rightarrow> u8 list \<Rightarrow> 'k shell \<Rightarrow> 'k shell option" where
  "cmd_mv fc args s =
     (let arg = takeWhile (\<lambda>c. c \<noteq> 0x20) args; arg2 = dropWhile (\<lambda>c. c = 0x20) (dropWhile (\<lambda>c. c \<noteq> 0x20) args) in
      if arg \<noteq> [] \<and> arg2 \<noteq> []
      then do {
        (ok1, p1) \<leftarrow> sh_path arg False s;
        (ok2, p2) \<leftarrow> sh_path arg2 False s;
        if ok1 \<le> 0 \<or> ok2 \<le> 0 \<or> length p1 > NAME_MAX \<or> length p2 > NAME_MAX then Some (line ''mv <old> <new>'' s)
        else
          let (rc, k) = s_rename fc p1 p2 (sh_os s); s = s\<lparr>sh_os := k\<rparr> in
          Some (if rc \<noteq> 0 then line ''rename fail'' s else s) }
      else Some (line ''mv <old> <new>'' s))"

definition cmd_rm :: "('k, 'z) sh_calls_scheme \<Rightarrow> u8 list \<Rightarrow> 'k shell \<Rightarrow> 'k shell option" where
  "cmd_rm fc arg s =
     (if arg \<noteq> []
      then do {
        (ok, path) \<leftarrow> sh_path arg False s;
        if ok \<le> 0 \<or> length path > NAME_MAX then Some (line ''rm <file>'' s)
        else
          let (rc, k) = s_delete fc path (sh_os s); s = s\<lparr>sh_os := k\<rparr> in
          Some (if rc \<noteq> 0 then line ''delete fail'' s else s) }
      else Some (line ''rm <file>'' s))"

subsection \<open>Command lines\<close>

definition cmd_is :: "string \<Rightarrow> u8 list \<Rightarrow> bool" where
  "cmd_is w cmd \<longleftrightarrow> take (length w) cmd = map of_char w \<and> (arr_get cmd (length w) = 0 \<or> arr_get cmd (length w) = 0x20)"

definition cmd_starts :: "string \<Rightarrow> u8 list \<Rightarrow> bool" where
  "cmd_starts w cmd \<longleftrightarrow> take (length w) cmd = map of_char w"

definition arg_of :: "string \<Rightarrow> u8 list \<Rightarrow> u8 list" where
  "arg_of w cmd = dropWhile (\<lambda>c. c = 0x20) (drop (length w) cmd)"

text \<open>\<open>keys\<close> are the keys that are typed while the command runs.\<close>

definition run_command :: "('k, 'z) sh_calls_scheme \<Rightarrow> int list \<Rightarrow> u8 list \<Rightarrow> 'k shell \<Rightarrow> 'k shell option" where
  "run_command fc keys cmd s =
     (if cmd_is ''ls'' cmd then cmd_ls fc s
      else if cmd_is ''type'' cmd
      then (let arg = arg_of ''type'' cmd in if arg \<noteq> [] then cmd_type fc arg s else Some (line ''file?'' s))
      else if cmd_is ''edit'' cmd
      then (let arg = arg_of ''edit'' cmd in if arg \<noteq> [] then cmd_edit fc keys arg s else Some (line ''file?'' s))
      else if cmd_is ''run'' cmd
      then (let arg = arg_of ''run'' cmd in if arg \<noteq> [] then cmd_run fc arg s else Some (line ''file?'' s))
      else if cmd_is ''mv'' cmd then cmd_mv fc (arg_of ''mv'' cmd) s
      else if cmd_is ''rm'' cmd then cmd_rm fc (arg_of ''rm'' cmd) s
      else if cmd_is ''mkdir'' cmd then cmd_mkdir fc (arg_of ''mkdir'' cmd) s
      else if cmd_is ''rmdir'' cmd then cmd_rmdir fc (arg_of ''rmdir'' cmd) s
      else if cmd_is ''cd'' cmd
      then (let arg = arg_of ''cd'' cmd in cmd_cd fc (if arg \<noteq> [] then arg else [slash]) s)
      else if cmd_is ''cc'' cmd then cmd_run fc (map of_char ''/cc'') s
      else if cmd_is ''as'' cmd then cmd_run fc (map of_char ''/as'') s
      else if cmd_is ''sync'' cmd
      then (let (rc, k) = f_sync fc (sh_os s); s = s\<lparr>sh_os := k\<rparr>
            in Some (line (if rc \<noteq> 0 then ''no persistent store'' else ''synced'') s))
      else if cmd_starts ''shutdown'' cmd \<or> cmd_starts ''poweroff'' cmd
      then (let s = line ''shutting down'' s in Some (s\<lparr>sh_os := s_poweroff fc (sh_os s), sh_alive := False\<rparr>))
      else if cmd_starts ''help'' cmd
      then Some (line ''ls type edit run mv rm mkdir rmdir cd cc as sync shutdown help'' s)
      else Some (line ''?'' s))"

definition sh_turn :: "('k, 'z) sh_calls_scheme \<Rightarrow> u8 list \<times> int list \<Rightarrow> 'k shell \<Rightarrow> 'k shell option" where
  "sh_turn fc inp s =
     (let (ln, keys) = inp; s = prompt s; cmd = dropWhile (\<lambda>c. c = 0x20) ln in
      if ln = [] \<or> cmd = [] then Some s else run_command fc keys cmd s)"

text \<open>The loop of \<open>main\<close> on the lines that are typed, until a program replaces the shell.\<close>

fun sh_loop :: "('k, 'z) sh_calls_scheme \<Rightarrow> (u8 list \<times> int list) list \<Rightarrow> 'k shell \<Rightarrow> 'k shell option" where
  "sh_loop fc [] s = Some s"
| "sh_loop fc (inp # inps) s = do { s \<leftarrow> sh_turn fc inp s; if sh_alive s then sh_loop fc inps s else Some s }"

definition sh_main :: "('k, 'z) sh_calls_scheme \<Rightarrow> (u8 list \<times> int list) list \<Rightarrow> 'k shell \<Rightarrow> 'k shell option" where
  "sh_main fc inps s =
     (let (n, bytes) = s_getcwd fc (length (sh_cwd s)) (sh_os s) in do {
        w \<leftarrow> bputs (sh_cwd s) 0 bytes;
        let s = s\<lparr>sh_cwd := w\<rparr>;
        s \<leftarrow> (if n < 0 then set_cwd fc [] s else Some s);
        sh_loop fc inps s })"

subsection \<open>Building a path\<close>

text \<open>The buffer follows the segments; at the root nothing is known about it.\<close>

definition dir_at :: "u8 list \<Rightarrow> u8 list list \<Rightarrow> bool" where
  "dir_at out ss \<longleftrightarrow> length (joinp ss) < length out \<and> (ss \<noteq> [] \<longrightarrow> at_dir out ss)"

lemma joinp_Nil_iff [simp]: "joinp ss = [] \<longleftrightarrow> ss = []"
  by (cases ss) simp_all

lemma at_dir_dir_at: "at_dir out ss \<Longrightarrow> dir_at out ss"
  by (auto simp: dir_at_def at_dir_def holds_str_def)

lemma pop_component_eq:
  assumes "dir_at out ss"
  shows "\<exists>out'. pop_component out (length (joinp ss)) = Some (out', length (joinp (butlast ss))) \<and> dir_at out' (butlast ss) \<and> length out' = length out"
proof (cases "ss = []")
  case False
  then show ?thesis using assms path_pop_eq [of out ss] at_dir_dir_at by (auto simp: dir_at_def pop_component_def)
qed (use assms in \<open>simp add: pop_component_def\<close>)

lemma build_loop_spec:
  assumes "dir_at out ss" "outsz = int (length out)"
  shows "\<exists>ok out' n. build_loop p out (length (joinp ss)) outsz = Some (ok, out', n) \<and> length out' = length out \<and>
    (case fold (walk_comp outsz) (comps p) (Some ss) of None \<Rightarrow> \<not> ok | Some ss' \<Rightarrow> ok \<and> n = length (joinp ss') \<and> dir_at out' ss')"
  using assms
proof (induction "length p" arbitrary: p out ss rule: less_induct)
  case less
  define q where "q = dropWhile (\<lambda>c. c = slash) p"
  define c where "c = takeWhile (\<lambda>c. c \<noteq> slash) q"
  define r where "r = dropWhile (\<lambda>c. c \<noteq> slash) q"
  let ?n = "length (joinp ss)"
  note E = build_loop.simps [of p out ?n outsz, unfolded Let_def, folded q_def, folded c_def r_def, unfolded one_or_two]
  show ?case
  proof (cases "q = []")
    case True
    then have "comps p = []" using comps_skip [of p] unfolding q_def [symmetric] by (simp add: comps_def)
    then show ?thesis using True E less.prems by auto
  next
    case False
    have sh: "length r < length p" using path_rest_shorter False by (simp add: q_def r_def)
    have cs: "comps p = c # comps r"
      using comps_first [OF False] hd_dropWhile [of "\<lambda>c. c = slash" p] False comps_skip [of p] by (simp add: q_def c_def r_def)
    have ns: "slash \<notin> set c" unfolding c_def by (rule take_comp_slash)
    consider "c = [dot]" | "c = [dot, dot]" | "c \<noteq> [dot]" "c \<noteq> [dot, dot]" "int ?n + int (length c) + 1 \<ge> outsz"
      | "c \<noteq> [dot]" "c \<noteq> [dot, dot]" "\<not> int ?n + int (length c) + 1 \<ge> outsz" by blast
    then show ?thesis
    proof cases
      case 1
      then show ?thesis using less.hyps [OF sh less.prems] False E by (simp add: cs walk_comp_def)
    next
      case 2
      obtain o1 where o1: "pop_component out ?n = Some (o1, length (joinp (butlast ss)))" "dir_at o1 (butlast ss)" "length o1 = length out"
        using pop_component_eq [OF less.prems(1)] by blast
      have z: "outsz = int (length o1)" using less.prems(2) o1(3) by simp
      from less.hyps [OF sh o1(2) z] show ?thesis using 2 False E o1 by (simp add: cs walk_comp_def)
    next
      case 3
      then show ?thesis using False E by (auto simp: cs walk_comp_def)
    next
      case 4
      then have "?n + length c + 1 < length out" using less.prems(2) by linarith
      moreover have "take ?n out = joinp ss" "\<forall>s \<in> set ss. slash \<notin> set s"
        using less.prems(1) by (cases "ss = []"; simp add: dir_at_def at_dir_def holds_str_def)+
      ultimately obtain o1 o2 o3 where o: "bputs out (int ?n) c = Some o1" "bput o1 (int (?n + length c)) slash = Some o2"
        "bput o2 (int (?n + length c + 1)) 0 = Some o3" "at_dir o3 (ss @ [c])" "length o3 = length out"
        using push_seg [OF _ _ ns] by blast
      have e: "build_loop p out ?n outsz = build_loop r o3 (length (joinp (ss @ [c]))) outsz"
        using 4 False o(1-3) unfolding E by simp
      have z: "outsz = int (length o3)" using less.prems(2) o(5) by simp
      from less.hyps [OF sh at_dir_dir_at [OF o(4)] z] show ?thesis using 4 o(5) unfolding e by (simp add: cs walk_comp_def)
    qed
  qed
qed

text \<open>A current directory: plain segments, each followed by a slash.\<close>

definition cwd_dir :: "u8 list \<Rightarrow> u8 list list \<Rightarrow> bool" where
  "cwd_dir cwd ss \<longleftrightarrow> holds_str cwd (joinp ss) \<and> length (joinp ss) \<le> NAME_MAX \<and>
     (\<forall>s \<in> set ss. plain_seg s \<and> slash \<notin> set s \<and> 0 \<notin> set s)"

lemma joinp_no_zero: "\<forall>s \<in> set ss. 0 \<notin> set s \<Longrightarrow> 0 \<notin> set (joinp ss)"
  by (induction ss) (auto simp: slash_def)

lemma cwd_cstr: "cwd_dir cwd ss \<Longrightarrow> cstr cwd = joinp ss"
  by (rule holds_str_cstr) (auto simp: cwd_dir_def joinp_no_zero)

definition build_spec :: "int \<Rightarrow> u8 list list \<Rightarrow> u8 list \<Rightarrow> u8 list list option" where
  "build_spec z ss a = fold (walk_comp z) (comps a) (Some (if hd a \<noteq> slash then ss else []))"

lemma comps_abs: "a \<noteq> [] \<Longrightarrow> hd a = slash \<Longrightarrow> comps (tl a) = comps a"
  by (cases a) (simp_all add: comps_slash)

lemma dir_segs_chars: "s \<in> set (dir_segs p) \<Longrightarrow> set s \<subseteq> set p"
proof (induction p rule: dir_segs.induct)
  case (1 p)
  let ?r = "dropWhile (\<lambda>c. c \<noteq> slash) p"
  have "set (tl ?r) \<subseteq> set p" by (metis list.set_sel(2) set_dropWhileD subsetI tl_Nil)
  then show ?case using 1 by (subst (asm) (2) dir_segs.simps) (fastforce split: if_splits dest: set_takeWhileD)
qed

lemma build_spec_segs:
  assumes "cwd_dir cwd ss" "build_spec z ss a = Some ts"
  shows "\<forall>s \<in> set ts. plain_seg s \<and> slash \<notin> set s" "0 \<notin> set a \<Longrightarrow> \<forall>s \<in> set ts. 0 \<notin> set s"
proof -
  note W = walk_comps_all [OF assms(2) [unfolded build_spec_def]]
  show "\<forall>s \<in> set ts. plain_seg s \<and> slash \<notin> set s"
    by (rule W) (use assms(1) comps_plain in \<open>auto simp: cwd_dir_def\<close>)
  show "\<forall>s \<in> set ts. 0 \<notin> set s" if "0 \<notin> set a"
    by (rule W) (use assms(1) that dir_segs_chars [of _ a] in \<open>auto simp: cwd_dir_def comps_def\<close>)
qed

lemma build_path_spec:
  assumes "cwd_dir cwd ss" "a \<noteq> []" "length out = 64"
  shows "\<exists>ok out'. build_path cwd (Some a) out wd = Some (ok, out') \<and> length out' = 64 \<and>
    (case build_spec 64 ss a of None \<Rightarrow> ok = -1
     | Some ts \<Rightarrow> if wd then ok = 1 \<and> holds_str out' (joinp ts)
                  else if ts = [] then ok = 0 else ok = 1 \<and> holds_str out' (butlast (joinp ts)))"
proof -
  define rel where "rel \<longleftrightarrow> arr_get a 0 \<noteq> slash"
  have rel: "rel \<longleftrightarrow> hd a \<noteq> slash" using assms(2) by (cases a) (simp_all add: rel_def)
  define rs where "rs = (if rel then ss else [])"
  have w: "cstr cwd = joinp ss" "length (joinp ss) \<le> 47" using cwd_cstr [OF assms(1)] assms(1) by (simp_all add: cwd_dir_def NAME_MAX_def)
  obtain o1 where o1: "(if rel then do { out \<leftarrow> bputs out 0 (cstr cwd); out \<leftarrow> bput out (int (length (cstr cwd))) 0; Some (out, length (cstr cwd)) }
      else Some (out, 0)) = Some (o1, length (joinp rs))" "dir_at o1 rs" "length o1 = 64"
  proof (cases rel)
    case True
    let ?o = "(arr_put out 0 (joinp ss))[length (joinp ss) := 0]"
    have l: "length (arr_put out 0 (joinp ss)) = 64" using assms(3) w(2) by simp
    have "bputs out 0 (joinp ss) = Some (arr_put out 0 (joinp ss))" using bputs_nat [of 0 "joinp ss" out] assms(3) w(2) by simp
    moreover have "bput (arr_put out 0 (joinp ss)) (int (length (joinp ss))) 0 = Some ?o" using l w(2) by (intro bput_nat) simp
    moreover have "holds_str ?o (joinp ss)" using l w(2) by (intro holds_str_end) (simp_all add: arr_put_def)
    then have "dir_at ?o ss" using assms(1) by (intro at_dir_dir_at) (simp add: at_dir_def cwd_dir_def)
    ultimately show ?thesis using that True w(1) l by (simp add: rs_def)
  next
    case False
    then show ?thesis using that assms(3) by (simp add: rs_def dir_at_def)
  qed
  obtain ok o2 n where L: "build_loop (if rel then a else tl a) o1 (length (joinp rs)) 64 = Some (ok, o2, n)" "length o2 = 64"
    "case build_spec 64 ss a of None \<Rightarrow> \<not> ok | Some ts \<Rightarrow> ok \<and> n = length (joinp ts) \<and> dir_at o2 ts"
    using build_loop_spec [OF o1(2), of 64 "if rel then a else tl a"] o1(3) comps_abs [OF assms(2)] rel
    by (auto simp: build_spec_def rs_def split: if_splits)
  have z: "int (length out) = 64" "(rel \<and> int (length (cstr cwd)) \<ge> 64) = False" using assms(3) w by auto
  note E = build_path_def [of cwd "Some a" out wd, unfolded Let_def option.case rel_def [symmetric] z, simplified if_False o1(1) L(1)]
  show ?thesis
  proof (cases "build_spec 64 ss a")
    case None
    then show ?thesis using E L assms(2) by (simp add: o1(1) L(1))
  next
    case (Some ts)
    then have n: "ok" "n = length (joinp ts)" "dir_at o2 ts" using L(3) by simp_all
    show ?thesis
    proof (cases "ts = []")
      case True
      moreover have "o2 \<noteq> []" using L(2) by auto
      ultimately show ?thesis using E L n Some assms(2) by (simp add: o1(1) L(1) bput_def holds_str_def)
    next
      case False
      then obtain t where t: "joinp ts = t @ [slash]" using joinp_last [of ts] append_butlast_last_id [of "joinp ts"] by (metis joinp_Nil_iff)
      have h: "holds_str o2 (t @ [slash])" using n(3) False t by (simp add: dir_at_def at_dir_def)
      then have s: "arr_get o2 (length t) = slash"
        by (auto simp: holds_str_def arr_get_def dest: arg_cong [where f = "\<lambda>x. x ! length t"])
      have ne: "t \<noteq> []"
      proof -
        obtain us x where "ts = us @ [x]" using False by (cases ts rule: rev_cases) simp_all
        then show ?thesis using build_spec_segs(1) [OF assms(1) Some] t by (auto simp: plain_seg_def)
      qed
      show ?thesis using E L n Some assms(2) False t h s ne holds_str_prefix [OF h]
        by (auto simp: o1(1) L(1) bput_nat holds_str_def)
    qed
  qed
qed

lemma dir_segs_of_joinp: "\<forall>s \<in> set ss. slash \<notin> set s \<Longrightarrow> dir_segs (joinp ss) = ss"
  by (induction ss) (simp_all add: dir_segs_step)

lemma resolve_build_spec:
  assumes "cwd_dir cwd ss" "a \<noteq> []"
  shows "resolve_spec 64 (cstr cwd) a = map_option (\<lambda>ts. butlast (joinp ts)) (build_spec 64 ss a)"
proof -
  have "dir_segs (joinp ss) = ss" "length (joinp ss) \<le> 47"
    using assms(1) by (auto simp: cwd_dir_def NAME_MAX_def intro!: dir_segs_of_joinp)
  then show ?thesis using assms by (auto simp: resolve_spec_def build_spec_def cwd_cstr Let_def)
qed

text \<open>
  The shell and the programs it starts resolve names alike: in the same current directory \<open>build_path\<close>
  and the library's \<open>path_resolve\<close> accept the same names and build the same file name.
\<close>

lemma shell_library_paths:
  assumes "cwd_dir cwd ss" "a \<noteq> []" "0 \<notin> set a" "length out = 64"
  shows "\<exists>ok1 out1 ok2 out2. build_path cwd (Some a) out False = Some (ok1, out1) \<and>
    path_resolve (Some (cstr cwd)) (Some a) out = Some (ok2, out2) \<and> (ok1 > 0 \<longleftrightarrow> ok2) \<and> (ok2 \<longrightarrow> cstr out1 = cstr out2)"
proof -
  obtain ok1 out1 where b: "build_path cwd (Some a) out False = Some (ok1, out1)"
    "case build_spec 64 ss a of None \<Rightarrow> ok1 = -1 | Some ts \<Rightarrow> if ts = [] then ok1 = 0 else ok1 = 1 \<and> holds_str out1 (butlast (joinp ts))"
    using build_path_spec [OF assms(1,2,4), of False] unfolding if_False by blast
  have "out \<noteq> []" using assms(4) by auto
  from path_resolve_spec [OF this, of "cstr cwd" a] obtain ok2 out2 where r: "path_resolve (Some (cstr cwd)) (Some a) out = Some (ok2, out2)"
    and "case resolve_spec (int (length out)) (cstr cwd) a of None \<Rightarrow> \<not> ok2 | Some p \<Rightarrow> ok2 = (p \<noteq> []) \<and> holds_str out2 p" by blast
  then have r2: "case build_spec 64 ss a of None \<Rightarrow> \<not> ok2 | Some ts \<Rightarrow> ok2 = (butlast (joinp ts) \<noteq> []) \<and> holds_str out2 (butlast (joinp ts))"
    using assms(4) resolve_build_spec [OF assms(1,2)] by (cases "build_spec 64 ss a") simp_all
  have "butlast (joinp ts) \<noteq> [] \<and> 0 \<notin> set (butlast (joinp ts))" if bs: "build_spec 64 ss a = Some ts" "ts \<noteq> []" for ts
  proof -
    note S = build_spec_segs [OF assms(1) bs(1)]
    obtain us x where "ts = us @ [x]" using bs(2) by (cases ts rule: rev_cases) auto
    then show ?thesis using S(1) joinp_no_zero [OF S(2) [OF assms(3)]]
      by (auto simp: plain_seg_def butlast_append dest: in_set_butlastD)
  qed
  then show ?thesis using b r r2 holds_str_cstr by (fastforce split: option.splits if_splits)
qed

subsection \<open>The shell stays inside its buffers\<close>

definition shell_ok :: "'k shell \<Rightarrow> bool" where
  "shell_ok s \<longleftrightarrow> length (sh_cwd s) = 64 \<and> length (sh_list s) = LIST_BUF \<and> length (sh_type s) = 65536 \<and>
     length (sh_edit s) = EDIT_BUF \<and> length (sh_stack s) = 64 \<and> (\<exists>ss. cwd_dir (sh_cwd s) ss)"

text \<open>Printing and system calls leave the buffers alone.\<close>

definition same_bufs :: "'k shell \<Rightarrow> 'k shell \<Rightarrow> bool" where
  "same_bufs s s' \<longleftrightarrow> sh_cwd s' = sh_cwd s \<and> sh_list s' = sh_list s \<and> sh_type s' = sh_type s \<and> sh_edit s' = sh_edit s \<and> sh_stack s' = sh_stack s"

lemma same_bufs_ok: "same_bufs s s' \<Longrightarrow> shell_ok s' = shell_ok s"
  by (simp add: same_bufs_def shell_ok_def)

lemma say_ok [simp]:
  "shell_ok (say t s) = shell_ok s" "shell_ok (puts u s) = shell_ok s" "shell_ok (newline s) = shell_ok s" "shell_ok (line u s) = shell_ok s"
  "shell_ok (s\<lparr>sh_out := x\<rparr>) = shell_ok s" "shell_ok (s\<lparr>sh_os := k\<rparr>) = shell_ok s" "shell_ok (s\<lparr>sh_alive := b\<rparr>) = shell_ok s"
  by (simp_all add: same_bufs_ok same_bufs_def say_def puts_def newline_def line_def shell_ok_def)

lemma prompt_ok [simp]: "shell_ok (prompt s) = shell_ok s"
  by (simp add: prompt_def Let_def)

text \<open>The local arrays are large enough.\<close>

lemma entry_name_fits:
  assumes "length out = 49"
  shows "\<exists>out'. entry_name out buf i = Some out' \<and> length out' = 49 \<and> length (cstr out') \<le> 48"
proof -
  define p where "p = takeWhile (\<lambda>c. c \<noteq> 0) (map (\<lambda>j. arr_get buf (i * 52 + j)) [0..<48])"
  have len: "length p \<le> 48" unfolding p_def using length_takeWhile_le [of _ "map (\<lambda>j. arr_get buf (i * 52 + j)) [0..<48]"] by simp
  have z: "0 \<notin> set p" by (auto simp: p_def dest: set_takeWhileD)
  have "bputs out 0 p = Some (arr_put out 0 p)" "length (arr_put out 0 p) = 49"
    using bputs_nat [of 0 p out] len assms by simp_all
  moreover from this have "bput (arr_put out 0 p) (int (length p)) 0 = Some ((arr_put out 0 p)[length p := 0])" using len by (intro bput_nat) simp
  moreover have "holds_str ((arr_put out 0 p)[length p := 0]) p"
    using len assms by (intro holds_str_end) (simp_all add: arr_put_def)
  then have "cstr ((arr_put out 0 p)[length p := 0]) = p" using z by (rule holds_str_cstr)
  ultimately show ?thesis using len by (simp add: entry_name_def p_def [symmetric])
qed

lemma find_name_fits: "length name = 49 \<Longrightarrow> \<exists>b. find_name hit name buf is = Some b"
proof (induction "is" arbitrary: name)
  case (Cons i "is")
  obtain nm where "entry_name name buf i = Some nm" "length nm = 49" using entry_name_fits [OF Cons.prems] by blast
  then show ?case using Cons.IH by auto
qed auto

lemma find_slash_lt: "find_slash r \<le> int (length r)"
  using length_takeWhile_le [of "\<lambda>c. c \<noteq> slash" r] by (auto simp: find_slash_def)

lemma ls_visible_fits:
  assumes "length disp = 49" "length name \<le> 48"
  shows "\<exists>y. ls_visible cwd name disp = Some y"
proof -
  define r where "r = (if cstr cwd \<noteq> [] then drop (length (cstr cwd)) name else name)"
  have len: "length r \<le> 48" using assms(2) by (auto simp: r_def)
  obtain d1 where d1: "bputs disp 0 (r @ [0]) = Some d1" using bputs_fits [of 0 "r @ [0]" disp] len assms(1) by auto
  show ?thesis
  proof (cases "find_slash r < 0")
    case True
    then show ?thesis using d1 unfolding ls_visible_def Let_def r_def [symmetric] by auto
  next
    case False
    then obtain j where j: "find_slash r = int j" "j < 49" using find_slash_lt [of r] len by (cases "find_slash r") auto
    have "length (take j r) \<le> 49" using len by simp
    then obtain d2 where d2: "bputs disp 0 (take j r) = Some d2" "length d2 = 49"
      using bputs_fits [of 0 "take j r" disp] assms(1) by auto
    obtain d3 where "bput d2 (int j) 0 = Some d3" using bput_fits [of j d2] d2(2) j(2) by auto
    then show ?thesis using False j(1) d2(1) unfolding ls_visible_def Let_def r_def [symmetric] by auto
  qed
qed

lemma num_loop_fits: "length num = 12 \<Longrightarrow> \<exists>num' j'. sh_num_loop num j v = Some (num', j')"
proof (induction num j v rule: sh_num_loop.induct)
  case (1 num j v)
  show ?case
  proof (cases "v > 0 \<and> j < 10")
    case True
    obtain n1 where n1: "bput num (int j) (word_of_int (0x30 + v mod 10)) = Some n1" "length n1 = 12"
      using bput_fits [of j num] 1(2) True by auto
    from 1(1) [OF True, of n1] n1 show ?thesis using True by (subst sh_num_loop.simps) auto
  qed (subst sh_num_loop.simps, auto)
qed

lemma sh_num_fits: "length num = 12 \<Longrightarrow> \<exists>ds. sh_num num v = Some ds"
  using num_loop_fits [of num 0 v] num_loop_fits [of "num[0 := 0x30]" 1 0] by (auto simp: sh_num_def bput_def)

lemma pop_scan_le: "pop_scan p n \<le> n"
  by (induction n) auto

lemma parent_dir_fits:
  assumes "length parent = 64" "length path \<le> 47"
  shows "\<exists>p. parent_dir parent path = Some p"
proof -
  define n where "n = pop_scan path (length path - 1)"
  have "length (take n path) \<le> 64" using assms(2) by simp
  then obtain p1 where p1: "bputs parent 0 (take n path) = Some p1" "length p1 = 64"
    using bputs_fits [of 0 "take n path" parent] assms(1) by auto
  have "n \<le> 47" using pop_scan_le [of path "length path - 1"] assms(2) by (simp add: n_def)
  then obtain p2 where "bput p1 (int n) 0 = Some p2" using bput_fits [of n p1] p1(2) by auto
  then show ?thesis using p1(1) unfolding parent_dir_def n_def [symmetric] Let_def by simp
qed

lemma ls_entry_fits:
  assumes "length (sh_stack (snd x)) = 64"
  shows "\<exists>y. ls_entry d i x = Some y \<and> same_bufs (snd x) (snd y) \<and> sh_os (snd y) = sh_os (snd x)"
proof -
  obtain col s where x: "x = (col, s)" by fastforce
  have st: "length (take 49 (sh_stack s)) = 49" "length (take 12 (sh_stack s)) = 12" using assms by (simp_all add: x)
  obtain nm where nm: "entry_name (take 49 (sh_stack s)) (sh_list s) i = Some nm" "length (cstr nm) \<le> 48"
    using entry_name_fits [OF st(1)] by blast
  obtain v ds q where ls: "ls_visible (sh_cwd s) (cstr nm) (take 49 (sh_stack s)) = Some (v, ds, q)" using ls_visible_fits [OF st(1) nm(2), of "sh_cwd s"] by auto
  obtain num where "sh_num (take 12 (sh_stack s)) (sint (le32 (sh_list s) (i * 52 + 48))) = Some num" using sh_num_fits [OF st(2)] by blast
  then have "\<exists>y. ls_print (cstr ds) q (sint (le32 (sh_list s) (i * 52 + 48))) (col, s) = Some y \<and> same_bufs s (snd y) \<and> sh_os (snd y) = sh_os s"
    by (simp add: ls_print_def Let_def say_def puts_def put_chars_def newline_def same_bufs_def)
  then show ?thesis using nm(1) ls by (auto simp: x ls_entry_def same_bufs_def)
qed

lemma ls_pass_fits:
  "length (sh_stack (snd x)) = 64 \<Longrightarrow> \<exists>y. ls_pass d is x = Some y \<and> same_bufs (snd x) (snd y) \<and> sh_os (snd y) = sh_os (snd x)"
proof (induction "is" arbitrary: x)
  case (Cons i "is")
  obtain y where y: "ls_entry d i x = Some y" "same_bufs (snd x) (snd y)" "sh_os (snd y) = sh_os (snd x)" using ls_entry_fits [OF Cons.prems] by blast
  then have "length (sh_stack (snd y)) = 64" using Cons.prems by (simp add: same_bufs_def)
  from Cons.IH [OF this] y show ?case by (auto simp: same_bufs_def)
qed (simp add: same_bufs_def)

text \<open>A command saves at most once, and in the editor once for every key.\<close>

definition saves :: "(u8 list \<times> int list) list \<Rightarrow> nat" where
  "saves inps = sum_list (map (\<lambda>inp. Suc (length (snd inp))) inps)"

text \<open>
  What the shell needs of the system besides the files: a listing fits the buffer, and no call spoils
  the order the system is in.
\<close>

locale shell_os = file_service fc view roomy
  for fc :: "('k, 'z) sh_calls_scheme" and view :: "'k \<Rightarrow> u8 list \<Rightarrow> u8 list option" and roomy :: "nat \<Rightarrow> 'k \<Rightarrow> bool" +
  assumes list_fits: "roomy m k \<Longrightarrow> mx \<le> LIST_BUF \<Longrightarrow> length (snd (s_list fc mx k)) \<le> mx"
    and keep_delete: "roomy m k \<Longrightarrow> path_ok p \<Longrightarrow> roomy m (snd (s_delete fc p k))"
    and keep_rename: "roomy m k \<Longrightarrow> path_ok p \<Longrightarrow> path_ok q \<Longrightarrow> roomy m (snd (s_rename fc p q k))"
    and keep_exec: "roomy m k \<Longrightarrow> roomy m (snd (s_exec fc p k))"
    and keep_setcwd: "roomy m k \<Longrightarrow> roomy m (s_setcwd fc p k)"
    and keep_poweroff: "roomy m k \<Longrightarrow> roomy m (s_poweroff fc k)"
begin

definition good :: "nat \<Rightarrow> 'k shell \<Rightarrow> bool" where
  "good m s \<longleftrightarrow> shell_ok s \<and> roomy m (sh_os s)"

lemma good_say [simp]:
  "good m (say t s) = good m s" "good m (puts u s) = good m s" "good m (newline s) = good m s" "good m (line u s) = good m s"
  "good m (s\<lparr>sh_out := x\<rparr>) = good m s" "good m (s\<lparr>sh_alive := b\<rparr>) = good m s" "good m (prompt s) = good m s"
  "good m (s\<lparr>sh_os := k\<rparr>) = (shell_ok s \<and> roomy m k)"
  by (simp_all add: good_def) (simp_all add: say_def puts_def newline_def line_def prompt_def Let_def)

lemma good_less: "good (n + m) s \<Longrightarrow> good m s"
  using roomy_less by (auto simp: good_def)

lemma read_list_ok: "good m s \<Longrightarrow> \<exists>n s'. read_list fc s = Some (n, s') \<and> good m s'"
proof -
  assume s: "good m s"
  obtain n bytes where l: "s_list fc LIST_BUF (sh_os s) = (n, bytes)" by fastforce
  then have "length bytes \<le> length (sh_list s)" using list_fits [of m "sh_os s" LIST_BUF] s by (simp add: good_def shell_ok_def)
  then have "bputs (sh_list s) 0 bytes = Some (arr_put (sh_list s) 0 bytes)" "length (arr_put (sh_list s) 0 bytes) = length (sh_list s)"
    using bputs_nat [of 0 bytes "sh_list s"] by simp_all
  then show ?thesis using s l by (simp add: read_list_def good_def shell_ok_def)
qed

lemma dir_exists_ok: "good m s \<Longrightarrow> \<exists>b s'. dir_exists fc p s = Some (b, s') \<and> good m s'"
proof -
  assume "good m s"
  then obtain n s1 where s1: "read_list fc s = Some (n, s1)" "good m s1" using read_list_ok by blast
  then have "length (take 49 (sh_stack s1)) = 49" by (simp add: good_def shell_ok_def)
  then obtain b where "find_name (\<lambda>nm. sh_name_eq_ci nm p) (take 49 (sh_stack s1)) (sh_list s1) [0..<n] = Some b" using find_name_fits by blast
  then show ?thesis using s1 by (simp add: dir_exists_def)
qed

lemma dir_has_children_ok: "good m s \<Longrightarrow> \<exists>b s'. dir_has_children fc p s = Some (b, s') \<and> good m s'"
proof -
  assume "good m s"
  then obtain n s1 where s1: "read_list fc s = Some (n, s1)" "good m s1" using read_list_ok by blast
  then have "length (take 49 (sh_stack s1)) = 49" by (simp add: good_def shell_ok_def)
  then obtain b where "find_name (\<lambda>nm. starts_with_ci nm p \<and> \<not> sh_name_eq_ci nm p) (take 49 (sh_stack s1)) (sh_list s1) [0..<n] = Some b" using find_name_fits by blast
  then show ?thesis using s1 by (simp add: dir_has_children_def)
qed

lemma sh_path_ok:
  assumes "good m s" "arg \<noteq> []" "0 \<notin> set arg"
  shows "\<exists>ok path. sh_path arg wd s = Some (ok, path) \<and> (ok > 0 \<longrightarrow> length path \<le> NAME_MAX \<longrightarrow> \<not> wd \<or> path \<noteq> [] \<longrightarrow> path_ok path) \<and>
    (ok > 0 \<longrightarrow> wd \<longrightarrow> (\<exists>ts. path = joinp ts \<and> (\<forall>x \<in> set ts. plain_seg x \<and> slash \<notin> set x \<and> 0 \<notin> set x)))"
proof -
  obtain ss where c: "cwd_dir (sh_cwd s) ss" and l: "length (sh_stack s) = 64" using assms(1) by (auto simp: good_def shell_ok_def)
  from build_path_spec [OF c assms(2) l, of wd] obtain ok out' where b: "build_path (sh_cwd s) (Some arg) (sh_stack s) wd = Some (ok, out')"
    "case build_spec 64 ss arg of None \<Rightarrow> ok = -1
     | Some ts \<Rightarrow> if wd then ok = 1 \<and> holds_str out' (joinp ts)
                  else if ts = [] then ok = 0 else ok = 1 \<and> holds_str out' (butlast (joinp ts))" by blast
  have "\<exists>ts. cstr out' = (if wd then joinp ts else butlast (joinp ts)) \<and> (\<not> wd \<longrightarrow> butlast (joinp ts) \<noteq> []) \<and> 0 \<notin> set (cstr out') \<and>
      (\<forall>x \<in> set ts. plain_seg x \<and> slash \<notin> set x \<and> 0 \<notin> set x)" if pos: "ok > 0"
  proof -
    obtain ts where ts: "build_spec 64 ss arg = Some ts" "if wd then holds_str out' (joinp ts) else holds_str out' (butlast (joinp ts))" "\<not> wd \<longrightarrow> ts \<noteq> []"
      using b(2) pos by (auto split: option.splits if_splits)
    note S = build_spec_segs [OF c ts(1)]
    have z: "0 \<notin> set (joinp ts)" using S(2) [OF assms(3)] by (rule joinp_no_zero)
    then have z': "0 \<notin> set (butlast (joinp ts))" by (auto dest: in_set_butlastD)
    have "butlast (joinp ts) \<noteq> []" if nwd: "\<not> wd"
    proof -
      obtain us x where "ts = us @ [x]" using ts(3) nwd by (cases ts rule: rev_cases) auto
      then show ?thesis using S(1) by (auto simp: plain_seg_def butlast_append)
    qed
    moreover have "cstr out' = (if wd then joinp ts else butlast (joinp ts))"
      using ts(2) z z' by (auto intro: holds_str_cstr)
    ultimately show ?thesis using S(1) S(2) [OF assms(3)] z z' by (intro exI [of _ ts]) auto
  qed
  then show ?thesis using b(1) by (auto simp: sh_path_def path_ok_def NAME_MAX_def)
qed

lemma cmd_ls_ok: "good m s \<Longrightarrow> \<exists>s'. cmd_ls fc s = Some s' \<and> good m s'"
proof -
  assume "good m s"
  then obtain n s1 where s1: "read_list fc s = Some (n, s1)" "good m s1" using read_list_ok by blast
  have F: "\<exists>c' t'. ls_pass d is (c, t) = Some (c', t') \<and> good m t'" if "good m t" for d "is" c t
  proof -
    have "length (sh_stack (snd (c, t))) = 64" using that by (simp add: good_def shell_ok_def)
    from ls_pass_fits [OF this, of d "is"] obtain y where "ls_pass d is (c, t) = Some y" "same_bufs t (snd y)" "sh_os (snd y) = sh_os t" by auto
    then show ?thesis using that same_bufs_ok [of t "snd y"] by (cases y) (simp add: good_def)
  qed
  obtain c2 s2 where s2: "ls_pass True [0..<n] (0, s1) = Some (c2, s2)" "good m s2" using F [OF s1(2)] by blast
  obtain c3 s3 where s3: "ls_pass False [0..<n] (c2, s2) = Some (c3, s3)" "good m s3" using F [OF s2(2)] by blast
  then show ?thesis using s1(1) s2(1) by (simp add: cmd_ls_def)
qed

lemma load_into:
  assumes "roomy m k" "length b \<le> EDIT_BUF" "f_load fc p (length b) k = (n, bytes)"
  shows "\<exists>b'. bputs b 0 bytes = Some b' \<and> length b' = length b \<and> n \<le> int (length b) \<and>
    (n > 0 \<longrightarrow> view k p = Some (take (nat n) b')) \<and> (\<forall>c. view k p = Some c \<longrightarrow> length c \<le> length b \<longrightarrow> take (nat n) b' = c \<and> n \<ge> 0)"
proof -
  have l: "(n, bytes) = (case view k p of None \<Rightarrow> (-1, []) | Some c \<Rightarrow> if length c > length b then (-1, []) else (int (length c), c))"
    using load [OF assms(1,2)] assms(3) by simp
  then have "length bytes \<le> length b" by (auto split: option.splits if_splits)
  then have "bputs b 0 bytes = Some (arr_put b 0 bytes)" "length (arr_put b 0 bytes) = length b" using bputs_nat [of 0 bytes b] by simp_all
  then show ?thesis using l by (auto simp: arr_put_def split: option.splits if_splits)
qed

lemma cmd_type_ok:
  assumes "good m s" "arg \<noteq> []" "0 \<notin> set arg"
  shows "\<exists>s'. cmd_type fc arg s = Some s' \<and> good m s'"
proof -
  obtain ok path where p: "sh_path arg False s = Some (ok, path)" using sh_path_ok [OF assms] by blast
  have g: "roomy m (sh_os s)" "length (sh_type s) \<le> EDIT_BUF" using assms(1) by (simp_all add: good_def shell_ok_def EDIT_BUF_def)
  obtain n bytes where l: "f_load fc path (length (sh_type s)) (sh_os s) = (n, bytes)" by fastforce
  from load_into [OF g l] obtain b where "bputs (sh_type s) 0 bytes = Some b" "length b = length (sh_type s)" by blast
  moreover from this have "good m (s\<lparr>sh_type := b\<rparr>)" using assms(1) by (simp add: good_def shell_ok_def)
  ultimately show ?thesis using p l assms(1) by (simp add: cmd_type_def Let_def)
qed

lemma cmd_run_ok:
  assumes "good m s" "arg \<noteq> []" "0 \<notin> set arg"
  shows "\<exists>s'. cmd_run fc arg s = Some s' \<and> good m s'"
proof -
  obtain ok path where p: "sh_path arg False s = Some (ok, path)" using sh_path_ok [OF assms] by blast
  obtain rc k where k: "s_exec fc path (sh_os s) = (rc, k)" by fastforce
  have g: "shell_ok s" "roomy m k" using keep_exec [of m "sh_os s" path] k assms(1) by (simp_all add: good_def)
  then have "length (take 12 (sh_stack s)) = 12" by (simp add: shell_ok_def)
  then obtain ds where "sh_num (take 12 (sh_stack s)) (the rc) = Some ds" using sh_num_fits by blast
  then show ?thesis using p k g assms(1) by (cases rc) (auto simp: cmd_run_def Let_def put_chars_def)
qed

text \<open>The editor on a file: what it starts with.\<close>

lemma editor_open_ok:
  assumes "roomy m k" "length buf = EDIT_BUF"
  shows "\<exists>e. editor_open fc buf path k = Some e \<and> editor_ok e \<and> \<not> e_dirty e \<and> e_cur e = 0 \<and>
    (case view k path of Some c \<Rightarrow> if length c \<le> EDIT_BUF then etext e = c else etext e = [] | None \<Rightarrow> etext e = [])"
proof -
  obtain n bytes where l: "f_load fc path (length buf) k = (n, bytes)" by fastforce
  from load_into [OF assms(1) _ l] assms(2) obtain b where b: "bputs buf 0 bytes = Some b" "length b = EDIT_BUF" "n \<le> int EDIT_BUF"
    "n > 0 \<longrightarrow> view k path = Some (take (nat n) b)" "\<forall>c. view k path = Some c \<longrightarrow> length c \<le> EDIT_BUF \<longrightarrow> take (nat n) b = c \<and> n \<ge> 0" by auto
  have "n \<le> 0" if "view k path = None \<or> (\<exists>c. view k path = Some c \<and> length c > EDIT_BUF)"
    using b(2-4) that by (cases "n > 0") auto
  then show ?thesis using l b(1-3,5) by (auto simp: editor_open_def editor_ok_def etext_def nat_le_iff split: option.splits)
qed

lemma cmd_edit_ok:
  assumes "good (length keys + m) s" "arg \<noteq> []" "0 \<notin> set arg"
  shows "\<exists>s'. cmd_edit fc keys arg s = Some s' \<and> good m s'"
proof -
  obtain ok path where p: "sh_path arg False s = Some (ok, path)" "ok > 0 \<longrightarrow> length path \<le> NAME_MAX \<longrightarrow> path_ok path"
    using sh_path_ok [OF assms, of False] by blast
  have len: "length (sh_edit s) = EDIT_BUF" and r: "roomy (length keys + m) (sh_os s)" using assms(1) by (simp_all add: good_def shell_ok_def)
  obtain e where e: "editor_open fc (sh_edit s) path (sh_os s) = Some e" "editor_ok e" using editor_open_ok [OF r len] by blast
  show ?thesis
  proof (cases "ok \<le> 0 \<or> length path > NAME_MAX")
    case False
    then have pp: "path_ok path" using p(2) by simp
    have "\<not> e_dirty e \<longrightarrow> stored path (view (sh_os s) path) (etext e) (sh_os s) (etext e)" by (simp add: stored_def)
    from session [OF e(2) r pp this, of arg] obtain out e' k' q where k': "edit_loop fc arg path keys e (sh_os s) = Some (out, e', k', q)" "editor_ok e'" "roomy m k'" by blast
    then have "good m (s\<lparr>sh_edit := e_buf e', sh_os := k'\<rparr>)" using assms(1) by (simp add: good_def shell_ok_def editor_ok_def)
    then show ?thesis using p e k'(1) False by (simp add: cmd_edit_def)
  next
    case True
    then show ?thesis using p(1) good_less [OF assms(1)] by (auto simp: cmd_edit_def)
  qed
qed

lemma set_cwd_ok:
  assumes "good m s" "path = joinp ts" "\<forall>x \<in> set ts. plain_seg x \<and> slash \<notin> set x \<and> 0 \<notin> set x" "length path \<le> NAME_MAX"
  shows "\<exists>s'. set_cwd fc path s = Some s' \<and> good m s' \<and> cstr (sh_cwd s') = path"
proof -
  let ?w = "arr_put (sh_cwd s) 0 (path @ [0])"
  have l: "length (sh_cwd s) = 64" "length path \<le> 47" using assms(1,4) by (simp_all add: good_def shell_ok_def NAME_MAX_def)
  have "bputs (sh_cwd s) 0 (path @ [0]) = Some ?w" using bputs_nat [of 0 "path @ [0]" "sh_cwd s"] l by simp
  moreover have "holds_str ?w path" using l by (auto simp: holds_str_def arr_put_def nth_append)
  then have "cwd_dir ?w ts" using assms by (simp add: cwd_dir_def)
  moreover from this have "cstr ?w = path" using cwd_cstr assms(2) by simp
  moreover have "length ?w = 64" using l by simp
  ultimately show ?thesis using assms(1) keep_setcwd [of m "sh_os s"] by (auto simp: set_cwd_def good_def shell_ok_def)
qed

lemma cmd_cd_ok:
  assumes "good m s" "arg \<noteq> []" "0 \<notin> set arg"
  shows "\<exists>s'. cmd_cd fc arg s = Some s' \<and> good m s'"
proof -
  obtain ok path where p: "sh_path arg True s = Some (ok, path)"
    "ok > 0 \<longrightarrow> (\<exists>ts. path = joinp ts \<and> (\<forall>x \<in> set ts. plain_seg x \<and> slash \<notin> set x \<and> 0 \<notin> set x))" using sh_path_ok [OF assms, of True] by blast
  obtain b s1 where d: "dir_exists fc path s = Some (b, s1)" "good m s1" using dir_exists_ok [OF assms(1)] by blast
  have "\<exists>s'. set_cwd fc [] s = Some s' \<and> good m s'" using set_cwd_ok [OF assms(1), of "[]" "[]"] by (auto simp: NAME_MAX_def)
  moreover have "\<exists>s'. set_cwd fc path s1 = Some s' \<and> good m s'" if "ok > 0" "length path \<le> NAME_MAX"
    using p(2) set_cwd_ok [OF d(2)] that by blast
  ultimately show ?thesis using p(1) d assms(1) by (auto simp: cmd_cd_def not_less not_le)
qed

lemma save_empty:
  assumes "good (Suc m) s" "path_ok path" "f_save fc path [0] 0 (sh_os s) = (rc, k)"
  shows "good m (s\<lparr>sh_os := k\<rparr>)"
  using save [OF _ assms(2) _ _ assms(3), of m] assms(1) by (simp add: good_def)

lemma cmd_mkdir_ok:
  assumes "good (Suc m) s" "0 \<notin> set arg"
  shows "\<exists>s'. cmd_mkdir fc arg s = Some s' \<and> good m s'"
proof (cases "arg = []")
  case False
  obtain ok path where p: "sh_path arg True s = Some (ok, path)" "ok > 0 \<longrightarrow> length path \<le> NAME_MAX \<longrightarrow> path \<noteq> [] \<longrightarrow> path_ok path"
    using sh_path_ok [OF assms(1) False assms(2), of True] by blast
  obtain b s1 where d: "dir_exists fc path s = Some (b, s1)" "good (Suc m) s1" using dir_exists_ok [OF assms(1)] by blast
  have "length (sh_stack s1) = 64" using d(2) by (simp add: good_def shell_ok_def)
  then have pd: "\<exists>q. parent_dir (sh_stack s1) path = Some q" if "length path \<le> NAME_MAX" using parent_dir_fits that by (simp add: NAME_MAX_def)
  define q where "q = the (parent_dir (sh_stack s1) path)"
  obtain b2 s2 where d2: "dir_exists fc q s1 = Some (b2, s2)" "good (Suc m) s2" using dir_exists_ok [OF d(2)] by blast
  obtain rc k where k: "f_save fc path [0] 0 (sh_os s1) = (rc, k)" by fastforce
  obtain rc2 k2 where k2: "f_save fc path [0] 0 (sh_os s2) = (rc2, k2)" by fastforce
  have g: "good m s" "good m s1" "good m s2" using good_less [of 1 m] assms(1) d(2) d2(2) by simp_all
  show ?thesis
  proof (cases "ok \<le> 0 \<or> path = [] \<or> length path > NAME_MAX")
    case True
    then show ?thesis using p(1) g by (auto simp: cmd_mkdir_def)
  next
    case False
    then have pp: "path_ok path" using p(2) by simp
    have pq: "parent_dir (sh_stack s1) path = Some q" using pd False by (auto simp: q_def)
    show ?thesis using False p(1) d(1) d2(1) pq k k2 g save_empty [OF d(2) pp k] save_empty [OF d2(2) pp k2]
      by (auto simp: cmd_mkdir_def Let_def)
  qed
next
  case True
  then show ?thesis using good_less [of 1 m s] assms(1) by (simp add: cmd_mkdir_def sh_path_def build_path_def)
qed

lemma cmd_rmdir_ok:
  assumes "good m s" "0 \<notin> set arg"
  shows "\<exists>s'. cmd_rmdir fc arg s = Some s' \<and> good m s'"
proof (cases "arg = []")
  case False
  obtain ok path where p: "sh_path arg True s = Some (ok, path)" "ok > 0 \<longrightarrow> length path \<le> NAME_MAX \<longrightarrow> path \<noteq> [] \<longrightarrow> path_ok path"
    using sh_path_ok [OF assms(1) False assms(2), of True] by blast
  obtain b s1 where d: "dir_exists fc path s = Some (b, s1)" "good m s1" using dir_exists_ok [OF assms(1)] by blast
  obtain b2 s2 where d2: "dir_has_children fc path s1 = Some (b2, s2)" "good m s2" using dir_has_children_ok [OF d(2)] by blast
  obtain rc k where k: "s_delete fc path (sh_os s2) = (rc, k)" by fastforce
  have "good m (s2\<lparr>sh_os := k\<rparr>)" if "path_ok path" using keep_delete [OF _ that, of m "sh_os s2"] k d2(2) by (simp add: good_def)
  then show ?thesis using p d d2 k assms(1) by (auto simp: cmd_rmdir_def Let_def)
qed (use assms in \<open>simp add: cmd_rmdir_def sh_path_def build_path_def\<close>)

lemma cmd_mv_ok:
  assumes "good m s" "0 \<notin> set args"
  shows "\<exists>s'. cmd_mv fc args s = Some s' \<and> good m s'"
proof -
  define a where "a = takeWhile (\<lambda>c. c \<noteq> 0x20) args"
  define b where "b = dropWhile (\<lambda>c. c = 0x20) (dropWhile (\<lambda>c. c \<noteq> 0x20) args)"
  have z: "0 \<notin> set a" "0 \<notin> set b" using assms(2) by (auto simp: a_def b_def dest: set_takeWhileD set_dropWhileD)
  note D = cmd_mv_def [of fc args s, unfolded Let_def, folded a_def b_def]
  show ?thesis
  proof (cases "a \<noteq> [] \<and> b \<noteq> []")
    case True
    obtain ok1 p1 where p1: "sh_path a False s = Some (ok1, p1)" "ok1 > 0 \<longrightarrow> length p1 \<le> NAME_MAX \<longrightarrow> path_ok p1"
      using sh_path_ok [OF assms(1) _ z(1), of False] True by blast
    obtain ok2 p2 where p2: "sh_path b False s = Some (ok2, p2)" "ok2 > 0 \<longrightarrow> length p2 \<le> NAME_MAX \<longrightarrow> path_ok p2"
      using sh_path_ok [OF assms(1) _ z(2), of False] True by blast
    obtain rc k where k: "s_rename fc p1 p2 (sh_os s) = (rc, k)" by fastforce
    have "good m (s\<lparr>sh_os := k\<rparr>)" if "path_ok p1" "path_ok p2"
      using keep_rename [OF _ that, of m "sh_os s"] k assms(1) by (simp add: good_def)
    then show ?thesis using True assms(1) p1 p2 k by (auto simp: D)
  next
    case False
    then show ?thesis using assms(1) unfolding D by auto
  qed
qed

lemma cmd_rm_ok:
  assumes "good m s" "0 \<notin> set arg"
  shows "\<exists>s'. cmd_rm fc arg s = Some s' \<and> good m s'"
proof (cases "arg = []")
  case False
  then obtain ok path where p: "sh_path arg False s = Some (ok, path)" "ok > 0 \<longrightarrow> length path \<le> NAME_MAX \<longrightarrow> path_ok path"
    using sh_path_ok [OF assms(1) _ assms(2), of False] by blast
  obtain rc k where k: "s_delete fc path (sh_os s) = (rc, k)" by fastforce
  have "good m (s\<lparr>sh_os := k\<rparr>)" if "path_ok path" using keep_delete [OF _ that, of m "sh_os s"] k assms(1) by (simp add: good_def)
  then show ?thesis using assms(1) p k False by (auto simp: cmd_rm_def Let_def)
qed (use assms in \<open>simp add: cmd_rm_def\<close>)

lemma arg_no_zero: "0 \<notin> set cmd \<Longrightarrow> 0 \<notin> set (arg_of w cmd)"
  by (auto simp: arg_of_def dest!: set_dropWhileD in_set_dropD)

lemma run_command_ok:
  assumes "good (Suc (length keys) + m) s" "0 \<notin> set cmd"
  shows "\<exists>s'. run_command fc keys cmd s = Some s' \<and> good m s'"
proof -
  note A = arg_no_zero [OF assms(2)]
  have g: "good m s" "good (Suc m) s" "good (length keys + m) s"
    using good_less [of "Suc (length keys)" m s] good_less [of "length keys" "Suc m" s] good_less [of 1 "length keys + m" s] assms(1) by simp_all
  have sl: "0 \<notin> set [slash]" "0 \<notin> set (map of_char ''/cc'' :: u8 list)" "0 \<notin> set (map of_char ''/as'' :: u8 list)" by (simp_all add: slash_def)
  have "\<exists>s'. cmd_cd fc (if arg_of ''cd'' cmd \<noteq> [] then arg_of ''cd'' cmd else [slash]) s = Some s' \<and> good m s'"
    using cmd_cd_ok [OF g(1)] A sl(1) by auto
  moreover have "\<exists>s'. cmd_run fc (map of_char ''/cc'') s = Some s' \<and> good m s'" "\<exists>s'. cmd_run fc (map of_char ''/as'') s = Some s' \<and> good m s'"
    using cmd_run_ok [OF g(1)] sl by simp_all
  moreover have "\<exists>s'. (case f_sync fc (sh_os s) of (rc, k) \<Rightarrow> Some (line (if rc \<noteq> 0 then ''no persistent store'' else ''synced'') (s\<lparr>sh_os := k\<rparr>))) = Some s' \<and> good m s'"
  proof -
    obtain rc k where k: "f_sync fc (sh_os s) = (rc, k)" by fastforce
    then have "shell_ok s" "roomy m k" using sync [of m "sh_os s"] g(1) by (simp_all add: good_def)
    then show ?thesis using k by simp
  qed
  moreover have "good m ((line ''shutting down'' s)\<lparr>sh_os := s_poweroff fc (sh_os (line ''shutting down'' s)), sh_alive := False\<rparr>)"
    using g(1) keep_poweroff by (simp add: good_def line_def say_def)
  ultimately show ?thesis
    unfolding run_command_def Let_def
    using cmd_ls_ok [OF g(1)] cmd_type_ok [OF g(1)] cmd_edit_ok [OF g(3)] cmd_run_ok [OF g(1)]
      cmd_mv_ok [OF g(1)] cmd_rm_ok [OF g(1)] cmd_mkdir_ok [OF g(2)] cmd_rmdir_ok [OF g(1)] A g(1)
    by simp
qed

lemma sh_loop_ok:
  assumes "good (saves inps + m) s" "\<forall>inp \<in> set inps. 0 \<notin> set (fst inp)"
  shows "\<exists>s'. sh_loop fc inps s = Some s' \<and> good m s'"
  using assms
proof (induction inps arbitrary: s)
  case (Cons inp inps)
  obtain ln keys where i: "inp = (ln, keys)" by fastforce
  define cmd where "cmd = dropWhile (\<lambda>c. c = 0x20) ln"
  have "0 \<notin> set cmd" using Cons.prems(2) i by (auto simp: cmd_def dest: set_dropWhileD)
  moreover have g: "good (Suc (length keys) + (saves inps + m)) (prompt s)" using Cons.prems(1) i by (simp add: saves_def add.assoc)
  ultimately obtain s1 where "run_command fc keys cmd (prompt s) = Some s1" "good (saves inps + m) s1" using run_command_ok by blast
  moreover have "sh_turn fc inp s = (if ln = [] \<or> cmd = [] then Some (prompt s) else run_command fc keys cmd (prompt s))"
    by (simp only: sh_turn_def i Let_def prod.case cmd_def)
  ultimately obtain s2 where s2: "sh_turn fc inp s = Some s2" "good (saves inps + m) s2"
    using good_less [OF g] by (cases "ln = [] \<or> cmd = []") auto
  then show ?case using Cons.IH [OF s2(2)] Cons.prems(2) good_less [OF s2(2)] by auto
qed (simp add: saves_def)

end

end
