(* ===== verification/ShellKernel.thy ===== *)
theory ShellKernel
  imports Shell StringLib Loading Syscall
begin

text \<open>
  The shell on this kernel: the system calls the shell makes, as the kernel's handlers carry them out
  once the name has been copied from user memory, and what follows for the file system when the
  shell's commands run on it.
\<close>

abbreviation fs_of :: "kernel \<Rightarrow> fs" where "fs_of k \<equiv> fsys (files_in k)"

text \<open>The result of a call, as the signed number the program sees.\<close>

definition by_value :: "u32 \<times> kernel \<Rightarrow> int \<times> kernel" where
  "by_value r = (sint (fst r), snd r)"

definition kcalls :: "env \<Rightarrow> kernel sh_calls" where
  "kcalls e = \<lparr>
     f_load = (\<lambda>p mx k. fs_read (normalize_name p) (of_nat mx) (fs_of k)),
     f_save = (\<lambda>p buf n k. by_value (on_fs (fs_write (normalize_name p) buf (of_nat n)) k)),
     f_sync = (\<lambda>k. by_value (sys_sync k)),
     s_list = (\<lambda>mx k. let (n, out) = list_loop (kdir k) (of_nat mx) 0 [] in (sint n, out)),
     s_delete = (\<lambda>p k. by_value (on_fs (fs_delete (normalize_name p)) k)),
     s_rename = (\<lambda>p q k. by_value (on_fs (fs_rename (normalize_name p) (normalize_name q)) k)),
     s_exec = (\<lambda>p k. (None, request_exit (k\<lparr>next_prog := normalize_name p, next_prog_set := True\<rparr>))),
     s_setcwd = (\<lambda>p k. k\<lparr>sys_cwd := p\<rparr>),
     s_getcwd = (\<lambda>mx k. let s = take (mx - 1) (cstr (sys_cwd k)) in (int (length s), s @ [0])),
     s_poweroff = sys_poweroff e\<rparr>"

text \<open>These are the handlers, with the string at the pointer in place of the pointer.\<close>

lemma handlers_by_value:
  assumes "user_copy_str (um k) off 64 = (True, p)"
  shows "sys_delete off k = on_fs (fs_delete (normalize_name p)) k"
    "user_range_ok boff sz \<Longrightarrow> sys_save off boff sz k =
       on_fs (fs_write (normalize_name p) (get_user boff (unat (sectors_of sz) * 512) k) sz) k"
    "user_range_ok boff sz \<Longrightarrow> sys_load off boff sz k =
       (let (r, b) = fs_read (normalize_name p) sz (fs_of k) in (of_int r, put_user boff b k))"
    "user_copy_str (um k) noff 64 = (True, q) \<Longrightarrow> sys_rename off noff k = on_fs (fs_rename (normalize_name p) (normalize_name q)) k"
    "sys_exec off k = (0, request_exit (k\<lparr>next_prog := normalize_name p, next_prog_set := True\<rparr>))"
    "sys_setcwd off k = (0, k\<lparr>sys_cwd := p\<rparr>)"
  using assms by (simp_all add: sys_delete_def sys_save_def sys_load_def sys_rename_def sys_exec_def sys_setcwd_def with_name_def)

subsection \<open>The file system through the calls\<close>

lemma fs_of_on_fs: "fs_of (snd (on_fs f k)) = snd (f (fs_of k))" "fst (on_fs f k) = of_int (fst (f (fs_of k)))"
  by (simp_all add: on_fs_def files_in_def files_out_def set_disk_def on_disp_def split: prod.splits)

lemma fs_of_other [simp]:
  "fs_of (k\<lparr>sys_cwd := p\<rparr>) = fs_of k" "fs_of (k\<lparr>next_prog := p\<rparr>) = fs_of k" "fs_of (k\<lparr>next_prog_set := b\<rparr>) = fs_of k"
  "fs_of (request_exit k) = fs_of k"
  by (simp_all add: files_in_def request_exit_def set_sched_def)

text \<open>\<open>kroom m k\<close>: a well-formed file system with room for \<open>m\<close> files of the largest size after the last extent.\<close>

definition kroom :: "nat \<Rightarrow> kernel \<Rightarrow> bool" where
  "kroom m k \<longleftrightarrow> fs_wf (fs_of k) \<and> disk_ok (dk (fs_of k)) (unat (fs_next_free (fs_of k))) (m * 256)"

definition kview :: "kernel \<Rightarrow> u8 list \<Rightarrow> u8 list option" where
  "kview k p = fs_abs (fs_of k) (fs_key p)"

lemma next_free_loop_le:
  "mx \<le> B \<Longrightarrow> (\<And>e. e \<in> set es \<Longrightarrow> dirent_used e \<Longrightarrow> d_start e + sectors_of (d_size e) \<le> B) \<Longrightarrow> fs_next_free_loop es i x mx \<le> B"
  by (induction es i x mx rule: fs_next_free_loop.induct) (simp_all add: Let_def)

lemma next_free_update:
  assumes "fs_wf s" "i < 512" "fdir s' = (fdir s)[i := e]" "unat (fs_next_free s) \<le> B" "B < 4294967296"
    "dirent_used e \<Longrightarrow> unat (d_start e + sectors_of (d_size e)) \<le> B"
  shows "unat (fs_next_free s') \<le> B"
proof -
  have B: "unat (of_nat B :: u32) = B" using assms(5) by (simp add: unat_of_nat32)
  have len: "length (fdir s) = 512" using assms(1) dir_wfD(1) by (auto simp: fs_wf_def)
  note L = fs_next_free_loop_ge [of FS_DATA_LBA "fdir s" 0 "- 1"]
  have nf: "fs_next_free s \<le> of_nat B" using assms(4) B by (simp add: word_le_nat_alt)
  have "fs_next_free s' \<le> of_nat B" unfolding fs_next_free_def assms(3)
  proof (rule next_free_loop_le)
    show "FS_DATA_LBA \<le> of_nat B" using L nf unfolding fs_next_free_def by (meson order_trans)
    fix x assume x: "x \<in> set ((fdir s)[i := e])" "dirent_used x"
    then obtain j where j: "j < 512" "x = (fdir s)[i := e] ! j" using len by (auto simp: in_set_conv_nth)
    show "d_start x + sectors_of (d_size x) \<le> of_nat B"
    proof (cases "j = i")
      case True
      then show ?thesis using assms(6) x(2) j len B by (simp add: word_le_nat_alt)
    next
      case False
      then have "d_start x + sectors_of (d_size x) \<le> fs_next_free s" using L j x(2) len unfolding fs_next_free_def by simp
      then show ?thesis using nf by (rule order_trans)
    qed
  qed
  then show ?thesis using B by (simp add: word_le_nat_alt)
qed

lemma sync_dir_frame: "fdir (fs_sync_dir s) = fdir s" "disk_ok (dk (fs_sync_dir s)) = disk_ok (dk s)"
  by (simp_all add: fs_sync_dir_def dsk.wrs_ok)

text \<open>Room is used up by at most the size of what is written.\<close>

lemma next_free_write:
  assumes "fs_wf s" "fs_room s sz" "fs_write name buf sz s = (rc, s')"
  shows "unat (fs_next_free s') \<le> unat (fs_next_free s) + unat (sectors_of sz)" "disk_ok (dk s') = disk_ok (dk s)"
proof -
  have d: "disk_wf (dk s)" "dir_wf (dk s) (fdir s)" using assms(1) by (simp_all add: fs_wf_def)
  let ?B = "unat (fs_next_free s) + unat (sectors_of sz)"
  have B: "?B < 4294967296" using disk_ok_bound [OF d(1)] assms(2) by (simp add: fs_room_def)
  have "unat (fs_next_free s') \<le> ?B \<and> disk_ok (dk s') = disk_ok (dk s)"
    using assms(1,3)
  proof (cases rule: fs_write_cases)
    case full
    then show ?thesis by simp
  next
    case (ok i st)
    have "unat (fs_next_free_excl (int i) s) \<le> unat (fs_next_free s)"
      using next_free_excl_le [of "int i" s] by (simp add: word_le_nat_alt)
    moreover have "unat (d_start (fdir s ! i)) \<le> unat (fs_next_free s)" if "dirent_used (fdir s ! i)"
      using next_free_ge(2) [OF d ok(2) that, of "- 1"] next_free_excl [of s] by (simp add: extent_end_def)
    ultimately have "unat st \<le> unat (fs_next_free s)" using ok(5) by auto
    then have "unat (st + sectors_of sz) \<le> ?B" using B unat_add32 [of st "sectors_of sz"] by simp
    moreover have fd: "fdir s' = (fdir s)[i := (fdir s ! i)\<lparr>d_name := put_name 47 name, d_start := st, d_size := sz, d_flags := 0\<rparr>]"
      unfolding ok(6) by (simp add: sync_dir_frame)
    ultimately have "unat (fs_next_free s') \<le> ?B"
      by (intro next_free_update [OF assms(1) ok(2) fd _ B]) simp_all
    moreover have "disk_ok (dk s') = disk_ok (dk s)" unfolding ok(6) by (simp add: sync_dir_frame dsk.wrs_ok)
    ultimately show ?thesis by blast
  qed
  then show "unat (fs_next_free s') \<le> ?B" "disk_ok (dk s') = disk_ok (dk s)" by simp_all
qed

lemma next_free_low: "fs_wf s \<Longrightarrow> 137 \<le> unat (fs_next_free s)"
  using next_free_ge(1) [of s "- 1"] next_free_excl [of s] by (auto simp: fs_wf_def)

lemma kroom_change:
  assumes "kroom m k" "fs_wf s'" "unat (fs_next_free s') + m' * 256 \<le> unat (fs_next_free (fs_of k)) + m * 256"
    "disk_ok (dk s') = disk_ok (dk (fs_of k))" "fs_of k' = s'"
  shows "kroom m' k'"
  using assms disk_ok_mono [of "dk (fs_of k)" "unat (fs_next_free (fs_of k))" "m * 256" "unat (fs_next_free s')" "m' * 256"] next_free_low [OF assms(2)]
  by (simp add: kroom_def)

lemma kroom_write:
  assumes k: "kroom (Suc m) k" and p: "path_ok p" and b: "(n + 511) div 512 * 512 \<le> length buf" and n: "n \<le> EDIT_BUF"
    and run: "fs_write (normalize_name p) buf (of_nat n) (fs_of k) = (r, s')" and k': "fs_of k' = s'"
  shows "kroom m k' \<and> (if r = 0 then fs_abs s' (fs_key p) = Some (take n buf) else r = - 1 \<and> s' = fs_of k)"
proof -
  have wf: "fs_wf (fs_of k)" using k by (simp add: kroom_def)
  have u: "unat (of_nat n :: u32) = n" using n by (simp add: EDIT_BUF_def unat_of_nat32)
  then have sec: "unat (sectors_of (of_nat n)) = (n + 511) div 512" using n by (simp add: unat_sectors_of EDIT_BUF_def)
  have le: "(n + 511) div 512 \<le> 256" using n by (simp add: EDIT_BUF_def)
  have room: "fs_room (fs_of k) (of_nat n)" unfolding fs_room_def sec u
    using k n le next_free_low [OF wf] by (auto simp: kroom_def EDIT_BUF_def intro: disk_ok_mono)
  have nm: "normalize_name p \<noteq> []" using p by (cases p) (auto simp: path_ok_def normalize_name_def normalize_loop_eq FS_NAME_LEN_def)
  have bl: "unat (sectors_of (of_nat n)) * 512 \<le> length buf" using b sec by simp
  note F = fs_write_facts [OF wf room bl nm length_normalize_name normalize_name_no_zero run, unfolded fs_key_normalize u]
  note N = next_free_write [OF wf room run, unfolded sec]
  have "unat (fs_next_free s') + m * 256 \<le> unat (fs_next_free (fs_of k)) + Suc m * 256" using N(1) le by simp
  then have "kroom m k'" using F wf by (intro kroom_change [OF k _ _ N(2) k']) auto
  then show ?thesis using F by auto
qed

text \<open>Deleting and renaming take no room.\<close>

lemma kroom_delete:
  assumes k: "kroom m k" and run: "fs_delete name (fs_of k) = (r, s')" and k': "fs_of k' = s'"
  shows "kroom m k'"
proof -
  have wf: "fs_wf (fs_of k)" and ok: "disk_ok (dk (fs_of k)) (unat (fs_next_free (fs_of k))) (m * 256)" using k by (simp_all add: kroom_def)
  note D = fs_delete_abs [OF wf run]
  show ?thesis
  proof (cases "fs_abs (fs_of k) (fs_key name) = None")
    case True
    then show ?thesis using D k k' by (simp add: kroom_def)
  next
    case False
    then have "fs_find name (fs_of k) \<ge> 0" using D run by (auto simp: fs_delete_def Let_def split: if_splits)
    moreover have "length (fdir (fs_of k)) = 512" using wf dir_wfD(1) by (auto simp: fs_wf_def)
    ultimately obtain i where i: "i < 512" "fs_find name (fs_of k) = int i" by (cases rule: fs_find_cases [of name "fs_of k"]) auto
    have s': "s' = fs_sync_dir ((fs_of k)\<lparr>fdir := (fdir (fs_of k))[i := zero_dirent]\<rparr>)" using run i by (simp add: fs_delete_def Let_def)
    have fd: "fdir s' = (fdir (fs_of k))[i := zero_dirent]" unfolding s' by (simp add: sync_dir_frame)
    have B: "unat (fs_next_free (fs_of k)) < 4294967296" using unsigned_less [of "fs_next_free (fs_of k)", where ?'a = nat] by simp
    have "unat (fs_next_free s') \<le> unat (fs_next_free (fs_of k))"
      by (rule next_free_update [OF wf i(1) fd order_refl B]) (simp add: dirent_used_def zero_dirent_def)
    moreover have "disk_ok (dk s') = disk_ok (dk (fs_of k))" unfolding s' by (simp add: sync_dir_frame)
    ultimately show ?thesis using D False by (intro kroom_change [OF k _ _ _ k']) simp_all
  qed
qed

lemma kroom_rename:
  assumes k: "kroom m k" and new: "new \<noteq> []" "length new \<le> 47" "0 \<notin> set new"
    and run: "fs_rename old new (fs_of k) = (r, s')" and k': "fs_of k' = s'"
  shows "kroom m k'"
proof (cases "s' = fs_of k")
  case True
  then show ?thesis using k k' by (simp add: kroom_def)
next
  case False
  have wf: "fs_wf (fs_of k)" using k by (simp add: kroom_def)
  have wf': "fs_wf s'" using fs_rename_abs [OF wf new run] False by (auto split: option.splits if_splits)
  have len: "length (fdir (fs_of k)) = 512" using wf dir_wfD(1) by (auto simp: fs_wf_def)
  have "fs_find old (fs_of k) \<ge> 0" using False run by (auto simp: fs_rename_def Let_def split: if_splits)
  then obtain i where i: "i < 512" "fs_find old (fs_of k) = int i" "dirent_used (fdir (fs_of k) ! i)"
    using len by (cases rule: fs_find_cases [of old "fs_of k"]) auto
  let ?e = "(fdir (fs_of k) ! i)\<lparr>d_name := put_name 47 new\<rparr>"
  have s': "s' = fs_sync_dir ((fs_of k)\<lparr>fdir := (fdir (fs_of k))[i := ?e]\<rparr>)"
    using False run i by (auto simp: fs_rename_def Let_def split: if_splits)
  have fd: "fdir s' = (fdir (fs_of k))[i := ?e]" unfolding s' by (simp add: sync_dir_frame)
  have B: "unat (fs_next_free (fs_of k)) < 4294967296" using unsigned_less [of "fs_next_free (fs_of k)", where ?'a = nat] by simp
  have "d_start ?e + sectors_of (d_size ?e) \<le> fs_next_free (fs_of k)"
    using fs_next_free_loop_ge [of FS_DATA_LBA "fdir (fs_of k)" 0 "- 1"] i len unfolding fs_next_free_def by simp
  then have "unat (fs_next_free s') \<le> unat (fs_next_free (fs_of k))"
    by (intro next_free_update [OF wf i(1) fd order_refl B]) (simp add: word_le_nat_alt)
  moreover have "disk_ok (dk s') = disk_ok (dk (fs_of k))" unfolding s' by (simp add: sync_dir_frame)
  ultimately show ?thesis using wf' by (intro kroom_change [OF k _ _ _ k']) simp_all
qed

text \<open>Writing the RAM disk to the drive leaves the file system as it is.\<close>

lemma disk_nv:
  "disk_read_sectors l c (d\<lparr>nv := n\<rparr>) = disk_read_sectors l c d" "disk_ok (d\<lparr>nv := n\<rparr>) = disk_ok d"
  by (simp_all add: disk_read_sectors_def ata_read_sectors_def ata_read_sector_def rd_range_ok_def rd_addr_def fun_eq_iff
      disk_ok_def rd_range_def ata_range_def)

lemma fs_nv:
  assumes "fs_wf s" "nvme_wf (nv (dk s)) 512 \<Longrightarrow> nvme_wf n 512"
  shows "fs_wf (s\<lparr>dk := (dk s)\<lparr>nv := n\<rparr>\<rparr>)" "fs_abs (s\<lparr>dk := (dk s)\<lparr>nv := n\<rparr>\<rparr>) = fs_abs s"
proof -
  have "content ((dk s)\<lparr>nv := n\<rparr>) = content (dk s)" by (simp add: content_def disk_nv fun_eq_iff)
  then show "fs_abs (s\<lparr>dk := (dk s)\<lparr>nv := n\<rparr>\<rparr>) = fs_abs s" by (intro ext) (simp add: fs_abs_def)
  have "entry_ok ((dk s)\<lparr>nv := n\<rparr>) = entry_ok (dk s)" by (simp add: entry_ok_def disk_nv fun_eq_iff)
  then have "dir_wf ((dk s)\<lparr>nv := n\<rparr>) = dir_wf (dk s)" by (simp add: dir_wf_def fun_eq_iff)
  moreover have "disk_wf ((dk s)\<lparr>nv := n\<rparr>)"
    using assms by (auto simp: fs_wf_def disk_wf_def rd_wf_def store_wf_def ata_wf_def ata_ok_def)
  ultimately show "fs_wf (s\<lparr>dk := (dk s)\<lparr>nv := n\<rparr>\<rparr>)" using assms(1) by (simp add: fs_wf_def disk_nv)
qed

lemma kroom_sync: "kroom m k \<Longrightarrow> kroom m (snd (sys_sync k)) \<and> kview (snd (sys_sync k)) = kview k"
proof -
  assume k: "kroom m k"
  let ?d = "kdisk k"
  define n where "n = (if store_fs_sectors ?d < rd_sectors ?d then store_fs_sectors ?d else rd_sectors ?d)"
  obtain rc nv' where w: "nvme_write (store_first_lba ?d + 1) n (mem_load (rd_mem ?d) (rd_base ?d) (unat n * 512)) (nv ?d) = (rc, nv')" by fastforce
  have s: "snd (sys_sync k) = k \<or> snd (sys_sync k) = set_disk (?d\<lparr>nv := nv'\<rparr>) k"
    using w by (simp add: sys_sync_def Let_def n_def [symmetric])
  have "nvme_wf nv' 512" if "nvme_wf (nv ?d) 512" using nvme_write_facts(1) [OF that _ w] by simp
  then have "fs_wf ((fs_of k)\<lparr>dk := (dk (fs_of k))\<lparr>nv := nv'\<rparr>\<rparr>)" "fs_abs ((fs_of k)\<lparr>dk := (dk (fs_of k))\<lparr>nv := nv'\<rparr>\<rparr>) = fs_abs (fs_of k)"
    using k by (intro fs_nv; simp add: kroom_def files_in_def)+
  moreover have "fs_of (set_disk (?d\<lparr>nv := nv'\<rparr>) k) = (fs_of k)\<lparr>dk := (dk (fs_of k))\<lparr>nv := nv'\<rparr>\<rparr>"
    by (simp add: files_in_def set_disk_def on_disp_def)
  ultimately show ?thesis using s k by (auto simp: kroom_def kview_def fun_eq_iff fs_next_free_def disk_nv)
qed

lemma list_loop_fits:
  assumes "length es \<le> 512 - unat count" "unat count \<le> 512" "length out = unat count * 52" "\<forall>e \<in> set es. length (d_name e) = 48"
    "length out \<le> unat lim" "unat lim \<le> LIST_BUF"
  shows "length (snd (list_loop es lim count out)) \<le> unat lim"
  using assms
proof (induction es lim count out rule: list_loop.induct)
  case (2 e es lim count out)
  show ?case
  proof (cases "arr_get (d_name e) 0 = 0")
    case True
    then show ?thesis using 2 by simp
  next
    case False
    have c: "unat (count + 1) = unat count + 1" using 2(4) unat_add32 [of count 1] by simp
    have m: "unat ((count + 1) * 52) = (unat count + 1) * 52" using 2(4) c by (simp add: unat_word_ariths)
    show ?thesis
    proof (cases "(count + 1) * 52 > lim")
      case True
      then show ?thesis using False 2(7) by simp
    next
      case nb: False
      then have "(unat count + 1) * 52 \<le> unat lim" using m by (simp add: word_less_nat_alt not_less)
      then have "length (snd (list_loop es lim (count + 1) (out @ take 48 (d_name e) @ le32_bytes (d_size e)))) \<le> unat lim"
        using 2(3-8) c False nb by (intro 2(2)) (auto simp: le32_bytes_def)
      then show ?thesis using False nb by simp
    qed
  qed
qed simp

subsection \<open>The kernel serves the shell\<close>

lemma poweroff_fs: "fs_of (sys_poweroff e k) = fs_of k"
proof -
  have "drv (acpi_scan_bios m s) = drv s" for m s
    by (simp add: acpi_scan_bios_def acpi_s5_def Let_def split: option.splits prod.splits)
  then have "drv (power_off m s) = drv s" for m s by (simp add: power_off_def with_con_def Let_def)
  then show ?thesis by (simp add: sys_poweroff_def files_in_def on_disp_def)
qed

lemma sint_by_value: "sint (of_int r :: u32) = r" if "r = 0 \<or> r = - 1"
  using that by auto

interpretation ksh: shell_os "kcalls e" kview kroom
proof
  fix m mx n :: nat and k k' :: kernel and p q buf :: "u8 list" and rc :: int
  assume k: "kroom m k"
  then have wf: "fs_wf (fs_of k)" by (simp add: kroom_def)
  show "f_load (kcalls e) p mx k = (case kview k p of None \<Rightarrow> (-1, []) | Some c \<Rightarrow> if length c > mx then (-1, []) else (int (length c), c))"
    if mx: "mx \<le> EDIT_BUF"
  proof -
    have u: "unat (of_nat mx :: u32) = mx" using mx by (simp add: EDIT_BUF_def unat_of_nat32)
    have "sint (of_nat (length c) :: u32) = int (length c)" if "length c \<le> mx" for c :: "u8 list"
      using that mx by (simp add: EDIT_BUF_def sint_unat unat_of_nat32)
    then show ?thesis using fs_read_abs [OF wf, of "normalize_name p" "of_nat mx"] u
      by (auto simp: kcalls_def kview_def split: option.splits)
  qed
  show "kroom m (snd (f_sync (kcalls e) k)) \<and> kview (snd (f_sync (kcalls e) k)) = kview k"
    using kroom_sync [OF k] by (simp add: kcalls_def by_value_def)
  show "length (snd (s_list (kcalls e) mx k)) \<le> mx" if mx: "mx \<le> LIST_BUF"
  proof -
    have u: "unat (of_nat mx :: u32) = mx" using mx by (simp add: LIST_BUF_def unat_of_nat32)
    have "length (kdir k) = 512" "\<forall>d \<in> set (kdir k). length (d_name d) = 48"
      using wf by (simp_all add: fs_wf_def dir_wf_def files_in_def)
    then have "length (snd (list_loop (kdir k) (of_nat mx) 0 [])) \<le> unat (of_nat mx :: u32)"
      using mx u by (intro list_loop_fits) simp_all
    then show ?thesis using u by (auto simp: kcalls_def split: prod.splits)
  qed
  show "kroom m (snd (s_delete (kcalls e) p k))" if "path_ok p"
    using kroom_delete [OF k prod.collapse [symmetric]] by (simp add: kcalls_def by_value_def fs_of_on_fs)
  show "kroom m (snd (s_rename (kcalls e) p q k))" if "path_ok p" "path_ok q"
  proof -
    have "normalize_name q \<noteq> []" using that(2) by (cases q) (auto simp: path_ok_def normalize_name_def normalize_loop_eq FS_NAME_LEN_def)
    then show ?thesis using kroom_rename [OF k _ length_normalize_name normalize_name_no_zero prod.collapse [symmetric]]
      by (simp add: kcalls_def by_value_def fs_of_on_fs)
  qed
  show "kroom m (snd (s_exec (kcalls e) p k))" "kroom m (s_setcwd (kcalls e) p k)"
    using k by (simp_all add: kcalls_def kroom_def)
  show "kroom m (s_poweroff (kcalls e) k)"
    using k by (simp add: kcalls_def kroom_def poweroff_fs)
next
  fix m n :: nat and k k' :: kernel and p buf :: "u8 list" and rc :: int
  assume k: "kroom (Suc m) k" and a: "path_ok p" "(n + 511) div 512 * 512 \<le> length buf" "n \<le> EDIT_BUF" and run: "f_save (kcalls e) p buf n k = (rc, k')"
  obtain r s' where w: "fs_write (normalize_name p) buf (of_nat n) (fs_of k) = (r, s')" by fastforce
  have k': "fs_of k' = s'" "rc = sint (of_int r :: u32)"
    using run w fs_of_on_fs [of "fs_write (normalize_name p) buf (of_nat n)" k] by (auto simp: kcalls_def by_value_def)
  note W = kroom_write [OF k a w k'(1)]
  then have "rc = r" using k'(2) sint_by_value [of r] by (auto split: if_splits)
  then show "kroom m k' \<and> (if rc = 0 then kview k' p = Some (take n buf) else kview k' = kview k)"
    using W k'(1) by (auto simp: kview_def fun_eq_iff split: if_splits)
next
  fix m k assume k: "kroom (Suc m) k"
  then show "kroom m k" by (intro kroom_change [OF k _ _ refl refl]) (simp_all add: kroom_def)
qed

subsection \<open>Properties\<close>

text \<open>
  C33. What the editor saves is what the file system holds. On a kernel with a well-formed file system and
  room for the saves, for every sequence of keys the session stays inside its buffer, the text is the
  file's with the keys applied to it, and the file system stays well formed; whenever the text is not
  marked as changed, reading the file back gives exactly that text (or the file still does not exist and
  the text is empty), and the editor is never left with a changed text except after a warning.
\<close>

theorem edit_session_on_kernel:
  assumes "kroom (length keys) k" and "path_ok path" and "length buf = EDIT_BUF"
    and "\<forall>c. kview k path = Some c \<longrightarrow> length c \<le> EDIT_BUF"
  shows "\<exists>e0 out e k' q. editor_open (kcalls v) buf path k = Some e0 \<and>
    edit_loop (kcalls v) name path keys e0 k = Some (out, e, k', q) \<and> fs_wf (fs_of k') \<and>
    (\<exists>n \<le> length keys. (etext e, e_cur e) = fold key_spec (take n keys) (case kview k path of None \<Rightarrow> [] | Some c \<Rightarrow> c, 0) \<and>
       (\<not> q \<longrightarrow> n = length keys)) \<and>
    (\<not> e_dirty e \<longrightarrow> kview k' path = Some (etext e) \<or> kview k path = None \<and> kview k' path = None \<and> etext e = []) \<and>
    (q \<longrightarrow> e_dirty e \<longrightarrow> e_quit e)"
proof -
  obtain e0 where e0: "editor_open (kcalls v) buf path k = Some e0" "editor_ok e0" "e_cur e0 = 0"
    "case kview k path of Some c \<Rightarrow> if length c \<le> EDIT_BUF then etext e0 = c else etext e0 = [] | None \<Rightarrow> etext e0 = []"
    using ksh.editor_open_ok [OF assms(1,3), of v path] by blast
  have t0: "etext e0 = (case kview k path of None \<Rightarrow> [] | Some c \<Rightarrow> c)" using e0(4) assms(4) by (auto split: option.splits)
  have r: "kroom (length keys + 0) k" using assms(1) by simp
  have "\<not> e_dirty e0 \<longrightarrow> ksh.stored path (kview k path) (etext e0) k (etext e0)" by (simp add: ksh.stored_def)
  from ksh.session [OF e0(2) r assms(2) this, of v name] obtain out e k' q
    where s: "edit_loop (kcalls v) name path keys e0 k = Some (out, e, k', q)" "kroom 0 k'"
      "\<exists>n \<le> length keys. (etext e, e_cur e) = fold key_spec (take n keys) (etext e0, e_cur e0) \<and> (\<not> q \<longrightarrow> n = length keys)"
      "\<not> e_dirty e \<longrightarrow> ksh.stored path (kview k path) (etext e0) k' (etext e)" "q \<longrightarrow> e_dirty e \<longrightarrow> e_quit e" by blast
  have "kview k' path = Some (etext e) \<or> kview k path = None \<and> kview k' path = None \<and> etext e = []" if "\<not> e_dirty e"
    using s(4) that t0 by (auto simp: ksh.stored_def split: option.splits)
  then show ?thesis using e0(1,3) s(1,2,3,5) t0 by (auto simp: kroom_def)
qed

text \<open>
  C32. The shell is safe on this kernel. From a shell whose current directory is a chain of plain names and a
  kernel whose file system is well formed with room for the saves, any sequence of command lines - with
  whatever is typed into the editor - runs without a store outside an array of the shell (its static buffers, the
  path buffers, and the local arrays \<open>name\<close>, \<open>disp\<close>, \<open>num\<close>, \<open>parent\<close> and the status \<open>line\<close>), and leaves the current
  directory such a chain of at most 47 characters and the file system well formed and in step with
  its directory on the disk.
\<close>

theorem shell_on_kernel:
  assumes "shell_ok s" and "kroom (saves inps) (sh_os s)" and "\<forall>inp \<in> set inps. 0 \<notin> set (fst inp)"
  shows "\<exists>s'. sh_loop (kcalls v) inps s = Some s' \<and> shell_ok s' \<and> fs_wf (fs_of (sh_os s')) \<and>
    fs_load_dir (fs_of (sh_os s')) = fs_of (sh_os s')"
proof -
  have "ksh.good (saves inps + 0) s" using assms(1,2) by (simp add: ksh.good_def)
  from ksh.sh_loop_ok [OF this assms(3), of v] show ?thesis using fs_load_dir_id by (auto simp: ksh.good_def kroom_def)
qed

subsection \<open>A kernel to run on\<close>

definition big_fs :: fs where
  "big_fs = \<lparr>dk = demo_disk\<lparr>rd_sectors := 4096, store_ready := False\<rparr>, fdir = replicate 512 zero_dirent\<rparr>"

definition big_kernel :: kernel where
  "big_kernel = files_out \<lparr>fsys = big_fs, ofiles = []\<rparr> demo_kernel"

lemma big_fs_of: "fs_of big_kernel = big_fs"
  by (simp add: big_kernel_def files_in_def files_out_def set_disk_def on_disp_def)

lemma big_fs_facts: "fs_wf big_fs" "fs_next_free big_fs = 201" "fs_abs big_fs n = None"
proof -
  let ?d = "demo_disk\<lparr>rd_sectors := 4096, store_ready := False\<rparr>"
  have d: "disk_wf ?d" by (simp add: disk_wf_def rd_wf_def store_wf_def demo_disk_def)
  have u: "\<not> dirent_used zero_dirent" by (simp add: dirent_used_def zero_dirent_def)
  then have w: "dir_wf ?d (replicate 512 zero_dirent)" by (simp add: dir_wf_def) (simp add: zero_dirent_def)
  have "disk_read_sectors 137 64 ?d = replicate 32768 0"
    by (simp add: disk_read_sectors_def demo_disk_def rd_range_ok_def mem_load_zero)
  moreover have "concat (map dirent_bytes (replicate 512 zero_dirent)) = replicate 32768 0"
    by (simp add: zero_dirent_bytes concat_replicate_zero)
  moreover have "disk_ok ?d 137 64" by (simp add: disk_ok_def rd_range_def demo_disk_def)
  ultimately show "fs_wf big_fs" using d w by (simp add: fs_wf_def big_fs_def)
  show "fs_next_free big_fs = 201" using u by (simp add: fs_next_free_def big_fs_def next_free_unused)
  show "fs_abs big_fs n = None" using fs_abs_None [of "dk big_fs" big_fs n] w u by (simp add: big_fs_def)
qed

lemma big_room: "m \<le> 15 \<Longrightarrow> kroom m big_kernel"
  using big_fs_facts by (simp add: kroom_def big_fs_of) (simp add: big_fs_def disk_ok_def rd_range_def demo_disk_def)

theorem edit_session_on_kernel_witness:
  "\<forall>v. \<exists>e0 out e k' q. editor_open (kcalls v) (replicate EDIT_BUF 0) demo_name big_kernel = Some e0 \<and>
    edit_loop (kcalls v) demo_name demo_name [0x61, 19] e0 big_kernel = Some (out, e, k', q) \<and> fs_wf (fs_of k')"
proof
  fix v
  have "kroom (length [0x61, 19 :: int]) big_kernel" by (rule big_room) simp
  moreover have "path_ok demo_name" using demo_names by (simp add: path_ok_def)
  moreover have "length (replicate EDIT_BUF (0 :: u8)) = EDIT_BUF" by simp
  moreover have "\<forall>c. kview big_kernel demo_name = Some c \<longrightarrow> length c \<le> EDIT_BUF" using big_fs_facts(3) by (simp add: kview_def big_fs_of)
  ultimately show "\<exists>e0 out e k' q. editor_open (kcalls v) (replicate EDIT_BUF 0) demo_name big_kernel = Some e0 \<and>
    edit_loop (kcalls v) demo_name demo_name [0x61, 19] e0 big_kernel = Some (out, e, k', q) \<and> fs_wf (fs_of k')"
    using edit_session_on_kernel by blast
qed

definition demo_shell :: "kernel shell" where
  "demo_shell = \<lparr>sh_cwd = replicate 64 0, sh_list = replicate LIST_BUF 0, sh_type = replicate 65536 0, sh_edit = replicate EDIT_BUF 0,
     sh_stack = replicate 64 0xCC, sh_out = [], sh_alive = True, sh_os = big_kernel\<rparr>"

theorem shell_on_kernel_witness:
  "\<forall>v. \<exists>s'. sh_loop (kcalls v) [(map of_char ''mkdir a'', []), (map of_char ''cd a'', []), (map of_char ''edit x'', [0x61, 19, 17])] demo_shell = Some s' \<and>
    shell_ok s'"
proof
  fix v
  let ?i = "[(map of_char ''mkdir a'', []), (map of_char ''cd a'', []), (map of_char ''edit x'', [0x61, 19, 17])] :: (u8 list \<times> int list) list"
  have "cwd_dir (replicate 64 0) []" by (simp add: cwd_dir_def holds_str_def NAME_MAX_def)
  then have "shell_ok demo_shell" by (auto simp: shell_ok_def demo_shell_def)
  moreover have "kroom (saves ?i) (sh_os demo_shell)" using big_room by (simp add: saves_def demo_shell_def)
  moreover have "\<forall>inp \<in> set ?i. 0 \<notin> set (fst inp)" by simp
  ultimately show "\<exists>s'. sh_loop (kcalls v) ?i demo_shell = Some s' \<and> shell_ok s'" using shell_on_kernel by blast
qed

end
