(* ===== verification/AsmLex.thy ===== *)
theory AsmLex
  imports CBuffer Format
begin

text \<open>
  The assembler (user/as.c), first part: its state, the symbol table, the output buffers, and the reading
  of a source line up to the operands of an instruction. A C \<open>int\<close> is a 32-bit word, read with \<open>sint\<close>
  where the code compares it. The cursor \<open>lp\<close> is the list of the bytes from it to the end of the 256-byte
  line buffer, the terminating zero and the bytes of earlier lines behind it included; past the
  buffer the model reads zeros. A routine that reads from the line returns the diagnostics it gives, in
  their order, and the cursor it leaves.
\<close>

definition MAX_SRC :: nat where "MAX_SRC = 65536"
definition MAX_TEXT :: nat where "MAX_TEXT = 32768"
definition MAX_DATA :: nat where "MAX_DATA = 16384"
definition MAX_SYM :: nat where "MAX_SYM = 512"
definition MAX_LINE :: nat where "MAX_LINE = 256"
definition MAX_OPS :: nat where "MAX_OPS = 3"
definition ELF_HDR_SIZE :: u32 where "ELF_HDR_SIZE = 84"

lemma max_int [code_unfold]: "int MAX_TEXT = 32768" "int MAX_DATA = 16384"
  by (simp_all add: MAX_TEXT_def MAX_DATA_def)

datatype sec = SEC_TEXT | SEC_DATA | SEC_BSS

record sym =
  s_name :: string
  s_section :: sec
  s_offset :: u32
  s_addr :: u32
  s_is_abs :: bool
  s_defined :: bool

record asm =
  line_no :: u32
  err_count :: nat
  console :: "u8 list"
  cur_src :: "u8 list"
  syms :: "sym list"
  text_buf :: "nat \<Rightarrow> u8"
  data_buf :: "nat \<Rightarrow> u8"
  text_len :: u32
  data_len :: u32
  bss_len :: u32
  cur_sec :: sec
  as_pass :: nat
  base_text :: u32
  base_data :: u32
  base_bss :: u32

subsection \<open>Diagnostics\<close>

text \<open>The count of errors stops a pass once it is above 20 after a line; it is a number without a width.\<close>

definition as_puts :: "string \<Rightarrow> asm \<Rightarrow> asm" where
  "as_puts t st = st\<lparr>console := console st @ map of_char t\<rparr>"

text \<open>A message and its detail; the empty detail stands for the null pointer as well.\<close>

datatype diag = Diag string string

fun err :: "diag \<Rightarrow> asm \<Rightarrow> asm" where
  "err (Diag msg detail) st =
     (let out = cur_src st @ map of_char '':'' @ print_int (line_no st) @ map of_char '': '' @
                map of_char msg @ (if detail \<noteq> [] then map of_char ('': '' @ detail) else []) @ [10]
      in st\<lparr>console := console st @ out, err_count := err_count st + 1\<rparr>)"

definition errs :: "diag list \<Rightarrow> asm \<Rightarrow> asm" where
  "errs ds st = fold err ds st"

subsection \<open>Symbols\<close>

fun sym_index :: "sym list \<Rightarrow> string \<Rightarrow> nat option" where
  "sym_index [] n = None"
| "sym_index (s # ss) n = (if s_name s = n then Some 0 else map_option Suc (sym_index ss n))"

definition sym_find :: "asm \<Rightarrow> string \<Rightarrow> nat option" where
  "sym_find st n = sym_index (syms st) n"

definition sym_intern :: "string \<Rightarrow> asm \<Rightarrow> nat option \<times> asm" where
  "sym_intern n st =
     (case sym_find st n of
        Some i \<Rightarrow> (Some i, st)
      | None \<Rightarrow>
          if length (syms st) \<ge> MAX_SYM then (None, err (Diag ''too many symbols'' n) st)
          else (Some (length (syms st)),
                st\<lparr>syms := syms st @ [\<lparr>s_name = take 31 n, s_section = SEC_TEXT, s_offset = 0, s_addr = 0,
                                      s_is_abs = False, s_defined = False\<rparr>]\<rparr>))"

subsection \<open>Output buffers\<close>

definition emit8 :: "u32 \<Rightarrow> asm \<Rightarrow> asm" where
  "emit8 b st =
     (case cur_sec st of
        SEC_TEXT \<Rightarrow>
          if as_pass st = 2
          then (if sint (text_len st) \<ge> int MAX_TEXT then err (Diag ''text overflow'' []) st
                else st\<lparr>text_buf := (text_buf st)(unat (text_len st) := ucast b), text_len := text_len st + 1\<rparr>)
          else st\<lparr>text_len := text_len st + 1\<rparr>
      | SEC_DATA \<Rightarrow>
          if as_pass st = 2
          then (if sint (data_len st) \<ge> int MAX_DATA then err (Diag ''data overflow'' []) st
                else st\<lparr>data_buf := (data_buf st)(unat (data_len st) := ucast b), data_len := data_len st + 1\<rparr>)
          else st\<lparr>data_len := data_len st + 1\<rparr>
      | SEC_BSS \<Rightarrow> err (Diag ''cannot emit data in .bss (use .space)'' []) st)"

definition emit16 :: "u32 \<Rightarrow> asm \<Rightarrow> asm" where
  "emit16 v st = emit8 (signed_drop_bit 8 v AND 0xFF) (emit8 (v AND 0xFF) st)"

definition emit32 :: "u32 \<Rightarrow> asm \<Rightarrow> asm" where
  "emit32 v st = emit16 (signed_drop_bit 16 v AND 0xFFFF) (emit16 (v AND 0xFFFF) st)"

fun sec_len :: "asm \<Rightarrow> sec \<Rightarrow> u32" where
  "sec_len st SEC_TEXT = text_len st"
| "sec_len st SEC_DATA = data_len st"
| "sec_len st SEC_BSS = bss_len st"

fun sec_base :: "asm \<Rightarrow> sec \<Rightarrow> u32" where
  "sec_base st SEC_TEXT = base_text st"
| "sec_base st SEC_DATA = base_data st"
| "sec_base st SEC_BSS = base_bss st"

definition cur_addr :: "asm \<Rightarrow> u32" where
  "cur_addr st = sec_base st (cur_sec st) + sec_len st (cur_sec st)"

subsection \<open>Lexing\<close>

text \<open>The byte at the cursor, and the one behind it.\<close>

definition at :: "u8 list \<Rightarrow> u8" where "at lp = arr_get lp 0"
definition at1 :: "u8 list \<Rightarrow> u8" where "at1 lp = arr_get lp 1"

definition is_space_ch :: "u8 \<Rightarrow> bool" where
  "is_space_ch c \<longleftrightarrow> c = 0x20 \<or> c = 9 \<or> c = 13"

definition is_dig :: "u8 \<Rightarrow> bool" where
  "is_dig c \<longleftrightarrow> 0x30 \<le> c \<and> c \<le> 0x39"

definition is_sym_start :: "u8 \<Rightarrow> bool" where
  "is_sym_start c \<longleftrightarrow> 0x61 \<le> c \<and> c \<le> 0x7A \<or> 0x41 \<le> c \<and> c \<le> 0x5A \<or> c = 0x5F \<or> c = 0x2E \<or> c = 0x24"

definition is_sym_ch :: "u8 \<Rightarrow> bool" where
  "is_sym_ch c \<longleftrightarrow> is_sym_start c \<or> is_dig c"

definition as_skip_ws :: "u8 list \<Rightarrow> u8 list" where
  "as_skip_ws lp = dropWhile is_space_ch lp"

definition eat :: "u8 \<Rightarrow> u8 list \<Rightarrow> bool \<times> u8 list" where
  "eat c lp = (let lp = as_skip_ws lp in if at lp = c then (True, tl lp) else (False, lp))"

text \<open>The characters of a name: at most \<open>max - 1\<close> of them.\<close>

fun name_loop :: "nat \<Rightarrow> u8 list \<Rightarrow> string \<times> u8 list" where
  "name_loop 0 lp = ([], lp)"
| "name_loop (Suc n) [] = ([], [])"
| "name_loop (Suc n) (c # lp) =
     (if is_sym_ch c then (let (s, lp) = name_loop n lp in (char_of (unat c) # s, lp)) else ([], c # lp))"

definition read_name :: "u8 list \<Rightarrow> string \<times> u8 list" where
  "read_name lp =
     (let lp = as_skip_ws lp in if \<not> is_sym_start (at lp) then ([], lp) else name_loop 31 lp)"

definition esc_char :: "u8 \<Rightarrow> u8" where
  "esc_char c =
     (if c = 0x6E then 10 else if c = 0x74 then 9 else if c = 0x72 then 13 else if c = 0x30 then 0
      else if c = 0x62 then 8 else if c = 0x66 then 12 else if c = 0x76 then 11 else if c = 0x61 then 7
      else c)"

subsection \<open>Expressions\<close>

record expr =
  e_val :: u32
  has_sym :: bool

text \<open>The digits of a number in base \<open>b\<close>.\<close>

definition dig_val :: "u8 \<Rightarrow> nat option" where
  "dig_val c =
     (if is_dig c then Some (unat (c - 0x30))
      else if 0x61 \<le> c \<and> c \<le> 0x66 then Some (unat (c - 0x61) + 10)
      else if 0x41 \<le> c \<and> c \<le> 0x46 then Some (unat (c - 0x41) + 10)
      else None)"

fun num_loop :: "nat \<Rightarrow> u32 \<Rightarrow> u8 list \<Rightarrow> u32 \<times> u8 list" where
  "num_loop b v [] = (v, [])"
| "num_loop b v (c # lp) =
     (case dig_val c of
        Some d \<Rightarrow> if d < b then num_loop b (v * of_nat b + of_nat d) lp else (v, c # lp)
      | None \<Rightarrow> (v, c # lp))"

definition read_num :: "u8 list \<Rightarrow> u32 \<times> u8 list" where
  "read_num lp =
     (if at lp = 0x30 \<and> (at1 lp = 0x78 \<or> at1 lp = 0x58) then num_loop 16 0 (drop 2 lp)
      else if at lp = 0x30 \<and> (at1 lp = 0x62 \<or> at1 lp = 0x42) then num_loop 2 0 (drop 2 lp)
      else num_loop 10 0 lp)"

text \<open>A character literal, the cursor behind the opening quote.\<close>

definition read_char :: "u8 list \<Rightarrow> u32 \<times> u8 list" where
  "read_char lp =
     (let c = at lp; lp = tl lp;
          (c, lp) = (if c = 0x5C then (esc_char (at lp), tl lp) else (c, lp))
      in (scast c, if at lp = 0x27 then tl lp else lp))"

text \<open>A symbol: its value is known in pass 2 only.\<close>

definition sym_value :: "asm \<Rightarrow> string \<Rightarrow> u32 \<times> diag list" where
  "sym_value st n =
     (if as_pass st = 2
      then (case sym_find st n of
              Some i \<Rightarrow> if s_defined (syms st ! i) then (s_addr (syms st ! i), [])
                       else (0, [Diag ''undefined symbol'' n])
            | None \<Rightarrow> (0, [Diag ''undefined symbol'' n]))
      else (0, []))"

text \<open>\<open>parse_atom\<close> and \<open>parse_expr\<close>; \<open>expr_loop\<close> is the loop of \<open>parse_expr\<close> behind the first atom.\<close>

function parse_atom :: "asm \<Rightarrow> u8 list \<Rightarrow> expr \<times> diag list \<times> u8 list" and
  parse_expr :: "asm \<Rightarrow> u8 list \<Rightarrow> expr \<times> diag list \<times> u8 list" and
  expr_loop :: "asm \<Rightarrow> expr \<Rightarrow> u8 list \<Rightarrow> expr \<times> diag list \<times> u8 list"
where
  "parse_atom st lp0 =
     (case as_skip_ws lp0 of
        [] \<Rightarrow> (\<lparr>e_val = 0, has_sym = False\<rparr>, [Diag ''bad expression'' []], [])
      | c # lp \<Rightarrow>
        if c = 0x28
        then (let (e, ds, lp) = parse_expr st lp; (ok, lp) = eat 0x29 lp
              in (e, if ok then ds else ds @ [Diag ''expected )'' []], lp))
        else if c = 0x2D
        then (let (e, ds, lp) = parse_atom st lp in (e\<lparr>e_val := - e_val e\<rparr>, ds, lp))
        else if c = 0x2B then parse_atom st lp
        else if c = 0x27
        then (let (v, lp) = read_char lp in (\<lparr>e_val = v, has_sym = False\<rparr>, [], lp))
        else if is_dig c
        then (let (v, lp) = read_num (c # lp) in (\<lparr>e_val = v, has_sym = False\<rparr>, [], lp))
        else if c = 0x2E \<and> \<not> is_sym_ch (at lp)
        then (\<lparr>e_val = cur_addr st, has_sym = True\<rparr>, [], lp)
        else if is_sym_start c
        then (let (n, lp) = read_name (c # lp); (v, ds) = sym_value st n
              in (\<lparr>e_val = v, has_sym = True\<rparr>, ds, lp))
        else (\<lparr>e_val = 0, has_sym = False\<rparr>, [Diag ''bad expression'' []], if c \<noteq> 0 then lp else c # lp))"
| "parse_expr st lp = (let (e, ds, lp) = parse_atom st lp; (e, ds', lp) = expr_loop st e lp in (e, ds @ ds', lp))"
| "expr_loop st e lp0 =
     (case as_skip_ws lp0 of
        [] \<Rightarrow> (e, [], [])
      | c # lp \<Rightarrow>
        if c = 0x2B \<or> c = 0x2D
        then (let (r, ds, lp) = parse_atom st lp;
                  (e, ds', lp) = expr_loop st \<lparr>e_val = (if c = 0x2D then e_val e - e_val r else e_val e + e_val r),
                                                has_sym = (has_sym e \<or> has_sym r)\<rparr> lp
              in (e, ds @ ds', lp))
        else (e, [], c # lp))"
  by pat_completeness auto


lemma length_skip_ws [simp]: "length (as_skip_ws lp) \<le> length lp"
  by (simp add: as_skip_ws_def length_dropWhile_le)

lemma skip_ws_Cons: "as_skip_ws lp = c # lp' \<Longrightarrow> length lp' < length lp"
  using length_skip_ws [of lp] by simp

lemma length_eat: "length (snd (eat c lp)) \<le> length lp"
  using length_skip_ws [of lp] by (auto simp: eat_def Let_def simp del: length_skip_ws)

lemma length_name_loop: "length (snd (name_loop n lp)) \<le> length lp"
  by (induction n lp rule: name_loop.induct) (auto split: prod.splits)

lemma length_read_name: "length (snd (read_name lp)) \<le> length lp"
  using length_name_loop [of 31 "as_skip_ws lp"] length_skip_ws [of lp]
  by (auto simp: read_name_def Let_def simp del: length_skip_ws)

lemma length_num_loop: "length (snd (num_loop b v lp)) \<le> length lp"
  by (induction b v lp rule: num_loop.induct) (auto split: option.splits)

lemma length_read_num: "length (snd (read_num lp)) \<le> length lp"
  using length_num_loop [of 16 0 "drop 2 lp"] length_num_loop [of 2 0 "drop 2 lp"] length_num_loop [of 10 0 lp]
  by (auto simp: read_num_def)

lemma length_read_char: "length (snd (read_char lp)) \<le> length lp"
  by (auto simp: read_char_def Let_def)

lemmas cursor_moves = length_eat length_read_name length_read_num length_read_char

lemma expr_cursor:
  "parse_atom_parse_expr_expr_loop_dom (Inl (st, lp)) \<Longrightarrow> length (snd (snd (parse_atom st lp))) \<le> length lp"
  "parse_atom_parse_expr_expr_loop_dom (Inr (Inl (st, lp))) \<Longrightarrow> length (snd (snd (parse_expr st lp))) \<le> length lp"
  "parse_atom_parse_expr_expr_loop_dom (Inr (Inr (st, e, lp))) \<Longrightarrow> length (snd (snd (expr_loop st e lp))) \<le> length lp"
proof (induction rule: parse_atom_parse_expr_expr_loop.pinduct)
  case (1 st lp0)
  show ?case
  proof (cases "as_skip_ws lp0")
    case Nil
    then show ?thesis using 1(1) by (simp add: parse_atom.psimps)
  next
    case (Cons c lp)
    note IH = 1(2-4) [OF Cons]
    have l: "length lp < length lp0" using Cons by (rule skip_ws_Cons)
    show ?thesis
      using l IH cursor_moves(2) [of "c # lp"] cursor_moves(3) [of "c # lp"] cursor_moves(4) [of lp]
        cursor_moves(1) [of "0x29" "snd (snd (parse_expr st lp))"]
      by (auto simp: parse_atom.psimps [OF 1(1)] Cons Let_def case_prod_unfold)
  qed
next
  case (2 st lp)
  from 2 show ?case by (fastforce simp: parse_expr.psimps Let_def split: prod.splits)
next
  case (3 st e lp0)
  show ?case
  proof (cases "as_skip_ws lp0")
    case Nil
    then show ?thesis using 3(1) by (simp add: expr_loop.psimps)
  next
    case (Cons c lp)
    have l: "length lp < length lp0" using Cons by (rule skip_ws_Cons)
    obtain r ds lp' where a: "parse_atom st lp = (r, ds, lp')" by (cases "parse_atom st lp")
    show ?thesis
    proof (cases "c = 0x2B \<or> c = 0x2D")
      case True
      then show ?thesis
        using l a 3(2) [OF Cons True] 3(3) [OF Cons True, of "(r, ds, lp')" r "(ds, lp')" ds lp']
        by (auto simp: expr_loop.psimps [OF 3(1)] Cons case_prod_unfold Let_def)
    qed (use l in \<open>simp add: expr_loop.psimps [OF 3(1)] Cons\<close>)
  qed
qed

lemma atom_cursor:
  "(e, ds, lp') = parse_atom st lp \<Longrightarrow> parse_atom_parse_expr_expr_loop_dom (Inl (st, lp)) \<Longrightarrow> length lp' \<le> length lp"
  by (metis expr_cursor(1) snd_conv)

lemma expr_total: "All parse_atom_parse_expr_expr_loop_dom"
proof (relation "measure (\<lambda>x. case x of Inl (st, lp) \<Rightarrow> 2 * length lp
                   | Inr (Inl (st, lp)) \<Rightarrow> 2 * length lp + 1 | Inr (Inr (st, e, lp)) \<Rightarrow> 2 * length lp)", goal_cases)
qed (auto dest!: skip_ws_Cons atom_cursor)

termination parse_atom
  by (rule expr_total)


declare parse_atom.simps [simp del] parse_expr.simps [simp del] expr_loop.simps [simp del]

lemma length_parse_expr: "length (snd (snd (parse_expr st lp))) \<le> length lp"
  by (rule expr_cursor(2) [OF expr_total [THEN spec]])

subsection \<open>Registers and operands\<close>

definition reg32 :: "string list" where
  "reg32 = [''eax'', ''ecx'', ''edx'', ''ebx'', ''esp'', ''ebp'', ''esi'', ''edi'']"

definition reg8 :: "string list" where
  "reg8 = [''al'', ''cl'', ''dl'', ''bl'', ''ah'', ''ch'', ''dh'', ''bh'']"

definition reg16 :: "string list" where
  "reg16 = [''ax'', ''cx'', ''dx'', ''bx'', ''sp'', ''bp'', ''si'', ''di'']"

fun name_index :: "string \<Rightarrow> string list \<Rightarrow> nat option" where
  "name_index n [] = None"
| "name_index n (m # ms) = (if n = m then Some 0 else map_option Suc (name_index n ms))"

text \<open>The register's number and its size in bytes; \<open>None\<close> is the -1 of the code.\<close>

definition reg_lookup :: "string \<Rightarrow> (u32 \<times> nat) option" where
  "reg_lookup n =
     (case name_index n reg32 of Some i \<Rightarrow> Some (of_nat i, 4)
      | None \<Rightarrow> case name_index n reg8 of Some i \<Rightarrow> Some (of_nat i, 1)
      | None \<Rightarrow> case name_index n reg16 of Some i \<Rightarrow> Some (of_nat i, 2)
      | None \<Rightarrow> None)"

datatype op_kind = OP_NONE | OP_REG | OP_IMM | OP_MEM

text \<open>An absent base or index register, -1 in the code, is \<open>None\<close>.\<close>

record operand =
  kind :: op_kind
  reg :: u32
  op_size :: nat
  base :: "u32 option"
  index :: "u32 option"
  scale :: u32
  disp :: expr

definition no_operand :: operand where
  "no_operand = \<lparr>kind = OP_NONE, reg = 0, op_size = 0, base = None, index = None, scale = 1,
                 disp = \<lparr>e_val = 0, has_sym = False\<rparr>\<rparr>"

definition parse_reg_operand :: "u8 list \<Rightarrow> (u32 \<times> nat) option \<times> diag list \<times> u8 list" where
  "parse_reg_operand lp =
     (let (n, lp) = read_name lp in
      if n = [] then (None, [Diag ''expected register'' []], lp)
      else case reg_lookup n of
             None \<Rightarrow> (None, [Diag ''unknown register'' n], lp)
           | Some r \<Rightarrow> (Some r, [], lp))"

text \<open>A register between the parentheses of a memory operand, present when the cursor is at a percent sign.\<close>

definition parse_base :: "u8 list \<Rightarrow> u32 option option \<times> diag list \<times> u8 list" where
  "parse_base lp =
     (if at lp = 0x25
      then (case parse_reg_operand (tl lp) of
              (None, ds, lp) \<Rightarrow> (None, ds, lp)
            | (Some (r, sz), ds, lp) \<Rightarrow>
                if sz \<noteq> 4 then (None, ds @ [Diag ''base register must be 32-bit'' []], lp)
                else (Some (Some r), ds, lp))
      else (Some None, [], lp))"

definition parse_index :: "u8 list \<Rightarrow> u32 option option \<times> diag list \<times> u8 list" where
  "parse_index lp =
     (if at lp = 0x25
      then (case parse_reg_operand (tl lp) of
              (None, ds, lp) \<Rightarrow> (None, ds, lp)
            | (Some (r, sz), ds, lp) \<Rightarrow>
                if sz \<noteq> 4 then (None, ds @ [Diag ''index register must be 32-bit'' []], lp)
                else if r = 4 then (None, ds @ [Diag ''%esp cannot be an index register'' []], lp)
                else (Some (Some r), ds, lp))
      else (Some None, [], lp))"

text \<open>The part of a memory operand behind the opening parenthesis.\<close>

definition parse_paren :: "asm \<Rightarrow> operand \<Rightarrow> u8 list \<Rightarrow> operand option \<times> diag list \<times> u8 list" where
  "parse_paren st op lp =
     (case parse_base (as_skip_ws lp) of
        (None, ds, lp) \<Rightarrow> (None, ds, lp)
      | (Some b, ds, lp) \<Rightarrow>
          let op = op\<lparr>base := b\<rparr>; lp = as_skip_ws lp;
              closing = (\<lambda>op ds lp. let (ok, lp) = eat 0x29 lp
                         in if ok then (Some op, ds, lp) else (None, ds @ [Diag ''expected )'' []], lp))
          in if at lp = 0x2C
             then (case parse_index (as_skip_ws (tl lp)) of
                     (None, ds', lp) \<Rightarrow> (None, ds @ ds', lp)
                   | (Some i, ds', lp) \<Rightarrow>
                       let op = op\<lparr>index := i\<rparr>; lp = as_skip_ws lp
                       in if at lp = 0x2C
                          then (let (sc, ds'', lp) = parse_expr st (tl lp)
                                in closing (op\<lparr>scale := e_val sc\<rparr>) (ds @ ds' @ ds'') lp)
                          else closing op (ds @ ds') lp)
             else closing op ds lp)"

function parse_operand :: "asm \<Rightarrow> u8 list \<Rightarrow> operand option \<times> diag list \<times> u8 list" where
  "parse_operand st lp0 =
     (let lp = as_skip_ws lp0 in
      if at lp = 0 then (None, [], lp)
      else if at lp = 0x25
      then (let (r, ds, lp) = parse_reg_operand (tl lp)
            in (map_option (\<lambda>(r, sz). no_operand\<lparr>kind := OP_REG, reg := r, op_size := sz\<rparr>) r, ds, lp))
      else if at lp = 0x24
      then (let (e, ds, lp) = parse_expr st (tl lp) in (Some (no_operand\<lparr>kind := OP_IMM, disp := e\<rparr>), ds, lp))
      else if at lp = 0x2A then parse_operand st (tl lp)
      else
        let op = no_operand\<lparr>kind := OP_MEM\<rparr>;
            (op, ds, lp) = (if at lp \<noteq> 0x28 then (let (e, ds, lp) = parse_expr st lp in (op\<lparr>disp := e\<rparr>, ds, lp))
                           else (op, [], lp));
            lp = as_skip_ws lp
        in if at lp = 0x28
           then (let (r, ds', lp) = parse_paren st op (tl lp) in (r, ds @ ds', lp))
           else (Some op, ds, lp))"
  by pat_completeness auto

lemma at_tl_shorter: "at (as_skip_ws lp) = c \<Longrightarrow> c \<noteq> 0 \<Longrightarrow> length (tl (as_skip_ws lp)) < length lp"
  using skip_ws_Cons [of lp] by (cases "as_skip_ws lp") (auto simp: at_def)

termination parse_operand
  by (relation "measure (\<lambda>(st, lp). length lp)") (auto dest: at_tl_shorter)

declare parse_operand.simps [simp del]

end
