(* ===== verification/AsmEncode.thy ===== *)
theory AsmEncode
  imports AsmLex
begin

text \<open>
  The assembler (user/as.c), second part: the encoding of instructions. \<open>asm_insn\<close> and the routines it is
  made of only call the emit routines and \<open>err\<close>, so each is the list of these calls in their order, which
  \<open>run_emits\<close> performs. An x86 decoder, written from the processor's rules for ModRM and SIB bytes and for
  the opcodes the assembler uses, is the reference the encodings are compared with.
\<close>

datatype emission = E8 u32 | E32 u32 | Rel expr | Bad diag

definition emit_rel32 :: "expr \<Rightarrow> asm \<Rightarrow> asm" where
  "emit_rel32 target st =
     (let here = cur_addr st + 4 in emit32 (if as_pass st = 2 then e_val target - here else 0) st)"

fun run_emit :: "emission \<Rightarrow> asm \<Rightarrow> asm" where
  "run_emit (E8 b) st = emit8 b st"
| "run_emit (E32 v) st = emit32 v st"
| "run_emit (Rel e) st = emit_rel32 e st"
| "run_emit (Bad d) st = err d st"

definition run_emits :: "emission list \<Rightarrow> asm \<Rightarrow> asm" where
  "run_emits es st = fold run_emit es st"

subsection \<open>ModRM\<close>

text \<open>The two bits of a scale, and the complaint about another value.\<close>

definition scale_bits :: "u32 \<Rightarrow> u32 \<times> emission list" where
  "scale_bits s =
     (if s = 1 then (0, []) else if s = 2 then (1, []) else if s = 4 then (2, []) else if s = 8 then (3, [])
      else (0, [Bad (Diag ''scale must be 1, 2, 4 or 8'' [])]))"

text \<open>Three fields of two, three and three bits: a ModRM or a SIB byte.\<close>

definition fields :: "u32 \<Rightarrow> u32 \<Rightarrow> u32 \<Rightarrow> u32" where
  "fields a b c = push_bit 6 a OR push_bit 3 b OR c"

definition sib :: "u32 \<Rightarrow> u32 \<Rightarrow> u32 \<Rightarrow> emission list" where
  "sib s i b = (let (sb, es) = scale_bits s in es @ [E8 (fields sb i b)])"

definition disp_mod :: "operand \<Rightarrow> u32 \<Rightarrow> u32" where
  "disp_mod op b =
     (if has_sym (disp op) then 2
      else if e_val (disp op) = 0 \<and> b \<noteq> 5 then 0
      else if sint (e_val (disp op)) \<ge> -128 \<and> sint (e_val (disp op)) \<le> 127 then 1
      else 2)"

definition emit_modrm :: "u32 \<Rightarrow> operand \<Rightarrow> emission list" where
  "emit_modrm r0 op =
     (let r = r0 AND 7 in
      case kind op of
        OP_REG \<Rightarrow> [E8 (0xC0 OR push_bit 3 r OR reg op)]
      | OP_MEM \<Rightarrow>
          (case (base op, index op) of
             (None, None) \<Rightarrow> [E8 (push_bit 3 r OR 5), E32 (e_val (disp op))]
           | (None, Some i) \<Rightarrow> E8 (push_bit 3 r OR 4) # sib (scale op) i 5 @ [E32 (e_val (disp op))]
           | (Some b, _) \<Rightarrow>
               let md = disp_mod op b in
               (if index op \<noteq> None \<or> b = 4
                then E8 (fields md r 4) # sib (scale op) (case index op of None \<Rightarrow> 4 | Some i \<Rightarrow> i) b
                else [E8 (fields md r b)]) @
               (if md = 1 then [E8 (e_val (disp op) AND 0xFF)] else if md = 2 then [E32 (e_val (disp op))] else []))
      | _ \<Rightarrow> [Bad (Diag ''expected memory or register operand'' [])])"

definition imm_fits8 :: "operand \<Rightarrow> bool" where
  "imm_fits8 op \<longleftrightarrow>
     \<not> has_sym (disp op) \<and> sint (e_val (disp op)) \<ge> -128 \<and> sint (e_val (disp op)) \<le> 127"

subsection \<open>Instruction tables\<close>

definition alu_ops :: "(string \<times> u32 \<times> u32) list" where
  "alu_ops = [(''add'', 0x00, 0), (''or'', 0x08, 1), (''adc'', 0x10, 2), (''sbb'', 0x18, 3),
              (''and'', 0x20, 4), (''sub'', 0x28, 5), (''xor'', 0x30, 6), (''cmp'', 0x38, 7)]"

definition cc_ops :: "(string \<times> u32) list" where
  "cc_ops = [(''o'', 0x0), (''no'', 0x1), (''b'', 0x2), (''nae'', 0x2), (''c'', 0x2),
             (''ae'', 0x3), (''nb'', 0x3), (''nc'', 0x3),
             (''e'', 0x4), (''z'', 0x4), (''ne'', 0x5), (''nz'', 0x5),
             (''be'', 0x6), (''na'', 0x6), (''a'', 0x7), (''nbe'', 0x7),
             (''s'', 0x8), (''ns'', 0x9), (''p'', 0xA), (''np'', 0xB),
             (''l'', 0xC), (''nge'', 0xC), (''ge'', 0xD), (''nl'', 0xD),
             (''le'', 0xE), (''ng'', 0xE), (''g'', 0xF), (''nle'', 0xF)]"

definition cc_lookup :: "string \<Rightarrow> u32 option" where
  "cc_lookup s = map_of cc_ops s"

definition shift_digit :: "string \<Rightarrow> u32 option" where
  "shift_digit m =
     (if m = ''shl'' \<or> m = ''sal'' then Some 4 else if m = ''shr'' then Some 5 else if m = ''sar'' then Some 7
      else if m = ''rol'' then Some 0 else if m = ''ror'' then Some 1 else None)"

subsection \<open>Instructions\<close>

text \<open>
  The parts of \<open>asm_insn\<close> in their order. \<open>ops\<close> are the operands that were read, \<open>nops\<close> of the code is their
  number, and \<open>sz\<close> the width in bytes.
\<close>

definition bad :: "string \<Rightarrow> string \<Rightarrow> emission list" where
  "bad msg d = [Bad (Diag msg d)]"

definition is_acc :: "operand \<Rightarrow> bool" where
  "is_acc op \<longleftrightarrow> kind op = OP_REG \<and> reg op = 0"

definition is_abs_mem :: "operand \<Rightarrow> bool" where
  "is_abs_mem op \<longleftrightarrow> kind op = OP_MEM \<and> base op = None \<and> index op = None"

definition imm8 :: "operand \<Rightarrow> emission" where "imm8 op = E8 (e_val (disp op) AND 0xFF)"
definition imm32 :: "operand \<Rightarrow> emission" where "imm32 op = E32 (e_val (disp op))"

definition asm_alu :: "string \<Rightarrow> u32 \<Rightarrow> u32 \<Rightarrow> operand list \<Rightarrow> nat \<Rightarrow> emission list" where
  "asm_alu m opc digit ops sz =
     (if length ops \<noteq> 2 then bad ''expected two operands'' m
      else
        let o0 = ops ! 0; o1 = ops ! 1 in
        if kind o0 = OP_IMM
        then (if sz = 1
              then (if is_acc o1 then [E8 (opc + 4)] else E8 0x80 # emit_modrm digit o1) @ [imm8 o0]
              else if imm_fits8 o0 then E8 0x83 # emit_modrm digit o1 @ [imm8 o0]
              else if is_acc o1 then [E8 (opc + 5), imm32 o0]
              else E8 0x81 # emit_modrm digit o1 @ [imm32 o0])
        else if kind o0 = OP_REG then E8 (opc + (if sz = 1 then 0 else 1)) # emit_modrm (reg o0) o1
        else if kind o1 = OP_REG then E8 (opc + (if sz = 1 then 2 else 3)) # emit_modrm (reg o1) o0
        else bad ''invalid operand combination'' m)"

definition asm_mov :: "string \<Rightarrow> operand list \<Rightarrow> nat \<Rightarrow> emission list" where
  "asm_mov m ops sz =
     (if length ops \<noteq> 2 then bad ''expected two operands'' m
      else
        let o0 = ops ! 0; o1 = ops ! 1 in
        if is_abs_mem o0 \<and> is_acc o1 then [E8 (if sz = 1 then 0xA0 else 0xA1), imm32 o0]
        else if is_acc o0 \<and> is_abs_mem o1 then [E8 (if sz = 1 then 0xA2 else 0xA3), imm32 o1]
        else if kind o0 = OP_IMM
        then (if kind o1 = OP_REG
              then (if sz = 1 then [E8 (0xB0 + reg o1), imm8 o0] else [E8 (0xB8 + reg o1), imm32 o0])
              else E8 (if sz = 1 then 0xC6 else 0xC7) # emit_modrm 0 o1 @ [if sz = 1 then imm8 o0 else imm32 o0])
        else if kind o0 = OP_REG then E8 (if sz = 1 then 0x88 else 0x89) # emit_modrm (reg o0) o1
        else if kind o1 = OP_REG then E8 (if sz = 1 then 0x8A else 0x8B) # emit_modrm (reg o1) o0
        else bad ''mov needs a register operand'' [])"

definition asm_extend :: "string \<Rightarrow> operand list \<Rightarrow> emission list" where
  "asm_extend m ops =
     (if length ops \<noteq> 2 \<or> kind (ops ! 1) \<noteq> OP_REG then bad ''expected src, %reg32'' m
      else
        [E8 0x0F, E8 ((if m ! 3 = CHR ''z'' then 0xB6 else 0xBE) + (if m ! 4 = CHR ''w'' then 1 else 0))] @
        emit_modrm (reg (ops ! 1)) (ops ! 0))"

definition asm_lea :: "operand list \<Rightarrow> emission list" where
  "asm_lea ops =
     (if length ops \<noteq> 2 \<or> kind (ops ! 0) \<noteq> OP_MEM \<or> kind (ops ! 1) \<noteq> OP_REG then bad ''expected lea mem, %reg'' []
      else E8 0x8D # emit_modrm (reg (ops ! 1)) (ops ! 0))"

definition asm_test :: "string \<Rightarrow> operand list \<Rightarrow> nat \<Rightarrow> emission list" where
  "asm_test m ops sz =
     (if length ops \<noteq> 2 then bad ''expected two operands'' m
      else
        let o0 = ops ! 0; o1 = ops ! 1 in
        if kind o0 = OP_IMM
        then (if is_acc o1 then [E8 (if sz = 1 then 0xA8 else 0xA9)]
              else E8 (if sz = 1 then 0xF6 else 0xF7) # emit_modrm 0 o1) @ [if sz = 1 then imm8 o0 else imm32 o0]
        else if kind o0 = OP_REG then E8 (if sz = 1 then 0x84 else 0x85) # emit_modrm (reg o0) o1
        else if kind o1 = OP_REG then E8 (if sz = 1 then 0x84 else 0x85) # emit_modrm (reg o1) o0
        else bad ''invalid operands'' m)"

definition asm_xchg :: "string \<Rightarrow> operand list \<Rightarrow> nat \<Rightarrow> emission list" where
  "asm_xchg m ops sz =
     (if length ops \<noteq> 2 then bad ''expected two operands'' m
      else
        let o0 = ops ! 0; o1 = ops ! 1 in
        if sz = 4 \<and> kind o0 = OP_REG \<and> kind o1 = OP_REG \<and> (reg o0 = 0 \<or> reg o1 = 0)
        then [E8 (0x90 + (if reg o0 = 0 then reg o1 else reg o0))]
        else if kind o0 = OP_REG then E8 0x87 # emit_modrm (reg o0) o1
        else if kind o1 = OP_REG then E8 0x87 # emit_modrm (reg o1) o0
        else bad ''xchg needs a register'' [])"

definition asm_push :: "string \<Rightarrow> operand list \<Rightarrow> emission list" where
  "asm_push m ops =
     (if length ops \<noteq> 1 then bad ''expected one operand'' m
      else
        let o0 = ops ! 0 in
        if kind o0 = OP_REG then [E8 (0x50 + reg o0)]
        else if kind o0 = OP_IMM then (if imm_fits8 o0 then [E8 0x6A, imm8 o0] else [E8 0x68, imm32 o0])
        else E8 0xFF # emit_modrm 6 o0)"

definition asm_pop :: "string \<Rightarrow> operand list \<Rightarrow> emission list" where
  "asm_pop m ops =
     (if length ops \<noteq> 1 then bad ''expected one operand'' m
      else if kind (ops ! 0) = OP_REG then [E8 (0x58 + reg (ops ! 0))]
      else E8 0x8F # emit_modrm 0 (ops ! 0))"

definition asm_incdec :: "string \<Rightarrow> operand list \<Rightarrow> nat \<Rightarrow> emission list" where
  "asm_incdec m ops sz =
     (let is_dec = (m ! 0 = CHR ''d'') in
      if length ops \<noteq> 1 then bad ''expected one operand'' m
      else if kind (ops ! 0) = OP_REG \<and> sz = 4 then [E8 ((if is_dec then 0x48 else 0x40) + reg (ops ! 0))]
      else E8 (if sz = 1 then 0xFE else 0xFF) # emit_modrm (if is_dec then 1 else 0) (ops ! 0))"

definition unary_digit :: "string \<Rightarrow> u32 option" where
  "unary_digit m =
     (if m = ''not'' then Some 2 else if m = ''neg'' then Some 3 else if m = ''mul'' then Some 4
      else if m = ''div'' then Some 6 else if m = ''idiv'' then Some 7 else None)"

definition asm_unary :: "string \<Rightarrow> u32 \<Rightarrow> operand list \<Rightarrow> nat \<Rightarrow> emission list" where
  "asm_unary m digit ops sz =
     (if length ops \<noteq> 1 then bad ''expected one operand'' m
      else E8 (if sz = 1 then 0xF6 else 0xF7) # emit_modrm digit (ops ! 0))"

definition asm_imul :: "operand list \<Rightarrow> emission list" where
  "asm_imul ops =
     (if length ops = 1 then E8 0xF7 # emit_modrm 5 (ops ! 0)
      else if length ops = 2 \<and> kind (ops ! 1) = OP_REG
      then [E8 0x0F, E8 0xAF] @ emit_modrm (reg (ops ! 1)) (ops ! 0)
      else if length ops = 3 \<and> kind (ops ! 0) = OP_IMM \<and> kind (ops ! 2) = OP_REG
      then (if imm_fits8 (ops ! 0) then E8 0x6B # emit_modrm (reg (ops ! 2)) (ops ! 1) @ [imm8 (ops ! 0)]
            else E8 0x69 # emit_modrm (reg (ops ! 2)) (ops ! 1) @ [imm32 (ops ! 0)])
      else bad ''bad imul operands'' [])"

definition asm_shift :: "u32 \<Rightarrow> operand list \<Rightarrow> nat \<Rightarrow> emission list" where
  "asm_shift digit ops sz =
     (if length ops = 1 then E8 (if sz = 1 then 0xD0 else 0xD1) # emit_modrm digit (ops ! 0)
      else if length ops = 2 \<and> kind (ops ! 0) = OP_IMM
      then (if \<not> has_sym (disp (ops ! 0)) \<and> e_val (disp (ops ! 0)) = 1
            then E8 (if sz = 1 then 0xD0 else 0xD1) # emit_modrm digit (ops ! 1)
            else E8 (if sz = 1 then 0xC0 else 0xC1) # emit_modrm digit (ops ! 1) @ [imm8 (ops ! 0)])
      else if length ops = 2 \<and> kind (ops ! 0) = OP_REG \<and> reg (ops ! 0) = 1 \<and> op_size (ops ! 0) = 1
      then E8 (if sz = 1 then 0xD2 else 0xD3) # emit_modrm digit (ops ! 1)
      else bad ''shift count must be $imm or %cl'' [])"

text \<open>\<open>jmp\<close> and \<open>call\<close>: the opcode of the direct form and the digit of the indirect one.\<close>

definition asm_branch :: "string \<Rightarrow> u32 \<Rightarrow> u32 \<Rightarrow> operand list \<Rightarrow> emission list" where
  "asm_branch m opc digit ops =
     (if length ops \<noteq> 1 then bad ''expected one operand'' m
      else if is_abs_mem (ops ! 0) then [E8 opc, Rel (disp (ops ! 0))]
      else E8 0xFF # emit_modrm digit (ops ! 0))"

definition cc_after :: "string \<Rightarrow> string \<Rightarrow> u32 option" where
  "cc_after p m = (if take (length p) m = p then cc_lookup (drop (length p) m) else None)"

definition asm_jcc :: "string \<Rightarrow> u32 \<Rightarrow> operand list \<Rightarrow> emission list" where
  "asm_jcc m cc ops =
     (if length ops \<noteq> 1 then bad ''expected one operand'' m
      else [E8 0x0F, E8 (0x80 + cc), Rel (disp (ops ! 0))])"

definition asm_setcc :: "string \<Rightarrow> u32 \<Rightarrow> operand list \<Rightarrow> emission list" where
  "asm_setcc m cc ops =
     (if length ops \<noteq> 1 then bad ''expected one operand'' m
      else [E8 0x0F, E8 (0x90 + cc)] @ emit_modrm 0 (ops ! 0))"

definition asm_cmov :: "string \<Rightarrow> u32 \<Rightarrow> operand list \<Rightarrow> emission list" where
  "asm_cmov m cc ops =
     (if length ops \<noteq> 2 \<or> kind (ops ! 1) \<noteq> OP_REG then bad ''expected src, %reg'' m
      else [E8 0x0F, E8 (0x40 + cc)] @ emit_modrm (reg (ops ! 1)) (ops ! 0))"

definition plain_op :: "string \<Rightarrow> u32 option" where
  "plain_op m =
     map_of [(''ret'', 0xC3), (''leave'', 0xC9), (''nop'', 0x90), (''hlt'', 0xF4), (''cdq'', 0x99), (''cltd'', 0x99),
             (''cwde'', 0x98), (''cwtl'', 0x98), (''pushal'', 0x60), (''pusha'', 0x60), (''popal'', 0x61), (''popa'', 0x61),
             (''pushfl'', 0x9C), (''pushf'', 0x9C), (''popfl'', 0x9D), (''popf'', 0x9D)] m"

definition asm_int :: "operand list \<Rightarrow> emission list" where
  "asm_int ops =
     (if length ops \<noteq> 1 \<or> kind (ops ! 0) \<noteq> OP_IMM then bad ''expected int $n'' []
      else [E8 0xCD, imm8 (ops ! 0)])"

definition asm_flow :: "string \<Rightarrow> operand list \<Rightarrow> emission list" where
  "asm_flow m ops =
     (if m = ''jmp'' then asm_branch m 0xE9 4 ops
      else if m = ''call'' then asm_branch m 0xE8 2 ops
      else case cc_after ''j'' m of Some cc \<Rightarrow> asm_jcc m cc ops
      | None \<Rightarrow> case cc_after ''set'' m of Some cc \<Rightarrow> asm_setcc m cc ops
      | None \<Rightarrow> case cc_after ''cmov'' m of Some cc \<Rightarrow> asm_cmov m cc ops
      | None \<Rightarrow> case plain_op m of Some b \<Rightarrow> [E8 b]
      | None \<Rightarrow> if m = ''int'' then asm_int ops else bad ''unknown instruction'' m)"

definition asm_insn :: "string \<Rightarrow> operand list \<Rightarrow> nat \<Rightarrow> emission list" where
  "asm_insn m ops sz =
     (case map_of alu_ops m of
        Some (opc, digit) \<Rightarrow> asm_alu m opc digit ops sz
      | None \<Rightarrow>
      if m = ''mov'' then asm_mov m ops sz
      else if m = ''movzbl'' \<or> m = ''movsbl'' \<or> m = ''movzwl'' \<or> m = ''movswl'' then asm_extend m ops
      else if m = ''lea'' then asm_lea ops
      else if m = ''test'' then asm_test m ops sz
      else if m = ''xchg'' then asm_xchg m ops sz
      else if m = ''push'' then asm_push m ops
      else if m = ''pop'' then asm_pop m ops
      else if m = ''inc'' \<or> m = ''dec'' then asm_incdec m ops sz
      else case unary_digit m of Some digit \<Rightarrow> asm_unary m digit ops sz
      | None \<Rightarrow>
      if m = ''imul'' then asm_imul ops
      else case shift_digit m of Some digit \<Rightarrow> asm_shift digit ops sz
      | None \<Rightarrow> asm_flow m ops)"

end
