(* ===== verification/AsmDecode.thy ===== *)
theory AsmDecode
  imports AsmEncode
begin

text \<open>
  A decoder for the x86 instructions the assembler produces, written from the processor's encoding rules:
  ModRM and SIB bytes, displacements, immediates and the opcodes. It is the reference for the encodings of
  AsmEncode, and shares no table with it: conditions and instructions without operands are named here by what
  they are, the decoder finds them by their numbers, and \<open>meaning\<close> by their mnemonics.
\<close>

text \<open>A register, a memory operand (base, index with its scale, displacement), an immediate.\<close>

datatype loc = R u32 | M "u32 option" "(u32 \<times> u32) option" u32 | I u32

datatype count = Count u32 | CL

datatype cond = Overflow | NoOverflow | Below | AboveEq | Equal | NotEqual | BelowEq | Above
  | Negative | NoNegative | ParityEven | ParityOdd | Less | GreaterEq | LessEq | Greater

datatype plain = Ret | Leave | Hlt | Cdq | Cwde | PushAll | PopAll | PushFlags | PopFlags

text \<open>The flag of an instruction with two widths is true for the byte form. The operands of \<open>XTest\<close> and
  \<open>XXchg\<close> have no order.\<close>

datatype xinsn =
    XAlu u32 bool loc loc
  | XMov bool loc loc
  | XMovx bool bool u32 loc
  | XLea u32 loc
  | XTest bool "loc set"
  | XXchg bool "loc set"
  | XPush loc
  | XPop loc
  | XInc bool loc
  | XDec bool loc
  | XUnary u32 bool loc
  | XImul u32 loc
  | XImul3 u32 loc u32
  | XShift u32 bool loc count
  | XJmp u32
  | XJmpInd loc
  | XCall u32
  | XCallInd loc
  | XJcc cond u32
  | XSet cond loc
  | XCmov cond u32 loc
  | XPlain plain
  | XInt u32

subsection \<open>ModRM\<close>

definition top2 :: "u8 \<Rightarrow> u32" where "top2 b = drop_bit 6 (ucast b)"
definition mid3 :: "u8 \<Rightarrow> u32" where "mid3 b = drop_bit 3 (ucast b) AND 7"
definition low3 :: "u8 \<Rightarrow> u32" where "low3 b = ucast b AND 7"

definition take8 :: "u8 list \<Rightarrow> (u8 \<times> u8 list) option" where
  "take8 bs = (case bs of [] \<Rightarrow> None | b # bs \<Rightarrow> Some (b, bs))"

definition take32 :: "u8 list \<Rightarrow> (u32 \<times> u8 list) option" where
  "take32 bs = (if 4 \<le> length bs then Some (le32 bs 0, drop 4 bs) else None)"

definition take_disp :: "u32 \<Rightarrow> u8 list \<Rightarrow> (u32 \<times> u8 list) option" where
  "take_disp md bs =
     (if md = 0 then Some (0, bs)
      else if md = 1 then do { (b, bs) \<leftarrow> take8 bs; Some (scast b, bs) }
      else take32 bs)"

definition decode_modrm :: "u8 list \<Rightarrow> (u32 \<times> loc \<times> u8 list) option" where
  "decode_modrm bs = do {
     (b, bs) \<leftarrow> take8 bs;
     let md = top2 b;
     let r = mid3 b;
     let rm = low3 b;
     if md = 3 then Some (r, R rm, bs)
     else if rm = 4
     then do {
       (s, bs) \<leftarrow> take8 bs;
       let ix = (if mid3 s = 4 then None else Some (mid3 s, push_bit (unat (top2 s)) 1));
       if md = 0 \<and> low3 s = 5
       then do { (d, bs) \<leftarrow> take32 bs; Some (r, M None ix d, bs) }
       else do { (d, bs) \<leftarrow> take_disp md bs; Some (r, M (Some (low3 s)) ix d, bs) }
     }
     else if md = 0 \<and> rm = 5
     then do { (d, bs) \<leftarrow> take32 bs; Some (r, M None None d, bs) }
     else do { (d, bs) \<leftarrow> take_disp md bs; Some (r, M (Some rm) None d, bs) }
   }"

subsection \<open>Instructions\<close>

text \<open>An opcode with a ModRM byte, and the immediates of either width.\<close>

definition with_rm :: "u8 list \<Rightarrow> (u32 \<Rightarrow> loc \<Rightarrow> u8 list \<Rightarrow> 'a option) \<Rightarrow> 'a option" where
  "with_rm bs f = do { (r, l, bs) \<leftarrow> decode_modrm bs; f r l bs }"

definition imm_w :: "bool \<Rightarrow> u8 list \<Rightarrow> (u32 \<times> u8 list) option" where
  "imm_w byte bs =
     (if byte then do { (b, bs) \<leftarrow> take8 bs; Some (ucast b, bs) } else take32 bs)"

definition imm_s8 :: "u8 list \<Rightarrow> (u32 \<times> u8 list) option" where
  "imm_s8 bs = do { (b, bs) \<leftarrow> take8 bs; Some (scast b, bs) }"

text \<open>The condition of the low four bits of an opcode.\<close>

definition cond_of :: "u32 \<Rightarrow> cond" where
  "cond_of c = [Overflow, NoOverflow, Below, AboveEq, Equal, NotEqual, BelowEq, Above,
                Negative, NoNegative, ParityEven, ParityOdd, Less, GreaterEq, LessEq, Greater] ! unat c"

definition decode_0f :: "u32 \<Rightarrow> u8 list \<Rightarrow> (xinsn \<times> u8 list) option" where
  "decode_0f pc bs = do {
     (b, bs) \<leftarrow> take8 bs;
     let c = (ucast b :: u32);
     if 0x40 \<le> c \<and> c < 0x50 then with_rm bs (\<lambda>r l bs. Some (XCmov (cond_of (c - 0x40)) r l, bs))
     else if 0x80 \<le> c \<and> c < 0x90 then do { (d, bs) \<leftarrow> take32 bs; Some (XJcc (cond_of (c - 0x80)) (pc + 6 + d), bs) }
     else if 0x90 \<le> c \<and> c < 0xA0 then with_rm bs (\<lambda>r l bs. Some (XSet (cond_of (c - 0x90)) l, bs))
     else if c = 0xAF then with_rm bs (\<lambda>r l bs. Some (XImul r l, bs))
     else if c = 0xB6 \<or> c = 0xB7 then with_rm bs (\<lambda>r l bs. Some (XMovx True (c = 0xB7) r l, bs))
     else if c = 0xBE \<or> c = 0xBF then with_rm bs (\<lambda>r l bs. Some (XMovx False (c = 0xBF) r l, bs))
     else None
   }"

text \<open>The arithmetic block below \<open>0x40\<close>: eight groups of eight, six of them used in each.\<close>

definition decode_alu :: "u32 \<Rightarrow> u8 list \<Rightarrow> (xinsn \<times> u8 list) option" where
  "decode_alu c bs =
     (let g = drop_bit 3 c; k = c AND 7; byte = (c AND 1 = 0) in
      if k < 2 then with_rm bs (\<lambda>r l bs. Some (XAlu g byte l (R r), bs))
      else if k < 4 then with_rm bs (\<lambda>r l bs. Some (XAlu g byte (R r) l, bs))
      else if k < 6 then do { (v, bs) \<leftarrow> imm_w byte bs; Some (XAlu g byte (R 0) (I v), bs) }
      else None)"

text \<open>The groups whose ModRM digit selects the instruction.\<close>

definition decode_f7 :: "bool \<Rightarrow> u8 list \<Rightarrow> (xinsn \<times> u8 list) option" where
  "decode_f7 byte bs =
     with_rm bs (\<lambda>r l bs. if r < 2 then do { (v, bs) \<leftarrow> imm_w byte bs; Some (XTest byte {l, I v}, bs) }
                         else Some (XUnary r byte l, bs))"

definition decode_ff :: "bool \<Rightarrow> u8 list \<Rightarrow> (xinsn \<times> u8 list) option" where
  "decode_ff byte bs =
     with_rm bs (\<lambda>r l bs.
       if r = 0 then Some (XInc byte l, bs)
       else if r = 1 then Some (XDec byte l, bs)
       else if byte then None
       else if r = 2 then Some (XCallInd l, bs)
       else if r = 4 then Some (XJmpInd l, bs)
       else if r = 6 then Some (XPush l, bs)
       else None)"

definition decode_block :: "u32 \<Rightarrow> u32 \<Rightarrow> u8 list \<Rightarrow> (xinsn \<times> u8 list) option" where
  "decode_block pc c bs =
     (let byte = (c AND 1 = 0) in
      if c = 0x80 \<or> c = 0x81 then with_rm bs (\<lambda>r l bs. do { (v, bs) \<leftarrow> imm_w byte bs; Some (XAlu r byte l (I v), bs) })
      else if c = 0x83 then with_rm bs (\<lambda>r l bs. do { (v, bs) \<leftarrow> imm_s8 bs; Some (XAlu r False l (I v), bs) })
      else if c = 0x84 \<or> c = 0x85 then with_rm bs (\<lambda>r l bs. Some (XTest byte {l, R r}, bs))
      else if c = 0x86 \<or> c = 0x87 then with_rm bs (\<lambda>r l bs. Some (XXchg byte {l, R r}, bs))
      else if c = 0x88 \<or> c = 0x89 then with_rm bs (\<lambda>r l bs. Some (XMov byte l (R r), bs))
      else if c = 0x8A \<or> c = 0x8B then with_rm bs (\<lambda>r l bs. Some (XMov byte (R r) l, bs))
      else if c = 0x8D then with_rm bs (\<lambda>r l bs. Some (XLea r l, bs))
      else if c = 0x8F then with_rm bs (\<lambda>r l bs. Some (XPop l, bs))
      else if 0x90 \<le> c \<and> c < 0x98 then Some (XXchg False {R 0, R (c - 0x90)}, bs)
      else if c = 0x98 then Some (XPlain Cwde, bs)
      else if c = 0x99 then Some (XPlain Cdq, bs)
      else if c = 0x9C then Some (XPlain PushFlags, bs)
      else if c = 0x9D then Some (XPlain PopFlags, bs)
      else if c = 0xA0 \<or> c = 0xA1 then do { (d, bs) \<leftarrow> take32 bs; Some (XMov byte (R 0) (M None None d), bs) }
      else if c = 0xA2 \<or> c = 0xA3 then do { (d, bs) \<leftarrow> take32 bs; Some (XMov byte (M None None d) (R 0), bs) }
      else if c = 0xA8 \<or> c = 0xA9 then do { (v, bs) \<leftarrow> imm_w byte bs; Some (XTest byte {R 0, I v}, bs) }
      else if 0xB0 \<le> c \<and> c < 0xB8 then do { (v, bs) \<leftarrow> imm_w True bs; Some (XMov True (R (c - 0xB0)) (I v), bs) }
      else if 0xB8 \<le> c \<and> c < 0xC0 then do { (v, bs) \<leftarrow> imm_w False bs; Some (XMov False (R (c - 0xB8)) (I v), bs) }
      else if c = 0xC0 \<or> c = 0xC1
      then with_rm bs (\<lambda>r l bs. do { (v, bs) \<leftarrow> imm_w True bs; Some (XShift r byte l (Count v), bs) })
      else if c = 0xC6 \<or> c = 0xC7
      then with_rm bs (\<lambda>r l bs. do { (v, bs) \<leftarrow> imm_w byte bs; Some (XMov byte l (I v), bs) })
      else if c = 0xCD then do { (v, bs) \<leftarrow> imm_w True bs; Some (XInt v, bs) }
      else if c = 0xD0 \<or> c = 0xD1 then with_rm bs (\<lambda>r l bs. Some (XShift r byte l (Count 1), bs))
      else if c = 0xD2 \<or> c = 0xD3 then with_rm bs (\<lambda>r l bs. Some (XShift r byte l CL, bs))
      else if c = 0xE8 then do { (d, bs) \<leftarrow> take32 bs; Some (XCall (pc + 5 + d), bs) }
      else if c = 0xE9 then do { (d, bs) \<leftarrow> take32 bs; Some (XJmp (pc + 5 + d), bs) }
      else if c = 0xF6 \<or> c = 0xF7 then decode_f7 byte bs
      else if c = 0xFE \<or> c = 0xFF then decode_ff byte bs
      else if c = 0xC3 then Some (XPlain Ret, bs)
      else if c = 0xC9 then Some (XPlain Leave, bs)
      else if c = 0xF4 then Some (XPlain Hlt, bs)
      else None)"

definition decode :: "u32 \<Rightarrow> u8 list \<Rightarrow> (xinsn \<times> u8 list) option" where
  "decode pc bs = do {
     (b, bs) \<leftarrow> take8 bs;
     let c = (ucast b :: u32);
     if c = 0x0F then decode_0f pc bs
     else if c < 0x40 then decode_alu c bs
     else if c < 0x48 then Some (XInc False (R (c - 0x40)), bs)
     else if c < 0x50 then Some (XDec False (R (c - 0x48)), bs)
     else if c < 0x58 then Some (XPush (R (c - 0x50)), bs)
     else if c < 0x60 then Some (XPop (R (c - 0x58)), bs)
     else if c = 0x60 then Some (XPlain PushAll, bs)
     else if c = 0x61 then Some (XPlain PopAll, bs)
     else if c = 0x68 then do { (v, bs) \<leftarrow> imm_w False bs; Some (XPush (I v), bs) }
     else if c = 0x6A then do { (v, bs) \<leftarrow> imm_s8 bs; Some (XPush (I v), bs) }
     else if c = 0x69 then with_rm bs (\<lambda>r l bs. do { (v, bs) \<leftarrow> imm_w False bs; Some (XImul3 r l v, bs) })
     else if c = 0x6B then with_rm bs (\<lambda>r l bs. do { (v, bs) \<leftarrow> imm_s8 bs; Some (XImul3 r l v, bs) })
     else decode_block pc c bs
   }"

subsection \<open>The bytes of an encoding\<close>

text \<open>The bytes a list of emissions produces at the address \<open>pc\<close>.\<close>

fun emission_bytes :: "u32 \<Rightarrow> emission list \<Rightarrow> u8 list" where
  "emission_bytes pc [] = []"
| "emission_bytes pc (E8 b # es) = ucast b # emission_bytes (pc + 1) es"
| "emission_bytes pc (E32 v # es) = le32_bytes v @ emission_bytes (pc + 4) es"
| "emission_bytes pc (Rel e # es) = le32_bytes (e_val e - (pc + 4)) @ emission_bytes (pc + 4) es"
| "emission_bytes pc (Bad d # es) = emission_bytes pc es"

fun no_bad :: "emission list \<Rightarrow> bool" where
  "no_bad [] \<longleftrightarrow> True"
| "no_bad (Bad d # es) \<longleftrightarrow> False"
| "no_bad (e # es) \<longleftrightarrow> no_bad es"

subsection \<open>What an instruction means\<close>

definition loc_of :: "operand \<Rightarrow> loc" where
  "loc_of op =
     (case kind op of
        OP_REG \<Rightarrow> R (reg op)
      | OP_MEM \<Rightarrow> M (base op) (map_option (\<lambda>i. (i, scale op)) (index op)) (e_val (disp op))
      | _ \<Rightarrow> I (e_val (disp op)))"

text \<open>An operand as an instruction of a width reads it: a byte instruction takes the low byte of an immediate.\<close>

definition loc_w :: "bool \<Rightarrow> operand \<Rightarrow> loc" where
  "loc_w byte op = (if kind op = OP_IMM \<and> byte then I (e_val (disp op) AND 0xFF) else loc_of op)"


text \<open>
  The instruction a mnemonic with its operands in AT\&T order stands for: the destination is the last
  operand, register operands have the width \<open>sz\<close> of the instruction, and an absolute memory operand of a
  branch is its target.
\<close>

definition fit :: "nat \<Rightarrow> operand \<Rightarrow> bool" where
  "fit sz op \<longleftrightarrow> (kind op = OP_REG \<longrightarrow> op_size op = sz)"

definition alu_number :: "string \<Rightarrow> nat option" where
  "alu_number m = name_index m [''add'', ''or'', ''adc'', ''sbb'', ''and'', ''sub'', ''xor'', ''cmp'']"

definition unary_number :: "string \<Rightarrow> u32 option" where
  "unary_number m =
     map_of [(''not'', 2), (''neg'', 3), (''mul'', 4), (''imul'', 5), (''div'', 6), (''idiv'', 7)] m"

definition shift_number :: "string \<Rightarrow> u32 option" where
  "shift_number m = map_of [(''rol'', 0), (''ror'', 1), (''shl'', 4), (''sal'', 4), (''shr'', 5), (''sar'', 7)] m"

definition ext_flags :: "string \<Rightarrow> (bool \<times> bool) option" where
  "ext_flags m =
     map_of [(''movzbl'', (True, False)), (''movzwl'', (True, True)), (''movsbl'', (False, False)), (''movswl'', (False, True))] m"

definition cond_named :: "string \<Rightarrow> cond option" where
  "cond_named s =
     map_of [(''o'', Overflow), (''no'', NoOverflow), (''b'', Below), (''c'', Below), (''nae'', Below),
             (''ae'', AboveEq), (''nb'', AboveEq), (''nc'', AboveEq), (''e'', Equal), (''z'', Equal),
             (''ne'', NotEqual), (''nz'', NotEqual), (''be'', BelowEq), (''na'', BelowEq), (''a'', Above), (''nbe'', Above),
             (''s'', Negative), (''ns'', NoNegative), (''p'', ParityEven), (''np'', ParityOdd),
             (''l'', Less), (''nge'', Less), (''ge'', GreaterEq), (''nl'', GreaterEq),
             (''le'', LessEq), (''ng'', LessEq), (''g'', Greater), (''nle'', Greater)] s"

definition cond_after :: "string \<Rightarrow> string \<Rightarrow> cond option" where
  "cond_after p m = (if take (length p) m = p then cond_named (drop (length p) m) else None)"

definition plain_named :: "string \<Rightarrow> plain option" where
  "plain_named m =
     map_of [(''ret'', Ret), (''leave'', Leave), (''hlt'', Hlt), (''cdq'', Cdq), (''cltd'', Cdq), (''cwde'', Cwde), (''cwtl'', Cwde),
             (''pushal'', PushAll), (''pusha'', PushAll), (''popal'', PopAll), (''popa'', PopAll),
             (''pushfl'', PushFlags), (''pushf'', PushFlags), (''popfl'', PopFlags), (''popf'', PopFlags)] m"

definition only :: "bool \<Rightarrow> 'a \<Rightarrow> 'a option" where
  "only b x = (if b then Some x else None)"

definition meaning0 :: "string \<Rightarrow> xinsn option" where
  "meaning0 m = (if m = ''nop'' then Some (XXchg False {R 0}) else map_option XPlain (plain_named m))"

definition meaning1 :: "string \<Rightarrow> operand \<Rightarrow> nat \<Rightarrow> xinsn option" where
  "meaning1 m a sz =
     (if m = ''push'' then only (sz = 4 \<and> fit 4 a) (XPush (loc_of a))
      else if m = ''pop'' then only (sz = 4 \<and> fit 4 a) (XPop (loc_of a))
      else if m = ''inc'' then only (fit sz a) (XInc (sz = 1) (loc_of a))
      else if m = ''dec'' then only (fit sz a) (XDec (sz = 1) (loc_of a))
      else if m = ''int'' then Some (XInt (e_val (disp a) AND 0xFF))
      else if m = ''jmp'' then (if is_abs_mem a then Some (XJmp (e_val (disp a))) else only (fit 4 a) (XJmpInd (loc_of a)))
      else if m = ''call'' then (if is_abs_mem a then Some (XCall (e_val (disp a))) else only (fit 4 a) (XCallInd (loc_of a)))
      else case unary_number m of Some d \<Rightarrow> only (fit sz a) (XUnary d (sz = 1) (loc_of a))
      | None \<Rightarrow> case shift_number m of Some d \<Rightarrow> only (fit sz a) (XShift d (sz = 1) (loc_of a) (Count 1))
      | None \<Rightarrow> case cond_after ''j'' m of Some cc \<Rightarrow> only (is_abs_mem a) (XJcc cc (e_val (disp a)))
      | None \<Rightarrow> case cond_after ''set'' m of Some cc \<Rightarrow> only (fit 1 a) (XSet cc (loc_of a))
      | None \<Rightarrow> None)"

definition count_of :: "operand \<Rightarrow> count" where
  "count_of a = (if kind a = OP_IMM then Count (e_val (disp a) AND 0xFF) else CL)"

definition meaning2 :: "string \<Rightarrow> operand \<Rightarrow> operand \<Rightarrow> nat \<Rightarrow> xinsn option" where
  "meaning2 m src dst sz =
     (let byte = (sz = 1); ok = (fit sz src \<and> fit sz dst) in
      if m = ''mov'' then only ok (XMov byte (loc_of dst) (loc_w byte src))
      else if m = ''test'' then only ok (XTest byte {loc_of dst, loc_w byte src})
      else if m = ''xchg'' then only ok (XXchg byte {loc_of dst, loc_of src})
      else if m = ''lea'' then only (sz = 4 \<and> fit 4 dst) (XLea (reg dst) (loc_of src))
      else if m = ''imul'' then only (sz = 4 \<and> ok) (XImul (reg dst) (loc_of src))
      else case alu_number m of Some g \<Rightarrow> only ok (XAlu (of_nat g) byte (loc_of dst) (loc_w byte src))
      | None \<Rightarrow> case shift_number m of Some d \<Rightarrow> only (fit 1 src \<and> fit sz dst) (XShift d byte (loc_of dst) (count_of src))
      | None \<Rightarrow> case ext_flags m of Some (z, w) \<Rightarrow> only (fit 4 dst \<and> fit (if w then 2 else 1) src) (XMovx z w (reg dst) (loc_of src))
      | None \<Rightarrow> case cond_after ''cmov'' m of Some cc \<Rightarrow> only (sz = 4 \<and> ok) (XCmov cc (reg dst) (loc_of src))
      | None \<Rightarrow> None)"

definition meaning :: "string \<Rightarrow> operand list \<Rightarrow> nat \<Rightarrow> xinsn option" where
  "meaning m ops sz =
     (case ops of
        [] \<Rightarrow> meaning0 m
      | [a] \<Rightarrow> meaning1 m a sz
      | [a, b] \<Rightarrow> meaning2 m a b sz
      | [a, b, c] \<Rightarrow> only (m = ''imul'' \<and> kind a = OP_IMM \<and> kind c = OP_REG \<and> sz = 4 \<and> fit 4 b \<and> fit 4 c)
                       (XImul3 (reg c) (loc_of b) (e_val (disp a)))
      | _ \<Rightarrow> None)"

text \<open>
  The forms with one meaning: register operands have the width the instruction gives to them, in AT\&T order;
  the instructions that exist here in their 32-bit form only are 32 bits wide; a conditional jump has an address;
  an instruction without operands has none. The assembler does not check these (\<open>accepted_forms\<close> in AsmRound).
\<close>

definition reg_sizes :: "string \<Rightarrow> nat \<Rightarrow> nat \<Rightarrow> nat list" where
  "reg_sizes m n sz =
     (case ext_flags m of Some (z, w) \<Rightarrow> [if w then 2 else 1, 4]
      | None \<Rightarrow> if cond_after ''set'' m \<noteq> None then [1]
      else if shift_number m \<noteq> None \<and> n = 2 then [1, sz]
      else replicate n (if m = ''jmp'' \<or> m = ''call'' then 4 else sz))"

definition form_ok :: "string \<Rightarrow> operand list \<Rightarrow> nat \<Rightarrow> bool" where
  "form_ok m ops sz \<longleftrightarrow>
     list_all2 fit (reg_sizes m (length ops) sz) ops \<and>
     (m \<in> {''push'', ''pop'', ''lea'', ''imul'', ''xchg''} \<or> cond_after ''cmov'' m \<noteq> None \<longrightarrow> sz = 4) \<and>
     (cond_after ''j'' m \<noteq> None \<longrightarrow> list_all is_abs_mem ops) \<and>
     (m = ''nop'' \<or> plain_named m \<noteq> None \<longrightarrow> ops = [])"

subsection \<open>Decoding a ModRM encoding\<close>

text \<open>What \<open>parse_operand\<close> promises of an operand.\<close>

definition op_ok :: "operand \<Rightarrow> bool" where
  "op_ok op \<longleftrightarrow>
     (case kind op of
        OP_NONE \<Rightarrow> False
      | OP_REG \<Rightarrow> reg op < 8 \<and> op_size op \<in> {1, 2, 4}
      | OP_IMM \<Rightarrow> True
      | OP_MEM \<Rightarrow> (\<forall>b \<in> set_option (base op). b < 8) \<and> (\<forall>i \<in> set_option (index op). i < 8 \<and> i \<noteq> 4))"

lemma below8: "(x :: u32) < 8 \<longleftrightarrow> x \<in> {0, 1, 2, 3, 4, 5, 6, 7}"
proof
  assume "x < 8"
  then have "unat x < 8" by (simp add: word_less_nat_alt)
  then show "x \<in> {0, 1, 2, 3, 4, 5, 6, 7}" by (auto simp: word_unat_eq_iff)
qed auto

lemma below8_cases: "(x :: u32) < 8 \<Longrightarrow> P 0 \<Longrightarrow> P 1 \<Longrightarrow> P 2 \<Longrightarrow> P 3 \<Longrightarrow> P 4 \<Longrightarrow> P 5 \<Longrightarrow> P 6 \<Longrightarrow> P 7 \<Longrightarrow> P x"
  unfolding below8 by auto

lemma and7_below8 [simp]: "(x :: u32) AND 7 < 8"
  by (rule le_less_trans [OF word_and_le1]) simp

lemma and7_id [simp]: "(x :: u32) < 8 \<Longrightarrow> x AND 7 = x"
  unfolding below8 by auto

lemma bit_below: "(x :: u32) < 2 ^ k \<Longrightarrow> k < 32 \<Longrightarrow> bit x n \<Longrightarrow> n < k"
  by (metis bit_take_bit_iff less_mask_eq take_bit_eq_mask)

lemma fields_fields:
  assumes "a < 4" "b < 8" "c < 8"
  shows "top2 (ucast (fields a b c)) = a" "mid3 (ucast (fields a b c)) = b" "low3 (ucast (fields a b c)) = c"
proof -
  have bits: "bit a n \<Longrightarrow> n < 2" "bit b n \<Longrightarrow> n < 3" "bit c n \<Longrightarrow> n < 3" for n
    using bit_below [of a 2] bit_below [of b 3] bit_below [of c 3] assms by auto
  have 7: "(7 :: u32) = mask 3" by (simp add: mask_eq_exp_minus_1)
  show "top2 (ucast (fields a b c)) = a" "mid3 (ucast (fields a b c)) = b" "low3 (ucast (fields a b c)) = c"
    unfolding top2_def mid3_def low3_def fields_def 7
    by (rule bit_word_eqI, auto simp: bit_simps dest: bits)+
qed

lemma fields_reg: "0xC0 OR push_bit 3 r OR b = fields 3 r b" "push_bit 3 r OR b = fields 0 r b"
  by (simp_all add: fields_def or.assoc)

lemma take8_Cons [simp]: "take8 (b # bs) = Some (b, bs)"
  by (simp add: take8_def)

lemma take32_bytes [simp]: "take32 (le32_bytes v @ bs) = Some (v, bs)"
  using le32_le32_bytes [of v] by (simp add: take32_def le32_def nth_append)

lemma low_byte: "(ucast (v AND 0xFF :: u32) :: u8) = ucast v"
proof -
  have m: "(0xFF :: u32) = mask 8" by (simp add: mask_eq_exp_minus_1)
  show ?thesis unfolding m by (rule bit_word_eqI) (auto simp: bit_simps)
qed

text \<open>A value that fits eight signed bits comes back from its low byte by sign extension.\<close>

lemma scast_low_byte:
  assumes "sint v \<ge> -128" "sint (v :: u32) \<le> 127"
  shows "scast (ucast v :: u8) = v"
proof -
  have "scast (ucast v :: u8) = (scast (scast v :: u8) :: u32)" by (subst down_cast_same) (simp_all add: is_down)
  also have "\<dots> = word_of_int (signed_take_bit 7 (sint v))"
    by (simp only: scast_eq sint_sbintrunc') simp
  also have "\<dots> = v" using assms by (simp add: signed_take_bit_int_eq_self)
  finally show ?thesis .
qed

lemma emission_bytes_append:
  "\<exists>pc'. emission_bytes pc (es @ fs) = emission_bytes pc es @ emission_bytes pc' fs"
  by (induction pc es rule: emission_bytes.induct) auto

lemma no_bad_append [simp]: "no_bad (es @ fs) \<longleftrightarrow> no_bad es \<and> no_bad fs"
  by (induction es rule: no_bad.induct) auto

lemma scale_bits_ok:
  assumes "no_bad (snd (scale_bits s))"
  shows "snd (scale_bits s) = []" "fst (scale_bits s) < 4" "push_bit (unat (fst (scale_bits s))) 1 = s"
  using assms by (auto simp: scale_bits_def split: if_splits)

lemma disp_mod_cases: "disp_mod op b = 0 \<and> e_val (disp op) = 0 \<and> b \<noteq> 5 \<or>
    disp_mod op b = 1 \<and> scast (ucast (e_val (disp op)) :: u8) = e_val (disp op) \<or> disp_mod op b = 2"
  by (auto simp: disp_mod_def scast_low_byte)

lemma take_disp_mod:
  "take_disp (disp_mod op b)
     (emission_bytes pc (if disp_mod op b = 1 then [E8 (e_val (disp op) AND 0xFF)]
                         else if disp_mod op b = 2 then [E32 (e_val (disp op))] else []) @ rest) =
   Some (e_val (disp op), rest)"
  using disp_mod_cases [of op b] by (auto simp: take_disp_def low_byte)

lemma disp_mod_small: "disp_mod op b < 4" "disp_mod op b \<noteq> 3" "disp_mod op b = 0 \<Longrightarrow> b \<noteq> 5"
  using disp_mod_cases [of op b] by auto

lemma decode_emit_modrm_core:
  assumes "op_ok op" "no_bad (emit_modrm r op)"
  shows "decode_modrm (emission_bytes pc (emit_modrm r op) @ rest) = Some (r AND 7, loc_of op, rest)"
proof (cases "kind op")
  case OP_REG
  then show ?thesis
    using assms fields_fields [of 3 "r AND 7" "reg op"]
    by (simp add: emit_modrm_def decode_modrm_def op_ok_def fields_reg(1) loc_of_def Let_def)
next
  case OP_MEM
  show ?thesis
  proof (cases "base op")
    case None
    show ?thesis
    proof (cases "index op")
      case None
      then show ?thesis
        using \<open>base op = None\<close> OP_MEM fields_fields [of 0 "r AND 7" 5]
        by (simp add: emit_modrm_def decode_modrm_def fields_reg(2) loc_of_def Let_def)
    next
      case (Some i)
      then have i: "i < 8" "i \<noteq> 4" using assms OP_MEM by (auto simp: op_ok_def)
      have s: "no_bad (snd (scale_bits (scale op)))"
        using assms(2) OP_MEM \<open>base op = None\<close> Some by (simp add: emit_modrm_def sib_def case_prod_unfold Let_def)
      show ?thesis
        using \<open>base op = None\<close> OP_MEM Some i scale_bits_ok [OF s] fields_fields [of 0 "r AND 7" 4]
          fields_fields [of "fst (scale_bits (scale op))" i 5]
        by (simp add: emit_modrm_def decode_modrm_def fields_reg(2) loc_of_def Let_def sib_def case_prod_unfold)
    qed
  next
    case (Some b)
    then have b: "b < 8" using assms OP_MEM by (auto simp: op_ok_def)
    let ?md = "disp_mod op b" and ?i = "case index op of None \<Rightarrow> 4 | Some i \<Rightarrow> i"
    let ?d = "if ?md = 1 then [E8 (e_val (disp op) AND 0xFF)] else if ?md = 2 then [E32 (e_val (disp op))] else []"
    note md = disp_mod_small [of op b] take_disp_mod [of op b]
    have i: "?i < 8" "(?i = 4) = (index op = None)"
      using assms(1) OP_MEM by (auto simp: op_ok_def split: option.splits)
    show ?thesis
    proof (cases "index op \<noteq> None \<or> b = 4")
      case True
      then have e: "emit_modrm r op = E8 (fields ?md (r AND 7) 4) # sib (scale op) ?i b @ ?d"
        using OP_MEM Some by (simp add: emit_modrm_def Let_def)
      then have s: "no_bad (snd (scale_bits (scale op)))"
        using assms(2) by (simp add: sib_def case_prod_unfold Let_def)
      show ?thesis
        using i md Some OP_MEM scale_bits_ok [OF s] fields_fields [of ?md "r AND 7" 4]
          fields_fields [OF scale_bits_ok(2) [OF s] i(1) b]
        by (auto simp: e decode_modrm_def loc_of_def Let_def sib_def case_prod_unfold split: option.splits)
    next
      case False
      then have e: "emit_modrm r op = E8 (fields ?md (r AND 7) b) # ?d"
        using OP_MEM Some by (simp add: emit_modrm_def Let_def)
      then show ?thesis
        using False md Some OP_MEM fields_fields [of ?md "r AND 7" b] b
        by (auto simp: decode_modrm_def loc_of_def Let_def)
    qed
  qed
qed (use assms in \<open>simp_all add: emit_modrm_def\<close>)

end
