(* ===== verification/AsmRound.thy ===== *)
theory AsmRound
  imports AsmDecode
begin

text \<open>
  The encodings of the assembler decode to the instructions they stand for: one lemma for each group of
  \<open>asm_insn\<close>, then the round trip for a whole instruction.
\<close>

lemma with_rm_emit:
  assumes "op_ok op" "no_bad (emit_modrm r op)"
  shows "with_rm (emission_bytes pc (emit_modrm r op) @ rest) f = f (r AND 7) (loc_of op) rest"
    "with_rm (emission_bytes pc (emit_modrm r op @ [imm8 a]) @ rest) f = f (r AND 7) (loc_of op) (ucast (e_val (disp a)) # rest)"
    "with_rm (emission_bytes pc (emit_modrm r op @ [imm32 a]) @ rest) f =
       f (r AND 7) (loc_of op) (le32_bytes (e_val (disp a)) @ rest)"
proof -
  obtain p q where
    "emission_bytes pc (emit_modrm r op @ [imm8 a]) = emission_bytes pc (emit_modrm r op) @ emission_bytes p [imm8 a]"
    "emission_bytes pc (emit_modrm r op @ [imm32 a]) = emission_bytes pc (emit_modrm r op) @ emission_bytes q [imm32 a]"
    using emission_bytes_append by metis
  then show "with_rm (emission_bytes pc (emit_modrm r op) @ rest) f = f (r AND 7) (loc_of op) rest"
    "with_rm (emission_bytes pc (emit_modrm r op @ [imm8 a]) @ rest) f = f (r AND 7) (loc_of op) (ucast (e_val (disp a)) # rest)"
    "with_rm (emission_bytes pc (emit_modrm r op @ [imm32 a]) @ rest) f =
       f (r AND 7) (loc_of op) (le32_bytes (e_val (disp a)) @ rest)"
    by (simp_all add: with_rm_def decode_emit_modrm_core [OF assms] imm8_def imm32_def low_byte)
qed

lemma emission_bytes_imm [simp]:
  "emission_bytes pc (imm8 a # es) = ucast (e_val (disp a)) # emission_bytes (pc + 1) es"
  "emission_bytes pc (imm32 a # es) = le32_bytes (e_val (disp a)) @ emission_bytes (pc + 4) es"
  by (simp_all add: imm8_def imm32_def low_byte)

lemma no_bad_imm [simp]: "no_bad (imm8 a # es) = no_bad es" "no_bad (imm32 a # es) = no_bad es"
  by (simp_all add: imm8_def imm32_def)

lemma imm_w_bytes [simp]:
  "imm_w True (ucast v # rest) = Some (v AND 0xFF, rest)"
  "imm_w False (le32_bytes v @ rest) = Some (v, rest)"
proof -
  have m: "(0xFF :: u32) = mask 8" by (simp add: mask_eq_exp_minus_1)
  have "(ucast (ucast v :: u8) :: u32) = v AND 0xFF" unfolding m by (rule bit_word_eqI) (auto simp: bit_simps)
  then show "imm_w True (ucast v # rest) = Some (v AND 0xFF, rest)" "imm_w False (le32_bytes v @ rest) = Some (v, rest)"
    by (simp_all add: imm_w_def)
qed

lemma imm_s8_bytes: "imm_fits8 a \<Longrightarrow> imm_s8 (ucast (e_val (disp a)) # rest) = Some (e_val (disp a), rest)"
  by (simp add: imm_s8_def imm_fits8_def scast_low_byte)

text \<open>The kinds of operand that can stand in each place.\<close>

lemma no_bad_rm: "no_bad (emit_modrm r op) \<Longrightarrow> kind op = OP_REG \<or> kind op = OP_MEM"
  by (cases "kind op") (auto simp: emit_modrm_def)

lemma loc_kinds:
  "kind op = OP_REG \<Longrightarrow> loc_of op = R (reg op)"
  "kind op = OP_IMM \<Longrightarrow> loc_of op = I (e_val (disp op))"
  "is_abs_mem op \<Longrightarrow> loc_of op = M None None (e_val (disp op))"
  "is_acc op \<Longrightarrow> loc_of op = R 0"
  "kind op \<noteq> OP_IMM \<Longrightarrow> loc_w byte op = loc_of op"
  "kind op = OP_IMM \<Longrightarrow> loc_w True op = I (e_val (disp op) AND 0xFF)"
  "loc_w False op = loc_of op"
  by (auto simp: loc_of_def loc_w_def is_acc_def is_abs_mem_def)

lemma reg_ok: "op_ok op \<Longrightarrow> kind op = OP_REG \<Longrightarrow> reg op < 8"
  by (simp add: op_ok_def)

lemma decode_op [simp]:
  "decode pc (0xF # bs) = decode_0f pc bs"
  "decode pc (0x60 # bs) = Some (XPlain PushAll, bs)"
  "decode pc (0x61 # bs) = Some (XPlain PopAll, bs)"
  "decode pc (0x98 # bs) = Some (XPlain Cwde, bs)"
  "decode pc (0x99 # bs) = Some (XPlain Cdq, bs)"
  "decode pc (0x9C # bs) = Some (XPlain PushFlags, bs)"
  "decode pc (0x9D # bs) = Some (XPlain PopFlags, bs)"
  "decode pc (0xC3 # bs) = Some (XPlain Ret, bs)"
  "decode pc (0xC9 # bs) = Some (XPlain Leave, bs)"
  "decode pc (0xF4 # bs) = Some (XPlain Hlt, bs)"
  "decode pc (0x68 # bs) = do { (v, bs) \<leftarrow> imm_w False bs; Some (XPush (I v), bs) }"
  "decode pc (0x6A # bs) = do { (v, bs) \<leftarrow> imm_s8 bs; Some (XPush (I v), bs) }"
  "decode pc (0x69 # bs) = with_rm bs (\<lambda>r l bs. do { (v, bs) \<leftarrow> imm_w False bs; Some (XImul3 r l v, bs) })"
  "decode pc (0x6B # bs) = with_rm bs (\<lambda>r l bs. do { (v, bs) \<leftarrow> imm_s8 bs; Some (XImul3 r l v, bs) })"
  "decode pc (0x80 # bs) = with_rm bs (\<lambda>r l bs. do { (v, bs) \<leftarrow> imm_w True bs; Some (XAlu r True l (I v), bs) })"
  "decode pc (0x81 # bs) = with_rm bs (\<lambda>r l bs. do { (v, bs) \<leftarrow> imm_w False bs; Some (XAlu r False l (I v), bs) })"
  "decode pc (0x83 # bs) = with_rm bs (\<lambda>r l bs. do { (v, bs) \<leftarrow> imm_s8 bs; Some (XAlu r False l (I v), bs) })"
  "decode pc (0x84 # bs) = with_rm bs (\<lambda>r l bs. Some (XTest True {l, R r}, bs))"
  "decode pc (0x85 # bs) = with_rm bs (\<lambda>r l bs. Some (XTest False {l, R r}, bs))"
  "decode pc (0x86 # bs) = with_rm bs (\<lambda>r l bs. Some (XXchg True {l, R r}, bs))"
  "decode pc (0x87 # bs) = with_rm bs (\<lambda>r l bs. Some (XXchg False {l, R r}, bs))"
  "decode pc (0x88 # bs) = with_rm bs (\<lambda>r l bs. Some (XMov True l (R r), bs))"
  "decode pc (0x89 # bs) = with_rm bs (\<lambda>r l bs. Some (XMov False l (R r), bs))"
  "decode pc (0x8A # bs) = with_rm bs (\<lambda>r l bs. Some (XMov True (R r) l, bs))"
  "decode pc (0x8B # bs) = with_rm bs (\<lambda>r l bs. Some (XMov False (R r) l, bs))"
  "decode pc (0x8D # bs) = with_rm bs (\<lambda>r l bs. Some (XLea r l, bs))"
  "decode pc (0x8F # bs) = with_rm bs (\<lambda>r l bs. Some (XPop l, bs))"
  "decode pc (0x90 # bs) = Some (XXchg False {R 0}, bs)"
  "decode pc (0xA0 # bs) = do { (v, bs) \<leftarrow> take32 bs; Some (XMov True (R 0) (M None None v), bs) }"
  "decode pc (0xA1 # bs) = do { (v, bs) \<leftarrow> take32 bs; Some (XMov False (R 0) (M None None v), bs) }"
  "decode pc (0xA2 # bs) = do { (v, bs) \<leftarrow> take32 bs; Some (XMov True (M None None v) (R 0), bs) }"
  "decode pc (0xA3 # bs) = do { (v, bs) \<leftarrow> take32 bs; Some (XMov False (M None None v) (R 0), bs) }"
  "decode pc (0xA8 # bs) = do { (v, bs) \<leftarrow> imm_w True bs; Some (XTest True {R 0, I v}, bs) }"
  "decode pc (0xA9 # bs) = do { (v, bs) \<leftarrow> imm_w False bs; Some (XTest False {R 0, I v}, bs) }"
  "decode pc (0xC0 # bs) = with_rm bs (\<lambda>r l bs. do { (v, bs) \<leftarrow> imm_w True bs; Some (XShift r True l (Count v), bs) })"
  "decode pc (0xC1 # bs) = with_rm bs (\<lambda>r l bs. do { (v, bs) \<leftarrow> imm_w True bs; Some (XShift r False l (Count v), bs) })"
  "decode pc (0xC6 # bs) = with_rm bs (\<lambda>r l bs. do { (v, bs) \<leftarrow> imm_w True bs; Some (XMov True l (I v), bs) })"
  "decode pc (0xC7 # bs) = with_rm bs (\<lambda>r l bs. do { (v, bs) \<leftarrow> imm_w False bs; Some (XMov False l (I v), bs) })"
  "decode pc (0xCD # bs) = do { (v, bs) \<leftarrow> imm_w True bs; Some (XInt v, bs) }"
  "decode pc (0xD0 # bs) = with_rm bs (\<lambda>r l bs. Some (XShift r True l (Count 1), bs))"
  "decode pc (0xD1 # bs) = with_rm bs (\<lambda>r l bs. Some (XShift r False l (Count 1), bs))"
  "decode pc (0xD2 # bs) = with_rm bs (\<lambda>r l bs. Some (XShift r True l CL, bs))"
  "decode pc (0xD3 # bs) = with_rm bs (\<lambda>r l bs. Some (XShift r False l CL, bs))"
  "decode pc (0xE8 # bs) = do { (v, bs) \<leftarrow> take32 bs; Some (XCall (pc + 5 + v), bs) }"
  "decode pc (0xE9 # bs) = do { (v, bs) \<leftarrow> take32 bs; Some (XJmp (pc + 5 + v), bs) }"
  "decode pc (0xF6 # bs) = decode_f7 True bs"
  "decode pc (0xF7 # bs) = decode_f7 False bs"
  "decode pc (0xFE # bs) = decode_ff True bs"
  "decode pc (0xFF # bs) = decode_ff False bs"
  by (simp_all add: decode_def decode_block_def Let_def)

lemma decode_alu_op:
  assumes "g < 8"
  shows "decode pc (ucast (8 * g) # bs) = with_rm bs (\<lambda>r l bs. Some (XAlu g True l (R r), bs))"
    "decode pc (ucast (8 * g + 1) # bs) = with_rm bs (\<lambda>r l bs. Some (XAlu g False l (R r), bs))"
    "decode pc (ucast (8 * g + 2) # bs) = with_rm bs (\<lambda>r l bs. Some (XAlu g True (R r) l, bs))"
    "decode pc (ucast (8 * g + 3) # bs) = with_rm bs (\<lambda>r l bs. Some (XAlu g False (R r) l, bs))"
    "decode pc (ucast (8 * g + 4) # bs) = do { (v, bs) \<leftarrow> imm_w True bs; Some (XAlu g True (R 0) (I v), bs) }"
    "decode pc (ucast (8 * g + 5) # bs) = do { (v, bs) \<leftarrow> imm_w False bs; Some (XAlu g False (R 0) (I v), bs) }"
  by (rule below8_cases [OF assms]; simp add: decode_def decode_alu_def Let_def)+

lemma decode_reg_op:
  assumes "r < 8"
  shows "decode pc (ucast (0x40 + r) # bs) = Some (XInc False (R r), bs)"
    "decode pc (ucast (0x48 + r) # bs) = Some (XDec False (R r), bs)"
    "decode pc (ucast (0x50 + r) # bs) = Some (XPush (R r), bs)"
    "decode pc (ucast (0x58 + r) # bs) = Some (XPop (R r), bs)"
    "decode pc (ucast (0x90 + r) # bs) = Some (XXchg False {R 0, R r}, bs)"
    "decode pc (ucast (0xB0 + r) # bs) = do { (v, bs) \<leftarrow> imm_w True bs; Some (XMov True (R r) (I v), bs) }"
    "decode pc (ucast (0xB8 + r) # bs) = do { (v, bs) \<leftarrow> imm_w False bs; Some (XMov False (R r) (I v), bs) }"
  by (rule below8_cases [OF assms]; simp add: decode_def decode_block_def Let_def)+

lemma decode_cc:
  assumes "c < 16"
  shows "decode_0f pc (ucast (0x40 + c) # bs) = with_rm bs (\<lambda>r l bs. Some (XCmov (cond_of c) r l, bs))"
    "decode_0f pc (ucast (0x80 + c) # bs) = do { (d, bs) \<leftarrow> take32 bs; Some (XJcc (cond_of c) (pc + 6 + d), bs) }"
    "decode_0f pc (ucast (0x90 + c) # bs) = with_rm bs (\<lambda>r l bs. Some (XSet (cond_of c) l, bs))"
proof -
  have n: "unat c < 16" using assms by (simp add: word_less_nat_alt)
  have u: "ucast (ucast (k + c) :: u8) = k + c" "k \<le> k + c" "k + c < k + 16" if k: "k \<in> {0x40, 0x80, 0x90}" for k :: u32
  proof -
    have "unat (k + c) = unat k + unat c" "unat (k + 16) = unat k + 16" using n k by (auto simp: unat_add32)
    then show "k \<le> k + c" "k + c < k + 16" "ucast (ucast (k + c) :: u8) = k + c" 
      using n k by (auto simp: word_le_nat_alt word_less_nat_alt unsigned_ucast_eq take_bit_eq_mod unat_mod word_unat_eq_iff)
  qed
  show "decode_0f pc (ucast (0x40 + c) # bs) = with_rm bs (\<lambda>r l bs. Some (XCmov (cond_of c) r l, bs))"
    "decode_0f pc (ucast (0x80 + c) # bs) = do { (d, bs) \<leftarrow> take32 bs; Some (XJcc (cond_of c) (pc + 6 + d), bs) }"
    "decode_0f pc (ucast (0x90 + c) # bs) = with_rm bs (\<lambda>r l bs. Some (XSet (cond_of c) l, bs))"
    using u [of "0x40"] u [of "0x80"] u [of "0x90"]
    by (auto simp: decode_0f_def Let_def word_le_nat_alt word_less_nat_alt)
qed


subsection \<open>The groups\<close>

lemma alu_digit:
  assumes "map_of alu_ops m = Some (opc, digit)"
  shows "alu_number m = Some (unat digit)" "opc = 8 * digit" "digit < 8"
  using assms by (auto simp: alu_ops_def alu_number_def split: if_splits)

lemma decode_asm_alu:
  assumes m: "map_of alu_ops m = Some (opc, digit)" and ok: "op_ok a" "op_ok b"
    and nb: "no_bad (asm_alu m opc digit [a, b] sz)" and sz: "sz = 1 \<or> sz = 4"
  shows "decode pc (emission_bytes pc (asm_alu m opc digit [a, b] sz) @ rest) =
    Some (XAlu digit (sz = 1) (loc_of b) (loc_w (sz = 1) a), rest)"
proof -
  note d = alu_digit [OF m]
  note dec = decode_alu_op [OF d(3)] with_rm_emit loc_kinds imm_s8_bytes d(2,3)
  show ?thesis
  proof (cases "kind a")
    case OP_IMM
    show ?thesis
    proof (cases "is_acc b")
      case True
      with OP_IMM nb sz ok show ?thesis by (auto simp: asm_alu_def Let_def dec split: if_splits)
    next
      case False
      with OP_IMM nb sz ok show ?thesis by (auto simp: asm_alu_def Let_def dec split: if_splits)
    qed
  next
    case OP_REG
    with nb sz ok show ?thesis by (auto simp: asm_alu_def Let_def dec reg_ok)
  next
    case OP_MEM
    with nb sz ok show ?thesis by (auto simp: asm_alu_def Let_def dec reg_ok bad_def split: if_splits)
  qed (use ok in \<open>simp add: op_ok_def\<close>)
qed


lemma decode_asm_mov:
  assumes ok: "op_ok a" "op_ok b" and nb: "no_bad (asm_mov m [a, b] sz)" and sz: "sz = 1 \<or> sz = 4"
  shows "decode pc (emission_bytes pc (asm_mov m [a, b] sz) @ rest) =
    Some (XMov (sz = 1) (loc_of b) (loc_w (sz = 1) a), rest)"
proof -
  note dec = decode_reg_op [OF reg_ok] with_rm_emit loc_kinds reg_ok
  consider (load) "is_abs_mem a" "is_acc b" | (store) "is_acc a" "is_abs_mem b"
    | (other) "\<not> (is_abs_mem a \<and> is_acc b)" "\<not> (is_acc a \<and> is_abs_mem b)" by blast
  then show ?thesis
  proof cases
    case load
    moreover have "kind a \<noteq> OP_IMM" using load by (simp add: is_abs_mem_def)
    ultimately show ?thesis using sz by (auto simp: asm_mov_def Let_def dec)
  next
    case store
    moreover have "kind a \<noteq> OP_IMM" "\<not> is_abs_mem a" using store by (auto simp: is_acc_def is_abs_mem_def)
    ultimately show ?thesis using sz by (auto simp: asm_mov_def Let_def dec)
  next
    case other
    show ?thesis
    proof (cases "kind a")
      case OP_IMM
      with other nb sz ok show ?thesis by (auto simp: asm_mov_def Let_def dec split: if_splits)
    next
      case OP_REG
      with other nb sz ok show ?thesis by (auto simp: asm_mov_def Let_def dec)
    next
      case OP_MEM
      with other nb sz ok show ?thesis by (auto simp: asm_mov_def Let_def dec bad_def split: if_splits)
    qed (use ok in \<open>simp add: op_ok_def\<close>)
  qed
qed

lemma decode_asm_test:
  assumes ok: "op_ok a" "op_ok b" and nb: "no_bad (asm_test m [a, b] sz)" and sz: "sz = 1 \<or> sz = 4"
  shows "decode pc (emission_bytes pc (asm_test m [a, b] sz) @ rest) =
    Some (XTest (sz = 1) {loc_of b, loc_w (sz = 1) a}, rest)"
proof -
  note dec = with_rm_emit loc_kinds reg_ok decode_f7_def
  show ?thesis
  proof (cases "kind a")
    case OP_IMM
    with nb sz ok show ?thesis by (auto simp: asm_test_def Let_def dec split: if_splits)
  next
    case OP_REG
    with nb sz ok show ?thesis by (auto simp: asm_test_def Let_def dec)
  next
    case OP_MEM
    with nb sz ok show ?thesis by (auto simp: asm_test_def Let_def dec bad_def split: if_splits)
  qed (use ok in \<open>simp add: op_ok_def\<close>)
qed

lemma decode_asm_xchg:
  assumes ok: "op_ok a" "op_ok b" and nb: "no_bad (asm_xchg m [a, b] 4)"
  shows "decode pc (emission_bytes pc (asm_xchg m [a, b] 4) @ rest) = Some (XXchg False {loc_of b, loc_of a}, rest)"
proof -
  note dec = decode_reg_op [OF reg_ok] with_rm_emit loc_kinds reg_ok
  show ?thesis
    using ok nb by (auto simp: asm_xchg_def Let_def dec bad_def insert_commute split: if_splits)
qed

lemma decode_asm_push:
  assumes ok: "op_ok a" and nb: "no_bad (asm_push m [a])"
  shows "decode pc (emission_bytes pc (asm_push m [a]) @ rest) = Some (XPush (loc_of a), rest)"
  using ok nb
  by (auto simp: asm_push_def Let_def decode_reg_op [OF reg_ok] with_rm_emit loc_kinds reg_ok imm_s8_bytes decode_ff_def split: if_splits)

lemma decode_asm_pop:
  assumes ok: "op_ok a" and nb: "no_bad (asm_pop m [a])"
  shows "decode pc (emission_bytes pc (asm_pop m [a]) @ rest) = Some (XPop (loc_of a), rest)"
  using ok nb by (auto simp: asm_pop_def Let_def decode_reg_op [OF reg_ok] with_rm_emit loc_kinds split: if_splits)

lemma decode_asm_incdec:
  assumes ok: "op_ok a" and nb: "no_bad (asm_incdec m [a] sz)" and sz: "sz = 1 \<or> sz = 4"
  shows "decode pc (emission_bytes pc (asm_incdec m [a] sz) @ rest) =
    Some (if m ! 0 = CHR ''d'' then XDec (sz = 1) (loc_of a) else XInc (sz = 1) (loc_of a), rest)"
  using ok nb sz
  by (auto simp: asm_incdec_def Let_def decode_reg_op [OF reg_ok] with_rm_emit loc_kinds decode_ff_def split: if_splits)

lemma decode_f7_digit:
  assumes "op_ok a" "no_bad (emit_modrm d a)" "d < 8" "2 \<le> d"
  shows "decode_f7 byte (emission_bytes pc (emit_modrm d a) @ rest) = Some (XUnary d byte (loc_of a), rest)"
  using assms by (auto simp: decode_f7_def with_rm_emit not_less [symmetric])

lemma unary_digit_number: "unary_digit m = Some d \<Longrightarrow> unary_number m = Some d \<and> d < 8 \<and> 2 \<le> d"
  by (auto simp: unary_digit_def unary_number_def split: if_splits)

lemma decode_asm_unary:
  assumes ok: "op_ok a" and nb: "no_bad (asm_unary m d [a] sz)" and sz: "sz = 1 \<or> sz = 4" and d: "d < 8" "2 \<le> d"
  shows "decode pc (emission_bytes pc (asm_unary m d [a] sz) @ rest) = Some (XUnary d (sz = 1) (loc_of a), rest)"
  using ok nb sz d by (auto simp: asm_unary_def decode_f7_digit)

lemma shift_digit_number: "shift_digit m = Some d \<Longrightarrow> shift_number m = Some d \<and> d < 8"
  by (auto simp: shift_digit_def shift_number_def split: if_splits)

lemma decode_asm_shift1:
  assumes ok: "op_ok a" and nb: "no_bad (asm_shift d [a] sz)" and sz: "sz = 1 \<or> sz = 4" and d: "d < 8"
  shows "decode pc (emission_bytes pc (asm_shift d [a] sz) @ rest) = Some (XShift d (sz = 1) (loc_of a) (Count 1), rest)"
  using ok nb sz d by (auto simp: asm_shift_def with_rm_emit)

lemma decode_asm_shift2:
  assumes ok: "op_ok a" "op_ok b" and nb: "no_bad (asm_shift d [a, b] sz)" and sz: "sz = 1 \<or> sz = 4" and d: "d < 8"
  shows "decode pc (emission_bytes pc (asm_shift d [a, b] sz) @ rest) =
    Some (XShift d (sz = 1) (loc_of b) (count_of a), rest)"
  using ok nb sz d by (auto simp: asm_shift_def with_rm_emit count_of_def bad_def split: if_splits)

lemma decode_asm_branch:
  assumes "op_ok a" "no_bad (asm_branch m opc d [a])" "opc = 0xE9 \<and> d = 4 \<or> opc = 0xE8 \<and> d = 2"
  shows "decode pc (emission_bytes pc (asm_branch m opc d [a]) @ rest) =
    Some (if is_abs_mem a then (if d = 4 then XJmp (e_val (disp a)) else XCall (e_val (disp a)))
          else if d = 4 then XJmpInd (loc_of a) else XCallInd (loc_of a), rest)"
  using assms by (auto simp: asm_branch_def with_rm_emit decode_ff_def)

lemma cc_lookup_small: "cc_lookup s = Some c \<Longrightarrow> c < 16"
  by (auto simp: cc_lookup_def cc_ops_def split: if_splits)

lemma cc_after_small: "cc_after p m = Some c \<Longrightarrow> c < 16"
  by (auto simp: cc_after_def dest: cc_lookup_small split: if_splits)

text \<open>The two tables of conditions agree.\<close>

lemma cc_lookup_cond: "cond_named s = map_option cond_of (cc_lookup s)"
  by (simp add: cc_lookup_def cc_ops_def cond_named_def cond_of_def)

lemma cond_after_cc: "cond_after p m = map_option cond_of (cc_after p m)"
  by (simp add: cond_after_def cc_after_def cc_lookup_cond)

lemma decode_asm_cc:
  assumes "op_ok a" "c < 16"
  shows "no_bad (asm_jcc m c [a]) \<Longrightarrow>
      decode pc (emission_bytes pc (asm_jcc m c [a]) @ rest) = Some (XJcc (cond_of c) (e_val (disp a)), rest)"
    "no_bad (asm_setcc m c [a]) \<Longrightarrow>
      decode pc (emission_bytes pc (asm_setcc m c [a]) @ rest) = Some (XSet (cond_of c) (loc_of a), rest)"
    "op_ok b \<Longrightarrow> no_bad (asm_cmov m c [a, b]) \<Longrightarrow>
      decode pc (emission_bytes pc (asm_cmov m c [a, b]) @ rest) = Some (XCmov (cond_of c) (reg b) (loc_of a), rest)"
  using assms
  by (auto simp: asm_jcc_def asm_setcc_def asm_cmov_def with_rm_emit decode_cc [OF assms(2)] bad_def reg_ok split: if_splits)


lemma decode_asm_extend:
  assumes "op_ok a" "op_ok b" "no_bad (asm_extend m [a, b])" "ext_flags m = Some (z, w)"
  shows "decode pc (emission_bytes pc (asm_extend m [a, b]) @ rest) = Some (XMovx z w (reg b) (loc_of a), rest)"
  using assms
  by (auto simp: asm_extend_def ext_flags_def with_rm_emit decode_0f_def Let_def bad_def reg_ok split: if_splits)

lemma decode_asm_lea:
  assumes "op_ok a" "op_ok b" "no_bad (asm_lea [a, b])"
  shows "decode pc (emission_bytes pc (asm_lea [a, b]) @ rest) = Some (XLea (reg b) (loc_of a), rest)"
  using assms by (auto simp: asm_lea_def with_rm_emit bad_def reg_ok split: if_splits)

lemma decode_asm_imul:
  assumes "op_ok a"
  shows "no_bad (asm_imul [a]) \<Longrightarrow>
      decode pc (emission_bytes pc (asm_imul [a]) @ rest) = Some (XUnary 5 False (loc_of a), rest)"
    "op_ok b \<Longrightarrow> no_bad (asm_imul [a, b]) \<Longrightarrow>
      decode pc (emission_bytes pc (asm_imul [a, b]) @ rest) = Some (XImul (reg b) (loc_of a), rest)"
    "op_ok b \<Longrightarrow> op_ok c \<Longrightarrow> no_bad (asm_imul [a, b, c]) \<Longrightarrow>
      decode pc (emission_bytes pc (asm_imul [a, b, c]) @ rest) = Some (XImul3 (reg c) (loc_of b) (e_val (disp a)), rest)"
  using assms
  by (auto simp: asm_imul_def with_rm_emit decode_f7_def decode_0f_def Let_def bad_def reg_ok imm_s8_bytes split: if_splits)

lemma decode_asm_plain:
  "plain_op m = Some b \<Longrightarrow> \<exists>x. meaning0 m = Some x \<and> decode pc (emission_bytes pc [E8 b] @ rest) = Some (x, rest)"
  by (auto simp: plain_op_def meaning0_def plain_named_def split: if_splits)

lemma plain_op_none: "plain_op m = None \<Longrightarrow> meaning0 m = None"
  by (auto simp: plain_op_def meaning0_def plain_named_def split: if_splits)

lemma decode_asm_int:
  "no_bad (asm_int [a]) \<Longrightarrow> decode pc (emission_bytes pc (asm_int [a]) @ rest) = Some (XInt (e_val (disp a) AND 0xFF), rest)"
  by (auto simp: asm_int_def bad_def split: if_splits)

subsection \<open>Whole instructions\<close>

text \<open>The mnemonics of a table, as far as the code tells them apart.\<close>

lemma only_Some [simp]: "only b x = Some y \<longleftrightarrow> b \<and> y = x"
  by (auto simp: only_def)

lemma alu_none: "map_of alu_ops m = None \<Longrightarrow> alu_number m = None"
  by (auto simp: alu_ops_def alu_number_def split: if_splits)

lemma number_none:
  "unary_digit m = None \<Longrightarrow> m \<noteq> ''imul'' \<Longrightarrow> unary_number m = None"
  "shift_digit m = None \<Longrightarrow> shift_number m = None"
  by (auto simp: unary_digit_def unary_number_def shift_digit_def shift_number_def split: if_splits)

lemma plain_not_cc:
  "plain_op m = Some b \<Longrightarrow> cc_after ''j'' m = None \<and> cc_after ''set'' m = None \<and> cc_after ''cmov'' m = None \<and>
     m \<noteq> ''jmp'' \<and> m \<noteq> ''call'' \<and> m \<noteq> ''int''"
  by (auto simp: plain_op_def cc_after_def split: if_splits)

lemma named_not_cc:
  "cc_after ''j'' ''int'' = None" "cc_after ''set'' ''int'' = None" "cc_after ''cmov'' ''int'' = None" "plain_op ''int'' = None"
  by (simp_all add: cc_after_def plain_op_def)

lemma decode_flow1:
  assumes ok: "op_ok a" and nb: "no_bad (asm_flow m [a])" and x: "meaning1 m a sz = Some x"
    and m: "unary_number m = None" "shift_number m = None" "m \<notin> {''push'', ''pop'', ''inc'', ''dec''}"
  shows "decode pc (emission_bytes pc (asm_flow m [a]) @ rest) = Some (x, rest)"
proof -
  consider "m = ''int''" | "m = ''jmp''" | "m = ''call''" | "m \<noteq> ''int''" "m \<noteq> ''jmp''" "m \<noteq> ''call''" by blast
  then show ?thesis
  proof cases
    case 4
    then show ?thesis
      using ok nb x m decode_asm_cc [OF ok cc_after_small [of "''j''" m]] decode_asm_cc [OF ok cc_after_small [of "''set''" m]]
      by (auto simp: asm_flow_def meaning1_def cond_after_cc split: option.splits)
  qed (use ok nb x decode_asm_branch [OF ok] decode_asm_int in
        \<open>auto simp: asm_flow_def meaning1_def named_not_cc split: if_splits\<close>)
qed

lemma decode_flow:
  assumes ok: "list_all op_ok ops" and nb: "no_bad (asm_flow m ops)" and x: "meaning m ops sz = Some x"
    and m: "alu_number m = None" "unary_number m = None" "shift_number m = None" "ext_flags m = None"
      "m \<notin> {''mov'', ''test'', ''xchg'', ''lea'', ''imul'', ''push'', ''pop'', ''inc'', ''dec''}"
  shows "decode pc (emission_bytes pc (asm_flow m ops) @ rest) = Some (x, rest)"
proof -
  consider "ops = []" | a where "ops = [a]" | a b where "ops = [a, b]"
    using x m by (auto simp: meaning_def split: list.splits)
  then show ?thesis
  proof cases
    case 1
    then obtain b where b: "plain_op m = Some b" using x plain_op_none [of m] by (cases "plain_op m") (auto simp: meaning_def)
    then show ?thesis
      using 1 x plain_not_cc [OF b] decode_asm_plain [OF b, of pc rest] by (auto simp: asm_flow_def meaning_def)
  next
    case 2
    then show ?thesis using decode_flow1 [of a m sz x] ok nb x m by (simp add: meaning_def)
  next
    case 3
    then obtain cc where cc: "cc_after ''cmov'' m = Some cc" and x': "x = XCmov (cond_of cc) (reg b) (loc_of a)"
      using x m by (auto simp: meaning_def meaning2_def Let_def cond_after_cc split: option.splits if_splits)
    have "take 4 m = ''cmov''" using cc by (simp add: cc_after_def numeral_eq_Suc split: if_splits)
    then have "m = ''cmov'' @ drop 4 m" by (metis append_take_drop_id)
    then obtain r where "m = CHR ''c'' # CHR ''m'' # r" by simp
    then have "m \<noteq> ''jmp''" "m \<noteq> ''call''" "cc_after ''j'' m = None" "cc_after ''set'' m = None"
      by (auto simp: cc_after_def)
    then show ?thesis
      using 3 cc x' ok nb decode_asm_cc(3) [OF _ cc_after_small [OF cc]] by (simp add: asm_flow_def)
  qed
qed


text \<open>The mnemonics in the order in which \<open>asm_insn\<close> looks for them.\<close>

lemma insn_cases:
  obtains (alu) opc d where "map_of alu_ops m = Some (opc, d)"
  | (ext) z w where "ext_flags m = Some (z, w)" "map_of alu_ops m = None"
  | (named) "m \<in> {''mov'', ''lea'', ''test'', ''xchg'', ''push'', ''pop'', ''inc'', ''dec'', ''imul''}"
  | (unary) d where "unary_digit m = Some d"
  | (shift) d where "shift_digit m = Some d"
  | (flow) "map_of alu_ops m = None" "ext_flags m = None" "unary_digit m = None" "shift_digit m = None"
      "m \<notin> {''mov'', ''lea'', ''test'', ''xchg'', ''push'', ''pop'', ''inc'', ''dec'', ''imul''}"
  by fastforce

lemma insn_alu: "map_of alu_ops m = Some (opc, d) \<Longrightarrow> asm_insn m ops sz = asm_alu m opc d ops sz"
  by (simp add: asm_insn_def)

lemma digit_names:
  "ext_flags m = Some zw \<Longrightarrow> m \<in> {''movzbl'', ''movzwl'', ''movsbl'', ''movswl''}"
  "unary_digit m = Some d \<Longrightarrow> m \<in> {''not'', ''neg'', ''mul'', ''div'', ''idiv''}"
  "shift_digit m = Some d \<Longrightarrow> m \<in> {''shl'', ''sal'', ''shr'', ''sar'', ''rol'', ''ror''}"
  by (auto simp: ext_flags_def unary_digit_def shift_digit_def split: if_splits)

lemma insn_ext: "ext_flags m = Some zw \<Longrightarrow> asm_insn m ops sz = asm_extend m ops"
  by (drule digit_names(1), elim insertE emptyE) (simp_all add: asm_insn_def alu_ops_def)

lemma insn_unary: "unary_digit m = Some d \<Longrightarrow> asm_insn m ops sz = asm_unary m d ops sz"
  by (frule digit_names(2), elim insertE emptyE) (simp_all add: asm_insn_def alu_ops_def unary_digit_def)

lemma insn_shift: "shift_digit m = Some d \<Longrightarrow> asm_insn m ops sz = asm_shift d ops sz"
  by (frule digit_names(3), elim insertE emptyE) (simp_all add: asm_insn_def alu_ops_def unary_digit_def shift_digit_def)

lemmas insn_parts = insn_alu insn_ext insn_unary insn_shift

lemma insn_named:
  "asm_insn ''mov'' ops sz = asm_mov ''mov'' ops sz" "asm_insn ''lea'' ops sz = asm_lea ops"
  "asm_insn ''test'' ops sz = asm_test ''test'' ops sz" "asm_insn ''xchg'' ops sz = asm_xchg ''xchg'' ops sz"
  "asm_insn ''push'' ops sz = asm_push ''push'' ops" "asm_insn ''pop'' ops sz = asm_pop ''pop'' ops"
  "asm_insn ''inc'' ops sz = asm_incdec ''inc'' ops sz" "asm_insn ''dec'' ops sz = asm_incdec ''dec'' ops sz"
  "asm_insn ''imul'' ops sz = asm_imul ops"
  by (simp_all add: asm_insn_def alu_ops_def unary_digit_def)

lemma insn_flow:
  assumes "map_of alu_ops m = None" "ext_flags m = None" "unary_digit m = None" "shift_digit m = None"
      "m \<notin> {''mov'', ''lea'', ''test'', ''xchg'', ''push'', ''pop'', ''inc'', ''dec'', ''imul''}"
  shows "asm_insn m ops sz = asm_flow m ops"
  using assms by (auto simp: asm_insn_def ext_flags_def split: if_splits)

text \<open>The meaning of an instruction of each group.\<close>

lemma meaning_alu:
  assumes "map_of alu_ops m = Some (opc, d)"
  shows "meaning2 m a b sz = only (fit sz a \<and> fit sz b) (XAlu d (sz = 1) (loc_of b) (loc_w (sz = 1) a))"
  using assms by (auto simp: alu_ops_def meaning2_def alu_number_def Let_def split: if_splits)

lemma meaning_ext:
  assumes "ext_flags m = Some (z, w)"
  shows "meaning2 m a b sz = only (fit 4 b \<and> fit (if w then 2 else 1) a) (XMovx z w (reg b) (loc_of a))"
  using assms by (auto simp: ext_flags_def meaning2_def alu_number_def shift_number_def Let_def split: if_splits)

lemma meaning_unary:
  assumes "unary_digit m = Some d"
  shows "meaning1 m a sz = only (fit sz a) (XUnary d (sz = 1) (loc_of a))"
  using assms by (auto simp: unary_digit_def meaning1_def unary_number_def split: if_splits)

lemma meaning_shift:
  assumes "shift_digit m = Some d"
  shows "meaning1 m a sz = only (fit sz a) (XShift d (sz = 1) (loc_of a) (Count 1))"
    "meaning2 m a b sz = only (fit 1 a \<and> fit sz b) (XShift d (sz = 1) (loc_of b) (count_of a))"
  using assms by (auto simp: shift_digit_def meaning1_def meaning2_def unary_number_def shift_number_def alu_number_def Let_def split: if_splits)

text \<open>The number of operands an instruction of each group is accepted with.\<close>

lemma arity:
  "no_bad (asm_alu m opc d ops sz) \<Longrightarrow> length ops = 2"
  "no_bad (asm_mov m ops sz) \<Longrightarrow> length ops = 2"
  "no_bad (asm_extend m ops) \<Longrightarrow> length ops = 2"
  "no_bad (asm_lea ops) \<Longrightarrow> length ops = 2"
  "no_bad (asm_test m ops sz) \<Longrightarrow> length ops = 2"
  "no_bad (asm_xchg m ops sz) \<Longrightarrow> length ops = 2"
  "no_bad (asm_push m ops) \<Longrightarrow> length ops = 1"
  "no_bad (asm_pop m ops) \<Longrightarrow> length ops = 1"
  "no_bad (asm_incdec m ops sz) \<Longrightarrow> length ops = 1"
  "no_bad (asm_unary m d ops sz) \<Longrightarrow> length ops = 1"
  "no_bad (asm_shift d ops sz) \<Longrightarrow> length ops = 1 \<or> length ops = 2"
  "no_bad (asm_imul ops) \<Longrightarrow> length ops = 1 \<or> length ops = 2 \<or> length ops = 3"
  by (auto simp: asm_alu_def asm_mov_def asm_extend_def asm_lea_def asm_test_def asm_xchg_def asm_push_def asm_pop_def
      asm_incdec_def asm_unary_def asm_shift_def asm_imul_def bad_def Let_def split: if_splits)

lemma length_cases:
  "length ops = Suc 0 \<longleftrightarrow> (\<exists>a. ops = [a])" "length ops = 2 \<longleftrightarrow> (\<exists>a b. ops = [a, b])" "length ops = 3 \<longleftrightarrow> (\<exists>a b c. ops = [a, b, c])"
  by (auto simp: length_Suc_conv numeral_eq_Suc)

lemma decode_named2:
  assumes ok: "op_ok a" "op_ok b" and nb: "no_bad (asm_insn m [a, b] sz)" and x: "meaning2 m a b sz = Some x"
    and sz: "sz = 1 \<or> sz = 4" "sz = 1 \<longrightarrow> m \<noteq> ''xchg'' \<and> m \<noteq> ''imul''"
    and m: "m \<in> {''mov'', ''lea'', ''test'', ''xchg'', ''imul''}"
  shows "decode pc (emission_bytes pc (asm_insn m [a, b] sz) @ rest) = Some (x, rest)"
  using m ok nb x sz
  by (elim insertE emptyE)
     (auto simp: meaning2_def insn_named decode_asm_mov decode_asm_lea decode_asm_test decode_asm_xchg decode_asm_imul)

lemma decode_named1:
  assumes ok: "op_ok a" and nb: "no_bad (asm_insn m [a] sz)" and x: "meaning1 m a sz = Some x"
    and sz: "sz = 1 \<or> sz = 4" "sz = 1 \<longrightarrow> m \<noteq> ''imul''"
    and m: "m \<in> {''push'', ''pop'', ''inc'', ''dec'', ''imul''}"
  shows "decode pc (emission_bytes pc (asm_insn m [a] sz) @ rest) = Some (x, rest)"
  using m ok nb x sz
  by (elim insertE emptyE)
     (auto simp: meaning1_def insn_named unary_number_def decode_asm_push decode_asm_pop decode_asm_incdec decode_asm_imul)

lemma decode_named:
  assumes ok: "list_all op_ok ops" and nb: "no_bad (asm_insn m ops sz)" and x: "meaning m ops sz = Some x"
    and sz: "sz = 1 \<or> sz = 4" "sz = 1 \<longrightarrow> m \<noteq> ''xchg'' \<and> m \<noteq> ''imul''"
    and m: "m \<in> {''mov'', ''lea'', ''test'', ''xchg'', ''push'', ''pop'', ''inc'', ''dec'', ''imul''}"
  shows "decode pc (emission_bytes pc (asm_insn m ops sz) @ rest) = Some (x, rest)"
proof -
  consider "length ops = 2" "m \<in> {''mov'', ''lea'', ''test'', ''xchg'', ''imul''}"
    | "length ops = 1" "m \<in> {''push'', ''pop'', ''inc'', ''dec'', ''imul''}" | "length ops = 3" "m = ''imul''"
    using m nb arity(2,5,6,9) [of m ops sz] arity(4,12) [of ops] arity(7,8) [of m ops]
    by (elim insertE emptyE) (simp_all add: insn_named, blast)
  then show ?thesis
  proof cases
    case 1
    then obtain a b where "ops = [a, b]" by (auto simp: length_cases)
    then show ?thesis using decode_named2 [of a b m sz x] 1(2) ok nb x sz by (simp add: meaning_def)
  next
    case 2
    then obtain a where "ops = [a]" by (auto simp: length_cases)
    then show ?thesis using decode_named1 [of a m sz x] 2(2) ok nb x sz by (simp add: meaning_def)
  next
    case 3
    then obtain a b c where "ops = [a, b, c]" by (auto simp: length_cases)
    then show ?thesis using 3(2) ok nb x by (simp add: meaning_def insn_named decode_asm_imul)
  qed
qed

lemma decode_insn_core:
  assumes ok: "list_all op_ok ops" and nb: "no_bad (asm_insn m ops sz)" and x: "meaning m ops sz = Some x"
    and sz: "sz = 1 \<or> sz = 4" "sz = 1 \<longrightarrow> m \<noteq> ''xchg'' \<and> m \<noteq> ''imul''"
  shows "decode pc (emission_bytes pc (asm_insn m ops sz) @ rest) = Some (x, rest)"
proof (cases rule: insn_cases [of m])
  case (alu opc d)
  then obtain a b where "ops = [a, b]" using nb arity(1) [of m opc d ops sz] by (auto simp: insn_parts length_cases)
  then show ?thesis
    using alu ok nb x sz decode_asm_alu [OF alu, of a b sz] by (simp add: insn_parts meaning_def meaning_alu)
next
  case (ext z w)
  then obtain a b where "ops = [a, b]" using nb arity(3) [of m ops] by (auto simp: insn_parts length_cases)
  then show ?thesis
    using ext ok nb x decode_asm_extend [of a b m z w] by (simp add: insn_parts meaning_def meaning_ext)
next
  case (unary d)
  then obtain a where "ops = [a]" using nb arity(10) [of m d ops sz] by (auto simp: insn_parts length_cases)
  then show ?thesis
    using unary ok nb x sz decode_asm_unary [of a m d sz] unary_digit_number [OF unary]
    by (simp add: insn_parts meaning_def meaning_unary)
next
  case (shift d)
  then consider a where "ops = [a]" | a b where "ops = [a, b]" using nb arity(11) [of d ops sz] by (auto simp: insn_parts length_cases)
  then show ?thesis
    using shift ok nb x sz decode_asm_shift1 [of _ d sz] decode_asm_shift2 [of _ _ d sz] shift_digit_number [OF shift]
    by cases (simp_all add: insn_parts meaning_def meaning_shift)
next
  case named
  then show ?thesis by (rule decode_named [OF assms])
next
  case flow
  have e: "asm_insn m ops sz = asm_flow m ops" using flow by (rule insn_flow)
  show ?thesis
    unfolding e using ok nb x flow alu_none [of m] number_none [of m] by (intro decode_flow) (auto simp: e)
qed


subsection \<open>Accepted instructions have a meaning\<close>

lemma plain_names: "plain_op m = Some b \<Longrightarrow> m = ''nop'' \<or> plain_named m \<noteq> None"
  by (auto simp: plain_op_def plain_named_def split: if_splits)

lemma flow_meaning:
  assumes nb: "no_bad (asm_flow m ops)" and f: "form_ok m ops sz"
    and m: "alu_number m = None" "unary_number m = None" "shift_number m = None" "ext_flags m = None"
      "m \<notin> {''mov'', ''test'', ''xchg'', ''lea'', ''imul'', ''push'', ''pop'', ''inc'', ''dec''}"
  shows "\<exists>x. meaning m ops sz = Some x"
proof -
  have w: "reg_sizes m n sz = (if cond_after ''set'' m \<noteq> None then [1] else replicate n (if m = ''jmp'' \<or> m = ''call'' then 4 else sz))" for n
    using m by (simp add: reg_sizes_def)
  consider (branch) "m = ''jmp'' \<or> m = ''call''" | (int) "m = ''int''"
    | (j) cc where "m \<notin> {''jmp'', ''call'', ''int''}" "cc_after ''j'' m = Some cc"
    | (st) cc where "m \<notin> {''jmp'', ''call'', ''int''}" "cc_after ''j'' m = None" "cc_after ''set'' m = Some cc"
    | (cmov) cc where "m \<notin> {''jmp'', ''call'', ''int''}" "cc_after ''j'' m = None" "cc_after ''set'' m = None" "cc_after ''cmov'' m = Some cc"
    | (pl) b where "plain_op m = Some b"
    using nb by (auto simp: asm_flow_def bad_def split: option.splits if_splits)
  then show ?thesis
  proof cases
    case branch
    then obtain a where "ops = [a]" using nb by (auto simp: asm_flow_def asm_branch_def bad_def length_cases split: if_splits)
    moreover have "cond_after ''set'' m = None" using branch by (auto simp: cond_after_def)
    then have "fit 4 a" if "ops = [a]" for a using branch f that by (auto simp: form_ok_def w)
    ultimately show ?thesis using branch by (elim disjE) (simp_all add: meaning_def meaning1_def only_def)
  next
    case int
    then obtain a where "ops = [a]" using nb by (auto simp: asm_flow_def named_not_cc asm_int_def bad_def length_cases split: if_splits)
    then show ?thesis using int by (simp add: meaning_def meaning1_def)
  next
    case j
    then obtain a where "ops = [a]" using nb by (auto simp: asm_flow_def asm_jcc_def bad_def length_cases split: if_splits)
    then show ?thesis using j m f by (simp add: meaning_def meaning1_def form_ok_def cond_after_cc only_def)
  next
    case st
    then obtain a where "ops = [a]" using nb by (auto simp: asm_flow_def asm_setcc_def bad_def length_cases split: if_splits)
    then show ?thesis using st m f by (simp add: meaning_def meaning1_def form_ok_def w cond_after_cc only_def)
  next
    case cmov
    then obtain a b where ops: "ops = [a, b]" using nb by (auto simp: asm_flow_def asm_cmov_def bad_def length_cases split: if_splits)
    have "list_all2 fit (reg_sizes m (length ops) sz) ops" using f unfolding form_ok_def by blast
    then have "fit sz a" "fit sz b" using ops cmov by (simp_all add: w cond_after_cc)
    moreover have "sz = 4" using f cmov(4) by (simp add: form_ok_def cond_after_cc)
    ultimately show ?thesis
      using ops cmov(1,4) m by (simp add: meaning_def meaning2_def cond_after_cc only_def Let_def)
  next
    case pl
    then have "ops = []" using plain_names f by (simp add: form_ok_def)
    then show ?thesis using decode_asm_plain [OF pl] by (auto simp: meaning_def)
  qed
qed

text \<open>The widths of the operands of the other groups.\<close>

lemma alu_sizes: "map_of alu_ops m = Some (opc, d) \<Longrightarrow> reg_sizes m n sz = replicate n sz"
  by (auto simp: alu_ops_def reg_sizes_def ext_flags_def cond_after_def shift_number_def split: if_splits)

lemma unary_sizes: "unary_digit m = Some d \<Longrightarrow> reg_sizes m n sz = replicate n sz"
  by (drule digit_names(2), elim insertE emptyE)
     (simp_all add: reg_sizes_def ext_flags_def cond_after_def shift_number_def)

lemma shift_sizes: "shift_digit m = Some d \<Longrightarrow> reg_sizes m n sz = (if n = 2 then [1, sz] else replicate n sz)"
  by (frule digit_names(3), elim insertE emptyE)
     (simp_all add: reg_sizes_def ext_flags_def cond_after_def shift_number_def)

lemma named_sizes:
  "m \<in> {''mov'', ''lea'', ''test'', ''xchg'', ''push'', ''pop'', ''inc'', ''dec'', ''imul''} \<Longrightarrow> reg_sizes m n sz = replicate n sz"
  by (elim insertE emptyE) (simp_all add: reg_sizes_def ext_flags_def cond_after_def shift_number_def)

lemma named_meaning:
  assumes nb: "no_bad (asm_insn m ops sz)" and f: "form_ok m ops sz"
    and m: "m \<in> {''mov'', ''lea'', ''test'', ''xchg'', ''push'', ''pop'', ''inc'', ''dec'', ''imul''}"
  shows "\<exists>x. meaning m ops sz = Some x"
proof -
  have w: "list_all2 fit (replicate (length ops) sz) ops" "m \<in> {''push'', ''pop'', ''lea'', ''imul'', ''xchg''} \<longrightarrow> sz = 4"
    using f by (simp_all add: form_ok_def named_sizes [OF m])
  consider "length ops = 2" "m \<in> {''mov'', ''lea'', ''test'', ''xchg'', ''imul''}"
    | "length ops = 1" "m \<in> {''push'', ''pop'', ''inc'', ''dec'', ''imul''}" | "length ops = 3" "m = ''imul''"
    using m nb arity(2,5,6,9) [of m ops sz] arity(4,12) [of ops] arity(7,8) [of m ops]
    by (elim insertE emptyE) (simp_all add: insn_named, blast)
  then show ?thesis
  proof cases
    case 1
    then obtain a b where ops: "ops = [a, b]" by (auto simp: length_cases)
    then have "fit sz a" "fit sz b" using w(1) by simp_all
    with 1(2) w(2) show ?thesis
      unfolding ops by (elim insertE emptyE) (simp_all add: meaning_def meaning2_def only_def Let_def)
  next
    case 2
    then obtain a where ops: "ops = [a]" by (auto simp: length_cases)
    then have "fit sz a" using w(1) by simp
    with 2(2) w(2) show ?thesis
      unfolding ops by (elim insertE emptyE) (simp_all add: meaning_def meaning1_def only_def unary_number_def)
  next
    case 3
    then obtain a b c where ops: "ops = [a, b, c]" by (auto simp: length_cases)
    then have "kind a = OP_IMM" "kind c = OP_REG"
      using nb 3(2) by (auto simp: insn_named asm_imul_def bad_def split: if_splits)
    then show ?thesis using 3(2) ops w by (simp add: meaning_def only_def)
  qed
qed

lemma insn_meaning:
  assumes nb: "no_bad (asm_insn m ops sz)" and f: "form_ok m ops sz"
  shows "\<exists>x. meaning m ops sz = Some x"
proof (cases rule: insn_cases [of m])
  case (alu opc d)
  then obtain a b where "ops = [a, b]" using nb arity(1) [of m opc d ops sz] by (auto simp: insn_parts length_cases)
  then show ?thesis using f by (simp add: form_ok_def alu_sizes [OF alu] meaning_def meaning_alu [OF alu] only_def)
next
  case (ext z w)
  then obtain a b where "ops = [a, b]" using nb arity(3) [of m ops] by (auto simp: insn_parts length_cases)
  then show ?thesis using f ext by (simp add: form_ok_def reg_sizes_def meaning_def meaning_ext [OF ext(1)] only_def)
next
  case (unary d)
  then obtain a where "ops = [a]" using nb arity(10) [of m d ops sz] by (auto simp: insn_parts length_cases)
  then show ?thesis using f by (simp add: form_ok_def unary_sizes [OF unary] meaning_def meaning_unary [OF unary] only_def)
next
  case (shift d)
  then consider a where "ops = [a]" | a b where "ops = [a, b]" using nb arity(11) [of d ops sz] by (auto simp: insn_parts length_cases)
  then show ?thesis
    using f by cases (simp_all add: form_ok_def shift_sizes [OF shift] meaning_def meaning_shift [OF shift] only_def)
next
  case named
  then show ?thesis by (rule named_meaning [OF assms])
next
  case flow
  have e: "asm_insn m ops sz = asm_flow m ops" using flow by (rule insn_flow)
  show ?thesis
    using nb f flow alu_none [of m] number_none [of m] unfolding e by (intro flow_meaning) auto
qed

subsection \<open>The bytes in the text buffer\<close>

text \<open>Appending bytes to the text section, as pass 2 does while there is room.\<close>

definition put_text :: "u8 list \<Rightarrow> asm \<Rightarrow> asm" where
  "put_text bs st =
     st\<lparr>text_buf := (\<lambda>i. if unat (text_len st) \<le> i \<and> i < unat (text_len st) + length bs
                         then bs ! (i - unat (text_len st)) else text_buf st i),
        text_len := text_len st + of_nat (length bs)\<rparr>"

definition text_room :: "nat \<Rightarrow> asm \<Rightarrow> bool" where
  "text_room n st \<longleftrightarrow> as_pass st = 2 \<and> cur_sec st = SEC_TEXT \<and> unat (text_len st) + n \<le> MAX_TEXT"

lemma put_text_Nil [simp]: "put_text [] st = st"
  by (auto simp: put_text_def fun_eq_iff intro!: asm.equality)

lemma unat_text_len_put: "text_room (length bs) st \<Longrightarrow> unat (text_len (put_text bs st)) = unat (text_len st) + length bs"
  by (simp add: put_text_def text_room_def MAX_TEXT_def unat_add32 unat_of_nat32)

lemma put_text_append:
  "text_room (length bs + length cs) st \<Longrightarrow> put_text cs (put_text bs st) = put_text (bs @ cs) st"
  using unat_text_len_put [of bs st]
  by (auto simp: put_text_def text_room_def nth_append fun_eq_iff add.assoc intro!: asm.equality)

lemma text_room_put: "text_room (length bs + n) st \<Longrightarrow> text_room n (put_text bs st)"
  using unat_text_len_put [of bs st] by (auto simp: text_room_def) (auto simp: put_text_def)

lemma emit8_put: "text_room (Suc 0) st \<Longrightarrow> emit8 b st = put_text [ucast b] st"
proof -
  assume r: "text_room (Suc 0) st"
  then have n: "unat (text_len st) < MAX_TEXT" by (simp add: text_room_def)
  then have "\<not> sint (text_len st) \<ge> int MAX_TEXT" by (simp add: sint_unat MAX_TEXT_def del: of_nat_unat)
  then show ?thesis using r
    by (auto simp: emit8_def text_room_def put_text_def fun_eq_iff intro!: asm.equality)
qed

lemma emit32_bytes:
  "le32_bytes v = [ucast ((v AND 0xFFFF) AND 0xFF), ucast (signed_drop_bit 8 (v AND 0xFFFF) AND 0xFF),
     ucast ((signed_drop_bit 16 v AND 0xFFFF) AND 0xFF), ucast (signed_drop_bit 8 (signed_drop_bit 16 v AND 0xFFFF) AND 0xFF)]"
proof -
  have m: "(0xFF :: u32) = mask 8" "(0xFFFF :: u32) = mask 16" by (simp_all add: mask_eq_exp_minus_1)
  show ?thesis unfolding m le32_bytes_def
    by (simp, intro conjI; rule bit_word_eqI; auto simp: bit_simps)
qed

lemma emit32_put: "text_room 4 st \<Longrightarrow> emit32 v st = put_text (le32_bytes v) st"
proof -
  assume r: "text_room 4 st"
  then have "text_room n st" if "n \<le> 4" for n using that by (simp add: text_room_def)
  then have room: "text_room (Suc 0) st" "\<And>bs. length bs < 4 \<Longrightarrow> text_room (Suc 0) (put_text bs st)"
    "\<And>bs c. length bs < 4 \<Longrightarrow> put_text [c] (put_text bs st) = put_text (bs @ [c]) st"
    by (auto intro!: text_room_put put_text_append)
  show ?thesis unfolding emit32_def emit16_def emit32_bytes by (simp add: emit8_put room)
qed

lemma cur_addr_put: "cur_sec st = SEC_TEXT \<Longrightarrow> cur_addr (put_text bs st) = cur_addr st + of_nat (length bs)"
  by (simp add: cur_addr_def put_text_def)

lemma run_emits_put:
  "no_bad es \<Longrightarrow> text_room (length (emission_bytes (cur_addr st) es)) st \<Longrightarrow>
    run_emits es st = put_text (emission_bytes (cur_addr st) es) st"
proof (induction es arbitrary: st)
  case (Cons e es)
  have "\<exists>bs. emission_bytes (cur_addr st) (e # es) = bs @ emission_bytes (cur_addr st + of_nat (length bs)) es \<and>
      run_emit e st = put_text bs st"
  proof (cases e)
    case (E8 b)
    then show ?thesis using Cons.prems
      by (intro exI [of _ "[ucast b]"]) (auto simp: text_room_def intro!: emit8_put)
  next
    case (E32 v)
    then show ?thesis using Cons.prems
      by (intro exI [of _ "le32_bytes v"]) (auto simp: text_room_def intro!: emit32_put)
  next
    case (Rel x)
    then show ?thesis using Cons.prems
      by (intro exI [of _ "le32_bytes (e_val x - (cur_addr st + 4))"])
         (auto simp: text_room_def emit_rel32_def Let_def intro!: emit32_put)
  qed (use Cons.prems in simp)
  then obtain bs where bs: "emission_bytes (cur_addr st) (e # es) = bs @ emission_bytes (cur_addr st + of_nat (length bs)) es"
    "run_emit e st = put_text bs st" by blast
  have sec: "cur_sec st = SEC_TEXT" using Cons.prems(2) by (simp add: text_room_def)
  have "no_bad es" using Cons.prems(1) by (cases e) auto
  then have "run_emits es (put_text bs st) = put_text (emission_bytes (cur_addr (put_text bs st)) es) (put_text bs st)"
    using Cons.prems(2) by (intro Cons.IH) (auto simp: bs(1) cur_addr_put [OF sec] intro!: text_room_put)
  then show ?case
    using Cons.prems(2) by (simp add: run_emits_def bs cur_addr_put [OF sec] put_text_append)
qed (simp add: run_emits_def)

lemma put_text_read:
  assumes "text_room (length bs) st"
  shows "map (text_buf (put_text bs st)) [unat (text_len st)..<unat (text_len (put_text bs st))] = bs"
  unfolding unat_text_len_put [OF assms] by (rule nth_equalityI) (auto simp: put_text_def)


text \<open>
  C34. The encoder is right: an instruction that \<open>asm_insn\<close> accepts, with operands as \<open>parse_operand\<close> gives
  them, a width of one or four bytes and a form in the sense of \<open>form_ok\<close>, has a meaning - read off the mnemonic and
  the operands with tables of their own - and leaves in the text buffer bytes that an x86 processor
  decodes to exactly that instruction with these operands, wherever it stands (in the final pass, in the text
  section, with room in the buffer). \<open>form_ok\<close> leaves
  out forms that the code accepts without a complaint and that have no such meaning: a register operand of another
  width than its instruction (\<open>mov %al, %ebx\<close>, \<open>push %al\<close>), byte forms of \<open>xchg\<close>, \<open>imul\<close>, \<open>lea\<close>, \<open>push\<close>,
  \<open>pop\<close> and \<open>cmov\<close>, for which the 32-bit opcodes are emitted, a conditional jump to a register or an immediate,
  and operands after an instruction that has none (\<open>ret $4\<close>).
\<close>

theorem asm_insn_decodes:
  assumes "list_all op_ok ops" "form_ok m ops sz" "no_bad (asm_insn m ops sz)" "sz = 1 \<or> sz = 4"
    and "as_pass st = 2" "cur_sec st = SEC_TEXT"
    and "unat (text_len st) + length (emission_bytes (cur_addr st) (asm_insn m ops sz)) \<le> MAX_TEXT"
  shows "\<exists>x. meaning m ops sz = Some x \<and>
    (let st' = run_emits (asm_insn m ops sz) st in
      decode (cur_addr st) (map (text_buf st') [unat (text_len st)..<unat (text_len st')]) = Some (x, []) \<and>
      err_count st' = err_count st)"
proof -
  have room: "text_room (length (emission_bytes (cur_addr st) (asm_insn m ops sz))) st"
    using assms by (simp add: text_room_def)
  obtain x where x: "meaning m ops sz = Some x" using insn_meaning [OF assms(3,2)] by blast
  have "m = ''xchg'' \<or> m = ''imul'' \<longrightarrow> sz = 4" using assms(2) unfolding form_ok_def by blast
  then have sz: "sz = 1 \<longrightarrow> m \<noteq> ''xchg'' \<and> m \<noteq> ''imul''" by (cases "sz = 4") simp_all
  show ?thesis
    unfolding run_emits_put [OF assms(3) room] Let_def put_text_read [OF room]
    using decode_insn_core [OF assms(1,3) x assms(4) sz, of "cur_addr st" "[]"] x by (simp add: put_text_def)
qed

text \<open>\<open>addl $table+4, 8(%esp,%esi,4)\<close> in a state with the table at \<open>0x1000\<close>.\<close>

definition demo_mem :: operand where
  "demo_mem = no_operand\<lparr>kind := OP_MEM, base := Some 4, index := Some 6, scale := 4, disp := \<lparr>e_val = 8, has_sym = False\<rparr>\<rparr>"

definition demo_imm :: operand where
  "demo_imm = no_operand\<lparr>kind := OP_IMM, disp := \<lparr>e_val = 0x1004, has_sym = True\<rparr>\<rparr>"

definition demo_asm :: asm where
  "demo_asm = \<lparr>line_no = 1, err_count = 0, console = [], cur_src = [], syms = [], text_buf = (\<lambda>_. 0), data_buf = (\<lambda>_. 0),
     text_len = 16, data_len = 0, bss_len = 0, cur_sec = SEC_TEXT, as_pass = 2, base_text = 84, base_data = 0, base_bss = 0\<rparr>"

lemma demo_code: "asm_insn ''add'' [demo_imm, demo_mem] 4 = [E8 0x81, E8 0x44, E8 0xB4, E8 8, E32 0x1004]"
  by code_simp

theorem asm_insn_decodes_witness:
  "let st' = run_emits (asm_insn ''add'' [demo_imm, demo_mem] 4) demo_asm in
    decode (cur_addr demo_asm) (map (text_buf st') [unat (text_len demo_asm)..<unat (text_len st')]) =
      Some (XAlu 0 False (M (Some 4) (Some (6, 4)) 8) (I 0x1004), []) \<and> err_count st' = err_count demo_asm"
proof -
  have ok: "list_all op_ok [demo_imm, demo_mem]"
    by (simp add: op_ok_def demo_imm_def demo_mem_def no_operand_def)
  have f: "form_ok ''add'' [demo_imm, demo_mem] 4"
    by (simp add: form_ok_def reg_sizes_def ext_flags_def cond_after_def shift_number_def plain_named_def fit_def
        demo_imm_def demo_mem_def no_operand_def numeral_2_eq_2)
  have mn: "meaning ''add'' [demo_imm, demo_mem] 4 = Some (XAlu 0 False (M (Some 4) (Some (6, 4)) 8) (I 0x1004))"
    by (simp add: meaning_def meaning2_def alu_number_def demo_imm_def demo_mem_def no_operand_def fit_def loc_of_def loc_w_def)
  have "no_bad (asm_insn ''add'' [demo_imm, demo_mem] 4)" "as_pass demo_asm = 2" "cur_sec demo_asm = SEC_TEXT"
    "unat (text_len demo_asm) + length (emission_bytes (cur_addr demo_asm) (asm_insn ''add'' [demo_imm, demo_mem] 4)) \<le> MAX_TEXT"
    by (simp_all add: demo_code demo_asm_def MAX_TEXT_def)
  from asm_insn_decodes [OF ok f this(1) disjI2 [OF refl] this(2-4)] show ?thesis unfolding mn by blast
qed

text \<open>
  Forms outside \<open>form_ok\<close> that the assembler accepts: \<open>mov %al, %ebx\<close> becomes \<open>mov %eax, %ebx\<close>, \<open>push %al\<close> becomes
  \<open>push %eax\<close>, a conditional jump to a register goes to address 0, and \<open>ret $4\<close> is a plain return.
\<close>

definition demo_reg :: "nat \<Rightarrow> u32 \<Rightarrow> operand" where
  "demo_reg w r = no_operand\<lparr>kind := OP_REG, reg := r, op_size := w\<rparr>"

lemma accepted_forms:
  "decode 0 (emission_bytes 0 (asm_insn ''mov'' [demo_reg 1 0, demo_reg 4 3] 4)) = Some (XMov False (R 3) (R 0), [])"
  "decode 0 (emission_bytes 0 (asm_insn ''push'' [demo_reg 1 0] 1)) = Some (XPush (R 0), [])"
  "decode 0 (emission_bytes 0 (asm_insn ''jne'' [demo_reg 4 0] 4)) = Some (XJcc NotEqual 0, [])"
  "decode 0 (emission_bytes 0 (asm_insn ''ret'' [demo_imm] 4)) = Some (XPlain Ret, [])"
  by code_simp+

end
