(* ===== verification/Assembler.thy ===== *)
theory Assembler
  imports AsmEncode Editor PathLib
begin

text \<open>
  The assembler (user/as.c), third part: directives, one source line, the passes over the source, the ELF
  image and the program itself. The alignment loop may not end (its buffer can be full), so a directive, a
  line, a pass and the program are \<open>None\<close> where the code does not come back.
\<close>

subsection \<open>Directives\<close>

fun string_chars :: "u8 list \<Rightarrow> asm \<Rightarrow> asm \<times> u8 list" where
  "string_chars [] st = (st, [])"
| "string_chars (c # lp) st =
     (if c = 0 \<or> c = 0x22 then (st, c # lp)
      else if c = 0x5C \<and> at lp \<noteq> 0 then string_chars (tl lp) (emit8 (scast (esc_char (at lp))) st)
      else string_chars lp (emit8 (scast c) st))"

lemma length_string_chars: "length (snd (string_chars lp st)) \<le> length lp"
  by (induction lp st rule: string_chars.induct) auto

function emit_string :: "bool \<Rightarrow> u8 list \<Rightarrow> asm \<Rightarrow> asm" where
  "emit_string nul lp0 st =
     (let lp = as_skip_ws lp0 in
      if at lp \<noteq> 0x22 then err (Diag ''expected string'' []) st
      else
        let (st, lp) = string_chars (tl lp) st;
            lp = (if at lp = 0x22 then tl lp else lp);
            st = (if nul then emit8 0 st else st);
            lp = as_skip_ws lp
        in if at lp = 0x2C then emit_string nul (tl lp) st else st)"
  by pat_completeness auto

lemma length_string_rest:
  assumes "(s, lp) = string_chars (tl (as_skip_ws lp0)) st" "at (as_skip_ws lp0) = 0x22"
  shows "length lp < length lp0"
proof -
  have "length lp \<le> length (tl (as_skip_ws lp0))"
    using length_string_chars [of "tl (as_skip_ws lp0)" st] assms(1) by (metis snd_conv)
  also have "\<dots> < length lp0" using assms(2) by (rule at_tl_shorter) simp
  finally show ?thesis .
qed

lemma skip_less:
  "length lp < n \<Longrightarrow> length (as_skip_ws lp) - Suc 0 < n" "length lp < n \<Longrightarrow> length (as_skip_ws (tl lp)) - Suc 0 < n"
  using length_skip_ws [of lp] length_skip_ws [of "tl lp"] by (simp_all del: length_skip_ws)

termination emit_string
  by (relation "measure (\<lambda>(t, lp, st). length lp)") (auto intro!: skip_less elim: length_string_rest)

declare emit_string.simps [simp del]

text \<open>\<open>.byte\<close>, \<open>.word\<close>, \<open>.long\<close>: a list of expressions of \<open>w\<close> bytes each.\<close>

definition emit_width :: "nat \<Rightarrow> u32 \<Rightarrow> asm \<Rightarrow> asm" where
  "emit_width w v = (if w = 1 then emit8 (v AND 0xFF) else if w = 2 then emit16 (v AND 0xFFFF) else emit32 v)"

function data_loop :: "nat \<Rightarrow> u8 list \<Rightarrow> asm \<Rightarrow> asm" where
  "data_loop w lp0 st =
     (let (e, ds, lp) = parse_expr st lp0;
          st = emit_width w (e_val e) (errs ds st);
          lp = as_skip_ws lp
      in if at lp = 0x2C then data_loop w (tl lp) st else st)"
  by pat_completeness auto

lemma parse_expr_rest: "(e, ds, lp) = parse_expr st lp0 \<Longrightarrow> length lp \<le> length lp0"
  using length_parse_expr [of st lp0] by (metis snd_conv)

lemma skip_comma_less: "at (as_skip_ws lp) = 0x2C \<Longrightarrow> length lp \<le> n \<Longrightarrow> length (as_skip_ws lp) - Suc 0 < n"
  using at_tl_shorter [of lp "0x2C"] by simp

termination data_loop
  by (relation "measure (\<lambda>(w, lp, st). length lp)") (auto intro!: skip_comma_less elim: parse_expr_rest)

declare data_loop.simps [simp del]

definition do_space :: "u8 list \<Rightarrow> asm \<Rightarrow> asm" where
  "do_space lp st =
     (let (n, ds, lp) = parse_expr st lp; st = errs ds st in
      if has_sym n then err (Diag ''.space needs a constant size'' []) st
      else
        let lp = as_skip_ws lp;
            (fill, ds) = (if at lp = 0x2C then (let (f, ds, _) = parse_expr st (tl lp) in (e_val f, ds)) else (0, []));
            st = errs ds st
        in if cur_sec st = SEC_BSS then st\<lparr>bss_len := bss_len st + e_val n\<rparr>
           else (emit8 fill ^^ nat (sint (e_val n))) st)"

text \<open>One turn of the alignment loop, and the loop.\<close>

definition align_step :: "asm \<Rightarrow> asm" where
  "align_step st =
     (if cur_sec st = SEC_BSS then st\<lparr>bss_len := bss_len st + 1\<rparr>
      else emit8 (if cur_sec st = SEC_TEXT then 0x90 else 0) st)"

partial_function (option) align_loop :: "u32 \<Rightarrow> asm \<Rightarrow> asm option" where
  "align_loop a st =
     (if sint (sec_len st (cur_sec st)) mod sint a = 0 then Some st else align_loop a (align_step st))"

declare align_loop.simps [code]

definition do_align :: "bool \<Rightarrow> u8 list \<Rightarrow> asm \<Rightarrow> asm option" where
  "do_align p2 lp st =
     (let (e, ds, lp) = parse_expr st lp; st = errs ds st;
          a = (if p2 then ((\<lambda>a. a * 2) ^^ nat (sint (e_val e))) 1 else e_val e)
      in if sint a \<le> 1 then Some st else align_loop a st)"

definition set_abs :: "u32 \<Rightarrow> sym \<Rightarrow> sym" where
  "set_abs v s = s\<lparr>s_is_abs := True, s_defined := True, s_addr := v\<rparr>"

definition do_equ :: "u8 list \<Rightarrow> asm \<Rightarrow> asm" where
  "do_equ lp st =
     (let (n, lp) = read_name lp in
      if n = [] then err (Diag ''expected symbol name'' []) st
      else
        let (ok, lp) = eat 0x2C lp in
        if \<not> ok then err (Diag ''expected , after symbol'' []) st
        else
          let (v, ds, lp) = parse_expr st lp; (s, st) = sym_intern n (errs ds st)
          in case s of None \<Rightarrow> st | Some i \<Rightarrow> st\<lparr>syms := (syms st)[i := set_abs (e_val v) (syms st ! i)]\<rparr>)"

definition ignored :: "string list" where
  "ignored = [''.globl'', ''.global'', ''.extern'', ''.type'', ''.size'', ''.section'', ''.code32'', ''.file'', ''.ident'']"

definition do_directive :: "string \<Rightarrow> u8 list \<Rightarrow> asm \<Rightarrow> asm option" where
  "do_directive d lp st =
     (if d = ''.text'' then Some (st\<lparr>cur_sec := SEC_TEXT\<rparr>)
      else if d = ''.data'' then Some (st\<lparr>cur_sec := SEC_DATA\<rparr>)
      else if d = ''.bss'' then Some (st\<lparr>cur_sec := SEC_BSS\<rparr>)
      else if d \<in> set ignored then Some st
      else if d = ''.byte'' then Some (data_loop 1 lp st)
      else if d = ''.long'' \<or> d = ''.int'' then Some (data_loop 4 lp st)
      else if d = ''.word'' \<or> d = ''.short'' then Some (data_loop 2 lp st)
      else if d = ''.ascii'' then Some (emit_string False lp st)
      else if d = ''.asciz'' \<or> d = ''.string'' then Some (emit_string True lp st)
      else if d = ''.space'' \<or> d = ''.skip'' then Some (do_space lp st)
      else if d = ''.align'' \<or> d = ''.balign'' then do_align False lp st
      else if d = ''.p2align'' then do_align True lp st
      else if d = ''.equ'' \<or> d = ''.set'' then Some (do_equ lp st)
      else Some (err (Diag ''unknown directive'' d) st))"

subsection \<open>One line\<close>

text \<open>The line has ended, or a comment begins.\<close>

definition at_end :: "u8 list \<Rightarrow> bool" where
  "at_end lp \<longleftrightarrow> at lp = 0 \<or> at lp = 0x23 \<or> at lp = 0x2F \<and> at1 lp = 0x2F"

definition set_label :: "sec \<Rightarrow> u32 \<Rightarrow> sym \<Rightarrow> sym" where
  "set_label sc off s = s\<lparr>s_defined := True, s_section := sc, s_offset := off\<rparr>"

definition def_label :: "string \<Rightarrow> asm \<Rightarrow> asm" where
  "def_label n st =
     (if as_pass st = 1
      then (let (s, st) = sym_intern n st in
            case s of None \<Rightarrow> st
            | Some i \<Rightarrow>
                let st = (if s_defined (syms st ! i) then err (Diag ''duplicate label'' n) st else st)
                in st\<lparr>syms := (syms st)[i := set_label (cur_sec st) (sec_len st (cur_sec st)) (syms st ! i)]\<rparr>)
      else st)"

text \<open>The labels of a line; \<open>None\<close> for the cursor when nothing follows them.\<close>

function label_loop :: "u8 list \<Rightarrow> asm \<Rightarrow> asm \<times> u8 list option" where
  "label_loop lp0 st =
     (let lp = as_skip_ws lp0 in
      if at_end lp then (st, None)
      else if is_sym_start (at lp)
      then (let (n, lp1) = read_name lp; lp1 = as_skip_ws lp1
            in if at lp1 = 0x3A then label_loop (tl lp1) (def_label n st) else (st, Some lp))
      else (st, Some lp))"
  by pat_completeness auto

lemma label_rest_less:
  assumes "at (as_skip_ws lp1) = 0x3A" "(n, lp1) = read_name (as_skip_ws lp0)"
  shows "length (as_skip_ws lp1) - Suc 0 < length lp0"
proof -
  have "length lp1 \<le> length (as_skip_ws lp0)"
    using length_read_name [of "as_skip_ws lp0"] assms(2) by (metis snd_conv)
  also have "\<dots> \<le> length lp0" by simp
  finally show ?thesis using at_tl_shorter [OF assms(1)] by simp
qed

termination label_loop
  by (relation "measure (\<lambda>(lp, st). length lp)") (auto intro: label_rest_less)

declare label_loop.simps [simp del]

definition stems :: "string list" where
  "stems = [''mov'', ''add'', ''or'', ''adc'', ''sbb'', ''and'', ''sub'', ''xor'', ''cmp'', ''test'', ''lea'',
            ''push'', ''pop'', ''inc'', ''dec'', ''not'', ''neg'', ''mul'', ''imul'', ''div'', ''idiv'',
            ''shl'', ''sal'', ''shr'', ''sar'', ''rol'', ''ror'', ''xchg'', ''cmp'']"

text \<open>The mnemonic without its size suffix, and the size the suffix gives (0 for none).\<close>

definition split_suffix :: "string \<Rightarrow> string \<times> nat" where
  "split_suffix m =
     (if length m > 2
      then let c = last m;
               cand = (if c = CHR ''l'' then 4 else if c = CHR ''w'' then 2 else if c = CHR ''b'' then 1 else 0)
           in if cand \<noteq> 0 \<and> take 4 m \<noteq> ''movz'' \<and> take 4 m \<noteq> ''movs'' \<and> butlast m \<in> set stems
              then (butlast m, cand) else (m, 0)
      else (m, 0))"

text \<open>The operands; \<open>None\<close> when the line is given up.\<close>

function read_ops :: "string \<Rightarrow> u8 list \<Rightarrow> operand list \<Rightarrow> asm \<Rightarrow> asm \<times> operand list option" where
  "read_ops stem lp ops st =
     (if at_end lp then (st, Some ops)
      else if length ops \<ge> MAX_OPS then (err (Diag ''too many operands'' stem) st, None)
      else
        let (r, ds, lp) = parse_operand st lp; st = errs ds st in
        case r of None \<Rightarrow> (st, None)
        | Some op \<Rightarrow>
            let lp = as_skip_ws lp
            in if at lp = 0x2C then read_ops stem (tl lp) (ops @ [op]) st else (st, Some (ops @ [op])))"
  by pat_completeness auto

termination read_ops
  by (relation "measure (\<lambda>(stem, lp, ops, st). MAX_OPS - length ops)") auto

declare read_ops.simps [simp del]

text \<open>The width of a register operand, the last one that is one.\<close>

definition infer_size :: "operand list \<Rightarrow> nat" where
  "infer_size ops = (case find (\<lambda>op. kind op = OP_REG) (rev ops) of None \<Rightarrow> 4 | Some op \<Rightarrow> op_size op)"

definition asm_line :: "u8 list \<Rightarrow> asm \<Rightarrow> asm option" where
  "asm_line line st =
     (case label_loop line st of
        (st, None) \<Rightarrow> Some st
      | (st, Some lp) \<Rightarrow>
          let (mnem, lp) = read_name lp in
          if mnem = [] then Some (err (Diag ''expected instruction'' []) st)
          else if hd mnem = CHR ''.'' then do_directive mnem lp st
          else
            let (stem, sz) = split_suffix mnem in
            case read_ops stem (as_skip_ws lp) [] st of
              (st, None) \<Rightarrow> Some st
            | (st, Some ops) \<Rightarrow>
                Some (run_emits (asm_insn stem ops (if sz = 0 then infer_size ops else sz)) st))"


subsection \<open>Passes\<close>

text \<open>One line of at most 255 bytes and what follows it.\<close>

definition take_line :: "u8 list \<Rightarrow> u8 list \<times> u8 list" where
  "take_line p =
     (let l = take (MAX_LINE - 1) (takeWhile (\<lambda>c. c \<noteq> 0 \<and> c \<noteq> 10) p); p = drop (length l) p
      in (l, if at p = 10 then tl p else p))"

text \<open>The line buffer is one array for all lines: behind the terminating zero it keeps what it held.\<close>

function run_lines :: "u8 list \<Rightarrow> u8 list \<Rightarrow> asm \<Rightarrow> asm option" where
  "run_lines buf p st =
     (if at p = 0 then Some st
      else
        let (l, p) = take_line p; buf = l @ 0 # drop (length l + 1) buf in do {
          st \<leftarrow> asm_line buf st;
          let st = st\<lparr>line_no := line_no st + 1\<rparr>;
          if err_count st > 20 then Some (as_puts ''too many errors\<newline>'' st)
          else run_lines buf p st
        })"
  by pat_completeness auto

lemma take_line_shorter:
  assumes "(l, q) = take_line p" "at p \<noteq> 0"
  shows "length q < length p"
proof (cases p)
  case (Cons c cs)
  show ?thesis
  proof (cases "c = 10")
    case True
    then show ?thesis using assms Cons by (simp add: take_line_def at_def)
  next
    case False
    let ?l = "take (MAX_LINE - 1) (takeWhile (\<lambda>c. c \<noteq> 0 \<and> c \<noteq> 10) p)"
    have "?l \<noteq> []" using assms(2) Cons False by (simp add: at_def MAX_LINE_def)
    then have "length (drop (length ?l) p) < length p" using Cons by simp
    then show ?thesis using assms(1) by (auto simp: take_line_def Let_def)
  qed
qed (use assms(2) in \<open>simp add: at_def\<close>)

termination run_lines
  by (relation "measure (\<lambda>(buf, p, st). length p)") (auto dest: take_line_shorter)

declare run_lines.simps [simp del]

definition begin_pass :: "nat \<Rightarrow> asm \<Rightarrow> asm" where
  "begin_pass which st =
     st\<lparr>as_pass := which, cur_sec := SEC_TEXT, text_len := 0, data_len := 0, bss_len := 0, line_no := 1\<rparr>"

definition run_pass :: "nat \<Rightarrow> u8 list \<Rightarrow> u8 list \<Rightarrow> asm \<Rightarrow> asm option" where
  "run_pass which buf src st = run_lines buf src (begin_pass which st)"

subsection \<open>The image\<close>

definition entry_of :: "asm \<Rightarrow> u32" where
  "entry_of st =
     (let def_of = (\<lambda>n. case sym_find st n of
                        Some i \<Rightarrow> if s_defined (syms st ! i) then Some (syms st ! i) else None | None \<Rightarrow> None)
      in case def_of ''_start'' of Some s \<Rightarrow> s_addr s
         | None \<Rightarrow> case def_of ''main'' of Some s \<Rightarrow> s_addr s | None \<Rightarrow> base_text st)"

text \<open>The stores into the header, in their order.\<close>

definition elf_stores :: "u32 \<Rightarrow> u32 \<Rightarrow> u32 \<Rightarrow> (nat \<times> u8 list) list" where
  "elf_stores entry file_sz mem_sz =
     [(0, [0x7F, 0x45, 0x4C, 0x46]), (4, [1, 1, 1]), (16, le16_bytes 2), (18, le16_bytes 3), (20, le32_bytes 1),
      (24, le32_bytes entry), (28, le32_bytes 52), (40, le16_bytes 52), (42, le16_bytes 32), (44, le16_bytes 1),
      (52, le32_bytes 1), (56, le32_bytes 0), (60, le32_bytes 0), (64, le32_bytes 0), (68, le32_bytes file_sz),
      (72, le32_bytes mem_sz), (76, le32_bytes 7), (80, le32_bytes 0x1000)]"

definition elf_header :: "u32 \<Rightarrow> u32 \<Rightarrow> u32 \<Rightarrow> u8 list" where
  "elf_header entry file_sz mem_sz =
     fold (\<lambda>(i, bs) h. arr_put h i bs) (elf_stores entry file_sz mem_sz) (replicate (unat ELF_HDR_SIZE) 0)"

definition build_elf :: "asm \<Rightarrow> int \<Rightarrow> u8 list option" where
  "build_elf st out_max =
     (let file_sz = ELF_HDR_SIZE + text_len st + data_len st in
      if sint file_sz > out_max then None
      else Some (elf_header (entry_of st) file_sz (file_sz + bss_len st) @
                 map (text_buf st) [0..<unat (text_len st)] @ map (data_buf st) [0..<unat (data_len st)]))"

subsection \<open>The program\<close>

text \<open>Section bases after pass 1, and the addresses of the labels.\<close>

definition place :: "asm \<Rightarrow> asm" where
  "place st =
     (let bt = ELF_HDR_SIZE; bd = bt + text_len st; bb = bd + data_len st;
          st = st\<lparr>base_text := bt, base_data := bd, base_bss := bb\<rparr>
      in st\<lparr>syms := map (\<lambda>s. if s_is_abs s \<or> \<not> s_defined s then s
                            else s\<lparr>s_addr := sec_base st (s_section s) + s_offset s\<rparr>) (syms st)\<rparr>)"

text \<open>Pass 1, the placing of the sections, and the emit pass twice; the flag says whether errors stop it.\<close>

definition assemble :: "(nat \<Rightarrow> u8 list) \<Rightarrow> u8 list \<Rightarrow> asm \<Rightarrow> (bool \<times> asm) option" where
  "assemble stk src st = do {
     st \<leftarrow> run_pass 1 (stk 0) src st;
     if err_count st \<noteq> 0 then Some (False, st)
     else do {
       st \<leftarrow> run_pass 2 (stk 1) src (place st);
       st \<leftarrow> run_pass 2 (stk 2) src (st\<lparr>err_count := 0\<rparr>);
       Some (err_count st = 0, st)
     }
   }"

text \<open>
  What the program reads: the current directory, the two names typed in, and what its local buffers hold
  when it starts: the two paths, and the line buffer of each pass.
\<close>

record as_io =
  io_cwd :: "u8 list"
  io_src :: "u8 list"
  io_out :: "u8 list"
  stk_src :: "u8 list"
  stk_out :: "u8 list"
  stk_line :: "nat \<Rightarrow> u8 list"

definition say_bytes :: "u8 list \<Rightarrow> asm \<Rightarrow> asm" where
  "say_bytes t st = st\<lparr>console := console st @ t\<rparr>"

definition asm_start :: asm where
  "asm_start = \<lparr>line_no = 0, err_count = 0, console = [], cur_src = [], syms = [], text_buf = (\<lambda>_. 0),
     data_buf = (\<lambda>_. 0), text_len = 0, data_len = 0, bss_len = 0, cur_sec = SEC_TEXT, as_pass = 0,
     base_text = 0, base_data = 0, base_bss = 0\<rparr>"

definition image_size :: nat where "image_size = MAX_TEXT + MAX_DATA + unat ELF_HDR_SIZE"

definition ok_text :: "asm \<Rightarrow> nat \<Rightarrow> u8 list" where
  "ok_text st n =
     map of_char ''ok: '' @ print_int (text_len st) @ map of_char '' text, '' @ print_int (data_len st) @
     map of_char '' data, '' @ print_int (bss_len st) @ map of_char '' bss, '' @ print_int (of_nat n) @
     map of_char '' bytes\<newline>''"

definition as_main :: "('k, 'z) file_calls_scheme \<Rightarrow> as_io \<Rightarrow> 'k \<Rightarrow> (int \<times> asm \<times> 'k) option" where
  "as_main fc io k =
     (let st = as_puts ''as v1 (x86-32, AT&T)\<newline>'' asm_start;
          st = (if io_cwd io \<noteq> [] then as_puts ''\<newline>'' (say_bytes (io_cwd io) (as_puts ''dir: /'' st)) else st);
          st = as_puts ''output file: '' (as_puts ''source file: '' st)
      in do {
        (ok, p) \<leftarrow> path_fs (Some (io_cwd io)) (Some (io_src io)) (stk_src io);
        if \<not> ok then Some (1, as_puts ''bad source path\<newline>'' st, k)
        else do {
          let srcpath = cstr p;
          (ok, p) \<leftarrow> path_fs (Some (io_cwd io)) (Some (io_out io)) (stk_out io);
          if \<not> ok then Some (1, as_puts ''bad output path\<newline>'' st, k)
          else do {
            let outpath = cstr p;
            let st = st\<lparr>cur_src := srcpath\<rparr>;
            let (n, src) = f_load fc srcpath (MAX_SRC - 1) k;
            if n \<le> 0 then Some (1, as_puts ''\<newline>'' (say_bytes srcpath (as_puts ''read fail: '' st)), k)
            else do {
              (ok, st) \<leftarrow> assemble (stk_line io) (take (nat n) src) st;
              if \<not> ok then Some (1, as_puts ''errors\<newline>'' st, k)
              else
                (case build_elf st (int image_size) of
                   None \<Rightarrow> Some (1, as_puts ''image too large\<newline>'' st, k)
                 | Some elf \<Rightarrow>
                     let (rc, k) = f_save fc outpath (elf @ replicate (image_size - length elf) 0) (length elf) k
                     in if rc \<noteq> 0 then Some (1, as_puts ''save fail\<newline>'' st, k)
                        else Some (0, say_bytes (ok_text st (length elf)) st, k))
            }
          }
        }
      })"

end
