(* ===== verification/AsmTypes.thy ===== *)
theory AsmTypes
  imports AsmDecode Assembler
begin

text \<open>
  Operands are well typed: what \<open>parse_operand\<close> and the operand loop of \<open>asm_line\<close> hand to the encoder is
  what the encoder needs.
\<close>

lemma name_index_Some: "name_index n ns = Some i \<Longrightarrow> i < length ns"
  by (induction ns arbitrary: i) (auto split: if_splits)

lemma reg_index: "name_index n reg32 = Some i \<or> name_index n reg8 = Some i \<or> name_index n reg16 = Some i \<Longrightarrow> (of_nat i :: u32) < 8"
  using name_index_Some [of n reg32 i] name_index_Some [of n reg8 i] name_index_Some [of n reg16 i]
  by (auto simp: reg32_def reg8_def reg16_def word_less_nat_alt unat_of_nat32 simp del: name_index.simps)

lemma reg_lookup_ok: "reg_lookup n = Some (r, sz) \<Longrightarrow> r < 8 \<and> sz \<in> {1, 2, 4}"
  using reg_index [of n] by (auto simp: reg_lookup_def split: option.splits)

lemma reg_operand_ok: "parse_reg_operand lp = (Some (r, sz), ds, lp') \<Longrightarrow> r < 8 \<and> sz \<in> {1, 2, 4}"
  by (auto simp: parse_reg_operand_def dest: reg_lookup_ok split: prod.splits if_splits option.splits)

lemma base_index_ok:
  "parse_base lp = (Some b, ds, lp') \<Longrightarrow> \<forall>x \<in> set_option b. x < 8"
  "parse_index lp = (Some i, ds, lp') \<Longrightarrow> \<forall>x \<in> set_option i. x < 8 \<and> x \<noteq> 4"
  by (auto simp: parse_base_def parse_index_def dest: reg_operand_ok split: prod.splits if_splits option.splits)

lemma paren_ok:
  assumes "parse_paren st op lp = (Some op', ds, lp')" "kind op = OP_MEM" "base op = None" "index op = None"
  shows "op_ok op'"
proof -
  obtain b ds1 l where b: "parse_base (as_skip_ws lp) = (Some b, ds1, l)"
    using assms(1) by (auto simp: parse_paren_def split: prod.splits option.splits)
  show ?thesis
  proof (cases "at (as_skip_ws l) = 0x2C")
    case True
    obtain i ds2 m where i: "parse_index (as_skip_ws (tl (as_skip_ws l))) = (Some i, ds2, m)"
      using assms(1) b True by (auto simp: parse_paren_def split: prod.splits option.splits)
    have "kind op' = OP_MEM \<and> base op' = b \<and> index op' = i"
      using assms b i True
      by (auto simp: parse_paren_def case_prod_unfold Let_def split: if_splits)
    then show ?thesis using base_index_ok(1) [OF b] base_index_ok(2) [OF i] by (simp add: op_ok_def)
  next
    case False
    then have "kind op' = OP_MEM \<and> base op' = b \<and> index op' = None"
      using assms b by (auto simp: parse_paren_def case_prod_unfold Let_def split: if_splits)
    then show ?thesis using base_index_ok(1) [OF b] by (simp add: op_ok_def)
  qed
qed

lemma operand_ok: "parse_operand st lp = (Some op, ds, lp') \<Longrightarrow> op_ok op"
proof (induction st lp rule: parse_operand.induct)
  case (1 st lp0)
  let ?a = "as_skip_ws lp0"
  consider "at ?a = 0" | "at ?a = 0x25" | "at ?a = 0x24" | "at ?a = 0x2A"
    | (mem) "at ?a \<noteq> 0" "at ?a \<noteq> 0x25" "at ?a \<noteq> 0x24" "at ?a \<noteq> 0x2A" by blast
  then show ?case
  proof cases
    case 2
    then show ?thesis using 1(2)
      by (auto simp: parse_operand.simps [of st lp0] op_ok_def dest: reg_operand_ok split: prod.splits)
  next
    case 3
    then show ?thesis using 1(2) by (auto simp: parse_operand.simps [of st lp0] op_ok_def split: prod.splits)
  next
    case 4
    then show ?thesis using 1(1) [OF refl _ _ _ 4] 1(2) by (simp add: parse_operand.simps [of st lp0])
  next
    case mem
    then show ?thesis using 1(2) paren_ok
      by (auto simp: parse_operand.simps [of st lp0] op_ok_def no_operand_def case_prod_unfold Let_def split: if_splits)
         (auto simp: op_ok_def no_operand_def prod_eq_iff)
  qed (use 1(2) in \<open>simp add: parse_operand.simps\<close>)
qed

lemma read_ops_ok: "read_ops m lp ops st = (st', Some ops') \<Longrightarrow> list_all op_ok ops \<Longrightarrow> length ops \<le> 3 \<Longrightarrow> list_all op_ok ops' \<and> length ops' \<le> 3"
proof (induction m lp ops st rule: read_ops.induct)
  case (1 m lp ops st)
  show ?case
  proof (cases "at_end lp \<or> length ops \<ge> MAX_OPS")
    case True
    then show ?thesis using 1(2-4) by (auto simp: read_ops.simps [of m lp] split: if_splits)
  next
    case False
    obtain r ds l where p: "parse_operand st lp = (r, ds, l)" by (cases "parse_operand st lp")
    then obtain op where op: "r = Some op" using False 1(2) by (cases r) (auto simp: read_ops.simps [of m lp] Let_def)
    have k: "op_ok op" "length ops < 3" using operand_ok [of st lp op ds l] p op False by (auto simp: MAX_OPS_def)
    show ?thesis
    proof (cases "at (as_skip_ws l) = 0x2C")
      case True
      then have "read_ops m (tl (as_skip_ws l)) (ops @ [op]) (errs ds st) = (st', Some ops')"
        using 1(2) False p op by (simp add: read_ops.simps [of m lp] Let_def)
      then show ?thesis
        using 1(1) [of "(r, ds, l)" r "(ds, l)" ds l "errs ds st" op "as_skip_ws l"] False p op True 1(3) k by simp
    next
      case False
      then show ?thesis using 1(2,3) \<open>\<not> (at_end lp \<or> length ops \<ge> MAX_OPS)\<close> p op k
        by (auto simp: read_ops.simps [of m lp] Let_def)
    qed
  qed
qed


text \<open>
  C39. Operands are well typed: whatever the line, the operand loop hands the encoder at most three operands,
  each a register with a number below eight and a width of 1, 2 or 4 bytes, an immediate, or a memory operand
  whose base and index are register numbers below eight, the index not 4 (%esp).
\<close>

theorem read_ops_typed:
  assumes "read_ops stem lp [] st = (st', Some ops)"
  shows "length ops \<le> 3 \<and> list_all op_ok ops"
  using read_ops_ok [OF assms] by simp

definition demo_operands :: "u8 list" where
  "demo_operands = map of_char ''$4, 8(%esp,%esi,4)''"

lemma demo_reads: "snd (read_ops ''mov'' demo_operands [] asm_start) =
  Some [no_operand\<lparr>kind := OP_IMM, disp := \<lparr>e_val = 4, has_sym = False\<rparr>\<rparr>,
        no_operand\<lparr>kind := OP_MEM, base := Some 4, index := Some 6, scale := 4, disp := \<lparr>e_val = 8, has_sym = False\<rparr>\<rparr>]"
  by code_simp

theorem read_ops_typed_witness:
  "\<exists>ops. snd (read_ops ''mov'' demo_operands [] asm_start) = Some ops \<and> length ops = 2 \<and> length ops \<le> 3 \<and> list_all op_ok ops"
  using read_ops_typed [of "''mov''" demo_operands asm_start "fst (read_ops ''mov'' demo_operands [] asm_start)"] demo_reads
  by (auto simp: prod_eq_iff)

end
