(* ===== verification/AsmStep.thy ===== *)
theory AsmStep
  imports Assembler
begin

text \<open>
  Two readings of the same line in different passes of the assembler: the cursors stay in step, whatever
  the line buffer holds behind the line, and expressions and operands agree in everything an instruction's
  size depends on. The condition is that a character literal ends in its line, since the code reads on
  behind the terminating zero otherwise.
\<close>

subsection \<open>The part of a line buffer that is the line\<close>

definition live :: "u8 list \<Rightarrow> u8 list" where
  "live lp = takeWhile (\<lambda>c. c \<noteq> 0) lp"

text \<open>A quote is followed by a character, and a backslash behind it by another: a literal ends in its line.\<close>

fun lit_ok :: "u8 list \<Rightarrow> bool" where
  "lit_ok [] \<longleftrightarrow> True"
| "lit_ok (c # cs) \<longleftrightarrow> (c = 0x27 \<longrightarrow> cs \<noteq> [] \<and> (hd cs = 0x5C \<longrightarrow> tl cs \<noteq> [])) \<and> lit_ok cs"

definition same :: "u8 list \<Rightarrow> u8 list \<Rightarrow> bool" where
  "same a b \<longleftrightarrow> live a = live b \<and> lit_ok (live a)"

lemma live_simps [simp]: "live [] = []" "live (c # lp) = (if c = 0 then [] else c # live lp)"
  by (simp_all add: live_def)

lemma at_live: "at lp = at (live lp)"
  by (cases lp) (auto simp: at_def)

lemma live_step: "at lp \<noteq> 0 \<Longrightarrow> live lp = at lp # live (tl lp)"
  by (cases lp) (auto simp: at_def)

lemma same_at: "same a b \<Longrightarrow> at a = at b"
  by (metis at_live same_def)

lemma same_tl: "same a b \<Longrightarrow> at a \<noteq> 0 \<Longrightarrow> same (tl a) (tl b)"
  using same_at [of a b] unfolding same_def
  by (metis live_step list.inject lit_ok.simps(2))

lemma at1_tl: "at1 lp = at (tl lp)"
  by (cases lp) (simp_all only: at1_def at_def One_nat_def arr_get_Nil arr_get_Cons_Suc list.sel)

lemma same_at1: "same a b \<Longrightarrow> at a \<noteq> 0 \<Longrightarrow> at1 a = at1 b"
  by (simp add: at1_tl same_at same_tl)

text \<open>Two cursors in step, by the list of the live bytes.\<close>

lemma same_cases:
  assumes "same a b"
  obtains (stop) "at a = 0" "at b = 0" "live a = []" "live b = []"
  | (more) c a' b' where "a = c # a'" "b = c # b'" "c \<noteq> 0" "same a' b'"
proof (cases "at a = 0")
  case True
  then have "live a = []" by (cases a) (auto simp: at_def)
  then show ?thesis using assms True same_at [OF assms] by (intro stop) (auto simp: same_def)
next
  case False
  then obtain c a' where a: "a = c # a'" by (cases a) (auto simp: at_def)
  then obtain b' where b: "b = c # b'" using same_at [OF assms] False by (cases b) (auto simp: at_def)
  show ?thesis using a b False same_tl [OF assms False] by (intro more [of c a' b']) (auto simp: at_def)
qed

lemma same_refl_tl: "same (c # a) (c # b) \<Longrightarrow> c \<noteq> 0 \<Longrightarrow> same a b"
  using same_tl [of "c # a" "c # b"] by (simp add: at_def)

lemma sym_ch_0 [simp]: "\<not> is_sym_ch 0" "\<not> is_sym_start 0" "\<not> is_dig 0" "\<not> is_space_ch 0"
  by (simp_all add: is_sym_ch_def is_sym_start_def is_dig_def is_space_ch_def)

lemma same_skip: "same a b \<Longrightarrow> same (as_skip_ws a) (as_skip_ws b)"
proof (induction a arbitrary: b)
  case Nil
  then have "at b = 0" using same_at by (fastforce simp: at_def)
  then have "as_skip_ws b = b" by (cases b) (auto simp: as_skip_ws_def at_def)
  then show ?case using Nil by (simp add: as_skip_ws_def)
next
  case (Cons c a)
  from Cons.prems show ?case
  proof (cases rule: same_cases)
    case stop
    then have "as_skip_ws (c # a) = c # a" "as_skip_ws b = b"
      by (auto simp: as_skip_ws_def at_def) (cases b, auto)
    then show ?thesis using Cons.prems by simp
  next
    case (more d a' b')
    then show ?thesis using Cons by (auto simp: as_skip_ws_def)
  qed
qed

lemma same_eat: "same a b \<Longrightarrow> c \<noteq> 0 \<Longrightarrow> fst (eat c a) = fst (eat c b) \<and> same (snd (eat c a)) (snd (eat c b))"
  using same_skip [of a b] same_at [of "as_skip_ws a" "as_skip_ws b"] by (auto simp: eat_def Let_def same_tl)

lemma same_name_loop: "same a b \<Longrightarrow> fst (name_loop n a) = fst (name_loop n b) \<and> same (snd (name_loop n a)) (snd (name_loop n b))"
proof (induction n arbitrary: a b)
  case (Suc n)
  from Suc.prems show ?case
  proof (cases rule: same_cases)
    case stop
    then have "name_loop (Suc n) a = ([], a)" "name_loop (Suc n) b = ([], b)" by (cases a; cases b; auto simp: at_def)+
    then show ?thesis using Suc.prems by simp
  next
    case (more c a' b')
    then show ?thesis using Suc.IH [of a' b'] Suc.prems by (auto simp: case_prod_unfold Let_def)
  qed
qed simp

lemma same_read_name: "same a b \<Longrightarrow> fst (read_name a) = fst (read_name b) \<and> same (snd (read_name a)) (snd (read_name b))"
  using same_skip [of a b] same_at [of "as_skip_ws a" "as_skip_ws b"] same_name_loop [of "as_skip_ws a" "as_skip_ws b" 31]
  by (auto simp: read_name_def Let_def)

lemma dig_val_0 [simp]: "dig_val 0 = None"
  by (simp add: dig_val_def)

lemma same_num_loop: "same a b \<Longrightarrow> fst (num_loop k v a) = fst (num_loop k v b) \<and> same (snd (num_loop k v a)) (snd (num_loop k v b))"
proof (induction a arbitrary: b v)
  case Nil
  then have "at b = 0" using same_at by (fastforce simp: at_def)
  then have "num_loop k v b = (v, b)" by (cases b) (auto simp: at_def)
  then show ?case using Nil by simp
next
  case (Cons c a)
  from Cons.prems show ?case
  proof (cases rule: same_cases)
    case stop
    then have "num_loop k v (c # a) = (v, c # a)" "num_loop k v b = (v, b)"
      by (auto simp: at_def) (cases b, auto)
    then show ?thesis using Cons.prems by simp
  next
    case (more d a' b')
    then show ?thesis using Cons by (auto split: option.splits)
  qed
qed

lemma same_drop2: "same a b \<Longrightarrow> at a \<noteq> 0 \<Longrightarrow> at1 a \<noteq> 0 \<Longrightarrow> same (drop 2 a) (drop 2 b)"
  by (metis One_nat_def Suc_1 at1_tl drop_0 drop_Suc same_tl)

lemma same_read_num: "same a b \<Longrightarrow> at a \<noteq> 0 \<Longrightarrow> fst (read_num a) = fst (read_num b) \<and> same (snd (read_num a)) (snd (read_num b))"
  using same_at [of a b] same_at1 [of a b] same_drop2 [of a b]
  by (auto simp: read_num_def dest: same_num_loop)

lemma same_read_char:
  assumes "same (0x27 # a) (0x27 # b)"
  shows "fst (read_char a) = fst (read_char b) \<and> same (snd (read_char a)) (snd (read_char b))"
proof -
  have s: "same a b" using assms by (rule same_refl_tl) simp
  have q: "live a \<noteq> []" "hd (live a) = 0x5C \<longrightarrow> tl (live a) \<noteq> []" using assms by (auto simp: same_def)
  have a: "at a \<noteq> 0" using q(1) by (cases a) (auto simp: at_def)
  have t: "same (tl a) (tl b)" using s a by (rule same_tl)
  have e: "at a = 0x5C \<Longrightarrow> at (tl a) \<noteq> 0"
    using q(2) live_step [OF a] by (cases "tl a") (auto simp: at_def split: if_splits)
  have u: "at a = 0x5C \<Longrightarrow> same (tl (tl a)) (tl (tl b))" using e t by (simp add: same_tl)
  show ?thesis
    using s t u e same_at [OF s] same_at [OF t] same_at [OF u] same_tl [OF t] same_tl [OF u]
    by (auto simp: read_char_def Let_def)
qed


subsection \<open>Expressions and operands in step\<close>

text \<open>Two values of an expression in different passes: equal unless a symbol took part.\<close>

definition erel :: "expr \<Rightarrow> expr \<Rightarrow> bool" where
  "erel e f \<longleftrightarrow> has_sym e = has_sym f \<and> (has_sym e \<or> e_val e = e_val f)"

definition parse_rel :: "expr \<times> diag list \<times> u8 list \<Rightarrow> expr \<times> diag list \<times> u8 list \<Rightarrow> bool" where
  "parse_rel x y \<longleftrightarrow> erel (fst x) (fst y) \<and> same (snd (snd x)) (snd (snd y))"

lemma same_skip_cases:
  assumes "same a b"
  obtains (stop) "at (as_skip_ws a) = 0" "at (as_skip_ws b) = 0" "same (as_skip_ws a) (as_skip_ws b)"
  | (more) c a' b' where "as_skip_ws a = c # a'" "as_skip_ws b = c # b'" "c \<noteq> 0" "same a' b'" "same (c # a') (c # b')"
proof -
  note s = same_skip [OF assms]
  from s show ?thesis
  proof (cases rule: same_cases)
    case stop
    then show ?thesis using s by (intro that(1))
  next
    case (more c a' b')
    then show ?thesis using s by (intro that(2)) simp_all
  qed
qed

lemma atom_stop: "at (as_skip_ws lp) = 0 \<Longrightarrow> parse_atom st lp = (\<lparr>e_val = 0, has_sym = False\<rparr>, [Diag ''bad expression'' []], as_skip_ws lp)"
  by (cases "as_skip_ws lp") (auto simp: parse_atom.simps at_def)

lemma loop_stop: "at (as_skip_ws lp) = 0 \<Longrightarrow> expr_loop st e lp = (e, [], as_skip_ws lp)"
  by (cases "as_skip_ws lp") (auto simp: expr_loop.simps at_def)

lemma parse_same:
  "same lp lp2 \<Longrightarrow> parse_rel (parse_atom st lp) (parse_atom st2 lp2)"
  "same lp lp2 \<Longrightarrow> parse_rel (parse_expr st lp) (parse_expr st2 lp2)"
  "same lp lp2 \<Longrightarrow> erel e e2 \<Longrightarrow> parse_rel (expr_loop st e lp) (expr_loop st2 e2 lp2)"
proof (induction st lp and st lp and st e lp arbitrary: lp2 and lp2 and lp2 e2 rule: parse_atom_parse_expr_expr_loop.induct)
  case (1 st lp0)
  from 1(4) show ?case
  proof (cases rule: same_skip_cases)
    case stop
    then show ?thesis by (simp add: atom_stop parse_rel_def erel_def)
  next
    case (more c a b)
    note IH = 1(1-3) [OF more(1)]
    show ?thesis
    proof (cases "c = 0x28 \<or> c = 0x2D \<or> c = 0x2B")
      case True
      then show ?thesis
        using more IH same_eat [of "snd (snd (parse_expr st a))" "snd (snd (parse_expr st2 b))" "0x29"]
        by (auto simp: parse_atom.simps [of st] parse_atom.simps [of st2] case_prod_unfold Let_def parse_rel_def erel_def)
    next
      case False
      then show ?thesis
        using more same_read_num [OF more(5)] same_read_name [OF more(5)] same_read_char [of a b] same_at [OF more(4)]
        by (auto simp: parse_atom.simps [of st] parse_atom.simps [of st2] case_prod_unfold Let_def parse_rel_def erel_def at_def)
    qed
  qed
next
  case (2 st lp)
  obtain e ds l where p: "parse_atom st lp = (e, ds, l)" by (cases "parse_atom st lp")
  obtain f es r where q: "parse_atom st2 lp2 = (f, es, r)" by (cases "parse_atom st2 lp2")
  have a: "erel e f" "same l r" using 2(1) [OF 2(3)] p q by (auto simp: parse_rel_def)
  then show ?case using 2(2) [of _ e _ ds l r f] p q
    by (auto simp: parse_expr.simps parse_rel_def case_prod_unfold Let_def)
next
  case (3 st e lp0)
  from 3(3) show ?case
  proof (cases rule: same_skip_cases)
    case stop
    then show ?thesis using 3(4) by (simp add: loop_stop parse_rel_def)
  next
    case (more c a b)
    show ?thesis
    proof (cases "c = 0x2B \<or> c = 0x2D")
      case True
      obtain r ds l where p: "parse_atom st a = (r, ds, l)" by (cases "parse_atom st a")
      obtain r2 es l2 where q: "parse_atom st2 b = (r2, es, l2)" by (cases "parse_atom st2 b")
      have a: "erel r r2" "same l l2" using 3(1) [OF more(1) True more(4)] p q by (auto simp: parse_rel_def)
      let ?f = "\<lambda>e r. \<lparr>e_val = (if c = 0x2D then e_val e - e_val r else e_val e + e_val r), has_sym = (has_sym e \<or> has_sym r)\<rparr>"
      have "erel (?f e r) (?f e2 r2)" using a(1) 3(4) by (auto simp: erel_def)
      then have "parse_rel (expr_loop st (?f e r) l) (expr_loop st2 (?f e2 r2) l2)"
        using 3(2) [OF more(1) True, of "(r, ds, l)" r "(ds, l)" ds l l2 "?f e2 r2"] p a by (simp only: p prod.inject simp_thms)
      then show ?thesis using True more p q
        by (auto simp: expr_loop.simps [of st e lp0] expr_loop.simps [of st2 e2 lp2] parse_rel_def case_prod_unfold Let_def)
    next
      case False
      then show ?thesis using more 3(4) by (simp add: expr_loop.simps parse_rel_def)
    qed
  qed
qed


definition orel :: "operand \<Rightarrow> operand \<Rightarrow> bool" where
  "orel a b \<longleftrightarrow> kind a = kind b \<and> reg a = reg b \<and> op_size a = op_size b \<and> base a = base b \<and> index a = index b \<and>
     erel (disp a) (disp b)"

definition op_rel :: "operand option \<times> diag list \<times> u8 list \<Rightarrow> operand option \<times> diag list \<times> u8 list \<Rightarrow> bool" where
  "op_rel x y \<longleftrightarrow> rel_option orel (fst x) (fst y) \<and> same (snd (snd x)) (snd (snd y))"

text \<open>Two results whose first components are equal and whose cursors are in step.\<close>

definition in_step :: "'a \<times> diag list \<times> u8 list \<Rightarrow> 'a \<times> diag list \<times> u8 list \<Rightarrow> bool" where
  "in_step x y \<longleftrightarrow> fst x = fst y \<and> same (snd (snd x)) (snd (snd y))"

lemma erel_refl [simp]: "erel e e" and orel_refl [simp]: "orel op op"
  by (simp_all add: erel_def orel_def)

lemma in_step_eq: "in_step x y \<Longrightarrow> x = (r, ds, l) \<Longrightarrow> \<exists>es l2. y = (r, es, l2) \<and> same l l2"
  by (cases y) (auto simp: in_step_def)

lemma same_reg_operand: "same a b \<Longrightarrow> in_step (parse_reg_operand a) (parse_reg_operand b)"
  using same_read_name [of a b] by (auto simp: parse_reg_operand_def in_step_def case_prod_unfold Let_def split: option.splits)

lemma same_base_index:
  assumes "same a b"
  shows "in_step (parse_base a) (parse_base b)" "in_step (parse_index a) (parse_index b)"
proof -
  have e: "at a = at b" using assms by (rule same_at)
  show "in_step (parse_base a) (parse_base b)" "in_step (parse_index a) (parse_index b)"
  proof (atomize (full), cases "at a = 0x25")
    case True
    then have r: "in_step (parse_reg_operand (tl a)) (parse_reg_operand (tl b))"
      using assms by (simp add: same_reg_operand same_tl)
    obtain x ds l where x: "parse_reg_operand (tl a) = (x, ds, l)" by (cases "parse_reg_operand (tl a)")
    then obtain es l2 where "parse_reg_operand (tl b) = (x, es, l2)" "same l l2" using in_step_eq [OF r] by blast
    then show "in_step (parse_base a) (parse_base b) \<and> in_step (parse_index a) (parse_index b)"
      using True e x by (auto simp: parse_base_def parse_index_def in_step_def split: option.splits)
  next
    case False
    then show "in_step (parse_base a) (parse_base b) \<and> in_step (parse_index a) (parse_index b)"
      using assms e by (simp add: parse_base_def parse_index_def in_step_def)
  qed
qed

lemma same_closing:
  assumes "orel op1 op2" "same a b"
  shows "op_rel (let (ok, lp) = eat 0x29 a in if ok then (Some op1, ds, lp) else (None, ds', lp))
    (let (ok, lp) = eat 0x29 b in if ok then (Some op2, es, lp) else (None, es', lp))"
  using same_eat [OF assms(2), of "0x29"] assms(1) by (auto simp: op_rel_def case_prod_unfold)

lemma same_paren:
  assumes "same a b" "orel op1 op2"
  shows "op_rel (parse_paren st op1 a) (parse_paren st2 op2 b)"
proof -
  obtain x ds l where x: "parse_base (as_skip_ws a) = (x, ds, l)" by (cases "parse_base (as_skip_ws a)")
  obtain es l2 where y: "parse_base (as_skip_ws b) = (x, es, l2)" "same l l2"
    using in_step_eq [OF same_base_index(1) [OF same_skip [OF assms(1)]] x] by blast
  show ?thesis
  proof (cases x)
    case None
    then show ?thesis using x y by (simp add: parse_paren_def op_rel_def)
  next
    case (Some bs)
    have s: "same (as_skip_ws l) (as_skip_ws l2)" using y(2) by (rule same_skip)
    have ob: "orel (op1\<lparr>base := bs\<rparr>) (op2\<lparr>base := bs\<rparr>)" using assms(2) by (simp add: orel_def)
    show ?thesis
    proof (cases "at (as_skip_ws l) = 0x2C")
      case False
      then show ?thesis using x y Some s same_at [OF s] same_closing [OF ob s]
        by (simp add: parse_paren_def)
    next
      case True
      have t: "same (as_skip_ws (tl (as_skip_ws l))) (as_skip_ws (tl (as_skip_ws l2)))"
        by (rule same_skip [OF same_tl [OF s]]) (simp add: True)
      obtain i ds2 m where i: "parse_index (as_skip_ws (tl (as_skip_ws l))) = (i, ds2, m)"
        by (cases "parse_index (as_skip_ws (tl (as_skip_ws l)))")
      obtain es2 m2 where j: "parse_index (as_skip_ws (tl (as_skip_ws l2))) = (i, es2, m2)" "same m m2"
        using in_step_eq [OF same_base_index(2) [OF t] i] by blast
      have u: "same (as_skip_ws m) (as_skip_ws m2)" using j(2) by (rule same_skip)
      show ?thesis
      proof (cases i)
        case None
        then show ?thesis using x y Some True same_at [OF s] i j by (simp add: parse_paren_def op_rel_def)
      next
        case (Some ix)
        have oi: "orel (op1\<lparr>base := bs, index := ix\<rparr>) (op2\<lparr>base := bs, index := ix\<rparr>)"
          "orel (op1\<lparr>base := bs, index := ix, scale := v\<rparr>) (op2\<lparr>base := bs, index := ix, scale := w\<rparr>)" for v w
          using assms(2) by (simp_all add: orel_def)
        show ?thesis
        proof (cases "at (as_skip_ws m) = 0x2C")
          case False
          then show ?thesis using x y \<open>x = Some bs\<close> True same_at [OF s] i j Some same_at [OF u] same_closing [OF oi(1) u]
            by (simp add: parse_paren_def)
        next
          case sc: True
          have v: "same (tl (as_skip_ws m)) (tl (as_skip_ws m2))" using u sc by (intro same_tl) simp_all
          have w: "same (snd (snd (parse_expr st (tl (as_skip_ws m))))) (snd (snd (parse_expr st2 (tl (as_skip_ws m2)))))"
            using parse_same(2) [OF v, of st st2] by (simp add: parse_rel_def)
          show ?thesis using x y \<open>x = Some bs\<close> True same_at [OF s] i j Some same_at [OF u] sc same_closing [OF oi(2) w]
            by (simp add: parse_paren_def case_prod_unfold Let_def)
        qed
      qed
    qed
  qed
qed

lemma same_operand: "same a b \<Longrightarrow> op_rel (parse_operand st a) (parse_operand st2 b)"
proof (induction st a arbitrary: b rule: parse_operand.induct)
  case (1 st lp0)
  let ?a = "as_skip_ws lp0" and ?b = "as_skip_ws b"
  have s: "same ?a ?b" using 1(2) by (rule same_skip)
  note e = same_at [OF s]
  consider "at ?a = 0" | "at ?a = 0x25" | "at ?a = 0x24" | "at ?a = 0x2A"
    | (mem) "at ?a \<noteq> 0" "at ?a \<noteq> 0x25" "at ?a \<noteq> 0x24" "at ?a \<noteq> 0x2A" by blast
  then show ?case
  proof cases
    case 2
    then show ?thesis using e same_reg_operand [OF same_tl [OF s]]
      by (simp add: parse_operand.simps [of st] parse_operand.simps [of st2] case_prod_unfold Let_def op_rel_def in_step_def option.rel_map)
         (cases "fst (parse_reg_operand (tl ?b))", auto)
  next
    case 3
    then show ?thesis using e parse_same(2) [OF same_tl [OF s], of st st2]
      by (simp add: parse_operand.simps [of st] parse_operand.simps [of st2] case_prod_unfold Let_def op_rel_def parse_rel_def orel_def)
  next
    case 4
    then show ?thesis using e 1(1) [OF refl _ _ _ 4 same_tl [OF s]]
      by (simp add: parse_operand.simps [of st lp0] parse_operand.simps [of st2 b] Let_def)
  next
    case mem
    define x where "x = (if at ?a \<noteq> 0x28 then (let (e, ds, lp) = parse_expr st ?a in ((no_operand\<lparr>kind := OP_MEM\<rparr>)\<lparr>disp := e\<rparr>, ds, lp)) else (no_operand\<lparr>kind := OP_MEM\<rparr>, [], ?a))"
    define y where "y = (if at ?b \<noteq> 0x28 then (let (e, ds, lp) = parse_expr st2 ?b in ((no_operand\<lparr>kind := OP_MEM\<rparr>)\<lparr>disp := e\<rparr>, ds, lp)) else (no_operand\<lparr>kind := OP_MEM\<rparr>, [], ?b))"
    have o: "orel (fst x) (fst y)" "same (snd (snd x)) (snd (snd y))"
      using s e parse_same(2) [OF s, of st st2] by (auto simp: x_def y_def case_prod_unfold parse_rel_def orel_def Let_def)
    let ?l = "as_skip_ws (snd (snd x))" and ?m = "as_skip_ws (snd (snd y))"
    have t: "same ?l ?m" using o(2) by (rule same_skip)
    have pa: "parse_operand st lp0 = (if at ?l = 0x28 then (let (r, ds', lp) = parse_paren st (fst x) (tl ?l) in (r, fst (snd x) @ ds', lp)) else (Some (fst x), fst (snd x), ?l))"
      using mem unfolding parse_operand.simps [of st lp0] x_def by (simp add: case_prod_unfold Let_def)
    have pb: "parse_operand st2 b = (if at ?m = 0x28 then (let (r, ds', lp) = parse_paren st2 (fst y) (tl ?m) in (r, fst (snd y) @ ds', lp)) else (Some (fst y), fst (snd y), ?m))"
      using mem e unfolding parse_operand.simps [of st2 b] y_def by (simp add: case_prod_unfold Let_def)
    show ?thesis unfolding pa pb
      using o t same_at [OF t] same_paren [OF same_tl [OF t] o(1), of st st2]
      by (auto simp: op_rel_def case_prod_unfold Let_def)
  qed (use s e in \<open>simp add: parse_operand.simps op_rel_def\<close>)
qed

end
