(* ===== verification/AsmPasses.thy ===== *)
theory AsmPasses
  imports AsmStep
begin

text \<open>
  The passes of the assembler agree: what a line adds to the sections in pass 1 it adds in pass 2, so
  that every label has the address at which pass 2 meets it. The condition is that character literals end in
  their line and that no alignment depends on a symbol, whose value pass 1 does not know.
\<close>

subsection \<open>The size of an encoding\<close>

fun esize1 :: "emission \<Rightarrow> nat" where
  "esize1 (E8 b) = 1"
| "esize1 (E32 v) = 4"
| "esize1 (Rel e) = 4"
| "esize1 (Bad d) = 0"

definition esize :: "emission list \<Rightarrow> nat" where
  "esize es = sum_list (map esize1 es)"

lemma esize_simps [simp]: "esize [] = 0" "esize (e # es) = esize1 e + esize es" "esize (es @ fs) = esize es + esize fs"
  by (simp_all add: esize_def)

lemma esize_imm [simp]: "esize1 (imm8 a) = 1" "esize1 (imm32 a) = 4" "esize (bad x y) = 0"
  by (simp_all add: imm8_def imm32_def bad_def)

lemma esize_sib [simp]: "esize (sib s i b) = 1"
  by (auto simp: sib_def scale_bits_def Let_def)

lemma orelD:
  assumes "orel a b"
  shows "kind b = kind a" "reg b = reg a" "op_size b = op_size a" "base b = base a" "index b = index a"
    "has_sym (disp b) = has_sym (disp a)" "\<not> has_sym (disp a) \<Longrightarrow> e_val (disp b) = e_val (disp a)"
  using assms by (auto simp: orel_def erel_def)

lemma esize_modrm: "orel a b \<Longrightarrow> esize (emit_modrm r b) = esize (emit_modrm r a)"
  by (cases "has_sym (disp a)") (auto simp: emit_modrm_def disp_mod_def orelD Let_def split: op_kind.splits option.splits)

lemma orel_props: "orel a b \<Longrightarrow> imm_fits8 b = imm_fits8 a" "orel a b \<Longrightarrow> is_acc b = is_acc a" "orel a b \<Longrightarrow> is_abs_mem b = is_abs_mem a"
  by (auto simp: imm_fits8_def is_acc_def is_abs_mem_def orelD)

text \<open>Operand lists in step: at most three matter.\<close>

lemma orel_list:
  assumes "list_all2 orel as bs"
  shows "length bs = length as" "0 < length as \<Longrightarrow> orel (as ! 0) (bs ! 0)" "1 < length as \<Longrightarrow> orel (as ! 1) (bs ! 1)"
    "2 < length as \<Longrightarrow> orel (as ! 2) (bs ! 2)"
  using assms by (auto simp: list_all2_conv_all_nth)

lemma esize_groups2:
  assumes "orel a a'" "orel b b'"
  shows "esize (asm_alu m opc d [a', b'] sz) = esize (asm_alu m opc d [a, b] sz)"
    "esize (asm_mov m [a', b'] sz) = esize (asm_mov m [a, b] sz)"
    "esize (asm_extend m [a', b']) = esize (asm_extend m [a, b])"
    "esize (asm_lea [a', b']) = esize (asm_lea [a, b])"
    "esize (asm_test m [a', b'] sz) = esize (asm_test m [a, b] sz)"
    "esize (asm_xchg m [a', b'] sz) = esize (asm_xchg m [a, b] sz)"
    "esize (asm_imul [a', b']) = esize (asm_imul [a, b])"
    "esize (asm_shift d [a', b'] sz) = esize (asm_shift d [a, b] sz)"
    "esize (asm_cmov m cc [a', b']) = esize (asm_cmov m cc [a, b])"
  by (auto simp: asm_alu_def asm_mov_def asm_extend_def asm_lea_def asm_test_def asm_xchg_def asm_imul_def asm_shift_def
      asm_cmov_def Let_def orelD [OF assms(1)] orelD [OF assms(2)] orel_props [OF assms(1)] orel_props [OF assms(2)]
      esize_modrm [OF assms(1)] esize_modrm [OF assms(2)])

lemma esize_groups1:
  assumes "orel a a'"
  shows "esize (asm_push m [a']) = esize (asm_push m [a])"
    "esize (asm_pop m [a']) = esize (asm_pop m [a])"
    "esize (asm_incdec m [a'] sz) = esize (asm_incdec m [a] sz)"
    "esize (asm_unary m d [a'] sz) = esize (asm_unary m d [a] sz)"
    "esize (asm_imul [a']) = esize (asm_imul [a])"
    "esize (asm_shift d [a'] sz) = esize (asm_shift d [a] sz)"
    "esize (asm_branch m opc d [a']) = esize (asm_branch m opc d [a])"
    "esize (asm_jcc m cc [a']) = esize (asm_jcc m cc [a])"
    "esize (asm_setcc m cc [a']) = esize (asm_setcc m cc [a])"
    "esize (asm_int [a']) = esize (asm_int [a])"
  by (auto simp: asm_push_def asm_pop_def asm_incdec_def asm_unary_def asm_imul_def asm_shift_def asm_branch_def asm_jcc_def
      asm_setcc_def asm_int_def Let_def orelD [OF assms] orel_props [OF assms] esize_modrm [OF assms])

lemma esize_imul3:
  assumes "orel a a'" "orel b b'" "orel c c'"
  shows "esize (asm_imul [a', b', c']) = esize (asm_imul [a, b, c])"
  by (auto simp: asm_imul_def orelD [OF assms(1)] orelD [OF assms(2)] orelD [OF assms(3)] orel_props [OF assms(1)] esize_modrm [OF assms(2)])

text \<open>With another number of operands nothing is emitted.\<close>

lemma esize_arity:
  "length as \<noteq> 2 \<Longrightarrow> esize (asm_alu m opc d as sz) = 0" "length as \<noteq> 2 \<Longrightarrow> esize (asm_mov m as sz) = 0"
  "length as \<noteq> 2 \<Longrightarrow> esize (asm_extend m as) = 0" "length as \<noteq> 2 \<Longrightarrow> esize (asm_lea as) = 0"
  "length as \<noteq> 2 \<Longrightarrow> esize (asm_test m as sz) = 0" "length as \<noteq> 2 \<Longrightarrow> esize (asm_xchg m as sz) = 0"
  "length as \<noteq> 2 \<Longrightarrow> esize (asm_cmov m cc as) = 0"
  "length as \<noteq> 1 \<Longrightarrow> esize (asm_push m as) = 0" "length as \<noteq> 1 \<Longrightarrow> esize (asm_pop m as) = 0"
  "length as \<noteq> 1 \<Longrightarrow> esize (asm_incdec m as sz) = 0" "length as \<noteq> 1 \<Longrightarrow> esize (asm_unary m d as sz) = 0"
  "length as \<noteq> 1 \<Longrightarrow> esize (asm_branch m opc d as) = 0" "length as \<noteq> 1 \<Longrightarrow> esize (asm_jcc m cc as) = 0"
  "length as \<noteq> 1 \<Longrightarrow> esize (asm_setcc m cc as) = 0" "length as \<noteq> 1 \<Longrightarrow> esize (asm_int as) = 0"
  "length as \<notin> {1, 2} \<Longrightarrow> esize (asm_shift d as sz) = 0" "length as \<notin> {1, 2, 3} \<Longrightarrow> esize (asm_imul as) = 0"
  by (simp_all add: asm_alu_def asm_mov_def asm_extend_def asm_lea_def asm_test_def asm_xchg_def asm_cmov_def asm_push_def asm_pop_def
      asm_incdec_def asm_unary_def asm_branch_def asm_jcc_def asm_setcc_def asm_int_def asm_shift_def asm_imul_def Let_def)

lemma orel_lists:
  assumes "list_all2 orel as bs"
  obtains "as = []" "bs = []" | a b where "as = [a]" "bs = [b]" "orel a b"
  | a b c d where "as = [a, c]" "bs = [b, d]" "orel a b" "orel c d"
  | a b c d e f where "as = [a, c, e]" "bs = [b, d, f]" "orel a b" "orel c d" "orel e f"
  | "length as \<notin> {0, 1, 2, 3}" "length bs = length as"
proof -
  note l = list_all2_lengthD [OF assms]
  consider "length as = 0" | "length as = Suc 0" | "length as = Suc (Suc 0)" | "length as = Suc (Suc (Suc 0))"
    | "length as \<notin> {0, 1, 2, 3}" by (auto simp: numeral_eq_Suc)
  then show ?thesis
  proof cases
    case 5
    then show ?thesis using l by (intro that(5)) simp_all
  qed (use assms in \<open>auto simp: length_Suc_conv list_all2_Cons1 intro: that\<close>)
qed

lemmas esize_distrib = if_distrib [of esize] option.case_distrib [of esize] prod.case_distrib [of esize]

lemma esize_insn:
  assumes "list_all2 orel as bs"
  shows "esize (asm_insn m bs sz) = esize (asm_insn m as sz)"
  using assms
proof (cases rule: orel_lists)
  case 1
  then show ?thesis by simp
next
  case 2
  then show ?thesis
    by (simp add: asm_insn_def asm_flow_def esize_distrib esize_groups1 [OF 2(3)] esize_arity split del: if_split cong: option.case_cong prod.case_cong if_cong)
next
  case 3
  then show ?thesis
    by (simp add: asm_insn_def asm_flow_def esize_distrib esize_groups2 [OF 3(3,4)] esize_arity split del: if_split cong: option.case_cong prod.case_cong if_cong)
next
  case 4
  then show ?thesis
    by (simp add: asm_insn_def asm_flow_def esize_distrib esize_imul3 [OF 4(3,4,5)] esize_arity split del: if_split cong: option.case_cong prod.case_cong if_cong)
next
  case 5
  then show ?thesis
    by (simp add: asm_insn_def asm_flow_def esize_distrib esize_arity split del: if_split cong: option.case_cong prod.case_cong if_cong)
qed


subsection \<open>Steps of the assembler\<close>

text \<open>The sections as they are laid out, and \<open>n\<close> more bytes in the current one.\<close>

definition lay :: "asm \<Rightarrow> sec \<times> u32 \<times> u32 \<times> u32" where
  "lay st = (cur_sec st, text_len st, data_len st, bss_len st)"

fun bump :: "nat \<Rightarrow> sec \<times> u32 \<times> u32 \<times> u32 \<Rightarrow> sec \<times> u32 \<times> u32 \<times> u32" where
  "bump n (SEC_TEXT, t, d, b) = (SEC_TEXT, t + of_nat n, d, b)"
| "bump n (SEC_DATA, t, d, b) = (SEC_DATA, t, d + of_nat n, b)"
| "bump n (SEC_BSS, t, d, b) = (SEC_BSS, t, d, b)"

text \<open>A defined symbol stays what it is, or becomes an absolute one.\<close>

definition sym_kept :: "asm \<Rightarrow> asm \<Rightarrow> bool" where
  "sym_kept st st' \<longleftrightarrow>
     (\<forall>n i. sym_find st n = Some i \<and> s_defined (syms st ! i) \<longrightarrow>
        sym_find st' n = Some i \<and> s_defined (syms st' ! i) \<and> (s_is_abs (syms st' ! i) \<or> syms st' ! i = syms st ! i))"

definition later :: "asm \<Rightarrow> asm \<Rightarrow> bool" where
  "later st st' \<longleftrightarrow>
     as_pass st' = as_pass st \<and> base_text st' = base_text st \<and> base_data st' = base_data st \<and> base_bss st' = base_bss st \<and>
     err_count st \<le> err_count st' \<and> (as_pass st = 1 \<and> err_count st' \<noteq> err_count st \<or> sym_kept st st')"

text \<open>Nothing went wrong that only the emit pass notices.\<close>

definition calm :: "asm \<Rightarrow> asm \<Rightarrow> bool" where
  "calm st st' \<longleftrightarrow> as_pass st \<noteq> 2 \<or> err_count st' = err_count st"

definition emits :: "nat \<Rightarrow> asm \<Rightarrow> asm \<Rightarrow> bool" where
  "emits n st st' \<longleftrightarrow> later st st' \<and> syms st' = syms st \<and> (calm st st' \<longrightarrow> lay st' = bump n (lay st))"

text \<open>Two runs in step: equal layouts stay equal.\<close>

definition lock :: "asm \<Rightarrow> asm \<Rightarrow> asm \<Rightarrow> asm \<Rightarrow> bool" where
  "lock s s' t t' \<longleftrightarrow> later s s' \<and> later t t' \<and> (lay s = lay t \<and> calm s s' \<and> calm t t' \<longrightarrow> lay s' = lay t')"

lemma sym_kept_refl [simp]: "sym_kept st st"
  by (simp add: sym_kept_def)

lemma sym_kept_syms: "syms st' = syms st \<Longrightarrow> sym_kept st st'"
  by (simp add: sym_kept_def sym_find_def)

lemma sym_kept_trans: "sym_kept a b \<Longrightarrow> sym_kept b c \<Longrightarrow> sym_kept a c"
  unfolding sym_kept_def by metis

lemma later_refl [simp]: "later st st"
  by (simp add: later_def)

lemma later_trans: "later a b \<Longrightarrow> later b c \<Longrightarrow> later a c"
  unfolding later_def by (metis le_antisym order.trans sym_kept_trans)

lemma calm_split: "later a b \<Longrightarrow> later b c \<Longrightarrow> calm a c \<Longrightarrow> calm a b \<and> calm b c"
  by (auto simp: later_def calm_def)

lemma bump_0 [simp]: "bump 0 l = l"
  by (cases "(0 :: nat, l)" rule: bump.cases) auto

lemma bump_bump: "bump m (bump n l) = bump (n + m) l"
  by (cases "(n, l)" rule: bump.cases) (auto simp: ac_simps)

lemma emits_refl [simp]: "emits 0 st st"
  by (simp add: emits_def)

lemma emits_trans: "emits n a b \<Longrightarrow> emits m b c \<Longrightarrow> emits (n + m) a c"
  using later_trans [of a b c] calm_split [of a b c] by (auto simp: emits_def bump_bump)

lemma emits_later: "emits n st st' \<Longrightarrow> later st st'"
  by (simp add: emits_def)

lemma emits_lock: "emits n s s' \<Longrightarrow> emits n t t' \<Longrightarrow> lock s s' t t'"
  by (auto simp: emits_def lock_def)

lemma lock_refl: "lock s s t t"
  by (simp add: lock_def)

lemma lock_trans: "lock a b p q \<Longrightarrow> lock b c q r \<Longrightarrow> lock a c p r"
  using later_trans [of a b c] later_trans [of p q r] calm_split [of a b c] calm_split [of p q r] by (auto simp: lock_def)

lemma lock_lay: "lock s s' t t' \<Longrightarrow> lay s' = lay t' \<or> \<not> (lay s = lay t \<and> calm s s' \<and> calm t t')"
  by (auto simp: lock_def)

declare err.simps [simp del]

lemma emits_err: "emits 0 st (err d st)"
  by (cases d) (auto simp: err.simps emits_def later_def lay_def Let_def sym_kept_syms)

lemma emits_errs: "emits 0 st (errs ds st)"
proof (induction ds arbitrary: st)
  case (Cons d ds)
  show ?case using emits_trans [OF emits_err Cons.IH] by (simp add: errs_def)
qed (simp add: errs_def)

lemma err_count_err [simp]: "err_count (err d st) = Suc (err_count st)"
  by (cases d) (simp add: err.simps)

lemma emits_emit8: "emits 1 st (emit8 b st)"
  using emits_err [of st]
  by (auto simp: emit8_def emits_def later_def lay_def calm_def sym_kept_syms split: sec.splits)

lemma emits_emit32: "emits 4 st (emit32 v st)" and emits_emit16: "emits 2 st (emit16 v st)"
proof -
  have 2: "emits 2 st (emit16 v st)" for st v
    using emits_trans [OF emits_emit8 emits_emit8] by (simp add: emit16_def numeral_2_eq_2)
  then show "emits 2 st (emit16 v st)" .
  show "emits 4 st (emit32 v st)" using emits_trans [OF 2 2] by (simp add: emit32_def)
qed

lemma emits_run: "emits (esize es) st (run_emits es st)"
proof (induction es arbitrary: st)
  case (Cons e es)
  have "emits (esize1 e) st (run_emit e st)"
    by (cases e) (auto simp: emits_emit8 [simplified] emits_emit32 emits_err emit_rel32_def Let_def)
  from emits_trans [OF this Cons.IH] show ?case by (simp add: run_emits_def)
qed (simp add: run_emits_def)

lemma emits_funpow: "emits n st ((emit8 b ^^ n) st)"
proof (induction n)
  case (Suc n)
  then show ?case using emits_trans [OF Suc emits_emit8] by simp
qed simp


subsection \<open>Directives in step\<close>

lemma same_string_chars:
  "same a b \<Longrightarrow> \<exists>n. emits n st (fst (string_chars a st)) \<and> emits n st2 (fst (string_chars b st2)) \<and>
     same (snd (string_chars a st)) (snd (string_chars b st2))"
proof (induction a st arbitrary: b st2 rule: string_chars.induct)
  case (1 st)
  then have "at b = 0" using same_at [of "[]" b] by (simp add: at_def)
  then have "string_chars b st2 = (st2, b)" by (cases b) (auto simp: at_def)
  then show ?case using 1 by (intro exI [of _ 0]) simp
next
  case (2 c lp st)
  from 2(3) show ?case
  proof (cases rule: same_cases)
    case stop
    then have "string_chars (c # lp) st = (st, c # lp)" "string_chars b st2 = (st2, b)"
      by (auto simp: at_def) (cases b, auto)
    then show ?thesis using 2(3) by (intro exI [of _ 0]) simp
  next
    case (more d a' b')
    then have b: "b = c # b'" "same lp b'" "c \<noteq> 0" by auto
    consider "c = 0x22" | "c \<noteq> 0x22" "c = 0x5C \<and> at lp \<noteq> 0" | "c \<noteq> 0x22" "\<not> (c = 0x5C \<and> at lp \<noteq> 0)" by blast
    then show ?thesis
    proof cases
      case 1
      then show ?thesis using 2(3) b by (intro exI [of _ 0]) simp
    next
      case 2
      obtain n where n: "emits n (emit8 (scast (esc_char (at lp))) st) (fst (string_chars (tl lp) (emit8 (scast (esc_char (at lp))) st)))"
        "emits n (emit8 (scast (esc_char (at lp))) st2) (fst (string_chars (tl b') (emit8 (scast (esc_char (at lp))) st2)))"
        "same (snd (string_chars (tl lp) (emit8 (scast (esc_char (at lp))) st))) (snd (string_chars (tl b') (emit8 (scast (esc_char (at lp))) st2)))"
        using "2.IH"(1) [of "tl b'"] 2 b same_tl [OF b(2)] by blast
      show ?thesis
        using 2 b same_at [OF b(2)] n(3) emits_trans [OF emits_emit8 n(1)] emits_trans [OF emits_emit8 n(2)]
        by (intro exI [of _ "1 + n"]) simp
    next
      case 3
      obtain n where n: "emits n (emit8 (scast c) st) (fst (string_chars lp (emit8 (scast c) st)))"
        "emits n (emit8 (scast c) st2) (fst (string_chars b' (emit8 (scast c) st2)))"
        "same (snd (string_chars lp (emit8 (scast c) st))) (snd (string_chars b' (emit8 (scast c) st2)))"
        using "2.IH"(2) [of b'] 3 b by blast
      show ?thesis
        using 3 b same_at [OF b(2)] n(3) emits_trans [OF emits_emit8 n(1)] emits_trans [OF emits_emit8 n(2)]
        by (intro exI [of _ "1 + n"]) auto
    qed
  qed
qed

text \<open>Two runs that emit the same number of bytes.\<close>

definition alike :: "asm \<Rightarrow> asm \<Rightarrow> asm \<Rightarrow> asm \<Rightarrow> bool" where
  "alike s s' t t' \<longleftrightarrow> (\<exists>n. emits n s s' \<and> emits n t t')"

lemma alikeI: "emits n s s' \<Longrightarrow> emits n t t' \<Longrightarrow> alike s s' t t'"
  by (auto simp: alike_def)

lemma alike_trans: "alike a b p q \<Longrightarrow> alike b c q r \<Longrightarrow> alike a c p r"
  by (meson alike_def emits_trans)

lemma alike_lock: "alike s s' t t' \<Longrightarrow> lock s s' t t'"
  by (auto simp: alike_def intro: emits_lock)

lemma same_emit_string: "same a b \<Longrightarrow> alike st (emit_string z a st) st2 (emit_string z b st2)"
proof (induction z a st arbitrary: b st2 rule: emit_string.induct)
  case (1 z lp0 st)
  let ?a = "as_skip_ws lp0" and ?b = "as_skip_ws b"
  have s: "same ?a ?b" using 1(2) by (rule same_skip)
  show ?case
  proof (cases "at ?a = 0x22")
    case False
    then show ?thesis using same_at [OF s] by (auto simp: emit_string.simps [of z] intro: alikeI emits_err)
  next
    case True
    obtain s1 l1 where x: "string_chars (tl ?a) st = (s1, l1)" by (cases "string_chars (tl ?a) st")
    obtain s2 l2 where y: "string_chars (tl ?b) st2 = (s2, l2)" by (cases "string_chars (tl ?b) st2")
    have c: "alike st s1 st2 s2" "same l1 l2"
      using same_string_chars [OF same_tl [OF s], of st st2] True x y by (auto simp: alike_def)
    let ?l = "as_skip_ws (if at l1 = 0x22 then tl l1 else l1)" and ?m = "as_skip_ws (if at l2 = 0x22 then tl l2 else l2)"
    let ?s = "if z then emit8 0 s1 else s1" and ?t = "if z then emit8 0 s2 else s2"
    have l: "same ?l ?m" using c(2) same_at [OF c(2)] by (auto intro!: same_skip same_tl)
    have t: "alike st ?s st2 ?t" using c(1) by (auto intro: alike_trans alikeI emits_emit8)
    show ?thesis
    proof (cases "at ?l = 0x2C")
      case more: True
      have "alike ?s (emit_string z (tl ?l) ?s) ?t (emit_string z (tl ?m) ?t)"
        using 1(1) [OF refl _ x [symmetric] refl refl refl refl more, of "tl ?m" ?t] True l more by (simp add: same_tl)
      then show ?thesis
        using alike_trans [OF t] True same_at [OF s] x y more same_at [OF l]
        by (simp add: emit_string.simps [of z lp0] emit_string.simps [of z b] Let_def)
    next
      case False
      then show ?thesis using t True same_at [OF s] x y same_at [OF l]
        by (simp add: emit_string.simps [of z lp0] emit_string.simps [of z b] Let_def)
    qed
  qed
qed

lemma emits_width: "emits (if w = 1 then 1 else if w = 2 then 2 else 4) st (emit_width w v st)"
  using emits_emit8 emits_emit16 emits_emit32 by (auto simp: emit_width_def)

lemma same_data_loop: "same a b \<Longrightarrow> alike st (data_loop w a st) st2 (data_loop w b st2)"
proof (induction w a st arbitrary: b st2 rule: data_loop.induct)
  case (1 w lp0 st)
  obtain e ds l where x: "parse_expr st lp0 = (e, ds, l)" by (cases "parse_expr st lp0")
  obtain f es m where y: "parse_expr st2 b = (f, es, m)" by (cases "parse_expr st2 b")
  have lm: "same (as_skip_ws l) (as_skip_ws m)"
    using parse_same(2) [OF 1(2), of st st2] x y by (simp add: parse_rel_def same_skip)
  let ?s = "emit_width w (e_val e) (errs ds st)" and ?t = "emit_width w (e_val f) (errs es st2)"
  have t: "alike st ?s st2 ?t" by (rule alikeI [OF emits_trans [OF emits_errs emits_width] emits_trans [OF emits_errs emits_width]])
  show ?case
  proof (cases "at (as_skip_ws l) = 0x2C")
    case True
    have "alike ?s (data_loop w (tl (as_skip_ws l)) ?s) ?t (data_loop w (tl (as_skip_ws m)) ?t)"
      using 1(1) [OF x [symmetric] refl refl refl refl True, of "tl (as_skip_ws m)" ?t] lm True by (simp add: same_tl)
    then show ?thesis
      using alike_trans [OF t] x y True same_at [OF lm] by (simp add: data_loop.simps [of w lp0] data_loop.simps [of w b] Let_def)
  next
    case False
    then show ?thesis using t x y same_at [OF lm] by (simp add: data_loop.simps [of w lp0] data_loop.simps [of w b] Let_def)
  qed
qed


lemma lockI: "later s s' \<Longrightarrow> later t t' \<Longrightarrow> (lay s = lay t \<Longrightarrow> calm s s' \<Longrightarrow> calm t t' \<Longrightarrow> lay s' = lay t') \<Longrightarrow> lock s s' t t'"
  by (simp add: lock_def)

lemma lay_errs [simp]: "lay (errs ds st) = lay st"
proof (induction ds arbitrary: st)
  case (Cons d ds)
  have "lay (err d st) = lay st" by (cases d) (simp add: err.simps lay_def Let_def)
  then show ?case using Cons.IH [of "err d st"] by (simp add: errs_def)
qed (simp add: errs_def)

lemma sec_len_lay: "lay s = lay t \<Longrightarrow> sec_len s sc = sec_len t sc" "lay s = lay t \<Longrightarrow> cur_sec s = cur_sec t"
  by (cases sc; simp add: lay_def)+

lemma lock_bss: "e_val n = e_val m \<Longrightarrow> lock s (s\<lparr>bss_len := bss_len s + e_val n\<rparr>) t (t\<lparr>bss_len := bss_len t + e_val m\<rparr>)"
  by (auto simp: lock_def later_def lay_def sym_kept_syms)

lemma same_space: "same a b \<Longrightarrow> lay st = lay st2 \<Longrightarrow> lock st (do_space a st) st2 (do_space b st2)"
proof -
  assume s: "same a b" and l: "lay st = lay st2"
  obtain n ds lp where x: "parse_expr st a = (n, ds, lp)" by (cases "parse_expr st a")
  obtain m es lq where y: "parse_expr st2 b = (m, es, lq)" by (cases "parse_expr st2 b")
  have r: "erel n m" "same lp lq" using parse_same(2) [OF s, of st st2] x y by (simp_all add: parse_rel_def)
  note c = same_skip [OF r(2)]
  let ?s = "errs ds st" and ?t = "errs es st2"
  have st: "lock st ?s st2 ?t" by (rule emits_lock [OF emits_errs emits_errs])
  show ?thesis
  proof (cases "has_sym n")
    case True
    then show ?thesis using x y r lock_trans [OF st emits_lock [OF emits_err emits_err]]
      by (simp add: do_space_def Let_def erel_def)
  next
    case False
    then have v: "e_val n = e_val m" "\<not> has_sym m" using r(1) by (auto simp: erel_def)
    obtain f ds2 where f: "(if at (as_skip_ws lp) = 0x2C then (let (f, ds, _) = parse_expr ?s (tl (as_skip_ws lp)) in (e_val f, ds)) else (0, [])) = (f, ds2)"
      by (cases "(if at (as_skip_ws lp) = 0x2C then (let (f, ds, _) = parse_expr ?s (tl (as_skip_ws lp)) in (e_val f, ds)) else (0, []))")
    obtain g es2 where g: "(if at (as_skip_ws lq) = 0x2C then (let (f, ds, _) = parse_expr ?t (tl (as_skip_ws lq)) in (e_val f, ds)) else (0, [])) = (g, es2)"
      by (cases "(if at (as_skip_ws lq) = 0x2C then (let (f, ds, _) = parse_expr ?t (tl (as_skip_ws lq)) in (e_val f, ds)) else (0, []))")
    let ?u = "errs ds2 ?s" and ?w = "errs es2 ?t"
    have u: "lock st ?u st2 ?w" using lock_trans [OF st emits_lock [OF emits_errs emits_errs]] .
    have sec: "cur_sec ?u = cur_sec ?w" using l by (intro sec_len_lay(2)) simp
    have "do_space a st = (if cur_sec ?u = SEC_BSS then ?u\<lparr>bss_len := bss_len ?u + e_val n\<rparr> else (emit8 f ^^ nat (sint (e_val n))) ?u)"
      using x f False by (simp add: do_space_def Let_def)
    moreover have "do_space b st2 = (if cur_sec ?w = SEC_BSS then ?w\<lparr>bss_len := bss_len ?w + e_val m\<rparr> else (emit8 g ^^ nat (sint (e_val m))) ?w)"
      using y g v by (simp add: do_space_def Let_def)
    ultimately show ?thesis
      using sec v lock_trans [OF u lock_bss [OF v(1)]] lock_trans [OF u emits_lock [OF emits_funpow emits_funpow]] by simp
  qed
qed

lemma lay_align_step:
  "later st (align_step st) \<and> (calm st (align_step st) \<longrightarrow> lay (align_step st) =
     (let (sc, t, d, b) = lay st in if sc = SEC_BSS then (sc, t, d, b + 1) else bump 1 (sc, t, d, b)))"
  using emits_emit8 [of st]
  by (auto simp: align_step_def emits_def later_def sym_kept_syms split: prod.splits) (auto simp: lay_def)

lemma lock_align_step: "lock s (align_step s) t (align_step t)"
  using lay_align_step [of s] lay_align_step [of t] by (auto simp: lock_def)

lemma later_align_loop: "align_loop a st = Some st' \<Longrightarrow> later st st'"
proof (rule align_loop.raw_induct [of "\<lambda>a st st'. later st st'" a st st'])
  fix loop a st st'
  assume "\<And>a st st'. loop a st = Some st' \<Longrightarrow> later st st'"
    and "(if sint (sec_len st (cur_sec st)) mod sint a = 0 then Some st else loop a (align_step st)) = Some st'"
  then show "later st st'"
    using lay_align_step [of st] by (auto split: if_splits intro: later_trans)
qed

lemma lock_align_loop:
  assumes "align_loop a s = Some s'"
  shows "lay s = lay t \<Longrightarrow> align_loop a t = Some t' \<Longrightarrow> calm s s' \<Longrightarrow> calm t t' \<Longrightarrow> lay s' = lay t'"
proof (rule align_loop.raw_induct [of "\<lambda>a s s'. \<forall>t. later s s' \<and> (lay s = lay t \<and> align_loop a t = Some t' \<and> calm s s' \<and> calm t t' \<longrightarrow> lay s' = lay t')" a s s', THEN spec, THEN conjunct2, THEN mp])
  fix loop a s s'
  assume IH: "\<And>a s s'. loop a s = Some s' \<Longrightarrow> \<forall>t. later s s' \<and> (lay s = lay t \<and> align_loop a t = Some t' \<and> calm s s' \<and> calm t t' \<longrightarrow> lay s' = lay t')"
    and l: "(if sint (sec_len s (cur_sec s)) mod sint a = 0 then Some s else loop a (align_step s)) = Some s'"
  show "\<forall>t. later s s' \<and> (lay s = lay t \<and> align_loop a t = Some t' \<and> calm s s' \<and> calm t t' \<longrightarrow> lay s' = lay t')"
  proof (intro allI conjI impI)
    fix t
    show m: "later s s'" using l IH [of a "align_step s" s'] lay_align_step [of s] by (auto split: if_splits intro: later_trans)
    assume t: "lay s = lay t \<and> align_loop a t = Some t' \<and> calm s s' \<and> calm t t'"
    then have e: "sec_len t (cur_sec t) = sec_len s (cur_sec s)" using sec_len_lay [of s t] by simp
    show "lay s' = lay t'"
    proof (cases "sint (sec_len s (cur_sec s)) mod sint a = 0")
      case True
      then show ?thesis using t l e by (simp add: align_loop.simps [of a t])
    next
      case False
      then have n: "loop a (align_step s) = Some s'" "align_loop a (align_step t) = Some t'"
        using t l e align_loop.simps [of a t] by simp_all
      have k: "later (align_step s) s'" "later (align_step t) t'" using IH [OF n(1)] later_align_loop [OF n(2)] by auto
      then have "calm s (align_step s) \<and> calm (align_step s) s'" "calm t (align_step t) \<and> calm (align_step t) t'"
        using t lay_align_step calm_split by blast+
      moreover from this have "lay (align_step s) = lay (align_step t)"
        using lock_align_step [of s t] t by (simp add: lock_def)
      ultimately show ?thesis using IH [OF n(1)] n(2) by blast
    qed
  qed
qed (use assms in auto)

definition const_align :: "u8 list \<Rightarrow> bool" where
  "const_align lp \<longleftrightarrow> \<not> has_sym (fst (parse_expr asm_start lp))"

lemma lock_align:
  assumes "same a b" "const_align a" "do_align p a st = Some st'" "do_align p b st2 = Some st2'"
  shows "lock st st' st2 st2'"
proof -
  obtain e ds lp where x: "parse_expr st a = (e, ds, lp)" by (cases "parse_expr st a")
  obtain f es lq where y: "parse_expr st2 b = (f, es, lq)" by (cases "parse_expr st2 b")
  have "same a a" using assms(1) by (auto simp: same_def)
  then have "\<not> has_sym e" using parse_same(2) [of a a asm_start st] assms(2) x by (simp add: const_align_def parse_rel_def erel_def)
  then have v: "e_val f = e_val e" using parse_same(2) [OF assms(1), of st st2] x y by (simp add: parse_rel_def erel_def)
  let ?al = "if p then ((\<lambda>a. a * 2) ^^ nat (sint (e_val e))) 1 else e_val e"
  have st: "lock st (errs ds st) st2 (errs es st2)" by (rule emits_lock [OF emits_errs emits_errs])
  have u: "do_align p a st = (if sint ?al \<le> 1 then Some (errs ds st) else align_loop ?al (errs ds st))"
    "do_align p b st2 = (if sint ?al \<le> 1 then Some (errs es st2) else align_loop ?al (errs es st2))"
    by (simp_all only: do_align_def x y Let_def v prod.case)
  show ?thesis
  proof (cases "sint ?al \<le> 1")
    case True
    then show ?thesis using st assms(3,4) by (simp only: u if_True option.inject)
  next
    case False
    then have l: "align_loop ?al (errs ds st) = Some st'" "align_loop ?al (errs es st2) = Some st2'"
      using assms(3,4) by (simp_all only: u if_False)
    have "lock (errs ds st) st' (errs es st2) st2'"
      using lock_align_loop [OF l(1) _ l(2)] later_align_loop [OF l(1)] later_align_loop [OF l(2)] by (intro lockI) auto
    then show ?thesis by (rule lock_trans [OF st])
  qed
qed


subsection \<open>Symbols\<close>

lemma sym_index_append: "sym_index (ss @ ts) n = (case sym_index ss n of Some i \<Rightarrow> Some i | None \<Rightarrow> map_option (\<lambda>i. length ss + i) (sym_index ts n))"
  by (induction ss; cases "sym_index ts n") (auto split: option.splits)

lemma sym_index_Some: "sym_index ss n = Some i \<Longrightarrow> i < length ss \<and> s_name (ss ! i) = n"
  by (induction ss arbitrary: i) (auto split: if_splits)

lemma sym_index_update: "s_name s = s_name (ss ! i) \<Longrightarrow> sym_index (ss[i := s]) n = sym_index ss n"
  by (induction ss arbitrary: i) (auto split: nat.splits)

text \<open>Only the names that a step adds or changes matter.\<close>

lemma later_syms:
  assumes "sym_kept st (st\<lparr>syms := ss\<rparr>)"
  shows "later st (st\<lparr>syms := ss\<rparr>)"
  using assms by (simp add: later_def)

lemma intern_step:
  assumes "sym_intern n st = (r, st')"
  shows "later st st'" "lay st' = lay st"
    "r = Some i \<Longrightarrow> length n < 32 \<Longrightarrow> sym_find st' n = Some i \<and> i < length (syms st')"
    "r = Some i \<Longrightarrow> err_count st' = err_count st"
proof -
  let ?s = "\<lparr>s_name = take 31 n, s_section = SEC_TEXT, s_offset = 0, s_addr = 0, s_is_abs = False, s_defined = False\<rparr>"
  have k: "sym_kept st (st\<lparr>syms := syms st @ [?s]\<rparr>)"
    by (auto simp: sym_kept_def sym_find_def sym_index_append nth_append dest: sym_index_Some)
  show "later st st'" "lay st' = lay st"
    "r = Some i \<Longrightarrow> length n < 32 \<Longrightarrow> sym_find st' n = Some i \<and> i < length (syms st')"
    "r = Some i \<Longrightarrow> err_count st' = err_count st"
    using assms later_syms [OF k] emits_later [OF emits_err] lay_errs [of "[Diag ''too many symbols'' n]" st]
    by (auto simp: sym_intern_def sym_find_def sym_index_append lay_def errs_def dest: sym_index_Some split: option.splits if_splits)
qed

lemma later_set_abs:
  assumes "i < length (syms st)"
  shows "later st (st\<lparr>syms := (syms st)[i := set_abs v (syms st ! i)]\<rparr>)"
proof (rule later_syms, unfold sym_kept_def, intro allI impI, elim conjE)
  fix n j assume "sym_find st n = Some j" "s_defined (syms st ! j)"
  moreover have "sym_index ((syms st)[i := set_abs v (syms st ! i)]) n = sym_index (syms st) n"
    by (rule sym_index_update) (simp add: set_abs_def)
  ultimately show "sym_find (st\<lparr>syms := (syms st)[i := set_abs v (syms st ! i)]\<rparr>) n = Some j \<and>
    s_defined (syms (st\<lparr>syms := (syms st)[i := set_abs v (syms st ! i)]\<rparr>) ! j) \<and>
    (s_is_abs (syms (st\<lparr>syms := (syms st)[i := set_abs v (syms st ! i)]\<rparr>) ! j) \<or>
      syms (st\<lparr>syms := (syms st)[i := set_abs v (syms st ! i)]\<rparr>) ! j = syms st ! j)"
    using assms by (auto simp: sym_find_def nth_list_update set_abs_def)
qed

lemma name_short: "length (fst (name_loop n lp)) \<le> n"
  by (induction n lp rule: name_loop.induct) (auto simp: case_prod_unfold Let_def)

lemma read_name_short: "length (fst (read_name lp)) < 32"
  using name_short [of 31 "as_skip_ws lp"] by (auto simp: read_name_def Let_def)

lemma equ_step: "later st (do_equ lp st) \<and> lay (do_equ lp st) = lay st"
proof -
  obtain n l where x: "read_name lp = (n, l)" by (cases "read_name lp")
  obtain ok m where y: "eat 0x2C l = (ok, m)" by (cases "eat 0x2C l")
  obtain v ds q where z: "parse_expr st m = (v, ds, q)" by (cases "parse_expr st m")
  obtain r st' where i: "sym_intern n (errs ds st) = (r, st')" by (cases "sym_intern n (errs ds st)")
  have e: "later st (errs ds st)" "later st (err d st)" "lay (err d st) = lay st" for d
    using emits_later [OF emits_errs] emits_later [OF emits_err] lay_errs [of "[d]" st] by (auto simp: errs_def)
  have s: "later st st'" "lay st' = lay st" using later_trans [OF e(1) intern_step(1) [OF i]] intern_step(2) [OF i] by auto
  show ?thesis
  proof (cases "n = [] \<or> \<not> ok")
    case True
    then show ?thesis using x y e by (auto simp: do_equ_def)
  next
    case False
    have "length n < 32" using read_name_short [of lp] x by simp
    then show ?thesis
      using False x y z i s intern_step(3) [OF i] later_trans [OF s(1) later_set_abs]
      by (auto simp: do_equ_def lay_def split: option.splits)
  qed
qed

lemma lock_same_lay: "later s s' \<and> lay s' = lay s \<Longrightarrow> later t t' \<and> lay t' = lay t \<Longrightarrow> lock s s' t t'"
  by (auto simp: lock_def)

lemma lock_sec: "lock s (s\<lparr>cur_sec := c\<rparr>) t (t\<lparr>cur_sec := c\<rparr>)"
  by (auto simp: lock_def later_def lay_def sym_kept_syms)

definition align_names :: "string list" where
  "align_names = [''.align'', ''.balign'', ''.p2align'']"

lemma same_branch:
  assumes "(if c then A else B) = Some x \<and> (if c then A' else B') = Some y"
  obtains "c" "A = Some x \<and> A' = Some y" | "\<not> c" "B = Some x \<and> B' = Some y"
  using assms by (cases c) auto

lemma lock_Some: "Some x = Some s' \<and> Some y = Some t' \<Longrightarrow> lock s x t y \<Longrightarrow> lock s s' t t'"
  by simp

lemma lock_directive:
  assumes "same a b" "d \<in> set align_names \<Longrightarrow> const_align a" "lay st = lay st2"
    "do_directive d a st = Some st' \<and> do_directive d b st2 = Some st2'"
  shows "lock st st' st2 st2'"
proof -
  note locks = lock_sec lock_refl alike_lock [OF same_emit_string [OF assms(1)]] alike_lock [OF same_data_loop [OF assms(1)]]
    same_space [OF assms(1,3)] lock_same_lay [OF equ_step equ_step] emits_lock [OF emits_err emits_err]
  have al: "d \<in> set align_names \<Longrightarrow> do_align p a st = Some st' \<and> do_align p b st2 = Some st2' \<Longrightarrow> lock st st' st2 st2'" for p
    using lock_align [OF assms(1,2)] by blast
  show ?thesis
    using assms(4) unfolding do_directive_def
    by (elim same_branch)
       ((erule lock_Some, rule locks) | (rule al, force simp: align_names_def, assumption))+
qed


subsection \<open>Lines in step\<close>

text \<open>A label: the layout stays, and without an error the symbol has the place where the assembler stands.\<close>

definition label_at :: "asm \<Rightarrow> string \<Rightarrow> sec \<Rightarrow> u32 \<Rightarrow> bool" where
  "label_at st n sc off \<longleftrightarrow>
     (\<exists>i. sym_find st n = Some i \<and> s_defined (syms st ! i) \<and>
          (s_is_abs (syms st ! i) \<or> s_section (syms st ! i) = sc \<and> s_offset (syms st ! i) = off))"

lemma label_at_kept: "label_at st n sc off \<Longrightarrow> sym_kept st st' \<Longrightarrow> label_at st' n sc off"
  unfolding label_at_def sym_kept_def by metis

lemma def_label_1:
  assumes p: "as_pass st = 1" and n: "length n < 32"
  shows "later st (def_label n st)" "lay (def_label n st) = lay st"
    "err_count (def_label n st) = err_count st \<Longrightarrow> label_at (def_label n st) n (cur_sec st) (sec_len st (cur_sec st))"
proof -
  obtain r st1 where i: "sym_intern n st = (r, st1)" by (cases "sym_intern n st")
  note k = intern_step [OF i]
  have "later st (def_label n st) \<and> lay (def_label n st) = lay st \<and>
    (err_count (def_label n st) = err_count st \<longrightarrow> label_at (def_label n st) n (cur_sec st) (sec_len st (cur_sec st)))"
  proof (cases r)
    case None
    then have "err_count st1 = Suc (err_count st)" using i by (auto simp: sym_intern_def split: option.splits if_splits)
    then show ?thesis using None i p k by (simp add: def_label_def)
  next
    case (Some j)
    then have f: "sym_find st1 n = Some j" "j < length (syms st1)" "err_count st1 = err_count st" using k(3,4) n by auto
    define st2 where "st2 = (if s_defined (syms st1 ! j) then err (Diag ''duplicate label'' n) st1 else st1)"
    let ?s = "set_label (cur_sec st2) (sec_len st2 (cur_sec st2)) (syms st2 ! j)"
    have d: "def_label n st = st2\<lparr>syms := (syms st2)[j := ?s]\<rparr>"
      using p i Some by (simp add: def_label_def st2_def Let_def)
    have l: "later st1 st2" "lay st2 = lay st1" "syms st2 = syms st1"
      using emits_err [of st1] lay_errs [of "[Diag ''duplicate label'' n]" st1] by (auto simp: st2_def emits_def errs_def)
    have x: "sym_index ((syms st2)[j := ?s]) m = sym_index (syms st2) m" for m
      by (rule sym_index_update) (simp add: set_label_def)
    have sl: "cur_sec st2 = cur_sec st" "sec_len st2 (cur_sec st2) = sec_len st (cur_sec st)"
      using sec_len_lay [of st2 st] l(2) k(2) by auto
    show ?thesis
    proof (cases "s_defined (syms st1 ! j)")
      case True
      then have "err_count (def_label n st) = Suc (err_count st)" using d f(3) by (simp add: st2_def)
      then show ?thesis using l k d p by (simp add: later_def lay_def)
    next
      case False
      then have e: "st2 = st1" by (simp add: st2_def)
      have "sym_kept st1 (def_label n st)"
        using False x f unfolding d e sym_kept_def by (auto simp: sym_find_def nth_list_update)
      then have "later st1 (def_label n st)" using d e by (simp add: later_def)
      moreover have "label_at (def_label n st) n (cur_sec st) (sec_len st (cur_sec st))"
        unfolding label_at_def using f x d sl by (auto simp: sym_find_def set_label_def l(3))
      ultimately show ?thesis using later_trans [OF k(1)] d e k(2) by (simp add: lay_def)
    qed
  qed
  then show "later st (def_label n st)" "lay (def_label n st) = lay st"
    "err_count (def_label n st) = err_count st \<Longrightarrow> label_at (def_label n st) n (cur_sec st) (sec_len st (cur_sec st))" by auto
qed

lemma def_label_step: "length n < 32 \<Longrightarrow> later st (def_label n st) \<and> lay (def_label n st) = lay st"
  by (cases "as_pass st = 1") (auto simp: def_label_1, simp_all add: def_label_def)

text \<open>The labels of a line, by the cursor alone.\<close>

function labels :: "u8 list \<Rightarrow> string list" where
  "labels lp0 =
     (let lp = as_skip_ws lp0 in
      if at_end lp then []
      else if is_sym_start (at lp)
      then (let (n, lp1) = read_name lp; lp1 = as_skip_ws lp1 in if at lp1 = 0x3A then n # labels (tl lp1) else [])
      else [])"
  by pat_completeness auto

termination labels
  by (relation "measure length") (auto intro: label_rest_less)

declare labels.simps [simp del]

lemma same_end: "same a b \<Longrightarrow> at_end a = at_end b"
  using same_at [of a b] same_at1 [of a b] by (auto simp: at_end_def)

lemma same_labels:
  "same a b \<Longrightarrow> labels a = labels b \<and> rel_option same (snd (label_loop a st)) (snd (label_loop b st2)) \<and>
     later st (fst (label_loop a st)) \<and> lay (fst (label_loop a st)) = lay st \<and>
     (as_pass st = 1 \<and> err_count (fst (label_loop a st)) = err_count st \<longrightarrow>
        (\<forall>n \<in> set (labels a). label_at (fst (label_loop a st)) n (cur_sec st) (sec_len st (cur_sec st))))"
proof (induction a st arbitrary: b st2 rule: label_loop.induct)
  case (1 lp0 st)
  let ?a = "as_skip_ws lp0" and ?b = "as_skip_ws b"
  have s: "same ?a ?b" using 1(2) by (rule same_skip)
  show ?case
  proof (cases "\<not> at_end ?a \<and> is_sym_start (at ?a) \<and> at (as_skip_ws (snd (read_name ?a))) = 0x3A")
    case False
    then show ?thesis using s same_at [OF s] same_end [OF s] same_read_name [OF s] same_at [OF same_skip, OF same_read_name [OF s, THEN conjunct2]]
      by (auto simp: label_loop.simps [of lp0] label_loop.simps [of b] labels.simps [of lp0] labels.simps [of b] Let_def case_prod_unfold)
  next
    case True
    let ?n = "fst (read_name ?a)" and ?l = "as_skip_ws (snd (read_name ?a))" and ?m = "as_skip_ws (snd (read_name ?b))"
    have r: "fst (read_name ?b) = ?n" "same ?l ?m" using same_read_name [OF s] by (auto intro: same_skip)
    have t: "same (tl ?l) (tl ?m)" using r(2) True by (intro same_tl) simp_all
    have d: "later st (def_label ?n st)" "lay (def_label ?n st) = lay st" using def_label_step [OF read_name_short] by auto
    let ?s = "def_label ?n st" and ?f = "fst (label_loop (tl ?l) (def_label ?n st))"
    have IH: "labels (tl ?l) = labels (tl ?m)"
      "rel_option same (snd (label_loop (tl ?l) ?s)) (snd (label_loop (tl ?m) (def_label ?n st2)))"
      "later ?s ?f" "lay ?f = lay ?s"
      "as_pass ?s = 1 \<Longrightarrow> err_count ?f = err_count ?s \<Longrightarrow>
         \<forall>n\<in>set (labels (tl ?l)). label_at ?f n (cur_sec ?s) (sec_len ?s (cur_sec ?s))"
      using 1(1) [of ?a "read_name ?a" ?n "snd (read_name ?a)" ?l "tl ?m" "def_label ?n st2"] True t by auto
    have a: "label_loop lp0 st = label_loop (tl ?l) (def_label ?n st)" "labels lp0 = ?n # labels (tl ?l)"
      "label_loop b st2 = label_loop (tl ?m) (def_label ?n st2)" "labels b = ?n # labels (tl ?m)"
      using True s same_at [OF s] same_end [OF s] same_at [OF r(2)] r(1)
      by (simp_all add: label_loop.simps [of lp0] label_loop.simps [of b] labels.simps [of lp0] labels.simps [of b] Let_def case_prod_unfold)
    have l: "later st ?f" using d(1) IH(3) by (rule later_trans)
    have "\<forall>n\<in>set (labels lp0). label_at ?f n (cur_sec st) (sec_len st (cur_sec st))"
      if p: "as_pass st = 1" "err_count ?f = err_count st"
    proof -
      have e: "err_count ?s = err_count st" "err_count ?f = err_count ?s" "as_pass ?s = 1" "sym_kept ?s ?f"
        using d(1) IH(3) p by (auto simp: later_def)
      have "label_at ?f ?n (cur_sec st) (sec_len st (cur_sec st))"
        using def_label_1(3) [OF p(1) read_name_short e(1)] e(4) by (rule label_at_kept)
      then show ?thesis using IH(5) [OF e(3,2)] sec_len_lay [OF d(2)] by (simp add: a(2))
    qed
    then show ?thesis using a IH(1,2,4) l d(2) by simp
  qed
qed


lemma emits_after_errs: "emits n (errs ds st) st' \<Longrightarrow> emits n st st'"
  using emits_trans [OF emits_errs] by fastforce

lemma same_read_ops:
  "same a b \<Longrightarrow> list_all2 orel ops ops2 \<Longrightarrow>
    emits 0 st (fst (read_ops m a ops st)) \<and> emits 0 st2 (fst (read_ops m b ops2 st2)) \<and>
    rel_option (list_all2 orel) (snd (read_ops m a ops st)) (snd (read_ops m b ops2 st2))"
proof (induction m a ops st arbitrary: b ops2 st2 rule: read_ops.induct)
  case (1 m lp ops st)
  have n: "length ops2 = length ops" using 1(3) by (simp add: list_all2_lengthD)
  show ?case
  proof (cases "at_end lp \<or> length ops \<ge> MAX_OPS")
    case True
    then show ?thesis using 1(2,3) n same_end [OF 1(2)]
      by (auto simp: read_ops.simps [of m lp] read_ops.simps [of m b] emits_err)
  next
    case False
    obtain r ds l where x: "parse_operand st lp = (r, ds, l)" by (cases "parse_operand st lp")
    obtain q es l2 where y: "parse_operand st2 b = (q, es, l2)" by (cases "parse_operand st2 b")
    have o: "rel_option orel r q" "same (as_skip_ws l) (as_skip_ws l2)"
      using same_operand [OF 1(2), of st st2] x y by (auto simp: op_rel_def intro: same_skip)
    note F = False n same_end [OF 1(2)] x y
    show ?thesis
    proof (cases r)
      case None
      then have "q = None" using o(1) by simp
      then show ?thesis using None F
        by (simp add: read_ops.simps [of m lp] read_ops.simps [of m b] Let_def emits_errs)
    next
      case (Some op)
      then obtain op2 where q: "q = Some op2" "orel op op2" using o(1) by (cases q) auto
      have l: "list_all2 orel (ops @ [op]) (ops2 @ [op2])" using 1(3) q(2) by (simp add: list_all2_appendI)
      show ?thesis
      proof (cases "at (as_skip_ws l) = 0x2C")
        case True
        have "same (tl (as_skip_ws l)) (tl (as_skip_ws l2))" using o(2) True by (intro same_tl) simp_all
        then have "emits 0 (errs ds st) (fst (read_ops m (tl (as_skip_ws l)) (ops @ [op]) (errs ds st))) \<and>
          emits 0 (errs es st2) (fst (read_ops m (tl (as_skip_ws l2)) (ops2 @ [op2]) (errs es st2))) \<and>
          rel_option (list_all2 orel) (snd (read_ops m (tl (as_skip_ws l)) (ops @ [op]) (errs ds st)))
            (snd (read_ops m (tl (as_skip_ws l2)) (ops2 @ [op2]) (errs es st2)))"
          using 1(1) [of "(r, ds, l)" r "(ds, l)" ds l "errs ds st" op "as_skip_ws l" "tl (as_skip_ws l2)" "ops2 @ [op2]" "errs es st2"]
            False x Some True l by simp
        then show ?thesis
          using F Some q(1) True same_at [OF o(2)]
          by (auto simp: read_ops.simps [of m lp] read_ops.simps [of m b] Let_def intro: emits_after_errs)
      next
        case False
        then show ?thesis using F Some q(1) same_at [OF o(2)] l
          by (simp add: read_ops.simps [of m lp] read_ops.simps [of m b] Let_def emits_errs)
      qed
    qed
  qed
qed

lemma infer_size_rel: "list_all2 orel as bs \<Longrightarrow> infer_size bs = infer_size as"
proof -
  assume "list_all2 orel as bs"
  then have "list_all2 orel (rev as) (rev bs)" by simp
  then have "rel_option orel (find (\<lambda>op. kind op = OP_REG) (rev as)) (find (\<lambda>op. kind op = OP_REG) (rev bs))"
    by (induction rule: list_all2_induct) (auto simp: orelD)
  then show ?thesis by (auto simp: infer_size_def orelD elim!: option.rel_cases)
qed

text \<open>A line whose alignment, if it has one, does not depend on a symbol.\<close>

definition align_ok :: "u8 list \<Rightarrow> bool" where
  "align_ok line \<longleftrightarrow>
     (case snd (label_loop line asm_start) of None \<Rightarrow> True
      | Some lp \<Rightarrow> fst (read_name lp) \<in> set align_names \<longrightarrow> const_align (snd (read_name lp)))"

lemma same_const_align: "same a b \<Longrightarrow> const_align a = const_align b"
  using parse_same(2) [of a b asm_start asm_start] by (simp add: const_align_def parse_rel_def erel_def)

lemma same_refl: "same a b \<Longrightarrow> same a a"
  by (auto simp: same_def)

lemma lock_line_rest:
  assumes "same a b" "align_ok a" "lay st = lay st2" "asm_line a st = Some st'" "asm_line b st2 = Some st2'"
  shows "lock (fst (label_loop a st)) st' (fst (label_loop b st2)) st2'"
proof -
  obtain s c where x: "label_loop a st = (s, c)" by (cases "label_loop a st")
  obtain t d where y: "label_loop b st2 = (t, d)" by (cases "label_loop b st2")
  obtain u e where z: "label_loop a asm_start = (u, e)" by (cases "label_loop a asm_start")
  have sb: "same b a" using assms(1) by (auto simp: same_def)
  have r: "rel_option same c d" "rel_option same e c"
    using same_labels [OF assms(1), of st st2] same_labels [OF same_refl [OF assms(1)], of asm_start st] x y z by auto
  have f: "later st s" "lay s = lay st" "later st2 t" "lay t = lay st2"
    using same_labels [OF assms(1), of st st2] same_labels [OF sb, of st2 st] x y by auto
  have "lock s st' t st2'"
  proof (cases c)
    case None
    then have "d = None" using r(1) by simp
    then show ?thesis using None assms(4,5) x y by (simp add: asm_line_def lock_refl)
  next
    case (Some l)
    then obtain l2 where d: "d = Some l2" "same l l2" using r(1) by (cases d) auto
    obtain l0 where e: "e = Some l0" "same l0 l" using r(2) Some by (cases e) auto
    let ?n = "fst (read_name l)" and ?p = "snd (read_name l)" and ?q = "snd (read_name l2)"
    have n: "fst (read_name l2) = ?n" "same ?p ?q" using same_read_name [OF d(2)] by auto
    have al: "?n \<in> set align_names \<Longrightarrow> const_align ?p"
      using assms(2) z e same_read_name [OF e(2)] same_const_align by (auto simp: align_ok_def)
    show ?thesis
    proof (cases "?n = [] \<or> hd ?n = CHR ''.''")
      case True
      then show ?thesis
        using assms(4,5) x y Some d n emits_lock [OF emits_err emits_err]
          lock_directive [OF n(2) al, where st = s and ?st2.0 = t and ?st' = st' and ?st2'.0 = st2'] f assms(3)
        by (auto simp: asm_line_def case_prod_unfold Let_def split: if_splits)
    next
      case False
      let ?m = "fst (split_suffix ?n)" and ?z = "snd (split_suffix ?n)"
      let ?x = "read_ops ?m (as_skip_ws ?p) [] s" and ?y = "read_ops ?m (as_skip_ws ?q) [] t"
      have o: "emits 0 s (fst ?x)" "emits 0 t (fst ?y)" "rel_option (list_all2 orel) (snd ?x) (snd ?y)"
        using same_read_ops [OF same_skip [OF n(2)], where ops = "[]" and ?ops2.0 = "[]" and st = s and m = ?m and ?st2.0 = t] by auto
      have a: "Some st' = (case ?x of (s, None) \<Rightarrow> Some s | (s, Some ops) \<Rightarrow> Some (run_emits (asm_insn ?m ops (if ?z = 0 then infer_size ops else ?z)) s))"
        using assms(4) x Some False by (simp add: asm_line_def case_prod_unfold Let_def)
      have b: "Some st2' = (case ?y of (s, None) \<Rightarrow> Some s | (s, Some ops) \<Rightarrow> Some (run_emits (asm_insn ?m ops (if ?z = 0 then infer_size ops else ?z)) s))"
        using assms(5) y d n False by (simp add: asm_line_def case_prod_unfold Let_def)
      show ?thesis
      proof (cases "snd ?x")
        case None
        then have "snd ?y = None" using o(3) by simp
        then show ?thesis using a b None emits_lock [OF o(1,2)] by (auto simp: case_prod_unfold)
      next
        case (Some ops)
        then obtain ops2 where q: "snd ?y = Some ops2" "list_all2 orel ops ops2" using o(3) by (cases "snd ?y") auto
        have "lock (fst ?x) (run_emits (asm_insn ?m ops (if ?z = 0 then infer_size ops else ?z)) (fst ?x)) 
                   (fst ?y) (run_emits (asm_insn ?m ops2 (if ?z = 0 then infer_size ops2 else ?z)) (fst ?y))"
          using emits_run [of "asm_insn ?m ops (if ?z = 0 then infer_size ops else ?z)" "fst ?x"]
            emits_run [of "asm_insn ?m ops2 (if ?z = 0 then infer_size ops2 else ?z)" "fst ?y"]
          by (intro emits_lock) (auto simp: esize_insn [OF q(2)] infer_size_rel [OF q(2)])
        then show ?thesis using a b Some q(1) lock_trans [OF emits_lock [OF o(1,2)]] by (auto simp: case_prod_unfold)
      qed
    qed
  qed
  then show ?thesis using x y by simp
qed

lemma lock_line:
  assumes "same a b" "align_ok a" "lay st = lay st2" "asm_line a st = Some st'" "asm_line b st2 = Some st2'"
  shows "lock st st' st2 st2'"
proof -
  have sb: "same b a" using assms(1) by (auto simp: same_def)
  have "lock st (fst (label_loop a st)) st2 (fst (label_loop b st2))"
    using same_labels [OF assms(1), of st st2] same_labels [OF sb, of st2 st] by (intro lock_same_lay) auto
  then show ?thesis using lock_line_rest [OF assms] by (rule lock_trans)
qed



subsection \<open>Passes in step\<close>

lemma live_line: "0 \<notin> set l \<Longrightarrow> live (l @ 0 # j) = l" "0 \<notin> set l \<Longrightarrow> live l = l"
  by (induction l) auto

definition line_ok :: "u8 list \<Rightarrow> bool" where
  "line_ok l \<longleftrightarrow> lit_ok l \<and> align_ok l"

lemma same_align_ok:
  assumes "same a b" "align_ok a"
  shows "align_ok b"
proof -
  have r: "rel_option same (snd (label_loop a asm_start)) (snd (label_loop b asm_start))"
    using same_labels [OF assms(1), of asm_start asm_start] by blast
  then show ?thesis
    using assms(2) same_read_name same_const_align by (fastforce simp: align_ok_def split: option.splits elim: option.rel_cases)
qed

lemma line_same:
  assumes "0 \<notin> set l" "line_ok l"
  shows "same (l @ 0 # i) (l @ 0 # j)" "align_ok (l @ 0 # i)"
proof -
  show "same (l @ 0 # i) (l @ 0 # j)" using assms by (simp add: same_def live_line line_ok_def)
  have "same l (l @ 0 # i)" using assms by (simp add: same_def live_line line_ok_def)
  then show "align_ok (l @ 0 # i)" by (rule same_align_ok) (use assms in \<open>simp add: line_ok_def\<close>)
qed

text \<open>Every line of a source, and the labels that pass 2 meets with the addresses where it stands.\<close>

function src_ok :: "u8 list \<Rightarrow> bool" where
  "src_ok p \<longleftrightarrow> (if at p = 0 then True else line_ok (fst (take_line p)) \<and> src_ok (snd (take_line p)))"
  by pat_completeness auto

termination src_ok
  by (relation "measure length") (auto intro: take_line_shorter [OF prod.collapse])

function label_trace :: "u8 list \<Rightarrow> u8 list \<Rightarrow> asm \<Rightarrow> (string \<times> u32) list" where
  "label_trace buf p st =
     (if at p = 0 then []
      else
        let (l, p) = take_line p; buf = l @ 0 # drop (length l + 1) buf in
        map (\<lambda>n. (n, cur_addr st)) (labels buf) @
        (case asm_line buf st of None \<Rightarrow> []
         | Some st \<Rightarrow> if err_count st > 20 then [] else label_trace buf p (st\<lparr>line_no := line_no st + 1\<rparr>)))"
  by pat_completeness auto

termination label_trace
  by (relation "measure (\<lambda>(buf, p, st). length p)") (auto dest: take_line_shorter)

declare src_ok.simps [simp del] label_trace.simps [simp del]

lemma take_line_no_zero: "0 \<notin> set (fst (take_line p))"
  by (auto simp: take_line_def Let_def dest: in_set_takeD set_takeWhileD)

lemma later_line_no [simp]: "later st (st'\<lparr>line_no := k\<rparr>) = later st st'" "lay (st'\<lparr>line_no := k\<rparr>) = lay st'"
  "later (st\<lparr>line_no := k\<rparr>) st' = later st st'"
  by (simp_all add: later_def lay_def sym_kept_def sym_find_def)

lemma later_puts: "later st (as_puts t st)"
  by (simp add: as_puts_def later_def sym_kept_syms)

lemma later_run:
  "src_ok p \<Longrightarrow> run_lines buf p st = Some st' \<Longrightarrow> later st st'"
proof (induction buf p st rule: run_lines.induct)
  case (1 buf p st)
  show ?case
  proof (cases "at p = 0")
    case False
    let ?l = "fst (take_line p)" and ?q = "snd (take_line p)"
    let ?b = "?l @ 0 # drop (length ?l + 1) buf"
    have ok: "line_ok ?l" "src_ok ?q" using 1(2) False by (simp_all add: src_ok.simps [of p])
    obtain st1 where a: "asm_line ?b st = Some st1"
      using 1(3) False by (auto simp: run_lines.simps [of buf p] case_prod_unfold Let_def split: bind_splits)
    have s: "later st st1"
      using lock_line [OF line_same [OF take_line_no_zero ok(1)] refl a a] by (simp add: lock_def)
    show ?thesis
    proof (cases "err_count st1 > 20")
      case True
      then show ?thesis using 1(3) False a s later_trans [OF _ later_puts, of st "st1\<lparr>line_no := line_no st1 + 1\<rparr>"]
        by (auto simp: run_lines.simps [of buf p] case_prod_unfold Let_def)
    next
      case go: False
      then have "run_lines ?b ?q (st1\<lparr>line_no := line_no st1 + 1\<rparr>) = Some st'"
        using 1(3) False a by (simp add: run_lines.simps [of buf p] case_prod_unfold Let_def)
      then have "later (st1\<lparr>line_no := line_no st1 + 1\<rparr>) st'"
        using 1(1) [OF False refl prod.collapse refl a refl _ ok(2)] go by simp
      then show ?thesis using later_trans [OF s] by simp
    qed
  qed (use 1(3) in \<open>simp add: run_lines.simps\<close>)
qed


lemma run_step:
  assumes "at p \<noteq> 0" "run_lines buf p st = Some st'" "src_ok p" "err_count st' \<le> 20"
  defines "l \<equiv> fst (take_line p)"
  defines "b \<equiv> l @ 0 # drop (length l + 1) buf"
  obtains st1 where "asm_line b st = Some st1" "err_count st1 \<le> 20"
    "run_lines b (snd (take_line p)) (st1\<lparr>line_no := line_no st1 + 1\<rparr>) = Some st'" "later st st1" "later st1 st'"
proof -
  have ok: "line_ok l" "src_ok (snd (take_line p))" using assms by (simp_all add: src_ok.simps [of p])
  obtain st1 where a: "asm_line b st = Some st1"
    using assms by (auto simp: run_lines.simps [of buf p] case_prod_unfold Let_def split: bind_splits)
  have s: "later st st1"
    using lock_line [OF line_same [OF take_line_no_zero, of p, folded l_def, OF ok(1)] refl a [unfolded b_def] a [unfolded b_def]]
    by (simp add: lock_def)
  have n: "\<not> err_count st1 > 20"
  proof
    assume "err_count st1 > 20"
    then have "st' = as_puts ''too many errors\<newline>'' (st1\<lparr>line_no := line_no st1 + 1\<rparr>)"
      using assms a by (simp add: run_lines.simps [of buf p] case_prod_unfold Let_def)
    then show False using assms(4) \<open>err_count st1 > 20\<close> by (simp add: as_puts_def)
  qed
  then have r: "run_lines b (snd (take_line p)) (st1\<lparr>line_no := line_no st1 + 1\<rparr>) = Some st'"
    using assms a by (simp add: run_lines.simps [of buf p] case_prod_unfold Let_def)
  then have "later st1 st'" using later_run [OF ok(2)] by fastforce
  then show ?thesis using that a n r s by simp
qed

lemma cur_addr_lay: "lay s = lay t \<Longrightarrow> cur_addr t = sec_base t (cur_sec s) + sec_len s (cur_sec s)"
  using sec_len_lay [of s t] by (simp add: cur_addr_def)

lemma sec_base_later: "later s t \<Longrightarrow> sec_base t c = sec_base s c"
  by (cases c) (auto simp: later_def)

lemma passes_agree:
  "src_ok p \<Longrightarrow> run_lines buf p s = Some s' \<Longrightarrow> run_lines buf2 p t = Some t' \<Longrightarrow> as_pass s = 1 \<Longrightarrow>
    err_count s' = err_count s \<Longrightarrow> err_count t' = err_count t \<Longrightarrow> err_count s \<le> 20 \<Longrightarrow> err_count t \<le> 20 \<Longrightarrow> lay s = lay t \<Longrightarrow>
    lay s' = lay t' \<and> (\<forall>(n, a) \<in> set (label_trace buf2 p t). \<exists>sc off. label_at s' n sc off \<and> a = sec_base t sc + off)"
proof (induction buf p s arbitrary: buf2 t rule: run_lines.induct)
  case (1 buf p s)
  show ?case
  proof (cases "at p = 0")
    case True
    then show ?thesis using 1(3,4,10) by (simp add: run_lines.simps label_trace.simps)
  next
    case False
    let ?l = "fst (take_line p)" and ?q = "snd (take_line p)"
    let ?b = "?l @ 0 # drop (length ?l + 1) buf" and ?c = "?l @ 0 # drop (length ?l + 1) buf2"
    have ok: "line_ok ?l" "src_ok ?q" using 1(2) False by (simp_all add: src_ok.simps [of p])
    have sm: "same ?b ?c" "align_ok ?b" using line_same [OF take_line_no_zero ok(1)] by blast+
    obtain s1 where s: "asm_line ?b s = Some s1" "err_count s1 \<le> 20"
      "run_lines ?b ?q (s1\<lparr>line_no := line_no s1 + 1\<rparr>) = Some s'" "later s s1" "later s1 s'"
      using run_step [OF False 1(3,2)] 1(6,8) by auto
    obtain t1 where t: "asm_line ?c t = Some t1" "err_count t1 \<le> 20"
      "run_lines ?c ?q (t1\<lparr>line_no := line_no t1 + 1\<rparr>) = Some t'" "later t t1" "later t1 t'"
      using run_step [OF False 1(4,2)] 1(7,9) by auto
    have e: "err_count s1 = err_count s" "err_count s' = err_count s1" "err_count t1 = err_count t" "err_count t' = err_count t1"
      "as_pass s1 = 1" "sym_kept s1 s'"
      using s(4,5) t(4,5) 1(5,6,7) by (auto simp: later_def)
    have lay1: "lay s1 = lay t1"
      using lock_line [OF sm(1,2) 1(10) s(1) t(1)] 1(10) e by (simp add: lock_def calm_def)
    have IH: "lay s' = lay t'"
      "\<forall>(n, a) \<in> set (label_trace ?c ?q (t1\<lparr>line_no := line_no t1 + 1\<rparr>)). \<exists>sc off. label_at s' n sc off \<and> a = sec_base (t1\<lparr>line_no := line_no t1 + 1\<rparr>) sc + off"
      using 1(1) [OF False refl prod.collapse refl s(1) refl _ ok(2) s(3) t(3)] e s(2) t(2) lay1 1(8) by auto
    have here: "label_at s' n (cur_sec s) (sec_len s (cur_sec s))" if n: "n \<in> set (labels ?c)" for n
    proof -
      let ?u = "fst (label_loop ?b s)"
      note L = same_labels [OF sm(1), where st = s and ?st2.0 = t]
      have u: "later s ?u" "later ?u s1" using L lock_line_rest [OF sm(1,2) 1(10) s(1) t(1)] by (auto simp: lock_def)
      have e': "err_count ?u = err_count s" "as_pass ?u = 1" "sym_kept ?u s1" using u e(1) 1(5) by (auto simp: later_def)
      then have "label_at ?u n (cur_sec s) (sec_len s (cur_sec s))" using L n 1(5) by auto
      then show ?thesis using e'(3) e(6) label_at_kept by blast
    qed
    have tr: "label_trace buf2 p t = map (\<lambda>n. (n, cur_addr t)) (labels ?c) @ label_trace ?c ?q (t1\<lparr>line_no := line_no t1 + 1\<rparr>)"
      using False t(1,2) by (simp add: label_trace.simps [of buf2 p] case_prod_unfold Let_def)
    have base: "sec_base (t1\<lparr>line_no := k\<rparr>) sc = sec_base t sc" for sc k
      using t(4) by (cases sc) (auto simp: later_def)
    show ?thesis
      using IH here cur_addr_lay [OF 1(10)] unfolding tr base by (auto simp: base)
  qed
qed


subsection \<open>Addresses of labels\<close>

text \<open>A symbol with the address \<open>a\<close>, or an absolute one.\<close>

definition addr_is :: "asm \<Rightarrow> string \<Rightarrow> u32 \<Rightarrow> bool" where
  "addr_is st n a \<longleftrightarrow>
     (\<exists>i. sym_find st n = Some i \<and> s_defined (syms st ! i) \<and> (s_is_abs (syms st ! i) \<or> s_addr (syms st ! i) = a))"

lemma addr_is_kept: "addr_is st n a \<Longrightarrow> sym_kept st st' \<Longrightarrow> addr_is st' n a"
  unfolding addr_is_def sym_kept_def by metis

lemma sym_index_map: "(\<And>s. s_name (f s) = s_name s) \<Longrightarrow> sym_index (map f ss) n = sym_index ss n"
  by (induction ss) auto

lemma place_addr:
  assumes "label_at st n sc off"
  shows "addr_is (place st) n (sec_base (place st) sc + off)"
proof -
  obtain i where i: "sym_index (syms st) n = Some i" "s_defined (syms st ! i)"
    "s_is_abs (syms st ! i) \<or> s_section (syms st ! i) = sc \<and> s_offset (syms st ! i) = off"
    using assms by (auto simp: label_at_def sym_find_def)
  note j = sym_index_Some [OF i(1)]
  let ?st = "st\<lparr>base_text := ELF_HDR_SIZE, base_data := ELF_HDR_SIZE + text_len st, base_bss := ELF_HDR_SIZE + text_len st + data_len st\<rparr>"
  let ?f = "\<lambda>s. if s_is_abs s \<or> \<not> s_defined s then s else s\<lparr>s_addr := sec_base ?st (s_section s) + s_offset s\<rparr>"
  have p: "place st = ?st\<lparr>syms := map ?f (syms st)\<rparr>" by (simp add: place_def Let_def)
  have b: "sec_base (place st) c = sec_base ?st c" for c by (cases c) (simp_all add: p)
  have "sym_index (map ?f (syms st)) n = Some i" using i(1) sym_index_map [of ?f "syms st" n] by simp
  then show ?thesis
    unfolding addr_is_def b using i j by (intro exI [of _ i]) (auto simp: p sym_find_def)
qed

lemma later_begin: "sym_kept st (begin_pass w st)" "sym_kept st (st\<lparr>err_count := k\<rparr>)"
  by (simp_all add: sym_kept_def sym_find_def begin_pass_def)

lemma lay_begin [simp]: "lay (begin_pass w st) = (SEC_TEXT, 0, 0, 0)"
  "err_count (begin_pass w st) = err_count st" "as_pass (begin_pass w st) = w"
  "sec_base (begin_pass w st) c = sec_base st c" "sec_base (st\<lparr>err_count := k\<rparr>) c = sec_base st c"
  by (cases c; simp add: begin_pass_def lay_def)+

lemma later_bases: "later s t \<Longrightarrow> base_text t = base_text s \<and> base_data t = base_data s \<and> base_bss t = base_bss s"
  by (simp add: later_def)

lemma assemble_places:
  assumes "assemble stk src st0 = Some (True, st)" "src_ok src" "err_count st0 = 0"
  shows "\<exists>t. run_pass 2 (stk 2) src t = Some st \<and> base_text st = ELF_HDR_SIZE \<and>
    base_data st = base_text st + text_len st \<and> base_bss st = base_data st + data_len st \<and>
    (\<forall>(n, a) \<in> set (label_trace (stk 2) src (begin_pass 2 t)). addr_is st n a)"
proof -
  obtain s1 s2 where r1: "run_pass 1 (stk 0) src st0 = Some s1" "err_count s1 = 0"
    and r2: "run_pass 2 (stk 1) src (place s1) = Some s2"
    and r3: "run_pass 2 (stk 2) src (s2\<lparr>err_count := 0\<rparr>) = Some st" "err_count st = 0"
    using assms(1) by (auto simp: assemble_def split: bind_splits if_splits)
  let ?t = "s2\<lparr>err_count := 0\<rparr>"
  note l2 = later_run [OF assms(2) r2 [unfolded run_pass_def]] and l3 = later_run [OF assms(2) r3(1) [unfolded run_pass_def]]
  have ag: "lay s1 = lay st" "\<forall>(n, a) \<in> set (label_trace (stk 2) src (begin_pass 2 ?t)).
      \<exists>sc off. label_at s1 n sc off \<and> a = sec_base (begin_pass 2 ?t) sc + off"
    using passes_agree [OF assms(2) r1(1) [unfolded run_pass_def] r3(1) [unfolded run_pass_def]] r1(2) r3(2) assms(3) by auto
  have base: "sec_base ?t c = sec_base (place s1) c" for c using sec_base_later [OF l2, of c] by simp
  have kept: "sym_kept (place s1) st"
  proof -
    have k: "sym_kept (begin_pass 2 (place s1)) s2" "sym_kept (begin_pass 2 ?t) st" using l2 l3 by (simp_all add: later_def)
    show ?thesis
      by (rule sym_kept_trans [OF sym_kept_trans [OF later_begin(1) k(1)] sym_kept_trans [OF later_begin(2) sym_kept_trans [OF later_begin(1) k(2)]]])
  qed
  have "base_text st = base_text (place s1)" "base_data st = base_data (place s1)" "base_bss st = base_bss (place s1)"
    using later_bases [OF l2] later_bases [OF l3] by (auto simp: begin_pass_def)
  moreover have "text_len s1 = text_len st" "data_len s1 = data_len st" using ag(1) by (auto simp: lay_def)
  ultimately have b: "base_text st = ELF_HDR_SIZE" "base_data st = base_text st + text_len st" "base_bss st = base_data st + data_len st"
    by (simp_all add: place_def Let_def)
  have "\<forall>(n, a) \<in> set (label_trace (stk 2) src (begin_pass 2 ?t)). addr_is st n a"
    using ag(2) place_addr addr_is_kept [OF _ kept] base by fastforce
  then show ?thesis using r3(1) b by blast
qed

text \<open>
  C35. The passes agree: when a source is assembled without errors, and its character literals end in their
  lines and its alignments do not depend on symbols, the sections lie in the image as pass 1 planned them,
  and every label that the last pass meets has the address at which that pass stands, unless the program
  also gives the symbol a value with .equ.
\<close>

theorem assemble_places_labels:
  assumes "assemble stk src st0 = Some (True, st)" "src_ok src" "err_count st0 = 0"
  shows "\<exists>t. run_pass 2 (stk 2) src t = Some st \<and> base_text st = ELF_HDR_SIZE \<and>
    base_data st = base_text st + text_len st \<and> base_bss st = base_data st + data_len st \<and>
    (\<forall>(n, a) \<in> set (label_trace (stk 2) src (begin_pass 2 t)). addr_is st n a)"
  by (rule assemble_places [OF assms])


text \<open>A forward jump over an alignment.\<close>

definition demo_src :: "u8 list" where
  "demo_src = map of_char (''jmp fin\<newline>.align 2\<newline>fin: ret # x\<newline>'')"

lemma demo_assembles: "case assemble (\<lambda>_. []) demo_src asm_start of Some (ok, st) \<Rightarrow> ok \<and> text_len st = 7 | None \<Rightarrow> False"
  by code_simp

lemma demo_src_ok: "src_ok demo_src"
  by code_simp


theorem assemble_places_labels_witness:
  "\<exists>st t. assemble (\<lambda>_. []) demo_src asm_start = Some (True, st) \<and> run_pass 2 [] demo_src t = Some st \<and>
    base_text st = ELF_HDR_SIZE \<and> base_data st = base_text st + text_len st \<and> base_bss st = base_data st + data_len st \<and>
    text_len st = 7 \<and> (\<forall>(n, a) \<in> set (label_trace [] demo_src (begin_pass 2 t)). addr_is st n a)"
proof -
  obtain st where st: "assemble (\<lambda>_. []) demo_src asm_start = Some (True, st)" "text_len st = 7"
    using demo_assembles by (auto split: option.splits)
  then show ?thesis
    using assemble_places_labels [OF st(1) demo_src_ok] by (auto simp: asm_start_def)
qed

end
