(* ===== verification/AsmBounds.thy ===== *)
theory AsmBounds
  imports Assembler
begin

text \<open>
  The assembler stays in its arrays and comes back: on every source, whatever it holds, the symbol table and
  the section buffers are only written inside their bounds, the image always fits, and pass 1 returns.
\<close>

definition bounded :: "asm \<Rightarrow> bool" where
  "bounded st \<longleftrightarrow> unat (text_len st) \<le> MAX_TEXT \<and> unat (data_len st) \<le> MAX_DATA"

text \<open>The bytes behind the two buffers.\<close>

definition outside_same :: "asm \<Rightarrow> asm \<Rightarrow> bool" where
  "outside_same st st' \<longleftrightarrow>
     (\<forall>i \<ge> MAX_TEXT. text_buf st' i = text_buf st i) \<and> (\<forall>i \<ge> MAX_DATA. data_buf st' i = data_buf st i)"

definition within :: "asm \<Rightarrow> asm \<Rightarrow> bool" where
  "within st st' \<longleftrightarrow>
     as_pass st' = as_pass st \<and> (length (syms st) \<le> MAX_SYM \<longrightarrow> length (syms st') \<le> MAX_SYM) \<and>
     (as_pass st = 2 \<and> bounded st \<longrightarrow> bounded st' \<and> outside_same st st') \<and>
     (as_pass st \<noteq> 2 \<longrightarrow> text_buf st' = text_buf st \<and> data_buf st' = data_buf st)"

lemma within_refl [simp]: "within st st"
  by (simp add: within_def outside_same_def)

lemma within_trans: "within a b \<Longrightarrow> within b c \<Longrightarrow> within a c"
  by (auto simp: within_def outside_same_def)

lemma within_err: "within st (err d st)"
  by (cases d) (simp add: within_def outside_same_def bounded_def Let_def)

declare err.simps [simp del]

lemma within_errs: "within st (errs ds st)"
proof (induction ds arbitrary: st)
  case (Cons d ds)
  show ?case using within_trans [OF within_err Cons.IH] by (simp add: errs_def)
qed (simp add: errs_def)

lemma room_nat: "\<not> sint (n :: u32) \<ge> int k \<Longrightarrow> unat n \<le> k \<Longrightarrow> k \<le> 32768 \<Longrightarrow> unat n < k \<and> unat (n + 1) = unat n + 1"
proof -
  assume a: "\<not> sint n \<ge> int k" "unat n \<le> k" "k \<le> 32768"
  then have "sint n = int (unat n)" by (simp add: sint_unat del: of_nat_unat)
  then have "unat n < k" using a(1) by (simp del: of_nat_unat)
  then show ?thesis using a(3) unat_add32 [of n 1] by simp
qed

lemma within_emit8: "within st (emit8 b st)"
  using within_err [of st] room_nat [of MAX_TEXT "text_len st"] room_nat [of MAX_DATA "data_len st"]
  by (auto simp: emit8_def within_def outside_same_def bounded_def MAX_TEXT_def MAX_DATA_def split: sec.splits)

lemma within_emit16: "within st (emit16 v st)" and within_emit32: "within st (emit32 v st)"
  unfolding emit16_def emit32_def by (blast intro: within_emit8 within_trans)+

lemma within_run: "within st (run_emits es st)"
proof (induction es arbitrary: st)
  case (Cons e es)
  have "within st (run_emit e st)"
    by (cases e) (auto simp: within_emit8 within_emit32 within_err emit_rel32_def Let_def)
  from within_trans [OF this Cons.IH] show ?case by (simp add: run_emits_def)
qed (simp add: run_emits_def)

lemma within_string_chars: "within st (fst (string_chars lp st))"
  by (induction lp st rule: string_chars.induct) (auto intro: within_trans within_emit8)

lemma within_emit_string: "within st (emit_string z lp st)"
proof (induction z lp st rule: emit_string.induct)
  case (1 z lp0 st)
  obtain s l where s: "string_chars (tl (as_skip_ws lp0)) st = (s, l)" by (cases "string_chars (tl (as_skip_ws lp0)) st")
  let ?s = "if z then emit8 0 s else s" and ?l = "as_skip_ws (if at l = 0x22 then tl l else l)"
  have "within st s" using within_string_chars [of st "tl (as_skip_ws lp0)"] s by simp
  then have t: "within st ?s" by (auto intro: within_trans within_emit8)
  show ?case
  proof (cases "at (as_skip_ws lp0) = 0x22 \<and> at ?l = 0x2C")
    case True
    then have "within ?s (emit_string z (tl ?l) ?s)" using 1 [OF refl _ s [symmetric] refl refl refl refl] by simp
    then show ?thesis using True s within_trans [OF t] by (simp add: emit_string.simps [of z lp0] Let_def)
  next
    case False
    then show ?thesis using s t within_err by (auto simp: emit_string.simps [of z lp0] Let_def)
  qed
qed

lemma within_width: "within st (emit_width w v st)"
  by (simp add: emit_width_def within_emit8 within_emit16 within_emit32)

lemma within_data_loop: "within st (data_loop w lp st)"
proof (induction w lp st rule: data_loop.induct)
  case (1 w lp0 st)
  obtain e ds l where p: "parse_expr st lp0 = (e, ds, l)" by (cases "parse_expr st lp0")
  let ?s = "emit_width w (e_val e) (errs ds st)"
  have t: "within st ?s" by (rule within_trans [OF within_errs within_width])
  show ?case
  proof (cases "at (as_skip_ws l) = 0x2C")
    case True
    then show ?thesis using 1 [OF p [symmetric] refl refl refl refl True] p within_trans [OF t]
      by (simp add: data_loop.simps [of w lp0] Let_def)
  next
    case False
    then show ?thesis using t p by (simp add: data_loop.simps [of w lp0] Let_def)
  qed
qed

lemma within_funpow: "within st ((emit8 b ^^ n) st)"
  by (induction n) (auto intro: within_trans within_emit8)

lemma within_bss: "within st (st\<lparr>bss_len := k\<rparr>)" "within st (st\<lparr>cur_sec := c\<rparr>)" "within st (st\<lparr>line_no := m\<rparr>)"
  by (simp_all add: within_def bounded_def outside_same_def)

lemma within_space: "within st (do_space lp st)"
  unfolding do_space_def Let_def case_prod_unfold
  by (auto intro: within_errs within_trans [OF within_errs within_err]
      within_trans [OF within_errs within_trans [OF within_errs within_bss(1)]]
      within_trans [OF within_errs within_trans [OF within_errs within_funpow]])

lemma within_align_step: "within st (align_step st)"
  by (simp add: align_step_def within_bss within_emit8)

lemma within_align_loop: "align_loop a st = Some st' \<Longrightarrow> within st st'"
proof (rule align_loop.raw_induct [of "\<lambda>a st st'. within st st'" a st st'])
  fix loop a st st'
  assume "\<And>a st st'. loop a st = Some st' \<Longrightarrow> within st st'"
    and "(if sint (sec_len st (cur_sec st)) mod sint a = 0 then Some st else loop a (align_step st)) = Some st'"
  then show "within st st'" using within_align_step [of st] by (auto split: if_splits intro: within_trans)
qed

lemma within_align: "do_align p lp st = Some st' \<Longrightarrow> within st st'"
  using within_errs within_trans [OF within_errs within_align_loop]
  by (auto simp: do_align_def Let_def case_prod_unfold split: if_splits)

lemma within_intern: "within st (snd (sym_intern n st))"
  using within_err
  by (auto simp: sym_intern_def within_def bounded_def outside_same_def split: option.splits)

lemma within_syms: "length ss = length (syms st) \<Longrightarrow> within st (st\<lparr>syms := ss\<rparr>)"
  by (simp add: within_def bounded_def outside_same_def)

lemma within_equ: "within st (do_equ lp st)"
proof -
  obtain n l where x: "read_name lp = (n, l)" by (cases "read_name lp")
  obtain ok m where y: "eat 0x2C l = (ok, m)" by (cases "eat 0x2C l")
  obtain v ds q where z: "parse_expr st m = (v, ds, q)" by (cases "parse_expr st m")
  obtain r st' where i: "sym_intern n (errs ds st) = (r, st')" by (cases "sym_intern n (errs ds st)")
  have "within st st'" using within_trans [OF within_errs [of st ds] within_intern [of _ n]] i by simp
  then have "within st (case r of None \<Rightarrow> st' | Some i \<Rightarrow> st'\<lparr>syms := (syms st')[i := set_abs (e_val v) (syms st' ! i)]\<rparr>)"
    by (cases r) (auto intro!: within_trans [OF _ within_syms])
  then show ?thesis using x y z i within_err by (simp add: do_equ_def Let_def)
qed

lemma some_branch:
  assumes "(if c then A else B) = Some x"
  obtains "c" "A = Some x" | "\<not> c" "B = Some x"
  using assms by (cases c) auto

lemma within_Some: "Some x = Some st' \<Longrightarrow> within st x \<Longrightarrow> within st st'"
  by simp

lemma within_directive: "do_directive d lp st = Some st' \<Longrightarrow> within st st'"
  unfolding do_directive_def
  by (elim some_branch)
     ((erule within_Some, rule within_bss within_refl within_data_loop within_emit_string within_space within_equ within_err) |
      erule within_align)+

lemma within_label: "within st (def_label n st)"
proof (cases "as_pass st = 1")
  case True
  obtain r st1 where i: "sym_intern n st = (r, st1)" by (cases "sym_intern n st")
  have w: "within st st1" using within_intern [of st n] i by simp
  have "within st (case r of None \<Rightarrow> st1 | Some i \<Rightarrow>
      let st = (if s_defined (syms st1 ! i) then err (Diag ''duplicate label'' n) st1 else st1)
      in st\<lparr>syms := (syms st)[i := set_label (cur_sec st) (sec_len st (cur_sec st)) (syms st ! i)]\<rparr>)"
    by (cases r) (auto simp: Let_def w intro!: within_trans [OF w] within_trans [OF within_err within_syms] within_syms)
  then show ?thesis using True i by (simp add: def_label_def)
qed (simp add: def_label_def)

lemma within_labels: "within st (fst (label_loop lp st))"
proof (induction lp st rule: label_loop.induct)
  case (1 lp0 st)
  let ?a = "as_skip_ws lp0"
  obtain n l where r: "read_name ?a = (n, l)" by (cases "read_name ?a")
  show ?case
  proof (cases "\<not> at_end ?a \<and> is_sym_start (at ?a) \<and> at (as_skip_ws l) = 0x3A")
    case True
    then have "within (def_label n st) (fst (label_loop (tl (as_skip_ws l)) (def_label n st)))"
      using 1 [OF refl _ _ r [symmetric] _ refl] by simp
    then show ?thesis using True r within_trans [OF within_label] by (simp add: label_loop.simps [of lp0] Let_def)
  next
    case False
    then show ?thesis using r by (auto simp: label_loop.simps [of lp0] Let_def)
  qed
qed

lemma within_read_ops: "within st (fst (read_ops m lp ops st))"
proof (induction m lp ops st rule: read_ops.induct)
  case (1 m lp ops st)
  obtain r ds l where p: "parse_operand st lp = (r, ds, l)" by (cases "parse_operand st lp")
  show ?case
  proof (cases "\<not> at_end lp \<and> \<not> length ops \<ge> MAX_OPS \<and> r \<noteq> None \<and> at (as_skip_ws l) = 0x2C")
    case True
    then obtain op where "r = Some op" by auto
    then have "within (errs ds st) (fst (read_ops m (tl (as_skip_ws l)) (ops @ [op]) (errs ds st)))"
      using 1 [of "(r, ds, l)" r "(ds, l)" ds l "errs ds st" op "as_skip_ws l"] True p by simp
    then show ?thesis using True p \<open>r = Some op\<close> within_trans [OF within_errs] by (simp add: read_ops.simps [of m lp] Let_def)
  next
    case False
    then show ?thesis using p within_errs within_err by (auto simp: read_ops.simps [of m lp] Let_def split: option.splits)
  qed
qed

lemma within_line: "asm_line line st = Some st' \<Longrightarrow> within st st'"
proof -
  assume a: "asm_line line st = Some st'"
  obtain s c where l: "label_loop line st = (s, c)" by (cases "label_loop line st")
  have w: "within st s" using within_labels [of st line] l by simp
  have "within s st'"
  proof (cases c)
    case (Some lp)
    obtain m q where n: "read_name lp = (m, q)" by (cases "read_name lp")
    obtain stem sz where sp: "split_suffix m = (stem, sz)" by (cases "split_suffix m")
    obtain t r where o: "read_ops stem (as_skip_ws q) [] s = (t, r)" by (cases "read_ops stem (as_skip_ws q) [] s")
    have "within s t" using within_read_ops [of s stem "as_skip_ws q" "[]"] o by simp
    then show ?thesis
      using a l Some n sp o within_err within_directive within_trans [OF _ within_run]
      by (auto simp: asm_line_def split: if_splits option.splits)
  qed (use a l in \<open>simp add: asm_line_def\<close>)
  then show ?thesis by (rule within_trans [OF w])
qed

lemma within_lines: "run_lines buf p st = Some st' \<Longrightarrow> within st st'"
proof (induction buf p st rule: run_lines.induct)
  case (1 buf p st)
  show ?case
  proof (cases "at p = 0")
    case False
    let ?l = "fst (take_line p)" and ?q = "snd (take_line p)"
    let ?b = "?l @ 0 # drop (length ?l + 1) buf"
    obtain st1 where a: "asm_line ?b st = Some st1"
      using 1(2) False by (auto simp: run_lines.simps [of buf p] case_prod_unfold Let_def split: bind_splits)
    let ?s = "st1\<lparr>line_no := line_no st1 + 1\<rparr>"
    have s: "within st ?s" by (rule within_trans [OF within_line [OF a] within_bss(3)])
    show ?thesis
    proof (cases "err_count st1 > 20")
      case True
      have "within ?s (as_puts t ?s)" for t by (simp add: as_puts_def within_def bounded_def outside_same_def)
      then show ?thesis using 1(2) False a True within_trans [OF s]
        by (auto simp: run_lines.simps [of buf p] case_prod_unfold Let_def)
    next
      case go: False
      then have r: "run_lines ?b ?q ?s = Some st'"
        using 1(2) False a by (simp add: run_lines.simps [of buf p] case_prod_unfold Let_def)
      show ?thesis using within_trans [OF s] 1(1) [OF False refl prod.collapse refl a refl _ r] go by simp
    qed
  qed (use 1(2) in \<open>simp add: run_lines.simps\<close>)
qed


lemma run_pass_in_bounds:
  assumes "run_pass w buf src st = Some st'" "length (syms st) \<le> MAX_SYM"
  shows "length (syms st') \<le> MAX_SYM" "outside_same st st'" "w = 2 \<Longrightarrow> bounded st'"
  using within_lines [OF assms(1) [unfolded run_pass_def]] assms(2)
  by (auto simp: within_def begin_pass_def bounded_def outside_same_def)

lemma outside_same_trans: "outside_same a b \<Longrightarrow> outside_same b c \<Longrightarrow> outside_same a c"
  by (simp add: outside_same_def)

lemma assemble_bounded:
  assumes "assemble stk src st0 = Some (ok, st)" "length (syms st0) \<le> MAX_SYM"
  shows "outside_same st0 st \<and> length (syms st) \<le> MAX_SYM \<and>
    (ok \<longrightarrow> bounded st \<and> (\<exists>elf. build_elf st (int image_size) = Some elf))"
proof -
  obtain s1 where r1: "run_pass 1 (stk 0) src st0 = Some s1" using assms(1) by (auto simp: assemble_def split: bind_splits)
  note b1 = run_pass_in_bounds [OF r1 assms(2)]
  show ?thesis
  proof (cases "err_count s1 = 0")
    case False
    then show ?thesis using assms(1) r1 b1 by (simp add: assemble_def)
  next
    case True
    then obtain s2 where r2: "run_pass 2 (stk 1) src (place s1) = Some s2" and r3: "run_pass 2 (stk 2) src (s2\<lparr>err_count := 0\<rparr>) = Some st"
      using assms(1) r1 by (auto simp: assemble_def split: bind_splits)
    have p: "length (syms (place s1)) \<le> MAX_SYM" "outside_same s1 (place s1)"
      using b1(1) by (simp_all add: place_def Let_def outside_same_def)
    note b2 = run_pass_in_bounds [OF r2 p(1)]
    have q: "length (syms (s2\<lparr>err_count := 0\<rparr>)) \<le> MAX_SYM" "outside_same s2 (s2\<lparr>err_count := 0\<rparr>)"
      using b2(1) by (simp_all add: outside_same_def)
    note b3 = run_pass_in_bounds [OF r3 q(1)]
    have o: "outside_same st0 st" using b1(2) p(2) b2(2) q(2) b3(2) outside_same_trans by blast
    have b: "unat (text_len st) \<le> 32768" "unat (data_len st) \<le> 16384"
      using b3(3) by (auto simp: bounded_def MAX_TEXT_def MAX_DATA_def)
    then have "unat (ELF_HDR_SIZE + text_len st + data_len st) = 84 + unat (text_len st) + unat (data_len st)"
      by (simp add: ELF_HDR_SIZE_def unat_add32)
    then have "sint (ELF_HDR_SIZE + text_len st + data_len st) \<le> int image_size"
      using b by (simp add: sint_unat image_size_def MAX_TEXT_def MAX_DATA_def ELF_HDR_SIZE_def del: of_nat_unat)
    then have "\<exists>elf. build_elf st (int image_size) = Some elf" by (simp add: build_elf_def Let_def)
    then show ?thesis using o b3 by blast
  qed
qed

text \<open>
  C37. The assembler stays in its arrays: on every source, and whether it succeeds or not, no byte behind the
  text and data buffers is changed, the symbol table has at most 512 entries, and when the emit passes ran
  the two lengths are within the buffers, so that the image fits its array and is never too large.
\<close>

theorem assemble_in_bounds:
  assumes "assemble stk src st0 = Some (ok, st)" "length (syms st0) \<le> MAX_SYM"
  shows "outside_same st0 st \<and> length (syms st) \<le> MAX_SYM \<and>
    (ok \<longrightarrow> bounded st \<and> (\<exists>elf. build_elf st (int image_size) = Some elf))"
  by (rule assemble_bounded [OF assms])

definition tiny_src :: "u8 list" where
  "tiny_src = map of_char ''x: ret''"

lemma tiny_assembles: "case assemble (\<lambda>_. []) tiny_src asm_start of Some (ok, st) \<Rightarrow> ok | None \<Rightarrow> False"
  by code_simp

theorem assemble_in_bounds_witness:
  "\<exists>st. assemble (\<lambda>_. []) tiny_src asm_start = Some (True, st) \<and> outside_same asm_start st \<and> length (syms st) \<le> MAX_SYM \<and>
    bounded st \<and> (\<exists>elf. build_elf st (int image_size) = Some elf)"
proof -
  obtain st where st: "assemble (\<lambda>_. []) tiny_src asm_start = Some (True, st)"
    using tiny_assembles by (auto split: option.splits)
  then show ?thesis using assemble_in_bounds [OF st] by (auto simp: asm_start_def)
qed

subsection \<open>Pass 1 returns\<close>

text \<open>Outside the emit pass every turn of the alignment loop adds a byte, and a length of zero is aligned.\<close>

lemma unat_neg_Suc: "n \<noteq> 0 \<Longrightarrow> unat (- (n + 1) :: u32) < unat (- n)"
proof -
  assume "n \<noteq> 0"
  then have "- n \<noteq> 0" by simp
  then have "unat (- n - 1) = unat (- n) - 1" "0 < unat (- n)" using unat_minus_one unat_gt_0 by blast+
  moreover have "- (n + 1) = - n - 1" by simp
  ultimately show ?thesis by (simp only:)
qed

lemma align_step_len: "as_pass st \<noteq> 2 \<Longrightarrow> cur_sec (align_step st) = cur_sec st \<and> as_pass (align_step st) = as_pass st \<and>
    sec_len (align_step st) (cur_sec st) = sec_len st (cur_sec st) + 1"
  by (cases "cur_sec st") (auto simp: align_step_def emit8_def)

lemma align_loop_returns: "as_pass st \<noteq> 2 \<Longrightarrow> \<exists>st'. align_loop a st = Some st'"
proof (induction "unat (- sec_len st (cur_sec st))" arbitrary: st rule: less_induct)
  case less
  show ?case
  proof (cases "sint (sec_len st (cur_sec st)) mod sint a = 0")
    case False
    then have "sec_len st (cur_sec st) \<noteq> 0" by auto
    then have "\<exists>st'. align_loop a (align_step st) = Some st'"
      using less(2) align_step_len [OF less(2)] unat_neg_Suc by (intro less(1)) auto
    then show ?thesis using False by (simp add: align_loop.simps [of a st])
  qed (simp add: align_loop.simps [of a st])
qed

lemma line_returns: "as_pass st \<noteq> 2 \<Longrightarrow> \<exists>st'. asm_line line st = Some st'"
proof -
  assume p: "as_pass st \<noteq> 2"
  obtain s c where l: "label_loop line st = (s, c)" by (cases "label_loop line st")
  have s: "as_pass s \<noteq> 2" using within_labels [of st line] l p by (simp add: within_def)
  have "\<exists>st'. do_align z lp s = Some st'" for z lp
    using align_loop_returns within_errs [of s] s by (auto simp: do_align_def Let_def case_prod_unfold within_def)
  then have "\<exists>st'. do_directive d lp s = Some st'" for d lp by (simp add: do_directive_def)
  then show ?thesis using l by (auto simp: asm_line_def case_prod_unfold Let_def split: option.splits)
qed

text \<open>
  C38. Pass 1 returns on every source: each alignment loop ends, and so does the walk over the lines.
\<close>

theorem run_pass_1_returns: "\<exists>st'. run_pass 1 buf src st = Some st'"
proof -
  have "as_pass st \<noteq> 2 \<Longrightarrow> \<exists>st'. run_lines buf p st = Some st'" for buf p st
  proof (induction buf p st rule: run_lines.induct)
    case (1 buf p st)
    show ?case
    proof (cases "at p = 0")
      case False
      let ?l = "fst (take_line p)" and ?q = "snd (take_line p)"
      let ?b = "?l @ 0 # drop (length ?l + 1) buf"
      obtain st1 where a: "asm_line ?b st = Some st1" using line_returns [OF 1(2)] by blast
      then have "as_pass (st1\<lparr>line_no := line_no st1 + 1\<rparr>) \<noteq> 2" using within_line 1(2) by (auto simp: within_def)
      then show ?thesis using 1(1) [OF False refl prod.collapse refl a refl] False a
        by (auto simp: run_lines.simps [of buf p] case_prod_unfold Let_def)
    qed (simp add: run_lines.simps)
  qed
  then show ?thesis by (simp add: run_pass_def begin_pass_def)
qed

text \<open>In the emit pass it does not when the text buffer is full and not a multiple of the alignment.\<close>

theorem align_loop_full:
  assumes "as_pass st = 2" "cur_sec st = SEC_TEXT" "text_len st = of_nat MAX_TEXT" "int MAX_TEXT mod sint a \<noteq> 0"
  shows "align_loop a st = None"
proof (rule ccontr)
  assume "align_loop a st \<noteq> None"
  then obtain st' where "align_loop a st = Some st'" by auto
  then have "\<not> (as_pass st = 2 \<and> cur_sec st = SEC_TEXT \<and> text_len st = of_nat MAX_TEXT \<and> int MAX_TEXT mod sint a \<noteq> 0)"
  proof (rule align_loop.raw_induct [rotated])
    fix loop a st st'
    assume IH: "\<And>a st st'. loop a st = Some st' \<Longrightarrow> \<not> (as_pass st = 2 \<and> cur_sec st = SEC_TEXT \<and> text_len st = of_nat MAX_TEXT \<and> int MAX_TEXT mod sint a \<noteq> 0)"
      and l: "(if sint (sec_len st (cur_sec st)) mod sint a = 0 then Some st else loop a (align_step st)) = Some st'"
    show "\<not> (as_pass st = 2 \<and> cur_sec st = SEC_TEXT \<and> text_len st = of_nat MAX_TEXT \<and> int MAX_TEXT mod sint a \<noteq> 0)"
    proof
      assume c: "as_pass st = 2 \<and> cur_sec st = SEC_TEXT \<and> text_len st = of_nat MAX_TEXT \<and> int MAX_TEXT mod sint a \<noteq> 0"
      have n: "sint (of_nat MAX_TEXT :: u32) = int MAX_TEXT" by (simp add: MAX_TEXT_def)
      then have "loop a (align_step st) = Some st'" using l c by (simp split: if_splits)
      moreover have "align_step st = err (Diag ''text overflow'' []) st" using c n by (simp add: align_step_def emit8_def)
      ultimately show False using IH [of a "align_step st" st'] c by (simp add: err.simps)
    qed
  qed
  then show False using assms by simp
qed

end
