(* ===== verification/AsmKernel.thy ===== *)
theory AsmKernel
  imports ShellKernel AsmPasses AsmBounds
begin

text \<open>
  The assembler on the kernel: the program reads its source from the file system, writes the image back,
  and the kernel runs it. What the processor finds at each address is what the assembler put there.
\<close>

subsection \<open>The image\<close>

definition hdr_list :: "u32 \<Rightarrow> u32 \<Rightarrow> u32 \<Rightarrow> u8 list" where
  "hdr_list e f m =
     [0x7F, 0x45, 0x4C, 0x46, 1, 1, 1, 0, 0, 0, 0, 0, 0, 0, 0, 0] @ le16_bytes 2 @ le16_bytes 3 @ le32_bytes 1 @ le32_bytes e @ le32_bytes 52 @
     [0, 0, 0, 0, 0, 0, 0, 0] @ le16_bytes 52 @ le16_bytes 32 @ le16_bytes 1 @ [0, 0, 0, 0, 0, 0] @
     le32_bytes 1 @ le32_bytes 0 @ le32_bytes 0 @ le32_bytes 0 @ le32_bytes f @ le32_bytes m @ le32_bytes 7 @ le32_bytes 0x1000"

lemma zero_header: "replicate (unat ELF_HDR_SIZE) (0 :: u8) = [0, 0, 0, 0, 0, 0, 0, 0, 0, 0, 0, 0, 0, 0, 0, 0, 0, 0, 0, 0, 0, 0, 0, 0, 0, 0, 0, 0, 0, 0, 0, 0, 0, 0, 0, 0, 0, 0, 0, 0, 0, 0, 0, 0, 0, 0, 0, 0, 0, 0, 0, 0, 0, 0, 0, 0, 0, 0, 0, 0, 0, 0, 0, 0, 0, 0, 0, 0, 0, 0, 0, 0, 0, 0, 0, 0, 0, 0, 0, 0, 0, 0, 0, 0]"
proof -
  have "unat ELF_HDR_SIZE = 84" by (simp add: ELF_HDR_SIZE_def)
  then show ?thesis by (simp only:) (simp add: numeral_eq_Suc)
qed

lemma elf_header_list: "elf_header e f m = hdr_list e f m"
  unfolding elf_header_def elf_stores_def zero_header
  by (simp add: hdr_list_def arr_put_def le32_bytes_def le16_bytes_def numeral_eq_Suc)

lemma length_hdr [simp]: "length (hdr_list e f m) = 84"
  by (simp add: hdr_list_def)

lemma hdr_nth:
  assumes "b = hdr_list e f m @ rest"
  shows "img32 (img b k) 24 = e" "phdrs (img b k) = [\<lparr>p_type = 1, p_offset = 0, p_vaddr = 0, p_filesz = f, p_memsz = m\<rparr>]" "is_elf b"
proof -
  have i: "img b k (of_nat i) = (hdr_list e f m) ! i" if "i < 84" for i
    using that assms by (simp add: img_def unat_of_nat32 nth_append)
  show "is_elf b" using assms by (simp add: is_elf_def hdr_list_def)
  have w: "img32 (img b k) (of_nat i) = le32 [hdr_list e f m ! i, hdr_list e f m ! (i + 1), hdr_list e f m ! (i + 2), hdr_list e f m ! (i + 3)] 0"
    if "i < 81" for i using that i [of i] i [of "i + 1"] i [of "i + 2"] i [of "i + 3"] by (simp add: img32_def ac_simps)
  have h: "img16 (img b k) (of_nat i) = le16 [hdr_list e f m ! i, hdr_list e f m ! (i + 1)] 0"
    if "i < 83" for i using that i [of i] i [of "i + 1"] by (simp add: img16_def ac_simps)
  note bytes = hdr_list_def le32_bytes_def le16_bytes_def
  show "img32 (img b k) 24 = e" using w [of 24] le32_le32_bytes [of e] by (simp add: bytes)
  have "img32 (img b k) 28 = 52" "img32 (img b k) 52 = 1" "img32 (img b k) 56 = 0" "img32 (img b k) 60 = 0"
    using w [of 28] w [of 52] w [of 56] w [of 60] le32_le32_bytes [of 52] le32_le32_bytes [of 1] le32_le32_bytes [of 0] by (simp_all add: bytes)
  moreover have "img32 (img b k) 68 = f" "img32 (img b k) 72 = m"
    using w [of 68] w [of 72] le32_le32_bytes [of f] le32_le32_bytes [of m] by (simp_all add: bytes)
  moreover have "img16 (img b k) 42 = 32" "img16 (img b k) 44 = 1"
    using h [of 42] h [of 44] le16_le16_bytes [of 32] le16_le16_bytes [of 1] by (simp_all add: bytes)
  ultimately show "phdrs (img b k) = [\<lparr>p_type = 1, p_offset = 0, p_vaddr = 0, p_filesz = f, p_memsz = m\<rparr>]"
    by (simp add: phdrs_def phdr_at_def Let_def)
qed


subsection \<open>The program on any file service\<close>

definition io_ok :: "as_io \<Rightarrow> bool" where
  "io_ok io \<longleftrightarrow> stk_src io \<noteq> [] \<and> stk_out io \<noteq> [] \<and> 0 \<notin> set (io_cwd io) \<and> 0 \<notin> set (io_src io) \<and> 0 \<notin> set (io_out io)"

abbreviation src_path :: "as_io \<Rightarrow> (bool \<times> u8 list) option" where
  "src_path io \<equiv> path_fs (Some (io_cwd io)) (Some (io_src io)) (stk_src io)"

abbreviation out_path :: "as_io \<Rightarrow> (bool \<times> u8 list) option" where
  "out_path io \<equiv> path_fs (Some (io_cwd io)) (Some (io_out io)) (stk_out io)"

lemma out_path_ok: "io_ok io \<Longrightarrow> out_path io = Some (True, p) \<Longrightarrow> path_ok (cstr p)"
  using path_fs_key [of "io_cwd io" "io_out io" "stk_out io" p]
  by (auto simp: io_ok_def path_ok_def cstr_def dest: set_takeWhileD)

text \<open>Everything but the console.\<close>

lemma say_fields [simp]:
  "text_len (say_bytes t st) = text_len st" "data_len (say_bytes t st) = data_len st" "bss_len (say_bytes t st) = bss_len st"
  "text_buf (say_bytes t st) = text_buf st" "data_buf (say_bytes t st) = data_buf st" "syms (say_bytes t st) = syms st"
  "base_text (say_bytes t st) = base_text st" "base_data (say_bytes t st) = base_data st" "base_bss (say_bytes t st) = base_bss st"
  by (simp_all add: say_bytes_def)

lemma entry_of_say [simp]: "entry_of (say_bytes t st) = entry_of st"
  by (simp only: entry_of_def sym_find_def say_fields)

lemma as_main_success:
  assumes "as_main fc io k = Some (0, st, k')"
  obtains sp op n bytes st0 st1 elf where "src_path io = Some (True, sp)" "out_path io = Some (True, op)"
    "f_load fc (cstr sp) (MAX_SRC - 1) k = (n, bytes)" "0 < n" "err_count st0 = 0" "syms st0 = []"
    "assemble (stk_line io) (take (nat n) bytes) st0 = Some (True, st1)" "st = say_bytes (ok_text st1 (length elf)) st1"
    "build_elf st1 (int image_size) = Some elf"
    "f_save fc (cstr op) (elf @ replicate (image_size - length elf) 0) (length elf) k = (0, k')"
proof -
  define s0 where "s0 = as_puts ''output file: '' (as_puts ''source file: '' (if io_cwd io \<noteq> [] then as_puts ''\<newline>'' (say_bytes (io_cwd io) (as_puts ''dir: /'' (as_puts ''as v1 (x86-32, AT&T)\<newline>'' asm_start))) else as_puts ''as v1 (x86-32, AT&T)\<newline>'' asm_start))"
  have s0: "err_count s0 = 0" "syms s0 = []" by (simp_all add: s0_def as_puts_def say_bytes_def asm_start_def)
  note r = assms [unfolded as_main_def Let_def, folded s0_def]
  obtain sp where sp: "src_path io = Some (True, sp)" using r by (auto split: bind_splits if_splits)
  obtain op where op: "out_path io = Some (True, op)" using r sp by (auto split: bind_splits if_splits)
  obtain n bytes where l: "f_load fc (cstr sp) (MAX_SRC - 1) k = (n, bytes)" by (cases "f_load fc (cstr sp) (MAX_SRC - 1) k")
  then have n: "0 < n" using r sp op by (auto split: if_splits)
  let ?st = "s0\<lparr>cur_src := cstr sp\<rparr>"
  obtain ok st1 where a: "assemble (stk_line io) (take (nat n) bytes) ?st = Some (ok, st1)"
    using r sp op l n by (auto split: bind_splits)
  then have ok: "ok" using r sp op l n by (cases ok) auto
  obtain elf where e: "build_elf st1 (int image_size) = Some elf"
    using r sp op l n a ok by (cases "build_elf st1 (int image_size)") auto
  obtain rc k1 where sv: "f_save fc (cstr op) (elf @ replicate (image_size - length elf) 0) (length elf) k = (rc, k1)"
    by (cases "f_save fc (cstr op) (elf @ replicate (image_size - length elf) 0) (length elf) k")
  have "rc = 0 \<and> k1 = k' \<and> st = say_bytes (ok_text st1 (length elf)) st1"
    using r sp op l n a ok e sv by (auto split: if_splits)
  then show ?thesis using that [of sp op n bytes ?st st1 elf] sp op l n a ok e sv s0 by simp
qed

context file_service
begin

lemma as_main_saved:
  assumes "as_main fc io k = Some (0, st, k')" "roomy (Suc m) k" "io_ok io"
  shows "\<exists>sp op src st0 st1 elf. src_path io = Some (True, sp) \<and> out_path io = Some (True, op) \<and> view k (cstr sp) = Some src \<and>
    err_count st0 = 0 \<and> syms st0 = [] \<and> assemble (stk_line io) src st0 = Some (True, st1) \<and>
    st = say_bytes (ok_text st1 (length elf)) st1 \<and> build_elf st1 (int image_size) = Some elf \<and>
    (length elf \<le> 49152 \<longrightarrow> roomy m k' \<and> view k' (cstr op) = Some elf)"
  using assms(1)
proof (cases rule: as_main_success)
  case (1 sp op n bytes st0 st1 elf)
  have v: "view k (cstr sp) = Some (take (nat n) bytes)"
    using load [OF assms(2), of "MAX_SRC - 1" "cstr sp"] 1(3,4) by (auto simp: MAX_SRC_def EDIT_BUF_def split: option.splits if_splits)
  have "roomy m k' \<and> view k' (cstr op) = Some elf" if "length elf \<le> 49152"
  proof -
    have "(length elf + 511) div 512 * 512 \<le> length (elf @ replicate (image_size - length elf) 0)"
    proof -
      have "(length elf + 511) div 512 \<le> 96" using div_le_mono [of "length elf + 511" 49663 512] that by simp
      moreover have "(length elf + 511) div 512 * 512 \<le> length elf \<or> length elf \<le> 49152" using that by simp
      ultimately show ?thesis using that by (simp add: image_size_def MAX_TEXT_def MAX_DATA_def ELF_HDR_SIZE_def)
    qed
    then show ?thesis
      using save [OF assms(2) out_path_ok [OF assms(3) 1(2)] _ _ 1(10)] that by (simp add: EDIT_BUF_def)
  qed
  then show ?thesis using 1 v by blast
qed

end

subsection \<open>The kernel runs the image\<close>

lemma elf_nth:
  assumes "build_elf st n = Some elf" "unat (text_len st) + unat (data_len st) \<le> 49068"
  shows "length elf = 84 + unat (text_len st) + unat (data_len st)"
    "i < unat (text_len st) \<Longrightarrow> elf ! (84 + i) = text_buf st i"
    "i < unat (data_len st) \<Longrightarrow> elf ! (84 + unat (text_len st) + i) = data_buf st i"
    "\<exists>rest. elf = hdr_list (entry_of st) (ELF_HDR_SIZE + text_len st + data_len st) (ELF_HDR_SIZE + text_len st + data_len st + bss_len st) @ rest"
proof -
  let ?h = "hdr_list (entry_of st) (ELF_HDR_SIZE + text_len st + data_len st) (ELF_HDR_SIZE + text_len st + data_len st + bss_len st)"
  have e: "elf = ?h @ map (text_buf st) [0..<unat (text_len st)] @ map (data_buf st) [0..<unat (data_len st)]"
    using assms(1) by (auto simp: build_elf_def Let_def elf_header_list split: if_splits)
  show "length elf = 84 + unat (text_len st) + unat (data_len st)" by (simp add: e)
  show "elf ! (84 + i) = text_buf st i" if "i < unat (text_len st)" using that by (simp add: e nth_append)
  show "elf ! (84 + unat (text_len st) + i) = data_buf st i" if "i < unat (data_len st)" using that by (simp add: e nth_append)
  show "\<exists>rest. elf = ?h @ rest" using e by blast
qed

text \<open>What the processor finds once a built image runs.\<close>

definition image_at :: "asm \<Rightarrow> mem \<Rightarrow> bool" where
  "image_at st m \<longleftrightarrow>
     (\<forall>i < unat (text_len st). m (USER_BASE + base_text st + of_nat i) = text_buf st i) \<and>
     (\<forall>i < unat (data_len st). m (USER_BASE + base_data st + of_nat i) = data_buf st i) \<and>
     (\<forall>i < unat (bss_len st). m (USER_BASE + base_bss st + of_nat i) = 0)"

lemma exec_user_starts:
  assumes "fs_read name FILE_BUF_MAX (fs_of k) = (sz, b)" "52 \<le> sz" "is_elf b"
  shows "\<exists>k'. exec_user name k = (Some (img32 (img b k) 24, USER_FB_OFFSET), k')"
proof -
  define k1 where "k1 = (set_vm ((kvm k)\<lparr>user_mmio_used := 0, user_dma_used := 0\<rparr>) k)\<lparr>user_brk_off := 0\<rparr>"
  have k1: "img b k1 = img b k" "fsys (files_in k1) = fs_of k"
    by (simp_all add: k1_def lens_defs img_def fun_eq_iff)
  show ?thesis using assms unfolding exec_user_def Let_def k1_def [symmetric] k1 by (auto simp: k1 split: prod.splits)
qed

lemma built_program_runs:
  assumes wf: "fs_wf (fs_of k)" and v: "kview k p = Some elf" and b: "build_elf st n = Some elf"
    and small: "unat (text_len st) + unat (data_len st) \<le> 49068" "unat (bss_len st) \<le> 24000000"
    and base: "base_text st = ELF_HDR_SIZE" "base_data st = base_text st + text_len st" "base_bss st = base_data st + data_len st"
  shows "\<exists>k'. exec_user (normalize_name p) k = (Some (entry_of st, USER_FB_OFFSET), k') \<and> image_at st (um k')"
proof -
  define f where "f = ELF_HDR_SIZE + text_len st + data_len st"
  define h where "h = \<lparr>p_type = 1, p_offset = 0, p_vaddr = 0, p_filesz = f, p_memsz = f + bss_len st\<rparr>"
  note E = elf_nth [OF b small(1)]
  obtain rest where r: "elf = hdr_list (entry_of st) f (f + bss_len st) @ rest" using E(4) by (auto simp: f_def)
  note H = hdr_nth(1) [OF r, of k] hdr_nth(2) [OF r, of k, folded h_def] hdr_nth(3) [OF r]
  have uf: "unat f = length elf" "unat (f + bss_len st) = length elf + unat (bss_len st)"
    using E(1) small by (simp_all add: f_def ELF_HDR_SIZE_def unat_add32)
  have len: "length elf \<le> 49152" using E(1) small(1) by simp
  have fr: "fs_read (normalize_name p) FILE_BUF_MAX (fs_of k) = (int (length elf), elf)"
    using fs_read_abs [OF wf, of "normalize_name p" FILE_BUF_MAX] v len
    by (simp add: kview_def fs_key_normalize FILE_BUF_MAX_def sint_unat unat_of_nat32 del: of_nat_unat)
  obtain k' where x: "exec_user (normalize_name p) k = (Some (entry_of st, USER_FB_OFFSET), k')"
    using exec_user_starts [OF fr _ H(3)] E(1) H(1) by auto
  have fs: "fs_of k = \<lparr>dk = kdisk k, fdir = kdir k\<rparr>" by (simp add: lens_defs)
  have ok: "\<forall>h \<in> set (phdrs (img elf k)). seg_ok h"
    using uf len small(2) by (simp add: H(2) h_def seg_ok_def tramp_off word_le_nat_alt)
  note L = exec_user_loaded [OF x fr [unfolded fs] refl ok, unfolded H(2)]
  have at: "um k' (USER_BASE + of_nat i) = (if i < length elf then elf ! i else 0)" if i: "i < length elf + unat (bss_len st)" for i
  proof -
    have u: "unat (of_nat i :: u32) = i" using i len small(2) by (simp add: unat_of_nat32)
    then show ?thesis using L [of "of_nat i"] i len small(2) uf
      by (simp add: loaded_def in_seg_def h_def seg_byte_def tramp_off img_def)
  qed
  have bases: "USER_BASE + base_text st + of_nat i = USER_BASE + of_nat (84 + i)"
    "USER_BASE + base_data st + of_nat i = USER_BASE + of_nat (84 + unat (text_len st) + i)"
    "USER_BASE + base_bss st + of_nat i = USER_BASE + of_nat (length elf + i)" for i
    by (simp_all add: base ELF_HDR_SIZE_def E(1))
  have "image_at st (um k')"
    unfolding image_at_def bases using E(1) by (simp add: at E(2,3) del: of_nat_add of_nat_numeral)
  then show ?thesis using x by blast
qed

text \<open>
  C36. An assembled program runs where the assembler put it. When the assembler ends well on this kernel -
  it has read the source from the file system, assembled it and saved the image - the kernel starts the
  saved file: control goes to the program's entry point (\<open>_start\<close>, else \<open>main\<close>, else the start of the text) and
  memory holds the text, the data and a zeroed bss exactly at the bases the assembler assigned to them.
  The source is one whose alignments depend on no symbol, the image has at most 49152 bytes (beyond that, the
  last sector that is saved reads past the array) and the bss ends below the program's stack.
\<close>

theorem assembled_program_runs:
  assumes "as_main (kcalls e) io k = Some (0, st, k1)" and "kroom (Suc m) k" and "io_ok io"
    and "\<forall>sp c. src_path io = Some (True, sp) \<longrightarrow> kview k (cstr sp) = Some c \<longrightarrow> src_ok c"
    and "unat (text_len st) + unat (data_len st) \<le> 49068" and "unat (bss_len st) \<le> 24000000"
  shows "\<exists>out k2. out_path io = Some (True, out) \<and>
    exec_user (normalize_name (cstr out)) k1 = (Some (entry_of st, USER_FB_OFFSET), k2) \<and> image_at st (um k2)"
proof -
  obtain sp op src st0 st1 elf where a: "src_path io = Some (True, sp)" "out_path io = Some (True, op)" "kview k (cstr sp) = Some src"
      "err_count st0 = 0" "assemble (stk_line io) src st0 = Some (True, st1)" "st = say_bytes (ok_text st1 (length elf)) st1"
      "build_elf st1 (int image_size) = Some elf" "length elf \<le> 49152 \<longrightarrow> kroom m k1 \<and> kview k1 (cstr op) = Some elf"
    using ksh.as_main_saved [OF assms(1-3)] by blast
  have s: "unat (text_len st1) + unat (data_len st1) \<le> 49068" "unat (bss_len st1) \<le> 24000000" using assms(5,6) by (simp_all add: a(6))
  have k1: "fs_wf (fs_of k1)" "kview k1 (cstr op) = Some elf" using a(8) elf_nth(1) [OF a(7) s(1)] s(1) by (simp_all add: kroom_def)
  have "src_ok src" using assms(4) a(1,3) by blast
  from assemble_places [OF a(5) this a(4)] have "base_text st1 = ELF_HDR_SIZE" "base_data st1 = base_text st1 + text_len st1"
    "base_bss st1 = base_data st1 + data_len st1" by blast+
  from built_program_runs [OF k1 a(7) s this] show ?thesis using a(2,6) by (auto simp: image_at_def)
qed

subsection \<open>A program assembled and run\<close>

definition demo_io :: as_io where
  "demo_io = \<lparr>io_cwd = [], io_src = map of_char ''a.s'', io_out = map of_char ''b'', stk_src = replicate 64 0xCC,
     stk_out = replicate 64 0xCC, stk_line = (\<lambda>_. [])\<rparr>"

definition demo_started :: asm where
  "demo_started = (as_puts ''output file: '' (as_puts ''source file: '' (as_puts ''as v1 (x86-32, AT&T)\<newline>'' asm_start)))\<lparr>cur_src := map of_char ''a.s''\<rparr>"

lemma demo_paths:
  "case src_path demo_io of Some (ok, p) \<Rightarrow> ok \<and> cstr p = map of_char ''a.s'' | None \<Rightarrow> False"
  "case out_path demo_io of Some (ok, p) \<Rightarrow> ok \<and> cstr p = map of_char ''b'' | None \<Rightarrow> False"
  by code_simp+

lemma demo_run:
  "case assemble (\<lambda>_. []) tiny_src demo_started of Some (ok, st) \<Rightarrow> ok \<and> text_len st = 1 \<and> data_len st = 0 \<and> bss_len st = 0 | None \<Rightarrow> False"
  by code_simp

lemma tiny_src_ok: "src_ok tiny_src"
  by code_simp

text \<open>A write succeeds as long as an entry is free.\<close>

lemma save_free:
  assumes "kroom (Suc m) k" "path_ok p" "(n + 511) div 512 * 512 \<le> length buf" "n \<le> EDIT_BUF" "j < 512" "\<not> dirent_used (fdir (fs_of k) ! j)"
  shows "\<exists>k'. f_save (kcalls e) p buf n k = (0, k') \<and> kroom m k' \<and> kview k' p = Some (take n buf) \<and>
    (\<exists>i d. fdir (fs_of k') = (fdir (fs_of k))[i := d])"
proof -
  obtain r s' where w: "fs_write (normalize_name p) buf (of_nat n) (fs_of k) = (r, s')" by fastforce
  have "fs_wf (fs_of k)" using assms(1) by (simp add: kroom_def)
  then have r: "r = 0 \<and> (\<exists>i d. fdir s' = (fdir (fs_of k))[i := d])"
    using w
  proof (cases rule: fs_write_cases)
    case full
    then show ?thesis using assms(5,6) by blast
  next
    case (ok i st)
    then show ?thesis by (simp add: sync_dir_frame) blast
  qed
  obtain rc k' where k': "f_save (kcalls e) p buf n k = (rc, k')" by fastforce
  have "fs_of k' = s'" "rc = 0"
    using k' w r fs_of_on_fs [of "fs_write (normalize_name p) buf (of_nat n)" k] by (auto simp: kcalls_def by_value_def)
  then show ?thesis using ksh.save [OF assms(1-4) k'] k' r by auto
qed

theorem assembled_program_runs_witness:
  "\<forall>e. \<exists>k st k1 out k2. as_main (kcalls e) demo_io k = Some (0, st, k1) \<and> out_path demo_io = Some (True, out) \<and>
    exec_user (normalize_name (cstr out)) k1 = (Some (entry_of st, USER_FB_OFFSET), k2) \<and> image_at st (um k2)"
proof
  fix e
  obtain sp where sp: "src_path demo_io = Some (True, sp)" "cstr sp = map of_char ''a.s''"
    using demo_paths(1) by (auto split: option.splits)
  obtain op where op: "out_path demo_io = Some (True, op)" "cstr op = map of_char ''b''"
    using demo_paths(2) by (auto split: option.splits)
  have pok: "path_ok (cstr sp)" "path_ok (cstr op)" by (simp_all add: sp op path_ok_def)
  have "length tiny_src = 6" by (simp add: tiny_src_def)
  then obtain k i d where k: "kroom 2 k" "kview k (cstr sp) = Some tiny_src" "fdir (fs_of k) = (fdir big_fs)[i := d]"
    using save_free [OF big_room [of "Suc 2"] pok(1), of 6 "tiny_src @ replicate 506 0" 0 e]
    by (auto simp: big_fs_of EDIT_BUF_def big_fs_def dirent_used_def zero_dirent_def arr_get_def)
  have free: "\<exists>j < 512. \<not> dirent_used (fdir (fs_of k) ! j)"
    by (rule exI [of _ "if i = 0 then 1 else 0"]) (auto simp: k(3) big_fs_def dirent_used_def zero_dirent_def arr_get_def)
  obtain st1 where st1: "assemble (\<lambda>_. []) tiny_src demo_started = Some (True, st1)" "text_len st1 = 1" "data_len st1 = 0" "bss_len st1 = 0"
    using demo_run by (auto split: option.splits)
  obtain elf where elf: "build_elf st1 (int image_size) = Some elf"
    using assemble_bounded [OF st1(1)] by (auto simp: demo_started_def as_puts_def asm_start_def)
  have len: "length elf = 85" using elf_nth(1) [OF elf] st1 by simp
  obtain k1 where k1: "f_save (kcalls e) (cstr op) (elf @ replicate (image_size - length elf) 0) (length elf) k = (0, k1)"
    using save_free [of 1 k "cstr op" "length elf" "elf @ replicate (image_size - length elf) 0"] pok k(1) free len
    by (auto simp: numeral_2_eq_2 EDIT_BUF_def image_size_def MAX_TEXT_def MAX_DATA_def)
  have ld: "f_load (kcalls e) (cstr sp) (MAX_SRC - 1) k = (6, tiny_src)"
    using ksh.load [OF k(1), of "MAX_SRC - 1" e "cstr sp"] k(2) \<open>length tiny_src = 6\<close> by (simp add: MAX_SRC_def EDIT_BUF_def)
  let ?st = "say_bytes (ok_text st1 (length elf)) st1"
  have m: "as_main (kcalls e) demo_io k = Some (0, ?st, k1)"
    using sp op ld st1(1) elf k1 \<open>length tiny_src = 6\<close> by (simp add: as_main_def demo_started_def) (simp add: demo_io_def)
  have "io_ok demo_io" by (simp add: io_ok_def demo_io_def)
  moreover have "\<forall>sp c. src_path demo_io = Some (True, sp) \<longrightarrow> kview k (cstr sp) = Some c \<longrightarrow> src_ok c"
    using sp(1) k(2) tiny_src_ok by simp
  ultimately have "\<exists>out k2. out_path demo_io = Some (True, out) \<and>
    exec_user (normalize_name (cstr out)) k1 = (Some (entry_of ?st, USER_FB_OFFSET), k2) \<and> image_at ?st (um k2)"
    using assembled_program_runs [OF m, of 1] k(1) st1 by (simp add: numeral_2_eq_2)
  then show "\<exists>k st k1 out k2. as_main (kcalls e) demo_io k = Some (0, st, k1) \<and> out_path demo_io = Some (True, out) \<and>
    exec_user (normalize_name (cstr out)) k1 = (Some (entry_of st, USER_FB_OFFSET), k2) \<and> image_at st (um k2)" using m by blast
qed

end
