(* ===== verification/Spec2Isabelle.thy ===== *)
theory Spec2Isabelle
  imports Threads FileSystem OpenFiles Isolation Display Keyboard Timer Loading SyscallErrors AllocLib Printf ShellKernel
    AsmRound AsmTypes AsmKernel
begin

text \<open>
  \<^bold>\<open>mini-os32\<close> is a 32-bit operating system in C: a kernel (src/kernel), a shell and a C library for the
  programs built with it (src/user), a library for the programs compiled inside the system (src/fs/lib),
  an assembler and a C compiler that run in it, and boot loaders. These theories model the kernel
  function by function, the shell with its editor, the library and the assembler, and prove what they promise.

  \<^bold>\<open>How the program works.\<close> The loader starts \<open>kmain\<close>, which takes over the console and the disk, sets up
  paging, the descriptor tables and the timer, and then runs programs one after the other, starting
  with the shell. A program runs in an address space of its own: 24 MB of memory, and windows for the
  frame buffer, device registers and DMA memory. It calls the kernel with \<open>int 0x80\<close>; timer ticks
  switch between its threads. Files live in a flat directory of 512 entries; the disk is an ATA drive,
  or a RAM disk that writes through to a partition of an NVMe drive. Directories exist only as names
  that end in a slash, and are the business of the shell and the library.

  \<^bold>\<open>How the model is written.\<close> A C structure or group of static variables is a record, a function is a
  definition with the state as an argument and a result, machine integers are words (or \<open>int\<close>/\<open>nat\<close> where the
  code cannot overflow and the text of the theory says why), errors are the return values of the code.
  Memory that the code addresses is a function from 32-bit addresses to bytes; an array that cannot be
  aliased is a list, and for user programs a store outside such a list is \<open>None\<close> (CBuffer). A loop that ends is
  a total function with its measure; a loop that may not end is a partial function whose value is
  then \<open>None\<close>, or runs over the list of the inputs it gets (keys, lines, wake-ups). No fuel is used as a bound on
  a loop of the code except where the code counts itself.

  \<^bold>\<open>The theories and what they show.\<close>

    \<^item> Prelude: word and list lemmas, byte order, memory as a function. UserMem: \<open>user_range_ok\<close>,
      \<open>user_copy_str\<close>, names (kernel.c); a checked range lies in the user segment, a copied name is bounded.
    \<^item> Threads: the thread table and the scheduler (\<open>thread_create\<close>, \<open>thread_schedule\<close>, \<open>thread_exit_switch\<close>):
      round robin, no thread starves, every reachable table is well formed.
    \<^item> Nvme, NvmeInit: the driver of nvme.c, submission and completion queues, PCI discovery and bring-up;
      what is written is read back, and bring-up establishes what the data path needs. The controller
      is a parameter with its documented behaviour as a hypothesis.
    \<^item> Disk: ATA, RAM disk and the persistent store. The locale \<open>block_dev\<close> states what a sector device
      promises; it is interpreted on the ATA driver, the RAM disk and the choice between them. Writes
      stay in the store's partition, and a reboot reads back what was written.
    \<^item> FileSystem, OpenFiles: the directory and \<open>fs_read\<close>, \<open>fs_write\<close>, \<open>fs_rename\<close>, \<open>fs_delete\<close> refine a map from names
      to contents; the descriptor calls store and return exactly the bytes of the stream.
    \<^item> Paging, AddressSpace, Isolation: PAE tables, the kernel's and the program's address space,
      \<open>sys_map_phys\<close> and \<open>sys_dma_alloc\<close>; which pages a program can reach and that the kernel's are not among them.
    \<^item> Console, Display, Keyboard: text and frame buffer console with scroll-back, video modes and
      interrupt controllers, scan codes and the line editor. The key queue is an instance of the
      locale \<open>bounded_fifo\<close>; drawing stays in the frame buffer.
    \<^item> Acpi, Descriptors, Timer: power off, GDT/IDT/TSS, clocks and calibration, 64-bit division.
    \<^item> Kernel, Exec, Loading: the whole kernel state, interrupt and fault handlers, ELF loading and
      the boot sequence; a loaded program's memory is exactly its file's segments and zeros.
    \<^item> Syscall, SyscallSafe, SyscallErrors: every case of \<open>syscall_dispatch\<close> and the entry stub; whatever registers
      a program passes, a call writes user memory only inside the first 40 MB; bad pointers are refused, and
      a call on files, names, the console or for information that reports an error has changed nothing.
    \<^item> CBuffer, PathLib, StringLib: buffers of programs, path resolution (user/libc.c, as in fs/lib/path.c), strings.
    \<^item> AllocLib: \<open>malloc\<close> and its relatives over \<open>SYS_SBRK\<close>; the locale \<open>sbrk_service\<close> is what the allocator needs of
      the kernel, interpreted on \<open>sys_sbrk\<close>. Blocks in use never overlap, \<open>realloc\<close> keeps contents.
    \<^item> Format, Printf: numbers, floats, \<open>printf\<close>, \<open>snprintf\<close>, \<open>scanf\<close>, \<open>strtol\<close>; numbers survive printing and reading,
      \<open>snprintf\<close> truncates \<open>printf\<close>, float texts fit their buffers. The floating point unit is a parameter.
    \<^item> Editor, Shell, ShellKernel: the editor is a text with a cursor; the shell's commands. The locales
      \<open>file_service\<close> and \<open>shell_os\<close> are what they need of the system and are interpreted on the kernel: any
      sequence of commands stays in the shell's buffers and keeps the file system well formed, and
      what the editor saves is what the file system holds.
    \<^item> AsmLex, AsmEncode, Assembler: the assembler (user/as.c): symbols, expressions and operands; \<open>asm_insn\<close>, as
      the list of what it emits; directives, labels, the passes, the ELF image and \<open>main\<close>. The cursor \<open>lp\<close> is the
      rest of the line. The only loop that may not end is that of \<open>.align\<close> (\<open>align_loop\<close>): it returns in pass 1,
      and in the emit pass it does not when the buffer is full (AsmBounds, \<open>align_loop_full\<close>).
    \<^item> AsmDecode, AsmRound: a decoder for the instructions of the processor; what \<open>asm_insn\<close> emits decodes to
      the instruction it was given. AsmTypes: the operands that are parsed are those the encoder expects.
    \<^item> AsmStep, AsmPasses: two passes over a line advance alike, so that the emit pass finds every label
      where pass 1 put it. AsmBounds: no store leaves the buffers, pass 1 ends. AsmKernel: the program on
      the locale \<open>file_service\<close>, and what the kernel finds when it runs the file the assembler saved.

  \<^bold>\<open>Parameters.\<close> Devices are functions with named hypotheses: the NVMe controller (\<open>controller_ok\<close>), the ATA
  drive (\<open>ata_ok\<close>), port reads, clocks, the BIOS, the floating point unit, and the user program between
  two system calls. Every property with such a hypothesis has a witness on a concrete device.

  \<^bold>\<open>Not modelled.\<close> The C compiler (user/cc.c, and its copy for the host, tools/cc_host_src.c) is a program of its
  own, of the size of the kernel; the boot loaders are firmware calls and start-up assembly; fs/hw and
  fs/demo are test and demonstration programs around system calls; the system call wrappers of user/libc.c
  and its second \<open>printf\<close> and \<open>scanf\<close> repeat those of fs/lib/stdio.c. Interrupt delivery inside
  the kernel is modelled where the code waits for it with interrupts enabled. Of the assembly files
  the system call entry is modelled (Syscall), the others load registers.
\<close>

end
